(* ===== verification/KP_Prelude.thy ===== *)
theory KP_Prelude
  imports Main "HOL-Library.Word" "HOL-Library.Monad_Syntax"
begin

text \<open>
  Shared vocabulary of the development: the machine types of \<^verbatim>\<open>src/utils/types.h\<close> on the
  64-bit PC build, null-able pointers, the \<^verbatim>\<open>ASSERT\<close> macro of \<^verbatim>\<open>src/utils/utils.h\<close> as
  a step of the option monad, and the lemmas on options, lists and words that the component
  theories share. The simplification rules that unfold the operations of a component are
  collected in \<open>kp_defs\<close>.
\<close>

named_theorems kp_defs \<open>unfolding rules of the operations\<close>

section \<open>Machine types\<close>

text \<open>\<^verbatim>\<open>size_t\<close>, \<^verbatim>\<open>unsigned long\<close> and \<^verbatim>\<open>int\<close> of the PC build.\<close>

type_synonym COUNT = "64 word"
type_synonym INDEX = "64 word"
type_synonym TIME = "64 word"
type_synonym WEIGHT = "64 word"
type_synonym ATOMIC = "64 word"

text \<open>A pointer to an object is the object's identity, or \<open>None\<close> for \<^verbatim>\<open>NULL\<close>.\<close>

type_synonym addr = nat
type_synonym ptr = "addr option"

abbreviation NULL :: "'a option" where
  "NULL \<equiv> None"

section \<open>Assertions and failure\<close>

text \<open>
  An operation that can panic, or whose C text would dereference \<^verbatim>\<open>NULL\<close>, has an option
  type: \<open>None\<close> is the panic. \<open>ASSERT\<close> is the debug build's macro, which panics when its
  condition is false.
\<close>

definition ASSERT :: "bool \<Rightarrow> unit option" where
  "ASSERT c = (if c then Some () else None)"

lemma bind_ASSERT [simp]: "Option.bind (ASSERT c) f = (if c then f () else None)"
  by (simp add: ASSERT_def)

lemma ASSERT_True [simp]: "ASSERT True = Some ()"
  by (simp add: ASSERT_def)

lemma bind_Some_iff: "Option.bind m f = Some y \<longleftrightarrow> (\<exists>x. m = Some x \<and> f x = Some y)"
  by (cases m) auto

lemma bind_SomeE:
  assumes "Option.bind m f = Some y"
  obtains x where "m = Some x" and "f x = Some y"
  using assms by (cases m) auto

section \<open>Words as naturals\<close>

lemma unat_Suc_word:
  fixes c :: "'a::len word"
  assumes "unat c + 1 < 2 ^ LENGTH('a)"
  shows "unat (c + 1) = unat c + 1"
  using assms by (simp add: unat_word_ariths)

lemma unat_add_word:
  fixes a b :: "'a::len word"
  assumes "unat a + unat b < 2 ^ LENGTH('a)"
  shows "unat (a + b) = unat a + unat b"
  using assms by (simp add: unat_word_ariths)

lemma unat_sub_word:
  fixes a b :: "'a::len word"
  assumes "b \<le> a"
  shows "unat (a - b) = unat a - unat b"
  using assms by (rule unat_sub)

lemma unat_pred_word:
  fixes c :: "'a::len word"
  assumes "c \<noteq> 0"
  shows "unat (c - 1) = unat c - 1"
proof -
  have "1 \<le> c" using assms by (metis word_less_1 linorder_not_less)
  then show ?thesis by (simp add: unat_sub)
qed

lemma unat_less_64: "unat (x :: 64 word) < 18446744073709551616"
  using unsigned_less [of x, where ?'a = nat] by simp

end
