(* ===== verification/LinkedList.thy ===== *)
theory LinkedList
  imports KP_Prelude
begin

text \<open>
  The intrusive circular doubly linked list of \<^verbatim>\<open>src/utils/linkedlist.c\<close>, pointer by
  pointer: a store maps the address of a link to its \<^verbatim>\<open>Next\<close> and \<^verbatim>\<open>Prev\<close> fields, a
  list is its \<^verbatim>\<open>Head\<close> pointer. \<open>list_rep s l xs\<close> says that \<open>l\<close> is the ring of
  the distinct links \<open>xs\<close>. Every operation is shown to succeed on such a list, to have the
  effect its comment promises on \<open>xs\<close>, and to leave every other list of the store alone.
  The interface the kernel's queues rely on is the locale \<open>fifo_store\<close>.
\<close>

section \<open>Data\<close>

record LINKED_LIST_LINK =
  ll_Next :: ptr
  ll_Prev :: ptr

record LINKED_LIST =
  ll_Head :: ptr

type_synonym link_store = "addr \<rightharpoonup> LINKED_LIST_LINK"

text \<open>Reading and writing a field through a pointer; \<open>None\<close> when the pointer is not a link.\<close>

definition ll_get :: "link_store \<Rightarrow> ptr \<Rightarrow> LINKED_LIST_LINK option" where
  "ll_get s p = (case p of NULL \<Rightarrow> None | Some a \<Rightarrow> s a)"

definition ll_set_Next :: "ptr \<Rightarrow> ptr \<Rightarrow> link_store \<Rightarrow> link_store option" where
  "ll_set_Next p v s =
     (case p of NULL \<Rightarrow> None
      | Some a \<Rightarrow> (case s a of None \<Rightarrow> None | Some l \<Rightarrow> Some (s(a \<mapsto> l\<lparr>ll_Next := v\<rparr>))))"

definition ll_set_Prev :: "ptr \<Rightarrow> ptr \<Rightarrow> link_store \<Rightarrow> link_store option" where
  "ll_set_Prev p v s =
     (case p of NULL \<Rightarrow> None
      | Some a \<Rightarrow> (case s a of None \<Rightarrow> None | Some l \<Rightarrow> Some (s(a \<mapsto> l\<lparr>ll_Prev := v\<rparr>))))"

section \<open>Operations\<close>

definition LinkedListInsert :: "ptr \<Rightarrow> ptr \<Rightarrow> link_store \<Rightarrow> link_store option" where
  "LinkedListInsert node list s =
     do {
       ASSERT (node \<noteq> NULL);
       if list = NULL then
         do { s \<leftarrow> ll_set_Next node node s;
              ll_set_Prev node node s }
       else
         do { s \<leftarrow> ll_set_Next node list s;
              l \<leftarrow> ll_get s list;
              s \<leftarrow> ll_set_Prev node (ll_Prev l) s;
              l \<leftarrow> ll_get s list;
              s \<leftarrow> ll_set_Next (ll_Prev l) node s;
              ll_set_Prev list node s }
     }"

definition LinkedListRemove :: "ptr \<Rightarrow> link_store \<Rightarrow> link_store option" where
  "LinkedListRemove node s =
     do {
       ASSERT (node \<noteq> NULL);
       n \<leftarrow> ll_get s node;
       s \<leftarrow> ll_set_Next (ll_Prev n) (ll_Next n) s;
       n \<leftarrow> ll_get s node;
       s \<leftarrow> ll_set_Prev (ll_Next n) (ll_Prev n) s;
       s \<leftarrow> ll_set_Next node node s;
       ll_set_Prev node node s
     }"

definition LinkedListPush ::
    "ptr \<Rightarrow> LINKED_LIST \<Rightarrow> link_store \<Rightarrow> (LINKED_LIST \<times> link_store) option" where
  "LinkedListPush node list s =
     do {
       s \<leftarrow> LinkedListInsert node (ll_Head list) s;
       Some (list\<lparr>ll_Head := node\<rparr>, s)
     }"

definition LinkedListPop ::
    "LINKED_LIST \<Rightarrow> link_store \<Rightarrow> (ptr \<times> LINKED_LIST \<times> link_store) option" where
  "LinkedListPop list s =
     (if ll_Head list = NULL then Some (NULL, list, s)
      else
        do {
          let top = ll_Head list;
          h \<leftarrow> ll_get s top;
          if ll_Head list = ll_Next h then Some (top, list\<lparr>ll_Head := NULL\<rparr>, s)
          else
            do {
              let list = list\<lparr>ll_Head := ll_Next h\<rparr>;
              s \<leftarrow> LinkedListRemove top s;
              Some (top, list, s)
            }
        })"

definition LinkedListEnqueue ::
    "ptr \<Rightarrow> LINKED_LIST \<Rightarrow> link_store \<Rightarrow> (LINKED_LIST \<times> link_store) option" where
  "LinkedListEnqueue node list s =
     do {
       s \<leftarrow> LinkedListInsert node (ll_Head list) s;
       n \<leftarrow> ll_get s node;
       Some (list\<lparr>ll_Head := ll_Next n\<rparr>, s)
     }"

definition LinkedListIsEmpty :: "LINKED_LIST \<Rightarrow> bool" where
  "LinkedListIsEmpty list = (if ll_Head list = NULL then True else False)"

definition LinkedListInit :: "LINKED_LIST \<Rightarrow> LINKED_LIST" where
  "LinkedListInit list = list\<lparr>ll_Head := NULL\<rparr>"

definition LinkedListPeek :: "LINKED_LIST \<Rightarrow> ptr" where
  "LinkedListPeek list = ll_Head list"

lemmas ll_ops =
  ll_get_def ll_set_Next_def ll_set_Prev_def LinkedListInsert_def LinkedListRemove_def

section \<open>The ring a list represents\<close>

definition nxt :: "link_store \<Rightarrow> addr \<Rightarrow> ptr" where
  "nxt s a = (case s a of None \<Rightarrow> None | Some l \<Rightarrow> ll_Next l)"

definition prv :: "link_store \<Rightarrow> addr \<Rightarrow> ptr" where
  "prv s a = (case s a of None \<Rightarrow> None | Some l \<Rightarrow> ll_Prev l)"

fun chain :: "link_store \<Rightarrow> addr list \<Rightarrow> bool" where
  "chain s [] = True"
| "chain s [a] = True"
| "chain s (a # b # xs) = (nxt s a = Some b \<and> prv s b = Some a \<and> chain s (b # xs))"

definition ring :: "link_store \<Rightarrow> addr list \<Rightarrow> bool" where
  "ring s xs \<longleftrightarrow> distinct xs \<and> (xs \<noteq> [] \<longrightarrow> chain s (xs @ [hd xs]))"

definition list_rep :: "link_store \<Rightarrow> LINKED_LIST \<Rightarrow> addr list \<Rightarrow> bool" where
  "list_rep s list xs \<longleftrightarrow>
     ring s xs \<and> ll_Head list = (if xs = [] then NULL else Some (hd xs))"

lemma chain_append:
  "chain s (xs @ a # ys) \<longleftrightarrow> chain s (xs @ [a]) \<and> chain s (a # ys)"
  by (induction s xs rule: chain.induct) auto

lemma chain_snoc2:
  "chain s (xs @ [a, b]) \<longleftrightarrow> chain s (xs @ [a]) \<and> nxt s a = Some b \<and> prv s b = Some a"
  using chain_append [of s xs a "[b]"] by simp

lemma chain_frame:
  assumes "chain s xs"
    and "\<forall>a\<in>set (butlast xs). nxt s' a = nxt s a"
    and "\<forall>b\<in>set (tl xs). prv s' b = prv s b"
  shows "chain s' xs"
  using assms by (induction s xs rule: chain.induct) (auto split: if_splits)

lemma ring_snoc:
  "ring s (ys @ [p]) \<longleftrightarrow>
     distinct (ys @ [p]) \<and> chain s (ys @ [p]) \<and>
     nxt s p = Some (hd (ys @ [p])) \<and> prv s (hd (ys @ [p])) = Some p"
  by (auto simp: ring_def chain_snoc2)

lemma ring_Cons:
  assumes "ring s (h # xs)"
  obtains p ys where "h # xs = ys @ [p]" and "prv s h = Some p" and "nxt s p = Some h"
    and "p \<in> set (h # xs)" and "chain s (ys @ [p])" and "distinct (ys @ [p])"
proof -
  obtain ys p where eq: "h # xs = ys @ [p]" by (metis rev_exhaust list.distinct(1))
  with assms have r: "ring s (ys @ [p])" by simp
  from eq have "hd (ys @ [p]) = h" by (metis list.sel(1))
  with r eq show ?thesis
    by (intro that [of ys p]) (auto simp: ring_snoc)
qed

lemma nxt_dom: "nxt s a = Some b \<Longrightarrow> a \<in> dom s"
  by (auto simp: nxt_def split: option.splits)

lemma prv_dom: "prv s a = Some b \<Longrightarrow> a \<in> dom s"
  by (auto simp: prv_def split: option.splits)

lemma chain_dom: "chain s xs \<Longrightarrow> a \<in> set (butlast xs) \<Longrightarrow> a \<in> dom s"
  by (induction s xs rule: chain.induct) (auto dest: nxt_dom split: if_splits)

lemma ring_dom: "ring s xs \<Longrightarrow> a \<in> set xs \<Longrightarrow> a \<in> dom s"
  using chain_dom [of s "xs @ [hd xs]" a] by (cases xs) (auto simp: ring_def)

lemma ring_frame:
  assumes "ring s xs" and "\<forall>a\<in>set xs. nxt s' a = nxt s a" and "\<forall>a\<in>set xs. prv s' a = prv s a"
  shows "ring s' xs"
proof (cases "xs = []")
  case False
  with assms have "chain s (xs @ [hd xs])" by (simp add: ring_def)
  then have "chain s' (xs @ [hd xs])"
  proof (rule chain_frame)
    show "\<forall>a\<in>set (butlast (xs @ [hd xs])). nxt s' a = nxt s a"
      using assms(2) by simp
    show "\<forall>b\<in>set (tl (xs @ [hd xs])). prv s' b = prv s b"
      using assms(3) False by (auto dest: list.set_sel(2))
  qed
  with assms(1) False show ?thesis by (simp add: ring_def)
qed (simp add: ring_def)

section \<open>Inserting and removing\<close>

text \<open>What one insertion does to the fields, whatever list the neighbours belong to.\<close>

lemma insert_empty:
  assumes "n \<in> dom s"
  shows "\<exists>s'. LinkedListInsert (Some n) NULL s = Some s' \<and> dom s' = dom s \<and>
     (\<forall>a. nxt s' a = (if a = n then Some n else nxt s a)) \<and>
     (\<forall>a. prv s' a = (if a = n then Some n else prv s a))"
  using assms by (auto simp: ll_ops nxt_def prv_def)

lemma insert_before:
  assumes "n \<in> dom s" and "h \<in> dom s" and "prv s h = Some p" and "p \<in> dom s"
    and "n \<noteq> h" and "n \<noteq> p"
  shows "\<exists>s'. LinkedListInsert (Some n) (Some h) s = Some s' \<and> dom s' = dom s \<and>
     (\<forall>a. nxt s' a = (if a = n then Some h else if a = p then Some n else nxt s a)) \<and>
     (\<forall>a. prv s' a = (if a = n then Some p else if a = h then Some n else prv s a))"
  using assms by (cases "h = p") (auto simp: ll_ops nxt_def prv_def)

lemma remove_link:
  assumes "nxt s h = Some y" and "prv s h = Some p" and "y \<in> dom s" and "p \<in> dom s"
    and "y \<noteq> h" and "p \<noteq> h"
  shows "\<exists>s'. LinkedListRemove (Some h) s = Some s' \<and> dom s' = dom s \<and>
     (\<forall>a. nxt s' a = (if a = h then Some h else if a = p then Some y else nxt s a)) \<and>
     (\<forall>a. prv s' a = (if a = h then Some h else if a = y then Some p else prv s a))"
proof -
  obtain lh where "s h = Some lh" "ll_Next lh = Some y" "ll_Prev lh = Some p"
    using assms(1,2) by (auto simp: nxt_def prv_def split: option.splits)
  moreover obtain ly where "s y = Some ly" using assms(3) by blast
  moreover obtain lp where "s p = Some lp" using assms(4) by blast
  ultimately show ?thesis
    using assms(5,6) by (cases "y = p") (auto simp: ll_ops nxt_def prv_def)
qed

text \<open>
  Inserting before the head of a ring puts the new link between its last link and its head:
  read from the new link on it is a push, read from the old head on it is an enqueue.
\<close>

lemma insert_ring:
  assumes rep: "ring s xs" and n: "n \<in> dom s" "n \<notin> set xs"
  shows "\<exists>s'. LinkedListInsert (Some n) (if xs = [] then NULL else Some (hd xs)) s = Some s' \<and>
     dom s' = dom s \<and> ring s' (n # xs) \<and> ring s' (xs @ [n]) \<and>
     nxt s' n = Some (hd (xs @ [n])) \<and>
     (\<forall>a. a \<noteq> n \<longrightarrow> a \<notin> set xs \<longrightarrow> nxt s' a = nxt s a \<and> prv s' a = prv s a)"
proof (cases xs)
  case Nil
  with insert_empty [OF n(1)] show ?thesis by (auto simp: ring_def)
next
  case (Cons h t)
  obtain p ys where eq: "h # t = ys @ [p]" and hp: "prv s h = Some p" and ph: "nxt s p = Some h"
    and ch: "chain s (ys @ [p])" and d: "distinct (ys @ [p])"
    using ring_Cons [OF rep [unfolded Cons]] by metis
  from Cons n(2) have "n \<noteq> h" by simp
  moreover from eq Cons n(2) have "n \<noteq> p" "n \<notin> set ys" "p \<in> set xs" by auto
  ultimately have np: "n \<noteq> p" "n \<noteq> h" "n \<notin> set ys" "p \<in> set xs" by simp_all
  obtain s' where s': "LinkedListInsert (Some n) (Some h) s = Some s'" and dom: "dom s' = dom s"
    and nx: "\<And>a. nxt s' a = (if a = n then Some h else if a = p then Some n else nxt s a)"
    and pv: "\<And>a. prv s' a = (if a = n then Some p else if a = h then Some n else prv s a)"
    using insert_before [OF n(1) prv_dom [OF hp] hp nxt_dom [OF ph] np(2,1)] by auto
  have hh: "hd (ys @ [p]) = h" and tl: "tl (ys @ [p]) = t"
    using eq by (metis list.sel(1)) (metis eq list.sel(3))
  have "chain s' (ys @ [p])"
  proof (rule chain_frame [OF ch])
    show "\<forall>a\<in>set (butlast (ys @ [p])). nxt s' a = nxt s a"
      using d np by (auto simp: nx)
    have "h \<notin> set t" "n \<notin> set t" using rep Cons n(2) by (auto simp: ring_def)
    then show "\<forall>b\<in>set (tl (ys @ [p])). prv s' b = prv s b"
      unfolding tl by (auto simp: pv)
  qed
  then have ch': "chain s' (h # t)" by (simp add: eq)
  have d': "distinct (h # t)" using d eq by simp
  have xs: "xs = ys @ [p]" using Cons eq by simp
  have "chain s' (xs @ [n])"
    using ch' np eq by (simp add: xs chain_snoc2 nx pv)
  moreover have "hd (xs @ [n]) = h" using Cons by simp
  ultimately have "ring s' (xs @ [n])"
    using d' n(2) np Cons by (simp only: ring_snoc) (simp add: nx pv)
  moreover have "ring s' (n # xs)"
  proof -
    have "chain s' ((n # ys) @ [p])"
      using ch' np eq by (cases ys) (auto simp: nx pv)
    then show ?thesis
      using ring_snoc [of s' "n # ys" p] d np eq Cons by (simp add: nx pv)
  qed
  ultimately show ?thesis
    using s' dom nx pv np Cons by auto
qed

lemma LinkedListPush_rep:
  assumes "list_rep s l xs" and "n \<in> dom s" and "n \<notin> set xs"
  shows "\<exists>l' s'. LinkedListPush (Some n) l s = Some (l', s') \<and> list_rep s' l' (n # xs) \<and>
     dom s' = dom s \<and> (\<forall>a. a \<noteq> n \<longrightarrow> a \<notin> set xs \<longrightarrow> nxt s' a = nxt s a \<and> prv s' a = prv s a)"
  using insert_ring [of s xs n] assms
  by (fastforce simp: LinkedListPush_def list_rep_def)

lemma LinkedListEnqueue_rep:
  assumes "list_rep s l xs" and "n \<in> dom s" and "n \<notin> set xs"
  shows "\<exists>l' s'. LinkedListEnqueue (Some n) l s = Some (l', s') \<and> list_rep s' l' (xs @ [n]) \<and>
     dom s' = dom s \<and> (\<forall>a. a \<noteq> n \<longrightarrow> a \<notin> set xs \<longrightarrow> nxt s' a = nxt s a \<and> prv s' a = prv s a)"
proof -
  obtain s' where s': "LinkedListInsert (Some n) (ll_Head l) s = Some s'" "dom s' = dom s"
    "ring s' (xs @ [n])" "nxt s' n = Some (hd (xs @ [n]))"
    "\<forall>a. a \<noteq> n \<longrightarrow> a \<notin> set xs \<longrightarrow> nxt s' a = nxt s a \<and> prv s' a = prv s a"
    using insert_ring [of s xs n] assms by (auto simp: list_rep_def)
  from s'(4) obtain ln where "s' n = Some ln" "ll_Next ln = Some (hd (xs @ [n]))"
    by (auto simp: nxt_def split: option.splits)
  with s' show ?thesis
    by (auto simp: LinkedListEnqueue_def list_rep_def ll_get_def)
qed

lemma ring_tail:
  assumes "ring s (h # y # t)"
  shows "\<exists>p s'. prv s h = Some p \<and> LinkedListRemove (Some h) s = Some s' \<and> dom s' = dom s \<and>
     ring s' (y # t) \<and> ring s' [h] \<and>
     (\<forall>a. a \<notin> set (h # y # t) \<longrightarrow> nxt s' a = nxt s a \<and> prv s' a = prv s a)"
proof -
  obtain p zs where eq: "h # y # t = zs @ [p]" and hp: "prv s h = Some p" and ph: "nxt s p = Some h"
    and ch: "chain s (zs @ [p])" and d: "distinct (zs @ [p])"
    using ring_Cons [OF assms] by metis
  then obtain ys where ys: "zs = h # ys" "y # t = ys @ [p]"
    by (cases zs) auto
  have "chain s (h # y # t)" using ch by (simp only: eq)
  then have hy: "nxt s h = Some y" "prv s y = Some h" by simp_all
  have "distinct (h # y # t)" using d by (simp only: eq)
  then have "y \<noteq> h" "h \<notin> set t" by simp_all
  moreover have "p \<noteq> h" using d ys(1) by simp
  ultimately have ne: "y \<noteq> h" "p \<noteq> h" "h \<notin> set t" by simp_all
  obtain s' where s': "LinkedListRemove (Some h) s = Some s'" "dom s' = dom s"
    and nx: "\<And>a. nxt s' a = (if a = h then Some h else if a = p then Some y else nxt s a)"
    and pv: "\<And>a. prv s' a = (if a = h then Some h else if a = y then Some p else prv s a)"
    using remove_link [OF hy(1) hp prv_dom [OF hy(2)] nxt_dom [OF ph] ne(1,2)] by auto
  have "chain s (ys @ [p])" using ch ys by (cases ys) auto
  then have "chain s' (ys @ [p])"
  proof (rule chain_frame)
    show "\<forall>a\<in>set (butlast (ys @ [p])). nxt s' a = nxt s a"
      using d ys by (auto simp: nx)
    have "tl (ys @ [p]) = t" by (metis ys(2) list.sel(3))
    moreover have "y \<notin> set t" using d eq by (metis distinct.simps(2))
    ultimately show "\<forall>b\<in>set (tl (ys @ [p])). prv s' b = prv s b"
      using ne by (auto simp: pv)
  qed
  moreover have "hd (ys @ [p]) = y" by (metis ys(2) list.sel(1))
  ultimately have "ring s' (y # t)"
    using d ys ne by (simp add: ring_snoc nx pv)
  moreover have "ring s' [h]" by (simp add: ring_def nx pv)
  moreover have "\<forall>a. a \<notin> set (h # y # t) \<longrightarrow> nxt s' a = nxt s a \<and> prv s' a = prv s a"
  proof -
    have "p \<in> set (y # t)" using ys(2) by simp
    then show ?thesis by (auto simp: nx pv)
  qed
  ultimately show ?thesis using hp s' by blast
qed

lemma LinkedListPop_rep:
  assumes "list_rep s l (x # xs)"
  shows "\<exists>l' s'. LinkedListPop l s = Some (Some x, l', s') \<and> list_rep s' l' xs \<and> ring s' [x] \<and>
     dom s' = dom s \<and> (\<forall>a. a \<notin> set (x # xs) \<longrightarrow> nxt s' a = nxt s a \<and> prv s' a = prv s a)"
proof (cases xs)
  case Nil
  with assms have "nxt s x = Some x" and r: "ring s [x]" "ll_Head l = Some x"
    by (auto simp: list_rep_def ring_def)
  then obtain lx where "s x = Some lx" "ll_Next lx = Some x"
    by (auto simp: nxt_def split: option.splits)
  then have "LinkedListPop l s = Some (Some x, l\<lparr>ll_Head := NULL\<rparr>, s)"
    using r(2) by (simp add: LinkedListPop_def ll_get_def)
  with Nil r show ?thesis by (auto simp: list_rep_def ring_def)
next
  case (Cons y t)
  with assms have r: "ring s (x # y # t)" and hd: "ll_Head l = Some x"
    by (auto simp: list_rep_def)
  then obtain lx where lx: "s x = Some lx" "ll_Next lx = Some y" and "y \<noteq> x"
    by (auto simp: ring_def nxt_def split: option.splits)
  with ring_tail [OF r] hd Cons show ?thesis
    by (auto simp: LinkedListPop_def list_rep_def ll_get_def Let_def)
qed

lemma LinkedListPop_empty: "list_rep s l [] \<Longrightarrow> LinkedListPop l s = Some (NULL, l, s)"
  by (simp add: list_rep_def LinkedListPop_def)

lemma LinkedListIsEmpty_rep: "list_rep s l xs \<Longrightarrow> LinkedListIsEmpty l \<longleftrightarrow> xs = []"
  by (simp add: list_rep_def LinkedListIsEmpty_def)

lemma LinkedListPeek_rep:
  "list_rep s l xs \<Longrightarrow> LinkedListPeek l = (case xs of [] \<Rightarrow> NULL | x # _ \<Rightarrow> Some x)"
  by (simp add: list_rep_def LinkedListPeek_def split: list.splits)

lemma LinkedListInit_rep: "list_rep s (LinkedListInit l) []"
  by (simp add: list_rep_def LinkedListInit_def ring_def)

lemma list_rep_dom: "list_rep s l xs \<Longrightarrow> a \<in> set xs \<Longrightarrow> a \<in> dom s"
  by (auto simp: list_rep_def dest: ring_dom)

lemma list_rep_distinct: "list_rep s l xs \<Longrightarrow> distinct xs"
  by (simp add: list_rep_def ring_def)

lemma list_rep_frame:
  assumes "list_rep s l xs" and "\<forall>a\<in>set xs. nxt s' a = nxt s a \<and> prv s' a = prv s a"
  shows "list_rep s' l xs"
  using assms ring_frame [of s xs s'] by (simp add: list_rep_def)

section \<open>The queue interface\<close>

text \<open>
  What a user of the list as a first-in first-out queue relies on: enqueueing an allocated link
  that is not in the queue appends it, dequeueing takes the front off, and neither fails.
  \<open>enq_all\<close> and \<open>deq_all\<close> drive the two operations over a whole batch.
\<close>

fun enq_all :: "('a \<Rightarrow> 'q \<Rightarrow> 's \<Rightarrow> ('q \<times> 's) option) \<Rightarrow> 'a list \<Rightarrow> 'q \<Rightarrow> 's \<Rightarrow> ('q \<times> 's) option" where
  "enq_all enq [] q s = Some (q, s)"
| "enq_all enq (x # xs) q s =
     (case enq x q s of None \<Rightarrow> None | Some (q', s') \<Rightarrow> enq_all enq xs q' s')"

fun deq_all :: "('q \<Rightarrow> 's \<Rightarrow> ('a option \<times> 'q \<times> 's) option) \<Rightarrow> nat \<Rightarrow> 'q \<Rightarrow> 's \<Rightarrow>
    ('a option list \<times> 'q \<times> 's) option" where
  "deq_all deq 0 q s = Some ([], q, s)"
| "deq_all deq (Suc n) q s =
     (case deq q s of None \<Rightarrow> None
      | Some (x, q', s') \<Rightarrow>
          (case deq_all deq n q' s' of None \<Rightarrow> None
           | Some (xs, q'', s'') \<Rightarrow> Some (x # xs, q'', s'')))"

locale fifo_store =
  fixes rep :: "'s \<Rightarrow> 'q \<Rightarrow> 'a list \<Rightarrow> bool"
    and usable :: "'s \<Rightarrow> 'a set"
    and enq :: "'a \<Rightarrow> 'q \<Rightarrow> 's \<Rightarrow> ('q \<times> 's) option"
    and deq :: "'q \<Rightarrow> 's \<Rightarrow> ('a option \<times> 'q \<times> 's) option"
  assumes enq_law: "rep s q xs \<Longrightarrow> x \<in> usable s \<Longrightarrow> x \<notin> set xs \<Longrightarrow>
      \<exists>q' s'. enq x q s = Some (q', s') \<and> rep s' q' (xs @ [x]) \<and> usable s' = usable s"
    and deq_law: "rep s q (x # xs) \<Longrightarrow>
      \<exists>q' s'. deq q s = Some (Some x, q', s') \<and> rep s' q' xs \<and> usable s' = usable s"
    and deq_none: "rep s q [] \<Longrightarrow> deq q s = Some (None, q, s)"
begin

lemma enq_all_law:
  assumes "rep s q xs" and "set ys \<subseteq> usable s" and "distinct ys" and "set ys \<inter> set xs = {}"
  shows "\<exists>q' s'. enq_all enq ys q s = Some (q', s') \<and> rep s' q' (xs @ ys) \<and> usable s' = usable s"
  using assms
proof (induction ys arbitrary: xs q s)
  case (Cons y ys)
  then obtain q1 s1 where 1: "enq y q s = Some (q1, s1)" "rep s1 q1 (xs @ [y])"
    "usable s1 = usable s"
    using enq_law [of s q xs y] by auto
  have "\<exists>q' s'. enq_all enq ys q1 s1 = Some (q', s') \<and> rep s' q' ((xs @ [y]) @ ys) \<and>
      usable s' = usable s1"
    by (rule Cons.IH [OF 1(2)]) (use Cons.prems 1(3) in auto)
  with 1 show ?case by auto
qed auto

lemma deq_all_law:
  assumes "rep s q (xs @ ys)"
  shows "\<exists>q' s'. deq_all deq (length xs) q s = Some (map Some xs, q', s') \<and> rep s' q' ys"
  using assms
proof (induction xs arbitrary: q s)
  case (Cons x xs)
  then obtain q1 s1 where 1: "deq q s = Some (Some x, q1, s1)" "rep s1 q1 (xs @ ys)"
    using deq_law [of s q x "xs @ ys"] by auto
  with Cons.IH [OF 1(2)] show ?case by auto
qed auto

lemma fifo_order:
  assumes "rep s q xs" and "set ys \<subseteq> usable s" and "distinct ys" and "set ys \<inter> set xs = {}"
  shows "\<exists>q1 s1 q2 s2. enq_all enq ys q s = Some (q1, s1) \<and>
     deq_all deq (length (xs @ ys)) q1 s1 = Some (map Some (xs @ ys), q2, s2) \<and> rep s2 q2 []"
proof -
  obtain q1 s1 where 1: "enq_all enq ys q s = Some (q1, s1)" "rep s1 q1 ((xs @ ys) @ [])"
    using enq_all_law [OF assms] by auto
  with deq_all_law [OF 1(2)] show ?thesis by blast
qed

end

interpretation linked: fifo_store list_rep dom "\<lambda>n. LinkedListEnqueue (Some n)" LinkedListPop
proof unfold_locales
  fix s l and xs :: "addr list" and x
  assume "list_rep s l xs" "x \<in> dom s" "x \<notin> set xs"
  then show "\<exists>l' s'. LinkedListEnqueue (Some x) l s = Some (l', s') \<and> list_rep s' l' (xs @ [x]) \<and>
      dom s' = dom s"
    using LinkedListEnqueue_rep by metis
next
  fix s l x and xs :: "addr list"
  assume "list_rep s l (x # xs)"
  then show "\<exists>l' s'. LinkedListPop l s = Some (Some x, l', s') \<and> list_rep s' l' xs \<and> dom s' = dom s"
    using LinkedListPop_rep by metis
qed (rule LinkedListPop_empty)

section \<open>Properties\<close>

text \<open>
  The abstract list the ring stands for, under an arbitrary sequence of the three mutators. A
  pushed or enqueued link must be allocated and not already in the list.
\<close>

datatype list_call = CallPush addr | CallEnqueue addr | CallPop

fun call_c :: "list_call \<Rightarrow> LINKED_LIST \<Rightarrow> link_store \<Rightarrow> (ptr \<times> LINKED_LIST \<times> link_store) option" where
  "call_c (CallPush n) l s = map_option (\<lambda>(l', s'). (NULL, l', s')) (LinkedListPush (Some n) l s)"
| "call_c (CallEnqueue n) l s =
     map_option (\<lambda>(l', s'). (NULL, l', s')) (LinkedListEnqueue (Some n) l s)"
| "call_c CallPop l s = LinkedListPop l s"

fun calls_c :: "list_call list \<Rightarrow> LINKED_LIST \<Rightarrow> link_store \<Rightarrow>
    (ptr list \<times> LINKED_LIST \<times> link_store) option" where
  "calls_c [] l s = Some ([], l, s)"
| "calls_c (c # cs) l s =
     (case call_c c l s of None \<Rightarrow> None
      | Some (r, l', s') \<Rightarrow> map_option (\<lambda>(rs, l'', s''). (r # rs, l'', s'')) (calls_c cs l' s'))"

fun call_a :: "list_call \<Rightarrow> addr list \<Rightarrow> ptr \<times> addr list" where
  "call_a (CallPush n) xs = (NULL, n # xs)"
| "call_a (CallEnqueue n) xs = (NULL, xs @ [n])"
| "call_a CallPop [] = (NULL, [])"
| "call_a CallPop (x # xs) = (Some x, xs)"

fun calls_a :: "list_call list \<Rightarrow> addr list \<Rightarrow> ptr list \<times> addr list" where
  "calls_a [] xs = ([], xs)"
| "calls_a (c # cs) xs =
     (let (r, xs') = call_a c xs; (rs, xs'') = calls_a cs xs' in (r # rs, xs''))"

fun calls_ok :: "addr set \<Rightarrow> list_call list \<Rightarrow> addr list \<Rightarrow> bool" where
  "calls_ok A [] xs = True"
| "calls_ok A (c # cs) xs =
     ((case c of CallPop \<Rightarrow> True | CallPush n \<Rightarrow> n \<in> A \<and> n \<notin> set xs
        | CallEnqueue n \<Rightarrow> n \<in> A \<and> n \<notin> set xs) \<and>
      calls_ok A cs (snd (call_a c xs)))"

lemma call_simulation:
  assumes rep: "list_rep s l xs" and ok: "calls_ok (dom s) (c # cs) xs"
  shows "\<exists>l' s'. call_c c l s = Some (fst (call_a c xs), l', s') \<and>
     list_rep s' l' (snd (call_a c xs)) \<and> dom s' = dom s"
proof (cases c)
  case (CallPush n)
  with LinkedListPush_rep [OF rep, of n] ok show ?thesis by auto
next
  case (CallEnqueue n)
  with LinkedListEnqueue_rep [OF rep, of n] ok show ?thesis by auto
next
  case CallPop
  with LinkedListPop_rep [of s l] LinkedListPop_empty [of s l] rep show ?thesis
    by (cases xs) fastforce+
qed

text \<open>
  (C28) Refinement of the linked list. Every sequence of \<^verbatim>\<open>LinkedListPush\<close>,
  \<^verbatim>\<open>LinkedListEnqueue\<close> and \<^verbatim>\<open>LinkedListPop\<close> calls on a well-formed list, adding only
  allocated links that are not in it, runs without dereferencing a null pointer and returns what
  the same calls return on a plain sequence, whose contents the ring holds at the end.
\<close>

theorem linked_list_simulates:
  assumes "list_rep s l xs" and "calls_ok (dom s) cs xs"
  shows "\<exists>l' s'. calls_c cs l s = Some (fst (calls_a cs xs), l', s') \<and>
     list_rep s' l' (snd (calls_a cs xs))"
  using assms
proof (induction cs arbitrary: l s xs)
  case (Cons c cs)
  obtain l1 s1 where 1: "call_c c l s = Some (fst (call_a c xs), l1, s1)"
    "list_rep s1 l1 (snd (call_a c xs))" "dom s1 = dom s"
    using call_simulation [OF Cons.prems] by blast
  with Cons.IH [OF 1(2)] Cons.prems(2) show ?case
    by (auto simp: split_beta)
qed simp

text \<open>A concrete store: three unlinked nodes.\<close>

definition demo_store :: link_store where
  "demo_store = [1 \<mapsto> \<lparr>ll_Next = NULL, ll_Prev = NULL\<rparr>, 2 \<mapsto> \<lparr>ll_Next = NULL, ll_Prev = NULL\<rparr>,
     3 \<mapsto> \<lparr>ll_Next = NULL, ll_Prev = NULL\<rparr>]"

theorem linked_list_simulates_witness:
  "\<exists>l' s'. calls_c [CallEnqueue 1, CallEnqueue 2, CallPush 3, CallPop, CallPop]
      \<lparr>ll_Head = NULL\<rparr> demo_store
    = Some ([NULL, NULL, NULL, Some 3, Some 1], l', s') \<and> list_rep s' l' [2]"
proof -
  have "list_rep demo_store \<lparr>ll_Head = NULL\<rparr> []"
    by (simp add: list_rep_def ring_def)
  moreover have "calls_ok (dom demo_store)
      [CallEnqueue 1, CallEnqueue 2, CallPush 3, CallPop, CallPop] []"
    by (simp add: demo_store_def)
  ultimately show ?thesis
    using linked_list_simulates by fastforce
qed

text \<open>
  First in, first out. Links enqueued one after the other behind the links \<open>xs\<close> of a
  list come out of repeated \<^verbatim>\<open>LinkedListPop\<close> calls in exactly the order
  \<open>xs\<close>, then the order of enqueueing, and leave the list empty.
\<close>

theorem linked_list_fifo:
  assumes "list_rep s l xs" and "set ys \<subseteq> dom s" and "distinct ys" and "set ys \<inter> set xs = {}"
  shows "\<exists>l1 s1 l2 s2. enq_all (\<lambda>n. LinkedListEnqueue (Some n)) ys l s = Some (l1, s1) \<and>
     deq_all LinkedListPop (length (xs @ ys)) l1 s1 = Some (map Some (xs @ ys), l2, s2) \<and>
     list_rep s2 l2 []"
  using assms by (rule linked.fifo_order)

theorem linked_list_fifo_witness:
  "\<exists>l1 s1 l2 s2. enq_all (\<lambda>n. LinkedListEnqueue (Some n)) [3, 1, 2] \<lparr>ll_Head = NULL\<rparr> demo_store
      = Some (l1, s1) \<and>
     deq_all LinkedListPop (length ([] @ [3, 1, 2 :: addr])) l1 s1
      = Some (map Some ([] @ [3, 1, 2]), l2, s2) \<and> list_rep s2 l2 []"
  by (rule linked_list_fifo) (simp_all add: list_rep_def ring_def demo_store_def)

text \<open>
  Frame property. Two lists may share one store as long as they share no link: enqueueing
  on one of them, or popping it, leaves the other list exactly as it was, so kernel queues never
  disturb each other.
\<close>

theorem linked_list_frame:
  assumes "list_rep s l (x # xs)" and "list_rep s m ys" and "set (x # xs) \<inter> set ys = {}"
    and "n \<in> dom s" and "n \<notin> set (x # xs)" and "n \<notin> set ys"
  shows "(\<exists>l' s'. LinkedListEnqueue (Some n) l s = Some (l', s') \<and>
       list_rep s' l' (x # xs @ [n]) \<and> list_rep s' m ys) \<and>
     (\<exists>l' s'. LinkedListPop l s = Some (Some x, l', s') \<and>
       list_rep s' l' xs \<and> list_rep s' m ys)"
proof
  have away: "a \<noteq> n" "a \<notin> set (x # xs)" if "a \<in> set ys" for a
    using that assms(3,6) by auto
  obtain l' s' where 1: "LinkedListEnqueue (Some n) l s = Some (l', s')"
      "list_rep s' l' ((x # xs) @ [n])"
      "\<And>a. a \<noteq> n \<Longrightarrow> a \<notin> set (x # xs) \<Longrightarrow> nxt s' a = nxt s a \<and> prv s' a = prv s a"
    using LinkedListEnqueue_rep [OF assms(1,4,5)] by metis
  have "list_rep s' m ys"
    by (rule list_rep_frame [OF assms(2)]) (use away 1(3) in metis)
  with 1 show "\<exists>l' s'. LinkedListEnqueue (Some n) l s = Some (l', s') \<and>
       list_rep s' l' (x # xs @ [n]) \<and> list_rep s' m ys" by auto
  obtain l' s' where 2: "LinkedListPop l s = Some (Some x, l', s')" "list_rep s' l' xs"
      "\<And>a. a \<notin> set (x # xs) \<Longrightarrow> nxt s' a = nxt s a \<and> prv s' a = prv s a"
    using LinkedListPop_rep [OF assms(1)] by metis
  have "list_rep s' m ys"
    by (rule list_rep_frame [OF assms(2)]) (use away 2(3) in metis)
  with 2 show "\<exists>l' s'. LinkedListPop l s = Some (Some x, l', s') \<and>
       list_rep s' l' xs \<and> list_rep s' m ys" by blast
qed

definition demo_two_lists :: link_store where
  "demo_two_lists = [1 \<mapsto> \<lparr>ll_Next = Some 2, ll_Prev = Some 2\<rparr>,
     2 \<mapsto> \<lparr>ll_Next = Some 1, ll_Prev = Some 1\<rparr>, 3 \<mapsto> \<lparr>ll_Next = Some 3, ll_Prev = Some 3\<rparr>,
     4 \<mapsto> \<lparr>ll_Next = NULL, ll_Prev = NULL\<rparr>]"

theorem linked_list_frame_witness:
  "(\<exists>l' s'. LinkedListEnqueue (Some 4) \<lparr>ll_Head = Some 1\<rparr> demo_two_lists = Some (l', s') \<and>
       list_rep s' l' (1 # [2] @ [4]) \<and> list_rep s' \<lparr>ll_Head = Some 3\<rparr> [3]) \<and>
   (\<exists>l' s'. LinkedListPop \<lparr>ll_Head = Some 1\<rparr> demo_two_lists = Some (Some 1, l', s') \<and>
       list_rep s' l' [2] \<and> list_rep s' \<lparr>ll_Head = Some 3\<rparr> [3])"
  by (rule linked_list_frame)
    (simp_all add: list_rep_def ring_def demo_two_lists_def nxt_def prv_def)

end
