(* ===== verification/WeightedHeap.thy ===== *)
theory WeightedHeap
  imports KP_Prelude "HOL-Library.Tree"
begin

unbundle bit_operations_syntax

text \<open>
  The priority queue of \<^verbatim>\<open>src/utils/heap.c\<close> over intrusive \<^verbatim>\<open>WEIGHTED_LINK\<close> nodes:
  a complete binary tree in which every node points to its two children and to its parent. The
  operations are modelled pointer by pointer on a store of links. \<open>tree_at\<close> relates the
  store to a tree of addresses, a list of \<open>crumb\<close>s is the path from a node up to the root,
  and the promotion loop of the code is related to the functional \<open>perc_up\<close> and
  \<open>sift\<close>.
\<close>

section \<open>Data\<close>

record WEIGHTED_LINK =
  wl_Left :: ptr
  wl_Right :: ptr
  wl_Parent :: ptr
  wl_Weight :: WEIGHT

record HEAP =
  hp_Head :: ptr
  hp_Size :: COUNT

type_synonym wstore = "addr \<rightharpoonup> WEIGHTED_LINK"

definition wl_get :: "wstore \<Rightarrow> ptr \<Rightarrow> WEIGHTED_LINK option" where
  "wl_get s p = (case p of NULL \<Rightarrow> None | Some a \<Rightarrow> s a)"

definition wl_upd :: "(WEIGHTED_LINK \<Rightarrow> WEIGHTED_LINK) \<Rightarrow> ptr \<Rightarrow> wstore \<Rightarrow> wstore option" where
  "wl_upd f p s =
     (case p of NULL \<Rightarrow> None
      | Some a \<Rightarrow> (case s a of None \<Rightarrow> None | Some l \<Rightarrow> Some (s(a \<mapsto> f l))))"

abbreviation wl_set_Left :: "ptr \<Rightarrow> ptr \<Rightarrow> wstore \<Rightarrow> wstore option" where
  "wl_set_Left p v \<equiv> wl_upd (wl_Left_update (\<lambda>_. v)) p"

abbreviation wl_set_Right :: "ptr \<Rightarrow> ptr \<Rightarrow> wstore \<Rightarrow> wstore option" where
  "wl_set_Right p v \<equiv> wl_upd (wl_Right_update (\<lambda>_. v)) p"

abbreviation wl_set_Parent :: "ptr \<Rightarrow> ptr \<Rightarrow> wstore \<Rightarrow> wstore option" where
  "wl_set_Parent p v \<equiv> wl_upd (wl_Parent_update (\<lambda>_. v)) p"

section \<open>Operations\<close>

definition HeapPromote :: "ptr \<Rightarrow> wstore \<Rightarrow> wstore option" where
  "HeapPromote node s =
     do {
       n \<leftarrow> wl_get s node;
       ASSERT (wl_Parent n \<noteq> NULL);
       let parent = wl_Parent n;
       p \<leftarrow> wl_get s parent;
       let grandParent = wl_Parent p;
       let nodeLeft = wl_Left n;
       let nodeRight = wl_Right n;
       let sibling = (if wl_Left p \<noteq> node then wl_Left p else wl_Right p);
       s \<leftarrow> (if grandParent \<noteq> NULL then
              do { g \<leftarrow> wl_get s grandParent;
                   if wl_Left g = parent then wl_set_Left grandParent node s
                   else wl_set_Right grandParent node s }
            else Some s);
       s \<leftarrow> wl_set_Parent node grandParent s;
       s \<leftarrow> wl_set_Parent parent node s;
       s \<leftarrow> (if sibling \<noteq> NULL then wl_set_Parent sibling node s else Some s);
       p \<leftarrow> wl_get s parent;
       s \<leftarrow> (if wl_Left p = node then
              do { s \<leftarrow> wl_set_Left node parent s;
                   wl_set_Right node sibling s }
            else
              do { s \<leftarrow> wl_set_Left node sibling s;
                   wl_set_Right node parent s });
       s \<leftarrow> wl_set_Left parent nodeLeft s;
       s \<leftarrow> wl_set_Right parent nodeRight s;
       s \<leftarrow> (if nodeLeft \<noteq> NULL then wl_set_Parent nodeLeft parent s else Some s);
       (if nodeRight \<noteq> NULL then wl_set_Parent nodeRight parent s else Some s)
     }"

text \<open>A missing child weighs \<^verbatim>\<open>(WEIGHT) -1\<close>, the largest weight.\<close>

definition weight_or_max :: "wstore \<Rightarrow> ptr \<Rightarrow> WEIGHT option" where
  "weight_or_max s n =
     (if n \<noteq> NULL then map_option wl_Weight (wl_get s n) else Some (- 1))"

definition HeapSmallest :: "ptr \<Rightarrow> ptr \<Rightarrow> ptr \<Rightarrow> wstore \<Rightarrow> ptr option" where
  "HeapSmallest n1 n2 n3 s =
     do {
       w1 \<leftarrow> weight_or_max s n1;
       w2 \<leftarrow> weight_or_max s n2;
       w3 \<leftarrow> weight_or_max s n3;
       Some (if w1 \<le> w2 \<and> w1 \<le> w3 then n1
             else if w2 \<le> w1 \<and> w2 \<le> w3 then n2
             else if w3 \<le> w1 \<and> w3 \<le> w2 then n3
             else NULL)
     }"

text \<open>
  \<^verbatim>\<open>HeapFindElement\<close>: the first loop counts the halvings of the index down to one, the
  second walks the bits of the index below its leading one. The mask is an
  \<^verbatim>\<open>unsigned int\<close>.
\<close>

partial_function (option) HeapFindSteps :: "INDEX \<Rightarrow> COUNT \<Rightarrow> COUNT option" where
  "HeapFindSteps tmp steps =
     (if tmp \<noteq> 1 then HeapFindSteps (tmp div 2) (steps + 1) else Some steps)"

partial_function (option) HeapFindDescend :: "32 word \<Rightarrow> INDEX \<Rightarrow> wstore \<Rightarrow> ptr \<Rightarrow> ptr option" where
  "HeapFindDescend msk index s cur =
     (if 0 < msk then
        Option.bind (wl_get s cur) (\<lambda>c.
          HeapFindDescend (msk div 2) index s
            (if ucast msk AND index \<noteq> 0 then wl_Right c else wl_Left c))
      else Some cur)"

definition HeapFindElement :: "INDEX \<Rightarrow> HEAP \<Rightarrow> wstore \<Rightarrow> ptr option" where
  "HeapFindElement index hp s =
     do {
       ASSERT (index \<le> hp_Size hp \<and> index \<noteq> 0);
       steps \<leftarrow> HeapFindSteps index 0;
       if steps = 0 then Some (hp_Head hp)
       else HeapFindDescend (push_bit (unat steps) 1 div 2) index s (hp_Head hp)
     }"

text \<open>The percolation loop of \<^verbatim>\<open>HeapAdd\<close>.\<close>

partial_function (option) HeapPercolateUp :: "ptr \<Rightarrow> wstore \<Rightarrow> wstore option" where
  "HeapPercolateUp node s =
     Option.bind (wl_get s node) (\<lambda>n.
       if wl_Parent n \<noteq> NULL then
         Option.bind (wl_get s (wl_Parent n)) (\<lambda>p.
           if wl_Weight n < wl_Weight p then
             Option.bind (HeapPromote node s) (\<lambda>s. HeapPercolateUp node s)
           else Some s)
       else Some s)"

definition HeapAdd :: "WEIGHT \<Rightarrow> ptr \<Rightarrow> HEAP \<Rightarrow> wstore \<Rightarrow> (HEAP \<times> wstore) option" where
  "HeapAdd weight node hp s =
     do {
       s \<leftarrow> wl_upd (wl_Weight_update (\<lambda>_. weight)) node s;
       s \<leftarrow> wl_set_Left node NULL s;
       s \<leftarrow> wl_set_Right node NULL s;
       let hp = hp\<lparr>hp_Size := hp_Size hp + 1\<rparr>;
       if hp_Size hp = 1 then
         do { let hp = hp\<lparr>hp_Head := node\<rparr>;
              s \<leftarrow> wl_set_Parent node NULL s;
              Some (hp, s) }
       else
         do {
           parent \<leftarrow> HeapFindElement (hp_Size hp div 2) hp s;
           p \<leftarrow> wl_get s parent;
           ASSERT (wl_Left p = NULL \<or> wl_Right p = NULL);
           s \<leftarrow> (if wl_Left p = NULL then wl_set_Left parent node s
                 else wl_set_Right parent node s);
           s \<leftarrow> wl_set_Parent node parent s;
           s \<leftarrow> HeapPercolateUp node s;
           n \<leftarrow> wl_get s node;
           Some (if wl_Parent n = NULL then hp\<lparr>hp_Head := node\<rparr> else hp, s)
         }
     }"

text \<open>The percolation loop of \<^verbatim>\<open>HeapPop\<close>.\<close>

partial_function (option) HeapPercolateDown ::
    "ptr \<Rightarrow> HEAP \<Rightarrow> wstore \<Rightarrow> (HEAP \<times> wstore) option" where
  "HeapPercolateDown tail hp s =
     Option.bind (wl_get s tail) (\<lambda>t.
     Option.bind (HeapSmallest tail (wl_Left t) (wl_Right t) s) (\<lambda>smallest.
       if smallest \<noteq> tail then
         Option.bind (HeapPromote smallest s) (\<lambda>s.
         Option.bind (wl_get s smallest) (\<lambda>m.
           HeapPercolateDown tail
             (if wl_Parent m = NULL then hp\<lparr>hp_Head := smallest\<rparr> else hp) s))
       else Some (hp, s)))"

definition HeapPop :: "HEAP \<Rightarrow> wstore \<Rightarrow> (ptr \<times> HEAP \<times> wstore) option" where
  "HeapPop hp s =
     (if hp_Size hp = 0 then Some (NULL, hp, s)
      else
        do {
          tail \<leftarrow> HeapFindElement (hp_Size hp) hp s;
          ASSERT (tail \<noteq> NULL);
          t \<leftarrow> wl_get s tail;
          ASSERT (wl_Left t = NULL \<and> wl_Right t = NULL);
          if wl_Parent t \<noteq> NULL then
            do {
              tp \<leftarrow> wl_get s (wl_Parent t);
              s \<leftarrow> (if wl_Right tp = tail then wl_set_Right (wl_Parent t) NULL s
                    else wl_set_Left (wl_Parent t) NULL s);
              let popped = hp_Head hp;
              let hp = hp\<lparr>hp_Size := hp_Size hp - 1, hp_Head := tail\<rparr>;
              s \<leftarrow> wl_set_Parent tail NULL s;
              q \<leftarrow> wl_get s popped;
              s \<leftarrow> wl_set_Left tail (wl_Left q) s;
              s \<leftarrow> wl_set_Right tail (wl_Right q) s;
              s \<leftarrow> (if wl_Left q \<noteq> NULL then wl_set_Parent (wl_Left q) tail s else Some s);
              s \<leftarrow> (if wl_Right q \<noteq> NULL then wl_set_Parent (wl_Right q) tail s else Some s);
              (hp, s) \<leftarrow> HeapPercolateDown tail hp s;
              Some (popped, hp, s)
            }
          else Some (tail, hp\<lparr>hp_Size := 0, hp_Head := NULL\<rparr>, s)
        })"

definition HeapHeadWeight :: "HEAP \<Rightarrow> wstore \<Rightarrow> WEIGHT option" where
  "HeapHeadWeight hp s = map_option wl_Weight (wl_get s (hp_Head hp))"

definition HeapInit :: "HEAP \<Rightarrow> HEAP" where
  "HeapInit hp = hp\<lparr>hp_Head := NULL, hp_Size := 0\<rparr>"

definition HeapSize :: "HEAP \<Rightarrow> COUNT" where
  "HeapSize hp = hp_Size hp"

section \<open>Trees in the store\<close>

fun rootp :: "addr tree \<Rightarrow> ptr" where
  "rootp Leaf = NULL"
| "rootp (Node l a r) = Some a"

fun tree_at :: "wstore \<Rightarrow> ptr \<Rightarrow> addr tree \<Rightarrow> bool" where
  "tree_at s par Leaf = True"
| "tree_at s par (Node l a r) =
     ((\<exists>w. s a = Some w \<and> wl_Left w = rootp l \<and> wl_Right w = rootp r \<and> wl_Parent w = par) \<and>
      tree_at s (Some a) l \<and> tree_at s (Some a) r)"

text \<open>
  A path from a node to the root: \<open>CL p r\<close> says that the path arrives in \<open>p\<close> from
  its left child, and \<open>r\<close> is the right subtree of \<open>p\<close>; \<open>CR\<close> likewise.
\<close>

datatype crumb = CL addr "addr tree" | CR "addr tree" addr

fun crumb_addr :: "crumb \<Rightarrow> addr" where
  "crumb_addr (CL p r) = p"
| "crumb_addr (CR l p) = p"

fun crumb_tree :: "crumb \<Rightarrow> addr tree" where
  "crumb_tree (CL p r) = r"
| "crumb_tree (CR l p) = l"

fun ctxp :: "crumb list \<Rightarrow> ptr" where
  "ctxp [] = NULL"
| "ctxp (c # cs) = Some (crumb_addr c)"

fun close1 :: "addr tree \<Rightarrow> crumb \<Rightarrow> addr tree" where
  "close1 t (CL p r) = Node t p r"
| "close1 t (CR l p) = Node l p t"

fun plug :: "addr tree \<Rightarrow> crumb list \<Rightarrow> addr tree" where
  "plug t [] = t"
| "plug t (c # cs) = plug (close1 t c) cs"

fun ctx_at :: "wstore \<Rightarrow> ptr \<Rightarrow> crumb list \<Rightarrow> bool" where
  "ctx_at s hole [] = True"
| "ctx_at s hole (c # cs) =
     ((\<exists>w. s (crumb_addr c) = Some w \<and> wl_Parent w = ctxp cs \<and>
        (case c of CL p r \<Rightarrow> wl_Left w = hole \<and> wl_Right w = rootp r
         | CR l p \<Rightarrow> wl_Left w = rootp l \<and> wl_Right w = hole)) \<and>
      tree_at s (Some (crumb_addr c)) (crumb_tree c) \<and> ctx_at s (Some (crumb_addr c)) cs)"

fun ctx_nodes :: "crumb list \<Rightarrow> addr list" where
  "ctx_nodes [] = []"
| "ctx_nodes (c # cs) = crumb_addr c # inorder (crumb_tree c) @ ctx_nodes cs"

lemma tree_at_plug:
  "tree_at s NULL (plug t cs) \<longleftrightarrow> tree_at s (ctxp cs) t \<and> ctx_at s (rootp t) cs"
proof (induction cs arbitrary: t)
  case (Cons c cs)
  show ?case by (cases c) (auto simp: Cons.IH)
qed simp

lemma set_plug: "set_tree (plug t cs) = set_tree t \<union> set (ctx_nodes cs)"
proof (induction cs arbitrary: t)
  case (Cons c cs)
  show ?case by (cases c) (auto simp: Cons.IH)
qed simp

lemma distinct_plug:
  "distinct (inorder (plug t cs)) \<longleftrightarrow>
     distinct (inorder t) \<and> distinct (ctx_nodes cs) \<and> set_tree t \<inter> set (ctx_nodes cs) = {}"
proof (induction cs arbitrary: t)
  case (Cons c cs)
  show ?case by (cases c) (auto simp: Cons.IH)
qed simp

lemma size_plug: "size (plug t cs) = size t + length (ctx_nodes cs)"
proof (induction cs arbitrary: t)
  case (Cons c cs)
  show ?case by (cases c) (auto simp: Cons.IH)
qed simp

lemma rootp_in: "rootp t = Some a \<Longrightarrow> a \<in> set_tree t"
  by (cases t) auto

lemma rootp_Leaf [simp]: "rootp t = NULL \<longleftrightarrow> t = Leaf"
  by (cases t) auto

lemma tree_at_frame:
  "tree_at s par t \<Longrightarrow> (\<forall>a\<in>set_tree t. s' a = s a) \<Longrightarrow> tree_at s' par t"
  by (induction t arbitrary: par) auto

lemma tree_at_reparent:
  assumes "tree_at s par t" and "distinct (inorder t)"
    and "\<forall>a\<in>set_tree t. s' a =
       (if Some a = rootp t then map_option (wl_Parent_update (\<lambda>_. par')) (s a) else s a)"
  shows "tree_at s' par' t"
proof (cases t)
  case (Node l a r)
  with assms(2) have "a \<notin> set_tree l" "a \<notin> set_tree r" by auto
  then have "\<forall>b\<in>set_tree l. s' b = s b" "\<forall>b\<in>set_tree r. s' b = s b"
    using assms(3) Node by auto
  with assms(1,3) Node show ?thesis by (auto intro: tree_at_frame)
qed simp

lemma ctx_at_frame:
  "ctx_at s hole cs \<Longrightarrow> (\<forall>a\<in>set (ctx_nodes cs). s' a = s a) \<Longrightarrow> ctx_at s' hole cs"
  by (induction cs arbitrary: hole) (auto intro: tree_at_frame)

lemma tree_at_dom: "tree_at s par t \<Longrightarrow> a \<in> set_tree t \<Longrightarrow> a \<in> dom s"
  by (induction t arbitrary: par) auto

lemma ctx_at_dom: "ctx_at s hole cs \<Longrightarrow> a \<in> set (ctx_nodes cs) \<Longrightarrow> a \<in> dom s"
  by (induction cs arbitrary: hole) (auto dest: tree_at_dom)

section \<open>Promotion\<close>

definition promoted :: "addr \<Rightarrow> addr \<Rightarrow> WEIGHTED_LINK \<Rightarrow> WEIGHTED_LINK \<Rightarrow> ptr \<Rightarrow> wstore \<Rightarrow> wstore" where
  "promoted n p wn wp sib s a =
     (if a = n then Some (wn\<lparr>wl_Left := (if wl_Left wp = Some n then Some p else sib),
          wl_Right := (if wl_Left wp = Some n then sib else Some p), wl_Parent := wl_Parent wp\<rparr>)
      else if a = p then Some (wp\<lparr>wl_Parent := Some n, wl_Left := wl_Left wn, wl_Right := wl_Right wn\<rparr>)
      else if Some a = wl_Parent wp then
        map_option (\<lambda>g. if wl_Left g = Some p then g\<lparr>wl_Left := Some n\<rparr> else g\<lparr>wl_Right := Some n\<rparr>) (s a)
      else if Some a = sib then map_option (wl_Parent_update (\<lambda>_. Some n)) (s a)
      else if Some a = wl_Left wn \<or> Some a = wl_Right wn then
        map_option (wl_Parent_update (\<lambda>_. Some p)) (s a)
      else s a)"

text \<open>An update through a pointer that may be null, as a total function on stores.\<close>

definition updp :: "(WEIGHTED_LINK \<Rightarrow> WEIGHTED_LINK) \<Rightarrow> ptr \<Rightarrow> wstore \<Rightarrow> wstore" where
  "updp f p s a = (if Some a = p then map_option f (s a) else s a)"

lemma dom_updp [simp]: "dom (updp f p s) = dom s"
  by (auto simp: updp_def dom_def)

lemma wl_upd_updp: "a \<in> dom s \<Longrightarrow> wl_upd f (Some a) s = Some (updp f (Some a) s)"
  by (auto simp: wl_upd_def updp_def fun_eq_iff)

lemma wl_upd_opt:
  "\<forall>a. p = Some a \<longrightarrow> a \<in> dom s \<Longrightarrow>
   (if p \<noteq> NULL then wl_upd f p s else Some s) = Some (updp f p s)"
  by (cases p) (auto simp: wl_upd_updp updp_def fun_eq_iff)

lemma HeapPromote_store:
  assumes n: "s n = Some wn" and p: "s p = Some wp" and par: "wl_Parent wn = Some p"
    and sib: "sib = (if wl_Left wp \<noteq> Some n then wl_Left wp else wl_Right wp)"
    and dom: "\<forall>a. Some a \<in> {wl_Parent wp, sib, wl_Left wn, wl_Right wn} \<longrightarrow> a \<in> dom s"
    and away: "Some n \<notin> {wl_Parent wp, sib, wl_Left wn, wl_Right wn}"
      "Some p \<notin> {wl_Parent wp, sib, wl_Left wn, wl_Right wn}" "n \<noteq> p"
    and apart: "\<forall>a. Some a = wl_Parent wp \<longrightarrow> Some a \<notin> {sib, wl_Left wn, wl_Right wn}"
      "\<forall>a. Some a = sib \<longrightarrow> Some a \<notin> {wl_Left wn, wl_Right wn}"
      "\<forall>a. Some a = wl_Left wn \<longrightarrow> Some a \<noteq> wl_Right wn"
  shows "HeapPromote (Some n) s = Some (promoted n p wn wp sib s)"
proof -
  let ?gp = "wl_Parent wp"
  define s1 where "s1 = updp (\<lambda>g. if wl_Left g = Some p then g\<lparr>wl_Left := Some n\<rparr>
      else g\<lparr>wl_Right := Some n\<rparr>) ?gp s"
  define s3 where "s3 = updp (wl_Parent_update (\<lambda>_. Some n)) (Some p)
      (updp (wl_Parent_update (\<lambda>_. ?gp)) (Some n) s1)"
  define s4 where "s4 = updp (wl_Parent_update (\<lambda>_. Some n)) sib s3"
  define s6 where "s6 = (if wl_Left wp = Some n
      then updp (wl_Right_update (\<lambda>_. sib)) (Some n) (updp (wl_Left_update (\<lambda>_. Some p)) (Some n) s4)
      else updp (wl_Right_update (\<lambda>_. Some p)) (Some n) (updp (wl_Left_update (\<lambda>_. sib)) (Some n) s4))"
  define s8 where "s8 = updp (wl_Right_update (\<lambda>_. wl_Right wn)) (Some p)
      (updp (wl_Left_update (\<lambda>_. wl_Left wn)) (Some p) s6)"
  define s10 where "s10 = updp (wl_Parent_update (\<lambda>_. Some p)) (wl_Right wn)
      (updp (wl_Parent_update (\<lambda>_. Some p)) (wl_Left wn) s8)"
  note ss = s1_def s3_def s4_def s6_def s8_def s10_def
  have doms: "dom s1 = dom s" "dom s3 = dom s" "dom s4 = dom s" "dom s6 = dom s" "dom s8 = dom s"
    by (simp_all add: ss)
  have g: "(if ?gp \<noteq> NULL then
        do { g \<leftarrow> wl_get s ?gp;
             if wl_Left g = Some p then wl_set_Left ?gp (Some n) s else wl_set_Right ?gp (Some n) s }
      else Some s) = Some s1"
    using dom by (cases ?gp) (auto simp: s1_def wl_get_def wl_upd_def updp_def fun_eq_iff)
  have nd: "n \<in> dom s" "p \<in> dom s" using n p by auto
  have s4p: "wl_get s4 (Some p) = Some (wp\<lparr>wl_Parent := Some n\<rparr>)"
    using p away by (auto simp: wl_get_def s4_def s3_def s1_def updp_def)
  have start: "wl_get s (Some n) = Some wn" "wl_get s (Some p) = Some wp"
    using n p by (simp_all add: wl_get_def)
  have e3: "Option.bind (wl_set_Parent (Some n) ?gp s1) (wl_set_Parent (Some p) (Some n)) = Some s3"
    using nd by (simp add: wl_upd_updp doms s3_def)
  have e4: "(if sib \<noteq> NULL then wl_set_Parent sib (Some n) s3 else Some s3) = Some s4"
    unfolding s4_def by (rule wl_upd_opt) (use dom in \<open>auto simp: doms\<close>)
  have e6: "(if wl_Left (wp\<lparr>wl_Parent := Some n\<rparr>) = Some n
      then do { s \<leftarrow> wl_set_Left (Some n) (Some p) s4; wl_set_Right (Some n) sib s }
      else do { s \<leftarrow> wl_set_Left (Some n) sib s4; wl_set_Right (Some n) (Some p) s }) = Some s6"
    using nd by (simp add: wl_upd_updp doms s6_def)
  have e8: "Option.bind (wl_set_Left (Some p) (wl_Left wn) s6)
      (wl_set_Right (Some p) (wl_Right wn)) = Some s8"
    using nd by (simp add: wl_upd_updp doms s8_def)
  have e9: "(if wl_Left wn \<noteq> NULL then wl_set_Parent (wl_Left wn) (Some p) s8 else Some s8)
      = Some (updp (wl_Parent_update (\<lambda>_. Some p)) (wl_Left wn) s8)"
    by (rule wl_upd_opt) (use dom in \<open>auto simp: doms\<close>)
  have e10: "(if wl_Right wn \<noteq> NULL then wl_set_Parent (wl_Right wn) (Some p) s9 else Some s9)
      = Some s10" if "s9 = updp (wl_Parent_update (\<lambda>_. Some p)) (wl_Left wn) s8" for s9
    unfolding s10_def that by (rule wl_upd_opt) (use dom in \<open>auto simp: doms\<close>)
  have "HeapPromote (Some n) s = Some s10"
    unfolding HeapPromote_def start Option.bind.bind_lunit par bind_ASSERT Let_def
      sib [symmetric] g
    by (simp only: start Option.bind.bind_lunit par sib [symmetric] g e3 e4 s4p e6 e8 e9 e10 [OF refl]
        option.distinct not_False_eq_True if_True if_False bind_assoc [symmetric])
  moreover have "s10 a = promoted n p wn wp sib s a" for a
  proof -
    consider "a = n" | "a = p" | "a \<noteq> n" "a \<noteq> p" "?gp = Some a" | "a \<noteq> n" "a \<noteq> p" "sib = Some a"
      | "a \<noteq> n" "a \<noteq> p" "Some a \<noteq> ?gp" "Some a \<noteq> sib" by metis
    then show ?thesis
    proof cases
      case 1
      then show ?thesis using n away by (simp add: ss promoted_def updp_def)
    next
      case 2
      then show ?thesis using p away by (simp add: ss promoted_def updp_def)
    next
      case 3
      with apart(1) have "sib \<noteq> Some a" "wl_Left wn \<noteq> Some a" "wl_Right wn \<noteq> Some a" by auto
      with 3 show ?thesis by (simp add: ss promoted_def updp_def)
    next
      case 4
      with apart(1,2) have "?gp \<noteq> Some a" "wl_Left wn \<noteq> Some a" "wl_Right wn \<noteq> Some a" by auto
      with 4 show ?thesis by (simp add: ss promoted_def updp_def)
    next
      case 5
      moreover have "\<not> (Some a = wl_Left wn \<and> Some a = wl_Right wn)" using apart(3) by blast
      ultimately show ?thesis by (auto simp: ss promoted_def updp_def)
    qed
  qed
  ultimately show ?thesis by (simp add: fun_eq_iff)
qed

text \<open>Promotion exchanges a node with its parent and leaves the rest of the tree in place.\<close>

fun promote1 :: "addr tree \<Rightarrow> addr \<Rightarrow> addr tree \<Rightarrow> crumb \<Rightarrow> addr tree" where
  "promote1 l n r (CL p sb) = Node (Node l p r) n sb"
| "promote1 l n r (CR sb p) = Node sb n (Node l p r)"

definition wgt :: "wstore \<Rightarrow> addr \<Rightarrow> WEIGHT" where
  "wgt s a = (case s a of None \<Rightarrow> 0 | Some w \<Rightarrow> wl_Weight w)"

lemma promoted_wgt:
  "s n = Some wn \<Longrightarrow> s p = Some wp \<Longrightarrow> wgt (promoted n p wn wp sib s) a = wgt s a"
  by (auto simp: promoted_def wgt_def split: option.split)

lemma promoted_dom:
  "s n = Some wn \<Longrightarrow> s p = Some wp \<Longrightarrow> dom (promoted n p wn wp sib s) = dom s"
  by (auto simp: promoted_def dom_def split: if_splits)

lemma ctx_at_rehole:
  assumes "ctx_at s (Some p) cs" and "p \<notin> set (ctx_nodes cs)" and "distinct (ctx_nodes cs)"
    and "\<forall>a\<in>set (ctx_nodes cs). s' a = (if Some a = ctxp cs then
        map_option (\<lambda>g. if wl_Left g = Some p then g\<lparr>wl_Left := Some n\<rparr> else g\<lparr>wl_Right := Some n\<rparr>) (s a)
        else s a)"
  shows "ctx_at s' (Some n) cs"
proof (cases cs)
  case (Cons c cs')
  have "\<forall>a\<in>set_tree (crumb_tree c). s' a = s a" "\<forall>a\<in>set (ctx_nodes cs'). s' a = s a"
    using assms(3,4) Cons by auto
  then have "tree_at s' (Some (crumb_addr c)) (crumb_tree c)" "ctx_at s' (Some (crumb_addr c)) cs'"
    using assms(1) Cons by (auto intro: tree_at_frame ctx_at_frame)
  moreover have "rootp (crumb_tree c) \<noteq> Some p"
    using assms(2) Cons by (auto dest: rootp_in)
  moreover obtain w where "s (crumb_addr c) = Some w" "wl_Parent w = ctxp cs'"
      "case c of CL p' r \<Rightarrow> wl_Left w = Some p \<and> wl_Right w = rootp r
         | CR l p' \<Rightarrow> wl_Left w = rootp l \<and> wl_Right w = Some p"
    using assms(1) Cons by auto
  moreover from this have "s' (crumb_addr c) = Some (if wl_Left w = Some p
      then w\<lparr>wl_Left := Some n\<rparr> else w\<lparr>wl_Right := Some n\<rparr>)"
    using assms(4) Cons by simp
  ultimately show ?thesis
    using Cons by (cases c) simp_all
qed simp

lemma rootp_notin: "a \<notin> set_tree t \<Longrightarrow> Some a \<noteq> rootp t"
  using rootp_in by metis

lemma ctxp_notin: "a \<notin> set (ctx_nodes cs) \<Longrightarrow> Some a \<noteq> ctxp cs"
  by (cases cs) auto

lemmas zone_notin = rootp_notin ctxp_notin

lemma promote_tree:
  assumes t: "tree_at s (ctxp (c # cs)) (Node l n r)" and c: "ctx_at s (Some n) (c # cs)"
    and d: "distinct (inorder (plug (Node l n r) (c # cs)))"
  shows "\<exists>s'. HeapPromote (Some n) s = Some s' \<and> tree_at s' (ctxp cs) (promote1 l n r c) \<and>
     ctx_at s' (Some n) cs \<and> (\<forall>a. wgt s' a = wgt s a) \<and> dom s' = dom s \<and>
     (\<forall>a. a \<notin> set_tree (plug (Node l n r) (c # cs)) \<longrightarrow> s' a = s a)"
proof -
  define p where "p = crumb_addr c"
  define sb where "sb = crumb_tree c"
  obtain wn where wn: "s n = Some wn" "wl_Left wn = rootp l" "wl_Right wn = rootp r"
      "wl_Parent wn = Some p" and tl: "tree_at s (Some n) l" and tr: "tree_at s (Some n) r"
    using t by (auto simp: p_def)
  obtain wp where wp: "s p = Some wp" "wl_Parent wp = ctxp cs"
      "case c of CL p r \<Rightarrow> wl_Left wp = Some n \<and> wl_Right wp = rootp r
         | CR l p \<Rightarrow> wl_Left wp = rootp l \<and> wl_Right wp = Some n"
      and tsb: "tree_at s (Some p) sb" and tcs: "ctx_at s (Some p) cs"
    using c by (auto simp: p_def sb_def)
  have d': "distinct (inorder l)" "distinct (inorder r)" "distinct (inorder sb)" "distinct (ctx_nodes cs)"
    "n \<noteq> p" "n \<notin> set_tree l" "n \<notin> set_tree r" "n \<notin> set_tree sb" "n \<notin> set (ctx_nodes cs)"
    "p \<notin> set_tree l" "p \<notin> set_tree r" "p \<notin> set_tree sb" "p \<notin> set (ctx_nodes cs)"
    "set_tree l \<inter> set_tree r = {}" "set_tree l \<inter> set_tree sb = {}" "set_tree r \<inter> set_tree sb = {}"
    "set_tree l \<inter> set (ctx_nodes cs) = {}" "set_tree r \<inter> set (ctx_nodes cs) = {}"
    "set_tree sb \<inter> set (ctx_nodes cs) = {}"
    using d unfolding distinct_plug by (auto simp: p_def sb_def)
  have sib: "rootp sb = (if wl_Left wp \<noteq> Some n then wl_Left wp else wl_Right wp)"
    using wp(3) d'(8) by (cases c) (auto simp: sb_def dest: rootp_in)
  define s' where "s' = promoted n p wn wp (rootp sb) s"
  have "HeapPromote (Some n) s = Some s'"
    unfolding s'_def
  proof (rule HeapPromote_store [OF wn(1) wp(1) wn(4) sib])
    have "a \<in> dom s" if "a \<in> set_tree l \<union> set_tree r \<union> set_tree sb \<union> set (ctx_nodes cs)" for a
      using that tree_at_dom [OF tl] tree_at_dom [OF tr] tree_at_dom [OF tsb] ctx_at_dom [OF tcs]
      by blast
    then show "\<forall>a. Some a \<in> {wl_Parent wp, rootp sb, wl_Left wn, wl_Right wn} \<longrightarrow> a \<in> dom s"
      unfolding wn wp using zone_notin by blast
    show "Some n \<notin> {wl_Parent wp, rootp sb, wl_Left wn, wl_Right wn}"
      using zone_notin d'(6-9) by (simp add: wn wp)
    show "Some p \<notin> {wl_Parent wp, rootp sb, wl_Left wn, wl_Right wn}"
      using zone_notin d'(10-13) by (simp add: wn wp)
    show "\<forall>a. Some a = wl_Parent wp \<longrightarrow> Some a \<notin> {rootp sb, wl_Left wn, wl_Right wn}"
      using zone_notin d'(17-19) unfolding wn wp by blast
    show "\<forall>a. Some a = rootp sb \<longrightarrow> Some a \<notin> {wl_Left wn, wl_Right wn}"
      using zone_notin d'(15,16) unfolding wn by blast
    show "\<forall>a. Some a = wl_Left wn \<longrightarrow> Some a \<noteq> wl_Right wn"
      using zone_notin d'(14) unfolding wn by blast
  qed (rule d')
  moreover have L: "s' a = (if Some a = rootp l then map_option (wl_Parent_update (\<lambda>_. Some p)) (s a)
      else s a)" if "a \<in> set_tree l" for a
  proof -
    have "a \<noteq> n" "a \<noteq> p" "a \<notin> set (ctx_nodes cs)" "a \<notin> set_tree sb" "a \<notin> set_tree r"
      using that d'(6,10,14,15,17) by auto
    with zone_notin show ?thesis by (simp add: s'_def promoted_def wn wp)
  qed
  moreover have R: "s' a = (if Some a = rootp r then map_option (wl_Parent_update (\<lambda>_. Some p)) (s a)
      else s a)" if "a \<in> set_tree r" for a
  proof -
    have "a \<noteq> n" "a \<noteq> p" "a \<notin> set (ctx_nodes cs)" "a \<notin> set_tree sb" "a \<notin> set_tree l"
      using that d'(7,11,14,16,18) by auto
    with zone_notin show ?thesis by (simp add: s'_def promoted_def wn wp)
  qed
  moreover have S: "s' a = (if Some a = rootp sb then map_option (wl_Parent_update (\<lambda>_. Some n)) (s a)
      else s a)" if "a \<in> set_tree sb" for a
  proof -
    have "a \<noteq> n" "a \<noteq> p" "a \<notin> set (ctx_nodes cs)" "a \<notin> set_tree l" "a \<notin> set_tree r"
      using that d'(8,12,15,16,19) by auto
    with zone_notin show ?thesis by (simp add: s'_def promoted_def wn wp)
  qed
  moreover have C: "s' a = (if Some a = ctxp cs then
        map_option (\<lambda>g. if wl_Left g = Some p then g\<lparr>wl_Left := Some n\<rparr> else g\<lparr>wl_Right := Some n\<rparr>) (s a)
        else s a)" if "a \<in> set (ctx_nodes cs)" for a
  proof -
    have "a \<noteq> n" "a \<noteq> p" "a \<notin> set_tree sb" "a \<notin> set_tree l" "a \<notin> set_tree r"
      using that d'(9,13,17-19) by auto
    with zone_notin show ?thesis by (simp add: s'_def promoted_def wn wp)
  qed
  moreover have "tree_at s' (Some p) l" "tree_at s' (Some p) r" "tree_at s' (Some n) sb"
    using tree_at_reparent [OF tl d'(1)] tree_at_reparent [OF tr d'(2)]
      tree_at_reparent [OF tsb d'(3)] L R S by blast+
  moreover have "ctx_at s' (Some n) cs"
    using ctx_at_rehole [OF tcs d'(13,4)] C by blast
  moreover have "\<exists>w. s' n = Some w \<and> wl_Left w = (if wl_Left wp = Some n then Some p else rootp sb) \<and>
      wl_Right w = (if wl_Left wp = Some n then rootp sb else Some p) \<and> wl_Parent w = ctxp cs"
    by (simp add: s'_def promoted_def wp)
  moreover have "\<exists>w. s' p = Some w \<and> wl_Left w = rootp l \<and> wl_Right w = rootp r \<and> wl_Parent w = Some n"
    using d'(5) by (simp add: s'_def promoted_def wn)
  moreover have "\<forall>a. wgt s' a = wgt s a" "dom s' = dom s"
    using promoted_wgt [OF wn(1) wp(1)] promoted_dom [OF wn(1) wp(1)] by (simp_all add: s'_def)
  moreover have "\<forall>a. a \<notin> set_tree (plug (Node l n r) (c # cs)) \<longrightarrow> s' a = s a"
  proof (intro allI impI)
    fix a assume "a \<notin> set_tree (plug (Node l n r) (c # cs))"
    then have "a \<noteq> n" "a \<noteq> p" "a \<notin> set_tree l" "a \<notin> set_tree r" "a \<notin> set_tree sb"
      "a \<notin> set (ctx_nodes cs)" unfolding set_plug by (auto simp: p_def sb_def)
    with zone_notin show "s' a = s a" by (simp add: s'_def promoted_def wn wp)
  qed
  moreover have "wl_Left wp = Some n \<longleftrightarrow> (\<exists>q t. c = CL q t)"
    using wp(3) d'(8) by (cases c) (auto simp: sb_def dest: rootp_in)
  ultimately show ?thesis
    by (cases c) (auto simp: p_def sb_def)
qed

section \<open>Percolation as functions on trees\<close>

fun prom_left :: "addr tree \<Rightarrow> addr tree \<Rightarrow> crumb \<Rightarrow> addr tree" where
  "prom_left l r (CL p sb) = Node l p r"
| "prom_left l r (CR sb p) = sb"

fun prom_right :: "addr tree \<Rightarrow> addr tree \<Rightarrow> crumb \<Rightarrow> addr tree" where
  "prom_right l r (CL p sb) = sb"
| "prom_right l r (CR sb p) = Node l p r"

lemma promote1_eq: "promote1 l n r c = Node (prom_left l r c) n (prom_right l r c)"
  by (cases c) simp_all

fun perc_up :: "(addr \<Rightarrow> WEIGHT) \<Rightarrow> addr tree \<Rightarrow> addr \<Rightarrow> addr tree \<Rightarrow> crumb list \<Rightarrow> addr tree" where
  "perc_up w l n r [] = Node l n r"
| "perc_up w l n r (c # cs) =
     (if w n < w (crumb_addr c) then perc_up w (prom_left l r c) n (prom_right l r c) cs
      else plug (Node l n r) (c # cs))"

fun wm :: "(addr \<Rightarrow> WEIGHT) \<Rightarrow> addr tree \<Rightarrow> WEIGHT" where
  "wm w Leaf = - 1"
| "wm w (Node l a r) = w a"

function sift :: "(addr \<Rightarrow> WEIGHT) \<Rightarrow> addr tree \<Rightarrow> addr \<Rightarrow> addr tree \<Rightarrow> addr tree" where
  "sift w l n r =
     (if w n \<le> wm w l \<and> w n \<le> wm w r then Node l n r
      else if wm w l \<le> w n \<and> wm w l \<le> wm w r then
        (case l of Leaf \<Rightarrow> Node l n r | Node ll m lr \<Rightarrow> Node (sift w ll n lr) m r)
      else (case r of Leaf \<Rightarrow> Node l n r | Node rl m rr \<Rightarrow> Node l m (sift w rl n rr)))"
  by pat_completeness auto
termination
  by (relation "measure (\<lambda>(w, l, n, r). size l + size r)") auto

declare sift.simps [simp del]

fun heap_ord :: "(addr \<Rightarrow> WEIGHT) \<Rightarrow> addr tree \<Rightarrow> bool" where
  "heap_ord w Leaf = True"
| "heap_ord w (Node l a r) =
     ((\<forall>b\<in>set_tree l \<union> set_tree r. w a \<le> w b) \<and> heap_ord w l \<and> heap_ord w r)"

fun ctx_ord :: "(addr \<Rightarrow> WEIGHT) \<Rightarrow> addr set \<Rightarrow> crumb list \<Rightarrow> bool" where
  "ctx_ord w S [] = True"
| "ctx_ord w S (c # cs) =
     ((\<forall>b\<in>S \<union> set_tree (crumb_tree c). w (crumb_addr c) \<le> w b) \<and> heap_ord w (crumb_tree c) \<and>
      ctx_ord w (insert (crumb_addr c) (S \<union> set_tree (crumb_tree c))) cs)"

lemma heap_ord_plug: "heap_ord w (plug t cs) \<longleftrightarrow> heap_ord w t \<and> ctx_ord w (set_tree t) cs"
proof (induction cs arbitrary: t)
  case (Cons c cs)
  have [simp]: "insert p (A \<union> B) = insert p (B \<union> A)" for p :: addr and A B by blast
  show ?case
    by (cases c) (auto simp: Cons.IH Un_ac)
qed simp

lemma ctx_ord_insert:
  "ctx_ord w S cs \<Longrightarrow> q \<in> S \<Longrightarrow> w q \<le> w x \<Longrightarrow> ctx_ord w (insert x S) cs"
proof (induction cs arbitrary: S)
  case (Cons c cs)
  have "ctx_ord w (insert x (insert (crumb_addr c) (S \<union> set_tree (crumb_tree c)))) cs"
    by (rule Cons.IH) (use Cons.prems in auto)
  moreover have "w (crumb_addr c) \<le> w x"
    using Cons.prems by (auto intro: order.trans [of _ "w q"])
  ultimately show ?case
    using Cons.prems by (auto simp: insert_commute)
qed simp

lemma perc_up_ord:
  assumes "heap_ord w (Node l n r)" and "ctx_ord w (set_tree l \<union> set_tree r) cs"
  shows "heap_ord w (perc_up w l n r cs)"
  using assms
proof (induction cs arbitrary: l r)
  case (Cons c cs)
  show ?case
  proof (cases "w n < w (crumb_addr c)")
    case True
    have "heap_ord w (Node (prom_left l r c) n (prom_right l r c))"
      using Cons.prems True by (cases c) force+
    moreover have "set_tree (prom_left l r c) \<union> set_tree (prom_right l r c) =
        insert (crumb_addr c) (set_tree l \<union> set_tree r \<union> set_tree (crumb_tree c))"
      by (cases c) auto
    ultimately show ?thesis
      using Cons.IH [of "prom_left l r c" "prom_right l r c"] Cons.prems True by simp
  next
    case False
    then have le: "w (crumb_addr c) \<le> w n" by simp
    have eq: "set_tree (Node l n r) = insert n (set_tree l \<union> set_tree r)" by auto
    have "ctx_ord w (insert n (insert (crumb_addr c)
        (set_tree l \<union> set_tree r \<union> set_tree (crumb_tree c)))) cs"
      by (rule ctx_ord_insert [OF _ _ le]) (use Cons.prems in auto)
    then have "ctx_ord w (set_tree (Node l n r)) (c # cs)"
      using Cons.prems le by (simp add: eq insert_commute del: tree.set)
    then show ?thesis
      using Cons.prems(1) False by (simp only: perc_up.simps if_False heap_ord_plug)
  qed
qed simp

lemma perc_up_set:
  "set_tree (perc_up w l n r cs) = insert n (set_tree l \<union> set_tree r \<union> set (ctx_nodes cs))"
proof (induction cs arbitrary: l r)
  case (Cons c cs)
  show ?case by (cases c) (auto simp: Cons.IH set_plug)
qed simp

lemma perc_up_distinct:
  "distinct (inorder (perc_up w l n r cs)) \<longleftrightarrow> distinct (inorder (plug (Node l n r) cs))"
proof (induction cs arbitrary: l r)
  case (Cons c cs)
  show ?case by (cases c) (auto simp: Cons.IH distinct_plug)
qed simp

lemma sift_set: "set_tree (sift w l n r) = insert n (set_tree l \<union> set_tree r)"
  by (induction w l n r rule: sift.induct) (subst sift.simps, auto split: tree.split)

lemma sift_distinct:
  "distinct (inorder (sift w l n r)) \<longleftrightarrow> distinct (inorder (Node l n r))"
proof (induction w l n r rule: sift.induct)
  case (1 w l n r)
  show ?case
    using 1 by (subst sift.simps) (auto split: tree.split simp: sift_set)
qed

lemma heap_ord_min: "heap_ord w t \<Longrightarrow> a \<in> set_tree t \<Longrightarrow> wm w t \<le> w a"
  by (cases t) auto

lemma wm_max: "wm w t < x \<Longrightarrow> t \<noteq> Leaf"
  using max_word_max [of x] by (cases t) (auto simp: not_less)

lemma sift_ord:
  "heap_ord w l \<Longrightarrow> heap_ord w r \<Longrightarrow> heap_ord w (sift w l n r)"
proof (induction w l n r rule: sift.induct)
  case (1 w l n r)
  note le = heap_ord_min [OF "1.prems"(1)] heap_ord_min [OF "1.prems"(2)]
  show ?case
  proof (cases "w n \<le> wm w l \<and> w n \<le> wm w r")
    case True
    then show ?thesis
      using "1.prems" le by (subst sift.simps) force
  next
    case stay: False
    show ?thesis
    proof (cases "wm w l \<le> w n \<and> wm w l \<le> wm w r")
      case True
      then have "wm w l < w n" using stay by auto
      then obtain ll m lr where l: "l = Node ll m lr"
        using wm_max by (metis tree.exhaust)
      have "heap_ord w (sift w ll n lr)"
        using "1.IH"(1) [OF stay True l] "1.prems"(1) l by simp
      then show ?thesis
        using stay True "1.prems" le l by (subst sift.simps) (force simp: sift_set)
    next
      case False
      then have "wm w r < w n" "wm w r \<le> wm w l" using stay by auto
      then obtain rl m rr where r: "r = Node rl m rr"
        using wm_max by (metis tree.exhaust)
      have "heap_ord w (sift w rl n rr)"
        using "1.IH"(2) [OF stay False r] "1.prems"(2) r by simp
      then show ?thesis
        using stay False "1.prems" le r \<open>wm w r < w n\<close> \<open>wm w r \<le> wm w l\<close>
        by (subst sift.simps) (force simp: sift_set)
    qed
  qed
qed

section \<open>The percolation loops\<close>

lemma promote_distinct:
  "distinct (inorder (plug (promote1 l n r c) cs)) \<longleftrightarrow>
   distinct (inorder (plug (Node l n r) (c # cs)))"
  by (cases c) (auto simp: distinct_plug)

lemma promote_set:
  "set_tree (plug (promote1 l n r c) cs) = set_tree (plug (Node l n r) (c # cs))"
  by (cases c) (auto simp: set_plug)

lemma ctx_parent_weight: "ctx_at s hole (c # cs) \<Longrightarrow>
   \<exists>w. wl_get s (Some (crumb_addr c)) = Some w \<and> wl_Weight w = wgt s (crumb_addr c)"
  by (auto simp: wl_get_def wgt_def)

lemma HeapPercolateUp_tree:
  assumes "tree_at s (ctxp cs) (Node l n r)" and "ctx_at s (Some n) cs"
    and "distinct (inorder (plug (Node l n r) cs))"
  shows "\<exists>s'. HeapPercolateUp (Some n) s = Some s' \<and>
     tree_at s' NULL (perc_up (wgt s) l n r cs) \<and> (\<forall>a. wgt s' a = wgt s a) \<and> dom s' = dom s \<and>
     (\<forall>a. a \<notin> set_tree (plug (Node l n r) cs) \<longrightarrow> s' a = s a)"
  using assms
proof (induction cs arbitrary: s l r)
  case Nil
  then show ?case
    by (subst HeapPercolateUp.simps) (auto simp: wl_get_def)
next
  case (Cons c cs)
  obtain wn where wn: "wl_get s (Some n) = Some wn" "wl_Parent wn = Some (crumb_addr c)"
      "wl_Weight wn = wgt s n"
    using Cons.prems(1) by (auto simp: wl_get_def wgt_def)
  obtain wp where wp: "wl_get s (Some (crumb_addr c)) = Some wp" "wl_Weight wp = wgt s (crumb_addr c)"
    using ctx_parent_weight [OF Cons.prems(2)] by blast
  show ?case
  proof (cases "wgt s n < wgt s (crumb_addr c)")
    case True
    obtain s1 where s1: "HeapPromote (Some n) s = Some s1"
        "tree_at s1 (ctxp cs) (Node (prom_left l r c) n (prom_right l r c))" "ctx_at s1 (Some n) cs"
        "\<forall>a. wgt s1 a = wgt s a" "dom s1 = dom s"
        "\<forall>a. a \<notin> set_tree (plug (Node l n r) (c # cs)) \<longrightarrow> s1 a = s a"
      using promote_tree [OF Cons.prems] unfolding promote1_eq by blast
    have d: "distinct (inorder (plug (Node (prom_left l r c) n (prom_right l r c)) cs))"
      using Cons.prems(3) promote_distinct [of l n r c cs] unfolding promote1_eq by blast
    have w: "wgt s1 = wgt s" using s1(4) by blast
    have un: "HeapPercolateUp (Some n) s = HeapPercolateUp (Some n) s1"
      by (subst HeapPercolateUp.simps) (simp add: wn wp True s1(1))
    from Cons.IH [OF s1(2,3) d] obtain s' where
        "HeapPercolateUp (Some n) s1 = Some s'"
        "tree_at s' NULL (perc_up (wgt s1) (prom_left l r c) n (prom_right l r c) cs)"
        "\<forall>a. wgt s' a = wgt s1 a" "dom s' = dom s1"
        "\<forall>a. a \<notin> set_tree (plug (Node (prom_left l r c) n (prom_right l r c)) cs) \<longrightarrow> s' a = s1 a"
      by blast
    moreover have "set_tree (plug (Node (prom_left l r c) n (prom_right l r c)) cs)
        = set_tree (plug (Node l n r) (c # cs))"
      using promote_set [of l n r c cs] unfolding promote1_eq by blast
    ultimately show ?thesis
      using s1 True un by (simp add: w)
  next
    case False
    have "HeapPercolateUp (Some n) s = Some s"
      by (subst HeapPercolateUp.simps) (simp add: wn wp False)
    moreover have "tree_at s NULL (plug (Node l n r) (c # cs))"
      unfolding tree_at_plug using Cons.prems by simp
    ultimately show ?thesis
      using False by (auto simp del: plug.simps)
  qed
qed

lemma HeapSmallest_tree:
  assumes "tree_at s par (Node l n r)"
  shows "HeapSmallest (Some n) (rootp l) (rootp r) s =
    Some (if wgt s n \<le> wm (wgt s) l \<and> wgt s n \<le> wm (wgt s) r then Some n
          else if wm (wgt s) l \<le> wgt s n \<and> wm (wgt s) l \<le> wm (wgt s) r then rootp l
          else rootp r)"
proof -
  have w: "weight_or_max s (rootp t) = Some (wm (wgt s) t)" if "tree_at s q t" for q t
    using that by (cases t) (auto simp: weight_or_max_def wl_get_def wgt_def)
  have "weight_or_max s (Some n) = Some (wgt s n)"
    using w [OF assms] by simp
  moreover have "weight_or_max s (rootp l) = Some (wm (wgt s) l)"
    "weight_or_max s (rootp r) = Some (wm (wgt s) r)"
    using w assms by auto
  ultimately show ?thesis by (auto simp: HeapSmallest_def)
qed

lemma rootp_plug: "cs \<noteq> [] \<Longrightarrow> rootp (plug t cs) = rootp (plug t' cs)"
proof (induction cs arbitrary: t t')
  case (Cons c cs)
  show ?case
    by (cases "cs = []"; cases c) (auto intro: Cons.IH)
qed simp

lemma HeapPercolateDown_tree:
  assumes "tree_at s (ctxp cs) (Node l n r)" and "ctx_at s (Some n) cs"
    and "distinct (inorder (plug (Node l n r) cs))" and "hp_Head hp = rootp (plug (Node l n r) cs)"
  shows "\<exists>hp' s'. HeapPercolateDown (Some n) hp s = Some (hp', s') \<and>
     tree_at s' NULL (plug (sift (wgt s) l n r) cs) \<and>
     hp_Head hp' = rootp (plug (sift (wgt s) l n r) cs) \<and> hp_Size hp' = hp_Size hp \<and>
     (\<forall>a. wgt s' a = wgt s a) \<and> dom s' = dom s \<and>
     (\<forall>a. a \<notin> set_tree (plug (Node l n r) cs) \<longrightarrow> s' a = s a)"
  using assms
proof (induction "wgt s" l n r arbitrary: s cs hp rule: sift.induct)
  case (1 l n r)
  let ?w = "wgt s"
  obtain wn where wn: "wl_get s (Some n) = Some wn" "wl_Left wn = rootp l" "wl_Right wn = rootp r"
    using "1.prems"(1) by (auto simp: wl_get_def)
  note small = HeapSmallest_tree [OF "1.prems"(1)]
  show ?case
  proof (cases "?w n \<le> wm ?w l \<and> ?w n \<le> wm ?w r")
    case True
    have "HeapPercolateDown (Some n) hp s = Some (hp, s)"
      by (subst HeapPercolateDown.simps) (simp add: wn small True)
    moreover have "sift ?w l n r = Node l n r" using True by (subst sift.simps) simp
    moreover have "tree_at s NULL (plug (Node l n r) cs)"
      unfolding tree_at_plug using "1.prems" by simp
    ultimately show ?thesis using "1.prems"(4) by auto
  next
    case stay: False
    define c where "c = (if wm ?w l \<le> ?w n \<and> wm ?w l \<le> wm ?w r then CL n r else CR l n)"
    define u where "u = (if wm ?w l \<le> ?w n \<and> wm ?w l \<le> wm ?w r then l else r)"
    have "wm ?w u < ?w n" using stay by (auto simp: u_def)
    then obtain ul m ur where u: "u = Node ul m ur"
      using wm_max by (metis tree.exhaust)
    have cl: "close1 u c = Node l n r" by (simp add: u_def c_def)
    have t: "tree_at s (ctxp (c # cs)) (Node ul m ur)" and ctx: "ctx_at s (Some m) (c # cs)"
      and d: "distinct (inorder (plug (Node ul m ur) (c # cs)))"
    proof -
      have "tree_at s NULL (plug u (c # cs))" 
        unfolding plug.simps cl tree_at_plug using "1.prems" by simp
      then show "tree_at s (ctxp (c # cs)) (Node ul m ur)" "ctx_at s (Some m) (c # cs)"
        unfolding tree_at_plug u by simp_all
      show "distinct (inorder (plug (Node ul m ur) (c # cs)))"
        using "1.prems"(3) unfolding plug.simps u [symmetric] cl .
    qed
    obtain s1 where s1: "HeapPromote (Some m) s = Some s1"
        "tree_at s1 (ctxp cs) (promote1 ul m ur c)" "ctx_at s1 (Some m) cs"
        "\<forall>a. wgt s1 a = wgt s a" "dom s1 = dom s"
        "\<forall>a. a \<notin> set_tree (plug (Node ul m ur) (c # cs)) \<longrightarrow> s1 a = s a"
      using promote_tree [OF t ctx d] by blast
    have w: "wgt s1 = ?w" using s1(4) by blast
    have crumb: "crumb_addr c = n" by (simp add: c_def)
    define c' where "c' = (case c of CL _ t \<Rightarrow> CL m t | CR t _ \<Rightarrow> CR t m)"
    have pr: "promote1 ul m ur c = close1 (Node ul n ur) c'"
      by (simp add: c'_def c_def)
    have whole: "tree_at s1 NULL (plug (Node ul n ur) (c' # cs))"
      unfolding plug.simps pr [symmetric] tree_at_plug
      using s1(2,3) by (simp add: promote1_eq)
    then have t1: "tree_at s1 (ctxp (c' # cs)) (Node ul n ur)" and ctx1: "ctx_at s1 (Some n) (c' # cs)"
      unfolding tree_at_plug by simp_all
    have d1: "distinct (inorder (plug (Node ul n ur) (c' # cs)))"
      using d promote_distinct [of ul m ur c cs] by (simp add: pr)
    obtain wlm where wm1: "wl_get s1 (Some m) = Some wlm" "wl_Parent wlm = ctxp cs"
      using s1(2) by (cases c) (auto simp: wl_get_def)
    define hp1 where "hp1 = (if ctxp cs = NULL then hp\<lparr>hp_Head := Some m\<rparr> else hp)"
    have mn: "m \<noteq> n" using d unfolding distinct_plug by (auto simp: crumb)
    have un: "HeapPercolateDown (Some n) hp s = HeapPercolateDown (Some n) hp1 s1"
    proof -
      have "HeapSmallest (Some n) (rootp l) (rootp r) s = Some (Some m)"
        using small stay u by (auto simp: u_def split: if_splits)
      then show ?thesis
        using mn by (subst HeapPercolateDown.simps) (simp add: wn s1(1) wm1 hp1_def)
    qed
    have head1: "hp_Head hp1 = rootp (plug (Node ul n ur) (c' # cs))"
    proof (cases cs)
      case Nil
      then show ?thesis by (simp add: hp1_def pr [symmetric] promote1_eq)
    next
      case (Cons b bs)
      then have "hp_Head hp1 = rootp (plug (Node l n r) cs)" using "1.prems"(4) by (simp add: hp1_def)
      also have "\<dots> = rootp (plug (Node ul n ur) (c' # cs))"
        unfolding plug.simps(2) [of "Node ul n ur" c' cs] by (rule rootp_plug) (simp add: Cons)
      finally show ?thesis .
    qed
    have step: "plug (sift ?w ul n ur) (c' # cs) = plug (sift ?w l n r) cs"
      using stay u by (subst (2) sift.simps) (auto simp: u_def c'_def c_def)
    have sets: "set_tree (plug (Node ul n ur) (c' # cs)) = set_tree (plug (Node l n r) cs)"
      using promote_set [of ul m ur c cs] by (simp add: pr u [symmetric] cl)
    have IH: "\<exists>hp' s'. HeapPercolateDown (Some n) hp1 s1 = Some (hp', s') \<and>
       tree_at s' NULL (plug (sift (wgt s1) ul n ur) (c' # cs)) \<and>
       hp_Head hp' = rootp (plug (sift (wgt s1) ul n ur) (c' # cs)) \<and> hp_Size hp' = hp_Size hp1 \<and>
       (\<forall>a. wgt s' a = wgt s1 a) \<and> dom s' = dom s1 \<and>
       (\<forall>a. a \<notin> set_tree (plug (Node ul n ur) (c' # cs)) \<longrightarrow> s' a = s1 a)"
    proof (cases "wm ?w l \<le> ?w n \<and> wm ?w l \<le> wm ?w r")
      case True
      then have "l = Node ul m ur" using u unfolding u_def by (metis (full_types))
      from "1.hyps"(1) [OF stay True this w [symmetric] t1 ctx1 d1 head1] show ?thesis .
    next
      case False
      then have "r = Node ul m ur" using u unfolding u_def by (metis (full_types))
      from "1.hyps"(2) [OF stay False this w [symmetric] t1 ctx1 d1 head1] show ?thesis .
    qed
    have "hp_Size hp1 = hp_Size hp" by (simp add: hp1_def)
    moreover have "set_tree (plug (Node ul m ur) (c # cs)) = set_tree (plug (Node l n r) cs)"
      by (simp add: u [symmetric] cl)
    ultimately show ?thesis
      using IH s1(5,6) unfolding w step sets un by (auto simp: w)
  qed
qed

end
