(* ===== verification/HeapQueue.thy ===== *)
theory HeapQueue
  imports WeightedHeap
begin

unbundle bit_operations_syntax

text \<open>
  The heap of \<^verbatim>\<open>src/utils/heap.c\<close> as a priority queue. Positions in the complete tree
  are numbered from one; \<^verbatim>\<open>HeapFindElement\<close> walks the bits of a position. On top of the
  percolation lemmas of \<open>WeightedHeap\<close>, the whole operations \<^verbatim>\<open>HeapAdd\<close> and
  \<^verbatim>\<open>HeapPop\<close> refine a multiset from which the lightest element is taken.
\<close>

section \<open>Positions in a complete tree\<close>

text \<open>
  The nodes of the heap are numbered from one: the children of number \<open>i\<close> are
  \<open>2 * i\<close> and \<open>2 * i + 1\<close>. \<open>cshape n i t\<close> says that the subtree \<open>t\<close> at
  number \<open>i\<close> holds exactly the descendants of \<open>i\<close> that are at most \<open>n\<close>.
\<close>

fun cshape :: "nat \<Rightarrow> nat \<Rightarrow> 'a tree \<Rightarrow> bool" where
  "cshape n i Leaf = (n < i)"
| "cshape n i (Node l a r) = (i \<le> n \<and> cshape n (2 * i) l \<and> cshape n (2 * i + 1) r)"

fun idx :: "crumb list \<Rightarrow> nat" where
  "idx [] = 1"
| "idx (CL p r # cs) = 2 * idx cs"
| "idx (CR l p # cs) = 2 * idx cs + 1"

fun ctx_shape :: "nat \<Rightarrow> crumb list \<Rightarrow> bool" where
  "ctx_shape n [] = True"
| "ctx_shape n (CL p r # cs) = (idx cs \<le> n \<and> cshape n (2 * idx cs + 1) r \<and> ctx_shape n cs)"
| "ctx_shape n (CR l p # cs) = (idx cs \<le> n \<and> cshape n (2 * idx cs) l \<and> ctx_shape n cs)"

lemma cshape_plug: "cshape n 1 (plug t cs) \<longleftrightarrow> cshape n (idx cs) t \<and> ctx_shape n cs"
proof (induction cs arbitrary: t)
  case (Cons c cs)
  show ?case by (cases c) (auto simp: Cons.IH simp del: One_nat_def)
qed simp

lemma idx_pos: "1 \<le> idx cs"
  by (induction cs rule: idx.induct) auto

text \<open>\<open>desc i m\<close>: position \<open>m\<close> lies in the subtree of position \<open>i\<close>.\<close>

definition desc :: "nat \<Rightarrow> nat \<Rightarrow> bool" where
  "desc i m \<longleftrightarrow> (\<exists>j. m div 2 ^ j = i)"

lemma desc_refl: "desc i i"
  unfolding desc_def by (rule exI [of _ 0]) simp

lemma desc_up: "desc i m \<Longrightarrow> desc (i div 2) m"
proof -
  assume "desc i m"
  then obtain j where "m div 2 ^ j = i" by (auto simp: desc_def)
  then have "m div 2 ^ Suc j = i div 2" by (metis div_mult2_eq power_Suc2)
  then show ?thesis unfolding desc_def by blast
qed

lemma desc_child: "desc (2 * i) m \<Longrightarrow> desc i m" "desc (2 * i + 1) m \<Longrightarrow> desc i m"
  using desc_up [of "2 * i" m] desc_up [of "2 * i + 1" m] by simp_all

lemma div_shrink: "m div 2 ^ j' \<le> (m :: nat) div 2 ^ j div 2" if jj: "j < j'"
proof -
  obtain k where k: "j' = Suc j + k" using jj less_iff_Suc_add [of j j'] by auto
  have "m div 2 ^ j' = m div (2 ^ j * 2 * 2 ^ k)" by (simp add: k power_add mult.assoc mult.left_commute)
  also have "\<dots> = m div 2 ^ j div 2 div 2 ^ k" by (simp only: div_mult2_eq)
  finally show ?thesis by simp
qed

lemma desc_siblings:
  assumes "desc (2 * i) m" and "desc (2 * i + 1) m" and "1 \<le> i"
  shows False
proof -
  obtain j j' where j: "m div 2 ^ j = 2 * i" and j': "m div 2 ^ j' = 2 * i + 1"
    using assms(1,2) by (auto simp: desc_def)
  consider "j = j'" | "j < j'" | "j' < j" by linarith
  then show False
    using j j' div_shrink [of j j' m] div_shrink [of j' j m] assms(3) by cases auto
qed

lemma cshape_Suc:
  "1 \<le> i \<Longrightarrow> \<not> desc i (Suc n) \<Longrightarrow> cshape (Suc n) i t \<longleftrightarrow> cshape n i t"
proof (induction t arbitrary: i)
  case Leaf
  then have "i \<noteq> Suc n" using desc_refl by auto
  then show ?case by auto
next
  case (Node l a r)
  then have i: "i \<noteq> Suc n" using desc_refl by auto
  have "\<not> desc (2 * i) (Suc n)" "\<not> desc (2 * i + 1) (Suc n)"
    using Node.prems(2) desc_child by blast+
  then have "cshape (Suc n) (2 * i) l = cshape n (2 * i) l"
    "cshape (Suc n) (2 * i + 1) r = cshape n (2 * i + 1) r"
    using Node.IH Node.prems(1) by simp_all
  with i show ?case by (simp add: le_Suc_eq)
qed

lemma ctx_shape_Suc:
  "desc (idx cs) (Suc n) \<Longrightarrow> idx cs \<noteq> 1 \<longrightarrow> idx cs div 2 \<le> n \<Longrightarrow> ctx_shape (Suc n) cs \<longleftrightarrow> ctx_shape n cs"
proof (induction cs rule: ctx_shape.induct)
  case (2 n p r cs)
  have d: "desc (2 * idx cs) (Suc n)" using "2.prems"(1) by simp
  have "\<not> desc (2 * idx cs + 1) (Suc n)" using desc_siblings [OF d _ idx_pos] by blast
  moreover have "desc (idx cs) (Suc n)" by (rule desc_child(1) [OF d])
  moreover have "idx cs \<le> n" using "2.prems"(2) idx_pos [of cs] by simp
  moreover have "idx cs div 2 \<le> n" using calculation(3) by linarith
  ultimately show ?case
    using "2.IH" cshape_Suc [of "2 * idx cs + 1" n r] by simp
next
  case (3 n l p cs)
  have d: "desc (2 * idx cs + 1) (Suc n)" using "3.prems"(1) by simp
  have "\<not> desc (2 * idx cs) (Suc n)" using desc_siblings [OF _ d idx_pos] by blast
  moreover have "desc (idx cs) (Suc n)" by (rule desc_child(2) [OF d])
  moreover have "idx cs \<le> n" using "3.prems"(2) idx_pos [of cs] by simp
  moreover have "idx cs div 2 \<le> n" using calculation(3) by linarith
  ultimately show ?case
    using "3.IH" cshape_Suc [of "2 * idx cs" n l] idx_pos [of cs] by simp
qed simp

text \<open>The bits of a position below its leading one, and the walk they describe.\<close>

fun path_bits :: "nat \<Rightarrow> bool list" where
  "path_bits k = (if k \<le> 1 then [] else path_bits (k div 2) @ [odd k])"

declare path_bits.simps [simp del]

fun zip_to :: "bool list \<Rightarrow> addr tree \<Rightarrow> crumb list \<Rightarrow> addr tree \<times> crumb list" where
  "zip_to [] t cs = (t, cs)"
| "zip_to (b # bs) Leaf cs = (Leaf, cs)"
| "zip_to (b # bs) (Node l a r) cs =
     (if b then zip_to bs r (CR l a # cs) else zip_to bs l (CL a r # cs))"

lemma zip_to_snoc:
  "zip_to (bs @ [b]) t cs = (case zip_to bs t cs of (u, ds) \<Rightarrow> zip_to [b] u ds)"
proof (induction bs t cs rule: zip_to.induct)
  case (2 b' bs cs)
  show ?case by simp
qed (auto split: tree.split)

lemma zip_path:
  assumes "cshape n 1 t" and "1 \<le> k" and "k div 2 \<le> n"
  shows "\<exists>u cs. zip_to (path_bits k) t [] = (u, cs) \<and> plug u cs = t \<and> cshape n k u \<and> idx cs = k"
  using assms(2,3)
proof (induction k rule: path_bits.induct)
  case (1 k)
  show ?case
  proof (cases "k \<le> 1")
    case True
    with 1 assms(1) show ?thesis by (subst path_bits.simps) (auto simp: le_Suc_eq)
  next
    case False
    have "k div 2 div 2 \<le> n" using "1.prems"(2) by linarith
    moreover have "1 \<le> k div 2" using False by linarith
    ultimately obtain u cs where u: "zip_to (path_bits (k div 2)) t [] = (u, cs)" "plug u cs = t"
        "cshape n (k div 2) u" "idx cs = k div 2"
      using "1.IH" [OF False] by blast
    then obtain l a r where n: "u = Node l a r"
      using "1.prems"(2) by (cases u) auto
    have "2 * (k div 2) + (if odd k then 1 else 0) = k" by presburger
    with u n False show ?thesis
      by (subst path_bits.simps) (auto simp: zip_to_snoc split: if_splits)
  qed
qed

lemma path_bits_map: "path_bits k = map (bit k) (rev [0..<length (path_bits k)])"
proof (induction k rule: path_bits.induct)
  case (1 k)
  show ?case
  proof (cases "k \<le> 1")
    case True
    then show ?thesis by (subst (1 2) path_bits.simps) simp
  next
    case False
    let ?j = "length (path_bits (k div 2))"
    have len: "length (path_bits k) = Suc ?j" using False by (subst path_bits.simps) simp
    have "map (bit k) (rev [0..<Suc ?j]) = map (bit (k div 2)) (rev [0..<?j]) @ [odd k]"
      by (simp add: upt_conv_Cons map_Suc_upt [symmetric] rev_map bit_0 bit_Suc comp_def
          del: upt_Suc map_Suc_upt)
    with "1.IH" [OF False] False show ?thesis
      unfolding len by (subst path_bits.simps) simp
  qed
qed

lemma path_bits_length: "1 \<le> k \<Longrightarrow> 2 ^ length (path_bits k) \<le> k"
proof (induction k rule: path_bits.induct)
  case (1 k)
  show ?case
  proof (cases "k \<le> 1")
    case True
    with 1 show ?thesis by (subst path_bits.simps) simp
  next
    case False
    then have "1 \<le> k div 2" by linarith
    with 1 False have "2 ^ length (path_bits (k div 2)) \<le> k div 2" by blast
    with False show ?thesis by (subst path_bits.simps) simp
  qed
qed

lemma path_bits_length_less: "length (path_bits k) < n" if "1 \<le> k" "k < 2 ^ n"
proof -
  have "(2::nat) ^ length (path_bits k) < 2 ^ n"
    using path_bits_length [OF that(1)] that(2) by linarith
  then show ?thesis by simp
qed

lemma path_bits_idx: "length (path_bits (idx cs)) = length cs"
proof (induction cs rule: idx.induct)
  case 1
  show ?case by (simp add: path_bits.simps)
next
  case (2 p r cs)
  have "\<not> 2 * idx cs \<le> 1" using idx_pos [of cs] by linarith
  then show ?case by (subst path_bits.simps) (simp add: 2)
next
  case (3 l p cs)
  have "\<not> 2 * idx cs + 1 \<le> 1" "(2 * idx cs + 1) div 2 = idx cs" using idx_pos [of cs] by linarith+
  then show ?case by (subst path_bits.simps) (simp add: 3)
qed

lemma zip_to_length: "length (snd (zip_to bs t cs)) \<le> length cs + length bs"
  by (induction bs t cs rule: zip_to.induct) auto

subsection \<open>Finding an element\<close>

lemma HeapFindSteps_path:
  "1 \<le> unat i \<Longrightarrow> HeapFindSteps i c = Some (c + of_nat (length (path_bits (unat i))))"
proof (induction "unat i" arbitrary: i c rule: less_induct)
  case less
  show ?case
  proof (cases "i = 1")
    case True
    then show ?thesis by (subst HeapFindSteps.simps) (simp add: path_bits.simps)
  next
    case False
    then have two: "\<not> unat i \<le> 1" using less.prems
      by (metis le_antisym unat_1 word_unat_eq_iff)
    have h: "unat (i div 2) = unat i div 2" by (simp add: unat_div)
    have "HeapFindSteps (i div 2) (c + 1) =
        Some (c + 1 + of_nat (length (path_bits (unat i div 2))))"
      using less.hyps [of "i div 2" "c + 1"] two unfolding h by simp
    moreover have "length (path_bits (unat i)) = Suc (length (path_bits (unat i div 2)))"
      using two by (subst path_bits.simps) simp
    ultimately show ?thesis
      using False by (subst HeapFindSteps.simps) (simp add: add_ac)
  qed
qed

lemma mask_half: "Suc j < 32 \<Longrightarrow> (push_bit (Suc j) 1 :: 32 word) div 2 = push_bit j 1"
  by (rule bit_eqI) (auto simp: drop_bit_eq_div [symmetric, where n = 1, simplified]
      bit_simps not_le)

lemma mask_bit:
  assumes "j < 32"
  shows "ucast (push_bit j 1 :: 32 word) AND i \<noteq> (0 :: 64 word) \<longleftrightarrow> bit (unat i) j"
proof -
  have "ucast (push_bit j 1 :: 32 word) = (push_bit j 1 :: 64 word)"
    by (rule bit_eqI) (use assms in \<open>auto simp: bit_simps simp del: push_bit_of_1\<close>)
  then have "ucast (push_bit j 1 :: 32 word) AND i = (i AND 2 ^ j :: 64 word)"
    by (simp add: and.commute)
  then show ?thesis
    using assms by (simp add: and_exp_eq_0_iff_not_bit bit_unsigned_iff)
qed

text \<open>The descent visits the positions whose bits it reads, from the highest down.\<close>

lemma HeapFindDescend_zip:
  assumes "tree_at s par t" and "j \<le> 32"
    and "zip_to (map (bit (unat i)) (rev [0..<j])) t cs = (u, ds)" and "length ds = length cs + j"
  shows "HeapFindDescend (if j = 0 then 0 else push_bit (j - 1) 1) i s (rootp t) = Some (rootp u)"
  using assms
proof (induction j arbitrary: t par cs)
  case 0
  then show ?case by (simp add: HeapFindDescend.simps)
next
  case (Suc j)
  have len: "length (snd (zip_to (map (bit (unat i)) (rev [0..<j])) t' cs')) \<le> length cs' + j" for t' cs'
    using zip_to_length [of "map (bit (unat i)) (rev [0..<j])" t' cs'] by simp
  obtain l a r where t: "t = Node l a r"
    using Suc.prems(3,4) by (cases t) auto
  obtain wa where wa: "s a = Some wa" "wl_Left wa = rootp l" "wl_Right wa = rootp r"
    and sub: "tree_at s (Some a) l" "tree_at s (Some a) r"
    using Suc.prems(1) t by auto
  have pos: "0 < (push_bit j 1 :: 32 word)"
    using Suc.prems(2) by (simp add: word_neq_0_conv [symmetric])
  have half: "(push_bit j 1 :: 32 word) div 2 = (if j = 0 then 0 else push_bit (j - 1) 1)"
    using mask_half [of "j - 1"] Suc.prems(2) by (cases j) auto
  have b: "ucast (push_bit j 1 :: 32 word) AND i \<noteq> 0 \<longleftrightarrow> bit (unat i) j"
    using mask_bit Suc.prems(2) by simp
  define t' where "t' = (if bit (unat i) j then r else l)"
  define c where "c = (if bit (unat i) j then CR l a else CL a r)"
  have "HeapFindDescend (push_bit j 1) i s (rootp t) =
      HeapFindDescend (if j = 0 then 0 else push_bit (j - 1) 1) i s (rootp t')"
    using pos by (subst HeapFindDescend.simps)
      (simp add: t wl_get_def wa half b t'_def del: push_bit_of_1)
  also have "\<dots> = Some (rootp u)"
    by (rule Suc.IH [of "Some a" t' "c # cs"])
      (use Suc.prems sub t in \<open>auto simp: t'_def c_def\<close>)
  finally show ?case by simp
qed

lemma HeapFindElement_zip:
  assumes t: "tree_at s NULL t" and shape: "cshape n 1 t" and head: "hp_Head hp = rootp t"
    and i: "1 \<le> unat i" "unat i div 2 \<le> n" "unat i < 2 ^ 31" and size: "i \<le> hp_Size hp"
  shows "HeapFindElement i hp s = Some (rootp (fst (zip_to (path_bits (unat i)) t [])))"
proof -
  let ?k = "length (path_bits (unat i))"
  obtain u cs where z: "zip_to (path_bits (unat i)) t [] = (u, cs)" "idx cs = unat i"
    using zip_path [OF shape i(1,2)] by blast
  have k: "?k < 31" by (rule path_bits_length_less) (use i in simp_all)
  have steps: "HeapFindSteps i 0 = Some (of_nat ?k)"
    using HeapFindSteps_path [OF i(1), of 0] by simp
  have uk: "unat (of_nat ?k :: COUNT) = ?k" using k by (simp add: unat_of_nat)
  have pre: "i \<le> hp_Size hp \<and> i \<noteq> 0" using size i(1) by auto
  show ?thesis
  proof (cases "?k = 0")
    case True
    then show ?thesis using pre steps z head by (simp add: HeapFindElement_def)
  next
    case False
    have "HeapFindDescend (push_bit (?k - 1) 1) i s (rootp t) = Some (rootp u)"
      using HeapFindDescend_zip [OF t, of ?k i "[]" u cs] z False k path_bits_idx [of cs]
        path_bits_map [of "unat i"] by simp
    moreover have "(push_bit ?k 1 :: 32 word) div 2 = push_bit (?k - 1) 1"
    proof -
      have "Suc (?k - 1) = ?k" using False by linarith
      with mask_half [of "?k - 1"] k show ?thesis by (simp only:)
    qed
    moreover have "(of_nat ?k :: COUNT) \<noteq> 0" using uk False by (metis unat_0)
    ultimately show ?thesis
      using pre steps z head uk by (simp add: HeapFindElement_def del: push_bit_of_1)
  qed
qed

section \<open>The heap as a priority queue\<close>

text \<open>\<open>heap_rep s hp t\<close>: the store holds the heap \<open>t\<close> below \<open>hp\<close>.\<close>

definition heap_rep :: "wstore \<Rightarrow> HEAP \<Rightarrow> addr tree \<Rightarrow> bool" where
  "heap_rep s hp t \<longleftrightarrow>
     tree_at s NULL t \<and> hp_Head hp = rootp t \<and> unat (hp_Size hp) = size t \<and>
     cshape (size t) 1 t \<and> distinct (inorder t) \<and> heap_ord (wgt s) t \<and> size t < 2 ^ 31"

text \<open>The same operations on trees: append at the next free position and percolate up;
  move the last node to the root and percolate it down.\<close>

definition heap_add_tree :: "(addr \<Rightarrow> WEIGHT) \<Rightarrow> addr \<Rightarrow> addr tree \<Rightarrow> addr tree" where
  "heap_add_tree w n t = perc_up w Leaf n Leaf (snd (zip_to (path_bits (size t + 1)) t []))"

definition heap_pop_tree :: "(addr \<Rightarrow> WEIGHT) \<Rightarrow> addr tree \<Rightarrow> addr tree" where
  "heap_pop_tree w t =
     (case zip_to (path_bits (size t)) t [] of
        (Node _ tail _, cs) \<Rightarrow>
          (case plug Leaf cs of Leaf \<Rightarrow> Leaf | Node l _ r \<Rightarrow> sift w l tail r)
      | (Leaf, cs) \<Rightarrow> Leaf)"

lemma perc_up_shape:
  "cshape m 1 (perc_up w l n r cs) \<longleftrightarrow> cshape m 1 (plug (Node l n r) cs)"
proof (induction cs arbitrary: l r)
  case (Cons c cs)
  have "cshape m 1 (plug (Node (prom_left l r c) n (prom_right l r c)) cs) \<longleftrightarrow>
      cshape m 1 (plug (Node l n r) (c # cs))"
    by (cases c) (auto simp: cshape_plug simp del: One_nat_def)
  with Cons show ?case by (simp del: One_nat_def plug.simps)
qed simp

lemma sift_shape: "cshape m i (sift w l n r) \<longleftrightarrow> cshape m i (Node l n r)"
proof (induction w l n r arbitrary: i rule: sift.induct)
  case (1 w l n r)
  show ?case by (subst sift.simps) (auto split: tree.split simp: 1)
qed

lemma perc_up_size: "size (perc_up w l n r cs) = size (plug (Node l n r) cs)"
proof (induction cs arbitrary: l r)
  case (Cons c cs)
  show ?case by (cases c) (auto simp: Cons.IH size_plug)
qed simp

lemma sift_size: "size (sift w l n r) = size l + size r + 1"
proof (induction w l n r rule: sift.induct)
  case (1 w l n r)
  show ?case by (subst sift.simps) (auto split: tree.split simp: 1)
qed

text \<open>The next free position is a leaf below a node that has room.\<close>

lemma next_position:
  assumes "cshape n 1 t" and "1 \<le> n"
  obtains c cs l a r where "zip_to (path_bits (n + 1)) t [] = (Leaf, c # cs)"
    and "plug Leaf (c # cs) = t" and "idx (c # cs) = n + 1" and "crumb_addr c = a"
    and "zip_to (path_bits ((n + 1) div 2)) t [] = (Node l a r, cs)"
    and "plug (Node l a r) cs = t" and "c = (if l = Leaf then CL a r else CR l a)"
    and "l = Leaf \<or> r = Leaf"
proof -
  have "(n + 1) div 2 \<le> n" "1 \<le> (n + 1) div 2" "(n + 1) div 2 div 2 \<le> n"
    using assms(2) by linarith+
  then obtain u cs where u: "zip_to (path_bits ((n + 1) div 2)) t [] = (u, cs)" "plug u cs = t"
      "cshape n ((n + 1) div 2) u" "idx cs = (n + 1) div 2"
    using zip_path [OF assms(1), of "(n + 1) div 2"] by blast
  then obtain l a r where lar: "u = Node l a r"
    using \<open>(n + 1) div 2 \<le> n\<close> by (cases u) auto
  have pb: "path_bits (n + 1) = path_bits ((n + 1) div 2) @ [odd (n + 1)]"
    using assms(2) by (subst path_bits.simps) simp
  show thesis
  proof (cases "odd (n + 1)")
    case True
    then have i: "2 * ((n + 1) div 2) + 1 = n + 1" by presburger
    have shp: "cshape n (2 * ((n + 1) div 2)) l" "cshape n (2 * ((n + 1) div 2) + 1) r"
      using u(3) lar by simp_all
    have "r = Leaf" using shp(2) unfolding i by (cases r) auto
    moreover have "l \<noteq> Leaf" using shp(1) i by (cases l) auto
    ultimately show thesis
      using u lar True i by (intro that [of "CR l a" cs a l r]) (auto simp: pb [simplified] zip_to_snoc)
  next
    case False
    then have i: "2 * ((n + 1) div 2) = n + 1" by presburger
    have "cshape n (n + 1) l" using u(3) lar i by simp
    then have "l = Leaf" by (cases l) auto
    then show thesis
      using u lar False i by (intro that [of "CL a r" cs a l r]) (auto simp: pb [simplified] zip_to_snoc)
  qed
qed

lemma ctx_at_child:
  assumes "ctx_at s hole (c # cs)" and "distinct (ctx_nodes (c # cs))"
    and "s' (crumb_addr c) = map_option (case c of CL _ _ \<Rightarrow> wl_Left_update (\<lambda>_. h)
        | CR _ _ \<Rightarrow> wl_Right_update (\<lambda>_. h)) (s (crumb_addr c))"
    and "\<forall>a\<in>set_tree (crumb_tree c) \<union> set (ctx_nodes cs). s' a = s a"
  shows "ctx_at s' h (c # cs)"
proof -
  have "tree_at s' (Some (crumb_addr c)) (crumb_tree c)" "ctx_at s' (Some (crumb_addr c)) cs"
    using assms(1,4) by (auto intro: tree_at_frame ctx_at_frame)
  with assms(1,3) show ?thesis by (cases c) auto
qed

lemma tree_at_root:
  assumes "tree_at s NULL t" and "n \<in> set_tree t" and "s n = Some w"
  shows "wl_Parent w = NULL \<longleftrightarrow> rootp t = Some n"
proof
  have root: "wl_Parent w = par" if "tree_at s par u" "rootp u = Some n" for par u
    using that assms(3) by (cases u) auto
  have "rootp u = Some n" if "tree_at s par u" "n \<in> set_tree u" "wl_Parent w = NULL" for par u
    using that root by (induction u arbitrary: par) fastforce+
  then show "wl_Parent w = NULL \<Longrightarrow> rootp t = Some n" using assms by blast
  show "rootp t = Some n \<Longrightarrow> wl_Parent w = NULL" using root assms(1) by blast
qed

lemma perc_up_root:
  "rootp (perc_up w l n r cs) = Some n \<or> rootp (perc_up w l n r cs) = rootp (plug (Node l n r) cs)"
proof (induction cs arbitrary: l r)
  case (Cons c cs)
  have "rootp (plug (Node (prom_left l r c) n (prom_right l r c)) cs) = Some n \<or>
      rootp (plug (Node (prom_left l r c) n (prom_right l r c)) cs) = rootp (plug (Node l n r) (c # cs))"
    using rootp_plug [of cs] by (cases "cs = []") auto
  with Cons [of "prom_left l r c" "prom_right l r c"] show ?case
    by (auto simp del: plug.simps)
qed simp

lemma heap_ord_cong: "\<forall>a\<in>set_tree t. w a = w' a \<Longrightarrow> heap_ord w t = heap_ord w' t"
  by (induction t) auto

lemma perc_up_cong:
  "\<forall>a\<in>insert n (set (ctx_nodes cs)). w a = w' a \<Longrightarrow> perc_up w l n r cs = perc_up w' l n r cs"
  by (induction cs arbitrary: l r) auto

lemma ctx_ord_mono: "ctx_ord w S cs \<Longrightarrow> S' \<subseteq> S \<Longrightarrow> ctx_ord w S' cs"
proof (induction cs arbitrary: S S')
  case (Cons c cs)
  have "ctx_ord w (insert (crumb_addr c) (S' \<union> set_tree (crumb_tree c))) cs"
    by (rule Cons.IH [of "insert (crumb_addr c) (S \<union> set_tree (crumb_tree c))"])
      (use Cons.prems in auto)
  with Cons.prems show ?case by auto
qed simp

text \<open>The shape of the tree after an insertion.\<close>

lemma heap_add_tree_facts:
  assumes "cshape (size t) 1 t" and "distinct (inorder t)" and "heap_ord w t" and "n \<notin> set_tree t"
  shows "set_tree (heap_add_tree w n t) = insert n (set_tree t)"
    and "size (heap_add_tree w n t) = size t + 1"
    and "cshape (size t + 1) 1 (heap_add_tree w n t)"
    and "distinct (inorder (heap_add_tree w n t))"
    and "heap_ord w (heap_add_tree w n t)"
proof -
  obtain cs where cs: "zip_to (path_bits (size t + 1)) t [] = (Leaf, cs)" "plug Leaf cs = t"
    "idx cs = size t + 1"
  proof (cases "size t = 0")
    case True
    then show ?thesis using that [of "[]"] by (simp add: path_bits.simps)
  next
    case False
    then show ?thesis using next_position [OF assms(1)] that by (metis One_nat_def Suc_leI neq0_conv)
  qed
  have eq: "heap_add_tree w n t = perc_up w Leaf n Leaf cs"
    by (simp add: heap_add_tree_def cs(1) [simplified])
  note [simp] = set_plug distinct_plug size_plug
  have t: "set_tree t = set (ctx_nodes cs)" "size t = length (ctx_nodes cs)"
    "distinct (ctx_nodes cs)" "ctx_ord w {} cs" "ctx_shape (size t) cs"
    using assms(1-3) unfolding cs(2) [symmetric]
    by (simp_all add: heap_ord_plug cshape_plug del: One_nat_def)
  show "set_tree (heap_add_tree w n t) = insert n (set_tree t)"
    unfolding eq perc_up_set by (simp add: t)
  show "size (heap_add_tree w n t) = size t + 1"
    unfolding eq perc_up_size by (simp add: t)
  have "size t \<noteq> 0 \<longrightarrow> (size t + 1) div 2 \<le> size t" by linarith
  then have "ctx_shape (size t + 1) cs"
    using ctx_shape_Suc [of cs "size t"] t(5) desc_refl [of "size t + 1"] cs(3) by auto
  then show "cshape (size t + 1) 1 (heap_add_tree w n t)"
    unfolding eq perc_up_shape cshape_plug cs(3) by simp
  show "distinct (inorder (heap_add_tree w n t))"
    unfolding eq perc_up_distinct using t assms(4) by auto
  show "heap_ord w (heap_add_tree w n t)"
    unfolding eq by (rule perc_up_ord) (use t in auto)
qed
lemma HeapAdd_rep:
  assumes rep: "heap_rep s hp t" and n: "n \<notin> set_tree t" "n \<in> dom s"
    and room: "size t + 1 < 2 ^ 31"
  shows "\<exists>hp' s'. HeapAdd w (Some n) hp s = Some (hp', s') \<and>
     heap_rep s' hp' (heap_add_tree ((wgt s)(n := w)) n t) \<and>
     wgt s' = (wgt s)(n := w) \<and> dom s' = dom s \<and>
     (\<forall>a. a \<notin> insert n (set_tree t) \<longrightarrow> s' a = s a)"
proof -
  let ?w = "(wgt s)(n := w)"
  note rep' = rep [unfolded heap_rep_def]
  obtain wn where wn: "s n = Some wn" using n(2) by auto
  define s0 where "s0 = s(n \<mapsto> wn\<lparr>wl_Weight := w, wl_Left := NULL, wl_Right := NULL\<rparr>)"
  have w0: "wgt s0 = ?w" by (auto simp: s0_def wgt_def)
  have t0: "tree_at s0 NULL t"
    by (rule tree_at_frame [of s]) (use rep' n(1) in \<open>auto simp: s0_def\<close>)
  define hp1 where "hp1 = hp\<lparr>hp_Size := hp_Size hp + 1\<rparr>"
  have size1: "unat (hp_Size hp1) = size t + 1"
    using rep' room by (simp add: hp1_def unat_Suc_word)
  have facts: "set_tree (heap_add_tree ?w n t) = insert n (set_tree t)"
      "size (heap_add_tree ?w n t) = size t + 1" "cshape (size t + 1) 1 (heap_add_tree ?w n t)"
      "distinct (inorder (heap_add_tree ?w n t))" "heap_ord ?w (heap_add_tree ?w n t)"
  proof -
    have "heap_ord ?w t = heap_ord (wgt s) t" by (rule heap_ord_cong) (use n(1) in auto)
    then show "set_tree (heap_add_tree ?w n t) = insert n (set_tree t)"
      "size (heap_add_tree ?w n t) = size t + 1" "cshape (size t + 1) 1 (heap_add_tree ?w n t)"
      "distinct (inorder (heap_add_tree ?w n t))" "heap_ord ?w (heap_add_tree ?w n t)"
      using heap_add_tree_facts [of t ?w n] rep' n(1) by auto
  qed
  have start: "HeapAdd w (Some n) hp s =
     (if hp_Size hp1 = 1 then
        do { s \<leftarrow> wl_set_Parent (Some n) NULL s0; Some (hp1\<lparr>hp_Head := Some n\<rparr>, s) }
      else
        do {
          parent \<leftarrow> HeapFindElement (hp_Size hp1 div 2) hp1 s0;
          p \<leftarrow> wl_get s0 parent;
          ASSERT (wl_Left p = NULL \<or> wl_Right p = NULL);
          s \<leftarrow> (if wl_Left p = NULL then wl_set_Left parent (Some n) s0
                else wl_set_Right parent (Some n) s0);
          s \<leftarrow> wl_set_Parent (Some n) parent s;
          s \<leftarrow> HeapPercolateUp (Some n) s;
          n' \<leftarrow> wl_get s (Some n);
          Some (if wl_Parent n' = NULL then hp1\<lparr>hp_Head := Some n\<rparr> else hp1, s)
        })"
  proof -
    have "wl_upd (wl_Weight_update (\<lambda>_. w)) (Some n) s = Some (s(n \<mapsto> wn\<lparr>wl_Weight := w\<rparr>))"
      "wl_set_Left (Some n) NULL (s(n \<mapsto> wn\<lparr>wl_Weight := w\<rparr>)) =
         Some (s(n \<mapsto> wn\<lparr>wl_Weight := w, wl_Left := NULL\<rparr>))"
      "wl_set_Right (Some n) NULL (s(n \<mapsto> wn\<lparr>wl_Weight := w, wl_Left := NULL\<rparr>)) = Some s0"
      by (simp_all add: wl_upd_def wn s0_def)
    then show ?thesis unfolding HeapAdd_def Let_def hp1_def by simp
  qed
  show ?thesis
  proof (cases "size t = 0")
    case True
    then have one: "hp_Size hp1 = 1" using size1 by (simp add: word_unat_eq_iff)
    have eq: "heap_add_tree ?w n t = Node Leaf n Leaf"
      using True by (simp add: heap_add_tree_def path_bits.simps)
    define s1 where "s1 = s0(n \<mapsto> wn\<lparr>wl_Weight := w, wl_Left := NULL, wl_Right := NULL, wl_Parent := NULL\<rparr>)"
    have "HeapAdd w (Some n) hp s = Some (hp1\<lparr>hp_Head := Some n\<rparr>, s1)"
      unfolding start by (simp add: one wl_upd_def s0_def s1_def)
    moreover have "wgt s1 = ?w" by (auto simp: s1_def s0_def wgt_def)
    ultimately show ?thesis
      using True room size1 facts unfolding eq heap_rep_def
      by (auto simp: s1_def s0_def wn)
  next
    case False
    then have many: "hp_Size hp1 \<noteq> 1" using size1 by (auto simp: word_unat_eq_iff)
    have one: "1 \<le> size t" using False by linarith
    have shape: "cshape (size t) 1 t" using rep' by blast
    obtain c cs l a r where z: "zip_to (path_bits (size t + 1)) t [] = (Leaf, c # cs)"
      "plug Leaf (c # cs) = t" "idx (c # cs) = size t + 1" "crumb_addr c = a"
      "zip_to (path_bits ((size t + 1) div 2)) t [] = (Node l a r, cs)" "plug (Node l a r) cs = t"
      "c = (if l = Leaf then CL a r else CR l a)" "l = Leaf \<or> r = Leaf"
      by (rule next_position [OF shape one])
    have find: "HeapFindElement (hp_Size hp1 div 2) hp1 s0 = Some (Some a)"
    proof -
      have "unat (hp_Size hp1 div 2) = (size t + 1) div 2" by (simp add: unat_div size1)
      moreover have "hp_Size hp1 div 2 \<le> hp_Size hp1"
        by (simp add: word_le_nat_alt unat_div)
      ultimately show ?thesis
        using HeapFindElement_zip [OF t0, of "size t" hp1 "hp_Size hp1 div 2"] rep' room z(5) one
        by (simp add: hp1_def)
    qed
    obtain wa where wa: "s0 a = Some wa" "wl_Left wa = rootp l" "wl_Right wa = rootp r"
      using t0 unfolding z(6) [symmetric] tree_at_plug by auto
    have an: "a \<noteq> n" using n(1) unfolding z(6) [symmetric] set_plug by auto
    define s1 where "s1 = s0(a \<mapsto> (if l = Leaf then wa\<lparr>wl_Left := Some n\<rparr> else wa\<lparr>wl_Right := Some n\<rparr>))"
    define s2 where "s2 = s1(n \<mapsto> wn\<lparr>wl_Weight := w, wl_Left := NULL, wl_Right := NULL, wl_Parent := Some a\<rparr>)"
    have "s0 n = Some (wn\<lparr>wl_Weight := w, wl_Left := NULL, wl_Right := NULL\<rparr>)" by (simp add: s0_def)
    then have "wgt s2 = wgt s0" using an wa by (auto simp: s2_def s1_def wgt_def fun_eq_iff)
    then have w2: "wgt s2 = ?w" using w0 by simp
    have d: "distinct (inorder (plug Leaf (c # cs)))" using rep' z(2) by simp
    then have d': "distinct (ctx_nodes (c # cs))" by (simp only: distinct_plug)
    have nctx: "n \<notin> set (ctx_nodes (c # cs))" using n(1) z(2) by (metis UnI2 set_plug)
    have t2: "tree_at s2 (ctxp (c # cs)) (Node Leaf n Leaf)" using z(4) by (simp add: s2_def)
    have ctx2: "ctx_at s2 (Some n) (c # cs)"
    proof (rule ctx_at_child [of s0 NULL])
      show "ctx_at s0 NULL (c # cs)" using t0 unfolding z(2) [symmetric] tree_at_plug by simp
      show "s2 (crumb_addr c) = map_option (case c of CL _ _ \<Rightarrow> wl_Left_update (\<lambda>_. Some n)
        | CR _ _ \<Rightarrow> wl_Right_update (\<lambda>_. Some n)) (s0 (crumb_addr c))"
        using an wa z(4,7) by (simp add: s2_def s1_def)
      show "\<forall>b\<in>set_tree (crumb_tree c) \<union> set (ctx_nodes cs). s2 b = s0 b"
        using d' nctx z(4) by (auto simp: s2_def s1_def)
    qed (rule d')
    have d2: "distinct (inorder (plug (Node Leaf n Leaf) (c # cs)))"
      using d' nctx unfolding distinct_plug by auto
    have eq: "heap_add_tree ?w n t = perc_up (wgt s2) Leaf n Leaf (c # cs)"
      by (simp add: heap_add_tree_def z(1) [simplified] w2)
    obtain s3 where s3: "HeapPercolateUp (Some n) s2 = Some s3"
      "tree_at s3 NULL (heap_add_tree ?w n t)" "wgt s3 = wgt s2" "dom s3 = dom s2"
      "\<forall>b. b \<notin> set_tree (plug (Node Leaf n Leaf) (c # cs)) \<longrightarrow> s3 b = s2 b"
      using HeapPercolateUp_tree [OF t2 ctx2 d2] unfolding eq by blast
    have sets: "set_tree (plug (Node Leaf n Leaf) (c # cs)) = insert n (set_tree t)"
      unfolding z(2) [symmetric] set_plug by auto
    obtain wn' where wn': "s3 n = Some wn'"
      using tree_at_dom [OF s3(2), of n] facts(1) by auto
    have top: "wl_Parent wn' = NULL \<longleftrightarrow> rootp (heap_add_tree ?w n t) = Some n"
      by (rule tree_at_root [OF s3(2) _ wn']) (simp add: facts)
    define hp2 where "hp2 = (if wl_Parent wn' = NULL then hp1\<lparr>hp_Head := Some n\<rparr> else hp1)"
    have run: "HeapAdd w (Some n) hp s = Some (hp2, s3)"
    proof -
      have "(if wl_Left wa = NULL then wl_set_Left (Some a) (Some n) s0
          else wl_set_Right (Some a) (Some n) s0) = Some s1"
        using wa by (auto simp: wl_upd_def s1_def)
      moreover have "wl_set_Parent (Some n) (Some a) s1 = Some s2"
        using an by (simp add: wl_upd_def s1_def s2_def s0_def)
      moreover have "wl_Left wa = NULL \<or> wl_Right wa = NULL" using wa z(8) by auto
      ultimately show ?thesis
        unfolding start by (simp add: many find wl_get_def wa(1) s3(1) wn' hp2_def)
    qed
    have "rootp t = rootp (plug (Node Leaf n Leaf) (c # cs))"
      unfolding z(2) [symmetric] by (rule rootp_plug) simp
    then have "hp_Head hp2 = rootp (heap_add_tree ?w n t)"
      using perc_up_root [of "wgt s2" Leaf n Leaf "c # cs"] top rep' eq
      by (auto simp: hp2_def hp1_def)
    moreover have "hp_Size hp2 = hp_Size hp1" by (simp add: hp2_def)
    ultimately have "heap_rep s3 hp2 (heap_add_tree ?w n t)"
      unfolding heap_rep_def using s3(2,3) w2 size1 facts room by simp
    moreover have "dom s3 = dom s" using s3(4) wa wn an by (auto simp: s2_def s1_def s0_def)
    moreover have "\<forall>b. b \<notin> insert n (set_tree t) \<longrightarrow> s3 b = s b"
      using s3(5) sets z(2,4) set_plug [of Leaf "c # cs"] by (auto simp: s2_def s1_def s0_def)
    moreover have "wgt s3 = ?w" using s3(3) w2 by simp
    ultimately show ?thesis using run by blast
  qed
qed

text \<open>The last position is a leaf, and taking it away leaves a complete tree.\<close>

lemma last_position:
  assumes "cshape n 1 t" and "1 \<le> n"
  obtains a cs where "zip_to (path_bits n) t [] = (Node Leaf a Leaf, cs)"
    and "plug (Node Leaf a Leaf) cs = t" and "idx cs = n" and "cshape (n - 1) 1 (plug Leaf cs)"
proof -
  have "n div 2 \<le> n" by simp
  then obtain u cs where u: "zip_to (path_bits n) t [] = (u, cs)" "plug u cs = t" "cshape n n u"
      "idx cs = n"
    using zip_path [OF assms(1,2)] by blast
  then obtain l a r where n: "u = Node l a r" using assms(2) by (cases u) auto
  have leaf: "cshape n (2 * n) v \<Longrightarrow> v = Leaf" "cshape n (2 * n + 1) v \<Longrightarrow> v = Leaf" for v :: "addr tree"
    using assms(2) by (cases v; simp)+
  have lr: "l = Leaf" "r = Leaf" using u(3) n leaf by simp_all
  have "ctx_shape n cs" using assms(1) u(2,4) cshape_plug by blast
  moreover have "n \<noteq> 1 \<longrightarrow> n div 2 \<le> n - 1" by linarith
  ultimately have "ctx_shape (n - 1) cs"
    using ctx_shape_Suc [of cs "n - 1"] u(4) assms(2) desc_refl [of n] by simp
  then have "cshape (n - 1) 1 (plug Leaf cs)"
    unfolding cshape_plug u(4) using assms(2) by simp
  then show thesis using that u n lr by blast
qed

lemma heap_pop_tree_facts:
  assumes "cshape (size t) 1 t" and "distinct (inorder t)" and "heap_ord w t" and "rootp t = Some m"
  shows "set_tree (heap_pop_tree w t) = set_tree t - {m}"
    and "size (heap_pop_tree w t) = size t - 1"
    and "cshape (size t - 1) 1 (heap_pop_tree w t)"
    and "distinct (inorder (heap_pop_tree w t))"
    and "heap_ord w (heap_pop_tree w t)"
proof -
  have one: "1 \<le> size t" using assms(4) by (cases t) auto
  obtain a cs where z: "zip_to (path_bits (size t)) t [] = (Node Leaf a Leaf, cs)"
    "plug (Node Leaf a Leaf) cs = t" "idx cs = size t" "cshape (size t - 1) 1 (plug Leaf cs)"
    by (rule last_position [OF assms(1) one])
  have d: "distinct (inorder (plug Leaf cs))" "a \<notin> set_tree (plug Leaf cs)"
      "set_tree t = insert a (set_tree (plug Leaf cs))" "size t = Suc (size (plug Leaf cs))"
    using assms(2) unfolding z(2) [symmetric] set_plug distinct_plug size_plug by auto
  have ord: "heap_ord w (plug Leaf cs)"
    using assms(3) ctx_ord_mono [of w _ cs "{}"] unfolding z(2) [symmetric] heap_ord_plug by auto
  have all: "set_tree (heap_pop_tree w t) = set_tree t - {m} \<and> size (heap_pop_tree w t) = size t - 1 \<and>
     cshape (size t - 1) 1 (heap_pop_tree w t) \<and> distinct (inorder (heap_pop_tree w t)) \<and>
     heap_ord w (heap_pop_tree w t)"
  proof (cases "plug Leaf cs")
    case Leaf
    then have "length (ctx_nodes cs) = 0" using size_plug [of Leaf cs] by simp
    then have "cs = []" by (cases cs) auto
    then have t: "t = Node Leaf a Leaf" using z(2) by simp
    then have "heap_pop_tree w t = Leaf" by (simp add: heap_pop_tree_def path_bits.simps)
    then show ?thesis using assms(4) t by simp
  next
    case (Node l p r)
    then have "cs \<noteq> []" by auto
    then have "p = m" using rootp_plug [of cs Leaf "Node Leaf a Leaf"] Node z(2) assms(4) by simp
    moreover have eq: "heap_pop_tree w t = sift w l a r" by (simp add: heap_pop_tree_def z(1) Node)
    moreover have "cshape (size t - 1) 1 (sift w l a r)"
      using z(4) Node unfolding sift_shape by simp
    moreover have "m \<notin> set_tree l \<union> set_tree r" "a \<noteq> m" "set_tree t = {a, m} \<union> set_tree l \<union> set_tree r"
      using d(1-3) Node calculation(1) by auto
    moreover have "size (sift w l a r) = size t - 1"
      using d(4) Node by (simp add: sift_size)
    moreover have "distinct (inorder (sift w l a r))"
      using d(1,2) Node by (simp add: sift_distinct)
    moreover have "heap_ord w (sift w l a r)" using ord Node by (simp add: sift_ord)
    ultimately show ?thesis by (simp only: sift_set eq) blast
  qed
  then show "set_tree (heap_pop_tree w t) = set_tree t - {m}" "size (heap_pop_tree w t) = size t - 1"
    "cshape (size t - 1) 1 (heap_pop_tree w t)" "distinct (inorder (heap_pop_tree w t))"
    "heap_ord w (heap_pop_tree w t)" by blast+
qed

text \<open>Taking the last node off its parent, and putting it in the place of the root.\<close>

lemma detach_tail:
  assumes t: "tree_at s NULL (plug (Node Leaf a Leaf) (c # cs))"
    and d: "distinct (inorder (plug (Node Leaf a Leaf) (c # cs)))"
  shows "\<exists>s'. do { tp \<leftarrow> wl_get s (ctxp (c # cs));
              (if wl_Right tp = Some a then wl_set_Right (ctxp (c # cs)) NULL s
               else wl_set_Left (ctxp (c # cs)) NULL s) } = Some s' \<and>
     tree_at s' NULL (plug Leaf (c # cs)) \<and> wgt s' = wgt s \<and> dom s' = dom s \<and>
     (\<forall>b. b \<notin> set (ctx_nodes (c # cs)) \<longrightarrow> s' b = s b)"
proof -
  have ctx: "ctx_at s (Some a) (c # cs)" using t by (simp add: tree_at_plug del: plug.simps)
  have d': "distinct (ctx_nodes (c # cs))" "a \<notin> set (ctx_nodes (c # cs))"
    using d unfolding distinct_plug by auto
  then have sib: "rootp (crumb_tree c) \<noteq> Some a" by (auto dest: rootp_in)
  obtain wp where wp: "s (crumb_addr c) = Some wp"
      "wl_Right wp = Some a \<longleftrightarrow> (\<exists>l p. c = CR l p)"
    using ctx sib by (cases c) auto
  define f :: "WEIGHTED_LINK \<Rightarrow> WEIGHTED_LINK" where "f = (case c of CL _ _ \<Rightarrow> wl_Left_update (\<lambda>_. NULL)
      | CR _ _ \<Rightarrow> wl_Right_update (\<lambda>_. NULL))"
  define s' where "s' = s(crumb_addr c \<mapsto> f wp)"
  have "wl_get s (ctxp (c # cs)) = Some wp"
    "(if wl_Right wp = Some a then wl_set_Right (ctxp (c # cs)) NULL s
      else wl_set_Left (ctxp (c # cs)) NULL s) = Some s'"
    using wp by (cases c; simp add: wl_get_def wl_upd_def s'_def f_def)+
  moreover have "ctx_at s' NULL (c # cs)"
    by (rule ctx_at_child [OF ctx d'(1)]) (use wp d'(1) in \<open>auto simp: s'_def f_def\<close>)
  then have "tree_at s' NULL (plug Leaf (c # cs))" by (simp add: tree_at_plug del: plug.simps)
  moreover have "wl_Weight (f wp) = wl_Weight wp" by (cases c) (simp_all add: f_def)
  then have "wgt s' = wgt s" using wp by (auto simp: s'_def wgt_def)
  moreover have "dom s' = dom s" "\<forall>b. b \<notin> set (ctx_nodes (c # cs)) \<longrightarrow> s' b = s b"
    using wp by (auto simp: s'_def)
  ultimately show ?thesis by auto
qed

lemma replace_root:
  assumes t: "tree_at s NULL (Node l p r)" and d: "distinct (inorder (Node l p r))"
    and a: "s a = Some wa" "a \<notin> set_tree (Node l p r)"
  shows "\<exists>s'. do {
       s \<leftarrow> wl_set_Parent (Some a) NULL s;
       q \<leftarrow> wl_get s (Some p);
       s \<leftarrow> wl_set_Left (Some a) (wl_Left q) s;
       s \<leftarrow> wl_set_Right (Some a) (wl_Right q) s;
       s \<leftarrow> (if wl_Left q \<noteq> NULL then wl_set_Parent (wl_Left q) (Some a) s else Some s);
       (if wl_Right q \<noteq> NULL then wl_set_Parent (wl_Right q) (Some a) s else Some s) } = Some s' \<and>
     tree_at s' NULL (Node l a r) \<and> wgt s' = wgt s \<and> dom s' = dom s \<and>
     (\<forall>b. b \<notin> insert a (set_tree l \<union> set_tree r) \<longrightarrow> s' b = s b)"
proof -
  obtain wp where wp: "s p = Some wp" "wl_Left wp = rootp l" "wl_Right wp = rootp r"
    and sub: "tree_at s (Some p) l" "tree_at s (Some p) r" using t by auto
  have ap: "a \<noteq> p" "a \<notin> set_tree l" "a \<notin> set_tree r" using a(2) by auto
  have disj: "set_tree l \<inter> set_tree r = {}" and dl: "distinct (inorder l)" "distinct (inorder r)"
    using d by auto
  define s1 where "s1 = s(a \<mapsto> wa\<lparr>wl_Parent := NULL, wl_Left := rootp l, wl_Right := rootp r\<rparr>)"
  define s2 where "s2 = updp (wl_Parent_update (\<lambda>_. Some a)) (rootp l) s1"
  define s3 where "s3 = updp (wl_Parent_update (\<lambda>_. Some a)) (rootp r) s2"
  have dom1: "dom s1 = dom s" using a(1) by (auto simp: s1_def)
  have u1: "wl_set_Parent (Some a) NULL s = Some (s(a \<mapsto> wa\<lparr>wl_Parent := NULL\<rparr>))"
    "wl_get (s(a \<mapsto> wa\<lparr>wl_Parent := NULL\<rparr>)) (Some p) = Some wp"
    "wl_set_Left (Some a) (rootp l) (s(a \<mapsto> wa\<lparr>wl_Parent := NULL\<rparr>)) =
      Some (s(a \<mapsto> wa\<lparr>wl_Parent := NULL, wl_Left := rootp l\<rparr>))"
    "wl_set_Right (Some a) (rootp r) (s(a \<mapsto> wa\<lparr>wl_Parent := NULL, wl_Left := rootp l\<rparr>)) = Some s1"
    using a(1) ap wp by (simp_all add: wl_upd_def wl_get_def s1_def)
  have inl: "\<forall>b. rootp l = Some b \<longrightarrow> b \<in> dom s" "\<forall>b. rootp r = Some b \<longrightarrow> b \<in> dom s"
    using sub by (auto dest: rootp_in tree_at_dom)
  have u2: "(if rootp l \<noteq> NULL then wl_set_Parent (rootp l) (Some a) s1 else Some s1) = Some s2"
    unfolding s2_def by (rule wl_upd_opt) (use inl dom1 in simp)
  have u3: "(if rootp r \<noteq> NULL then wl_set_Parent (rootp r) (Some a) s2 else Some s2) = Some s3"
    unfolding s3_def by (rule wl_upd_opt) (use inl dom1 in \<open>simp add: s2_def\<close>)
  have "tree_at s3 (Some a) l"
    by (rule tree_at_reparent [OF sub(1) dl(1)])
      (use ap disj in \<open>auto simp: s3_def s2_def s1_def updp_def dest: rootp_in [OF sym]\<close>)
  moreover have "tree_at s3 (Some a) r"
    by (rule tree_at_reparent [OF sub(2) dl(2)])
      (use ap disj in \<open>auto simp: s3_def s2_def s1_def updp_def dest: rootp_in [OF sym]\<close>)
  moreover have "s3 a = Some (wa\<lparr>wl_Parent := NULL, wl_Left := rootp l, wl_Right := rootp r\<rparr>)"
    using ap by (auto simp: s3_def s2_def s1_def updp_def dest: rootp_in [OF sym])
  ultimately have "tree_at s3 NULL (Node l a r)" by simp
  moreover have "wgt s3 = wgt s" using a(1)
    by (auto simp: wgt_def s3_def s2_def s1_def updp_def split: option.split)
  moreover have "dom s3 = dom s" using dom1 by (simp add: s3_def s2_def)
  moreover have "\<forall>b. b \<notin> insert a (set_tree l \<union> set_tree r) \<longrightarrow> s3 b = s b"
    by (auto simp: s3_def s2_def s1_def updp_def dest: rootp_in [OF sym])
  ultimately show ?thesis
    by (intro exI [of _ s3] conjI) (simp_all only: u1 u2 u3 wp Option.bind.simps)
qed

lemma HeapPop_empty: "heap_rep s hp Leaf \<Longrightarrow> HeapPop hp s = Some (NULL, hp, s)"
  by (simp add: heap_rep_def HeapPop_def unat_eq_0)

lemma HeapPop_rep:
  assumes rep: "heap_rep s hp t" and m: "rootp t = Some m"
  shows "\<exists>hp' s'. HeapPop hp s = Some (Some m, hp', s') \<and>
     heap_rep s' hp' (heap_pop_tree (wgt s) t) \<and> wgt s' = wgt s \<and> dom s' = dom s \<and>
     (\<forall>a. a \<notin> set_tree t \<longrightarrow> s' a = s a)"
proof -
  let ?t' = "heap_pop_tree (wgt s) t"
  note rep' = rep [unfolded heap_rep_def]
  have t: "tree_at s NULL t" and shape: "cshape (size t) 1 t" and d: "distinct (inorder t)"
    and ord: "heap_ord (wgt s) t" and head: "hp_Head hp = rootp t" and room: "size t < 2 ^ 31"
    and size: "unat (hp_Size hp) = size t" using rep' by blast+
  have one: "1 \<le> size t" using m by (cases t) auto
  note facts = heap_pop_tree_facts [OF shape d ord m]
  have ne: "hp_Size hp \<noteq> 0" using size one by auto
  obtain a cs where z: "zip_to (path_bits (size t)) t [] = (Node Leaf a Leaf, cs)"
    "plug (Node Leaf a Leaf) cs = t" "idx cs = size t" "cshape (size t - 1) 1 (plug Leaf cs)"
    by (rule last_position [OF shape one])
  have find: "HeapFindElement (hp_Size hp) hp s = Some (Some a)"
    using HeapFindElement_zip [OF t shape head, of "hp_Size hp"] one room z(1) by (simp add: size)
  obtain wa where wa: "s a = Some wa" "wl_Left wa = NULL" "wl_Right wa = NULL" "wl_Parent wa = ctxp cs"
    using t unfolding z(2) [symmetric] tree_at_plug by auto
  show ?thesis
  proof (cases cs)
    case Nil
    then have eq: "t = Node Leaf a Leaf" "m = a" using z(2) m by auto
    then have "?t' = Leaf" by (simp add: heap_pop_tree_def path_bits.simps)
    moreover have "HeapPop hp s = Some (Some a, hp\<lparr>hp_Size := 0, hp_Head := NULL\<rparr>, s)"
      using find wa ne Nil by (simp add: HeapPop_def wl_get_def)
    ultimately show ?thesis by (auto simp: heap_rep_def eq(2))
  next
    case (Cons c ds)
    obtain s1 where s1: "do { tp \<leftarrow> wl_get s (ctxp (c # ds));
              (if wl_Right tp = Some a then wl_set_Right (ctxp (c # ds)) NULL s
               else wl_set_Left (ctxp (c # ds)) NULL s) } = Some s1"
       "tree_at s1 NULL (plug Leaf (c # ds))" "wgt s1 = wgt s" "dom s1 = dom s"
       "\<forall>b. b \<notin> set (ctx_nodes (c # ds)) \<longrightarrow> s1 b = s b"
      using detach_tail [of s a c ds] t d unfolding z(2) [symmetric] Cons by blast
    obtain l r where pl: "plug Leaf (c # ds) = Node l m r"
      using rootp_plug [of "c # ds" Leaf "Node Leaf a Leaf"] z(2) m Cons
      by (cases "plug Leaf (c # ds)") auto
    have dn: "distinct (inorder (Node l m r))" "a \<notin> set_tree (Node l m r)"
        "set_tree t = insert a (set_tree (Node l m r))"
      using d unfolding z(2) [symmetric] Cons pl [symmetric] set_plug distinct_plug by auto
    have nctx: "a \<notin> set (ctx_nodes (c # ds))" "set (ctx_nodes (c # ds)) \<subseteq> set_tree t"
      using dn(2,3) set_plug [of Leaf "c # ds", unfolded pl] by blast+
    have s1a: "s1 a = Some wa" using s1(5) nctx wa by simp
    obtain s2 where s2: "do {
       s \<leftarrow> wl_set_Parent (Some a) NULL s1;
       q \<leftarrow> wl_get s (Some m);
       s \<leftarrow> wl_set_Left (Some a) (wl_Left q) s;
       s \<leftarrow> wl_set_Right (Some a) (wl_Right q) s;
       s \<leftarrow> (if wl_Left q \<noteq> NULL then wl_set_Parent (wl_Left q) (Some a) s else Some s);
       (if wl_Right q \<noteq> NULL then wl_set_Parent (wl_Right q) (Some a) s else Some s) } = Some s2"
     "tree_at s2 NULL (Node l a r)" "wgt s2 = wgt s" "dom s2 = dom s"
     "\<forall>b. b \<notin> insert a (set_tree l \<union> set_tree r) \<longrightarrow> s2 b = s1 b"
      using replace_root [OF s1(2) [unfolded pl] dn(1) s1a dn(2)] s1(3,4) by auto
    define hp1 where "hp1 = hp\<lparr>hp_Size := hp_Size hp - 1, hp_Head := Some a\<rparr>"
    have dn': "distinct (inorder (plug (Node l a r) []))" using dn by auto
    obtain hp3 s3 where s3: "HeapPercolateDown (Some a) hp1 s2 = Some (hp3, s3)"
      "tree_at s3 NULL (sift (wgt s) l a r)" "hp_Head hp3 = rootp (sift (wgt s) l a r)"
      "hp_Size hp3 = hp_Size hp1" "wgt s3 = wgt s" "dom s3 = dom s"
      "\<forall>b. b \<notin> set_tree (Node l a r) \<longrightarrow> s3 b = s2 b"
      using HeapPercolateDown_tree [of s2 "[]" l a r hp1] s2(2-4) dn'
      by (simp add: hp1_def fun_eq_iff del: tree.set inorder.simps tree_at.simps) blast
    have hm: "hp_Head hp = Some m" using head m by simp
    obtain tp where e1: "wl_get s (ctxp cs) = Some tp"
        "(if wl_Right tp = Some a then wl_set_Right (ctxp cs) NULL s
          else wl_set_Left (ctxp cs) NULL s) = Some s1"
      using s1(1) unfolding Cons by (rule bind_SomeE)
    obtain x1 q x2 x3 x4 where e2: "wl_set_Parent (Some a) NULL s1 = Some x1"
        "wl_get x1 (Some m) = Some q" "wl_set_Left (Some a) (wl_Left q) x1 = Some x2"
        "wl_set_Right (Some a) (wl_Right q) x2 = Some x3"
        "(if wl_Left q \<noteq> NULL then wl_set_Parent (wl_Left q) (Some a) x3 else Some x3) = Some x4"
        "(if wl_Right q \<noteq> NULL then wl_set_Parent (wl_Right q) (Some a) x4 else Some x4) = Some s2"
      using s2(1) unfolding bind_Some_iff by blast
    have e0: "wl_get s (Some a) = Some wa" "ctxp cs \<noteq> NULL" "Some a \<noteq> NULL"
      using wa Cons by (simp_all add: wl_get_def)
    have run: "HeapPop hp s = Some (Some m, hp3, s3)"
      unfolding HeapPop_def Let_def
      by (simp only: ne find wa e0 e1 e2 hm Option.bind.simps if_False if_True bind_ASSERT simp_thms
          hp1_def [symmetric] s3(1) prod.case)
    have "?t' = sift (wgt s) l a r"
      using pl Cons by (simp add: heap_pop_tree_def z(1))
    moreover have "unat (hp_Size hp3) = size t - 1"
      using s3(4) size ne by (simp add: hp1_def unat_pred_word)
    ultimately have "heap_rep s3 hp3 ?t'"
      using s3 facts room by (simp add: heap_rep_def)
    moreover have "\<forall>b. b \<notin> set_tree t \<longrightarrow> s3 b = s b"
      using s3(7) s2(5) s1(5) dn(3) nctx(2) by auto
    ultimately show ?thesis using run s3(5,6) by blast
  qed
qed

section \<open>The contract of a priority queue\<close>

text \<open>
  What a client of the heap relies on: an insertion adds the element with its weight, and a
  removal takes an element of least weight. \<open>drain pop k q\<close> removes \<open>k\<close> elements, as
  the clients that empty a heap do.
\<close>

primrec drain :: "('q \<Rightarrow> ('a option \<times> 'q) option) \<Rightarrow> nat \<Rightarrow> 'q \<Rightarrow> ('a list \<times> 'q) option" where
  "drain pop 0 q = Some ([], q)"
| "drain pop (Suc k) q =
     (case pop q of Some (Some x, q') \<Rightarrow>
         (case drain pop k q' of Some (xs, q'') \<Rightarrow> Some (x # xs, q'') | None \<Rightarrow> None)
      | _ \<Rightarrow> None)"

locale min_queue =
  fixes add :: "'w::linorder \<Rightarrow> 'a \<Rightarrow> 'q \<Rightarrow> 'q option"
    and pop :: "'q \<Rightarrow> ('a option \<times> 'q) option"
    and holds :: "'q \<Rightarrow> 'a set \<Rightarrow> ('a \<Rightarrow> 'w) \<Rightarrow> bool"
    and node :: "'q \<Rightarrow> 'a \<Rightarrow> bool"
    and cap :: nat
  assumes holds_finite: "holds q A w \<Longrightarrow> finite A"
    and add_holds: "holds q A w \<Longrightarrow> x \<notin> A \<Longrightarrow> node q x \<Longrightarrow> card A + 1 < cap \<Longrightarrow>
        \<exists>q'. add k x q = Some q' \<and> holds q' (insert x A) (w(x := k)) \<and> node q' = node q"
    and pop_empty: "holds q {} w \<Longrightarrow> pop q = Some (None, q)"
    and pop_least: "holds q A w \<Longrightarrow> A \<noteq> {} \<Longrightarrow>
        \<exists>x q'. pop q = Some (Some x, q') \<and> x \<in> A \<and> (\<forall>y\<in>A. w x \<le> w y) \<and>
          holds q' (A - {x}) w \<and> node q' = node q"
begin

lemma drain_sorted:
  "holds q A w \<Longrightarrow>
   \<exists>xs q'. drain pop (card A) q = Some (xs, q') \<and> set xs = A \<and> distinct xs \<and>
     sorted (map w xs) \<and> holds q' {} w"
proof (induction "card A" arbitrary: q A)
  case 0
  then have "A = {}" using holds_finite by fastforce
  with "0.prems" show ?case by simp
next
  case (Suc k)
  then have ne: "A \<noteq> {}" by auto
  obtain x q' where p: "pop q = Some (Some x, q')" "x \<in> A" "\<forall>y\<in>A. w x \<le> w y" "holds q' (A - {x}) w"
    using pop_least [OF Suc.prems ne] by blast
  have c: "k = card (A - {x})" using Suc.hyps(2) p(2) holds_finite [OF Suc.prems] by simp
  then obtain xs q'' where xs: "drain pop k q' = Some (xs, q'')" "set xs = A - {x}" "distinct xs"
      "sorted (map w xs)" "holds q'' {} w"
    using Suc.hyps(1) [OF c p(4)] by auto
  have "drain pop (card A) q = Some (x # xs, q'')"
    by (simp add: Suc.hyps(2) [symmetric] p(1) xs(1))
  moreover have "set (x # xs) = A" "distinct (x # xs)" "sorted (map w (x # xs))"
    using xs p(2,3) by auto
  ultimately show ?case using xs(5) by blast
qed

lemma add_all:
  "holds q A w \<Longrightarrow> distinct (map snd ps) \<Longrightarrow> set (map snd ps) \<inter> A = {} \<Longrightarrow>
   \<forall>x\<in>set (map snd ps). node q x \<Longrightarrow> card A + length ps < cap \<Longrightarrow>
   \<exists>q'. foldl (\<lambda>m (k, x). Option.bind m (add k x)) (Some q) ps = Some q' \<and>
     holds q' (A \<union> set (map snd ps)) (foldl (\<lambda>w (k, x). w(x := k)) w ps)"
proof (induction ps arbitrary: q A w)
  case (Cons p ps)
  obtain k x where p: "p = (k, x)" by fastforce
  obtain q' where q': "add k x q = Some q'" "holds q' (insert x A) (w(x := k))" "node q' = node q"
    using add_holds [OF Cons.prems(1), of x k] Cons.prems p by auto
  have "card (insert x A) + length ps < cap"
    using Cons.prems(3,5) holds_finite [OF Cons.prems(1)] p by simp
  then show ?case
    using Cons.IH [OF q'(2)] Cons.prems(2-4) q'(1,3) p by auto
qed simp

lemma sort_with_queue:
  assumes "holds q {} w" and "distinct (map snd ps)" and "\<forall>x\<in>set (map snd ps). node q x"
    and "length ps < cap"
  shows "\<exists>xs q'. Option.bind (foldl (\<lambda>m (k, x). Option.bind m (add k x)) (Some q) ps)
       (drain pop (length ps)) = Some (xs, q') \<and> distinct xs \<and> set xs = set (map snd ps) \<and>
     sorted (map (foldl (\<lambda>w (k, x). w(x := k)) w ps) xs)"
proof -
  obtain q' where q': "foldl (\<lambda>m (k, x). Option.bind m (add k x)) (Some q) ps = Some q'"
    "holds q' (set (map snd ps)) (foldl (\<lambda>w (k, x). w(x := k)) w ps)"
    using add_all [OF assms(1,2)] assms(3,4) by auto
  have "card (set (map snd ps)) = length ps" using distinct_card [OF assms(2)] by simp
  with drain_sorted [OF q'(2)] q'(1) show ?thesis by auto
qed

end

subsection \<open>The heap provides it\<close>

type_synonym heap_state = "HEAP \<times> wstore"

definition heap_add :: "WEIGHT \<Rightarrow> addr \<Rightarrow> heap_state \<Rightarrow> heap_state option" where
  "heap_add k n q = HeapAdd k (Some n) (fst q) (snd q)"

definition heap_pop :: "heap_state \<Rightarrow> (addr option \<times> heap_state) option" where
  "heap_pop q = HeapPop (fst q) (snd q)"

definition heap_holds :: "heap_state \<Rightarrow> addr set \<Rightarrow> (addr \<Rightarrow> WEIGHT) \<Rightarrow> bool" where
  "heap_holds q A w \<longleftrightarrow> (\<exists>t. heap_rep (snd q) (fst q) t \<and> set_tree t = A \<and> (\<forall>a\<in>A. wgt (snd q) a = w a))"

definition heap_node :: "heap_state \<Rightarrow> addr \<Rightarrow> bool" where
  "heap_node q a \<longleftrightarrow> a \<in> dom (snd q)"

lemma heap_rep_card: "heap_rep s hp t \<Longrightarrow> card (set_tree t) = size t"
  by (metis distinct_card heap_rep_def length_inorder set_inorder)

lemma heap_rep_least: "heap_rep s hp t \<Longrightarrow> rootp t = Some m \<Longrightarrow> a \<in> set_tree t \<Longrightarrow> wgt s m \<le> wgt s a"
  by (cases t) (auto simp: heap_rep_def)

interpretation heap_queue: min_queue heap_add heap_pop heap_holds heap_node "2 ^ 31"
proof
  fix q A w
  assume "heap_holds q A w"
  then show "finite A" by (auto simp: heap_holds_def)
next
  fix q A w x k
  assume h: "heap_holds q A w" and x: "x \<notin> A" "heap_node q x" and c: "card A + 1 < 2 ^ 31"
  then obtain t where t: "heap_rep (snd q) (fst q) t" "set_tree t = A" "\<forall>a\<in>A. wgt (snd q) a = w a"
    by (auto simp: heap_holds_def)
  let ?w = "(wgt (snd q))(x := k)"
  have room: "size t + 1 < 2 ^ 31" using c heap_rep_card [OF t(1)] t(2) by simp
  obtain hp' s' where r: "HeapAdd k (Some x) (fst q) (snd q) = Some (hp', s')"
    "heap_rep s' hp' (heap_add_tree ?w x t)" "wgt s' = ?w" "dom s' = dom (snd q)"
    using HeapAdd_rep [OF t(1) _ _ room, of x k] x t(2) by (auto simp: heap_node_def)
  have "heap_ord ?w t"
    using t x(1) heap_ord_cong [of t ?w "wgt (snd q)"] by (auto simp: heap_rep_def)
  then have "set_tree (heap_add_tree ?w x t) = insert x A"
    using heap_add_tree_facts(1) [of t ?w x] t x(1) by (auto simp: heap_rep_def)
  with r t(3) show "\<exists>q'. heap_add k x q = Some q' \<and> heap_holds q' (insert x A) (w(x := k)) \<and>
      heap_node q' = heap_node q"
    by (auto simp: heap_add_def heap_holds_def heap_node_def fun_eq_iff)
next
  fix q w
  assume "heap_holds q {} w"
  then show "heap_pop q = Some (NULL, q)"
    by (auto simp: heap_holds_def heap_pop_def HeapPop_empty)
next
  fix q A w
  assume h: "heap_holds q A w" and ne: "A \<noteq> {}"
  then obtain t where t: "heap_rep (snd q) (fst q) t" "set_tree t = A" "\<forall>a\<in>A. wgt (snd q) a = w a"
    by (auto simp: heap_holds_def)
  obtain m where m: "rootp t = Some m" using ne t(2) by (cases t) auto
  have mA: "m \<in> A" using m t(2) rootp_in by auto
  have least: "\<forall>y\<in>A. w m \<le> w y" using heap_rep_least [OF t(1) m] t(2,3) mA by auto
  obtain hp' s' where r: "HeapPop (fst q) (snd q) = Some (Some m, hp', s')"
    "heap_rep s' hp' (heap_pop_tree (wgt (snd q)) t)" "wgt s' = wgt (snd q)" "dom s' = dom (snd q)"
    using HeapPop_rep [OF t(1) m] by blast
  have "set_tree (heap_pop_tree (wgt (snd q)) t) = A - {m}"
    using heap_pop_tree_facts(1) [of t "wgt (snd q)" m] t m by (auto simp: heap_rep_def)
  with r t(3) have "heap_holds (hp', s') (A - {m}) w" "heap_node (hp', s') = heap_node q"
    by (auto simp: heap_holds_def heap_node_def)
  with r(1) mA least show "\<exists>x q'. heap_pop q = Some (Some x, q') \<and> x \<in> A \<and> (\<forall>y\<in>A. w x \<le> w y) \<and>
      heap_holds q' (A - {x}) w \<and> heap_node q' = heap_node q"
    by (auto simp: heap_pop_def)
qed

section \<open>Properties\<close>

text \<open>\<^verbatim>\<open>HeapAdd\<close> on a well-formed heap with room never panics; it leaves a
  well-formed heap (complete, ordered, parent pointers right) that holds the old nodes and the new
  one with its weight, and no link outside the heap is written.\<close>

theorem heap_add_correct:
  assumes "heap_rep s hp t" and "n \<notin> set_tree t" and "n \<in> dom s" and "size t + 1 < 2 ^ 31"
  shows "\<exists>hp' s' t'. HeapAdd k (Some n) hp s = Some (hp', s') \<and> heap_rep s' hp' t' \<and>
     set_tree t' = insert n (set_tree t) \<and> HeapSize hp' = HeapSize hp + 1 \<and>
     wgt s' = (wgt s)(n := k) \<and> (\<forall>a. a \<notin> insert n (set_tree t) \<longrightarrow> s' a = s a)"
proof -
  let ?w = "(wgt s)(n := k)"
  have "heap_ord ?w t"
    using assms(1,2) heap_ord_cong [of t ?w "wgt s"] by (auto simp: heap_rep_def)
  then have f: "set_tree (heap_add_tree ?w n t) = insert n (set_tree t)"
    "size (heap_add_tree ?w n t) = size t + 1"
    using heap_add_tree_facts(1,2) [of t ?w n] assms(1,2) by (auto simp: heap_rep_def)
  obtain hp' s' where r: "HeapAdd k (Some n) hp s = Some (hp', s')"
    "heap_rep s' hp' (heap_add_tree ?w n t)" "wgt s' = ?w"
    "\<forall>a. a \<notin> insert n (set_tree t) \<longrightarrow> s' a = s a"
    using HeapAdd_rep [OF assms, of k] by blast
  have "unat (hp_Size hp') = unat (hp_Size hp) + 1" using r(2) assms(1) f(2) by (simp add: heap_rep_def)
  moreover have "unat (hp_Size hp + 1) = unat (hp_Size hp) + 1"
    using assms(1,4) by (intro unat_Suc_word) (simp add: heap_rep_def)
  ultimately have "HeapSize hp' = HeapSize hp + 1" by (simp add: HeapSize_def word_unat_eq_iff)
  with r f(1) show ?thesis by blast
qed

definition wl0 :: WEIGHTED_LINK where
  "wl0 = \<lparr>wl_Left = NULL, wl_Right = NULL, wl_Parent = NULL, wl_Weight = 0\<rparr>"

definition hp0 :: HEAP where
  "hp0 = \<lparr>hp_Head = NULL, hp_Size = 0\<rparr>"

lemma heap_rep_init: "heap_rep s (HeapInit hp) Leaf"
  by (simp add: heap_rep_def HeapInit_def)

theorem heap_add_correct_witness:
  "\<exists>hp' s' t'. HeapAdd 7 (Some 1) (HeapInit hp0) [1 \<mapsto> wl0] = Some (hp', s') \<and> heap_rep s' hp' t' \<and>
     set_tree t' = {1} \<and> HeapSize hp' = HeapSize (HeapInit hp0) + 1 \<and>
     wgt s' = (wgt [1 \<mapsto> wl0])(1 := 7) \<and> (\<forall>a. a \<notin> {1} \<longrightarrow> s' a = [1 \<mapsto> wl0] a)"
  using heap_add_correct [OF heap_rep_init [of "[1 \<mapsto> wl0]" hp0], of 1 7] by simp

text \<open>\<^verbatim>\<open>HeapPop\<close> on a non-empty well-formed heap never panics: it returns the head, whose
  weight \<^verbatim>\<open>HeapHeadWeight\<close> reports and which is least among the weights of the heap, and
  leaves a well-formed heap of the remaining nodes with their weights unchanged.\<close>

theorem heap_pop_correct:
  assumes "heap_rep s hp t" and "t \<noteq> Leaf"
  shows "\<exists>m hp' s' t'. HeapPop hp s = Some (Some m, hp', s') \<and> m \<in> set_tree t \<and>
     HeapHeadWeight hp s = Some (wgt s m) \<and> (\<forall>a\<in>set_tree t. wgt s m \<le> wgt s a) \<and>
     heap_rep s' hp' t' \<and> set_tree t' = set_tree t - {m} \<and> size t' = size t - 1 \<and> wgt s' = wgt s \<and>
     (\<forall>a. a \<notin> set_tree t \<longrightarrow> s' a = s a)"
proof -
  obtain m where m: "rootp t = Some m" using assms(2) by (cases t) auto
  have "HeapHeadWeight hp s = Some (wgt s m)"
    using assms(1) m by (cases t) (auto simp: heap_rep_def HeapHeadWeight_def wl_get_def wgt_def)
  then show ?thesis
    using HeapPop_rep [OF assms(1) m] heap_pop_tree_facts(1,2) [of t "wgt s" m]
      heap_rep_least [OF assms(1) m] rootp_in [OF m] assms(1) m
    unfolding heap_rep_def by metis
qed

definition two_heap :: wstore where
  "two_heap = [1 \<mapsto> wl0\<lparr>wl_Left := Some 2, wl_Weight := 3\<rparr>,
     2 \<mapsto> wl0\<lparr>wl_Parent := Some 1, wl_Weight := 5\<rparr>]"

lemma two_heap_rep: "heap_rep two_heap \<lparr>hp_Head = Some 1, hp_Size = 2\<rparr> (Node (Node Leaf 2 Leaf) 1 Leaf)"
  by (simp add: heap_rep_def two_heap_def wl0_def wgt_def)

theorem heap_pop_correct_witness:
  "\<exists>m hp' s' t'. HeapPop \<lparr>hp_Head = Some 1, hp_Size = 2\<rparr> two_heap = Some (Some m, hp', s') \<and>
     m \<in> {1, 2} \<and> HeapHeadWeight \<lparr>hp_Head = Some 1, hp_Size = 2\<rparr> two_heap = Some (wgt two_heap m) \<and>
     (\<forall>a\<in>{1, 2}. wgt two_heap m \<le> wgt two_heap a) \<and> heap_rep s' hp' t' \<and>
     set_tree t' = {1, 2} - {m} \<and> size t' = 1 \<and> wgt s' = wgt two_heap \<and>
     (\<forall>a. a \<notin> {1, 2} \<longrightarrow> s' a = two_heap a)"
  using heap_pop_correct [OF two_heap_rep] by (simp add: insert_commute)

text \<open>(C27) Any sequence of nodes added to an initialised heap with arbitrary weights and then popped
  as often comes out completely, without repetition and in ascending order of the weights given.\<close>

theorem heap_sorts:
  assumes "distinct (map snd ps)" and "\<forall>n\<in>set (map snd ps). n \<in> dom s" and "length ps < 2 ^ 31"
  shows "\<exists>xs q. Option.bind (foldl (\<lambda>m (k, n). Option.bind m (\<lambda>(hp, s). HeapAdd k (Some n) hp s))
         (Some (HeapInit hp, s)) ps)
       (drain (\<lambda>(hp, s). HeapPop hp s) (length ps)) = Some (xs, q) \<and>
     distinct xs \<and> set xs = set (map snd ps) \<and>
     sorted (map (foldl (\<lambda>w (k, n). w(n := k)) (wgt s) ps) xs)"
proof -
  have eq: "heap_add = (\<lambda>k n (hp, s). HeapAdd k (Some n) hp s)" "heap_pop = (\<lambda>(hp, s). HeapPop hp s)"
    by (auto simp: heap_add_def heap_pop_def fun_eq_iff)
  have holds: "heap_holds (HeapInit hp, s) {} (wgt s)"
    using heap_rep_init by (auto simp: heap_holds_def)
  have nodes: "\<forall>n\<in>set (map snd ps). heap_node (HeapInit hp, s) n"
    using assms(2) by (simp add: heap_node_def)
  show ?thesis
    using heap_queue.sort_with_queue [OF holds assms(1) nodes assms(3)] unfolding eq .
qed

theorem heap_sorts_witness:
  "\<exists>xs q. Option.bind (foldl (\<lambda>m (k, n). Option.bind m (\<lambda>(hp, s). HeapAdd k (Some n) hp s))
         (Some (HeapInit hp0, [1 \<mapsto> wl0, 2 \<mapsto> wl0])) [(9, 1), (4, 2)])
       (drain (\<lambda>(hp, s). HeapPop hp s) 2) = Some (xs, q) \<and>
     distinct xs \<and> set xs = {1, 2} \<and>
     sorted (map (foldl (\<lambda>w (k, n). w(n := k)) (wgt [1 \<mapsto> wl0, 2 \<mapsto> wl0]) [(9, 1), (4, 2)]) xs)"
proof -
  have "\<forall>n\<in>set (map snd [(9 :: WEIGHT, 1 :: nat), (4, 2)]). n \<in> dom [1 \<mapsto> wl0, 2 \<mapsto> wl0]" by simp
  moreover have "length [(9 :: WEIGHT, 1 :: nat), (4, 2)] < 2 ^ 31" by simp
  ultimately show ?thesis
    using heap_sorts [of "[(9, 1), (4, 2)]" "[1 \<mapsto> wl0, 2 \<mapsto> wl0]" hp0] by (simp add: numeral_2_eq_2)
qed

end
