(* ===== verification/RingBuffer.thy ===== *)
theory RingBuffer
  imports KP_Prelude
begin

text \<open>
  The byte ring of \<^verbatim>\<open>src/utils/ringbuffer.c\<close>, which carries the bytes of pipes and of the
  serial port. The buffer is a list of bytes of the ring's size; an access outside it is
  \<open>None\<close>. A read returns the bytes the C code stores from \<^verbatim>\<open>buff\<close> on; a write takes
  the bytes that start at \<^verbatim>\<open>buff\<close>. The ring refines a bounded queue of bytes.
\<close>

section \<open>Data\<close>

type_synonym BYTE = "8 word"

record RING_BUFFER =
  rb_Buffer :: "BYTE list"
  rb_Size :: COUNT
  rb_ReadIndex :: INDEX
  rb_WriteIndex :: INDEX
  rb_Empty :: bool

definition nth_opt :: "'a list \<Rightarrow> INDEX \<Rightarrow> 'a option" where
  "nth_opt xs i = (if unat i < length xs then Some (xs ! unat i) else None)"

section \<open>Operations\<close>

definition RingBufferIsEmpty :: "RING_BUFFER \<Rightarrow> bool" where
  "RingBufferIsEmpty ring = rb_Empty ring"

definition RingBufferIsFull :: "RING_BUFFER \<Rightarrow> bool" where
  "RingBufferIsFull ring = (\<not> rb_Empty ring \<and> rb_WriteIndex ring = rb_ReadIndex ring)"

definition RingBufferInit :: "BYTE list \<Rightarrow> COUNT \<Rightarrow> RING_BUFFER" where
  "RingBufferInit buff sz =
     \<lparr>rb_Buffer = buff, rb_Size = sz, rb_ReadIndex = 0, rb_WriteIndex = 0, rb_Empty = True\<rparr>"

text \<open>The two copy loops run \<^verbatim>\<open>cur\<close> up to \<^verbatim>\<open>end\<close>.\<close>

lemma index_gap: "cur \<noteq> e \<Longrightarrow> unat (e - (cur + 1)) < unat (e - cur)" for cur e :: INDEX
proof -
  assume "cur \<noteq> e"
  then have "unat (e - cur - 1) < unat (e - cur)"
    by (simp add: unat_pred_word unat_gt_0)
  then show ?thesis by (simp add: algebra_simps)
qed

function RingCopyOut :: "INDEX \<Rightarrow> INDEX \<Rightarrow> BYTE list \<Rightarrow> BYTE list option" where
  "RingCopyOut cur end buf =
     (if cur \<noteq> end then
        do { b \<leftarrow> nth_opt buf cur; bs \<leftarrow> RingCopyOut (cur + 1) end buf; Some (b # bs) }
      else Some [])"
  by pat_completeness auto
termination
  by (relation "measure (\<lambda>(cur, e, buf). unat (e - cur))") (auto simp: index_gap)

function RingCopyIn ::
    "INDEX \<Rightarrow> INDEX \<Rightarrow> INDEX \<Rightarrow> BYTE list \<Rightarrow> BYTE list \<Rightarrow> (INDEX \<times> BYTE list) option" where
  "RingCopyIn index cur end buff buf =
     (if cur \<noteq> end then
        do {
          b \<leftarrow> nth_opt buff index;
          (if unat cur < length buf
           then RingCopyIn (index + 1) (cur + 1) end buff (buf[unat cur := b]) else None) }
      else Some (index, buf))"
  by pat_completeness auto
termination
  by (relation "measure (\<lambda>(i, cur, e, buff, buf). unat (e - cur))") (auto simp: index_gap)

declare RingCopyOut.simps [simp del] RingCopyIn.simps [simp del]

definition RingBufferReadSmall :: "COUNT \<Rightarrow> RING_BUFFER \<Rightarrow> (BYTE list \<times> RING_BUFFER) option" where
  "RingBufferReadSmall sz ring =
     (let cur = rb_ReadIndex ring;
          end0 = rb_ReadIndex ring + sz;
          (end, ring') =
            (if rb_ReadIndex ring < rb_WriteIndex ring then
               let end = (if end0 > rb_WriteIndex ring then rb_WriteIndex ring else end0)
               in (end, ring\<lparr>rb_ReadIndex := end\<rparr>)
             else if end0 \<ge> rb_Size ring then (rb_Size ring, ring\<lparr>rb_ReadIndex := 0\<rparr>)
             else (end0, ring\<lparr>rb_ReadIndex := end0\<rparr>))
      in map_option (\<lambda>bs. (bs, ring')) (RingCopyOut cur end (rb_Buffer ring)))"

definition RingBufferWriteSmall :: "BYTE list \<Rightarrow> COUNT \<Rightarrow> RING_BUFFER \<Rightarrow> (COUNT \<times> RING_BUFFER) option" where
  "RingBufferWriteSmall buff sz ring =
     (let cur = rb_WriteIndex ring;
          end0 = rb_WriteIndex ring + sz;
          (end, ring') =
            (if rb_WriteIndex ring < rb_ReadIndex ring then
               let end = (if end0 > rb_ReadIndex ring then rb_ReadIndex ring else end0)
               in (end, ring\<lparr>rb_WriteIndex := end\<rparr>)
             else if end0 \<ge> rb_Size ring then (rb_Size ring, ring\<lparr>rb_WriteIndex := 0\<rparr>)
             else (end0, ring\<lparr>rb_WriteIndex := end0\<rparr>))
      in map_option (\<lambda>(index, buf). (index, ring'\<lparr>rb_Buffer := buf\<rparr>))
           (RingCopyIn 0 cur end buff (rb_Buffer ring)))"

definition RingBufferPeak :: "RING_BUFFER \<Rightarrow> BYTE option option" where
  "RingBufferPeak ring =
     (if RingBufferIsEmpty ring then Some None
      else map_option Some (nth_opt (rb_Buffer ring) (rb_ReadIndex ring)))"

partial_function (option) RingBufferReadLoop ::
    "COUNT \<Rightarrow> COUNT \<Rightarrow> RING_BUFFER \<Rightarrow> (BYTE list \<times> RING_BUFFER) option" where
  "RingBufferReadLoop read sz ring =
     (if read < sz \<and> \<not> RingBufferIsEmpty ring then
        Option.bind (RingBufferReadSmall (sz - read) ring) (\<lambda>(bs, ring).
        Option.bind (RingBufferReadLoop (read + of_nat (length bs)) sz
            (if rb_ReadIndex ring = rb_WriteIndex ring then ring\<lparr>rb_Empty := True\<rparr> else ring))
          (\<lambda>(bs', ring). Some (bs @ bs', ring)))
      else Some ([], ring))"

definition RingBufferRead :: "COUNT \<Rightarrow> RING_BUFFER \<Rightarrow> (BYTE list \<times> RING_BUFFER) option" where
  "RingBufferRead sz ring = RingBufferReadLoop 0 sz ring"

partial_function (option) RingBufferWriteLoop ::
    "COUNT \<Rightarrow> BYTE list \<Rightarrow> COUNT \<Rightarrow> RING_BUFFER \<Rightarrow> (COUNT \<times> RING_BUFFER) option" where
  "RingBufferWriteLoop write buff sz ring =
     (if write < sz \<and> \<not> RingBufferIsFull ring then
        Option.bind (RingBufferWriteSmall (drop (unat write) buff) (sz - write) ring) (\<lambda>(n, ring).
          RingBufferWriteLoop (write + n) buff sz (ring\<lparr>rb_Empty := False\<rparr>))
      else Some (write, ring))"

definition RingBufferWrite :: "BYTE list \<Rightarrow> COUNT \<Rightarrow> RING_BUFFER \<Rightarrow> (COUNT \<times> RING_BUFFER) option" where
  "RingBufferWrite buff sz ring = RingBufferWriteLoop 0 buff sz ring"

section \<open>The bytes a ring holds\<close>

definition ring_ok :: "RING_BUFFER \<Rightarrow> bool" where
  "ring_ok ring \<longleftrightarrow>
     rb_ReadIndex ring < rb_Size ring \<and> rb_WriteIndex ring < rb_Size ring \<and>
     length (rb_Buffer ring) = unat (rb_Size ring) \<and>
     (rb_Empty ring \<longrightarrow> rb_ReadIndex ring = rb_WriteIndex ring)"

definition contents :: "RING_BUFFER \<Rightarrow> BYTE list" where
  "contents ring =
     (let r = unat (rb_ReadIndex ring); w = unat (rb_WriteIndex ring); b = rb_Buffer ring
      in if rb_Empty ring then []
         else if r < w then take (w - r) (drop r b) else drop r b @ take w b)"

lemma RingCopyOut_take:
  "unat cur \<le> unat e \<Longrightarrow> unat e \<le> length buf \<Longrightarrow>
   RingCopyOut cur e buf = Some (take (unat e - unat cur) (drop (unat cur) buf))"
proof (induction cur e buf rule: RingCopyOut.induct)
  case (1 cur e buf)
  show ?case
  proof (cases "cur = e")
    case True
    then show ?thesis by (simp add: RingCopyOut.simps)
  next
    case False
    then have lt: "unat cur < unat e" using 1(2) by (simp add: word_unat_eq_iff)
    have s: "unat (cur + 1) = unat cur + 1"
      by (rule unat_Suc_word) (use lt unat_less_64 [of e] in simp)
    have inb: "unat cur < length buf" using lt 1(3) by simp
    have "take (unat e - unat cur) (drop (unat cur) buf) =
        buf ! unat cur # take (unat e - (unat cur + 1)) (drop (unat cur + 1) buf)"
      using lt inb by (simp add: Cons_nth_drop_Suc [symmetric] take_Cons' )
    with 1(1) [OF False] False lt 1(3) s inb show ?thesis
      by (subst RingCopyOut.simps) (simp add: nth_opt_def)
  qed
qed

lemma RingCopyIn_splice:
  "unat cur \<le> unat e \<Longrightarrow> unat e \<le> length buf \<Longrightarrow> unat i + (unat e - unat cur) \<le> length buff \<Longrightarrow>
   length buff < 2 ^ 64 \<Longrightarrow>
   RingCopyIn i cur e buff buf = Some (i + (e - cur),
     take (unat cur) buf @ take (unat e - unat cur) (drop (unat i) buff) @ drop (unat e) buf)"
proof (induction i cur e buff buf rule: RingCopyIn.induct)
  case (1 i cur e buff buf)
  show ?case
  proof (cases "cur = e")
    case True
    then show ?thesis by (simp add: RingCopyIn.simps)
  next
    case False
    then have lt: "unat cur < unat e" using 1(2) by (simp add: word_unat_eq_iff)
    have s: "unat (cur + 1) = unat cur + 1"
      by (rule unat_Suc_word) (use lt unat_less_64 [of e] in simp)
    have si: "unat (i + 1) = unat i + 1"
      by (rule unat_Suc_word) (use lt 1(4,5) in simp)
    have ini: "unat i < length buff" using lt 1(4) by simp
    have inb: "unat cur < length buf" using lt 1(3) by simp
    define b where "b = buff ! unat i"
    have nb: "nth_opt buff i = Some b" using ini by (simp add: nth_opt_def b_def)
    have "RingCopyIn (i + 1) (cur + 1) e buff (buf[unat cur := b]) = Some (i + 1 + (e - (cur + 1)),
        take (unat cur + 1) (buf[unat cur := b]) @
        take (unat e - (unat cur + 1)) (drop (unat i + 1) buff) @ drop (unat e) (buf[unat cur := b]))"
      using 1(1) [OF False nb inb] lt 1(3-5) s si by (simp add: Suc_diff_Suc Suc_le_eq)
    moreover have "take (unat cur + 1) (buf[unat cur := b]) = take (unat cur) buf @ [b]"
      using inb by (simp add: take_Suc_conv_app_nth)
    moreover have "take (unat e - unat cur) (drop (unat i) buff) =
        b # take (unat e - (unat cur + 1)) (drop (unat i + 1) buff)"
      using lt ini by (simp add: Cons_nth_drop_Suc [symmetric] take_Cons' b_def)
    ultimately show ?thesis
      using False lt inb nb by (subst RingCopyIn.simps) simp
  qed
qed

section \<open>One pass of the loops\<close>

lemma ring_end:
  assumes "unat (i :: INDEX) + unat (n :: COUNT) < 2 ^ 64"
  shows "unat (i + n) = unat i + unat n"
  using assms by (intro unat_add_word) simp

lemma RingBufferReadSmall_step:
  assumes ok: "ring_ok ring" and ne: "\<not> rb_Empty ring" and sz: "0 < sz"
    and room: "unat (rb_Size ring) + unat sz < 2 ^ 64"
  shows "\<exists>k ring'. RingBufferReadSmall sz ring = Some (take k (contents ring), ring') \<and>
     0 < k \<and> k \<le> unat sz \<and> k \<le> length (contents ring) \<and> rb_Size ring' = rb_Size ring \<and>
     (let ring'' = (if rb_ReadIndex ring' = rb_WriteIndex ring' then ring'\<lparr>rb_Empty := True\<rparr> else ring')
      in ring_ok ring'' \<and> contents ring'' = drop k (contents ring))"
proof -
  let ?r = "unat (rb_ReadIndex ring)" and ?w = "unat (rb_WriteIndex ring)" and ?b = "rb_Buffer ring"
  have bnd: "?r < length ?b" "?w < length ?b" and len: "length ?b = unat (rb_Size ring)"
    using ok by (simp_all add: ring_ok_def word_less_nat_alt)
  have e0: "unat (rb_ReadIndex ring + sz) = ?r + unat sz"
    by (rule ring_end) (use room bnd len in linarith)
  have sz': "0 < unat sz" using sz by (simp add: unat_gt_0)
  consider (A) "?r < ?w" | (B) "\<not> ?r < ?w" "?r + unat sz \<ge> length ?b" | (C) "\<not> ?r < ?w" "?r + unat sz < length ?b"
    by linarith
  then show ?thesis
  proof cases
    case A
    define e where "e = (if rb_ReadIndex ring + sz > rb_WriteIndex ring then rb_WriteIndex ring
        else rb_ReadIndex ring + sz)"
    have e: "unat e = min (?r + unat sz) ?w" by (simp add: e_def word_less_nat_alt e0)
    have c: "contents ring = take (?w - ?r) (drop ?r ?b)" using A ne by (simp add: contents_def Let_def)
    have le: "?r < unat e" "unat e \<le> ?w" using e A sz' by auto
    have cp: "RingCopyOut (rb_ReadIndex ring) e ?b = Some (take (unat e - ?r) (drop ?r ?b))"
      by (rule RingCopyOut_take) (use le bnd in simp_all)
    have "take (unat e - ?r) (contents ring) = take (unat e - ?r) (drop ?r ?b)"
      using le by (simp add: c min_def)
    moreover have "rb_ReadIndex ring < rb_WriteIndex ring" using A by (simp add: word_less_nat_alt)
    ultimately have "RingBufferReadSmall sz ring =
        Some (take (unat e - ?r) (contents ring), ring\<lparr>rb_ReadIndex := e\<rparr>)"
      by (simp add: RingBufferReadSmall_def Let_def e_def [symmetric] cp)
    moreover have "e = rb_WriteIndex ring \<longleftrightarrow> unat e = ?w" by (simp add: word_unat_eq_iff)
    ultimately show ?thesis
      using A bnd e le sz' len ne c
      by (intro exI [of _ "unat e - ?r"] exI [of _ "ring\<lparr>rb_ReadIndex := e\<rparr>"])
        (auto simp: ring_ok_def contents_def Let_def word_less_nat_alt drop_take min_def)
  next
    case B
    have c: "contents ring = drop ?r ?b @ take ?w ?b" using B ne by (simp add: contents_def Let_def)
    have "RingBufferReadSmall sz ring =
        Some (take (length ?b - ?r) (contents ring), ring\<lparr>rb_ReadIndex := 0\<rparr>)"
      using B bnd len RingCopyOut_take [of "rb_ReadIndex ring" "rb_Size ring" ?b]
      by (simp add: RingBufferReadSmall_def word_less_nat_alt word_le_nat_alt e0 c)
    moreover have "0 = rb_WriteIndex ring \<longleftrightarrow> ?w = 0" by (auto simp: unat_eq_0)
    ultimately show ?thesis
      using B bnd sz' len ne c
      by (intro exI [of _ "length ?b - ?r"] exI [of _ "ring\<lparr>rb_ReadIndex := 0\<rparr>"])
        (auto simp: ring_ok_def contents_def Let_def word_less_nat_alt)
  next
    case C
    have c: "contents ring = drop ?r ?b @ take ?w ?b" using C ne by (simp add: contents_def Let_def)
    have "RingBufferReadSmall sz ring =
        Some (take (unat sz) (contents ring), ring\<lparr>rb_ReadIndex := rb_ReadIndex ring + sz\<rparr>)"
      using C bnd len RingCopyOut_take [of "rb_ReadIndex ring" "rb_ReadIndex ring + sz" ?b]
      by (simp add: RingBufferReadSmall_def word_less_nat_alt word_le_nat_alt e0 c)
    moreover have "rb_ReadIndex ring + sz \<noteq> rb_WriteIndex ring" using C e0 sz' by auto
    ultimately show ?thesis
      using C bnd sz' len ne c e0
      by (intro exI [of _ "unat sz"] exI [of _ "ring\<lparr>rb_ReadIndex := rb_ReadIndex ring + sz\<rparr>"])
        (auto simp: ring_ok_def contents_def Let_def word_less_nat_alt add.commute [of "unat sz"])
  qed
qed

lemma RingBufferWriteSmall_step:
  assumes ok: "ring_ok ring" and nf: "\<not> RingBufferIsFull ring" and sz: "0 < sz"
    and room: "unat (rb_Size ring) + unat sz < 2 ^ 64"
    and buff: "unat sz \<le> length buff" "length buff < 2 ^ 64"
  shows "\<exists>n ring'. RingBufferWriteSmall buff sz ring = Some (n, ring') \<and>
     0 < unat n \<and> unat n \<le> unat sz \<and> rb_Size ring' = rb_Size ring \<and>
     unat n + length (contents ring) \<le> unat (rb_Size ring) \<and>
     ring_ok (ring'\<lparr>rb_Empty := False\<rparr>) \<and>
     contents (ring'\<lparr>rb_Empty := False\<rparr>) = contents ring @ take (unat n) buff"
proof -
  let ?r = "unat (rb_ReadIndex ring)" and ?w = "unat (rb_WriteIndex ring)" and ?b = "rb_Buffer ring"
  have bnd: "?r < length ?b" "?w < length ?b" and len: "length ?b = unat (rb_Size ring)"
    using ok by (simp_all add: ring_ok_def word_less_nat_alt)
  have e0: "unat (rb_WriteIndex ring + sz) = ?w + unat sz"
    by (rule ring_end) (use room bnd len in linarith)
  have sz': "0 < unat sz" using sz by (simp add: unat_gt_0)
  have eq: "?r = ?w \<longleftrightarrow> rb_Empty ring"
    using ok nf by (auto simp: ring_ok_def RingBufferIsFull_def word_unat_eq_iff)
  define e where "e = (if rb_WriteIndex ring < rb_ReadIndex ring then
      (if rb_WriteIndex ring + sz > rb_ReadIndex ring then rb_ReadIndex ring else rb_WriteIndex ring + sz)
      else if rb_WriteIndex ring + sz \<ge> rb_Size ring then rb_Size ring else rb_WriteIndex ring + sz)"
  have e: "unat e = (if ?w < ?r then min (?w + unat sz) ?r else min (?w + unat sz) (length ?b))"
    by (simp add: e_def word_less_nat_alt word_le_nat_alt e0 len)
  have le: "?w < unat e" "unat e \<le> length ?b" "unat e - ?w \<le> unat sz"
    using e bnd sz' by (auto simp: min_def split: if_splits)
  define n where "n = e - rb_WriteIndex ring"
  have n: "unat n = unat e - ?w"
    unfolding n_def by (rule unat_sub_word) (use le in \<open>simp add: word_le_nat_alt\<close>)
  define w' where "w' = (if ?w < ?r \<or> ?w + unat sz < length ?b then e else 0)"
  define b' where "b' = take ?w ?b @ take (unat n) buff @ drop (unat e) ?b"
  have cp: "RingCopyIn 0 (rb_WriteIndex ring) e buff ?b = Some (n, b')"
    using RingCopyIn_splice [of "rb_WriteIndex ring" e ?b 0 buff] le buff n
    by (simp add: n_def b'_def)
  have run: "RingBufferWriteSmall buff sz ring =
      Some (n, ring\<lparr>rb_WriteIndex := w', rb_Buffer := b'\<rparr>)"
    using cp unfolding RingBufferWriteSmall_def Let_def e_def w'_def
    by (auto simp: word_less_nat_alt word_le_nat_alt e0 len split: if_splits)
  have b'len: "length b' = length ?b" using le n buff by (simp add: b'_def)
  have c: "contents ring = (if ?w < ?r then drop ?r ?b @ take ?w ?b else take (?w - ?r) (drop ?r ?b))"
    using eq by (auto simp: contents_def Let_def)
  have w'un: "unat w' = (if ?w < ?r \<or> ?w + unat sz < length ?b then unat e else 0)" by (simp add: w'_def)
  have "contents (ring\<lparr>rb_WriteIndex := w', rb_Buffer := b', rb_Empty := False\<rparr>)
      = contents ring @ take (unat n) buff"
  proof (cases "?w < ?r")
    case True
    then have er: "unat e \<le> ?r" using e by simp
    then have "drop ?r b' = drop ?r ?b" "take (unat e) b' = take ?w ?b @ take (unat n) buff"
      using le n buff bnd by (simp_all add: b'_def)
    with True er show ?thesis unfolding c by (simp add: contents_def Let_def w'un)
  next
    case False
    have "unat n \<le> length buff" using n le buff by linarith
    then have drb: "drop ?r b' = take (?w - ?r) (drop ?r ?b) @ take (unat n) buff @ drop (unat e) ?b"
      using False bnd by (simp add: b'_def drop_take)
    show ?thesis
    proof (cases "?w + unat sz < length ?b")
      case True
      then have "?r < unat e" using False le by simp
      moreover have "unat e - ?r = (?w - ?r) + unat n" using False le n by simp
      ultimately show ?thesis
        using False True le bnd n \<open>unat n \<le> length buff\<close> unfolding c
        by (simp add: contents_def Let_def w'un drb)
    next
      case wrap: False
      then have "drop (unat e) ?b = []" using False e by simp
      then show ?thesis
        using False wrap unfolding c by (simp add: contents_def Let_def w'un drb)
    qed
  qed
  moreover have "ring_ok (ring\<lparr>rb_WriteIndex := w', rb_Buffer := b', rb_Empty := False\<rparr>)"
    using ok b'len le e bnd len by (auto simp: ring_ok_def word_less_nat_alt w'un)
  moreover have "unat n + length (contents ring) \<le> unat (rb_Size ring)"
    using c e le n bnd len by (auto split: if_splits)
  ultimately show ?thesis
    using run n le by (intro exI [of _ n] exI) auto
qed

section \<open>Whole reads and writes\<close>

lemma RingBufferReadLoop_contents:
  assumes "ring_ok ring" and "rd \<le> sz" and "unat (rb_Size ring) + unat sz < 2 ^ 64"
  shows "\<exists>ring'. RingBufferReadLoop rd sz ring = Some (take (unat (sz - rd)) (contents ring), ring') \<and>
     ring_ok ring' \<and> contents ring' = drop (unat (sz - rd)) (contents ring) \<and>
     rb_Size ring' = rb_Size ring"
  using assms
proof (induction "unat (sz - rd)" arbitrary: rd ring rule: less_induct)
  case less
  show ?case
  proof (cases "rd < sz \<and> \<not> RingBufferIsEmpty ring")
    case False
    then have "unat (sz - rd) = 0 \<or> contents ring = []"
      using less.prems(2) by (auto simp: RingBufferIsEmpty_def contents_def)
    then show ?thesis
      using False less.prems(1) by (subst RingBufferReadLoop.simps) auto
  next
    case True
    have un: "unat (sz - rd) = unat sz - unat rd" using less.prems(2) by (rule unat_sub_word)
    have pos: "0 < sz - rd" using True by (simp add: word_less_nat_alt un)
    have "unat (rb_Size ring) + unat (sz - rd) < 2 ^ 64" using less.prems(3) un by simp
    then obtain k ring1 where k: "RingBufferReadSmall (sz - rd) ring = Some (take k (contents ring), ring1)"
      "0 < k" "k \<le> unat (sz - rd)" "k \<le> length (contents ring)" "rb_Size ring1 = rb_Size ring"
      "let ring2 = (if rb_ReadIndex ring1 = rb_WriteIndex ring1 then ring1\<lparr>rb_Empty := True\<rparr> else ring1)
       in ring_ok ring2 \<and> contents ring2 = drop k (contents ring)"
      using RingBufferReadSmall_step [OF less.prems(1) _ pos] True by (auto simp: RingBufferIsEmpty_def)
    define ring2 where "ring2 = (if rb_ReadIndex ring1 = rb_WriteIndex ring1
        then ring1\<lparr>rb_Empty := True\<rparr> else ring1)"
    have r2: "ring_ok ring2" "contents ring2 = drop k (contents ring)" "rb_Size ring2 = rb_Size ring"
      using k(5,6) by (auto simp: ring2_def Let_def)
    have ku: "unat (rd + of_nat k) = unat rd + k" and klt: "k < 2 ^ 64"
    proof -
      show klt: "k < 2 ^ 64" using k(3) unat_less_64 [of "sz - rd"] by simp
      show "unat (rd + of_nat k) = unat rd + k"
        using k(3) un klt unat_less_64 [of sz] less.prems(2) [unfolded word_le_nat_alt]
        by (subst unat_add_word) (simp_all add: unat_of_nat)
    qed
    then have le: "rd + of_nat k \<le> sz" using k(3) un True
      by (simp add: word_le_nat_alt word_less_nat_alt le_diff_conv2 add.commute)
    have rest: "unat (sz - (rd + of_nat k)) = unat (sz - rd) - k"
      using unat_sub_word [OF le] ku un by simp
    have lt: "unat (sz - (rd + of_nat k)) < unat (sz - rd)"
      unfolding rest using k(2,3) by simp
    obtain ring3 where r3: "RingBufferReadLoop (rd + of_nat k) sz ring2 =
         Some (take (unat (sz - rd) - k) (drop k (contents ring)), ring3)" "ring_ok ring3"
      "contents ring3 = drop (unat (sz - rd) - k) (drop k (contents ring))" "rb_Size ring3 = rb_Size ring"
      using less.hyps [OF lt r2(1) le] less.prems(3) r2(2,3) rest by auto
    have "RingBufferReadLoop rd sz ring =
        Some (take k (contents ring) @ take (unat (sz - rd) - k) (drop k (contents ring)), ring3)"
      using True k(1,4) r3(1)
      by (subst RingBufferReadLoop.simps) (simp add: ring2_def [symmetric] min_def)
    moreover have "take k c @ take (j - k) (drop k c) = take j c" if "k \<le> j" for j and c :: "BYTE list"
      using that by (metis le_add_diff_inverse take_add)
    moreover have "drop (j - k) (drop k c) = drop j c" if "k \<le> j" for j and c :: "BYTE list"
      using that by simp
    ultimately show ?thesis using r3 k(3) by auto
  qed
qed

lemma contents_length:
  assumes "ring_ok ring"
  shows "length (contents ring) = (let r = unat (rb_ReadIndex ring); w = unat (rb_WriteIndex ring)
     in if rb_Empty ring then 0 else if r < w then w - r else unat (rb_Size ring) - r + w)"
  using assms by (auto simp: ring_ok_def contents_def Let_def word_less_nat_alt min_def)

lemma contents_bound: "ring_ok ring \<Longrightarrow> length (contents ring) \<le> unat (rb_Size ring)"
  by (auto simp: contents_length ring_ok_def Let_def word_less_nat_alt)

lemma contents_full:
  assumes "ring_ok ring"
  shows "RingBufferIsFull ring \<longleftrightarrow> length (contents ring) = unat (rb_Size ring)"
proof -
  have "unat (rb_ReadIndex ring) < unat (rb_Size ring)" "unat (rb_WriteIndex ring) < unat (rb_Size ring)"
    using assms by (simp_all add: ring_ok_def word_less_nat_alt)
  then show ?thesis
    unfolding contents_length [OF assms] RingBufferIsFull_def word_unat_eq_iff Let_def
    by (cases "rb_Empty ring") auto
qed

lemma contents_empty:
  assumes "ring_ok ring"
  shows "RingBufferIsEmpty ring \<longleftrightarrow> contents ring = []"
proof -
  have "unat (rb_ReadIndex ring) < unat (rb_Size ring)"
    using assms by (simp add: ring_ok_def word_less_nat_alt)
  then have "rb_Empty ring \<longleftrightarrow> length (contents ring) = 0"
    unfolding contents_length [OF assms] Let_def by (cases "rb_Empty ring") auto
  then show ?thesis by (simp add: RingBufferIsEmpty_def)
qed

lemma RingBufferWriteLoop_contents:
  assumes "ring_ok ring" and "wr \<le> sz" and "unat (rb_Size ring) + unat sz < 2 ^ 64"
    and "unat sz \<le> length buff" "length buff < 2 ^ 64"
  shows "\<exists>n ring'. RingBufferWriteLoop wr buff sz ring = Some (wr + n, ring') \<and>
     unat n = min (unat (sz - wr)) (unat (rb_Size ring) - length (contents ring)) \<and>
     ring_ok ring' \<and> contents ring' = contents ring @ take (unat n) (drop (unat wr) buff) \<and>
     rb_Size ring' = rb_Size ring"
  using assms(1-3)
proof (induction "unat (sz - wr)" arbitrary: wr ring rule: less_induct)
  case less
  show ?case
  proof (cases "wr < sz \<and> \<not> RingBufferIsFull ring")
    case False
    then have "unat (sz - wr) = 0 \<or> length (contents ring) = unat (rb_Size ring)"
      using less.prems(1,2) contents_full by auto
    then show ?thesis
      using False less.prems(1) by (subst RingBufferWriteLoop.simps) (intro exI [of _ 0] exI, auto)
  next
    case True
    have un: "unat (sz - wr) = unat sz - unat wr" using less.prems(2) by (rule unat_sub_word)
    have wle: "unat wr \<le> unat sz" using less.prems(2) by (simp add: word_le_nat_alt)
    have pos: "0 < sz - wr" using True by (simp add: word_less_nat_alt un)
    have sp: "unat (rb_Size ring) + unat (sz - wr) < 2 ^ 64" using less.prems(3) un by simp
    have nf: "\<not> RingBufferIsFull ring" using True by simp
    have "unat (sz - wr) \<le> length (drop (unat wr) buff)" "length (drop (unat wr) buff) < 2 ^ 64"
      using assms(4,5) un by simp_all
    then obtain k ring1 where k: "RingBufferWriteSmall (drop (unat wr) buff) (sz - wr) ring = Some (k, ring1)"
      "0 < unat k" "unat k \<le> unat (sz - wr)" "rb_Size ring1 = rb_Size ring"
      "unat k + length (contents ring) \<le> unat (rb_Size ring)" "ring_ok (ring1\<lparr>rb_Empty := False\<rparr>)"
      "contents (ring1\<lparr>rb_Empty := False\<rparr>) = contents ring @ take (unat k) (drop (unat wr) buff)"
      using RingBufferWriteSmall_step [OF less.prems(1) nf pos sp] by blast
    have ku: "unat (wr + k) = unat wr + unat k"
      using k(3) un wle unat_less_64 [of sz] by (subst unat_add_word) simp_all
    have le: "wr + k \<le> sz" using k(3) un wle ku by (simp add: word_le_nat_alt)
    have rest: "unat (sz - (wr + k)) = unat (sz - wr) - unat k"
      using unat_sub_word [OF le] ku un by simp
    have lt: "unat (sz - (wr + k)) < unat (sz - wr)" unfolding rest using k(2,3) by simp
    have lc: "length (contents ring @ take (unat k) (drop (unat wr) buff)) = length (contents ring) + unat k"
      using k(3) un wle assms(4) by simp
    obtain m ring2 where m: "RingBufferWriteLoop (wr + k) buff sz (ring1\<lparr>rb_Empty := False\<rparr>) =
         Some (wr + k + m, ring2)" "ring_ok ring2" "rb_Size ring2 = rb_Size ring"
      "unat m = min (unat (sz - wr) - unat k)
         (unat (rb_Size ring) - (length (contents ring) + unat k))"
      "contents ring2 = contents ring @ take (unat k) (drop (unat wr) buff) @
         take (unat m) (drop (unat wr + unat k) buff)"
      using less.hyps [OF lt k(6) le] less.prems(3) k(4,7) rest ku lc by auto
    have mu: "unat (k + m) = unat k + unat m"
      using m(4) k(3) unat_less_64 [of "sz - wr"] by (subst unat_add_word) simp_all
    have "RingBufferWriteLoop wr buff sz ring = Some (wr + (k + m), ring2)"
      using True k(1) m(1) by (subst RingBufferWriteLoop.simps) (simp add: add.assoc)
    moreover have "unat (k + m) = min (unat (sz - wr)) (unat (rb_Size ring) - length (contents ring))"
      unfolding mu m(4) using k(3,5) by linarith
    moreover have "take (unat k + unat m) (drop (unat wr) buff) =
        take (unat k) (drop (unat wr) buff) @ take (unat m) (drop (unat wr + unat k) buff)"
      by (simp add: take_add add.commute)
    ultimately show ?thesis using m mu by auto
  qed
qed

section \<open>The contract of a bounded byte queue\<close>

text \<open>
  A client that moves bytes through a ring relies on two laws only: a read takes a prefix of what
  is queued, a write appends a prefix of what it is given, and both move as much as they can. Over
  any sequence of calls no byte is then lost, duplicated or reordered.
\<close>

datatype rw_call = Rd COUNT | Wr "BYTE list"

fun call_len :: "rw_call \<Rightarrow> nat" where
  "call_len (Rd n) = unat n"
| "call_len (Wr bs) = length bs"

text \<open>The bytes accepted by the writes and the bytes returned by the reads of a run.\<close>

fun rw_run :: "(COUNT \<Rightarrow> 'q \<Rightarrow> (BYTE list \<times> 'q) option) \<Rightarrow> (BYTE list \<Rightarrow> 'q \<Rightarrow> (nat \<times> 'q) option) \<Rightarrow>
    rw_call list \<Rightarrow> 'q \<Rightarrow> (BYTE list \<times> BYTE list \<times> 'q) option" where
  "rw_run rd wr [] q = Some ([], [], q)"
| "rw_run rd wr (Rd n # cs) q =
     do { (bs, q) \<leftarrow> rd n q; (i, out, q) \<leftarrow> rw_run rd wr cs q; Some (i, bs @ out, q) }"
| "rw_run rd wr (Wr bs # cs) q =
     do { (n, q) \<leftarrow> wr bs q; (i, out, q) \<leftarrow> rw_run rd wr cs q; Some (take n bs @ i, out, q) }"

locale byte_queue =
  fixes rd :: "COUNT \<Rightarrow> 'q \<Rightarrow> (BYTE list \<times> 'q) option"
    and wr :: "BYTE list \<Rightarrow> 'q \<Rightarrow> (nat \<times> 'q) option"
    and queued :: "'q \<Rightarrow> BYTE list"
    and cap :: "'q \<Rightarrow> nat"
    and good :: "'q \<Rightarrow> bool"
  assumes read_law: "good q \<Longrightarrow> unat n + cap q < 2 ^ 64 \<Longrightarrow>
      \<exists>q'. rd n q = Some (take (unat n) (queued q), q') \<and> good q' \<and>
        queued q' = drop (unat n) (queued q) \<and> cap q' = cap q"
    and write_law: "good q \<Longrightarrow> length bs + cap q < 2 ^ 64 \<Longrightarrow>
      \<exists>q'. wr bs q = Some (min (length bs) (cap q - length (queued q)), q') \<and> good q' \<and>
        queued q' = queued q @ take (cap q - length (queued q)) bs \<and> cap q' = cap q"
    and bound: "good q \<Longrightarrow> length (queued q) \<le> cap q"
begin

lemma stream_kept:
  "good q \<Longrightarrow> \<forall>c\<in>set cs. call_len c + cap q < 2 ^ 64 \<Longrightarrow>
   \<exists>i out q'. rw_run rd wr cs q = Some (i, out, q') \<and> good q' \<and> cap q' = cap q \<and>
     queued q @ i = out @ queued q' \<and> length (queued q') \<le> cap q"
proof (induction cs arbitrary: q)
  case Nil
  then show ?case using bound by auto
next
  case (Cons c cs)
  show ?case
  proof (cases c)
    case (Rd n)
    then obtain q1 where q1: "rd n q = Some (take (unat n) (queued q), q1)" "good q1"
        "queued q1 = drop (unat n) (queued q)" "cap q1 = cap q"
      using read_law [OF Cons.prems(1), of n] Cons.prems(2) by auto
    then obtain i out q' where r: "rw_run rd wr cs q1 = Some (i, out, q')" "good q'" "cap q' = cap q"
        "queued q1 @ i = out @ queued q'" "length (queued q') \<le> cap q"
      using Cons.IH [OF q1(2)] Cons.prems(2) by auto
    have "queued q @ i = (take (unat n) (queued q) @ out) @ queued q'"
      using r(4) q1(3) by (metis append.assoc append_take_drop_id)
    with Rd q1(1) r show ?thesis by auto
  next
    case (Wr bs)
    let ?k = "cap q - length (queued q)"
    obtain q1 where q1: "wr bs q = Some (min (length bs) ?k, q1)" "good q1"
        "queued q1 = queued q @ take ?k bs" "cap q1 = cap q"
      using write_law [OF Cons.prems(1), of bs] Cons.prems(2) Wr by auto
    then obtain i out q' where r: "rw_run rd wr cs q1 = Some (i, out, q')" "good q'" "cap q' = cap q"
        "queued q1 @ i = out @ queued q'" "length (queued q') \<le> cap q"
      using Cons.IH [OF q1(2)] Cons.prems(2) by auto
    have "take (min (length bs) ?k) bs = take ?k bs" by (simp add: min_def)
    with Wr q1(1,3) r show ?thesis by auto
  qed
qed

end

text \<open>The ring provides it.\<close>

definition ring_write :: "BYTE list \<Rightarrow> RING_BUFFER \<Rightarrow> (nat \<times> RING_BUFFER) option" where
  "ring_write bs ring = map_option (\<lambda>(n, r). (unat n, r)) (RingBufferWrite bs (of_nat (length bs)) ring)"

interpretation ring_queue: byte_queue RingBufferRead ring_write contents "\<lambda>r. unat (rb_Size r)" ring_ok
proof
  fix ring and n :: COUNT
  assume "ring_ok ring" "unat n + unat (rb_Size ring) < 2 ^ 64"
  then show "\<exists>q'. RingBufferRead n ring = Some (take (unat n) (contents ring), q') \<and> ring_ok q' \<and>
      contents q' = drop (unat n) (contents ring) \<and> unat (rb_Size q') = unat (rb_Size ring)"
    using RingBufferReadLoop_contents [of ring 0 n] by (auto simp: RingBufferRead_def add.commute)
next
  fix ring and bs :: "BYTE list"
  assume a: "ring_ok ring" "length bs + unat (rb_Size ring) < 2 ^ 64"
  then have u: "unat (of_nat (length bs) :: COUNT) = length bs" by (simp add: unat_of_nat)
  have "(0 :: COUNT) \<le> of_nat (length bs)" by simp
  then obtain n ring' where "RingBufferWriteLoop 0 bs (of_nat (length bs)) ring = Some (0 + n, ring')"
     "unat n = min (length bs) (unat (rb_Size ring) - length (contents ring))" "ring_ok ring'"
     "contents ring' = contents ring @ take (unat n) bs" "rb_Size ring' = rb_Size ring"
    using RingBufferWriteLoop_contents [OF a(1), of 0 "of_nat (length bs)" bs] a(2) u
    by (auto simp: add.commute)
  moreover have "take (min (length bs) k) bs = take k bs" for k by (simp add: min_def)
  ultimately show "\<exists>q'. ring_write bs ring =
      Some (min (length bs) (unat (rb_Size ring) - length (contents ring)), q') \<and> ring_ok q' \<and>
      contents q' = contents ring @ take (unat (rb_Size ring) - length (contents ring)) bs \<and>
      unat (rb_Size q') = unat (rb_Size ring)"
    by (auto simp: ring_write_def RingBufferWrite_def)
next
  fix ring
  assume "ring_ok ring"
  then show "length (contents ring) \<le> unat (rb_Size ring)" by (rule contents_bound)
qed

section \<open>Properties\<close>

text \<open>\<^verbatim>\<open>RingBufferRead\<close> on a well-formed ring returns the first bytes queued, as many as
  asked for or as there are, and removes exactly them; the ring stays well-formed. The requested size
  and the ring's size must not overflow a \<^verbatim>\<open>size_t\<close> together.\<close>

theorem ring_read_correct:
  assumes "ring_ok ring" and "unat sz + unat (rb_Size ring) < 2 ^ 64"
  shows "\<exists>ring'. RingBufferRead sz ring = Some (take (unat sz) (contents ring), ring') \<and>
     ring_ok ring' \<and> contents ring' = drop (unat sz) (contents ring) \<and>
     (RingBufferIsEmpty ring' \<longleftrightarrow> length (contents ring) \<le> unat sz)"
proof -
  obtain ring' where r: "RingBufferRead sz ring = Some (take (unat sz) (contents ring), ring')"
    "ring_ok ring'" "contents ring' = drop (unat sz) (contents ring)"
    using ring_queue.read_law [OF assms] by blast
  then have "RingBufferIsEmpty ring' \<longleftrightarrow> length (contents ring) \<le> unat sz"
    using contents_empty [OF r(2)] by simp
  with r show ?thesis by blast
qed

definition demo_ring :: RING_BUFFER where
  "demo_ring = \<lparr>rb_Buffer = [10, 20, 30, 40], rb_Size = 4, rb_ReadIndex = 3, rb_WriteIndex = 2,
     rb_Empty = False\<rparr>"

lemma demo_ring_ok: "ring_ok demo_ring" "contents demo_ring = [40, 10, 20]"
  by (simp_all add: demo_ring_def ring_ok_def contents_def)

theorem ring_read_correct_witness:
  "\<exists>ring'. RingBufferRead 2 demo_ring = Some ([40, 10], ring') \<and> ring_ok ring' \<and>
     contents ring' = [20] \<and> \<not> RingBufferIsEmpty ring'"
  using ring_read_correct [OF demo_ring_ok(1), of 2] demo_ring_ok(2)
  by (simp add: demo_ring_def)

text \<open>\<^verbatim>\<open>RingBufferWrite\<close> on a well-formed ring appends the longest prefix of the bytes
  given that still fits, returns its length, and overwrites nothing that is queued.\<close>

theorem ring_write_correct:
  assumes "ring_ok ring" and "unat sz + unat (rb_Size ring) < 2 ^ 64"
    and "unat sz \<le> length buff" and "length buff < 2 ^ 64"
  shows "\<exists>n ring'. RingBufferWrite buff sz ring = Some (n, ring') \<and>
     unat n = min (unat sz) (unat (rb_Size ring) - length (contents ring)) \<and>
     ring_ok ring' \<and> contents ring' = contents ring @ take (unat n) buff \<and>
     (RingBufferIsFull ring' \<longleftrightarrow> unat (rb_Size ring) \<le> unat sz + length (contents ring))"
proof -
  have "(0 :: COUNT) \<le> sz" by simp
  then obtain n ring' where r: "RingBufferWriteLoop 0 buff sz ring = Some (0 + n, ring')"
     "unat n = min (unat sz) (unat (rb_Size ring) - length (contents ring))" "ring_ok ring'"
     "contents ring' = contents ring @ take (unat n) buff" "rb_Size ring' = rb_Size ring"
    using RingBufferWriteLoop_contents [OF assms(1), of 0 sz buff] assms(2-4) by (auto simp: add.commute)
  have "RingBufferIsFull ring' \<longleftrightarrow> length (contents ring) + unat n = unat (rb_Size ring)"
    using contents_full [OF r(3)] r(2,4,5) assms(3) by simp
  then have "RingBufferIsFull ring' \<longleftrightarrow> unat (rb_Size ring) \<le> unat sz + length (contents ring)"
    using contents_bound [OF assms(1)] r(2) by linarith
  with r show ?thesis by (auto simp: RingBufferWrite_def)
qed

theorem ring_write_correct_witness:
  "\<exists>n ring'. RingBufferWrite [7, 8] 2 demo_ring = Some (n, ring') \<and> unat n = 1 \<and> ring_ok ring' \<and>
     contents ring' = [40, 10, 20, 7] \<and> RingBufferIsFull ring'"
  using ring_write_correct [OF demo_ring_ok(1), of 2 "[7, 8]"] demo_ring_ok(2)
  by (auto simp: demo_ring_def)

text \<open>(C29) Over any sequence of reads and writes of a ring, each for a number of bytes that together with the size of the ring is below \<open>2 ^ 64\<close>, what was queued followed by everything
  the writes accepted equals everything the reads returned followed by what is still queued: no byte
  is lost, duplicated or reordered, and the ring never holds more than its size.\<close>

theorem ring_stream:
  assumes "ring_ok ring" and "\<forall>c\<in>set cs. call_len c + unat (rb_Size ring) < 2 ^ 64"
  shows "\<exists>i out ring'. rw_run RingBufferRead ring_write cs ring = Some (i, out, ring') \<and>
     ring_ok ring' \<and> contents ring @ i = out @ contents ring' \<and>
     length (contents ring') \<le> unat (rb_Size ring)"
  using ring_queue.stream_kept [OF assms] by blast

theorem ring_stream_witness:
  "\<exists>i out ring'. rw_run RingBufferRead ring_write [Wr [1, 2], Rd 3, Wr [5]] demo_ring = Some (i, out, ring') \<and>
     ring_ok ring' \<and> [40, 10, 20] @ i = out @ contents ring' \<and> length (contents ring') \<le> 4"
  using ring_stream [OF demo_ring_ok(1), of "[Wr [1, 2], Rd 3, Wr [5]]"] demo_ring_ok(2)
  by (simp add: demo_ring_def)

lemma RingBufferPeak_head:
  assumes "ring_ok ring"
  shows "RingBufferPeak ring = Some (case contents ring of [] \<Rightarrow> None | b # bs \<Rightarrow> Some b)"
proof (cases "rb_Empty ring")
  case True
  then show ?thesis by (simp add: RingBufferPeak_def RingBufferIsEmpty_def contents_def)
next
  case False
  have b: "unat (rb_ReadIndex ring) < length (rb_Buffer ring)"
    using assms by (simp add: ring_ok_def word_less_nat_alt)
  then have "drop (unat (rb_ReadIndex ring)) (rb_Buffer ring) =
      rb_Buffer ring ! unat (rb_ReadIndex ring) # drop (Suc (unat (rb_ReadIndex ring))) (rb_Buffer ring)"
    by (simp add: Cons_nth_drop_Suc)
  with False b show ?thesis
    by (auto simp: RingBufferPeak_def RingBufferIsEmpty_def contents_def Let_def nth_opt_def take_Cons'
        split: list.split)
qed

end
