(* ===== verification/RingTest.thy ===== *)
theory RingTest
  imports RingBuffer
begin

text \<open>
  The randomised test of the byte ring, \<^verbatim>\<open>src/utils/ringtest.c\<close>: it sends a random text through a ring of random size
  in random pieces and compares. The answers of \<^verbatim>\<open>rand\<close> are a parameter, a sequence of numbers, and so is what freshly
  allocated memory holds. What is printed is left out.
\<close>

section \<open>The program\<close>

type_synonym randoms = "nat \<Rightarrow> COUNT"

record ring_test =
  calls :: nat   \<comment> \<open>how often \<^verbatim>\<open>rand\<close> has been called\<close>
  TEST_SIZE :: COUNT
  RING_SIZE :: COUNT
  Ring :: RING_BUFFER
  In :: "BYTE list"
  Out :: "BYTE list"

abbreviation NUM_TESTS :: nat where "NUM_TESTS \<equiv> 4"

definition MIN_of :: "COUNT \<Rightarrow> COUNT \<Rightarrow> COUNT" where
  "MIN_of a b = (if a < b then a else b)"

function FillLoop :: "randoms \<Rightarrow> INDEX \<Rightarrow> ring_test \<Rightarrow> ring_test option" where
  "FillLoop R index s =
     (if index < TEST_SIZE s then
        if unat index < length (In s) \<and> unat index < length (Out s) then
          FillLoop R (index + 1) (s\<lparr>In := (In s)[unat index := 97 + ucast (R (calls s) mod 26)], Out := (Out s)[unat index := 120],
            calls := calls s + 1\<rparr>)
        else None
      else Some s)"
  by pat_completeness auto
termination
  by (relation "measure (\<lambda>(R, index, s). unat (TEST_SIZE s - index))") (auto intro!: index_gap)

declare FillLoop.simps [simp del]

definition InitBuffers :: "randoms \<Rightarrow> (nat \<Rightarrow> BYTE) \<Rightarrow> ring_test \<Rightarrow> ring_test option" where
  "InitBuffers R garbage s =
     (let s = s\<lparr>TEST_SIZE := R (calls s) mod 128, calls := calls s + 1\<rparr>;
          s = s\<lparr>RING_SIZE := R (calls s) mod 32, calls := calls s + 1\<rparr>;
          buffer = map garbage [0..<unat (RING_SIZE s)];
          s = s\<lparr>In := map garbage [0..<unat (TEST_SIZE s)]\<rparr>;
          s = s\<lparr>Out := map garbage [0..<unat (TEST_SIZE s)]\<rparr>;
          s = s\<lparr>Ring := RingBufferInit buffer (RING_SIZE s)\<rparr>
      in FillLoop R 0 s)"

definition TestRound :: "randoms \<Rightarrow> INDEX \<times> INDEX \<times> ring_test \<Rightarrow> (INDEX \<times> INDEX \<times> ring_test) option" where
  "TestRound R st = (case st of (rd, wr, s) \<Rightarrow>
     let writePart = R (calls s) mod TEST_SIZE s + 1;
         readPart = R (calls s + 1) mod TEST_SIZE s + 1;
         s = s\<lparr>calls := calls s + 2\<rparr>
     in do {
       (wr, s) \<leftarrow> (if wr < TEST_SIZE s then do {
           (delta, ring) \<leftarrow> RingBufferWrite (drop (unat wr) (In s)) (MIN_of writePart (TEST_SIZE s - wr)) (Ring s);
           ASSERT (delta \<le> writePart);
           Some (wr + delta, s\<lparr>Ring := ring\<rparr>) }
         else Some (wr, s));
       (if rd < TEST_SIZE s then do {
           (bs, ring) \<leftarrow> RingBufferRead (MIN_of readPart (TEST_SIZE s - rd)) (Ring s);
           ASSERT (unat rd + length bs \<le> length (Out s));
           let s = s\<lparr>Ring := ring, Out := take (unat rd) (Out s) @ bs @ drop (unat rd + length bs) (Out s)\<rparr>;
           ASSERT (of_nat (length bs) \<le> readPart);
           Some (rd + of_nat (length bs), wr, s) }
         else Some (rd, wr, s))
     })"

definition unfinished :: "INDEX \<times> INDEX \<times> ring_test \<Rightarrow> bool" where
  "unfinished st = (case st of (rd, wr, s) \<Rightarrow> rd < TEST_SIZE s \<or> wr < TEST_SIZE s)"

partial_function (option) TestLoop :: "randoms \<Rightarrow> INDEX \<times> INDEX \<times> ring_test \<Rightarrow> (INDEX \<times> INDEX \<times> ring_test) option" where
  "TestLoop R st = (if unfinished st then Option.bind (TestRound R st) (TestLoop R) else Some st)"

function VerifyLoop :: "INDEX \<Rightarrow> ring_test \<Rightarrow> int option" where
  "VerifyLoop index s =
     (if index < TEST_SIZE s then do {
        a \<leftarrow> nth_opt (In s) index;
        b \<leftarrow> nth_opt (Out s) index;
        if a \<noteq> b then Some 1 else VerifyLoop (index + 1) s }
      else Some 0)"
  by pat_completeness auto
termination
  by (relation "measure (\<lambda>(index, s). unat (TEST_SIZE s - index))") (auto intro!: index_gap)

declare VerifyLoop.simps [simp del]

definition Test :: "randoms \<Rightarrow> ring_test \<Rightarrow> (int \<times> ring_test) option" where
  "Test R s =
     do {
       (rd, wr, s) \<leftarrow> TestLoop R (0, 0, s);
       ASSERT (rd = TEST_SIZE s);
       ASSERT (wr = TEST_SIZE s);
       r \<leftarrow> VerifyLoop 0 s;
       Some (r, s)
     }"

text \<open>\<open>ringtest_loop\<close> is the loop of \<^verbatim>\<open>main\<close>, with the number of tests that are left.\<close>

primrec ringtest_loop :: "nat \<Rightarrow> randoms \<Rightarrow> (nat \<Rightarrow> BYTE) \<Rightarrow> ring_test \<Rightarrow> (int \<times> ring_test) option" where
  "ringtest_loop 0 R garbage s = Some (0, s)"
| "ringtest_loop (Suc n) R garbage s =
     do {
       s \<leftarrow> InitBuffers R garbage s;
       (r, s) \<leftarrow> Test R s;
       if r \<noteq> 0 then Some (1, s) else ringtest_loop n R garbage s
     }"

definition ringtest_main :: "randoms \<Rightarrow> (nat \<Rightarrow> BYTE) \<Rightarrow> ring_test \<Rightarrow> (int \<times> ring_test) option" where
  "ringtest_main R garbage s = ringtest_loop NUM_TESTS R garbage s"

section \<open>The set-up\<close>

lemma FillLoop_ok:
  "length (In s) = unat (TEST_SIZE s) \<Longrightarrow> length (Out s) = unat (TEST_SIZE s) \<Longrightarrow> \<exists>s'. FillLoop R index s = Some s' \<and>
     length (In s') = unat (TEST_SIZE s) \<and> length (Out s') = unat (TEST_SIZE s) \<and> TEST_SIZE s' = TEST_SIZE s \<and> RING_SIZE s' = RING_SIZE s \<and> Ring s' = Ring s"
proof (induction R index s rule: FillLoop.induct)
  case (1 R index s)
  show ?case
  proof (cases "index < TEST_SIZE s")
    case True
    then have "unat index < unat (TEST_SIZE s)" by (simp add: word_less_nat_alt)
    then show ?thesis using 1 True by (simp add: FillLoop.simps [of R index s])
  qed (use 1 in \<open>simp add: FillLoop.simps [of R index s]\<close>)
qed

text \<open>What \<open>InitBuffers\<close> sets up.\<close>

definition set_up :: "ring_test \<Rightarrow> bool" where
  "set_up s \<longleftrightarrow> length (In s) = unat (TEST_SIZE s) \<and> length (Out s) = unat (TEST_SIZE s) \<and> TEST_SIZE s < 128 \<and> RING_SIZE s < 32 \<and>
     (\<exists>buf. length buf = unat (RING_SIZE s) \<and> Ring s = RingBufferInit buf (RING_SIZE s))"

lemma InitBuffers_set_up: "\<exists>s'. InitBuffers R garbage s = Some s' \<and> set_up s'"
proof -
  let ?t = "R (calls s) mod 128" and ?r = "R (calls s + 1) mod 32"
  let ?s = "s\<lparr>TEST_SIZE := ?t, RING_SIZE := ?r, calls := calls s + 2, In := map garbage [0..<unat ?t], Out := map garbage [0..<unat ?t],
     Ring := RingBufferInit (map garbage [0..<unat ?r]) ?r\<rparr>"
  have "InitBuffers R garbage s = FillLoop R 0 ?s" by (simp add: InitBuffers_def Let_def)
  moreover obtain s' where "FillLoop R 0 ?s = Some s'" "length (In s') = unat ?t" "length (Out s') = unat ?t" "TEST_SIZE s' = ?t" "RING_SIZE s' = ?r"
      "Ring s' = RingBufferInit (map garbage [0..<unat ?r]) ?r"
    using FillLoop_ok [of ?s R 0] by auto
  moreover have "?t < 128" "?r < 32" by (simp_all add: word_mod_less_divisor)
  ultimately show ?thesis unfolding set_up_def by (intro exI [of _ s'] conjI exI [of _ "map garbage [0..<unat ?r]"]) simp_all
qed

section \<open>A round\<close>

text \<open>The first \<open>wr\<close> bytes are written, the first \<open>rd\<close> are read, and what is between is in the ring.\<close>

definition testing :: "nat \<Rightarrow> ring_test \<Rightarrow> INDEX \<times> INDEX \<times> ring_test \<Rightarrow> bool" where
  "testing n s0 st = (case st of (rd, wr, s) \<Rightarrow>
     TEST_SIZE s = TEST_SIZE s0 \<and> In s = In s0 \<and> length (In s0) = unat (TEST_SIZE s0) \<and> length (Out s) = unat (TEST_SIZE s0) \<and>
     TEST_SIZE s0 < 128 \<and> n < 32 \<and> ring_ok (Ring s) \<and> unat (rb_Size (Ring s)) = n \<and> unat rd \<le> unat wr \<and> unat wr \<le> unat (TEST_SIZE s0) \<and>
     contents (Ring s) = take (unat wr - unat rd) (drop (unat rd) (In s0)) \<and> take (unat rd) (Out s) = take (unat rd) (In s0))"

lemma testingD:
  assumes "testing n s0 (rd, wr, s)"
  shows "TEST_SIZE s = TEST_SIZE s0" "In s = In s0" "length (In s0) = unat (TEST_SIZE s0)" "length (Out s) = unat (TEST_SIZE s0)"
    "unat (TEST_SIZE s0) < 128" "n < 32" "ring_ok (Ring s)" "unat (rb_Size (Ring s)) = n" "unat rd \<le> unat wr" "unat wr \<le> unat (TEST_SIZE s0)"
    "contents (Ring s) = take (unat wr - unat rd) (drop (unat rd) (In s0))" "take (unat rd) (Out s) = take (unat rd) (In s0)"
    "length (contents (Ring s)) = unat wr - unat rd"
  using assms by (auto simp: testing_def word_less_nat_alt)

lemma part_size:
  fixes x t :: COUNT
  assumes "0 < t" "t < 128"
  shows "1 \<le> unat (x mod t + 1)" "unat (x mod t + 1) \<le> 128"
proof -
  have "x mod t < t" using assms(1) by (simp add: word_mod_less_divisor)
  then have "unat (x mod t) < 127" using assms(2) by (simp add: word_less_nat_alt)
  then have "unat (x mod t + 1) = unat (x mod t) + 1" by (simp add: unat_word_ariths)
  then show "1 \<le> unat (x mod t + 1)" "unat (x mod t + 1) \<le> 128" using \<open>unat (x mod t) < 127\<close> by simp_all
qed

lemma unat_MIN_of: "unat (MIN_of a b) = min (unat a) (unat b)"
  by (simp add: MIN_of_def min_def word_less_nat_alt)

lemma write_part:
  assumes "testing n s0 (rd, wr, s)" and "wr < TEST_SIZE s" and "1 \<le> unat part" "unat part \<le> 128"
  shows "\<exists>delta ring. RingBufferWrite (drop (unat wr) (In s)) (MIN_of part (TEST_SIZE s - wr)) (Ring s) = Some (delta, ring) \<and> delta \<le> part \<and>
    testing n s0 (rd, wr + delta, s\<lparr>Ring := ring\<rparr>) \<and> unat (wr + delta) = unat wr + unat delta \<and> (unat wr - unat rd < n \<longrightarrow> 0 < unat delta)"
proof -
  note t = testingD [OF assms(1)]
  let ?k = "MIN_of part (TEST_SIZE s - wr)" and ?c = "length (contents (Ring s))"
  have wr: "unat wr < unat (TEST_SIZE s)" using assms(2) by (simp add: word_less_nat_alt)
  have d: "unat (TEST_SIZE s - wr) = unat (TEST_SIZE s) - unat wr" using assms(2) by (simp add: unat_sub word_le_nat_alt word_less_nat_alt)
  have T: "unat (TEST_SIZE s) < 128" using t(1,5) by simp
  have k: "unat ?k = min (unat part) (unat (TEST_SIZE s) - unat wr)" by (simp add: unat_MIN_of d)
  have room: "unat (rb_Size (Ring s)) + unat ?k < 2 ^ 64" "unat ?k \<le> length (drop (unat wr) (In s))" "length (drop (unat wr) (In s)) < 2 ^ 64"
    using k T t(2,3,6,8) t(1) wr by auto
  obtain delta ring where w: "RingBufferWriteLoop 0 (drop (unat wr) (In s)) ?k (Ring s) = Some (0 + delta, ring)"
      "unat delta = min (unat ?k) (unat (rb_Size (Ring s)) - ?c)" "ring_ok ring"
      "contents ring = contents (Ring s) @ take (unat delta) (drop (unat wr) (In s))" "rb_Size ring = rb_Size (Ring s)"
    using RingBufferWriteLoop_contents [OF t(7) word_zero_le room] by auto
  have small: "unat delta \<le> unat ?k" "unat ?k \<le> unat (TEST_SIZE s) - unat wr" "unat ?k \<le> unat part" by (simp_all only: w(2) k min.cobounded1 min.cobounded2)
  then have "unat wr + unat delta \<le> 256" using T wr by linarith
  then have sum: "unat (wr + delta) = unat wr + unat delta" by (simp add: unat_word_ariths)
  have "take (unat wr + unat delta - unat rd) (drop (unat rd) (In s0)) =
      take (unat wr - unat rd) (drop (unat rd) (In s0)) @ take (unat delta) (drop (unat wr) (In s0))"
    using take_add [of "unat wr - unat rd" "unat delta" "drop (unat rd) (In s0)"] t(9) by (simp add: add.commute)
  then have "contents ring = take (unat wr + unat delta - unat rd) (drop (unat rd) (In s0))" using w(4) t(2,11) by simp
  moreover have "unat rd \<le> unat wr + unat delta" "unat wr + unat delta \<le> unat (TEST_SIZE s0)" using t(9) small wr unfolding t(1) by linarith+
  ultimately have "testing n s0 (rd, wr + delta, s\<lparr>Ring := ring\<rparr>)"
    using t(1-4,6,8,12) w(3,5) sum t(5) by (simp add: testing_def word_less_nat_alt)
  moreover have "delta \<le> part" using small(1,3) unfolding word_le_nat_alt by linarith
  moreover have "unat wr - unat rd < n \<longrightarrow> 0 < unat delta" using w(2) k t(8,13) wr assms(3) by auto
  ultimately show ?thesis using w(1) sum by (auto simp: RingBufferWrite_def)
qed

lemma read_part:
  assumes "testing n s0 (rd, wr, s)" and "rd < TEST_SIZE s" and "1 \<le> unat part" "unat part \<le> 128"
  shows "\<exists>bs ring. RingBufferRead (MIN_of part (TEST_SIZE s - rd)) (Ring s) = Some (bs, ring) \<and> unat rd + length bs \<le> length (Out s) \<and>
    of_nat (length bs) \<le> part \<and>
    testing n s0 (rd + of_nat (length bs), wr, s\<lparr>Ring := ring, Out := take (unat rd) (Out s) @ bs @ drop (unat rd + length bs) (Out s)\<rparr>) \<and>
    unat (rd + of_nat (length bs)) = unat rd + length bs \<and> (unat rd < unat wr \<longrightarrow> 0 < length bs)"
proof -
  note t = testingD [OF assms(1)]
  let ?k = "MIN_of part (TEST_SIZE s - rd)" and ?c = "contents (Ring s)"
  have rd: "unat rd < unat (TEST_SIZE s)" using assms(2) by (simp add: word_less_nat_alt)
  have d: "unat (TEST_SIZE s - rd) = unat (TEST_SIZE s) - unat rd" using assms(2) by (simp add: unat_sub word_le_nat_alt word_less_nat_alt)
  have T: "unat (TEST_SIZE s) < 128" using t(1,5) by simp
  have k: "unat ?k = min (unat part) (unat (TEST_SIZE s) - unat rd)" by (simp add: unat_MIN_of d)
  have room: "unat ?k + unat (rb_Size (Ring s)) < 2 ^ 64" using k T t(6,8) by (simp add: min_def split: if_splits)
  obtain ring where r: "RingBufferRead ?k (Ring s) = Some (take (unat ?k) ?c, ring)" "ring_ok ring" "contents ring = drop (unat ?k) ?c"
      "unat (rb_Size ring) = unat (rb_Size (Ring s))"
    using ring_queue.read_law [OF t(7) room] by blast
  define bs where "bs = take (unat ?k) ?c"
  have l: "length bs = min (unat ?k) (unat wr - unat rd)" by (simp add: bs_def t(13) min.commute)
  have small: "length bs \<le> unat ?k" "unat ?k \<le> unat (TEST_SIZE s) - unat rd" "unat ?k \<le> unat part" by (simp_all only: l k min.cobounded1 min.cobounded2)
  then have "unat rd + length bs \<le> 256" using T rd by linarith
  then have u: "unat (of_nat (length bs) :: COUNT) = length bs" by (simp add: unat_of_nat)
  have "unat rd + length bs \<le> 256" by fact
  then have sum: "unat (rd + of_nat (length bs)) = unat rd + length bs" using u by (simp add: unat_word_ariths)
  have bs: "bs = take (length bs) (drop (unat rd) (In s0))" "drop (unat ?k) ?c = drop (length bs) ?c"
    using t(11) by (auto simp: bs_def min_def)
  have "take (unat rd + length bs) (In s0) = take (unat rd) (In s0) @ bs" using bs(1) by (simp add: take_add)
  moreover have "drop (length bs) ?c = take (unat wr - (unat rd + length bs)) (drop (unat rd + length bs) (In s0))"
    using t(11) by (simp add: drop_take add.commute)
  moreover have "unat rd + length bs \<le> unat wr" using l t(9) by simp
  ultimately have "testing n s0 (rd + of_nat (length bs), wr, s\<lparr>Ring := ring, Out := take (unat rd) (Out s) @ bs @ drop (unat rd + length bs) (Out s)\<rparr>)"
    using t(1-6,8,10,12) r(2-4) bs(2) sum by (simp add: testing_def word_less_nat_alt)
  moreover have "of_nat (length bs) \<le> part" using u small(1,3) unfolding word_le_nat_alt by linarith
  moreover have "unat rd < unat wr \<longrightarrow> 0 < length bs" using l k rd assms(3) by auto
  moreover have "unat rd + length bs \<le> length (Out s)" using l t(4,9,10) by simp
  ultimately show ?thesis using r(1) sum unfolding bs_def [symmetric] by blast
qed

lemma TestRound_ok:
  assumes "testing n s0 (rd, wr, s)" and "unfinished (rd, wr, s)" and "0 < n"
  shows "\<exists>rd' wr' s'. TestRound R (rd, wr, s) = Some (rd', wr', s') \<and> testing n s0 (rd', wr', s') \<and> unat rd + unat wr < unat rd' + unat wr'"
proof -
  note t = testingD [OF assms(1)]
  define wp rp s1 where d: "wp = R (calls s) mod TEST_SIZE s + 1" "rp = R (calls s + 1) mod TEST_SIZE s + 1" "s1 = s\<lparr>calls := calls s + 2\<rparr>"
  have T: "0 < TEST_SIZE s" "TEST_SIZE s < 128" using assms(2) t(1,5) by (auto simp: unfinished_def word_less_nat_alt)
  note parts = part_size [OF T, of "R (calls s)", folded d] part_size [OF T, of "R (calls s + 1)", folded d]
  have t1: "testing n s0 (rd, wr, s1)" "TEST_SIZE s1 = TEST_SIZE s" using assms(1) by (simp_all add: testing_def d)
  define written where "written = (if wr < TEST_SIZE s1 then do {
           (delta, ring) \<leftarrow> RingBufferWrite (drop (unat wr) (In s1)) (MIN_of wp (TEST_SIZE s1 - wr)) (Ring s1);
           ASSERT (delta \<le> wp);
           Some (wr + delta, s1\<lparr>Ring := ring\<rparr>) }
         else Some (wr, s1))"
  obtain wr' s2 where w: "written = Some (wr', s2)" "testing n s0 (rd, wr', s2)" "unat wr \<le> unat wr'"
    "wr < TEST_SIZE s \<Longrightarrow> unat wr - unat rd < n \<Longrightarrow> unat wr < unat wr'"
  proof (cases "wr < TEST_SIZE s1")
    case True
    from write_part [OF t1(1) True parts(1,2)] show ?thesis by (auto simp: written_def True intro: that)
  qed (use t1 in \<open>auto simp: written_def intro: that\<close>)
  note t2 = testingD [OF w(2)]
  show ?thesis
  proof (cases "rd < TEST_SIZE s2")
    case True
    then obtain bs ring where r: "RingBufferRead (MIN_of rp (TEST_SIZE s2 - rd)) (Ring s2) = Some (bs, ring)" "unat rd + length bs \<le> length (Out s2)"
        "of_nat (length bs) \<le> rp"
        "testing n s0 (rd + of_nat (length bs), wr', s2\<lparr>Ring := ring, Out := take (unat rd) (Out s2) @ bs @ drop (unat rd + length bs) (Out s2)\<rparr>)"
        "unat (rd + of_nat (length bs)) = unat rd + length bs" "unat rd < unat wr' \<longrightarrow> 0 < length bs"
      using read_part [OF w(2) True parts(3,4)] by blast
    have "unat rd < unat wr' \<or> unat wr < unat wr'"
    proof (cases "unat rd < unat wr")
      case False
      then have "rd = wr" using t(9) by (simp add: word_unat_eq_iff)
      then show ?thesis using w(4) True t2(1) t(1) assms(3) by simp
    qed (use w(3) in simp)
    then have "unat rd + unat wr < unat (rd + of_nat (length bs)) + unat wr'" using r(5,6) w(3) by (metis add_less_le_mono add_le_less_mono le_add1 less_add_same_cancel1)
    moreover have "TestRound R (rd, wr, s) = Some (rd + of_nat (length bs), wr',
        s2\<lparr>Ring := ring, Out := take (unat rd) (Out s2) @ bs @ drop (unat rd + length bs) (Out s2)\<rparr>)"
      using w(1) r(1-3) True unfolding written_def TestRound_def prod.case Let_def d [symmetric] by simp
    ultimately show ?thesis using r(4) by blast
  next
    case False
    then have "\<not> unfinished (rd, wr, s)" using t(1,9) t2(1) by (auto simp: unfinished_def word_less_nat_alt)
    with assms(2) show ?thesis by simp
  qed
qed

section \<open>The test\<close>

lemma TestLoop_ok:
  assumes "testing n s0 (rd, wr, s)" and "0 < n"
  shows "\<exists>s'. TestLoop R (rd, wr, s) = Some (TEST_SIZE s0, TEST_SIZE s0, s') \<and> testing n s0 (TEST_SIZE s0, TEST_SIZE s0, s')"
  using assms(1)
proof (induction "2 * unat (TEST_SIZE s0) - (unat rd + unat wr)" arbitrary: rd wr s rule: less_induct)
  case less
  note t = testingD [OF less.prems]
  show ?case
  proof (cases "unfinished (rd, wr, s)")
    case True
    from TestRound_ok [OF less.prems True assms(2), of R] obtain rd' wr' s' where
      r: "TestRound R (rd, wr, s) = Some (rd', wr', s')" "testing n s0 (rd', wr', s')" "unat rd + unat wr < unat rd' + unat wr'" by blast
    have "unat rd + unat wr < 2 * unat (TEST_SIZE s0)" using testingD(9,10) [OF r(2)] r(3) by linarith
    then have "2 * unat (TEST_SIZE s0) - (unat rd' + unat wr') < 2 * unat (TEST_SIZE s0) - (unat rd + unat wr)" using r(3) by linarith
    from less.hyps [OF this r(2)] show ?thesis using r(1) True by (simp add: TestLoop.simps [of R "(rd, wr, s)"])
  next
    case False
    then have "rd = TEST_SIZE s0" "wr = TEST_SIZE s0" using t(1,9,10) by (auto simp: unfinished_def word_less_nat_alt word_unat_eq_iff)
    moreover have "TestLoop R (rd, wr, s) = Some (rd, wr, s)" using False by (simp add: TestLoop.simps [of R "(rd, wr, s)"])
    ultimately show ?thesis using less.prems by simp
  qed
qed

lemma VerifyLoop_ok: "length (In s) = unat (TEST_SIZE s) \<Longrightarrow> Out s = In s \<Longrightarrow> VerifyLoop index s = Some 0"
proof (induction index s rule: VerifyLoop.induct)
  case (1 index s)
  show ?case
  proof (cases "index < TEST_SIZE s")
    case True
    then have "nth_opt (In s) index = Some (In s ! unat index)" using 1(2) by (simp add: nth_opt_def word_less_nat_alt)
    then show ?thesis using 1 True by (simp add: VerifyLoop.simps [of index s])
  qed (simp add: VerifyLoop.simps [of index s])
qed

lemma start_testing: "set_up s \<Longrightarrow> RING_SIZE s \<noteq> 0 \<Longrightarrow> testing (unat (RING_SIZE s)) s (0, 0, s)"
  by (auto simp: set_up_def testing_def RingBufferInit_def ring_ok_def contents_def word_less_nat_alt unat_gt_0 word_gt_0)

lemma Test_passes:
  assumes "set_up s" and "RING_SIZE s \<noteq> 0"
  shows "\<exists>s'. Test R s = Some (0, s')"
proof -
  have "0 < unat (RING_SIZE s)" using assms(2) by (simp add: unat_gt_0)
  from TestLoop_ok [OF start_testing [OF assms] this, of R] obtain s' where
    s': "TestLoop R (0, 0, s) = Some (TEST_SIZE s, TEST_SIZE s, s')" "testing (unat (RING_SIZE s)) s (TEST_SIZE s, TEST_SIZE s, s')" by blast
  note t = testingD [OF s'(2)]
  have "VerifyLoop 0 s' = Some 0" by (rule VerifyLoop_ok) (use t(1-4,12) in simp_all)
  then show ?thesis using s'(1) t(1) by (simp add: Test_def)
qed

text \<open>A ring of size 0 accepts nothing and delivers nothing.\<close>

abbreviation no_ring :: RING_BUFFER where "no_ring \<equiv> RingBufferInit [] 0"

lemma no_ring_write: "0 < k \<Longrightarrow> RingBufferWrite bs k no_ring = Some (0, no_ring\<lparr>rb_Empty := False\<rparr>)"
  by (simp add: RingBufferWrite_def RingBufferInit_def RingBufferWriteLoop.simps RingBufferIsFull_def RingBufferWriteSmall_def RingCopyIn.simps Let_def)

lemma no_ring_read: "0 < k \<Longrightarrow> RingBufferRead k (no_ring\<lparr>rb_Empty := False\<rparr>) = Some ([], no_ring)"
  by (simp add: RingBufferRead_def RingBufferInit_def RingBufferReadLoop.simps RingBufferIsEmpty_def RingBufferReadSmall_def RingCopyOut.simps Let_def)

lemma no_ring_round:
  assumes "Ring s = no_ring" and "0 < TEST_SIZE s" "TEST_SIZE s < 128"
  shows "TestRound R (0, 0, s) = Some (0, 0, s\<lparr>calls := calls s + 2\<rparr>)"
proof -
  have "0 < MIN_of (x mod TEST_SIZE s + 1) (TEST_SIZE s)" for x
    using part_size(1) [OF assms(2,3), of x] assms(2) by (simp add: word_less_nat_alt unat_MIN_of)
  note k = no_ring_write [OF this] no_ring_read [OF this]
  show ?thesis using assms(1,2) by (simp add: TestRound_def Let_def k)
qed

text \<open>Rounds of the loop, as many as given.\<close>

primrec test_rounds :: "nat \<Rightarrow> randoms \<Rightarrow> INDEX \<times> INDEX \<times> ring_test \<Rightarrow> (INDEX \<times> INDEX \<times> ring_test) option" where
  "test_rounds 0 R st = Some st"
| "test_rounds (Suc k) R st = (if unfinished st then Option.bind (TestRound R st) (test_rounds k R) else Some st)"

lemma TestLoop_rounds:
  assumes "TestLoop R st = Some st'"
  shows "\<exists>k. test_rounds k R st = Some st' \<and> \<not> unfinished st'"
proof (rule TestLoop.raw_induct [OF _ assms])
  fix loop R st st'
  assume IH: "\<And>R st st'. loop R st = Some st' \<Longrightarrow> \<exists>k. test_rounds k R st = Some st' \<and> \<not> unfinished st'"
    and body: "(if unfinished st then Option.bind (TestRound R st) (loop R) else Some st) = Some st'"
  show "\<exists>k. test_rounds k R st = Some st' \<and> \<not> unfinished st'"
  proof (cases "unfinished st")
    case True
    then obtain st1 where st1: "TestRound R st = Some st1" "loop R st1 = Some st'" using body by (auto simp: bind_Some_iff split: if_splits)
    then obtain k where "test_rounds k R st1 = Some st'" "\<not> unfinished st'" using IH by blast
    then have "test_rounds (Suc k) R st = Some st'" using st1 True by simp
    then show ?thesis using \<open>\<not> unfinished st'\<close> by blast
  next
    case False
    then have "test_rounds 0 R st = Some st'" using body by simp
    then show ?thesis using False by fastforce
  qed
qed

lemma no_ring_rounds:
  assumes "Ring s = no_ring" and "0 < TEST_SIZE s" "TEST_SIZE s < 128"
  shows "test_rounds k R (0, 0, s) = Some (0, 0, s\<lparr>calls := calls s + 2 * k\<rparr>)"
  using assms
proof (induction k arbitrary: s)
  case (Suc k)
  then show ?case using no_ring_round [OF Suc.prems, of R] Suc.IH [of "s\<lparr>calls := calls s + 2\<rparr>"] by (simp add: unfinished_def)
qed simp

section \<open>Properties\<close>

text \<open>
  (C30) Whatever numbers \<^verbatim>\<open>rand\<close> returns and whatever the allocated memory holds, a round of the ring test ends without a failed assertion
  and finds that the text read is the text written, unless the random size of the ring is 0 and there is a text to send:
  then the test never ends, because such a ring takes no byte and delivers none in any number of rounds.
\<close>

theorem ring_test_passes:
  "\<exists>s. InitBuffers R garbage s0 = Some s \<and>
     (if RING_SIZE s = 0 \<and> TEST_SIZE s \<noteq> 0
      then Test R s = None \<and> (\<forall>k. \<exists>s'. test_rounds k R (0, 0, s) = Some (0, 0, s') \<and> unfinished (0, 0, s'))
      else \<exists>s'. Test R s = Some (0, s'))"
proof -
  obtain s where s: "InitBuffers R garbage s0 = Some s" "set_up s" using InitBuffers_set_up by blast
  consider "RING_SIZE s \<noteq> 0" | "RING_SIZE s = 0" "TEST_SIZE s = 0" | "RING_SIZE s = 0" "0 < TEST_SIZE s" by (auto simp: word_gt_0)
  then show ?thesis
  proof cases
    case 1
    then show ?thesis using s Test_passes [OF s(2)] by auto
  next
    case 2
    then have "Test R s = Some (0, s)" by (simp add: Test_def TestLoop.simps unfinished_def VerifyLoop.simps)
    then show ?thesis using s 2 by auto
  next
    case 3
    then have "Ring s = no_ring" "TEST_SIZE s < 128" using s(2) by (auto simp: set_up_def)
    note rounds = no_ring_rounds [OF this(1) 3(2) this(2), of _ R]
    have "TestLoop R (0, 0, s) = None"
    proof (rule ccontr)
      assume "TestLoop R (0, 0, s) \<noteq> None"
      then obtain k st where "test_rounds k R (0, 0, s) = Some st" "\<not> unfinished st" using TestLoop_rounds by blast
      then show False using rounds [of k] 3(2) by (auto simp: unfinished_def)
    qed
    then show ?thesis using s(1) 3 rounds by (auto simp: Test_def unfinished_def)
  qed
qed

end
