(* ===== verification/Bitmap.thy ===== *)
theory Bitmap
  imports KP_Prelude
begin

unbundle bit_operations_syntax

text \<open>
  The multi-word bitmaps of \<^verbatim>\<open>src/utils/bitmap.h\<close> and \<^verbatim>\<open>src/utils/bitmap.c\<close>. A map is
  an array of \<^verbatim>\<open>int\<close> words; an access outside the array is \<open>None\<close>. The maze map and the
  signal bookkeeping of the host build are bitmaps.
\<close>

section \<open>Operations\<close>

type_synonym BITMAP_WORD = "32 word"
type_synonym bitmap = "BITMAP_WORD list"

abbreviation BitmapWordSize :: COUNT where
  "BitmapWordSize \<equiv> 32"

definition BitmapIndex :: "INDEX \<Rightarrow> INDEX" where
  "BitmapIndex i = i div BitmapWordSize"

definition BitmapOffset :: "INDEX \<Rightarrow> INDEX" where
  "BitmapOffset i = i mod BitmapWordSize"

definition BitmapGenerateMask :: "INDEX \<Rightarrow> BITMAP_WORD" where
  "BitmapGenerateMask off = push_bit (unat off) 1"

definition BitmapSize :: "COUNT \<Rightarrow> COUNT" where
  "BitmapSize n = n div BitmapWordSize + (if n mod BitmapWordSize \<noteq> 0 then 1 else 0)"

definition word_at :: "bitmap \<Rightarrow> INDEX \<Rightarrow> BITMAP_WORD option" where
  "word_at m i = (if unat i < length m then Some (m ! unat i) else None)"

definition word_put :: "bitmap \<Rightarrow> INDEX \<Rightarrow> BITMAP_WORD \<Rightarrow> bitmap option" where
  "word_put m i w = (if unat i < length m then Some (m[unat i := w]) else None)"

definition BitmapGet :: "bitmap \<Rightarrow> INDEX \<Rightarrow> bool option" where
  "BitmapGet m i =
     do { w \<leftarrow> word_at m (BitmapIndex i); Some (w AND BitmapGenerateMask (BitmapOffset i) \<noteq> 0) }"

definition BitmapOn :: "bitmap \<Rightarrow> INDEX \<Rightarrow> bitmap option" where
  "BitmapOn m i =
     do { w \<leftarrow> word_at m (BitmapIndex i);
          word_put m (BitmapIndex i) (w OR BitmapGenerateMask (BitmapOffset i)) }"

definition BitmapOff :: "bitmap \<Rightarrow> INDEX \<Rightarrow> bitmap option" where
  "BitmapOff m i =
     do { w \<leftarrow> word_at m (BitmapIndex i);
          word_put m (BitmapIndex i) (w AND NOT (BitmapGenerateMask (BitmapOffset i))) }"

definition BitmapToggle :: "bitmap \<Rightarrow> INDEX \<Rightarrow> bitmap option" where
  "BitmapToggle m i =
     do { w \<leftarrow> word_at m (BitmapIndex i);
          word_put m (BitmapIndex i) (w XOR BitmapGenerateMask (BitmapOffset i)) }"

text \<open>The loops run an index up to a bound.\<close>

lemma up_to_bound: "cur < e \<Longrightarrow> unat e - unat (cur + 1) < unat e - unat cur" for cur e :: INDEX
proof -
  assume lt: "cur < e"
  then have "unat cur + 1 \<le> unat e" by (simp add: word_less_nat_alt)
  moreover have "unat (cur + 1) = unat cur + 1"
    by (rule unat_Suc_word) (use calculation unat_less_64 [of e] in simp)
  ultimately show ?thesis by linarith
qed

function BitmapClearLoop :: "INDEX \<Rightarrow> INDEX \<Rightarrow> bitmap \<Rightarrow> bitmap option" where
  "BitmapClearLoop cur end m =
     (if cur < end then do { m \<leftarrow> word_put m cur 0; BitmapClearLoop (cur + 1) end m } else Some m)"
  by pat_completeness auto
termination
  by (relation "measure (\<lambda>(cur, e, m). unat e - unat cur)") (auto simp: up_to_bound)

definition BitmapClear :: "bitmap \<Rightarrow> COUNT \<Rightarrow> bitmap option" where
  "BitmapClear m numBits = BitmapClearLoop 0 (BitmapSize numBits) m"

function BitmapScanWord :: "bitmap \<Rightarrow> INDEX \<Rightarrow> INDEX \<Rightarrow> INDEX option" where
  "BitmapScanWord m index offset =
     (if offset < BitmapWordSize then
        do { b \<leftarrow> BitmapGet m (index * BitmapWordSize + offset);
             if b then Some (index * BitmapWordSize + offset)
             else BitmapScanWord m index (offset + 1) }
      else Some (- 2))"
  by pat_completeness auto
termination
proof (relation "measure (\<lambda>(m, index, offset). unat BitmapWordSize - unat offset)", goal_cases)
  case (2 m index offset x)
  show ?case using up_to_bound [OF 2(1)] by (simp only: in_measure prod.case)
qed simp

function BitmapScan :: "bitmap \<Rightarrow> INDEX \<Rightarrow> INDEX \<Rightarrow> INDEX option" where
  "BitmapScan m index end =
     (if index < end then
        do { w \<leftarrow> word_at m index;
             if w \<noteq> 0 then BitmapScanWord m index 0 else BitmapScan m (index + 1) end }
      else Some (- 1))"
  by pat_completeness auto
termination
  by (relation "measure (\<lambda>(m, index, e). unat e - unat index)") (auto simp: up_to_bound)

definition BitmapGetFirstFlag :: "bitmap \<Rightarrow> COUNT \<Rightarrow> INDEX option" where
  "BitmapGetFirstFlag m numBits = BitmapScan m 0 (BitmapSize numBits)"

text \<open>\<^verbatim>\<open>BitmapPrint\<close>, as the text it prints.\<close>

function BitmapPrintLoop :: "INDEX \<Rightarrow> bitmap \<Rightarrow> COUNT \<Rightarrow> string option" where
  "BitmapPrintLoop count m numBits =
     (if count < numBits then
        do { b \<leftarrow> BitmapGet m count; s \<leftarrow> BitmapPrintLoop (count + 1) m numBits;
             Some ((if b then CHR ''+'' else CHR ''-'') # s) }
      else Some [])"
  by pat_completeness auto
termination
  by (relation "measure (\<lambda>(count, m, n). unat n - unat count)") (auto simp: up_to_bound)

definition BitmapPrint :: "bitmap \<Rightarrow> COUNT \<Rightarrow> string option" where
  "BitmapPrint m numBits = do { s \<leftarrow> BitmapPrintLoop 0 m numBits; Some (''|'' @ s @ ''|\<newline>'') }"

declare BitmapClearLoop.simps [simp del] BitmapScanWord.simps [simp del] BitmapScan.simps [simp del]
  BitmapPrintLoop.simps [simp del]

section \<open>A bitmap as a set of positions\<close>

definition bit_of :: "bitmap \<Rightarrow> nat \<Rightarrow> bool" where
  "bit_of m i = bit (m ! (i div 32)) (i mod 32)"

definition inside :: "bitmap \<Rightarrow> INDEX \<Rightarrow> bool" where
  "inside m i \<longleftrightarrow> unat i div 32 < length m"

lemma BitmapIndex_unat [simp]: "unat (BitmapIndex i) = unat i div 32"
  by (simp add: BitmapIndex_def unat_div)

lemma BitmapOffset_unat [simp]: "unat (BitmapOffset i) = unat i mod 32"
  by (simp add: BitmapOffset_def unat_mod)

lemma bit_mask: "bit (BitmapGenerateMask (BitmapOffset i)) n \<longleftrightarrow> n = unat i mod 32"
  by (auto simp: BitmapGenerateMask_def bit_simps)

lemma BitmapGet_bit:
  assumes "inside m i"
  shows "BitmapGet m i = Some (bit_of m (unat i))"
proof -
  have "BitmapGenerateMask (BitmapOffset i) = 2 ^ (unat i mod 32)"
    by (simp add: BitmapGenerateMask_def)
  moreover have "w AND 2 ^ (unat i mod 32) \<noteq> 0 \<longleftrightarrow> bit w (unat i mod 32)" for w :: BITMAP_WORD
    by (simp add: and_exp_eq_0_iff_not_bit)
  ultimately show ?thesis
    using assms by (simp add: BitmapGet_def word_at_def inside_def bit_of_def)
qed

lemma bit_of_update:
  assumes "inside m i"
  shows "bit_of (m[unat i div 32 := w]) j =
     (if j div 32 = unat i div 32 then bit w (j mod 32) else bit_of m j)"
  using assms by (auto simp: bit_of_def inside_def nth_list_update)

lemma same_position: "j div 32 = i div 32 \<Longrightarrow> j mod 32 = i mod 32 \<longleftrightarrow> j = (i :: nat)"
  by (metis div_mult_mod_eq)

lemma bitmap_update:
  assumes "inside m i" and "\<And>w n. n < 32 \<Longrightarrow> bit (f w (BitmapGenerateMask (BitmapOffset i))) n =
      (if n = unat i mod 32 then g (bit w n) else bit w n)"
  shows "\<exists>m'. do { w \<leftarrow> word_at m (BitmapIndex i);
          word_put m (BitmapIndex i) (f w (BitmapGenerateMask (BitmapOffset i))) } = Some m' \<and>
     length m' = length m \<and>
     (\<forall>j. bit_of m' j = (if j = unat i then g (bit_of m j) else bit_of m j))"
proof -
  let ?w = "f (m ! (unat i div 32)) (BitmapGenerateMask (BitmapOffset i))"
  let ?m = "m[unat i div 32 := ?w]"
  have "bit_of ?m j = (if j = unat i then g (bit_of m j) else bit_of m j)" for j
  proof (cases "j div 32 = unat i div 32")
    case True
    have "bit_of ?m j = bit ?w (j mod 32)" by (simp add: bit_of_update [OF assms(1)] True)
    then show ?thesis
      using assms(2) [of "j mod 32" "m ! (unat i div 32)"] same_position [OF True] True
      by (simp add: bit_of_def)
  next
    case False
    then show ?thesis by (auto simp: bit_of_update [OF assms(1)])
  qed
  moreover have "unat i div 32 < length m" using assms(1) by (simp add: inside_def)
  ultimately show ?thesis by (simp add: word_at_def word_put_def)
qed

lemma BitmapOn_bits:
  "inside m i \<Longrightarrow> \<exists>m'. BitmapOn m i = Some m' \<and> length m' = length m \<and>
     (\<forall>k. bit_of m' k = (if k = unat i then True else bit_of m k))"
  unfolding BitmapOn_def
  by (rule bitmap_update [of m i "(OR)" "\<lambda>_. True"]) (simp_all add: bit_simps bit_mask)

lemma BitmapOff_bits:
  "inside m i \<Longrightarrow> \<exists>m'. BitmapOff m i = Some m' \<and> length m' = length m \<and>
     (\<forall>k. bit_of m' k = (if k = unat i then False else bit_of m k))"
  unfolding BitmapOff_def
  by (rule bitmap_update [of m i "\<lambda>a b. a AND NOT b" "\<lambda>_. False"]) (simp_all add: bit_simps bit_mask)

lemma BitmapToggle_bits:
  "inside m i \<Longrightarrow> \<exists>m'. BitmapToggle m i = Some m' \<and> length m' = length m \<and>
     (\<forall>k. bit_of m' k = (if k = unat i then \<not> bit_of m k else bit_of m k))"
  unfolding BitmapToggle_def
  by (rule bitmap_update [of m i "(XOR)" Not]) (simp_all add: bit_simps bit_mask)

section \<open>Clearing and scanning\<close>

lemma round_up_words: "(x + 31) div 32 = x div 32 + (if x mod 32 = 0 then 0 else 1)" for x :: nat
proof -
  have key: "(q * 32 + r + 31) div 32 = q + (if r = 0 then 0 else 1)" if "r < 32" for q r :: nat
    by (rule div_nat_eqI) (use that in auto)
  show ?thesis using key [of "x mod 32" "x div 32"] by simp
qed

lemma BitmapSize_unat: "unat (BitmapSize n) = (unat n + 31) div 32"
proof -
  have "unat n div 32 < 2 ^ 59" using unat_less_64 [of n] by simp
  then have "unat (n div 32 + 1) = unat n div 32 + 1"
    by (subst unat_Suc_word) (simp_all add: unat_div)
  moreover have "n mod 32 = 0 \<longleftrightarrow> unat n mod 32 = 0" by (simp add: unat_eq_0 [symmetric] unat_mod)
  moreover have "(unat n + 31) div 32 = unat n div 32 + (if unat n mod 32 = 0 then 0 else 1)"
    by (rule round_up_words)
  ultimately show ?thesis by (simp add: BitmapSize_def unat_div)
qed

lemma BitmapClearLoop_words:
  "unat e \<le> length m \<Longrightarrow> \<exists>m'. BitmapClearLoop cur e m = Some m' \<and> length m' = length m \<and>
     (\<forall>k. m' ! k = (if unat cur \<le> k \<and> k < unat e then 0 else m ! k))"
proof (induction cur e m rule: BitmapClearLoop.induct)
  case (1 cur e m)
  show ?case
  proof (cases "cur < e")
    case True
    then have lt: "unat cur < unat e" by (simp add: word_less_nat_alt)
    have s: "unat (cur + 1) = unat cur + 1"
      by (rule unat_Suc_word) (use lt unat_less_64 [of e] in simp)
    have put: "word_put m cur 0 = Some (m[unat cur := 0])"
      using lt 1(2) by (simp add: word_put_def)
    obtain m' where m': "BitmapClearLoop (cur + 1) e (m[unat cur := 0]) = Some m'" "length m' = length m"
      "\<forall>k. m' ! k = (if unat cur + 1 \<le> k \<and> k < unat e then 0 else m[unat cur := 0] ! k)"
      using 1(1) [OF True put] 1(2) s by auto
    have "m' ! k = (if unat cur \<le> k \<and> k < unat e then 0 else m ! k)" for k
      using m'(3) [rule_format, of k] lt 1(2) by (cases "k = unat cur") simp_all
    then show ?thesis
      using m'(1,2) put True by (subst BitmapClearLoop.simps) simp
  next
    case False
    then show ?thesis by (subst BitmapClearLoop.simps) (auto simp: word_less_nat_alt)
  qed
qed

lemma position_unat:
  assumes "unat (index :: INDEX) < 2 ^ 59" and "unat (offset :: INDEX) < 32"
  shows "unat (index * BitmapWordSize + offset) = unat index * 32 + unat offset"
  using assms by (simp add: unat_word_ariths)

lemma BitmapScanWord_first:
  assumes "unat index < length m" and "length m < 2 ^ 59"
  shows "unat offset \<le> 32 \<Longrightarrow> \<exists>n. bit (m ! unat index) n \<and> unat offset \<le> n \<Longrightarrow>
     \<exists>i. BitmapScanWord m index offset = Some i \<and> unat i div 32 = unat index \<and> bit_of m (unat i) \<and>
       (\<forall>n. unat offset \<le> n \<longrightarrow> n < unat i mod 32 \<longrightarrow> \<not> bit (m ! unat index) n)"
proof (induction "32 - unat offset" arbitrary: offset rule: less_induct)
  case less
  then obtain n where n: "bit (m ! unat index) n" "unat offset \<le> n" by blast
  then have "n < 32" using bit_imp_le_length [of "m ! unat index" n] by simp
  then have lt: "unat offset < 32" using n(2) by simp
  have u: "unat (index * BitmapWordSize + offset) = unat index * 32 + unat offset"
    by (rule position_unat) (use assms lt in linarith)+
  have d: "(unat index * 32 + unat offset) div 32 = unat index"
      "(unat index * 32 + unat offset) mod 32 = unat offset" using lt by simp_all
  have get: "BitmapGet m (index * BitmapWordSize + offset) = Some (bit (m ! unat index) (unat offset))"
    using BitmapGet_bit [of m "index * BitmapWordSize + offset"] assms(1) lt
    by (simp add: inside_def u d bit_of_def)
  have off: "offset < BitmapWordSize" using lt by (simp add: word_less_nat_alt)
  have s: "unat (offset + 1) = unat offset + 1" by (rule unat_Suc_word) (use lt in simp)
  show ?case
  proof (cases "bit (m ! unat index) (unat offset)")
    case True
    then have "BitmapScanWord m index offset = Some (index * BitmapWordSize + offset)"
      using off get by (subst BitmapScanWord.simps) simp
    then show ?thesis using True lt by (simp add: u d bit_of_def)
  next
    case False
    have fewer: "32 - unat (offset + 1) < 32 - unat offset" using lt s by simp
    from False have "\<exists>n. bit (m ! unat index) n \<and> unat (offset + 1) \<le> n"
      using n s by (metis Suc_eq_plus1 Suc_leI le_neq_implies_less)
    then obtain i where i: "BitmapScanWord m index (offset + 1) = Some i" "unat i div 32 = unat index"
        "bit_of m (unat i)"
        "\<forall>n. unat offset + 1 \<le> n \<longrightarrow> n < unat i mod 32 \<longrightarrow> \<not> bit (m ! unat index) n"
      using less.hyps [OF fewer] lt unfolding s by (auto simp: Suc_le_eq)
    moreover have "BitmapScanWord m index offset = BitmapScanWord m index (offset + 1)"
      using off get False by (subst BitmapScanWord.simps) simp
    ultimately show ?thesis using False by (metis Suc_eq_plus1 Suc_leI le_neq_implies_less)
  qed
qed

definition first_in :: "bitmap \<Rightarrow> nat \<Rightarrow> nat \<Rightarrow> nat \<Rightarrow> bool" where
  "first_in m a b i \<longleftrightarrow> a \<le> i \<and> i < b \<and> bit_of m i \<and> (\<forall>k. a \<le> k \<longrightarrow> k < i \<longrightarrow> \<not> bit_of m k)"

lemma bit_of_zero_word: "m ! (k div 32) = 0 \<Longrightarrow> \<not> bit_of m k"
  by (simp add: bit_of_def)

lemma BitmapScan_first:
  assumes "length m < 2 ^ 59" and "unat e \<le> length m"
  shows "\<exists>i. BitmapScan m index e = Some i \<and>
     (first_in m (unat index * 32) (unat e * 32) (unat i) \<or>
      i = - 1 \<and> (\<forall>k. unat index * 32 \<le> k \<longrightarrow> k < unat e * 32 \<longrightarrow> \<not> bit_of m k))"
proof (induction "unat e - unat index" arbitrary: index rule: less_induct)
  case less
  show ?case
  proof (cases "index < e")
    case False
    then show ?thesis by (subst BitmapScan.simps) (auto simp: word_less_nat_alt)
  next
    case True
    then have lt: "unat index < unat e" by (simp add: word_less_nat_alt)
    have inm: "unat index < length m" using lt assms(2) by simp
    then have w: "word_at m index = Some (m ! unat index)" by (simp add: word_at_def)
    have s: "unat (index + 1) = unat index + 1"
      by (rule unat_Suc_word) (use lt unat_less_64 [of e] in simp)
    show ?thesis
    proof (cases "m ! unat index = 0")
      case zero: True
      obtain i where i: "BitmapScan m (index + 1) e = Some i"
         "first_in m (unat index * 32 + 32) (unat e * 32) (unat i) \<or>
          i = - 1 \<and> (\<forall>k. unat index * 32 + 32 \<le> k \<longrightarrow> k < unat e * 32 \<longrightarrow> \<not> bit_of m k)"
        using less.hyps [OF up_to_bound [OF True]] unfolding s by (auto simp: add.commute)
      have clear: "\<not> bit_of m k" if "unat index * 32 \<le> k" "k < unat index * 32 + 32" for k
      proof (rule bit_of_zero_word)
        have "k div 32 = unat index" using that by simp
        then show "m ! (k div 32) = 0" using zero by simp
      qed
      have "BitmapScan m index e = Some i"
        using True w zero i(1) by (subst BitmapScan.simps) simp
      with i(2) clear show ?thesis
        unfolding first_in_def by (metis add_leD1 linorder_not_less)
    next
      case False
      have "\<exists>n. bit (m ! unat index) n \<and> unat (0 :: INDEX) \<le> n"
        using False bit_eqI [of "m ! unat index" 0] by (auto simp: bit_simps)
      then obtain i where i: "BitmapScanWord m index 0 = Some i" "unat i div 32 = unat index"
          "bit_of m (unat i)" "\<forall>n. n < unat i mod 32 \<longrightarrow> \<not> bit (m ! unat index) n"
        using BitmapScanWord_first [OF inm assms(1), of 0] by auto
      have "first_in m (unat index * 32) (unat e * 32) (unat i)"
        unfolding first_in_def
      proof (intro conjI allI impI)
        show "unat index * 32 \<le> unat i" "unat i < unat e * 32" using i(2) lt by linarith+
        show "bit_of m (unat i)" by (rule i(3))
        fix k assume k: "unat index * 32 \<le> k" "k < unat i"
        then have kd: "k div 32 = unat index" using i(2) by linarith
        have "k = unat index * 32 + k mod 32" "unat i = unat index * 32 + unat i mod 32"
          using kd i(2) by (metis div_mult_mod_eq)+
        then have "k mod 32 < unat i mod 32" using k(2) by linarith
        then show "\<not> bit_of m k" using i(4) kd by (simp add: bit_of_def)
      qed
      moreover have "BitmapScan m index e = Some i"
        using True w False i(1) by (subst BitmapScan.simps) simp
      ultimately show ?thesis by blast
    qed
  qed
qed

section \<open>Properties\<close>

text \<open>Setting, clearing and toggling a bit inside the map changes that bit as named and no
  other bit, and \<^verbatim>\<open>BitmapGet\<close> reads the bit back.\<close>

theorem bitmap_get_set:
  assumes "inside m i" and "inside m j"
  shows "(\<exists>m'. BitmapOn m i = Some m' \<and> length m' = length m \<and>
       BitmapGet m' j = (if j = i then Some True else BitmapGet m j)) \<and>
     (\<exists>m'. BitmapOff m i = Some m' \<and> length m' = length m \<and>
       BitmapGet m' j = (if j = i then Some False else BitmapGet m j)) \<and>
     (\<exists>m'. BitmapToggle m i = Some m' \<and> length m' = length m \<and>
       BitmapGet m' j = (if j = i then map_option Not (BitmapGet m j) else BitmapGet m j))"
proof -
  have get: "BitmapGet m' j = Some (bit_of m' (unat j))" if "length m' = length m" for m'
    using BitmapGet_bit [of m' j] assms(2) that by (simp add: inside_def)
  have ij: "j = i \<longleftrightarrow> unat j = unat i" by (simp add: word_unat_eq_iff)
  from BitmapOn_bits [OF assms(1)] BitmapOff_bits [OF assms(1)] BitmapToggle_bits [OF assms(1)]
  show ?thesis using get [OF refl] by (auto simp: get ij)
qed

theorem bitmap_get_set_witness:
  "(\<exists>m'. BitmapOn [0, 5] 33 = Some m' \<and> length m' = length [0, 5 :: BITMAP_WORD] \<and>
       BitmapGet m' 33 = (if (33 :: INDEX) = 33 then Some True else BitmapGet [0, 5] 33)) \<and>
     (\<exists>m'. BitmapOff [0, 5] 33 = Some m' \<and> length m' = length [0, 5 :: BITMAP_WORD] \<and>
       BitmapGet m' 33 = (if (33 :: INDEX) = 33 then Some False else BitmapGet [0, 5] 33)) \<and>
     (\<exists>m'. BitmapToggle [0, 5] 33 = Some m' \<and> length m' = length [0, 5 :: BITMAP_WORD] \<and>
       BitmapGet m' 33 = (if (33 :: INDEX) = 33 then map_option Not (BitmapGet [0, 5] 33) else BitmapGet [0, 5] 33))"
  by (rule bitmap_get_set) (simp_all add: inside_def)

text \<open>\<^verbatim>\<open>BitmapGetFirstFlag\<close> returns the position of the lowest bit that is set in the
  words that hold the first \<^verbatim>\<open>numBits\<close> bits, and \<^verbatim>\<open>-1\<close> exactly when there is none;
  the inner loop's \<^verbatim>\<open>-2\<close> exit is never taken.\<close>

theorem bitmap_first_flag:
  assumes "length m < 2 ^ 59" and "unat (BitmapSize n) \<le> length m"
  shows "\<exists>i. BitmapGetFirstFlag m n = Some i \<and>
     (i = - 1 \<and> (\<forall>k < unat (BitmapSize n) * 32. \<not> bit_of m k) \<or>
      unat i < unat (BitmapSize n) * 32 \<and> bit_of m (unat i) \<and> (\<forall>k < unat i. \<not> bit_of m k))"
  using BitmapScan_first [OF assms, of 0] by (auto simp: BitmapGetFirstFlag_def first_in_def)

theorem bitmap_first_flag_witness:
  "\<exists>i. BitmapGetFirstFlag [0, 4] 40 = Some i \<and>
     (i = - 1 \<and> (\<forall>k < unat (BitmapSize 40) * 32. \<not> bit_of [0, 4] k) \<or>
      unat i < unat (BitmapSize 40) * 32 \<and> bit_of [0, 4] (unat i) \<and> (\<forall>k < unat i. \<not> bit_of [0, 4] k))"
  by (rule bitmap_first_flag) (simp_all add: BitmapSize_unat)

text \<open>\<^verbatim>\<open>BitmapClear\<close> makes every one of the first \<^verbatim>\<open>numBits\<close> bits read as zero and
  leaves the words behind them alone.\<close>

theorem bitmap_clear:
  assumes "unat (BitmapSize n) \<le> length m"
  shows "\<exists>m'. BitmapClear m n = Some m' \<and> length m' = length m \<and>
     (\<forall>i. i < n \<longrightarrow> BitmapGet m' i = Some False) \<and>
     (\<forall>k \<ge> unat (BitmapSize n). m' ! k = m ! k)"
proof -
  obtain m' where m': "BitmapClear m n = Some m'" "length m' = length m"
      "\<forall>k. m' ! k = (if k < unat (BitmapSize n) then 0 else m ! k)"
    using BitmapClearLoop_words [OF assms, of 0] by (auto simp: BitmapClear_def)
  have "BitmapGet m' i = Some False" if "i < n" for i
  proof -
    have "unat i < unat n" using that by (simp add: word_less_nat_alt)
    then have "unat i div 32 < unat (BitmapSize n)"
      using div_le_mono [of "unat i + 1 + 31" "unat n + 31" 32] by (simp add: BitmapSize_unat)
    then show ?thesis
      using BitmapGet_bit [of m' i] m'(2,3) assms by (simp add: inside_def bit_of_def)
  qed
  with m' show ?thesis by auto
qed

theorem bitmap_clear_witness:
  "\<exists>m'. BitmapClear [7, 7] 5 = Some m' \<and> length m' = length [7, 7 :: BITMAP_WORD] \<and>
     (\<forall>i. i < 5 \<longrightarrow> BitmapGet m' i = Some False) \<and>
     (\<forall>k \<ge> unat (BitmapSize 5). m' ! k = [7, 7] ! k)"
  by (rule bitmap_clear) (simp add: BitmapSize_unat)

end
