(* ===== verification/Counters.thy ===== *)
theory Counters
  imports KP_Prelude
begin

text \<open>
  The event counters of \<^verbatim>\<open>src/utils/counter.c\<close>, the signal generator of
  \<^verbatim>\<open>src/utils/bham.c\<close> and the prime search of \<^verbatim>\<open>src/utils/primes.c\<close>. Counters wrap
  at the width of \<^verbatim>\<open>COUNT\<close>; the accumulator of the signal generator is a 32-bit
  \<^verbatim>\<open>int\<close>.
\<close>

section \<open>Event counters\<close>

record COUNTER =
  c_val :: COUNT

record COUNTER_CONTEXT =
  cc_val :: COUNT

definition CounterInit :: "COUNTER \<Rightarrow> COUNTER" where
  "CounterInit c = c\<lparr>c_val := 0\<rparr>"

definition CounterContextInit :: "COUNTER \<Rightarrow> COUNTER_CONTEXT \<Rightarrow> COUNTER_CONTEXT" where
  "CounterContextInit c ctx = ctx\<lparr>cc_val := c_val c\<rparr>"

definition CounterCheck :: "COUNTER \<Rightarrow> COUNTER_CONTEXT \<Rightarrow> COUNT \<times> COUNTER_CONTEXT" where
  "CounterCheck c ctx =
     (let old = cc_val ctx; ctx = ctx\<lparr>cc_val := c_val c\<rparr> in (cc_val ctx - old, ctx))"

definition CounterAdd :: "COUNTER \<Rightarrow> COUNT \<Rightarrow> COUNTER" where
  "CounterAdd c diff = c\<lparr>c_val := c_val c + diff\<rparr>"

text \<open>A run of additions and checks; it returns the results of the checks.\<close>

datatype counter_call = Add COUNT | Check

fun counter_run :: "counter_call list \<Rightarrow> COUNTER \<Rightarrow> COUNTER_CONTEXT \<Rightarrow> COUNT list \<times> COUNTER \<times> COUNTER_CONTEXT" where
  "counter_run [] c ctx = ([], c, ctx)"
| "counter_run (Add d # ops) c ctx = counter_run ops (CounterAdd c d) ctx"
| "counter_run (Check # ops) c ctx =
     (let (n, ctx) = CounterCheck c ctx; (ns, r) = counter_run ops c ctx in (n # ns, r))"

fun added :: "counter_call list \<Rightarrow> nat" where
  "added [] = 0"
| "added (Add d # ops) = unat d + added ops"
| "added (Check # ops) = added ops"

lemma counter_run_val:
  "counter_run ops c ctx = (ns, c', ctx') \<Longrightarrow> c_val c' = c_val c + of_nat (added ops)"
proof (induction ops arbitrary: c ctx ns)
  case (Cons op ops)
  then show ?case
    by (cases op) (fastforce simp: CounterAdd_def CounterCheck_def Let_def split: prod.splits)+
qed simp

lemma counter_run_sum:
  "counter_run ops c ctx = (ns, c', ctx') \<Longrightarrow>
   sum_list ns + (c_val c' - cc_val ctx') = (c_val c - cc_val ctx) + of_nat (added ops)"
proof (induction ops arbitrary: c ctx ns)
  case (Cons op ops)
  show ?case
  proof (cases op)
    case (Add d)
    with Cons.IH [of "CounterAdd c d" ctx ns] Cons.prems show ?thesis
      by (simp add: CounterAdd_def algebra_simps)
  next
    case Check
    obtain ns' where r: "counter_run ops c (ctx\<lparr>cc_val := c_val c\<rparr>) = (ns', c', ctx')"
        "ns = (c_val c - cc_val ctx) # ns'"
      using Cons.prems Check by (auto simp: CounterCheck_def Let_def split: prod.splits)
    with Cons.IH [OF r(1)] Check show ?thesis by (simp add: algebra_simps)
  qed
qed simp

section \<open>Signals at a fraction of the ticks\<close>

record BHAM =
  bh_X :: COUNT
  bh_Y :: COUNT
  bh_Error :: "32 word"

text \<open>\<^verbatim>\<open>Error\<close> is an \<^verbatim>\<open>int\<close>: a sum with a \<^verbatim>\<open>COUNT\<close> is computed in the
  wider unsigned type and truncated when it is stored.\<close>

definition BHamInit :: "COUNT \<Rightarrow> COUNT \<Rightarrow> BHAM \<Rightarrow> BHAM option" where
  "BHamInit x y bham =
     do {
       ASSERT (x \<ge> y);
       let bham = bham\<lparr>bh_X := x, bh_Y := y\<rparr>;
       Some (bham\<lparr>bh_Error := ucast (- bh_X bham)\<rparr>)
     }"

definition BHamTick :: "BHAM \<Rightarrow> bool \<times> BHAM" where
  "BHamTick bham =
     (let bham = bham\<lparr>bh_Error := ucast (scast (bh_Error bham) + bh_Y bham)\<rparr>
      in if 0 <s bh_Error bham then
           (True, bham\<lparr>bh_Error := ucast (scast (bh_Error bham) - bh_X bham)\<rparr>)
         else (False, bham))"

primrec bham_ticks :: "nat \<Rightarrow> BHAM \<Rightarrow> nat \<times> BHAM" where
  "bham_ticks 0 b = (0, b)"
| "bham_ticks (Suc n) b =
     (let (k, b) = bham_ticks n b; (s, b) = BHamTick b in (if s then k + 1 else k, b))"

text \<open>In range, the accumulator computes with integers.\<close>

lemma ucast_word_of_int: "ucast (word_of_int k :: COUNT) = (word_of_int k :: 32 word)"
  by (rule bit_eqI) (simp add: bit_simps)

lemma sint_word_of_int_32:
  "- (2 ^ 31) \<le> k \<Longrightarrow> k < 2 ^ 31 \<Longrightarrow> sint (word_of_int k :: 32 word) = k"
  by (simp add: signed_of_int signed_take_bit_int_eq_self)

lemma bham_error_add:
  assumes "- (2 ^ 31) \<le> sint (e :: 32 word) + int (unat y)" and "sint e + int (unat y) < 2 ^ 31"
  shows "sint (ucast (scast e + y :: COUNT) :: 32 word) = sint e + int (unat y)"
proof -
  have "(scast e + y :: COUNT) = word_of_int (sint e + int (unat y))" by simp
  then show ?thesis
    using sint_word_of_int_32 [OF assms] by (simp only: ucast_word_of_int)
qed

lemma bham_error_sub:
  assumes "- (2 ^ 31) \<le> sint (e :: 32 word) - int (unat y)" and "sint e - int (unat y) < 2 ^ 31"
  shows "sint (ucast (scast e - y :: COUNT) :: 32 word) = sint e - int (unat y)"
proof -
  have "(scast e - y :: COUNT) = word_of_int (sint e - int (unat y))" by simp
  then show ?thesis
    using sint_word_of_int_32 [OF assms] by (simp only: ucast_word_of_int)
qed

lemma bham_ticks_inv:
  assumes "BHamInit x y b0 = Some b" and "unat x < 2 ^ 31"
  shows "case bham_ticks n b of (k, b') \<Rightarrow> bh_X b' = x \<and> bh_Y b' = y \<and>
     sint (bh_Error b') = int n * int (unat y) - (int k + 1) * int (unat x) \<and>
     sint (bh_Error b') \<le> 0 \<and> - int (unat x) \<le> sint (bh_Error b') \<and>
     (- int (unat x) < sint (bh_Error b') \<or> n * unat y = 0 \<and> k = 0)"
proof (induction n)
  case 0
  have b: "b = b0\<lparr>bh_X := x, bh_Y := y, bh_Error := ucast (- x)\<rparr>"
    using assms(1) by (auto simp: BHamInit_def split: if_splits)
  have "(- x :: COUNT) = word_of_int (- int (unat x))" by simp
  moreover have "int m < 2 ^ 31" if "m < 2 ^ 31" for m using that by simp
  from this [OF assms(2)] have "- (2 ^ 31) \<le> - int (unat x)" "- int (unat x) < 2 ^ 31"
    by linarith+
  ultimately have "sint (ucast (- x :: COUNT) :: 32 word) = - int (unat x)"
    using sint_word_of_int_32 by (simp only: ucast_word_of_int)
  then show ?case by (simp add: b)
next
  case (Suc n)
  obtain k b' where kb: "bham_ticks n b = (k, b')" by fastforce
  let ?e = "bh_Error b'"
  have xy: "unat y \<le> unat x"
    using assms(1) by (auto simp: BHamInit_def word_le_nat_alt split: if_splits)
  have xi: "int (unat x) < 2 ^ 31" "int (unat y) \<le> int (unat x)"
  proof -
    have "int m < 2 ^ 31" if "m < 2 ^ 31" for m using that by simp
    from this [OF assms(2)] show "int (unat x) < 2 ^ 31" .
    show "int (unat y) \<le> int (unat x)" using xy by (simp only: of_nat_le_iff)
  qed
  have inv: "bh_X b' = x" "bh_Y b' = y" "sint ?e = int n * int (unat y) - (int k + 1) * int (unat x)"
     "sint ?e \<le> 0" "- int (unat x) \<le> sint ?e" "- int (unat x) < sint ?e \<or> n * unat y = 0 \<and> k = 0"
    using Suc unfolding kb prod.case by blast+
  let ?f = "ucast (scast ?e + y :: COUNT) :: 32 word"
  have f: "sint ?f = sint ?e + int (unat y)"
    by (rule bham_error_add) (use inv(4,5) xi in linarith)+
  have g: "sint (ucast (scast ?f - x :: COUNT) :: 32 word) = sint ?f - int (unat x)"
    if "0 < sint ?f"
    by (rule bham_error_sub) (use that f inv(4) xi in linarith)+
  have arith: "int (Suc n) * int (unat y) - (int k + 1) * int (unat x) = sint ?f"
    "int (Suc n) * int (unat y) - (int (k + 1) + 1) * int (unat x) = sint ?f - int (unat x)"
    unfolding f inv(3) by (simp_all add: algebra_simps)
  show ?case
  proof (cases "0 < sint ?f")
    case True
    then have "BHamTick b' = (True, b'\<lparr>bh_Error := ucast (scast ?f - x :: COUNT)\<rparr>)"
      by (simp add: BHamTick_def inv word_sless_alt)
    then show ?thesis
      using True g f arith inv(1,2,4) xi(2) by (simp add: kb)
  next
    case False
    then have "BHamTick b' = (False, b'\<lparr>bh_Error := ?f\<rparr>)"
      by (simp add: BHamTick_def inv word_sless_alt)
    moreover have "- int (unat x) < sint ?f \<or> Suc n * unat y = 0 \<and> k = 0"
    proof (cases "unat y = 0")
      case True
      then show ?thesis using inv(6) f by auto
    next
      case False
      then have "1 \<le> int (unat y)" by linarith
      then show ?thesis using inv(5) f by linarith
    qed
    moreover have "- int (unat x) \<le> sint ?f" using inv(5) f by linarith
    ultimately show ?thesis
      using False arith inv(1,2) by (simp add: kb)
  qed
qed

section \<open>Prime search\<close>

text \<open>\<open>None\<close> is the trap of a division by zero or an access outside the array.\<close>

datatype PRIMES_STATUS = PRIMES_OK | PRIMES_OVERFLOW

function isPrimeLoop :: "int \<Rightarrow> int \<Rightarrow> bool option" where
  "isPrimeLoop i v =
     (if i < v then
        if i = 0 then None else if v mod i = 0 then Some False else isPrimeLoop (i + 1) v
      else Some True)"
  by pat_completeness auto
termination
  by (relation "measure (\<lambda>(i, v). nat (v - i))") auto

definition isPrime :: "int \<Rightarrow> bool option" where
  "isPrime v = isPrimeLoop 0 v"

function isPrimeProductLoop :: "nat \<Rightarrow> int \<Rightarrow> int list \<Rightarrow> nat \<Rightarrow> bool option" where
  "isPrimeProductLoop i v primes num_primes =
     (if i < num_primes then
        if i < length primes then
          if primes ! i = 0 then None
          else if v mod (primes ! i) = 0 then Some False
          else isPrimeProductLoop (i + 1) v primes num_primes
        else None
      else Some True)"
  by pat_completeness auto
termination
  by (relation "measure (\<lambda>(i, v, ps, n). n - i)") auto

definition isPrimeProduct :: "int \<Rightarrow> int list \<Rightarrow> nat \<Rightarrow> bool option" where
  "isPrimeProduct v primes num_primes = isPrimeProductLoop 2 v primes num_primes"

function findPrimesLoop :: "int \<Rightarrow> int \<Rightarrow> int list \<Rightarrow> nat \<Rightarrow> nat \<Rightarrow> (PRIMES_STATUS \<times> int list) option" where
  "findPrimesLoop cur max_v primes found_primes primes_length =
     (if cur < max_v then
        do {
          b \<leftarrow> isPrimeProduct cur primes found_primes;
          if b then
            if found_primes + 1 > primes_length then Some (PRIMES_OVERFLOW, primes)
            else if found_primes < length primes then
              findPrimesLoop (cur + 1) max_v (primes[found_primes := cur]) (found_primes + 1) primes_length
            else None
          else findPrimesLoop (cur + 1) max_v primes found_primes primes_length
        }
      else Some (PRIMES_OK, take found_primes primes @
             replicate (primes_length - found_primes) 0 @ drop (max found_primes primes_length) primes))"
  by pat_completeness auto
termination
  by (relation "measure (\<lambda>(cur, m, ps, f, l). nat (m - cur))") auto

definition findPrimes :: "int \<Rightarrow> int list \<Rightarrow> nat \<Rightarrow> (PRIMES_STATUS \<times> int list) option" where
  "findPrimes max_v primes primes_length = findPrimesLoop 2 max_v primes 0 primes_length"

declare isPrimeLoop.simps [simp del] isPrimeProductLoop.simps [simp del] findPrimesLoop.simps [simp del]

definition prime_int :: "int \<Rightarrow> bool" where
  "prime_int p \<longleftrightarrow> 1 < p \<and> (\<forall>d. 1 < d \<longrightarrow> d < p \<longrightarrow> p mod d \<noteq> 0)"

lemma isPrimeProductLoop_total:
  "n \<le> length ps \<Longrightarrow> \<forall>k < n. ps ! k \<noteq> 0 \<Longrightarrow>
   isPrimeProductLoop i v ps n = Some (\<forall>k. i \<le> k \<longrightarrow> k < n \<longrightarrow> v mod (ps ! k) \<noteq> 0)"
proof (induction i v ps n rule: isPrimeProductLoop.induct)
  case (1 i v ps n)
  show ?case
  proof (cases "i < n \<and> v mod (ps ! i) \<noteq> 0")
    case True
    then have "isPrimeProductLoop (i + 1) v ps n = Some (\<forall>k. i + 1 \<le> k \<longrightarrow> k < n \<longrightarrow> v mod (ps ! k) \<noteq> 0)"
      using 1 by auto
    moreover have "(\<forall>k. i + 1 \<le> k \<longrightarrow> k < n \<longrightarrow> v mod (ps ! k) \<noteq> 0) \<longleftrightarrow>
        (\<forall>k. i \<le> k \<longrightarrow> k < n \<longrightarrow> v mod (ps ! k) \<noteq> 0)"
      using True by (metis Suc_eq_plus1 Suc_leI le_neq_implies_less Suc_leD)
    ultimately show ?thesis
      using True 1(2,3) by (subst isPrimeProductLoop.simps) auto
  next
    case False
    then show ?thesis
      using 1(2,3) by (subst isPrimeProductLoop.simps) auto
  qed
qed

text \<open>The table holds every prime below the current candidate, and only candidates.\<close>

definition table_ok :: "int \<Rightarrow> int list \<Rightarrow> nat \<Rightarrow> bool" where
  "table_ok cur ps n \<longleftrightarrow> n \<le> length ps \<and> int n + 2 \<le> cur \<and>
     (\<forall>k < n. 2 \<le> ps ! k \<and> ps ! k < cur) \<and> (\<forall>p. prime_int p \<longrightarrow> p < cur \<longrightarrow> p \<in> set (take n ps))"

lemma table_step:
  assumes "table_ok cur ps n" and "n < length ps"
  shows "table_ok (cur + 1) (ps[n := cur]) (n + 1)"
proof -
  have t: "take (n + 1) (ps[n := cur]) = take n ps @ [cur]"
    using assms(2) by (simp add: take_Suc_conv_app_nth)
  have "p \<in> set (take (n + 1) (ps[n := cur]))" if "prime_int p" "p < cur + 1" for p
    using that assms(1) unfolding t by (cases "p = cur") (auto simp: table_ok_def)
  moreover have "2 \<le> ps[n := cur] ! k \<and> ps[n := cur] ! k < cur + 1" if "k < n + 1" for k
    using that assms by (cases "k = n") (auto simp: table_ok_def less_Suc_eq)
  ultimately show ?thesis using assms by (auto simp: table_ok_def)
qed

lemma findPrimesLoop_complete:
  "table_ok cur ps n \<Longrightarrow> length ps = len \<Longrightarrow> max_v - 2 \<le> int len \<Longrightarrow>
   \<exists>ps' m. findPrimesLoop cur max_v ps n len = Some (PRIMES_OK, take m ps' @ replicate (len - m) 0) \<and>
     table_ok (max cur max_v) ps' m \<and> length ps' = len"
proof (induction cur max_v ps n len rule: findPrimesLoop.induct)
  case (1 cur max_v ps n len)
  show ?case
  proof (cases "cur < max_v")
    case False
    have "n \<le> length ps" using 1(3) by (simp add: table_ok_def)
    with False have "findPrimesLoop cur max_v ps n len = Some (PRIMES_OK, take n ps @ replicate (len - n) 0)"
      using 1(4) by (subst findPrimesLoop.simps) (simp add: max_def)
    then show ?thesis
      using 1(3,4) False by (intro exI [of _ ps] exI [of _ n]) (simp add: max_def)
  next
    case True
    have nn: "n < len" using 1(3,4,5) True by (auto simp: table_ok_def)
    have "n \<le> length ps" "\<forall>k<n. ps ! k \<noteq> 0" using 1(3) by (force simp: table_ok_def)+
    note tot = isPrimeProductLoop_total [OF this, of 2 cur]
    define b where "b = (\<forall>k. 2 \<le> k \<longrightarrow> k < n \<longrightarrow> cur mod (ps ! k) \<noteq> 0)"
    have ib: "isPrimeProduct cur ps n = Some b" using tot by (simp add: isPrimeProduct_def b_def)
    have mx: "max (cur + 1) max_v = max cur max_v" using True by simp
    show ?thesis
    proof (cases b)
      case yes: True
      have "table_ok (cur + 1) (ps[n := cur]) (n + 1)"
        by (rule table_step [OF 1(3)]) (use nn 1(4) in simp)
      then show ?thesis
        using 1(1) [OF True ib yes] 1(4,5) nn True ib yes mx
        by (subst findPrimesLoop.simps) simp
    next
      case no: False
      then obtain k where k: "2 \<le> k" "k < n" "cur mod (ps ! k) = 0" by (auto simp: b_def)
      have "2 \<le> ps ! k \<and> ps ! k < cur" using 1(3) k(2) unfolding table_ok_def by blast
      then have "1 < ps ! k \<and> ps ! k < cur \<and> cur mod (ps ! k) = 0" using k(3) by auto
      then have "\<not> prime_int cur" by (metis prime_int_def)
      then have "p < cur" if "prime_int p" "p < cur + 1" for p
        using that by (cases "p = cur") auto
      then have "table_ok (cur + 1) ps n"
        using 1(3) unfolding table_ok_def by force
      then show ?thesis
        using 1(2) [OF True ib no] 1(4,5) True ib no mx
        by (subst findPrimesLoop.simps) simp
    qed
  qed
qed

section \<open>Properties\<close>

text \<open>Over any run of additions and checks the results of \<^verbatim>\<open>CounterCheck\<close>, plus what
  has not been collected yet, add up to everything that was added, modulo the width of
  \<^verbatim>\<open>COUNT\<close>: no event is lost or counted twice, also across wrap-around.\<close>

theorem counter_conserves:
  "case counter_run ops c (CounterContextInit c ctx) of (ns, c', ctx') \<Rightarrow>
     sum_list ns + fst (CounterCheck c' ctx') = of_nat (added ops) \<and>
     c_val c' = c_val c + of_nat (added ops)"
proof -
  obtain ns c' ctx' where r: "counter_run ops c (CounterContextInit c ctx) = (ns, c', ctx')"
    using prod_cases3 by blast
  have "cc_val (CounterContextInit c ctx) = c_val c" by (simp add: CounterContextInit_def)
  then have "sum_list ns + (c_val c' - cc_val ctx') = of_nat (added ops)"
    using counter_run_sum [OF r] by simp
  moreover have "fst (CounterCheck c' ctx') = c_val c' - cc_val ctx'"
    by (simp add: CounterCheck_def Let_def)
  ultimately show ?thesis
    using counter_run_val [OF r] unfolding r prod.case by simp
qed

text \<open>A signal generator initialised with slope \<open>y / x\<close> signals exactly
  \<open>\<lceil>n * y / x\<rceil> - 1\<close> times (not at all where that is negative) in the first \<open>n\<close> ticks, so the number of signals
  never drifts from the line; the 32-bit accumulator does not overflow while \<open>x < 2 ^ 31\<close>.\<close>

theorem bham_rate:
  assumes "BHamInit x y b0 = Some b" and "unat x < 2 ^ 31"
  shows "fst (bham_ticks n b) = (n * unat y - 1) div unat x"
proof -
  obtain k b' where kb: "bham_ticks n b = (k, b')" by fastforce
  let ?e = "sint (bh_Error b')"
  have inv: "?e = int n * int (unat y) - (int k + 1) * int (unat x)" "?e \<le> 0"
     "- int (unat x) < ?e \<or> n * unat y = 0 \<and> k = 0"
    using bham_ticks_inv [OF assms, of n] unfolding kb prod.case by blast+
  show ?thesis
  proof (cases "- int (unat x) < ?e")
    case True
    have "int (k * unat x) < int (n * unat y)" "int (n * unat y) \<le> int (Suc k * unat x)"
      using True inv(1,2) by (simp_all add: algebra_simps)
    then have "k * unat x < n * unat y" "n * unat y \<le> Suc k * unat x" by (simp_all only: of_nat_less_iff of_nat_le_iff)
    then have "(n * unat y - 1) div unat x = k"
      by (intro div_nat_eqI) (simp_all add: mult.commute)
    then show ?thesis by (simp add: kb)
  next
    case False
    then have "n * unat y = 0" "k = 0" using inv(3) by blast+
    then show ?thesis by (simp only: kb fst_conv) simp
  qed
qed

theorem bham_rate_witness:
  "fst (bham_ticks 10 (the (BHamInit 7 3 \<lparr>bh_X = 0, bh_Y = 0, bh_Error = 0\<rparr>))) = 4"
proof -
  have "BHamInit 7 3 \<lparr>bh_X = 0, bh_Y = 0, bh_Error = 0\<rparr> =
      Some (the (BHamInit 7 3 \<lparr>bh_X = 0, bh_Y = 0, bh_Error = 0\<rparr>))"
    by (simp add: BHamInit_def)
  from bham_rate [OF this, of 10] show ?thesis by simp
qed

text \<open>With room for every candidate, \<^verbatim>\<open>findPrimes\<close> returns \<^verbatim>\<open>PRIMES_OK\<close> and
  a table that contains every prime below \<^verbatim>\<open>max\<close>. (It is not a table of primes only:
  \<^verbatim>\<open>isPrimeProduct\<close> skips the first two primes, so that 4 is entered too.)\<close>

theorem find_primes_complete:
  assumes "length ps = len" and "max_v - 2 \<le> int len"
  shows "\<exists>ps'. findPrimes max_v ps len = Some (PRIMES_OK, ps') \<and> length ps' = len \<and>
     (\<forall>p. prime_int p \<longrightarrow> p < max_v \<longrightarrow> p \<in> set ps')"
proof -
  have "table_ok 2 ps 0" by (auto simp: table_ok_def prime_int_def)
  then obtain ps' m where r: "findPrimesLoop 2 max_v ps 0 len = Some (PRIMES_OK, take m ps' @ replicate (len - m) 0)"
     "table_ok (max 2 max_v) ps' m" "length ps' = len"
    using findPrimesLoop_complete [OF _ assms] by blast
  then show ?thesis by (auto simp: findPrimes_def table_ok_def)
qed

theorem find_primes_complete_witness:
  "\<exists>ps'. findPrimes 8 [0, 0, 0, 0, 0, 0] 6 = Some (PRIMES_OK, ps') \<and> length ps' = 6 \<and>
     (\<forall>p. prime_int p \<longrightarrow> p < 8 \<longrightarrow> p \<in> set ps')"
  by (rule find_primes_complete) simp_all

text \<open>\<^verbatim>\<open>isPrime\<close> starts its trial division at zero: it traps on every positive
  argument.\<close>

theorem isPrime_traps: "0 < v \<Longrightarrow> isPrime v = None"
  by (simp add: isPrime_def isPrimeLoop.simps)

theorem isPrime_traps_witness: "isPrime 7 = None"
  using isPrime_traps [of 7] by simp

lemma find_primes_enters_four: "findPrimes 10 [0, 0, 0, 0, 0, 0, 0, 0] 8 = Some (PRIMES_OK, [2, 3, 4, 5, 6, 7, 9, 0])"
  by (simp add: findPrimes_def findPrimesLoop.simps isPrimeProduct_def isPrimeProductLoop.simps
      numeral_2_eq_2)

end
