(* ===== verification/Hal.thy ===== *)
theory Hal
  imports KP_Prelude "HOL-Library.Signed_Division"
begin

text \<open>
  The hardware layer of the host build, \<^verbatim>\<open>src/hal/unix_hal.c\<close>, with the interrupt levels
  of \<^verbatim>\<open>src/kernel/hal.h\<close>: interrupts are signals, an interrupt level is a signal mask.
  The state holds the tables of the unit and what the operating system keeps for the process: the
  signal mask, the pending signals, the installed actions, the two interval timers and the wall
  clock.
\<close>

section \<open>Interrupt levels and signals\<close>

type_synonym IRQ_LEVEL = nat

abbreviation IRQ_LEVEL_NONE :: IRQ_LEVEL where "IRQ_LEVEL_NONE \<equiv> 0"
abbreviation IRQ_LEVEL_CRIT :: IRQ_LEVEL where "IRQ_LEVEL_CRIT \<equiv> 1"
abbreviation IRQ_LEVEL_SOFT :: IRQ_LEVEL where "IRQ_LEVEL_SOFT \<equiv> 2"
abbreviation IRQ_LEVEL_SERIAL_WRITE :: IRQ_LEVEL where "IRQ_LEVEL_SERIAL_WRITE \<equiv> 3"
abbreviation IRQ_LEVEL_SERIAL_READ :: IRQ_LEVEL where "IRQ_LEVEL_SERIAL_READ \<equiv> 4"
abbreviation IRQ_LEVEL_TIMER :: IRQ_LEVEL where "IRQ_LEVEL_TIMER \<equiv> 5"
abbreviation IRQ_LEVEL_WATCHDOG :: IRQ_LEVEL where "IRQ_LEVEL_WATCHDOG \<equiv> 6"
abbreviation IRQ_LEVEL_RESET :: IRQ_LEVEL where "IRQ_LEVEL_RESET \<equiv> 7"
abbreviation IRQ_LEVEL_COUNT :: nat where "IRQ_LEVEL_COUNT \<equiv> 8"
abbreviation IRQ_LEVEL_MAX :: IRQ_LEVEL where "IRQ_LEVEL_MAX \<equiv> IRQ_LEVEL_TIMER"

text \<open>The signal numbers of the Linux build.\<close>

type_synonym signum = nat

abbreviation HAL_ISR_TRAMPOLINE :: signum where "HAL_ISR_TRAMPOLINE \<equiv> 17"
abbreviation HAL_ISR_WATCHDOG :: signum where "HAL_ISR_WATCHDOG \<equiv> 26"
abbreviation HAL_ISR_TIMER :: signum where "HAL_ISR_TIMER \<equiv> 14"
abbreviation HAL_ISR_SOFT :: signum where "HAL_ISR_SOFT \<equiv> 10"
abbreviation HAL_ISR_CRIT :: signum where "HAL_ISR_CRIT \<equiv> 12"
abbreviation HAL_ISR_SERIAL_WRITE :: signum where "HAL_ISR_SERIAL_WRITE \<equiv> 28"
abbreviation HAL_ISR_SERIAL_READ :: signum where "HAL_ISR_SERIAL_READ \<equiv> 29"
abbreviation HAL_ISR_RESET :: signum where "HAL_ISR_RESET \<equiv> 2"
abbreviation NSIG :: nat where "NSIG \<equiv> 65"

record timeval =
  tv_sec :: int
  tv_usec :: int

record hal_state =
  HalIrqToMask :: "IRQ_LEVEL \<Rightarrow> signum set"   \<comment> \<open>\<open>HalIrqToSigaction[i].sa_mask\<close>\<close>
  HalIrqHandled :: "IRQ_LEVEL \<Rightarrow> bool"   \<comment> \<open>\<open>HalIrqToSigaction[i].sa_handler\<close> is set\<close>
  HalIrqToSignal :: "IRQ_LEVEL \<Rightarrow> signum"
  HalSignalHandled :: "signum \<Rightarrow> bool"   \<comment> \<open>\<open>HalSignalToHandler\<close> is not null\<close>
  HalSignalToIrq :: "signum \<Rightarrow> IRQ_LEVEL"
  sig_mask :: "signum set"
  sig_pending :: "signum set"
  sig_action :: "signum \<Rightarrow> signum set option"
  HalStartupTime :: timeval
  sys_time :: timeval
  itimer_real :: timeval
  itimer_virtual :: timeval

section \<open>Interrupt masks\<close>

definition HalClearSignals :: "'a hal_state_scheme \<Rightarrow> 'a hal_state_scheme" where
  "HalClearSignals s = s\<lparr>HalIrqToSignal := (\<lambda>i. if i < IRQ_LEVEL_COUNT then 0 else HalIrqToSignal s i),
     HalIrqHandled := (\<lambda>i. if i < IRQ_LEVEL_COUNT then False else HalIrqHandled s i),
     HalIrqToMask := (\<lambda>i. if i < IRQ_LEVEL_COUNT then {} else HalIrqToMask s i),
     HalSignalHandled := (\<lambda>i. if i < NSIG then False else HalSignalHandled s i),
     HalSignalToIrq := (\<lambda>i. if i < NSIG then IRQ_LEVEL_NONE else HalSignalToIrq s i)\<rparr>"

definition HalBlockSignal :: "signum \<Rightarrow> 'a hal_state_scheme \<Rightarrow> 'a hal_state_scheme" where
  "HalBlockSignal which s = s\<lparr>HalIrqToMask :=
     (\<lambda>i. if i < IRQ_LEVEL_COUNT then insert which (HalIrqToMask s i) else HalIrqToMask s i)\<rparr>"

definition HalIsrInit :: "'a hal_state_scheme \<Rightarrow> 'a hal_state_scheme" where
  "HalIsrInit s = HalBlockSignal HAL_ISR_TRAMPOLINE (HalClearSignals s)"

definition HalIsIrqAtomic :: "IRQ_LEVEL \<Rightarrow> 'a hal_state_scheme \<Rightarrow> bool" where
  "HalIsIrqAtomic level s =
     list_all (\<lambda>sig. sig \<in> HalIrqToMask s level \<longrightarrow> sig \<in> sig_mask s) [1..<NSIG]"

definition HalSetIrq :: "IRQ_LEVEL \<Rightarrow> 'a hal_state_scheme \<Rightarrow> 'a hal_state_scheme" where
  "HalSetIrq irq s = s\<lparr>sig_mask := HalIrqToMask s irq\<rparr>"

definition HalRaiseInterrupt :: "IRQ_LEVEL \<Rightarrow> 'a hal_state_scheme \<Rightarrow> 'a hal_state_scheme" where
  "HalRaiseInterrupt level s = s\<lparr>sig_pending := insert (HalIrqToSignal s level) (sig_pending s)\<rparr>"

definition HalIsrFinalize :: "'a hal_state_scheme \<Rightarrow> 'a hal_state_scheme" where
  "HalIsrFinalize s =
     fold (\<lambda>level s. if HalIrqToSignal s level \<noteq> 0
        then s\<lparr>sig_action := (sig_action s)(HalIrqToSignal s level \<mapsto> HalIrqToMask s level)\<rparr> else s)
       [IRQ_LEVEL_NONE..<IRQ_LEVEL_COUNT] s"

definition HalRegisterIsrHandler ::
    "signum \<Rightarrow> IRQ_LEVEL \<Rightarrow> 'a hal_state_scheme \<Rightarrow> 'a hal_state_scheme option" where
  "HalRegisterIsrHandler which level s =
     do {
       ASSERT (HalIsIrqAtomic IRQ_LEVEL_MAX s);
       let s = s\<lparr>HalIrqToMask := (\<lambda>i. if level \<le> i \<and> i < IRQ_LEVEL_COUNT
           then insert which (HalIrqToMask s i) else HalIrqToMask s i)\<rparr>;
       let s = s\<lparr>HalIrqToSignal := (HalIrqToSignal s)(level := which),
         HalSignalHandled := (HalSignalHandled s)(which := True),
         HalSignalToIrq := (HalSignalToIrq s)(which := level),
         HalIrqHandled := (HalIrqHandled s)(level := True)\<rparr>;
       let s = HalIsrFinalize s;
       Some (HalSetIrq IRQ_LEVEL_MAX s)
     }"

text \<open>\<^verbatim>\<open>HalIsrHandler\<close> looks the level up and panics for a signal with no handler; the
  action installed for the signal blocks the signals of its level while the handler runs, and the
  old mask comes back when it returns.\<close>

definition HalIsrHandler ::
    "(IRQ_LEVEL \<Rightarrow> 'a hal_state_scheme \<Rightarrow> 'a hal_state_scheme option) \<Rightarrow> signum \<Rightarrow>
     'a hal_state_scheme \<Rightarrow> 'a hal_state_scheme option" where
  "HalIsrHandler handler sig s =
     do {
       ASSERT (sig < NSIG);
       ASSERT (HalSignalHandled s sig);
       ASSERT (HalSignalToIrq s sig \<noteq> IRQ_LEVEL_NONE);
       handler (HalSignalToIrq s sig) s
     }"

text \<open>The operating system delivers a pending signal that is not blocked.\<close>

definition deliver ::
    "(IRQ_LEVEL \<Rightarrow> 'a hal_state_scheme \<Rightarrow> 'a hal_state_scheme option) \<Rightarrow> signum \<Rightarrow>
     'a hal_state_scheme \<Rightarrow> 'a hal_state_scheme option" where
  "deliver handler sig s =
     (case sig_action s sig of None \<Rightarrow> None
      | Some m \<Rightarrow>
          if sig \<in> sig_pending s \<and> sig \<notin> sig_mask s then
            do {
              let old = sig_mask s;
              let s = s\<lparr>sig_pending := sig_pending s - {sig}, sig_mask := sig_mask s \<union> m \<union> {sig}\<rparr>;
              s \<leftarrow> HalIsrHandler handler sig s;
              Some (s\<lparr>sig_mask := old\<rparr>)
            }
          else None)"

section \<open>Time\<close>

definition HalTimeDelta :: "timeval \<Rightarrow> timeval \<Rightarrow> TIME" where
  "HalTimeDelta time1 time2 =
     (if tv_sec time2 < tv_sec time1 then 0
      else if tv_sec time2 = tv_sec time1 \<and> tv_usec time2 < tv_usec time1 then 0
      else
        let delta = 0;
            delta = delta + of_int ((tv_sec time2 - tv_sec time1) * 1000);
            delta = delta + of_int ((tv_usec time2 - tv_usec time1) sdiv 1000)
        in delta)"

definition HalInitClock :: "'a hal_state_scheme \<Rightarrow> 'a hal_state_scheme" where
  "HalInitClock s = s\<lparr>HalStartupTime := sys_time s\<rparr>"

definition HalGetTime :: "'a hal_state_scheme \<Rightarrow> TIME" where
  "HalGetTime s = HalTimeDelta (HalStartupTime s) (sys_time s)"

definition HalResetClock :: "'a hal_state_scheme \<Rightarrow> 'a hal_state_scheme" where
  "HalResetClock s = s"

definition HalSetTimer :: "TIME \<Rightarrow> 'a hal_state_scheme \<Rightarrow> 'a hal_state_scheme" where
  "HalSetTimer delta s =
     (let seconds = uint (delta div 1000);
          mills = uint (delta mod 1000);
          micros = mills * 1000;
          seconds = (if seconds > 100000000 then 100000000 else seconds);
          micros = (if seconds = 0 \<and> micros = 0 then 1000 else micros)
      in s\<lparr>itimer_real := \<lparr>tv_sec = seconds, tv_usec = micros\<rparr>\<rparr>)"

text \<open>\<^verbatim>\<open>when\<close> is unsigned; \<^verbatim>\<open>setitimer\<close> refuses a \<^verbatim>\<open>tv_usec\<close> of a second or
  more, and the debug build's \<^verbatim>\<open>CHECK\<close> panics then.\<close>

definition HalPetWatchdog :: "TIME \<Rightarrow> 'a hal_state_scheme \<Rightarrow> 'a hal_state_scheme option" where
  "HalPetWatchdog when s =
     do {
       let usec = sint (when * 1000);
       ASSERT (0 \<le> usec \<and> usec < 1000000);
       Some (s\<lparr>itimer_virtual := \<lparr>tv_sec = 0, tv_usec = usec\<rparr>\<rparr>)
     }"

section \<open>Masks and levels\<close>

text \<open>
  \<open>hal_ok\<close>: a higher level blocks at least what a lower one blocks, and only real signals are
  ever put into a mask.
\<close>

definition hal_ok :: "'a hal_state_scheme \<Rightarrow> bool" where
  "hal_ok s \<longleftrightarrow>
     (\<forall>i j. i \<le> j \<longrightarrow> j < IRQ_LEVEL_COUNT \<longrightarrow> HalIrqToMask s i \<subseteq> HalIrqToMask s j) \<and>
     (\<forall>i < IRQ_LEVEL_COUNT. HalIrqToMask s i \<subseteq> {1..<NSIG})"

lemma HalIsIrqAtomic_subset:
  assumes "hal_ok s" and "l < IRQ_LEVEL_COUNT"
  shows "HalIsIrqAtomic l s \<longleftrightarrow> HalIrqToMask s l \<subseteq> sig_mask s"
proof -
  have "HalIrqToMask s l \<subseteq> {1..<NSIG}" using assms by (simp add: hal_ok_def)
  then show ?thesis unfolding HalIsIrqAtomic_def list_all_iff by (auto simp del: upt_Suc)
qed

lemma hal_ok_mono: "hal_ok s \<Longrightarrow> i \<le> j \<Longrightarrow> j < IRQ_LEVEL_COUNT \<Longrightarrow> HalIrqToMask s i \<subseteq> HalIrqToMask s j"
  by (simp add: hal_ok_def)

lemma HalIsrFinalize_tables [simp]:
  "HalIrqToMask (HalIsrFinalize s) = HalIrqToMask s"
  "HalIrqToSignal (HalIsrFinalize s) = HalIrqToSignal s"
  "HalSignalHandled (HalIsrFinalize s) = HalSignalHandled s"
  "HalSignalToIrq (HalIsrFinalize s) = HalSignalToIrq s"
  "sig_mask (HalIsrFinalize s) = sig_mask s"
proof -
  define f where "f = (\<lambda>level (s :: 'a hal_state_scheme). if HalIrqToSignal s level \<noteq> 0
        then s\<lparr>sig_action := (sig_action s)(HalIrqToSignal s level \<mapsto> HalIrqToMask s level)\<rparr> else s)"
  have all: "HalIrqToMask (fold f xs s) = HalIrqToMask s \<and> HalIrqToSignal (fold f xs s) = HalIrqToSignal s \<and>
      HalSignalHandled (fold f xs s) = HalSignalHandled s \<and> HalSignalToIrq (fold f xs s) = HalSignalToIrq s \<and>
      sig_mask (fold f xs s) = sig_mask s" for xs
    by (induction xs arbitrary: s) (simp_all add: f_def)
  have eq: "HalIsrFinalize s = fold f [IRQ_LEVEL_NONE..<IRQ_LEVEL_COUNT] s"
    unfolding HalIsrFinalize_def f_def ..
  show "HalIrqToMask (HalIsrFinalize s) = HalIrqToMask s"
    "HalIrqToSignal (HalIsrFinalize s) = HalIrqToSignal s"
    "HalSignalHandled (HalIsrFinalize s) = HalSignalHandled s"
    "HalSignalToIrq (HalIsrFinalize s) = HalSignalToIrq s"
    "sig_mask (HalIsrFinalize s) = sig_mask s"
    unfolding eq using all by blast+
qed

lemma hal_ok_init: "hal_ok (HalIsrInit s)"
  by (auto simp: hal_ok_def HalIsrInit_def HalBlockSignal_def HalClearSignals_def)

lemma HalRegisterIsrHandler_mask:
  assumes "HalRegisterIsrHandler which level s = Some s'"
  shows "HalIrqToMask s' = (\<lambda>i. if level \<le> i \<and> i < IRQ_LEVEL_COUNT then insert which (HalIrqToMask s i)
      else HalIrqToMask s i)"
  using assms by (auto simp: HalRegisterIsrHandler_def HalSetIrq_def Let_def split: if_splits)

lemma hal_ok_register:
  assumes "hal_ok s" and "HalRegisterIsrHandler which level s = Some s'" and "1 \<le> which" "which < NSIG"
  shows "hal_ok s'"
  unfolding hal_ok_def HalRegisterIsrHandler_mask [OF assms(2)]
proof (intro conjI allI impI)
  fix i j :: nat assume ij: "i \<le> j" "j < IRQ_LEVEL_COUNT"
  have "HalIrqToMask s i \<subseteq> HalIrqToMask s j" using hal_ok_mono [OF assms(1) ij] .
  then show "(if level \<le> i \<and> i < IRQ_LEVEL_COUNT then insert which (HalIrqToMask s i) else HalIrqToMask s i)
      \<subseteq> (if level \<le> j \<and> j < IRQ_LEVEL_COUNT then insert which (HalIrqToMask s j) else HalIrqToMask s j)"
    using ij by auto
next
  fix i :: nat assume "i < IRQ_LEVEL_COUNT"
  then have "HalIrqToMask s i \<subseteq> {1..<NSIG}" using assms(1) unfolding hal_ok_def by blast
  moreover have "which \<in> {1..<NSIG}" using assms(3,4) by simp
  ultimately show "(if level \<le> i \<and> i < IRQ_LEVEL_COUNT then insert which (HalIrqToMask s i) else HalIrqToMask s i)
      \<subseteq> {1..<NSIG}" by auto
qed

lemma sdiv_1000_bounds:
  "0 \<le> d \<and> 0 \<le> d sdiv 1000 \<and> 1000 * (d sdiv 1000) \<le> d \<and> d < 1000 * (d sdiv 1000) + 1000 \<or>
   d < 0 \<and> d sdiv 1000 \<le> 0 \<and> d \<le> 1000 * (d sdiv 1000) \<and> 1000 * (d sdiv 1000) < d + 1000"
  for d :: int
proof (cases "0 \<le> d")
  case True
  then have "d sdiv 1000 = d div 1000"
    by (cases "d = 0") (simp_all add: signed_divide_int_def sgn_mult)
  with True show ?thesis by (auto simp: pos_imp_zdiv_nonneg_iff)
next
  case False
  then have "d sdiv 1000 = - (- d div 1000)"
    by (simp add: signed_divide_int_def sgn_mult)
  moreover have "0 \<le> - d div 1000" using False by (simp add: pos_imp_zdiv_nonneg_iff)
  ultimately show ?thesis using False by auto
qed

definition delta_ms :: "timeval \<Rightarrow> timeval \<Rightarrow> int" where
  "delta_ms a b = (tv_sec b - tv_sec a) * 1000 + (tv_usec b - tv_usec a) sdiv 1000"

text \<open>A time that is not before another one, both with their microseconds in range.\<close>

definition time_le :: "timeval \<Rightarrow> timeval \<Rightarrow> bool" where
  "time_le a b \<longleftrightarrow> 0 \<le> tv_usec a \<and> tv_usec a < 1000000 \<and> 0 \<le> tv_usec b \<and> tv_usec b < 1000000 \<and>
     (tv_sec a < tv_sec b \<or> tv_sec a = tv_sec b \<and> tv_usec a \<le> tv_usec b)"

lemma delta_bounds_int:
  "0 \<le> u \<and> u < 1000000 \<and> 0 \<le> v \<and> v < 1000000 \<and> (s < r \<or> s = r \<and> u \<le> v) \<Longrightarrow>
   0 \<le> v - u \<and> 0 \<le> q \<and> 1000 * q \<le> v - u \<and> v - u < 1000 * q + 1000 \<or>
   v - u < 0 \<and> q \<le> 0 \<and> v - u \<le> 1000 * q \<and> 1000 * q < v - u + 1000 \<Longrightarrow>
   0 \<le> (r - s) * 1000 + q \<and> ((r - s) * 1000 + q) * 1000 < (r - s) * 1000000 + (v - u) + 1000 \<and>
   (r - s) * 1000000 + (v - u) < ((r - s) * 1000 + q) * 1000 + 1000"
  for u v s r q :: int
  by (elim disjE conjE; intro conjI; simp)

lemma delta_ms_bounds:
  assumes "time_le a b"
  shows "0 \<le> delta_ms a b \<and>
     delta_ms a b * 1000 < (tv_sec b - tv_sec a) * 1000000 + (tv_usec b - tv_usec a) + 1000 \<and>
     (tv_sec b - tv_sec a) * 1000000 + (tv_usec b - tv_usec a) < delta_ms a b * 1000 + 1000"
  unfolding delta_ms_def
  by (rule delta_bounds_int [OF assms [unfolded time_le_def] sdiv_1000_bounds])

lemma HalTimeDelta_uint:
  assumes "time_le a b" and "tv_sec b - tv_sec a < 2 ^ 40"
  shows "uint (HalTimeDelta a b) = delta_ms a b"
proof -
  have "HalTimeDelta a b = word_of_int (delta_ms a b)"
    using assms(1) by (auto simp: HalTimeDelta_def delta_ms_def time_le_def)
  moreover have "delta_ms a b < 2 ^ 64"
    using delta_ms_bounds [OF assms(1)] assms unfolding time_le_def by simp
  ultimately show ?thesis
    using delta_ms_bounds [OF assms(1)] by (simp add: uint_word_of_int)
qed

lemma sdiv_diff:
  assumes "v - w < (1000000 :: int)"
    and "0 \<le> v - u \<and> 0 \<le> q \<and> 1000 * q \<le> v - u \<and> v - u < 1000 * q + 1000 \<or>
      v - u < 0 \<and> q \<le> 0 \<and> v - u \<le> 1000 * q \<and> 1000 * q < v - u + 1000"
    and "0 \<le> w - u \<and> 0 \<le> p \<and> 1000 * p \<le> w - u \<and> w - u < 1000 * p + 1000 \<or>
      w - u < 0 \<and> p \<le> 0 \<and> w - u \<le> 1000 * p \<and> 1000 * p < w - u + 1000"
  shows "q - p \<le> 1000" and "v \<le> w \<Longrightarrow> q \<le> p"
  using assms by (elim disjE conjE; simp)+

lemma delta_ms_mono:
  assumes "time_le a b" and "time_le b c"
  shows "delta_ms a b \<le> delta_ms a c"
proof -
  have "tv_usec b - tv_usec c < 1000000" using assms by (simp add: time_le_def)
  note d = sdiv_diff [OF this sdiv_1000_bounds sdiv_1000_bounds, of "tv_usec a"]
  show ?thesis
  proof (cases "tv_sec b < tv_sec c")
    case True
    then show ?thesis using d(1) by (simp add: delta_ms_def)
  next
    case False
    then have "tv_sec b = tv_sec c" "tv_usec b \<le> tv_usec c" using assms(2) by (auto simp: time_le_def)
    then show ?thesis using d(2) by (simp add: delta_ms_def)
  qed
qed

section \<open>Properties\<close>

text \<open>Starting from \<^verbatim>\<open>HalIsrInit\<close>, whatever handlers are registered with
  \<^verbatim>\<open>HalRegisterIsrHandler\<close> and in whatever order, masks grow with the interrupt level, and
  running at a level blocks the signal of every handler registered at that level or below.\<close>

theorem hal_masks_nested:
  assumes "fold (\<lambda>(which, level) m. Option.bind m (HalRegisterIsrHandler which level)) regs
      (Some (HalIsrInit s)) = Some s'"
    and "\<forall>(which, level)\<in>set regs. 1 \<le> which \<and> which < NSIG"
  shows "hal_ok s' \<and> (\<forall>(which, level)\<in>set regs. \<forall>i. level \<le> i \<longrightarrow> i < IRQ_LEVEL_COUNT \<longrightarrow>
     which \<in> HalIrqToMask s' i)"
  using assms
proof (induction regs arbitrary: s' rule: rev_induct)
  case Nil
  then have "s' = HalIsrInit s" by simp
  then show ?case by (simp add: hal_ok_init)
next
  case (snoc r regs)
  obtain w l where r: "r = (w, l)" by fastforce
  obtain s1 where s1: "fold (\<lambda>(which, level) m. Option.bind m (HalRegisterIsrHandler which level)) regs
      (Some (HalIsrInit s)) = Some s1" "HalRegisterIsrHandler w l s1 = Some s'"
    using snoc.prems(1) r by (auto simp: bind_Some_iff)
  have IH: "hal_ok s1" "\<forall>(which, level)\<in>set regs. \<forall>i. level \<le> i \<longrightarrow> i < IRQ_LEVEL_COUNT \<longrightarrow>
     which \<in> HalIrqToMask s1 i"
    using snoc.IH [OF s1(1)] snoc.prems(2) by auto
  have m: "HalIrqToMask s' = (\<lambda>i. if l \<le> i \<and> i < IRQ_LEVEL_COUNT then insert w (HalIrqToMask s1 i)
      else HalIrqToMask s1 i)"
    by (rule HalRegisterIsrHandler_mask [OF s1(2)])
  have "hal_ok s'"
    using hal_ok_register [OF IH(1) s1(2)] snoc.prems(2) r by simp
  with IH(2) show ?case by (auto simp: m r)
qed

definition hal0 :: hal_state where
  "hal0 = \<lparr>HalIrqToMask = (\<lambda>_. {}), HalIrqHandled = (\<lambda>_. False), HalIrqToSignal = (\<lambda>_. 0),
     HalSignalHandled = (\<lambda>_. False), HalSignalToIrq = (\<lambda>_. 0), sig_mask = {HAL_ISR_TRAMPOLINE},
     sig_pending = {}, sig_action = (\<lambda>_. None), HalStartupTime = \<lparr>tv_sec = 0, tv_usec = 0\<rparr>,
     sys_time = \<lparr>tv_sec = 0, tv_usec = 0\<rparr>, itimer_real = \<lparr>tv_sec = 0, tv_usec = 0\<rparr>,
     itimer_virtual = \<lparr>tv_sec = 0, tv_usec = 0\<rparr>\<rparr>"

theorem hal_masks_nested_witness:
  "\<exists>s'. fold (\<lambda>(which, level) m. Option.bind m (HalRegisterIsrHandler which level))
      [(HAL_ISR_TIMER, IRQ_LEVEL_TIMER), (HAL_ISR_CRIT, IRQ_LEVEL_CRIT)] (Some (HalIsrInit hal0)) = Some s' \<and>
    hal_ok s' \<and> HAL_ISR_CRIT \<in> HalIrqToMask s' IRQ_LEVEL_SOFT"
proof -
  let ?regs = "[(HAL_ISR_TIMER, IRQ_LEVEL_TIMER), (HAL_ISR_CRIT, IRQ_LEVEL_CRIT)]"
  have "HalIsIrqAtomic IRQ_LEVEL_MAX (HalIsrInit hal0)"
    by (simp add: HalIsIrqAtomic_def HalIsrInit_def HalBlockSignal_def HalClearSignals_def hal0_def
        list_all_iff)
  then obtain s1 where s1: "HalRegisterIsrHandler HAL_ISR_TIMER IRQ_LEVEL_TIMER (HalIsrInit hal0) = Some s1"
      "sig_mask s1 = HalIrqToMask s1 IRQ_LEVEL_MAX"
    by (simp add: HalRegisterIsrHandler_def HalSetIrq_def Let_def)
  then have "HalIsIrqAtomic IRQ_LEVEL_MAX s1" by (simp add: HalIsIrqAtomic_def list_all_iff)
  then obtain s' where "HalRegisterIsrHandler HAL_ISR_CRIT IRQ_LEVEL_CRIT s1 = Some s'"
    by (simp add: HalRegisterIsrHandler_def Let_def)
  then have run: "fold (\<lambda>(which, level) m. Option.bind m (HalRegisterIsrHandler which level)) ?regs
      (Some (HalIsrInit hal0)) = Some s'" using s1(1) by simp
  from hal_masks_nested [OF this] run show ?thesis by auto
qed

text \<open>The millisecond clock follows the wall clock: for well-formed times that do not run
  backwards the reported delta is less than a millisecond off, and it never decreases when the wall
  clock advances.\<close>

theorem hal_time_delta:
  assumes "time_le t0 t1" and "time_le t1 t2" and "tv_sec t2 - tv_sec t0 < 2 ^ 40"
  shows "\<bar>uint (HalTimeDelta t0 t1) * 1000 -
        ((tv_sec t1 - tv_sec t0) * 1000000 + (tv_usec t1 - tv_usec t0))\<bar> < 1000 \<and>
     HalTimeDelta t0 t1 \<le> HalTimeDelta t0 t2"
proof -
  have le: "time_le t0 t2" using assms(1,2) by (auto simp: time_le_def)
  have "uint (HalTimeDelta t0 t1) = delta_ms t0 t1" "uint (HalTimeDelta t0 t2) = delta_ms t0 t2"
    using HalTimeDelta_uint [OF assms(1)] HalTimeDelta_uint [OF le] assms(2,3)
    by (auto simp: time_le_def)
  with delta_ms_bounds [OF assms(1)] delta_ms_mono [OF assms(1,2)] show ?thesis
    by (simp add: word_le_def abs_less_iff)
qed

theorem hal_time_delta_witness:
  "\<bar>uint (HalTimeDelta \<lparr>tv_sec = 5, tv_usec = 900000\<rparr> \<lparr>tv_sec = 6, tv_usec = 100300\<rparr>) * 1000 -
        ((6 - 5) * 1000000 + (100300 - 900000))\<bar> < 1000 \<and>
     HalTimeDelta \<lparr>tv_sec = 5, tv_usec = 900000\<rparr> \<lparr>tv_sec = 6, tv_usec = 100300\<rparr> \<le>
     HalTimeDelta \<lparr>tv_sec = 5, tv_usec = 900000\<rparr> \<lparr>tv_sec = 7, tv_usec = 0\<rparr>"
  using hal_time_delta [of "\<lparr>tv_sec = 5, tv_usec = 900000\<rparr>" "\<lparr>tv_sec = 6, tv_usec = 100300\<rparr>"
      "\<lparr>tv_sec = 7, tv_usec = 0\<rparr>"] by (simp add: time_le_def)

text \<open>\<^verbatim>\<open>HalSetTimer\<close> never programs a zero interval, which would disarm the timer, and
  never one that ends later than asked, except that an interval of zero becomes one millisecond; up
  to the cap of \<^verbatim>\<open>100000000\<close> seconds it is exact.\<close>

theorem hal_set_timer:
  "let t = itimer_real (HalSetTimer delta s); us = tv_sec t * 1000000 + tv_usec t
   in 0 < us \<and> 0 \<le> tv_usec t \<and> tv_usec t < 1000000 \<and> us \<le> max 1 (uint delta) * 1000 \<and>
      (uint delta < 100000000000 \<longrightarrow> us = max 1 (uint delta) * 1000)"
proof -
  have d: "uint (delta div 1000) = uint delta div 1000" "uint (delta mod 1000) = uint delta mod 1000"
    by (simp_all add: uint_div uint_mod)
  have e: "uint delta = uint delta div 1000 * 1000 + uint delta mod 1000" "0 \<le> uint delta mod 1000"
    "uint delta mod 1000 < 1000" "0 \<le> uint delta div 1000" by (simp_all add: pos_imp_zdiv_nonneg_iff)
  define q r where "q = uint delta div 1000" and "r = uint delta mod 1000"
  have u: "uint delta = q * 1000 + r" "0 \<le> r" "r < 1000" "0 \<le> q" using e by (simp_all add: q_def r_def)
  show ?thesis
    using u(2-4) unfolding HalSetTimer_def Let_def d q_def [symmetric] r_def [symmetric] u(1)
    by (auto simp: max_def)
qed

theorem hal_set_timer_witness:
  "let t = itimer_real (HalSetTimer 2500 hal0); us = tv_sec t * 1000000 + tv_usec t
   in 0 < us \<and> 0 \<le> tv_usec t \<and> tv_usec t < 1000000 \<and> us \<le> max 1 2500 * 1000 \<and>
      (2500 < (100000000000 :: int) \<longrightarrow> us = max 1 2500 * 1000)"
  using hal_set_timer [of 2500 hal0] by simp

end
