(* ===== verification/Isr.thy ===== *)
theory Isr
  imports Hal
begin

text \<open>
  The interrupt unit, \<^verbatim>\<open>src/kernel/isr.c\<close>: a count of disables per interrupt level, from
  which the signal mask follows. The invariant \<open>isr_ok\<close> says that the mask in force is the
  mask of the highest level with a positive count.
\<close>

section \<open>State and operations\<close>

text \<open>The interrupt handlers the kernel registers.\<close>

datatype ISR_HANDLER =
    CritInterrupt_isr
  | SoftInterrupt_isr
  | TimerInterrupt_isr
  | SerialWrite_isr
  | SerialRead_isr
  | Watchdog_isr
  | Reset_isr

record isr_state = hal_state +
  IsrDisabledCount :: "IRQ_LEVEL \<Rightarrow> COUNT"
  IsrHandlerTable :: "IRQ_LEVEL \<Rightarrow> ISR_HANDLER option"

definition IsrStartup :: "'a isr_state_scheme \<Rightarrow> 'a isr_state_scheme" where
  "IsrStartup s = (HalIsrInit s)
     \<lparr>IsrDisabledCount := (\<lambda>i. if i < IRQ_LEVEL_COUNT then 0 else IsrDisabledCount s i),
      IsrHandlerTable := (\<lambda>i. if i < IRQ_LEVEL_COUNT then None else IsrHandlerTable s i)\<rparr>"

definition IsrRegisterHandler ::
    "ISR_HANDLER \<Rightarrow> signum \<Rightarrow> IRQ_LEVEL \<Rightarrow> 'a isr_state_scheme \<Rightarrow> 'a isr_state_scheme option" where
  "IsrRegisterHandler handler which level s =
     HalRegisterIsrHandler which level
       (s\<lparr>IsrHandlerTable := (IsrHandlerTable s)(level \<mapsto> handler)\<rparr>)"

definition IsrCheckLevel ::
    "IRQ_LEVEL \<Rightarrow> IRQ_LEVEL \<Rightarrow> bool \<Rightarrow> 'a isr_state_scheme \<Rightarrow> bool \<times> 'a isr_state_scheme" where
  "IsrCheckLevel changingLevel candidateLevel enable s =
     (if IsrDisabledCount s candidateLevel > 0 \<or> candidateLevel = changingLevel \<and> \<not> enable
      then (True, HalSetIrq candidateLevel s) else (False, s))"

primrec IsrDeferLoop :: "nat \<Rightarrow> IRQ_LEVEL \<Rightarrow> bool \<Rightarrow> 'a isr_state_scheme \<Rightarrow> 'a isr_state_scheme" where
  "IsrDeferLoop 0 level enable s = HalSetIrq IRQ_LEVEL_NONE s"
| "IsrDeferLoop (Suc l) level enable s =
     (let (found, s) = IsrCheckLevel level (Suc l) enable s
      in if found then s else IsrDeferLoop l level enable s)"

definition IsrDefer :: "IRQ_LEVEL \<Rightarrow> bool \<Rightarrow> 'a isr_state_scheme \<Rightarrow> 'a isr_state_scheme" where
  "IsrDefer level enable s = IsrDeferLoop (IRQ_LEVEL_COUNT - 1) level enable s"

definition IsrDisable :: "IRQ_LEVEL \<Rightarrow> 'a isr_state_scheme \<Rightarrow> 'a isr_state_scheme" where
  "IsrDisable level s =
     (let s = (if IsrDisabledCount s level = 0 then IsrDefer level False s else s)
      in s\<lparr>IsrDisabledCount := (IsrDisabledCount s)(level := IsrDisabledCount s level + 1)\<rparr>)"

definition IsrEnable :: "IRQ_LEVEL \<Rightarrow> 'a isr_state_scheme \<Rightarrow> 'a isr_state_scheme option" where
  "IsrEnable level s =
     do {
       ASSERT (HalIsIrqAtomic level s);
       ASSERT (IsrDisabledCount s level > 0);
       let s = s\<lparr>IsrDisabledCount := (IsrDisabledCount s)(level := IsrDisabledCount s level - 1)\<rparr>;
       Some (if IsrDisabledCount s level = 0 then IsrDefer level True s else s)
     }"

definition IsrIncrement :: "IRQ_LEVEL \<Rightarrow> 'a isr_state_scheme \<Rightarrow> 'a isr_state_scheme option" where
  "IsrIncrement level s =
     do {
       ASSERT (HalIsIrqAtomic level s);
       ASSERT (IsrDisabledCount s level = 0);
       Some (s\<lparr>IsrDisabledCount := (IsrDisabledCount s)(level := IsrDisabledCount s level + 1)\<rparr>)
     }"

definition IsrDecrement :: "IRQ_LEVEL \<Rightarrow> 'a isr_state_scheme \<Rightarrow> 'a isr_state_scheme option" where
  "IsrDecrement level s =
     do {
       ASSERT (HalIsIrqAtomic level s);
       ASSERT (IsrDisabledCount s level = 1);
       Some (s\<lparr>IsrDisabledCount := (IsrDisabledCount s)(level := IsrDisabledCount s level - 1)\<rparr>)
     }"

text \<open>\<open>IsrAtomicLoop n level\<close> looks at the levels \<open>level + n - 1\<close> down to \<open>level\<close>.\<close>

primrec IsrAtomicLoop :: "nat \<Rightarrow> IRQ_LEVEL \<Rightarrow> 'a isr_state_scheme \<Rightarrow> bool option" where
  "IsrAtomicLoop 0 level s = Some False"
| "IsrAtomicLoop (Suc n) level s =
     (if IsrDisabledCount s (level + n) = 0 then
        do { ASSERT (\<not> HalIsIrqAtomic (level + n) s); IsrAtomicLoop n level s }
      else do { ASSERT (HalIsIrqAtomic (level + n) s); Some True })"

definition IsrIsAtomic :: "IRQ_LEVEL \<Rightarrow> 'a isr_state_scheme \<Rightarrow> bool option" where
  "IsrIsAtomic level s =
     do { ASSERT (level \<noteq> IRQ_LEVEL_NONE); IsrAtomicLoop (IRQ_LEVEL_COUNT - level) level s }"

definition IsrIsEdge :: "IRQ_LEVEL \<Rightarrow> 'a isr_state_scheme \<Rightarrow> bool" where
  "IsrIsEdge level s = (HalIsIrqAtomic level s \<and> IsrDisabledCount s level = 0)"

text \<open>The wrapper runs the registered handler with its level disabled. \<open>call\<close> is the code of
  the handlers.\<close>

definition IsrHandlerWrapper ::
    "(ISR_HANDLER \<Rightarrow> 'a isr_state_scheme \<Rightarrow> 'a isr_state_scheme option) \<Rightarrow> IRQ_LEVEL \<Rightarrow>
     'a isr_state_scheme \<Rightarrow> 'a isr_state_scheme option" where
  "IsrHandlerWrapper call level s =
     do {
       let s = IsrDisable level s;
       h \<leftarrow> IsrHandlerTable s level;
       s \<leftarrow> call h s;
       IsrEnable level s
     }"

section \<open>The mask follows the counts\<close>

fun top_from :: "(nat \<Rightarrow> bool) \<Rightarrow> nat \<Rightarrow> nat" where
  "top_from P 0 = 0"
| "top_from P (Suc l) = (if P (Suc l) then Suc l else top_from P l)"

definition isr_top :: "(IRQ_LEVEL \<Rightarrow> COUNT) \<Rightarrow> IRQ_LEVEL" where
  "isr_top c = top_from (\<lambda>l. c l \<noteq> 0) (IRQ_LEVEL_COUNT - 1)"

definition isr_ok :: "'a isr_state_scheme \<Rightarrow> bool" where
  "isr_ok s \<longleftrightarrow> hal_ok s \<and> sig_mask s = HalIrqToMask s (isr_top (IsrDisabledCount s))"

lemma top_from_le: "top_from P n \<le> n"
  by (induction n) auto

lemma top_from_ge: "P l \<Longrightarrow> l \<le> n \<Longrightarrow> l \<le> top_from P n"
proof (induction n)
  case (Suc n)
  then show ?case by (cases "l = Suc n") auto
qed simp

lemma top_from_cong: "(\<And>l. 0 < l \<Longrightarrow> l \<le> n \<Longrightarrow> P l = Q l) \<Longrightarrow> top_from P n = top_from Q n"
  by (induction n) auto

lemma isr_top_less: "isr_top c < IRQ_LEVEL_COUNT"
  using top_from_le [of "\<lambda>l. c l \<noteq> 0" "IRQ_LEVEL_COUNT - 1"] unfolding isr_top_def by linarith

lemma isr_top_ge: "c l \<noteq> 0 \<Longrightarrow> l < IRQ_LEVEL_COUNT \<Longrightarrow> l \<le> isr_top c"
  unfolding isr_top_def by (rule top_from_ge) auto

lemma IsrDeferLoop_top:
  "IsrDeferLoop n level enable s =
     HalSetIrq (top_from (\<lambda>l. IsrDisabledCount s l \<noteq> 0 \<or> l = level \<and> \<not> enable) n) s"
  by (induction n) (auto simp: IsrCheckLevel_def word_neq_0_conv [symmetric])

lemma HalSetIrq_counts [simp]:
  "IsrDisabledCount (HalSetIrq l s) = IsrDisabledCount s" "HalIrqToMask (HalSetIrq l s) = HalIrqToMask s"
  "hal_ok (HalSetIrq l s) = hal_ok s"
  by (simp_all add: HalSetIrq_def hal_ok_def)

lemma isr_ok_atomic:
  assumes "isr_ok s" and "IsrDisabledCount s l \<noteq> 0" and "l < IRQ_LEVEL_COUNT"
  shows "HalIsIrqAtomic l s"
proof -
  have "HalIrqToMask s l \<subseteq> HalIrqToMask s (isr_top (IsrDisabledCount s))"
    by (rule hal_ok_mono) (use assms isr_top_ge [of "IsrDisabledCount s" l] isr_top_less in \<open>auto simp: isr_ok_def\<close>)
  then show ?thesis
    using assms by (simp add: isr_ok_def HalIsIrqAtomic_subset)
qed

text \<open>What the two operations do to a state that satisfies the invariant.\<close>

definition set_counts :: "(IRQ_LEVEL \<Rightarrow> COUNT) \<Rightarrow> 'a isr_state_scheme \<Rightarrow> 'a isr_state_scheme" where
  "set_counts c s = s\<lparr>IsrDisabledCount := c, sig_mask := HalIrqToMask s (isr_top c)\<rparr>"

lemma set_counts_ok: "isr_ok s \<Longrightarrow> isr_ok (set_counts c s)"
  by (simp add: set_counts_def isr_ok_def hal_ok_def)

lemma set_counts_same: "isr_ok s \<Longrightarrow> set_counts (IsrDisabledCount s) s = s"
  by (simp add: set_counts_def isr_ok_def)

lemma set_counts_twice [simp]: "set_counts d (set_counts c s) = set_counts d s"
  by (simp add: set_counts_def)

lemma IsrDisable_counts:
  assumes "isr_ok s" and "IsrDisabledCount s l + 1 \<noteq> 0" and "l < IRQ_LEVEL_COUNT"
  shows "IsrDisable l s = set_counts ((IsrDisabledCount s)(l := IsrDisabledCount s l + 1)) s"
proof (cases "IsrDisabledCount s l = 0")
  case True
  have "top_from (\<lambda>k. IsrDisabledCount s k \<noteq> 0 \<or> k = l \<and> \<not> False) (IRQ_LEVEL_COUNT - 1) =
      isr_top ((IsrDisabledCount s)(l := IsrDisabledCount s l + 1))"
    unfolding isr_top_def using assms(2) by (intro top_from_cong) auto
  with True show ?thesis
    by (simp add: IsrDisable_def IsrDefer_def IsrDeferLoop_top set_counts_def HalSetIrq_def)
next
  case False
  have "isr_top (IsrDisabledCount s) = isr_top ((IsrDisabledCount s)(l := IsrDisabledCount s l + 1))"
    unfolding isr_top_def using assms(2) False by (intro top_from_cong) auto
  with False show ?thesis
    using assms(1) by (simp add: IsrDisable_def set_counts_def isr_ok_def)
qed

lemma IsrEnable_counts:
  assumes "isr_ok s" and "IsrDisabledCount s l \<noteq> 0" and "l < IRQ_LEVEL_COUNT"
  shows "IsrEnable l s = Some (set_counts ((IsrDisabledCount s)(l := IsrDisabledCount s l - 1)) s)"
proof -
  have pos: "IsrDisabledCount s l > 0" using assms(2) by (simp add: word_neq_0_conv)
  note at = isr_ok_atomic [OF assms]
  show ?thesis
  proof (cases "IsrDisabledCount s l = 1")
    case True
    have "top_from (\<lambda>k. ((IsrDisabledCount s)(l := IsrDisabledCount s l - 1)) k \<noteq> 0 \<or> k = l \<and> \<not> True)
        (IRQ_LEVEL_COUNT - 1) = isr_top ((IsrDisabledCount s)(l := IsrDisabledCount s l - 1))"
      unfolding isr_top_def by (intro top_from_cong) auto
    with True pos at show ?thesis
      by (simp add: IsrEnable_def IsrDefer_def IsrDeferLoop_top set_counts_def HalSetIrq_def)
  next
    case False
    then have "isr_top (IsrDisabledCount s) = isr_top ((IsrDisabledCount s)(l := IsrDisabledCount s l - 1))"
      unfolding isr_top_def using assms(2) by (intro top_from_cong) auto
    with False pos at show ?thesis
      using assms(1) by (simp add: IsrEnable_def set_counts_def isr_ok_def)
  qed
qed

lemma isr_pair:
  assumes "isr_ok s" and "IsrDisabledCount s l + 1 \<noteq> 0" and "l < IRQ_LEVEL_COUNT"
  shows "IsrEnable l (IsrDisable l s) = Some s"
proof -
  let ?c = "(IsrDisabledCount s)(l := IsrDisabledCount s l + 1)"
  have "IsrDisable l s = set_counts ?c s" by (rule IsrDisable_counts [OF assms])
  moreover have "IsrEnable l (set_counts ?c s) = Some (set_counts (IsrDisabledCount s) s)"
    using IsrEnable_counts [OF set_counts_ok [OF assms(1)], of ?c l] assms(2,3)
    by (simp add: set_counts_def)
  ultimately show ?thesis using set_counts_same [OF assms(1)] by simp
qed

text \<open>A section that disables a level, changes other parts of the state and enables the level again
  is that change.\<close>

lemma isr_section:
  assumes "isr_ok s" and "IsrDisabledCount s l + 1 \<noteq> 0" and "l < IRQ_LEVEL_COUNT"
    and "isr_ok (u s)" and "IsrDisabledCount (u s) = IsrDisabledCount s" and "\<And>c. u (set_counts c s) = set_counts c (u s)"
  shows "IsrEnable l (u (IsrDisable l s)) = Some (u s)"
proof -
  have "u (IsrDisable l s) = IsrDisable l (u s)"
    using IsrDisable_counts [OF assms(1-3)] IsrDisable_counts [of "u s" l] assms by simp
  then show ?thesis using isr_pair [of "u s" l] assms by simp
qed

section \<open>Nested critical sections\<close>

datatype irq_call = Disable IRQ_LEVEL | Enable IRQ_LEVEL

fun irq_run :: "irq_call list \<Rightarrow> 'a isr_state_scheme \<Rightarrow> 'a isr_state_scheme option" where
  "irq_run [] s = Some s"
| "irq_run (Disable l # cs) s = irq_run cs (IsrDisable l s)"
| "irq_run (Enable l # cs) s = Option.bind (IsrEnable l s) (irq_run cs)"

text \<open>Every section that is opened is closed again, sections of any levels inside each other.\<close>

inductive balanced :: "irq_call list \<Rightarrow> bool" where
  balanced_empty: "balanced []"
| balanced_section: "l < IRQ_LEVEL_COUNT \<Longrightarrow> balanced cs \<Longrightarrow> balanced ds \<Longrightarrow>
    balanced (Disable l # cs @ Enable l # ds)"

lemma irq_run_append: "irq_run (cs @ ds) s = Option.bind (irq_run cs s) (irq_run ds)"
proof (induction cs s rule: irq_run.induct)
  case (3 l cs s)
  then show ?case by (cases "IsrEnable l s") auto
qed auto

lemma count_room:
  "unat (c :: COUNT) + n < 2 ^ 64 \<Longrightarrow> 0 < n \<Longrightarrow> c + 1 \<noteq> 0 \<and> unat (c + 1) = unat c + 1"
  using unat_Suc_word [of c] by (auto simp: unat_eq_0 [symmetric])

lemma balanced_run:
  "balanced cs \<Longrightarrow> isr_ok s \<Longrightarrow> \<forall>l. unat (IsrDisabledCount s l) + length cs < 2 ^ 64 \<Longrightarrow> irq_run cs s = Some s"
proof (induction arbitrary: s rule: balanced.induct)
  case (balanced_section l cs ds)
  let ?s = "IsrDisable l s"
  have room: "IsrDisabledCount s l + 1 \<noteq> 0" "unat (IsrDisabledCount s l + 1) = unat (IsrDisabledCount s l) + 1"
    using count_room [of "IsrDisabledCount s l" 2] balanced_section.prems(2) [rule_format, of l] by auto
  have eq: "?s = set_counts ((IsrDisabledCount s)(l := IsrDisabledCount s l + 1)) s"
    by (rule IsrDisable_counts [OF balanced_section.prems(1) room(1) balanced_section.hyps(1)])
  have ok: "isr_ok ?s" unfolding eq by (rule set_counts_ok [OF balanced_section.prems(1)])
  have "\<forall>k. unat (IsrDisabledCount ?s k) + length cs < 2 ^ 64"
  proof
    fix k
    show "unat (IsrDisabledCount ?s k) + length cs < 2 ^ 64"
      using balanced_section.prems(2) [rule_format, of k] room(2) unfolding eq
      by (cases "k = l") (simp_all add: set_counts_def)
  qed
  then have "irq_run cs ?s = Some ?s" by (rule balanced_section.IH(1) [OF ok])
  moreover have "IsrEnable l ?s = Some s"
    by (rule isr_pair [OF balanced_section.prems(1) room(1) balanced_section.hyps(1)])
  moreover have less: "unat (IsrDisabledCount s k) + length ds < 2 ^ 64" for k
    using balanced_section.prems(2) [rule_format, of k] by simp
  have "irq_run ds s = Some s"
    by (rule balanced_section.IH(2) [OF balanced_section.prems(1)])
      (use less in blast)
  ultimately show ?case by (simp add: irq_run_append)
qed simp

lemma IsrAtomicLoop_counts:
  assumes ok: "isr_ok s" and strict: "\<forall>k < IRQ_LEVEL_COUNT. isr_top (IsrDisabledCount s) < k \<longrightarrow>
      \<not> HalIrqToMask s k \<subseteq> HalIrqToMask s (isr_top (IsrDisabledCount s))"
    and "0 < level"
  shows "level + n \<le> IRQ_LEVEL_COUNT \<Longrightarrow> isr_top (IsrDisabledCount s) < level + n \<Longrightarrow>
     IsrAtomicLoop n level s = Some (\<exists>k < n. IsrDisabledCount s (level + k) \<noteq> 0)"
proof (induction n)
  case (Suc n)
  show ?case
  proof (cases "IsrDisabledCount s (level + n) = 0")
    case True
    have ne: "isr_top (IsrDisabledCount s) \<noteq> level + n"
    proof
      assume eq: "isr_top (IsrDisabledCount s) = level + n"
      have top: "top_from P m \<noteq> 0 \<Longrightarrow> P (top_from P m)" for P m by (induction m) auto
      have "isr_top (IsrDisabledCount s) \<noteq> 0" using eq assms(3) by simp
      then have "IsrDisabledCount s (isr_top (IsrDisabledCount s)) \<noteq> 0"
        unfolding isr_top_def by (rule top)
      with eq True show False by simp
    qed
    then have lt: "isr_top (IsrDisabledCount s) < level + n" using Suc.prems(2) by simp
    have "\<not> HalIsIrqAtomic (level + n) s"
      using strict lt Suc.prems(1) ok by (simp add: isr_ok_def HalIsIrqAtomic_subset)
    then show ?thesis
      using True Suc.IH Suc.prems(1) lt by (simp add: less_Suc_eq) (metis less_irrefl)
  next
    case False
    then have "HalIsIrqAtomic (level + n) s"
      using isr_ok_atomic [OF ok] Suc.prems(1) by simp
    with False show ?thesis by auto
  qed
qed simp

section \<open>Properties\<close>

text \<open>(C20) Critical sections nest: any well-bracketed sequence of \<^verbatim>\<open>IsrDisable\<close> and
  \<^verbatim>\<open>IsrEnable\<close> calls, of any levels inside each other, runs without an assertion failing
  and leaves counts and signal mask exactly as they were.\<close>

theorem isr_nesting:
  assumes "balanced cs" and "isr_ok s" and "\<forall>l. unat (IsrDisabledCount s l) + length cs < 2 ^ 64"
  shows "irq_run cs s = Some s"
  using assms by (rule balanced_run)

definition isr0 :: isr_state where
  "isr0 = IsrStartup (hal_state.extend hal0 (isr_state.fields (\<lambda>_. 0) (\<lambda>_. None)))\<lparr>sig_mask := {HAL_ISR_TRAMPOLINE}\<rparr>"

lemma isr0_ok: "isr_ok isr0" "IsrDisabledCount isr0 l = 0" "HalIrqToMask isr0 IRQ_LEVEL_CRIT = {HAL_ISR_TRAMPOLINE}"
proof -
  show c: "IsrDisabledCount isr0 l = 0" for l
    by (simp add: isr0_def IsrStartup_def hal_state.defs isr_state.defs)
  have "hal_ok isr0"
    using hal_ok_init [of "hal_state.extend hal0 (isr_state.fields (\<lambda>_. 0) (\<lambda>_. None))"]
    by (simp add: isr0_def IsrStartup_def hal_ok_def)
  moreover have "isr_top (IsrDisabledCount isr0) = 0"
  proof -
    have "top_from (\<lambda>l. IsrDisabledCount isr0 l \<noteq> 0) n = 0" for n by (induction n) (simp_all add: c)
    then show ?thesis by (simp only: isr_top_def)
  qed
  ultimately show "isr_ok isr0"
    by (simp add: isr_ok_def)
      (simp add: isr0_def IsrStartup_def HalIsrInit_def HalBlockSignal_def HalClearSignals_def)
  show "HalIrqToMask isr0 IRQ_LEVEL_CRIT = {HAL_ISR_TRAMPOLINE}"
    by (simp add: isr0_def IsrStartup_def HalIsrInit_def HalBlockSignal_def HalClearSignals_def)
qed

theorem isr_nesting_witness:
  "irq_run [Disable 1, Disable 5, Enable 5, Disable 1, Enable 1, Enable 1] isr0 = Some isr0"
proof (rule isr_nesting)
  have b1: "balanced [Disable 1, Enable 1]" "balanced (Disable 5 # [] @ Enable 5 # [Disable 1, Enable 1])"
    using balanced_section [OF _ balanced_empty balanced_empty, of 1]
      balanced_section [OF _ balanced_empty, of 5 "[Disable 1, Enable 1]"] by auto
  show "balanced [Disable 1, Disable 5, Enable 5, Disable 1, Enable 1, Enable 1]"
    using balanced_section [OF _ b1(2) balanced_empty, of 1] by simp
qed (simp_all add: isr0_ok)

text \<open>(C21) While a level is disabled, that level and every level below it is atomic: no signal of a
  handler registered there can be delivered. The invariant that ties the mask to the counts is
  kept.\<close>

theorem isr_disable_blocks:
  assumes "isr_ok s" and "IsrDisabledCount s l + 1 \<noteq> 0" and "l < IRQ_LEVEL_COUNT" and "k \<le> l"
    and "sig \<in> HalIrqToMask s k"
  shows "isr_ok (IsrDisable l s) \<and> HalIsIrqAtomic k (IsrDisable l s) \<and>
     deliver handler sig (IsrDisable l s) = None"
proof -
  let ?c = "(IsrDisabledCount s)(l := IsrDisabledCount s l + 1)"
  have eq: "IsrDisable l s = set_counts ?c s" by (rule IsrDisable_counts [OF assms(1-3)])
  have ok: "isr_ok (IsrDisable l s)" unfolding eq by (rule set_counts_ok [OF assms(1)])
  have "k \<le> isr_top ?c"
    using isr_top_ge [of ?c l] assms(2-4) by simp
  then have sub: "HalIrqToMask s k \<subseteq> HalIrqToMask s (isr_top ?c)"
    using hal_ok_mono isr_top_less assms(1) by (auto simp: isr_ok_def)
  then have "sig \<in> sig_mask (IsrDisable l s)" using assms(5) by (auto simp: eq set_counts_def)
  moreover have "HalIsIrqAtomic k (IsrDisable l s)"
    using sub ok assms(3,4) by (subst HalIsIrqAtomic_subset) (auto simp: isr_ok_def eq set_counts_def)
  ultimately show ?thesis using ok by (simp add: deliver_def split: option.split)
qed

theorem isr_disable_blocks_witness:
  "isr_ok (IsrDisable IRQ_LEVEL_SOFT isr0) \<and> HalIsIrqAtomic IRQ_LEVEL_CRIT (IsrDisable IRQ_LEVEL_SOFT isr0) \<and>
     deliver (\<lambda>_. Some) HAL_ISR_TRAMPOLINE (IsrDisable IRQ_LEVEL_SOFT isr0) = None"
  by (rule isr_disable_blocks) (simp_all add: isr0_ok [simplified])

text \<open>The sanity check \<^verbatim>\<open>IsrIsAtomic\<close> is exact and its assertions hold, as long as every
  level above the one in force blocks some further signal, that is has a handler of its own.\<close>

theorem isr_is_atomic_exact:
  assumes "isr_ok s" and "0 < level" and "level < IRQ_LEVEL_COUNT"
    and "\<forall>k < IRQ_LEVEL_COUNT. isr_top (IsrDisabledCount s) < k \<longrightarrow>
      \<not> HalIrqToMask s k \<subseteq> HalIrqToMask s (isr_top (IsrDisabledCount s))"
  shows "IsrIsAtomic level s = Some (\<exists>k. level \<le> k \<and> k < IRQ_LEVEL_COUNT \<and> IsrDisabledCount s k \<noteq> 0)"
proof -
  have "IsrAtomicLoop (IRQ_LEVEL_COUNT - level) level s =
      Some (\<exists>k < IRQ_LEVEL_COUNT - level. IsrDisabledCount s (level + k) \<noteq> 0)"
    using IsrAtomicLoop_counts [OF assms(1,4,2), of "IRQ_LEVEL_COUNT - level"] assms(3)
      isr_top_less [of "IsrDisabledCount s"] by simp
  moreover have "(\<exists>k < IRQ_LEVEL_COUNT - level. IsrDisabledCount s (level + k) \<noteq> 0) \<longleftrightarrow>
      (\<exists>k. level \<le> k \<and> k < IRQ_LEVEL_COUNT \<and> IsrDisabledCount s k \<noteq> 0)"
    by (metis add.commute le_add1 le_add_diff_inverse less_diff_conv)
  ultimately show ?thesis using assms(2) by (simp add: IsrIsAtomic_def)
qed

definition isr1 :: isr_state where
  "isr1 = isr0\<lparr>HalIrqToMask := (\<lambda>l. {1..<l + 2}), sig_mask := {1..<2}\<rparr>"

theorem isr_is_atomic_exact_witness:
  "IsrIsAtomic IRQ_LEVEL_CRIT isr1 =
     Some (\<exists>k. IRQ_LEVEL_CRIT \<le> k \<and> k < IRQ_LEVEL_COUNT \<and> IsrDisabledCount isr1 k \<noteq> 0)"
proof (rule isr_is_atomic_exact)
  have "top_from (\<lambda>l. IsrDisabledCount isr1 l \<noteq> 0) n = 0" for n
    by (induction n) (simp_all add: isr1_def isr0_ok)
  then have top: "isr_top (IsrDisabledCount isr1) = 0" by (simp only: isr_top_def)
  show "isr_ok isr1" unfolding isr_ok_def top by (auto simp: hal_ok_def isr1_def)
  show "\<forall>k < IRQ_LEVEL_COUNT. isr_top (IsrDisabledCount isr1) < k \<longrightarrow>
      \<not> HalIrqToMask isr1 k \<subseteq> HalIrqToMask isr1 (isr_top (IsrDisabledCount isr1))"
    unfolding top by (auto simp: isr1_def dest!: subsetD [of _ _ 2])
qed simp_all

end
