(* ===== verification/Handler.thy ===== *)
theory Handler
  imports Isr
begin

text \<open>
  Callback handlers, \<^verbatim>\<open>src/kernel/handler.c\<close>, and the two queues they are run from,
  \<^verbatim>\<open>src/kernel/critinterrupt.c\<close> and \<^verbatim>\<open>src/kernel/softinterrupt.c\<close>. A handler
  object is named by its address; function pointers are names, and what the functions do is an
  argument of the operations that call them. The atomic lists of queued handlers are last-in
  first-out lists, as \<open>AtomicList\<close> shows them to be.
\<close>

section \<open>Handler objects\<close>

datatype HANDLER_STATE = HANDLER_READY | HANDLER_QUEUED | HANDLER_RUNNING

datatype HANDLER_FUNCTION =
    SchedulerTimerHandler_f
  | SchedulerCritHandler_f
  | SleepTimerHandler_f
  | SleepCritHandler_f
  | GenerationUpdateHandler_f
  | User_f nat

datatype HANDLER_COMPLETE_FUNCTION = PostCritHandler_f | UserComplete_f nat

record HANDLER_OBJECT =
  ho_Function :: "HANDLER_FUNCTION option"
  ho_Context :: ptr
  ho_CompleteFunction :: "HANDLER_COMPLETE_FUNCTION option"
  ho_State :: HANDLER_STATE

record handler_state = isr_state +
  Handlers :: "addr \<Rightarrow> HANDLER_OBJECT"
  CritInterruptHandlerList :: "addr list"
  SoftInterruptHandlerList :: "addr list"

definition upd_handler ::
    "addr \<Rightarrow> (HANDLER_OBJECT \<Rightarrow> HANDLER_OBJECT) \<Rightarrow> 'a handler_state_scheme \<Rightarrow> 'a handler_state_scheme" where
  "upd_handler h f s = s\<lparr>Handlers := (Handlers s)(h := f (Handlers s h))\<rparr>"

definition HandlerInit :: "addr \<Rightarrow> 'a handler_state_scheme \<Rightarrow> 'a handler_state_scheme" where
  "HandlerInit h s = upd_handler h (\<lambda>ho. ho\<lparr>ho_Context := NULL, ho_Function := None,
     ho_CompleteFunction := None, ho_State := HANDLER_READY\<rparr>) s"

definition HandlerCompetion ::
    "addr \<Rightarrow> HANDLER_COMPLETE_FUNCTION \<Rightarrow> 'a handler_state_scheme \<Rightarrow> 'a handler_state_scheme option" where
  "HandlerCompetion h foo s =
     do {
       ASSERT (ho_State (Handlers s h) = HANDLER_READY);
       ASSERT (ho_CompleteFunction (Handlers s h) = None);
       Some (upd_handler h (\<lambda>ho. ho\<lparr>ho_CompleteFunction := Some foo\<rparr>) s)
     }"

definition HandlerRegister :: "addr \<Rightarrow> 'a handler_state_scheme \<Rightarrow> 'a handler_state_scheme option" where
  "HandlerRegister h s =
     do {
       ASSERT (ho_State (Handlers s h) = HANDLER_READY \<or> ho_State (Handlers s h) = HANDLER_RUNNING);
       Some (upd_handler h (\<lambda>ho. ho\<lparr>ho_State := HANDLER_QUEUED\<rparr>) s)
     }"

definition HandlerRun :: "addr \<Rightarrow> 'a handler_state_scheme \<Rightarrow> 'a handler_state_scheme option" where
  "HandlerRun h s =
     do {
       ASSERT (ho_State (Handlers s h) = HANDLER_QUEUED);
       Some (upd_handler h (\<lambda>ho. ho\<lparr>ho_State := HANDLER_RUNNING\<rparr>) s)
     }"

definition HandlerFinish ::
    "(HANDLER_COMPLETE_FUNCTION \<Rightarrow> addr \<Rightarrow> 'a handler_state_scheme \<Rightarrow> 'a handler_state_scheme option) \<Rightarrow>
     addr \<Rightarrow> 'a handler_state_scheme \<Rightarrow> 'a handler_state_scheme option" where
  "HandlerFinish complete h s =
     do {
       let foo = ho_CompleteFunction (Handlers s h);
       ASSERT (ho_State (Handlers s h) = HANDLER_RUNNING);
       let s = upd_handler h (\<lambda>ho. ho\<lparr>ho_State := HANDLER_READY\<rparr>) s;
       (case foo of Some f \<Rightarrow> complete f h s | None \<Rightarrow> Some s)
     }"

definition HandlerIsFinished :: "addr \<Rightarrow> 'a handler_state_scheme \<Rightarrow> bool" where
  "HandlerIsFinished h s = (ho_State (Handlers s h) = HANDLER_READY)"

section \<open>The critical and the soft interrupt queue\<close>

definition CritInterruptStartup :: "'a handler_state_scheme \<Rightarrow> 'a handler_state_scheme option" where
  "CritInterruptStartup s =
     IsrRegisterHandler CritInterrupt_isr HAL_ISR_CRIT IRQ_LEVEL_CRIT (s\<lparr>CritInterruptHandlerList := []\<rparr>)"

definition SoftInterruptStartup :: "'a handler_state_scheme \<Rightarrow> 'a handler_state_scheme option" where
  "SoftInterruptStartup s =
     IsrRegisterHandler SoftInterrupt_isr HAL_ISR_SOFT IRQ_LEVEL_SOFT (s\<lparr>SoftInterruptHandlerList := []\<rparr>)"

text \<open>One pass of the loops: run the handler popped, and finish it if its function says so.\<close>

definition run_handler ::
    "(HANDLER_FUNCTION \<Rightarrow> addr \<Rightarrow> 'a handler_state_scheme \<Rightarrow> (bool \<times> 'a handler_state_scheme) option) \<Rightarrow>
     (HANDLER_COMPLETE_FUNCTION \<Rightarrow> addr \<Rightarrow> 'a handler_state_scheme \<Rightarrow> 'a handler_state_scheme option) \<Rightarrow>
     addr \<Rightarrow> 'a handler_state_scheme \<Rightarrow> 'a handler_state_scheme option" where
  "run_handler call complete h s =
     do {
       s \<leftarrow> HandlerRun h s;
       func \<leftarrow> ho_Function (Handlers s h);
       (isComplete, s) \<leftarrow> call func h s;
       (if isComplete then HandlerFinish complete h s else Some s)
     }"

partial_function (option) CritInterrupt ::
    "(HANDLER_FUNCTION \<Rightarrow> addr \<Rightarrow> 'a handler_state_scheme \<Rightarrow> (bool \<times> 'a handler_state_scheme) option) \<Rightarrow>
     (HANDLER_COMPLETE_FUNCTION \<Rightarrow> addr \<Rightarrow> 'a handler_state_scheme \<Rightarrow> 'a handler_state_scheme option) \<Rightarrow>
     'a handler_state_scheme \<Rightarrow> 'a handler_state_scheme option" where
  "CritInterrupt call complete s =
     (case CritInterruptHandlerList s of
        [] \<Rightarrow> Some s
      | h # hs \<Rightarrow>
          Option.bind (run_handler call complete h (s\<lparr>CritInterruptHandlerList := hs\<rparr>))
            (CritInterrupt call complete))"

partial_function (option) SoftInterrupt ::
    "(HANDLER_FUNCTION \<Rightarrow> addr \<Rightarrow> 'a handler_state_scheme \<Rightarrow> (bool \<times> 'a handler_state_scheme) option) \<Rightarrow>
     (HANDLER_COMPLETE_FUNCTION \<Rightarrow> addr \<Rightarrow> 'a handler_state_scheme \<Rightarrow> 'a handler_state_scheme option) \<Rightarrow>
     'a handler_state_scheme \<Rightarrow> 'a handler_state_scheme option" where
  "SoftInterrupt call complete s =
     (case SoftInterruptHandlerList s of
        [] \<Rightarrow> Some s
      | h # hs \<Rightarrow>
          Option.bind (run_handler call complete h (s\<lparr>SoftInterruptHandlerList := hs\<rparr>))
            (SoftInterrupt call complete))"

definition CritInterruptRegisterHandler ::
    "addr \<Rightarrow> HANDLER_FUNCTION option \<Rightarrow> ptr \<Rightarrow> 'a handler_state_scheme \<Rightarrow> 'a handler_state_scheme option" where
  "CritInterruptRegisterHandler h foo context s =
     do {
       let s = upd_handler h (\<lambda>ho. ho\<lparr>ho_Function := foo, ho_Context := context\<rparr>) s;
       s \<leftarrow> HandlerRegister h s;
       let s = s\<lparr>CritInterruptHandlerList := h # CritInterruptHandlerList s\<rparr>;
       Some (HalRaiseInterrupt IRQ_LEVEL_CRIT s)
     }"

definition SoftInterruptRegisterHandler ::
    "addr \<Rightarrow> HANDLER_FUNCTION option \<Rightarrow> ptr \<Rightarrow> 'a handler_state_scheme \<Rightarrow> 'a handler_state_scheme option" where
  "SoftInterruptRegisterHandler h foo context s =
     do {
       let s = upd_handler h (\<lambda>ho. ho\<lparr>ho_Function := foo, ho_Context := context\<rparr>) s;
       s \<leftarrow> HandlerRegister h s;
       let s = s\<lparr>SoftInterruptHandlerList := h # SoftInterruptHandlerList s\<rparr>;
       Some (HalRaiseInterrupt IRQ_LEVEL_SOFT s)
     }"

section \<open>No handler is queued twice\<close>

text \<open>
  A handler object has a single link, so it can be on one queue at a time. \<open>queues_ok\<close>: the
  handlers on the two interrupt queues are distinct and all of them are in the queued state; the
  state machine is what keeps a handler from being pushed again.
\<close>

definition queues_ok :: "'a handler_state_scheme \<Rightarrow> bool" where
  "queues_ok s \<longleftrightarrow> distinct (CritInterruptHandlerList s @ SoftInterruptHandlerList s) \<and>
     (\<forall>h \<in> set (CritInterruptHandlerList s @ SoftInterruptHandlerList s). ho_State (Handlers s h) = HANDLER_QUEUED)"

lemma upd_handler_fields [simp]:
  "Handlers (upd_handler h f s) = (Handlers s)(h := f (Handlers s h))"
  "CritInterruptHandlerList (upd_handler h f s) = CritInterruptHandlerList s"
  "SoftInterruptHandlerList (upd_handler h f s) = SoftInterruptHandlerList s"
  "sig_pending (upd_handler h f s) = sig_pending s" "sig_mask (upd_handler h f s) = sig_mask s"
  "HalIrqToSignal (upd_handler h f s) = HalIrqToSignal s" "HalIrqToMask (upd_handler h f s) = HalIrqToMask s"
  "IsrDisabledCount (upd_handler h f s) = IsrDisabledCount s"
  by (simp_all add: upd_handler_def)

lemma HalRaiseInterrupt_fields [simp]:
  "Handlers (HalRaiseInterrupt l s) = Handlers s"
  "CritInterruptHandlerList (HalRaiseInterrupt l s) = CritInterruptHandlerList s"
  "SoftInterruptHandlerList (HalRaiseInterrupt l s) = SoftInterruptHandlerList s"
  "sig_pending (HalRaiseInterrupt l s) = insert (HalIrqToSignal s l) (sig_pending s)"
  "sig_mask (HalRaiseInterrupt l s) = sig_mask s" "HalIrqToMask (HalRaiseInterrupt l s) = HalIrqToMask s"
  "IsrDisabledCount (HalRaiseInterrupt l s) = IsrDisabledCount s"
  by (simp_all add: HalRaiseInterrupt_def)

text \<open>The state a registered handler is left in.\<close>

definition queued_as :: "HANDLER_FUNCTION option \<Rightarrow> ptr \<Rightarrow> HANDLER_OBJECT \<Rightarrow> HANDLER_OBJECT" where
  "queued_as foo ctx ho = ho\<lparr>ho_Function := foo, ho_Context := ctx, ho_State := HANDLER_QUEUED\<rparr>"

lemma CritInterruptRegisterHandler_eq:
  "CritInterruptRegisterHandler h foo ctx s =
     (if ho_State (Handlers s h) = HANDLER_QUEUED then None
      else Some (HalRaiseInterrupt IRQ_LEVEL_CRIT
        (upd_handler h (queued_as foo ctx) s\<lparr>CritInterruptHandlerList := h # CritInterruptHandlerList s\<rparr>)))"
  by (cases "ho_State (Handlers s h)")
    (simp_all add: CritInterruptRegisterHandler_def HandlerRegister_def upd_handler_def queued_as_def)

lemma SoftInterruptRegisterHandler_eq:
  "SoftInterruptRegisterHandler h foo ctx s =
     (if ho_State (Handlers s h) = HANDLER_QUEUED then None
      else Some (HalRaiseInterrupt IRQ_LEVEL_SOFT
        (upd_handler h (queued_as foo ctx) s\<lparr>SoftInterruptHandlerList := h # SoftInterruptHandlerList s\<rparr>)))"
  by (cases "ho_State (Handlers s h)")
    (simp_all add: SoftInterruptRegisterHandler_def HandlerRegister_def upd_handler_def queued_as_def)

section \<open>Draining a queue\<close>

text \<open>
  What the drain relies on of a handler's code: it completes, and it leaves the handler objects and
  the queue it is run from alone. \<open>calls\<close> reads off the state which functions have been called, on which
  handler objects and in which order; the bookkeeping of the handlers does not change it.
\<close>

definition one_shot ::
    "('a handler_state_scheme \<Rightarrow> (HANDLER_FUNCTION \<times> addr) list) \<Rightarrow>
     (HANDLER_FUNCTION \<Rightarrow> addr \<Rightarrow> 'a handler_state_scheme \<Rightarrow> (bool \<times> 'a handler_state_scheme) option) \<Rightarrow> bool" where
  "one_shot calls call \<longleftrightarrow>
     (\<forall>f h s. \<exists>s'. call f h s = Some (True, s') \<and> Handlers s' = Handlers s \<and>
        SoftInterruptHandlerList s' = SoftInterruptHandlerList s \<and> calls s' = calls s @ [(f, h)]) \<and>
     (\<forall>s x. calls (s\<lparr>Handlers := x\<rparr>) = calls s) \<and> (\<forall>s q. calls (s\<lparr>SoftInterruptHandlerList := q\<rparr>) = calls s)"

text \<open>The call that running a handler makes.\<close>

definition call_of :: "'a handler_state_scheme \<Rightarrow> addr \<Rightarrow> HANDLER_FUNCTION \<times> addr" where
  "call_of s h = (the (ho_Function (Handlers s h)), h)"

lemma run_handler_one_shot:
  assumes "one_shot calls call" and "ho_State (Handlers s h) = HANDLER_QUEUED" and "ho_Function (Handlers s h) \<noteq> None"
    and "ho_CompleteFunction (Handlers s h) = None"
  shows "\<exists>s'. run_handler call complete h s = Some s' \<and>
     Handlers s' = (Handlers s)(h := (Handlers s h)\<lparr>ho_State := HANDLER_READY\<rparr>) \<and>
     SoftInterruptHandlerList s' = SoftInterruptHandlerList s \<and> calls s' = calls s @ [call_of s h]"
proof -
  obtain f where f: "ho_Function (Handlers s h) = Some f" using assms(3) by blast
  let ?s = "upd_handler h (\<lambda>ho. ho\<lparr>ho_State := HANDLER_RUNNING\<rparr>) s"
  have c: "calls (upd_handler h g s) = calls s" for g s using assms(1) by (simp add: one_shot_def upd_handler_def)
  obtain s' where "call f h ?s = Some (True, s')" "Handlers s' = Handlers ?s"
      "SoftInterruptHandlerList s' = SoftInterruptHandlerList ?s" "calls s' = calls ?s @ [(f, h)]"
    using assms(1) unfolding one_shot_def by blast
  with f assms(2,4) show ?thesis
    by (auto simp: run_handler_def HandlerRun_def HandlerFinish_def call_of_def c)
qed

lemma SoftInterrupt_drains:
  assumes "one_shot calls call"
  shows "SoftInterruptHandlerList s = hs \<Longrightarrow> distinct hs \<Longrightarrow>
     \<forall>h\<in>set hs. ho_State (Handlers s h) = HANDLER_QUEUED \<and> ho_Function (Handlers s h) \<noteq> None \<and>
       ho_CompleteFunction (Handlers s h) = None \<Longrightarrow>
     \<exists>s'. SoftInterrupt call complete s = Some s' \<and> SoftInterruptHandlerList s' = [] \<and> calls s' = calls s @ map (call_of s) hs \<and>
       Handlers s' = (\<lambda>h. if h \<in> set hs then (Handlers s h)\<lparr>ho_State := HANDLER_READY\<rparr> else Handlers s h)"
proof (induction hs arbitrary: s)
  case Nil
  then show ?case by (subst SoftInterrupt.simps) simp
next
  case (Cons h hs)
  let ?s = "s\<lparr>SoftInterruptHandlerList := hs\<rparr>"
  have c: "calls ?s = calls s" using assms by (simp add: one_shot_def)
  obtain s1 where s1: "run_handler call complete h ?s = Some s1"
      "Handlers s1 = (Handlers s)(h := (Handlers s h)\<lparr>ho_State := HANDLER_READY\<rparr>)"
      "SoftInterruptHandlerList s1 = hs" "calls s1 = calls s @ [call_of s h]"
    using run_handler_one_shot [OF assms, of ?s h complete] Cons.prems(3) c by (auto simp: call_of_def)
  have same: "map (call_of s1) hs = map (call_of s) hs"
    using Cons.prems(2) s1(2) by (auto simp: call_of_def)
  have "\<exists>s'. SoftInterrupt call complete s1 = Some s' \<and> SoftInterruptHandlerList s' = [] \<and> calls s' = calls s1 @ map (call_of s1) hs \<and>
       Handlers s' = (\<lambda>h. if h \<in> set hs then (Handlers s1 h)\<lparr>ho_State := HANDLER_READY\<rparr> else Handlers s1 h)"
    by (rule Cons.IH) (use Cons.prems(2,3) s1 in auto)
  then show ?case
    using Cons.prems(1,2) s1(1,2,4) same by (subst SoftInterrupt.simps) (auto simp: fun_eq_iff)
qed

section \<open>Properties\<close>

text \<open>Registering a handler for an interrupt queue panics exactly when the handler is already
  queued; otherwise the handler becomes the first of the queue, in the queued state with the function
  and context given, the interrupt is raised, and no queue ever holds a handler twice.\<close>

theorem register_handler_correct:
  assumes "queues_ok s"
  shows "(SoftInterruptRegisterHandler h foo ctx s = None \<longleftrightarrow> ho_State (Handlers s h) = HANDLER_QUEUED) \<and>
     (CritInterruptRegisterHandler h foo ctx s = None \<longleftrightarrow> ho_State (Handlers s h) = HANDLER_QUEUED) \<and>
     (\<forall>s'. SoftInterruptRegisterHandler h foo ctx s = Some s' \<longrightarrow> queues_ok s' \<and>
        SoftInterruptHandlerList s' = h # SoftInterruptHandlerList s \<and>
        Handlers s' = (Handlers s)(h := queued_as foo ctx (Handlers s h)) \<and>
        HalIrqToSignal s IRQ_LEVEL_SOFT \<in> sig_pending s') \<and>
     (\<forall>s'. CritInterruptRegisterHandler h foo ctx s = Some s' \<longrightarrow> queues_ok s' \<and>
        CritInterruptHandlerList s' = h # CritInterruptHandlerList s \<and>
        Handlers s' = (Handlers s)(h := queued_as foo ctx (Handlers s h)) \<and>
        HalIrqToSignal s IRQ_LEVEL_CRIT \<in> sig_pending s')"
  using assms
  by (auto simp: SoftInterruptRegisterHandler_eq CritInterruptRegisterHandler_eq queues_ok_def
      queued_as_def HalRaiseInterrupt_def split: if_splits)

definition ready_handler :: HANDLER_OBJECT where
  "ready_handler = \<lparr>ho_Function = None, ho_Context = NULL, ho_CompleteFunction = None, ho_State = HANDLER_READY\<rparr>"

definition handlers0 :: handler_state where
  "handlers0 = isr_state.extend isr0 (handler_state.fields (\<lambda>_. ready_handler) [] [])"

lemma handlers0_fields: "Handlers handlers0 = (\<lambda>_. ready_handler)" "CritInterruptHandlerList handlers0 = []"
  "SoftInterruptHandlerList handlers0 = []"
  by (simp_all add: handlers0_def isr_state.defs handler_state.defs)

theorem register_handler_correct_witness:
  "\<exists>s'. CritInterruptRegisterHandler 3 (Some (User_f 1)) NULL handlers0 = Some s' \<and> queues_ok s' \<and>
     CritInterruptHandlerList s' = [3] \<and> HalIrqToSignal handlers0 IRQ_LEVEL_CRIT \<in> sig_pending s'"
proof -
  have "queues_ok handlers0" by (simp add: queues_ok_def handlers0_fields)
  note * = register_handler_correct [OF this, of 3 "Some (User_f 1)" NULL]
  then have "CritInterruptRegisterHandler 3 (Some (User_f 1)) NULL handlers0 \<noteq> None"
    by (simp add: handlers0_fields ready_handler_def)
  with * show ?thesis by (auto simp: handlers0_fields)
qed

text \<open>(C22) If the queued handlers' code completes without touching the queue, the soft interrupt
  calls the function of every handler that is queued, exactly once and on that handler, in the order of the queue and nothing
  else; it empties the queue, leaves each of them ready to be used again and all other handlers as they were; and it
  always returns. The handlers have a function and no completion function.\<close>

theorem soft_interrupt_drains:
  assumes "one_shot calls call" and "queues_ok s"
    and "\<forall>h\<in>set (SoftInterruptHandlerList s). ho_Function (Handlers s h) \<noteq> None \<and>
       ho_CompleteFunction (Handlers s h) = None"
  shows "\<exists>s'. SoftInterrupt call complete s = Some s' \<and> SoftInterruptHandlerList s' = [] \<and>
     calls s' = calls s @ map (\<lambda>h. (the (ho_Function (Handlers s h)), h)) (SoftInterruptHandlerList s) \<and>
     (\<forall>h. if h \<in> set (SoftInterruptHandlerList s) then HandlerIsFinished h s' else Handlers s' h = Handlers s h)"
proof -
  have "distinct (SoftInterruptHandlerList s)" using assms(2) by (simp add: queues_ok_def)
  moreover have "\<forall>h\<in>set (SoftInterruptHandlerList s). ho_State (Handlers s h) = HANDLER_QUEUED \<and>
      ho_Function (Handlers s h) \<noteq> None \<and> ho_CompleteFunction (Handlers s h) = None"
    using assms(2,3) by (simp add: queues_ok_def)
  ultimately show ?thesis
    using SoftInterrupt_drains [OF assms(1) refl, of s complete]
    by (fastforce simp: HandlerIsFinished_def call_of_def [abs_def])
qed

text \<open>Two queued handlers; the calls are recorded in an additional component of the state.\<close>

definition logging :: "(HANDLER_FUNCTION \<times> addr) list handler_state_scheme" where
  "logging = handler_state.extend (handlers0\<lparr>Handlers := (\<lambda>_. ready_handler)(3 := queued_as (Some (User_f 1)) NULL ready_handler,
     5 := queued_as (Some (User_f 2)) NULL ready_handler), SoftInterruptHandlerList := [5, 3]\<rparr>) []"

lemma logging_fields: "Handlers logging = (\<lambda>_. ready_handler)(3 := queued_as (Some (User_f 1)) NULL ready_handler,
     5 := queued_as (Some (User_f 2)) NULL ready_handler)" "CritInterruptHandlerList logging = []"
  "SoftInterruptHandlerList logging = [5, 3]" "handler_state.more logging = []"
  by (simp_all add: logging_def handler_state.defs handlers0_fields)

theorem soft_interrupt_drains_witness:
  "\<exists>s'. SoftInterrupt (\<lambda>f h s. Some (True, handler_state.more_update (\<lambda>l. l @ [(f, h)]) s)) (\<lambda>_ _. Some) logging = Some s' \<and>
     SoftInterruptHandlerList s' = [] \<and> handler_state.more s' = [(User_f 2, 5), (User_f 1, 3)] \<and> HandlerIsFinished 3 s'"
proof -
  have "one_shot handler_state.more (\<lambda>f h (s :: (HANDLER_FUNCTION \<times> addr) list handler_state_scheme).
      Some (True, handler_state.more_update (\<lambda>l. l @ [(f, h)]) s))" by (simp add: one_shot_def)
  from soft_interrupt_drains [OF this, of logging "\<lambda>_ _. Some"] show ?thesis
    by (auto simp: queues_ok_def logging_fields queued_as_def ready_handler_def)
qed

end
