(* ===== verification/Timer.thy ===== *)
theory Timer
  imports Handler HeapQueue
begin

text \<open>
  The timer unit, \<^verbatim>\<open>src/kernel/timer.c\<close>, over the heaps of \<open>HeapQueue\<close>. Timers that
  expire before the clock wraps are in the heap \<^verbatim>\<open>Timers\<close> points to, those that expire after
  it in \<^verbatim>\<open>TimersOverflow\<close>; when the clock is seen to have wrapped the first heap is drained
  and the two change places. A heap pointer is the name of one of the two heaps.
\<close>

section \<open>State and operations\<close>

datatype timer_heap = TimerHeap1_p | TimerHeap2_p

record timer_state = handler_state +
  TimerLinks :: wstore
  TimerHeap1 :: HEAP
  TimerHeap2 :: HEAP
  Timers :: timer_heap
  TimersOverflow :: timer_heap
  TimerLastTime :: TIME

definition get_heap :: "timer_heap \<Rightarrow> 'a timer_state_scheme \<Rightarrow> HEAP" where
  "get_heap p s = (case p of TimerHeap1_p \<Rightarrow> TimerHeap1 s | TimerHeap2_p \<Rightarrow> TimerHeap2 s)"

definition put_heap :: "timer_heap \<Rightarrow> HEAP \<Rightarrow> 'a timer_state_scheme \<Rightarrow> 'a timer_state_scheme" where
  "put_heap p hp s = (case p of TimerHeap1_p \<Rightarrow> s\<lparr>TimerHeap1 := hp\<rparr> | TimerHeap2_p \<Rightarrow> s\<lparr>TimerHeap2 := hp\<rparr>)"

definition TimeGet :: "'a hal_state_scheme \<Rightarrow> TIME" where
  "TimeGet s = HalGetTime s"

partial_function (option) QueueTimers ::
    "TIME \<Rightarrow> timer_heap \<Rightarrow> 'a timer_state_scheme \<Rightarrow> 'a timer_state_scheme option" where
  "QueueTimers time hpp s =
     (if HeapSize (get_heap hpp s) > 0 then
        Option.bind (HeapHeadWeight (get_heap hpp s) (TimerLinks s)) (\<lambda>w.
          if w \<le> time then
            Option.bind (HeapPop (get_heap hpp s) (TimerLinks s)) (\<lambda>(node, hp, links).
              case node of None \<Rightarrow> None
              | Some timer \<Rightarrow>
                  Option.bind (HandlerRun timer (put_heap hpp hp (s\<lparr>TimerLinks := links\<rparr>))) (\<lambda>s.
                  Option.bind (SoftInterruptRegisterHandler timer (ho_Function (Handlers s timer))
                      (ho_Context (Handlers s timer)) s) (\<lambda>s.
                    QueueTimers time hpp s)))
          else Some s)
      else Some s)"

definition TimerSetNextTimer :: "TIME \<Rightarrow> 'a timer_state_scheme \<Rightarrow> 'a timer_state_scheme option" where
  "TimerSetNextTimer time s =
     (if HeapSize (get_heap (Timers s) s) > 0 then
        do {
          nextTimer \<leftarrow> HeapHeadWeight (get_heap (Timers s) s) (TimerLinks s);
          let delta = nextTimer - time;
          Some (HalSetTimer delta s)
        }
      else
        (let rollover = - 1 - time in Some (HalSetTimer (rollover + 1) s)))"

definition TimerInner :: "TIME \<Rightarrow> 'a timer_state_scheme \<Rightarrow> 'a timer_state_scheme option" where
  "TimerInner time s =
     do {
       s \<leftarrow> (if time < TimerLastTime s then
              do {
                s \<leftarrow> QueueTimers (- 1) (Timers s) s;
                ASSERT (HeapSize (get_heap (Timers s) s) = 0);
                let temp = Timers s;
                Some (s\<lparr>Timers := TimersOverflow s, TimersOverflow := temp\<rparr>)
              }
            else Some s);
       s \<leftarrow> QueueTimers time (Timers s) s;
       s \<leftarrow> TimerSetNextTimer time s;
       Some (s\<lparr>TimerLastTime := time\<rparr>)
     }"

definition TimerStartup :: "'a timer_state_scheme \<Rightarrow> 'a timer_state_scheme option" where
  "TimerStartup s =
     do {
       let s = HalInitClock s;
       let s = s\<lparr>TimerLastTime := TimeGet s\<rparr>;
       let s = s\<lparr>TimerHeap1 := HeapInit (TimerHeap1 s), TimerHeap2 := HeapInit (TimerHeap2 s)\<rparr>;
       let s = s\<lparr>Timers := TimerHeap1_p, TimersOverflow := TimerHeap2_p\<rparr>;
       s \<leftarrow> IsrRegisterHandler TimerInterrupt_isr HAL_ISR_TIMER IRQ_LEVEL_TIMER s;
       TimerSetNextTimer (TimerLastTime s) s
     }"

definition TimerRegister ::
    "addr \<Rightarrow> TIME \<Rightarrow> HANDLER_FUNCTION option \<Rightarrow> ptr \<Rightarrow> 'a timer_state_scheme \<Rightarrow> 'a timer_state_scheme option" where
  "TimerRegister newTimer wait handler context s =
     do {
       let time = TimeGet s;
       let timerTime = time + wait;
       let s = IsrDisable IRQ_LEVEL_MAX s;
       s \<leftarrow> HandlerRegister newTimer s;
       let s = upd_handler newTimer (\<lambda>ho. ho\<lparr>ho_Function := handler, ho_Context := context\<rparr>) s;
       let hpp = (if timerTime \<ge> time then Timers s else TimersOverflow s);
       (hp, links) \<leftarrow> HeapAdd timerTime (Some newTimer) (get_heap hpp s) (TimerLinks s);
       let s = put_heap hpp hp (s\<lparr>TimerLinks := links\<rparr>);
       s \<leftarrow> IsrEnable IRQ_LEVEL_MAX s;
       TimerSetNextTimer time s
     }"

definition TimerInterrupt :: "'a timer_state_scheme \<Rightarrow> 'a timer_state_scheme option" where
  "TimerInterrupt s = (let s = HalResetClock s in TimerInner (TimeGet s) s)"

section \<open>The timers of a state\<close>

lemma heap_rep_frame:
  assumes "heap_rep s hp t" and "\<forall>a\<in>set_tree t. s' a = s a"
  shows "heap_rep s' hp t"
proof -
  have "tree_at s' NULL t" using assms by (auto simp: heap_rep_def intro: tree_at_frame)
  moreover have "heap_ord (wgt s') t = heap_ord (wgt s) t"
    by (rule heap_ord_cong) (use assms(2) in \<open>simp add: wgt_def\<close>)
  ultimately show ?thesis using assms(1) by (simp add: heap_rep_def)
qed

lemma get_put_heap [simp]:
  "get_heap p (put_heap q hp s) = (if p = q then hp else get_heap p s)"
  "TimerLinks (put_heap q hp s) = TimerLinks s" "Handlers (put_heap q hp s) = Handlers s"
  "SoftInterruptHandlerList (put_heap q hp s) = SoftInterruptHandlerList s"
  "CritInterruptHandlerList (put_heap q hp s) = CritInterruptHandlerList s"
  "Timers (put_heap q hp s) = Timers s" "TimersOverflow (put_heap q hp s) = TimersOverflow s"
  "TimerLastTime (put_heap q hp s) = TimerLastTime s"
  "IsrDisabledCount (put_heap q hp s) = IsrDisabledCount s" "sig_mask (put_heap q hp s) = sig_mask s"
  "HalIrqToMask (put_heap q hp s) = HalIrqToMask s"
  by (cases p; cases q; simp add: get_heap_def put_heap_def)+

lemma get_heap_other [simp]:
  "get_heap p (upd_handler h f s) = get_heap p s" "get_heap p (HalRaiseInterrupt l s) = get_heap p s"
  "get_heap p (s\<lparr>SoftInterruptHandlerList := x\<rparr>) = get_heap p s" "get_heap p (s\<lparr>TimerLinks := ls\<rparr>) = get_heap p s"
  "get_heap p (HalSetTimer d s) = get_heap p s" "get_heap p (s\<lparr>TimerLastTime := t\<rparr>) = get_heap p s"
  "get_heap p (s\<lparr>Timers := a\<rparr>) = get_heap p s" "get_heap p (s\<lparr>TimersOverflow := a\<rparr>) = get_heap p s"
  "get_heap p (s\<lparr>sig_mask := m\<rparr>) = get_heap p s" "get_heap p (s\<lparr>IsrDisabledCount := c\<rparr>) = get_heap p s"
  by (cases p; simp add: get_heap_def upd_handler_def HalRaiseInterrupt_def HalSetTimer_def Let_def)+

lemma timer_fields [simp]:
  "TimerLinks (upd_handler h f s) = TimerLinks s" "Timers (upd_handler h f s) = Timers s"
  "TimersOverflow (upd_handler h f s) = TimersOverflow s" "TimerLastTime (upd_handler h f s) = TimerLastTime s"
  "TimerLinks (HalRaiseInterrupt l s) = TimerLinks s" "Timers (HalRaiseInterrupt l s) = Timers s"
  "TimersOverflow (HalRaiseInterrupt l s) = TimersOverflow s" "TimerLastTime (HalRaiseInterrupt l s) = TimerLastTime s"
  "TimerLinks (HalSetTimer d s) = TimerLinks s" "Timers (HalSetTimer d s) = Timers s"
  "TimersOverflow (HalSetTimer d s) = TimersOverflow s" "TimerLastTime (HalSetTimer d s) = TimerLastTime s"
  "Handlers (HalSetTimer d s) = Handlers s" "SoftInterruptHandlerList (HalSetTimer d s) = SoftInterruptHandlerList s"
  "CritInterruptHandlerList (HalSetTimer d s) = CritInterruptHandlerList s"
  by (simp_all add: upd_handler_def HalRaiseInterrupt_def HalSetTimer_def Let_def)

text \<open>\<open>timer_heap_ok p A s\<close>: heap \<open>p\<close> holds exactly the timers \<open>A\<close>, all of
  them queued and none of them on an interrupt queue.\<close>

definition timer_heap_ok :: "timer_heap \<Rightarrow> addr set \<Rightarrow> 'a timer_state_scheme \<Rightarrow> bool" where
  "timer_heap_ok p A s \<longleftrightarrow>
     (\<exists>t. heap_rep (TimerLinks s) (get_heap p s) t \<and> set_tree t = A) \<and>
     (\<forall>h\<in>A. ho_State (Handlers s h) = HANDLER_QUEUED) \<and>
     A \<inter> set (CritInterruptHandlerList s @ SoftInterruptHandlerList s) = {}"

abbreviation deadline :: "'a timer_state_scheme \<Rightarrow> addr \<Rightarrow> TIME" where
  "deadline s \<equiv> wgt (TimerLinks s)"

text \<open>One pass of the loop of \<^verbatim>\<open>QueueTimers\<close> moves the earliest timer to the soft
  interrupt queue.\<close>

lemma queue_one:
  assumes ok: "timer_heap_ok p A s" and q: "queues_ok s" and ne: "A \<noteq> {}"
  obtains m s1 where "m \<in> A" and "\<forall>a\<in>A. deadline s m \<le> deadline s a"
    and "\<forall>time. QueueTimers time p s = (if deadline s m \<le> time then QueueTimers time p s1 else Some s)"
    and "timer_heap_ok p (A - {m}) s1" and "queues_ok s1" and "deadline s1 = deadline s"
    and "SoftInterruptHandlerList s1 = m # SoftInterruptHandlerList s"
    and "CritInterruptHandlerList s1 = CritInterruptHandlerList s"
    and "Handlers s1 = Handlers s" and "\<forall>a. a \<notin> A \<longrightarrow> TimerLinks s1 a = TimerLinks s a"
    and "\<forall>p'. p' \<noteq> p \<longrightarrow> get_heap p' s1 = get_heap p' s" and "Timers s1 = Timers s"
    and "TimersOverflow s1 = TimersOverflow s" and "TimerLastTime s1 = TimerLastTime s"
proof -
  obtain t where t: "heap_rep (TimerLinks s) (get_heap p s) t" "set_tree t = A"
    using ok by (auto simp: timer_heap_ok_def)
  obtain m where m: "rootp t = Some m" using ne t(2) by (cases t) auto
  have mA: "m \<in> A" using rootp_in [OF m] t(2) by simp
  have size: "HeapSize (get_heap p s) > 0"
    using t(1) m by (cases t) (auto simp: heap_rep_def HeapSize_def word_neq_0_conv [symmetric])
  have hw: "HeapHeadWeight (get_heap p s) (TimerLinks s) = Some (deadline s m)"
    using t(1) m by (cases t) (auto simp: heap_rep_def HeapHeadWeight_def wl_get_def wgt_def)
  obtain hp' links' where pop: "HeapPop (get_heap p s) (TimerLinks s) = Some (Some m, hp', links')"
     "heap_rep links' hp' (heap_pop_tree (deadline s) t)" "wgt links' = deadline s"
     "\<forall>a. a \<notin> set_tree t \<longrightarrow> links' a = TimerLinks s a"
    using HeapPop_rep [OF t(1) m] by blast
  have rest: "set_tree (heap_pop_tree (deadline s) t) = A - {m}"
    using heap_pop_tree_facts(1) [of t "deadline s" m] t m by (auto simp: heap_rep_def)
  define s0 where "s0 = put_heap p hp' (s\<lparr>TimerLinks := links'\<rparr>)"
  have st: "ho_State (Handlers s0 m) = HANDLER_QUEUED" using ok mA by (simp add: s0_def timer_heap_ok_def)
  have run: "HandlerRun m s0 = Some (upd_handler m (\<lambda>ho. ho\<lparr>ho_State := HANDLER_RUNNING\<rparr>) s0)"
    using st by (simp add: HandlerRun_def)
  define s1 where "s1 = HalRaiseInterrupt IRQ_LEVEL_SOFT
      (s0\<lparr>SoftInterruptHandlerList := m # SoftInterruptHandlerList s\<rparr>)"
  have reg: "SoftInterruptRegisterHandler m (ho_Function (Handlers s0 m)) (ho_Context (Handlers s0 m))
      (upd_handler m (\<lambda>ho. ho\<lparr>ho_State := HANDLER_RUNNING\<rparr>) s0) = Some s1"
  proof -
    have "queued_as (ho_Function (Handlers s0 m)) (ho_Context (Handlers s0 m))
        ((Handlers s0 m)\<lparr>ho_State := HANDLER_RUNNING\<rparr>) = Handlers s0 m"
      using st by (simp add: queued_as_def)
    then have "upd_handler m (queued_as (ho_Function (Handlers s0 m)) (ho_Context (Handlers s0 m)))
        (upd_handler m (\<lambda>ho. ho\<lparr>ho_State := HANDLER_RUNNING\<rparr>) s0) = s0"
      by (simp add: upd_handler_def)
    moreover have "SoftInterruptHandlerList s0 = SoftInterruptHandlerList s" by (simp add: s0_def)
    ultimately show ?thesis by (simp add: SoftInterruptRegisterHandler_eq s1_def)
  qed
  have step: "QueueTimers time p s = (if deadline s m \<le> time then QueueTimers time p s1 else Some s)" for time
  proof -
    have "ho_Function (Handlers (upd_handler m (\<lambda>ho. ho\<lparr>ho_State := HANDLER_RUNNING\<rparr>) s0) m) =
        ho_Function (Handlers s0 m)"
      "ho_Context (Handlers (upd_handler m (\<lambda>ho. ho\<lparr>ho_State := HANDLER_RUNNING\<rparr>) s0) m) =
        ho_Context (Handlers s0 m)" by simp_all
    then show ?thesis
      using size hw pop(1) run reg
      by (subst QueueTimers.simps) (simp add: s0_def [symmetric])
  qed
  have mnot: "m \<notin> set (CritInterruptHandlerList s @ SoftInterruptHandlerList s)"
    using ok mA by (auto simp: timer_heap_ok_def)
  show thesis
  proof (rule that [of m s1])
    show "timer_heap_ok p (A - {m}) s1"
      using ok pop(2) rest unfolding timer_heap_ok_def
      by (auto simp: s1_def s0_def)
    show "queues_ok s1"
      using q st mnot by (auto simp: queues_ok_def s1_def s0_def)
    show "\<forall>a\<in>A. deadline s m \<le> deadline s a"
      using heap_rep_least [OF t(1) m] t(2) by blast
    show "\<forall>a. a \<notin> A \<longrightarrow> TimerLinks s1 a = TimerLinks s a"
      using pop(4) t(2) by (simp add: s1_def s0_def)
  qed (use mA step pop(3) in \<open>simp_all add: s1_def s0_def\<close>)
qed

text \<open>What firing timers of heap \<open>p\<close> among \<open>A\<close> leaves alone.\<close>

definition timer_frame :: "timer_heap \<Rightarrow> addr set \<Rightarrow> 'a timer_state_scheme \<Rightarrow> 'a timer_state_scheme \<Rightarrow> bool" where
  "timer_frame p A s s' \<longleftrightarrow>
     deadline s' = deadline s \<and> Handlers s' = Handlers s \<and>
     CritInterruptHandlerList s' = CritInterruptHandlerList s \<and>
     (\<forall>a. a \<notin> A \<longrightarrow> TimerLinks s' a = TimerLinks s a) \<and> (\<forall>p'. p' \<noteq> p \<longrightarrow> get_heap p' s' = get_heap p' s) \<and>
     Timers s' = Timers s \<and> TimersOverflow s' = TimersOverflow s \<and> TimerLastTime s' = TimerLastTime s"

lemma timer_frame_trans:
  "timer_frame p A s s1 \<Longrightarrow> timer_frame p B s1 s2 \<Longrightarrow> B \<subseteq> A \<Longrightarrow> timer_frame p A s s2"
  by (auto simp: timer_frame_def)

lemma QueueTimers_empty:
  assumes "timer_heap_ok p {} s"
  shows "QueueTimers time p s = Some s"
proof -
  have "HeapSize (get_heap p s) = 0"
    using assms by (auto simp: timer_heap_ok_def heap_rep_def HeapSize_def unat_eq_0)
  then show ?thesis by (subst QueueTimers.simps) simp
qed

lemma QueueTimers_fires:
  "timer_heap_ok p A s \<Longrightarrow> queues_ok s \<Longrightarrow>
   \<exists>fired s'. QueueTimers time p s = Some s' \<and> set fired = {a \<in> A. deadline s a \<le> time} \<and> distinct fired \<and>
     sorted (map (deadline s) fired) \<and> SoftInterruptHandlerList s' = rev fired @ SoftInterruptHandlerList s \<and>
     timer_heap_ok p {a \<in> A. time < deadline s a} s' \<and> queues_ok s' \<and> timer_frame p A s s'"
proof (induction "card A" arbitrary: A s)
  case 0
  then have e: "A = {}" by (auto simp: timer_heap_ok_def)
  have "timer_frame p A s s" by (simp add: timer_frame_def)
  with 0 e QueueTimers_empty [of p s time] show ?case
    by (intro exI [of _ "[]"] exI [of _ s]) simp
next
  case (Suc k)
  then have ne: "A \<noteq> {}" by auto
  obtain m s1 where q: "m \<in> A" "\<forall>a\<in>A. deadline s m \<le> deadline s a"
    "\<forall>time. QueueTimers time p s = (if deadline s m \<le> time then QueueTimers time p s1 else Some s)"
    "timer_heap_ok p (A - {m}) s1" "queues_ok s1" "deadline s1 = deadline s"
    "SoftInterruptHandlerList s1 = m # SoftInterruptHandlerList s"
    "CritInterruptHandlerList s1 = CritInterruptHandlerList s"
    "Handlers s1 = Handlers s" "\<forall>a. a \<notin> A \<longrightarrow> TimerLinks s1 a = TimerLinks s a"
    "\<forall>p'. p' \<noteq> p \<longrightarrow> get_heap p' s1 = get_heap p' s" "Timers s1 = Timers s"
    "TimersOverflow s1 = TimersOverflow s" "TimerLastTime s1 = TimerLastTime s"
    by (rule queue_one [OF Suc.prems ne])
  show ?case
  proof (cases "deadline s m \<le> time")
    case True
    have card: "k = card (A - {m})" using Suc.hyps(2) q(1) by simp
    obtain fired s' where f: "QueueTimers time p s1 = Some s'"
      "set fired = {a \<in> A - {m}. deadline s1 a \<le> time}" "distinct fired" "sorted (map (deadline s1) fired)"
      "SoftInterruptHandlerList s' = rev fired @ SoftInterruptHandlerList s1"
      "timer_heap_ok p {a \<in> A - {m}. time < deadline s1 a} s'" "queues_ok s'" "timer_frame p (A - {m}) s1 s'"
      using Suc.hyps(1) [OF card q(4,5)] by blast
    have "timer_frame p A s s1" using q by (simp add: timer_frame_def)
    then have "timer_frame p A s s'" by (rule timer_frame_trans [OF _ f(8)]) blast
    moreover have "set (m # fired) = {a \<in> A. deadline s a \<le> time}" using f(2) q(1,6) True by auto
    moreover have "distinct (m # fired)" using f(2,3) by auto
    moreover have "sorted (map (deadline s) (m # fired))" using f(2,4) q(2,6) by auto
    moreover have "SoftInterruptHandlerList s' = rev (m # fired) @ SoftInterruptHandlerList s"
      using f(5) q(7) by simp
    moreover have "{a \<in> A - {m}. time < deadline s1 a} = {a \<in> A. time < deadline s a}"
      using True q(6) by auto
    ultimately show ?thesis using f(1,6,7) q(3) True by (intro exI [of _ "m # fired"] exI [of _ s']) simp
  next
    case False
    then have "{a \<in> A. deadline s a \<le> time} = {}" "{a \<in> A. time < deadline s a} = A"
      using q(2) by (auto simp: not_le intro: order.strict_trans2)
    moreover have "timer_frame p A s s" by (simp add: timer_frame_def)
    ultimately show ?thesis
      using q(3) False Suc.prems by (intro exI [of _ "[]"] exI [of _ s]) simp
  qed
qed

lemma timer_heap_ok_other:
  assumes "timer_heap_ok p' B s" and "timer_frame p A s s'" and "p' \<noteq> p" and "A \<inter> B = {}"
    and "SoftInterruptHandlerList s' = rev fired @ SoftInterruptHandlerList s" and "set fired \<subseteq> A"
  shows "timer_heap_ok p' B s'"
proof -
  obtain t where t: "heap_rep (TimerLinks s) (get_heap p' s) t" "set_tree t = B"
    using assms(1) by (auto simp: timer_heap_ok_def)
  have "\<forall>a\<in>set_tree t. TimerLinks s' a = TimerLinks s a"
    using assms(2,4) t(2) by (auto simp: timer_frame_def)
  then have "heap_rep (TimerLinks s') (get_heap p' s') t"
    using heap_rep_frame [OF t(1)] assms(2,3) by (simp add: timer_frame_def)
  then show ?thesis
    using assms t(2) unfolding timer_heap_ok_def timer_frame_def by auto
qed

section \<open>Absolute time\<close>

text \<open>
  The clock wraps at \<open>2 ^ 64\<close>. Counting the wraps that \<^verbatim>\<open>TimerInner\<close> has seen in
  \<open>e\<close> gives the timers of the two heaps absolute deadlines. \<open>timers_ok\<close> is the
  invariant of the unit.
\<close>

definition timers_ok :: "addr set \<Rightarrow> addr set \<Rightarrow> 'a timer_state_scheme \<Rightarrow> bool" where
  "timers_ok A B s \<longleftrightarrow> timer_heap_ok (Timers s) A s \<and> timer_heap_ok (TimersOverflow s) B s \<and>
     Timers s \<noteq> TimersOverflow s \<and> A \<inter> B = {} \<and> queues_ok s"

definition abs_time :: "nat \<Rightarrow> TIME \<Rightarrow> nat" where
  "abs_time e t = e * 2 ^ 64 + unat t"

definition abs_deadline :: "nat \<Rightarrow> addr set \<Rightarrow> 'a timer_state_scheme \<Rightarrow> addr \<Rightarrow> nat" where
  "abs_deadline e A s h = abs_time (if h \<in> A then e else e + 1) (deadline s h)"

lemma unat_lt_64: "unat (x :: TIME) < 2 ^ 64"
  using unat_less_64 [of x] by simp

lemma abs_time_same: "abs_time e a \<le> abs_time e b \<longleftrightarrow> a \<le> b"
  by (simp add: abs_time_def word_le_nat_alt)

lemma abs_time_next: "abs_time e a < abs_time (e + 1) b"
  using unat_lt_64 [of a] by (simp add: abs_time_def)

lemma TimerSetNextTimer_total:
  assumes "timer_heap_ok (Timers s) A s"
  shows "\<exists>d. TimerSetNextTimer time s = Some (HalSetTimer d s) \<and>
     (A = {} \<longrightarrow> d = - time) \<and> (\<forall>m\<in>A. (\<forall>a\<in>A. deadline s m \<le> deadline s a) \<longrightarrow> d = deadline s m - time)"
proof -
  obtain t where t: "heap_rep (TimerLinks s) (get_heap (Timers s) s) t" "set_tree t = A"
    using assms by (auto simp: timer_heap_ok_def)
  show ?thesis
  proof (cases t)
    case Leaf
    then have "\<not> HeapSize (get_heap (Timers s) s) > 0" "A = {}"
      using t by (auto simp: heap_rep_def HeapSize_def unat_eq_0)
    then show ?thesis by (simp add: TimerSetNextTimer_def)
  next
    case (Node l m r)
    then have "HeapSize (get_heap (Timers s) s) > 0" and mA: "m \<in> A"
      using t by (auto simp: heap_rep_def HeapSize_def word_neq_0_conv [symmetric])
    moreover have "HeapHeadWeight (get_heap (Timers s) s) (TimerLinks s) = Some (deadline s m)"
      using t(1) Node by (auto simp: heap_rep_def HeapHeadWeight_def wl_get_def wgt_def)
    moreover have "deadline s m \<le> deadline s a" if "a \<in> A" for a
      using heap_rep_least [OF t(1), of m a] Node that unfolding t(2) by simp
    ultimately show ?thesis
      by (intro exI [of _ "deadline s m - time"]) (auto simp: TimerSetNextTimer_def intro: antisym)
  qed
qed

lemma TimerInner_fires:
  assumes ok: "timers_ok A B s"
  shows "\<exists>fired s' A' B'. TimerInner time s = Some s' \<and> TimerLastTime s' = time \<and>
     distinct fired \<and> SoftInterruptHandlerList s' = rev fired @ SoftInterruptHandlerList s \<and>
     timers_ok A' B' s' \<and> deadline s' = deadline s \<and> Handlers s' = Handlers s \<and>
     (if time < TimerLastTime s
      then set fired = A \<union> {h \<in> B. deadline s h \<le> time} \<and> A' = {h \<in> B. time < deadline s h} \<and> B' = {}
      else set fired = {h \<in> A. deadline s h \<le> time} \<and> A' = {h \<in> A. time < deadline s h} \<and> B' = B)"
proof -
  have o: "timer_heap_ok (Timers s) A s" "timer_heap_ok (TimersOverflow s) B s" "Timers s \<noteq> TimersOverflow s"
    "A \<inter> B = {}" "queues_ok s" using ok by (simp_all add: timers_ok_def)
  have fin: "\<exists>s'. Option.bind (TimerSetNextTimer time s2) (\<lambda>s. Some (s\<lparr>TimerLastTime := time\<rparr>)) = Some s' \<and>
      TimerLastTime s' = time \<and> SoftInterruptHandlerList s' = SoftInterruptHandlerList s2 \<and>
      timers_ok X Y s' \<and> deadline s' = deadline s2 \<and> Handlers s' = Handlers s2"
    if ok2: "timers_ok X Y s2" for s2 :: "'a timer_state_scheme" and X Y
  proof -
    obtain d where "TimerSetNextTimer time s2 = Some (HalSetTimer d s2)"
      using TimerSetNextTimer_total [of s2 X time] ok2 by (auto simp: timers_ok_def)
    then show ?thesis
      using ok2 by (auto simp: timers_ok_def timer_heap_ok_def queues_ok_def)
  qed
  show ?thesis
  proof (cases "time < TimerLastTime s")
    case False
    obtain fired s1 where f: "QueueTimers time (Timers s) s = Some s1"
      "set fired = {a \<in> A. deadline s a \<le> time}" "distinct fired"
      "SoftInterruptHandlerList s1 = rev fired @ SoftInterruptHandlerList s"
      "timer_heap_ok (Timers s) {a \<in> A. time < deadline s a} s1" "queues_ok s1" "timer_frame (Timers s) A s s1"
      using QueueTimers_fires [OF o(1,5), of time] by blast
    have "timer_heap_ok (TimersOverflow s) B s1"
      by (rule timer_heap_ok_other [OF o(2) f(7) _ o(4) f(4)]) (use o(3) f(2) in auto)
    then have "timers_ok {a \<in> A. time < deadline s a} B s1"
      using f o(3,4) by (auto simp: timers_ok_def timer_frame_def)
    then obtain s' where "Option.bind (TimerSetNextTimer time s1) (\<lambda>s. Some (s\<lparr>TimerLastTime := time\<rparr>)) = Some s'"
      "TimerLastTime s' = time" "SoftInterruptHandlerList s' = SoftInterruptHandlerList s1"
      "timers_ok {a \<in> A. time < deadline s a} B s'" "deadline s' = deadline s1" "Handlers s' = Handlers s1"
      using fin by blast
    then show ?thesis
      using False f by (intro exI [of _ fired] exI [of _ s'] exI [of _ "{a \<in> A. time < deadline s a}"] exI [of _ B])
        (simp add: TimerInner_def timer_frame_def)
  next
    case True
    obtain f1 s1 where f: "QueueTimers (- 1) (Timers s) s = Some s1"
      "set f1 = {a \<in> A. deadline s a \<le> - 1}" "distinct f1"
      "SoftInterruptHandlerList s1 = rev f1 @ SoftInterruptHandlerList s"
      "timer_heap_ok (Timers s) {a \<in> A. - 1 < deadline s a} s1" "queues_ok s1" "timer_frame (Timers s) A s s1"
      using QueueTimers_fires [OF o(1,5), of "- 1"] by blast
    have all: "set f1 = A" "{a \<in> A. - 1 < deadline s a} = {}" using f(2) by auto
    have e1: "timer_heap_ok (Timers s) {} s1" using f(5) all(2) by simp
    then have "HeapSize (get_heap (Timers s) s1) = 0"
      by (auto simp: timer_heap_ok_def heap_rep_def HeapSize_def unat_eq_0)
    have o1: "timer_heap_ok (TimersOverflow s) B s1"
      by (rule timer_heap_ok_other [OF o(2) f(7) _ o(4) f(4)]) (use o(3) all in auto)
    define s2 where "s2 = s1\<lparr>Timers := TimersOverflow s, TimersOverflow := Timers s\<rparr>"
    have t1: "Timers s1 = Timers s" "TimersOverflow s1 = TimersOverflow s" using f(7) by (simp_all add: timer_frame_def)
    have h2: "timer_heap_ok (TimersOverflow s) B s2" "timer_heap_ok (Timers s) {} s2" "queues_ok s2"
      using o1 e1 f(6) by (simp_all add: s2_def timer_heap_ok_def queues_ok_def)
    have same: "deadline s2 = deadline s" "Handlers s2 = Handlers s"
      "SoftInterruptHandlerList s2 = rev f1 @ SoftInterruptHandlerList s"
      using f(4,7) by (simp_all add: s2_def timer_frame_def)
    obtain f2 s3 where g: "QueueTimers time (TimersOverflow s) s2 = Some s3"
      "set f2 = {a \<in> B. deadline s a \<le> time}" "distinct f2"
      "SoftInterruptHandlerList s3 = rev f2 @ SoftInterruptHandlerList s2"
      "timer_heap_ok (TimersOverflow s) {a \<in> B. time < deadline s a} s3" "queues_ok s3"
      "timer_frame (TimersOverflow s) B s2 s3"
      using QueueTimers_fires [OF h2(1,3), of time] same(1) by auto
    have "timer_heap_ok (Timers s) {} s3"
      by (rule timer_heap_ok_other [OF h2(2) g(7) _ _ g(4)]) (use o(3) g(2) in auto)
    then have "timers_ok {a \<in> B. time < deadline s a} {} s3"
      using g o(3) by (auto simp: timers_ok_def timer_frame_def s2_def)
    then obtain s' where s': "Option.bind (TimerSetNextTimer time s3) (\<lambda>s. Some (s\<lparr>TimerLastTime := time\<rparr>)) = Some s'"
      "TimerLastTime s' = time" "SoftInterruptHandlerList s' = SoftInterruptHandlerList s3"
      "timers_ok {a \<in> B. time < deadline s a} {} s'" "deadline s' = deadline s3" "Handlers s' = Handlers s3"
      using fin by blast
    have "TimerInner time s = Some s'"
      using True f(1) t1 g(1) s'(1) \<open>HeapSize (get_heap (Timers s) s1) = 0\<close>
      by (simp add: TimerInner_def s2_def)
    moreover have "distinct (f1 @ f2)" "set (f1 @ f2) = A \<union> {h \<in> B. deadline s h \<le> time}"
      using f(3) g(2,3) all(1) o(4) by auto
    moreover have "SoftInterruptHandlerList s' = rev (f1 @ f2) @ SoftInterruptHandlerList s"
      using s'(3) g(4) same(3) by simp
    moreover have "deadline s' = deadline s" "Handlers s' = Handlers s"
      using s'(5,6) g(7) same by (simp_all add: timer_frame_def)
    ultimately show ?thesis
      using True s'(2,4) by (intro exI [of _ "f1 @ f2"] exI [of _ s'] exI [of _ "{a \<in> B. time < deadline s a}"]
          exI [of _ "{}"]) simp
  qed
qed

section \<open>Registering a timer\<close>

lemma isr_timer_fields [simp]:
  "get_heap p (set_counts c s) = get_heap p s" "TimerLinks (set_counts c s) = TimerLinks s"
  "Timers (set_counts c s) = Timers s" "TimersOverflow (set_counts c s) = TimersOverflow s"
  "TimerLastTime (set_counts c s) = TimerLastTime s" "Handlers (set_counts c s) = Handlers s"
  "SoftInterruptHandlerList (set_counts c s) = SoftInterruptHandlerList s"
  "CritInterruptHandlerList (set_counts c s) = CritInterruptHandlerList s"
  by (simp_all add: set_counts_def)

lemma set_counts_comm:
  "set_counts c (upd_handler h f s) = upd_handler h f (set_counts c s)"
  "set_counts c (put_heap p hp s) = put_heap p hp (set_counts c s)"
  "set_counts c (s\<lparr>TimerLinks := ls\<rparr>) = (set_counts c s)\<lparr>TimerLinks := ls\<rparr>"
  by (simp_all add: set_counts_def upd_handler_def put_heap_def split: timer_heap.split)

lemma isr_ok_fields:
  "isr_ok (upd_handler h f s) = isr_ok s" "isr_ok (put_heap p hp s) = isr_ok s"
  "isr_ok (s\<lparr>TimerLinks := ls\<rparr>) = isr_ok s"
  by (simp_all add: isr_ok_def hal_ok_def upd_handler_def put_heap_def split: timer_heap.split)

text \<open>Inside the critical section of \<^verbatim>\<open>TimerRegister\<close> nothing depends on the interrupt
  state, and leaving it restores that state.\<close>

definition timer_added :: "addr \<Rightarrow> HANDLER_FUNCTION option \<Rightarrow> ptr \<Rightarrow> timer_heap \<Rightarrow> HEAP \<Rightarrow> wstore \<Rightarrow>
    'a timer_state_scheme \<Rightarrow> 'a timer_state_scheme" where
  "timer_added n f ctx p hp links s = put_heap p hp ((upd_handler n (queued_as f ctx) s)\<lparr>TimerLinks := links\<rparr>)"

lemma queued_as_alt: "ho\<lparr>ho_State := HANDLER_QUEUED, ho_Function := f, ho_Context := c\<rparr> = queued_as f c ho"
  by (cases ho) (simp add: queued_as_def)

lemma TimerRegister_eq:
  assumes isr: "isr_ok s" "IsrDisabledCount s IRQ_LEVEL_MAX + 1 \<noteq> 0"
    and st: "ho_State (Handlers s n) \<noteq> HANDLER_QUEUED"
    and p: "p = (if TimeGet s + wait \<ge> TimeGet s then Timers s else TimersOverflow s)"
    and add: "HeapAdd (TimeGet s + wait) (Some n) (get_heap p s) (TimerLinks s) = Some (hp, links)"
  shows "TimerRegister n wait f ctx s = TimerSetNextTimer (TimeGet s) (timer_added n f ctx p hp links s)"
proof -
  let ?c = "(IsrDisabledCount s)(IRQ_LEVEL_MAX := IsrDisabledCount s IRQ_LEVEL_MAX + 1)"
  have dis: "IsrDisable IRQ_LEVEL_MAX s = set_counts ?c s"
    by (rule IsrDisable_counts [OF isr]) simp
  have reg: "HandlerRegister n (set_counts ?c s) =
      Some (upd_handler n (\<lambda>ho. ho\<lparr>ho_State := HANDLER_QUEUED\<rparr>) (set_counts ?c s))"
    using st by (cases "ho_State (Handlers s n)") (simp_all add: HandlerRegister_def)
  have upd: "upd_handler n (\<lambda>ho. ho\<lparr>ho_Function := f, ho_Context := ctx\<rparr>)
      (upd_handler n (\<lambda>ho. ho\<lparr>ho_State := HANDLER_QUEUED\<rparr>) (set_counts ?c s)) =
      upd_handler n (queued_as f ctx) (set_counts ?c s)"
    by (simp add: upd_handler_def queued_as_alt)
  let ?s = "timer_added n f ctx p hp links s"
  have inner: "timer_added n f ctx p hp links (set_counts ?c s) = set_counts ?c ?s"
    by (simp add: timer_added_def set_counts_comm)
  have ok: "isr_ok ?s" using isr(1) by (simp add: timer_added_def isr_ok_fields)
  have cnt: "IsrDisabledCount ?s = IsrDisabledCount s" by (simp add: timer_added_def)
  have ena: "IsrEnable IRQ_LEVEL_MAX (set_counts ?c ?s) = Some ?s"
  proof -
    have "IsrEnable IRQ_LEVEL_MAX (IsrDisable IRQ_LEVEL_MAX ?s) = Some ?s"
      by (rule isr_pair [OF ok]) (simp_all add: cnt isr(2))
    moreover have "IsrDisable IRQ_LEVEL_MAX ?s = set_counts ?c ?s"
      using IsrDisable_counts [OF ok, of IRQ_LEVEL_MAX] isr(2) by (simp add: cnt)
    ultimately show ?thesis by simp
  qed
  have eq: "put_heap p hp ((upd_handler n (queued_as f ctx) (set_counts ?c s))\<lparr>TimerLinks := links\<rparr>) = set_counts ?c ?s"
    using inner by (simp add: timer_added_def)
  have pp: "(if TimeGet s + wait \<ge> TimeGet s
      then Timers (upd_handler n (queued_as f ctx) (set_counts ?c s))
      else TimersOverflow (upd_handler n (queued_as f ctx) (set_counts ?c s))) = p" by (simp add: p)
  show ?thesis
    unfolding TimerRegister_def Let_def dis reg Option.bind.simps upd pp
    by (simp add: add eq ena)
qed

lemma TimerRegister_ok:
  assumes ok: "timers_ok A B s" and isr: "isr_ok s" "IsrDisabledCount s IRQ_LEVEL_MAX + 1 \<noteq> 0"
    and n: "ho_State (Handlers s n) \<noteq> HANDLER_QUEUED" "n \<in> dom (TimerLinks s)"
    and room: "card (A \<union> B) + 1 < 2 ^ 31"
  shows "\<exists>s' A' B'. TimerRegister n wait f ctx s = Some s' \<and> timers_ok A' B' s' \<and>
     (if TimeGet s + wait \<ge> TimeGet s then A' = insert n A \<and> B' = B else A' = A \<and> B' = insert n B) \<and>
     deadline s' = (deadline s)(n := TimeGet s + wait) \<and> Handlers s' = (Handlers s)(n := queued_as f ctx (Handlers s n)) \<and>
     TimerLastTime s' = TimerLastTime s \<and> (\<exists>d p hp links. s' = HalSetTimer d (timer_added n f ctx p hp links s))"
proof -
  define p where "p = (if TimeGet s + wait \<ge> TimeGet s then Timers s else TimersOverflow s)"
  define p' where "p' = (if TimeGet s + wait \<ge> TimeGet s then TimersOverflow s else Timers s)"
  define C where "C = (if TimeGet s + wait \<ge> TimeGet s then A else B)"
  define D where "D = (if TimeGet s + wait \<ge> TimeGet s then B else A)"
  have h: "timer_heap_ok p C s" "timer_heap_ok p' D s" "p' \<noteq> p" "C \<inter> D = {}" "queues_ok s"
    using ok by (auto simp: timers_ok_def p_def p'_def C_def D_def)
  obtain t where t: "heap_rep (TimerLinks s) (get_heap p s) t" "set_tree t = C"
    using h(1) by (auto simp: timer_heap_ok_def)
  obtain u where u: "heap_rep (TimerLinks s) (get_heap p' s) u" "set_tree u = D"
    using h(2) by (auto simp: timer_heap_ok_def)
  have nC: "n \<notin> C" "n \<notin> D" using h(1,2) n(1) by (auto simp: timer_heap_ok_def)
  have nq: "n \<notin> set (CritInterruptHandlerList s @ SoftInterruptHandlerList s)"
    using h(5) n(1) by (auto simp: queues_ok_def)
  have "card C \<le> card (A \<union> B)"
  proof (rule card_mono)
    show "finite (A \<union> B)" using ok by (auto simp: timers_ok_def timer_heap_ok_def)
  qed (auto simp: C_def)
  then have room': "size t + 1 < 2 ^ 31" using heap_rep_card [OF t(1)] t(2) room by simp
  let ?k = "TimeGet s + wait"
  obtain hp links where add: "HeapAdd ?k (Some n) (get_heap p s) (TimerLinks s) = Some (hp, links)"
    "heap_rep links hp (heap_add_tree ((deadline s)(n := ?k)) n t)" "wgt links = (deadline s)(n := ?k)"
    "\<forall>a. a \<notin> insert n (set_tree t) \<longrightarrow> links a = TimerLinks s a"
    using HeapAdd_rep [OF t(1) _ n(2) room', of ?k] nC(1) t(2) by blast
  have "heap_ord ((deadline s)(n := ?k)) t"
    using t nC(1) heap_ord_cong [of t "(deadline s)(n := ?k)" "deadline s"] by (auto simp: heap_rep_def)
  then have set: "set_tree (heap_add_tree ((deadline s)(n := ?k)) n t) = insert n C"
    using heap_add_tree_facts(1) [of t "(deadline s)(n := ?k)" n] t nC(1) by (auto simp: heap_rep_def)
  have ru: "heap_rep links (get_heap p' s) u"
    by (rule heap_rep_frame [OF u(1)]) (use add(4) t(2) u(2) h(4) nC(2) in auto)
  let ?s = "timer_added n f ctx p hp links s"
  have c1: "timer_heap_ok p (insert n C) ?s" "timer_heap_ok p' D ?s"
    using h(1,2,3) add(2) set ru u(2) nq nC unfolding timer_heap_ok_def
    by (auto simp: timer_added_def queued_as_def)
  have "queues_ok ?s" using h(5) nq by (auto simp: queues_ok_def timer_added_def)
  moreover have "Timers ?s = Timers s" "TimersOverflow ?s = TimersOverflow s" by (simp_all add: timer_added_def)
  moreover define A' where "A' = (if TimeGet s + wait \<ge> TimeGet s then insert n A else A)"
  moreover define B' where "B' = (if TimeGet s + wait \<ge> TimeGet s then B else insert n B)"
  ultimately have ok': "timers_ok A' B' ?s"
    using c1 ok nC h(4) by (auto simp: timers_ok_def p_def p'_def C_def D_def)
  obtain d where d: "TimerSetNextTimer (TimeGet s) ?s = Some (HalSetTimer d ?s)"
    using TimerSetNextTimer_total [of ?s A' "TimeGet s"] ok' by (auto simp: timers_ok_def)
  have reg: "TimerRegister n wait f ctx s = Some (HalSetTimer d ?s)"
    using TimerRegister_eq [OF isr n(1) p_def add(1)] d by simp
  have "timers_ok A' B' (HalSetTimer d ?s)"
    using ok' by (simp add: timers_ok_def timer_heap_ok_def queues_ok_def)
  moreover have "deadline (HalSetTimer d ?s) = (deadline s)(n := ?k)"
    "Handlers (HalSetTimer d ?s) = (Handlers s)(n := queued_as f ctx (Handlers s n))"
    "TimerLastTime (HalSetTimer d ?s) = TimerLastTime s"
    by (simp_all add: timer_added_def add(3))
  ultimately show ?thesis
    using reg by (intro exI [of _ "HalSetTimer d ?s"] exI [of _ A'] exI [of _ B']) (auto simp: A'_def B'_def)
qed

text \<open>The absolute deadline of a timer that was just registered.\<close>

lemma registered_deadline:
  assumes "if now + wait \<ge> now then A' = insert n A \<and> B' = B else A' = A \<and> B' = insert n B" and "n \<notin> A"
    and "deadline s' n = now + wait"
  shows "abs_deadline e A' s' n = abs_time e now + unat wait"
proof -
  have "abs_time (if now + wait \<ge> now then e else e + 1) (now + wait) = abs_time e now + unat wait"
    using unat_lt_64 [of now] unat_lt_64 [of wait]
    by (auto simp: abs_time_def unat_word_ariths word_le_nat_alt mod_if)
  then show ?thesis using assms by (auto simp: abs_deadline_def split: if_splits)
qed

section \<open>Properties\<close>

text \<open>A state with one timer, handler 3 with deadline 5, and handler 4 not in use.\<close>

definition timers0 :: timer_state where
  "timers0 = handler_state.extend (handlers0\<lparr>Handlers := (\<lambda>_. ready_handler)(3 := queued_as (Some (User_f 1)) NULL ready_handler)\<rparr>)
     (timer_state.fields [3 \<mapsto> wl0\<lparr>wl_Weight := 5\<rparr>, 4 \<mapsto> wl0] \<lparr>hp_Head = Some 3, hp_Size = 1\<rparr> hp0 TimerHeap1_p TimerHeap2_p 2)"

lemma timers0_fields:
  "Handlers timers0 = (\<lambda>_. ready_handler)(3 := queued_as (Some (User_f 1)) NULL ready_handler)"
  "SoftInterruptHandlerList timers0 = []" "CritInterruptHandlerList timers0 = []"
  "Timers timers0 = TimerHeap1_p" "TimersOverflow timers0 = TimerHeap2_p" "TimerLastTime timers0 = 2"
  "TimerLinks timers0 = [3 \<mapsto> wl0\<lparr>wl_Weight := 5\<rparr>, 4 \<mapsto> wl0]" "get_heap TimerHeap2_p timers0 = hp0"
  "get_heap TimerHeap1_p timers0 = \<lparr>hp_Head = Some 3, hp_Size = 1\<rparr>"
  "IsrDisabledCount timers0 l = 0" "sig_mask timers0 = sig_mask isr0" "HalIrqToMask timers0 = HalIrqToMask isr0"
  using isr0_ok(2)
  by (simp_all add: timers0_def handlers0_def isr_state.defs handler_state.defs timer_state.defs get_heap_def)

lemma timers0_ok: "timers_ok {3} {} timers0" "isr_ok timers0"
proof -
  have "heap_rep (TimerLinks timers0) (get_heap TimerHeap1_p timers0) (Node Leaf 3 Leaf)"
    by (simp add: heap_rep_def timers0_fields wl0_def)
  moreover have "heap_rep (TimerLinks timers0) (get_heap TimerHeap2_p timers0) Leaf"
    by (simp add: heap_rep_def timers0_fields hp0_def)
  ultimately show "timers_ok {3} {} timers0"
    by (auto simp: timers_ok_def timer_heap_ok_def timers0_fields queues_ok_def queued_as_def
        intro: exI [of _ "Node Leaf 3 Leaf"])
  have "IsrDisabledCount timers0 = IsrDisabledCount isr0" by (rule ext) (simp add: timers0_fields isr0_ok(2))
  then show "isr_ok timers0" using isr0_ok(1) unfolding isr_ok_def hal_ok_def
    by (simp add: timers0_fields)
qed

text \<open>(C16) \<^verbatim>\<open>TimerInner\<close> fires exactly the timers whose deadline has been reached, in
  absolute time and across a wrap of the clock: each of them is put on the soft interrupt queue once,
  the others stay in the heaps with their deadlines, and the invariant of the unit is kept. The clock
  may wrap at most once between two calls.\<close>

theorem timers_fire_on_time:
  assumes "timers_ok A B s"
    and now: "e' = (if time < TimerLastTime s then e + 1 else e)"
  shows "\<exists>fired s' A' B'. TimerInner time s = Some s' \<and> TimerLastTime s' = time \<and> timers_ok A' B' s' \<and>
     SoftInterruptHandlerList s' = rev fired @ SoftInterruptHandlerList s \<and> distinct fired \<and>
     set fired = {h \<in> A \<union> B. abs_deadline e A s h \<le> abs_time e' time} \<and>
     A' \<union> B' = {h \<in> A \<union> B. abs_time e' time < abs_deadline e A s h} \<and>
     (\<forall>h \<in> A' \<union> B'. abs_deadline e' A' s' h = abs_deadline e A s h)"
proof -
  obtain fired s' A' B' where r: "TimerInner time s = Some s'" "TimerLastTime s' = time" "distinct fired"
     "SoftInterruptHandlerList s' = rev fired @ SoftInterruptHandlerList s" "timers_ok A' B' s'"
     "deadline s' = deadline s"
     "if time < TimerLastTime s
      then set fired = A \<union> {h \<in> B. deadline s h \<le> time} \<and> A' = {h \<in> B. time < deadline s h} \<and> B' = {}
      else set fired = {h \<in> A. deadline s h \<le> time} \<and> A' = {h \<in> A. time < deadline s h} \<and> B' = B"
    using TimerInner_fires [OF assms(1), of time] by blast
  have AB: "A \<inter> B = {}" using assms(1) by (simp add: timers_ok_def)
  have le: "abs_deadline e A s h \<le> abs_time e' time \<longleftrightarrow>
      (if h \<in> A then time < TimerLastTime s \<or> deadline s h \<le> time
       else time < TimerLastTime s \<and> deadline s h \<le> time)" for h
    using abs_time_next [of e "deadline s h" time] abs_time_next [of e time "deadline s h"]
    by (auto simp: abs_deadline_def now abs_time_same dest: order.strict_implies_order)
  have "set fired = {h \<in> A \<union> B. abs_deadline e A s h \<le> abs_time e' time}"
    "A' \<union> B' = {h \<in> A \<union> B. \<not> abs_deadline e A s h \<le> abs_time e' time}"
    using r(7) AB unfolding le by (auto split: if_splits)
  moreover have "abs_deadline e' A' s' h = abs_deadline e A s h" if "h \<in> A' \<union> B'" for h
    using that r(6,7) AB by (auto simp: abs_deadline_def now split: if_splits)
  ultimately show ?thesis using r(1-5) by (intro exI [of _ fired] exI [of _ s'] exI [of _ A'] exI [of _ B']) (simp add: not_le)
qed

theorem timers_fire_on_time_witness:
  "\<exists>s'. TimerInner 7 timers0 = Some s' \<and> SoftInterruptHandlerList s' = [3] \<and> timers_ok {} {} s'"
proof -
  have d: "{h \<in> {3} \<union> {}. abs_deadline 0 {3} timers0 h \<le> abs_time 0 7} = {3}"
    "{h \<in> {3} \<union> {}. abs_time 0 7 < abs_deadline 0 {3} timers0 h} = {}"
    by (auto simp: abs_deadline_def abs_time_def wgt_def timers0_fields)
  have "(0 :: nat) = (if 7 < TimerLastTime timers0 then 0 + 1 else 0)" by (simp add: timers0_fields)
  from timers_fire_on_time [OF timers0_ok(1) this]
  obtain fired s' A' B' where r: "TimerInner 7 timers0 = Some s'" "timers_ok A' B' s'"
    "SoftInterruptHandlerList s' = rev fired" "distinct fired" "set fired = {3}" "A' \<union> B' = {}"
    unfolding d by (auto simp: timers0_fields)
  have "fired = [3]" using r(4,5) by (cases fired) (auto simp: subset_singleton_iff)
  with r show ?thesis by auto
qed

text \<open>\<^verbatim>\<open>TimerRegister\<close> on a handler that is not queued gives it the absolute deadline
  now plus the wait, whatever the wait and whether or not the sum wraps, provided the clock has not
  wrapped since the last timer interrupt. The other timers keep theirs.\<close>

theorem timer_register_deadline:
  assumes "timers_ok A B s" and "isr_ok s" and "IsrDisabledCount s IRQ_LEVEL_MAX + 1 \<noteq> 0"
    and "ho_State (Handlers s n) \<noteq> HANDLER_QUEUED" and "n \<in> dom (TimerLinks s)"
    and "card (A \<union> B) + 1 < 2 ^ 31"
  shows "\<exists>s' A' B'. TimerRegister n wait f ctx s = Some s' \<and> timers_ok A' B' s' \<and>
     A' \<union> B' = insert n (A \<union> B) \<and> ho_State (Handlers s' n) = HANDLER_QUEUED \<and>
     abs_deadline e A' s' n = abs_time e (TimeGet s) + unat wait \<and>
     (\<forall>h \<in> A \<union> B. abs_deadline e A' s' h = abs_deadline e A s h)"
proof -
  obtain s' A' B' where r: "TimerRegister n wait f ctx s = Some s'" "timers_ok A' B' s'"
     "if TimeGet s + wait \<ge> TimeGet s then A' = insert n A \<and> B' = B else A' = A \<and> B' = insert n B"
     "deadline s' = (deadline s)(n := TimeGet s + wait)" "Handlers s' = (Handlers s)(n := queued_as f ctx (Handlers s n))"
    using TimerRegister_ok [OF assms, of wait f ctx] by blast
  have nAB: "n \<notin> A \<union> B" using assms(1,4) by (auto simp: timers_ok_def timer_heap_ok_def)
  have "abs_deadline e A' s' n = abs_time e (TimeGet s) + unat wait"
    by (rule registered_deadline [OF r(3)]) (use r(4) nAB in auto)
  moreover have "abs_deadline e A' s' h = abs_deadline e A s h" if "h \<in> A \<union> B" for h
    using that nAB r(3,4) by (auto simp: abs_deadline_def split: if_splits)
  ultimately show ?thesis
    using r by (intro exI [of _ s'] exI [of _ A'] exI [of _ B']) (auto simp: queued_as_def split: if_splits)
qed

theorem timer_register_deadline_witness:
  "\<exists>s' A' B'. TimerRegister 4 9 (Some (User_f 2)) NULL timers0 = Some s' \<and> timers_ok A' B' s' \<and>
     A' \<union> B' = {3, 4} \<and> abs_deadline 0 A' s' 4 = abs_time 0 (TimeGet timers0) + 9"
  using timer_register_deadline [OF timers0_ok, of 4 9 "Some (User_f 2)" NULL 0]
  by (auto simp: timers0_fields ready_handler_def insert_commute)

end
