(* ===== verification/KContext.thy ===== *)
theory KContext
  imports Isr Counters
begin

text \<open>
  The mutex of \<^verbatim>\<open>src/kernel/mutex.c\<close> on the atomics of \<^verbatim>\<open>src/utils/types.c\<close>, and the
  stacks of execution: \<^verbatim>\<open>src/kernel/context.c\<close> with the frame operations of
  \<^verbatim>\<open>src/hal/unix_hal.c\<close>. A saved register file is modelled by the point at which a jump to it
  continues.
\<close>

unbundle bit_operations_syntax

section \<open>Mutexes\<close>

text \<open>The atomics return the old value of the variable beside its new one.\<close>

definition AtomicGetAndOr :: "ATOMIC \<Rightarrow> ATOMIC \<Rightarrow> ATOMIC \<times> ATOMIC" where
  "AtomicGetAndOr var val = (var, var OR val)"

definition AtomicGetAndAnd :: "ATOMIC \<Rightarrow> ATOMIC \<Rightarrow> ATOMIC \<times> ATOMIC" where
  "AtomicGetAndAnd var val = (var, var AND val)"

record MUTEX =
  mu_Locked :: ATOMIC

definition MutexLock :: "MUTEX \<Rightarrow> bool \<times> MUTEX" where
  "MutexLock lock =
     (let (old, new) = AtomicGetAndOr (mu_Locked lock) 1;
          lock = lock\<lparr>mu_Locked := new\<rparr>
      in if old \<noteq> 0 then (False, lock) else (True, lock))"

definition MutexUnlock :: "MUTEX \<Rightarrow> MUTEX option" where
  "MutexUnlock lock =
     (let (old, new) = AtomicGetAndAnd (mu_Locked lock) 0
      in do { ASSERT (old \<noteq> 0); Some (lock\<lparr>mu_Locked := new\<rparr>) })"

definition MutexIsLocked :: "MUTEX \<Rightarrow> bool" where
  "MutexIsLocked lock = (mu_Locked lock \<noteq> 0)"

definition MutexInit :: "MUTEX \<Rightarrow> bool \<Rightarrow> MUTEX" where
  "MutexInit lock initialState = lock\<lparr>mu_Locked := (if initialState then 1 else 0)\<rparr>"

lemma or_one_nonzero: "x OR 1 \<noteq> (0 :: ATOMIC)"
  by (metis bit_0_eq bit_1_iff bit_or_iff bot_apply bot_bool_def)

lemma MutexLock_eq [simp]:
  "fst (MutexLock lock) = (\<not> MutexIsLocked lock)" "MutexIsLocked (snd (MutexLock lock))"
  using or_one_nonzero by (auto simp: MutexLock_def AtomicGetAndOr_def MutexIsLocked_def Let_def)

lemma MutexUnlock_eq:
  "MutexUnlock lock = (if MutexIsLocked lock then Some (lock\<lparr>mu_Locked := 0\<rparr>) else None)"
  by (simp add: MutexUnlock_def AtomicGetAndAnd_def MutexIsLocked_def)

section \<open>Stack frames of the host\<close>

datatype STACK_INIT_ROUTINE = ContextBootstrap_r | SchedulerThreadStartup_r | CoRoutineWrapper_r

text \<open>
  Where a jump to a register file continues: in the trampoline, which calls the start routine;
  after the \<^verbatim>\<open>_setjmp\<close> that saved it in \<^verbatim>\<open>HalContextSwitch\<close>; or, for the frame the
  machine started on before it was ever switched away from, nowhere it may be jumped to.
\<close>

datatype registers = Unset | InitialFrame | Trampoline STACK_INIT_ROUTINE addr | Switched

record MACHINE_CONTEXT =
  mc_Registers :: registers
  mc_Foo :: "STACK_INIT_ROUTINE option"
  mc_Arg :: ptr

abbreviation MINSIGSTKSZ :: COUNT where "MINSIGSTKSZ \<equiv> 2048"

definition HalStackTrampoline :: "MACHINE_CONTEXT \<Rightarrow> MACHINE_CONTEXT option" where
  "HalStackTrampoline c =
     do { foo \<leftarrow> mc_Foo c; arg \<leftarrow> mc_Arg c; Some (c\<lparr>mc_Registers := Trampoline foo arg\<rparr>) }"

text \<open>The frame is made by raising the trampoline signal on an alternate stack, with every kernel
  signal blocked. The operating system refuses an alternate stack below \<^verbatim>\<open>MINSIGSTKSZ\<close>.\<close>

definition HalCreateStackFrame ::
    "MACHINE_CONTEXT \<Rightarrow> COUNT \<Rightarrow> STACK_INIT_ROUTINE \<Rightarrow> addr \<Rightarrow> 'a hal_state_scheme \<Rightarrow>
     (MACHINE_CONTEXT \<times> 'a hal_state_scheme) option" where
  "HalCreateStackFrame c stackSize foo arg s =
     do {
       let c = c\<lparr>mc_Foo := Some foo, mc_Arg := Some arg\<rparr>;
       let oldSet = sig_mask s;
       let s = s\<lparr>sig_mask := sig_mask s \<union> HalIrqToMask s IRQ_LEVEL_MAX\<rparr>;
       let s = s\<lparr>sig_action := (sig_action s)(HAL_ISR_TRAMPOLINE \<mapsto> HalIrqToMask s IRQ_LEVEL_MAX)\<rparr>;
       ASSERT (MINSIGSTKSZ \<le> stackSize);
       let s = s\<lparr>sig_pending := insert HAL_ISR_TRAMPOLINE (sig_pending s)\<rparr>;
       let s = s\<lparr>sig_mask := sig_mask s - {HAL_ISR_TRAMPOLINE}\<rparr>;
       c \<leftarrow> HalStackTrampoline c;
       let s = s\<lparr>sig_pending := sig_pending s - {HAL_ISR_TRAMPOLINE}\<rparr>;
       Some (c, s\<lparr>sig_mask := oldSet\<rparr>)
     }"

definition HalGetInitialStackFrame :: "MACHINE_CONTEXT \<Rightarrow> MACHINE_CONTEXT" where
  "HalGetInitialStackFrame c = c\<lparr>mc_Registers := InitialFrame\<rparr>"

text \<open>The machine's state passes through the jump: what runs after it is the code at the new frame,
  and that code continues from the state the old one left.\<close>

definition HalContextSwitch ::
    "MACHINE_CONTEXT \<Rightarrow> MACHINE_CONTEXT \<Rightarrow> 'a hal_state_scheme \<Rightarrow> (MACHINE_CONTEXT \<times> 'a hal_state_scheme) option" where
  "HalContextSwitch oldStack newStack s =
     do {
       ASSERT (HalIsIrqAtomic IRQ_LEVEL_MAX s);
       let oldStack = oldStack\<lparr>mc_Registers := Switched\<rparr>;
       ASSERT (mc_Registers newStack \<noteq> Unset \<and> mc_Registers newStack \<noteq> InitialFrame);
       ASSERT (HalIsIrqAtomic IRQ_LEVEL_MAX s);
       Some (oldStack, s)
     }"

section \<open>Contexts\<close>

record CONTEXT =
  cx_MachineState :: MACHINE_CONTEXT
  cx_Main :: "STACK_INIT_ROUTINE option"
  cx_MainArg :: ptr
  cx_TimesRun :: COUNTER
  cx_TimesSwitched :: COUNTER
  cx_LastRanTime :: TIME
  cx_LastSelectedTime :: TIME
  cx_High :: INDEX
  cx_Low :: INDEX

text \<open>A stack is its base address and its bytes; \<open>self\<close> is the address of the context.\<close>

definition ContextInit ::
    "CONTEXT \<Rightarrow> addr \<Rightarrow> INDEX \<times> 8 word list \<Rightarrow> COUNT \<Rightarrow> STACK_INIT_ROUTINE \<Rightarrow> addr \<Rightarrow> 'a hal_state_scheme \<Rightarrow>
     (CONTEXT \<times> 8 word list \<times> 'a hal_state_scheme) option" where
  "ContextInit context self Pointer Size Foo Arg s =
     do {
       let context = context\<lparr>cx_TimesRun := CounterInit (cx_TimesRun context),
         cx_TimesSwitched := CounterInit (cx_TimesSwitched context),
         cx_LastRanTime := 0, cx_LastSelectedTime := 0\<rparr>;
       (if Size \<noteq> 0 then
          do {
            let context = context\<lparr>cx_High := fst Pointer + Size, cx_Low := fst Pointer\<rparr>;
            let bytes = replicate (unat Size) 0xaa @ drop (unat Size) (snd Pointer);
            let context = context\<lparr>cx_Main := Some Foo, cx_MainArg := Some Arg\<rparr>;
            (m, s) \<leftarrow> HalCreateStackFrame (cx_MachineState context) Size ContextBootstrap_r self s;
            Some (context\<lparr>cx_MachineState := m\<rparr>, bytes, s)
          }
        else
          do {
            let context = context\<lparr>cx_High := - 1, cx_Low := 0\<rparr>;
            Some (context\<lparr>cx_MachineState := HalGetInitialStackFrame (cx_MachineState context)\<rparr>, snd Pointer, s)
          })
     }"

text \<open>\<open>time\<close> is the time read at entry; \<open>same\<close> says whether the two pointers are
  equal. The last step, \<^verbatim>\<open>IsrEnable\<close>, is run by the thread that is switched to: after its own
  \<^verbatim>\<open>HalContextSwitch\<close>, or in \<^verbatim>\<open>ContextBootstrap\<close>.\<close>

definition ContextSwitch ::
    "bool \<Rightarrow> CONTEXT \<Rightarrow> CONTEXT \<Rightarrow> 'a isr_state_scheme \<Rightarrow> (CONTEXT \<times> CONTEXT \<times> 'a isr_state_scheme) option" where
  "ContextSwitch same oldStack newStack s =
     do {
       let time = HalGetTime s;
       (if \<not> same then
          do {
            let newStack = newStack\<lparr>cx_TimesSwitched := CounterAdd (cx_TimesSwitched newStack) 1,
              cx_TimesRun := CounterAdd (cx_TimesRun newStack) 1,
              cx_LastRanTime := time, cx_LastSelectedTime := time\<rparr>;
            let s = IsrDisable IRQ_LEVEL_MAX s;
            (m, s) \<leftarrow> HalContextSwitch (cx_MachineState oldStack) (cx_MachineState newStack) s;
            s \<leftarrow> IsrEnable IRQ_LEVEL_MAX s;
            Some (oldStack\<lparr>cx_MachineState := m\<rparr>, newStack, s)
          }
        else
          do {
            let newStack = newStack\<lparr>cx_TimesRun := CounterAdd (cx_TimesRun newStack) 1, cx_LastRanTime := time\<rparr>;
            Some (oldStack, newStack, s)
          })
     }"

text \<open>The first code of a new stack: it runs what every other switched-in stack runs after its
  \<^verbatim>\<open>HalContextSwitch\<close>, then the context's main routine, which must not return.\<close>

definition ContextBootstrap ::
    "(STACK_INIT_ROUTINE \<Rightarrow> addr \<Rightarrow> 'a isr_state_scheme \<Rightarrow> 'b option) \<Rightarrow> CONTEXT \<Rightarrow>
     'a isr_state_scheme \<Rightarrow> 'b option" where
  "ContextBootstrap main context s =
     do {
       s \<leftarrow> IsrEnable IRQ_LEVEL_MAX s;
       foo \<leftarrow> cx_Main context;
       arg \<leftarrow> cx_MainArg context;
       main foo arg s
     }"

definition resumable :: "CONTEXT \<Rightarrow> bool" where
  "resumable c \<longleftrightarrow> (case mc_Registers (cx_MachineState c) of Unset \<Rightarrow> False | InitialFrame \<Rightarrow> False | _ \<Rightarrow> True)"

lemma ContextSwitch_same:
  "ContextSwitch True c d s =
     Some (c, d\<lparr>cx_TimesRun := CounterAdd (cx_TimesRun d) 1, cx_LastRanTime := HalGetTime s\<rparr>, s)"
  by (simp add: ContextSwitch_def)

lemma isr_disabled_atomic:
  assumes "isr_ok s" and "IsrDisabledCount s l + 1 \<noteq> 0" and "l < IRQ_LEVEL_COUNT"
  shows "HalIsIrqAtomic l (IsrDisable l s)"
  unfolding IsrDisable_counts [OF assms]
  by (rule isr_ok_atomic [OF set_counts_ok [OF assms(1)]]) (use assms in \<open>simp_all add: set_counts_def\<close>)

lemma ContextSwitch_other:
  assumes "isr_ok s" and "IsrDisabledCount s IRQ_LEVEL_MAX + 1 \<noteq> 0"
  shows "ContextSwitch False c d s =
     (if resumable d then
        Some (c\<lparr>cx_MachineState := (cx_MachineState c)\<lparr>mc_Registers := Switched\<rparr>\<rparr>,
          d\<lparr>cx_TimesSwitched := CounterAdd (cx_TimesSwitched d) 1,
            cx_TimesRun := CounterAdd (cx_TimesRun d) 1,
            cx_LastRanTime := HalGetTime s, cx_LastSelectedTime := HalGetTime s\<rparr>, s)
      else None)"
  using isr_pair [OF assms] isr_disabled_atomic [OF assms]
  by (simp add: ContextSwitch_def HalContextSwitch_def resumable_def Let_def split: registers.split)

text \<open>A new stack is resumable, is filled with the pattern, and making it leaves the interrupt state alone.\<close>

lemma ContextInit_new:
  assumes "MINSIGSTKSZ \<le> Size" and "HAL_ISR_TRAMPOLINE \<notin> sig_pending s"
  shows "\<exists>c' bytes' s'. ContextInit c self (p, bytes) Size Foo Arg s = Some (c', bytes', s') \<and>
     resumable c' \<and> cx_Main c' = Some Foo \<and> cx_MainArg c' = Some Arg \<and>
     (\<forall>i < unat Size. bytes' ! i = 0xaa) \<and> sig_mask s' = sig_mask s \<and> sig_pending s' = sig_pending s"
proof -
  have "Size \<noteq> 0" using assms(1) by auto
  then show ?thesis using assms
    by (auto simp: ContextInit_def HalCreateStackFrame_def HalStackTrampoline_def resumable_def Let_def nth_append)
qed

end
