(* ===== verification/Scheduler.thy ===== *)
theory Scheduler
  imports Timer KContext
begin

text \<open>
  The scheduler, \<^verbatim>\<open>src/kernel/scheduler.c\<close>, and the locking framework the locks are built on,
  \<^verbatim>\<open>src/kernel/locking.c\<close>. Threads are named by their address; so are the locking contexts,
  with the structure they are embedded in. Queues of threads and of locking contexts are lists: the
  links of \<open>LinkedList\<close> implement them as long as no object is enqueued twice, and an enqueue
  that would break this is a failure of the model.
\<close>

section \<open>State\<close>

text \<open>\<^verbatim>\<open>struct LOCKING_CONTEXT *\<close>: the context of a thread, one initialised by a caller that
  does not block, or the context of a work item.\<close>

datatype lctx = ThreadContext addr | PlainContext addr | WorkerContext addr

datatype LOCKING_STATE = LOCKING_STATE_READY | LOCKING_STATE_BLOCKING | LOCKING_STATE_ACQUIRED

datatype RESOURCE_STATE = RESOURCE_SHARED | RESOURCE_EXCLUSIVE

datatype BLOCK_FUNCTION = SchedulerBlockOnLock_f | LockingBlockNonBlocking_f | WorkerBlockOnLock_f

datatype WAKE_FUNCTION = SchedulerWakeOnLock_f | LockingWakeNonBlocking_f | WorkerWakeOnLock_f

record LOCKING_CONTEXT =
  lc_State :: LOCKING_STATE
  lc_BlockingContext :: RESOURCE_STATE
  lc_BlockFunction :: BLOCK_FUNCTION
  lc_WakeFunction :: WAKE_FUNCTION

record RESOURCE =
  re_State :: RESOURCE_STATE
  re_WaitingThreads :: "lctx list"
  re_NumShared :: COUNT

datatype THREAD_STATE = THREAD_STATE_RUNNING | THREAD_STATE_BLOCKED | THREAD_STATE_DONE

text \<open>The locking context of a thread \<open>t\<close> is \<open>ThreadContext t\<close> in the table of contexts.\<close>

record THREAD =
  th_Priority :: "8 word"
  th_State :: THREAD_STATE
  th_ResultLock :: RESOURCE
  th_Stack :: CONTEXT
  th_Main :: "nat option"
  th_Argument :: ptr
  th_Local :: ptr
  th_Result :: ptr

record sched_state = timer_state +
  Threads :: "addr \<Rightarrow> THREAD"
  Contexts :: "lctx \<Rightarrow> LOCKING_CONTEXT"
  ActiveThread :: addr
  NextThread :: ptr
  RunQueue :: "addr list"
  QuantumStartTime :: TIME
  SchedulerMutex :: MUTEX
  RunningThreads :: COUNT
  Shutdown :: bool

abbreviation IdleThread :: addr where "IdleThread \<equiv> 0"
abbreviation SchedulerTimer :: addr where "SchedulerTimer \<equiv> 10"
abbreviation SchedulerCritObject :: addr where "SchedulerCritObject \<equiv> 11"

definition upd_thread :: "addr \<Rightarrow> (THREAD \<Rightarrow> THREAD) \<Rightarrow> 'a sched_state_scheme \<Rightarrow> 'a sched_state_scheme" where
  "upd_thread t f s = s\<lparr>Threads := (Threads s)(t := f (Threads s t))\<rparr>"

definition upd_context ::
    "lctx \<Rightarrow> (LOCKING_CONTEXT \<Rightarrow> LOCKING_CONTEXT) \<Rightarrow> 'a sched_state_scheme \<Rightarrow> 'a sched_state_scheme" where
  "upd_context c f s = s\<lparr>Contexts := (Contexts s)(c := f (Contexts s c))\<rparr>"

definition enqueue :: "'b \<Rightarrow> 'b list \<Rightarrow> 'b list option" where
  "enqueue x q = (if x \<in> set q then None else Some (q @ [x]))"

section \<open>Critical sections\<close>

definition CritInterruptIsAtomic :: "'a isr_state_scheme \<Rightarrow> bool option" where
  "CritInterruptIsAtomic s = IsrIsAtomic IRQ_LEVEL_CRIT s"

definition TimerIsAtomic :: "'a isr_state_scheme \<Rightarrow> bool option" where
  "TimerIsAtomic s = IsrIsAtomic IRQ_LEVEL_TIMER s"

text \<open>\<^verbatim>\<open>ASSERT( CritInterruptIsAtomic() )\<close>, which \<^verbatim>\<open>SchedulerIsCritical\<close> is too, and its
  negations.\<close>

definition AssertCritical :: "'a isr_state_scheme \<Rightarrow> unit option" where
  "AssertCritical s = do { b \<leftarrow> CritInterruptIsAtomic s; ASSERT b }"

definition AssertNotCritical :: "'a isr_state_scheme \<Rightarrow> unit option" where
  "AssertNotCritical s = do { b \<leftarrow> CritInterruptIsAtomic s; ASSERT (\<not> b) }"

definition AssertNotTimer :: "'a isr_state_scheme \<Rightarrow> unit option" where
  "AssertNotTimer s = do { b \<leftarrow> TimerIsAtomic s; ASSERT (\<not> b) }"

definition SchedulerStartCritical :: "'a isr_state_scheme \<Rightarrow> 'a isr_state_scheme" where
  "SchedulerStartCritical s = IsrDisable IRQ_LEVEL_CRIT s"

definition SchedulerEndCritical :: "'a isr_state_scheme \<Rightarrow> 'a isr_state_scheme option" where
  "SchedulerEndCritical s = IsrEnable IRQ_LEVEL_CRIT s"

section \<open>The scheduler\<close>

definition PostCritHandler :: "addr \<Rightarrow> 'a sched_state_scheme \<Rightarrow> 'a sched_state_scheme option" where
  "PostCritHandler obj s =
     do {
       ASSERT (obj = SchedulerCritObject);
       ASSERT (MutexIsLocked (SchedulerMutex s));
       m \<leftarrow> MutexUnlock (SchedulerMutex s);
       Some (s\<lparr>SchedulerMutex := m\<rparr>)
     }"

definition SchedulerGetActiveThread :: "'a sched_state_scheme \<Rightarrow> addr" where
  "SchedulerGetActiveThread s = ActiveThread s"

definition SchedulerNeedsSwitch :: "'a sched_state_scheme \<Rightarrow> 'a sched_state_scheme option" where
  "SchedulerNeedsSwitch s =
     (let (locked, m) = MutexLock (SchedulerMutex s);
          s = s\<lparr>SchedulerMutex := m\<rparr>
      in if locked then
           do {
             let s = HandlerInit SchedulerCritObject s;
             s \<leftarrow> HandlerCompetion SchedulerCritObject PostCritHandler_f s;
             CritInterruptRegisterHandler SchedulerCritObject (Some SchedulerCritHandler_f) NULL s
           }
         else Some s)"

definition SchedulerForceSwitch :: "'a sched_state_scheme \<Rightarrow> 'a sched_state_scheme option" where
  "SchedulerForceSwitch s =
     do {
       AssertCritical s;
       s \<leftarrow> SchedulerNeedsSwitch s;
       s \<leftarrow> SchedulerEndCritical s;
       AssertNotCritical s;
       Some s
     }"

definition SchedulerResumeThread :: "addr \<Rightarrow> 'a sched_state_scheme \<Rightarrow> 'a sched_state_scheme option" where
  "SchedulerResumeThread thread s =
     do {
       AssertCritical s;
       ASSERT (th_State (Threads s thread) = THREAD_STATE_BLOCKED);
       let s = upd_thread thread (\<lambda>t. t\<lparr>th_State := THREAD_STATE_RUNNING\<rparr>) s;
       q \<leftarrow> enqueue thread (RunQueue s);
       Some (s\<lparr>RunQueue := q\<rparr>)
     }"

definition SchedulerIsThreadDead :: "addr \<Rightarrow> 'a sched_state_scheme \<Rightarrow> bool option" where
  "SchedulerIsThreadDead thread s =
     do { AssertCritical s; Some (th_State (Threads s thread) = THREAD_STATE_DONE) }"

definition SchedulerIsThreadBlocked :: "addr \<Rightarrow> 'a sched_state_scheme \<Rightarrow> bool option" where
  "SchedulerIsThreadBlocked thread s =
     do { AssertCritical s; Some (th_State (Threads s thread) = THREAD_STATE_BLOCKED) }"

definition SchedulerBlockThread :: "'a sched_state_scheme \<Rightarrow> 'a sched_state_scheme option" where
  "SchedulerBlockThread s =
     do {
       AssertCritical s;
       let s = upd_thread (ActiveThread s) (\<lambda>t. t\<lparr>th_State := THREAD_STATE_BLOCKED\<rparr>) s;
       SchedulerNeedsSwitch s
     }"

text \<open>\<^verbatim>\<open>container_of\<close> for a context that is not part of a thread has no meaning.\<close>

definition SchedulerBlockOnLock :: "lctx \<Rightarrow> 'a sched_state_scheme \<Rightarrow> 'a sched_state_scheme option" where
  "SchedulerBlockOnLock context s =
     (case context of
        ThreadContext thread \<Rightarrow> do { ASSERT (thread = ActiveThread s); SchedulerBlockThread s }
      | _ \<Rightarrow> None)"

definition SchedulerWakeOnLock :: "lctx \<Rightarrow> 'a sched_state_scheme \<Rightarrow> 'a sched_state_scheme option" where
  "SchedulerWakeOnLock context s =
     (case context of
        ThreadContext thread \<Rightarrow>
          (case lc_State (Contexts s context) of
             LOCKING_STATE_READY \<Rightarrow> Some (upd_context context (\<lambda>c. c\<lparr>lc_State := LOCKING_STATE_READY\<rparr>) s)
           | LOCKING_STATE_BLOCKING \<Rightarrow>
               SchedulerResumeThread thread (upd_context context (\<lambda>c. c\<lparr>lc_State := LOCKING_STATE_READY\<rparr>) s)
           | LOCKING_STATE_ACQUIRED \<Rightarrow> None)
      | _ \<Rightarrow> None)"

definition SchedulerSwitch :: "'a sched_state_scheme \<Rightarrow> 'a sched_state_scheme option" where
  "SchedulerSwitch s =
     do {
       AssertCritical s;
       AssertNotTimer s;
       let oldThread = ActiveThread s;
       newThread \<leftarrow> NextThread s;
       let s = s\<lparr>ActiveThread := newThread, NextThread := NULL\<rparr>;
       (old, new, s) \<leftarrow> ContextSwitch (oldThread = newThread)
          (th_Stack (Threads s oldThread)) (th_Stack (Threads s newThread)) s;
       let s = upd_thread oldThread (\<lambda>t. t\<lparr>th_Stack := old\<rparr>) s;
       let s = upd_thread newThread (\<lambda>t. t\<lparr>th_Stack := new\<rparr>) s;
       AssertNotTimer s;
       AssertCritical s;
       Some s
     }"

definition Schedule :: "'a sched_state_scheme \<Rightarrow> 'a sched_state_scheme option" where
  "Schedule s =
     do {
       AssertCritical s;
       s \<leftarrow> (if ActiveThread s \<noteq> IdleThread \<and> th_State (Threads s (ActiveThread s)) = THREAD_STATE_RUNNING then
              do { q \<leftarrow> enqueue (ActiveThread s) (RunQueue s); Some (s\<lparr>RunQueue := q\<rparr>) }
            else Some s);
       Some (case RunQueue s of
          t # q \<Rightarrow> s\<lparr>RunQueue := q, NextThread := Some t\<rparr>
        | [] \<Rightarrow> s\<lparr>NextThread := Some IdleThread\<rparr>)
     }"

definition SchedulerTimerHandler ::
    "addr \<Rightarrow> 'a sched_state_scheme \<Rightarrow> (bool \<times> 'a sched_state_scheme) option" where
  "SchedulerTimerHandler handler s =
     do {
       let currentTime = TimeGet s;
       ASSERT (handler = SchedulerTimer);
       s \<leftarrow> (if currentTime - QuantumStartTime s > ucast (th_Priority (Threads s (ActiveThread s)))
            then SchedulerNeedsSwitch s else Some s);
       s \<leftarrow> TimerRegister SchedulerTimer 1 (Some SchedulerTimerHandler_f) NULL s;
       Some (False, s)
     }"

definition SchedulerCritHandler ::
    "addr \<Rightarrow> 'a sched_state_scheme \<Rightarrow> (bool \<times> 'a sched_state_scheme) option" where
  "SchedulerCritHandler handler s =
     do {
       ASSERT (handler = SchedulerCritObject);
       s \<leftarrow> Schedule s;
       let s = IsrDisable IRQ_LEVEL_SOFT s;
       let s = s\<lparr>QuantumStartTime := TimeGet s\<rparr>;
       s \<leftarrow> IsrEnable IRQ_LEVEL_SOFT s;
       s \<leftarrow> SchedulerSwitch s;
       Some (True, s)
     }"

definition SchedulerGetLockingContext :: "'a sched_state_scheme \<Rightarrow> (lctx \<times> 'a sched_state_scheme) option" where
  "SchedulerGetLockingContext s =
     do {
       ASSERT (HalIsIrqAtomic IRQ_LEVEL_CRIT s);
       let s = s\<lparr>ActiveThread := SchedulerGetActiveThread s\<rparr>;
       Some (ThreadContext (ActiveThread s), s)
     }"

section \<open>The locking framework\<close>

definition LockingGetContext ::
    "lctx option \<Rightarrow> 'a sched_state_scheme \<Rightarrow> (lctx \<times> 'a sched_state_scheme) option" where
  "LockingGetContext context s =
     (case context of NULL \<Rightarrow> SchedulerGetLockingContext s | Some c \<Rightarrow> Some (c, s))"

definition LockingInit ::
    "lctx \<Rightarrow> BLOCK_FUNCTION \<Rightarrow> WAKE_FUNCTION \<Rightarrow> 'a sched_state_scheme \<Rightarrow> 'a sched_state_scheme" where
  "LockingInit context block wake s =
     upd_context context (\<lambda>c. c\<lparr>lc_State := LOCKING_STATE_READY, lc_BlockFunction := block, lc_WakeFunction := wake\<rparr>) s"

definition LockingStart :: "'a sched_state_scheme \<Rightarrow> 'a sched_state_scheme" where
  "LockingStart s = SchedulerStartCritical s"

definition LockingEnd :: "'a sched_state_scheme \<Rightarrow> 'a sched_state_scheme option" where
  "LockingEnd s = SchedulerEndCritical s"

definition LockingWakeNonBlocking :: "lctx \<Rightarrow> 'a sched_state_scheme \<Rightarrow> 'a sched_state_scheme option" where
  "LockingWakeNonBlocking context s =
     (case lc_State (Contexts s context) of
        LOCKING_STATE_ACQUIRED \<Rightarrow> None
      | _ \<Rightarrow> Some (upd_context context (\<lambda>c. c\<lparr>lc_State := LOCKING_STATE_ACQUIRED\<rparr>) s))"

definition LockingBlockNonBlocking :: "lctx \<Rightarrow> 'a sched_state_scheme \<Rightarrow> 'a sched_state_scheme option" where
  "LockingBlockNonBlocking context s = Some s"

definition WorkerBlockOnLock :: "lctx \<Rightarrow> 'a sched_state_scheme \<Rightarrow> 'a sched_state_scheme option" where
  "WorkerBlockOnLock context s = Some s"

text \<open>The calls through the function pointers of a context. \<open>wk\<close> is the wake function of the
  worker unit, which is built on top of the locks.\<close>

definition call_block :: "BLOCK_FUNCTION \<Rightarrow> lctx \<Rightarrow> 'a sched_state_scheme \<Rightarrow> 'a sched_state_scheme option" where
  "call_block f context s =
     (case f of SchedulerBlockOnLock_f \<Rightarrow> SchedulerBlockOnLock context s
      | LockingBlockNonBlocking_f \<Rightarrow> LockingBlockNonBlocking context s
      | WorkerBlockOnLock_f \<Rightarrow> WorkerBlockOnLock context s)"

type_synonym 'a wake = "lctx \<Rightarrow> 'a sched_state_scheme \<Rightarrow> 'a sched_state_scheme option"

definition call_wake :: "'a wake \<Rightarrow> WAKE_FUNCTION \<Rightarrow> lctx \<Rightarrow> 'a sched_state_scheme \<Rightarrow> 'a sched_state_scheme option" where
  "call_wake wk f context s =
     (case f of SchedulerWakeOnLock_f \<Rightarrow> SchedulerWakeOnLock context s
      | LockingWakeNonBlocking_f \<Rightarrow> LockingWakeNonBlocking context s
      | WorkerWakeOnLock_f \<Rightarrow> wk context s)"

definition LockingAcquire :: "'a wake \<Rightarrow> lctx option \<Rightarrow> 'a sched_state_scheme \<Rightarrow> 'a sched_state_scheme option" where
  "LockingAcquire wk context s =
     do {
       AssertCritical s;
       (context, s) \<leftarrow> LockingGetContext context s;
       ASSERT (lc_State (Contexts s context) = LOCKING_STATE_READY \<or>
               lc_State (Contexts s context) = LOCKING_STATE_BLOCKING);
       call_wake wk (lc_WakeFunction (Contexts s context)) context s
     }"

text \<open>The link of the context is returned for the lock to enqueue; it is the context itself here.\<close>

definition LockingBlock ::
    "RESOURCE_STATE option \<Rightarrow> lctx option \<Rightarrow> 'a sched_state_scheme \<Rightarrow> (lctx \<times> 'a sched_state_scheme) option" where
  "LockingBlock blockingInfo context s =
     do {
       AssertCritical s;
       (context, s) \<leftarrow> LockingGetContext context s;
       ASSERT (lc_State (Contexts s context) = LOCKING_STATE_READY);
       let s = (case blockingInfo of NULL \<Rightarrow> s
          | Some info \<Rightarrow> upd_context context (\<lambda>c. c\<lparr>lc_BlockingContext := info\<rparr>) s);
       s \<leftarrow> call_block (lc_BlockFunction (Contexts s context)) context s;
       let s = upd_context context (\<lambda>c. c\<lparr>lc_State := LOCKING_STATE_BLOCKING\<rparr>) s;
       Some (context, s)
     }"

definition LockingIsAcquired :: "lctx option \<Rightarrow> 'a sched_state_scheme \<Rightarrow> (bool \<times> 'a sched_state_scheme) option" where
  "LockingIsAcquired context s =
     do {
       let s = SchedulerStartCritical s;
       context \<leftarrow> context;
       (result, s) \<leftarrow> (case lc_State (Contexts s context) of
           LOCKING_STATE_ACQUIRED \<Rightarrow> Some (True, upd_context context (\<lambda>c. c\<lparr>lc_State := LOCKING_STATE_READY\<rparr>) s)
         | LOCKING_STATE_BLOCKING \<Rightarrow> Some (False, s)
         | LOCKING_STATE_READY \<Rightarrow> None);
       s \<leftarrow> SchedulerEndCritical s;
       Some (result, s)
     }"

definition LockingIsFree :: "lctx \<Rightarrow> 'a sched_state_scheme \<Rightarrow> bool" where
  "LockingIsFree context s = (lc_State (Contexts s context) = LOCKING_STATE_READY)"

section \<open>Thread creation, shutdown and thread locals\<close>

definition ResourceInit :: "RESOURCE \<Rightarrow> RESOURCE_STATE \<Rightarrow> RESOURCE" where
  "ResourceInit lock state = lock\<lparr>re_State := state, re_WaitingThreads := [], re_NumShared := 0\<rparr>"

definition SchedulerCreateThread ::
    "addr \<Rightarrow> 8 word \<Rightarrow> INDEX \<times> 8 word list \<Rightarrow> COUNT \<Rightarrow> nat option \<Rightarrow> ptr \<Rightarrow> ptr \<Rightarrow> bool \<Rightarrow>
     'a sched_state_scheme \<Rightarrow> 'a sched_state_scheme option" where
  "SchedulerCreateThread thread priority stack stackSize main argument local start s =
     do {
       ASSERT (HalIsIrqAtomic IRQ_LEVEL_CRIT s);
       let s = s\<lparr>RunningThreads := RunningThreads s + 1\<rparr>;
       let s = upd_thread thread (\<lambda>t. t\<lparr>th_Priority := priority\<rparr>) s;
       let s = LockingInit (ThreadContext thread) SchedulerBlockOnLock_f SchedulerWakeOnLock_f s;
       let s = upd_thread thread (\<lambda>t. t\<lparr>th_ResultLock := ResourceInit (th_ResultLock t) RESOURCE_EXCLUSIVE,
          th_Main := main, th_Argument := argument, th_Local := local, th_Result := NULL\<rparr>) s;
       (c, bytes, s) \<leftarrow> ContextInit (th_Stack (Threads s thread)) thread stack stackSize
          SchedulerThreadStartup_r thread s;
       let s = upd_thread thread (\<lambda>t. t\<lparr>th_Stack := c\<rparr>) s;
       (if start then
          do {
            let s = upd_thread thread (\<lambda>t. t\<lparr>th_State := THREAD_STATE_RUNNING\<rparr>) s;
            q \<leftarrow> enqueue thread (RunQueue s);
            Some (s\<lparr>RunQueue := q\<rparr>)
          }
        else Some (upd_thread thread (\<lambda>t. t\<lparr>th_State := THREAD_STATE_BLOCKED\<rparr>) s))
     }"

definition SchedulerStartup :: "'a sched_state_scheme \<Rightarrow> 'a sched_state_scheme option" where
  "SchedulerStartup s =
     do {
       let s = s\<lparr>RunQueue := []\<rparr>;
       let s = HandlerInit SchedulerTimer s;
       s \<leftarrow> TimerRegister SchedulerTimer 0 (Some SchedulerTimerHandler_f) NULL s;
       let s = s\<lparr>SchedulerMutex := MutexInit (SchedulerMutex s) False\<rparr>;
       let s = s\<lparr>QuantumStartTime := TimeGet s\<rparr>;
       let s = s\<lparr>RunningThreads := 0, Shutdown := False\<rparr>;
       s \<leftarrow> SchedulerCreateThread IdleThread 1 (0, []) 0 None NULL NULL False s;
       Some (s\<lparr>ActiveThread := IdleThread\<rparr>)
     }"

definition SchedulerShutdown :: "'a sched_state_scheme \<Rightarrow> 'a sched_state_scheme option" where
  "SchedulerShutdown s =
     do {
       let s = SchedulerStartCritical s;
       SchedulerEndCritical (s\<lparr>Shutdown := True\<rparr>)
     }"

definition SchedulerIsShuttingDown :: "'a sched_state_scheme \<Rightarrow> (bool \<times> 'a sched_state_scheme) option" where
  "SchedulerIsShuttingDown s =
     do {
       let s = SchedulerStartCritical s;
       let result = Shutdown s;
       s \<leftarrow> SchedulerEndCritical s;
       Some (result, s)
     }"

definition ThreadLocalGet :: "'a sched_state_scheme \<Rightarrow> (ptr \<times> 'a sched_state_scheme) option" where
  "ThreadLocalGet s =
     do {
       let s = IsrDisable IRQ_LEVEL_CRIT s;
       ASSERT (HalIsIrqAtomic IRQ_LEVEL_CRIT s);
       let local = th_Local (Threads s (SchedulerGetActiveThread s));
       s \<leftarrow> IsrEnable IRQ_LEVEL_CRIT s;
       Some (local, s)
     }"

definition ThreadLocalSet :: "ptr \<Rightarrow> 'a sched_state_scheme \<Rightarrow> 'a sched_state_scheme option" where
  "ThreadLocalSet val s =
     do {
       let s = IsrDisable IRQ_LEVEL_CRIT s;
       ASSERT (HalIsIrqAtomic IRQ_LEVEL_CRIT s);
       let s = upd_thread (SchedulerGetActiveThread s) (\<lambda>t. t\<lparr>th_Local := val\<rparr>) s;
       IsrEnable IRQ_LEVEL_CRIT s
     }"

section \<open>Inside a critical section\<close>

text \<open>
  \<open>crit_levels\<close>: the critical and the soft interrupt have their own signals, so that the levels
  below and above the critical one can be told apart. \<open>in_crit\<close>: exactly the critical level is
  disabled.
\<close>

definition crit_levels :: "'a isr_state_scheme \<Rightarrow> bool" where
  "crit_levels s \<longleftrightarrow> isr_ok s \<and> \<not> HalIrqToMask s IRQ_LEVEL_SOFT \<subseteq> HalIrqToMask s IRQ_LEVEL_CRIT \<and>
     \<not> HalIrqToMask s IRQ_LEVEL_CRIT \<subseteq> HalIrqToMask s IRQ_LEVEL_NONE"

definition in_crit :: "'a isr_state_scheme \<Rightarrow> bool" where
  "in_crit s \<longleftrightarrow> crit_levels s \<and> IsrDisabledCount s IRQ_LEVEL_CRIT \<noteq> 0 \<and>
     (\<forall>l. IRQ_LEVEL_CRIT < l \<longrightarrow> IsrDisabledCount s l = 0)"

definition open_irq :: "'a isr_state_scheme \<Rightarrow> bool" where
  "open_irq s \<longleftrightarrow> crit_levels s \<and> (\<forall>l. IsrDisabledCount s l = 0)"

lemma in_crit_top: "in_crit s \<Longrightarrow> isr_top (IsrDisabledCount s) = IRQ_LEVEL_CRIT"
  by (simp add: in_crit_def isr_top_def numeral_eq_Suc)

lemma in_crit_strict:
  assumes "in_crit s" and "k < IRQ_LEVEL_COUNT" and "IRQ_LEVEL_CRIT < k"
  shows "\<not> HalIrqToMask s k \<subseteq> HalIrqToMask s IRQ_LEVEL_CRIT"
proof -
  have "HalIrqToMask s IRQ_LEVEL_SOFT \<subseteq> HalIrqToMask s k"
    by (rule hal_ok_mono) (use assms in \<open>auto simp: in_crit_def crit_levels_def isr_ok_def\<close>)
  then show ?thesis using assms(1) by (auto simp: in_crit_def crit_levels_def)
qed

lemma in_crit_atomic:
  assumes "in_crit s" and "0 < l" and "l < IRQ_LEVEL_COUNT"
  shows "IsrIsAtomic l s = Some (l = IRQ_LEVEL_CRIT)"
proof -
  have top: "isr_top (IsrDisabledCount s) = IRQ_LEVEL_CRIT" using assms(1) by (rule in_crit_top)
  have "IsrAtomicLoop (IRQ_LEVEL_COUNT - l) l s = Some (\<exists>k < IRQ_LEVEL_COUNT - l. IsrDisabledCount s (l + k) \<noteq> 0)"
    by (rule IsrAtomicLoop_counts) (use assms in_crit_strict [OF assms(1)] top in \<open>auto simp: in_crit_def crit_levels_def\<close>)
  moreover have "(\<exists>k < IRQ_LEVEL_COUNT - l. IsrDisabledCount s (l + k) \<noteq> 0) \<longleftrightarrow> l = IRQ_LEVEL_CRIT"
  proof
    assume "\<exists>k < IRQ_LEVEL_COUNT - l. IsrDisabledCount s (l + k) \<noteq> 0"
    then obtain k where "IsrDisabledCount s (l + k) \<noteq> 0" by blast
    then have "\<not> IRQ_LEVEL_CRIT < l + k" using assms(1) by (auto simp: in_crit_def)
    then show "l = IRQ_LEVEL_CRIT" using assms(2) by simp
  next
    assume "l = IRQ_LEVEL_CRIT"
    then show "\<exists>k < IRQ_LEVEL_COUNT - l. IsrDisabledCount s (l + k) \<noteq> 0"
      using assms(1) by (intro exI [of _ 0]) (simp add: in_crit_def)
  qed
  ultimately show ?thesis using assms(2) by (simp add: IsrIsAtomic_def)
qed

lemma in_crit_asserts [simp]:
  assumes "in_crit s"
  shows "AssertCritical s = Some ()" "AssertNotTimer s = Some ()" "HalIsIrqAtomic IRQ_LEVEL_CRIT s"
proof -
  show "AssertCritical s = Some ()" "AssertNotTimer s = Some ()"
    using in_crit_atomic [OF assms] by (simp_all add: AssertCritical_def AssertNotTimer_def
        CritInterruptIsAtomic_def TimerIsAtomic_def)
  show "HalIsIrqAtomic IRQ_LEVEL_CRIT s"
    by (rule isr_ok_atomic) (use assms in \<open>simp_all add: in_crit_def crit_levels_def\<close>)
qed

lemmas in_crit_hal [simp] = in_crit_asserts(3) [unfolded One_nat_def]

text \<open>A critical section opened with all interrupts enabled: what happens inside it does not depend
  on the interrupt state, and closing it restores that state.\<close>

definition crit_counts :: "'a isr_state_scheme \<Rightarrow> IRQ_LEVEL \<Rightarrow> COUNT" where
  "crit_counts s = (IsrDisabledCount s)(IRQ_LEVEL_CRIT := IsrDisabledCount s IRQ_LEVEL_CRIT + 1)"

lemma start_critical:
  assumes "open_irq s"
  shows "SchedulerStartCritical s = set_counts (crit_counts s) s" "in_crit (SchedulerStartCritical s)"
proof -
  show eq: "SchedulerStartCritical s = set_counts (crit_counts s) s"
    unfolding SchedulerStartCritical_def crit_counts_def
    by (rule IsrDisable_counts) (use assms in \<open>simp_all add: open_irq_def crit_levels_def\<close>)
  have "isr_ok (set_counts (crit_counts s) s)"
    by (rule set_counts_ok) (use assms in \<open>simp add: open_irq_def crit_levels_def\<close>)
  then show "in_crit (SchedulerStartCritical s)"
    using assms unfolding eq by (simp add: in_crit_def open_irq_def crit_levels_def crit_counts_def set_counts_def)
qed

lemma end_critical:
  assumes "in_crit s" and "IsrDisabledCount s IRQ_LEVEL_CRIT = 1" and "IsrDisabledCount s IRQ_LEVEL_NONE = 0"
  shows "SchedulerEndCritical s = Some (set_counts (\<lambda>_. 0) s)" "open_irq (set_counts (\<lambda>_. 0) s)"
proof -
  have ok: "isr_ok s" using assms(1) by (simp add: in_crit_def crit_levels_def)
  have "(IsrDisabledCount s)(IRQ_LEVEL_CRIT := IsrDisabledCount s IRQ_LEVEL_CRIT - 1) = (\<lambda>_. 0)"
  proof
    fix l :: nat
    consider "l = 0" | "l = 1" | "IRQ_LEVEL_CRIT < l" by linarith
    then show "((IsrDisabledCount s)(IRQ_LEVEL_CRIT := IsrDisabledCount s IRQ_LEVEL_CRIT - 1)) l = 0"
      using assms by cases (auto simp: in_crit_def)
  qed
  then show "SchedulerEndCritical s = Some (set_counts (\<lambda>_. 0) s)"
    unfolding SchedulerEndCritical_def using IsrEnable_counts [OF ok, of IRQ_LEVEL_CRIT] assms(2) by simp
  show "open_irq (set_counts (\<lambda>_. 0) s)"
    using set_counts_ok [OF ok, of "\<lambda>_. 0"] assms(1)
    by (simp add: open_irq_def in_crit_def crit_levels_def set_counts_def)
qed

section \<open>The invariant of the scheduler\<close>

definition irq_same :: "'a isr_state_scheme \<Rightarrow> 'b isr_state_scheme \<Rightarrow> bool" where
  "irq_same s s' \<longleftrightarrow> HalIrqToMask s' = HalIrqToMask s \<and> sig_mask s' = sig_mask s \<and>
     IsrDisabledCount s' = IsrDisabledCount s"

lemma irq_same_in_crit: "irq_same s s' \<Longrightarrow> in_crit s \<Longrightarrow> in_crit s'"
  by (simp add: irq_same_def in_crit_def crit_levels_def isr_ok_def hal_ok_def)

lemma irq_same_refl [simp]: "irq_same s s"
  by (simp add: irq_same_def)

lemma irq_same_trans: "irq_same s s1 \<Longrightarrow> irq_same s1 s2 \<Longrightarrow> irq_same s s2"
  by (simp add: irq_same_def)

lemma sched_fields [simp]:
  "Threads (upd_thread t f s) = (Threads s)(t := f (Threads s t))" "Contexts (upd_thread t f s) = Contexts s"
  "ActiveThread (upd_thread t f s) = ActiveThread s" "NextThread (upd_thread t f s) = NextThread s"
  "RunQueue (upd_thread t f s) = RunQueue s" "SchedulerMutex (upd_thread t f s) = SchedulerMutex s"
  "Handlers (upd_thread t f s) = Handlers s" "CritInterruptHandlerList (upd_thread t f s) = CritInterruptHandlerList s"
  "SoftInterruptHandlerList (upd_thread t f s) = SoftInterruptHandlerList s"
  "QuantumStartTime (upd_thread t f s) = QuantumStartTime s"
  "Contexts (upd_context c g s) = (Contexts s)(c := g (Contexts s c))" "Threads (upd_context c g s) = Threads s"
  "ActiveThread (upd_context c g s) = ActiveThread s" "NextThread (upd_context c g s) = NextThread s"
  "RunQueue (upd_context c g s) = RunQueue s" "SchedulerMutex (upd_context c g s) = SchedulerMutex s"
  "Handlers (upd_context c g s) = Handlers s" "CritInterruptHandlerList (upd_context c g s) = CritInterruptHandlerList s"
  "SoftInterruptHandlerList (upd_context c g s) = SoftInterruptHandlerList s"
  "QuantumStartTime (upd_context c g s) = QuantumStartTime s"
  by (simp_all add: upd_thread_def upd_context_def)

lemma sched_other_fields [simp]:
  "Threads (HalRaiseInterrupt l s) = Threads s" "Contexts (HalRaiseInterrupt l s) = Contexts s"
  "ActiveThread (HalRaiseInterrupt l s) = ActiveThread s" "NextThread (HalRaiseInterrupt l s) = NextThread s"
  "RunQueue (HalRaiseInterrupt l s) = RunQueue s" "SchedulerMutex (HalRaiseInterrupt l s) = SchedulerMutex s"
  "QuantumStartTime (HalRaiseInterrupt l s) = QuantumStartTime s"
  "Threads (upd_handler h k s) = Threads s" "Contexts (upd_handler h k s) = Contexts s"
  "ActiveThread (upd_handler h k s) = ActiveThread s" "NextThread (upd_handler h k s) = NextThread s"
  "RunQueue (upd_handler h k s) = RunQueue s" "SchedulerMutex (upd_handler h k s) = SchedulerMutex s"
  "QuantumStartTime (upd_handler h k s) = QuantumStartTime s"
  "Threads (set_counts cs s) = Threads s" "Contexts (set_counts cs s) = Contexts s"
  "ActiveThread (set_counts cs s) = ActiveThread s" "NextThread (set_counts cs s) = NextThread s"
  "RunQueue (set_counts cs s) = RunQueue s" "SchedulerMutex (set_counts cs s) = SchedulerMutex s"
  "QuantumStartTime (set_counts cs s) = QuantumStartTime s"
  by (simp_all add: HalRaiseInterrupt_def upd_handler_def set_counts_def)

lemma irq_same_upd [simp]:
  "irq_same s (upd_thread t f s)" "irq_same s (upd_context c g s)" "irq_same s (s\<lparr>RunQueue := q\<rparr>)"
  "irq_same s (s\<lparr>SchedulerMutex := m\<rparr>)" "irq_same s (s\<lparr>NextThread := n\<rparr>)" "irq_same s (s\<lparr>ActiveThread := a\<rparr>)"
  "irq_same s (upd_handler h k s)" "irq_same s (HalRaiseInterrupt l s)" "irq_same s (s\<lparr>CritInterruptHandlerList := x\<rparr>)"
  by (simp_all add: irq_same_def upd_thread_def upd_context_def)

text \<open>
  \<open>sched_ok\<close>: the run queue holds no thread twice, never the active or the idle thread, and
  only running threads with a stack that can be switched to; a thread that waits for a lock is
  blocked; the scheduler's mutex is locked exactly while its handler is on the critical queue; an
  active thread that may not go on running has a switch pending.
\<close>

definition run_queue_ok :: "'a sched_state_scheme \<Rightarrow> bool" where
  "run_queue_ok s \<longleftrightarrow> distinct (RunQueue s) \<and> IdleThread \<notin> set (RunQueue s) \<and>
     ActiveThread s \<notin> set (RunQueue s) \<and>
     (\<forall>t \<in> set (RunQueue s). th_State (Threads s t) = THREAD_STATE_RUNNING \<and> resumable (th_Stack (Threads s t))) \<and>
     (ActiveThread s \<noteq> IdleThread \<longrightarrow> resumable (th_Stack (Threads s IdleThread)))"

definition contexts_ok :: "'a sched_state_scheme \<Rightarrow> bool" where
  "contexts_ok s \<longleftrightarrow>
     (\<forall>t. lc_State (Contexts s (ThreadContext t)) \<noteq> LOCKING_STATE_ACQUIRED \<and>
       (lc_State (Contexts s (ThreadContext t)) = LOCKING_STATE_BLOCKING \<longrightarrow>
         th_State (Threads s t) = THREAD_STATE_BLOCKED \<and> t \<noteq> IdleThread \<and>
         (t \<noteq> ActiveThread s \<longrightarrow> resumable (th_Stack (Threads s t)))) \<and>
       lc_BlockFunction (Contexts s (ThreadContext t)) = SchedulerBlockOnLock_f \<and>
       lc_WakeFunction (Contexts s (ThreadContext t)) = SchedulerWakeOnLock_f) \<and>
     (\<forall>t. lc_BlockFunction (Contexts s (PlainContext t)) = LockingBlockNonBlocking_f \<and>
       lc_WakeFunction (Contexts s (PlainContext t)) = LockingWakeNonBlocking_f)"

definition switch_ok :: "'a sched_state_scheme \<Rightarrow> bool" where
  "switch_ok s \<longleftrightarrow> queues_ok s \<and> SchedulerCritObject \<notin> set (SoftInterruptHandlerList s) \<and>
     (MutexIsLocked (SchedulerMutex s) \<longleftrightarrow> SchedulerCritObject \<in> set (CritInterruptHandlerList s)) \<and>
     (MutexIsLocked (SchedulerMutex s) \<longrightarrow>
        ho_Function (Handlers s SchedulerCritObject) = Some SchedulerCritHandler_f \<and>
        ho_CompleteFunction (Handlers s SchedulerCritObject) = Some PostCritHandler_f)"

definition sched_ok :: "'a sched_state_scheme \<Rightarrow> bool" where
  "sched_ok s \<longleftrightarrow> run_queue_ok s \<and> contexts_ok s \<and> switch_ok s \<and>
     (ActiveThread s \<noteq> IdleThread \<and> th_State (Threads s (ActiveThread s)) \<noteq> THREAD_STATE_RUNNING \<longrightarrow>
        MutexIsLocked (SchedulerMutex s))"

lemma sched_parts_frame [simp]:
  "run_queue_ok (upd_context c g s) = run_queue_ok s" "switch_ok (upd_context c g s) = switch_ok s"
  "switch_ok (upd_thread t f s) = switch_ok s" "switch_ok (s\<lparr>RunQueue := q\<rparr>) = switch_ok s"
  "switch_ok (s\<lparr>NextThread := n\<rparr>) = switch_ok s" "switch_ok (s\<lparr>ActiveThread := a\<rparr>) = switch_ok s"
  "switch_ok (s\<lparr>QuantumStartTime := x\<rparr>) = switch_ok s"
  by (simp_all add: run_queue_ok_def switch_ok_def queues_ok_def)

lemma SchedulerNeedsSwitch_eq:
  "SchedulerNeedsSwitch s =
     (if MutexIsLocked (SchedulerMutex s) then Some (s\<lparr>SchedulerMutex := snd (MutexLock (SchedulerMutex s))\<rparr>)
      else Some (HalRaiseInterrupt IRQ_LEVEL_CRIT
        ((upd_handler SchedulerCritObject (\<lambda>_. \<lparr>ho_Function = Some SchedulerCritHandler_f, ho_Context = NULL,
            ho_CompleteFunction = Some PostCritHandler_f, ho_State = HANDLER_QUEUED\<rparr>)
          (s\<lparr>SchedulerMutex := snd (MutexLock (SchedulerMutex s))\<rparr>))
            \<lparr>CritInterruptHandlerList := SchedulerCritObject # CritInterruptHandlerList s\<rparr>)))"
proof (cases "MutexLock (SchedulerMutex s)")
  case (Pair b m)
  then have b: "b = (\<not> MutexIsLocked (SchedulerMutex s))" using MutexLock_eq(1) [of "SchedulerMutex s"] by simp
  have ho: "ho\<lparr>ho_CompleteFunction := Some PostCritHandler_f, ho_Function := Some SchedulerCritHandler_f,
       ho_Context := NULL, ho_State := HANDLER_QUEUED\<rparr> =
     \<lparr>ho_Function = Some SchedulerCritHandler_f, ho_Context = NULL,
       ho_CompleteFunction = Some PostCritHandler_f, ho_State = HANDLER_QUEUED\<rparr>" for ho :: HANDLER_OBJECT
    by (cases ho) simp
  show ?thesis
    by (cases "MutexIsLocked (SchedulerMutex s)")
      (simp_all add: SchedulerNeedsSwitch_def Pair b HandlerInit_def HandlerCompetion_def
        CritInterruptRegisterHandler_eq upd_handler_def queued_as_def ho)
qed

definition switch_queue :: "'a sched_state_scheme \<Rightarrow> addr list" where
  "switch_queue s = (if MutexIsLocked (SchedulerMutex s) then CritInterruptHandlerList s
     else SchedulerCritObject # CritInterruptHandlerList s)"

text \<open>Requesting a switch never fails and is idempotent.\<close>

lemma SchedulerNeedsSwitch_ok:
  assumes "switch_ok s"
  shows "\<exists>s'. SchedulerNeedsSwitch s = Some s' \<and> switch_ok s' \<and> MutexIsLocked (SchedulerMutex s') \<and>
     irq_same s s' \<and> Threads s' = Threads s \<and> Contexts s' = Contexts s \<and> ActiveThread s' = ActiveThread s \<and>
     NextThread s' = NextThread s \<and> RunQueue s' = RunQueue s \<and>
     SoftInterruptHandlerList s' = SoftInterruptHandlerList s \<and>
     CritInterruptHandlerList s' = switch_queue s"
  using assms
  by (auto simp: SchedulerNeedsSwitch_eq switch_ok_def queues_ok_def irq_same_def switch_queue_def)

section \<open>Blocking and waking\<close>

definition ctx_of :: "lctx option \<Rightarrow> 'a sched_state_scheme \<Rightarrow> lctx" where
  "ctx_of c s = (case c of NULL \<Rightarrow> ThreadContext (ActiveThread s) | Some c \<Rightarrow> c)"

abbreviation waiting :: "lctx \<Rightarrow> 'a sched_state_scheme \<Rightarrow> bool" where
  "waiting c s \<equiv> lc_State (Contexts s c) = LOCKING_STATE_BLOCKING"

text \<open>Who may call a lock: the active thread with the null context, or a caller with a plain context
  that is not in use.\<close>

definition may_wait :: "lctx option \<Rightarrow> 'a sched_state_scheme \<Rightarrow> bool" where
  "may_wait c s \<longleftrightarrow> lc_State (Contexts s (ctx_of c s)) = LOCKING_STATE_READY \<and>
     (case c of
        NULL \<Rightarrow> ActiveThread s \<noteq> IdleThread \<and> th_State (Threads s (ActiveThread s)) = THREAD_STATE_RUNNING
      | Some (PlainContext a) \<Rightarrow> True
      | _ \<Rightarrow> False)"

text \<open>A waiting context can be woken: not one of a work item, and not that of the thread which is
  still active.\<close>

definition wakeable :: "lctx \<Rightarrow> 'a sched_state_scheme \<Rightarrow> bool" where
  "wakeable c s \<longleftrightarrow> waiting c s \<and> c \<noteq> ThreadContext (ActiveThread s) \<and> (\<forall>w. c \<noteq> WorkerContext w)"

definition blocked_as :: "RESOURCE_STATE option \<Rightarrow> LOCKING_CONTEXT \<Rightarrow> LOCKING_CONTEXT" where
  "blocked_as info lc =
     (case info of NULL \<Rightarrow> lc\<lparr>lc_State := LOCKING_STATE_BLOCKING\<rparr>
      | Some i \<Rightarrow> lc\<lparr>lc_BlockingContext := i, lc_State := LOCKING_STATE_BLOCKING\<rparr>)"

fun acquired_state :: "lctx \<Rightarrow> LOCKING_STATE" where
  "acquired_state (ThreadContext t) = LOCKING_STATE_READY"
| "acquired_state c = LOCKING_STATE_ACQUIRED"

fun woken_threads :: "lctx \<Rightarrow> addr list" where
  "woken_threads (ThreadContext t) = [t]"
| "woken_threads c = []"

text \<open>What blocking and waking leave alone.\<close>

definition lock_frame :: "'a sched_state_scheme \<Rightarrow> 'a sched_state_scheme \<Rightarrow> bool" where
  "lock_frame s s' \<longleftrightarrow> sched_ok s' \<and> in_crit s' \<and> irq_same s s' \<and> ActiveThread s' = ActiveThread s"

lemma SchedulerBlockThread_ok:
  assumes "in_crit s" and "switch_ok s"
  shows "\<exists>s'. SchedulerBlockThread s = Some s' \<and> switch_ok s' \<and> MutexIsLocked (SchedulerMutex s') \<and> irq_same s s' \<and>
     Threads s' = (Threads s)(ActiveThread s := (Threads s (ActiveThread s))\<lparr>th_State := THREAD_STATE_BLOCKED\<rparr>) \<and>
     Contexts s' = Contexts s \<and> ActiveThread s' = ActiveThread s \<and> RunQueue s' = RunQueue s \<and>
     CritInterruptHandlerList s' = switch_queue s"
proof -
  let ?s = "upd_thread (ActiveThread s) (\<lambda>t. t\<lparr>th_State := THREAD_STATE_BLOCKED\<rparr>) s"
  have "switch_ok ?s" using assms(2) by (simp add: switch_ok_def queues_ok_def)
  from SchedulerNeedsSwitch_ok [OF this] obtain s' where "SchedulerNeedsSwitch ?s = Some s'" "switch_ok s'"
    "MutexIsLocked (SchedulerMutex s')" "irq_same ?s s'" "Threads s' = Threads ?s" "Contexts s' = Contexts ?s"
    "ActiveThread s' = ActiveThread ?s" "RunQueue s' = RunQueue ?s" "CritInterruptHandlerList s' = switch_queue ?s" by blast
  moreover from this have "irq_same s s'" using irq_same_trans [of s ?s s'] by simp
  ultimately show ?thesis using assms(1) by (simp add: SchedulerBlockThread_def switch_queue_def)
qed

lemma LockingBlock_thread:
  assumes crit: "in_crit s" and ok: "sched_ok s" and may: "may_wait NULL s"
  shows "\<exists>s'. LockingBlock info NULL s = Some (ctx_of NULL s, s') \<and> lock_frame s s' \<and> RunQueue s' = RunQueue s \<and>
     Contexts s' = (Contexts s)(ctx_of NULL s := blocked_as info (Contexts s (ctx_of NULL s))) \<and>
     CritInterruptHandlerList s' = switch_queue s"
proof -
  let ?t = "ActiveThread s" and ?c = "ThreadContext (ActiveThread s)"
  let ?lc = "Contexts s ?c"
  define s1 where "s1 = (case info of NULL \<Rightarrow> s | Some i \<Rightarrow> upd_context ?c (\<lambda>c. c\<lparr>lc_BlockingContext := i\<rparr>) s)"
  have m: "lc_State ?lc = LOCKING_STATE_READY" "?t \<noteq> IdleThread" "th_State (Threads s ?t) = THREAD_STATE_RUNNING"
    using may by (simp_all add: may_wait_def ctx_of_def)
  have o: "run_queue_ok s" "contexts_ok s" "switch_ok s" using ok by (simp_all add: sched_ok_def)
  have s1: "irq_same s s1" "Threads s1 = Threads s" "ActiveThread s1 = ?t" "RunQueue s1 = RunQueue s" "switch_ok s1"
    "Contexts s1 = (Contexts s)(?c := (case info of NULL \<Rightarrow> ?lc | Some i \<Rightarrow> ?lc\<lparr>lc_BlockingContext := i\<rparr>))"
    using o(3) by (auto simp: s1_def switch_ok_def queues_ok_def split: option.split)
  have crit1: "in_crit s1" by (rule irq_same_in_crit [OF s1(1) crit])
  obtain s2 where s2: "SchedulerBlockThread s1 = Some s2" "switch_ok s2" "MutexIsLocked (SchedulerMutex s2)"
     "irq_same s1 s2" "Threads s2 = (Threads s)(?t := (Threads s ?t)\<lparr>th_State := THREAD_STATE_BLOCKED\<rparr>)"
     "Contexts s2 = Contexts s1" "ActiveThread s2 = ?t" "RunQueue s2 = RunQueue s"
     "CritInterruptHandlerList s2 = switch_queue s1"
    using SchedulerBlockThread_ok [OF crit1 s1(5)] unfolding s1(2-4) by blast
  have sq: "switch_queue s1 = switch_queue s" by (simp add: s1_def switch_queue_def split: option.split)
  define s' where "s' = upd_context ?c (\<lambda>c. c\<lparr>lc_State := LOCKING_STATE_BLOCKING\<rparr>) s2"
  have bf: "lc_BlockFunction (Contexts s1 ?c) = SchedulerBlockOnLock_f"
    using o(2) by (simp add: s1(6) contexts_ok_def split: option.split)
  have run: "LockingBlock info NULL s = Some (?c, s')"
    using crit m(1) bf s2(1) s1(3)
    by (simp add: LockingBlock_def LockingGetContext_def SchedulerGetLockingContext_def SchedulerGetActiveThread_def
        s1_def [symmetric] call_block_def SchedulerBlockOnLock_def s'_def)
  have ctx: "Contexts s' = (Contexts s)(?c := blocked_as info ?lc)"
    by (simp add: s'_def s2(6) s1(6) blocked_as_def split: option.split)
  have irq: "irq_same s s'" using s1(1) s2(4) by (simp add: irq_same_def s'_def upd_context_def)
  have "run_queue_ok s'" using o(1) m(2) by (auto simp: run_queue_ok_def s'_def s2(5,7,8))
  moreover have "contexts_ok s'"
    using o(2) m(2) unfolding contexts_ok_def ctx
    by (auto simp: s'_def s2(5,7) blocked_as_def split: option.split)
  moreover have "switch_ok s'" using s2(2) by (simp add: switch_ok_def queues_ok_def s'_def)
  ultimately have "sched_ok s'" using s2(3) by (simp add: sched_ok_def s'_def)
  then have "lock_frame s s'"
    using irq irq_same_in_crit [OF irq crit] by (simp add: lock_frame_def s'_def s2(7))
  then show ?thesis using run ctx s2(9) sq by (simp add: ctx_of_def s'_def s2(8))
qed

lemma sched_ok_plain:
  assumes "sched_ok s" and "lc_BlockFunction (g (Contexts s (PlainContext a))) = lc_BlockFunction (Contexts s (PlainContext a))"
    and "lc_WakeFunction (g (Contexts s (PlainContext a))) = lc_WakeFunction (Contexts s (PlainContext a))"
  shows "sched_ok (upd_context (PlainContext a) g s)"
proof -
  have "contexts_ok (upd_context (PlainContext a) g s)"
    using assms by (auto simp: sched_ok_def contexts_ok_def)
  then show ?thesis using assms(1) by (simp add: sched_ok_def)
qed

lemma LockingBlock_plain:
  assumes crit: "in_crit s" and ok: "sched_ok s" and may: "may_wait (Some (PlainContext a)) s"
  shows "\<exists>s'. LockingBlock info (Some (PlainContext a)) s = Some (PlainContext a, s') \<and> lock_frame s s' \<and>
     RunQueue s' = RunQueue s \<and>
     Contexts s' = (Contexts s)(PlainContext a := blocked_as info (Contexts s (PlainContext a)))"
proof -
  let ?c = "PlainContext a"
  define s' where "s' = upd_context ?c (blocked_as info) s"
  have bf: "lc_BlockFunction (Contexts s ?c) = LockingBlockNonBlocking_f"
    using ok by (simp add: sched_ok_def contexts_ok_def)
  have st: "lc_State (Contexts s ?c) = LOCKING_STATE_READY" using may by (simp add: may_wait_def ctx_of_def)
  have "LockingBlock info (Some ?c) s = Some (?c, s')"
    using crit st bf
    by (cases info) (simp_all add: LockingBlock_def LockingGetContext_def call_block_def LockingBlockNonBlocking_def
        s'_def blocked_as_def upd_context_def)
  moreover have "sched_ok s'"
    unfolding s'_def by (rule sched_ok_plain [OF ok]) (simp_all add: blocked_as_def split: option.split)
  moreover have "in_crit s'" by (rule irq_same_in_crit [OF _ crit]) (simp add: s'_def)
  ultimately show ?thesis by (simp add: lock_frame_def s'_def)
qed

lemma LockingBlock_ok:
  assumes "in_crit s" and "sched_ok s" and "may_wait c s"
  shows "\<exists>s'. LockingBlock info c s = Some (ctx_of c s, s') \<and> lock_frame s s' \<and> RunQueue s' = RunQueue s \<and>
     Contexts s' = (Contexts s)(ctx_of c s := blocked_as info (Contexts s (ctx_of c s)))"
proof (cases c)
  case None
  then show ?thesis using LockingBlock_thread assms by blast
next
  case (Some d)
  then obtain a where "c = Some (PlainContext a)" using assms(3) by (cases d) (simp_all add: may_wait_def)
  then show ?thesis using LockingBlock_plain [OF assms(1,2)] assms(3) by (auto simp: ctx_of_def)
qed

lemma LockingAcquire_now:
  assumes crit: "in_crit s" and ok: "sched_ok s" and may: "may_wait c s"
  shows "\<exists>s'. LockingAcquire wk c s = Some s' \<and> lock_frame s s' \<and> RunQueue s' = RunQueue s \<and>
     Contexts s' = (Contexts s)(ctx_of c s := (Contexts s (ctx_of c s))\<lparr>lc_State := acquired_state (ctx_of c s)\<rparr>)"
proof -
  let ?c = "ctx_of c s"
  define s' where "s' = upd_context ?c (\<lambda>lc. lc\<lparr>lc_State := acquired_state ?c\<rparr>) s"
  have get: "LockingGetContext c s = Some (?c, s)"
    using crit by (cases c) (simp_all add: LockingGetContext_def SchedulerGetLockingContext_def
        SchedulerGetActiveThread_def ctx_of_def)
  have st: "lc_State (Contexts s ?c) = LOCKING_STATE_READY" using may by (simp add: may_wait_def)
  have kind: "(\<exists>t. ?c = ThreadContext t) \<or> (\<exists>a. ?c = PlainContext a)"
    using may by (auto simp: may_wait_def ctx_of_def split: option.splits lctx.splits)
  have "call_wake wk (lc_WakeFunction (Contexts s ?c)) ?c s = Some s'"
    using kind ok st
    by (auto simp: sched_ok_def contexts_ok_def call_wake_def SchedulerWakeOnLock_def LockingWakeNonBlocking_def s'_def)
  then have "LockingAcquire wk c s = Some s'" using crit st get by (simp add: LockingAcquire_def)
  moreover have "sched_ok s'"
  proof -
    have "upd_context (ThreadContext t) (\<lambda>lc. lc\<lparr>lc_State := acquired_state (ThreadContext t)\<rparr>) s = s"
      if "lc_State (Contexts s (ThreadContext t)) = LOCKING_STATE_READY" for t
      using that by (simp add: upd_context_def fun_upd_idem)
    then show ?thesis using kind st ok sched_ok_plain [OF ok] unfolding s'_def by auto
  qed
  moreover have "in_crit s'" by (rule irq_same_in_crit [OF _ crit]) (simp add: s'_def)
  ultimately show ?thesis by (simp add: lock_frame_def s'_def)
qed

lemma SchedulerResumeThread_ok:
  assumes "in_crit s" and "th_State (Threads s t) = THREAD_STATE_BLOCKED" and "t \<notin> set (RunQueue s)"
  shows "SchedulerResumeThread t s =
     Some ((upd_thread t (\<lambda>t. t\<lparr>th_State := THREAD_STATE_RUNNING\<rparr>) s)\<lparr>RunQueue := RunQueue s @ [t]\<rparr>)"
  using assms by (simp add: SchedulerResumeThread_def enqueue_def)

lemma LockingAcquire_wake:
  assumes crit: "in_crit s" and ok: "sched_ok s" and wak: "wakeable c s"
  shows "\<exists>s'. LockingAcquire wk (Some c) s = Some s' \<and> lock_frame s s' \<and> RunQueue s' = RunQueue s @ woken_threads c \<and>
     Contexts s' = (Contexts s)(c := (Contexts s c)\<lparr>lc_State := acquired_state c\<rparr>)"
proof (cases c)
  case (ThreadContext t)
  have w: "waiting (ThreadContext t) s" "t \<noteq> ActiveThread s" using wak by (simp_all add: wakeable_def ThreadContext)
  have o: "run_queue_ok s" "contexts_ok s" using ok by (simp_all add: sched_ok_def)
  have t: "th_State (Threads s t) = THREAD_STATE_BLOCKED" "t \<noteq> IdleThread" "resumable (th_Stack (Threads s t))"
    using o(2) w by (simp_all add: contexts_ok_def)
  have notin: "t \<notin> set (RunQueue s)" using o(1) t(1) by (auto simp: run_queue_ok_def)
  define s1 where "s1 = upd_context c (\<lambda>lc. lc\<lparr>lc_State := LOCKING_STATE_READY\<rparr>) s"
  define s' where "s' = (upd_thread t (\<lambda>t. t\<lparr>th_State := THREAD_STATE_RUNNING\<rparr>) s1)\<lparr>RunQueue := RunQueue s @ [t]\<rparr>"
  have "in_crit s1" by (rule irq_same_in_crit [OF _ crit]) (simp add: s1_def)
  then have "SchedulerResumeThread t s1 = Some s'"
    unfolding s'_def using SchedulerResumeThread_ok [of s1 t] t(1) notin by (simp add: s1_def)
  then have "LockingAcquire wk (Some c) s = Some s'"
    using crit w(1) o(2)
    by (simp add: LockingAcquire_def LockingGetContext_def call_wake_def contexts_ok_def SchedulerWakeOnLock_def
        ThreadContext s1_def)
  moreover have "run_queue_ok s'"
    using o(1) notin t w(2) by (auto simp: run_queue_ok_def s'_def s1_def)
  moreover have "contexts_ok s'"
    using o(2) by (auto simp: contexts_ok_def s'_def s1_def ThreadContext)
  moreover have "switch_ok s'" using ok by (simp add: sched_ok_def switch_ok_def queues_ok_def s'_def s1_def)
  moreover have "irq_same s s'" by (simp add: irq_same_def s'_def s1_def upd_thread_def upd_context_def)
  ultimately show ?thesis
    using ok w(2) irq_same_in_crit [OF _ crit] ThreadContext
    by (auto simp: lock_frame_def sched_ok_def s'_def s1_def)
next
  case (PlainContext a)
  define s' where "s' = upd_context c (\<lambda>lc. lc\<lparr>lc_State := LOCKING_STATE_ACQUIRED\<rparr>) s"
  have "LockingAcquire wk (Some c) s = Some s'"
    using crit wak ok
    by (simp add: LockingAcquire_def LockingGetContext_def call_wake_def sched_ok_def contexts_ok_def
        LockingWakeNonBlocking_def PlainContext wakeable_def s'_def)
  moreover have "sched_ok s'"
    unfolding s'_def PlainContext by (rule sched_ok_plain [OF ok]) simp_all
  moreover have "in_crit s'" by (rule irq_same_in_crit [OF _ crit]) (simp add: s'_def)
  ultimately show ?thesis by (simp add: lock_frame_def s'_def PlainContext)
next
  case (WorkerContext w)
  then show ?thesis using wak by (simp add: wakeable_def)
qed

section \<open>Switching threads\<close>

definition sched_queue :: "'a sched_state_scheme \<Rightarrow> addr list" where
  "sched_queue s = RunQueue s @
     (if ActiveThread s \<noteq> IdleThread \<and> th_State (Threads s (ActiveThread s)) = THREAD_STATE_RUNNING
      then [ActiveThread s] else [])"

definition sched_next :: "'a sched_state_scheme \<Rightarrow> addr" where
  "sched_next s = (case sched_queue s of [] \<Rightarrow> IdleThread | t # q \<Rightarrow> t)"

lemma Schedule_eq:
  assumes "in_crit s" and "run_queue_ok s"
  shows "Schedule s = Some (s\<lparr>RunQueue := tl (sched_queue s), NextThread := Some (sched_next s)\<rparr>)"
proof -
  have "s\<lparr>RunQueue := RunQueue s\<rparr> = s" by simp
  then have "s\<lparr>RunQueue := [], NextThread := n\<rparr> = s\<lparr>NextThread := n\<rparr>" if "RunQueue s = []" for n
    using that by simp
  then show ?thesis
    using assms by (auto simp: Schedule_def sched_queue_def sched_next_def run_queue_ok_def enqueue_def split: list.splits)
qed

lemma soft_section:
  assumes "in_crit s" and that: "set_quantum = (\<lambda>s. s\<lparr>QuantumStartTime := TimeGet s\<rparr>)"
  shows "IsrEnable IRQ_LEVEL_SOFT (set_quantum (IsrDisable IRQ_LEVEL_SOFT s)) = Some (set_quantum s)"
proof -
  have ok: "isr_ok s" "IsrDisabledCount s IRQ_LEVEL_SOFT = 0" using assms(1) by (simp_all add: in_crit_def crit_levels_def)
  have q: "set_quantum (set_counts c s) = set_counts c (set_quantum s)" for c
    by (simp add: that set_counts_def TimeGet_def HalGetTime_def)
  have same: "isr_ok (set_quantum s)" "IsrDisabledCount (set_quantum s) = IsrDisabledCount s"
    using ok(1) by (simp_all add: that isr_ok_def hal_ok_def)
  have "IsrDisable IRQ_LEVEL_SOFT s = set_counts ((IsrDisabledCount s)(IRQ_LEVEL_SOFT := IsrDisabledCount s IRQ_LEVEL_SOFT + 1)) s"
    by (rule IsrDisable_counts [OF ok(1)]) (simp_all add: ok(2))
  moreover have "IsrDisable IRQ_LEVEL_SOFT (set_quantum s) =
      set_counts ((IsrDisabledCount s)(IRQ_LEVEL_SOFT := IsrDisabledCount s IRQ_LEVEL_SOFT + 1)) (set_quantum s)"
    using IsrDisable_counts [OF same(1), of IRQ_LEVEL_SOFT] ok(2) by (simp add: same(2))
  moreover have "IsrEnable IRQ_LEVEL_SOFT (IsrDisable IRQ_LEVEL_SOFT (set_quantum s)) = Some (set_quantum s)"
    by (rule isr_pair [OF same(1)]) (simp_all add: same(2) ok(2))
  ultimately show ?thesis by (simp add: q)
qed

text \<open>The switch changes nothing of a thread but its stack.\<close>

definition same_threads :: "'a sched_state_scheme \<Rightarrow> 'a sched_state_scheme \<Rightarrow> bool" where
  "same_threads s s' \<longleftrightarrow> (\<forall>t. \<exists>c. Threads s' t = (Threads s t)\<lparr>th_Stack := c\<rparr> \<and>
     (resumable (th_Stack (Threads s t)) \<longrightarrow> resumable c))"

lemma resumable_switched:
  "resumable (c\<lparr>cx_MachineState := m\<lparr>mc_Registers := Switched\<rparr>\<rparr>)"
  "resumable (c\<lparr>cx_TimesSwitched := a, cx_TimesRun := b, cx_LastRanTime := d, cx_LastSelectedTime := e\<rparr>) = resumable c"
  "resumable (c\<lparr>cx_TimesRun := b, cx_LastRanTime := d\<rparr>) = resumable c"
  by (simp_all add: resumable_def)

lemma SchedulerSwitch_ok:
  assumes crit: "in_crit s" and nxt: "NextThread s = Some n"
    and res: "n \<noteq> ActiveThread s \<longrightarrow> resumable (th_Stack (Threads s n))"
  shows "\<exists>ts. SchedulerSwitch s = Some (s\<lparr>ActiveThread := n, NextThread := NULL, Threads := ts\<rparr>) \<and>
     same_threads s (s\<lparr>Threads := ts\<rparr>) \<and> (n \<noteq> ActiveThread s \<longrightarrow> resumable (th_Stack (ts (ActiveThread s))))"
proof -
  let ?a = "ActiveThread s" and ?s = "s\<lparr>ActiveThread := n, NextThread := NULL\<rparr>"
  have crit': "in_crit (?s\<lparr>Threads := ts\<rparr>)" for ts
    by (rule irq_same_in_crit [OF _ crit]) (simp add: irq_same_def)
  have ok: "isr_ok ?s" "IsrDisabledCount ?s IRQ_LEVEL_MAX + 1 \<noteq> 0"
    using crit by (simp_all add: in_crit_def crit_levels_def isr_ok_def hal_ok_def)
  obtain c d where sw: "ContextSwitch (?a = n) (th_Stack (Threads s ?a)) (th_Stack (Threads s n)) ?s = Some (c, d, ?s)"
    and rc: "resumable (th_Stack (Threads s ?a)) \<or> n \<noteq> ?a \<longrightarrow> resumable c"
    and rd: "resumable d = resumable (th_Stack (Threads s n))"
    and sc: "?a = n \<longrightarrow> c = th_Stack (Threads s ?a)"
  proof (cases "?a = n")
    case True
    show thesis
      by (rule that [of "th_Stack (Threads s n)", unfolded True simp_thms, OF ContextSwitch_same])
        (simp_all add: resumable_switched)
  next
    case False
    then have f: "(?a = n) = False" and r: "resumable (th_Stack (Threads s n))" using res by auto
    show thesis
      by (rule that [unfolded f]) (subst ContextSwitch_other [OF ok], simp add: r, simp_all add: resumable_switched)
  qed
  define ts where "ts = (let ts = (Threads s)(?a := (Threads s ?a)\<lparr>th_Stack := c\<rparr>) in ts(n := (ts n)\<lparr>th_Stack := d\<rparr>))"
  have upd: "upd_thread n (\<lambda>t. t\<lparr>th_Stack := d\<rparr>) (upd_thread ?a (\<lambda>t. t\<lparr>th_Stack := c\<rparr>) ?s) = ?s\<lparr>Threads := ts\<rparr>"
    by (simp add: upd_thread_def ts_def Let_def)
  have "SchedulerSwitch s = Some (?s\<lparr>Threads := ts\<rparr>)"
    using crit crit' [of ts] sw nxt upd by (simp add: SchedulerSwitch_def)
  moreover have "\<exists>c'. ts t = (Threads s t)\<lparr>th_Stack := c'\<rparr> \<and> (resumable (th_Stack (Threads s t)) \<longrightarrow> resumable c')" for t
  proof -
    have idem: "(Threads s t)\<lparr>th_Stack := th_Stack (Threads s t)\<rparr> = Threads s t" by simp
    show ?thesis
      by (rule exI [of _ "if t = n then d else if t = ?a then c else th_Stack (Threads s t)"])
        (use rc rd idem in \<open>auto simp: ts_def Let_def\<close>)
  qed
  moreover have "n \<noteq> ?a \<longrightarrow> resumable (th_Stack (ts ?a))" using rc by (simp add: ts_def)
  ultimately show ?thesis by (intro exI [of _ ts]) (simp add: same_threads_def)
qed

lemma sched_next_resumable:
  assumes "run_queue_ok s" and "sched_next s \<noteq> ActiveThread s"
  shows "resumable (th_Stack (Threads s (sched_next s)))"
proof (cases "RunQueue s")
  case Nil
  then show ?thesis using assms by (auto simp: run_queue_ok_def sched_next_def sched_queue_def split: if_splits)
next
  case (Cons t q)
  then show ?thesis using assms(1) by (simp add: run_queue_ok_def sched_next_def sched_queue_def)
qed

text \<open>The state after a switch: the next thread of the queue is active and the queue has moved on.\<close>

definition switched :: "'a sched_state_scheme \<Rightarrow> 'a sched_state_scheme \<Rightarrow> bool" where
  "switched s s' \<longleftrightarrow> ActiveThread s' = sched_next s \<and> RunQueue s' = tl (sched_queue s) \<and> NextThread s' = NULL \<and>
     QuantumStartTime s' = TimeGet s \<and> Contexts s' = Contexts s \<and> same_threads s s' \<and> irq_same s s' \<and>
     Handlers s' = Handlers s \<and> CritInterruptHandlerList s' = CritInterruptHandlerList s \<and>
     SoftInterruptHandlerList s' = SoftInterruptHandlerList s \<and> SchedulerMutex s' = SchedulerMutex s \<and>
     (sched_next s \<noteq> ActiveThread s \<longrightarrow> resumable (th_Stack (Threads s' (ActiveThread s))))"

lemma SchedulerCritHandler_switches:
  assumes crit: "in_crit s" and rq: "run_queue_ok s"
  shows "\<exists>s'. SchedulerCritHandler SchedulerCritObject s = Some (True, s') \<and> switched s s'"
proof -
  define s1 where "s1 = s\<lparr>RunQueue := tl (sched_queue s), NextThread := Some (sched_next s)\<rparr>"
  define s2 where "s2 = s1\<lparr>QuantumStartTime := TimeGet s1\<rparr>"
  have c1: "in_crit s1" by (rule irq_same_in_crit [OF _ crit]) (simp add: irq_same_def s1_def)
  have c2: "in_crit s2" by (rule irq_same_in_crit [OF _ c1]) (simp add: irq_same_def s2_def)
  have en: "IsrEnable IRQ_LEVEL_SOFT ((IsrDisable IRQ_LEVEL_SOFT s1)\<lparr>QuantumStartTime := TimeGet (IsrDisable IRQ_LEVEL_SOFT s1)\<rparr>) = Some s2"
    using soft_section [OF c1 refl] by (simp add: s2_def)
  have "sched_next s \<noteq> ActiveThread s2 \<longrightarrow> resumable (th_Stack (Threads s2 (sched_next s)))"
    using sched_next_resumable [OF rq] by (simp add: s1_def s2_def)
  then obtain ts where ts: "SchedulerSwitch s2 = Some (s2\<lparr>ActiveThread := sched_next s, NextThread := NULL, Threads := ts\<rparr>)"
     "same_threads s2 (s2\<lparr>Threads := ts\<rparr>)"
     "sched_next s \<noteq> ActiveThread s2 \<longrightarrow> resumable (th_Stack (ts (ActiveThread s2)))"
    using SchedulerSwitch_ok [OF c2, of "sched_next s"] by (auto simp: s1_def s2_def)
  let ?s' = "s2\<lparr>ActiveThread := sched_next s, NextThread := NULL, Threads := ts\<rparr>"
  have "SchedulerCritHandler SchedulerCritObject s = Some (True, ?s')"
    using Schedule_eq [OF crit rq] en ts(1) by (simp add: SchedulerCritHandler_def Let_def s1_def [symmetric])
  moreover have "TimeGet s1 = TimeGet s" by (simp add: s1_def TimeGet_def HalGetTime_def)
  then have "switched s ?s'" using ts(2,3) by (simp add: switched_def s1_def s2_def irq_same_def same_threads_def)
  ultimately show ?thesis by blast
qed

lemma sched_next_in: "sched_queue s \<noteq> [] \<Longrightarrow> sched_queue s = sched_next s # tl (sched_queue s)"
  by (simp add: sched_next_def split: list.split)

lemma same_threads_fields:
  assumes "same_threads s s'"
  shows "th_State (Threads s' t) = th_State (Threads s t)"
    "resumable (th_Stack (Threads s t)) \<Longrightarrow> resumable (th_Stack (Threads s' t))"
proof -
  obtain c where "Threads s' t = (Threads s t)\<lparr>th_Stack := c\<rparr>" "resumable (th_Stack (Threads s t)) \<longrightarrow> resumable c"
    using assms unfolding same_threads_def by blast
  then show "th_State (Threads s' t) = th_State (Threads s t)"
    "resumable (th_Stack (Threads s t)) \<Longrightarrow> resumable (th_Stack (Threads s' t))" by simp_all
qed

lemma switched_run_queue:
  assumes "run_queue_ok s" and sw: "switched s s'"
  shows "run_queue_ok s'"
proof -
  have d: "distinct (sched_queue s)" "IdleThread \<notin> set (sched_queue s)"
    "\<forall>t\<in>set (sched_queue s). th_State (Threads s t) = THREAD_STATE_RUNNING"
    using assms(1) by (auto simp: run_queue_ok_def sched_queue_def)
  have f: "ActiveThread s' = sched_next s" "RunQueue s' = tl (sched_queue s)" "same_threads s s'"
    "sched_next s \<noteq> ActiveThread s \<longrightarrow> resumable (th_Stack (Threads s' (ActiveThread s)))"
    using sw by (simp_all add: switched_def)
  have tl: "set (tl (sched_queue s)) \<subseteq> set (sched_queue s)" by (cases "sched_queue s") auto
  have nt: "sched_next s \<notin> set (tl (sched_queue s))"
    using d(1) sched_next_in [of s] by (cases "sched_queue s = []") (auto, metis distinct.simps(2))
  have res: "resumable (th_Stack (Threads s' t))" if "t \<in> set (tl (sched_queue s))" for t
  proof (cases "t = ActiveThread s")
    case True
    then show ?thesis using that nt f(4) by auto
  next
    case False
    then have "t \<in> set (RunQueue s)" using that tl by (auto simp: sched_queue_def split: if_splits)
    then show ?thesis using assms(1) same_threads_fields(2) [OF f(3)] by (simp add: run_queue_ok_def)
  qed
  have idle: "resumable (th_Stack (Threads s' IdleThread))" if "sched_next s \<noteq> IdleThread"
  proof (cases "ActiveThread s = IdleThread")
    case True
    then show ?thesis using that f(4) by simp
  next
    case False
    then show ?thesis using assms(1) same_threads_fields(2) [OF f(3)] by (simp add: run_queue_ok_def)
  qed
  show ?thesis
    using d tl nt res idle same_threads_fields(1) [OF f(3)] unfolding run_queue_ok_def f(1,2)
    by (auto simp: distinct_tl)
qed

lemma switched_contexts:
  assumes "contexts_ok s" and sw: "switched s s'"
  shows "contexts_ok s'"
proof -
  have f: "ActiveThread s' = sched_next s" "Contexts s' = Contexts s" "same_threads s s'"
    "sched_next s \<noteq> ActiveThread s \<longrightarrow> resumable (th_Stack (Threads s' (ActiveThread s)))"
    using sw by (simp_all add: switched_def)
  have "resumable (th_Stack (Threads s' t))" if "waiting (ThreadContext t) s" "t \<noteq> sched_next s" for t
    using that assms(1) f(4) same_threads_fields(2) [OF f(3), of t]
    by (cases "t = ActiveThread s") (simp_all add: contexts_ok_def)
  then show ?thesis
    using assms(1) unfolding contexts_ok_def f(1,2) by (simp add: same_threads_fields(1) [OF f(3)])
qed

text \<open>The handlers of the scheduler, called from the interrupt queues; \<open>other\<close> is the code of
  the other handlers.\<close>

definition sched_call ::
    "(HANDLER_FUNCTION \<Rightarrow> addr \<Rightarrow> 'a sched_state_scheme \<Rightarrow> (bool \<times> 'a sched_state_scheme) option) \<Rightarrow>
     HANDLER_FUNCTION \<Rightarrow> addr \<Rightarrow> 'a sched_state_scheme \<Rightarrow> (bool \<times> 'a sched_state_scheme) option" where
  "sched_call other f h s =
     (case f of SchedulerCritHandler_f \<Rightarrow> SchedulerCritHandler h s
      | SchedulerTimerHandler_f \<Rightarrow> SchedulerTimerHandler h s
      | _ \<Rightarrow> other f h s)"

definition sched_complete :: "HANDLER_COMPLETE_FUNCTION \<Rightarrow> addr \<Rightarrow> 'a sched_state_scheme \<Rightarrow> 'a sched_state_scheme option" where
  "sched_complete f h s = (case f of PostCritHandler_f \<Rightarrow> PostCritHandler h s | _ \<Rightarrow> None)"

text \<open>The critical interrupt with only the switch on its queue.\<close>

lemma switch_delivered:
  assumes crit: "in_crit s" and ok: "sched_ok s" and q: "CritInterruptHandlerList s = [SchedulerCritObject]"
  shows "\<exists>s'. CritInterrupt (sched_call other) sched_complete s = Some s' \<and> sched_ok s' \<and> in_crit s' \<and>
     ActiveThread s' = sched_next s \<and> RunQueue s' = tl (sched_queue s) \<and> Contexts s' = Contexts s \<and>
     QuantumStartTime s' = TimeGet s \<and> \<not> MutexIsLocked (SchedulerMutex s') \<and> same_threads s s' \<and>
     CritInterruptHandlerList s' = []"
proof -
  let ?h = "SchedulerCritObject"
  have o: "run_queue_ok s" "contexts_ok s" "switch_ok s" using ok by (simp_all add: sched_ok_def)
  have st: "ho_State (Handlers s ?h) = HANDLER_QUEUED" "ho_Function (Handlers s ?h) = Some SchedulerCritHandler_f"
    "ho_CompleteFunction (Handlers s ?h) = Some PostCritHandler_f" "MutexIsLocked (SchedulerMutex s)"
    using o(3) q by (simp_all add: switch_ok_def queues_ok_def)
  define s1 where "s1 = upd_handler ?h (\<lambda>ho. ho\<lparr>ho_State := HANDLER_RUNNING\<rparr>) (s\<lparr>CritInterruptHandlerList := []\<rparr>)"
  have view: "sched_next s1 = sched_next s" "sched_queue s1 = sched_queue s" "TimeGet s1 = TimeGet s"
    by (simp_all add: s1_def sched_next_def sched_queue_def TimeGet_def HalGetTime_def upd_handler_def)
  have c1: "in_crit s1" by (rule irq_same_in_crit [OF _ crit]) (simp add: irq_same_def s1_def)
  have o1: "run_queue_ok s1" "contexts_ok s1" using o(1,2) by (simp_all add: s1_def run_queue_ok_def contexts_ok_def)
  obtain s2 where s2: "SchedulerCritHandler ?h s1 = Some (True, s2)" "switched s1 s2"
    using SchedulerCritHandler_switches [OF c1 o1(1)] by blast
  note sw = s2(2) [unfolded switched_def]
  have ctx1: "Contexts s1 = Contexts s" by (simp add: s1_def)
  define s' where "s' = (upd_handler ?h (\<lambda>ho. ho\<lparr>ho_State := HANDLER_READY\<rparr>) s2)
      \<lparr>SchedulerMutex := (SchedulerMutex s)\<lparr>mu_Locked := 0\<rparr>\<rparr>"
  have h2: "Handlers s2 = Handlers s1" "SchedulerMutex s2 = SchedulerMutex s" "CritInterruptHandlerList s2 = []"
    using sw by (simp_all add: s1_def)
  have fin: "HandlerFinish sched_complete ?h s2 = Some s'"
    using st h2 by (simp add: HandlerFinish_def sched_complete_def PostCritHandler_def MutexUnlock_eq s'_def s1_def)
  have "run_handler (sched_call other) sched_complete ?h (s\<lparr>CritInterruptHandlerList := []\<rparr>) = Some s'"
    using st(1,2) s2(1) fin
    by (simp add: run_handler_def HandlerRun_def s1_def [symmetric] sched_call_def) (simp add: s1_def)
  moreover have "CritInterruptHandlerList s' = []" by (simp add: s'_def h2)
  ultimately have run: "CritInterrupt (sched_call other) sched_complete s = Some s'"
    using q by (subst CritInterrupt.simps) (simp, subst CritInterrupt.simps, simp)
  have "run_queue_ok s2" "contexts_ok s2"
    using switched_run_queue [OF o1(1) s2(2)] switched_contexts [OF o1(2) s2(2)] by blast+
  then have "run_queue_ok s'" "contexts_ok s'" by (simp_all add: s'_def run_queue_ok_def contexts_ok_def)
  moreover have "switch_ok s'"
  proof -
    have "SoftInterruptHandlerList s' = SoftInterruptHandlerList s" "CritInterruptHandlerList s' = []"
      "Handlers s' = (Handlers s)(?h := (Handlers s ?h)\<lparr>ho_State := HANDLER_READY\<rparr>)"
      using sw by (simp_all add: s'_def h2 s1_def)
    moreover have "\<not> MutexIsLocked (SchedulerMutex s')" by (simp add: s'_def MutexIsLocked_def)
    ultimately show ?thesis using o(3) q by (auto simp: switch_ok_def queues_ok_def)
  qed
  moreover have "sched_next s \<noteq> IdleThread \<longrightarrow> th_State (Threads s' (ActiveThread s')) = THREAD_STATE_RUNNING"
  proof
    assume ne: "sched_next s \<noteq> IdleThread"
    then have "sched_next s \<in> set (sched_queue s)"
      by (auto simp: sched_next_def split: list.split list.split_asm)
    moreover have "\<forall>t\<in>set (sched_queue s). th_State (Threads s t) = THREAD_STATE_RUNNING"
      using o(1) by (auto simp: run_queue_ok_def sched_queue_def)
    moreover have "th_State (Threads s2 t) = th_State (Threads s t)" for t
      using same_threads_fields(1) [of s1 s2 t] sw by (simp add: s1_def)
    ultimately show "th_State (Threads s' (ActiveThread s')) = THREAD_STATE_RUNNING"
      using sw by (simp add: s'_def view)
  qed
  moreover have "ActiveThread s' = sched_next s" using sw by (simp add: s'_def view)
  ultimately have "sched_ok s'" by (auto simp: sched_ok_def)
  moreover have "in_crit s'" by (rule irq_same_in_crit [OF _ c1]) (use sw in \<open>simp add: irq_same_def s'_def\<close>)
  moreover have "same_threads s s'" using sw by (simp add: same_threads_def s'_def s1_def)
  moreover have "RunQueue s' = tl (sched_queue s)" "Contexts s' = Contexts s" "QuantumStartTime s' = TimeGet s"
    "\<not> MutexIsLocked (SchedulerMutex s')" "CritInterruptHandlerList s' = []" "ActiveThread s' = sched_next s"
    using sw h2(3) by (simp_all add: s'_def view MutexIsLocked_def ctx1)
  ultimately show ?thesis using run by blast
qed

section \<open>Turns\<close>

text \<open>One turn: a switch is requested, by the timer or by a thread that yields, and the critical
  interrupt carries it out.\<close>

definition turn ::
    "(HANDLER_FUNCTION \<Rightarrow> addr \<Rightarrow> 'a sched_state_scheme \<Rightarrow> (bool \<times> 'a sched_state_scheme) option) \<Rightarrow>
     'a sched_state_scheme \<Rightarrow> 'a sched_state_scheme option" where
  "turn other s = Option.bind (SchedulerNeedsSwitch s) (CritInterrupt (sched_call other) sched_complete)"

primrec turns ::
    "(HANDLER_FUNCTION \<Rightarrow> addr \<Rightarrow> 'a sched_state_scheme \<Rightarrow> (bool \<times> 'a sched_state_scheme) option) \<Rightarrow>
     nat \<Rightarrow> 'a sched_state_scheme \<Rightarrow> 'a sched_state_scheme option" where
  "turns other 0 s = Some s"
| "turns other (Suc n) s = Option.bind (turns other n s) (turn other)"

text \<open>A thread is running and nothing is queued for the critical interrupt.\<close>

definition settled :: "'a sched_state_scheme \<Rightarrow> bool" where
  "settled s \<longleftrightarrow> in_crit s \<and> sched_ok s \<and> CritInterruptHandlerList s = [] \<and> ActiveThread s \<noteq> IdleThread \<and>
     th_State (Threads s (ActiveThread s)) = THREAD_STATE_RUNNING"

lemma turn_rotates:
  assumes "settled s"
  shows "\<exists>s'. turn other s = Some s' \<and> settled s' \<and>
     ActiveThread s' # RunQueue s' = rotate1 (ActiveThread s # RunQueue s)"
proof -
  have a: "in_crit s" "sched_ok s" "CritInterruptHandlerList s = []" "ActiveThread s \<noteq> IdleThread"
    "th_State (Threads s (ActiveThread s)) = THREAD_STATE_RUNNING" using assms by (simp_all add: settled_def)
  have o: "run_queue_ok s" "contexts_ok s" "switch_ok s" using a(2) by (simp_all add: sched_ok_def)
  have un: "\<not> MutexIsLocked (SchedulerMutex s)" using o(3) a(3) by (simp add: switch_ok_def)
  obtain s1 where s1: "SchedulerNeedsSwitch s = Some s1" "switch_ok s1" "MutexIsLocked (SchedulerMutex s1)"
     "irq_same s s1" "Threads s1 = Threads s" "Contexts s1 = Contexts s" "ActiveThread s1 = ActiveThread s"
     "RunQueue s1 = RunQueue s" "CritInterruptHandlerList s1 = [SchedulerCritObject]"
    using SchedulerNeedsSwitch_ok [OF o(3)] un a(3) by (auto simp: switch_queue_def)
  have "sched_ok s1" using o s1(2,3) by (simp add: sched_ok_def run_queue_ok_def contexts_ok_def s1(5-8))
  then obtain s' where s': "CritInterrupt (sched_call other) sched_complete s1 = Some s'" "sched_ok s'" "in_crit s'"
     "ActiveThread s' = sched_next s1" "RunQueue s' = tl (sched_queue s1)" "same_threads s1 s'"
     "CritInterruptHandlerList s' = []"
    using switch_delivered [OF irq_same_in_crit [OF s1(4) a(1)] _ s1(9), of other] by blast
  have q: "sched_queue s1 = RunQueue s @ [ActiveThread s]" using a(4,5) by (simp add: sched_queue_def s1(5,7,8))
  have mem: "sched_next s1 \<in> set (RunQueue s @ [ActiveThread s])"
    unfolding sched_next_def q by (cases "RunQueue s") auto
  then have "sched_next s1 \<noteq> IdleThread" "th_State (Threads s1 (sched_next s1)) = THREAD_STATE_RUNNING"
    using o(1) a(4,5) unfolding s1(5) run_queue_ok_def by (metis Un_iff empty_iff insert_iff list.set(1,2) set_append)+
  then have "settled s'" using s' same_threads_fields(1) [OF s'(6)] by (simp add: settled_def)
  moreover have "ActiveThread s' # RunQueue s' = rotate1 (ActiveThread s # RunQueue s)"
    unfolding s'(4,5) sched_next_def q by (cases "RunQueue s") auto
  ultimately show ?thesis using s1(1) s'(1) by (auto simp: turn_def)
qed

lemma turns_rotate:
  "settled s \<Longrightarrow> \<exists>s'. turns other n s = Some s' \<and> settled s' \<and>
     ActiveThread s' # RunQueue s' = rotate n (ActiveThread s # RunQueue s)"
proof (induction n)
  case (Suc n)
  then obtain s1 where s1: "turns other n s = Some s1" "settled s1"
     "ActiveThread s1 # RunQueue s1 = rotate n (ActiveThread s # RunQueue s)" by blast
  obtain s' where "turn other s1 = Some s'" "settled s'" "ActiveThread s' # RunQueue s' = rotate1 (ActiveThread s1 # RunQueue s1)"
    using turn_rotates [OF s1(2)] by blast
  then show ?case unfolding s1(3) using s1(1) by auto
qed simp

section \<open>Properties\<close>

text \<open>(C2) Scheduling is round robin: while threads only run and are switched, every turn moves the
  active thread to the end of the run queue and makes the first one active. After as many turns as there
  are threads the order is what it was, and each thread of the queue has run, the one at place \<open>i\<close> in
  turn \<open>i + 1\<close>.\<close>

theorem round_robin:
  assumes "settled s"
  shows "(\<forall>n. \<exists>s'. turns other n s = Some s' \<and> sched_ok s' \<and>
        ActiveThread s' # RunQueue s' = rotate n (ActiveThread s # RunQueue s)) \<and>
     (\<forall>i < length (RunQueue s). \<exists>s'. turns other (i + 1) s = Some s' \<and> ActiveThread s' = RunQueue s ! i)"
proof (intro conjI allI impI)
  fix n
  show "\<exists>s'. turns other n s = Some s' \<and> sched_ok s' \<and>
        ActiveThread s' # RunQueue s' = rotate n (ActiveThread s # RunQueue s)"
    using turns_rotate [OF assms, of other n] by (auto simp: settled_def)
next
  fix i assume i: "i < length (RunQueue s)"
  obtain s' where s': "turns other (i + 1) s = Some s'"
      "ActiveThread s' # RunQueue s' = rotate (i + 1) (ActiveThread s # RunQueue s)"
    using turns_rotate [OF assms, of other "i + 1"] by blast
  have "ActiveThread s' = (rotate (i + 1) (ActiveThread s # RunQueue s)) ! 0"
    by (simp only: s'(2) [symmetric] nth_Cons_0)
  also have "\<dots> = RunQueue s ! i" using i by (subst nth_rotate) simp_all
  finally show "\<exists>s'. turns other (i + 1) s = Some s' \<and> ActiveThread s' = RunQueue s ! i" using s'(1) by blast
qed

text \<open>A machine with the critical and the soft interrupt registered, thread 1 active, thread 2
  waiting for its turn, inside a critical section.\<close>

definition stack0 :: CONTEXT where
  "stack0 = \<lparr>cx_MachineState = \<lparr>mc_Registers = Switched, mc_Foo = None, mc_Arg = NULL\<rparr>, cx_Main = None, cx_MainArg = NULL,
     cx_TimesRun = \<lparr>c_val = 0\<rparr>, cx_TimesSwitched = \<lparr>c_val = 0\<rparr>, cx_LastRanTime = 0, cx_LastSelectedTime = 0,
     cx_High = 0, cx_Low = 0\<rparr>"

definition thread0 :: THREAD where
  "thread0 = \<lparr>th_Priority = 1, th_State = THREAD_STATE_RUNNING,
     th_ResultLock = \<lparr>re_State = RESOURCE_EXCLUSIVE, re_WaitingThreads = [], re_NumShared = 0\<rparr>,
     th_Stack = stack0, th_Main = None, th_Argument = NULL, th_Local = NULL, th_Result = NULL\<rparr>"

fun context0 :: "lctx \<Rightarrow> LOCKING_CONTEXT" where
  "context0 (ThreadContext t) = \<lparr>lc_State = LOCKING_STATE_READY, lc_BlockingContext = RESOURCE_SHARED,
     lc_BlockFunction = SchedulerBlockOnLock_f, lc_WakeFunction = SchedulerWakeOnLock_f\<rparr>"
| "context0 _ = \<lparr>lc_State = LOCKING_STATE_READY, lc_BlockingContext = RESOURCE_SHARED,
     lc_BlockFunction = LockingBlockNonBlocking_f, lc_WakeFunction = LockingWakeNonBlocking_f\<rparr>"

definition sched0 :: sched_state where
  "sched0 = (timer_state.extend timers0 (sched_state.fields (\<lambda>_. thread0) context0 1 NULL [2] 0 \<lparr>mu_Locked = 0\<rparr> 2 False))
     \<lparr>HalIrqToMask := (\<lambda>l. if l = 0 then {17} else if l = 1 then {12, 17} else {10, 12, 17}),
      sig_mask := {12, 17}, IsrDisabledCount := (\<lambda>_. 0)(IRQ_LEVEL_CRIT := 1)\<rparr>"

lemma sched0_fields [simp]:
  "Threads sched0 = (\<lambda>_. thread0)" "Contexts sched0 = context0" "ActiveThread sched0 = 1" "RunQueue sched0 = [2]"
  "SchedulerMutex sched0 = \<lparr>mu_Locked = 0\<rparr>" "CritInterruptHandlerList sched0 = []" "SoftInterruptHandlerList sched0 = []"
  "Handlers sched0 = Handlers timers0" "IsrDisabledCount sched0 = (\<lambda>_. 0)(IRQ_LEVEL_CRIT := 1)" "sig_mask sched0 = {12, 17}"
  "HalIrqToMask sched0 = (\<lambda>l. if l = 0 then {17} else if l = 1 then {12, 17} else {10, 12, 17})"
  using timers0_fields by (simp_all add: sched0_def timer_state.defs sched_state.defs)

lemma resumable_stack0: "resumable stack0"
  by (simp add: resumable_def stack0_def)

lemma settled_sched0: "settled sched0"
proof -
  have "isr_top ((\<lambda>_. 0)(IRQ_LEVEL_CRIT := 1)) = 1" by (simp add: isr_top_def numeral_eq_Suc)
  then have "in_crit sched0" by (auto simp: in_crit_def crit_levels_def isr_ok_def hal_ok_def)
  moreover have "sched_ok sched0"
    by (auto simp: sched_ok_def run_queue_ok_def contexts_ok_def switch_ok_def queues_ok_def thread0_def
        resumable_stack0 MutexIsLocked_def)
  ultimately show ?thesis by (simp add: settled_def thread0_def)
qed

theorem round_robin_witness:
  "\<exists>s'. turns (\<lambda>_ _ _. None) 1 sched0 = Some s' \<and> ActiveThread s' = 2"
  using round_robin [OF settled_sched0, of "\<lambda>_ _ _. None"] by auto

text \<open>(C1) A thread that blocks on a lock is switched out and cannot run again before it is woken: the
  next critical interrupt makes another thread active, the blocked one is in no queue of the scheduler,
  and waking it puts it at the end of the run queue. The scheduler's invariant holds throughout.\<close>

theorem block_wake_cycle:
  assumes "settled s" and "lc_State (Contexts s (ThreadContext (ActiveThread s))) = LOCKING_STATE_READY"
  shows "\<exists>s1 s2 s3. LockingBlock info NULL s = Some (ThreadContext (ActiveThread s), s1) \<and> sched_ok s1 \<and>
     CritInterrupt (sched_call other) sched_complete s1 = Some s2 \<and> sched_ok s2 \<and>
     ActiveThread s2 \<noteq> ActiveThread s \<and> ActiveThread s \<notin> set (RunQueue s2) \<and>
     th_State (Threads s2 (ActiveThread s)) = THREAD_STATE_BLOCKED \<and>
     LockingAcquire wk (Some (ThreadContext (ActiveThread s))) s2 = Some s3 \<and> sched_ok s3 \<and>
     RunQueue s3 = RunQueue s2 @ [ActiveThread s] \<and> th_State (Threads s3 (ActiveThread s)) = THREAD_STATE_RUNNING"
proof -
  let ?t = "ActiveThread s" and ?c = "ThreadContext (ActiveThread s)"
  have a: "in_crit s" "sched_ok s" "may_wait NULL s" "?t \<noteq> IdleThread" "switch_ok s" "CritInterruptHandlerList s = []"
    using assms by (simp_all add: settled_def may_wait_def ctx_of_def sched_ok_def)
  obtain s1 where s1: "LockingBlock info NULL s = Some (?c, s1)" "lock_frame s s1" "RunQueue s1 = RunQueue s"
      "Contexts s1 = (Contexts s)(?c := blocked_as info (Contexts s ?c))" "CritInterruptHandlerList s1 = switch_queue s"
    using LockingBlock_thread [OF a(1-3), of info] by (auto simp: ctx_of_def)
  have o1: "sched_ok s1" "in_crit s1" "ActiveThread s1 = ?t" using s1(2) by (simp_all add: lock_frame_def)
  have wait1: "waiting ?c s1" by (simp add: s1(4) blocked_as_def split: option.split)
  then have b1: "th_State (Threads s1 ?t) = THREAD_STATE_BLOCKED"
    using o1(1) by (simp add: sched_ok_def contexts_ok_def)
  have "CritInterruptHandlerList s1 = [SchedulerCritObject]"
    using s1(5) a(5,6) by (simp add: switch_queue_def switch_ok_def)
  then obtain s2 where s2: "CritInterrupt (sched_call other) sched_complete s1 = Some s2" "sched_ok s2" "in_crit s2"
     "ActiveThread s2 = sched_next s1" "RunQueue s2 = tl (sched_queue s1)" "Contexts s2 = Contexts s1" "same_threads s1 s2"
    using switch_delivered [OF o1(2,1), of other] by blast
  have q: "sched_queue s1 = RunQueue s1" using b1 o1(3) by (simp add: sched_queue_def)
  have nq: "?t \<notin> set (RunQueue s1)" using o1(1,3) by (auto simp: sched_ok_def run_queue_ok_def)
  have out: "sched_next s1 \<noteq> ?t" "?t \<notin> set (tl (sched_queue s1))"
    using nq a(4) unfolding sched_next_def q by (cases "RunQueue s1"; auto)+
  have "wakeable ?c s2" using wait1 out(1) by (simp add: wakeable_def s2(4,6))
  from LockingAcquire_wake [OF s2(3,2) this] obtain s3 where s3: "LockingAcquire wk (Some ?c) s2 = Some s3"
     "lock_frame s2 s3" "RunQueue s3 = RunQueue s2 @ [?t]" by auto
  have o3: "sched_ok s3" using s3(2) by (simp add: lock_frame_def)
  then have "th_State (Threads s3 ?t) = THREAD_STATE_RUNNING"
    using s3(3) by (simp add: sched_ok_def run_queue_ok_def)
  then show ?thesis
    using s1(1) o1(1) s2(1,2) out s3(1,3) o3 same_threads_fields(1) [OF s2(7), of ?t] b1
    by (intro exI [of _ s1] exI [of _ s2] exI [of _ s3]) (simp add: s2(4,5))
qed

theorem block_wake_cycle_witness:
  "\<exists>s1 s2. LockingBlock NULL NULL sched0 = Some (ThreadContext 1, s1) \<and>
     CritInterrupt (sched_call (\<lambda>_ _ _. None)) sched_complete s1 = Some s2 \<and> ActiveThread s2 \<noteq> 1 \<and> 1 \<notin> set (RunQueue s2)"
  using block_wake_cycle [OF settled_sched0, of NULL "\<lambda>_ _ _. None" "\<lambda>_ _. None"] by auto

text \<open>(C34) A thread must not be woken before it is switched out: if the critical interrupt runs a handler
  that wakes the thread that has just blocked before it runs the switch, the wake succeeds and enqueues
  the active thread, and the switch then enqueues it a second time while its link is already in the run
  queue.\<close>

theorem wake_before_switch_enqueues_twice:
  assumes "in_crit s" and "sched_ok s" and "waiting (ThreadContext (ActiveThread s)) s"
  shows "\<exists>s'. LockingAcquire wk (Some (ThreadContext (ActiveThread s))) s = Some s' \<and>
     ActiveThread s' \<in> set (RunQueue s') \<and> th_State (Threads s' (ActiveThread s')) = THREAD_STATE_RUNNING \<and>
     Schedule s' = None"
proof -
  let ?t = "ActiveThread s" and ?c = "ThreadContext (ActiveThread s)"
  have o: "run_queue_ok s" "contexts_ok s" using assms(2) by (simp_all add: sched_ok_def)
  have t: "th_State (Threads s ?t) = THREAD_STATE_BLOCKED" "?t \<noteq> IdleThread" "?t \<notin> set (RunQueue s)"
    using o assms(3) by (simp_all add: contexts_ok_def run_queue_ok_def)
  define s1 where "s1 = upd_context ?c (\<lambda>lc. lc\<lparr>lc_State := LOCKING_STATE_READY\<rparr>) s"
  define s' where "s' = (upd_thread ?t (\<lambda>t. t\<lparr>th_State := THREAD_STATE_RUNNING\<rparr>) s1)\<lparr>RunQueue := RunQueue s @ [?t]\<rparr>"
  have c1: "in_crit s1" by (rule irq_same_in_crit [OF _ assms(1)]) (simp add: s1_def)
  have c2: "in_crit s'" by (rule irq_same_in_crit [OF _ c1]) (simp add: s'_def irq_same_def upd_thread_def)
  have "SchedulerResumeThread ?t s1 = Some s'"
    unfolding s'_def using SchedulerResumeThread_ok [OF c1, of ?t] t by (simp add: s1_def)
  then have "LockingAcquire wk (Some ?c) s = Some s'"
    using assms(1,3) o(2)
    by (simp add: LockingAcquire_def LockingGetContext_def call_wake_def contexts_ok_def SchedulerWakeOnLock_def s1_def)
  moreover have "Schedule s' = None" using c2 t(2) by (simp add: Schedule_def s'_def s1_def enqueue_def)
  ultimately show ?thesis by (auto simp: s'_def s1_def)
qed

theorem wake_before_switch_enqueues_twice_witness:
  "\<exists>s s'. LockingBlock NULL NULL sched0 = Some (ThreadContext 1, s) \<and>
     LockingAcquire (\<lambda>_ _. None) (Some (ThreadContext 1)) s = Some s' \<and> Schedule s' = None"
proof -
  have "in_crit sched0" "sched_ok sched0" "may_wait NULL sched0"
    using settled_sched0 by (simp_all add: settled_def may_wait_def ctx_of_def)
  from LockingBlock_thread [OF this, of NULL] obtain s where s: "LockingBlock NULL NULL sched0 = Some (ThreadContext 1, s)"
      "lock_frame sched0 s" "Contexts s = context0(ThreadContext 1 := blocked_as NULL (context0 (ThreadContext 1)))"
    by (auto simp: ctx_of_def)
  then have w: "in_crit s" "sched_ok s" "ActiveThread s = 1" "waiting (ThreadContext (ActiveThread s)) s"
    by (simp_all add: lock_frame_def blocked_as_def)
  show ?thesis
    using wake_before_switch_enqueues_twice [OF w(1,2,4), of "\<lambda>_ _. None"] s(1) unfolding w(3) by blast
qed

end
