(* ===== verification/Locks.thy ===== *)
theory Locks
  imports Scheduler
begin

text \<open>
  The counting semaphore, the signal, the generation and the barrier:
  \<^verbatim>\<open>src/kernel/semaphore.c\<close>, \<^verbatim>\<open>signal.c\<close>, \<^verbatim>\<open>generation.c\<close> and \<^verbatim>\<open>barrier.c\<close>, on the
  locking framework of \<open>Scheduler\<close>. An operation takes the lock and the machine and returns
  both; the end of its critical section leaves a requested thread switch pending, and the delivery of
  the critical interrupt is a step of its own.
\<close>

section \<open>Operations\<close>

text \<open>The loops that wake every waiting context, in the order of the queue.\<close>

primrec acquire_all :: "('c \<Rightarrow> 's \<Rightarrow> 's option) \<Rightarrow> 'c list \<Rightarrow> 's \<Rightarrow> 's option" where
  "acquire_all acquire [] s = Some s"
| "acquire_all acquire (c # cs) s = Option.bind (acquire c s) (acquire_all acquire cs)"

record SEMAPHORE =
  se_Count :: COUNT
  se_WaitingThreads :: "lctx list"

definition SemaphoreInit :: "SEMAPHORE \<Rightarrow> COUNT \<Rightarrow> SEMAPHORE" where
  "SemaphoreInit lock count = lock\<lparr>se_WaitingThreads := [], se_Count := count\<rparr>"

definition SemaphoreDown ::
    "'a wake \<Rightarrow> SEMAPHORE \<Rightarrow> lctx option \<Rightarrow> 'a sched_state_scheme \<Rightarrow> (SEMAPHORE \<times> 'a sched_state_scheme) option" where
  "SemaphoreDown wk lock context s =
     do {
       let s = LockingStart s;
       (lock, s) \<leftarrow> (if se_Count lock = 0 then
           do {
             (link, s) \<leftarrow> LockingBlock NULL context s;
             q \<leftarrow> enqueue link (se_WaitingThreads lock);
             Some (lock\<lparr>se_WaitingThreads := q\<rparr>, s)
           }
         else
           do {
             let lock = lock\<lparr>se_Count := se_Count lock - 1\<rparr>;
             s \<leftarrow> LockingAcquire wk context s;
             Some (lock, s)
           });
       s \<leftarrow> LockingEnd s;
       Some (lock, s)
     }"

definition SemaphoreUp ::
    "'a wake \<Rightarrow> SEMAPHORE \<Rightarrow> 'a sched_state_scheme \<Rightarrow> (SEMAPHORE \<times> 'a sched_state_scheme) option" where
  "SemaphoreUp wk lock s =
     do {
       let s = LockingStart s;
       (lock, s) \<leftarrow> (case se_WaitingThreads lock of
           context # q \<Rightarrow>
             do {
               let lock = lock\<lparr>se_WaitingThreads := q\<rparr>;
               s \<leftarrow> LockingAcquire wk (Some context) s;
               Some (lock, s)
             }
         | [] \<Rightarrow> Some (lock\<lparr>se_Count := se_Count lock + 1\<rparr>, s));
       s \<leftarrow> LockingEnd s;
       Some (lock, s)
     }"

record SIGNAL =
  si_State :: bool
  si_WaitingThreads :: "lctx list"

definition SignalInit :: "SIGNAL \<Rightarrow> bool \<Rightarrow> SIGNAL" where
  "SignalInit signal state = signal\<lparr>si_WaitingThreads := [], si_State := state\<rparr>"

definition SignalSet ::
    "'a wake \<Rightarrow> SIGNAL \<Rightarrow> 'a sched_state_scheme \<Rightarrow> (SIGNAL \<times> 'a sched_state_scheme) option" where
  "SignalSet wk signal s =
     do {
       let s = LockingStart s;
       (signal, s) \<leftarrow> (if si_State signal then
           do { ASSERT (si_WaitingThreads signal = []); Some (signal, s) }
         else
           do {
             s \<leftarrow> acquire_all (\<lambda>c. LockingAcquire wk (Some c)) (si_WaitingThreads signal) s;
             Some (signal\<lparr>si_WaitingThreads := [], si_State := True\<rparr>, s)
           });
       s \<leftarrow> LockingEnd s;
       Some (signal, s)
     }"

definition SignalUnset :: "SIGNAL \<Rightarrow> 'a sched_state_scheme \<Rightarrow> (SIGNAL \<times> 'a sched_state_scheme) option" where
  "SignalUnset signal s =
     do {
       let s = LockingStart s;
       let signal = signal\<lparr>si_State := False\<rparr>;
       s \<leftarrow> LockingEnd s;
       Some (signal, s)
     }"

definition SignalWaitForSignal ::
    "'a wake \<Rightarrow> SIGNAL \<Rightarrow> lctx option \<Rightarrow> 'a sched_state_scheme \<Rightarrow> (SIGNAL \<times> 'a sched_state_scheme) option" where
  "SignalWaitForSignal wk signal context s =
     do {
       let s = LockingStart s;
       (signal, s) \<leftarrow> (if si_State signal then
           do { s \<leftarrow> LockingAcquire wk context s; Some (signal, s) }
         else
           do {
             (link, s) \<leftarrow> LockingBlock NULL context s;
             q \<leftarrow> enqueue link (si_WaitingThreads signal);
             Some (signal\<lparr>si_WaitingThreads := q\<rparr>, s)
           });
       s \<leftarrow> LockingEnd s;
       Some (signal, s)
     }"

record GENERATION =
  ge_Generation :: COUNT
  ge_WaitingThreads :: "lctx list"

definition GenerationInit :: "GENERATION \<Rightarrow> COUNT \<Rightarrow> GENERATION" where
  "GenerationInit gen init = gen\<lparr>ge_Generation := init, ge_WaitingThreads := []\<rparr>"

definition GenerationWait ::
    "'a wake \<Rightarrow> GENERATION \<Rightarrow> COUNT \<Rightarrow> lctx option \<Rightarrow> 'a sched_state_scheme \<Rightarrow>
     (GENERATION \<times> 'a sched_state_scheme) option" where
  "GenerationWait wk gen val context s =
     do {
       let s = LockingStart s;
       (gen, s) \<leftarrow> (if ge_Generation gen = val then
           do {
             (link, s) \<leftarrow> LockingBlock NULL context s;
             q \<leftarrow> enqueue link (ge_WaitingThreads gen);
             Some (gen\<lparr>ge_WaitingThreads := q\<rparr>, s)
           }
         else
           do { s \<leftarrow> LockingAcquire wk context s; Some (gen, s) });
       s \<leftarrow> LockingEnd s;
       Some (gen, s)
     }"

definition GenerationUpdate ::
    "'a wake \<Rightarrow> GENERATION \<Rightarrow> COUNT \<Rightarrow> 'a sched_state_scheme \<Rightarrow> (GENERATION \<times> 'a sched_state_scheme) option" where
  "GenerationUpdate wk gen val s =
     do {
       let s = LockingStart s;
       let gen = gen\<lparr>ge_Generation := val\<rparr>;
       s \<leftarrow> acquire_all (\<lambda>c. LockingAcquire wk (Some c)) (ge_WaitingThreads gen) s;
       let gen = gen\<lparr>ge_WaitingThreads := []\<rparr>;
       s \<leftarrow> LockingEnd s;
       Some (gen, s)
     }"

record BARRIER =
  ba_Needed :: COUNT
  ba_Present :: COUNT
  ba_List :: "lctx list"

definition BarrierInit :: "BARRIER \<Rightarrow> COUNT \<Rightarrow> BARRIER" where
  "BarrierInit barrier count = barrier\<lparr>ba_Needed := count, ba_Present := 0, ba_List := []\<rparr>"

definition BarrierSync ::
    "'a wake \<Rightarrow> BARRIER \<Rightarrow> lctx option \<Rightarrow> 'a sched_state_scheme \<Rightarrow> (BARRIER \<times> 'a sched_state_scheme) option" where
  "BarrierSync wk barrier context s =
     do {
       let s = LockingStart s;
       let barrier = barrier\<lparr>ba_Present := ba_Present barrier + 1\<rparr>;
       (if ba_Needed barrier = ba_Present barrier then
          do {
            let barrier = barrier\<lparr>ba_Present := 0\<rparr>;
            s \<leftarrow> LockingAcquire wk context s;
            s \<leftarrow> acquire_all (\<lambda>c. LockingAcquire wk (Some c)) (ba_List barrier) s;
            let barrier = barrier\<lparr>ba_List := []\<rparr>;
            s \<leftarrow> LockingEnd s;
            Some (barrier, s)
          }
        else
          do {
            (link, s) \<leftarrow> LockingBlock NULL context s;
            q \<leftarrow> enqueue link (ba_List barrier);
            let barrier = barrier\<lparr>ba_List := q\<rparr>;
            s \<leftarrow> LockingEnd s;
            Some (barrier, s)
          })
     }"

section \<open>What the locks rely on\<close>

text \<open>
  The contract of waking: a context that is parked can be acquired for it; it is then not parked any
  more, nothing else changes about the others, and its thread joins the end of the ready queue.
\<close>

locale waking =
  fixes ok :: "'s \<Rightarrow> bool" and parked :: "'c \<Rightarrow> 's \<Rightarrow> bool" and view :: "'s \<Rightarrow> 'c \<Rightarrow> 'v" and woken :: "'c \<Rightarrow> 'v \<Rightarrow> 'v"
    and ready :: "'s \<Rightarrow> addr list" and threads :: "'c \<Rightarrow> addr list" and frame :: "'s \<Rightarrow> 's \<Rightarrow> bool"
    and acquire :: "'c \<Rightarrow> 's \<Rightarrow> 's option"
  assumes wake: "ok s \<Longrightarrow> parked c s \<Longrightarrow> \<exists>s'. acquire c s = Some s' \<and> ok s' \<and> frame s s' \<and>
      view s' = (view s)(c := woken c (view s c)) \<and> (\<forall>d. d \<noteq> c \<longrightarrow> parked d s' = parked d s) \<and>
      ready s' = ready s @ threads c"
    and frame_refl: "frame s s"
    and frame_trans: "frame s s1 \<Longrightarrow> frame s1 s2 \<Longrightarrow> frame s s2"
begin

lemma wake_all:
  "ok s \<Longrightarrow> distinct cs \<Longrightarrow> \<forall>c\<in>set cs. parked c s \<Longrightarrow>
   \<exists>s'. acquire_all acquire cs s = Some s' \<and> ok s' \<and> frame s s' \<and>
     view s' = (\<lambda>c. if c \<in> set cs then woken c (view s c) else view s c) \<and>
     ready s' = ready s @ concat (map threads cs)"
proof (induction cs arbitrary: s)
  case Nil
  then show ?case by (simp add: frame_refl)
next
  case (Cons c cs)
  obtain s1 where s1: "acquire c s = Some s1" "ok s1" "frame s s1" "view s1 = (view s)(c := woken c (view s c))"
      "\<forall>d. d \<noteq> c \<longrightarrow> parked d s1 = parked d s" "ready s1 = ready s @ threads c"
    using wake [of s c] Cons.prems by auto
  have "\<forall>d\<in>set cs. parked d s1" using Cons.prems s1(5) by auto
  then obtain s' where "acquire_all acquire cs s1 = Some s'" "ok s'" "frame s1 s'"
      "view s' = (\<lambda>c. if c \<in> set cs then woken c (view s1 c) else view s1 c)" "ready s' = ready s1 @ concat (map threads cs)"
    using Cons.IH [OF s1(2)] Cons.prems by auto
  then show ?case using s1 frame_trans [OF s1(3)] Cons.prems(2) by (auto simp: fun_eq_iff)
qed

end

lemma acquired_not_blocking [simp]: "acquired_state c \<noteq> LOCKING_STATE_BLOCKING"
  by (cases c) simp_all

definition woken_context :: "lctx \<Rightarrow> LOCKING_CONTEXT \<Rightarrow> LOCKING_CONTEXT" where
  "woken_context c lc = lc\<lparr>lc_State := acquired_state c\<rparr>"

definition woke_frame :: "'a sched_state_scheme \<Rightarrow> 'a sched_state_scheme \<Rightarrow> bool" where
  "woke_frame s s' \<longleftrightarrow> irq_same s s' \<and> ActiveThread s' = ActiveThread s"

lemma wakeable_step:
  assumes "in_crit s \<and> sched_ok s" and "wakeable c s"
  shows "\<exists>s'. LockingAcquire wk (Some c) s = Some s' \<and> (in_crit s' \<and> sched_ok s') \<and> woke_frame s s' \<and>
     Contexts s' = (Contexts s)(c := woken_context c (Contexts s c)) \<and>
     (\<forall>d. d \<noteq> c \<longrightarrow> wakeable d s' = wakeable d s) \<and> RunQueue s' = RunQueue s @ woken_threads c"
  using LockingAcquire_wake [of s c wk] assms
  by (auto simp: lock_frame_def woke_frame_def wakeable_def woken_context_def)

interpretation lw: waking "\<lambda>s. in_crit s \<and> sched_ok s" wakeable Contexts woken_context RunQueue woken_threads woke_frame
  "\<lambda>c. LockingAcquire wk (Some c)"
  by unfold_locales (use wakeable_step in \<open>auto simp: woke_frame_def irq_same_trans\<close>)

section \<open>Critical sections of the locks\<close>

lemma sched_ok_counts [simp]: "sched_ok (set_counts c s) = sched_ok s"
  by (simp add: sched_ok_def run_queue_ok_def contexts_ok_def switch_ok_def queues_ok_def)

lemma may_wait_counts [simp]: "may_wait c (set_counts n s) = may_wait c s" "ctx_of c (set_counts n s) = ctx_of c s"
  "wakeable d (set_counts n s) = wakeable d s"
  by (simp_all add: may_wait_def ctx_of_def wakeable_def split: option.split lctx.split)

text \<open>A state between two operations of the kernel.\<close>

definition outside :: "'a sched_state_scheme \<Rightarrow> bool" where
  "outside s \<longleftrightarrow> open_irq s \<and> sched_ok s"

text \<open>The machine between operations, as far as the locks see it.\<close>

definition same_view :: "'a sched_state_scheme \<Rightarrow> 'a sched_state_scheme \<Rightarrow> bool" where
  "same_view s s' \<longleftrightarrow> Contexts s' = Contexts s \<and> Threads s' = Threads s \<and> RunQueue s' = RunQueue s \<and>
     ActiveThread s' = ActiveThread s"

lemma LockingStart_ok:
  assumes "outside s"
  shows "in_crit (LockingStart s)" "sched_ok (LockingStart s)" "same_view s (LockingStart s)"
    "may_wait c (LockingStart s) = may_wait c s" "ctx_of c (LockingStart s) = ctx_of c s"
    "wakeable d (LockingStart s) = wakeable d s"
  using start_critical [of s] assms by (simp_all add: outside_def LockingStart_def same_view_def)

lemma LockingEnd_ok:
  assumes "outside s" and "irq_same (LockingStart s) s1" and "sched_ok s1"
  shows "\<exists>s'. LockingEnd s1 = Some s' \<and> outside s' \<and> same_view s1 s'"
proof -
  have start: "SchedulerStartCritical s = set_counts (crit_counts s) s" "in_crit (SchedulerStartCritical s)"
    using start_critical assms(1) by (auto simp: outside_def)
  have crit: "in_crit s1" using irq_same_in_crit assms(2) start(2) by (auto simp: LockingStart_def)
  have "IsrDisabledCount s1 = crit_counts s"
    using assms(2) start(1) by (simp add: irq_same_def LockingStart_def set_counts_def)
  then have cnt: "IsrDisabledCount s1 IRQ_LEVEL_CRIT = 1" "IsrDisabledCount s1 IRQ_LEVEL_NONE = 0"
    using assms(1) by (simp_all add: crit_counts_def outside_def open_irq_def)
  have "LockingEnd s1 = Some (set_counts (\<lambda>_. 0) s1)" "open_irq (set_counts (\<lambda>_. 0) s1)"
    using end_critical [OF crit cnt] by (simp_all add: LockingEnd_def)
  then show ?thesis using assms(3) by (simp add: outside_def same_view_def)
qed

lemma block_section:
  assumes "outside s" and "may_wait c s"
  shows "\<exists>s1 s'. LockingBlock info c (LockingStart s) = Some (ctx_of c s, s1) \<and> LockingEnd s1 = Some s' \<and> outside s' \<and>
     Contexts s' = (Contexts s)(ctx_of c s := blocked_as info (Contexts s (ctx_of c s))) \<and>
     RunQueue s' = RunQueue s \<and> ActiveThread s' = ActiveThread s"
proof -
  note st = LockingStart_ok [OF assms(1)]
  have may: "may_wait c (LockingStart s)" using assms(2) st(4) by simp
  obtain s1 where s1: "LockingBlock info c (LockingStart s) = Some (ctx_of c s, s1)" "lock_frame (LockingStart s) s1"
     "RunQueue s1 = RunQueue s" "Contexts s1 = (Contexts s)(ctx_of c s := blocked_as info (Contexts s (ctx_of c s)))"
    using LockingBlock_ok [OF st(1,2) may, of info] st(3,5) by (auto simp: same_view_def)
  then obtain s' where "LockingEnd s1 = Some s'" "outside s'" "same_view s1 s'"
    using LockingEnd_ok [OF assms(1), of s1] by (auto simp: lock_frame_def)
  then show ?thesis using s1 st(3) by (auto simp: same_view_def lock_frame_def)
qed

lemma acquire_section:
  assumes "outside s" and "may_wait c s"
  shows "\<exists>s1 s'. LockingAcquire wk c (LockingStart s) = Some s1 \<and> LockingEnd s1 = Some s' \<and> outside s' \<and>
     Contexts s' = (Contexts s)(ctx_of c s := (Contexts s (ctx_of c s))\<lparr>lc_State := acquired_state (ctx_of c s)\<rparr>) \<and>
     RunQueue s' = RunQueue s \<and> ActiveThread s' = ActiveThread s"
proof -
  note st = LockingStart_ok [OF assms(1)]
  have may: "may_wait c (LockingStart s)" using assms(2) st(4) by simp
  obtain s1 where s1: "LockingAcquire wk c (LockingStart s) = Some s1" "lock_frame (LockingStart s) s1"
     "RunQueue s1 = RunQueue s"
     "Contexts s1 = (Contexts s)(ctx_of c s := (Contexts s (ctx_of c s))\<lparr>lc_State := acquired_state (ctx_of c s)\<rparr>)"
    using LockingAcquire_now [OF st(1,2) may, of wk] st(3,5) by (auto simp: same_view_def)
  then obtain s' where "LockingEnd s1 = Some s'" "outside s'" "same_view s1 s'"
    using LockingEnd_ok [OF assms(1), of s1] by (auto simp: lock_frame_def)
  then show ?thesis using s1 st(3) by (auto simp: same_view_def lock_frame_def)
qed

text \<open>Waking a list of contexts in one critical section.\<close>

lemma wake_section:
  assumes "outside s" and "distinct cs" and "\<forall>c\<in>set cs. wakeable c s"
  shows "\<exists>s1 s'. acquire_all (\<lambda>c. LockingAcquire wk (Some c)) cs (LockingStart s) = Some s1 \<and>
     LockingEnd s1 = Some s' \<and> outside s' \<and>
     Contexts s' = (\<lambda>c. if c \<in> set cs then woken_context c (Contexts s c) else Contexts s c) \<and>
     RunQueue s' = RunQueue s @ concat (map woken_threads cs) \<and> ActiveThread s' = ActiveThread s"
proof -
  note st = LockingStart_ok [OF assms(1)]
  have w0: "\<forall>c\<in>set cs. wakeable c (LockingStart s)" using assms(3) st(6) by simp
  from lw.wake_all [OF _ assms(2) w0, of wk] st(1,2)
  obtain s1 where s1: "acquire_all (\<lambda>c. LockingAcquire wk (Some c)) cs (LockingStart s) = Some s1" "in_crit s1" "sched_ok s1"
     "woke_frame (LockingStart s) s1"
     "Contexts s1 = (\<lambda>c. if c \<in> set cs then woken_context c (Contexts (LockingStart s) c) else Contexts (LockingStart s) c)"
     "RunQueue s1 = RunQueue (LockingStart s) @ concat (map woken_threads cs)" by blast
  obtain s' where s': "LockingEnd s1 = Some s'" "outside s'" "same_view s1 s'"
    using LockingEnd_ok [OF assms(1) _ s1(3)] s1(4) by (auto simp: woke_frame_def)
  then show ?thesis using s1 st(3) by (auto simp: same_view_def woke_frame_def)
qed

section \<open>Queues of waiting contexts\<close>

definition parked_ok :: "lctx list \<Rightarrow> 'a sched_state_scheme \<Rightarrow> bool" where
  "parked_ok q s \<longleftrightarrow> distinct q \<and> (\<forall>c\<in>set q. waiting c s \<and> (\<forall>w. c \<noteq> WorkerContext w))"

text \<open>The caller of an operation that wakes others is not itself blocked.\<close>

definition caller_runs :: "'a sched_state_scheme \<Rightarrow> bool" where
  "caller_runs s \<longleftrightarrow> \<not> waiting (ThreadContext (ActiveThread s)) s"

lemma parked_wakeable: "parked_ok q s \<Longrightarrow> caller_runs s \<Longrightarrow> distinct q \<and> (\<forall>c\<in>set q. wakeable c s)"
  by (auto simp: parked_ok_def caller_runs_def wakeable_def)

lemma may_wait_fresh:
  assumes "parked_ok q s" and "may_wait c s"
  shows "ctx_of c s \<notin> set q" "enqueue (ctx_of c s) q = Some (q @ [ctx_of c s])" "\<forall>w. ctx_of c s \<noteq> WorkerContext w"
  using assms by (auto simp: parked_ok_def may_wait_def enqueue_def ctx_of_def split: option.splits lctx.splits)

lemma parked_ok_block:
  assumes "parked_ok q s" and "may_wait c s"
    and "Contexts s' = (Contexts s)(ctx_of c s := blocked_as info (Contexts s (ctx_of c s)))"
  shows "parked_ok (q @ [ctx_of c s]) s'" "waiting (ctx_of c s) s'"
proof -
  show w: "waiting (ctx_of c s) s'" by (simp add: assms(3) blocked_as_def split: option.split)
  show "parked_ok (q @ [ctx_of c s]) s'"
    using assms(1) may_wait_fresh [OF assms(1,2)] w by (auto simp: parked_ok_def assms(3))
qed

lemma parked_ok_acquire:
  assumes "parked_ok q s" and "may_wait c s"
    and "Contexts s' = (Contexts s)(ctx_of c s := (Contexts s (ctx_of c s))\<lparr>lc_State := acquired_state (ctx_of c s)\<rparr>)"
  shows "parked_ok q s'" "\<not> waiting (ctx_of c s) s'"
  using assms(1) may_wait_fresh(1) [OF assms(1,2)] by (auto simp: parked_ok_def assms(3))

lemma parked_ok_woken:
  assumes "parked_ok (p @ q) s"
    and "Contexts s' = (\<lambda>c. if c \<in> set p then woken_context c (Contexts s c) else Contexts s c)"
  shows "parked_ok q s'" "\<forall>c\<in>set p. \<not> waiting c s'"
  using assms by (auto simp: parked_ok_def woken_context_def)

section \<open>The semaphore\<close>

definition sem_ok :: "SEMAPHORE \<Rightarrow> 'a sched_state_scheme \<Rightarrow> bool" where
  "sem_ok lock s \<longleftrightarrow> parked_ok (se_WaitingThreads lock) s \<and> (se_WaitingThreads lock \<noteq> [] \<longrightarrow> se_Count lock = 0)"

lemma SemaphoreDown_ok:
  assumes "outside s" and "sem_ok lock s" and "may_wait c s"
  shows "\<exists>lock' s'. SemaphoreDown wk lock c s = Some (lock', s') \<and> outside s' \<and> sem_ok lock' s' \<and>
     waiting (ctx_of c s) s' = (se_Count lock = 0) \<and>
     (if se_Count lock = 0 then lock' = lock\<lparr>se_WaitingThreads := se_WaitingThreads lock @ [ctx_of c s]\<rparr>
      else lock' = lock\<lparr>se_Count := se_Count lock - 1\<rparr>)"
proof -
  have p: "parked_ok (se_WaitingThreads lock) s" using assms(2) by (simp add: sem_ok_def)
  show ?thesis
  proof (cases "se_Count lock = 0")
    case True
    obtain s1 s' where b: "LockingBlock NULL c (LockingStart s) = Some (ctx_of c s, s1)" "LockingEnd s1 = Some s'" "outside s'"
       "Contexts s' = (Contexts s)(ctx_of c s := blocked_as NULL (Contexts s (ctx_of c s)))"
      using block_section [OF assms(1,3), of NULL] by blast
    show ?thesis
      using True b parked_ok_block [OF p assms(3) b(4)] may_wait_fresh(2) [OF p assms(3)]
      by (simp add: SemaphoreDown_def sem_ok_def)
  next
    case False
    then have e: "se_WaitingThreads lock = []" using assms(2) by (auto simp: sem_ok_def)
    obtain s1 s' where b: "LockingAcquire wk c (LockingStart s) = Some s1" "LockingEnd s1 = Some s'" "outside s'"
       "Contexts s' = (Contexts s)(ctx_of c s := (Contexts s (ctx_of c s))\<lparr>lc_State := acquired_state (ctx_of c s)\<rparr>)"
      using acquire_section [OF assms(1,3), of wk] by blast
    show ?thesis
      using False b parked_ok_acquire [OF p assms(3) b(4)] e by (simp add: SemaphoreDown_def sem_ok_def)
  qed
qed

lemma SemaphoreUp_ok:
  assumes "outside s" and "sem_ok lock s" and "caller_runs s"
  shows "\<exists>lock' s'. SemaphoreUp wk lock s = Some (lock', s') \<and> outside s' \<and> sem_ok lock' s' \<and>
     ActiveThread s' = ActiveThread s \<and> (\<forall>c. c \<notin> set (se_WaitingThreads lock) \<longrightarrow> Contexts s' c = Contexts s c) \<and>
     (case se_WaitingThreads lock of
        [] \<Rightarrow> lock' = lock\<lparr>se_Count := se_Count lock + 1\<rparr> \<and> RunQueue s' = RunQueue s
      | c # q \<Rightarrow> lock' = lock\<lparr>se_WaitingThreads := q\<rparr> \<and> \<not> waiting c s' \<and> RunQueue s' = RunQueue s @ woken_threads c)"
proof (cases "se_WaitingThreads lock")
  case Nil
  obtain s' where "LockingEnd (LockingStart s) = Some s'" "outside s'" "same_view (LockingStart s) s'"
    using LockingEnd_ok [OF assms(1), of "LockingStart s"] LockingStart_ok(2) [OF assms(1)] by auto
  then show ?thesis
    using Nil LockingStart_ok(3) [OF assms(1)] by (simp add: SemaphoreUp_def sem_ok_def parked_ok_def same_view_def)
next
  case (Cons c q)
  have p: "parked_ok ([c] @ q) s" using assms(2) Cons by (simp add: sem_ok_def)
  then have w: "\<forall>d\<in>set [c]. wakeable d s" using parked_wakeable [OF p assms(3)] by simp
  obtain s1 s' where b: "LockingAcquire wk (Some c) (LockingStart s) = Some s1" "LockingEnd s1 = Some s'" "outside s'"
     "Contexts s' = (\<lambda>d. if d \<in> set [c] then woken_context d (Contexts s d) else Contexts s d)"
     "RunQueue s' = RunQueue s @ woken_threads c" "ActiveThread s' = ActiveThread s"
    using wake_section [OF assms(1) _ w, of wk] by (auto simp: bind_Some_iff)
  show ?thesis
    using b parked_ok_woken [OF p b(4)] Cons assms(2) by (auto simp: SemaphoreUp_def sem_ok_def)
qed

text \<open>
  Runs of a semaphore: its users call \<^verbatim>\<open>SemaphoreDown\<close> and \<^verbatim>\<open>SemaphoreUp\<close> in any order, and
  between the calls the rest of the kernel does what it likes except waking the semaphore's waiters.
  \<open>g\<close> lists the requests granted so far in the order they were granted, \<open>r\<close> all the
  requests in the order they were made, \<open>u\<close> counts the calls of \<^verbatim>\<open>SemaphoreUp\<close>.
\<close>

inductive sem_run ::
    "'a wake \<Rightarrow> COUNT \<Rightarrow> SEMAPHORE \<Rightarrow> 'a sched_state_scheme \<Rightarrow> lctx list \<Rightarrow> lctx list \<Rightarrow> nat \<Rightarrow> bool"
  for wk n where
  sem_start: "outside s \<Longrightarrow> sem_run wk n (SemaphoreInit lock n) s [] [] 0"
| sem_down: "sem_run wk n lock s g r u \<Longrightarrow> may_wait c s \<Longrightarrow> SemaphoreDown wk lock c s = Some (lock', s') \<Longrightarrow>
    sem_run wk n lock' s' (if waiting (ctx_of c s) s' then g else g @ [ctx_of c s]) (r @ [ctx_of c s]) u"
| sem_up: "sem_run wk n lock s g r u \<Longrightarrow> caller_runs s \<Longrightarrow> SemaphoreUp wk lock s = Some (lock', s') \<Longrightarrow>
    sem_run wk n lock' s' (g @ filter (\<lambda>c. \<not> waiting c s') (se_WaitingThreads lock)) r (u + 1)"
| sem_other: "sem_run wk n lock s g r u \<Longrightarrow> outside s' \<Longrightarrow> \<forall>c\<in>set (se_WaitingThreads lock). waiting c s' \<Longrightarrow>
    sem_run wk n lock s' g r u"

lemma sem_run_invariant:
  "sem_run wk n lock s g r u \<Longrightarrow> outside s \<and> sem_ok lock s \<and> r = g @ se_WaitingThreads lock \<and>
     se_Count lock + of_nat (length g) = n + of_nat u"
proof (induction rule: sem_run.induct)
  case (sem_start s lock)
  then show ?case by (simp add: SemaphoreInit_def sem_ok_def parked_ok_def)
next
  case (sem_down lock s g r u c lock' s')
  then have ih: "outside s" "sem_ok lock s" "r = g @ se_WaitingThreads lock" "se_Count lock + of_nat (length g) = n + of_nat u"
    by blast+
  have "outside s' \<and> sem_ok lock' s' \<and> waiting (ctx_of c s) s' = (se_Count lock = 0) \<and>
     (if se_Count lock = 0 then lock' = lock\<lparr>se_WaitingThreads := se_WaitingThreads lock @ [ctx_of c s]\<rparr>
      else lock' = lock\<lparr>se_Count := se_Count lock - 1\<rparr>)"
    using SemaphoreDown_ok [OF ih(1,2) sem_down.hyps(2), of wk] sem_down.hyps(3) by auto
  moreover have "se_WaitingThreads lock = []" if "se_Count lock \<noteq> 0" using ih(2) that by (auto simp: sem_ok_def)
  ultimately show ?case using ih(3,4) by (cases "se_Count lock = 0") auto
next
  case (sem_up lock s g r u lock' s')
  then have ih: "outside s" "sem_ok lock s" "r = g @ se_WaitingThreads lock" "se_Count lock + of_nat (length g) = n + of_nat u"
    by blast+
  obtain l2 s2 where up: "SemaphoreUp wk lock s = Some (l2, s2)" "outside s2" "sem_ok l2 s2"
     "case se_WaitingThreads lock of [] \<Rightarrow> l2 = lock\<lparr>se_Count := se_Count lock + 1\<rparr> \<and> RunQueue s2 = RunQueue s
      | c # q \<Rightarrow> l2 = lock\<lparr>se_WaitingThreads := q\<rparr> \<and> \<not> waiting c s2 \<and> RunQueue s2 = RunQueue s @ woken_threads c"
    using SemaphoreUp_ok [OF ih(1,2) sem_up.hyps(2), of wk] by blast
  have eq: "l2 = lock'" "s2 = s'" using up(1) sem_up.hyps(3) by simp_all
  show ?case
  proof (cases "se_WaitingThreads lock")
    case Nil
    then show ?thesis using up ih(3,4) unfolding eq by (simp add: ac_simps)
  next
    case (Cons c q)
    then have l: "lock' = lock\<lparr>se_WaitingThreads := q\<rparr>" "\<not> waiting c s'" using up(4) unfolding eq by simp_all
    have "\<forall>d\<in>set q. waiting d s'" using up(3) unfolding eq by (simp add: sem_ok_def parked_ok_def l(1))
    then have "filter (\<lambda>c. \<not> waiting c s') (se_WaitingThreads lock) = [c]" using Cons l(2) by simp
    then show ?thesis using up(2,3) ih(3,4) Cons l(1) unfolding eq by (simp add: ac_simps)
  qed
next
  case (sem_other lock s g r u s')
  then show ?case by (auto simp: sem_ok_def parked_ok_def)
qed

lemma sem_run_permits:
  "sem_run wk n lock s g r u \<Longrightarrow> unat n + u < 2 ^ 64 \<Longrightarrow> unat (se_Count lock) + length g = unat n + u"
proof (induction rule: sem_run.induct)
  case (sem_start s lock)
  then show ?case by (simp add: SemaphoreInit_def)
next
  case (sem_down lock s g r u c lock' s')
  have i: "outside s" "sem_ok lock s" using sem_run_invariant [OF sem_down.hyps(1)] by blast+
  have "waiting (ctx_of c s) s' = (se_Count lock = 0) \<and>
     (if se_Count lock = 0 then lock' = lock\<lparr>se_WaitingThreads := se_WaitingThreads lock @ [ctx_of c s]\<rparr>
      else lock' = lock\<lparr>se_Count := se_Count lock - 1\<rparr>)"
    using SemaphoreDown_ok [OF i sem_down.hyps(2), of wk] sem_down.hyps(3) by auto
  then show ?case
    using sem_down.IH sem_down.prems unat_pred_word [of "se_Count lock"]
    by (cases "se_Count lock = 0") (auto simp: unat_eq_0 [symmetric])
next
  case (sem_up lock s g r u lock' s')
  have i: "outside s" "sem_ok lock s" using sem_run_invariant [OF sem_up.hyps(1)] by blast+
  obtain l2 s2 where up: "SemaphoreUp wk lock s = Some (l2, s2)" "sem_ok l2 s2"
     "case se_WaitingThreads lock of [] \<Rightarrow> l2 = lock\<lparr>se_Count := se_Count lock + 1\<rparr> \<and> RunQueue s2 = RunQueue s
      | c # q \<Rightarrow> l2 = lock\<lparr>se_WaitingThreads := q\<rparr> \<and> \<not> waiting c s2 \<and> RunQueue s2 = RunQueue s @ woken_threads c"
    using SemaphoreUp_ok [OF i sem_up.hyps(2), of wk] by blast
  have eq: "l2 = lock'" "s2 = s'" using up(1) sem_up.hyps(3) by simp_all
  have ih: "unat (se_Count lock) + length g = unat n + u" using sem_up by simp
  show ?case
  proof (cases "se_WaitingThreads lock")
    case Nil
    have "unat (se_Count lock) + 1 < 2 ^ LENGTH(64)" using ih sem_up.prems by simp
    then have "unat (se_Count lock + 1) = unat (se_Count lock) + 1" by (rule unat_Suc_word)
    then show ?thesis using up(3) ih Nil unfolding eq by simp
  next
    case (Cons c q)
    then have l: "lock' = lock\<lparr>se_WaitingThreads := q\<rparr>" "\<not> waiting c s'" using up(3) unfolding eq by simp_all
    have "\<forall>d\<in>set q. waiting d s'" using up(2) unfolding eq by (simp add: sem_ok_def parked_ok_def l(1))
    then have "filter (\<lambda>c. \<not> waiting c s') (se_WaitingThreads lock) = [c]" using Cons l(2) by simp
    then show ?thesis using ih l(1) by simp
  qed
qed

section \<open>Properties of the semaphore\<close>

text \<open>(C3) Permits are conserved and granted first come, first served. In every run of a semaphore that
  starts with \<open>n\<close> permits, the count plus the number of requests granted is \<open>n\<close> plus the
  number of ups, so no more requests are ever granted than there were permits; the requests granted are
  the first of those made, in order, and the others wait; and neither operation can panic.\<close>

theorem semaphore_permits_fifo:
  assumes "sem_run wk n lock s g r u" and "unat n + u < 2 ^ 64"
  shows "unat (se_Count lock) + length g = unat n + u \<and> r = g @ se_WaitingThreads lock \<and>
     (se_WaitingThreads lock \<noteq> [] \<longrightarrow> length g = unat n + u) \<and> (\<forall>c\<in>set (se_WaitingThreads lock). waiting c s) \<and>
     (\<forall>c. may_wait c s \<longrightarrow> SemaphoreDown wk lock c s \<noteq> None) \<and> (caller_runs s \<longrightarrow> SemaphoreUp wk lock s \<noteq> None)"
proof -
  have i: "outside s" "sem_ok lock s" "r = g @ se_WaitingThreads lock" using sem_run_invariant [OF assms(1)] by blast+
  have "SemaphoreDown wk lock c s \<noteq> None" if "may_wait c s" for c using SemaphoreDown_ok [OF i(1,2) that, of wk] by auto
  moreover have "SemaphoreUp wk lock s \<noteq> None" if "caller_runs s" using SemaphoreUp_ok [OF i(1,2) that, of wk] by auto
  ultimately show ?thesis
    using sem_run_permits [OF assms] i(2,3) by (auto simp: sem_ok_def parked_ok_def)
qed

text \<open>The machine of \<open>sched0\<close> outside the critical section.\<close>

definition sched1 :: sched_state where
  "sched1 = set_counts (\<lambda>_. 0) sched0"

lemma outside_sched1: "outside sched1"
proof -
  have "in_crit sched0" "sched_ok sched0" using settled_sched0 by (simp_all add: settled_def)
  then show ?thesis using end_critical(2) [of sched0] by (simp add: outside_def sched1_def)
qed

lemma sched1_fields [simp]: "Contexts sched1 = context0" "ActiveThread sched1 = 1" "RunQueue sched1 = [2]"
  "Threads sched1 = (\<lambda>_. thread0)"
  by (simp_all add: sched1_def)

lemma may_wait_sched1: "may_wait NULL sched1" "ctx_of NULL sched1 = ThreadContext 1"
  "may_wait (Some (PlainContext 5)) sched1" "ctx_of (Some (PlainContext 5)) sched1 = PlainContext 5" "caller_runs sched1"
  by (simp_all add: may_wait_def ctx_of_def thread0_def caller_runs_def)

theorem semaphore_permits_fifo_witness:
  "\<exists>lock s. SemaphoreDown (\<lambda>_ _. None) (SemaphoreInit \<lparr>se_Count = 0, se_WaitingThreads = []\<rparr> 1) NULL sched1 = Some (lock, s) \<and>
     sem_run (\<lambda>_ _. None) 1 lock s [ThreadContext 1] [ThreadContext 1] 0 \<and> se_Count lock = 0"
proof -
  let ?l = "SemaphoreInit \<lparr>se_Count = 0, se_WaitingThreads = []\<rparr> 1"
  let ?w = "\<lambda>_ _. None :: sched_state option"
  have st: "sem_run ?w 1 ?l sched1 [] [] 0" by (rule sem_start [OF outside_sched1])
  have "sem_ok ?l sched1" by (simp add: sem_ok_def SemaphoreInit_def parked_ok_def)
  from SemaphoreDown_ok [OF outside_sched1 this may_wait_sched1(1), of ?w]
  obtain lock s where d: "SemaphoreDown ?w ?l NULL sched1 = Some (lock, s)" "\<not> waiting (ThreadContext 1) s"
    unfolding may_wait_sched1(2) by (auto simp: SemaphoreInit_def)
  have run: "sem_run ?w 1 lock s [ThreadContext 1] [ThreadContext 1] 0"
    using sem_down [OF st may_wait_sched1(1) d(1)] d(2) unfolding may_wait_sched1(2) by simp
  then show ?thesis using d(1) semaphore_permits_fifo [OF run] by (auto simp: unat_eq_0)
qed

section \<open>Signals and generations\<close>

definition sig_ok :: "SIGNAL \<Rightarrow> 'a sched_state_scheme \<Rightarrow> bool" where
  "sig_ok signal s \<longleftrightarrow> parked_ok (si_WaitingThreads signal) s \<and> (si_State signal \<longrightarrow> si_WaitingThreads signal = [])"

lemma empty_section:
  assumes "outside s"
  shows "\<exists>s'. LockingEnd (LockingStart s) = Some s' \<and> outside s' \<and> same_view s s'"
  using LockingEnd_ok [OF assms, of "LockingStart s"] LockingStart_ok(2,3) [OF assms] by (auto simp: same_view_def)

lemma SignalWait_ok:
  assumes "outside s" and "sig_ok signal s" and "may_wait c s"
  shows "\<exists>signal' s'. SignalWaitForSignal wk signal c s = Some (signal', s') \<and> outside s' \<and> sig_ok signal' s' \<and>
     waiting (ctx_of c s) s' = (\<not> si_State signal) \<and> si_State signal' = si_State signal \<and>
     si_WaitingThreads signal' = si_WaitingThreads signal @ (if si_State signal then [] else [ctx_of c s])"
proof -
  have p: "parked_ok (si_WaitingThreads signal) s" using assms(2) by (simp add: sig_ok_def)
  show ?thesis
  proof (cases "si_State signal")
    case False
    obtain s1 s' where b: "LockingBlock NULL c (LockingStart s) = Some (ctx_of c s, s1)" "LockingEnd s1 = Some s'" "outside s'"
       "Contexts s' = (Contexts s)(ctx_of c s := blocked_as NULL (Contexts s (ctx_of c s)))"
      using block_section [OF assms(1,3), of NULL] by blast
    show ?thesis
      using False b parked_ok_block [OF p assms(3) b(4)] may_wait_fresh(2) [OF p assms(3)]
      by (simp add: SignalWaitForSignal_def sig_ok_def)
  next
    case True
    then have e: "si_WaitingThreads signal = []" using assms(2) by (simp add: sig_ok_def)
    obtain s1 s' where b: "LockingAcquire wk c (LockingStart s) = Some s1" "LockingEnd s1 = Some s'" "outside s'"
       "Contexts s' = (Contexts s)(ctx_of c s := (Contexts s (ctx_of c s))\<lparr>lc_State := acquired_state (ctx_of c s)\<rparr>)"
      using acquire_section [OF assms(1,3), of wk] by blast
    show ?thesis
      using True b parked_ok_acquire [OF p assms(3) b(4)] e by (simp add: SignalWaitForSignal_def sig_ok_def)
  qed
qed

lemma SignalSet_ok:
  assumes "outside s" and "sig_ok signal s" and "caller_runs s"
  shows "\<exists>s'. SignalSet wk signal s = Some (signal\<lparr>si_WaitingThreads := [], si_State := True\<rparr>, s') \<and> outside s' \<and>
     Contexts s' = (\<lambda>c. if c \<in> set (si_WaitingThreads signal) then woken_context c (Contexts s c) else Contexts s c) \<and>
     RunQueue s' = RunQueue s @ concat (map woken_threads (si_WaitingThreads signal))"
proof (cases "si_State signal")
  case True
  then have e: "si_WaitingThreads signal = []" using assms(2) by (simp add: sig_ok_def)
  have same: "signal\<lparr>si_WaitingThreads := [], si_State := True\<rparr> = signal" using True e by (cases signal) simp
  obtain s' where "LockingEnd (LockingStart s) = Some s'" "outside s'" "same_view s s'"
    using empty_section [OF assms(1)] by blast
  then show ?thesis using True e by (simp add: SignalSet_def same same_view_def)
next
  case False
  have p: "parked_ok (si_WaitingThreads signal) s" using assms(2) by (simp add: sig_ok_def)
  have w: "distinct (si_WaitingThreads signal)" "\<forall>c\<in>set (si_WaitingThreads signal). wakeable c s"
    using parked_wakeable [OF p assms(3)] by simp_all
  show ?thesis using wake_section [OF assms(1) w, of wk] False by (auto simp: SignalSet_def)
qed

text \<open>A signal is never lost: waiting on a set signal returns at once and waiting on an unset one
  blocks the caller; setting it wakes every waiter, in the order they came, and only them, so that nobody
  waits on a set signal; no assertion of the unit fails.\<close>

theorem signal_wakes_all:
  assumes "outside s" and "sig_ok signal s"
  shows "(may_wait c s \<longrightarrow> (\<exists>signal' s'. SignalWaitForSignal wk signal c s = Some (signal', s') \<and> outside s' \<and> sig_ok signal' s' \<and>
        waiting (ctx_of c s) s' = (\<not> si_State signal) \<and> si_State signal' = si_State signal)) \<and>
     (caller_runs s \<longrightarrow> (\<exists>signal' s'. SignalSet wk signal s = Some (signal', s') \<and> outside s' \<and> sig_ok signal' s' \<and>
        si_State signal' \<and> si_WaitingThreads signal' = [] \<and>
        (\<forall>c. waiting c s' \<longleftrightarrow> c \<notin> set (si_WaitingThreads signal) \<and> waiting c s) \<and>
        RunQueue s' = RunQueue s @ concat (map woken_threads (si_WaitingThreads signal)))) \<and>
     (\<exists>signal' s'. SignalUnset signal s = Some (signal', s') \<and> outside s' \<and> sig_ok signal' s' \<and> \<not> si_State signal')"
proof (intro conjI impI)
  assume "may_wait c s"
  then show "\<exists>signal' s'. SignalWaitForSignal wk signal c s = Some (signal', s') \<and> outside s' \<and> sig_ok signal' s' \<and>
        waiting (ctx_of c s) s' = (\<not> si_State signal) \<and> si_State signal' = si_State signal"
    using SignalWait_ok [OF assms, of c wk] by blast
next
  assume "caller_runs s"
  then show "\<exists>signal' s'. SignalSet wk signal s = Some (signal', s') \<and> outside s' \<and> sig_ok signal' s' \<and>
        si_State signal' \<and> si_WaitingThreads signal' = [] \<and>
        (\<forall>c. waiting c s' \<longleftrightarrow> c \<notin> set (si_WaitingThreads signal) \<and> waiting c s) \<and>
        RunQueue s' = RunQueue s @ concat (map woken_threads (si_WaitingThreads signal))"
    using SignalSet_ok [OF assms, of wk] by (auto simp: sig_ok_def parked_ok_def woken_context_def)
next
  obtain s' where "LockingEnd (LockingStart s) = Some s'" "outside s'" "same_view s s'"
    using empty_section [OF assms(1)] by blast
  then show "\<exists>signal' s'. SignalUnset signal s = Some (signal', s') \<and> outside s' \<and> sig_ok signal' s' \<and> \<not> si_State signal'"
    using assms(2) by (simp add: SignalUnset_def sig_ok_def parked_ok_def same_view_def)
qed

theorem signal_wakes_all_witness:
  "\<exists>signal' s'. SignalWaitForSignal (\<lambda>_ _. None) \<lparr>si_State = False, si_WaitingThreads = []\<rparr> NULL sched1 = Some (signal', s') \<and>
     sig_ok signal' s' \<and> waiting (ThreadContext 1) s'"
proof -
  have "sig_ok \<lparr>si_State = False, si_WaitingThreads = []\<rparr> sched1" by (simp add: sig_ok_def parked_ok_def)
  from signal_wakes_all [OF outside_sched1 this, of NULL "\<lambda>_ _. None"] show ?thesis
    using may_wait_sched1(1,2) by auto
qed

text \<open>A generation blocks exactly the callers that have seen its current value; an update to any
  value wakes all of them in the order they came.\<close>

theorem generation_wakes_all:
  assumes "outside s" and "parked_ok (ge_WaitingThreads gen) s"
  shows "(may_wait c s \<longrightarrow> (\<exists>gen' s'. GenerationWait wk gen val c s = Some (gen', s') \<and> outside s' \<and>
        parked_ok (ge_WaitingThreads gen') s' \<and> ge_Generation gen' = ge_Generation gen \<and>
        (if val = ge_Generation gen then waiting (ctx_of c s) s' \<and> ge_WaitingThreads gen' = ge_WaitingThreads gen @ [ctx_of c s]
         else \<not> waiting (ctx_of c s) s' \<and> ge_WaitingThreads gen' = ge_WaitingThreads gen))) \<and>
     (caller_runs s \<longrightarrow> (\<exists>gen' s'. GenerationUpdate wk gen val s = Some (gen', s') \<and> outside s' \<and>
        ge_Generation gen' = val \<and> ge_WaitingThreads gen' = [] \<and>
        (\<forall>c. waiting c s' \<longleftrightarrow> c \<notin> set (ge_WaitingThreads gen) \<and> waiting c s) \<and>
        RunQueue s' = RunQueue s @ concat (map woken_threads (ge_WaitingThreads gen))))"
proof (intro conjI impI)
  assume may: "may_wait c s"
  show "\<exists>gen' s'. GenerationWait wk gen val c s = Some (gen', s') \<and> outside s' \<and>
        parked_ok (ge_WaitingThreads gen') s' \<and> ge_Generation gen' = ge_Generation gen \<and>
        (if val = ge_Generation gen then waiting (ctx_of c s) s' \<and> ge_WaitingThreads gen' = ge_WaitingThreads gen @ [ctx_of c s]
         else \<not> waiting (ctx_of c s) s' \<and> ge_WaitingThreads gen' = ge_WaitingThreads gen)"
  proof (cases "val = ge_Generation gen")
    case True
    obtain s1 s' where b: "LockingBlock NULL c (LockingStart s) = Some (ctx_of c s, s1)" "LockingEnd s1 = Some s'" "outside s'"
       "Contexts s' = (Contexts s)(ctx_of c s := blocked_as NULL (Contexts s (ctx_of c s)))"
      using block_section [OF assms(1) may, of NULL] by blast
    then show ?thesis
      using True parked_ok_block [OF assms(2) may b(4)] may_wait_fresh(2) [OF assms(2) may]
      by (simp add: GenerationWait_def)
  next
    case False
    obtain s1 s' where b: "LockingAcquire wk c (LockingStart s) = Some s1" "LockingEnd s1 = Some s'" "outside s'"
       "Contexts s' = (Contexts s)(ctx_of c s := (Contexts s (ctx_of c s))\<lparr>lc_State := acquired_state (ctx_of c s)\<rparr>)"
      using acquire_section [OF assms(1) may, of wk] by blast
    then show ?thesis
      using False parked_ok_acquire [OF assms(2) may b(4)] by (simp add: GenerationWait_def)
  qed
next
  assume "caller_runs s"
  then have w: "distinct (ge_WaitingThreads gen)" "\<forall>c\<in>set (ge_WaitingThreads gen). wakeable c s"
    using parked_wakeable [OF assms(2)] by simp_all
  show "\<exists>gen' s'. GenerationUpdate wk gen val s = Some (gen', s') \<and> outside s' \<and>
        ge_Generation gen' = val \<and> ge_WaitingThreads gen' = [] \<and>
        (\<forall>c. waiting c s' \<longleftrightarrow> c \<notin> set (ge_WaitingThreads gen) \<and> waiting c s) \<and>
        RunQueue s' = RunQueue s @ concat (map woken_threads (ge_WaitingThreads gen))"
    using wake_section [OF assms(1) w, of wk] by (auto simp: GenerationUpdate_def woken_context_def)
qed

theorem generation_wakes_all_witness:
  "\<exists>gen' s'. GenerationWait (\<lambda>_ _. None) \<lparr>ge_Generation = 4, ge_WaitingThreads = []\<rparr> 4 NULL sched1 = Some (gen', s') \<and>
     waiting (ThreadContext 1) s' \<and> ge_WaitingThreads gen' = [ThreadContext 1]"
proof -
  have "parked_ok (ge_WaitingThreads \<lparr>ge_Generation = 4, ge_WaitingThreads = []\<rparr>) sched1" by (simp add: parked_ok_def)
  from generation_wakes_all [OF outside_sched1 this, of NULL "\<lambda>_ _. None" 4] show ?thesis
    using may_wait_sched1(1,2) by auto
qed

section \<open>Barriers\<close>

definition bar_ok :: "BARRIER \<Rightarrow> 'a sched_state_scheme \<Rightarrow> bool" where
  "bar_ok b s \<longleftrightarrow> parked_ok (ba_List b) s \<and> unat (ba_Present b) = length (ba_List b) \<and> ba_Present b < ba_Needed b"

text \<open>The critical section that completes a round: the caller goes on and everybody else is woken.\<close>

lemma release_section:
  assumes "outside s" and may: "may_wait c s" and p: "parked_ok q s" and run: "caller_runs s"
  shows "\<exists>s1 s2 s'. LockingAcquire wk c (LockingStart s) = Some s1 \<and>
     acquire_all (\<lambda>c. LockingAcquire wk (Some c)) q s1 = Some s2 \<and> LockingEnd s2 = Some s' \<and> outside s' \<and>
     (\<forall>d. waiting d s' \<longleftrightarrow> d \<notin> set (q @ [ctx_of c s]) \<and> waiting d s) \<and>
     RunQueue s' = RunQueue s @ concat (map woken_threads q)"
proof -
  note st = LockingStart_ok [OF assms(1)]
  let ?s = "LockingStart s" and ?c = "ctx_of c s"
  have may0: "may_wait c ?s" using may st(4) by simp
  obtain s1 where s1: "LockingAcquire wk c ?s = Some s1" "lock_frame ?s s1" "RunQueue s1 = RunQueue ?s"
     "Contexts s1 = (Contexts s)(?c := (Contexts s ?c)\<lparr>lc_State := acquired_state ?c\<rparr>)"
    using LockingAcquire_now [OF st(1,2) may0, of wk] st(3,5) by (auto simp: same_view_def)
  have f: "in_crit s1" "sched_ok s1" "irq_same ?s s1" "ActiveThread s1 = ActiveThread s"
    using s1(2) st(3) by (simp_all add: lock_frame_def same_view_def)
  have q1: "parked_ok q s1" by (rule parked_ok_acquire(1) [OF p may s1(4)])
  have "caller_runs s1" using run by (simp add: caller_runs_def f(4) s1(4))
  then have w: "distinct q" "\<forall>d\<in>set q. wakeable d s1" using parked_wakeable [OF q1] by simp_all
  obtain s2 where s2: "acquire_all (\<lambda>c. LockingAcquire wk (Some c)) q s1 = Some s2" "sched_ok s2" "woke_frame s1 s2"
     "Contexts s2 = (\<lambda>d. if d \<in> set q then woken_context d (Contexts s1 d) else Contexts s1 d)"
     "RunQueue s2 = RunQueue s1 @ concat (map woken_threads q)"
    using lw.wake_all [OF _ w, of wk] f(1,2) by blast
  have "irq_same ?s s2" using f(3) s2(3) irq_same_trans by (auto simp: woke_frame_def)
  then obtain s' where s': "LockingEnd s2 = Some s'" "outside s'" "same_view s2 s'"
    using LockingEnd_ok [OF assms(1) _ s2(2)] by blast
  have "waiting d s' \<longleftrightarrow> d \<notin> set (q @ [?c]) \<and> waiting d s" for d
    using s'(3) may by (auto simp: same_view_def s2(4) s1(4) woken_context_def)
  moreover have "RunQueue s' = RunQueue s @ concat (map woken_threads q)"
    using s'(3) s2(5) s1(3) st(3) by (simp add: same_view_def)
  ultimately show ?thesis using s1(1) s2(1) s'(1,2) by blast
qed

lemma BarrierSync_ok:
  assumes "outside s" and ok: "bar_ok b s" and may: "may_wait c s" and run: "caller_runs s"
  shows "\<exists>b' s'. BarrierSync wk b c s = Some (b', s') \<and> outside s' \<and> bar_ok b' s' \<and> ba_Needed b' = ba_Needed b \<and>
     (if length (ba_List b) + 1 = unat (ba_Needed b)
      then ba_List b' = [] \<and> (\<forall>d \<in> set (ba_List b @ [ctx_of c s]). \<not> waiting d s')
      else ba_List b' = ba_List b @ [ctx_of c s])"
proof -
  have o: "parked_ok (ba_List b) s" "unat (ba_Present b) = length (ba_List b)" "ba_Present b < ba_Needed b"
    using ok by (simp_all add: bar_ok_def)
  have "unat (ba_Present b) + 1 < 2 ^ LENGTH(64) \<or> unat (ba_Present b) + 1 = 2 ^ LENGTH(64)"
    using unat_less_64 [of "ba_Present b"] by auto
  moreover have lt: "unat (ba_Present b) < unat (ba_Needed b)" using o(3) by (simp add: word_less_nat_alt)
  ultimately have suc: "unat (ba_Present b + 1) = unat (ba_Present b) + 1"
    using unat_less_64 [of "ba_Needed b"] unat_Suc_word [of "ba_Present b"] by auto
  have full: "ba_Needed b = ba_Present b + 1 \<longleftrightarrow> length (ba_List b) + 1 = unat (ba_Needed b)"
    using suc o(2) by (auto simp: word_unat_eq_iff)
  show ?thesis
  proof (cases "ba_Needed b = ba_Present b + 1")
    case True
    obtain s1 s2 s' where r: "LockingAcquire wk c (LockingStart s) = Some s1"
       "acquire_all (\<lambda>c. LockingAcquire wk (Some c)) (ba_List b) s1 = Some s2" "LockingEnd s2 = Some s'" "outside s'"
       "\<forall>d. waiting d s' \<longleftrightarrow> d \<notin> set (ba_List b @ [ctx_of c s]) \<and> waiting d s"
      using release_section [OF assms(1) may o(1) run, of wk] by blast
    have "0 < ba_Needed b" using o(3) by (metis word_neq_0_conv word_not_simps(1))
    then show ?thesis using True full r by (simp add: BarrierSync_def bar_ok_def parked_ok_def)
  next
    case False
    obtain s1 s' where bl: "LockingBlock NULL c (LockingStart s) = Some (ctx_of c s, s1)" "LockingEnd s1 = Some s'" "outside s'"
       "Contexts s' = (Contexts s)(ctx_of c s := blocked_as NULL (Contexts s (ctx_of c s)))"
      using block_section [OF assms(1) may, of NULL] by blast
    have "ba_Present b + 1 < ba_Needed b"
      using False lt suc by (auto simp: word_less_nat_alt word_unat_eq_iff)
    then show ?thesis
      using False full bl parked_ok_block(1) [OF o(1) may bl(4)] may_wait_fresh(2) [OF o(1) may] suc o(2)
      by (simp add: BarrierSync_def bar_ok_def)
  qed
qed

text \<open>
  Runs of a barrier for \<open>n\<close> parties: \<open>arr\<close> lists the arrivals in order, \<open>rel\<close>
  those that have been let through.
\<close>

inductive bar_run ::
    "'a wake \<Rightarrow> COUNT \<Rightarrow> BARRIER \<Rightarrow> 'a sched_state_scheme \<Rightarrow> lctx list \<Rightarrow> lctx list \<Rightarrow> bool"
  for wk n where
  bar_start: "outside s \<Longrightarrow> bar_run wk n (BarrierInit b n) s [] []"
| bar_sync: "bar_run wk n b s arr rel \<Longrightarrow> may_wait c s \<Longrightarrow> caller_runs s \<Longrightarrow> BarrierSync wk b c s = Some (b', s') \<Longrightarrow>
    bar_run wk n b' s' (arr @ [ctx_of c s]) (rel @ filter (\<lambda>d. \<not> waiting d s') (ba_List b @ [ctx_of c s]))"
| bar_other: "bar_run wk n b s arr rel \<Longrightarrow> outside s' \<Longrightarrow> \<forall>c\<in>set (ba_List b). waiting c s' \<Longrightarrow> bar_run wk n b s' arr rel"

lemma bar_run_invariant:
  "bar_run wk n b s arr rel \<Longrightarrow> n \<noteq> 0 \<Longrightarrow> outside s \<and> bar_ok b s \<and> ba_Needed b = n \<and> arr = rel @ ba_List b \<and>
     length rel mod unat n = 0"
proof (induction rule: bar_run.induct)
  case (bar_start s b)
  then show ?case by (simp add: BarrierInit_def bar_ok_def parked_ok_def word_neq_0_conv)
next
  case (bar_sync b s arr rel c b' s')
  then have ih: "outside s" "bar_ok b s" "ba_Needed b = n" "arr = rel @ ba_List b" "length rel mod unat n = 0" by blast+
  obtain b2 s2 where r: "BarrierSync wk b c s = Some (b2, s2)" "outside s2" "bar_ok b2 s2" "ba_Needed b2 = ba_Needed b"
     "if length (ba_List b) + 1 = unat (ba_Needed b)
      then ba_List b2 = [] \<and> (\<forall>d \<in> set (ba_List b @ [ctx_of c s]). \<not> waiting d s2)
      else ba_List b2 = ba_List b @ [ctx_of c s]"
    using BarrierSync_ok [OF ih(1,2) bar_sync.hyps(2,3), of wk] by blast
  have eq: "b2 = b'" "s2 = s'" using r(1) bar_sync.hyps(4) by simp_all
  show ?case
  proof (cases "length (ba_List b) + 1 = unat n")
    case True
    then have a: "ba_List b' = []" "\<forall>d \<in> set (ba_List b @ [ctx_of c s]). \<not> waiting d s'" using r(5) ih(3) eq by simp_all
    then have "filter (\<lambda>d. \<not> waiting d s') (ba_List b @ [ctx_of c s]) = ba_List b @ [ctx_of c s]" by (simp add: filter_id_conv)
    moreover have "(length rel + unat n) mod unat n = 0" using ih(5) by simp
    ultimately show ?thesis using r(2,3,4) ih(3,4) a(1) True unfolding eq by (simp add: add.commute)
  next
    case False
    then have a: "ba_List b' = ba_List b @ [ctx_of c s]" using r(5) ih(3) eq by simp
    have "\<forall>d\<in>set (ba_List b @ [ctx_of c s]). waiting d s'" using r(3) a unfolding eq by (simp add: bar_ok_def parked_ok_def)
    then have "filter (\<lambda>d. \<not> waiting d s') (ba_List b @ [ctx_of c s]) = []" by (simp add: filter_empty_conv)
    then show ?thesis using r(2,3,4) ih a unfolding eq by simp
  qed
next
  case (bar_other b s arr rel s')
  then show ?case by (auto simp: bar_ok_def parked_ok_def)
qed

text \<open>(C19) A barrier for \<open>n\<close> parties lets its callers through in groups of \<open>n\<close>: those let through
  are the first \<open>n * k\<close> arrivals, in order, for some \<open>k\<close>; the fewer than \<open>n\<close> others all
  wait. In particular nobody passes before \<open>n\<close> parties have arrived, the \<open>n\<close>-th lets all of them
  through, and the barrier is then ready for the next round.\<close>

theorem barrier_rounds:
  assumes "bar_run wk n b s arr rel" and "n \<noteq> 0"
  shows "arr = rel @ ba_List b \<and> length rel = unat n * (length arr div unat n) \<and> length (ba_List b) < unat n \<and>
     (\<forall>c\<in>set (ba_List b). waiting c s) \<and> (\<forall>c. may_wait c s \<longrightarrow> caller_runs s \<longrightarrow> BarrierSync wk b c s \<noteq> None)"
proof -
  have i: "outside s" "bar_ok b s" "ba_Needed b = n" "arr = rel @ ba_List b" "length rel mod unat n = 0"
    using bar_run_invariant [OF assms] by blast+
  have lt: "length (ba_List b) < unat n" using i(2,3) by (simp add: bar_ok_def word_less_nat_alt)
  obtain k where k: "length rel = unat n * k" using i(5) by (auto simp: mod_eq_0_iff_dvd dvd_def)
  have "length arr div unat n = k" using i(4) k lt by simp
  moreover have "BarrierSync wk b c s \<noteq> None" if "may_wait c s" "caller_runs s" for c
    using BarrierSync_ok [OF i(1,2) that, of wk] by auto
  ultimately show ?thesis using i(2,4) k lt by (simp add: bar_ok_def parked_ok_def)
qed

theorem barrier_rounds_witness:
  "\<exists>b s. BarrierSync (\<lambda>_ _. None) (BarrierInit \<lparr>ba_Needed = 0, ba_Present = 0, ba_List = []\<rparr> 2) NULL sched1 = Some (b, s) \<and>
     waiting (ThreadContext 1) s \<and> ba_List b = [ThreadContext 1]"
proof -
  let ?b = "BarrierInit \<lparr>ba_Needed = 0, ba_Present = 0, ba_List = []\<rparr> 2"
  let ?w = "\<lambda>_ _. None :: sched_state option"
  have st: "bar_run ?w 2 ?b sched1 [] []" by (rule bar_start [OF outside_sched1])
  have "BarrierSync ?w ?b NULL sched1 \<noteq> None"
    using barrier_rounds [OF st] may_wait_sched1(1,5) by simp
  then obtain b s where r: "BarrierSync ?w ?b NULL sched1 = Some (b, s)" by auto
  have run: "bar_run ?w 2 b s [ThreadContext 1] (filter (\<lambda>d. \<not> waiting d s) [ThreadContext 1])"
    using bar_sync [OF st may_wait_sched1(1,5) r] unfolding may_wait_sched1(2) by (simp add: BarrierInit_def)
  from barrier_rounds [OF run] have "length (filter (\<lambda>d. \<not> waiting d s) [ThreadContext 1]) = 0"
    "[ThreadContext 1] = filter (\<lambda>d. \<not> waiting d s) [ThreadContext 1] @ ba_List b" by simp_all
  then show ?thesis using r by (auto split: if_splits)
qed

section \<open>What waking and blocking a thread change\<close>

text \<open>The effect of waking a thread.\<close>

definition resumed :: "addr \<Rightarrow> 'a sched_state_scheme \<Rightarrow> 'a sched_state_scheme" where
  "resumed t s = s\<lparr>Contexts := (Contexts s)(ThreadContext t := (Contexts s (ThreadContext t))\<lparr>lc_State := LOCKING_STATE_READY\<rparr>),
     Threads := (Threads s)(t := (Threads s t)\<lparr>th_State := THREAD_STATE_RUNNING\<rparr>), RunQueue := RunQueue s @ [t]\<rparr>"

lemma acquire_resumed:
  assumes "in_crit s" and "sched_ok s" and "wakeable (ThreadContext t) s"
  shows "LockingAcquire wk (Some (ThreadContext t)) s = Some (resumed t s)"
proof -
  have o: "run_queue_ok s" "contexts_ok s" using assms(2) by (simp_all add: sched_ok_def)
  have w: "waiting (ThreadContext t) s" using assms(3) by (simp add: wakeable_def)
  then have st: "th_State (Threads s t) = THREAD_STATE_BLOCKED" using o(2) by (simp add: contexts_ok_def)
  then have notin: "t \<notin> set (RunQueue s)" using o(1) by (auto simp: run_queue_ok_def)
  let ?s = "upd_context (ThreadContext t) (\<lambda>lc. lc\<lparr>lc_State := LOCKING_STATE_READY\<rparr>) s"
  have "in_crit ?s" by (rule irq_same_in_crit [OF _ assms(1)]) simp
  then have "SchedulerResumeThread t ?s = Some (resumed t s)"
    using SchedulerResumeThread_ok [of ?s t] st notin
    by (simp add: resumed_def upd_thread_def upd_context_def)
  then show ?thesis
    using assms(1) w o(2)
    by (simp add: LockingAcquire_def LockingGetContext_def call_wake_def contexts_ok_def SchedulerWakeOnLock_def)
qed

text \<open>What blocking a thread leaves alone: the timers, the soft queue, every handler but the one that
  switches threads, and the state of the units above.\<close>

definition timers_kept :: "'a sched_state_scheme \<Rightarrow> 'a sched_state_scheme \<Rightarrow> bool" where
  "timers_kept s s' \<longleftrightarrow> TimerLinks s' = TimerLinks s \<and> TimerHeap1 s' = TimerHeap1 s \<and> TimerHeap2 s' = TimerHeap2 s \<and>
     Timers s' = Timers s \<and> TimersOverflow s' = TimersOverflow s \<and> TimerLastTime s' = TimerLastTime s \<and>
     SoftInterruptHandlerList s' = SoftInterruptHandlerList s \<and>
     set (CritInterruptHandlerList s') \<subseteq> insert SchedulerCritObject (set (CritInterruptHandlerList s)) \<and>
     (\<forall>h. h \<noteq> SchedulerCritObject \<longrightarrow> Handlers s' h = Handlers s h) \<and> sched_state.more s' = sched_state.more s"

lemma timers_kept_refl [simp]: "timers_kept s s"
  by (auto simp: timers_kept_def)

lemma timers_kept_trans: "timers_kept s s1 \<Longrightarrow> timers_kept s1 s2 \<Longrightarrow> timers_kept s s2"
  by (auto simp: timers_kept_def)

lemma timers_kept_counts [simp]: "timers_kept s (set_counts c s)"
  by (auto simp: timers_kept_def set_counts_def)

lemma timers_kept_enable: "IsrEnable l s = Some s' \<Longrightarrow> timers_kept s s'"
  by (auto simp: IsrEnable_def IsrDefer_def IsrDeferLoop_top HalSetIrq_def timers_kept_def Let_def split: if_splits)

lemma timers_kept_upd [simp]:
  "timers_kept s (upd_thread t f s)" "timers_kept s (upd_context c g s)" "timers_kept s (s\<lparr>RunQueue := q\<rparr>)"
  by (auto simp: timers_kept_def upd_thread_def upd_context_def)

lemma timers_kept_switch: "SchedulerNeedsSwitch s = Some s' \<Longrightarrow> timers_kept s s'"
  by (auto simp: SchedulerNeedsSwitch_eq timers_kept_def upd_handler_def HalRaiseInterrupt_def split: if_splits)

lemma timers_kept_block:
  assumes "LockingBlock info NULL s = Some (c, s')" and "contexts_ok s"
  shows "timers_kept s s'"
proof -
  define s1 where "s1 = (case info of NULL \<Rightarrow> s
     | Some i \<Rightarrow> upd_context (ThreadContext (ActiveThread s)) (\<lambda>c. c\<lparr>lc_BlockingContext := i\<rparr>) s)"
  define s2 where "s2 = upd_thread (ActiveThread s1) (\<lambda>t. t\<lparr>th_State := THREAD_STATE_BLOCKED\<rparr>) s1"
  have "lc_BlockFunction (Contexts s1 (ThreadContext (ActiveThread s))) = SchedulerBlockOnLock_f"
    using assms(2) by (simp add: contexts_ok_def s1_def split: option.split)
  then obtain s3 where s3: "SchedulerNeedsSwitch s2 = Some s3"
      "s' = upd_context (ThreadContext (ActiveThread s)) (\<lambda>c. c\<lparr>lc_State := LOCKING_STATE_BLOCKING\<rparr>) s3"
    using assms(1)
    by (auto simp: LockingBlock_def LockingGetContext_def SchedulerGetLockingContext_def SchedulerGetActiveThread_def
        s1_def [symmetric] call_block_def SchedulerBlockOnLock_def SchedulerBlockThread_def s2_def Let_def bind_Some_iff
        split: if_splits)
  have "timers_kept s s1" by (simp add: s1_def split: option.split)
  moreover have "timers_kept s1 s2" by (simp add: s2_def)
  ultimately show ?thesis
    using timers_kept_switch [OF s3(1)] timers_kept_trans timers_kept_upd(2) s3(2) by metis
qed

lemma timers_kept_acquire:
  assumes "LockingAcquire wk NULL s = Some s'" and "contexts_ok s" and "may_wait NULL s"
  shows "timers_kept s s'"
  using assms
  by (auto simp: LockingAcquire_def LockingGetContext_def SchedulerGetLockingContext_def SchedulerGetActiveThread_def call_wake_def
      contexts_ok_def SchedulerWakeOnLock_def may_wait_def ctx_of_def bind_Some_iff split: if_splits)

lemma timers_kept_section:
  assumes "outside s" and "may_wait NULL s"
    and "(\<exists>c. LockingBlock info NULL (LockingStart s) = Some (c, s1)) \<or> LockingAcquire wk NULL (LockingStart s) = Some s1"
    and "LockingEnd s1 = Some s'"
  shows "timers_kept s s'"
proof -
  note st = LockingStart_ok [OF assms(1)]
  have ctx: "contexts_ok (LockingStart s)" "may_wait NULL (LockingStart s)" using st(2,4) assms(2) by (simp_all add: sched_ok_def)
  have "timers_kept s (LockingStart s)"
    using start_critical(1) [of s] assms(1) by (simp add: LockingStart_def outside_def)
  moreover have "timers_kept (LockingStart s) s1" using assms(3) timers_kept_block ctx(1) timers_kept_acquire [OF _ ctx] by blast
  moreover have "timers_kept s1 s'"
    using assms(4) by (auto simp: LockingEnd_def SchedulerEndCritical_def intro: timers_kept_enable)
  ultimately show ?thesis using timers_kept_trans by blast
qed

section \<open>Inside a critical handler\<close>

text \<open>A critical section inside the critical interrupt or outside of it; a handler that is not the one that
  switches threads, popped from its queue and run.\<close>

lemma nested_start:
  assumes "isr_ok s" and "IsrDisabledCount s IRQ_LEVEL_CRIT + 1 \<noteq> 0" and "open_irq s \<or> in_crit s"
  shows "\<exists>c. LockingStart s = set_counts c s" "in_crit (LockingStart s)"
proof -
  let ?c = "(IsrDisabledCount s)(IRQ_LEVEL_CRIT := IsrDisabledCount s IRQ_LEVEL_CRIT + 1)"
  have eq: "LockingStart s = set_counts ?c s"
    unfolding LockingStart_def SchedulerStartCritical_def by (rule IsrDisable_counts [OF assms(1,2)]) simp
  then show "\<exists>c. LockingStart s = set_counts c s" by blast
  show "in_crit (LockingStart s)"
    using assms(2,3) set_counts_ok [OF assms(1), of ?c] unfolding eq
    by (auto simp: open_irq_def in_crit_def crit_levels_def set_counts_def)
qed

lemma sched_ok_handler:
  assumes "sched_ok s" and "n \<noteq> SchedulerCritObject" and "n \<notin> set (CritInterruptHandlerList s)" and "n \<notin> set (SoftInterruptHandlerList s)"
  shows "sched_ok (upd_handler n f s)"
proof -
  have "switch_ok (upd_handler n f s)" using assms by (auto simp: sched_ok_def switch_ok_def queues_ok_def)
  then show ?thesis using assms(1) by (simp add: sched_ok_def run_queue_ok_def contexts_ok_def)
qed

lemma sched_ok_popped:
  assumes "sched_ok s" and "CritInterruptHandlerList s = n # hs" and "n \<noteq> SchedulerCritObject"
  shows "sched_ok (upd_handler n f (s\<lparr>CritInterruptHandlerList := hs\<rparr>))"
proof -
  have "n \<notin> set hs" "n \<notin> set (SoftInterruptHandlerList s)" using assms(1,2) by (auto simp: sched_ok_def switch_ok_def queues_ok_def)
  then have "switch_ok (upd_handler n f (s\<lparr>CritInterruptHandlerList := hs\<rparr>))"
    using assms by (auto simp: sched_ok_def switch_ok_def queues_ok_def)
  then show ?thesis using assms(1) by (simp add: sched_ok_def run_queue_ok_def contexts_ok_def)
qed

section \<open>Semaphores as their users see them\<close>

definition sem_down :: "lctx \<Rightarrow> SEMAPHORE \<Rightarrow> SEMAPHORE" where
  "sem_down c lock = (if se_Count lock = 0 then lock\<lparr>se_WaitingThreads := se_WaitingThreads lock @ [c]\<rparr>
     else lock\<lparr>se_Count := se_Count lock - 1\<rparr>)"

definition sem_up :: "SEMAPHORE \<Rightarrow> SEMAPHORE" where
  "sem_up lock = (case se_WaitingThreads lock of c # q \<Rightarrow> lock\<lparr>se_WaitingThreads := q\<rparr>
     | [] \<Rightarrow> lock\<lparr>se_Count := se_Count lock + 1\<rparr>)"

text \<open>This is what the operations of the kernel do: the caller goes on exactly when it is not among the
  waiting threads afterwards.\<close>

lemma SemaphoreDown_user:
  assumes "outside s" and "sem_ok lock s" and "may_wait c s"
  shows "\<exists>s'. SemaphoreDown wk lock c s = Some (sem_down (ctx_of c s) lock, s') \<and> outside s' \<and>
     sem_ok (sem_down (ctx_of c s) lock) s' \<and>
     (waiting (ctx_of c s) s' \<longleftrightarrow> ctx_of c s \<in> set (se_WaitingThreads (sem_down (ctx_of c s) lock)))"
proof -
  obtain lock' s' where d: "SemaphoreDown wk lock c s = Some (lock', s')" "outside s'" "sem_ok lock' s'"
     "waiting (ctx_of c s) s' = (se_Count lock = 0)"
     "if se_Count lock = 0 then lock' = lock\<lparr>se_WaitingThreads := se_WaitingThreads lock @ [ctx_of c s]\<rparr>
      else lock' = lock\<lparr>se_Count := se_Count lock - 1\<rparr>"
    using SemaphoreDown_ok [OF assms, of wk] by blast
  then have "lock' = sem_down (ctx_of c s) lock" by (auto simp: sem_down_def split: if_splits)
  moreover have "ctx_of c s \<notin> set (se_WaitingThreads lock)"
    using may_wait_fresh(1) [OF _ assms(3)] assms(2) by (auto simp: sem_ok_def)
  ultimately show ?thesis using d by (auto simp: sem_down_def)
qed

lemma SemaphoreUp_user:
  assumes "outside s" and "sem_ok lock s" and "caller_runs s"
  shows "\<exists>s'. SemaphoreUp wk lock s = Some (sem_up lock, s') \<and> outside s' \<and> sem_ok (sem_up lock) s' \<and>
     (\<forall>c q. se_WaitingThreads lock = c # q \<longrightarrow> \<not> waiting c s')"
  using SemaphoreUp_ok [OF assms, of wk] by (auto simp: sem_up_def split: list.splits)

end
