(* ===== verification/Resource.thy ===== *)
theory Resource
  imports Locks
begin

text \<open>
  The shared and exclusive lock of \<^verbatim>\<open>src/kernel/resource.c\<close>, and the parts of
  \<^verbatim>\<open>src/kernel/scheduler.c\<close> that use it to let threads wait for each other: the life of a thread
  and joining it.
\<close>

section \<open>Operations\<close>

text \<open>The loop of \<^verbatim>\<open>ResourceWakeThreads\<close>; the list is the waiting queue of the lock.\<close>

primrec ResourceWakeLoop ::
    "'a wake \<Rightarrow> lctx list \<Rightarrow> RESOURCE \<Rightarrow> 'a sched_state_scheme \<Rightarrow> (RESOURCE \<times> 'a sched_state_scheme) option" where
  "ResourceWakeLoop wk [] lock s = Some (lock, s)"
| "ResourceWakeLoop wk (cur # q) lock s =
     (case lc_BlockingContext (Contexts s cur) of
        RESOURCE_SHARED \<Rightarrow>
          do {
            let lock = lock\<lparr>re_NumShared := re_NumShared lock + 1, re_State := RESOURCE_SHARED, re_WaitingThreads := q\<rparr>;
            s \<leftarrow> LockingAcquire wk (Some cur) s;
            ResourceWakeLoop wk q lock s
          }
      | RESOURCE_EXCLUSIVE \<Rightarrow>
          (if re_NumShared lock = 0 then
             do {
               let lock = lock\<lparr>re_WaitingThreads := q, re_State := RESOURCE_EXCLUSIVE\<rparr>;
               s \<leftarrow> LockingAcquire wk (Some cur) s;
               Some (lock, s)
             }
           else Some (lock, s)))"

definition ResourceWakeThreads ::
    "'a wake \<Rightarrow> RESOURCE \<Rightarrow> 'a sched_state_scheme \<Rightarrow> (RESOURCE \<times> 'a sched_state_scheme) option" where
  "ResourceWakeThreads wk lock s =
     do {
       ASSERT (re_NumShared lock = 0);
       ASSERT (re_WaitingThreads lock \<noteq> []);
       ResourceWakeLoop wk (re_WaitingThreads lock) lock s
     }"

text \<open>The three lines that block a caller with its kind of request.\<close>

definition resource_block ::
    "RESOURCE_STATE \<Rightarrow> RESOURCE \<Rightarrow> lctx option \<Rightarrow> 'a sched_state_scheme \<Rightarrow> (RESOURCE \<times> 'a sched_state_scheme) option" where
  "resource_block kind lock context s =
     do {
       (link, s) \<leftarrow> LockingBlock (Some kind) context s;
       q \<leftarrow> enqueue link (re_WaitingThreads lock);
       Some (lock\<lparr>re_WaitingThreads := q\<rparr>, s)
     }"

definition ResourceLockShared ::
    "'a wake \<Rightarrow> RESOURCE \<Rightarrow> lctx option \<Rightarrow> 'a sched_state_scheme \<Rightarrow> (RESOURCE \<times> 'a sched_state_scheme) option" where
  "ResourceLockShared wk lock context s =
     do {
       let s = LockingStart s;
       (lock, s) \<leftarrow>
         (if re_WaitingThreads lock \<noteq> [] then resource_block RESOURCE_SHARED lock context s
          else if re_State lock = RESOURCE_SHARED then
            do {
              let lock = lock\<lparr>re_NumShared := re_NumShared lock + 1\<rparr>;
              s \<leftarrow> LockingAcquire wk context s;
              Some (lock, s)
            }
          else resource_block RESOURCE_SHARED lock context s);
       s \<leftarrow> LockingEnd s;
       Some (lock, s)
     }"

definition ResourceLockExclusive ::
    "'a wake \<Rightarrow> RESOURCE \<Rightarrow> lctx option \<Rightarrow> 'a sched_state_scheme \<Rightarrow> (RESOURCE \<times> 'a sched_state_scheme) option" where
  "ResourceLockExclusive wk lock context s =
     do {
       let s = LockingStart s;
       (lock, s) \<leftarrow>
         (if re_WaitingThreads lock \<noteq> [] then resource_block RESOURCE_EXCLUSIVE lock context s
          else if re_State lock = RESOURCE_SHARED then
            (if re_NumShared lock = 0 then
               do {
                 let lock = lock\<lparr>re_State := RESOURCE_EXCLUSIVE\<rparr>;
                 s \<leftarrow> LockingAcquire wk context s;
                 Some (lock, s)
               }
             else resource_block RESOURCE_EXCLUSIVE lock context s)
          else resource_block RESOURCE_EXCLUSIVE lock context s);
       s \<leftarrow> LockingEnd s;
       Some (lock, s)
     }"

definition ResourceUnlockShared ::
    "'a wake \<Rightarrow> RESOURCE \<Rightarrow> 'a sched_state_scheme \<Rightarrow> (RESOURCE \<times> 'a sched_state_scheme) option" where
  "ResourceUnlockShared wk lock s =
     do {
       let s = LockingStart s;
       (lock, s) \<leftarrow>
         (if re_State lock = RESOURCE_SHARED then
            (let lock = lock\<lparr>re_NumShared := re_NumShared lock - 1\<rparr>
             in if re_NumShared lock = 0 \<and> re_WaitingThreads lock \<noteq> [] then ResourceWakeThreads wk lock s
                else Some (lock, s))
          else None);
       s \<leftarrow> LockingEnd s;
       Some (lock, s)
     }"

definition ResourceUnlockExclusive ::
    "'a wake \<Rightarrow> RESOURCE \<Rightarrow> 'a sched_state_scheme \<Rightarrow> (RESOURCE \<times> 'a sched_state_scheme) option" where
  "ResourceUnlockExclusive wk lock s =
     do {
       let s = LockingStart s;
       ASSERT (re_NumShared lock = 0);
       (lock, s) \<leftarrow>
         (if re_State lock = RESOURCE_EXCLUSIVE then
            (if re_WaitingThreads lock = [] then Some (lock\<lparr>re_State := RESOURCE_SHARED\<rparr>, s)
             else ResourceWakeThreads wk lock s)
          else None);
       s \<leftarrow> LockingEnd s;
       Some (lock, s)
     }"

section \<open>The life of a thread\<close>

text \<open>The lock is part of the thread: an operation on it is read from and written back to the table.\<close>

definition on_result_lock ::
    "addr \<Rightarrow> (RESOURCE \<Rightarrow> 'a sched_state_scheme \<Rightarrow> (RESOURCE \<times> 'a sched_state_scheme) option) \<Rightarrow>
     'a sched_state_scheme \<Rightarrow> 'a sched_state_scheme option" where
  "on_result_lock thread f s =
     do {
       (lock, s) \<leftarrow> f (th_ResultLock (Threads s thread)) s;
       Some (upd_thread thread (\<lambda>t. t\<lparr>th_ResultLock := lock\<rparr>) s)
     }"

text \<open>
  A thread that blocks in one of these calls goes on from there when it has been woken, so the code
  after a call that can block is a definition of its own, which runs at once if the call did not block.
  The end of a thread: the result says whether the machine was shut down;
  \<^verbatim>\<open>SchedulerForceSwitch\<close> does not return to a thread that is done.
\<close>

definition SchedulerThreadDone :: "addr \<Rightarrow> 'a sched_state_scheme \<Rightarrow> (bool \<times> 'a sched_state_scheme) option" where
  "SchedulerThreadDone thread s =
     do {
       let s = SchedulerStartCritical s;
       let s = upd_thread thread (\<lambda>t. t\<lparr>th_State := THREAD_STATE_DONE\<rparr>) s;
       let s = s\<lparr>RunningThreads := RunningThreads s - 1\<rparr>;
       (if Shutdown s \<and> RunningThreads s = 1 then Some (True, s)
        else do { s \<leftarrow> SchedulerForceSwitch s; Some (False, s) })
     }"

text \<open>\<open>main\<close> is the code of the threads, up to its return. The result is \<open>None\<close> when the
  thread waits for the users of its result.\<close>

definition SchedulerThreadStartup ::
    "(nat \<Rightarrow> ptr \<Rightarrow> 'a sched_state_scheme \<Rightarrow> (ptr \<times> 'a sched_state_scheme) option) \<Rightarrow> 'a wake \<Rightarrow> addr \<Rightarrow>
     'a sched_state_scheme \<Rightarrow> (bool option \<times> 'a sched_state_scheme) option" where
  "SchedulerThreadStartup main wk thread s =
     do {
       ASSERT (SchedulerGetActiveThread s = thread);
       AssertCritical s;
       ASSERT (MutexIsLocked (SchedulerMutex s));
       s \<leftarrow> HandlerFinish sched_complete SchedulerCritObject s;
       s \<leftarrow> SchedulerEndCritical s;
       AssertNotCritical s;
       foo \<leftarrow> th_Main (Threads s thread);
       (result, s) \<leftarrow> main foo (th_Argument (Threads s thread)) s;
       let s = upd_thread thread (\<lambda>t. t\<lparr>th_Result := result\<rparr>) s;
       s \<leftarrow> on_result_lock thread (ResourceUnlockExclusive wk) s;
       s \<leftarrow> on_result_lock thread (\<lambda>lock. ResourceLockExclusive wk lock NULL) s;
       (if waiting (ThreadContext thread) s then Some (None, s)
        else do { (off, s) \<leftarrow> SchedulerThreadDone thread s; Some (Some off, s) })
     }"

text \<open>Joining: the caller gets the result, or \<open>None\<close> when it has to wait for the thread to end and
  reads the result then.\<close>

definition SchedulerJoinThread ::
    "'a wake \<Rightarrow> addr \<Rightarrow> 'a sched_state_scheme \<Rightarrow> (ptr option \<times> 'a sched_state_scheme) option" where
  "SchedulerJoinThread wk thread s =
     do {
       s \<leftarrow> on_result_lock thread (\<lambda>lock. ResourceLockShared wk lock NULL) s;
       (if waiting (ThreadContext (ActiveThread s)) s then Some (None, s)
        else Some (Some (th_Result (Threads s thread)), s))
     }"

definition SchedulerReleaseThread :: "'a wake \<Rightarrow> addr \<Rightarrow> 'a sched_state_scheme \<Rightarrow> 'a sched_state_scheme option" where
  "SchedulerReleaseThread wk thread s = on_result_lock thread (ResourceUnlockShared wk) s"

section \<open>Waking the waiters\<close>

abbreviation wants :: "'a sched_state_scheme \<Rightarrow> lctx \<Rightarrow> RESOURCE_STATE" where
  "wants s c \<equiv> lc_BlockingContext (Contexts s c)"

text \<open>Those at the head of the queue that can hold the lock together.\<close>

definition admitted :: "'a sched_state_scheme \<Rightarrow> lctx list \<Rightarrow> lctx list" where
  "admitted s q = (case q of [] \<Rightarrow> []
     | c # _ \<Rightarrow> if wants s c = RESOURCE_EXCLUSIVE then [c] else takeWhile (\<lambda>c. wants s c = RESOURCE_SHARED) q)"

definition woke :: "lctx list \<Rightarrow> 'a sched_state_scheme \<Rightarrow> 'a sched_state_scheme \<Rightarrow> bool" where
  "woke cs s s' \<longleftrightarrow> in_crit s' \<and> sched_ok s' \<and> woke_frame s s' \<and>
     Contexts s' = (\<lambda>c. if c \<in> set cs then woken_context c (Contexts s c) else Contexts s c) \<and>
     RunQueue s' = RunQueue s @ concat (map woken_threads cs)"

lemma wake_one:
  assumes "in_crit s" and "sched_ok s" and "wakeable c s"
  shows "\<exists>s'. LockingAcquire wk (Some c) s = Some s' \<and> woke [c] s s' \<and> (\<forall>d. d \<noteq> c \<longrightarrow> wakeable d s' = wakeable d s)"
  using wakeable_step [of s c wk] assms by (auto simp: woke_def fun_eq_iff)

lemma woke_trans:
  assumes "woke [c] s s1" and "woke cs s1 s2" and "c \<notin> set cs"
  shows "woke (c # cs) s s2"
proof -
  have "Contexts s2 = (\<lambda>d. if d \<in> set (c # cs) then woken_context d (Contexts s d) else Contexts s d)"
    using assms by (auto simp: woke_def fun_eq_iff)
  then show ?thesis using assms irq_same_trans by (auto simp: woke_def woke_frame_def)
qed

lemma wake_loop_shared:
  "in_crit s \<Longrightarrow> sched_ok s \<Longrightarrow> distinct W \<Longrightarrow> \<forall>c\<in>set W. wakeable c s \<Longrightarrow> re_WaitingThreads lock = W \<Longrightarrow>
   unat (re_NumShared lock) + length W < 2 ^ 64 \<Longrightarrow> re_NumShared lock \<noteq> 0 \<Longrightarrow> re_State lock = RESOURCE_SHARED \<Longrightarrow>
   p = takeWhile (\<lambda>c. wants s c = RESOURCE_SHARED) W \<Longrightarrow>
   \<exists>s'. ResourceWakeLoop wk W lock s =
       Some (lock\<lparr>re_NumShared := re_NumShared lock + of_nat (length p), re_WaitingThreads := drop (length p) W\<rparr>, s') \<and>
     woke p s s'"
proof (induction W arbitrary: lock s p)
  case Nil
  have "lock\<lparr>re_NumShared := re_NumShared lock, re_WaitingThreads := []\<rparr> = lock" using Nil.prems(5) by simp
  then show ?case using Nil by (simp add: woke_def woke_frame_def)
next
  case (Cons c W)
  show ?case
  proof (cases "wants s c")
    case RESOURCE_SHARED
    obtain s1 where s1: "LockingAcquire wk (Some c) s = Some s1" "woke [c] s s1"
        "\<forall>d. d \<noteq> c \<longrightarrow> wakeable d s1 = wakeable d s"
      using wake_one [OF Cons.prems(1,2), of c wk] Cons.prems(4) by auto
    let ?l = "lock\<lparr>re_NumShared := re_NumShared lock + 1, re_State := RESOURCE_SHARED, re_WaitingThreads := W\<rparr>"
    have c1: "in_crit s1" "sched_ok s1" using s1(2) by (simp_all add: woke_def)
    have suc: "unat (re_NumShared lock + 1) = unat (re_NumShared lock) + 1"
      by (rule unat_Suc_word) (use Cons.prems(6) in simp)
    then have n0: "re_NumShared lock + 1 \<noteq> 0" by (metis add_is_0 unat_0 zero_neq_one)
    have w1: "\<forall>d\<in>set W. wakeable d s1" using Cons.prems(3,4) s1(3) by auto
    define p1 where "p1 = takeWhile (\<lambda>c. wants s1 c = RESOURCE_SHARED) W"
    have "wants s1 d = wants s d" for d using s1(2) by (simp add: woke_def woken_context_def)
    then have p: "p = c # p1" using Cons.prems(9) RESOURCE_SHARED by (simp add: p1_def)
    obtain s' where s': "ResourceWakeLoop wk W ?l s1 =
        Some (?l\<lparr>re_NumShared := re_NumShared ?l + of_nat (length p1), re_WaitingThreads := drop (length p1) W\<rparr>, s')"
        "woke p1 s1 s'"
      using Cons.IH [OF c1 _ w1, of ?l p1] Cons.prems(3,6) suc n0 p1_def by auto
    have cp: "c \<notin> set p1" using Cons.prems(3) set_takeWhileD [of c _ W] by (auto simp: p1_def)
    have "?l\<lparr>re_NumShared := re_NumShared ?l + of_nat (length p1), re_WaitingThreads := drop (length p1) W\<rparr> =
        lock\<lparr>re_NumShared := re_NumShared lock + of_nat (length p), re_WaitingThreads := drop (length p) (c # W)\<rparr>"
      using Cons.prems(8) p by (cases lock) (simp add: ac_simps)
    then show ?thesis
      using RESOURCE_SHARED s1(1) s'(1) woke_trans [OF s1(2) s'(2) cp] p by simp
  next
    case RESOURCE_EXCLUSIVE
    have "lock\<lparr>re_NumShared := re_NumShared lock, re_WaitingThreads := c # W\<rparr> = lock" using Cons.prems(5) by simp
    then show ?thesis using RESOURCE_EXCLUSIVE Cons.prems by (simp add: woke_def woke_frame_def)
  qed
qed

lemma ResourceWakeThreads_ok:
  assumes "in_crit s" and "sched_ok s" and "distinct W" and "\<forall>c\<in>set W. wakeable c s" and W: "re_WaitingThreads lock = W"
    and "length W < 2 ^ 64" and "re_NumShared lock = 0" and ne: "W \<noteq> []"
  shows "\<exists>s'. ResourceWakeThreads wk lock s =
      Some (lock\<lparr>re_State := wants s (hd W), re_WaitingThreads := drop (length (admitted s W)) W,
        re_NumShared := (if wants s (hd W) = RESOURCE_SHARED then of_nat (length (admitted s W)) else 0)\<rparr>, s') \<and>
     woke (admitted s W) s s'"
proof -
  obtain c q where cq: "W = c # q" using ne by (cases W) auto
  obtain s1 where s1: "LockingAcquire wk (Some c) s = Some s1" "woke [c] s s1" "\<forall>d. d \<noteq> c \<longrightarrow> wakeable d s1 = wakeable d s"
    using wake_one [OF assms(1,2), of c wk] assms(4) cq by auto
  show ?thesis
  proof (cases "wants s c")
    case RESOURCE_EXCLUSIVE
    have "lock\<lparr>re_WaitingThreads := q, re_State := RESOURCE_EXCLUSIVE\<rparr> =
        lock\<lparr>re_State := RESOURCE_EXCLUSIVE, re_WaitingThreads := q, re_NumShared := 0\<rparr>"
      using assms(7) by (cases lock) simp
    then show ?thesis
      using RESOURCE_EXCLUSIVE s1 cq assms(7) W by (simp add: ResourceWakeThreads_def admitted_def)
  next
    case RESOURCE_SHARED
    let ?l = "lock\<lparr>re_NumShared := 1, re_State := RESOURCE_SHARED, re_WaitingThreads := q\<rparr>"
    define p1 where "p1 = takeWhile (\<lambda>c. wants s1 c = RESOURCE_SHARED) q"
    have c1: "in_crit s1" "sched_ok s1" using s1(2) by (simp_all add: woke_def)
    have w1: "\<forall>d\<in>set q. wakeable d s1" using assms(3,4) s1(3) cq by auto
    obtain s' where s': "ResourceWakeLoop wk q ?l s1 =
        Some (?l\<lparr>re_NumShared := re_NumShared ?l + of_nat (length p1), re_WaitingThreads := drop (length p1) q\<rparr>, s')"
        "woke p1 s1 s'"
      using wake_loop_shared [OF c1 _ w1, of ?l p1 wk] assms(3,6) cq p1_def by auto
    have "wants s1 d = wants s d" for d using s1(2) by (simp add: woke_def woken_context_def)
    then have p: "admitted s W = c # p1" using RESOURCE_SHARED cq by (simp add: p1_def admitted_def)
    have cp: "c \<notin> set p1" using assms(3) cq set_takeWhileD [of c _ q] by (auto simp: p1_def)
    have eq: "?l\<lparr>re_NumShared := re_NumShared ?l + of_nat (length p1), re_WaitingThreads := drop (length p1) q\<rparr> =
        lock\<lparr>re_State := wants s (hd W), re_WaitingThreads := drop (length (admitted s W)) W,
          re_NumShared := (if wants s (hd W) = RESOURCE_SHARED then of_nat (length (admitted s W)) else 0)\<rparr>"
      unfolding p using RESOURCE_SHARED by (cases lock) (simp add: cq)
    have "ResourceWakeThreads wk lock s = ResourceWakeLoop wk q ?l s1"
      using RESOURCE_SHARED s1(1) cq assms(7) W by (simp add: ResourceWakeThreads_def)
    then show ?thesis
      using s'(1) woke_trans [OF s1(2) s'(2) cp] unfolding eq p by simp
  qed
qed

section \<open>The invariant of the lock\<close>

text \<open>
  \<open>res_ok\<close>: nobody holds the lock shared while it is exclusive; a free lock has no waiters; and the
  first waiter of a shared lock wants it exclusively.
\<close>

definition res_ok :: "RESOURCE \<Rightarrow> 'a sched_state_scheme \<Rightarrow> bool" where
  "res_ok lock s \<longleftrightarrow> parked_ok (re_WaitingThreads lock) s \<and> length (re_WaitingThreads lock) < 2 ^ 64 \<and>
     (re_State lock = RESOURCE_EXCLUSIVE \<longrightarrow> re_NumShared lock = 0) \<and>
     (re_State lock = RESOURCE_SHARED \<and> re_NumShared lock = 0 \<longrightarrow> re_WaitingThreads lock = []) \<and>
     (re_State lock = RESOURCE_SHARED \<and> re_WaitingThreads lock \<noteq> [] \<longrightarrow>
        wants s (hd (re_WaitingThreads lock)) = RESOURCE_EXCLUSIVE)"

lemma resource_block_ok:
  assumes "outside s" and "parked_ok (re_WaitingThreads lock) s" and "may_wait c s"
  shows "\<exists>s1 s'. resource_block kind lock c (LockingStart s) =
       Some (lock\<lparr>re_WaitingThreads := re_WaitingThreads lock @ [ctx_of c s]\<rparr>, s1) \<and>
     LockingEnd s1 = Some s' \<and> outside s' \<and> parked_ok (re_WaitingThreads lock @ [ctx_of c s]) s' \<and>
     (\<forall>d. wants s' d = (if d = ctx_of c s then kind else wants s d))"
proof -
  obtain s1 s' where b: "LockingBlock (Some kind) c (LockingStart s) = Some (ctx_of c s, s1)" "LockingEnd s1 = Some s'" "outside s'"
     "Contexts s' = (Contexts s)(ctx_of c s := blocked_as (Some kind) (Contexts s (ctx_of c s)))"
    using block_section [OF assms(1,3), of "Some kind"] by blast
  show ?thesis
    using b parked_ok_block(1) [OF assms(2,3) b(4)] may_wait_fresh(2) [OF assms(2,3)]
    by (simp add: resource_block_def blocked_as_def)
qed

text \<open>What a lock operation of the given kind does: it is granted at once, or it joins the queue.\<close>

definition lock_outcome ::
    "RESOURCE_STATE \<Rightarrow> lctx \<Rightarrow> RESOURCE \<Rightarrow> 'a sched_state_scheme \<Rightarrow> RESOURCE \<Rightarrow> 'a sched_state_scheme \<Rightarrow> bool" where
  "lock_outcome kind c lock s lock' s' \<longleftrightarrow> outside s' \<and> res_ok lock' s' \<and>
     (if re_WaitingThreads lock = [] \<and> re_State lock = RESOURCE_SHARED \<and> (kind = RESOURCE_SHARED \<or> re_NumShared lock = 0)
      then \<not> waiting c s' \<and> lock' = lock\<lparr>re_State := kind, re_NumShared := (if kind = RESOURCE_SHARED then re_NumShared lock + 1 else 0)\<rparr>
      else waiting c s' \<and> wants s' c = kind \<and> lock' = lock\<lparr>re_WaitingThreads := re_WaitingThreads lock @ [c]\<rparr>)"

lemma resource_lock_ok:
  assumes "outside s" and ok: "res_ok lock s" and may: "may_wait c s" and room: "length (re_WaitingThreads lock) + 1 < 2 ^ 64"
    and ns: "re_NumShared lock + 1 \<noteq> 0"
    and op: "op = (case kind of RESOURCE_SHARED \<Rightarrow> ResourceLockShared wk lock c s | RESOURCE_EXCLUSIVE \<Rightarrow> ResourceLockExclusive wk lock c s)"
  shows "\<exists>lock' s'. op = Some (lock', s') \<and> lock_outcome kind (ctx_of c s) lock s lock' s'"
proof -
  have p: "parked_ok (re_WaitingThreads lock) s" using ok by (simp add: res_ok_def)
  obtain b1 b2 where b: "resource_block kind lock c (LockingStart s) =
       Some (lock\<lparr>re_WaitingThreads := re_WaitingThreads lock @ [ctx_of c s]\<rparr>, b1)" "LockingEnd b1 = Some b2" "outside b2"
     "parked_ok (re_WaitingThreads lock @ [ctx_of c s]) b2" "\<forall>d. wants b2 d = (if d = ctx_of c s then kind else wants s d)"
    using resource_block_ok [OF assms(1) p may] by blast
  obtain a1 a2 where a: "LockingAcquire wk c (LockingStart s) = Some a1" "LockingEnd a1 = Some a2" "outside a2"
     "Contexts a2 = (Contexts s)(ctx_of c s := (Contexts s (ctx_of c s))\<lparr>lc_State := acquired_state (ctx_of c s)\<rparr>)"
    using acquire_section [OF assms(1) may, of wk] by blast
  have a5: "\<not> waiting (ctx_of c s) a2" using parked_ok_acquire(2) [OF p may a(4)] .
  let ?now = "re_WaitingThreads lock = [] \<and> re_State lock = RESOURCE_SHARED \<and> (kind = RESOURCE_SHARED \<or> re_NumShared lock = 0)"
  show ?thesis
  proof (cases ?now)
    case True
    let ?l = "lock\<lparr>re_State := kind, re_NumShared := (if kind = RESOURCE_SHARED then re_NumShared lock + 1 else 0)\<rparr>"
    have "op = Some (?l, a2)"
      using True a(1,2) by (cases kind; cases lock) (simp_all add: op ResourceLockShared_def ResourceLockExclusive_def)
    moreover have "res_ok ?l a2" using True ns by (simp add: res_ok_def parked_ok_def)
    ultimately show ?thesis using True a(3) a5 by (auto simp: lock_outcome_def)
  next
    case False
    let ?l = "lock\<lparr>re_WaitingThreads := re_WaitingThreads lock @ [ctx_of c s]\<rparr>"
    have "op = Some (?l, b2)"
      using False b(1,2) by (cases kind; cases "re_State lock")
        (auto simp: op ResourceLockShared_def ResourceLockExclusive_def Let_def)
    moreover have "res_ok ?l b2"
    proof -
      have "ctx_of c s \<notin> set (re_WaitingThreads lock)" by (rule may_wait_fresh(1) [OF p may])
      then have "wants b2 (hd (re_WaitingThreads lock @ [ctx_of c s])) = RESOURCE_EXCLUSIVE" if "re_State lock = RESOURCE_SHARED"
        using that False ok b(5) by (cases "re_WaitingThreads lock"; cases kind) (auto simp: res_ok_def)
      then show ?thesis using False ok b(4) room by (auto simp: res_ok_def)
    qed
    moreover have "waiting (ctx_of c s) b2" using b(4) by (simp add: parked_ok_def)
    ultimately show ?thesis using False b(3,5) by (auto simp: lock_outcome_def)
  qed
qed

section \<open>Releasing the lock\<close>

lemma admitted_prefix: "W = admitted s W @ drop (length (admitted s W)) W"
proof (cases W)
  case (Cons c q)
  then show ?thesis
    using takeWhile_dropWhile_id [of "\<lambda>c. wants s c = RESOURCE_SHARED" W]
    by (auto simp: admitted_def dropWhile_eq_drop)
qed (simp add: admitted_def)

lemma admitted_kind: "c \<in> set (admitted s W) \<Longrightarrow> wants s c = wants s (hd W)"
  by (cases W; cases "wants s (hd W)") (auto simp: admitted_def dest: set_takeWhileD split: if_splits)

lemma admitted_rest:
  assumes "wants s (hd W) = RESOURCE_SHARED" and "drop (length (admitted s W)) W \<noteq> []"
  shows "wants s (hd (drop (length (admitted s W)) W)) = RESOURCE_EXCLUSIVE"
proof -
  let ?P = "\<lambda>c. wants s c = RESOURCE_SHARED"
  have "W \<noteq> []" using assms(2) by auto
  then have "admitted s W = takeWhile ?P W" using assms(1) by (cases W) (simp_all add: admitted_def)
  then have "drop (length (admitted s W)) W = dropWhile ?P W" by (simp add: dropWhile_eq_drop)
  then show ?thesis using assms(2) hd_dropWhile [of ?P W] by (cases "wants s (hd (dropWhile ?P W))") auto
qed

text \<open>The lock after its first waiters have been admitted.\<close>

definition handed_over :: "'a sched_state_scheme \<Rightarrow> RESOURCE \<Rightarrow> RESOURCE" where
  "handed_over s lock = (let W = re_WaitingThreads lock in
     lock\<lparr>re_State := wants s (hd W), re_WaitingThreads := drop (length (admitted s W)) W,
        re_NumShared := (if wants s (hd W) = RESOURCE_SHARED then of_nat (length (admitted s W)) else 0)\<rparr>)"

lemma hand_over_section:
  assumes "outside s" and p: "parked_ok W s" and "caller_runs s" and W: "re_WaitingThreads lock = W"
    and room: "length W < 2 ^ 64" and n0: "re_NumShared lock = 0" and ne: "W \<noteq> []"
  shows "\<exists>s1 s'. ResourceWakeThreads wk lock (LockingStart s) = Some (handed_over s lock, s1) \<and> LockingEnd s1 = Some s' \<and>
     outside s' \<and> res_ok (handed_over s lock) s' \<and> Contexts s' =
       (\<lambda>c. if c \<in> set (admitted s W) then woken_context c (Contexts s c) else Contexts s c)"
proof -
  note st = LockingStart_ok [OF assms(1)]
  have w: "distinct W" "\<forall>c\<in>set W. wakeable c (LockingStart s)" using parked_wakeable [OF p assms(3)] st(6) by simp_all
  have v: "wants (LockingStart s) = wants s" "Contexts (LockingStart s) = Contexts s" using st(3) by (simp_all add: same_view_def)
  have adm: "admitted (LockingStart s) W = admitted s W" unfolding admitted_def v(2) ..
  obtain s1 where s1: "ResourceWakeThreads wk lock (LockingStart s) = Some (handed_over s lock, s1)"
      "woke (admitted s W) (LockingStart s) s1"
    using ResourceWakeThreads_ok [OF st(1,2) w W room n0 ne, of wk] unfolding adm v(2)
    by (auto simp: handed_over_def Let_def W)
  then obtain s' where s': "LockingEnd s1 = Some s'" "outside s'" "same_view s1 s'"
    using LockingEnd_ok [OF assms(1), of s1] by (auto simp: woke_def woke_frame_def)
  have ctx: "Contexts s' = (\<lambda>c. if c \<in> set (admitted s W) then woken_context c (Contexts s c) else Contexts s c)"
    using s1(2) s'(3) unfolding woke_def same_view_def v(2) by simp
  have kinds: "wants s' c = wants s c" for c by (simp add: ctx woken_context_def)
  have "parked_ok (drop (length (admitted s W)) W) s'"
    by (rule parked_ok_woken(1) [OF _ ctx]) (use p admitted_prefix [of W s] in simp)
  moreover have len: "length (admitted s W) < 2 ^ 64"
    using room admitted_prefix [of W s] by (metis le_add1 le_less_trans length_append)
  moreover have "admitted s W \<noteq> []" using ne by (cases W) (auto simp: admitted_def, metis RESOURCE_STATE.exhaust)
  then have "of_nat (length (admitted s W)) \<noteq> (0 :: COUNT)"
    using len by (auto simp: word_of_nat_eq_0_iff dest: dvd_imp_le)
  ultimately have "res_ok (handed_over s lock) s'"
    using room admitted_rest [of s W] unfolding res_ok_def kinds handed_over_def Let_def W by auto
  then show ?thesis using s1(1) s'(1,2) ctx by blast
qed

lemma ResourceUnlockShared_ok:
  assumes "outside s" and ok: "res_ok lock s" and run: "caller_runs s"
    and st: "re_State lock = RESOURCE_SHARED" and ns: "re_NumShared lock \<noteq> 0"
  shows "\<exists>lock' s'. ResourceUnlockShared wk lock s = Some (lock', s') \<and> outside s' \<and> res_ok lock' s' \<and>
     (if re_NumShared lock = 1 \<and> re_WaitingThreads lock \<noteq> [] then
        lock' = handed_over s (lock\<lparr>re_NumShared := 0\<rparr>) \<and> Contexts s' =
          (\<lambda>c. if c \<in> set (admitted s (re_WaitingThreads lock)) then woken_context c (Contexts s c) else Contexts s c)
      else lock' = lock\<lparr>re_NumShared := re_NumShared lock - 1\<rparr> \<and> Contexts s' = Contexts s)"
proof -
  have o: "parked_ok (re_WaitingThreads lock) s" "length (re_WaitingThreads lock) < 2 ^ 64" using ok by (simp_all add: res_ok_def)
  show ?thesis
  proof (cases "re_NumShared lock = 1 \<and> re_WaitingThreads lock \<noteq> []")
    case True
    then show ?thesis
      using hand_over_section [OF assms(1) o(1) run, of "lock\<lparr>re_NumShared := 0\<rparr>" wk] o(2) st
      by (auto simp: ResourceUnlockShared_def)
  next
    case False
    obtain s' where s': "LockingEnd (LockingStart s) = Some s'" "outside s'" "same_view s s'"
      using empty_section [OF assms(1)] by blast
    have "re_NumShared lock - 1 = 0 \<longleftrightarrow> re_NumShared lock = 1" by auto
    then show ?thesis
      using False s' st ns ok by (auto simp: ResourceUnlockShared_def res_ok_def parked_ok_def same_view_def Let_def)
  qed
qed

lemma ResourceUnlockExclusive_ok:
  assumes "outside s" and ok: "res_ok lock s" and run: "caller_runs s" and st: "re_State lock = RESOURCE_EXCLUSIVE"
  shows "\<exists>lock' s'. ResourceUnlockExclusive wk lock s = Some (lock', s') \<and> outside s' \<and> res_ok lock' s' \<and>
     (if re_WaitingThreads lock \<noteq> [] then
        lock' = handed_over s lock \<and> Contexts s' =
          (\<lambda>c. if c \<in> set (admitted s (re_WaitingThreads lock)) then woken_context c (Contexts s c) else Contexts s c)
      else lock' = lock\<lparr>re_State := RESOURCE_SHARED\<rparr> \<and> Contexts s' = Contexts s)"
proof -
  have o: "parked_ok (re_WaitingThreads lock) s" "length (re_WaitingThreads lock) < 2 ^ 64" "re_NumShared lock = 0"
    using ok st by (simp_all add: res_ok_def)
  show ?thesis
  proof (cases "re_WaitingThreads lock = []")
    case False
    then show ?thesis
      using hand_over_section [OF assms(1) o(1) run, of lock wk] o st
      by (auto simp: ResourceUnlockExclusive_def)
  next
    case True
    obtain s' where s': "LockingEnd (LockingStart s) = Some s'" "outside s'" "same_view s s'"
      using empty_section [OF assms(1)] by blast
    then show ?thesis
      using True st o ok by (auto simp: ResourceUnlockExclusive_def res_ok_def parked_ok_def same_view_def)
  qed
qed

section \<open>Mutual exclusion\<close>

text \<open>The waiters of a kind that an operation has woken.\<close>

definition newly :: "RESOURCE_STATE \<Rightarrow> lctx list \<Rightarrow> 'a sched_state_scheme \<Rightarrow> 'a sched_state_scheme \<Rightarrow> nat" where
  "newly kind W s s' = length (filter (\<lambda>c. \<not> waiting c s' \<and> wants s c = kind) W)"

text \<open>
  Runs of a resource: \<open>ex\<close> counts those that hold it exclusively, \<open>sh\<close> those that hold it
  shared, both by what the callers see. Only a holder unlocks. Between the calls the rest of the kernel
  may do anything but touch the waiters of the resource.
\<close>

inductive res_run :: "'a wake \<Rightarrow> RESOURCE \<Rightarrow> 'a sched_state_scheme \<Rightarrow> nat \<Rightarrow> nat \<Rightarrow> bool" for wk where
  res_start: "outside s \<Longrightarrow> res_run wk (ResourceInit lock st) s (if st = RESOURCE_EXCLUSIVE then 1 else 0) 0"
| res_shared: "res_run wk lock s ex sh \<Longrightarrow> may_wait c s \<Longrightarrow> sh + length (re_WaitingThreads lock) + 1 < 2 ^ 64 \<Longrightarrow>
    ResourceLockShared wk lock c s = Some (lock', s') \<Longrightarrow>
    res_run wk lock' s' ex (if waiting (ctx_of c s) s' then sh else sh + 1)"
| res_exclusive: "res_run wk lock s ex sh \<Longrightarrow> may_wait c s \<Longrightarrow> sh + length (re_WaitingThreads lock) + 1 < 2 ^ 64 \<Longrightarrow>
    ResourceLockExclusive wk lock c s = Some (lock', s') \<Longrightarrow>
    res_run wk lock' s' (if waiting (ctx_of c s) s' then ex else ex + 1) sh"
| res_unshare: "res_run wk lock s ex sh \<Longrightarrow> caller_runs s \<Longrightarrow> 0 < sh \<Longrightarrow> ResourceUnlockShared wk lock s = Some (lock', s') \<Longrightarrow>
    res_run wk lock' s' (ex + newly RESOURCE_EXCLUSIVE (re_WaitingThreads lock) s s')
      (sh - 1 + newly RESOURCE_SHARED (re_WaitingThreads lock) s s')"
| res_unlock: "res_run wk lock s ex sh \<Longrightarrow> caller_runs s \<Longrightarrow> 0 < ex \<Longrightarrow> ResourceUnlockExclusive wk lock s = Some (lock', s') \<Longrightarrow>
    res_run wk lock' s' (ex - 1 + newly RESOURCE_EXCLUSIVE (re_WaitingThreads lock) s s')
      (sh + newly RESOURCE_SHARED (re_WaitingThreads lock) s s')"
| res_other: "res_run wk lock s ex sh \<Longrightarrow> outside s' \<Longrightarrow>
    \<forall>c\<in>set (re_WaitingThreads lock). waiting c s' \<and> wants s' c = wants s c \<Longrightarrow> res_run wk lock s' ex sh"

definition res_inv :: "RESOURCE \<Rightarrow> 'a sched_state_scheme \<Rightarrow> nat \<Rightarrow> nat \<Rightarrow> bool" where
  "res_inv lock s ex sh \<longleftrightarrow> outside s \<and> res_ok lock s \<and> sh + length (re_WaitingThreads lock) < 2 ^ 64 \<and>
     unat (re_NumShared lock) = sh \<and> ex = (if re_State lock = RESOURCE_EXCLUSIVE then 1 else 0)"

lemma newly_none:
  assumes "parked_ok W s" and "Contexts s' = Contexts s"
  shows "newly kind W s s' = 0"
  using assms by (simp add: newly_def parked_ok_def filter_empty_conv)

lemma newly_admitted:
  assumes p: "parked_ok W s" and ctx: "Contexts s' = (\<lambda>c. if c \<in> set (admitted s W) then woken_context c (Contexts s c) else Contexts s c)"
  shows "newly kind W s s' = (if wants s (hd W) = kind then length (admitted s W) else 0)"
proof -
  let ?P = "\<lambda>c. \<not> waiting c s' \<and> wants s c = kind" and ?a = "admitted s W" and ?r = "drop (length (admitted s W)) W"
  have split: "W = ?a @ ?r" by (rule admitted_prefix)
  have d: "distinct (?a @ ?r)" "\<forall>c\<in>set (?a @ ?r). waiting c s" using p split by (simp_all add: parked_ok_def)
  have "?P c \<longleftrightarrow> wants s (hd W) = kind" if "c \<in> set ?a" for c
    using that admitted_kind [OF that] by (simp add: ctx woken_context_def)
  then have 1: "filter ?P ?a = (if wants s (hd W) = kind then ?a else [])" by (auto simp: filter_id_conv filter_empty_conv)
  have 2: "filter ?P ?r = []" using d by (auto simp: filter_empty_conv ctx)
  have "newly kind W s s' = length (filter ?P ?a) + length (filter ?P ?r)"
    unfolding newly_def by (subst split) (simp only: filter_append length_append)
  then show ?thesis unfolding 1 2 by simp
qed

lemma admitted_exclusive: "wants s (hd W) = RESOURCE_EXCLUSIVE \<Longrightarrow> W \<noteq> [] \<Longrightarrow> length (admitted s W) = 1"
  by (cases W) (simp_all add: admitted_def)

lemma res_inv_handed:
  assumes "outside s'" and "res_ok (handed_over s lock) s'" and p: "parked_ok W s" and W: "re_WaitingThreads lock = W"
    and ctx: "Contexts s' = (\<lambda>c. if c \<in> set (admitted s W) then woken_context c (Contexts s c) else Contexts s c)"
    and room: "length W < 2 ^ 64" and ne: "W \<noteq> []"
  shows "res_inv (handed_over s lock) s' (newly RESOURCE_EXCLUSIVE W s s') (newly RESOURCE_SHARED W s s')"
proof -
  have len: "length (admitted s W) + length (drop (length (admitted s W)) W) = length W"
    using admitted_prefix [of W s] by (metis length_append)
  then have "unat (of_nat (length (admitted s W)) :: COUNT) = length (admitted s W)"
    using room by (simp add: unat_of_nat take_bit_eq_mod)
  then show ?thesis
    using assms(1,2) len room admitted_exclusive [of s W] ne newly_admitted [OF p ctx]
    by (cases "wants s (hd W)") (simp_all add: res_inv_def handed_over_def Let_def W)
qed

lemma res_inv_lock:
  assumes inv: "res_inv lock s ex sh" and may: "may_wait c s" and room: "sh + length (re_WaitingThreads lock) + 1 < 2 ^ 64"
    and out: "lock_outcome kind (ctx_of c s) lock s lock' s'"
  shows "res_inv lock' s' (if waiting (ctx_of c s) s' \<or> kind = RESOURCE_SHARED then ex else ex + 1)
     (if waiting (ctx_of c s) s' \<or> kind = RESOURCE_EXCLUSIVE then sh else sh + 1)"
proof -
  have i: "res_ok lock s" "unat (re_NumShared lock) = sh" "ex = (if re_State lock = RESOURCE_EXCLUSIVE then 1 else 0)"
    using inv by (simp_all add: res_inv_def)
  have "unat (re_NumShared lock + 1) = sh + 1"
    using unat_Suc_word [of "re_NumShared lock"] room i(2) by simp
  then show ?thesis
    using out i room unfolding lock_outcome_def res_inv_def by (cases kind) (auto split: if_splits simp: unat_eq_0)
qed

lemma res_inv_room: "res_inv lock s ex sh \<Longrightarrow> sh + length (re_WaitingThreads lock) + 1 < 2 ^ 64 \<Longrightarrow> re_NumShared lock + 1 \<noteq> 0"
  using unat_Suc_word [of "re_NumShared lock"] by (auto simp: res_inv_def)

lemma res_lock_step:
  assumes "res_inv lock s ex sh" and "may_wait c s" and "sh + length (re_WaitingThreads lock) + 1 < 2 ^ 64"
  shows "\<exists>lock' s'. ResourceLockShared wk lock c s = Some (lock', s') \<and> lock_outcome RESOURCE_SHARED (ctx_of c s) lock s lock' s'"
    "\<exists>lock' s'. ResourceLockExclusive wk lock c s = Some (lock', s') \<and> lock_outcome RESOURCE_EXCLUSIVE (ctx_of c s) lock s lock' s'"
proof -
  have o: "outside s" "res_ok lock s" "length (re_WaitingThreads lock) + 1 < 2 ^ 64"
    using assms(1,3) by (simp_all add: res_inv_def)
  note r = resource_lock_ok [OF o(1,2) assms(2) o(3) res_inv_room [OF assms(1,3)] refl, of wk]
  from r [of RESOURCE_SHARED]
  show "\<exists>lock' s'. ResourceLockShared wk lock c s = Some (lock', s') \<and> lock_outcome RESOURCE_SHARED (ctx_of c s) lock s lock' s'"
    by simp
  from r [of RESOURCE_EXCLUSIVE]
  show "\<exists>lock' s'. ResourceLockExclusive wk lock c s = Some (lock', s') \<and> lock_outcome RESOURCE_EXCLUSIVE (ctx_of c s) lock s lock' s'"
    by simp
qed

lemma res_unshare_step:
  assumes inv: "res_inv lock s ex sh" and run: "caller_runs s" and pos: "0 < sh"
  shows "\<exists>lock' s'. ResourceUnlockShared wk lock s = Some (lock', s') \<and>
     res_inv lock' s' (ex + newly RESOURCE_EXCLUSIVE (re_WaitingThreads lock) s s')
       (sh - 1 + newly RESOURCE_SHARED (re_WaitingThreads lock) s s')"
proof -
  have i: "outside s" "res_ok lock s" "unat (re_NumShared lock) = sh" "ex = (if re_State lock = RESOURCE_EXCLUSIVE then 1 else 0)"
    "sh + length (re_WaitingThreads lock) < 2 ^ 64" using inv by (simp_all add: res_inv_def)
  have ns: "re_NumShared lock \<noteq> 0" using pos i(3) by auto
  then have st: "re_State lock = RESOURCE_SHARED" using i(2) by (cases "re_State lock") (auto simp: res_ok_def)
  have p: "parked_ok (re_WaitingThreads lock) s" using i(2) by (simp add: res_ok_def)
  obtain lock' s' where u: "ResourceUnlockShared wk lock s = Some (lock', s')" "outside s'" "res_ok lock' s'"
     "if re_NumShared lock = 1 \<and> re_WaitingThreads lock \<noteq> [] then
        lock' = handed_over s (lock\<lparr>re_NumShared := 0\<rparr>) \<and> Contexts s' =
          (\<lambda>c. if c \<in> set (admitted s (re_WaitingThreads lock)) then woken_context c (Contexts s c) else Contexts s c)
      else lock' = lock\<lparr>re_NumShared := re_NumShared lock - 1\<rparr> \<and> Contexts s' = Contexts s"
    using ResourceUnlockShared_ok [OF i(1,2) run st ns, of wk] by blast
  show ?thesis
  proof (cases "re_NumShared lock = 1 \<and> re_WaitingThreads lock \<noteq> []")
    case True
    then have sh: "sh = 1" "ex = 0" using i(3,4) st by auto
    have "res_inv (handed_over s (lock\<lparr>re_NumShared := 0\<rparr>)) s' (newly RESOURCE_EXCLUSIVE (re_WaitingThreads lock) s s')
        (newly RESOURCE_SHARED (re_WaitingThreads lock) s s')"
      by (rule res_inv_handed [OF u(2) _ p]) (use True u(3,4) i(5) in auto)
    then show ?thesis using u(1,4) True sh by auto
  next
    case False
    then have l: "lock' = lock\<lparr>re_NumShared := re_NumShared lock - 1\<rparr>" "Contexts s' = Contexts s" using u(4) by auto
    show ?thesis
      using u(1-3) l(1) i st newly_none [OF p l(2)] unat_pred_word [OF ns] by (auto simp: res_inv_def)
  qed
qed

lemma res_unlock_step:
  assumes inv: "res_inv lock s ex sh" and run: "caller_runs s" and pos: "0 < ex"
  shows "\<exists>lock' s'. ResourceUnlockExclusive wk lock s = Some (lock', s') \<and>
     res_inv lock' s' (ex - 1 + newly RESOURCE_EXCLUSIVE (re_WaitingThreads lock) s s')
       (sh + newly RESOURCE_SHARED (re_WaitingThreads lock) s s')"
proof -
  have i: "outside s" "res_ok lock s" "unat (re_NumShared lock) = sh" "ex = (if re_State lock = RESOURCE_EXCLUSIVE then 1 else 0)"
    "sh + length (re_WaitingThreads lock) < 2 ^ 64" using inv by (simp_all add: res_inv_def)
  have st: "re_State lock = RESOURCE_EXCLUSIVE" "ex = 1" using pos i(4) by (auto split: if_splits)
  have p: "parked_ok (re_WaitingThreads lock) s" "sh = 0" using i(2,3) st by (auto simp: res_ok_def)
  obtain lock' s' where u: "ResourceUnlockExclusive wk lock s = Some (lock', s')" "outside s'" "res_ok lock' s'"
     "if re_WaitingThreads lock \<noteq> [] then
        lock' = handed_over s lock \<and> Contexts s' =
          (\<lambda>c. if c \<in> set (admitted s (re_WaitingThreads lock)) then woken_context c (Contexts s c) else Contexts s c)
      else lock' = lock\<lparr>re_State := RESOURCE_SHARED\<rparr> \<and> Contexts s' = Contexts s"
    using ResourceUnlockExclusive_ok [OF i(1,2) run st(1), of wk] by blast
  show ?thesis
  proof (cases "re_WaitingThreads lock = []")
    case False
    have "res_inv (handed_over s lock) s' (newly RESOURCE_EXCLUSIVE (re_WaitingThreads lock) s s')
        (newly RESOURCE_SHARED (re_WaitingThreads lock) s s')"
      by (rule res_inv_handed [OF u(2) _ p(1) refl]) (use False u(3,4) i(5) in auto)
    then show ?thesis using u(1,4) False st(2) p(2) by auto
  next
    case True
    then show ?thesis using u i st p(2) by (auto simp: res_inv_def newly_def)
  qed
qed

lemma res_run_invariant: "res_run wk lock s ex sh \<Longrightarrow> res_inv lock s ex sh"
proof (induction rule: res_run.induct)
  case (res_start s lock st)
  then show ?case by (simp add: res_inv_def ResourceInit_def res_ok_def parked_ok_def)
next
  case (res_shared lock s ex sh c lock' s')
  then show ?case
    using res_lock_step(1) [of lock s ex sh c wk] res_inv_lock [of lock s ex sh c RESOURCE_SHARED lock' s'] by simp
next
  case (res_exclusive lock s ex sh c lock' s')
  then show ?case
    using res_lock_step(2) [of lock s ex sh c wk] res_inv_lock [of lock s ex sh c RESOURCE_EXCLUSIVE lock' s'] by simp
next
  case (res_unshare lock s ex sh lock' s')
  then show ?case using res_unshare_step [of lock s ex sh wk] by simp
next
  case (res_unlock lock s ex sh lock' s')
  then show ?case using res_unlock_step [of lock s ex sh wk] by simp
next
  case (res_other lock s ex sh s')
  have "wants s' (hd (re_WaitingThreads lock)) = wants s (hd (re_WaitingThreads lock))" if "re_WaitingThreads lock \<noteq> []"
    using that res_other(3) by simp
  then show ?case using res_other by (auto simp: res_inv_def res_ok_def parked_ok_def)
qed

section \<open>Properties\<close>

text \<open>(C4) Mutual exclusion and progress of the resource lock. In every run at most one caller holds the
  lock exclusively, and then nobody holds it shared; the lock's own count is the number of its shared
  holders; when nobody holds it nobody waits for it; and none of the operations panics.\<close>

theorem resource_exclusion:
  assumes "res_run wk lock s ex sh"
  shows "ex \<le> 1 \<and> (ex = 1 \<longrightarrow> sh = 0) \<and> unat (re_NumShared lock) = sh \<and>
     (ex = 0 \<and> sh = 0 \<longrightarrow> re_WaitingThreads lock = []) \<and>
     (\<forall>c. may_wait c s \<and> sh + length (re_WaitingThreads lock) + 1 < 2 ^ 64 \<longrightarrow>
        ResourceLockShared wk lock c s \<noteq> None \<and> ResourceLockExclusive wk lock c s \<noteq> None) \<and>
     (caller_runs s \<and> 0 < sh \<longrightarrow> ResourceUnlockShared wk lock s \<noteq> None) \<and>
     (caller_runs s \<and> 0 < ex \<longrightarrow> ResourceUnlockExclusive wk lock s \<noteq> None)"
proof -
  have inv: "res_inv lock s ex sh" by (rule res_run_invariant [OF assms])
  then have i: "res_ok lock s" "unat (re_NumShared lock) = sh" "ex = (if re_State lock = RESOURCE_EXCLUSIVE then 1 else 0)"
    by (simp_all add: res_inv_def)
  have "ex = 0 \<and> sh = 0 \<longrightarrow> re_WaitingThreads lock = []"
    using i by (cases "re_State lock") (auto simp: res_ok_def unat_eq_0)
  moreover have "ex = 1 \<longrightarrow> sh = 0" using i by (auto simp: res_ok_def split: if_splits)
  moreover have "ResourceLockShared wk lock c s \<noteq> None \<and> ResourceLockExclusive wk lock c s \<noteq> None"
    if "may_wait c s \<and> sh + length (re_WaitingThreads lock) + 1 < 2 ^ 64" for c
    using res_lock_step [OF inv, of c wk] that by force
  moreover have "caller_runs s \<and> 0 < sh \<longrightarrow> ResourceUnlockShared wk lock s \<noteq> None"
    using res_unshare_step [OF inv, of wk] by force
  moreover have "caller_runs s \<and> 0 < ex \<longrightarrow> ResourceUnlockExclusive wk lock s \<noteq> None"
    using res_unlock_step [OF inv, of wk] by force
  ultimately show ?thesis using i(2,3) by simp
qed

text \<open>A lock that is held exclusively, and thread 1 asks for it.\<close>

lemma resource_witness_run:
  "\<exists>lock s. ResourceLockShared (\<lambda>_ _. None) (ResourceInit \<lparr>re_State = RESOURCE_SHARED, re_WaitingThreads = [], re_NumShared = 0\<rparr>
       RESOURCE_EXCLUSIVE) NULL sched1 = Some (lock, s) \<and> res_run (\<lambda>_ _. None) lock s 1 0"
proof -
  let ?l = "ResourceInit \<lparr>re_State = RESOURCE_SHARED, re_WaitingThreads = [], re_NumShared = 0\<rparr> RESOURCE_EXCLUSIVE"
  let ?w = "\<lambda>_ _. None :: sched_state option"
  have st: "res_run ?w ?l sched1 1 0" using res_start [OF outside_sched1, of ?w _ RESOURCE_EXCLUSIVE] by simp
  have room: "0 + length (re_WaitingThreads ?l) + 1 < 2 ^ 64" by (simp add: ResourceInit_def)
  obtain lock s where l: "ResourceLockShared ?w ?l NULL sched1 = Some (lock, s)"
      "lock_outcome RESOURCE_SHARED (ctx_of NULL sched1) ?l sched1 lock s"
    using res_lock_step(1) [OF res_run_invariant [OF st] may_wait_sched1(1) room, of ?w] by blast
  have "waiting (ctx_of NULL sched1) s" using l(2) by (simp add: lock_outcome_def ResourceInit_def)
  then show ?thesis using l(1) res_shared [OF st may_wait_sched1(1) room l(1)] by auto
qed

theorem resource_exclusion_witness:
  "\<exists>lock s. res_run (\<lambda>_ _. None) lock (s :: sched_state) 1 0 \<and> unat (re_NumShared lock) = 0 \<and>
     ResourceLockShared (\<lambda>_ _. None) (ResourceInit \<lparr>re_State = RESOURCE_SHARED, re_WaitingThreads = [], re_NumShared = 0\<rparr>
       RESOURCE_EXCLUSIVE) NULL sched1 = Some (lock, s)"
  using resource_witness_run resource_exclusion by metis

lemma joins_queue:
  assumes "outside s" and "res_ok lock s" and "may_wait c s" and "re_WaitingThreads lock \<noteq> []"
  shows "\<exists>lock' s'. ResourceLockShared wk lock c s = Some (lock', s') \<and>
     re_WaitingThreads lock' = re_WaitingThreads lock @ [ctx_of c s] \<and> waiting (ctx_of c s) s'"
    and "\<exists>lock' s'. ResourceLockExclusive wk lock c s = Some (lock', s') \<and>
     re_WaitingThreads lock' = re_WaitingThreads lock @ [ctx_of c s] \<and> waiting (ctx_of c s) s'"
proof -
  have p: "parked_ok (re_WaitingThreads lock) s" using assms(2) by (simp add: res_ok_def)
  note b = resource_block_ok [OF assms(1) p assms(3)]
  show "\<exists>lock' s'. ResourceLockShared wk lock c s = Some (lock', s') \<and>
     re_WaitingThreads lock' = re_WaitingThreads lock @ [ctx_of c s] \<and> waiting (ctx_of c s) s'"
    using b [of RESOURCE_SHARED] assms(4) by (auto simp: ResourceLockShared_def parked_ok_def)
  show "\<exists>lock' s'. ResourceLockExclusive wk lock c s = Some (lock', s') \<and>
     re_WaitingThreads lock' = re_WaitingThreads lock @ [ctx_of c s] \<and> waiting (ctx_of c s) s'"
    using b [of RESOURCE_EXCLUSIVE] assms(4) by (auto simp: ResourceLockExclusive_def parked_ok_def)
qed

text \<open>(C5) The resource lock hands over in order of arrival: an unlock that frees the lock wakes the first
  waiter if it wants the lock exclusively, and otherwise all the shared waiters before the next exclusive
  one; the others keep waiting in their order. A caller that comes while others wait joins the end of the
  queue, so no waiter is overtaken.\<close>

theorem resource_fifo:
  assumes "outside s" and "res_ok lock s" and "caller_runs s" and "re_WaitingThreads lock \<noteq> []"
    and "re_State lock = RESOURCE_EXCLUSIVE \<or> re_NumShared lock = 1"
  shows "(\<exists>lock' s'. (if re_State lock = RESOURCE_EXCLUSIVE then ResourceUnlockExclusive wk lock s
        else ResourceUnlockShared wk lock s) = Some (lock', s') \<and> outside s' \<and> res_ok lock' s' \<and>
     admitted s (re_WaitingThreads lock) \<noteq> [] \<and>
     re_WaitingThreads lock = admitted s (re_WaitingThreads lock) @ re_WaitingThreads lock' \<and>
     (\<forall>c\<in>set (admitted s (re_WaitingThreads lock)). \<not> waiting c s') \<and>
     (\<forall>c\<in>set (re_WaitingThreads lock'). waiting c s')) \<and>
   (\<forall>c. may_wait c s \<longrightarrow>
      (\<exists>lock' s'. ResourceLockShared wk lock c s = Some (lock', s') \<and>
         re_WaitingThreads lock' = re_WaitingThreads lock @ [ctx_of c s] \<and> waiting (ctx_of c s) s') \<and>
      (\<exists>lock' s'. ResourceLockExclusive wk lock c s = Some (lock', s') \<and>
         re_WaitingThreads lock' = re_WaitingThreads lock @ [ctx_of c s] \<and> waiting (ctx_of c s) s'))"
proof -
  let ?W = "re_WaitingThreads lock"
  have p: "parked_ok ?W s" using assms(2) by (simp add: res_ok_def)
  have ne: "admitted s ?W \<noteq> []" using assms(4) by (cases ?W) (auto simp: admitted_def, metis RESOURCE_STATE.exhaust)
  obtain lock' s' where u: "(if re_State lock = RESOURCE_EXCLUSIVE then ResourceUnlockExclusive wk lock s
        else ResourceUnlockShared wk lock s) = Some (lock', s')" "outside s'" "res_ok lock' s'"
      "re_WaitingThreads lock' = drop (length (admitted s ?W)) ?W"
      "Contexts s' = (\<lambda>c. if c \<in> set (admitted s ?W) then woken_context c (Contexts s c) else Contexts s c)"
  proof (cases "re_State lock")
    case RESOURCE_EXCLUSIVE
    then show thesis
      using ResourceUnlockExclusive_ok [OF assms(1-3), of wk] assms(4) that by (auto simp: handed_over_def Let_def)
  next
    case RESOURCE_SHARED
    then show thesis
      using ResourceUnlockShared_ok [OF assms(1-3), of wk] assms(4,5) that by (auto simp: handed_over_def Let_def)
  qed
  have "\<forall>c\<in>set (re_WaitingThreads lock'). waiting c s'" using u(3) by (simp add: res_ok_def parked_ok_def)
  moreover have "\<forall>c\<in>set (admitted s ?W). \<not> waiting c s'" by (simp add: u(5) woken_context_def)
  ultimately have "\<exists>lock' s'. (if re_State lock = RESOURCE_EXCLUSIVE then ResourceUnlockExclusive wk lock s
        else ResourceUnlockShared wk lock s) = Some (lock', s') \<and> outside s' \<and> res_ok lock' s' \<and>
     admitted s (re_WaitingThreads lock) \<noteq> [] \<and>
     re_WaitingThreads lock = admitted s (re_WaitingThreads lock) @ re_WaitingThreads lock' \<and>
     (\<forall>c\<in>set (admitted s (re_WaitingThreads lock)). \<not> waiting c s') \<and>
     (\<forall>c\<in>set (re_WaitingThreads lock'). waiting c s')"
    using u(1-4) ne admitted_prefix [of ?W s] by (intro exI [of _ lock'] exI [of _ s']) simp
  then show ?thesis using joins_queue [OF assms(1,2) _ assms(4)] by blast
qed

text \<open>A lock held exclusively with one shared waiter.\<close>

definition sched2 :: sched_state where
  "sched2 = upd_context (PlainContext 5) (blocked_as (Some RESOURCE_SHARED)) sched1"

lemma sched2_ok: "outside sched2" "caller_runs sched2" "waiting (PlainContext 5) sched2" "wants sched2 (PlainContext 5) = RESOURCE_SHARED"
proof -
  have "open_irq sched2"
    using outside_sched1
    by (simp add: outside_def open_irq_def sched2_def upd_context_def crit_levels_def isr_ok_def hal_ok_def)
  moreover have "sched_ok sched2"
    unfolding sched2_def by (rule sched_ok_plain) (use outside_sched1 in \<open>simp_all add: outside_def blocked_as_def\<close>)
  ultimately show "outside sched2" by (simp add: outside_def)
qed (simp_all add: sched2_def blocked_as_def caller_runs_def)

theorem resource_fifo_witness:
  "\<exists>lock' s'. ResourceUnlockExclusive (\<lambda>_ _. None)
      \<lparr>re_State = RESOURCE_EXCLUSIVE, re_WaitingThreads = [PlainContext 5], re_NumShared = 0\<rparr> sched2 = Some (lock', s') \<and>
     res_ok lock' s' \<and> re_WaitingThreads lock' = [] \<and> \<not> waiting (PlainContext 5) s'"
proof -
  let ?l = "\<lparr>re_State = RESOURCE_EXCLUSIVE, re_WaitingThreads = [PlainContext 5], re_NumShared = 0\<rparr>"
  have "res_ok ?l sched2" using sched2_ok(3) by (simp add: res_ok_def parked_ok_def)
  from resource_fifo [OF sched2_ok(1) this sched2_ok(2), of "\<lambda>_ _. None"] sched2_ok(4) show ?thesis
    by (auto simp: admitted_def)
qed

end
