(* ===== verification/Avl.thy ===== *)
theory Avl
  imports WeightedHeap
begin

text \<open>
  The search tree of \<^verbatim>\<open>src/utils/avl.c\<close> over the same \<^verbatim>\<open>WEIGHTED_LINK\<close> nodes as the heap (the unit
  does not balance, whatever its name says). The abstraction of trees and paths in a store is that of
  theory WeightedHeap.
\<close>

section \<open>Operations\<close>

record AVL_TREE =
  avl_Head :: ptr

text \<open>The loop of \<^verbatim>\<open>AvlAdd\<close> ends in the node that gets the new one as a child.\<close>

partial_function (option) AvlAddDescend :: "ptr \<Rightarrow> ptr \<Rightarrow> wstore \<Rightarrow> ptr option" where
  "AvlAddDescend node parent s =
     do {
       n \<leftarrow> wl_get s node;
       p \<leftarrow> wl_get s parent;
       if wl_Weight n > wl_Weight p then
         (if wl_Right p \<noteq> NULL then AvlAddDescend node (wl_Right p) s else Some parent)
       else
         (if wl_Left p \<noteq> NULL then AvlAddDescend node (wl_Left p) s else Some parent)
     }"

definition AvlAdd :: "WEIGHT \<Rightarrow> ptr \<Rightarrow> AVL_TREE \<Rightarrow> wstore \<Rightarrow> (AVL_TREE \<times> wstore) option" where
  "AvlAdd weight node tree s =
     do {
       ASSERT (node \<noteq> NULL);
       s \<leftarrow> wl_upd (wl_Weight_update (\<lambda>_. weight)) node s;
       s \<leftarrow> wl_set_Left node NULL s;
       s \<leftarrow> wl_set_Right node NULL s;
       let parent = avl_Head tree;
       if parent = NULL then do {
         let tree = tree\<lparr>avl_Head := node\<rparr>;
         s \<leftarrow> wl_set_Parent node NULL s;
         Some (tree, s)
       }
       else do {
         parent \<leftarrow> AvlAddDescend node parent s;
         ASSERT (parent \<noteq> NULL);
         n \<leftarrow> wl_get s node;
         p \<leftarrow> wl_get s parent;
         if wl_Weight n > wl_Weight p then do {
           ASSERT (wl_Right p = NULL);
           s \<leftarrow> wl_set_Right parent node s;
           s \<leftarrow> wl_set_Parent node parent s;
           Some (tree, s)
         }
         else do {
           ASSERT (wl_Left p = NULL);
           s \<leftarrow> wl_set_Left parent node s;
           s \<leftarrow> wl_set_Parent node parent s;
           Some (tree, s)
         }
       }
     }"

partial_function (option) AvlFindLoop :: "WEIGHT \<Rightarrow> ptr \<Rightarrow> wstore \<Rightarrow> ptr option" where
  "AvlFindLoop weight node s =
     (if node \<noteq> NULL then do {
        n \<leftarrow> wl_get s node;
        if wl_Weight n = weight then Some node
        else if weight > wl_Weight n then AvlFindLoop weight (wl_Right n) s
        else AvlFindLoop weight (wl_Left n) s
      }
      else Some node)"

definition AvlFind :: "WEIGHT \<Rightarrow> AVL_TREE \<Rightarrow> wstore \<Rightarrow> ptr option" where
  "AvlFind weight tree s = AvlFindLoop weight (avl_Head tree) s"

definition AvlInit :: "AVL_TREE \<Rightarrow> AVL_TREE" where
  "AvlInit tree = tree\<lparr>avl_Head := NULL\<rparr>"

text \<open>
  \<^verbatim>\<open>AvlDelete\<close> lets the parent's link, or the head, point to another node in each of its four
  branches. The branch for a node with only a right child has an assignment in its assertion.
\<close>

definition AvlRelink :: "ptr \<Rightarrow> ptr \<Rightarrow> ptr \<Rightarrow> AVL_TREE \<Rightarrow> wstore \<Rightarrow> (AVL_TREE \<times> wstore) option" where
  "AvlRelink node parent child tree s =
     (if parent \<noteq> NULL then do {
        p \<leftarrow> wl_get s parent;
        if wl_Left p = node then do { s \<leftarrow> wl_set_Left parent child s; Some (tree, s) }
        else do { ASSERT (wl_Right p = node); s \<leftarrow> wl_set_Right parent child s; Some (tree, s) }
      }
      else do { ASSERT (avl_Head tree = node); Some (tree\<lparr>avl_Head := child\<rparr>, s) })"

definition AvlRelinkRight :: "ptr \<Rightarrow> ptr \<Rightarrow> ptr \<Rightarrow> AVL_TREE \<Rightarrow> wstore \<Rightarrow> (AVL_TREE \<times> wstore) option" where
  "AvlRelinkRight node parent child tree s =
     (if parent \<noteq> NULL then do {
        p \<leftarrow> wl_get s parent;
        if wl_Left p = node then do { s \<leftarrow> wl_set_Left parent child s; Some (tree, s) }
        else do {
          s \<leftarrow> wl_set_Right parent node s;
          ASSERT (node \<noteq> NULL);
          s \<leftarrow> wl_set_Right parent child s;
          Some (tree, s)
        }
      }
      else do { ASSERT (avl_Head tree = node); Some (tree\<lparr>avl_Head := child\<rparr>, s) })"

partial_function (option) AvlRightMost :: "ptr \<Rightarrow> wstore \<Rightarrow> ptr option" where
  "AvlRightMost rightMost s =
     do { n \<leftarrow> wl_get s rightMost; if wl_Right n \<noteq> NULL then AvlRightMost (wl_Right n) s else Some rightMost }"

definition AvlDelete :: "ptr \<Rightarrow> AVL_TREE \<Rightarrow> wstore \<Rightarrow> (AVL_TREE \<times> wstore) option" where
  "AvlDelete node tree s =
     do {
       ASSERT (node \<noteq> NULL);
       n \<leftarrow> wl_get s node;
       let parent = wl_Parent n;
       let left = wl_Left n;
       let right = wl_Right n;
       (tree, s) \<leftarrow>
         (if left = NULL \<and> right = NULL then AvlRelink node parent NULL tree s
          else if left \<noteq> NULL \<and> right \<noteq> NULL then do {
            s \<leftarrow> wl_set_Parent left parent s;
            (tree, s) \<leftarrow> AvlRelink node parent left tree s;
            rightMost \<leftarrow> AvlRightMost left s;
            s \<leftarrow> wl_set_Right rightMost right s;
            s \<leftarrow> wl_set_Parent right rightMost s;
            Some (tree, s)
          }
          else if left \<noteq> NULL then do {
            s \<leftarrow> wl_set_Parent left parent s;
            AvlRelink node parent left tree s
          }
          else do {
            ASSERT (right \<noteq> NULL \<and> left = NULL);
            s \<leftarrow> wl_set_Parent right parent s;
            AvlRelinkRight node parent right tree s
          });
       s \<leftarrow> wl_set_Parent node NULL s;
       s \<leftarrow> wl_set_Left node NULL s;
       s \<leftarrow> wl_set_Right node NULL s;
       Some (tree, s)
     }"

section \<open>Hanging a subtree into a path\<close>

fun child_set :: "crumb list \<Rightarrow> ptr \<Rightarrow> WEIGHTED_LINK \<Rightarrow> WEIGHTED_LINK" where
  "child_set (CL p r # cs) q = wl_Left_update (\<lambda>_. q)"
| "child_set (CR l p # cs) q = wl_Right_update (\<lambda>_. q)"
| "child_set [] q = id"

definition hang :: "addr tree \<Rightarrow> crumb list \<Rightarrow> wstore \<Rightarrow> wstore" where
  "hang u cs s = updp (wl_Parent_update (\<lambda>_. ctxp cs)) (rootp u) (updp (child_set cs (rootp u)) (ctxp cs) s)"

lemma ctx_at_hang:
  assumes "ctx_at s hole cs" and "distinct (ctx_nodes cs)"
    and "\<forall>a \<in> set (ctx_nodes cs). s' a = updp (child_set cs q) (ctxp cs) s a"
  shows "ctx_at s' q cs"
proof (cases cs)
  case (Cons c cs')
  have "\<forall>a\<in>set_tree (crumb_tree c). s' a = s a" "\<forall>a\<in>set (ctx_nodes cs'). s' a = s a"
    using assms(2,3) Cons by (auto simp: updp_def)
  then have "tree_at s' (Some (crumb_addr c)) (crumb_tree c)" "ctx_at s' (Some (crumb_addr c)) cs'"
    using assms(1) Cons by (auto intro: tree_at_frame ctx_at_frame)
  then show ?thesis using assms Cons by (cases c) (auto simp: updp_def)
qed simp

lemma hang_tree:
  assumes "ctx_at s hole cs" and "tree_at s par u" and "distinct (inorder (plug u cs))"
  shows "tree_at (hang u cs s) NULL (plug u cs)"
proof -
  have d: "distinct (inorder u)" "distinct (ctx_nodes cs)" "set_tree u \<inter> set (ctx_nodes cs) = {}"
    using assms(3) by (auto simp: distinct_plug)
  have "ctx_at (hang u cs s) (rootp u) cs"
  proof (rule ctx_at_hang [OF assms(1) d(2)], intro ballI)
    fix a assume "a \<in> set (ctx_nodes cs)"
    then have "a \<notin> set_tree u" using d(3) by blast
    then have "Some a \<noteq> rootp u" by (rule rootp_notin)
    then show "hang u cs s a = updp (child_set cs (rootp u)) (ctxp cs) s a" by (simp add: hang_def updp_def)
  qed
  moreover have "tree_at (hang u cs s) (ctxp cs) u"
  proof (rule tree_at_reparent [OF assms(2) d(1)], intro ballI)
    fix a assume "a \<in> set_tree u"
    then have "a \<notin> set (ctx_nodes cs)" using d(3) by blast
    then have "Some a \<noteq> ctxp cs" by (rule ctxp_notin)
    then show "hang u cs s a = (if Some a = rootp u then map_option (wl_Parent_update (\<lambda>_. ctxp cs)) (s a) else s a)"
      by (simp add: hang_def updp_def)
  qed
  ultimately show ?thesis by (simp add: tree_at_plug)
qed

lemma hang_other: "a \<notin> set_tree u \<Longrightarrow> a \<notin> set (ctx_nodes cs) \<Longrightarrow> hang u cs s a = s a"
  using rootp_in [of u a] ctxp_notin [of a cs] by (auto simp: hang_def updp_def)

lemma hang_dom [simp]: "dom (hang u cs s) = dom s"
  by (simp add: hang_def)

lemma child_set_weight [simp]: "wl_Weight (child_set cs q w) = wl_Weight w"
  by (induction cs q rule: child_set.induct) auto

lemma hang_wgt [simp]: "wgt (hang u cs s) = wgt s"
  by (auto simp: hang_def wgt_def updp_def fun_eq_iff split: option.split)

section \<open>The tree as a sorted list\<close>

definition avl_ok :: "AVL_TREE \<Rightarrow> wstore \<Rightarrow> addr list \<Rightarrow> bool" where
  "avl_ok tree s xs \<longleftrightarrow> (\<exists>t. tree_at s NULL t \<and> avl_Head tree = rootp t \<and> inorder t = xs \<and>
     distinct xs \<and> sorted (map (wgt s) xs))"

lemma plug_append: "plug t (cs @ ds) = plug (plug t cs) ds"
  by (induction cs arbitrary: t) auto

lemma zipper: "a \<in> set_tree t \<Longrightarrow> \<exists>l r cs. t = plug (Node l a r) cs"
proof (induction t)
  case (Node l b r)
  consider "a = b" | "a \<in> set_tree l" | "a \<in> set_tree r" using Node.prems by auto
  then show ?case
  proof cases
    case 1
    then show ?thesis using plug.simps(1) by metis
  next
    case 2
    then obtain l' r' cs where "l = plug (Node l' a r') cs" using Node.IH(1) by blast
    then have "Node l b r = plug (Node l' a r') (cs @ [CL b r])" by (simp add: plug_append)
    then show ?thesis by blast
  next
    case 3
    then obtain l' r' cs where "r = plug (Node l' a r') cs" using Node.IH(2) by blast
    then have "Node l b r = plug (Node l' a r') (cs @ [CR l b])" by (simp add: plug_append)
    then show ?thesis by blast
  qed
qed simp

fun before :: "crumb list \<Rightarrow> addr list" where
  "before [] = []"
| "before (CL p r # cs) = before cs"
| "before (CR l p # cs) = before cs @ inorder l @ [p]"

fun after :: "crumb list \<Rightarrow> addr list" where
  "after [] = []"
| "after (CL p r # cs) = p # inorder r @ after cs"
| "after (CR l p # cs) = after cs"

lemma inorder_plug: "inorder (plug t cs) = before cs @ inorder t @ after cs"
proof (induction cs arbitrary: t)
  case (Cons c cs)
  show ?case by (cases c) (simp_all add: Cons.IH)
qed simp

lemma before_append [simp]: "before (cs @ ds) = before ds @ before cs"
  by (induction cs rule: before.induct) auto

lemma after_append [simp]: "after (cs @ ds) = after cs @ after ds"
  by (induction cs rule: after.induct) auto

lemma insort_split:
  "\<forall>y \<in> set ys. f y < f x \<Longrightarrow> \<forall>z \<in> set zs. f x \<le> f z \<Longrightarrow> insort_key f x (ys @ zs) = ys @ x # zs"
  for f :: "'a \<Rightarrow> 'b::linorder"
proof (induction ys)
  case Nil
  then show ?case by (cases zs) auto
qed (auto simp: not_le)

lemma wl_get_wgt: "wl_get s (Some a) = Some w \<Longrightarrow> wl_Weight w = wgt s a"
  by (auto simp: wl_get_def wgt_def)

lemma root_node: "tree_at s par (Node l a r) \<Longrightarrow> \<exists>w. wl_get s (Some a) = Some w \<and> wl_Left w = rootp l \<and>
    wl_Right w = rootp r \<and> wl_Parent w = par \<and> wl_Weight w = wgt s a"
  by (auto simp: wl_get_def wgt_def)

text \<open>The descent ends at the place that keeps the tree sorted, with equal weights to the right.\<close>

lemma AvlAddDescend_place:
  assumes "tree_at s par t" and "t \<noteq> Leaf" and "wl_get s (Some n) = Some wn" and "sorted (map (wgt s) (inorder t))"
  shows "\<exists>c cs. t = plug Leaf (c # cs) \<and> AvlAddDescend (Some n) (rootp t) s = Some (Some (crumb_addr c)) \<and>
     (case c of CL p r \<Rightarrow> \<not> wgt s n > wgt s p | CR l p \<Rightarrow> wgt s n > wgt s p) \<and>
     (\<forall>a \<in> set (before (c # cs)). wgt s a < wgt s n) \<and> (\<forall>a \<in> set (after (c # cs)). wgt s n \<le> wgt s a)"
  using assms(1,2,4)
proof (induction t arbitrary: par)
  case (Node l b r)
  obtain w where w: "wl_get s (Some b) = Some w" "wl_Left w = rootp l" "wl_Right w = rootp r"
      "wl_Weight w = wgt s b"
    using root_node [OF Node.prems(1)] by blast
  have n: "wl_Weight wn = wgt s n" by (rule wl_get_wgt [OF assms(3)])
  have srt: "sorted (map (wgt s) (inorder l))" "sorted (map (wgt s) (inorder r))"
      "\<forall>a \<in> set (inorder l). wgt s a \<le> wgt s b" "\<forall>a \<in> set (inorder r). wgt s b \<le> wgt s a"
    using Node.prems(3) by (auto simp: sorted_append)
  show ?case
  proof (cases "wgt s n > wgt s b")
    case True
    then have lt: "\<forall>a \<in> set (inorder l). wgt s a < wgt s n" using srt(3) by force
    show ?thesis
    proof (cases "r = Leaf")
      case r: True
      then show ?thesis
        using True w n lt assms(3)
        by (intro exI [of _ "CR l b"] exI [of _ "[]"], subst AvlAddDescend.simps) auto
    next
      case False
      then obtain c cs where c: "r = plug Leaf (c # cs)" "AvlAddDescend (Some n) (rootp r) s = Some (Some (crumb_addr c))"
          "case c of CL p r \<Rightarrow> \<not> wgt s n > wgt s p | CR l p \<Rightarrow> wgt s n > wgt s p"
          "\<forall>a \<in> set (before (c # cs)). wgt s a < wgt s n" "\<forall>a \<in> set (after (c # cs)). wgt s n \<le> wgt s a"
        using Node.IH(2) [of "Some b"] Node.prems srt(2) by auto
      have desc: "AvlAddDescend (Some n) (rootp (Node l b r)) s = AvlAddDescend (Some n) (rootp r) s"
        using True w n assms(3) False by (subst AvlAddDescend.simps) simp
      have t: "Node l b r = plug Leaf (c # (cs @ [CR l b]))" using c(1) by (simp add: plug_append)
      have ba: "before (c # (cs @ [CR l b])) = inorder l @ b # before (c # cs)"
          "after (c # (cs @ [CR l b])) = after (c # cs)"
        using before_append [of "c # cs" "[CR l b]"] after_append [of "c # cs" "[CR l b]"] by simp_all
      show ?thesis
        using desc c(2-5) ba lt True by (intro exI [of _ c] exI [of _ "cs @ [CR l b]"] conjI t) auto
    qed
  next
    case False
    then have le: "\<forall>a \<in> set (inorder r). wgt s n \<le> wgt s a" using srt(4) by force
    show ?thesis
    proof (cases "l = Leaf")
      case l: True
      then show ?thesis
        using False w n le assms(3)
        by (intro exI [of _ "CL b r"] exI [of _ "[]"], subst AvlAddDescend.simps) auto
    next
      case l: False
      then obtain c cs where c: "l = plug Leaf (c # cs)" "AvlAddDescend (Some n) (rootp l) s = Some (Some (crumb_addr c))"
          "case c of CL p r \<Rightarrow> \<not> wgt s n > wgt s p | CR l p \<Rightarrow> wgt s n > wgt s p"
          "\<forall>a \<in> set (before (c # cs)). wgt s a < wgt s n" "\<forall>a \<in> set (after (c # cs)). wgt s n \<le> wgt s a"
        using Node.IH(1) [of "Some b"] Node.prems srt(1) by auto
      have desc: "AvlAddDescend (Some n) (rootp (Node l b r)) s = AvlAddDescend (Some n) (rootp l) s"
        using False w n assms(3) l by (subst AvlAddDescend.simps) simp
      have t: "Node l b r = plug Leaf (c # (cs @ [CL b r]))" using c(1) by (simp add: plug_append)
      have ba: "before (c # (cs @ [CL b r])) = before (c # cs)"
          "after (c # (cs @ [CL b r])) = after (c # cs) @ b # inorder r"
        using before_append [of "c # cs" "[CL b r]"] after_append [of "c # cs" "[CL b r]"] by simp_all
      show ?thesis
        using desc c(2-5) ba le False by (intro exI [of _ c] exI [of _ "cs @ [CL b r]"] conjI t) auto
    qed
  qed
qed simp

lemma wl_upd_chain:
  "a \<in> dom s \<Longrightarrow> Option.bind (wl_upd f (Some a) s) g = g (updp f (Some a) s)"
  by (simp add: wl_upd_updp)

definition fresh :: "WEIGHT \<Rightarrow> addr \<Rightarrow> wstore \<Rightarrow> wstore" where
  "fresh weight n s = updp (wl_Right_update (\<lambda>_. NULL)) (Some n)
     (updp (wl_Left_update (\<lambda>_. NULL)) (Some n) (updp (wl_Weight_update (\<lambda>_. weight)) (Some n) s))"

lemma AvlAdd_correct:
  assumes "avl_ok tree s xs" and "n \<in> dom s" and "n \<notin> set xs"
  shows "\<exists>tree' s'. AvlAdd weight (Some n) tree s = Some (tree', s') \<and> wgt s' = (wgt s)(n := weight) \<and>
     dom s' = dom s \<and> (\<forall>a. a \<noteq> n \<longrightarrow> a \<notin> set xs \<longrightarrow> s' a = s a) \<and>
     avl_ok tree' s' (insort_key (wgt s') n xs)"
proof -
  obtain t where t: "tree_at s NULL t" "avl_Head tree = rootp t" "inorder t = xs" "distinct xs" "sorted (map (wgt s) xs)"
    using assms(1) by (auto simp: avl_ok_def)
  let ?s = "fresh weight n s"
  have dom: "dom ?s = dom s" by (simp add: fresh_def)
  have other: "?s a = s a" if "a \<noteq> n" for a using that by (simp add: fresh_def updp_def)
  have wg: "wgt ?s = (wgt s)(n := weight)"
    using assms(2) by (auto simp: fresh_def wgt_def updp_def fun_eq_iff split: option.split)
  obtain wn where wn: "?s n = Some wn" "wl_Left wn = NULL" "wl_Right wn = NULL" "wl_Weight wn = weight"
    using assms(2) by (auto simp: fresh_def updp_def)
  have start: "Option.bind (wl_upd (wl_Weight_update (\<lambda>_. weight)) (Some n) s)
      (\<lambda>s. Option.bind (wl_set_Left (Some n) NULL s) (\<lambda>s. Option.bind (wl_set_Right (Some n) NULL s) g)) = g ?s"
    for g :: "wstore \<Rightarrow> (AVL_TREE \<times> wstore) option"
    using assms(2) by (simp add: wl_upd_chain fresh_def)
  have frame: "tree_at ?s NULL t" by (rule tree_at_frame [OF t(1)], intro ballI, rule other) (use assms(3) t(3) in auto)
  have srt: "sorted (map (wgt ?s) (inorder t))"
    using t(3,5) assms(3) by (simp add: wg map_fun_upd)
  have one: "tree_at ?s (wl_Parent wn) (Node Leaf n Leaf)" using wn by simp
  show ?thesis
  proof (cases "t = Leaf")
    case True
    let ?s' = "hang (Node Leaf n Leaf) [] ?s"
    have h: "?s' = updp (wl_Parent_update (\<lambda>_. NULL)) (Some n) ?s" by (simp add: hang_def updp_def fun_eq_iff)
    have "tree_at ?s' NULL (plug (Node Leaf n Leaf) [])" by (rule hang_tree [OF _ one]) simp_all
    then have "avl_ok (tree\<lparr>avl_Head := Some n\<rparr>) ?s' [n]" unfolding avl_ok_def by (intro exI [of _ "Node Leaf n Leaf"]) auto
    moreover have "AvlAdd weight (Some n) tree s = Some (tree\<lparr>avl_Head := Some n\<rparr>, ?s')"
      unfolding AvlAdd_def start using t(2) True assms(2) dom by (simp add: wl_upd_updp h)
    ultimately show ?thesis
      using t True other hang_other [of _ "Node Leaf n Leaf" "[]" ?s] wg dom
      by (intro exI [of _ "tree\<lparr>avl_Head := Some n\<rparr>"] exI [of _ ?s']) auto
  next
    case False
    obtain c cs where c: "t = plug Leaf (c # cs)" "AvlAddDescend (Some n) (rootp t) ?s = Some (Some (crumb_addr c))"
        "case c of CL p r \<Rightarrow> \<not> wgt ?s n > wgt ?s p | CR l p \<Rightarrow> wgt ?s n > wgt ?s p"
        "\<forall>a \<in> set (before (c # cs)). wgt ?s a < wgt ?s n" "\<forall>a \<in> set (after (c # cs)). wgt ?s n \<le> wgt ?s a"
      using AvlAddDescend_place [OF frame False _ srt, of n wn] wn(1) by (auto simp: wl_get_def)
    let ?one = "Node Leaf n Leaf" and ?q = "crumb_addr c"
    let ?s' = "hang ?one (c # cs) ?s"
    have ctx: "ctx_at ?s NULL (c # cs)" using frame c(1) by (simp add: tree_at_plug del: plug.simps)
    have xs: "xs = before (c # cs) @ after (c # cs)" using t(3) c(1) inorder_plug [of Leaf "c # cs"] by simp
    have ctxset: "set (ctx_nodes (c # cs)) = set xs" 
      using arg_cong [OF t(3), of set] set_plug [of Leaf "c # cs"] c(1) by (simp del: plug.simps ctx_nodes.simps)
    have dist: "distinct (inorder (plug ?one (c # cs)))"
      using distinct_plug [of Leaf "c # cs"] distinct_plug [of ?one "c # cs"] c(1) t(3,4) assms(3) ctxset by auto
    have tree': "tree_at ?s' NULL (plug ?one (c # cs))" by (rule hang_tree [OF ctx one dist])
    have q: "?q \<noteq> n" using ctxset assms(3) by auto
    obtain wq where wq: "?s ?q = Some wq" "case c of CL p r \<Rightarrow> wl_Left wq = NULL | CR l p \<Rightarrow> wl_Right wq = NULL"
      using ctx by (cases c) auto
    have run: "AvlAdd weight (Some n) tree s = Some (tree, ?s')"
      unfolding AvlAdd_def start using c(2,3) t(2) False wn wq q wl_get_wgt [of ?s ?q wq] wg
      by (cases c) (auto simp: wl_get_def wl_upd_def hang_def updp_def fun_eq_iff fun_upd_def)
    have "insort_key (wgt ?s') n xs = before (c # cs) @ n # after (c # cs)"
      unfolding xs hang_wgt by (rule insort_split [OF c(4,5)])
    then have ino: "inorder (plug ?one (c # cs)) = insort_key (wgt ?s') n xs"
      using inorder_plug [of ?one "c # cs"] by simp
    moreover have "rootp (plug ?one (c # cs)) = rootp t" unfolding c(1) by (rule rootp_plug) simp
    moreover have "sorted (map (wgt ?s') (insort_key (wgt ?s') n xs))"
      using srt t(3) by (simp add: sorted_insort_key)
    ultimately have "avl_ok tree ?s' (insort_key (wgt ?s') n xs)"
      unfolding avl_ok_def using tree' t(2) dist by (intro exI [of _ "plug ?one (c # cs)"]) auto
    moreover have "?s' a = s a" if "a \<noteq> n" "a \<notin> set xs" for a
      using that hang_other [of a ?one "c # cs" ?s] other [of a] ctxset by (simp del: ctx_nodes.simps)
    ultimately show ?thesis using run wg dom by (intro exI [of _ tree] exI [of _ ?s']) auto
  qed
qed

section \<open>Searching\<close>

lemma AvlFindLoop_correct:
  assumes "tree_at s par t" and "sorted (map (wgt s) (inorder t))"
  shows "\<exists>p. AvlFindLoop weight (rootp t) s = Some p \<and>
     (case p of None \<Rightarrow> \<forall>a \<in> set (inorder t). wgt s a \<noteq> weight | Some a \<Rightarrow> a \<in> set (inorder t) \<and> wgt s a = weight)"
  using assms
proof (induction t arbitrary: par)
  case Leaf
  show ?case by (subst AvlFindLoop.simps) simp
next
  case (Node l b r)
  obtain w where w: "wl_get s (Some b) = Some w" "wl_Left w = rootp l" "wl_Right w = rootp r" "wl_Weight w = wgt s b"
    using root_node [OF Node.prems(1)] by blast
  have srt: "sorted (map (wgt s) (inorder l))" "sorted (map (wgt s) (inorder r))"
      "\<forall>a \<in> set (inorder l). wgt s a \<le> wgt s b" "\<forall>a \<in> set (inorder r). wgt s b \<le> wgt s a"
    using Node.prems(2) by (auto simp: sorted_append)
  have step: "AvlFindLoop weight (Some b) s =
      (if wgt s b = weight then Some (Some b) else if weight > wgt s b then AvlFindLoop weight (rootp r) s
       else AvlFindLoop weight (rootp l) s)"
    using w by (subst AvlFindLoop.simps) simp
  consider "wgt s b = weight" | "wgt s b < weight" | "weight < wgt s b" by force
  then show ?case
  proof cases
    case 2
    then have "\<forall>a \<in> set (inorder l). wgt s a \<noteq> weight" using srt(3) by force
    then show ?thesis using 2 step Node.IH(2) [of "Some b"] Node.prems(1) srt(2) by (auto split: option.splits)
  next
    case 3
    then have "\<forall>a \<in> set (inorder r). wgt s a \<noteq> weight" using srt(4) by force
    then show ?thesis using 3 step Node.IH(1) [of "Some b"] Node.prems(1) srt(1) by (auto split: option.splits)
  qed (use step in auto)
qed

section \<open>Deleting\<close>

fun graft :: "addr tree \<Rightarrow> addr tree \<Rightarrow> addr tree" where
  "graft Leaf r = r"
| "graft (Node a x b) r = Node a x (graft b r)"

lemma inorder_graft: "inorder (graft l r) = inorder l @ inorder r"
  by (induction l r rule: graft.induct) auto

lemma set_graft: "set_tree (graft l r) = set_tree l \<union> set_tree r"
  by (induction l r rule: graft.induct) auto

lemma graft_Leaf [simp]: "graft l Leaf = l"
  by (induction l) auto

text \<open>The last node on the right edge, as a place in the tree.\<close>

lemma AvlRightMost_place:
  assumes "tree_at s par t" and "t \<noteq> Leaf"
  shows "\<exists>a q ds. t = plug Leaf (CR a q # ds) \<and> AvlRightMost (rootp t) s = Some (Some q) \<and>
     (\<forall>r. graft t r = plug r (CR a q # ds))"
  using assms
proof (induction t arbitrary: par)
  case (Node l b r)
  obtain w where w: "wl_get s (Some b) = Some w" "wl_Right w = rootp r"
    using root_node [OF Node.prems(1)] by blast
  show ?case
  proof (cases "r = Leaf")
    case True
    then show ?thesis
      using w by (intro exI [of _ l] exI [of _ b] exI [of _ "[]"], subst AvlRightMost.simps) auto
  next
    case False
    then obtain a q ds where q: "r = plug Leaf (CR a q # ds)" "AvlRightMost (rootp r) s = Some (Some q)"
        "\<And>u. graft r u = plug u (CR a q # ds)"
      using Node.IH(2) [of "Some b"] Node.prems by auto
    have "AvlRightMost (rootp (Node l b r)) s = Some (Some q)"
      using w False q(2) by (subst AvlRightMost.simps) auto
    moreover have "Node l b r = plug Leaf (CR a q # (ds @ [CR l b]))"
      "graft (Node l b r) u = plug u (CR a q # (ds @ [CR l b]))" for u
      using q(1,3) by (simp_all add: plug_append)
    ultimately show ?thesis by blast
  qed
qed simp

definition retree :: "ptr \<Rightarrow> crumb list \<Rightarrow> AVL_TREE \<Rightarrow> AVL_TREE" where
  "retree child cs tree = (if cs = [] then tree\<lparr>avl_Head := child\<rparr> else tree)"

lemma updp_twice: "(\<And>w. f (g w) = h w) \<Longrightarrow> updp f p (updp g p s) = updp h p s"
  by (auto simp: updp_def fun_eq_iff option.map_comp comp_def)

lemma updp_swap: "p \<noteq> q \<or> p = NULL \<Longrightarrow> updp f p (updp g q s) = updp g q (updp f p s)"
  by (auto simp: updp_def fun_eq_iff)

lemma updp_NULL [simp]: "updp f NULL s = s"
  by (simp add: updp_def fun_eq_iff)

lemma AvlRelink_child:
  assumes "ctx_at s (Some n) cs" and "n \<notin> set (ctx_nodes cs)" and "cs = [] \<Longrightarrow> avl_Head tree = Some n"
  shows "AvlRelink (Some n) (ctxp cs) child tree s = Some (retree child cs tree, updp (child_set cs child) (ctxp cs) s)"
proof (cases cs)
  case (Cons c ds)
  then have "rootp (crumb_tree c) \<noteq> Some n" using assms(2) by (auto dest: rootp_in)
  then show ?thesis
    using assms(1) Cons by (cases c) (auto simp: AvlRelink_def retree_def wl_get_def wl_upd_def updp_def fun_eq_iff)
qed (use assms(3) in \<open>simp add: AvlRelink_def retree_def\<close>)

text \<open>The branch with the assignment in its assertion does the same.\<close>

lemma AvlRelinkRight_child:
  assumes "ctx_at s (Some n) cs" and "n \<notin> set (ctx_nodes cs)" and "cs = [] \<Longrightarrow> avl_Head tree = Some n"
  shows "AvlRelinkRight (Some n) (ctxp cs) child tree s =
     Some (retree child cs tree, updp (child_set cs child) (ctxp cs) s)"
proof (cases cs)
  case (Cons c ds)
  then have "rootp (crumb_tree c) \<noteq> Some n" using assms(2) by (auto dest: rootp_in)
  then show ?thesis
    using assms(1) Cons by (cases c) (auto simp: AvlRelinkRight_def retree_def wl_get_def wl_upd_def updp_def fun_eq_iff)
qed (use assms(3) in \<open>simp add: AvlRelinkRight_def retree_def\<close>)

definition wiped :: "addr \<Rightarrow> wstore \<Rightarrow> wstore" where
  "wiped n s = updp (wl_Right_update (\<lambda>_. NULL)) (Some n)
     (updp (wl_Left_update (\<lambda>_. NULL)) (Some n) (updp (wl_Parent_update (\<lambda>_. NULL)) (Some n) s))"

lemma wiped_facts: "dom (wiped n s) = dom s" "a \<noteq> n \<Longrightarrow> wiped n s a = s a" "wgt (wiped n s) = wgt s"
  by (auto simp: wiped_def updp_def wgt_def fun_eq_iff dom_def split: option.split)

text \<open>The tree after the middle part of \<^verbatim>\<open>AvlDelete\<close>.\<close>

lemma delete_middle:
  assumes ctx: "ctx_at s (Some n) cs" and l: "tree_at s (Some n) l" and r: "tree_at s (Some n) r"
    and d: "distinct (inorder (plug (Node l n r) cs))" and head: "avl_Head tree = rootp (plug (Node l n r) cs)"
    and parts: "wl_Parent w = ctxp cs" "wl_Left w = rootp l" "wl_Right w = rootp r" "s n = Some w"
  shows "\<exists>tree' s'. AvlDelete (Some n) tree s = Some (tree', wiped n s') \<and> dom s' = dom s \<and> wgt s' = wgt s \<and>
     (\<forall>a. a \<notin> set_tree (plug (Node l n r) cs) \<longrightarrow> s' a = s a) \<and>
     tree_at s' NULL (plug (graft l r) cs) \<and> avl_Head tree' = rootp (plug (graft l r) cs)"
proof -
  have dis: "n \<notin> set (ctx_nodes cs)" "distinct (ctx_nodes cs)" "distinct (inorder l)" "distinct (inorder r)"
      "set_tree l \<inter> set (ctx_nodes cs) = {}" "set_tree r \<inter> set (ctx_nodes cs) = {}" "set_tree l \<inter> set_tree r = {}"
      "n \<notin> set_tree l" "n \<notin> set_tree r"
    using d by (auto simp: distinct_plug)
  have hd: "avl_Head tree = Some n" if "cs = []" using head that by simp
  have nd: "n \<in> dom s" using parts(4) by auto
  define par where "par = (\<lambda>u. updp (wl_Parent_update (\<lambda>_. ctxp cs)) (rootp u) s)"
  have par: "ctx_at (par u) (Some n) cs" "par u = (if u = Leaf then s else par u)"
      "updp (child_set cs (rootp u)) (ctxp cs) (par u) = hang u cs s"
    if "set_tree u \<inter> set (ctx_nodes cs) = {}" for u
  proof -
    have "a \<in> set (ctx_nodes cs) \<Longrightarrow> par u a = s a" for a
      using that rootp_notin [of a u] by (auto simp: par_def updp_def)
    then show "ctx_at (par u) (Some n) cs" by (intro ctx_at_frame [OF ctx]) blast
    have "rootp u \<noteq> ctxp cs \<or> rootp u = NULL"
      using that by (cases u; cases cs) auto
    then show "updp (child_set cs (rootp u)) (ctxp cs) (par u) = hang u cs s"
      unfolding par_def hang_def using updp_swap [of "rootp u" "ctxp cs"] by simp
  qed (simp add: par_def)
  have setp: "Option.bind (wl_set_Parent (rootp u) (ctxp cs) s) g = g (par u)"
    if "tree_at s (Some n) u" "u \<noteq> Leaf" for u and g :: "wstore \<Rightarrow> (AVL_TREE \<times> wstore) option"
    using that by (cases u) (auto simp: par_def wl_upd_updp dom_def)
  have hangd: "tree_at (hang u cs s) NULL (plug u cs)"
    if "tree_at s (Some n) u" "distinct (inorder u)" "set_tree u \<inter> set (ctx_nodes cs) = {}" for u
    by (rule hang_tree [OF ctx that(1)]) (use that dis in \<open>simp add: distinct_plug\<close>)
  have head': "avl_Head (retree (rootp u) cs tree) = rootp (plug v cs)" if "cs = [] \<Longrightarrow> rootp u = rootp v" for u v
    using that head rootp_plug [of cs "Node l n r" v] by (cases cs) (auto simp: retree_def)
  have other: "a \<notin> set_tree (plug (Node l n r) cs) \<Longrightarrow> a \<notin> set_tree l \<and> a \<notin> set_tree r \<and> a \<notin> set (ctx_nodes cs)" for a
    by (simp add: set_plug)
  have wipe: "do { s \<leftarrow> wl_set_Parent (Some n) NULL s; s \<leftarrow> wl_set_Left (Some n) NULL s; s \<leftarrow> wl_set_Right (Some n) NULL s;
      Some (tr, s) } = Some (tr, wiped n s)" if "n \<in> dom s" for tr :: AVL_TREE and s
    using that by (simp add: wl_upd_updp wiped_def)
  have get: "wl_get s (Some n) = Some w" using parts(4) by (simp add: wl_get_def)
  have one_side: "?thesis" if u: "graft l r = u" "tree_at s (Some n) u" "distinct (inorder u)"
      "set_tree u \<inter> set (ctx_nodes cs) = {}" "set_tree u \<subseteq> set_tree l \<union> set_tree r"
      and run: "AvlDelete (Some n) tree s = Some (retree (rootp u) cs tree, wiped n (hang u cs s))" for u
    using run hangd [OF u(2-4)] head' [of u u] other hang_other [of _ u cs s] u(1,5)
    by (intro exI [of _ "retree (rootp u) cs tree"] exI [of _ "hang u cs s"]) auto
  show ?thesis
  proof (cases "l = Leaf"; cases "r = Leaf")
    assume lr: "l = Leaf" "r = Leaf"
    have "hang Leaf cs s = updp (child_set cs NULL) (ctxp cs) s" by (simp add: hang_def)
    then have "AvlDelete (Some n) tree s = Some (retree NULL cs tree, wiped n (hang Leaf cs s))"
      using AvlRelink_child [OF ctx dis(1) hd, of NULL] lr parts(1-3) get nd wipe
      by (simp add: AvlDelete_def Let_def)
    then show ?thesis by (intro one_side [of Leaf]) (use lr in auto)
  next
    assume lr: "l \<noteq> Leaf" "r = Leaf"
    have "AvlDelete (Some n) tree s = Some (retree (rootp l) cs tree, wiped n (hang l cs s))"
      using AvlRelink_child [OF par(1) [OF dis(5)] dis(1) hd, of "rootp l"] par(3) [OF dis(5)] setp [OF l lr(1)]
        lr parts(1-3) get nd wipe
      by (simp add: AvlDelete_def Let_def)
    then show ?thesis by (intro one_side [of l]) (use lr l dis in auto)
  next
    assume lr: "l = Leaf" "r \<noteq> Leaf"
    have "AvlDelete (Some n) tree s = Some (retree (rootp r) cs tree, wiped n (hang r cs s))"
      using AvlRelinkRight_child [OF par(1) [OF dis(6)] dis(1) hd, of "rootp r"] par(3) [OF dis(6)] setp [OF r lr(2)]
        lr parts(1-3) get nd wipe
      by (simp add: AvlDelete_def Let_def)
    then show ?thesis by (intro one_side [of r]) (use lr r dis in auto)
  next
    assume lr: "l \<noteq> Leaf" "r \<noteq> Leaf"
    let ?s1 = "hang l cs s"
    have t1: "tree_at ?s1 NULL (plug l cs)" by (rule hangd [OF l dis(3,5)])
    then have l1: "tree_at ?s1 (ctxp cs) l" by (simp add: tree_at_plug)
    obtain a q ds where q: "l = plug Leaf (CR a q # ds)" "AvlRightMost (rootp l) ?s1 = Some (Some q)"
        "\<And>u. graft l u = plug u (CR a q # ds)"
      using AvlRightMost_place [OF l1 lr(1)] by blast
    let ?cs = "CR a q # (ds @ cs)"
    let ?s2 = "hang r ?cs ?s1"
    have plugs: "plug l cs = plug Leaf ?cs" "plug (graft l r) cs = plug r ?cs"
      using q(1,3) by (simp_all add: plug_append)
    have c1: "ctx_at ?s1 NULL ?cs" using t1 unfolding plugs(1) tree_at_plug by simp
    have r1: "tree_at ?s1 (Some n) r"
      by (rule tree_at_frame [OF r], intro ballI, rule hang_other) (use dis in auto)
    have "distinct (inorder (plug (graft l r) cs))"
      using dis by (auto simp: distinct_plug inorder_graft set_graft)
    then have t2: "tree_at ?s2 NULL (plug r ?cs)" unfolding plugs(2) by (rule hang_tree [OF c1 r1])
    have ql: "q \<in> set_tree l" using q(1) set_plug [of Leaf "CR a q # ds"] by simp
    have dom: "q \<in> dom ?s1" "n \<in> dom ?s1" using tree_at_dom [OF l1 ql] nd by simp_all
    obtain b where b: "rootp r = Some b" "b \<in> dom ?s1" using lr(2) tree_at_dom [OF r1] rootp_in by (cases r) auto
    have run2: "do { s \<leftarrow> wl_set_Right (Some q) (rootp r) ?s1; s \<leftarrow> wl_set_Parent (rootp r) (Some q) s; g s } = g ?s2"
      for g :: "wstore \<Rightarrow> (AVL_TREE \<times> wstore) option"
      using dom b by (simp add: wl_upd_updp hang_def)
    have "AvlDelete (Some n) tree s = Some (retree (rootp l) cs tree, wiped n ?s2)"
      using AvlRelink_child [OF par(1) [OF dis(5)] dis(1) hd, of "rootp l"] par(3) [OF dis(5)] setp [OF l lr(1)]
        lr parts(1-3) get dom wipe q(2) run2
      by (simp add: AvlDelete_def Let_def)
    moreover have "avl_Head (retree (rootp l) cs tree) = rootp (plug (graft l r) cs)"
      by (rule head') (use lr(1) in \<open>cases l; simp\<close>)
    moreover have "?s2 x = s x" if "x \<notin> set_tree (plug (Node l n r) cs)" for x
    proof -
      have "x \<notin> set_tree (plug l cs)" using other [OF that] by (simp add: set_plug)
      then have "x \<notin> set (ctx_nodes ?cs)" unfolding plugs(1) set_plug by simp
      then show ?thesis using other [OF that] hang_other [of x r ?cs ?s1] hang_other [of x l cs s] by simp
    qed
    ultimately show ?thesis using t2 unfolding plugs(2)
      by (intro exI [of _ "retree (rootp l) cs tree"] exI [of _ ?s2]) auto
  qed
qed

lemma AvlDelete_correct:
  assumes "avl_ok tree s xs" and "n \<in> set xs"
  shows "\<exists>tree' s'. AvlDelete (Some n) tree s = Some (tree', s') \<and> wgt s' = wgt s \<and> dom s' = dom s \<and>
     (\<forall>a. a \<notin> set xs \<longrightarrow> s' a = s a) \<and> avl_ok tree' s' (remove1 n xs)"
proof -
  obtain t where t: "tree_at s NULL t" "avl_Head tree = rootp t" "inorder t = xs" "distinct xs" "sorted (map (wgt s) xs)"
    using assms(1) by (auto simp: avl_ok_def)
  have "n \<in> set_tree t" using assms(2) t(3) by auto
  then obtain l r cs where z: "t = plug (Node l n r) cs" using zipper by blast
  have ctx: "ctx_at s (Some n) cs" and sub: "tree_at s (ctxp cs) (Node l n r)"
    using t(1) unfolding z tree_at_plug by simp_all
  obtain w where w: "s n = Some w" "wl_Left w = rootp l" "wl_Right w = rootp r" "wl_Parent w = ctxp cs"
    using sub by auto
  have lr: "tree_at s (Some n) l" "tree_at s (Some n) r" using sub by auto
  have d: "distinct (inorder (plug (Node l n r) cs))" using t(3,4) z by simp
  obtain tree' s' where s': "AvlDelete (Some n) tree s = Some (tree', wiped n s')" "dom s' = dom s" "wgt s' = wgt s"
      "\<And>a. a \<notin> set_tree (plug (Node l n r) cs) \<Longrightarrow> s' a = s a"
      "tree_at s' NULL (plug (graft l r) cs)" "avl_Head tree' = rootp (plug (graft l r) cs)"
    using delete_middle [OF ctx lr d _ w(4,2,3,1)] t(2) z by blast
  have xs: "xs = before cs @ inorder l @ n # inorder r @ after cs" using t(3) z by (simp add: inorder_plug)
  have ino: "inorder (plug (graft l r) cs) = remove1 n xs"
    using t(4) unfolding xs by (simp add: inorder_plug inorder_graft remove1_append)
  have "n \<notin> set (remove1 n xs)" using t(4) by simp
  then have "n \<notin> set_tree (plug (graft l r) cs)" using ino by (metis set_inorder)
  then have "tree_at (wiped n s') NULL (plug (graft l r) cs)"
    by (intro tree_at_frame [OF s'(5)] ballI wiped_facts(2)) auto
  moreover have "sorted (map (wgt (wiped n s')) (remove1 n xs))"
    using t(5) s'(3) by (simp add: wiped_facts sorted_map_remove1)
  ultimately have "avl_ok tree' (wiped n s') (remove1 n xs)"
    unfolding avl_ok_def using s'(6) ino t(4) by (intro exI [of _ "plug (graft l r) cs"]) auto
  moreover have "wiped n s' a = s a" if "a \<notin> set xs" for a
  proof -
    have "a \<noteq> n" using that assms(2) by blast
    then show ?thesis using that s'(4) [of a] t(3) z wiped_facts(2) [of a n s'] by auto
  qed
  ultimately show ?thesis using s'(1-3) by (auto simp: wiped_facts)
qed

section \<open>Properties\<close>

text \<open>
  The reference: a list of nodes sorted by weight, into which a node is inserted in front of those
  of the same weight. A call is allowed when the node to be added is allocated and in no tree, and
  the node to be deleted is in the tree.
\<close>

datatype avl_call = Add WEIGHT addr | Delete addr

fun avl_exec :: "avl_call \<Rightarrow> AVL_TREE \<times> wstore \<Rightarrow> (AVL_TREE \<times> wstore) option" where
  "avl_exec (Add w n) (tree, s) = AvlAdd w (Some n) tree s"
| "avl_exec (Delete n) (tree, s) = AvlDelete (Some n) tree s"

fun avl_run :: "avl_call list \<Rightarrow> AVL_TREE \<times> wstore \<Rightarrow> (AVL_TREE \<times> wstore) option" where
  "avl_run [] ts = Some ts"
| "avl_run (c # cs) ts = Option.bind (avl_exec c ts) (avl_run cs)"

fun list_run :: "addr set \<Rightarrow> avl_call list \<Rightarrow> addr list \<times> (addr \<Rightarrow> WEIGHT) \<Rightarrow> (addr list \<times> (addr \<Rightarrow> WEIGHT)) option" where
  "list_run A [] xw = Some xw"
| "list_run A (Add w n # cs) (xs, wt) = (if n \<in> A \<and> n \<notin> set xs
     then list_run A cs (insort_key (wt(n := w)) n xs, wt(n := w)) else None)"
| "list_run A (Delete n # cs) (xs, wt) = (if n \<in> set xs then list_run A cs (remove1 n xs, wt) else None)"

lemma avl_run_correct:
  assumes "avl_ok tree s xs" and "list_run (dom s) cs (xs, wgt s) = Some (ys, wt)"
  shows "\<exists>tree' s'. avl_run cs (tree, s) = Some (tree', s') \<and> avl_ok tree' s' ys \<and> wgt s' = wt"
  using assms
proof (induction "dom s" cs "(xs, wgt s)" arbitrary: tree s xs rule: list_run.induct)
  case 1
  then show ?case by auto
next
  case (2 w n cs xs)
  then show ?case using AvlAdd_correct [of tree s xs n w] by (fastforce split: if_splits)
next
  case (3 n cs xs)
  then show ?case using AvlDelete_correct [of tree s xs n] by (fastforce split: if_splits)
qed

text \<open>(C31) After any sequence of allowed additions and deletions, starting from an initialised tree,
  the tree holds exactly the nodes of a sorted list maintained by insertion and removal, in the same
  order; and \<^verbatim>\<open>AvlFind\<close> always returns, with a node of the weight asked for when there is one and with
  \<^verbatim>\<open>NULL\<close> otherwise.\<close>

theorem avl_equals_sorted_list:
  assumes "list_run (dom s) cs ([], wgt s) = Some (ys, wt)"
  shows "\<exists>tree' s' t p. avl_run cs (AvlInit tree, s) = Some (tree', s') \<and>
     tree_at s' NULL t \<and> avl_Head tree' = rootp t \<and> inorder t = ys \<and> sorted (map wt ys) \<and>
     AvlFind weight tree' s' = Some p \<and>
     (case p of None \<Rightarrow> \<forall>a \<in> set ys. wt a \<noteq> weight | Some a \<Rightarrow> a \<in> set ys \<and> wt a = weight)"
proof -
  have "avl_ok (AvlInit tree) s []" by (simp add: avl_ok_def AvlInit_def)
  from avl_run_correct [OF this assms] obtain tree' s' where
    r: "avl_run cs (AvlInit tree, s) = Some (tree', s')" "avl_ok tree' s' ys" "wgt s' = wt" by blast
  from r(2) obtain t where t: "tree_at s' NULL t" "avl_Head tree' = rootp t" "inorder t = ys" "sorted (map wt ys)"
    by (auto simp: avl_ok_def r(3))
  then show ?thesis
    using r AvlFindLoop_correct [OF t(1), of weight] by (fastforce simp: AvlFind_def)
qed

definition avl_store0 :: wstore where
  "avl_store0 = (\<lambda>a. if a < 4 then Some \<lparr>wl_Left = NULL, wl_Right = NULL, wl_Parent = NULL, wl_Weight = 0\<rparr> else None)"

theorem avl_equals_sorted_list_witness:
  "\<exists>tree' s'. avl_run [Add 5 0, Add 3 1, Add 9 2, Add 5 3, Delete 0] (AvlInit \<lparr>avl_Head = NULL\<rparr>, avl_store0) = Some (tree', s') \<and>
     (\<exists>p. AvlFind 5 tree' s' = Some (Some p) \<and> p \<in> {1, 3, 2})"
proof -
  have "list_run (dom avl_store0) [Add 5 0, Add 3 1, Add 9 2, Add 5 3, Delete 0] ([], wgt avl_store0) =
      Some ([1, 3, 2], (wgt avl_store0)(0 := 5, 1 := 3, 2 := 9, 3 := 5))"
    by (simp add: avl_store0_def dom_def)
  from avl_equals_sorted_list [OF this, where weight = 5] show ?thesis
    by (fastforce split: option.splits)
qed

end
