(* ===== verification/Pipe.thy ===== *)
theory Pipe
  imports Locks RingBuffer "HOL-Library.Sublist"
begin

text \<open>
  Pipes (\<^verbatim>\<open>src/kernel/pipe.c\<close>) and sockets (\<^verbatim>\<open>src/kernel/socket.c\<close>). A pipe is a byte ring with five
  semaphores, and its operations can block their thread in several places. An operation is therefore
  cut into segments, each of which ends with one semaphore operation; a thread is at the beginning of
  a segment, and executes it as soon as it is not waiting for the semaphore of the one before. What a
  semaphore operation does to the semaphore is taken from theory Locks.
\<close>

section \<open>Operations\<close>

record PIPE =
  pi_Ring :: RING_BUFFER
  pi_Mutex :: SEMAPHORE
  pi_EmptyLock :: SEMAPHORE
  pi_FullLock :: SEMAPHORE
  pi_ReadLock :: SEMAPHORE
  pi_WriteLock :: SEMAPHORE

definition PipeInit :: "BYTE list \<Rightarrow> COUNT \<Rightarrow> PIPE \<Rightarrow> PIPE" where
  "PipeInit buff sz pipe =
     pipe\<lparr>pi_Mutex := SemaphoreInit (pi_Mutex pipe) 1,
       pi_EmptyLock := SemaphoreInit (pi_EmptyLock pipe) 0,
       pi_FullLock := SemaphoreInit (pi_FullLock pipe) 1,
       pi_ReadLock := SemaphoreInit (pi_ReadLock pipe) 1,
       pi_WriteLock := SemaphoreInit (pi_WriteLock pipe) 1,
       pi_Ring := RingBufferInit buff sz\<rparr>"

text \<open>
  The local variables of a call: what is asked for, and how much of it has been done. \<open>rf_Data\<close> are
  the bytes stored so far; a plain call makes one transfer, a call for a structure repeats it.
\<close>

record rframe =
  rf_Struct :: bool
  rf_Size :: COUNT
  rf_Read :: COUNT
  rf_Data :: "BYTE list"

record wframe =
  wf_Struct :: bool
  wf_Buff :: "BYTE list"
  wf_Size :: COUNT
  wf_Write :: COUNT

datatype pipe_pc = Idle
  | RLock rframe | REmpty rframe | RMutex rframe | RBody rframe
  | RFull rframe bool "BYTE list" bool | RData rframe "BYTE list" bool | RUnlock rframe
  | WLock wframe | WFull wframe | WMutex wframe | WBody wframe
  | WEmpty wframe bool COUNT bool | WSpace wframe COUNT bool | WUnlock wframe

definition PipeRead :: "COUNT \<Rightarrow> pipe_pc" where
  "PipeRead sz = RLock \<lparr>rf_Struct = False, rf_Size = sz, rf_Read = 0, rf_Data = []\<rparr>"

definition PipeReadStruct :: "COUNT \<Rightarrow> pipe_pc" where
  "PipeReadStruct sz = RLock \<lparr>rf_Struct = True, rf_Size = sz, rf_Read = 0, rf_Data = []\<rparr>"

definition PipeWrite :: "BYTE list \<Rightarrow> COUNT \<Rightarrow> pipe_pc" where
  "PipeWrite buff sz = WLock \<lparr>wf_Struct = False, wf_Buff = buff, wf_Size = sz, wf_Write = 0\<rparr>"

definition PipeWriteStruct :: "BYTE list \<Rightarrow> COUNT \<Rightarrow> pipe_pc" where
  "PipeWriteStruct buff sz = WLock \<lparr>wf_Struct = True, wf_Buff = buff, wf_Size = sz, wf_Write = 0\<rparr>"

text \<open>The loop condition of the calls for structures, before the first transfer and after one.\<close>

definition PipeReadFirst :: "rframe \<Rightarrow> pipe_pc" where
  "PipeReadFirst f = (if rf_Struct f \<and> \<not> rf_Read f < rf_Size f then RUnlock f else REmpty f)"

definition PipeReadNext :: "rframe \<Rightarrow> BYTE list \<Rightarrow> pipe_pc" where
  "PipeReadNext f bs =
     (let f = f\<lparr>rf_Read := rf_Read f + of_nat (length bs), rf_Data := rf_Data f @ bs\<rparr>
      in if rf_Struct f \<and> rf_Read f < rf_Size f then REmpty f else RUnlock f)"

definition PipeWriteFirst :: "wframe \<Rightarrow> pipe_pc" where
  "PipeWriteFirst f = (if wf_Struct f \<and> \<not> wf_Write f < wf_Size f then WUnlock f else WFull f)"

definition PipeWriteNext :: "wframe \<Rightarrow> COUNT \<Rightarrow> pipe_pc" where
  "PipeWriteNext f n =
     (let f = f\<lparr>wf_Write := wf_Write f + n\<rparr>
      in if wf_Struct f \<and> wf_Write f < wf_Size f then WFull f else WUnlock f)"

text \<open>The part of \<^verbatim>\<open>PipeReadInner\<close> between taking and releasing the mutex, and its counterpart.\<close>

definition PipeReadInner :: "COUNT \<Rightarrow> PIPE \<Rightarrow> (bool \<times> BYTE list \<times> bool \<times> PIPE) option" where
  "PipeReadInner sz pipe =
     do {
       let wasFull = RingBufferIsFull (pi_Ring pipe);
       ASSERT (wasFull \<longrightarrow> se_Count (pi_FullLock pipe) = 0);
       (bs, ring) \<leftarrow> RingBufferRead sz (pi_Ring pipe);
       let pipe = pipe\<lparr>pi_Ring := ring\<rparr>;
       ASSERT (0 < length bs);
       let dataLeft = (\<not> RingBufferIsEmpty (pi_Ring pipe));
       let pipe = pipe\<lparr>pi_Mutex := sem_up (pi_Mutex pipe)\<rparr>;
       Some (wasFull, bs, dataLeft, pipe)
     }"

definition PipeWriteInner :: "BYTE list \<Rightarrow> COUNT \<Rightarrow> PIPE \<Rightarrow> (bool \<times> COUNT \<times> bool \<times> PIPE) option" where
  "PipeWriteInner buff sz pipe =
     do {
       let wasEmpty = RingBufferIsEmpty (pi_Ring pipe);
       ASSERT (wasEmpty \<longrightarrow> se_Count (pi_EmptyLock pipe) = 0);
       (n, ring) \<leftarrow> RingBufferWrite buff sz (pi_Ring pipe);
       let pipe = pipe\<lparr>pi_Ring := ring\<rparr>;
       ASSERT (0 < n);
       let spaceLeft = (\<not> RingBufferIsFull (pi_Ring pipe));
       let pipe = pipe\<lparr>pi_Mutex := sem_up (pi_Mutex pipe)\<rparr>;
       Some (wasEmpty, n, spaceLeft, pipe)
     }"

text \<open>
  The segments of a call, in the order of the code. The last component of the result are the bytes
  the segment took out of the ring and those it put in, for the statements below.
\<close>

fun PipeStep :: "lctx \<Rightarrow> pipe_pc \<Rightarrow> PIPE \<Rightarrow> (pipe_pc \<times> PIPE \<times> BYTE list \<times> BYTE list) option" where
  "PipeStep c Idle pipe = None"
| "PipeStep c (RLock f) pipe =
     Some (PipeReadFirst f, pipe\<lparr>pi_ReadLock := sem_down c (pi_ReadLock pipe)\<rparr>, [], [])"
| "PipeStep c (REmpty f) pipe = Some (RMutex f, pipe\<lparr>pi_EmptyLock := sem_down c (pi_EmptyLock pipe)\<rparr>, [], [])"
| "PipeStep c (RMutex f) pipe = Some (RBody f, pipe\<lparr>pi_Mutex := sem_down c (pi_Mutex pipe)\<rparr>, [], [])"
| "PipeStep c (RBody f) pipe =
     do {
       (wasFull, bs, dataLeft, pipe) \<leftarrow> PipeReadInner (rf_Size f - rf_Read f) pipe;
       Some (RFull f wasFull bs dataLeft, pipe, bs, [])
     }"
| "PipeStep c (RFull f wasFull bs dataLeft) pipe =
     Some (RData f bs dataLeft,
       if wasFull \<and> 0 < length bs then pipe\<lparr>pi_FullLock := sem_up (pi_FullLock pipe)\<rparr> else pipe, [], [])"
| "PipeStep c (RData f bs dataLeft) pipe =
     Some (PipeReadNext f bs,
       if dataLeft then pipe\<lparr>pi_EmptyLock := sem_up (pi_EmptyLock pipe)\<rparr> else pipe, [], [])"
| "PipeStep c (RUnlock f) pipe =
     do {
       let pipe = pipe\<lparr>pi_ReadLock := sem_up (pi_ReadLock pipe)\<rparr>;
       ASSERT (rf_Struct f \<longrightarrow> rf_Read f = rf_Size f);
       Some (Idle, pipe, [], [])
     }"
| "PipeStep c (WLock f) pipe =
     Some (PipeWriteFirst f, pipe\<lparr>pi_WriteLock := sem_down c (pi_WriteLock pipe)\<rparr>, [], [])"
| "PipeStep c (WFull f) pipe = Some (WMutex f, pipe\<lparr>pi_FullLock := sem_down c (pi_FullLock pipe)\<rparr>, [], [])"
| "PipeStep c (WMutex f) pipe = Some (WBody f, pipe\<lparr>pi_Mutex := sem_down c (pi_Mutex pipe)\<rparr>, [], [])"
| "PipeStep c (WBody f) pipe =
     do {
       (wasEmpty, n, spaceLeft, pipe) \<leftarrow>
         PipeWriteInner (drop (unat (wf_Write f)) (wf_Buff f)) (wf_Size f - wf_Write f) pipe;
       Some (WEmpty f wasEmpty n spaceLeft, pipe, [], take (unat n) (drop (unat (wf_Write f)) (wf_Buff f)))
     }"
| "PipeStep c (WEmpty f wasEmpty n spaceLeft) pipe =
     Some (WSpace f n spaceLeft,
       if wasEmpty \<and> 0 < n then pipe\<lparr>pi_EmptyLock := sem_up (pi_EmptyLock pipe)\<rparr> else pipe, [], [])"
| "PipeStep c (WSpace f n spaceLeft) pipe =
     Some (PipeWriteNext f n,
       if spaceLeft then pipe\<lparr>pi_FullLock := sem_up (pi_FullLock pipe)\<rparr> else pipe, [], [])"
| "PipeStep c (WUnlock f) pipe =
     do {
       let pipe = pipe\<lparr>pi_WriteLock := sem_up (pi_WriteLock pipe)\<rparr>;
       ASSERT (wf_Struct f \<longrightarrow> wf_Write f = wf_Size f);
       Some (Idle, pipe, [], [])
     }"

section \<open>Sockets\<close>

text \<open>A socket is two pipes; a handle reads from one and writes to the other.\<close>

datatype pipe_name = Pipe1 | Pipe2

record SOCKET =
  so_Pipe :: "pipe_name \<Rightarrow> PIPE"

record SOCKET_HANDLE =
  sh_Read :: pipe_name
  sh_Write :: pipe_name

definition SocketInit ::
    "BYTE list \<Rightarrow> COUNT \<Rightarrow> BYTE list \<Rightarrow> COUNT \<Rightarrow> SOCKET \<Rightarrow> SOCKET \<times> SOCKET_HANDLE \<times> SOCKET_HANDLE" where
  "SocketInit buff1 buff1_size buff2 buff2_size socket =
     (let socket = socket\<lparr>so_Pipe := (so_Pipe socket)(Pipe1 := PipeInit buff1 buff1_size (so_Pipe socket Pipe1))\<rparr>;
          socket = socket\<lparr>so_Pipe := (so_Pipe socket)(Pipe2 := PipeInit buff2 buff2_size (so_Pipe socket Pipe2))\<rparr>
      in (socket, \<lparr>sh_Read = Pipe1, sh_Write = Pipe2\<rparr>, \<lparr>sh_Read = Pipe2, sh_Write = Pipe1\<rparr>))"

text \<open>A call on a socket is a call on one of its pipes.\<close>

definition SocketReadChars :: "COUNT \<Rightarrow> SOCKET_HANDLE \<Rightarrow> pipe_name \<times> pipe_pc" where
  "SocketReadChars sz h = (sh_Read h, PipeRead sz)"

definition SocketReadStruct :: "COUNT \<Rightarrow> SOCKET_HANDLE \<Rightarrow> pipe_name \<times> pipe_pc" where
  "SocketReadStruct sz h = (sh_Read h, PipeReadStruct sz)"

definition SocketWriteChars :: "BYTE list \<Rightarrow> COUNT \<Rightarrow> SOCKET_HANDLE \<Rightarrow> pipe_name \<times> pipe_pc" where
  "SocketWriteChars buff sz h = (sh_Write h, PipeWrite buff sz)"

definition SocketWriteStruct :: "BYTE list \<Rightarrow> COUNT \<Rightarrow> SOCKET_HANDLE \<Rightarrow> pipe_name \<times> pipe_pc" where
  "SocketWriteStruct buff sz h = (sh_Write h, PipeWriteStruct buff sz)"

text \<open>What one handle writes the other one reads, and nobody else.\<close>

lemma socket_wiring:
  assumes "SocketInit buff1 n1 buff2 n2 socket = (socket', h1, h2)"
  shows "fst (SocketWriteChars b n h1) = fst (SocketReadChars m h2)" and "fst (SocketWriteChars b n h2) = fst (SocketReadChars m h1)"
    and "fst (SocketReadChars m h1) \<noteq> fst (SocketReadChars m h2)"
    and "fst (SocketWriteStruct b n h) = fst (SocketWriteChars b n h)" and "fst (SocketReadStruct m h) = fst (SocketReadChars m h)"
    and "so_Pipe socket' Pipe1 = PipeInit buff1 n1 (so_Pipe socket Pipe1)" and "so_Pipe socket' Pipe2 = PipeInit buff2 n2 (so_Pipe socket Pipe2)"
  using assms by (auto simp: SocketInit_def SocketWriteChars_def SocketReadChars_def SocketWriteStruct_def
      SocketReadStruct_def Let_def)

section \<open>Runs\<close>

record pipe_state =
  ps_Pipe :: PIPE
  ps_Pc :: "addr \<Rightarrow> pipe_pc"
  ps_Got :: "BYTE list"
  ps_Put :: "BYTE list"

definition waits :: "addr \<Rightarrow> PIPE \<Rightarrow> bool" where
  "waits t p \<longleftrightarrow> (\<exists>l \<in> {pi_Mutex p, pi_EmptyLock p, pi_FullLock p, pi_ReadLock p, pi_WriteLock p}.
     ThreadContext t \<in> set (se_WaitingThreads l))"

text \<open>The calls users may make: a plain call asks for at least one byte, and sizes do not overflow.\<close>

definition call_ok :: "pipe_pc \<Rightarrow> bool" where
  "call_ok pc \<longleftrightarrow> (\<exists>n. pc = PipeRead n \<and> 0 < n \<and> unat n < 2 ^ 62) \<or> (\<exists>n. pc = PipeReadStruct n \<and> unat n < 2 ^ 62) \<or>
     (\<exists>b n. pc = PipeWrite b n \<and> 0 < n \<and> unat n \<le> length b \<and> length b < 2 ^ 62) \<or>
     (\<exists>b n. pc = PipeWriteStruct b n \<and> unat n \<le> length b \<and> length b < 2 ^ 62)"

inductive pipe_run :: "BYTE list \<Rightarrow> pipe_state \<Rightarrow> bool" for buff where
  pipe_start: "pipe_run buff \<lparr>ps_Pipe = PipeInit buff (of_nat (length buff)) p, ps_Pc = (\<lambda>_. Idle), ps_Got = [], ps_Put = []\<rparr>"
| pipe_call: "pipe_run buff st \<Longrightarrow> ps_Pc st t = Idle \<Longrightarrow> call_ok pc \<Longrightarrow> pipe_run buff (st\<lparr>ps_Pc := (ps_Pc st)(t := pc)\<rparr>)"
| pipe_step: "pipe_run buff st \<Longrightarrow> \<not> waits t (ps_Pipe st) \<Longrightarrow>
     PipeStep (ThreadContext t) (ps_Pc st t) (ps_Pipe st) = Some (pc, p, got, put) \<Longrightarrow>
     pipe_run buff \<lparr>ps_Pipe = p, ps_Pc = (ps_Pc st)(t := pc), ps_Got = ps_Got st @ got, ps_Put = ps_Put st @ put\<rparr>"

section \<open>Permits of a semaphore\<close>

text \<open>
  \<open>U\<close> are the threads that have asked for a permit and not given it back, \<open>A\<close> those of them that may
  still be waiting for it, \<open>n\<close> is the number of permits in circulation.
\<close>

definition parked :: "SEMAPHORE \<Rightarrow> addr \<Rightarrow> bool" where
  "parked lock t \<longleftrightarrow> ThreadContext t \<in> set (se_WaitingThreads lock)"

definition sem_inv :: "SEMAPHORE \<Rightarrow> addr set \<Rightarrow> addr set \<Rightarrow> nat \<Rightarrow> bool" where
  "sem_inv lock U A n \<longleftrightarrow> finite U \<and> A \<subseteq> U \<and> n \<le> 1 \<and>
     (\<exists>ws. se_WaitingThreads lock = map ThreadContext ws \<and> distinct ws \<and> set ws \<subseteq> A \<and>
        (ws \<noteq> [] \<longrightarrow> se_Count lock = 0) \<and> unat (se_Count lock) + card U = length ws + n)"

lemma sem_invE:
  assumes "sem_inv lock U A n"
  obtains ws where "se_WaitingThreads lock = map ThreadContext ws" and "distinct ws" and "set ws \<subseteq> A" and "A \<subseteq> U"
    and "finite U" and "ws \<noteq> [] \<Longrightarrow> se_Count lock = 0" and "unat (se_Count lock) + card U = length ws + n"
    and "\<And>t. parked lock t \<longleftrightarrow> t \<in> set ws" and "n \<le> 1"
  using assms by (auto simp: sem_inv_def parked_def)

lemma sem_inv_down:
  assumes "sem_inv lock U A n" and "t \<notin> U"
  shows "sem_inv (sem_down (ThreadContext t) lock) (insert t U) (insert t A) n"
proof -
  obtain ws where ws: "se_WaitingThreads lock = map ThreadContext ws" "distinct ws" "set ws \<subseteq> A" "A \<subseteq> U" "finite U"
      "ws \<noteq> [] \<Longrightarrow> se_Count lock = 0" "unat (se_Count lock) + card U = length ws + n" "n \<le> 1"
    using sem_invE [OF assms(1)] by metis
  show ?thesis
  proof (cases "se_Count lock = 0")
    case True
    have "distinct (ws @ [t])" using ws assms(2) by auto
    then show ?thesis using True ws assms(2) unfolding sem_inv_def
      by (intro conjI exI [of _ "ws @ [t]"]) (auto simp: sem_down_def)
  next
    case False
    then have "unat (se_Count lock - 1) + 1 = unat (se_Count lock)"
      by (simp add: unat_pred_word unat_gt_0)
    then show ?thesis using False ws assms(2) unfolding sem_inv_def
      by (intro conjI exI [of _ ws]) (auto simp: sem_down_def)
  qed
qed

lemma sem_inv_up:
  assumes "sem_inv lock U A n" and "t \<in> U" and "\<not> parked lock t"
  shows "sem_inv (sem_up lock) (U - {t}) (A - {t}) n"
proof -
  obtain ws where ws: "se_WaitingThreads lock = map ThreadContext ws" "distinct ws" "set ws \<subseteq> A" "A \<subseteq> U" "finite U"
      "ws \<noteq> [] \<Longrightarrow> se_Count lock = 0" "unat (se_Count lock) + card U = length ws + n" "n \<le> 1" "t \<notin> set ws"
    using sem_invE [OF assms(1)] assms(3) by metis
  have c: "card (U - {t}) + 1 = card U" using card_Suc_Diff1 [OF ws(5) assms(2)] by simp
  show ?thesis
  proof (cases ws)
    case Nil
    then have "unat (se_Count lock) < 1" using ws(7,8) c by simp
    then have "unat (se_Count lock + 1) = unat (se_Count lock) + 1" by (intro unat_Suc_word) simp
    then show ?thesis using Nil ws c unfolding sem_inv_def
      by (intro conjI exI [of _ "[]"]) (auto simp: sem_up_def)
  next
    case (Cons a as)
    then show ?thesis using ws c unfolding sem_inv_def
      by (intro conjI exI [of _ as]) (auto simp: sem_up_def)
  qed
qed

text \<open>A permit that is created or destroyed by its holder, and a thread that is known to have its permit.\<close>

lemma sem_inv_create: "sem_inv lock U A 0 \<Longrightarrow> t \<notin> U \<Longrightarrow> sem_inv lock (insert t U) A 1"
  by (auto simp: sem_inv_def)

lemma sem_inv_holds:
  assumes "sem_inv lock U A n" and "\<not> parked lock t"
  shows "sem_inv lock U (A - {t}) n"
  using assms by (fastforce simp: sem_inv_def parked_def)

lemma sem_inv_destroy:
  assumes "sem_inv lock U A 1" and "t \<in> U" and "\<not> parked lock t"
  shows "sem_inv lock (U - {t}) (A - {t}) 0"
proof -
  obtain ws where ws: "se_WaitingThreads lock = map ThreadContext ws" "distinct ws" "set ws \<subseteq> A" "A \<subseteq> U" "finite U"
      "ws \<noteq> [] \<Longrightarrow> se_Count lock = 0" "unat (se_Count lock) + card U = length ws + 1" "t \<notin> set ws"
    using sem_invE [OF assms(1)] assms(3) by metis
  have "card (U - {t}) + 1 = card U" using card_Suc_Diff1 [OF ws(5) assms(2)] by simp
  then show ?thesis using ws unfolding sem_inv_def by (intro conjI exI [of _ ws]) auto
qed

lemma sem_inv_waiters: "sem_inv lock U A n \<Longrightarrow> parked lock t \<Longrightarrow> t \<in> A \<and> A \<subseteq> U"
  by (auto simp: sem_inv_def parked_def)

text \<open>There is a permit if someone has it, only one thread can have it, and none is left then.\<close>

lemma sem_inv_holder:
  assumes "sem_inv lock U A n" and "t \<in> U" and "\<not> parked lock t"
  shows "n = 1" and "\<And>t'. t' \<in> U \<Longrightarrow> \<not> parked lock t' \<Longrightarrow> t' = t"
proof -
  obtain ws where ws: "distinct ws" "set ws \<subseteq> U" "finite U" "unat (se_Count lock) + card U = length ws + n" "n \<le> 1"
      "\<And>t. parked lock t \<longleftrightarrow> t \<in> set ws"
    using sem_invE [OF assms(1)] by (metis subset_trans)
  have "card (insert t (set ws)) \<le> card U" using ws assms by (intro card_mono) auto
  moreover have "card (insert t (set ws)) = length ws + 1" using ws assms(3) by (simp add: distinct_card)
  ultimately show n: "n = 1" using ws(4,5) by simp
  fix t' assume t': "t' \<in> U" "\<not> parked lock t'"
  show "t' = t"
  proof (rule ccontr)
    assume "t' \<noteq> t"
    then have "card (insert t' (insert t (set ws))) = length ws + 2"
      using ws assms(3) t' by (simp add: distinct_card)
    moreover have "card (insert t' (insert t (set ws))) \<le> card U" using ws assms t' by (intro card_mono) auto
    ultimately show False using ws(4) n by simp
  qed
qed

lemma sem_inv_none:
  assumes a: "sem_inv lock U A 0"
  shows "se_Count lock = 0"
proof -
  obtain ws where ws: "distinct ws" "set ws \<subseteq> U" "finite U" "unat (se_Count lock) + card U = length ws + 0"
    using sem_invE [OF a] by (metis subset_trans)
  have "card (set ws) \<le> card U" using ws by (intro card_mono) auto
  then have "unat (se_Count lock) = 0" using ws by (simp add: distinct_card)
  then show ?thesis by (simp add: unat_eq_0)
qed

text \<open>If everyone who asked is waiting, there is no permit.\<close>

lemma sem_inv_stuck:
  assumes "sem_inv lock U A n" and "\<And>t. t \<in> U \<Longrightarrow> parked lock t" and "U \<noteq> {}"
  shows "n = 0"
proof -
  obtain ws where ws: "distinct ws" "set ws \<subseteq> U" "ws \<noteq> [] \<Longrightarrow> se_Count lock = 0"
      "unat (se_Count lock) + card U = length ws + n" "\<And>t. parked lock t \<longleftrightarrow> t \<in> set ws"
    using sem_invE [OF assms(1)] by (metis subset_trans)
  then have "U = set ws" using assms(2) by blast
  then show ?thesis using ws assms(3) by (auto simp: distinct_card)
qed

section \<open>The invariant of a pipe\<close>

text \<open>The segments in which a thread has asked for the permit of a semaphore and not given it back, and
  those in which it may be waiting for it.\<close>

fun mutex_user :: "pipe_pc \<Rightarrow> bool" where
  "mutex_user (RBody f) = True"
| "mutex_user (WBody f) = True"
| "mutex_user pc = False"

fun empty_user :: "pipe_pc \<Rightarrow> bool" where
  "empty_user (RMutex f) = True"
| "empty_user (RBody f) = True"
| "empty_user (RFull f wasFull bs dataLeft) = dataLeft"
| "empty_user (RData f bs dataLeft) = dataLeft"
| "empty_user (WEmpty f wasEmpty n spaceLeft) = wasEmpty"
| "empty_user pc = False"

fun empty_may :: "pipe_pc \<Rightarrow> bool" where
  "empty_may (RMutex f) = True"
| "empty_may pc = False"

fun full_user :: "pipe_pc \<Rightarrow> bool" where
  "full_user (WMutex f) = True"
| "full_user (WBody f) = True"
| "full_user (WEmpty f wasEmpty n spaceLeft) = spaceLeft"
| "full_user (WSpace f n spaceLeft) = spaceLeft"
| "full_user (RFull f wasFull bs dataLeft) = wasFull"
| "full_user pc = False"

fun full_may :: "pipe_pc \<Rightarrow> bool" where
  "full_may (WMutex f) = True"
| "full_may pc = False"

fun data_of :: "pipe_pc \<Rightarrow> BYTE list" where
  "data_of (REmpty f) = rf_Data f"
| "data_of (RMutex f) = rf_Data f"
| "data_of (RBody f) = rf_Data f"
| "data_of (RFull f wasFull bs dataLeft) = rf_Data f @ bs"
| "data_of (RData f bs dataLeft) = rf_Data f @ bs"
| "data_of (RUnlock f) = rf_Data f"
| "data_of pc = []"

fun sent_of :: "pipe_pc \<Rightarrow> BYTE list" where
  "sent_of (WFull f) = take (unat (wf_Write f)) (wf_Buff f)"
| "sent_of (WMutex f) = take (unat (wf_Write f)) (wf_Buff f)"
| "sent_of (WBody f) = take (unat (wf_Write f)) (wf_Buff f)"
| "sent_of (WEmpty f wasEmpty n spaceLeft) = take (unat (wf_Write f) + unat n) (wf_Buff f)"
| "sent_of (WSpace f n spaceLeft) = take (unat (wf_Write f) + unat n) (wf_Buff f)"
| "sent_of (WUnlock f) = take (unat (wf_Write f)) (wf_Buff f)"
| "sent_of pc = []"

fun read_user :: "pipe_pc \<Rightarrow> bool" where
  "read_user (REmpty f) = True"
| "read_user (RMutex f) = True"
| "read_user (RBody f) = True"
| "read_user (RFull f wasFull bs dataLeft) = True"
| "read_user (RData f bs dataLeft) = True"
| "read_user (RUnlock f) = True"
| "read_user pc = False"

fun read_may :: "pipe_pc \<Rightarrow> bool" where
  "read_may (REmpty f) = (rf_Data f = [])"
| "read_may (RUnlock f) = (rf_Data f = [])"
| "read_may pc = False"

fun write_user :: "pipe_pc \<Rightarrow> bool" where
  "write_user (WFull f) = True"
| "write_user (WMutex f) = True"
| "write_user (WBody f) = True"
| "write_user (WEmpty f wasEmpty n spaceLeft) = True"
| "write_user (WSpace f n spaceLeft) = True"
| "write_user (WUnlock f) = True"
| "write_user pc = False"

fun write_may :: "pipe_pc \<Rightarrow> bool" where
  "write_may (WFull f) = (wf_Write f = 0)"
| "write_may (WUnlock f) = (wf_Write f = 0)"
| "write_may pc = False"

definition rframe_ok :: "rframe \<Rightarrow> bool" where
  "rframe_ok f \<longleftrightarrow> length (rf_Data f) = unat (rf_Read f) \<and> rf_Read f \<le> rf_Size f \<and> unat (rf_Size f) < 2 ^ 62"

definition wframe_ok :: "wframe \<Rightarrow> bool" where
  "wframe_ok f \<longleftrightarrow> wf_Write f \<le> wf_Size f \<and> unat (wf_Size f) \<le> length (wf_Buff f) \<and> length (wf_Buff f) < 2 ^ 62"

fun pc_ok :: "pipe_pc \<Rightarrow> bool" where
  "pc_ok Idle = True"
| "pc_ok (RLock f) = (rframe_ok f \<and> rf_Data f = [] \<and> (rf_Struct f \<or> 0 < rf_Size f))"
| "pc_ok (REmpty f) = (rframe_ok f \<and> rf_Read f < rf_Size f)"
| "pc_ok (RMutex f) = (rframe_ok f \<and> rf_Read f < rf_Size f)"
| "pc_ok (RBody f) = (rframe_ok f \<and> rf_Read f < rf_Size f)"
| "pc_ok (RFull f wasFull bs dataLeft) = (rframe_ok f \<and> bs \<noteq> [] \<and> unat (rf_Read f) + length bs \<le> unat (rf_Size f))"
| "pc_ok (RData f bs dataLeft) = (rframe_ok f \<and> bs \<noteq> [] \<and> unat (rf_Read f) + length bs \<le> unat (rf_Size f))"
| "pc_ok (RUnlock f) = (rframe_ok f \<and> (rf_Struct f \<longrightarrow> rf_Read f = rf_Size f))"
| "pc_ok (WLock f) = (wframe_ok f \<and> wf_Write f = 0 \<and> (wf_Struct f \<or> 0 < wf_Size f))"
| "pc_ok (WFull f) = (wframe_ok f \<and> wf_Write f < wf_Size f)"
| "pc_ok (WMutex f) = (wframe_ok f \<and> wf_Write f < wf_Size f)"
| "pc_ok (WBody f) = (wframe_ok f \<and> wf_Write f < wf_Size f)"
| "pc_ok (WEmpty f wasEmpty n spaceLeft) = (wframe_ok f \<and> 0 < n \<and> unat (wf_Write f) + unat n \<le> unat (wf_Size f))"
| "pc_ok (WSpace f n spaceLeft) = (wframe_ok f \<and> 0 < n \<and> unat (wf_Write f) + unat n \<le> unat (wf_Size f))"
| "pc_ok (WUnlock f) = (wframe_ok f \<and> (wf_Struct f \<longrightarrow> wf_Write f = wf_Size f))"

definition lock_inv :: "SEMAPHORE \<Rightarrow> (pipe_pc \<Rightarrow> bool) \<Rightarrow> (pipe_pc \<Rightarrow> bool) \<Rightarrow> (addr \<Rightarrow> pipe_pc) \<Rightarrow> nat \<Rightarrow> bool" where
  "lock_inv lock user may pcs n = sem_inv lock {t. user (pcs t)} {t. may (pcs t)} n"

text \<open>One permit of the mutex and of the locks of readers and writers; one for readers while the ring has
  data, one for writers while it has room.\<close>

definition permits :: "bool \<Rightarrow> nat" where
  "permits none = (if none then 0 else 1)"

definition locks_ok :: "PIPE \<Rightarrow> (addr \<Rightarrow> pipe_pc) \<Rightarrow> bool" where
  "locks_ok p pcs \<longleftrightarrow> lock_inv (pi_Mutex p) mutex_user mutex_user pcs (permits False) \<and>
     lock_inv (pi_EmptyLock p) empty_user empty_may pcs (permits (RingBufferIsEmpty (pi_Ring p))) \<and>
     lock_inv (pi_FullLock p) full_user full_may pcs (permits (RingBufferIsFull (pi_Ring p))) \<and>
     lock_inv (pi_ReadLock p) read_user read_may pcs (permits False) \<and> lock_inv (pi_WriteLock p) write_user write_may pcs (permits False)"

definition stream_ok :: "pipe_state \<Rightarrow> bool" where
  "stream_ok st \<longleftrightarrow> ps_Put st = ps_Got st @ contents (pi_Ring (ps_Pipe st)) \<and>
     (\<forall>t. suffix (data_of (ps_Pc st t)) (ps_Got st)) \<and> (\<forall>t. suffix (sent_of (ps_Pc st t)) (ps_Put st))"

definition pipe_inv :: "BYTE list \<Rightarrow> pipe_state \<Rightarrow> bool" where
  "pipe_inv buff st \<longleftrightarrow> ring_ok (pi_Ring (ps_Pipe st)) \<and> unat (rb_Size (pi_Ring (ps_Pipe st))) = length buff \<and>
     (\<forall>t. pc_ok (ps_Pc st t)) \<and> locks_ok (ps_Pipe st) (ps_Pc st) \<and> stream_ok st"

lemma stream_okD:
  assumes "stream_ok st"
  shows "suffix (data_of (ps_Pc st t)) (ps_Got st)" and "suffix (sent_of (ps_Pc st t)) (ps_Put st)"
  using assms unfolding stream_ok_def by blast+

lemma at_upd:
  "{x. P ((pcs(t := q)) x)} = (if P q then insert t {x. P (pcs x)} else {x. P (pcs x)} - {t})"
  by auto

lemma lock_keep:
  assumes "lock_inv lock user may pcs n" and "\<not> parked lock t" and "user q = user (pcs t)" and "may q \<Longrightarrow> may (pcs t)"
  shows "lock_inv lock user may (pcs(t := q)) n"
proof -
  have u: "{x. user ((pcs(t := q)) x)} = {x. user (pcs x)}" using assms(3) by auto
  have "{x. may ((pcs(t := q)) x)} = {x. may (pcs x)} - (if may q then {} else {t})" using assms(4) by auto
  then show ?thesis
    using assms(1) sem_inv_holds [OF _ assms(2)] unfolding lock_inv_def u by (cases "may q") auto
qed

lemma lock_down:
  assumes "lock_inv lock user may pcs n" and "\<not> user (pcs t)" and "user q" and "may q"
  shows "lock_inv (sem_down (ThreadContext t) lock) user may (pcs(t := q)) n"
  using sem_inv_down [of lock "{t. user (pcs t)}" "{t. may (pcs t)}" n t] assms
  by (simp add: lock_inv_def at_upd permits_def del: fun_upd_apply)

lemma lock_up:
  assumes "lock_inv lock user may pcs n" and "\<not> parked lock t" and "user (pcs t)" and "\<not> user q" and "\<not> may q"
  shows "lock_inv (sem_up lock) user may (pcs(t := q)) n"
  using sem_inv_up [of lock "{t. user (pcs t)}" "{t. may (pcs t)}" n t] assms
  by (simp add: lock_inv_def at_upd permits_def del: fun_upd_apply)

lemma lock_create:
  assumes "lock_inv lock user may pcs (permits True)" and "\<not> parked lock t" and "\<not> user (pcs t)" and "user q" and "\<not> may q"
  shows "lock_inv lock user may (pcs(t := q)) (permits False)"
  using sem_inv_holds [OF sem_inv_create [of lock "{t. user (pcs t)}" "{t. may (pcs t)}" t] assms(2)] assms
  by (simp add: lock_inv_def at_upd permits_def del: fun_upd_apply)

lemma lock_destroy:
  assumes "lock_inv lock user may pcs (permits False)" and "\<not> parked lock t" and "user (pcs t)" and "\<not> user q" and "\<not> may q"
  shows "lock_inv lock user may (pcs(t := q)) (permits True)"
  using sem_inv_destroy [of lock "{t. user (pcs t)}" "{t. may (pcs t)}" t] assms
  by (simp add: lock_inv_def at_upd permits_def del: fun_upd_apply)

lemma lock_holder:
  assumes "lock_inv lock user may pcs n" and "user (pcs t)" and "\<not> parked lock t"
  shows "n = 1" and "\<And>t'. user (pcs t') \<Longrightarrow> \<not> parked lock t' \<Longrightarrow> t' = t"
  using sem_inv_holder [of lock "{t. user (pcs t)}" "{t. may (pcs t)}" n t] assms by (auto simp: lock_inv_def)

lemma lock_parked: "lock_inv lock user may pcs n \<Longrightarrow> parked lock t \<Longrightarrow> may (pcs t) \<and> user (pcs t)"
  using sem_inv_waiters [of lock "{t. user (pcs t)}" "{t. may (pcs t)}" n t] by (auto simp: lock_inv_def)

lemma lock_stuck:
  assumes "lock_inv lock user may pcs n" and "\<And>t. user (pcs t) \<Longrightarrow> parked lock t" and "user (pcs t)"
  shows "n = 0"
  using sem_inv_stuck [of lock "{t. user (pcs t)}" "{t. may (pcs t)}" n] assms by (auto simp: lock_inv_def)

lemma not_waits: "\<not> waits t p \<longleftrightarrow> \<not> parked (pi_Mutex p) t \<and> \<not> parked (pi_EmptyLock p) t \<and> \<not> parked (pi_FullLock p) t \<and>
    \<not> parked (pi_ReadLock p) t \<and> \<not> parked (pi_WriteLock p) t"
  by (auto simp: waits_def parked_def)

lemma locks_okD:
  assumes "locks_ok p pcs"
  shows "lock_inv (pi_Mutex p) mutex_user mutex_user pcs (permits False)"
    "lock_inv (pi_EmptyLock p) empty_user empty_may pcs (permits (RingBufferIsEmpty (pi_Ring p)))"
    "lock_inv (pi_FullLock p) full_user full_may pcs (permits (RingBufferIsFull (pi_Ring p)))"
    "lock_inv (pi_ReadLock p) read_user read_may pcs (permits False)" "lock_inv (pi_WriteLock p) write_user write_may pcs (permits False)"
  using assms by (auto simp: locks_ok_def)

text \<open>A segment that does not touch the ring.\<close>

definition moved :: "pipe_state \<Rightarrow> addr \<Rightarrow> pipe_pc \<Rightarrow> PIPE \<Rightarrow> BYTE list \<Rightarrow> BYTE list \<Rightarrow> pipe_state" where
  "moved st t pc p got put = \<lparr>ps_Pipe = p, ps_Pc = (ps_Pc st)(t := pc), ps_Got = ps_Got st @ got, ps_Put = ps_Put st @ put\<rparr>"

lemma quiet_step:
  assumes "pipe_inv buff st" and "pi_Ring p = pi_Ring (ps_Pipe st)" and "pc_ok pc"
    and "data_of pc = data_of (ps_Pc st t) \<or> data_of pc = []" and "sent_of pc = sent_of (ps_Pc st t) \<or> sent_of pc = []"
    and "locks_ok p ((ps_Pc st)(t := pc))"
  shows "pipe_inv buff (moved st t pc p [] [])"
  using assms by (auto simp: pipe_inv_def stream_ok_def moved_def)

lemma PipeReadNext_ok:
  assumes "pc_ok (RData f bs dataLeft)"
  shows "\<exists>f'. PipeReadNext f bs \<in> {REmpty f', RUnlock f'} \<and> pc_ok (PipeReadNext f bs) \<and>
     rf_Data f' = rf_Data f @ bs \<and> rf_Data f' \<noteq> []"
proof -
  let ?f = "f\<lparr>rf_Read := rf_Read f + of_nat (length bs), rf_Data := rf_Data f @ bs\<rparr>"
  have a: "length (rf_Data f) = unat (rf_Read f)" "unat (rf_Size f) < 2 ^ 62" "bs \<noteq> []"
      "unat (rf_Read f) + length bs \<le> unat (rf_Size f)"
    using assms by (auto simp: rframe_ok_def)
  then have n: "unat (of_nat (length bs) :: COUNT) = length bs" by (simp add: unat_of_nat)
  then have u: "unat (rf_Read ?f) = unat (rf_Read f) + length bs"
    using a by (simp add: unat_word_ariths)
  then have "rframe_ok ?f" using a by (simp add: rframe_ok_def word_le_nat_alt)
  moreover have "\<not> rf_Read ?f < rf_Size ?f \<longrightarrow> rf_Read ?f = rf_Size ?f"
    using u a by (simp add: word_less_nat_alt word_unat_eq_iff)
  ultimately show ?thesis using a(3) by (intro exI [of _ ?f]) (auto simp: PipeReadNext_def Let_def)
qed

lemma PipeWriteNext_ok:
  assumes "pc_ok (WSpace f n spaceLeft)"
  shows "\<exists>f'. PipeWriteNext f n \<in> {WFull f', WUnlock f'} \<and> pc_ok (PipeWriteNext f n) \<and>
     wf_Buff f' = wf_Buff f \<and> unat (wf_Write f') = unat (wf_Write f) + unat n \<and> wf_Write f' \<noteq> 0"
proof -
  let ?f = "f\<lparr>wf_Write := wf_Write f + n\<rparr>"
  have a: "unat (wf_Size f) \<le> length (wf_Buff f)" "length (wf_Buff f) < 2 ^ 62" "0 < unat n"
      "unat (wf_Write f) + unat n \<le> unat (wf_Size f)"
    using assms by (auto simp: wframe_ok_def word_less_nat_alt)
  then have u: "unat (wf_Write ?f) = unat (wf_Write f) + unat n" by (simp add: unat_word_ariths)
  then have "wframe_ok ?f" using a by (simp add: wframe_ok_def word_le_nat_alt)
  moreover have "\<not> wf_Write ?f < wf_Size ?f \<longrightarrow> wf_Write ?f = wf_Size ?f"
    using u a by (simp add: word_less_nat_alt word_unat_eq_iff)
  moreover have "wf_Write ?f \<noteq> 0" using u a(3) by (metis add_gr_0 less_irrefl unat_0)
  ultimately show ?thesis using u by (intro exI [of _ ?f]) (auto simp: PipeWriteNext_def Let_def)
qed

lemma quiet_segments:
  assumes inv: "pipe_inv buff st" and run: "\<not> waits t (ps_Pipe st)"
    and pc: "ps_Pc st t \<notin> {Idle}" "\<And>f. ps_Pc st t \<noteq> RBody f" "\<And>f. ps_Pc st t \<noteq> WBody f"
  shows "\<exists>pc p. PipeStep (ThreadContext t) (ps_Pc st t) (ps_Pipe st) = Some (pc, p, [], []) \<and>
     pipe_inv buff (moved st t pc p [] [])"
proof -
  let ?p = "ps_Pipe st" and ?pcs = "ps_Pc st"
  have ok: "pc_ok (?pcs t)" and locks: "locks_ok ?p ?pcs" using inv by (auto simp: pipe_inv_def)
  note np = run [unfolded not_waits]
  note L = locks_okD [OF locks]
  note K = lock_keep [OF L(1)] lock_keep [OF L(2)] lock_keep [OF L(3)] lock_keep [OF L(4)] lock_keep [OF L(5)]
  note D = lock_down [OF L(1)] lock_down [OF L(2)] lock_down [OF L(3)] lock_down [OF L(4)] lock_down [OF L(5)]
  note U = lock_up [OF L(1)] lock_up [OF L(2)] lock_up [OF L(3)] lock_up [OF L(4)] lock_up [OF L(5)]
  show ?thesis
  proof (cases "?pcs t")
    case (RLock f)
    then have "rf_Struct f \<and> \<not> rf_Read f < rf_Size f \<longrightarrow> rf_Read f = rf_Size f" using ok by (auto simp: rframe_ok_def)
    moreover have "\<not> (rf_Struct f \<and> \<not> rf_Read f < rf_Size f) \<longrightarrow> rf_Read f < rf_Size f"
      using ok RLock by (auto simp: rframe_ok_def word_less_nat_alt)
    ultimately show ?thesis
      using RLock ok np by (auto intro!: quiet_step [OF inv] K D simp: locks_ok_def PipeReadFirst_def)
  next
    case (REmpty f)
    then show ?thesis using ok np by (auto intro!: quiet_step [OF inv] K D simp: locks_ok_def)
  next
    case (RMutex f)
    then show ?thesis using ok np by (auto intro!: quiet_step [OF inv] K D simp: locks_ok_def)
  next
    case (RFull f wasFull bs dataLeft)
    then show ?thesis using ok np by (cases wasFull) (auto intro!: quiet_step [OF inv] K U simp: locks_ok_def)
  next
    case (RUnlock f)
    then show ?thesis using ok np by (auto intro!: quiet_step [OF inv] K U simp: locks_ok_def)
  next
    case (WFull f)
    then show ?thesis using ok np by (auto intro!: quiet_step [OF inv] K D simp: locks_ok_def)
  next
    case (WMutex f)
    then show ?thesis using ok np by (auto intro!: quiet_step [OF inv] K D simp: locks_ok_def)
  next
    case (WEmpty f wasEmpty n spaceLeft)
    then show ?thesis using ok np by (cases wasEmpty) (auto intro!: quiet_step [OF inv] K U simp: locks_ok_def)
  next
    case (WUnlock f)
    then show ?thesis using ok np by (auto intro!: quiet_step [OF inv] K U simp: locks_ok_def)
  next
    case (RData f bs dataLeft)
    obtain f' where f': "PipeReadNext f bs \<in> {REmpty f', RUnlock f'}" "pc_ok (PipeReadNext f bs)"
        "rf_Data f' = rf_Data f @ bs" "rf_Data f' \<noteq> []"
      using PipeReadNext_ok [of f bs dataLeft] ok RData by auto
    then show ?thesis
      using RData np by (cases dataLeft) (auto intro!: quiet_step [OF inv] K U simp: locks_ok_def)
  next
    case (WLock f)
    then have "wf_Struct f \<and> \<not> wf_Write f < wf_Size f \<longrightarrow> wf_Write f = wf_Size f" using ok by (auto simp: wframe_ok_def word_gt_0)
    moreover have "\<not> (wf_Struct f \<and> \<not> wf_Write f < wf_Size f) \<longrightarrow> wf_Write f < wf_Size f"
      using ok WLock by (auto simp: wframe_ok_def word_less_nat_alt)
    ultimately show ?thesis
      using WLock ok np by (auto intro!: quiet_step [OF inv] K D simp: locks_ok_def PipeWriteFirst_def)
  next
    case (WSpace f n spaceLeft)
    obtain f' where f': "PipeWriteNext f n \<in> {WFull f', WUnlock f'}" "pc_ok (PipeWriteNext f n)"
        "wf_Buff f' = wf_Buff f" "unat (wf_Write f') = unat (wf_Write f) + unat n" "wf_Write f' \<noteq> 0"
      using PipeWriteNext_ok [of f n spaceLeft] ok WSpace by auto
    then show ?thesis
      using WSpace np by (cases spaceLeft) (auto intro!: quiet_step [OF inv] K U simp: locks_ok_def)
  qed (use pc in auto)
qed

lemma PipeReadInner_ok:
  assumes "ring_ok (pi_Ring p)" and "unat (rb_Size (pi_Ring p)) < 2 ^ 62" and "0 < sz" and "unat sz < 2 ^ 62"
    and "\<not> RingBufferIsEmpty (pi_Ring p)" and "RingBufferIsFull (pi_Ring p) \<Longrightarrow> se_Count (pi_FullLock p) = 0"
  shows "\<exists>bs ring. PipeReadInner sz p = Some (RingBufferIsFull (pi_Ring p), bs, \<not> RingBufferIsEmpty ring,
       p\<lparr>pi_Ring := ring, pi_Mutex := sem_up (pi_Mutex p)\<rparr>) \<and>
     bs \<noteq> [] \<and> length bs \<le> unat sz \<and> contents (pi_Ring p) = bs @ contents ring \<and> ring_ok ring \<and>
     unat (rb_Size ring) = unat (rb_Size (pi_Ring p)) \<and> \<not> RingBufferIsFull ring"
proof -
  let ?r = "pi_Ring p"
  obtain ring where ring: "RingBufferRead sz ?r = Some (take (unat sz) (contents ?r), ring)" "ring_ok ring"
      "contents ring = drop (unat sz) (contents ?r)" "unat (rb_Size ring) = unat (rb_Size ?r)"
    using ring_queue.read_law [OF assms(1), of sz] assms(2,4) by auto
  have ne: "contents ?r \<noteq> []" "0 < unat sz" using assms(1,3,5) contents_empty by (auto simp: word_less_nat_alt)
  then have "length (contents ring) < unat (rb_Size ring)"
    using ring(3,4) contents_bound [OF assms(1)] by (cases "contents ?r") auto
  then have "\<not> RingBufferIsFull ring" using contents_full [OF ring(2)] by simp
  moreover have "PipeReadInner sz p = Some (RingBufferIsFull ?r, take (unat sz) (contents ?r), \<not> RingBufferIsEmpty ring,
       p\<lparr>pi_Ring := ring, pi_Mutex := sem_up (pi_Mutex p)\<rparr>)"
    using assms(6) ring(1) ne by (simp add: PipeReadInner_def)
  ultimately show ?thesis
    using ring ne by (intro exI [of _ "take (unat sz) (contents ?r)"] exI [of _ ring]) auto
qed

lemma PipeWriteInner_ok:
  assumes "ring_ok (pi_Ring p)" and "unat (rb_Size (pi_Ring p)) < 2 ^ 62" and "0 < sz" and "unat sz < 2 ^ 62"
    and "unat sz \<le> length buff" and "length buff < 2 ^ 62"
    and "\<not> RingBufferIsFull (pi_Ring p)" and "RingBufferIsEmpty (pi_Ring p) \<Longrightarrow> se_Count (pi_EmptyLock p) = 0"
  shows "\<exists>n ring. PipeWriteInner buff sz p = Some (RingBufferIsEmpty (pi_Ring p), n, \<not> RingBufferIsFull ring,
       p\<lparr>pi_Ring := ring, pi_Mutex := sem_up (pi_Mutex p)\<rparr>) \<and>
     0 < n \<and> n \<le> sz \<and> contents ring = contents (pi_Ring p) @ take (unat n) buff \<and> ring_ok ring \<and>
     unat (rb_Size ring) = unat (rb_Size (pi_Ring p)) \<and> \<not> RingBufferIsEmpty ring"
proof -
  let ?r = "pi_Ring p"
  obtain n ring where ring: "RingBufferWrite buff sz ?r = Some (n, ring)"
      "unat n = min (unat sz) (unat (rb_Size ?r) - length (contents ?r))" "ring_ok ring"
      "contents ring = contents ?r @ take (unat n) buff" "rb_Size ring = rb_Size ?r"
    using RingBufferWriteLoop_contents [OF assms(1), of 0 sz buff] assms(2,4-6) by (auto simp: RingBufferWrite_def)
  have "length (contents ?r) < unat (rb_Size ?r)"
    using contents_full [OF assms(1)] contents_bound [OF assms(1)] assms(7) by simp
  then have n: "0 < n" "n \<le> sz" using ring(2) assms(3) by (auto simp: word_less_nat_alt word_le_nat_alt)
  then have "contents ring \<noteq> []" using ring(4) assms(5) by (auto simp: word_less_nat_alt word_le_nat_alt)
  then have "\<not> RingBufferIsEmpty ring" using contents_empty [OF ring(3)] by simp
  moreover have "PipeWriteInner buff sz p = Some (RingBufferIsEmpty ?r, n, \<not> RingBufferIsFull ring,
       p\<lparr>pi_Ring := ring, pi_Mutex := sem_up (pi_Mutex p)\<rparr>)"
    using assms(8) ring(1) n by (simp add: PipeWriteInner_def)
  ultimately show ?thesis using ring n by (intro exI [of _ n] exI [of _ ring]) auto
qed

lemma alone_reading:
  assumes "locks_ok p pcs" and "read_user (pcs t)" and "\<not> parked (pi_ReadLock p) t" and "t' \<noteq> t"
  shows "data_of (pcs t') = []"
proof (rule ccontr)
  assume d: "data_of (pcs t') \<noteq> []"
  then have "read_user (pcs t')" "\<not> read_may (pcs t')" by (cases "pcs t'"; simp)+
  then show False
    using lock_holder(2) [OF locks_okD(4) [OF assms(1)] assms(2,3)] lock_parked [OF locks_okD(4) [OF assms(1)]] assms(4)
    by blast
qed

lemma sent_user: "\<not> write_user pc \<Longrightarrow> sent_of pc = []" "write_may pc \<Longrightarrow> sent_of pc = []"
  by (cases pc; simp)+

lemma alone_writing:
  assumes "locks_ok p pcs" and "write_user (pcs t)" and "\<not> parked (pi_WriteLock p) t" and "t' \<noteq> t"
  shows "sent_of (pcs t') = []"
proof (rule ccontr)
  assume d: "sent_of (pcs t') \<noteq> []"
  then have "write_user (pcs t')" "\<not> write_may (pcs t')" using sent_user by blast+
  then show False
    using lock_holder(2) [OF locks_okD(5) [OF assms(1)] assms(2,3)] lock_parked [OF locks_okD(5) [OF assms(1)]] assms(4)
    by blast
qed

lemma read_segment:
  assumes inv: "pipe_inv buff st" and small: "length buff < 2 ^ 62" and run: "\<not> waits t (ps_Pipe st)" and pc: "ps_Pc st t = RBody f"
  shows "\<exists>pc p bs. PipeStep (ThreadContext t) (ps_Pc st t) (ps_Pipe st) = Some (pc, p, bs, []) \<and>
     pipe_inv buff (moved st t pc p bs [])"
proof -
  let ?p = "ps_Pipe st" and ?pcs = "ps_Pc st" and ?r = "pi_Ring (ps_Pipe st)"
  have i: "pc_ok (?pcs t)" "locks_ok ?p ?pcs" "ring_ok ?r" "unat (rb_Size ?r) = length buff" "stream_ok st" "\<forall>t. pc_ok (?pcs t)"
    using inv by (auto simp: pipe_inv_def)
  note np = run [unfolded not_waits]
  note L = locks_okD [OF i(2)]
  have f: "rframe_ok f" "rf_Read f < rf_Size f" using i(1) pc by auto
  then have sz: "unat (rf_Size f - rf_Read f) = unat (rf_Size f) - unat (rf_Read f)" "0 < rf_Size f - rf_Read f"
    by (auto simp: rframe_ok_def unat_sub word_less_nat_alt)
  have "permits (RingBufferIsEmpty ?r) = 1" using lock_holder(1) [OF L(2), of t] np pc by simp
  then have ne: "\<not> RingBufferIsEmpty ?r" by (auto simp: permits_def split: if_splits)
  have "se_Count (pi_FullLock ?p) = 0" if "RingBufferIsFull ?r"
    using L(3) that sem_inv_none by (auto simp: lock_inv_def permits_def)
  moreover have "unat (rf_Size f - rf_Read f) < 2 ^ 62" "unat (rb_Size ?r) < 2 ^ 62"
    using sz(1) f(1) i(4) small by (auto simp: rframe_ok_def)
  ultimately
  obtain bs ring where b: "PipeReadInner (rf_Size f - rf_Read f) ?p = Some (RingBufferIsFull ?r, bs, \<not> RingBufferIsEmpty ring,
       ?p\<lparr>pi_Ring := ring, pi_Mutex := sem_up (pi_Mutex ?p)\<rparr>)" "bs \<noteq> []" "length bs \<le> unat (rf_Size f) - unat (rf_Read f)"
      "contents ?r = bs @ contents ring" "ring_ok ring" "unat (rb_Size ring) = length buff" "\<not> RingBufferIsFull ring"
    using PipeReadInner_ok [OF i(3) _ sz(2) _ ne] i(4) sz(1) by auto
  let ?pc = "RFull f (RingBufferIsFull ?r) bs (\<not> RingBufferIsEmpty ring)"
  let ?p' = "?p\<lparr>pi_Ring := ring, pi_Mutex := sem_up (pi_Mutex ?p)\<rparr>"
  have pcok: "pc_ok ?pc" using f b(2,3) by (auto simp: word_less_nat_alt)
  have "lock_inv (pi_EmptyLock ?p) empty_user empty_may (?pcs(t := ?pc)) (permits (RingBufferIsEmpty ring))"
    using L(2) lock_keep [of "pi_EmptyLock ?p" empty_user empty_may ?pcs "permits False" t ?pc]
      lock_destroy [of "pi_EmptyLock ?p" empty_user empty_may ?pcs t ?pc] np pc ne
    by (cases "RingBufferIsEmpty ring") simp_all
  moreover have "lock_inv (pi_FullLock ?p) full_user full_may (?pcs(t := ?pc)) (permits (RingBufferIsFull ring))"
    using L(3) lock_keep [of "pi_FullLock ?p" full_user full_may ?pcs "permits False" t ?pc]
      lock_create [of "pi_FullLock ?p" full_user full_may ?pcs t ?pc] np pc b(7)
    by (cases "RingBufferIsFull ?r") simp_all
  ultimately have locks: "locks_ok ?p' (?pcs(t := ?pc))"
    using np pc lock_up [OF L(1), of t ?pc] lock_keep [OF L(4), of t ?pc] lock_keep [OF L(5), of t ?pc]
    by (simp add: locks_ok_def)
  have "suffix (data_of ((?pcs(t := ?pc)) t')) (ps_Got st @ bs)" for t'
    using stream_okD(1) [OF i(5), of t] pc alone_reading [OF i(2), of t t'] np by (cases "t' = t") auto
  then have "stream_ok (moved st t ?pc ?p' bs [])"
    using i(5) b(4) by (auto simp: stream_ok_def moved_def)
  then have "pipe_inv buff (moved st t ?pc ?p' bs [])"
    using i(6) b(5,6) locks pcok by (auto simp: pipe_inv_def moved_def)
  moreover have "PipeStep (ThreadContext t) (?pcs t) ?p = Some (?pc, ?p', bs, [])" using pc b(1) by simp
  ultimately show ?thesis by blast
qed

lemma write_segment:
  assumes inv: "pipe_inv buff st" and small: "length buff < 2 ^ 62" and run: "\<not> waits t (ps_Pipe st)" and pc: "ps_Pc st t = WBody f"
  shows "\<exists>pc p bs. PipeStep (ThreadContext t) (ps_Pc st t) (ps_Pipe st) = Some (pc, p, [], bs) \<and>
     pipe_inv buff (moved st t pc p [] bs)"
proof -
  let ?p = "ps_Pipe st" and ?pcs = "ps_Pc st" and ?r = "pi_Ring (ps_Pipe st)"
  have i: "pc_ok (?pcs t)" "locks_ok ?p ?pcs" "ring_ok ?r" "unat (rb_Size ?r) = length buff" "stream_ok st" "\<forall>t. pc_ok (?pcs t)"
    using inv by (auto simp: pipe_inv_def)
  note np = run [unfolded not_waits]
  note L = locks_okD [OF i(2)]
  have f: "wframe_ok f" "wf_Write f < wf_Size f" using i(1) pc by auto
  then have sz: "unat (wf_Size f - wf_Write f) = unat (wf_Size f) - unat (wf_Write f)" "0 < wf_Size f - wf_Write f"
    by (auto simp: wframe_ok_def unat_sub word_less_nat_alt)
  have "permits (RingBufferIsFull ?r) = 1" using lock_holder(1) [OF L(3), of t] np pc by simp
  then have nf: "\<not> RingBufferIsFull ?r" by (auto simp: permits_def split: if_splits)
  let ?buf = "drop (unat (wf_Write f)) (wf_Buff f)"
  have "se_Count (pi_EmptyLock ?p) = 0" if "RingBufferIsEmpty ?r"
    using L(2) that sem_inv_none by (auto simp: lock_inv_def permits_def)
  moreover have "unat (wf_Size f - wf_Write f) < 2 ^ 62" "unat (rb_Size ?r) < 2 ^ 62"
      "unat (wf_Size f - wf_Write f) \<le> length ?buf" "length ?buf < 2 ^ 62"
    using sz(1) f(1) i(4) small by (auto simp: wframe_ok_def)
  ultimately
  obtain n ring where b: "PipeWriteInner ?buf (wf_Size f - wf_Write f) ?p = Some (RingBufferIsEmpty ?r, n, \<not> RingBufferIsFull ring,
       ?p\<lparr>pi_Ring := ring, pi_Mutex := sem_up (pi_Mutex ?p)\<rparr>)" "0 < n" "n \<le> wf_Size f - wf_Write f"
      "contents ring = contents ?r @ take (unat n) ?buf" "ring_ok ring" "unat (rb_Size ring) = length buff" "\<not> RingBufferIsEmpty ring"
    using PipeWriteInner_ok [OF i(3) _ sz(2) _ _ _ nf, of ?buf] i(4) by auto
  let ?pc = "WEmpty f (RingBufferIsEmpty ?r) n (\<not> RingBufferIsFull ring)"
  let ?p' = "?p\<lparr>pi_Ring := ring, pi_Mutex := sem_up (pi_Mutex ?p)\<rparr>"
  have pcok: "pc_ok ?pc" using f b(2,3) sz(1) by (auto simp: word_less_nat_alt word_le_nat_alt)
  have "lock_inv (pi_FullLock ?p) full_user full_may (?pcs(t := ?pc)) (permits (RingBufferIsFull ring))"
    using L(3) lock_keep [of "pi_FullLock ?p" full_user full_may ?pcs "permits False" t ?pc]
      lock_destroy [of "pi_FullLock ?p" full_user full_may ?pcs t ?pc] np pc nf
    by (cases "RingBufferIsFull ring") simp_all
  moreover have "lock_inv (pi_EmptyLock ?p) empty_user empty_may (?pcs(t := ?pc)) (permits (RingBufferIsEmpty ring))"
    using L(2) lock_keep [of "pi_EmptyLock ?p" empty_user empty_may ?pcs "permits False" t ?pc]
      lock_create [of "pi_EmptyLock ?p" empty_user empty_may ?pcs t ?pc] np pc b(7)
    by (cases "RingBufferIsEmpty ?r") simp_all
  ultimately have locks: "locks_ok ?p' (?pcs(t := ?pc))"
    using np pc lock_up [OF L(1), of t ?pc] lock_keep [OF L(4), of t ?pc] lock_keep [OF L(5), of t ?pc]
    by (simp add: locks_ok_def)
  let ?bs = "take (unat n) ?buf"
  have "suffix (sent_of ((?pcs(t := ?pc)) t')) (ps_Put st @ ?bs)" for t'
    using stream_okD(2) [OF i(5), of t] pc alone_writing [OF i(2), of t t'] np
    by (cases "t' = t") (auto simp: take_add)
  then have "stream_ok (moved st t ?pc ?p' [] ?bs)"
    using i(5) b(4) by (auto simp: stream_ok_def moved_def)
  then have "pipe_inv buff (moved st t ?pc ?p' [] ?bs)"
    using i(6) b(5,6) locks pcok by (auto simp: pipe_inv_def moved_def)
  moreover have "PipeStep (ThreadContext t) (?pcs t) ?p = Some (?pc, ?p', [], ?bs)" using pc b(1) by simp
  ultimately show ?thesis by blast
qed

lemma pipe_inv_step:
  assumes "pipe_inv buff st" and "length buff < 2 ^ 62" and "\<not> waits t (ps_Pipe st)" and "ps_Pc st t \<noteq> Idle"
  shows "\<exists>pc p got put. PipeStep (ThreadContext t) (ps_Pc st t) (ps_Pipe st) = Some (pc, p, got, put) \<and>
     pipe_inv buff (moved st t pc p got put)"
proof (cases "(\<exists>f. ps_Pc st t = RBody f) \<or> (\<exists>f. ps_Pc st t = WBody f)")
  case True
  then show ?thesis
    using read_segment [OF assms(1-3)] write_segment [OF assms(1-3)] by blast
next
  case False
  then show ?thesis using quiet_segments [OF assms(1,3)] assms(4) by blast
qed

lemma call_pc: "call_ok pc \<Longrightarrow> pc_ok pc \<and> data_of pc = [] \<and> sent_of pc = [] \<and>
    \<not> mutex_user pc \<and> \<not> empty_user pc \<and> \<not> empty_may pc \<and> \<not> full_user pc \<and> \<not> full_may pc \<and> \<not> read_user pc \<and> \<not> read_may pc \<and>
    \<not> write_user pc \<and> \<not> write_may pc"
  by (auto simp: call_ok_def PipeRead_def PipeReadStruct_def PipeWrite_def PipeWriteStruct_def rframe_ok_def wframe_ok_def)

lemma idle_runs:
  assumes "locks_ok p pcs" and "pcs t = Idle"
  shows "\<not> waits t p"
proof -
  note L = locks_okD [OF assms(1)]
  show ?thesis
    using lock_parked [OF L(1), of t] lock_parked [OF L(2), of t] lock_parked [OF L(3), of t]
      lock_parked [OF L(4), of t] lock_parked [OF L(5), of t] assms(2)
    unfolding not_waits by auto
qed

lemma pipe_run_inv:
  assumes "pipe_run buff st" and "buff \<noteq> []" and "length buff < 2 ^ 62"
  shows "pipe_inv buff st"
  using assms(1)
proof (induction rule: pipe_run.induct)
  case (pipe_start p)
  have n: "unat (of_nat (length buff) :: COUNT) = length buff" using assms(3) by (simp add: unat_of_nat)
  then have "ring_ok (RingBufferInit buff (of_nat (length buff)))" "contents (RingBufferInit buff (of_nat (length buff))) = []"
    using assms(2) by (auto simp: RingBufferInit_def ring_ok_def contents_def word_less_nat_alt)
  then show ?case
    using n by (auto simp: pipe_inv_def PipeInit_def stream_ok_def locks_ok_def lock_inv_def sem_inv_def SemaphoreInit_def
        RingBufferInit_def RingBufferIsEmpty_def RingBufferIsFull_def permits_def)
next
  case (pipe_call st t pc)
  let ?st = "moved st t pc (ps_Pipe st) [] []"
  have locks: "locks_ok (ps_Pipe st) (ps_Pc st)" using pipe_call.IH by (simp add: pipe_inv_def)
  note L = locks_okD [OF locks]
  note np = idle_runs [OF locks pipe_call.hyps(2), unfolded not_waits]
  have "locks_ok (ps_Pipe st) ((ps_Pc st)(t := pc))"
    using lock_keep [OF L(1), of t pc] lock_keep [OF L(2), of t pc] lock_keep [OF L(3), of t pc] lock_keep [OF L(4), of t pc]
      lock_keep [OF L(5), of t pc] np call_pc [OF pipe_call.hyps(3)] pipe_call.hyps(2)
    by (simp add: locks_ok_def)
  then have "pipe_inv buff ?st"
    using call_pc [OF pipe_call.hyps(3)] by (intro quiet_step [OF pipe_call.IH]) auto
  then show ?case by (cases st) (simp add: moved_def)
next
  case (pipe_step st t pc p got put)
  then have "ps_Pc st t \<noteq> Idle" by auto
  then show ?case
    using pipe_inv_step [OF pipe_step.IH assms(3) pipe_step.hyps(2)] pipe_step.hyps(3) by (auto simp: moved_def)
qed

text \<open>Executing a schedule.\<close>

primrec pipe_exec :: "addr list \<Rightarrow> pipe_state \<Rightarrow> pipe_state option" where
  "pipe_exec [] st = Some st"
| "pipe_exec (t # ts) st = (if waits t (ps_Pipe st) then None else
     do {
       (pc, p, got, put) \<leftarrow> PipeStep (ThreadContext t) (ps_Pc st t) (ps_Pipe st);
       pipe_exec ts (moved st t pc p got put)
     })"

lemma pipe_exec_run: "pipe_run buff st \<Longrightarrow> pipe_exec ts st = Some st' \<Longrightarrow> pipe_run buff st'"
proof (induction ts arbitrary: st)
  case (Cons t ts)
  obtain pc p got put where s: "\<not> waits t (ps_Pipe st)"
      "PipeStep (ThreadContext t) (ps_Pc st t) (ps_Pipe st) = Some (pc, p, got, put)"
      "pipe_exec ts (moved st t pc p got put) = Some st'"
    using Cons.prems(2) by (auto simp: bind_Some_iff split: if_splits)
  then show ?case using Cons.IH pipe_run.pipe_step [OF Cons.prems(1) s(1,2)] by (auto simp: moved_def)
qed simp

lemma pipe_exec_other: "pipe_exec ts st = Some st' \<Longrightarrow> t \<notin> set ts \<Longrightarrow> ps_Pc st' t = ps_Pc st t"
  by (induction ts arbitrary: st) (auto simp: bind_Some_iff moved_def split: if_splits)

declare RingBufferReadLoop.simps [code] RingBufferWriteLoop.simps [code]

definition sem0 :: SEMAPHORE where
  "sem0 = \<lparr>se_Count = 0, se_WaitingThreads = []\<rparr>"

definition pipe0 :: PIPE where
  "pipe0 = PipeInit [0, 0, 0, 0] 4 \<lparr>pi_Ring = RingBufferInit [] 0, pi_Mutex = sem0, pi_EmptyLock = sem0, pi_FullLock = sem0,
     pi_ReadLock = sem0, pi_WriteLock = sem0\<rparr>"

definition pipe_calls :: "pipe_pc \<Rightarrow> pipe_pc \<Rightarrow> pipe_state" where
  "pipe_calls pc1 pc2 = \<lparr>ps_Pipe = pipe0, ps_Pc = (\<lambda>_. Idle)(1 := pc1, 2 := pc2), ps_Got = [], ps_Put = []\<rparr>"

lemma pipe_calls_run:
  assumes "call_ok pc1" and "call_ok pc2"
  shows "pipe_run [0, 0, 0, 0] (pipe_calls pc1 pc2)"
proof -
  have "pipe_run [0, 0, 0, 0] \<lparr>ps_Pipe = pipe0, ps_Pc = (\<lambda>_. Idle), ps_Got = [], ps_Put = []\<rparr>"
    using pipe_run.pipe_start [of "[0, 0, 0, 0]"] by (simp add: pipe0_def)
  from pipe_run.pipe_call [OF pipe_run.pipe_call [OF this _ assms(1), of 1] _ assms(2), of 2]
  show ?thesis by (simp add: pipe_calls_def)
qed

text \<open>Thread 1 reads, thread 2 writes two bytes.\<close>

definition demo_calls :: pipe_state where
  "demo_calls = pipe_calls (PipeRead 3) (PipeWrite [7, 8] 2)"

lemma demo_calls_run: "pipe_run [0, 0, 0, 0] demo_calls"
proof -
  have "call_ok (PipeRead 3)" "call_ok (PipeWrite [7, 8] 2)" unfolding call_ok_def
    by (intro disjI1 exI [of _ 3], simp) (intro disjI2 disjI1 exI [of _ "[7, 8]"] exI [of _ 2], simp)
  then show ?thesis unfolding demo_calls_def by (rule pipe_calls_run)
qed

section \<open>Properties\<close>

text \<open>(C6) In every run of a pipe the bytes written are the bytes read, in order, followed by those in the
  ring. A call gets (or puts) one piece of that stream: when it is about to return, the bytes it has read are
  the last ones taken from the pipe, never more than it asked for and exactly as many for a read of a
  structure; likewise for writes.\<close>

theorem pipe_stream:
  assumes "pipe_run buff st" and "buff \<noteq> []" and "length buff < 2 ^ 62"
  shows "ps_Put st = ps_Got st @ contents (pi_Ring (ps_Pipe st)) \<and> length (contents (pi_Ring (ps_Pipe st))) \<le> length buff \<and>
     (\<forall>t f. ps_Pc st t = RUnlock f \<longrightarrow> suffix (rf_Data f) (ps_Got st) \<and> length (rf_Data f) \<le> unat (rf_Size f) \<and>
        (rf_Struct f \<longrightarrow> length (rf_Data f) = unat (rf_Size f))) \<and>
     (\<forall>t f. ps_Pc st t = WUnlock f \<longrightarrow> suffix (take (unat (wf_Write f)) (wf_Buff f)) (ps_Put st) \<and>
        (wf_Struct f \<longrightarrow> wf_Write f = wf_Size f))"
proof -
  have i: "ring_ok (pi_Ring (ps_Pipe st))" "unat (rb_Size (pi_Ring (ps_Pipe st))) = length buff" "stream_ok st"
      "\<And>t. pc_ok (ps_Pc st t)"
    using pipe_run_inv [OF assms] by (auto simp: pipe_inv_def)
  have "suffix (rf_Data f) (ps_Got st) \<and> length (rf_Data f) \<le> unat (rf_Size f) \<and>
      (rf_Struct f \<longrightarrow> length (rf_Data f) = unat (rf_Size f))" if "ps_Pc st t = RUnlock f" for t f
  proof -
    have "suffix (data_of (ps_Pc st t)) (ps_Got st)" by (rule stream_okD [OF i(3)])
    then show ?thesis using i(4) [of t] that by (auto simp: rframe_ok_def word_le_nat_alt)
  qed
  moreover have "suffix (take (unat (wf_Write f)) (wf_Buff f)) (ps_Put st) \<and> (wf_Struct f \<longrightarrow> wf_Write f = wf_Size f)"
    if "ps_Pc st t = WUnlock f" for t f
  proof -
    have "suffix (sent_of (ps_Pc st t)) (ps_Put st)" by (rule stream_okD [OF i(3)])
    then show ?thesis using i(4) [of t] that by auto
  qed
  ultimately show ?thesis using i(3) contents_bound [OF i(1)] i(2) by (auto simp: stream_ok_def)
qed

theorem pipe_stream_witness:
  "\<exists>st. pipe_exec [1, 2, 2, 2, 2, 2, 1] demo_calls = Some st \<and> ps_Put st = [7, 8] \<and>
     [7, 8] = ps_Got st @ contents (pi_Ring (ps_Pipe st))"
proof -
  have "map_option ps_Put (pipe_exec [1, 2, 2, 2, 2, 2, 1] demo_calls) = Some [7, 8]" by code_simp
  then obtain st where st: "pipe_exec [1, 2, 2, 2, 2, 2, 1] demo_calls = Some st" "ps_Put st = [7, 8]" by auto
  with pipe_stream [OF pipe_exec_run [OF demo_calls_run st(1)]] show ?thesis by simp
qed

text \<open>(C7) Used as intended, no assertion of the pipe can fail: with a ring that is not empty and shorter than \<open>2 ^ 62\<close>, in every run of calls for fewer
  than \<open>2 ^ 62\<close> bytes, and for at least one byte where the call is a plain \<^verbatim>\<open>PipeRead\<close> or \<^verbatim>\<open>PipeWrite\<close> (\<open>call_ok\<close>), each thread that is
  inside a call and not waiting for a semaphore can execute its next segment. (A plain call for no byte does fail an assertion.)\<close>

theorem pipe_never_panics:
  assumes "pipe_run buff st" and "buff \<noteq> []" and "length buff < 2 ^ 62"
    and "ps_Pc st t \<noteq> Idle" and "\<not> waits t (ps_Pipe st)"
  shows "\<exists>pc p got put. PipeStep (ThreadContext t) (ps_Pc st t) (ps_Pipe st) = Some (pc, p, got, put) \<and>
     pipe_run buff (moved st t pc p got put)"
  using pipe_inv_step [OF pipe_run_inv [OF assms(1-3)] assms(3,5,4)] pipe_run.pipe_step [OF assms(1,5)]
  by (auto simp: moved_def)

theorem pipe_never_panics_witness:
  "\<exists>pc p got put. PipeStep (ThreadContext 1) (ps_Pc demo_calls 1) (ps_Pipe demo_calls) = Some (pc, p, got, put) \<and>
     pipe_run [0, 0, 0, 0] (moved demo_calls 1 pc p got put)"
proof (rule pipe_never_panics [OF demo_calls_run])
  show "ps_Pc demo_calls 1 \<noteq> Idle" by (simp add: demo_calls_def pipe_calls_def PipeRead_def)
  show "\<not> waits 1 (ps_Pipe demo_calls)" by code_simp
qed simp_all

fun reader :: "pipe_pc \<Rightarrow> bool" where
  "reader (RLock f) = True"
| "reader pc = read_user pc"

fun writer :: "pipe_pc \<Rightarrow> bool" where
  "writer (WLock f) = True"
| "writer pc = write_user pc"

text \<open>What a thread that waits can be waiting for.\<close>

lemma waits_cases:
  assumes "locks_ok p pcs" and "waits t p"
  obtains "parked (pi_Mutex p) t" and "mutex_user (pcs t)" | "parked (pi_EmptyLock p) t" and "empty_may (pcs t)"
  | "parked (pi_FullLock p) t" and "full_may (pcs t)" | "parked (pi_ReadLock p) t" and "read_may (pcs t)"
  | "parked (pi_WriteLock p) t" and "write_may (pcs t)"
proof -
  note L = locks_okD [OF assms(1)]
  show thesis
    using assms(2) that not_waits [of t p] lock_parked [OF L(1), of t] lock_parked [OF L(2), of t] lock_parked [OF L(3), of t]
      lock_parked [OF L(4), of t] lock_parked [OF L(5), of t] by blast
qed

lemma may_kinds:
  "empty_may pc \<Longrightarrow> \<exists>f. pc = RMutex f" "full_may pc \<Longrightarrow> \<exists>f. pc = WMutex f"
  "read_may pc \<Longrightarrow> \<exists>f. pc \<in> {REmpty f, RUnlock f}" "write_may pc \<Longrightarrow> \<exists>f. pc \<in> {WFull f, WUnlock f}"
  "mutex_user pc \<Longrightarrow> \<exists>f g. pc \<in> {RBody f, WBody g}"
  by (cases pc; simp)+

lemma all_wait:
  assumes locks: "locks_ok p pcs" and all: "\<And>t. pcs t \<noteq> Idle \<Longrightarrow> waits t p"
  shows "empty_user (pcs t) \<Longrightarrow> RingBufferIsEmpty (pi_Ring p)" and "full_user (pcs t) \<Longrightarrow> RingBufferIsFull (pi_Ring p)"
    and "\<not> mutex_user (pcs t)"
proof -
  note L = locks_okD [OF locks]
  have kinds: "parked (pi_Mutex p) t" if "mutex_user (pcs t)" for t
    using that all [of t] waits_cases [OF locks, of t] may_kinds [of "pcs t"] by (cases "pcs t") auto
  show m: "\<not> mutex_user (pcs t)" for t
  proof
    assume "mutex_user (pcs t)"
    then have "permits False = 0" using lock_stuck [OF L(1)] kinds by blast
    then show False by (simp add: permits_def)
  qed
  have e: "parked (pi_EmptyLock p) t" if "empty_user (pcs t)" for t
    using that all [of t] waits_cases [OF locks, of t] may_kinds [of "pcs t"] m [of t] by (cases "pcs t") auto
  have f: "parked (pi_FullLock p) t" if "full_user (pcs t)" for t
    using that all [of t] waits_cases [OF locks, of t] may_kinds [of "pcs t"] m [of t] by (cases "pcs t") auto
  show "RingBufferIsEmpty (pi_Ring p)" if "empty_user (pcs t)"
    using lock_stuck [OF L(2)] e that by (fastforce simp: permits_def split: if_splits)
  show "RingBufferIsFull (pi_Ring p)" if "full_user (pcs t)"
    using lock_stuck [OF L(3)] f that by (fastforce simp: permits_def split: if_splits)
qed

lemma waiting_reader:
  assumes locks: "locks_ok p pcs" and all: "\<And>t. pcs t \<noteq> Idle \<Longrightarrow> waits t p" and r: "reader (pcs t)"
  shows "RingBufferIsEmpty (pi_Ring p)"
proof -
  have cases: "parked (pi_ReadLock p) t \<or> empty_user (pcs t)" if "reader (pcs t)" for t
    using that all [of t] waits_cases [OF locks, of t] may_kinds [of "pcs t"] all_wait(3) [OF locks all, of t]
    by (cases "pcs t") auto
  have "\<exists>t'. empty_user (pcs t')"
  proof (rule ccontr)
    assume no: "\<not> ?thesis"
    then have "parked (pi_ReadLock p) t" using cases r by blast
    then have "read_user (pcs t)" using lock_parked [OF locks_okD(4) [OF locks]] by blast
    moreover have "reader (pcs t')" if "read_user (pcs t')" for t' using that by (cases "pcs t'") auto
    then have "parked (pi_ReadLock p) t'" if "read_user (pcs t')" for t' using that cases no by blast
    ultimately have "permits False = 0" by (intro lock_stuck [OF locks_okD(4) [OF locks]])
    then show False by (simp add: permits_def)
  qed
  then show ?thesis using all_wait(1) [OF locks all] by blast
qed

lemma waiting_writer:
  assumes locks: "locks_ok p pcs" and all: "\<And>t. pcs t \<noteq> Idle \<Longrightarrow> waits t p" and w: "writer (pcs t)"
  shows "RingBufferIsFull (pi_Ring p)"
proof -
  have cases: "parked (pi_WriteLock p) t \<or> full_user (pcs t)" if "writer (pcs t)" for t
    using that all [of t] waits_cases [OF locks, of t] may_kinds [of "pcs t"] all_wait(3) [OF locks all, of t]
    by (cases "pcs t") auto
  have "\<exists>t'. full_user (pcs t')"
  proof (rule ccontr)
    assume no: "\<not> ?thesis"
    then have "parked (pi_WriteLock p) t" using cases w by blast
    then have "write_user (pcs t)" using lock_parked [OF locks_okD(5) [OF locks]] by blast
    moreover have "writer (pcs t')" if "write_user (pcs t')" for t' using that by (cases "pcs t'") auto
    then have "parked (pi_WriteLock p) t'" if "write_user (pcs t')" for t' using that cases no by blast
    ultimately have "permits False = 0" by (intro lock_stuck [OF locks_okD(5) [OF locks]])
    then show False by (simp add: permits_def)
  qed
  then show ?thesis using all_wait(2) [OF locks all] by blast
qed

text \<open>(C8) No wake-up is lost: when all threads that are inside a call are waiting, then no reader is among
  them unless the ring is empty and no writer unless it is full. In particular readers and writers never
  wait for each other.\<close>

theorem pipe_no_lost_wakeup:
  assumes "pipe_run buff st" and "buff \<noteq> []" and "length buff < 2 ^ 62"
    and "\<forall>t. ps_Pc st t \<noteq> Idle \<longrightarrow> waits t (ps_Pipe st)"
  shows "((\<exists>t. reader (ps_Pc st t)) \<longrightarrow> RingBufferIsEmpty (pi_Ring (ps_Pipe st))) \<and>
     ((\<exists>t. writer (ps_Pc st t)) \<longrightarrow> RingBufferIsFull (pi_Ring (ps_Pipe st))) \<and>
     \<not> ((\<exists>t. reader (ps_Pc st t)) \<and> (\<exists>t. writer (ps_Pc st t)))"
proof -
  have locks: "locks_ok (ps_Pipe st) (ps_Pc st)" using pipe_run_inv [OF assms(1-3)] by (simp add: pipe_inv_def)
  have all: "waits t (ps_Pipe st)" if "ps_Pc st t \<noteq> Idle" for t using assms(4) that by blast
  have "\<not> (RingBufferIsEmpty r \<and> RingBufferIsFull r)" for r by (simp add: RingBufferIsEmpty_def RingBufferIsFull_def)
  then show ?thesis using waiting_reader [OF locks all] waiting_writer [OF locks all] by blast
qed

theorem pipe_no_lost_wakeup_witness:
  "\<exists>st. pipe_exec [1, 1, 2] (pipe_calls (PipeRead 3) (PipeRead 1)) = Some st \<and>
     RingBufferIsEmpty (pi_Ring (ps_Pipe st))"
proof -
  let ?st = "pipe_calls (PipeRead 3) (PipeRead 1)"
  have "call_ok (PipeRead 3)" "call_ok (PipeRead 1)" by (auto simp: call_ok_def PipeRead_def)
  then have run: "pipe_run [0, 0, 0, 0] ?st" by (rule pipe_calls_run)
  have "map_option (\<lambda>st. waits 1 (ps_Pipe st) \<and> waits 2 (ps_Pipe st) \<and> reader (ps_Pc st 1)) (pipe_exec [1, 1, 2] ?st) = Some True"
    by code_simp
  then obtain st where st: "pipe_exec [1, 1, 2] ?st = Some st" "waits 1 (ps_Pipe st)" "waits 2 (ps_Pipe st)" "reader (ps_Pc st 1)"
    by auto
  have "ps_Pc st t \<noteq> Idle \<longrightarrow> waits t (ps_Pipe st)" for t
    using st(2,3) pipe_exec_other [OF st(1), of t] by (cases "t = 1"; cases "t = 2") (auto simp: pipe_calls_def)
  with pipe_no_lost_wakeup [OF pipe_exec_run [OF run st(1)]] st(1,4) show ?thesis by auto
qed

end
