(* ===== verification/Maze.thy ===== *)
theory Maze
  imports Bitmap
begin

text \<open>
  The maze of the mouse: the wall map of \<^verbatim>\<open>src/umouse/map.c\<close> and \<^verbatim>\<open>map.h\<close>, the compass of
  \<^verbatim>\<open>compass.h\<close> and the scan log of \<^verbatim>\<open>positionlog.c\<close>. A map owns two bitmaps in one buffer of
  words; a pointer into that buffer is an offset in words, so that the two wall lists can overlap
  the way they do in the program.
\<close>

section \<open>Compass and map\<close>

datatype DIRECTION = NORTH | EAST | SOUTH | WEST

record MAP =
  map_VWalls :: INDEX
  map_HWalls :: INDEX
  map_Height :: COUNT
  map_Width :: COUNT

definition MapBitsNeeded :: "COUNT \<Rightarrow> COUNT \<Rightarrow> COUNT" where
  "MapBitsNeeded major minor = major * (minor - 1)"

definition MapDimensionSizeNeeded :: "COUNT \<Rightarrow> COUNT \<Rightarrow> COUNT" where
  "MapDimensionSizeNeeded major minor = BitmapSize (MapBitsNeeded major minor)"

definition MapSizeNeeded :: "COUNT \<Rightarrow> COUNT \<Rightarrow> COUNT" where
  "MapSizeNeeded width height = MapDimensionSizeNeeded width height + MapDimensionSizeNeeded height width"

definition MapAdjustX :: "INDEX \<Rightarrow> DIRECTION \<Rightarrow> INDEX" where
  "MapAdjustX x dir = (if dir = EAST then x + 1 else x)"

definition MapAdjustY :: "INDEX \<Rightarrow> DIRECTION \<Rightarrow> INDEX" where
  "MapAdjustY y dir = (if dir = NORTH then y + 1 else y)"

definition MapOutOfBoundsMinor :: "INDEX \<Rightarrow> INDEX \<Rightarrow> bool" where
  "MapOutOfBoundsMinor minor minorSize \<longleftrightarrow> minor = 0 \<or> minor \<ge> minorSize"

definition MapOutOfBoundsMajor :: "INDEX \<Rightarrow> INDEX \<Rightarrow> bool" where
  "MapOutOfBoundsMajor major majorSize \<longleftrightarrow> major \<ge> majorSize"

definition MapGetIndex :: "INDEX \<Rightarrow> INDEX \<Rightarrow> INDEX \<Rightarrow> INDEX" where
  "MapGetIndex major minorSize minor = major * (minorSize - 1) + minor - 1"

text \<open>The words of a buffer from a pointer into it on, and an update through such a pointer.\<close>

definition words_from :: "INDEX \<Rightarrow> bitmap \<Rightarrow> bitmap" where
  "words_from p buf = drop (unat p) buf"

definition through :: "INDEX \<Rightarrow> (bitmap \<Rightarrow> bitmap option) \<Rightarrow> bitmap \<Rightarrow> bitmap option" where
  "through p f buf = do { b \<leftarrow> f (words_from p buf); Some (take (unat p) buf @ b) }"

definition MapGetFlag :: "INDEX \<Rightarrow> INDEX \<Rightarrow> INDEX \<Rightarrow> INDEX \<Rightarrow> INDEX \<Rightarrow> bitmap \<Rightarrow> bool option" where
  "MapGetFlag major majorSize minor minorSize walls buf =
     (if MapOutOfBoundsMinor minor minorSize \<or> MapOutOfBoundsMajor major majorSize then Some True
      else let index = MapGetIndex major minorSize minor in BitmapGet (words_from walls buf) index)"

definition MapSetFlag :: "INDEX \<Rightarrow> INDEX \<Rightarrow> INDEX \<Rightarrow> INDEX \<Rightarrow> INDEX \<Rightarrow> bool \<Rightarrow> bitmap \<Rightarrow> bitmap option" where
  "MapSetFlag major majorSize minor minorSize walls state buf =
     (if \<not> (MapOutOfBoundsMinor minor minorSize \<or> MapOutOfBoundsMajor major majorSize) then
        let index = MapGetIndex major minorSize minor in
        if state then through walls (\<lambda>b. BitmapOn b index) buf
        else through walls (\<lambda>b. BitmapOff b index) buf
      else Some buf)"

text \<open>\<^verbatim>\<open>MapInit\<close> answers whether the buffer was long enough; its loop, which zeroes the buffer, is
  the loop of \<^verbatim>\<open>BitmapClear\<close>.\<close>

definition MapInit :: "MAP \<Rightarrow> bitmap \<Rightarrow> COUNT \<Rightarrow> COUNT \<Rightarrow> COUNT \<Rightarrow> (bool \<times> MAP \<times> bitmap) option" where
  "MapInit m wallBuff buffLen width height =
     (if buffLen \<ge> MapSizeNeeded width height then
        let m = m\<lparr>map_VWalls := 0\<rparr>;
            m = m\<lparr>map_HWalls := MapDimensionSizeNeeded width height\<rparr>;
            m = m\<lparr>map_Height := height\<rparr>;
            m = m\<lparr>map_Width := width\<rparr>
        in do { wallBuff \<leftarrow> BitmapClearLoop 0 buffLen wallBuff; Some (True, m, wallBuff) }
      else Some (False, m, wallBuff))"

definition MapGetWall :: "INDEX \<Rightarrow> INDEX \<Rightarrow> DIRECTION \<Rightarrow> MAP \<Rightarrow> bitmap \<Rightarrow> bool option" where
  "MapGetWall x y dir m buf =
     (let x = MapAdjustX x dir; y = MapAdjustY y dir in
      if dir \<in> {NORTH, SOUTH} then MapGetFlag x (map_Width m) y (map_Height m) (map_HWalls m) buf
      else MapGetFlag y (map_Height m) x (map_Width m) (map_VWalls m) buf)"

definition MapSetWall :: "INDEX \<Rightarrow> INDEX \<Rightarrow> DIRECTION \<Rightarrow> bool \<Rightarrow> MAP \<Rightarrow> bitmap \<Rightarrow> bitmap option" where
  "MapSetWall x y dir state m buf =
     (let x = MapAdjustX x dir; y = MapAdjustY y dir in
      if dir \<in> {NORTH, SOUTH} then MapSetFlag x (map_Width m) y (map_Height m) (map_HWalls m) state buf
      else MapSetFlag y (map_Height m) x (map_Width m) (map_VWalls m) state buf)"

section \<open>The scan log\<close>

record SCAN_LOG =
  sl_Width :: COUNT
  sl_Height :: COUNT
  sl_Flags :: bitmap

definition SCAN_LOG_SIZE :: "COUNT \<Rightarrow> COUNT \<Rightarrow> COUNT" where
  "SCAN_LOG_SIZE width height = BitmapSize (width * height)"

definition XY_TO_INDEX :: "INDEX \<Rightarrow> INDEX \<Rightarrow> SCAN_LOG \<Rightarrow> INDEX" where
  "XY_TO_INDEX x y posLog = y * sl_Width posLog + x"

definition ScanLogInit :: "INDEX \<Rightarrow> INDEX \<Rightarrow> bitmap \<Rightarrow> SCAN_LOG \<Rightarrow> SCAN_LOG option" where
  "ScanLogInit width height buff log =
     do {
       buff \<leftarrow> BitmapClear buff (SCAN_LOG_SIZE width height);
       Some (log\<lparr>sl_Height := height, sl_Width := width, sl_Flags := buff\<rparr>)
     }"

definition ScanLogSet :: "INDEX \<Rightarrow> INDEX \<Rightarrow> bool \<Rightarrow> SCAN_LOG \<Rightarrow> SCAN_LOG option" where
  "ScanLogSet x y flagState mapLog =
     do {
       flags \<leftarrow> (if flagState then BitmapOn (sl_Flags mapLog) (XY_TO_INDEX x y mapLog)
                else BitmapOff (sl_Flags mapLog) (XY_TO_INDEX x y mapLog));
       Some (mapLog\<lparr>sl_Flags := flags\<rparr>)
     }"

definition ScanLogGet :: "INDEX \<Rightarrow> INDEX \<Rightarrow> SCAN_LOG \<Rightarrow> bool option" where
  "ScanLogGet x y mapLog =
     (if x \<ge> sl_Width mapLog \<or> y \<ge> sl_Height mapLog then Some False
      else BitmapGet (sl_Flags mapLog) (XY_TO_INDEX x y mapLog))"

section \<open>Walls as positions of the buffer\<close>

text \<open>
  A wall belongs to two cells. Its identity is the list it is in and its place there, which is the
  same for the two cells and the two directions that name it; \<open>inner\<close> are the walls that are stored.
\<close>

definition wall_id :: "INDEX \<Rightarrow> INDEX \<Rightarrow> DIRECTION \<Rightarrow> bool \<times> INDEX \<times> INDEX" where
  "wall_id x y dir = (dir \<in> {NORTH, SOUTH}, MapAdjustX x dir, MapAdjustY y dir)"

definition inner :: "MAP \<Rightarrow> bool \<times> INDEX \<times> INDEX \<Rightarrow> bool" where
  "inner m w = (case w of (hor, x, y) \<Rightarrow>
     x < map_Width m \<and> y < map_Height m \<and> (if hor then y \<noteq> 0 else x \<noteq> 0))"

definition slot :: "MAP \<Rightarrow> bool \<times> INDEX \<times> INDEX \<Rightarrow> nat" where
  "slot m w = (case w of (hor, x, y) \<Rightarrow>
     if hor then unat (map_HWalls m) * 32 + (unat x * (unat (map_Height m) - 1) + (unat y - 1))
     else unat y * (unat (map_Width m) - 1) + (unat x - 1))"

text \<open>
  The maps that \<^verbatim>\<open>MapInit\<close> makes, provided the two wall lists need the same number of words, as
  they do in a square maze: \<^verbatim>\<open>MapInit\<close> leaves as much room for the vertical walls as the horizontal
  ones need.
\<close>

definition map_ok :: "MAP \<Rightarrow> bitmap \<Rightarrow> bool" where
  "map_ok m buf \<longleftrightarrow> map_VWalls m = 0 \<and>
     map_HWalls m = MapDimensionSizeNeeded (map_Width m) (map_Height m) \<and>
     0 < map_Width m \<and> 0 < map_Height m \<and> unat (map_Width m) * unat (map_Height m) < 2 ^ 62 \<and>
     MapDimensionSizeNeeded (map_Height m) (map_Width m) = map_HWalls m \<and>
     unat (map_HWalls m) + unat (map_HWalls m) \<le> length buf"

lemma map_ok_length: "length buf' = length buf \<Longrightarrow> map_ok m buf' = map_ok m buf"
  by (simp add: map_ok_def)

lemma set_bits:
  "inside b i \<Longrightarrow> \<exists>b'. (if state then BitmapOn b i else BitmapOff b i) = Some b' \<and> length b' = length b \<and>
     (\<forall>k. bit_of b' k = (if k = unat i then state else bit_of b k))"
  using BitmapOn_bits [of b i] BitmapOff_bits [of b i] by (cases state) (simp_all only: if_True if_False)

lemma words_from_bit:
  "unat p \<le> length buf \<Longrightarrow> bit_of (words_from p buf) k = bit_of buf (unat p * 32 + k)"
  by (simp add: bit_of_def words_from_def div_add1_eq)

lemma through_bits:
  assumes f: "\<And>b. inside b i \<Longrightarrow> \<exists>b'. f b = Some b' \<and> length b' = length b \<and>
       (\<forall>k. bit_of b' k = (if k = unat i then c else bit_of b k))"
    and i: "unat p * 32 + unat i < length buf * 32"
  shows "\<exists>buf'. through p f buf = Some buf' \<and> length buf' = length buf \<and>
     (\<forall>k. bit_of buf' k = (if k = unat p * 32 + unat i then c else bit_of buf k))"
proof -
  have p: "unat p \<le> length buf" using i by linarith
  have "inside (words_from p buf) i" using i by (auto simp: inside_def words_from_def)
  from f [OF this] obtain b where b: "f (words_from p buf) = Some b" "length b = length buf - unat p"
      "\<And>k. bit_of b k = (if k = unat i then c else bit_of (words_from p buf) k)"
    by (auto simp: words_from_def)
  let ?buf = "take (unat p) buf @ b"
  have "bit_of ?buf k = (if k = unat p * 32 + unat i then c else bit_of buf k)" for k
  proof (cases "k div 32 < unat p")
    case True
    then show ?thesis using p by (auto simp: bit_of_def nth_append)
  next
    case False
    then obtain j where k: "k = unat p * 32 + j" using less_eqE [of "unat p * 32" k] by fastforce
    have "bit_of ?buf (unat p * 32 + j) = bit_of b j" for j
      using p by (simp add: bit_of_def nth_append div_add1_eq)
    then show ?thesis unfolding k using b(3) [of j] words_from_bit [OF p, of j] by simp
  qed
  then show ?thesis using b p by (auto simp: through_def)
qed

lemma place_unat:
  assumes "minor \<noteq> 0" and "minor < minorSize" and "major < majorSize"
    and "unat majorSize * unat minorSize < 2 ^ 62"
  shows "unat (MapGetIndex major minorSize minor) = unat major * (unat minorSize - 1) + (unat minor - 1)"
    and "unat (MapGetIndex major minorSize minor) < unat majorSize * (unat minorSize - 1)"
proof -
  have m: "0 < unat minor" "unat minor < unat minorSize" "unat major < unat majorSize"
    using assms(1-3) by (auto simp: word_less_nat_alt unat_gt_0)
  have pos: "minorSize \<noteq> 0" using m by auto
  have s1: "unat (minorSize - 1) = unat minorSize - 1" by (rule unat_pred_word [OF pos])
  have bound: "Suc (unat major) * (unat minorSize - 1) \<le> unat majorSize * (unat minorSize - 1)"
    using m(3) by (intro mult_le_mono1) simp
  have le: "unat majorSize * (unat minorSize - 1) \<le> unat majorSize * unat minorSize" by simp
  then have small: "unat major * (unat minorSize - 1) + unat minor < 2 ^ 62 + 1"
    using bound m assms(4) by (simp add: algebra_simps)
  have prod: "unat (major * (minorSize - 1)) = unat major * (unat minorSize - 1)"
    using small s1 by (simp add: unat_word_ariths)
  have sum: "unat (major * (minorSize - 1) + minor) = unat major * (unat minorSize - 1) + unat minor"
    using small prod by (subst unat_add_word) simp_all
  moreover have "major * (minorSize - 1) + minor \<noteq> 0"
    using sum m(1) by (metis add_gr_0 unat_0 less_irrefl)
  ultimately have *: "unat (MapGetIndex major minorSize minor) =
      unat major * (unat minorSize - 1) + unat minor - 1"
    unfolding MapGetIndex_def by (simp add: unat_pred_word)
  with m(1) show "unat (MapGetIndex major minorSize minor) = unat major * (unat minorSize - 1) + (unat minor - 1)"
    by simp
  with m(1,2) bound show "unat (MapGetIndex major minorSize minor) < unat majorSize * (unat minorSize - 1)"
    by simp
qed

lemma words_hold:
  assumes "0 < minor" and "unat major * unat minor < 2 ^ 62"
  shows "unat major * (unat minor - 1) \<le> unat (MapDimensionSizeNeeded major minor) * 32"
proof -
  have "unat (minor - 1) = unat minor - 1" using assms(1) by (intro unat_pred_word) auto
  moreover have "unat major * (unat minor - 1) < 2 ^ 62"
    by (rule le_less_trans [OF _ assms(2)]) simp
  ultimately have "unat (major * (minor - 1)) = unat major * (unat minor - 1)"
    by (simp add: unat_word_ariths)
  then show ?thesis by (simp add: MapDimensionSizeNeeded_def MapBitsNeeded_def BitmapSize_unat)
qed

lemma slot_bounds:
  assumes "map_ok m buf" and "inner m w"
  shows "slot m w < length buf * 32" and "fst w \<longleftrightarrow> unat (map_HWalls m) * 32 \<le> slot m w"
proof -
  obtain hor x y where w: "w = (hor, x, y)" by (cases w)
  let ?W = "map_Width m" and ?H = "map_Height m" and ?h = "unat (map_HWalls m) * 32"
  have ok: "unat ?W * unat ?H < 2 ^ 62" "unat ?H * unat ?W < 2 ^ 62" "0 < ?W" "0 < ?H"
      "map_HWalls m = MapDimensionSizeNeeded ?W ?H" "map_HWalls m = MapDimensionSizeNeeded ?H ?W"
      "?h + ?h \<le> length buf * 32"
    using assms(1) by (auto simp: map_ok_def mult.commute)
  have xy: "x < ?W" "y < ?H" "if hor then y \<noteq> 0 else x \<noteq> 0"
    using assms(2) by (auto simp: inner_def w)
  have room: "unat ?W * (unat ?H - 1) \<le> ?h" "unat ?H * (unat ?W - 1) \<le> ?h"
    using words_hold [of ?H ?W] words_hold [of ?W ?H] ok by auto
  show "slot m w < length buf * 32" "fst w \<longleftrightarrow> ?h \<le> slot m w"
    using place_unat [of y ?H x ?W] place_unat [of x ?W y ?H] ok room xy
    by (auto simp: slot_def w split: if_splits)
qed

lemma grid_index_inj:
  fixes a b c d n :: nat
  assumes "b < n" and "d < n"
  shows "a * n + b = c * n + d \<longleftrightarrow> a = c \<and> b = d"
  using assms by (metis add.commute div_mult_self3 div_less mod_mult_self3 mod_less add_cancel_right_left bot_nat_0.extremum_strict)

lemma cell_unat:
  fixes x y w h :: INDEX
  assumes "x < w" and "y < h" and "unat w * unat h < 2 ^ 62"
  shows "unat (y * w + x) = unat y * unat w + unat x" and "unat (y * w + x) < unat w * unat h"
proof -
  have xy: "unat x < unat w" "unat y < unat h" using assms by (simp_all add: word_less_nat_alt)
  have "Suc (unat y) * unat w \<le> unat h * unat w" using xy(2) by (intro mult_le_mono1) simp
  then have lt: "unat y * unat w + unat x < unat w * unat h" using xy(1) by (simp add: mult.commute)
  then have "unat y * unat w + unat x < 2 ^ 62" using assms(3) by simp
  then show *: "unat (y * w + x) = unat y * unat w + unat x"
    by (simp add: unat_word_ariths)
  show "unat (y * w + x) < unat w * unat h" unfolding * by (rule lt)
qed

lemma cell_inj:
  fixes x y x' y' w h :: INDEX
  assumes "x < w" and "y < h" and "x' < w" and "y' < h" and "unat w * unat h < 2 ^ 62"
  shows "y * w + x = y' * w + x' \<longleftrightarrow> x = x' \<and> y = y'"
proof -
  have "unat x < unat w" "unat x' < unat w" using assms by (simp_all add: word_less_nat_alt)
  then show ?thesis
    using grid_index_inj [of "unat x" "unat w" "unat x'" "unat y" "unat y'"]
      cell_unat(1) [OF assms(1,2,5)] cell_unat(1) [OF assms(3,4,5)]
    by (auto simp: word_unat_eq_iff)
qed

lemma place_inj:
  fixes x y x' y' n :: nat
  assumes "0 < y" and "y < n" and "0 < y'" and "y' < n"
  shows "x * (n - 1) + (y - 1) = x' * (n - 1) + (y' - 1) \<longleftrightarrow> x = x' \<and> y = y'"
  using grid_index_inj [of "y - 1" "n - 1" "y' - 1" x x'] assms by auto

lemma slot_inj:
  assumes "map_ok m buf" and "inner m v" and "inner m w"
  shows "slot m v = slot m w \<longleftrightarrow> v = w"
proof -
  obtain h x y where v: "v = (h, x, y)" by (cases v)
  obtain h' x' y' where w: "w = (h', x', y')" by (cases w)
  show ?thesis
  proof (cases "h = h'")
    case False
    then show ?thesis using slot_bounds(2) [OF assms(1,2)] slot_bounds(2) [OF assms(1,3)] v w by auto
  next
    case True
    have in_v: "unat x < unat (map_Width m)" "unat y < unat (map_Height m)" "if h then 0 < unat y else 0 < unat x"
      using assms(2) by (auto simp: inner_def v word_less_nat_alt unat_gt_0 split: if_splits)
    have in_w: "unat x' < unat (map_Width m)" "unat y' < unat (map_Height m)" "if h then 0 < unat y' else 0 < unat x'"
      using assms(3) True by (auto simp: inner_def w word_less_nat_alt unat_gt_0 split: if_splits)
    show ?thesis
      using place_inj [of "unat y" "unat (map_Height m)" "unat y'" "unat x" "unat x'"]
        place_inj [of "unat x" "unat (map_Width m)" "unat x'" "unat y" "unat y'"] in_v in_w True
      by (auto simp: slot_def v w word_unat_eq_iff split: if_splits)
  qed
qed

lemma wall_flag:
  "MapGetWall x y dir m buf = (case wall_id x y dir of (hor, x, y) \<Rightarrow>
     if hor then MapGetFlag x (map_Width m) y (map_Height m) (map_HWalls m) buf
     else MapGetFlag y (map_Height m) x (map_Width m) (map_VWalls m) buf)"
  "MapSetWall x y dir state m buf = (case wall_id x y dir of (hor, x, y) \<Rightarrow>
     if hor then MapSetFlag x (map_Width m) y (map_Height m) (map_HWalls m) state buf
     else MapSetFlag y (map_Height m) x (map_Width m) (map_VWalls m) state buf)"
  by (simp_all add: MapGetWall_def MapSetWall_def wall_id_def Let_def)

lemma flag_place:
  assumes "map_ok m buf" and "inner m (hor, x, y)"
  shows "hor \<Longrightarrow> unat (map_HWalls m) * 32 + unat (MapGetIndex x (map_Height m) y) = slot m (hor, x, y)"
    and "\<not> hor \<Longrightarrow> unat (MapGetIndex y (map_Width m) x) = slot m (hor, x, y)"
  using assms place_unat(1) [of y "map_Height m" x "map_Width m"]
    place_unat(1) [of x "map_Width m" y "map_Height m"]
  by (auto simp: inner_def map_ok_def slot_def mult.commute split: if_splits)

lemma MapGetWall_slot:
  assumes "map_ok m buf"
  shows "MapGetWall x y dir m buf =
     Some (inner m (wall_id x y dir) \<longrightarrow> bit_of buf (slot m (wall_id x y dir)))"
proof -
  obtain hor x' y' where w: "wall_id x y dir = (hor, x', y')" by (cases "wall_id x y dir")
  show ?thesis
  proof (cases "inner m (hor, x', y')")
    case False
    then show ?thesis
      by (auto simp: wall_flag w inner_def MapGetFlag_def MapOutOfBoundsMinor_def MapOutOfBoundsMajor_def
          not_less split: if_splits)
  next
    case True
    have p: "unat (map_HWalls m) \<le> length buf" "map_VWalls m = 0" using assms by (auto simp: map_ok_def)
    have place: "slot m (hor, x', y') < length buf * 32" by (rule slot_bounds(1) [OF assms True])
    note fp = flag_place [OF assms True]
    have "MapGetWall x y dir m buf =
        BitmapGet (words_from (if hor then map_HWalls m else 0) buf)
          (if hor then MapGetIndex x' (map_Height m) y' else MapGetIndex y' (map_Width m) x')"
      using True p by (auto simp: wall_flag w inner_def MapGetFlag_def MapOutOfBoundsMinor_def
          MapOutOfBoundsMajor_def not_le split: if_splits)
    also have "\<dots> = Some (bit_of (words_from (if hor then map_HWalls m else 0) buf)
          (unat (if hor then MapGetIndex x' (map_Height m) y' else MapGetIndex y' (map_Width m) x')))"
      by (rule BitmapGet_bit) (use fp place in \<open>auto simp: inside_def words_from_def split: if_splits\<close>)
    also have "\<dots> = Some (bit_of buf (slot m (hor, x', y')))"
      using fp p by (auto simp: words_from_bit)
    finally show ?thesis using True w by simp
  qed
qed

lemma MapSetWall_slot:
  assumes "map_ok m buf"
  shows "\<exists>buf'. MapSetWall x y dir state m buf = Some buf' \<and> length buf' = length buf \<and>
     (\<forall>k. bit_of buf' k =
        (if inner m (wall_id x y dir) \<and> k = slot m (wall_id x y dir) then state else bit_of buf k))"
proof -
  obtain hor x' y' where w: "wall_id x y dir = (hor, x', y')" by (cases "wall_id x y dir")
  show ?thesis
  proof (cases "inner m (hor, x', y')")
    case False
    then show ?thesis
      by (auto simp: wall_flag w inner_def MapSetFlag_def MapOutOfBoundsMinor_def MapOutOfBoundsMajor_def
          not_less split: if_splits)
  next
    case True
    have v: "map_VWalls m = 0" using assms by (auto simp: map_ok_def)
    have place: "slot m (hor, x', y') < length buf * 32" by (rule slot_bounds(1) [OF assms True])
    note fp = flag_place [OF assms True]
    let ?p = "if hor then map_HWalls m else 0"
    let ?i = "if hor then MapGetIndex x' (map_Height m) y' else MapGetIndex y' (map_Width m) x'"
    have "MapSetWall x y dir state m buf =
        through ?p (\<lambda>b. if state then BitmapOn b ?i else BitmapOff b ?i) buf"
      using True v by (auto simp: wall_flag w inner_def MapSetFlag_def MapOutOfBoundsMinor_def
          MapOutOfBoundsMajor_def not_le Let_def split: if_splits)
    moreover have at: "unat ?p * 32 + unat ?i = slot m (hor, x', y')" using fp by auto
    moreover have "\<exists>buf'. through ?p (\<lambda>b. if state then BitmapOn b ?i else BitmapOff b ?i) buf = Some buf' \<and>
        length buf' = length buf \<and>
        (\<forall>k. bit_of buf' k = (if k = unat ?p * 32 + unat ?i then state else bit_of buf k))"
    proof (rule through_bits)
      show "unat ?p * 32 + unat ?i < length buf * 32" unfolding at by (rule place)
    qed (rule set_bits)
    ultimately show ?thesis using True w by simp
  qed
qed

lemma MapInit_empty:
  assumes "0 < width" and "0 < height" and "unat width * unat height < 2 ^ 62"
    and "MapDimensionSizeNeeded height width = MapDimensionSizeNeeded width height"
    and "unat (MapSizeNeeded width height) \<le> length buf"
  shows "\<exists>m' buf'. MapInit m buf (MapSizeNeeded width height) width height = Some (True, m', buf') \<and>
     map_ok m' buf' \<and> map_Width m' = width \<and> map_Height m' = height \<and>
     (\<forall>x y d. MapGetWall x y d m' buf' = Some (\<not> inner m' (wall_id x y d)))"
proof -
  let ?n = "MapDimensionSizeNeeded width height"
  let ?m = "m\<lparr>map_VWalls := 0, map_HWalls := ?n, map_Height := height, map_Width := width\<rparr>"
  have "(unat (MapBitsNeeded width height) + 31) div 32 < 2 ^ 60"
    by (rule less_mult_imp_div_less) (use unat_less_64 [of "MapBitsNeeded width height"] in simp)
  then have "unat ?n < 2 ^ 60"
    by (simp add: MapDimensionSizeNeeded_def BitmapSize_unat)
  then have size: "unat (MapSizeNeeded width height) = unat ?n + unat ?n"
    using assms(4) by (simp add: MapSizeNeeded_def unat_word_ariths)
  obtain b where b: "BitmapClearLoop 0 (MapSizeNeeded width height) buf = Some b" "length b = length buf"
      "\<And>k. k < unat (MapSizeNeeded width height) \<Longrightarrow> b ! k = 0"
    using BitmapClearLoop_words [OF assms(5), of 0] by fastforce
  have ok: "map_ok ?m (take (unat ?n + unat ?n) b)" and okb: "map_ok ?m b"
    using assms b(2) size by (simp_all add: map_ok_def)
  have "MapGetWall x y d ?m b = Some (\<not> inner ?m (wall_id x y d))" for x y d
  proof (cases "inner ?m (wall_id x y d)")
    case True
    have "slot ?m (wall_id x y d) div 32 < unat ?n + unat ?n"
      using slot_bounds(1) [OF ok True] b(2) assms(5) size by simp
    then have "\<not> bit_of b (slot ?m (wall_id x y d))"
      using b(3) size by (simp add: bit_of_def)
    then show ?thesis using MapGetWall_slot [OF okb] True by simp
  qed (simp add: MapGetWall_slot [OF okb])
  moreover have "MapInit m buf (MapSizeNeeded width height) width height = Some (True, ?m, b)"
    by (simp add: MapInit_def Let_def b(1))
  ultimately show ?thesis using okb by auto
qed

section \<open>Properties\<close>

text \<open>\<^verbatim>\<open>MapSetWall\<close> sets exactly the wall it names: afterwards \<^verbatim>\<open>MapGetWall\<close> reads the new
  state for both cells the wall belongs to, and every other wall is as before. The walls around the
  maze always read as present and cannot be removed; no access leaves the buffer.\<close>

theorem map_set_get:
  assumes "map_ok m buf"
  shows "\<exists>buf'. MapSetWall x y d state m buf = Some buf' \<and> map_ok m buf' \<and>
     (\<forall>x' y' d'. MapGetWall x' y' d' m buf' =
        (if \<not> inner m (wall_id x' y' d') then Some True
         else if wall_id x' y' d' = wall_id x y d then Some state
         else MapGetWall x' y' d' m buf))"
proof -
  obtain buf' where b: "MapSetWall x y d state m buf = Some buf'" "length buf' = length buf"
    "\<And>k. bit_of buf' k =
        (if inner m (wall_id x y d) \<and> k = slot m (wall_id x y d) then state else bit_of buf k)"
    using MapSetWall_slot [OF assms] by blast
  have ok: "map_ok m buf'" using assms map_ok_length [OF b(2)] by simp
  have "MapGetWall x' y' d' m buf' =
        (if \<not> inner m (wall_id x' y' d') then Some True
         else if wall_id x' y' d' = wall_id x y d then Some state
         else MapGetWall x' y' d' m buf)" for x' y' d'
    using slot_inj [OF assms, of "wall_id x' y' d'" "wall_id x y d"]
    by (auto simp: MapGetWall_slot [OF ok] MapGetWall_slot [OF assms] b(3))
  with b(1) ok show ?thesis by blast
qed

definition map4 :: MAP where
  "map4 = \<lparr>map_VWalls = 0, map_HWalls = 1, map_Height = 4, map_Width = 4\<rparr>"

lemma map4_ok: "map_ok map4 [v, h]"
  by (simp add: map_ok_def map4_def MapDimensionSizeNeeded_def MapBitsNeeded_def BitmapSize_def)

theorem map_set_get_witness:
  "\<exists>buf'. MapSetWall 1 2 NORTH True map4 [0, 0] = Some buf' \<and> MapGetWall 1 3 SOUTH map4 buf' = Some True \<and>
     MapGetWall 1 2 EAST map4 buf' = MapGetWall 1 2 EAST map4 [0, 0]"
proof -
  obtain buf' where b: "MapSetWall 1 2 NORTH True map4 [0, 0] = Some buf'"
    "\<And>x' y' d'. MapGetWall x' y' d' map4 buf' =
        (if \<not> inner map4 (wall_id x' y' d') then Some True
         else if wall_id x' y' d' = wall_id 1 2 NORTH then Some True
         else MapGetWall x' y' d' map4 [0, 0])"
    using map_set_get [OF map4_ok, of 1 2 NORTH True] by blast
  moreover have "inner map4 (wall_id 1 2 EAST)" "wall_id 1 3 SOUTH = wall_id 1 2 NORTH"
      "wall_id 1 2 EAST \<noteq> wall_id 1 2 NORTH"
    by (simp_all add: inner_def wall_id_def map4_def MapAdjustX_def MapAdjustY_def)
  ultimately show ?thesis by auto
qed

text \<open>
  In a maze that is wider than it is high the two lists can overlap: in one of 12 by 3 cells the
  vertical wall west of cell (11, 2) is also the horizontal wall south of cell (0, 1). In one that
  is higher than wide the horizontal walls can end behind the buffer.
\<close>

lemma map_lists_overlap:
  "case MapInit map4 [0, 0, 0] (MapSizeNeeded 12 3) 12 3 of
     Some (True, m, buf) \<Rightarrow> MapGetWall 0 1 SOUTH m buf = Some False \<and>
       Option.bind (MapSetWall 11 2 WEST True m buf) (MapGetWall 0 1 SOUTH m) = Some True
   | _ \<Rightarrow> False"
  by code_simp

lemma map_lists_overrun:
  "case MapInit map4 [0, 0, 0] (MapSizeNeeded 3 12) 3 12 of
     Some (True, m, buf) \<Rightarrow> MapSetWall 2 11 SOUTH True m buf = None
   | _ \<Rightarrow> False"
  by code_simp

text \<open>
  \<^verbatim>\<open>ScanLogInit\<close> hands the number of words to \<^verbatim>\<open>BitmapClear\<close>, which expects a number of bits, so
  it clears a thirty-second part of the log: the flags of a 16 by 16 log that is set up in memory
  that is not zero still read as set from cell (0, 2) on.
\<close>

lemma scan_log_stays_set:
  "Option.bind (ScanLogInit 16 16 (replicate 8 1) \<lparr>sl_Width = 0, sl_Height = 0, sl_Flags = []\<rparr>)
     (ScanLogGet 0 2) = Some True"
  by code_simp

lemma scan_log_set_get:
  assumes "unat (sl_Width l) * unat (sl_Height l) \<le> length (sl_Flags l) * 32"
    and "unat (sl_Width l) * unat (sl_Height l) < 2 ^ 62"
    and "x < sl_Width l" and "y < sl_Height l" 
  shows "\<exists>l'. ScanLogSet x y f l = Some l' \<and>
     (\<forall>x' y'. ScanLogGet x' y' l' = (if x' = x \<and> y' = y then Some f else ScanLogGet x' y' l))"
proof -
  let ?i = "\<lambda>x y. y * sl_Width l + x"
  have "inside (sl_Flags l) (?i x' y')" if "x' < sl_Width l" "y' < sl_Height l" for x' y'
    using cell_unat(2) [OF that assms(2)] assms(1) by (auto simp: inside_def)
  note ins = this
  obtain b where b: "(if f then BitmapOn (sl_Flags l) (?i x y) else BitmapOff (sl_Flags l) (?i x y)) = Some b"
      "length b = length (sl_Flags l)" "\<And>k. bit_of b k = (if k = unat (?i x y) then f else bit_of (sl_Flags l) k)"
    using set_bits [OF ins [OF assms(3,4)], of f] by blast
  have "ScanLogGet x' y' (l\<lparr>sl_Flags := b\<rparr>) = (if x' = x \<and> y' = y then Some f else ScanLogGet x' y' l)" for x' y'
  proof (cases "x' < sl_Width l \<and> y' < sl_Height l")
    case True
    then have "BitmapGet b (?i x' y') = Some (bit_of b (unat (?i x' y')))"
      using BitmapGet_bit [of b "?i x' y'"] ins [of x' y'] b(2) by (simp add: inside_def)
    moreover have "unat (?i x' y') = unat (?i x y) \<longleftrightarrow> x' = x \<and> y' = y"
      using cell_inj [of x' "sl_Width l" y' "sl_Height l" x y] assms True by (simp add: word_unat_eq_iff [symmetric])
    ultimately show ?thesis
      using True BitmapGet_bit [OF ins [of x' y']] b(3)
      by (auto simp: ScanLogGet_def XY_TO_INDEX_def not_le)
  next
    case False
    then show ?thesis using assms by (auto simp: ScanLogGet_def not_less)
  qed
  moreover have "ScanLogSet x y f l = Some (l\<lparr>sl_Flags := b\<rparr>)"
    using b(1) by (auto simp: ScanLogSet_def XY_TO_INDEX_def split: if_splits)
  ultimately show ?thesis by blast
qed

end
