(* ===== verification/FloodFill.thy ===== *)
theory FloodFill
  imports Maze
begin

text \<open>
  The flood fill of \<^verbatim>\<open>src/umouse/floodfill.c\<close>, which computes for every cell of the maze its
  distance from the destination. The buffer of distances and the bitmap of pending cells are the
  two arrays of a \<^verbatim>\<open>FLOOD_MAP\<close>.
\<close>

section \<open>Operations\<close>

record FLOOD_MAP =
  fm_Width :: COUNT
  fm_Height :: COUNT
  fm_FloodMap :: "BITMAP_WORD list"
  fm_EventMap :: bitmap

definition FLOOD_MAP_ITEMS_NEEDED :: "COUNT \<Rightarrow> COUNT \<Rightarrow> COUNT" where
  "FLOOD_MAP_ITEMS_NEEDED width height = width * height"

definition FloodFillGetIndex :: "INDEX \<Rightarrow> INDEX \<Rightarrow> FLOOD_MAP \<Rightarrow> INDEX" where
  "FloodFillGetIndex x y fm = y * fm_Width fm + x"

definition FloodFillGetX :: "INDEX \<Rightarrow> FLOOD_MAP \<Rightarrow> INDEX" where
  "FloodFillGetX index fm = index mod fm_Height fm"

definition FloodFillGetY :: "INDEX \<Rightarrow> FLOOD_MAP \<Rightarrow> INDEX" where
  "FloodFillGetY index fm = index div fm_Width fm"

definition FloodFillSet :: "INDEX \<Rightarrow> INDEX \<Rightarrow> 8 word \<Rightarrow> FLOOD_MAP \<Rightarrow> FLOOD_MAP option" where
  "FloodFillSet x y v fm =
     (if x \<ge> fm_Width fm \<or> y \<ge> fm_Height fm then Some fm
      else do {
        a \<leftarrow> word_put (fm_FloodMap fm) (FloodFillGetIndex x y fm) (ucast v);
        Some (fm\<lparr>fm_FloodMap := a\<rparr>)
      })"

definition FloodNewEvent :: "INDEX \<Rightarrow> INDEX \<Rightarrow> FLOOD_MAP \<Rightarrow> FLOOD_MAP option" where
  "FloodNewEvent x y fm =
     (if x \<ge> fm_Width fm \<or> y \<ge> fm_Height fm then Some fm
      else let index = FloodFillGetIndex x y fm in
        do { e \<leftarrow> BitmapOn (fm_EventMap fm) index; Some (fm\<lparr>fm_EventMap := e\<rparr>) })"

definition FloodGetEvent :: "FLOOD_MAP \<Rightarrow> (INDEX \<times> INDEX \<times> FLOOD_MAP) option" where
  "FloodGetEvent fm =
     do {
       index \<leftarrow> BitmapGetFirstFlag (fm_EventMap fm) (FLOOD_MAP_ITEMS_NEEDED (fm_Width fm) (fm_Height fm));
       if index = - 1 then Some (- 1, - 1, fm)
       else do {
         let y = FloodFillGetY index fm;
         let x = FloodFillGetX index fm;
         e \<leftarrow> BitmapOff (fm_EventMap fm) index;
         Some (x, y, fm\<lparr>fm_EventMap := e\<rparr>)
       }
     }"

definition FloodFillGet :: "INDEX \<Rightarrow> INDEX \<Rightarrow> FLOOD_MAP \<Rightarrow> 8 word option" where
  "FloodFillGet x y fm =
     (if x \<ge> fm_Width fm \<or> y \<ge> fm_Height fm then Some 255
      else map_option ucast (word_at (fm_FloodMap fm) (FloodFillGetIndex x y fm)))"

definition FloodFillInit ::
  "COUNT \<Rightarrow> COUNT \<Rightarrow> BITMAP_WORD list \<Rightarrow> bitmap \<Rightarrow> FLOOD_MAP \<Rightarrow> FLOOD_MAP" where
  "FloodFillInit width height mapBuff eventBuff fm =
     fm\<lparr>fm_Width := width, fm_Height := height, fm_FloodMap := mapBuff, fm_EventMap := eventBuff\<rparr>"

text \<open>
  The loop body of \<^verbatim>\<open>FloodFillCalculate\<close> has one conditional per direction, which differ only in
  the direction and the neighbour they name; the wall is tested first, and the neighbour is not read
  when there is one.
\<close>

definition FloodRelax ::
  "MAP \<Rightarrow> bitmap \<Rightarrow> INDEX \<Rightarrow> INDEX \<Rightarrow> 8 word \<Rightarrow> DIRECTION \<Rightarrow> INDEX \<Rightarrow> INDEX \<Rightarrow> FLOOD_MAP \<Rightarrow> FLOOD_MAP option" where
  "FloodRelax m buf x y curValue dir x' y' fm =
     do {
       wall \<leftarrow> MapGetWall x y dir m buf;
       if wall then Some fm
       else do {
         v \<leftarrow> FloodFillGet x' y' fm;
         if v > curValue then do {
           fm \<leftarrow> FloodFillSet x' y' (curValue + 1) fm;
           FloodNewEvent x' y' fm
         }
         else Some fm
       }
     }"

text \<open>One round of the loop, with the answer whether it ended the loop, and the loop.\<close>

definition FloodFillRound :: "MAP \<Rightarrow> bitmap \<Rightarrow> FLOOD_MAP \<Rightarrow> (bool \<times> FLOOD_MAP) option" where
  "FloodFillRound m buf fm =
     do {
       (x, y, fm) \<leftarrow> FloodGetEvent fm;
       if x = - 1 \<and> y = - 1 then Some (True, fm)
       else do {
         curValue \<leftarrow> FloodFillGet x y fm;
         fm \<leftarrow> FloodRelax m buf x y curValue EAST (x + 1) (y + 0) fm;
         fm \<leftarrow> FloodRelax m buf x y curValue WEST (x - 1) (y + 0) fm;
         fm \<leftarrow> FloodRelax m buf x y curValue NORTH (x + 0) (y + 1) fm;
         fm \<leftarrow> FloodRelax m buf x y curValue SOUTH (x + 0) (y - 1) fm;
         Some (False, fm)
       }
     }"

partial_function (option) FloodFillCalculate :: "MAP \<Rightarrow> bitmap \<Rightarrow> FLOOD_MAP \<Rightarrow> FLOOD_MAP option" where
  "FloodFillCalculate m buf fm =
     do {
       (ended, fm) \<leftarrow> FloodFillRound m buf fm;
       if ended then Some fm else FloodFillCalculate m buf fm
     }"

function FloodFillClearRow :: "INDEX \<Rightarrow> INDEX \<Rightarrow> COUNT \<Rightarrow> FLOOD_MAP \<Rightarrow> FLOOD_MAP option" where
  "FloodFillClearRow x y height fm =
     (if y < height then do { fm \<leftarrow> FloodFillSet x y (- 1) fm; FloodFillClearRow x (y + 1) height fm }
      else Some fm)"
  by pat_completeness auto
termination
  by (relation "measure (\<lambda>(x, y, e, fm). unat e - unat y)") (auto simp: up_to_bound)

function FloodFillClearLoop :: "INDEX \<Rightarrow> COUNT \<Rightarrow> COUNT \<Rightarrow> FLOOD_MAP \<Rightarrow> FLOOD_MAP option" where
  "FloodFillClearLoop x width height fm =
     (if x < width then do { fm \<leftarrow> FloodFillClearRow x 0 height fm; FloodFillClearLoop (x + 1) width height fm }
      else Some fm)"
  by pat_completeness auto
termination
  by (relation "measure (\<lambda>(x, e, h, fm). unat e - unat x)") (auto simp: up_to_bound)

declare FloodFillClearRow.simps [simp del] FloodFillClearLoop.simps [simp del]

definition FloodFillClear :: "FLOOD_MAP \<Rightarrow> FLOOD_MAP option" where
  "FloodFillClear fm =
     do {
       fm \<leftarrow> FloodFillClearLoop 0 (fm_Width fm) (fm_Height fm) fm;
       e \<leftarrow> BitmapClear (fm_EventMap fm) (fm_Width fm * fm_Height fm);
       Some (fm\<lparr>fm_EventMap := e\<rparr>)
     }"

definition FloodFillSetDestination :: "INDEX \<Rightarrow> INDEX \<Rightarrow> FLOOD_MAP \<Rightarrow> FLOOD_MAP option" where
  "FloodFillSetDestination x y fm = do { fm \<leftarrow> FloodFillSet x y 0 fm; FloodNewEvent x y fm }"

section \<open>Relaxation in a grid\<close>

text \<open>
  The algorithm on an abstract grid: \<open>nb d c\<close> is the neighbour of a cell in a direction and \<open>passage c d\<close>
  says that no wall is in between. The state is the value of every cell and the set of pending cells.
\<close>

type_synonym cell = "INDEX \<times> INDEX"

inductive dist_path :: "('c \<Rightarrow> DIRECTION \<Rightarrow> bool) \<Rightarrow> (DIRECTION \<Rightarrow> 'c \<Rightarrow> 'c) \<Rightarrow> 'c set \<Rightarrow> nat \<Rightarrow> 'c \<Rightarrow> bool"
  for passage nb ds where
  start: "c \<in> ds \<Longrightarrow> dist_path passage nb ds 0 c"
| move: "dist_path passage nb ds k c \<Longrightarrow> passage c d \<Longrightarrow> dist_path passage nb ds (Suc k) (nb d c)"

locale grid =
  fixes passage :: "'c \<Rightarrow> DIRECTION \<Rightarrow> bool" and nb :: "DIRECTION \<Rightarrow> 'c \<Rightarrow> 'c"
  assumes nb_other: "nb d c \<noteq> c"
begin

definition relax :: "'c \<Rightarrow> nat \<Rightarrow> DIRECTION \<Rightarrow> ('c \<Rightarrow> nat) \<times> 'c set \<Rightarrow> ('c \<Rightarrow> nat) \<times> 'c set" where
  "relax c cur d = (\<lambda>(V, E). if passage c d \<and> V (nb d c) > cur
     then (V(nb d c := cur + 1), insert (nb d c) E) else (V, E))"

definition visit :: "'c \<Rightarrow> ('c \<Rightarrow> nat) \<times> 'c set \<Rightarrow> ('c \<Rightarrow> nat) \<times> 'c set" where
  "visit c = (\<lambda>(V, E). fold (relax c (V c)) [EAST, WEST, NORTH, SOUTH] (V, E - {c}))"

text \<open>What holds while the pending cells \<open>E\<close> and the directions \<open>D\<close> of cell \<open>c\<close> are still to be done.\<close>

definition sound :: "'c set \<Rightarrow> ('c \<Rightarrow> nat) \<Rightarrow> bool" where
  "sound ds V \<longleftrightarrow> (\<forall>c. V c \<le> 255 \<and> (V c < 255 \<longrightarrow> dist_path passage nb ds (V c) c))"

definition relaxed :: "('c \<Rightarrow> nat) \<Rightarrow> 'c \<Rightarrow> DIRECTION \<Rightarrow> bool" where
  "relaxed V c d \<longleftrightarrow> (passage c d \<longrightarrow> V (nb d c) \<le> V c + 1)"

definition weight :: "('c \<Rightarrow> nat) \<Rightarrow> 'c set \<Rightarrow> nat" where
  "weight V E = (\<Sum>c \<in> E. 5 ^ (255 - V c))"

definition fill_inv :: "'c set \<Rightarrow> ('c \<Rightarrow> nat) \<times> 'c set \<Rightarrow> bool" where
  "fill_inv ds = (\<lambda>(V, E). finite E \<and> sound ds V \<and> (\<forall>c \<in> ds. V c = 0) \<and>
     (\<forall>c d. c \<notin> E \<longrightarrow> relaxed V c d))"

definition visiting :: "'c set \<Rightarrow> 'c \<Rightarrow> nat \<Rightarrow> DIRECTION set \<Rightarrow> ('c \<Rightarrow> nat) \<times> 'c set \<Rightarrow> bool" where
  "visiting ds c cur D = (\<lambda>(V, E). finite E \<and> sound ds V \<and> (\<forall>c \<in> ds. V c = 0) \<and> V c = cur \<and>
     (\<forall>c' d. c' \<notin> E \<longrightarrow> c' \<noteq> c \<or> d \<in> D \<longrightarrow> relaxed V c' d))"

lemma relax_visiting:
  assumes "visiting ds c cur D (V, E)"
  shows "visiting ds c cur (insert d D) (relax c cur d (V, E))"
proof (cases "passage c d \<and> V (nb d c) > cur")
  case False
  then have "V c = cur \<Longrightarrow> relaxed V c d" by (auto simp: relaxed_def)
  moreover have "relax c cur d (V, E) = (V, E)" using False by (auto simp: relax_def)
  ultimately show ?thesis using assms unfolding visiting_def by auto
next
  case True
  let ?n = "nb d c"
  have v: "finite E" "sound ds V" "\<And>c. c \<in> ds \<Longrightarrow> V c = 0" "V c = cur"
    "\<And>c' e. c' \<notin> E \<Longrightarrow> c' \<noteq> c \<or> e \<in> D \<Longrightarrow> relaxed V c' e"
    using assms by (auto simp: visiting_def)
  have "V ?n \<le> 255" using v(2) by (simp add: sound_def)
  then have cur: "cur < 255" using True by simp
  have "dist_path passage nb ds cur c" using v(2,4) cur by (auto simp: sound_def)
  then have "dist_path passage nb ds (Suc cur) ?n" using True by (blast intro: dist_path.move)
  then have s: "sound ds (V(?n := cur + 1))" using v(2) cur by (auto simp: sound_def)
  have "?n \<notin> ds" using v(3) [of ?n] True by auto
  moreover have "relaxed (V(?n := cur + 1)) c' e"
    if "c' \<notin> insert ?n E" "c' \<noteq> c \<or> e \<in> insert d D" for c' e
  proof (cases "c' = c \<and> e = d")
    case True
    then show ?thesis using v(4) nb_other [of d c] by (auto simp: relaxed_def)
  next
    case False
    then have "relaxed V c' e" using v(5) that by auto
    then show ?thesis using that True by (auto simp: relaxed_def)
  qed
  ultimately show ?thesis
    using v s True nb_other [of d c] by (auto simp: visiting_def relax_def)
qed

lemma relax_weight:
  assumes "visiting ds c cur D (V, E)"
  shows "case relax c cur d (V, E) of (V', E') \<Rightarrow> weight V' E' \<le> weight V E + 5 ^ (254 - cur)"
proof (cases "passage c d \<and> V (nb d c) > cur")
  case True
  let ?n = "nb d c" and ?V = "V(nb d c := cur + 1)"
  have fin: "finite E" using assms by (simp add: visiting_def)
  have "weight ?V (insert ?n E) = 5 ^ (255 - (cur + 1)) + weight ?V (E - {?n})"
    using sum.insert_remove [OF fin, of "\<lambda>c. 5 ^ (255 - ?V c)" ?n] by (simp add: weight_def)
  also have "weight ?V (E - {?n}) = weight V (E - {?n})"
    unfolding weight_def by (rule sum.cong) auto
  also have "weight V (E - {?n}) \<le> weight V E"
    unfolding weight_def using fin by (intro sum_mono2) auto
  finally show ?thesis using True by (simp add: relax_def fun_upd_def)
qed (auto simp: relax_def)

lemma visit_inv:
  assumes "fill_inv ds (V, E)"
  shows "fill_inv ds (visit c (V, E))"
proof -
  obtain p where p: "p = (V, E - {c})" "visiting ds c (V c) {} p"
    using assms by (auto simp: fill_inv_def visiting_def)
  have "visiting ds c (V c) (insert SOUTH (insert NORTH (insert WEST (insert EAST {}))))
      (relax c (V c) SOUTH (relax c (V c) NORTH (relax c (V c) WEST (relax c (V c) EAST p))))"
    using relax_visiting p(2) by (metis surj_pair)
  moreover have "d \<in> {SOUTH, NORTH, WEST, EAST}" for d by (cases d) auto
  ultimately show ?thesis
    unfolding fill_inv_def visiting_def visit_def p(1) by (auto split: prod.splits)
qed

lemma visit_weight:
  assumes "fill_inv ds (V, E)" and "c \<in> E"
  shows "case visit c (V, E) of (V', E') \<Rightarrow> weight V' E' < weight V E"
proof -
  have fin: "finite E" and cur: "V c \<le> 255" using assms(1) by (auto simp: fill_inv_def sound_def)
  obtain p where p: "p = (V, E - {c})" "visiting ds c (V c) {} p"
    using assms by (auto simp: fill_inv_def visiting_def)
  obtain V1 E1 where r1: "relax c (V c) EAST p = (V1, E1)" by (cases "relax c (V c) EAST p")
  obtain V2 E2 where r2: "relax c (V c) WEST (V1, E1) = (V2, E2)" by (cases "relax c (V c) WEST (V1, E1)")
  obtain V3 E3 where r3: "relax c (V c) NORTH (V2, E2) = (V3, E3)" by (cases "relax c (V c) NORTH (V2, E2)")
  obtain V4 E4 where r4: "relax c (V c) SOUTH (V3, E3) = (V4, E4)" by (cases "relax c (V c) SOUTH (V3, E3)")
  note r = r1 r2 r3 r4
  have v1: "visiting ds c (V c) {EAST} (V1, E1)"
    using relax_visiting [of ds c "V c" "{}" V "E - {c}" EAST] p r(1) by simp
  have v2: "visiting ds c (V c) {WEST, EAST} (V2, E2)" using relax_visiting [OF v1, of WEST] r(2) by simp
  have v3: "visiting ds c (V c) {NORTH, WEST, EAST} (V3, E3)" using relax_visiting [OF v2, of NORTH] r(3) by simp
  have w: "weight V1 E1 \<le> weight V (E - {c}) + 5 ^ (254 - V c)"
      "weight V2 E2 \<le> weight V1 E1 + 5 ^ (254 - V c)" "weight V3 E3 \<le> weight V2 E2 + 5 ^ (254 - V c)"
      "weight V4 E4 \<le> weight V3 E3 + 5 ^ (254 - V c)"
    using relax_weight [of ds c "V c" "{}" V "E - {c}" EAST] relax_weight [OF v1, of WEST]
      relax_weight [OF v2, of NORTH] relax_weight [OF v3, of SOUTH] p r by simp_all
  have vis: "visit c (V, E) = (V4, E4)" using r p(1) by (simp add: visit_def)
  have split: "weight V E = 5 ^ (255 - V c) + weight V (E - {c})"
    unfolding weight_def by (rule sum.remove [OF fin assms(2)])
  show ?thesis
  proof (cases "V c = 255")
    case True
    have "\<not> V (nb d c) > V c" for d using assms(1) True by (simp add: fill_inv_def sound_def not_less)
    then have "relax c (V c) d p = p" for d using p(1) by (simp add: relax_def)
    then have "p = (V4, E4)" using r by simp
    then show ?thesis using vis split p(1) True by simp
  next
    case False
    then have "255 - V c = Suc (254 - V c)" using cur by simp
    then have "(5::nat) ^ (255 - V c) = 5 * 5 ^ (254 - V c)" by (simp only: power_Suc)
    moreover have "0 < (5::nat) ^ (254 - V c)" by (rule zero_less_power) simp
    moreover have "w4 < w0" if "0 < q" "w1 \<le> r + q" "w2 \<le> w1 + q" "w3 \<le> w2 + q" "w4 \<le> w3 + q" "w0 = 5 * q + r"
      for q r w0 w1 w2 w3 w4 :: nat
      using that by linarith
    ultimately have "weight V4 E4 < weight V E" using w split by (metis (no_types))
    then show ?thesis using vis by simp
  qed
qed

lemma fill_final:
  assumes "fill_inv ds (V, {})" and "k < 255"
  shows "V c \<le> k \<longleftrightarrow> (\<exists>j \<le> k. dist_path passage nb ds j c)"
proof
  assume "V c \<le> k"
  then show "\<exists>j \<le> k. dist_path passage nb ds j c"
    using assms by (auto simp: fill_inv_def sound_def intro!: exI [of _ "V c"])
next
  have "V c \<le> j" if "dist_path passage nb ds j c" for j c
    using that
  proof (induction rule: dist_path.induct)
    case (start c)
    then show ?case using assms(1) by (simp add: fill_inv_def)
  next
    case (move k c d)
    moreover have "relaxed V c d" using assms(1) by (simp add: fill_inv_def)
    ultimately show ?case by (auto simp: relaxed_def)
  qed
  then show "\<exists>j \<le> k. dist_path passage nb ds j c \<Longrightarrow> V c \<le> k" using order_trans by blast
qed

end

section \<open>The flood map as a grid state\<close>

definition neighbour :: "DIRECTION \<Rightarrow> cell \<Rightarrow> cell" where
  "neighbour d c = (case c of (x, y) \<Rightarrow>
     (case d of NORTH \<Rightarrow> (x, y + 1) | EAST \<Rightarrow> (x + 1, y) | SOUTH \<Rightarrow> (x, y - 1) | WEST \<Rightarrow> (x - 1, y)))"

definition maze_open :: "MAP \<Rightarrow> bitmap \<Rightarrow> cell \<Rightarrow> DIRECTION \<Rightarrow> bool" where
  "maze_open m buf c d \<longleftrightarrow> MapGetWall (fst c) (snd c) d m buf = Some False"

interpretation mz: grid "maze_open m buf" neighbour for m buf
proof
  fix d c show "neighbour d c \<noteq> c" by (cases d; cases c) (simp_all add: neighbour_def)
qed

definition cells :: "FLOOD_MAP \<Rightarrow> cell set" where
  "cells fm = {(x, y). x < fm_Width fm \<and> y < fm_Height fm}"

definition cell_value :: "FLOOD_MAP \<Rightarrow> cell \<Rightarrow> nat" where
  "cell_value fm c = unat (the (FloodFillGet (fst c) (snd c) fm))"

definition pending :: "FLOOD_MAP \<Rightarrow> cell set" where
  "pending fm = {c \<in> cells fm. bit_of (fm_EventMap fm) (unat (FloodFillGetIndex (fst c) (snd c) fm))}"

text \<open>A square flood map with buffers of the required length and no event behind the last cell.\<close>

definition flood_room :: "COUNT \<Rightarrow> FLOOD_MAP \<Rightarrow> bool" where
  "flood_room n fm \<longleftrightarrow> fm_Width fm = n \<and> fm_Height fm = n \<and> 0 < n \<and> unat n * unat n < 2 ^ 62 \<and>
     unat n * unat n \<le> length (fm_FloodMap fm) \<and> length (fm_EventMap fm) < 2 ^ 59 \<and>
     unat n * unat n \<le> length (fm_EventMap fm) * 32"

definition flood_ok :: "COUNT \<Rightarrow> FLOOD_MAP \<Rightarrow> bool" where
  "flood_ok n fm \<longleftrightarrow> flood_room n fm \<and>
     (\<forall>k. unat n * unat n \<le> k \<and> k < (unat n * unat n + 31) div 32 * 32 \<longrightarrow> \<not> bit_of (fm_EventMap fm) k)"

lemma index_unat:
  assumes "flood_room n fm" and "(x, y) \<in> cells fm"
  shows "unat (FloodFillGetIndex x y fm) < unat n * unat n"
  using assms cell_unat(2) [of x n y n] by (simp add: flood_room_def cells_def FloodFillGetIndex_def)

lemma index_inj:
  assumes "flood_room n fm" and "(x, y) \<in> cells fm" and "(x', y') \<in> cells fm"
  shows "FloodFillGetIndex x y fm = FloodFillGetIndex x' y' fm \<longleftrightarrow> (x, y) = (x', y')"
  using assms cell_inj [of x n y n x' y'] by (simp add: flood_room_def cells_def FloodFillGetIndex_def)

lemma FloodFillGet_value: "flood_room n fm \<Longrightarrow> FloodFillGet x y fm = Some (the (FloodFillGet x y fm))"
  using index_unat [of n fm x y]
  by (auto simp: FloodFillGet_def word_at_def flood_room_def cells_def not_le)

lemma FloodFillGet_cell:
  "flood_room n fm \<Longrightarrow> (x, y) \<in> cells fm \<Longrightarrow>
     FloodFillGet x y fm = Some (ucast (fm_FloodMap fm ! unat (FloodFillGetIndex x y fm)))"
  using index_unat [of n fm x y]
  by (auto simp: FloodFillGet_def word_at_def flood_room_def cells_def not_le)

lemma char_word [simp]: "ucast (ucast (v :: 8 word) :: 32 word) = v"
  by (rule bit_word_eqI) (auto simp: bit_simps)

lemma FloodFillSet_cell:
  assumes "flood_room n fm" and "(x, y) \<in> cells fm"
  shows "\<exists>fm'. FloodFillSet x y v fm = Some fm' \<and> flood_room n fm' \<and> fm_EventMap fm' = fm_EventMap fm \<and>
     fm_Width fm' = fm_Width fm \<and> fm_Height fm' = fm_Height fm \<and>
     (\<forall>x' y'. FloodFillGet x' y' fm' = (if (x', y') = (x, y) then Some v else FloodFillGet x' y' fm))"
proof -
  let ?i = "\<lambda>x y. unat (FloodFillGetIndex x y fm)"
  let ?fm = "fm\<lparr>fm_FloodMap := (fm_FloodMap fm)[?i x y := ucast v]\<rparr>"
  have in_map: "?i x y < length (fm_FloodMap fm)"
    using index_unat [OF assms] assms(1) by (simp add: flood_room_def)
  have room: "flood_room n ?fm" using assms(1) by (simp add: flood_room_def)
  have "FloodFillGet x' y' ?fm = (if (x', y') = (x, y) then Some v else FloodFillGet x' y' fm)" for x' y'
  proof (cases "(x', y') \<in> cells fm")
    case True
    have "?i x' y' = ?i x y \<longleftrightarrow> (x', y') = (x, y)"
      using index_inj [OF assms(1) True assms(2)] by (simp add: word_unat_eq_iff [symmetric])
    then show ?thesis
      using FloodFillGet_cell [OF room, of x' y'] FloodFillGet_cell [OF assms(1) True] True in_map
      by (auto simp: cells_def FloodFillGetIndex_def)
  next
    case False
    then show ?thesis using assms(2) by (auto simp: cells_def FloodFillGet_def)
  qed
  moreover have "FloodFillSet x y v fm = Some ?fm"
    using assms(2) in_map by (auto simp: FloodFillSet_def cells_def word_put_def)
  ultimately show ?thesis using room by fastforce
qed

lemma cell_value_set:
  assumes "flood_ok n fm" and "(x, y) \<in> cells fm"
  shows "\<exists>fm'. FloodFillSet x y v fm = Some fm' \<and> flood_ok n fm' \<and>
     cell_value fm' = (cell_value fm)((x, y) := unat v) \<and> pending fm' = pending fm \<and> cells fm' = cells fm"
proof -
  from assms(1) have room: "flood_room n fm" by (simp add: flood_ok_def)
  obtain fm' where f: "FloodFillSet x y v fm = Some fm'" "flood_room n fm'" "fm_EventMap fm' = fm_EventMap fm"
      "fm_Width fm' = fm_Width fm" "fm_Height fm' = fm_Height fm"
      "\<And>x' y'. FloodFillGet x' y' fm' = (if (x', y') = (x, y) then Some v else FloodFillGet x' y' fm)"
    using FloodFillSet_cell [OF room assms(2)] by blast
  have "cell_value fm' = (cell_value fm)((x, y) := unat v)"
    using f(6) by (auto simp: cell_value_def fun_eq_iff)
  moreover have "cells fm' = cells fm" using f(4,5) by (simp add: cells_def)
  moreover from this have "pending fm' = pending fm"
    using f(3,4) by (simp add: pending_def FloodFillGetIndex_def)
  ultimately show ?thesis using f assms(1) by (auto simp: flood_ok_def)
qed

lemma event_update:
  assumes "flood_ok n fm" and "(x, y) \<in> cells fm" and "length e = length (fm_EventMap fm)"
    and "\<And>k. bit_of e k = (if k = unat (FloodFillGetIndex x y fm) then c else bit_of (fm_EventMap fm) k)"
  shows "flood_ok n (fm\<lparr>fm_EventMap := e\<rparr>)"
    and "cell_value (fm\<lparr>fm_EventMap := e\<rparr>) = cell_value fm"
    and "pending (fm\<lparr>fm_EventMap := e\<rparr>) = (if c then insert (x, y) (pending fm) else pending fm - {(x, y)})"
    and "cells (fm\<lparr>fm_EventMap := e\<rparr>) = cells fm"
proof -
  from assms(1) have room: "flood_room n fm" by (simp add: flood_ok_def)
  have "unat (FloodFillGetIndex x y fm) < unat n * unat n" by (rule index_unat [OF room assms(2)])
  then show "flood_ok n (fm\<lparr>fm_EventMap := e\<rparr>)"
    using assms(1,3,4) by (auto simp: flood_ok_def flood_room_def)
  show cells: "cells (fm\<lparr>fm_EventMap := e\<rparr>) = cells fm" by (simp add: cells_def)
  show "cell_value (fm\<lparr>fm_EventMap := e\<rparr>) = cell_value fm"
    by (simp add: cell_value_def fun_eq_iff FloodFillGet_def FloodFillGetIndex_def)
  have idx: "FloodFillGetIndex a b (fm\<lparr>fm_EventMap := e\<rparr>) = FloodFillGetIndex a b fm" for a b
    by (simp add: FloodFillGetIndex_def)
  have "(a, b) \<in> pending (fm\<lparr>fm_EventMap := e\<rparr>) \<longleftrightarrow>
      (a, b) \<in> (if c then insert (x, y) (pending fm) else pending fm - {(x, y)})" for a b
  proof (cases "(a, b) \<in> cells fm")
    case True
    have "unat (FloodFillGetIndex a b fm) = unat (FloodFillGetIndex x y fm) \<longleftrightarrow> (a, b) = (x, y)"
      using index_inj [OF room True assms(2)] by (simp add: word_unat_eq_iff [symmetric])
    then show ?thesis using True cells by (auto simp: pending_def idx assms(4))
  next
    case False
    then show ?thesis using assms(2) cells by (auto simp: pending_def)
  qed
  then show "pending (fm\<lparr>fm_EventMap := e\<rparr>) =
      (if c then insert (x, y) (pending fm) else pending fm - {(x, y)})"
    by (intro set_eqI) (simp only: split_paired_all)
qed

lemma FloodNewEvent_cell:
  assumes "flood_ok n fm" and "(x, y) \<in> cells fm"
  shows "\<exists>fm'. FloodNewEvent x y fm = Some fm' \<and> flood_ok n fm' \<and> cell_value fm' = cell_value fm \<and>
     pending fm' = insert (x, y) (pending fm) \<and> cells fm' = cells fm"
proof -
  let ?i = "FloodFillGetIndex x y fm"
  have "inside (fm_EventMap fm) ?i"
    using index_unat [OF _ assms(2)] assms(1) by (fastforce simp: inside_def flood_ok_def flood_room_def)
  then obtain e where e: "BitmapOn (fm_EventMap fm) ?i = Some e" "length e = length (fm_EventMap fm)"
      "\<And>k. bit_of e k = (if k = unat ?i then True else bit_of (fm_EventMap fm) k)"
    using BitmapOn_bits by blast
  then show ?thesis
    using event_update [OF assms e(2,3)] assms(2)
    by (auto simp: FloodNewEvent_def cells_def Let_def)
qed

lemma max_word_unat: "unat (- 1 :: INDEX) = 2 ^ 64 - 1"
  by (simp add: unsigned_minus_1_eq_mask mask_eq_exp_minus_1)

lemma FloodGetEvent_cases:
  assumes "flood_ok n fm"
  obtains "FloodGetEvent fm = Some (- 1, - 1, fm)" and "pending fm = {}"
  | x y fm' where "FloodGetEvent fm = Some (x, y, fm')" and "(x, y) \<in> pending fm" and "\<not> (x = - 1 \<and> y = - 1)"
      and "flood_ok n fm'" and "cell_value fm' = cell_value fm" and "pending fm' = pending fm - {(x, y)}"
      and "cells fm' = cells fm"
proof -
  from assms have room: "flood_room n fm"
    and tail: "\<And>k. unat n * unat n \<le> k \<Longrightarrow> k < (unat n * unat n + 31) div 32 * 32 \<Longrightarrow> \<not> bit_of (fm_EventMap fm) k"
    by (auto simp: flood_ok_def)
  then have w: "fm_Width fm = n" "fm_Height fm = n" "0 < n" "unat n * unat n < 2 ^ 62"
      "length (fm_EventMap fm) < 2 ^ 59" "unat n * unat n \<le> length (fm_EventMap fm) * 32"
    by (auto simp: flood_room_def)
  have items: "unat (n * n) = unat n * unat n" using w(4) by (simp add: unat_word_ariths)
  have size: "unat (BitmapSize (n * n)) = (unat n * unat n + 31) div 32"
    using items by (simp add: BitmapSize_unat)
  have "(unat n * unat n + 31) div 32 \<le> (length (fm_EventMap fm) * 32 + 31) div 32"
    using w(6) by (intro div_le_mono) simp
  then have "unat (BitmapSize (n * n)) \<le> length (fm_EventMap fm)" using size by simp
  from BitmapScan_first [OF w(5) this, of 0] obtain i where i: "BitmapGetFirstFlag (fm_EventMap fm) (n * n) = Some i"
      "first_in (fm_EventMap fm) 0 (unat (BitmapSize (n * n)) * 32) (unat i) \<or>
       i = - 1 \<and> (\<forall>k < unat (BitmapSize (n * n)) * 32. \<not> bit_of (fm_EventMap fm) k)"
    by (auto simp: BitmapGetFirstFlag_def)
  show thesis
  proof (cases "i = - 1 \<and> (\<forall>k < unat (BitmapSize (n * n)) * 32. \<not> bit_of (fm_EventMap fm) k)")
    case True
    have "c \<notin> pending fm" for c
    proof (cases c)
      case (Pair x y)
      have "unat n * unat n \<le> (unat n * unat n + 31) div 32 * 32" by simp
      then show ?thesis
        using True index_unat [OF room, of x y] Pair size by (auto simp: pending_def)
    qed
    then have "pending fm = {}" by blast
    moreover have "FloodGetEvent fm = Some (- 1, - 1, fm)"
      using i(1) w(1,2) True by (simp add: FloodGetEvent_def FLOOD_MAP_ITEMS_NEEDED_def)
    ultimately show thesis using that(1) by blast
  next
    case False
    then have f: "bit_of (fm_EventMap fm) (unat i)" "unat i < (unat n * unat n + 31) div 32 * 32"
      using i(2) size by (auto simp: first_in_def)
    then have lt: "unat i < unat n * unat n" using tail [of "unat i"] by (meson not_less)
    let ?x = "i mod n" and ?y = "i div n"
    have xy: "unat ?x = unat i mod unat n" "unat ?y = unat i div unat n" by (simp_all add: unat_mod unat_div)
    have n0: "0 < unat n" using w(3) by (simp add: word_less_nat_alt)
    have cell: "(?x, ?y) \<in> cells fm"
      using lt n0 xy by (simp add: cells_def w word_less_nat_alt less_mult_imp_div_less)
    have idx: "FloodFillGetIndex ?x ?y fm = i"
      by (simp add: FloodFillGetIndex_def w div_mult_mod_eq)
    have i1: "i \<noteq> - 1" using lt w(4) max_word_unat by fastforce
    have "inside (fm_EventMap fm) i" using lt w(6) by (auto simp: inside_def)
    then obtain e where e: "BitmapOff (fm_EventMap fm) i = Some e" "length e = length (fm_EventMap fm)"
        "\<And>k. bit_of e k = (if k = unat i then False else bit_of (fm_EventMap fm) k)"
      using BitmapOff_bits by blast
    note up = event_update [OF assms cell e(2), of False, unfolded idx, OF e(3)]
    have "?x \<noteq> - 1"
    proof
      assume "?x = - 1"
      then have "unat ?x = 2 ^ 64 - 1" using max_word_unat by simp
      moreover have "unat ?x < unat n" using cell by (simp add: cells_def w word_less_nat_alt)
      ultimately show False using unat_less_64 [of n] by simp
    qed
    moreover have "FloodGetEvent fm = Some (?x, ?y, fm\<lparr>fm_EventMap := e\<rparr>)"
      using i(1) i1 w e(1) by (simp add: FloodGetEvent_def FLOOD_MAP_ITEMS_NEEDED_def FloodFillGetX_def FloodFillGetY_def)
    ultimately show thesis
      using that(2) up cell f(1) idx by (simp add: pending_def)
  qed
qed

lemma passage_inside:
  assumes "map_ok m buf" and "maze_open m buf (x, y) d" and "x < map_Width m" and "y < map_Height m"
  shows "fst (neighbour d (x, y)) < map_Width m \<and> snd (neighbour d (x, y)) < map_Height m"
proof -
  have "inner m (wall_id x y d)" using assms(1,2) MapGetWall_slot [OF assms(1), of x y d] by (simp add: maze_open_def)
  moreover have "a - 1 < a" if "a \<noteq> 0" for a :: INDEX
    using that unat_pred_word [OF that] by (simp add: word_less_nat_alt unat_gt_0)
  ultimately show ?thesis
    using assms(3,4) by (cases d) (auto simp: inner_def wall_id_def neighbour_def MapAdjustX_def MapAdjustY_def intro: less_trans)
qed

lemma FloodRelax_simulates:
  assumes "flood_ok n fm" and "map_ok m buf" and "map_Width m = n" and "map_Height m = n"
    and "(x, y) \<in> cells fm" and "neighbour d (x, y) = (x', y')"
  shows "\<exists>fm'. FloodRelax m buf x y v d x' y' fm = Some fm' \<and> flood_ok n fm' \<and> cells fm' = cells fm \<and>
     (cell_value fm', pending fm') = mz.relax m buf (x, y) (unat v) d (cell_value fm, pending fm)"
proof -
  from assms(1) have room: "flood_room n fm" by (simp add: flood_ok_def)
  obtain w where w: "FloodFillGet x' y' fm = Some w" "cell_value fm (x', y') = unat w"
    using FloodFillGet_value [OF room, of x' y'] by (auto simp: cell_value_def)
  obtain b where b: "MapGetWall x y d m buf = Some b" using MapGetWall_slot [OF assms(2)] by blast
  show ?thesis
  proof (cases "\<not> b \<and> v < w")
    case False
    then show ?thesis
      using b w assms(1,6) by (auto simp: FloodRelax_def mz.relax_def maze_open_def word_less_nat_alt)
  next
    case True
    then have op: "maze_open m buf (x, y) d" using b by (simp add: maze_open_def)
    have cell: "(x', y') \<in> cells fm"
      using passage_inside [OF assms(2) op] assms(3-6) room by (auto simp: cells_def flood_room_def)
    have v1: "unat (v + 1) = unat v + 1"
      by (rule unat_Suc_word) (use True unsigned_less [of w, where ?'a = nat] in \<open>simp add: word_less_nat_alt\<close>)
    obtain f1 where f1: "FloodFillSet x' y' (v + 1) fm = Some f1" "flood_ok n f1"
        "cell_value f1 = (cell_value fm)((x', y') := unat v + 1)" "pending f1 = pending fm" "cells f1 = cells fm"
      using cell_value_set [OF assms(1) cell, of "v + 1"] v1 by auto
    obtain f2 where f2: "FloodNewEvent x' y' f1 = Some f2" "flood_ok n f2" "cell_value f2 = cell_value f1"
        "pending f2 = insert (x', y') (pending f1)" "cells f2 = cells f1"
      using FloodNewEvent_cell [OF f1(2)] cell f1(5) by blast
    have "FloodRelax m buf x y v d x' y' fm = Some f2" using b w True f1(1) f2(1) by (simp add: FloodRelax_def)
    moreover have "cell_value fm (neighbour d (x, y)) > unat v" using True w assms(6) by (simp add: word_less_nat_alt)
    ultimately show ?thesis using op f1 f2 assms(6) by (simp add: mz.relax_def)
  qed
qed

lemma FloodFillCalculate_fills:
  assumes "map_ok m buf" and "map_Width m = n" and "map_Height m = n"
    and "flood_ok n fm" and "mz.fill_inv m buf ds (cell_value fm, pending fm)"
  shows "\<exists>fm'. FloodFillCalculate m buf fm = Some fm' \<and> flood_ok n fm' \<and>
     mz.fill_inv m buf ds (cell_value fm', {})"
  using assms(4,5)
proof (induction "mz.weight (cell_value fm) (pending fm)" arbitrary: fm rule: less_induct)
  case less
  from less.prems(1) show ?case
  proof (cases rule: FloodGetEvent_cases)
    case 1
    then show ?thesis using less.prems by (subst FloodFillCalculate.simps) (simp add: FloodFillRound_def)
  next
    case (2 x y f0)
    have cell: "(x, y) \<in> cells fm" using 2(2) by (simp add: pending_def)
    have room: "flood_room n f0" using 2(4) by (simp add: flood_ok_def)
    obtain v where v: "FloodFillGet x y f0 = Some v" "unat v = cell_value f0 (x, y)"
      using FloodFillGet_value [OF room, of x y] by (auto simp: cell_value_def)
    note relax = FloodRelax_simulates [OF _ assms(1-3), where v = v]
    obtain f1 where f1: "FloodRelax m buf x y v EAST (x + 1) (y + 0) f0 = Some f1" "flood_ok n f1" "cells f1 = cells fm"
        "(cell_value f1, pending f1) = mz.relax m buf (x, y) (unat v) EAST (cell_value f0, pending f0)"
      using relax [OF 2(4), of x y EAST] cell 2(7) by (auto simp: neighbour_def)
    obtain f2 where f2: "FloodRelax m buf x y v WEST (x - 1) (y + 0) f1 = Some f2" "flood_ok n f2" "cells f2 = cells fm"
        "(cell_value f2, pending f2) = mz.relax m buf (x, y) (unat v) WEST (cell_value f1, pending f1)"
      using relax [OF f1(2), of x y WEST] cell f1(3) by (auto simp: neighbour_def)
    obtain f3 where f3: "FloodRelax m buf x y v NORTH (x + 0) (y + 1) f2 = Some f3" "flood_ok n f3" "cells f3 = cells fm"
        "(cell_value f3, pending f3) = mz.relax m buf (x, y) (unat v) NORTH (cell_value f2, pending f2)"
      using relax [OF f2(2), of x y NORTH] cell f2(3) by (auto simp: neighbour_def)
    obtain f4 where f4: "FloodRelax m buf x y v SOUTH (x + 0) (y - 1) f3 = Some f4" "flood_ok n f4"
        "(cell_value f4, pending f4) = mz.relax m buf (x, y) (unat v) SOUTH (cell_value f3, pending f3)"
      using relax [OF f3(2), of x y SOUTH] cell f3(3) by (auto simp: neighbour_def)
    have visit: "mz.visit m buf (x, y) (cell_value fm, pending fm) = (cell_value f4, pending f4)"
      using f1(4) f2(4) f3(4) f4(3) 2(5,6) v(2) by (simp add: mz.visit_def)
    have "mz.weight (cell_value f4) (pending f4) < mz.weight (cell_value fm) (pending fm)"
      using mz.visit_weight [OF less.prems(2) 2(2)] visit by simp
    moreover have "mz.fill_inv m buf ds (cell_value f4, pending f4)"
      using mz.visit_inv [OF less.prems(2), of "(x, y)"] visit by simp
    moreover have "FloodFillCalculate m buf fm = FloodFillCalculate m buf f4"
      using 2(1,3) v(1) f1(1) f2(1) f3(1) f4(1)
      by (subst FloodFillCalculate.simps) (auto simp: FloodFillRound_def)
    ultimately show ?thesis using less.hyps [of f4] f4(2) by simp
  qed
qed

section \<open>Clearing and destinations\<close>

lemma step_unat: "(cur :: INDEX) < e \<Longrightarrow> cur + 1 \<le> b \<longleftrightarrow> cur < b"
  using unat_Suc_word [of cur] unat_less_64 [of e]
  by (simp add: word_less_nat_alt word_le_nat_alt Suc_le_eq)

lemma FloodFillClearRow_row:
  assumes "flood_room n fm" and "x < n"
  shows "\<exists>fm'. FloodFillClearRow x y n fm = Some fm' \<and> flood_room n fm' \<and> fm_EventMap fm' = fm_EventMap fm \<and>
     (\<forall>a b. FloodFillGet a b fm' = (if a = x \<and> y \<le> b then Some 255 else FloodFillGet a b fm))"
  using assms
proof (induction x y n fm rule: FloodFillClearRow.induct)
  case (1 x y n fm)
  show ?case
  proof (cases "y < n")
    case False
    then have "FloodFillGet x b fm = Some 255" if "y \<le> b" for b
      using that 1(2) by (auto simp: FloodFillGet_def flood_room_def)
    then show ?thesis using False 1(2) by (subst FloodFillClearRow.simps) auto
  next
    case True
    then have "(x, y) \<in> cells fm" using 1(2,3) by (simp add: cells_def flood_room_def)
    from FloodFillSet_cell [OF 1(2) this] obtain f where f: "FloodFillSet x y (- 1) fm = Some f" "flood_room n f"
        "fm_EventMap f = fm_EventMap fm"
        "\<And>a b. FloodFillGet a b f = (if (a, b) = (x, y) then Some (- 1) else FloodFillGet a b fm)"
      by blast
    obtain f' where f': "FloodFillClearRow x (y + 1) n f = Some f'" "flood_room n f'" "fm_EventMap f' = fm_EventMap f"
        "\<And>a b. FloodFillGet a b f' = (if a = x \<and> y + 1 \<le> b then Some 255 else FloodFillGet a b f)"
      using 1(1) [OF True f(1,2) 1(3)] by blast
    have "FloodFillGet a b f' = (if a = x \<and> y \<le> b then Some 255 else FloodFillGet a b fm)" for a b
      using f'(4) [of a b] f(4) [of a b] step_unat [OF True, of b] by (auto simp: le_less)
    then show ?thesis using True f f' by (subst FloodFillClearRow.simps) auto
  qed
qed

lemma FloodFillClearLoop_all:
  assumes "flood_room n fm"
  shows "\<exists>fm'. FloodFillClearLoop x n n fm = Some fm' \<and> flood_room n fm' \<and> fm_EventMap fm' = fm_EventMap fm \<and>
     (\<forall>a b. FloodFillGet a b fm' = (if x \<le> a then Some 255 else FloodFillGet a b fm))"
  using assms
proof (induction "unat n - unat x" arbitrary: x fm rule: less_induct)
  case less
  show ?case
  proof (cases "x < n")
    case False
    then have "FloodFillGet a b fm = Some 255" if "x \<le> a" for a b
      using that less.prems by (auto simp: FloodFillGet_def flood_room_def)
    then show ?thesis using False less.prems by (subst FloodFillClearLoop.simps) auto
  next
    case True
    obtain f where f: "FloodFillClearRow x 0 n fm = Some f" "flood_room n f" "fm_EventMap f = fm_EventMap fm"
        "\<And>a b. FloodFillGet a b f = (if a = x then Some 255 else FloodFillGet a b fm)"
      using FloodFillClearRow_row [OF less.prems True, of 0] by auto
    obtain f' where f': "FloodFillClearLoop (x + 1) n n f = Some f'" "flood_room n f'" "fm_EventMap f' = fm_EventMap f"
        "\<And>a b. FloodFillGet a b f' = (if x + 1 \<le> a then Some 255 else FloodFillGet a b f)"
      using less.hyps [OF up_to_bound [OF True] f(2)] by blast
    have "FloodFillGet a b f' = (if x \<le> a then Some 255 else FloodFillGet a b fm)" for a b
      using f'(4) [of a b] f(4) [of a b] step_unat [OF True, of a] by (auto simp: le_less)
    then show ?thesis using True f f' by (subst FloodFillClearLoop.simps) auto
  qed
qed

lemma FloodFillClear_blank:
  assumes "flood_room n fm"
  shows "\<exists>fm'. FloodFillClear fm = Some fm' \<and> flood_ok n fm' \<and> pending fm' = {} \<and> cell_value fm' = (\<lambda>_. 255)"
proof -
  have w: "fm_Width fm = n" "fm_Height fm = n" "unat n * unat n < 2 ^ 62"
      "unat n * unat n \<le> length (fm_EventMap fm) * 32"
    using assms by (auto simp: flood_room_def)
  obtain f where f: "FloodFillClearLoop 0 n n fm = Some f" "flood_room n f" "fm_EventMap f = fm_EventMap fm"
      "\<And>a b. FloodFillGet a b f = Some 255"
    using FloodFillClearLoop_all [OF assms, of 0] by auto
  have size: "unat (BitmapSize (n * n)) = (unat n * unat n + 31) div 32"
    using w(3) by (simp add: BitmapSize_unat unat_word_ariths)
  have "(unat n * unat n + 31) div 32 \<le> (length (fm_EventMap fm) * 32 + 31) div 32"
    using w(4) by (intro div_le_mono) simp
  then have "unat (BitmapSize (n * n)) \<le> length (fm_EventMap fm)" using size by simp
  from BitmapClearLoop_words [OF this, of 0] obtain e where e: "BitmapClear (fm_EventMap fm) (n * n) = Some e"
      "length e = length (fm_EventMap fm)" "\<And>k. k < (unat n * unat n + 31) div 32 \<Longrightarrow> e ! k = 0"
    by (auto simp: BitmapClear_def size)
  let ?f = "f\<lparr>fm_EventMap := e\<rparr>"
  have off: "\<not> bit_of e k" if "k < (unat n * unat n + 31) div 32 * 32" for k
    using e(3) [of "k div 32"] that by (simp add: bit_of_def less_mult_imp_div_less)
  have ok: "flood_ok n ?f" using f(2,3) e(2) off by (auto simp: flood_ok_def flood_room_def)
  have "c \<notin> pending ?f" for c
  proof (cases c)
    case (Pair x y)
    have "unat n * unat n \<le> (unat n * unat n + 31) div 32 * 32" by simp
    then show ?thesis
      using off index_unat [of n ?f x y] ok Pair by (auto simp: pending_def flood_ok_def)
  qed
  then have "pending ?f = {}" by blast
  moreover have "FloodFillGet a b ?f = FloodFillGet a b f" for a b
    by (simp add: FloodFillGet_def FloodFillGetIndex_def)
  then have "cell_value ?f = (\<lambda>_. 255)" by (simp add: cell_value_def f(4) fun_eq_iff)
  moreover have "fm_Width f = n" "fm_Height f = n" using f(2) by (auto simp: flood_room_def)
  then have "FloodFillClear fm = Some ?f" using f(1,3) e(1) w by (simp add: FloodFillClear_def)
  ultimately show ?thesis using ok by blast
qed

primrec set_destinations :: "cell list \<Rightarrow> FLOOD_MAP \<Rightarrow> FLOOD_MAP option" where
  "set_destinations [] fm = Some fm"
| "set_destinations (d # ds) fm =
     do { fm \<leftarrow> FloodFillSetDestination (fst d) (snd d) fm; set_destinations ds fm }"

lemma set_destinations_pending:
  assumes "flood_ok n fm"
  shows "\<exists>fm'. set_destinations ds fm = Some fm' \<and> flood_ok n fm' \<and> pending fm' = (set ds \<inter> cells fm) \<union> pending fm \<and>
     cell_value fm' = (\<lambda>c. if c \<in> set ds \<inter> cells fm then 0 else cell_value fm c)"
  using assms
proof (induction ds arbitrary: fm)
  case (Cons d ds)
  obtain x y where d: "d = (x, y)" by (cases d)
  show ?case
  proof (cases "(x, y) \<in> cells fm")
    case False
    then have "FloodFillSetDestination x y fm = Some fm"
      by (auto simp: FloodFillSetDestination_def FloodFillSet_def FloodNewEvent_def cells_def not_less)
    then show ?thesis using Cons.IH [OF Cons.prems] False d by auto
  next
    case True
    obtain f1 where f1: "FloodFillSet x y 0 fm = Some f1" "flood_ok n f1"
        "cell_value f1 = (cell_value fm)((x, y) := 0)" "pending f1 = pending fm" "cells f1 = cells fm"
      using cell_value_set [OF Cons.prems True, of 0] by auto
    obtain f2 where f2: "FloodNewEvent x y f1 = Some f2" "flood_ok n f2" "cell_value f2 = cell_value f1"
        "pending f2 = insert (x, y) (pending f1)" "cells f2 = cells f1"
      using FloodNewEvent_cell [OF f1(2)] True f1(5) by blast
    obtain f3 where f3: "set_destinations ds f2 = Some f3" "flood_ok n f3"
        "pending f3 = (set ds \<inter> cells f2) \<union> pending f2"
        "cell_value f3 = (\<lambda>c. if c \<in> set ds \<inter> cells f2 then 0 else cell_value f2 c)"
      using Cons.IH [OF f2(2)] by blast
    have "pending f3 = (set (d # ds) \<inter> cells fm) \<union> pending fm"
      using f3(3) f2(4,5) f1(4,5) True d by auto
    moreover have "cell_value f3 = (\<lambda>c. if c \<in> set (d # ds) \<inter> cells fm then 0 else cell_value fm c)"
      using f3(4) f2(3,5) f1(3,5) True d by auto
    ultimately show ?thesis using f1(1) f2(1) f3(1,2) d by (simp add: FloodFillSetDestination_def)
  qed
qed auto

lemma flood_fill_correct:
  assumes "map_ok m buf" and "map_Width m = n" and "map_Height m = n" and "flood_room n fm"
  shows "\<exists>fm'. do { fm \<leftarrow> FloodFillClear fm; fm \<leftarrow> set_destinations ds fm; FloodFillCalculate m buf fm } = Some fm' \<and> flood_room n fm' \<and>
     (\<forall>x y. \<exists>v. FloodFillGet x y fm' = Some v \<and> (\<forall>k < 255. unat v \<le> k \<longleftrightarrow>
        (\<exists>j \<le> k. dist_path (maze_open m buf) neighbour {c \<in> set ds. fst c < n \<and> snd c < n} j (x, y))))"
proof -
  let ?D = "{c \<in> set ds. fst c < n \<and> snd c < n}"
  obtain f1 where f1: "FloodFillClear fm = Some f1" "flood_ok n f1" "pending f1 = {}" "cell_value f1 = (\<lambda>_. 255)"
    using FloodFillClear_blank [OF assms(4)] by blast
  have "cells f1 = {c. fst c < n \<and> snd c < n}" using f1(2) by (auto simp: flood_ok_def flood_room_def cells_def)
  then have D: "set ds \<inter> cells f1 = ?D" by auto
  obtain f2 where f2: "set_destinations ds f1 = Some f2" "flood_ok n f2" "pending f2 = ?D"
      "cell_value f2 = (\<lambda>c. if c \<in> ?D then 0 else 255)"
    using set_destinations_pending [OF f1(2), of ds] unfolding D f1(3,4) by auto
  have "mz.fill_inv m buf ?D (cell_value f2, pending f2)"
    unfolding f2(3,4) mz.fill_inv_def mz.sound_def mz.relaxed_def by (auto intro: dist_path.start)
  from FloodFillCalculate_fills [OF assms(1-3) f2(2) this] obtain f3 where
      f3: "FloodFillCalculate m buf f2 = Some f3" "flood_ok n f3" "mz.fill_inv m buf ?D (cell_value f3, {})"
    by blast
  have room: "flood_room n f3" using f3(2) by (simp add: flood_ok_def)
  have "\<exists>v. FloodFillGet x y f3 = Some v \<and> (\<forall>k < 255. unat v \<le> k \<longleftrightarrow>
      (\<exists>j \<le> k. dist_path (maze_open m buf) neighbour ?D j (x, y)))" for x y
    using FloodFillGet_value [OF room, of x y] mz.fill_final [OF f3(3), of _ "(x, y)"]
    by (auto simp: cell_value_def)
  then show ?thesis using f1(1) f2(1) f3(1) room by (intro exI [of _ f3]) simp
qed

section \<open>Properties\<close>

text \<open>(C32) On a square maze clearing the flood map, naming the destinations and calculating always
  returns, and then the value of every cell is the length of the shortest way from a destination to
  it through open walls, up to 254; cells that are farther away or cut off have the value 255.\<close>

theorem flood_fill_distances:
  assumes "map_ok m buf" and "map_Width m = n" and "map_Height m = n" and "flood_room n fm"
  shows "\<exists>fm'. do { fm \<leftarrow> FloodFillClear fm; fm \<leftarrow> set_destinations ds fm; FloodFillCalculate m buf fm } = Some fm' \<and>
     (\<forall>x y. \<exists>v. FloodFillGet x y fm' = Some v \<and> (\<forall>k < 255. unat v \<le> k \<longleftrightarrow>
        (\<exists>j \<le> k. dist_path (maze_open m buf) neighbour {c \<in> set ds. fst c < n \<and> snd c < n} j (x, y))))"
  using flood_fill_correct [OF assms, of ds] by blast

definition flood4 :: FLOOD_MAP where
  "flood4 = FloodFillInit 4 4 (replicate 16 0) [0] \<lparr>fm_Width = 0, fm_Height = 0, fm_FloodMap = [], fm_EventMap = []\<rparr>"

theorem flood_fill_distances_witness:
  "\<exists>fm'. do { fm \<leftarrow> FloodFillClear flood4; fm \<leftarrow> set_destinations [(0, 0)] fm; FloodFillCalculate map4 [0, 0] fm } = Some fm' \<and>
     FloodFillGet 0 0 fm' = Some 0"
proof -
  have "map_Width map4 = 4" "map_Height map4 = 4" "flood_room 4 flood4"
    by (simp_all add: map4_def flood_room_def flood4_def FloodFillInit_def)
  from flood_fill_distances [OF map4_ok this, where ds = "[(0, 0)]"] obtain fm' v where
    f: "do { fm \<leftarrow> FloodFillClear flood4; fm \<leftarrow> set_destinations [(0, 0)] fm; FloodFillCalculate map4 [0, 0] fm } = Some fm'"
    and v: "FloodFillGet 0 0 fm' = Some v" "\<forall>k < 255. unat v \<le> k \<longleftrightarrow>
        (\<exists>j \<le> k. dist_path (maze_open map4 [0, 0]) neighbour {c \<in> set [(0, 0)]. fst c < 4 \<and> snd c < 4} j (0, 0))"
    by blast
  have "unat v \<le> 0" using v(2) [rule_format, of 0] by (auto intro: dist_path.start)
  with f v(1) show ?thesis by (simp add: unat_eq_0)
qed

text \<open>
  \<^verbatim>\<open>FloodFillGetX\<close> reduces the index modulo the height. In a maze that is not square this names the
  wrong cell.
\<close>

primrec flood_rounds :: "nat \<Rightarrow> MAP \<Rightarrow> bitmap \<Rightarrow> FLOOD_MAP \<Rightarrow> (bool \<times> FLOOD_MAP) option" where
  "flood_rounds 0 m buf fm = Some (False, fm)"
| "flood_rounds (Suc k) m buf fm =
     do { (ended, fm) \<leftarrow> FloodFillRound m buf fm; if ended then Some (True, fm) else flood_rounds k m buf fm }"

definition default_maze :: MAP where
  "default_maze = \<lparr>map_VWalls = 0, map_HWalls = 1, map_Height = 5, map_Width = 4\<rparr>"

definition default_flood :: FLOOD_MAP where
  "default_flood = \<lparr>fm_Width = 4, fm_Height = 5, fm_FloodMap = 0 # replicate 19 255, fm_EventMap = [1]\<rparr>"

lemma default_start:
  "MapInit map4 [0, 0] (MapSizeNeeded 4 5) 4 5 = Some (True, default_maze, [0, 0])"
  "Option.bind (FloodFillClear (default_flood\<lparr>fm_FloodMap := replicate 20 0\<rparr>)) (set_destinations [(0, 0)]) = Some default_flood"
  by code_simp+

definition stuck_flood :: FLOOD_MAP where
  "stuck_flood = \<lparr>fm_Width = 4, fm_Height = 5,
     fm_FloodMap = [0, 1, 2, 3, 1, 2, 3, 4, 2] @ replicate 11 255, fm_EventMap = [480]\<rparr>"

lemma stuck:
  "flood_rounds 6 default_maze [0, 0] default_flood = Some (False, stuck_flood)"
  "FloodFillRound default_maze [0, 0] stuck_flood = Some (False, stuck_flood)"
  by code_simp+

lemma flood_rounds_add:
  "flood_rounds j m buf fm = Some (False, fm1) \<Longrightarrow> flood_rounds (j + k) m buf fm = flood_rounds k m buf fm1"
  by (induction j arbitrary: fm) (auto simp: bind_Some_iff split: if_splits)

lemma flood_rounds_prefix:
  "flood_rounds (j + k) m buf fm = Some (False, fm') \<Longrightarrow> \<exists>fm1. flood_rounds j m buf fm = Some (False, fm1)"
  by (induction j arbitrary: fm) (fastforce simp: bind_Some_iff split: if_splits)+

text \<open>(C40) In a maze of the default size \<^verbatim>\<open>MAP_WIDTH\<close> by \<^verbatim>\<open>MAP_HEIGHT\<close> (4 by 5) without walls and
  with destination (0, 0) the flood fill never returns: it runs any number of rounds without a
  failure and without reaching the end of its loop.\<close>

theorem flood_fill_default_maze_loops:
  "\<exists>m buf fm fm'. MapInit map4 [0, 0] (MapSizeNeeded 4 5) 4 5 = Some (True, m, buf) \<and>
     Option.bind (FloodFillClear fm) (set_destinations [(0, 0)]) = Some fm' \<and>
     fm_Width fm = 4 \<and> fm_Height fm = 5 \<and>
     (\<forall>k. \<exists>fm''. flood_rounds k m buf fm' = Some (False, fm''))"
proof -
  have loop: "flood_rounds k default_maze [0, 0] stuck_flood = Some (False, stuck_flood)" for k
    by (induction k) (simp_all add: stuck(2))
  have "\<exists>fm''. flood_rounds k default_maze [0, 0] default_flood = Some (False, fm'')" for k
    by (rule flood_rounds_prefix [of k 6])
      (use flood_rounds_add [OF stuck(1), of k] loop in \<open>simp only: add.commute [of k 6]\<close>)
  then show ?thesis
    by (intro exI conjI) (rule default_start, rule default_start, simp_all add: default_flood_def)
qed

end
