(* ===== verification/SubMove.thy ===== *)
theory SubMove
  imports FloodFill
begin

text \<open>
  The choice of the mouse's next move, \<^verbatim>\<open>src/umouse/submove.c\<close>. Positions are in half cells: cell
  (i, j) has its centre at (2 i + 1, 2 j + 1), a position with one even coordinate is on the edge
  between two cells, one with two even coordinates is a peg.
\<close>

section \<open>Moves\<close>

datatype ANGLE = STRAIGHT | RIGHT | BACK | LEFT

fun dir_code :: "DIRECTION \<Rightarrow> nat" where
  "dir_code NORTH = 0" | "dir_code EAST = 1" | "dir_code SOUTH = 2" | "dir_code WEST = 3"

fun angle_code :: "ANGLE \<Rightarrow> nat" where
  "angle_code STRAIGHT = 0" | "angle_code RIGHT = 1" | "angle_code BACK = 2" | "angle_code LEFT = 3"

definition TURN :: "DIRECTION \<Rightarrow> ANGLE \<Rightarrow> DIRECTION" where
  "TURN dir angle = [NORTH, EAST, SOUTH, WEST] ! ((dir_code dir + angle_code angle) mod 4)"

datatype SUB_MOVE = SUB_MOVE_DONE | SUB_MOVE_START | SUB_MOVE_FORWARD | SUB_MOVE_STOP | SUB_MOVE_TURN_RIGHT
  | SUB_MOVE_TURN_LEFT | SUB_MOVE_TURN_AROUND | SUB_MOVE_INTEGRATE_RIGHT | SUB_MOVE_INTEGRATE_LEFT

fun move_code :: "SUB_MOVE \<Rightarrow> nat" where
  "move_code SUB_MOVE_DONE = 0" | "move_code SUB_MOVE_START = 1" | "move_code SUB_MOVE_FORWARD = 2"
| "move_code SUB_MOVE_STOP = 3" | "move_code SUB_MOVE_TURN_RIGHT = 4" | "move_code SUB_MOVE_TURN_LEFT = 5"
| "move_code SUB_MOVE_TURN_AROUND = 6" | "move_code SUB_MOVE_INTEGRATE_RIGHT = 7"
| "move_code SUB_MOVE_INTEGRATE_LEFT = 8"

definition SubMoveMovingEndState :: "SUB_MOVE \<Rightarrow> bool" where
  "SubMoveMovingEndState move = [False, True, True, False, False, False, False, True, True] ! move_code move"

definition SubMovesRotates :: "SUB_MOVE \<Rightarrow> bool" where
  "SubMovesRotates move = [False, False, False, False, True, True, True, True, True] ! move_code move"

definition SubMoveTranslate :: "INDEX \<Rightarrow> INDEX \<Rightarrow> DIRECTION \<Rightarrow> COUNT \<Rightarrow> INDEX \<times> INDEX" where
  "SubMoveTranslate x y dir dist =
     (case dir of NORTH \<Rightarrow> (x, y + dist) | SOUTH \<Rightarrow> (x, y - dist) | EAST \<Rightarrow> (x + dist, y) | WEST \<Rightarrow> (x - dist, y))"

definition SubMoveRotate :: "DIRECTION \<Rightarrow> ANGLE \<Rightarrow> DIRECTION" where
  "SubMoveRotate dir angle = TURN dir angle"

type_synonym mouse = "INDEX \<times> INDEX \<times> DIRECTION \<times> bool"

definition integrate :: "INDEX \<Rightarrow> INDEX \<Rightarrow> DIRECTION \<Rightarrow> ANGLE \<Rightarrow> INDEX \<times> INDEX \<times> DIRECTION" where
  "integrate x y dir angle =
     (let (x, y) = SubMoveTranslate x y dir 1; dir = SubMoveRotate dir angle; (x, y) = SubMoveTranslate x y dir 1
      in (x, y, dir))"

definition SubMoveApply :: "mouse \<Rightarrow> SUB_MOVE \<Rightarrow> mouse" where
  "SubMoveApply st move = (case st of (x, y, dir, moving) \<Rightarrow>
     let moving = SubMoveMovingEndState move in
     (case move of
        SUB_MOVE_DONE \<Rightarrow> (x, y, dir, moving)
      | SUB_MOVE_START \<Rightarrow> (let (x, y) = SubMoveTranslate x y dir 1 in (x, y, dir, moving))
      | SUB_MOVE_STOP \<Rightarrow> (let (x, y) = SubMoveTranslate x y dir 1 in (x, y, dir, moving))
      | SUB_MOVE_FORWARD \<Rightarrow> (let (x, y) = SubMoveTranslate x y dir 1 in (x, y, dir, moving))
      | SUB_MOVE_TURN_RIGHT \<Rightarrow> (x, y, SubMoveRotate dir RIGHT, moving)
      | SUB_MOVE_TURN_LEFT \<Rightarrow> (x, y, SubMoveRotate dir LEFT, moving)
      | SUB_MOVE_TURN_AROUND \<Rightarrow> (x, y, SubMoveRotate dir BACK, moving)
      | SUB_MOVE_INTEGRATE_RIGHT \<Rightarrow> (let (x, y, dir) = integrate x y dir RIGHT in (x, y, dir, moving))
      | SUB_MOVE_INTEGRATE_LEFT \<Rightarrow> (let (x, y, dir) = integrate x y dir LEFT in (x, y, dir, moving))))"

definition IS_CENTERED :: "INDEX \<Rightarrow> INDEX \<Rightarrow> bool" where
  "IS_CENTERED x y \<longleftrightarrow> x mod 2 = 1 \<and> y mod 2 = 1"

definition IS_EDGED :: "INDEX \<Rightarrow> INDEX \<Rightarrow> bool" where
  "IS_EDGED x y \<longleftrightarrow> x mod 2 = 0 \<or> y mod 2 = 0"

definition GetCell :: "INDEX \<Rightarrow> INDEX \<Rightarrow> DIRECTION \<Rightarrow> INDEX \<times> INDEX" where
  "GetCell x y dir =
     (if IS_CENTERED x y then (x div 2, y div 2)
      else let (x, y) = SubMoveTranslate x y dir 1 in (x div 2, y div 2))"

section \<open>Tests\<close>

definition MoveStartCentered :: "INDEX \<Rightarrow> INDEX \<Rightarrow> SUB_MOVE \<Rightarrow> bool" where
  "MoveStartCentered x y move =
     (if move \<in> {SUB_MOVE_START, SUB_MOVE_TURN_RIGHT, SUB_MOVE_TURN_LEFT, SUB_MOVE_TURN_AROUND}
      then IS_CENTERED x y else True)"

definition MoveStartEdge :: "INDEX \<Rightarrow> INDEX \<Rightarrow> SUB_MOVE \<Rightarrow> bool" where
  "MoveStartEdge x y move =
     (if move \<in> {SUB_MOVE_STOP, SUB_MOVE_INTEGRATE_RIGHT, SUB_MOVE_INTEGRATE_LEFT} then IS_EDGED x y else True)"

definition MoveStartMoving :: "bool \<Rightarrow> SUB_MOVE \<Rightarrow> bool" where
  "MoveStartMoving moving move =
     (if move \<in> {SUB_MOVE_START, SUB_MOVE_TURN_RIGHT, SUB_MOVE_TURN_LEFT, SUB_MOVE_TURN_AROUND} then \<not> moving
      else if move \<in> {SUB_MOVE_STOP, SUB_MOVE_FORWARD, SUB_MOVE_INTEGRATE_RIGHT, SUB_MOVE_INTEGRATE_LEFT} then moving
      else True)"

definition MoveStartStraightAway ::
    "INDEX \<Rightarrow> INDEX \<Rightarrow> DIRECTION \<Rightarrow> SUB_MOVE \<Rightarrow> FLOOD_MAP \<Rightarrow> bool option" where
  "MoveStartStraightAway startX startY dir move flood =
     (if move = SUB_MOVE_FORWARD then
        let (x, y) = GetCell startX startY dir in
        do {
          curFill \<leftarrow> FloodFillGet x y flood;
          let (x, y) = SubMoveTranslate x y dir 1;
          nextFill \<leftarrow> FloodFillGet x y flood;
          Some (nextFill < curFill)
        }
      else Some True)"

definition MoveEndOnWall :: "INDEX \<Rightarrow> INDEX \<Rightarrow> MAP \<Rightarrow> bitmap \<Rightarrow> SUB_MOVE \<Rightarrow> bool option" where
  "MoveEndOnWall x y m buf move =
     (if move \<in> {SUB_MOVE_START, SUB_MOVE_STOP, SUB_MOVE_FORWARD, SUB_MOVE_INTEGRATE_RIGHT, SUB_MOVE_INTEGRATE_LEFT} then
        if x mod 2 = 1 \<and> y mod 2 = 1 then Some True
        else if x mod 2 = 1 then map_option Not (MapGetWall (x div 2) (y div 2) SOUTH m buf)
        else if y mod 2 = 1 then map_option Not (MapGetWall (x div 2) (y div 2) WEST m buf)
        else Some False
      else Some True)"

definition MoveEndOnPeg :: "INDEX \<Rightarrow> INDEX \<Rightarrow> bool" where
  "MoveEndOnPeg x y = (if x mod 2 = 0 \<and> y mod 2 = 0 then False else True)"

definition MoveEndInScanned :: "INDEX \<Rightarrow> INDEX \<Rightarrow> DIRECTION \<Rightarrow> SCAN_LOG \<Rightarrow> bool option" where
  "MoveEndInScanned x y dir scan = (let (x, y) = GetCell x y dir in ScanLogGet x y scan)"

definition MoveNextScanned :: "INDEX \<Rightarrow> INDEX \<Rightarrow> DIRECTION \<Rightarrow> SUB_MOVE \<Rightarrow> SCAN_LOG \<Rightarrow> bool option" where
  "MoveNextScanned x y dir move scan =
     (if move \<in> {SUB_MOVE_FORWARD, SUB_MOVE_INTEGRATE_RIGHT, SUB_MOVE_INTEGRATE_LEFT} then
        let (x, y) = SubMoveTranslate x y dir 1; (x, y) = GetCell x y dir in ScanLogGet x y scan
      else Some True)"

definition MoveNextLessFloodFill ::
    "INDEX \<Rightarrow> INDEX \<Rightarrow> DIRECTION \<Rightarrow> SUB_MOVE \<Rightarrow> FLOOD_MAP \<Rightarrow> bool option" where
  "MoveNextLessFloodFill x y dir move flood =
     do {
       curFill \<leftarrow> FloodFillGet (x div 2) (y div 2) flood;
       let (x, y) = SubMoveTranslate x y dir 2;
       facingFill \<leftarrow> FloodFillGet (x div 2) (y div 2) flood;
       Some (if move \<in> {SUB_MOVE_TURN_RIGHT, SUB_MOVE_TURN_LEFT, SUB_MOVE_TURN_AROUND} then facingFill < curFill else True)
     }"

definition MoveEndFacingWall :: "INDEX \<Rightarrow> INDEX \<Rightarrow> DIRECTION \<Rightarrow> MAP \<Rightarrow> bitmap \<Rightarrow> SUB_MOVE \<Rightarrow> bool option" where
  "MoveEndFacingWall x y dir m buf move =
     (if move \<in> {SUB_MOVE_FORWARD, SUB_MOVE_TURN_RIGHT, SUB_MOVE_TURN_LEFT, SUB_MOVE_TURN_AROUND,
          SUB_MOVE_INTEGRATE_RIGHT, SUB_MOVE_INTEGRATE_LEFT} then
        if \<not> IS_CENTERED x y then Some True else map_option Not (MapGetWall (x div 2) (y div 2) dir m buf)
      else Some True)"

text \<open>A test of \<^verbatim>\<open>SubMoveLegal\<close>: the function returns false as soon as one fails.\<close>

definition unless_failed :: "bool option \<Rightarrow> bool option \<Rightarrow> bool option" where
  "unless_failed t rest = do { ok \<leftarrow> t; if \<not> ok then Some False else rest }"

definition SubMoveLegal :: "mouse \<Rightarrow> SUB_MOVE \<Rightarrow> MAP \<Rightarrow> bitmap \<Rightarrow> SCAN_LOG \<Rightarrow> FLOOD_MAP \<Rightarrow> bool option" where
  "SubMoveLegal st move m buf scan flood = (case st of (x, y, dir, moving) \<Rightarrow>
     unless_failed (Some (MoveStartCentered x y move)) (
     unless_failed (Some (MoveStartEdge x y move)) (
     unless_failed (Some (MoveStartMoving moving move)) (
     unless_failed (MoveStartStraightAway x y dir move flood) (
     case SubMoveApply (x, y, dir, moving) move of (x, y, dir, moving) \<Rightarrow>
     unless_failed (MoveEndOnWall x y m buf move) (
     unless_failed (Some (MoveEndOnPeg x y)) (
     unless_failed (MoveEndInScanned x y dir scan) (
     unless_failed (MoveEndFacingWall x y dir m buf move) (
     unless_failed (MoveNextScanned x y dir move scan) (
     unless_failed (MoveNextLessFloodFill x y dir move flood) (
     Some True)))))))))))"

section \<open>The choice of a move\<close>

record best_move =
  bm_best :: SUB_MOVE
  bm_Flood :: "8 word"
  bm_FacingFlood :: "8 word"
  bm_FacingWall :: bool
  bm_Rotated :: bool

text \<open>The cell the mouse is in after a move; on an edge it is the cell it is going to.\<close>

definition SubMoveCell :: "INDEX \<Rightarrow> INDEX \<Rightarrow> DIRECTION \<Rightarrow> (INDEX \<times> INDEX) option" where
  "SubMoveCell x y dir =
     do {
       tempX \<leftarrow> (if x mod 2 = 1 then Some (x div 2)
                 else if dir = EAST then Some (x div 2)
                 else if dir = WEST then Some (x div 2 - 1)
                 else None);
       tempY \<leftarrow> (if y mod 2 = 1 then Some (y div 2)
                 else if dir = NORTH then Some (y div 2)
                 else if dir = SOUTH then Some (y div 2 - 1)
                 else None);
       Some (tempX, tempY)
     }"

text \<open>The values by which moves are compared, and the comparison.\<close>

definition SubMoveGather ::
    "mouse \<Rightarrow> SUB_MOVE \<Rightarrow> FLOOD_MAP \<Rightarrow> MAP \<Rightarrow> bitmap \<Rightarrow> best_move option" where
  "SubMoveGather st cur flood m buf = (case SubMoveApply st cur of (x, y, dir, moving) \<Rightarrow>
     do {
       (tempX, tempY) \<leftarrow> SubMoveCell x y dir;
       curFlood \<leftarrow> FloodFillGet tempX tempY flood;
       curFacingWall \<leftarrow> MapGetWall tempX tempY dir m buf;
       let (tempX, tempY) = SubMoveTranslate tempX tempY dir 1;
       curFacingFlood \<leftarrow> FloodFillGet tempX tempY flood;
       let curRotated = SubMovesRotates cur;
       Some \<lparr>bm_best = cur, bm_Flood = curFlood, bm_FacingFlood = curFacingFlood, bm_FacingWall = curFacingWall,
         bm_Rotated = curRotated\<rparr>
     })"

definition SubMoveBetter :: "best_move \<Rightarrow> best_move \<Rightarrow> bool" where
  "SubMoveBetter cur best =
     (if bm_Flood cur > bm_Flood best then False
      else if bm_Flood cur < bm_Flood best then True
      else if bm_FacingFlood cur > bm_FacingFlood best then False
      else if bm_FacingFlood cur < bm_FacingFlood best then True
      else if bm_FacingWall cur \<and> \<not> bm_FacingWall best then False
      else if \<not> bm_FacingWall cur \<and> bm_FacingWall best then True
      else if \<not> bm_Rotated cur \<and> bm_Rotated best then False
      else if \<not> bm_Rotated best \<and> bm_Rotated cur then True
      else False)"

primrec SubMoveFindLoop ::
    "mouse \<Rightarrow> FLOOD_MAP \<Rightarrow> MAP \<Rightarrow> bitmap \<Rightarrow> SCAN_LOG \<Rightarrow> SUB_MOVE list \<Rightarrow> best_move \<Rightarrow> best_move option" where
  "SubMoveFindLoop st flood m buf scan [] best = Some best"
| "SubMoveFindLoop st flood m buf scan (cur # moves) best =
     do {
       legal \<leftarrow> SubMoveLegal st cur m buf scan flood;
       best \<leftarrow> (if \<not> legal then Some best
                else do { c \<leftarrow> SubMoveGather st cur flood m buf; Some (if SubMoveBetter c best then c else best) });
       SubMoveFindLoop st flood m buf scan moves best
     }"

definition all_moves :: "SUB_MOVE list" where
  "all_moves = [SUB_MOVE_START, SUB_MOVE_FORWARD, SUB_MOVE_STOP, SUB_MOVE_TURN_RIGHT, SUB_MOVE_TURN_LEFT,
     SUB_MOVE_TURN_AROUND, SUB_MOVE_INTEGRATE_RIGHT, SUB_MOVE_INTEGRATE_LEFT]"

definition SubMoveFindBest ::
    "mouse \<Rightarrow> FLOOD_MAP \<Rightarrow> MAP \<Rightarrow> bitmap \<Rightarrow> SCAN_LOG \<Rightarrow> SUB_MOVE option" where
  "SubMoveFindBest st flood m buf scan =
     map_option bm_best (SubMoveFindLoop st flood m buf scan all_moves
       \<lparr>bm_best = SUB_MOVE_DONE, bm_Flood = 255, bm_FacingFlood = 255, bm_FacingWall = True, bm_Rotated = True\<rparr>)"

section \<open>Where the mouse can be\<close>

definition at_center :: "MAP \<Rightarrow> INDEX \<Rightarrow> INDEX \<Rightarrow> bool" where
  "at_center m x y \<longleftrightarrow> odd (unat x) \<and> odd (unat y) \<and> x div 2 < map_Width m \<and> y div 2 < map_Height m"

definition at_edge :: "MAP \<Rightarrow> bitmap \<Rightarrow> INDEX \<Rightarrow> INDEX \<Rightarrow> DIRECTION \<Rightarrow> bool" where
  "at_edge m buf x y dir \<longleftrightarrow>
     (if dir \<in> {NORTH, SOUTH} then odd (unat x) \<and> even (unat y) \<and> MapGetWall (x div 2) (y div 2) SOUTH m buf = Some False
      else even (unat x) \<and> odd (unat y) \<and> MapGetWall (x div 2) (y div 2) WEST m buf = Some False)"

text \<open>In the middle of a cell, or moving over an edge that is open and in the direction of travel.\<close>

definition mouse_ok :: "MAP \<Rightarrow> bitmap \<Rightarrow> mouse \<Rightarrow> bool" where
  "mouse_ok m buf st = (case st of (x, y, dir, moving) \<Rightarrow> at_center m x y \<or> moving \<and> at_edge m buf x y dir)"

lemma parity: "w mod 2 = 1 \<longleftrightarrow> odd (unat w)" "w mod 2 = 0 \<longleftrightarrow> even (unat w)" for w :: INDEX
  by (simp_all add: word_unat_eq_iff unat_mod odd_iff_mod_2_eq_one even_iff_mod_2_eq_zero)

lemma half: "unat (w div 2) = unat w div 2" for w :: INDEX
  by (simp add: unat_div)

lemma open_inside:
  assumes "map_ok m buf"
  shows "MapGetWall x y SOUTH m buf = Some False \<Longrightarrow> x < map_Width m \<and> y < map_Height m \<and> y \<noteq> 0"
    and "MapGetWall x y WEST m buf = Some False \<Longrightarrow> x < map_Width m \<and> y < map_Height m \<and> x \<noteq> 0"
  using MapGetWall_slot [OF assms, of x y SOUTH] MapGetWall_slot [OF assms, of x y WEST]
  by (auto simp: inner_def wall_id_def MapAdjustX_def MapAdjustY_def)

lemma map_small:
  assumes "map_ok m buf"
  shows "unat (map_Width m) < 2 ^ 62" and "unat (map_Height m) < 2 ^ 62"
proof -
  have a: "unat (map_Width m) * unat (map_Height m) < 2 ^ 62" "0 < unat (map_Width m)" "0 < unat (map_Height m)"
    using assms by (auto simp: map_ok_def word_less_nat_alt)
  show "unat (map_Width m) < 2 ^ 62" by (rule le_less_trans [OF _ a(1)]) (use a(3) in simp)
  show "unat (map_Height m) < 2 ^ 62" by (rule le_less_trans [OF _ a(1)]) (use a(2) in simp)
qed

text \<open>One half cell forward or back, from inside the maze.\<close>

lemma step_up:
  assumes "unat (w div 2) < 2 ^ 62"
  shows "unat (w + 1 :: INDEX) = unat w + 1"
  using assms by (intro unat_Suc_word) (simp add: half)

lemma arrive:
  assumes "map_ok m buf" and "at_edge m buf x y dir" and "SubMoveTranslate x y dir 1 = (x', y')"
  shows "at_center m x' y'"
proof -
  note small = map_small [OF assms(1)]
  have up: "even (unat w) \<Longrightarrow> w div 2 < n \<Longrightarrow> unat n < 2 ^ 62 \<Longrightarrow> odd (unat (w + 1)) \<and> (w + 1) div 2 < n" for w n :: INDEX
    using step_up [of w] by (auto simp: word_less_nat_alt half)
  have down: "even (unat w) \<Longrightarrow> w div 2 \<noteq> 0 \<Longrightarrow> w div 2 < n \<Longrightarrow> odd (unat (w - 1)) \<and> (w - 1) div 2 < n" for w n :: INDEX
  proof -
    assume a: "even (unat w)" "w div 2 \<noteq> 0" "w div 2 < n"
    then have "w \<noteq> 0" by auto
    then have "unat (w - 1) = unat w - 1" by (rule unat_pred_word)
    moreover have "0 < unat w" using \<open>w \<noteq> 0\<close> by (simp add: unat_gt_0)
    ultimately show ?thesis using a by (auto simp: word_less_nat_alt half)
  qed
  show ?thesis
    using assms(2,3) open_inside [OF assms(1), of "x div 2" "y div 2"] small
      up [of x "map_Width m"] up [of y "map_Height m"] down [of x "map_Width m"] down [of y "map_Height m"]
    by (cases dir) (auto simp: at_edge_def at_center_def SubMoveTranslate_def)
qed

lemma leave:
  assumes "map_ok m buf" and "at_center m x y" and "SubMoveTranslate x y dir 1 = (x', y')"
    and "MoveEndOnWall x' y' m buf move = Some True"
    and "move \<in> {SUB_MOVE_START, SUB_MOVE_FORWARD, SUB_MOVE_INTEGRATE_RIGHT, SUB_MOVE_INTEGRATE_LEFT}"
  shows "at_edge m buf x' y' dir"
proof -
  note small = map_small [OF assms(1)]
  have c: "odd (unat x)" "odd (unat y)" "unat (x div 2) < 2 ^ 62" "unat (y div 2) < 2 ^ 62"
    using assms(2) small by (auto simp: at_center_def word_less_nat_alt)
  have up: "even (unat (x + 1))" "even (unat (y + 1))" using step_up [OF c(3)] step_up [OF c(4)] c(1,2) by simp_all
  have "x \<noteq> 0" "y \<noteq> 0" using c(1,2) by auto
  then have down: "even (unat (x - 1))" "even (unat (y - 1))" using c(1,2) by (simp_all add: unat_pred_word)
  show ?thesis
    using assms(3-5) c(1,2) up down
    by (cases dir) (auto simp: at_edge_def SubMoveTranslate_def MoveEndOnWall_def parity split: if_splits)
qed

lemma unless_failed_iff [simp]: "unless_failed t rest = Some True \<longleftrightarrow> t = Some True \<and> rest = Some True"
  by (auto simp: unless_failed_def bind_Some_iff split: if_splits)

lemma edge_not_center: "at_edge m buf x y dir \<Longrightarrow> \<not> IS_CENTERED x y" "at_center m x y \<Longrightarrow> \<not> IS_EDGED x y"
  by (auto simp: at_edge_def at_center_def IS_CENTERED_def IS_EDGED_def parity split: if_splits)

lemma legal_move_ok:
  assumes "map_ok m buf" and "mouse_ok m buf st" and "SubMoveLegal st move m buf scan flood = Some True" and "move \<noteq> SUB_MOVE_DONE"
  shows "mouse_ok m buf (SubMoveApply st move)"
proof -
  obtain x y dir moving where st: "st = (x, y, dir, moving)" by (cases st)
  obtain x' y' dir' moving' where ap: "SubMoveApply (x, y, dir, moving) move = (x', y', dir', moving')"
    by (cases "SubMoveApply (x, y, dir, moving) move")
  have t: "MoveStartCentered x y move" "MoveStartEdge x y move" "MoveStartMoving moving move"
      "MoveEndOnWall x' y' m buf move = Some True"
    using assms(3) ap st by (auto simp: SubMoveLegal_def)
  have ok: "at_center m x y \<or> moving \<and> at_edge m buf x y dir" using assms(2) st by (simp add: mouse_ok_def)
  obtain x1 y1 where tr: "SubMoveTranslate x y dir 1 = (x1, y1)" by (cases "SubMoveTranslate x y dir 1")
  have ar: "at_edge m buf x y dir \<Longrightarrow> at_center m x1 y1" by (rule arrive [OF assms(1) _ tr])
  have centered: "at_center m x y" if "IS_CENTERED x y" using ok that edge_not_center by blast
  have edged: "at_edge m buf x y dir" if "IS_EDGED x y" using ok that edge_not_center by blast
  show ?thesis
  proof (cases move)
    case SUB_MOVE_START
    then have "at_edge m buf x1 y1 dir"
      using leave [OF assms(1) centered tr] t ap tr by (simp add: MoveStartCentered_def SubMoveApply_def)
    then show ?thesis using SUB_MOVE_START st tr by (simp add: SubMoveApply_def mouse_ok_def SubMoveMovingEndState_def)
  next
    case SUB_MOVE_FORWARD
    then have "at_center m x1 y1 \<or> at_edge m buf x1 y1 dir"
      using ok ar leave [OF assms(1) _ tr] t ap tr by (auto simp: SubMoveApply_def)
    then show ?thesis using SUB_MOVE_FORWARD st tr by (auto simp: SubMoveApply_def mouse_ok_def SubMoveMovingEndState_def)
  next
    case SUB_MOVE_STOP
    then have "at_center m x1 y1" using t(2) edged ar by (simp add: MoveStartEdge_def)
    then show ?thesis using SUB_MOVE_STOP st tr by (simp add: SubMoveApply_def mouse_ok_def)
  next
    case SUB_MOVE_TURN_RIGHT
    then show ?thesis using t(1) centered st by (simp add: MoveStartCentered_def SubMoveApply_def mouse_ok_def)
  next
    case SUB_MOVE_TURN_LEFT
    then show ?thesis using t(1) centered st by (simp add: MoveStartCentered_def SubMoveApply_def mouse_ok_def)
  next
    case SUB_MOVE_TURN_AROUND
    then show ?thesis using t(1) centered st by (simp add: MoveStartCentered_def SubMoveApply_def mouse_ok_def)
  next
    case SUB_MOVE_INTEGRATE_RIGHT
    then have "at_center m x1 y1" using t(2) edged ar by (simp add: MoveStartEdge_def)
    then have "at_edge m buf x' y' dir'" "moving'"
      using leave [OF assms(1), of x1 y1 "SubMoveRotate dir RIGHT" x' y' move] t(4) ap tr SUB_MOVE_INTEGRATE_RIGHT
      by (auto simp: SubMoveApply_def integrate_def SubMoveMovingEndState_def Let_def split: prod.splits)
    then show ?thesis using ap st by (simp add: mouse_ok_def)
  next
    case SUB_MOVE_INTEGRATE_LEFT
    then have "at_center m x1 y1" using t(2) edged ar by (simp add: MoveStartEdge_def)
    then have "at_edge m buf x' y' dir'" "moving'"
      using leave [OF assms(1), of x1 y1 "SubMoveRotate dir LEFT" x' y' move] t(4) ap tr SUB_MOVE_INTEGRATE_LEFT
      by (auto simp: SubMoveApply_def integrate_def SubMoveMovingEndState_def Let_def split: prod.splits)
    then show ?thesis using ap st by (simp add: mouse_ok_def)
  qed (use assms(4) in simp)
qed

section \<open>The choice is made without a failure\<close>

definition scan_room :: "SCAN_LOG \<Rightarrow> bool" where
  "scan_room l \<longleftrightarrow> unat (sl_Width l) * unat (sl_Height l) \<le> length (sl_Flags l) * 32 \<and>
     unat (sl_Width l) * unat (sl_Height l) < 2 ^ 62"

lemma scan_reads: "scan_room l \<Longrightarrow> \<exists>b. ScanLogGet x y l = Some b"
  using cell_unat(2) [of x "sl_Width l" y "sl_Height l"]
  by (auto simp: ScanLogGet_def scan_room_def XY_TO_INDEX_def not_le BitmapGet_bit inside_def)

lemma flood_reads: "flood_room n fm \<Longrightarrow> \<exists>v. FloodFillGet x y fm = Some v"
  using FloodFillGet_value by blast

lemma wall_reads: "map_ok m buf \<Longrightarrow> \<exists>b. MapGetWall x y d m buf = Some b"
  using MapGetWall_slot by blast

lemma unless_failed_total: "t \<noteq> None \<Longrightarrow> rest \<noteq> None \<Longrightarrow> unless_failed t rest \<noteq> None"
  by (auto simp: unless_failed_def)

lemma SubMoveLegal_total:
  assumes "map_ok m buf" and "flood_room n flood" and "scan_room scan"
  shows "\<exists>b. SubMoveLegal st move m buf scan flood = Some b"
proof -
  have w: "MapGetWall x y d m buf \<noteq> None" for x y d using wall_reads [OF assms(1), of x y d] by auto
  have "MoveStartStraightAway x y dir move flood \<noteq> None" for x y dir
  proof -
    obtain a b where g: "GetCell x y dir = (a, b)" by (cases "GetCell x y dir")
    obtain v where v: "FloodFillGet a b flood = Some v" using flood_reads [OF assms(2)] by blast
    obtain a' b' where t: "SubMoveTranslate a b dir 1 = (a', b')" by (cases "SubMoveTranslate a b dir 1")
    obtain v' where "FloodFillGet a' b' flood = Some v'" using flood_reads [OF assms(2)] by blast
    then show ?thesis using g v t by (auto simp: MoveStartStraightAway_def)
  qed
  moreover have "MoveEndOnWall x y m buf move \<noteq> None" for x y using w by (simp add: MoveEndOnWall_def del: not_None_eq)
  moreover have "MoveEndInScanned x y dir scan \<noteq> None" for x y dir
    using scan_reads [OF assms(3)] by (auto simp: MoveEndInScanned_def split: prod.splits)
  moreover have "MoveEndFacingWall x y dir m buf move \<noteq> None" for x y dir using w by (simp add: MoveEndFacingWall_def del: not_None_eq)
  moreover have "MoveNextScanned x y dir move scan \<noteq> None" for x y dir
    using scan_reads [OF assms(3)] by (auto simp: MoveNextScanned_def Let_def split: prod.splits)
  moreover have "MoveNextLessFloodFill x y dir move flood \<noteq> None" for x y dir
  proof -
    obtain v where v: "FloodFillGet (x div 2) (y div 2) flood = Some v" using flood_reads [OF assms(2)] by blast
    obtain a b where t: "SubMoveTranslate x y dir 2 = (a, b)" by (cases "SubMoveTranslate x y dir 2")
    obtain v' where "FloodFillGet (a div 2) (b div 2) flood = Some v'" using flood_reads [OF assms(2)] by blast
    then show ?thesis using v t by (simp add: MoveNextLessFloodFill_def)
  qed
  ultimately have "SubMoveLegal st move m buf scan flood \<noteq> None"
    unfolding SubMoveLegal_def
    by (cases st; cases "SubMoveApply st move") (simp del: not_None_eq add: unless_failed_total)
  then show ?thesis by blast
qed

lemma SubMoveGather_total:
  assumes "map_ok m buf" and "flood_room n flood" and "mouse_ok m buf (SubMoveApply st cur)"
  shows "\<exists>c. SubMoveGather st cur flood m buf = Some c \<and> bm_best c = cur"
proof -
  obtain x y dir moving where ap: "SubMoveApply st cur = (x, y, dir, moving)" by (cases "SubMoveApply st cur")
  then have "at_center m x y \<or> at_edge m buf x y dir" using assms(3) by (auto simp: mouse_ok_def)
  then obtain a b where c: "SubMoveCell x y dir = Some (a, b)"
    by (cases dir) (auto simp: at_center_def at_edge_def SubMoveCell_def parity)
  obtain v where v: "FloodFillGet a b flood = Some v" using flood_reads [OF assms(2)] by blast
  obtain w where w: "MapGetWall a b dir m buf = Some w" using wall_reads [OF assms(1)] by blast
  obtain a' b' where t: "SubMoveTranslate a b dir 1 = (a', b')" by (cases "SubMoveTranslate a b dir 1")
  obtain v' where "FloodFillGet a' b' flood = Some v'" using flood_reads [OF assms(2)] by blast
  then show ?thesis using ap c v w t by (simp add: SubMoveGather_def)
qed

text \<open>The moves considered so far: the best one is legal, or still the initial one, and none of the legal
  ones leads to a cell of smaller value.\<close>

definition best_of :: "mouse \<Rightarrow> FLOOD_MAP \<Rightarrow> MAP \<Rightarrow> bitmap \<Rightarrow> SCAN_LOG \<Rightarrow> SUB_MOVE set \<Rightarrow> best_move \<Rightarrow> bool" where
  "best_of st flood m buf scan S best \<longleftrightarrow>
     (bm_best best = SUB_MOVE_DONE \<or> bm_best best \<in> S \<and> SubMoveLegal st (bm_best best) m buf scan flood = Some True \<and>
        SubMoveGather st (bm_best best) flood m buf = Some best) \<and>
     (\<forall>c \<in> S. SubMoveLegal st c m buf scan flood = Some True \<longrightarrow>
        (\<exists>g. SubMoveGather st c flood m buf = Some g \<and> bm_Flood best \<le> bm_Flood g))"

lemma better_flood: "SubMoveBetter c b \<Longrightarrow> bm_Flood c \<le> bm_Flood b" "\<not> SubMoveBetter c b \<Longrightarrow> bm_Flood b \<le> bm_Flood c"
  by (auto simp: SubMoveBetter_def split: if_splits)

lemma SubMoveFindLoop_best:
  assumes "map_ok m buf" and "flood_room n flood" and "scan_room scan" and "mouse_ok m buf st"
    and "SUB_MOVE_DONE \<notin> set moves" and "best_of st flood m buf scan S best"
  shows "\<exists>b. SubMoveFindLoop st flood m buf scan moves best = Some b \<and> best_of st flood m buf scan (S \<union> set moves) b"
  using assms(5,6)
proof (induction moves arbitrary: S best)
  case (Cons cur moves)
  obtain l where l: "SubMoveLegal st cur m buf scan flood = Some l" using SubMoveLegal_total [OF assms(1-3)] by blast
  have ex: "\<exists>b. (if \<not> l then Some best
       else do { c \<leftarrow> SubMoveGather st cur flood m buf; Some (if SubMoveBetter c best then c else best) }) = Some b \<and>
      best_of st flood m buf scan (insert cur S) b"
  proof (cases l)
    case False
    then show ?thesis using Cons.prems(2) l by (auto simp: best_of_def)
  next
    case True
    then have "mouse_ok m buf (SubMoveApply st cur)" using legal_move_ok [OF assms(1,4)] l Cons.prems(1) by auto
    then obtain c where c: "SubMoveGather st cur flood m buf = Some c" "bm_best c = cur"
      using SubMoveGather_total [OF assms(1,2)] by blast
    show ?thesis
    proof (cases "SubMoveBetter c best")
      case b: True
      then have "best_of st flood m buf scan (insert cur S) c"
        using Cons.prems(2) c l True better_flood(1) [OF b] unfolding best_of_def by (auto dest: order_trans)
      then show ?thesis using c b True by simp
    next
      case b: False
      then have "best_of st flood m buf scan (insert cur S) best"
        using Cons.prems(2) c l True better_flood(2) [OF b] unfolding best_of_def by auto
      then show ?thesis using c b True by simp
    qed
  qed
  then obtain b where b: "(if \<not> l then Some best
       else do { c \<leftarrow> SubMoveGather st cur flood m buf; Some (if SubMoveBetter c best then c else best) }) = Some b"
      "best_of st flood m buf scan (insert cur S) b" by blast
  have "SubMoveFindLoop st flood m buf scan (cur # moves) best = SubMoveFindLoop st flood m buf scan moves b"
    using l b(1) by simp
  then show ?case using Cons.IH [OF _ b(2)] Cons.prems(1) by simp
qed simp

lemma all_moves_set: "set all_moves = UNIV - {SUB_MOVE_DONE}"
proof -
  have "c \<in> set all_moves \<longleftrightarrow> c \<noteq> SUB_MOVE_DONE" for c by (cases c) (simp_all add: all_moves_def)
  then show ?thesis by blast
qed

lemma SubMoveFindLoop_done:
  assumes "SubMoveFindLoop st flood m buf scan moves best = Some b" and "bm_best b = SUB_MOVE_DONE" and "SUB_MOVE_DONE \<notin> set moves"
  shows "b = best \<and> (\<forall>c\<in>set moves. SubMoveLegal st c m buf scan flood = Some True \<longrightarrow>
    (\<exists>g. SubMoveGather st c flood m buf = Some g \<and> bm_Flood b \<le> bm_Flood g))"
  using assms
proof (induction moves arbitrary: best)
  case (Cons cur moves)
  obtain legal where l: "SubMoveLegal st cur m buf scan flood = Some legal" using Cons.prems(1) by (auto split: bind_splits)
  show ?case
  proof (cases legal)
    case False
    then show ?thesis using Cons l by simp
  next
    case True
    then obtain c where c: "SubMoveGather st cur flood m buf = Some c"
        "SubMoveFindLoop st flood m buf scan moves (if SubMoveBetter c best then c else best) = Some b"
      using Cons.prems(1) l by (auto split: bind_splits)
    have cur: "bm_best c \<noteq> SUB_MOVE_DONE" 
      using c(1) Cons.prems(3) by (auto simp: SubMoveGather_def Let_def split: bind_splits prod.splits)
    have ih: "b = (if SubMoveBetter c best then c else best)" "\<forall>c\<in>set moves. SubMoveLegal st c m buf scan flood = Some True \<longrightarrow>
        (\<exists>g. SubMoveGather st c flood m buf = Some g \<and> bm_Flood b \<le> bm_Flood g)"
      using Cons.IH [OF c(2) Cons.prems(2)] Cons.prems(3) by auto
    then have "\<not> SubMoveBetter c best" using cur Cons.prems(2) by auto
    then show ?thesis using ih c(1) better_flood(2) [of c best] by auto
  qed
qed simp

text \<open>The mouse gives up only when no legal move leads to a cell from which the flood map knows a way to the destination.\<close>

lemma SubMoveFindBest_done:
  assumes "SubMoveFindBest st flood m buf scan = Some SUB_MOVE_DONE" and "c \<noteq> SUB_MOVE_DONE"
    and "SubMoveLegal st c m buf scan flood = Some True"
  shows "\<exists>g. SubMoveGather st c flood m buf = Some g \<and> bm_Flood g = 255"
proof -
  let ?best = "\<lparr>bm_best = SUB_MOVE_DONE, bm_Flood = 255, bm_FacingFlood = 255, bm_FacingWall = True, bm_Rotated = True\<rparr>"
  obtain b where b: "SubMoveFindLoop st flood m buf scan all_moves ?best = Some b" "bm_best b = SUB_MOVE_DONE"
    using assms(1) by (auto simp: SubMoveFindBest_def)
  have "SUB_MOVE_DONE \<notin> set all_moves" by (simp add: all_moves_set)
  from SubMoveFindLoop_done [OF b this] obtain g where "SubMoveGather st c flood m buf = Some g" "255 \<le> bm_Flood g"
    using assms(2,3) by (auto simp: all_moves_set)
  moreover have "x = 255" if "255 \<le> x" for x :: "8 word"
    using that unsigned_less [of x, where ?'a = nat] by (simp add: word_le_nat_alt word_unat_eq_iff)
  ultimately show ?thesis by blast
qed

section \<open>Properties\<close>

text \<open>From every position in the middle of a cell, or moving over an open edge, the mouse finds its next
  move without a failed assertion or an access outside its maps. The move is to stay, or a legal one
  after which the mouse is again in the middle of a cell or moving over an open edge in its direction (never
  over a wall or a peg); and no legal move leads to a cell of smaller flood value than the chosen one.\<close>

theorem sub_move_safe:
  assumes "map_ok m buf" and "flood_room n flood" and "scan_room scan" and "mouse_ok m buf st"
  shows "\<exists>best. SubMoveFindBest st flood m buf scan = Some best \<and>
     (best \<noteq> SUB_MOVE_DONE \<longrightarrow> SubMoveLegal st best m buf scan flood = Some True \<and> mouse_ok m buf (SubMoveApply st best) \<and>
        (\<forall>c g. c \<noteq> SUB_MOVE_DONE \<longrightarrow> SubMoveLegal st c m buf scan flood = Some True \<longrightarrow>
           SubMoveGather st c flood m buf = Some g \<longrightarrow>
           (\<exists>b. SubMoveGather st best flood m buf = Some b \<and> bm_Flood b \<le> bm_Flood g)))"
proof -
  let ?b0 = "\<lparr>bm_best = SUB_MOVE_DONE, bm_Flood = 255, bm_FacingFlood = 255, bm_FacingWall = True, bm_Rotated = True\<rparr>"
  have "best_of st flood m buf scan {} ?b0" by (simp add: best_of_def)
  from SubMoveFindLoop_best [OF assms _ this, of all_moves]
  obtain b where b: "SubMoveFindLoop st flood m buf scan all_moves ?b0 = Some b"
      "best_of st flood m buf scan (UNIV - {SUB_MOVE_DONE}) b"
    by (auto simp: all_moves_set)
  then show ?thesis
    using legal_move_ok [OF assms(1,4)] unfolding best_of_def SubMoveFindBest_def by fastforce
qed

definition scan4 :: SCAN_LOG where
  "scan4 = \<lparr>sl_Width = 4, sl_Height = 4, sl_Flags = [0xFFFF]\<rparr>"

definition flooded4 :: FLOOD_MAP where
  "flooded4 = \<lparr>fm_Width = 4, fm_Height = 4, fm_FloodMap = [3, 4, 5, 6, 2, 3, 4, 5, 1, 2, 3, 4, 0, 1, 2, 3], fm_EventMap = [0]\<rparr>"

text \<open>In an open 4 by 4 maze with destination (0, 3), facing north in cell (0, 0), the mouse starts.\<close>

lemma demo_choice: "SubMoveFindBest (1, 1, NORTH, False) flooded4 map4 [0, 0] scan4 = Some SUB_MOVE_START"
  by code_simp

theorem sub_move_safe_witness:
  "SubMoveFindBest (1, 1, NORTH, False) flooded4 map4 [0, 0] scan4 = Some SUB_MOVE_START \<and>
     mouse_ok map4 [0, 0] (SubMoveApply (1, 1, NORTH, False) SUB_MOVE_START)"
proof -
  have "flood_room 4 flooded4" "scan_room scan4" "mouse_ok map4 [0, 0] (1, 1, NORTH, False)"
    by (simp_all add: flood_room_def flooded4_def scan_room_def scan4_def mouse_ok_def at_center_def map4_def)
  from sub_move_safe [OF map4_ok this] demo_choice show ?thesis by auto
qed

text \<open>
  The comparison that should favour a move without a turn does the opposite: of two moves that are equal
  otherwise the one with the turn wins.
\<close>

lemma turning_wins:
  "SubMoveBetter (b\<lparr>bm_Rotated := True\<rparr>) (b\<lparr>bm_Rotated := False\<rparr>)"
  "\<not> SubMoveBetter (b\<lparr>bm_Rotated := False\<rparr>) (b\<lparr>bm_Rotated := True\<rparr>)"
  by (auto simp: SubMoveBetter_def)

end
