(* ===== verification/Explore.thy ===== *)
theory Explore
  imports SubMove
begin

text \<open>
  The program that drives the mouse through a maze, \<^verbatim>\<open>src/umouse/movetest.c\<close>: a world map that the mouse does not know,
  the map that it draws while it explores, and the loop that scans the cell in front, fills the flood map anew when
  walls were found, chooses a move and makes it. What is printed is left out; the reads of the maps that printing
  makes are total.
\<close>

section \<open>The program\<close>

record explore =
  MouseMap :: MAP
  MouseMapBuff :: bitmap
  WorldMap :: MAP
  WorldMapBuff :: bitmap
  FloodMap :: FLOOD_MAP
  ScanLog :: SCAN_LOG

abbreviation WIDTH :: COUNT where "WIDTH \<equiv> 8"
abbreviation HEIGHT :: COUNT where "HEIGHT \<equiv> 8"

abbreviation mouse_wall :: "explore \<Rightarrow> INDEX \<Rightarrow> INDEX \<Rightarrow> DIRECTION \<Rightarrow> bool option" where
  "mouse_wall e x y d \<equiv> MapGetWall x y d (MouseMap e) (MouseMapBuff e)"

abbreviation world_wall :: "explore \<Rightarrow> INDEX \<Rightarrow> INDEX \<Rightarrow> DIRECTION \<Rightarrow> bool option" where
  "world_wall e x y d \<equiv> MapGetWall x y d (WorldMap e) (WorldMapBuff e)"

function MakeLines :: "INDEX \<Rightarrow> INDEX \<Rightarrow> COUNT \<Rightarrow> DIRECTION \<Rightarrow> DIRECTION \<Rightarrow> MAP \<Rightarrow> bitmap \<Rightarrow> bitmap option" where
  "MakeLines x y dist moveDir wallDir m buf =
     (if dist > 0 then do {
        buf \<leftarrow> MapSetWall x y wallDir True m buf;
        let (x, y) = SubMoveTranslate x y moveDir 1;
        MakeLines x y (dist - 1) moveDir wallDir m buf
      }
      else Some buf)"
  by pat_completeness auto
termination
  by (relation "measure (\<lambda>(x, y, dist, _). unat dist)") (auto simp: unat_pred_word word_gt_0 unat_gt_0)

text \<open>The loop over the four walls of the cell in front; the answer is \<^verbatim>\<open>mapChanged\<close>.\<close>

primrec ScanWalls :: "DIRECTION list \<Rightarrow> INDEX \<Rightarrow> INDEX \<Rightarrow> bool \<Rightarrow> explore \<Rightarrow> (bool \<times> explore) option" where
  "ScanWalls [] scanX scanY mapChanged e = Some (mapChanged, e)"
| "ScanWalls (testDir # dirs) scanX scanY mapChanged e =
     do {
       known \<leftarrow> mouse_wall e (scanX div 2) (scanY div 2) testDir;
       seen \<leftarrow> (if known then Some False else world_wall e (scanX div 2) (scanY div 2) testDir);
       if seen then do {
         buf \<leftarrow> MapSetWall (scanX div 2) (scanY div 2) testDir True (MouseMap e) (MouseMapBuff e);
         ScanWalls dirs scanX scanY True (e\<lparr>MouseMapBuff := buf\<rparr>)
       }
       else ScanWalls dirs scanX scanY mapChanged e
     }"

definition Reflood :: "INDEX \<Rightarrow> INDEX \<Rightarrow> explore \<Rightarrow> explore option" where
  "Reflood destX destY e =
     do {
       fm \<leftarrow> FloodFillClear (FloodMap e);
       fm \<leftarrow> FloodFillSetDestination destX destY fm;
       fm \<leftarrow> FloodFillCalculate (MouseMap e) (MouseMapBuff e) fm;
       Some (e\<lparr>FloodMap := fm\<rparr>)
     }"

definition UpdateMap :: "mouse \<Rightarrow> INDEX \<Rightarrow> INDEX \<Rightarrow> explore \<Rightarrow> explore option" where
  "UpdateMap st destX destY e = (case st of (x, y, dir, moving) \<Rightarrow>
     if x mod 2 = 0 \<or> y mod 2 = 0 then Some e
     else do {
       wall \<leftarrow> world_wall e (x div 2) (y div 2) dir;
       (mapChanged, e) \<leftarrow> (if \<not> wall then
           let (scanX, scanY) = SubMoveTranslate x y dir 2 in
           do {
             (mapChanged, e) \<leftarrow> ScanWalls [NORTH, EAST, SOUTH, WEST] scanX scanY False e;
             log \<leftarrow> ScanLogSet (scanX div 2) (scanY div 2) True (ScanLog e);
             Some (mapChanged, e\<lparr>ScanLog := log\<rparr>)
           }
         else Some (False, e));
       if mapChanged then Reflood destX destY e else Some e
     })"

text \<open>How a round of the loop of \<^verbatim>\<open>RunMoves\<close> ends: the loop goes on, it ends, or the program exits.\<close>

datatype run_state = Going | Arrived | Out_of_bounds | Not_possible_move | Not_in_center

definition RunRound :: "INDEX \<Rightarrow> INDEX \<Rightarrow> explore \<times> mouse \<Rightarrow> (run_state \<times> explore \<times> mouse) option" where
  "RunRound destX destY est = (case est of (e, st) \<Rightarrow>
     do {
       e \<leftarrow> UpdateMap st destX destY e;
       let (x, y, dir, moving) = st;
       _ \<leftarrow> FloodFillGet (x div 2) (y div 2) (FloodMap e);
       if x > WIDTH * 2 \<or> y > HEIGHT * 2 then Some (Out_of_bounds, e, st)
       else do {
         move \<leftarrow> SubMoveFindBest st (FloodMap e) (MouseMap e) (MouseMapBuff e) (ScanLog e);
         if move = SUB_MOVE_DONE then Some (Not_possible_move, e, st)
         else do {
           let st = SubMoveApply st move;
           let (x, y, dir, moving) = st;
           _ \<leftarrow> FloodFillGet x y (FloodMap e);
           dist \<leftarrow> FloodFillGet (x div 2) (y div 2) (FloodMap e);
           Some (if dist \<noteq> 0 then Going else Arrived, e, st)
         }
       }
     })"

partial_function (option) RunLoop :: "INDEX \<Rightarrow> INDEX \<Rightarrow> explore \<times> mouse \<Rightarrow> (run_state \<times> explore \<times> mouse) option" where
  "RunLoop destX destY est =
     do {
       (r, est) \<leftarrow> RunRound destX destY est;
       if r = Going then RunLoop destX destY est else Some (r, est)
     }"

definition RunMoves ::
  "INDEX \<Rightarrow> INDEX \<Rightarrow> DIRECTION \<Rightarrow> INDEX \<Rightarrow> INDEX \<Rightarrow> explore \<Rightarrow> (run_state \<times> explore \<times> mouse) option" where
  "RunMoves startX startY startDir destX destY e =
     do {
       e \<leftarrow> Reflood destX destY e;
       let x = startX * 2 + 1;
       let y = startY * 2 + 1;
       (r, e, (x, y, dir, moving)) \<leftarrow> RunLoop destX destY (e, (x, y, startDir, False));
       if r \<noteq> Arrived then Some (r, e, (x, y, dir, moving))
       else if x mod 2 = 0 \<or> y mod 2 = 0 then Some (Not_in_center, e, (x, y, dir, moving))
       else Some (Arrived, e, (x div 2, y div 2, dir, moving))
     }"

text \<open>The set-up of \<^verbatim>\<open>main\<close>: the sample maze.\<close>

definition movetest_setup :: "explore \<Rightarrow> explore option" where
  "movetest_setup e =
     do {
       (_, wm, wb) \<leftarrow> MapInit (WorldMap e) (WorldMapBuff e) (MapSizeNeeded WIDTH HEIGHT) WIDTH HEIGHT;
       (_, mm, mb) \<leftarrow> MapInit (MouseMap e) (MouseMapBuff e) (MapSizeNeeded WIDTH HEIGHT) WIDTH HEIGHT;
       log \<leftarrow> ScanLogInit WIDTH HEIGHT (sl_Flags (ScanLog e)) (ScanLog e);
       wb \<leftarrow> MapSetWall 0 0 EAST True wm wb;
       mb \<leftarrow> MapSetWall 0 0 EAST True mm mb;
       log \<leftarrow> ScanLogSet 0 0 True log;
       wb \<leftarrow> MakeLines 0 2 6 EAST SOUTH wm wb;
       wb \<leftarrow> MakeLines 6 3 4 NORTH WEST wm wb;
       wb \<leftarrow> MakeLines 1 5 6 EAST NORTH wm wb;
       wb \<leftarrow> MakeLines 4 3 2 NORTH WEST wm wb;
       wb \<leftarrow> MakeLines 4 2 2 EAST NORTH wm wb;
       wb \<leftarrow> MakeLines 0 5 4 EAST SOUTH wm wb;
       wb \<leftarrow> MapSetWall 1 6 EAST True wm wb;
       wb \<leftarrow> MakeLines 3 3 2 NORTH WEST wm wb;
       let fm = FloodFillInit WIDTH HEIGHT (fm_FloodMap (FloodMap e)) (fm_EventMap (FloodMap e)) (FloodMap e);
       Some \<lparr>MouseMap = mm, MouseMapBuff = mb, WorldMap = wm, WorldMapBuff = wb, FloodMap = fm, ScanLog = log\<rparr>
     }"

definition movetest_main :: "explore \<Rightarrow> (run_state \<times> explore \<times> mouse) option" where
  "movetest_main e =
     do {
       e \<leftarrow> movetest_setup e;
       (r, e, (x, y, dir, moving)) \<leftarrow> RunMoves 0 0 NORTH (WIDTH div 2) (HEIGHT div 2) e;
       if r \<noteq> Arrived then Some (r, e, (x, y, dir, moving))
       else RunMoves x y dir 0 0 e
     }"

section \<open>What the mouse knows is true\<close>

text \<open>
  Every wall of the mouse's map is in the maze, the walls of a scanned cell are all known, and the mouse is in the
  middle of a cell or on an edge of the maze where there is no wall.
\<close>

definition maps_ok :: "COUNT \<Rightarrow> explore \<Rightarrow> bool" where
  "maps_ok n e \<longleftrightarrow> map_ok (MouseMap e) (MouseMapBuff e) \<and> map_ok (WorldMap e) (WorldMapBuff e) \<and>
     map_Width (MouseMap e) = n \<and> map_Height (MouseMap e) = n \<and> map_Width (WorldMap e) = n \<and> map_Height (WorldMap e) = n \<and>
     flood_room n (FloodMap e) \<and> scan_room (ScanLog e) \<and> sl_Width (ScanLog e) = n \<and> sl_Height (ScanLog e) = n"

definition knows :: "explore \<Rightarrow> bool" where
  "knows e \<longleftrightarrow> (\<forall>x y d. mouse_wall e x y d = Some True \<longrightarrow> world_wall e x y d = Some True) \<and>
     (\<forall>x y d. ScanLogGet x y (ScanLog e) = Some True \<longrightarrow> mouse_wall e x y d = world_wall e x y d)"

text \<open>The flood map leads to the destination.\<close>

definition leads_to :: "COUNT \<Rightarrow> INDEX \<Rightarrow> INDEX \<Rightarrow> FLOOD_MAP \<Rightarrow> bool" where
  "leads_to n destX destY fm \<longleftrightarrow> (\<forall>x y. FloodFillGet x y fm = Some 0 \<longrightarrow> (x, y) = (destX, destY))"

definition exploring :: "COUNT \<Rightarrow> INDEX \<Rightarrow> INDEX \<Rightarrow> explore \<times> mouse \<Rightarrow> bool" where
  "exploring n destX destY est = (case est of (e, st) \<Rightarrow> maps_ok n e \<and> knows e \<and> leads_to n destX destY (FloodMap e) \<and>
     mouse_ok (MouseMap e) (MouseMapBuff e) st \<and> mouse_ok (WorldMap e) (WorldMapBuff e) st)"

lemma maps_okD:
  assumes "maps_ok n e"
  shows "map_ok (MouseMap e) (MouseMapBuff e)" "map_ok (WorldMap e) (WorldMapBuff e)" "map_Width (MouseMap e) = n" "map_Height (MouseMap e) = n"
    "map_Width (WorldMap e) = n" "map_Height (WorldMap e) = n" "flood_room n (FloodMap e)" "scan_room (ScanLog e)"
    "sl_Width (ScanLog e) = n" "sl_Height (ScanLog e) = n"
  using assms by (simp_all add: maps_ok_def)

lemma Reflood_ok:
  assumes "maps_ok n e"
  shows "\<exists>fm. Reflood destX destY e = Some (e\<lparr>FloodMap := fm\<rparr>) \<and> flood_room n fm \<and> leads_to n destX destY fm"
proof -
  note ok = maps_okD [OF assms]
  obtain fm where fm: "do { fm \<leftarrow> FloodFillClear (FloodMap e); fm \<leftarrow> set_destinations [(destX, destY)] fm; FloodFillCalculate (MouseMap e) (MouseMapBuff e) fm } = Some fm"
      "flood_room n fm" "\<And>x y. \<exists>v. FloodFillGet x y fm = Some v \<and> (\<forall>k < 255. unat v \<le> k \<longleftrightarrow>
        (\<exists>j \<le> k. dist_path (maze_open (MouseMap e) (MouseMapBuff e)) neighbour {c \<in> set [(destX, destY)]. fst c < n \<and> snd c < n} j (x, y)))"
    using flood_fill_correct [OF ok(1,3,4,7), of "[(destX, destY)]"] by blast
  have "leads_to n destX destY fm" unfolding leads_to_def
  proof (intro allI impI)
    fix x y assume "FloodFillGet x y fm = Some 0"
    then have "dist_path (maze_open (MouseMap e) (MouseMapBuff e)) neighbour {c \<in> set [(destX, destY)]. fst c < n \<and> snd c < n} 0 (x, y)"
      using fm(3) [of x y] by (auto dest: spec [of _ 0])
    then show "(x, y) = (destX, destY)" by cases auto
  qed
  moreover have "Reflood destX destY e = Some (e\<lparr>FloodMap := fm\<rparr>)"
    using fm(1) by (auto simp: Reflood_def bind_Some_iff)
  ultimately show ?thesis using fm(2) by blast
qed

text \<open>Setting a wall of the mouse's map that the maze has.\<close>

lemma set_wall_ok:
  assumes "maps_ok n e" and "\<forall>x y d. mouse_wall e x y d = Some True \<longrightarrow> world_wall e x y d = Some True" and "world_wall e cx cy d = Some True"
  shows "\<exists>buf. MapSetWall cx cy d True (MouseMap e) (MouseMapBuff e) = Some buf \<and> maps_ok n (e\<lparr>MouseMapBuff := buf\<rparr>) \<and>
    (\<forall>x y d. MapGetWall x y d (MouseMap e) buf = Some True \<longrightarrow> world_wall e x y d = Some True) \<and>
    (\<forall>x y d. mouse_wall e x y d = Some True \<longrightarrow> MapGetWall x y d (MouseMap e) buf = Some True) \<and>
    MapGetWall cx cy d (MouseMap e) buf = Some True"
proof -
  note ok = maps_okD [OF assms(1)]
  obtain buf where b: "MapSetWall cx cy d True (MouseMap e) (MouseMapBuff e) = Some buf" "map_ok (MouseMap e) buf"
      "\<And>x y d'. MapGetWall x y d' (MouseMap e) buf = (if \<not> inner (MouseMap e) (wall_id x y d') then Some True
         else if wall_id x y d' = wall_id cx cy d then Some True else mouse_wall e x y d')"
    using map_set_get [OF ok(1), of cx cy d True] by blast
  have border: "world_wall e x y d' = Some True" if "\<not> inner (MouseMap e) (wall_id x y d')" for x y d'
    using that MapGetWall_slot [OF ok(2), of x y d'] ok(3-6) by (auto simp: inner_def split: prod.splits)
  have same: "world_wall e x y d' = world_wall e cx cy d" if "wall_id x y d' = wall_id cx cy d" for x y d'
    using that by (simp add: wall_flag)
  show ?thesis
  proof (intro exI conjI allI impI)
    show "MapSetWall cx cy d True (MouseMap e) (MouseMapBuff e) = Some buf" by (rule b(1))
    show "maps_ok n (e\<lparr>MouseMapBuff := buf\<rparr>)" using assms(1) b(2) by (simp add: maps_ok_def)
    fix x y d' assume "MapGetWall x y d' (MouseMap e) buf = Some True"
    then show "world_wall e x y d' = Some True" using b(3) [of x y d'] border same [of x y d'] assms(2,3) by (auto split: if_splits)
  next
    fix x y d' assume "mouse_wall e x y d' = Some True"
    then show "MapGetWall x y d' (MouseMap e) buf = Some True" using b(3) by simp
  next
    show "MapGetWall cx cy d (MouseMap e) buf = Some True" using b(3) by simp
  qed
qed

lemma ScanWalls_ok:
  assumes "maps_ok n e" and "\<forall>x y d. mouse_wall e x y d = Some True \<longrightarrow> world_wall e x y d = Some True"
  shows "\<exists>ch buf. ScanWalls dirs sx sy mapChanged e = Some (ch, e\<lparr>MouseMapBuff := buf\<rparr>) \<and> maps_ok n (e\<lparr>MouseMapBuff := buf\<rparr>) \<and>
    (\<forall>x y d. MapGetWall x y d (MouseMap e) buf = Some True \<longrightarrow> world_wall e x y d = Some True) \<and>
    (\<forall>x y d. mouse_wall e x y d = Some True \<longrightarrow> MapGetWall x y d (MouseMap e) buf = Some True) \<and>
    (\<forall>d\<in>set dirs. world_wall e (sx div 2) (sy div 2) d = Some True \<longrightarrow> MapGetWall (sx div 2) (sy div 2) d (MouseMap e) buf = Some True)"
  using assms
proof (induction dirs arbitrary: mapChanged e)
  case Nil
  show ?case by (intro exI [of _ mapChanged] exI [of _ "MouseMapBuff e"]) (use Nil in simp)
next
  case (Cons d dirs)
  let ?x = "sx div 2" and ?y = "sy div 2"
  obtain known seen where k: "mouse_wall e ?x ?y d = Some known" "world_wall e ?x ?y d = Some seen"
    using wall_reads maps_okD(1,2) [OF Cons.prems(1)] by meson
  show ?case
  proof (cases "\<not> known \<and> seen")
    case False
    have ks: "known = seen" using False k Cons.prems(2) by auto
    from Cons.IH [OF Cons.prems, of mapChanged] obtain ch buf where i: "ScanWalls dirs sx sy mapChanged e = Some (ch, e\<lparr>MouseMapBuff := buf\<rparr>)" "maps_ok n (e\<lparr>MouseMapBuff := buf\<rparr>)"
        "\<forall>x y d. MapGetWall x y d (MouseMap e) buf = Some True \<longrightarrow> world_wall e x y d = Some True"
        "\<forall>x y d. mouse_wall e x y d = Some True \<longrightarrow> MapGetWall x y d (MouseMap e) buf = Some True"
        "\<forall>d\<in>set dirs. world_wall e ?x ?y d = Some True \<longrightarrow> MapGetWall ?x ?y d (MouseMap e) buf = Some True"
      by blast
    have "ScanWalls (d # dirs) sx sy mapChanged e = Some (ch, e\<lparr>MouseMapBuff := buf\<rparr>)" using i(1) k False ks by simp
    moreover have "world_wall e ?x ?y d = Some True \<longrightarrow> MapGetWall ?x ?y d (MouseMap e) buf = Some True" using i(4) k ks by simp
    ultimately show ?thesis using i(2-5) by (intro exI [of _ ch] exI [of _ buf]) auto
  next
    case True
    then obtain b where b: "MapSetWall ?x ?y d True (MouseMap e) (MouseMapBuff e) = Some b" "maps_ok n (e\<lparr>MouseMapBuff := b\<rparr>)"
        "\<forall>x y d. MapGetWall x y d (MouseMap e) b = Some True \<longrightarrow> world_wall e x y d = Some True"
        "\<forall>x y d. mouse_wall e x y d = Some True \<longrightarrow> MapGetWall x y d (MouseMap e) b = Some True" "MapGetWall ?x ?y d (MouseMap e) b = Some True"
      using set_wall_ok [OF Cons.prems, of ?x ?y d] k by auto
    let ?e = "e\<lparr>MouseMapBuff := b\<rparr>"
    have "\<forall>x y d. mouse_wall ?e x y d = Some True \<longrightarrow> world_wall ?e x y d = Some True" using b(3) by simp
    from Cons.IH [OF b(2) this, of True] obtain ch buf where i: "ScanWalls dirs sx sy True ?e = Some (ch, e\<lparr>MouseMapBuff := buf\<rparr>)" "maps_ok n (e\<lparr>MouseMapBuff := buf\<rparr>)"
        "\<forall>x y d. MapGetWall x y d (MouseMap e) buf = Some True \<longrightarrow> world_wall e x y d = Some True"
        "\<forall>x y d. MapGetWall x y d (MouseMap e) b = Some True \<longrightarrow> MapGetWall x y d (MouseMap e) buf = Some True"
        "\<forall>d\<in>set dirs. world_wall e ?x ?y d = Some True \<longrightarrow> MapGetWall ?x ?y d (MouseMap e) buf = Some True"
      by auto
    have "ScanWalls (d # dirs) sx sy mapChanged e = Some (ch, e\<lparr>MouseMapBuff := buf\<rparr>)" using i(1) k True b(1) by simp
    then show ?thesis using i(2-5) b(4,5) by (intro exI [of _ ch] exI [of _ buf]) auto
  qed
qed

lemma DIRECTION_all: "set [NORTH, EAST, SOUTH, WEST] = UNIV"
proof -
  have "d \<in> set [NORTH, EAST, SOUTH, WEST]" for d by (cases d) simp_all
  then show ?thesis by blast
qed

text \<open>The cell in front of a mouse that is in the middle of a cell and faces no wall is a cell of the maze.\<close>

lemma cell_ahead:
  assumes "map_ok m buf" and "at_center m x y" and "MapGetWall (x div 2) (y div 2) dir m buf = Some False" and "SubMoveTranslate x y dir 2 = (sx, sy)"
  shows "sx div 2 < map_Width m \<and> sy div 2 < map_Height m"
proof -
  note small = map_small [OF assms(1)]
  have c: "odd (unat x)" "odd (unat y)" "x div 2 < map_Width m" "y div 2 < map_Height m" using assms(2) by (simp_all add: at_center_def)
  have inn: "inner m (wall_id (x div 2) (y div 2) dir)" using MapGetWall_slot [OF assms(1), of "x div 2" "y div 2" dir] assms(3) by auto
  have up: "(w + 2) div 2 = w div 2 + 1" if "odd (unat w)" "w div 2 < k" "unat k < 2 ^ 62" for w k :: INDEX
  proof -
    have "unat w div 2 < 2 ^ 62" using that(2,3) half [of w] by (simp add: word_less_nat_alt)
    then have "unat (w + 2) = unat w + 2" "unat (w div 2 + 1) = unat w div 2 + 1" by (simp_all add: unat_word_ariths half)
    then show ?thesis by (simp add: word_unat_eq_iff half)
  qed
  have down: "(w - 2) div 2 < k" if "odd (unat w)" "w div 2 < k" "w div 2 \<noteq> 0" for w k :: INDEX
  proof -
    have "2 \<le> unat w" using that(3) half [of w] by (cases "unat w < 2") (auto simp: word_unat_eq_iff)
    then have "unat (w - 2) = unat w - 2" by (simp add: unat_sub word_le_nat_alt)
    then show ?thesis using that(2) by (simp add: word_less_nat_alt half)
  qed
  show ?thesis using assms(4) c inn up [of x "map_Width m"] up [of y "map_Height m"] down [of x "map_Width m"] down [of y "map_Height m"] small
    by (cases dir) (auto simp: SubMoveTranslate_def inner_def wall_id_def MapAdjustX_def MapAdjustY_def)
qed

lemma ScanLogSet_shape: "ScanLogSet x y f l = Some l' \<Longrightarrow> length (sl_Flags l') = length (sl_Flags l) \<and> sl_Width l' = sl_Width l \<and> sl_Height l' = sl_Height l"
  by (auto simp: ScanLogSet_def bind_Some_iff BitmapOn_def BitmapOff_def word_put_def Let_def split: if_splits)

text \<open>After the cell in front was scanned, its walls are known, and those of the other scanned cells still are.\<close>

lemma knows_scanned:
  assumes "maps_ok n e" and "knows e" and ok: "maps_ok n (e\<lparr>MouseMapBuff := buf\<rparr>)"
    and sub: "\<forall>x y d. MapGetWall x y d (MouseMap e) buf = Some True \<longrightarrow> world_wall e x y d = Some True"
    and mono: "\<forall>x y d. mouse_wall e x y d = Some True \<longrightarrow> MapGetWall x y d (MouseMap e) buf = Some True"
    and cell: "\<forall>d. world_wall e cx cy d = Some True \<longrightarrow> MapGetWall cx cy d (MouseMap e) buf = Some True"
    and log: "\<And>x y. ScanLogGet x y log = (if x = cx \<and> y = cy then Some True else ScanLogGet x y (ScanLog e))"
    and e1: "e1 = e\<lparr>MouseMapBuff := buf, ScanLog := log\<rparr>"
  shows "knows e1"
proof -
  have "MapGetWall x y d (MouseMap e) buf = world_wall e x y d" if "ScanLogGet x y log = Some True" for x y d
  proof -
    obtain a b where ab: "MapGetWall x y d (MouseMap e) buf = Some a" "world_wall e x y d = Some b"
      using wall_reads maps_okD(2) [OF assms(1)] maps_okD(1) [OF ok] by (metis explore.select_convs(1,2) explore.update_convs(2) explore.surjective)
    have "b \<longrightarrow> a"
    proof (cases "x = cx \<and> y = cy")
      case False
      then have "ScanLogGet x y (ScanLog e) = Some True" using that log [of x y] by (simp only: if_False)
      then have "mouse_wall e x y d = world_wall e x y d" using assms(2) unfolding knows_def by blast
      then show ?thesis using mono ab by auto
    qed (use cell ab in auto)
    moreover have "a \<longrightarrow> b" using sub ab by auto
    ultimately show ?thesis using ab by auto
  qed
  then show ?thesis using sub by (simp add: knows_def e1)
qed

lemma UpdateMap_ok:
  assumes "exploring n destX destY (e, st)"
  shows "\<exists>e'. UpdateMap st destX destY e = Some e' \<and> exploring n destX destY (e', st) \<and> WorldMap e' = WorldMap e \<and> WorldMapBuff e' = WorldMapBuff e"
proof -
  obtain x y dir moving where st: "st = (x, y, dir, moving)" by (cases st)
  have ex: "maps_ok n e" "knows e" "leads_to n destX destY (FloodMap e)" "mouse_ok (WorldMap e) (WorldMapBuff e) st" using assms by (simp_all add: exploring_def)
  note ok = maps_okD [OF ex(1)]
  show ?thesis
  proof (cases "x mod 2 = 0 \<or> y mod 2 = 0")
    case True
    then show ?thesis using assms st by (simp add: UpdateMap_def)
  next
    case False
    then have c: "at_center (WorldMap e) x y" using ex(4) st by (auto simp: mouse_ok_def at_edge_def parity split: if_splits)
    obtain wall where w: "world_wall e (x div 2) (y div 2) dir = Some wall" using wall_reads [OF ok(2)] by blast
    show ?thesis
    proof (cases wall)
      case True
      then show ?thesis using assms st False w by (simp add: UpdateMap_def)
    next
      case nowall: False
      obtain sx sy where s: "SubMoveTranslate x y dir 2 = (sx, sy)" by (cases "SubMoveTranslate x y dir 2")
      let ?x = "sx div 2" and ?y = "sy div 2"
      have kn: "\<forall>x y d. mouse_wall e x y d = Some True \<longrightarrow> world_wall e x y d = Some True" using ex(2) by (simp add: knows_def)
      obtain ch buf where i: "ScanWalls [NORTH, EAST, SOUTH, WEST] sx sy False e = Some (ch, e\<lparr>MouseMapBuff := buf\<rparr>)" "maps_ok n (e\<lparr>MouseMapBuff := buf\<rparr>)"
          "\<forall>x y d. MapGetWall x y d (MouseMap e) buf = Some True \<longrightarrow> world_wall e x y d = Some True"
          "\<forall>x y d. mouse_wall e x y d = Some True \<longrightarrow> MapGetWall x y d (MouseMap e) buf = Some True"
          "\<forall>d. world_wall e ?x ?y d = Some True \<longrightarrow> MapGetWall ?x ?y d (MouseMap e) buf = Some True"
        using ScanWalls_ok [OF ex(1) kn, of "[NORTH, EAST, SOUTH, WEST]" sx sy False] unfolding DIRECTION_all by blast
      have "?x < n \<and> ?y < n" using cell_ahead [OF ok(2) c _ s] w nowall ok(5,6) by simp
      then obtain log where log: "ScanLogSet ?x ?y True (ScanLog e) = Some log"
          "\<And>x' y'. ScanLogGet x' y' log = (if x' = ?x \<and> y' = ?y then Some True else ScanLogGet x' y' (ScanLog e))"
        using scan_log_set_get [of "ScanLog e" ?x ?y True] ok(8-10) by (auto simp: scan_room_def)
      define e1 where "e1 = e\<lparr>MouseMapBuff := buf, ScanLog := log\<rparr>"
      have shape: "length (sl_Flags log) = length (sl_Flags (ScanLog e))" "sl_Width log = n" "sl_Height log = n"
        using ScanLogSet_shape [OF log(1)] ok(9,10) by simp_all
      have m1: "maps_ok n e1" using i(2) shape ok(8-10) by (simp add: maps_ok_def e1_def scan_room_def)
      have k1: "knows e1" by (rule knows_scanned [OF ex(1,2) i(2-5) log(2) e1_def])
      obtain fm where fm: "(if ch then Reflood destX destY e1 else Some e1) = Some (e1\<lparr>FloodMap := fm\<rparr>)" "flood_room n fm" "leads_to n destX destY fm"
      proof (cases ch)
        case True
        then show ?thesis using that Reflood_ok [OF m1, of destX destY] by auto
      next
        case False
        then show ?thesis using that [of "FloodMap e"] ex(3) ok(7) by (simp add: e1_def)
      qed
      have "maps_ok n (e1\<lparr>FloodMap := fm\<rparr>)" "knows (e1\<lparr>FloodMap := fm\<rparr>)" using m1 k1 fm(2) by (simp_all add: maps_ok_def knows_def)
      moreover have "at_center (MouseMap e) x y" using c ok(3-6) by (simp add: at_center_def)
      ultimately have "exploring n destX destY (e1\<lparr>FloodMap := fm\<rparr>, st)" using fm(3) c st by (simp add: exploring_def mouse_ok_def e1_def)
      moreover have "UpdateMap st destX destY e = Some (e1\<lparr>FloodMap := fm\<rparr>)"
        using st False w nowall s i(1) log(1) fm(1) by (simp add: UpdateMap_def e1_def [symmetric] del: ScanWalls.simps)
      ultimately show ?thesis by (auto simp: e1_def)
    qed
  qed
qed

section \<open>The mouse does not run into walls\<close>

text \<open>The edge that the mouse is on is a wall's place, and that wall is one of the walls of the cell in front of the mouse.\<close>

lemma edge_of_cell:
  assumes "map_ok m buf" and "at_edge m buf x y dir" and "GetCell x y dir = (cx, cy)"
  shows "\<exists>d. wall_id cx cy d = wall_id (x div 2) (y div 2) (if dir \<in> {NORTH, SOUTH} then SOUTH else WEST)"
proof -
  have nc: "\<not> IS_CENTERED x y" using edge_not_center(1) [OF assms(2)] .
  note small = map_small [OF assms(1)]
  have up: "(w + 1) div 2 = w div 2" if "even (unat w)" "w div 2 < k" "unat k < 2 ^ 62" for w k :: INDEX
    using step_up [of w] that by (auto simp: word_unat_eq_iff word_less_nat_alt half)
  have down: "(w - 1) div 2 + 1 = w div 2" if "even (unat w)" "w div 2 \<noteq> 0" for w :: INDEX
  proof -
    have "w \<noteq> 0" using that(2) by auto
    then have "unat (w - 1) = unat w - 1" "0 < unat w" by (simp_all add: unat_pred_word unat_gt_0)
    moreover from this have "unat ((w - 1) div 2 + 1) = unat ((w - 1) div 2) + 1"
      using unat_less_64 [of w] that(1) by (intro unat_Suc_word) (auto simp: half)
    ultimately show ?thesis using that(1) by (auto simp: word_unat_eq_iff half elim!: evenE)
  qed
  have edge: "if dir \<in> {NORTH, SOUTH} then odd (unat x) \<and> even (unat y) \<and> y div 2 < map_Height m \<and> y div 2 \<noteq> 0
      else even (unat x) \<and> odd (unat y) \<and> x div 2 < map_Width m \<and> x div 2 \<noteq> 0"
    using assms(2) open_inside [OF assms(1), of "x div 2" "y div 2"] by (auto simp: at_edge_def split: if_splits)
  show ?thesis
  proof (cases dir)
    case NORTH
    then have "(cx, cy) = (x div 2, y div 2)" using assms(3) nc edge up [of y] small by (auto simp: GetCell_def SubMoveTranslate_def)
    then show ?thesis using NORTH by auto
  next
    case SOUTH
    then have "cx = x div 2" "cy + 1 = y div 2" using assms(3) nc edge down [of y] by (auto simp: GetCell_def SubMoveTranslate_def)
    then show ?thesis using SOUTH by (intro exI [of _ NORTH]) (simp add: wall_id_def MapAdjustX_def MapAdjustY_def)
  next
    case EAST
    then have "(cx, cy) = (x div 2, y div 2)" using assms(3) nc edge up [of x] small by (auto simp: GetCell_def SubMoveTranslate_def)
    then show ?thesis using EAST by auto
  next
    case WEST
    then have "cy = y div 2" "cx + 1 = x div 2" using assms(3) nc edge down [of x] by (auto simp: GetCell_def SubMoveTranslate_def)
    then show ?thesis using WEST by (intro exI [of _ EAST]) (simp add: wall_id_def MapAdjustX_def MapAdjustY_def)
  qed
qed

lemma known_edge:
  assumes "maps_ok n e" and "knows e" and edge: "at_edge (MouseMap e) (MouseMapBuff e) x y dir" and "MoveEndInScanned x y dir (ScanLog e) = Some True"
  shows "at_edge (WorldMap e) (WorldMapBuff e) x y dir"
proof -
  obtain cx cy where c: "GetCell x y dir = (cx, cy)" by (cases "GetCell x y dir")
  let ?d = "if dir \<in> {NORTH, SOUTH} then SOUTH else WEST"
  obtain d where d: "wall_id cx cy d = wall_id (x div 2) (y div 2) ?d" using edge_of_cell [OF maps_okD(1) [OF assms(1)] edge c] by blast
  have "ScanLogGet cx cy (ScanLog e) = Some True" using assms(4) c by (simp add: MoveEndInScanned_def)
  then have "mouse_wall e cx cy d = world_wall e cx cy d" using assms(2) unfolding knows_def by blast
  then have "mouse_wall e (x div 2) (y div 2) ?d = world_wall e (x div 2) (y div 2) ?d" using d by (simp add: wall_flag)
  then show ?thesis using edge by (auto simp: at_edge_def split: if_splits)
qed

lemma small_maze: "maps_ok n e \<Longrightarrow> n \<le> 8 \<Longrightarrow> mouse_ok (WorldMap e) (WorldMapBuff e) (x, y, dir, moving) \<Longrightarrow> \<not> (x > WIDTH * 2 \<or> y > HEIGHT * 2)"
proof -
  assume ok: "maps_ok n e" "n \<le> 8" "mouse_ok (WorldMap e) (WorldMapBuff e) (x, y, dir, moving)"
  have "x div 2 < n \<and> y div 2 < n"
    using ok(3) open_inside [OF maps_okD(2) [OF ok(1)], of "x div 2" "y div 2"] maps_okD(5,6) [OF ok(1)]
    by (auto simp: mouse_ok_def at_center_def at_edge_def split: if_splits)
  then have "unat x div 2 < 8" "unat y div 2 < 8" using ok(2) by (auto simp: word_less_nat_alt word_le_nat_alt half)
  then have "unat x < 16" "unat y < 16" by linarith+
  then show ?thesis by (simp add: word_less_nat_alt)
qed

lemma RunRound_ok:
  assumes "exploring n destX destY (e, st)" and "n \<le> 8"
  shows "\<exists>r e' st'. RunRound destX destY (e, st) = Some (r, e', st') \<and> exploring n destX destY (e', st') \<and>
    WorldMap e' = WorldMap e \<and> WorldMapBuff e' = WorldMapBuff e \<and> r \<in> {Going, Arrived, Not_possible_move} \<and>
    (r = Arrived \<longrightarrow> fst st' div 2 = destX \<and> fst (snd st') div 2 = destY)"
proof -
  obtain e1 where e1: "UpdateMap st destX destY e = Some e1" "exploring n destX destY (e1, st)" "WorldMap e1 = WorldMap e" "WorldMapBuff e1 = WorldMapBuff e"
    using UpdateMap_ok [OF assms(1)] by blast
  obtain x y dir moving where st: "st = (x, y, dir, moving)" by (cases st)
  have ex: "maps_ok n e1" "knows e1" "leads_to n destX destY (FloodMap e1)" "mouse_ok (MouseMap e1) (MouseMapBuff e1) st"
    "mouse_ok (WorldMap e1) (WorldMapBuff e1) st" using e1(2) by (simp_all add: exploring_def)
  note ok = maps_okD [OF ex(1)]
  obtain best where b: "SubMoveFindBest st (FloodMap e1) (MouseMap e1) (MouseMapBuff e1) (ScanLog e1) = Some best"
      "best \<noteq> SUB_MOVE_DONE \<Longrightarrow> SubMoveLegal st best (MouseMap e1) (MouseMapBuff e1) (ScanLog e1) (FloodMap e1) = Some True"
      "best \<noteq> SUB_MOVE_DONE \<Longrightarrow> mouse_ok (MouseMap e1) (MouseMapBuff e1) (SubMoveApply st best)"
    using sub_move_safe [OF ok(1,7,8) ex(4)] by blast
  have inb: "\<not> (x > WIDTH * 2 \<or> y > HEIGHT * 2)" using small_maze [OF ex(1) assms(2)] ex(5) st by blast
  note reads = flood_reads [OF ok(7)]
  show ?thesis
  proof (cases "best = SUB_MOVE_DONE")
    case True
    obtain v where "FloodFillGet (x div 2) (y div 2) (FloodMap e1) = Some v" using reads by blast
    then have "RunRound destX destY (e, st) = Some (Not_possible_move, e1, st)" using True e1(1) b(1) inb by (simp add: RunRound_def st)
    then show ?thesis using e1 by simp
  next
    case False
    obtain x' y' dir' moving' where st': "SubMoveApply st best = (x', y', dir', moving')" by (cases "SubMoveApply st best")
    have m': "mouse_ok (MouseMap e1) (MouseMapBuff e1) (x', y', dir', moving')" using b(3) [OF False] st' by simp
    have "MoveEndInScanned x' y' dir' (ScanLog e1) = Some True" using b(2) [OF False] st st' by (simp add: SubMoveLegal_def)
    then have "mouse_ok (WorldMap e1) (WorldMapBuff e1) (x', y', dir', moving')"
      using m' known_edge [OF ex(1,2)] ok(3-6) by (auto simp: mouse_ok_def at_center_def)
    then have ex': "exploring n destX destY (e1, (x', y', dir', moving'))" using ex m' by (simp add: exploring_def)
    obtain v0 v1 v where v: "FloodFillGet (x div 2) (y div 2) (FloodMap e1) = Some v0" "FloodFillGet x' y' (FloodMap e1) = Some v1"
        "FloodFillGet (x' div 2) (y' div 2) (FloodMap e1) = Some v" using reads by metis
    have "RunRound destX destY (e, st) = Some (if v \<noteq> 0 then Going else Arrived, e1, (x', y', dir', moving'))"
      using False e1(1) b(1) inb v st' by (simp add: RunRound_def st)
    moreover have "v = 0 \<longrightarrow> (x' div 2, y' div 2) = (destX, destY)" using v(3) ex(3) unfolding leads_to_def by blast
    ultimately show ?thesis using ex' e1(3,4) by auto
  qed
qed

section \<open>A run of the program\<close>

text \<open>At most \<open>k\<close> rounds of the loop.\<close>

primrec run_rounds :: "nat \<Rightarrow> INDEX \<Rightarrow> INDEX \<Rightarrow> explore \<times> mouse \<Rightarrow> (run_state \<times> explore \<times> mouse) option" where
  "run_rounds 0 destX destY est = Some (Going, est)"
| "run_rounds (Suc k) destX destY est =
     do { (r, est) \<leftarrow> RunRound destX destY est; if r = Going then run_rounds k destX destY est else Some (r, est) }"

lemma RunLoop_rounds:
  assumes "run_rounds k destX destY est = Some (r, est')" and "r \<noteq> Going"
  shows "RunLoop destX destY est = Some (r, est')"
  using assms
proof (induction k arbitrary: est)
  case (Suc k)
  then show ?case by (subst RunLoop.simps) (auto simp: bind_Some_iff split: if_splits)
qed simp

lemma run_rounds_ok:
  assumes "exploring n destX destY (e, st)" and "n \<le> 8"
  shows "\<exists>r e' st'. run_rounds k destX destY (e, st) = Some (r, e', st') \<and> exploring n destX destY (e', st') \<and>
    WorldMap e' = WorldMap e \<and> WorldMapBuff e' = WorldMapBuff e \<and> r \<in> {Going, Arrived, Not_possible_move} \<and>
    (r = Arrived \<longrightarrow> fst st' div 2 = destX \<and> fst (snd st') div 2 = destY)"
  using assms(1)
proof (induction k arbitrary: e st)
  case (Suc k)
  obtain r e1 st1 where r: "RunRound destX destY (e, st) = Some (r, e1, st1)" "exploring n destX destY (e1, st1)" "WorldMap e1 = WorldMap e"
      "WorldMapBuff e1 = WorldMapBuff e" "r \<in> {Going, Arrived, Not_possible_move}" "r = Arrived \<longrightarrow> fst st1 div 2 = destX \<and> fst (snd st1) div 2 = destY"
    using RunRound_ok [OF Suc.prems assms(2)] by blast
  show ?case
  proof (cases "r = Going")
    case True
    then show ?thesis using Suc.IH [OF r(2)] r(1,3,4) by auto
  next
    case False
    then show ?thesis using r by auto
  qed
qed simp

text \<open>The run ends before the destination only where the choice of a move gives none.\<close>

lemma RunRound_gives_up:
  assumes "RunRound destX destY est = Some (Not_possible_move, e', st')"
  shows "SubMoveFindBest st' (FloodMap e') (MouseMap e') (MouseMapBuff e') (ScanLog e') = Some SUB_MOVE_DONE"
  using assms by (auto simp: RunRound_def Let_def split: bind_splits prod.splits if_splits)

lemma run_rounds_gives_up:
  assumes "run_rounds k destX destY est = Some (Not_possible_move, e', st')"
  shows "SubMoveFindBest st' (FloodMap e') (MouseMap e') (MouseMapBuff e') (ScanLog e') = Some SUB_MOVE_DONE"
  using assms by (induction k arbitrary: est) (auto simp: RunRound_gives_up split: bind_splits if_splits)

text \<open>The rounds of \<^verbatim>\<open>RunMoves\<close> from a cell of the maze.\<close>

definition RunMoves_rounds ::
  "nat \<Rightarrow> INDEX \<Rightarrow> INDEX \<Rightarrow> DIRECTION \<Rightarrow> INDEX \<Rightarrow> INDEX \<Rightarrow> explore \<Rightarrow> (run_state \<times> explore \<times> mouse) option" where
  "RunMoves_rounds k startX startY startDir destX destY e =
     do { e \<leftarrow> Reflood destX destY e; run_rounds k destX destY (e, (startX * 2 + 1, startY * 2 + 1, startDir, False)) }"

lemma start_center: "map_ok m buf \<Longrightarrow> x < map_Width m \<Longrightarrow> y < map_Height m \<Longrightarrow> at_center m (x * 2 + 1) (y * 2 + 1)"
proof -
  assume m: "map_ok m buf" and x: "x < map_Width m" and y: "y < map_Height m"
  have odd: "unat (w * 2 + 1) = unat w * 2 + 1" if "w < k" "unat k < 2 ^ 62" for w k :: INDEX
    using that by (simp add: unat_word_ariths word_less_nat_alt)
  have "(x * 2 + 1) div 2 = x" "(y * 2 + 1) div 2 = y" using odd x y map_small [OF m] by (auto simp: word_unat_eq_iff half)
  then show ?thesis using odd [OF x] odd [OF y] map_small [OF m] x y by (simp add: at_center_def)
qed

section \<open>The sample maze\<close>

lemma sub_bits:
  assumes "length a = length b" and "\<forall>i<length a. a ! i AND b ! i = a ! i" and "k < length a * 32" and "bit_of a k"
  shows "bit_of b k"
proof -
  have "k div 32 < length a" using assms(3) by (simp add: less_mult_imp_div_less)
  then have e: "a ! (k div 32) AND b ! (k div 32) = a ! (k div 32)" using assms(2) by blast
  have "bit (a ! (k div 32) AND b ! (k div 32)) (k mod 32)" unfolding e using assms(4) by (simp add: bit_of_def)
  then show ?thesis by (simp add: bit_of_def bit_and_iff)
qed

lemma fewer_walls:
  assumes "maps_ok n e" and "length (MouseMapBuff e) = length (WorldMapBuff e)"
    and "\<forall>i<length (MouseMapBuff e). MouseMapBuff e ! i AND WorldMapBuff e ! i = MouseMapBuff e ! i" and "mouse_wall e x y d = Some True"
  shows "world_wall e x y d = Some True"
proof -
  note ok = maps_okD [OF assms(1)]
  have h: "map_VWalls m = 0 \<and> map_HWalls m = MapDimensionSizeNeeded (map_Width m) (map_Height m)" if "map_ok m buf" for m buf
    using that unfolding map_ok_def by blast
  have same: "MouseMap e = WorldMap e" by (rule MAP.equality) (use ok(3-6) h [OF ok(1)] h [OF ok(2)] in simp_all)
  let ?w = "wall_id x y d"
  show ?thesis
  proof (cases "inner (MouseMap e) ?w")
    case True
    then have "bit_of (MouseMapBuff e) (slot (MouseMap e) ?w)" using assms(4) MapGetWall_slot [OF ok(1), of x y d] by simp
    then have "bit_of (WorldMapBuff e) (slot (MouseMap e) ?w)" by (rule sub_bits [OF assms(2,3) slot_bounds(1) [OF ok(1) True]])
    then show ?thesis using MapGetWall_slot [OF ok(2), of x y d] same by simp
  next
    case False
    then show ?thesis using MapGetWall_slot [OF ok(2), of x y d] same by simp
  qed
qed

definition zeroed :: explore where
  "zeroed = \<lparr>MouseMap = map4, MouseMapBuff = replicate 4 0, WorldMap = map4, WorldMapBuff = replicate 4 0,
     FloodMap = \<lparr>fm_Width = 0, fm_Height = 0, fm_FloodMap = replicate 64 0, fm_EventMap = replicate 2 0\<rparr>,
     ScanLog = \<lparr>sl_Width = 0, sl_Height = 0, sl_Flags = replicate 2 0\<rparr>\<rparr>"

definition sample_maze :: explore where
  "sample_maze = \<lparr>MouseMap = \<lparr>map_VWalls = 0, map_HWalls = 2, map_Height = 8, map_Width = 8\<rparr>, MouseMapBuff = [1, 0, 0, 0],
     WorldMap = \<lparr>map_VWalls = 0, map_HWalls = 2, map_Height = 8, map_Width = 8\<rparr>, WorldMapBuff = [3313500161, 35074, 1716295954, 33074],
     FloodMap = \<lparr>fm_Width = 8, fm_Height = 8, fm_FloodMap = replicate 64 0, fm_EventMap = [0, 0]\<rparr>,
     ScanLog = \<lparr>sl_Width = 8, sl_Height = 8, sl_Flags = [1, 0]\<rparr>\<rparr>"

lemma sample_maze_setup: "movetest_setup zeroed = Some sample_maze"
  by code_simp

lemma sample_maze_ok: "maps_ok 8 sample_maze"
  by (simp add: maps_ok_def sample_maze_def map_ok_def flood_room_def scan_room_def MapDimensionSizeNeeded_def MapBitsNeeded_def BitmapSize_def)

lemma sample_maze_scanned: "ScanLogGet x y (ScanLog sample_maze) = Some True \<Longrightarrow> (x, y) = (0, 0)"
proof -
  let ?l = "\<lparr>sl_Width = 8, sl_Height = 8, sl_Flags = [0, 0]\<rparr>"
  assume s: "ScanLogGet x y (ScanLog sample_maze) = Some True"
  obtain l where l: "ScanLogSet 0 0 True ?l = Some l" "\<And>x y. ScanLogGet x y l = (if x = 0 \<and> y = 0 then Some True else ScanLogGet x y ?l)"
    using scan_log_set_get [of ?l 0 0 True] by auto
  have "ScanLogSet 0 0 True ?l = Some (ScanLog sample_maze)" by code_simp
  then have "ScanLogGet x y ?l = Some True \<or> (x, y) = (0, 0)" using l s by (auto split: if_splits)
  moreover have "ScanLogGet x y ?l \<noteq> Some True"
    by (auto simp: ScanLogGet_def BitmapGet_def word_at_def bind_Some_iff nth_Cons' split: if_splits)
  ultimately show ?thesis by blast
qed

lemma sample_maze_knows: "knows sample_maze"
  unfolding knows_def
proof (intro conjI allI impI)
  fix x y d
  show "world_wall sample_maze x y d = Some True" if "mouse_wall sample_maze x y d = Some True"
  proof (rule fewer_walls [OF sample_maze_ok _ _ that])
    show "length (MouseMapBuff sample_maze) = length (WorldMapBuff sample_maze)" by (simp add: sample_maze_def)
    show "\<forall>i<length (MouseMapBuff sample_maze). MouseMapBuff sample_maze ! i AND WorldMapBuff sample_maze ! i = MouseMapBuff sample_maze ! i"
      by (simp add: sample_maze_def nth_Cons' less_Suc_eq)
  qed
  assume "ScanLogGet x y (ScanLog sample_maze) = Some True"
  then have "x = 0" "y = 0" using sample_maze_scanned by blast+
  moreover have "\<forall>d\<in>set [NORTH, EAST, SOUTH, WEST]. mouse_wall sample_maze 0 0 d = world_wall sample_maze 0 0 d" by code_simp
  ultimately show "mouse_wall sample_maze x y d = world_wall sample_maze x y d" unfolding DIRECTION_all by blast
qed

section \<open>Properties\<close>

text \<open>
  (C33) The mouse explores a maze that it does not know without running into a wall: started in the middle of any
  cell, facing any direction, with a map that shows no wall that is not there and shows all walls of the
  cells that are marked as scanned, it can make any number of rounds of scanning, filling the flood map, choosing a
  move and making it. No assertion fails and no access leaves the maps; after every round the mouse is in the middle of a cell of the
  maze or moving over an edge where the maze, not only the mouse's map, has no wall; its map is still true; it is
  never out of bounds. The loop ends only with the mouse in the cell of the destination or on the edge before it, at half of its coordinates
  (\<open>run_ends_on_edge\<close>), or because the choice of a move gives none. That happens only if every legal move leads to a cell with the flood
  value 255, that of a cell from which the flood map knows no way to the destination; it may happen although a move is legal
  (\<open>gives_up_with_legal_move\<close>). The maze is square, with at most 8 by 8 cells.
\<close>

theorem explore_safe:
  assumes "maps_ok n e" and "knows e" and "n \<le> 8" and "startX < n" and "startY < n"
  shows "\<exists>r e' x y dir moving. RunMoves_rounds k startX startY startDir destX destY e = Some (r, e', (x, y, dir, moving)) \<and>
    mouse_ok (WorldMap e) (WorldMapBuff e) (x, y, dir, moving) \<and> WorldMapBuff e' = WorldMapBuff e \<and> maps_ok n e' \<and> knows e' \<and>
    r \<in> {Going, Arrived, Not_possible_move} \<and> (r = Arrived \<longrightarrow> x div 2 = destX \<and> y div 2 = destY) \<and>
    (r = Not_possible_move \<longrightarrow>
       SubMoveFindBest (x, y, dir, moving) (FloodMap e') (MouseMap e') (MouseMapBuff e') (ScanLog e') = Some SUB_MOVE_DONE \<and>
       (\<forall>c. c \<noteq> SUB_MOVE_DONE \<and> SubMoveLegal (x, y, dir, moving) c (MouseMap e') (MouseMapBuff e') (ScanLog e') (FloodMap e') = Some True \<longrightarrow>
          (\<exists>g. SubMoveGather (x, y, dir, moving) c (FloodMap e') (MouseMap e') (MouseMapBuff e') = Some g \<and> bm_Flood g = 255))) \<and>
    (r \<noteq> Going \<longrightarrow> do { e \<leftarrow> Reflood destX destY e; RunLoop destX destY (e, (startX * 2 + 1, startY * 2 + 1, startDir, False)) } =
       Some (r, e', (x, y, dir, moving)))"
proof -
  note ok = maps_okD [OF assms(1)]
  obtain fm where fm: "Reflood destX destY e = Some (e\<lparr>FloodMap := fm\<rparr>)" "flood_room n fm" "leads_to n destX destY fm"
    using Reflood_ok [OF assms(1)] by blast
  let ?e = "e\<lparr>FloodMap := fm\<rparr>" and ?st = "(startX * 2 + 1, startY * 2 + 1, startDir, False)"
  have "at_center (MouseMap e) (startX * 2 + 1) (startY * 2 + 1)" "at_center (WorldMap e) (startX * 2 + 1) (startY * 2 + 1)"
    using start_center [OF ok(1)] start_center [OF ok(2)] assms(4,5) ok(3-6) by simp_all
  then have "exploring n destX destY (?e, ?st)" using assms(1,2) fm(2,3) by (simp add: exploring_def maps_ok_def knows_def mouse_ok_def)
  from run_rounds_ok [OF this assms(3), of k] obtain r e' st' where r: "run_rounds k destX destY (?e, ?st) = Some (r, e', st')"
      "exploring n destX destY (e', st')" "WorldMap e' = WorldMap e" "WorldMapBuff e' = WorldMapBuff e" "r \<in> {Going, Arrived, Not_possible_move}"
      "r = Arrived \<longrightarrow> fst st' div 2 = destX \<and> fst (snd st') div 2 = destY"
    by auto
  obtain x y dir moving where st': "st' = (x, y, dir, moving)" by (cases st')
  note best = run_rounds_gives_up [of k destX destY "(?e, ?st)" e' st']
  have no: "r = Not_possible_move \<longrightarrow> SubMoveFindBest st' (FloodMap e') (MouseMap e') (MouseMapBuff e') (ScanLog e') = Some SUB_MOVE_DONE \<and>
      (\<forall>c. c \<noteq> SUB_MOVE_DONE \<and> SubMoveLegal st' c (MouseMap e') (MouseMapBuff e') (ScanLog e') (FloodMap e') = Some True \<longrightarrow>
         (\<exists>g. SubMoveGather st' c (FloodMap e') (MouseMap e') (MouseMapBuff e') = Some g \<and> bm_Flood g = 255))"
    using best SubMoveFindBest_done r(1) by blast
  show ?thesis
    using r no fm(1) RunLoop_rounds [OF r(1)] unfolding st'
    by (intro exI [of _ r] exI [of _ e'] exI [of _ x] exI [of _ y] exI [of _ dir] exI [of _ moving]) (simp add: RunMoves_rounds_def exploring_def)
qed

theorem explore_safe_witness:
  "\<exists>e r e' st. movetest_setup zeroed = Some e \<and> RunMoves_rounds 1000 0 0 NORTH (WIDTH div 2) (HEIGHT div 2) e = Some (r, e', st) \<and>
     mouse_ok (WorldMap e) (WorldMapBuff e) st \<and> knows e'"
  using explore_safe [OF sample_maze_ok sample_maze_knows, of 0 0 1000 NORTH "WIDTH div 2" "HEIGHT div 2"] sample_maze_setup by auto

text \<open>
  The loop of \<^verbatim>\<open>RunMoves\<close> reads the flood value at half the coordinates also when the mouse is on an edge, where that is the
  cell to the north or to the east of the edge: a mouse that goes north or east into the destination ends its run on
  the edge, and the program exits with the message that it is not in the centre.
\<close>

lemma run_ends_on_edge:
  "map_option (\<lambda>(r, e, st). (r, st)) (RunRound 0 3 (\<lparr>MouseMap = map4, MouseMapBuff = [0, 0], WorldMap = map4, WorldMapBuff = [0, 0], FloodMap = flooded4, ScanLog = scan4\<rparr>, (1, 5, NORTH, False))) =
     Some (Arrived, (1, 6, NORTH, True))"
  by code_simp

text \<open>
  A move that leads to a cell without a way to the destination, facing another one behind a wall, without a turn, loses against the initial value of the
  choice. In a maze of 2 by 2 cells whose left and right column are separated by walls, the mouse in (0, 0) that is sent to (1, 1)
  could go north, but the choice is to give up.
\<close>

definition scan2 :: SCAN_LOG where
  "scan2 = \<lparr>sl_Width = 2, sl_Height = 2, sl_Flags = [0xFFFF]\<rparr>"

lemma gives_up_with_legal_move:
  "do { (_, m, buf) \<leftarrow> MapInit map4 [0, 0] (MapSizeNeeded 2 2) 2 2;
        buf \<leftarrow> MapSetWall 0 0 EAST True m buf; buf \<leftarrow> MapSetWall 0 1 EAST True m buf;
        fm \<leftarrow> FloodFillClear \<lparr>fm_Width = 2, fm_Height = 2, fm_FloodMap = [0, 0, 0, 0], fm_EventMap = [0]\<rparr>;
        fm \<leftarrow> FloodFillSetDestination 1 1 fm; (ended, fm) \<leftarrow> flood_rounds 9 m buf fm;
        best \<leftarrow> SubMoveFindBest (1, 1, NORTH, False) fm m buf scan2;
        legal \<leftarrow> SubMoveLegal (1, 1, NORTH, False) SUB_MOVE_START m buf scan2 fm;
        Some (ended, best, legal) } = Some (True, SUB_MOVE_DONE, True)"
  by code_simp

end
