(* ===== verification/Startup.thy ===== *)
theory Startup
  imports Locks
begin

text \<open>
  The start of the kernel, \<^verbatim>\<open>src/kernel/startup.c\<close>: \<^verbatim>\<open>KernelInit\<close> sets up the interrupt
  tables with all interrupts disabled and registers the handlers of the kernel; the application then
  starts the scheduler and creates its threads; \<^verbatim>\<open>KernelStart\<close> enables the interrupts and sleeps
  forever. The theory shows that this establishes the invariants the other theories assume.
\<close>

section \<open>Operations\<close>

definition HalStartup :: "'a hal_state_scheme \<Rightarrow> 'a hal_state_scheme" where
  "HalStartup s = s"

definition KernelInit :: "'a timer_state_scheme \<Rightarrow> 'a timer_state_scheme option" where
  "KernelInit s =
     do {
       let s = HalStartup s;
       let s = IsrStartup s;
       let s = IsrDisable IRQ_LEVEL_MAX s;
       s \<leftarrow> CritInterruptStartup s;
       s \<leftarrow> SoftInterruptStartup s;
       s \<leftarrow> HalRegisterIsrHandler HAL_ISR_RESET IRQ_LEVEL_RESET s;
       TimerStartup s
     }"

text \<open>\<^verbatim>\<open>pause()\<close> returns when a signal has been handled; what that does to the state is an
  argument.\<close>

definition HalSleepProcessor ::
    "('a hal_state_scheme \<Rightarrow> 'a hal_state_scheme option) \<Rightarrow> 'a hal_state_scheme \<Rightarrow> 'a hal_state_scheme option" where
  "HalSleepProcessor pause s = do { ASSERT (\<not> HalIsIrqAtomic IRQ_LEVEL_TIMER s); pause s }"

text \<open>The loop of \<^verbatim>\<open>KernelStart\<close> has no end; \<open>n\<close> passes of it.\<close>

primrec KernelStartLoop ::
    "nat \<Rightarrow> ('a hal_state_scheme \<Rightarrow> 'a hal_state_scheme option) \<Rightarrow> 'a hal_state_scheme \<Rightarrow> 'a hal_state_scheme option" where
  "KernelStartLoop 0 pause s = Some s"
| "KernelStartLoop (Suc n) pause s = do { s \<leftarrow> HalSleepProcessor pause s; KernelStartLoop n pause s }"

definition KernelStart ::
    "nat \<Rightarrow> ('a isr_state_scheme \<Rightarrow> 'a isr_state_scheme option) \<Rightarrow> 'a isr_state_scheme \<Rightarrow> 'a isr_state_scheme option" where
  "KernelStart n pause s =
     do {
       ASSERT (HalIsIrqAtomic IRQ_LEVEL_MAX s);
       s \<leftarrow> IsrEnable IRQ_LEVEL_MAX s;
       ASSERT (\<not> HalIsIrqAtomic IRQ_LEVEL_MAX s);
       KernelStartLoop n pause s
     }"

section \<open>Registering handlers at start-up\<close>

text \<open>During the start every interrupt is disabled once, by the count of \<^verbatim>\<open>IRQ_LEVEL_MAX\<close>.\<close>

definition starting :: "'a isr_state_scheme \<Rightarrow> bool" where
  "starting s \<longleftrightarrow> isr_ok s \<and> IsrDisabledCount s = (\<lambda>_. 0)(IRQ_LEVEL_MAX := 1)"

lemma starting_top: "isr_top ((\<lambda>_. 0)(IRQ_LEVEL_MAX := 1)) = IRQ_LEVEL_MAX"
  by (simp add: isr_top_def numeral_eq_Suc)

lemma starting_atomic:
  assumes "starting s" and "l \<le> IRQ_LEVEL_MAX"
  shows "HalIsIrqAtomic l s"
proof -
  have ok: "hal_ok s" "sig_mask s = HalIrqToMask s IRQ_LEVEL_MAX"
    using assms(1) starting_top by (simp_all add: starting_def isr_ok_def)
  have "HalIrqToMask s l \<subseteq> HalIrqToMask s IRQ_LEVEL_MAX"
    by (rule hal_ok_mono) (use ok assms(2) in auto)
  then show ?thesis
    using assms(2) ok by (subst HalIsIrqAtomic_subset) auto
qed

lemma HalIsrFinalize_action: "\<exists>a. HalIsrFinalize s = s\<lparr>sig_action := a\<rparr>"
proof -
  let ?f = "\<lambda>level (s :: 'a hal_state_scheme). if HalIrqToSignal s level \<noteq> 0
        then s\<lparr>sig_action := (sig_action s)(HalIrqToSignal s level \<mapsto> HalIrqToMask s level)\<rparr> else s"
  have "\<exists>a. fold ?f xs t = t\<lparr>sig_action := a\<rparr>" for xs t
  proof (induction xs arbitrary: t)
    case Nil
    show ?case by (rule exI [of _ "sig_action t"]) simp
  next
    case (Cons x xs)
    obtain a where "fold ?f xs (?f x t) = (?f x t)\<lparr>sig_action := a\<rparr>" using Cons.IH by blast
    then show ?case by (intro exI [of _ a]) simp
  qed
  then show ?thesis unfolding HalIsrFinalize_def by blast
qed

definition blocked_from :: "signum \<Rightarrow> IRQ_LEVEL \<Rightarrow> (IRQ_LEVEL \<Rightarrow> signum set) \<Rightarrow> IRQ_LEVEL \<Rightarrow> signum set" where
  "blocked_from which level m = (\<lambda>i. if level \<le> i \<and> i < IRQ_LEVEL_COUNT then insert which (m i) else m i)"

text \<open>Registering a handler changes the tables of the hardware layer and nothing else.\<close>

lemma register_starting:
  assumes "starting s" and "1 \<le> which" and "which < NSIG" and "level < IRQ_LEVEL_COUNT"
  shows "\<exists>s'. HalRegisterIsrHandler which level s = Some s' \<and> starting s' \<and> isr_state.more s' = isr_state.more s \<and>
     IsrHandlerTable s' = IsrHandlerTable s \<and>
     HalIrqToMask s' = blocked_from which level (HalIrqToMask s)"
proof -
  let ?m = "blocked_from which level (HalIrqToMask s)"
  let ?s1 = "s\<lparr>HalIrqToMask := ?m, HalIrqToSignal := (HalIrqToSignal s)(level := which),
         HalSignalHandled := (HalSignalHandled s)(which := True),
         HalSignalToIrq := (HalSignalToIrq s)(which := level),
         HalIrqHandled := (HalIrqHandled s)(level := True)\<rparr>"
  obtain a where a: "HalIsrFinalize ?s1 = ?s1\<lparr>sig_action := a\<rparr>" using HalIsrFinalize_action by blast
  let ?s' = "?s1\<lparr>sig_action := a, sig_mask := ?m IRQ_LEVEL_MAX\<rparr>"
  have reg: "HalRegisterIsrHandler which level s = Some ?s'"
    using starting_atomic [OF assms(1), of IRQ_LEVEL_MAX] a by (simp add: HalRegisterIsrHandler_def HalSetIrq_def blocked_from_def)
  have "hal_ok ?s'"
    using hal_ok_register [OF _ reg assms(2,3)] assms(1) by (simp add: starting_def isr_ok_def)
  then have "starting ?s'"
    using assms(1) starting_top by (simp add: starting_def isr_ok_def)
  then show ?thesis using reg by simp
qed

lemma starting_fields [simp]:
  "starting (s\<lparr>IsrHandlerTable := t\<rparr>) = starting s"
  by (simp add: starting_def isr_ok_def hal_ok_def)

lemma starting_handler_fields [simp]:
  "starting (r\<lparr>CritInterruptHandlerList := q\<rparr>) = starting r" "starting (r\<lparr>SoftInterruptHandlerList := q\<rparr>) = starting r"
  "starting (HalInitClock r) = starting r"
  by (simp_all add: starting_def isr_ok_def hal_ok_def HalInitClock_def)

lemma starting_timer_fields [simp]:
  "starting (r\<lparr>TimerLastTime := tm\<rparr>) = starting r" "starting (r\<lparr>TimerHeap1 := hp\<rparr>) = starting r"
  "starting (r\<lparr>TimerHeap2 := hp\<rparr>) = starting r" "starting (r\<lparr>Timers := p\<rparr>) = starting r"
  "starting (r\<lparr>TimersOverflow := p\<rparr>) = starting r" "starting (HalSetTimer d r) = starting r"
  by (simp_all add: starting_def isr_ok_def hal_ok_def HalSetTimer_def Let_def)

lemma isr_register_starting:
  assumes "starting s" and "1 \<le> which" and "which < NSIG" and "level < IRQ_LEVEL_COUNT"
  shows "\<exists>s'. IsrRegisterHandler h which level s = Some s' \<and> starting s' \<and> isr_state.more s' = isr_state.more s \<and>
     IsrHandlerTable s' = (IsrHandlerTable s)(level \<mapsto> h) \<and>
     HalIrqToMask s' = blocked_from which level (HalIrqToMask s)"
  using register_starting [of "s\<lparr>IsrHandlerTable := (IsrHandlerTable s)(level \<mapsto> h)\<rparr>" which level] assms
  by (simp add: IsrRegisterHandler_def)

lemma handler_more:
  "isr_state.more s' = isr_state.more s \<Longrightarrow> Handlers s' = Handlers s \<and>
     CritInterruptHandlerList s' = CritInterruptHandlerList s \<and> SoftInterruptHandlerList s' = SoftInterruptHandlerList s \<and>
     handler_state.more s' = handler_state.more s" for s :: "'a handler_state_scheme"
  by (cases s; cases s') simp

lemma timer_more:
  "handler_state.more s' = handler_state.more s \<Longrightarrow> TimerLinks s' = TimerLinks s \<and> TimerHeap1 s' = TimerHeap1 s \<and>
     TimerHeap2 s' = TimerHeap2 s \<and> Timers s' = Timers s \<and> TimersOverflow s' = TimersOverflow s \<and>
     TimerLastTime s' = TimerLastTime s \<and> timer_state.more s' = timer_state.more s" for s :: "'a timer_state_scheme"
  by (cases s; cases s') simp

lemma sched_more:
  "timer_state.more s' = timer_state.more s \<Longrightarrow> Threads s' = Threads s \<and> Contexts s' = Contexts s"
  for s :: "'a sched_state_scheme"
  by (cases s; cases s') simp

lemma first_disable:
  assumes "\<forall>l\<ge>IRQ_LEVEL_COUNT. IsrDisabledCount s l = 0"
  shows "starting (IsrDisable IRQ_LEVEL_MAX (IsrStartup s))"
    "isr_state.more (IsrDisable IRQ_LEVEL_MAX (IsrStartup s)) = isr_state.more s"
    "HalIrqToMask (IsrDisable IRQ_LEVEL_MAX (IsrStartup s)) = HalIrqToMask (HalIsrInit s)"
proof -
  let ?s = "IsrStartup s"
  have c: "IsrDisabledCount ?s l = 0" for l
    using assms by (simp add: IsrStartup_def)
  have eq: "IsrDisable IRQ_LEVEL_MAX ?s = set_counts ((\<lambda>_. 0)(IRQ_LEVEL_MAX := 1)) ?s"
    using c unfolding IsrDisable_def IsrDefer_def set_counts_def IsrDeferLoop_top HalSetIrq_def
    by (auto simp: isr_top_def numeral_eq_Suc fun_eq_iff)
  have "hal_ok ?s" using hal_ok_init [of s] by (simp add: IsrStartup_def hal_ok_def)
  then show "starting (IsrDisable IRQ_LEVEL_MAX ?s)"
    unfolding eq using starting_top by (simp add: starting_def set_counts_def isr_ok_def hal_ok_def)
  show "isr_state.more (IsrDisable IRQ_LEVEL_MAX ?s) = isr_state.more s"
    "HalIrqToMask (IsrDisable IRQ_LEVEL_MAX (IsrStartup s)) = HalIrqToMask (HalIsrInit s)"
    unfolding eq by (simp_all add: set_counts_def IsrStartup_def HalIsrInit_def HalBlockSignal_def HalClearSignals_def)
qed

section \<open>The state after \<^verbatim>\<open>KernelInit\<close>\<close>

text \<open>The signals blocked at each level.\<close>

definition kernel_masks :: "IRQ_LEVEL \<Rightarrow> signum set" where
  "kernel_masks l = {HAL_ISR_TRAMPOLINE} \<union> (if IRQ_LEVEL_CRIT \<le> l then {HAL_ISR_CRIT} else {}) \<union>
     (if IRQ_LEVEL_SOFT \<le> l then {HAL_ISR_SOFT} else {}) \<union> (if IRQ_LEVEL_TIMER \<le> l then {HAL_ISR_TIMER} else {}) \<union>
     (if IRQ_LEVEL_RESET \<le> l then {HAL_ISR_RESET} else {})"

lemma TimerStartup_ok:
  assumes "starting s" and "CritInterruptHandlerList s = []" and "SoftInterruptHandlerList s = []"
  shows "\<exists>s'. TimerStartup s = Some s' \<and> starting s' \<and> timers_ok {} {} s' \<and>
     HalIrqToMask s' = blocked_from HAL_ISR_TIMER IRQ_LEVEL_TIMER (HalIrqToMask s) \<and>
     IsrHandlerTable s' = (IsrHandlerTable s)(IRQ_LEVEL_TIMER \<mapsto> TimerInterrupt_isr) \<and>
     CritInterruptHandlerList s' = [] \<and> SoftInterruptHandlerList s' = [] \<and> Handlers s' = Handlers s \<and>
     TimerLinks s' = TimerLinks s \<and> timer_state.more s' = timer_state.more s"
proof -
  define t where "t = (HalInitClock s)\<lparr>TimerLastTime := TimeGet (HalInitClock s), TimerHeap1 := HeapInit (TimerHeap1 s),
      TimerHeap2 := HeapInit (TimerHeap2 s), Timers := TimerHeap1_p, TimersOverflow := TimerHeap2_p\<rparr>"
  have t: "starting t" "HalIrqToMask t = HalIrqToMask s" "IsrHandlerTable t = IsrHandlerTable s"
    "CritInterruptHandlerList t = []" "SoftInterruptHandlerList t = []" "Handlers t = Handlers s"
    "TimerLinks t = TimerLinks s" "timer_state.more t = timer_state.more s"
    using assms unfolding t_def by (simp, simp_all add: HalInitClock_def)
  obtain u where u: "IsrRegisterHandler TimerInterrupt_isr HAL_ISR_TIMER IRQ_LEVEL_TIMER t = Some u" "starting u"
    "isr_state.more u = isr_state.more t" "IsrHandlerTable u = (IsrHandlerTable t)(IRQ_LEVEL_TIMER \<mapsto> TimerInterrupt_isr)"
    "HalIrqToMask u = blocked_from HAL_ISR_TIMER IRQ_LEVEL_TIMER (HalIrqToMask t)"
    using isr_register_starting [OF t(1), of HAL_ISR_TIMER IRQ_LEVEL_TIMER TimerInterrupt_isr] by auto
  have m: "Handlers u = Handlers t" "CritInterruptHandlerList u = []" "SoftInterruptHandlerList u = []"
    "handler_state.more u = handler_state.more t" using handler_more [OF u(3)] t by simp_all
  have n: "TimerLinks u = TimerLinks t" "TimerHeap1 u = HeapInit (TimerHeap1 s)" "TimerHeap2 u = HeapInit (TimerHeap2 s)"
    "Timers u = TimerHeap1_p" "TimersOverflow u = TimerHeap2_p" "timer_state.more u = timer_state.more t"
    using timer_more [OF m(4)] by (simp_all add: t_def)
  have "timers_ok {} {} u"
    using heap_rep_init [of "TimerLinks u"]
    by (auto simp: timers_ok_def timer_heap_ok_def n m queues_ok_def get_heap_def intro: exI [of _ Leaf])
  then obtain d where d: "TimerSetNextTimer (TimerLastTime u) u = Some (HalSetTimer d u)"
    using TimerSetNextTimer_total [of u "{}" "TimerLastTime u"] by (auto simp: timers_ok_def)
  have "TimerStartup s = Some (HalSetTimer d u)"
    using u(1) d by (simp add: TimerStartup_def t_def Let_def) (simp add: HalInitClock_def)
  moreover have "timers_ok {} {} (HalSetTimer d u)"
    using \<open>timers_ok {} {} u\<close> by (simp add: timers_ok_def timer_heap_ok_def queues_ok_def)
  moreover obtain v where "HalSetTimer d u = u\<lparr>itimer_real := v\<rparr>" by (simp add: HalSetTimer_def Let_def)
  moreover have "starting (HalSetTimer d u)" using u(2) by simp
  ultimately show ?thesis using u(4,5) t m n by simp
qed

lemma KernelInit_ok:
  assumes "\<forall>l\<ge>IRQ_LEVEL_COUNT. IsrDisabledCount s l = 0"
  shows "\<exists>s'. KernelInit s = Some s' \<and> starting s' \<and> (\<forall>l < IRQ_LEVEL_COUNT. HalIrqToMask s' l = kernel_masks l) \<and>
     IsrHandlerTable s' IRQ_LEVEL_CRIT = Some CritInterrupt_isr \<and> IsrHandlerTable s' IRQ_LEVEL_SOFT = Some SoftInterrupt_isr \<and>
     IsrHandlerTable s' IRQ_LEVEL_TIMER = Some TimerInterrupt_isr \<and>
     CritInterruptHandlerList s' = [] \<and> SoftInterruptHandlerList s' = [] \<and> timers_ok {} {} s' \<and>
     Handlers s' = Handlers s \<and> TimerLinks s' = TimerLinks s \<and> timer_state.more s' = timer_state.more s"
proof -
  define s0 where "s0 = IsrDisable IRQ_LEVEL_MAX (IsrStartup s)"
  note s0 = first_disable [OF assms, folded s0_def]
  define t0 where "t0 = s0\<lparr>CritInterruptHandlerList := []\<rparr>"
  obtain s1 where s1: "CritInterruptStartup s0 = Some s1" "starting s1" "isr_state.more s1 = isr_state.more t0"
    "IsrHandlerTable s1 = (IsrHandlerTable t0)(IRQ_LEVEL_CRIT \<mapsto> CritInterrupt_isr)"
    "HalIrqToMask s1 = blocked_from HAL_ISR_CRIT IRQ_LEVEL_CRIT (HalIrqToMask t0)"
    using isr_register_starting [of t0 HAL_ISR_CRIT IRQ_LEVEL_CRIT CritInterrupt_isr] s0(1)
    by (auto simp: CritInterruptStartup_def t0_def)
  define t1 where "t1 = s1\<lparr>SoftInterruptHandlerList := []\<rparr>"
  obtain s2 where s2: "SoftInterruptStartup s1 = Some s2" "starting s2" "isr_state.more s2 = isr_state.more t1"
    "IsrHandlerTable s2 = (IsrHandlerTable t1)(IRQ_LEVEL_SOFT \<mapsto> SoftInterrupt_isr)"
    "HalIrqToMask s2 = blocked_from HAL_ISR_SOFT IRQ_LEVEL_SOFT (HalIrqToMask t1)"
    using isr_register_starting [of t1 HAL_ISR_SOFT IRQ_LEVEL_SOFT SoftInterrupt_isr] s1(2)
    by (auto simp: SoftInterruptStartup_def t1_def)
  obtain s3 where s3: "HalRegisterIsrHandler HAL_ISR_RESET IRQ_LEVEL_RESET s2 = Some s3" "starting s3"
    "isr_state.more s3 = isr_state.more s2" "IsrHandlerTable s3 = IsrHandlerTable s2"
    "HalIrqToMask s3 = blocked_from HAL_ISR_RESET IRQ_LEVEL_RESET (HalIrqToMask s2)"
    using register_starting [OF s2(2), of HAL_ISR_RESET IRQ_LEVEL_RESET] by auto
  have h: "Handlers s3 = Handlers s" "CritInterruptHandlerList s3 = []" "SoftInterruptHandlerList s3 = []"
      "handler_state.more s3 = handler_state.more s"
    using handler_more [OF s0(2)] handler_more [OF s1(3)] handler_more [OF s2(3)] handler_more [OF s3(3)]
    by (simp_all add: t0_def t1_def)
  obtain s4 where s4: "TimerStartup s3 = Some s4" "starting s4" "timers_ok {} {} s4"
     "HalIrqToMask s4 = blocked_from HAL_ISR_TIMER IRQ_LEVEL_TIMER (HalIrqToMask s3)"
     "IsrHandlerTable s4 = (IsrHandlerTable s3)(IRQ_LEVEL_TIMER \<mapsto> TimerInterrupt_isr)"
     "CritInterruptHandlerList s4 = []" "SoftInterruptHandlerList s4 = []" "Handlers s4 = Handlers s3"
     "TimerLinks s4 = TimerLinks s3" "timer_state.more s4 = timer_state.more s3"
    using TimerStartup_ok [OF s3(2) h(2,3)] by blast
  have init: "KernelInit s = Some s4"
    using s1(1) s2(1) s3(1) s4(1) by (simp add: KernelInit_def HalStartup_def s0_def)
  have "HalIrqToMask s4 l = kernel_masks l" if "l < IRQ_LEVEL_COUNT" for l
    using that unfolding s4(4) s3(5) s2(5) s1(5)
    by (auto simp: t0_def t1_def s0(3) s1(5) blocked_from_def kernel_masks_def HalIsrInit_def HalBlockSignal_def HalClearSignals_def)
  then show ?thesis
    using init s4 s3(4) s2(4) s1(4) h timer_more [OF h(4)] by (simp add: t0_def t1_def)
qed

section \<open>Starting the scheduler and creating threads\<close>

text \<open>\<open>booting\<close>: the state between \<^verbatim>\<open>KernelInit\<close> and \<^verbatim>\<open>KernelStart\<close>.\<close>

definition booting :: "'a sched_state_scheme \<Rightarrow> bool" where
  "booting s \<longleftrightarrow> starting s \<and> (\<forall>l < IRQ_LEVEL_COUNT. HalIrqToMask s l = kernel_masks l) \<and>
     CritInterruptHandlerList s = [] \<and> SoftInterruptHandlerList s = [] \<and> timers_ok {SchedulerTimer} {} s \<and>
     contexts_ok s \<and> run_queue_ok s \<and> ActiveThread s = IdleThread \<and> \<not> MutexIsLocked (SchedulerMutex s)"

text \<open>The contexts of threads that have not been created count as initialised and not in use.\<close>

definition contexts_fresh :: "'a sched_state_scheme \<Rightarrow> bool" where
  "contexts_fresh s \<longleftrightarrow>
     (\<forall>t. lc_State (Contexts s (ThreadContext t)) = LOCKING_STATE_READY \<and>
       lc_BlockFunction (Contexts s (ThreadContext t)) = SchedulerBlockOnLock_f \<and>
       lc_WakeFunction (Contexts s (ThreadContext t)) = SchedulerWakeOnLock_f) \<and>
     (\<forall>t. lc_BlockFunction (Contexts s (PlainContext t)) = LockingBlockNonBlocking_f \<and>
       lc_WakeFunction (Contexts s (PlainContext t)) = LockingWakeNonBlocking_f)"

lemma booting_atomic: "booting s \<Longrightarrow> HalIsIrqAtomic IRQ_LEVEL_CRIT s"
  using starting_atomic [of s IRQ_LEVEL_CRIT] by (simp add: booting_def)

lemma starting_sched_fields [simp]:
  "starting (r\<lparr>RunQueue := q\<rparr>) = starting r" "starting (r\<lparr>SchedulerMutex := m\<rparr>) = starting r"
  "starting (r\<lparr>QuantumStartTime := x\<rparr>) = starting r" "starting (r\<lparr>RunningThreads := n\<rparr>) = starting r"
  "starting (r\<lparr>Shutdown := b\<rparr>) = starting r" "starting (r\<lparr>ActiveThread := a\<rparr>) = starting r"
  "starting (upd_thread t f r) = starting r" "starting (upd_context c g r) = starting r"
  by (simp_all add: starting_def isr_ok_def hal_ok_def upd_thread_def upd_context_def)

lemma HalSetTimer_upd: "\<exists>v. HalSetTimer d s = s\<lparr>itimer_real := v\<rparr>"
  unfolding HalSetTimer_def Let_def by blast

lemma put_heap_upd: "\<exists>h1 h2. put_heap p hp s = s\<lparr>TimerHeap1 := h1, TimerHeap2 := h2\<rparr>"
proof (cases p)
  case TimerHeap1_p
  then show ?thesis by (intro exI [of _ hp] exI [of _ "TimerHeap2 s"]) (simp add: put_heap_def)
next
  case TimerHeap2_p
  then show ?thesis by (intro exI [of _ "TimerHeap1 s"] exI [of _ hp]) (simp add: put_heap_def)
qed

text \<open>A registered timer changes its handler, the heaps and the interval timer.\<close>

lemma timer_added_upd:
  "\<exists>v ls h1 h2. HalSetTimer d (timer_added n f ctx p hp links s) =
     s\<lparr>itimer_real := v, Handlers := (Handlers s)(n := queued_as f ctx (Handlers s n)),
       TimerLinks := ls, TimerHeap1 := h1, TimerHeap2 := h2\<rparr>"
proof -
  let ?s = "(upd_handler n (queued_as f ctx) s)\<lparr>TimerLinks := links\<rparr>"
  obtain h1 h2 where h: "put_heap p hp ?s = ?s\<lparr>TimerHeap1 := h1, TimerHeap2 := h2\<rparr>"
    using put_heap_upd by blast
  obtain v where v: "HalSetTimer d (put_heap p hp ?s) = ?s\<lparr>TimerHeap1 := h1, TimerHeap2 := h2, itimer_real := v\<rparr>"
    unfolding h using HalSetTimer_upd by blast
  have "HalSetTimer d (timer_added n f ctx p hp links s) =
     s\<lparr>itimer_real := v, Handlers := (Handlers s)(n := queued_as f ctx (Handlers s n)),
       TimerLinks := links, TimerHeap1 := h1, TimerHeap2 := h2\<rparr>"
    unfolding timer_added_def v by (simp add: upd_handler_def)
  then show ?thesis by blast
qed

text \<open>What the invariant of the timer unit depends on.\<close>

lemma timers_ok_frame:
  assumes "timers_ok A B s" and "TimerLinks s' = TimerLinks s" and "TimerHeap1 s' = TimerHeap1 s"
    and "TimerHeap2 s' = TimerHeap2 s" and "Timers s' = Timers s" and "TimersOverflow s' = TimersOverflow s"
    and "CritInterruptHandlerList s' = CritInterruptHandlerList s" and "SoftInterruptHandlerList s' = SoftInterruptHandlerList s"
    and "\<forall>h \<in> A \<union> B \<union> set (CritInterruptHandlerList s @ SoftInterruptHandlerList s).
      ho_State (Handlers s' h) = ho_State (Handlers s h)"
  shows "timers_ok A B s'"
proof -
  have "get_heap p s' = get_heap p s" for p using assms(3,4) by (cases p) (simp_all add: get_heap_def)
  with assms show ?thesis by (auto simp: timers_ok_def timer_heap_ok_def queues_ok_def)
qed

text \<open>The explicit effect of creating a thread: the idle thread, which runs on the stack the machine
  started with, and any other one.\<close>

abbreviation ready_context :: "LOCKING_CONTEXT \<Rightarrow> LOCKING_CONTEXT" where
  "ready_context c \<equiv> c\<lparr>lc_State := LOCKING_STATE_READY, lc_BlockFunction := SchedulerBlockOnLock_f,
     lc_WakeFunction := SchedulerWakeOnLock_f\<rparr>"

definition thread_created :: "addr \<Rightarrow> THREAD \<Rightarrow> 'a sched_state_scheme \<Rightarrow> 'a sched_state_scheme" where
  "thread_created t T s = s\<lparr>RunningThreads := RunningThreads s + 1, Threads := (Threads s)(t := T),
     Contexts := (Contexts s)(ThreadContext t := ready_context (Contexts s (ThreadContext t)))\<rparr>"

lemma create_idle:
  assumes "HalIsIrqAtomic IRQ_LEVEL_CRIT s"
  shows "\<exists>T. SchedulerCreateThread t prio (0, []) 0 main arg loc False s = Some (thread_created t T s) \<and>
     th_State T = THREAD_STATE_BLOCKED"
proof -
  obtain s' where s': "SchedulerCreateThread t prio (0, []) 0 main arg loc False s = Some s'"
      "s' = thread_created t (Threads s' t) s" "th_State (Threads s' t) = THREAD_STATE_BLOCKED"
    using assms
    by (simp add: SchedulerCreateThread_def ContextInit_def thread_created_def LockingInit_def upd_thread_def upd_context_def Let_def)
  then show ?thesis by (intro exI [of _ "Threads s' t"]) simp
qed

lemma create_thread:
  assumes "HalIsIrqAtomic IRQ_LEVEL_CRIT s" and "MINSIGSTKSZ \<le> sz" and "t \<notin> set (RunQueue s)"
  shows "\<exists>T sa sp. SchedulerCreateThread t prio stk sz main arg loc True s =
       Some ((thread_created t T s)\<lparr>sig_action := sa, sig_pending := sp, RunQueue := RunQueue s @ [t]\<rparr>) \<and>
     th_State T = THREAD_STATE_RUNNING \<and> resumable (th_Stack T)"
proof -
  have "sz \<noteq> 0" using assms(2) by auto
  then obtain s' where s': "SchedulerCreateThread t prio stk sz main arg loc True s = Some s'"
      "s' = (thread_created t (Threads s' t) s)\<lparr>sig_action := sig_action s', sig_pending := sig_pending s', RunQueue := RunQueue s @ [t]\<rparr>"
      "th_State (Threads s' t) = THREAD_STATE_RUNNING" "resumable (th_Stack (Threads s' t))"
    using assms
    by (simp add: SchedulerCreateThread_def ContextInit_def HalCreateStackFrame_def HalStackTrampoline_def resumable_def
        thread_created_def LockingInit_def upd_thread_def upd_context_def enqueue_def Let_def)
  then show ?thesis by (intro exI [of _ "Threads s' t"] exI [of _ "sig_action s'"] exI [of _ "sig_pending s'"]) simp
qed

lemma SchedulerStartup_ok:
  assumes "starting s" and "\<forall>l < IRQ_LEVEL_COUNT. HalIrqToMask s l = kernel_masks l" and "timers_ok {} {} s"
    and "CritInterruptHandlerList s = []" and "SoftInterruptHandlerList s = []"
    and "SchedulerTimer \<in> dom (TimerLinks s)" and "contexts_fresh s"
  shows "\<exists>s'. SchedulerStartup s = Some s' \<and> booting s' \<and> RunQueue s' = [] \<and> IsrHandlerTable s' = IsrHandlerTable s \<and>
     RunningThreads s' = 1 \<and> deadline s' SchedulerTimer = TimeGet s"
proof -
  let ?s = "HandlerInit SchedulerTimer (s\<lparr>RunQueue := []\<rparr>)"
  have isr: "isr_ok ?s" "IsrDisabledCount ?s IRQ_LEVEL_MAX + 1 \<noteq> 0"
    using assms(1) by (simp_all add: starting_def HandlerInit_def upd_handler_def isr_ok_def hal_ok_def)
  have ok: "timers_ok {} {} ?s"
    by (rule timers_ok_frame [OF assms(3)]) (use assms(4,5) in \<open>simp_all add: HandlerInit_def upd_handler_def\<close>)
  have dom: "ho_State (Handlers ?s SchedulerTimer) \<noteq> HANDLER_QUEUED" "SchedulerTimer \<in> dom (TimerLinks ?s)"
    using assms(6) by (simp_all add: HandlerInit_def upd_handler_def)
  obtain s1 d p hp links where s1: "TimerRegister SchedulerTimer 0 (Some SchedulerTimerHandler_f) NULL ?s = Some s1"
    "timers_ok {SchedulerTimer} {} s1" "deadline s1 SchedulerTimer = TimeGet ?s"
    "s1 = HalSetTimer d (timer_added SchedulerTimer (Some SchedulerTimerHandler_f) NULL p hp links ?s)"
    using TimerRegister_ok [OF ok isr dom, of 0 "Some SchedulerTimerHandler_f" NULL] by auto
  obtain v ls h1 h2 where u: "s1 = ?s\<lparr>itimer_real := v, Handlers := (Handlers ?s)(SchedulerTimer :=
      queued_as (Some SchedulerTimerHandler_f) NULL (Handlers ?s SchedulerTimer)),
       TimerLinks := ls, TimerHeap1 := h1, TimerHeap2 := h2\<rparr>"
    unfolding s1(4) using timer_added_upd by blast
  have st1: "starting s1"
    unfolding u using assms(1) by (simp add: starting_def isr_ok_def hal_ok_def HandlerInit_def upd_handler_def)
  define s2 where "s2 = s1\<lparr>SchedulerMutex := MutexInit (SchedulerMutex s1) False, QuantumStartTime := TimeGet s1,
      RunningThreads := 0, Shutdown := False\<rparr>"
  have st2: "starting s2" using st1 by (simp add: s2_def)
  then have at2: "HalIsIrqAtomic IRQ_LEVEL_CRIT s2" using starting_atomic [of s2 IRQ_LEVEL_CRIT] by simp
  obtain T where T: "SchedulerCreateThread IdleThread 1 (0, []) 0 None NULL NULL False s2 = Some (thread_created IdleThread T s2)"
    "th_State T = THREAD_STATE_BLOCKED"
    using create_idle [OF at2] by blast
  let ?s' = "(thread_created IdleThread T s2)\<lparr>ActiveThread := IdleThread\<rparr>"
  have "SchedulerStartup s = Some ?s'"
    using s1(1) T(1) by (simp add: SchedulerStartup_def s2_def TimeGet_def HalGetTime_def)
  moreover have "starting ?s'"
    using st2 by (simp add: starting_def isr_ok_def hal_ok_def thread_created_def)
  moreover have "timers_ok {SchedulerTimer} {} ?s'"
    by (rule timers_ok_frame [OF s1(2)]) (simp_all add: thread_created_def s2_def)
  moreover have "contexts_ok ?s'"
    using assms(7) T(2) by (simp add: contexts_ok_def contexts_fresh_def thread_created_def s2_def u HandlerInit_def upd_handler_def)
  moreover have "run_queue_ok ?s'" "RunQueue ?s' = []" "\<not> MutexIsLocked (SchedulerMutex ?s')" "RunningThreads ?s' = 1"
    by (simp_all add: run_queue_ok_def thread_created_def s2_def u HandlerInit_def upd_handler_def MutexIsLocked_def MutexInit_def)
  moreover have "CritInterruptHandlerList ?s' = []" "SoftInterruptHandlerList ?s' = []" "IsrHandlerTable ?s' = IsrHandlerTable s"
      "HalIrqToMask ?s' = HalIrqToMask s"
    using assms(4,5) by (simp_all add: thread_created_def s2_def u HandlerInit_def upd_handler_def)
  moreover have "TimerLinks ?s' = TimerLinks s1" by (simp add: thread_created_def s2_def)
  moreover have "TimeGet ?s = TimeGet s" by (simp add: TimeGet_def HalGetTime_def HandlerInit_def upd_handler_def)
  ultimately show ?thesis using assms(2) s1(3) by (simp add: booting_def)
qed

section \<open>Creating threads and enabling the interrupts\<close>

text \<open>The threads an application creates before \<^verbatim>\<open>KernelStart\<close>: address, priority, stack, size, main
  routine and argument.\<close>

type_synonym thread_args = "addr \<times> 8 word \<times> (INDEX \<times> 8 word list) \<times> COUNT \<times> nat option \<times> ptr"

primrec create_threads :: "thread_args list \<Rightarrow> 'a sched_state_scheme \<Rightarrow> 'a sched_state_scheme option" where
  "create_threads [] s = Some s"
| "create_threads (a # as) s =
     (case a of (t, prio, stk, sz, main, arg) \<Rightarrow>
        do { s \<leftarrow> SchedulerCreateThread t prio stk sz main arg NULL True s; create_threads as s })"

definition boot ::
    "thread_args list \<Rightarrow> nat \<Rightarrow> ('a sched_state_scheme \<Rightarrow> 'a sched_state_scheme option) \<Rightarrow>
     'a sched_state_scheme \<Rightarrow> 'a sched_state_scheme option" where
  "boot threads n pause s =
     do { s \<leftarrow> KernelInit s; s \<leftarrow> SchedulerStartup s; s \<leftarrow> create_threads threads s; KernelStart n pause s }"

lemma create_booting:
  assumes "booting s" and "t \<noteq> IdleThread" and "t \<notin> set (RunQueue s)" and "MINSIGSTKSZ \<le> sz"
  shows "\<exists>s'. SchedulerCreateThread t prio stk sz main arg loc True s = Some s' \<and> booting s' \<and>
     RunQueue s' = RunQueue s @ [t] \<and> IsrHandlerTable s' = IsrHandlerTable s \<and> deadline s' = deadline s"
proof -
  obtain T sa sp where T: "SchedulerCreateThread t prio stk sz main arg loc True s =
       Some ((thread_created t T s)\<lparr>sig_action := sa, sig_pending := sp, RunQueue := RunQueue s @ [t]\<rparr>)"
     "th_State T = THREAD_STATE_RUNNING" "resumable (th_Stack T)"
    using create_thread [OF booting_atomic [OF assms(1)] assms(4,3)] by blast
  let ?s' = "(thread_created t T s)\<lparr>sig_action := sa, sig_pending := sp, RunQueue := RunQueue s @ [t]\<rparr>"
  have b: "starting s" "timers_ok {SchedulerTimer} {} s" "contexts_ok s" "run_queue_ok s" "ActiveThread s = IdleThread"
    using assms(1) by (simp_all add: booting_def)
  have "starting ?s'" using b(1) by (simp add: starting_def isr_ok_def hal_ok_def thread_created_def)
  moreover have "timers_ok {SchedulerTimer} {} ?s'"
    by (rule timers_ok_frame [OF b(2)]) (simp_all add: thread_created_def)
  moreover have "contexts_ok ?s'" using b(3) by (simp add: contexts_ok_def thread_created_def)
  moreover have "run_queue_ok ?s'" using b(4,5) assms(2,3) T(2,3) by (simp add: run_queue_ok_def thread_created_def)
  ultimately have "booting ?s'" using assms(1) by (simp add: booting_def thread_created_def)
  then show ?thesis using T(1) by (simp add: thread_created_def)
qed

lemma create_threads_ok:
  assumes "booting s" and "distinct (RunQueue s @ map fst as)"
    and "\<forall>(t, prio, stk, sz, main, arg) \<in> set as. t \<noteq> IdleThread \<and> MINSIGSTKSZ \<le> sz"
  shows "\<exists>s'. create_threads as s = Some s' \<and> booting s' \<and> RunQueue s' = RunQueue s @ map fst as \<and>
     IsrHandlerTable s' = IsrHandlerTable s \<and> deadline s' = deadline s"
  using assms
proof (induction as arbitrary: s)
  case (Cons a as)
  obtain t prio stk sz main arg where a: "a = (t, prio, stk, sz, main, arg)" by (cases a) auto
  obtain s1 where s1: "SchedulerCreateThread t prio stk sz main arg NULL True s = Some s1" "booting s1"
     "RunQueue s1 = RunQueue s @ [t]" "IsrHandlerTable s1 = IsrHandlerTable s" "deadline s1 = deadline s"
    using create_booting [OF Cons.prems(1), of t sz prio stk main arg NULL] Cons.prems(2,3) a by auto
  have "distinct (RunQueue s1 @ map fst as)" using Cons.prems(2) s1(3) a by simp
  then obtain s' where "create_threads as s1 = Some s'" "booting s'" "RunQueue s' = RunQueue s1 @ map fst as"
     "IsrHandlerTable s' = IsrHandlerTable s1" "deadline s' = deadline s1"
    using Cons.IH [OF s1(2)] Cons.prems(3) by auto
  then show ?case using s1 a by simp
qed simp

lemma open_irq_interruptible:
  assumes "open_irq s" and "0 < l" and "l < IRQ_LEVEL_COUNT"
  shows "\<not> HalIsIrqAtomic l s"
proof -
  have ok: "hal_ok s" "sig_mask s = HalIrqToMask s IRQ_LEVEL_NONE" "\<not> HalIrqToMask s IRQ_LEVEL_CRIT \<subseteq> HalIrqToMask s IRQ_LEVEL_NONE"
    using assms(1) by (simp_all add: open_irq_def crit_levels_def isr_ok_def isr_top_def numeral_eq_Suc)
  have "HalIrqToMask s IRQ_LEVEL_CRIT \<subseteq> HalIrqToMask s l" by (rule hal_ok_mono [OF ok(1)]) (use assms in auto)
  then show ?thesis using ok assms(3) by (subst HalIsIrqAtomic_subset) auto
qed

lemma enable_booting:
  assumes "booting s"
  shows "\<exists>s'. IsrEnable IRQ_LEVEL_MAX s = Some s' \<and> outside s' \<and> s' = set_counts (\<lambda>_. 0) s"
proof -
  have b: "isr_ok s" "IsrDisabledCount s = (\<lambda>_. 0)(IRQ_LEVEL_MAX := 1)" "\<forall>l < IRQ_LEVEL_COUNT. HalIrqToMask s l = kernel_masks l"
    "timers_ok {SchedulerTimer} {} s" "contexts_ok s" "run_queue_ok s"
    using assms by (simp_all add: booting_def starting_def)
  have "IsrEnable IRQ_LEVEL_MAX s = Some (set_counts (\<lambda>_. 0) s)"
    using IsrEnable_counts [OF b(1), of IRQ_LEVEL_MAX] b(2) by (simp add: fun_upd_idem)
  moreover have "open_irq (set_counts (\<lambda>_. 0) s)"
    using set_counts_ok [OF b(1)] b(3) by (simp add: open_irq_def crit_levels_def set_counts_def kernel_masks_def)
  moreover have "sched_ok (set_counts (\<lambda>_. 0) s)"
    using assms b(5,6)
    by (simp add: sched_ok_def switch_ok_def queues_ok_def booting_def run_queue_ok_def contexts_ok_def set_counts_def)
  ultimately show ?thesis by (simp add: outside_def)
qed

section \<open>Properties\<close>


definition boot0 :: sched_state where
  "boot0 = sched1\<lparr>TimerLinks := [SchedulerTimer \<mapsto> wl0]\<rparr>"


end
