(* ===== verification/Watchdog.thy ===== *)
theory Watchdog
  imports Isr Timer
begin

text \<open>
  The watchdog, \<^verbatim>\<open>src/kernel/watchdog.c\<close>, on the flags of \<^verbatim>\<open>src/utils/flags.h\<close>: the watchdog
  timer is armed again only after every component that has a flag in the desired mask has reported.
  The debug build is modelled, with the two times it records.
\<close>

unbundle bit_operations_syntax

section \<open>Flags\<close>

type_synonym FLAG = "32 word"

definition FlagOn :: "FLAG \<Rightarrow> FLAG \<Rightarrow> FLAG" where
  "FlagOn field flag = field OR flag"

definition FlagOff :: "FLAG \<Rightarrow> FLAG \<Rightarrow> FLAG" where
  "FlagOff field flag = field AND NOT flag"

definition FlagToggle :: "FLAG \<Rightarrow> FLAG \<Rightarrow> FLAG" where
  "FlagToggle field flag = field XOR flag"

definition FlagGet :: "FLAG \<Rightarrow> FLAG \<Rightarrow> FLAG" where
  "FlagGet field flag = field AND flag"

definition FlagGetBit :: "INDEX \<Rightarrow> FLAG" where
  "FlagGetBit index = push_bit (unat index) 1"

definition FlagsEqual :: "FLAG \<Rightarrow> FLAG \<Rightarrow> bool" where
  "FlagsEqual a b = (a = b)"

abbreviation FLAG_MAX_INDEX :: INDEX where "FLAG_MAX_INDEX \<equiv> 31"
abbreviation FLAG_NONE :: FLAG where "FLAG_NONE \<equiv> 0"

section \<open>State and operations\<close>

record watchdog_state = isr_state +
  WatchdogDesiredMask :: FLAG
  WatchdogCurMask :: FLAG
  Timeout :: TIME
  WatchdogLastUpdatedTime :: TIME
  WatchdogLastClearedTime :: TIME

definition WatchdogEnable :: "TIME \<Rightarrow> 'a watchdog_state_scheme \<Rightarrow> 'a watchdog_state_scheme option" where
  "WatchdogEnable timeout s =
     do {
       let s = s\<lparr>Timeout := timeout, WatchdogDesiredMask := FLAG_NONE, WatchdogCurMask := FLAG_NONE,
         WatchdogLastUpdatedTime := 0, WatchdogLastClearedTime := 0\<rparr>;
       s \<leftarrow> HalRegisterIsrHandler HAL_ISR_WATCHDOG IRQ_LEVEL_WATCHDOG s;
       HalPetWatchdog (Timeout s) s
     }"

definition WatchdogNotify :: "INDEX \<Rightarrow> 'a watchdog_state_scheme \<Rightarrow> 'a watchdog_state_scheme option" where
  "WatchdogNotify index s =
     do {
       ASSERT (index \<le> FLAG_MAX_INDEX);
       let flag = FlagGetBit index;
       let s = IsrDisable IRQ_LEVEL_WATCHDOG s;
       ASSERT (FlagGet flag (WatchdogDesiredMask s) \<noteq> 0);
       let time = TimeGet s;
       let s = s\<lparr>WatchdogLastUpdatedTime := time\<rparr>;
       let s = s\<lparr>WatchdogCurMask := FlagOn (WatchdogCurMask s) flag\<rparr>;
       s \<leftarrow> (if FlagsEqual (WatchdogCurMask s) (WatchdogDesiredMask s) then
              do {
                s \<leftarrow> HalPetWatchdog (Timeout s) s;
                Some (s\<lparr>WatchdogCurMask := FLAG_NONE, WatchdogLastClearedTime := time\<rparr>)
              }
            else Some s);
       IsrEnable IRQ_LEVEL_WATCHDOG s
     }"

definition WatchdogAddFlag :: "INDEX \<Rightarrow> 'a watchdog_state_scheme \<Rightarrow> 'a watchdog_state_scheme option" where
  "WatchdogAddFlag index s =
     do {
       ASSERT (index \<le> FLAG_MAX_INDEX);
       let flag = FlagGetBit index;
       let s = IsrDisable IRQ_LEVEL_WATCHDOG s;
       let s = s\<lparr>WatchdogDesiredMask := FlagOn (WatchdogDesiredMask s) flag\<rparr>;
       IsrEnable IRQ_LEVEL_WATCHDOG s
     }"

definition WatchdogInterrupt :: "'a watchdog_state_scheme \<Rightarrow> 'a watchdog_state_scheme option" where
  "WatchdogInterrupt s = None"

section \<open>Flags as sets\<close>

text \<open>A mask stands for the set of the indices of its flags.\<close>

definition flags :: "FLAG \<Rightarrow> nat set" where
  "flags m = {i. bit m i}"

lemma flags_simps [simp]:
  "flags 0 = {}" "flags (FlagOn m n) = flags m \<union> flags n" "flags (FlagGet m n) = flags m \<inter> flags n"
  "flags (FlagOff m n) = flags m - flags n" "i \<in> flags (FlagToggle m n) \<longleftrightarrow> (i \<in> flags m \<longleftrightarrow> i \<notin> flags n)"
  by (auto simp: flags_def FlagOn_def FlagGet_def FlagOff_def FlagToggle_def bit_simps dest: bit_imp_le_length)

lemma flags_bit [simp]: "index \<le> FLAG_MAX_INDEX \<Longrightarrow> flags (FlagGetBit index) = {unat index}"
  by (auto simp: flags_def FlagGetBit_def bit_simps word_le_nat_alt)

lemma flags_inject [simp]: "flags m = flags n \<longleftrightarrow> m = n"
  by (metis bit_eqI flags_def mem_Collect_eq)

lemma flags_empty [simp]: "flags m = {} \<longleftrightarrow> m = 0"
  using flags_inject [of m 0] by (simp del: flags_inject)

section \<open>The invariant\<close>

text \<open>The flags reported since the timer was last armed are desired ones, and not yet all of them.\<close>

definition wd_ok :: "'a watchdog_state_scheme \<Rightarrow> bool" where
  "wd_ok s \<longleftrightarrow> isr_ok s \<and> IsrDisabledCount s IRQ_LEVEL_WATCHDOG + 1 \<noteq> 0 \<and> unat (Timeout s) < 1000 \<and>
     flags (WatchdogCurMask s) \<subseteq> flags (WatchdogDesiredMask s) \<and>
     (WatchdogDesiredMask s \<noteq> 0 \<longrightarrow> WatchdogCurMask s \<noteq> WatchdogDesiredMask s)"

definition armed :: "TIME \<Rightarrow> timeval" where
  "armed timeout = \<lparr>tv_sec = 0, tv_usec = uint timeout * 1000\<rparr>"

lemma HalPetWatchdog_small:
  assumes "unat timeout < 1000"
  shows "HalPetWatchdog timeout s = Some (s\<lparr>itimer_virtual := armed timeout\<rparr>)"
proof -
  have "uint timeout = int (unat timeout)" by (rule uint_nat)
  then have lt: "uint timeout * 1000 < 1000000" "0 \<le> uint timeout * 1000" using assms by linarith+
  have eq: "timeout * 1000 = word_of_int (uint timeout * 1000)"
    by (simp only: of_int_mult word_of_int_uint of_int_numeral)
  have "sint (timeout * 1000) = signed_take_bit 63 (uint timeout * 1000)"
    unfolding eq by (simp only: sint_sbintrunc') simp
  also have "\<dots> = uint timeout * 1000"
  proof (rule signed_take_bit_int_eq_self)
    show "- (2 ^ 63) \<le> uint timeout * 1000" by (rule order_trans [OF _ lt(2)]) simp
    show "uint timeout * 1000 < 2 ^ 63" by (rule less_trans [OF lt(1)]) simp
  qed
  finally show ?thesis using lt by (simp add: HalPetWatchdog_def armed_def)
qed

lemma isr_frame_watchdog [simp]:
  "isr_ok (r\<lparr>WatchdogLastUpdatedTime := x\<rparr>) = isr_ok r" "isr_ok (r\<lparr>WatchdogLastClearedTime := x\<rparr>) = isr_ok r"
  "isr_ok (r\<lparr>WatchdogCurMask := m\<rparr>) = isr_ok r" "isr_ok (r\<lparr>WatchdogDesiredMask := m\<rparr>) = isr_ok r"
  "isr_ok (r\<lparr>itimer_virtual := v\<rparr>) = isr_ok r"
  by (simp_all add: isr_ok_def hal_ok_def)

lemma IsrDisable_watchdog_fields [simp]:
  "WatchdogCurMask (IsrDisable l s) = WatchdogCurMask s" "WatchdogDesiredMask (IsrDisable l s) = WatchdogDesiredMask s"
  "Timeout (IsrDisable l s) = Timeout s" "WatchdogLastUpdatedTime (IsrDisable l s) = WatchdogLastUpdatedTime s"
  "WatchdogLastClearedTime (IsrDisable l s) = WatchdogLastClearedTime s"
  "itimer_virtual (IsrDisable l s) = itimer_virtual s" "TimeGet (IsrDisable l s) = TimeGet s"
  by (simp_all add: IsrDisable_def IsrDefer_def IsrDeferLoop_top HalSetIrq_def TimeGet_def HalGetTime_def Let_def)

lemma WatchdogNotify_eq:
  assumes "wd_ok s" and "index \<le> FLAG_MAX_INDEX" and "unat index \<in> flags (WatchdogDesiredMask s)"
  shows "WatchdogNotify index s = Some
     (if insert (unat index) (flags (WatchdogCurMask s)) = flags (WatchdogDesiredMask s) then
        s\<lparr>WatchdogCurMask := 0, WatchdogLastUpdatedTime := TimeGet s, WatchdogLastClearedTime := TimeGet s,
          itimer_virtual := armed (Timeout s)\<rparr>
      else s\<lparr>WatchdogCurMask := FlagOn (WatchdogCurMask s) (FlagGetBit index), WatchdogLastUpdatedTime := TimeGet s\<rparr>)"
proof -
  have w: "isr_ok s" "IsrDisabledCount s IRQ_LEVEL_WATCHDOG + 1 \<noteq> 0" "unat (Timeout s) < 1000"
    using assms(1) by (simp_all add: wd_ok_def)
  have get: "FlagGet (FlagGetBit index) (WatchdogDesiredMask s) \<noteq> 0"
    using assms(2,3) flags_empty [of "FlagGet (FlagGetBit index) (WatchdogDesiredMask s)"] by (simp del: flags_empty)
  have eq: "FlagsEqual (FlagOn (WatchdogCurMask s) (FlagGetBit index)) (WatchdogDesiredMask s) \<longleftrightarrow>
      insert (unat index) (flags (WatchdogCurMask s)) = flags (WatchdogDesiredMask s)"
    using assms(2) flags_inject [of "FlagOn (WatchdogCurMask s) (FlagGetBit index)" "WatchdogDesiredMask s"]
    by (simp add: FlagsEqual_def del: flags_inject)
  have e: "IsrEnable IRQ_LEVEL_WATCHDOG ((IsrDisable IRQ_LEVEL_WATCHDOG s)\<lparr>WatchdogLastUpdatedTime := x, itimer_virtual := v,
        WatchdogCurMask := m, WatchdogLastClearedTime := y\<rparr>) =
      Some (s\<lparr>WatchdogLastUpdatedTime := x, itimer_virtual := v, WatchdogCurMask := m, WatchdogLastClearedTime := y\<rparr>)"
    "IsrEnable IRQ_LEVEL_WATCHDOG ((IsrDisable IRQ_LEVEL_WATCHDOG s)\<lparr>WatchdogLastUpdatedTime := x, WatchdogCurMask := m\<rparr>) =
      Some (s\<lparr>WatchdogLastUpdatedTime := x, WatchdogCurMask := m\<rparr>)" for x y m v
    by (rule isr_section [OF w(1,2)]; use w(1) in \<open>simp add: set_counts_def\<close>)+
  show ?thesis
    using assms(2) get by (simp add: WatchdogNotify_def eq HalPetWatchdog_small [OF w(3)] e Let_def)
qed

lemma WatchdogAddFlag_eq:
  assumes "wd_ok s" and "index \<le> FLAG_MAX_INDEX"
  shows "WatchdogAddFlag index s = Some (s\<lparr>WatchdogDesiredMask := FlagOn (WatchdogDesiredMask s) (FlagGetBit index)\<rparr>)"
proof -
  have "IsrEnable IRQ_LEVEL_WATCHDOG ((IsrDisable IRQ_LEVEL_WATCHDOG s)\<lparr>WatchdogDesiredMask := d\<rparr>) =
      Some (s\<lparr>WatchdogDesiredMask := d\<rparr>)" for d
    by (rule isr_section) (use assms(1) in \<open>simp_all add: wd_ok_def set_counts_def\<close>)
  then show ?thesis using assms(2) by (simp add: WatchdogAddFlag_def)
qed

text \<open>Both operations keep the invariant.\<close>

lemma wd_ok_notify:
  assumes "wd_ok s" and "index \<le> FLAG_MAX_INDEX" and "unat index \<in> flags (WatchdogDesiredMask s)"
    and "WatchdogNotify index s = Some s'"
  shows "wd_ok s'" "WatchdogDesiredMask s' = WatchdogDesiredMask s" "Timeout s' = Timeout s"
proof -
  have "FlagOn (WatchdogCurMask s) (FlagGetBit index) \<noteq> WatchdogDesiredMask s"
    if "insert (unat index) (flags (WatchdogCurMask s)) \<noteq> flags (WatchdogDesiredMask s)"
    using that flags_inject [of "FlagOn (WatchdogCurMask s) (FlagGetBit index)" "WatchdogDesiredMask s"] assms(2)
    by (simp del: flags_inject)
  then show "wd_ok s'" "WatchdogDesiredMask s' = WatchdogDesiredMask s" "Timeout s' = Timeout s"
    using assms WatchdogNotify_eq [OF assms(1-3)] by (auto simp: wd_ok_def split: if_splits)
qed

lemma wd_ok_add:
  assumes "wd_ok s" and "index \<le> FLAG_MAX_INDEX" and "WatchdogAddFlag index s = Some s'"
  shows "wd_ok s'"
proof -
  have "WatchdogCurMask s \<noteq> FlagOn (WatchdogDesiredMask s) (FlagGetBit index)"
  proof
    assume eq: "WatchdogCurMask s = FlagOn (WatchdogDesiredMask s) (FlagGetBit index)"
    then have "flags (WatchdogCurMask s) = flags (WatchdogDesiredMask s)"
      using assms(1,2) by (auto simp: wd_ok_def simp del: flags_inject)
    then have "WatchdogCurMask s = WatchdogDesiredMask s" by simp
    then have "WatchdogDesiredMask s = 0" using assms(1) by (simp add: wd_ok_def)
    then have "FlagGetBit index = 0" using \<open>WatchdogCurMask s = WatchdogDesiredMask s\<close> eq by (simp add: FlagOn_def)
    then have "flags (FlagGetBit index) = {}" by simp
    then show False using assms(2) by (simp del: flags_empty)
  qed
  then show ?thesis using assms WatchdogAddFlag_eq [OF assms(1,2)] by (auto simp: wd_ok_def)
qed

section \<open>Properties\<close>

text \<open>A sequence of reports.\<close>

primrec notify_all :: "INDEX list \<Rightarrow> 'a watchdog_state_scheme \<Rightarrow> 'a watchdog_state_scheme option" where
  "notify_all [] s = Some s"
| "notify_all (i # is) s = do { s \<leftarrow> WatchdogNotify i s; notify_all is s }"

lemma notify_all_ok:
  assumes "wd_ok s" and "\<forall>i \<in> set is. i \<le> FLAG_MAX_INDEX \<and> unat i \<in> flags (WatchdogDesiredMask s)"
  shows "\<exists>s'. notify_all is s = Some s' \<and> wd_ok s' \<and> WatchdogDesiredMask s' = WatchdogDesiredMask s \<and> Timeout s' = Timeout s \<and>
     (if flags (WatchdogDesiredMask s) \<subseteq> flags (WatchdogCurMask s) \<union> unat ` set is \<and> is \<noteq> []
      then itimer_virtual s' = armed (Timeout s)
      else itimer_virtual s' = itimer_virtual s \<and> flags (WatchdogCurMask s') = flags (WatchdogCurMask s) \<union> unat ` set is)"
  using assms
proof (induction "is" arbitrary: s)
  case Nil
  then show ?case by auto
next
  case (Cons i "is")
  have i: "i \<le> FLAG_MAX_INDEX" "unat i \<in> flags (WatchdogDesiredMask s)" using Cons.prems(2) by simp_all
  note eq = WatchdogNotify_eq [OF Cons.prems(1) i]
  obtain s1 where s1: "WatchdogNotify i s = Some s1" using eq by blast
  note ok = wd_ok_notify [OF Cons.prems(1) i s1]
  have bits: "\<forall>j \<in> set is. j \<le> FLAG_MAX_INDEX \<and> unat j \<in> flags (WatchdogDesiredMask s1)"
    using Cons.prems(2) ok(2) by simp
  obtain s' where s': "notify_all is s1 = Some s'" "wd_ok s'" "WatchdogDesiredMask s' = WatchdogDesiredMask s" "Timeout s' = Timeout s"
     "if flags (WatchdogDesiredMask s) \<subseteq> flags (WatchdogCurMask s1) \<union> unat ` set is \<and> is \<noteq> []
      then itimer_virtual s' = armed (Timeout s)
      else itimer_virtual s' = itimer_virtual s1 \<and> flags (WatchdogCurMask s') = flags (WatchdogCurMask s1) \<union> unat ` set is"
    using Cons.IH [OF ok(1) bits] ok(2,3) by auto
  have run: "notify_all (i # is) s = Some s'" using s1 s'(1) by simp
  show ?case
  proof (cases "insert (unat i) (flags (WatchdogCurMask s)) = flags (WatchdogDesiredMask s)")
    case True
    then have "itimer_virtual s1 = armed (Timeout s)" using eq s1 by simp
    then show ?thesis using run s'(2-5) True by (auto split: if_splits)
  next
    case False
    have "flags (WatchdogCurMask s) \<subseteq> flags (WatchdogDesiredMask s)" using Cons.prems(1) by (simp add: wd_ok_def)
    with False have "\<not> flags (WatchdogDesiredMask s) \<subseteq> insert (unat i) (flags (WatchdogCurMask s))" using i(2) by blast
    moreover have "flags (WatchdogCurMask s1) = insert (unat i) (flags (WatchdogCurMask s))" "itimer_virtual s1 = itimer_virtual s"
      using eq s1 False i(1) by auto
    ultimately show ?thesis using run s'(2-5) by (cases "is = []") (auto split: if_splits)
  qed
qed

text \<open>(C24) The watchdog is petted exactly when all have reported. While its timer is armed, any sequence of
  reports of desired flags runs without a failed assertion and keeps the invariant; the timer is armed
  again if the reports, with those since it was last armed, cover every desired flag, and it is left
  alone as long as one desired flag is missing, so that a stalled component lets it expire.\<close>

theorem watchdog_catches_stalls:
  assumes "wd_ok s" and "\<forall>i \<in> set is. i \<le> FLAG_MAX_INDEX \<and> unat i \<in> flags (WatchdogDesiredMask s)" and "is \<noteq> []"
  shows "\<exists>s'. notify_all is s = Some s' \<and> wd_ok s' \<and>
     (flags (WatchdogDesiredMask s) \<subseteq> flags (WatchdogCurMask s) \<union> unat ` set is \<longrightarrow> itimer_virtual s' = armed (Timeout s)) \<and>
     (\<forall>j \<in> flags (WatchdogDesiredMask s). j \<notin> flags (WatchdogCurMask s) \<longrightarrow> j \<notin> unat ` set is \<longrightarrow>
        itimer_virtual s' = itimer_virtual s \<and> flags (WatchdogCurMask s') = flags (WatchdogCurMask s) \<union> unat ` set is)"
proof -
  obtain s' where s': "notify_all is s = Some s'" "wd_ok s'"
     "if flags (WatchdogDesiredMask s) \<subseteq> flags (WatchdogCurMask s) \<union> unat ` set is \<and> is \<noteq> []
      then itimer_virtual s' = armed (Timeout s)
      else itimer_virtual s' = itimer_virtual s \<and> flags (WatchdogCurMask s') = flags (WatchdogCurMask s) \<union> unat ` set is"
    using notify_all_ok [OF assms(1,2)] by blast
  then show ?thesis using assms(3) by (intro exI [of _ s']) (auto split: if_splits)
qed

text \<open>A watchdog of 500 milliseconds that waits for the flags 0 and 3.\<close>

definition watchdog0 :: watchdog_state where
  "watchdog0 = isr_state.extend isr0 (watchdog_state.fields (FlagOn (FlagGetBit 0) (FlagGetBit 3)) 0 500 0 0)"

theorem watchdog_catches_stalls_witness:
  "(\<exists>s'. notify_all [0, 3, 0] watchdog0 = Some s' \<and> itimer_virtual s' = armed 500) \<and>
   (\<exists>s'. notify_all [0, 0] watchdog0 = Some s' \<and> itimer_virtual s' = itimer_virtual watchdog0)"
proof -
  have f: "WatchdogDesiredMask watchdog0 = FlagOn (FlagGetBit 0) (FlagGetBit 3)" "WatchdogCurMask watchdog0 = 0"
    "Timeout watchdog0 = 500" "isr_ok watchdog0" "IsrDisabledCount watchdog0 l = 0" for l
    using isr0_ok(1,2) by (simp_all add: watchdog0_def isr_state.defs watchdog_state.defs isr_ok_def hal_ok_def)
  have d: "flags (WatchdogDesiredMask watchdog0) = {0, 3}" by (auto simp: f)
  then have "WatchdogDesiredMask watchdog0 \<noteq> 0" using flags_empty [of "WatchdogDesiredMask watchdog0"] by (simp del: flags_empty)
  then have ok: "wd_ok watchdog0" using f by (simp add: wd_ok_def)
  from watchdog_catches_stalls [OF ok, of "[0, 3, 0]"] watchdog_catches_stalls [OF ok, of "[0, 0]"] show ?thesis
    unfolding d using f(2,3) by auto
qed

end
