(* ===== verification/Sleep.thy ===== *)
theory Sleep
  imports Startup
begin

text \<open>
  Sleeping, \<^verbatim>\<open>src/kernel/sleep.c\<close>: a timer whose handler registers itself as a critical handler,
  which sets the signal the sleeping thread waits for. The signal and the handler object are locals of
  the sleeping thread's stack; here they are named by their addresses. The theory joins the timers, the
  handlers, the signals and the scheduler.
\<close>

section \<open>State and operations\<close>

record sleep_state = sched_state +
  Signals :: "addr \<Rightarrow> SIGNAL"

definition SleepCritHandler ::
    "'a sleep_state_ext wake \<Rightarrow> addr \<Rightarrow> 'a sleep_state_scheme \<Rightarrow> (bool \<times> 'a sleep_state_scheme) option" where
  "SleepCritHandler wk handler s =
     do {
       sleepSignal \<leftarrow> ho_Context (Handlers s handler);
       AssertCritical s;
       (signal, s) \<leftarrow> SignalSet wk (Signals s sleepSignal) s;
       Some (True, s\<lparr>Signals := (Signals s)(sleepSignal := signal)\<rparr>)
     }"

definition SleepTimerHandler :: "addr \<Rightarrow> 'a handler_state_scheme \<Rightarrow> (bool \<times> 'a handler_state_scheme) option" where
  "SleepTimerHandler timer s =
     do {
       s \<leftarrow> CritInterruptRegisterHandler timer (Some SleepCritHandler_f) (ho_Context (Handlers s timer)) s;
       Some (False, s)
     }"

definition Sleep ::
    "'a sleep_state_ext wake \<Rightarrow> addr \<Rightarrow> addr \<Rightarrow> TIME \<Rightarrow> 'a sleep_state_scheme \<Rightarrow> 'a sleep_state_scheme option" where
  "Sleep wk sleepSignal timer time s =
     do {
       let s = s\<lparr>Signals := (Signals s)(sleepSignal := SignalInit (Signals s sleepSignal) False)\<rparr>;
       let s = HandlerInit timer s;
       s \<leftarrow> TimerRegister timer time (Some SleepTimerHandler_f) (Some sleepSignal) s;
       (signal, s) \<leftarrow> SignalWaitForSignal wk (Signals s sleepSignal) NULL s;
       Some (s\<lparr>Signals := (Signals s)(sleepSignal := signal)\<rparr>)
     }"

definition sleep_call ::
    "'a sleep_state_ext wake \<Rightarrow>
     (HANDLER_FUNCTION \<Rightarrow> addr \<Rightarrow> 'a sleep_state_scheme \<Rightarrow> (bool \<times> 'a sleep_state_scheme) option) \<Rightarrow>
     HANDLER_FUNCTION \<Rightarrow> addr \<Rightarrow> 'a sleep_state_scheme \<Rightarrow> (bool \<times> 'a sleep_state_scheme) option" where
  "sleep_call wk other f h s =
     (case f of SleepTimerHandler_f \<Rightarrow> SleepTimerHandler h s
      | SleepCritHandler_f \<Rightarrow> SleepCritHandler wk h s
      | _ \<Rightarrow> other f h s)"

section \<open>Going to sleep\<close>

lemma outside_frame:
  assumes "outside s" and "s' = s\<lparr>itimer_real := v, Handlers := (Handlers s)(n := ho),
       TimerLinks := ls, TimerHeap1 := h1, TimerHeap2 := h2\<rparr>"
    and "n \<noteq> SchedulerCritObject" and "n \<notin> set (CritInterruptHandlerList s @ SoftInterruptHandlerList s)"
  shows "outside s'"
proof -
  have "open_irq s'"
    using assms(1,2) by (simp add: outside_def open_irq_def crit_levels_def isr_ok_def hal_ok_def)
  moreover have "switch_ok s'"
    using assms by (auto simp: outside_def sched_ok_def switch_ok_def queues_ok_def)
  moreover have "run_queue_ok s'" "contexts_ok s'"
    using assms(1,2) by (simp_all add: outside_def sched_ok_def run_queue_ok_def contexts_ok_def)
  ultimately show ?thesis using assms(1,2) by (simp add: outside_def sched_ok_def)
qed

lemma sleep_frame [simp]:
  "outside (s\<lparr>Signals := x\<rparr>) = outside s" "sched_ok (s\<lparr>Signals := x\<rparr>) = sched_ok s" "in_crit (s\<lparr>Signals := x\<rparr>) = in_crit s"
  by (simp_all add: outside_def open_irq_def crit_levels_def isr_ok_def hal_ok_def sched_ok_def run_queue_ok_def contexts_ok_def
      switch_ok_def queues_ok_def in_crit_def)

lemma timers_kept_wait:
  assumes "outside s" and "may_wait NULL s" and "SignalWaitForSignal wk signal NULL s = Some (signal', s')" and "\<not> si_State signal"
  shows "timers_kept s s'"
proof -
  have "\<exists>s1. (\<exists>c. LockingBlock NULL NULL (LockingStart s) = Some (c, s1)) \<and> LockingEnd s1 = Some s'"
    using assms(3,4) by (auto simp: SignalWaitForSignal_def bind_Some_iff)
  then show ?thesis using timers_kept_section [OF assms(1,2)] by blast
qed

lemma timers_ok_kept:
  assumes "timers_ok A B s" and "timers_kept s s'" and "SchedulerCritObject \<notin> A \<union> B" and "queues_ok s'"
  shows "timers_ok A B s'" "abs_deadline e A s' h = abs_deadline e A s h"
proof -
  note k = assms(2) [unfolded timers_kept_def]
  have "get_heap p s' = get_heap p s" for p using k by (cases p) (simp_all add: get_heap_def)
  moreover have "Handlers s' h = Handlers s h" if "h \<in> A \<union> B" for h using that k assms(3) by metis
  ultimately show "timers_ok A B s'"
    using assms(1,3,4) k by (auto simp: timers_ok_def timer_heap_ok_def)
  show "abs_deadline e A s' h = abs_deadline e A s h" using k by (simp add: abs_deadline_def)
qed

text \<open>The sleeping thread's timer object may be used: it is not queued anywhere.\<close>

definition timer_free :: "addr \<Rightarrow> addr set \<Rightarrow> 'a timer_state_scheme \<Rightarrow> bool" where
  "timer_free n A s \<longleftrightarrow> n \<noteq> SchedulerCritObject \<and> n \<notin> A \<and> n \<in> dom (TimerLinks s) \<and>
     n \<notin> set (CritInterruptHandlerList s @ SoftInterruptHandlerList s)"

lemma Sleep_blocks:
  assumes out: "outside s" and may: "may_wait NULL s" and ok: "timers_ok A B s" and free: "timer_free n (A \<union> B) s"
    and room: "card (A \<union> B) + 1 < 2 ^ 31" and crit: "SchedulerCritObject \<notin> A \<union> B"
  shows "\<exists>s' A' B'. Sleep wk sig n time s = Some s' \<and> outside s' \<and> timers_ok A' B' s' \<and> A' \<union> B' = insert n (A \<union> B) \<and>
     waiting (ThreadContext (ActiveThread s)) s' \<and>
     Signals s' sig = \<lparr>si_State = False, si_WaitingThreads = [ThreadContext (ActiveThread s)]\<rparr> \<and>
     ho_Function (Handlers s' n) = Some SleepTimerHandler_f \<and> ho_Context (Handlers s' n) = Some sig \<and>
     ho_CompleteFunction (Handlers s' n) = None \<and>
     abs_deadline e A' s' n = abs_time e (TimeGet s) + unat time"
proof -
  define s1 where "s1 = HandlerInit n (s\<lparr>Signals := (Signals s)(sig := SignalInit (Signals s sig) False)\<rparr>)"
  have isr: "isr_ok s1" "IsrDisabledCount s1 IRQ_LEVEL_MAX + 1 \<noteq> 0"
    using out by (simp_all add: s1_def outside_def open_irq_def crit_levels_def isr_ok_def hal_ok_def HandlerInit_def upd_handler_def)
  have ok1: "timers_ok A B s1"
    by (rule timers_ok_frame [OF ok]) (use free in \<open>auto simp: s1_def HandlerInit_def upd_handler_def timer_free_def\<close>)
  have h1: "ho_State (Handlers s1 n) \<noteq> HANDLER_QUEUED" "n \<in> dom (TimerLinks s1)" "TimeGet s1 = TimeGet s"
    using free by (simp_all add: s1_def HandlerInit_def upd_handler_def timer_free_def TimeGet_def HalGetTime_def)
  obtain s2 A' B' d p hp links where s2: "TimerRegister n time (Some SleepTimerHandler_f) (Some sig) s1 = Some s2"
     "timers_ok A' B' s2"
     "if TimeGet s1 + time \<ge> TimeGet s1 then A' = insert n A \<and> B' = B else A' = A \<and> B' = insert n B"
     "deadline s2 = (deadline s1)(n := TimeGet s1 + time)"
     "s2 = HalSetTimer d (timer_added n (Some SleepTimerHandler_f) (Some sig) p hp links s1)"
    using TimerRegister_ok [OF ok1 isr h1(1,2) room, of time "Some SleepTimerHandler_f" "Some sig"] by blast
  obtain v ls h1' h2' where u: "s2 = s1\<lparr>itimer_real := v, Handlers := (Handlers s1)(n :=
      queued_as (Some SleepTimerHandler_f) (Some sig) (Handlers s1 n)), TimerLinks := ls, TimerHeap1 := h1', TimerHeap2 := h2'\<rparr>"
    unfolding s2(5) using timer_added_upd by blast
  let ?s0 = "s\<lparr>Signals := (Signals s)(sig := SignalInit (Signals s sig) False)\<rparr>"
  have e1: "s1 = ?s0\<lparr>itimer_real := itimer_real ?s0, Handlers := (Handlers ?s0)(n := Handlers s1 n), TimerLinks := TimerLinks ?s0,
      TimerHeap1 := TimerHeap1 ?s0, TimerHeap2 := TimerHeap2 ?s0\<rparr>"
    by (simp add: s1_def HandlerInit_def upd_handler_def)
  have out1: "outside s1" by (rule outside_frame [OF _ e1]) (use out free in \<open>simp_all add: timer_free_def\<close>)
  have nq: "n \<noteq> SchedulerCritObject" "n \<notin> set (CritInterruptHandlerList s1 @ SoftInterruptHandlerList s1)"
    using free by (simp_all add: timer_free_def s1_def HandlerInit_def upd_handler_def)
  have out2: "outside s2" by (rule outside_frame [OF out1 u nq])
  have sig2: "Signals s2 sig = \<lparr>si_State = False, si_WaitingThreads = []\<rparr>" "ActiveThread s2 = ActiveThread s"
      "may_wait NULL s2" "Handlers s2 n = queued_as (Some SleepTimerHandler_f) (Some sig) (Handlers s1 n)"
    using may by (simp_all add: u s1_def HandlerInit_def upd_handler_def SignalInit_def may_wait_def ctx_of_def)
  obtain signal s3 where s3: "SignalWaitForSignal wk (Signals s2 sig) NULL s2 = Some (signal, s3)" "outside s3"
     "waiting (ThreadContext (ActiveThread s)) s3" "\<not> si_State signal" "si_WaitingThreads signal = [ThreadContext (ActiveThread s)]"
    using SignalWait_ok [OF out2 _ sig2(3), of "Signals s2 sig" wk] sig2 by (auto simp: sig_ok_def parked_ok_def ctx_of_def)
  have kept: "timers_kept s2 s3" using timers_kept_wait [OF out2 sig2(3) s3(1)] sig2(1) by simp
  let ?s' = "s3\<lparr>Signals := (Signals s3)(sig := signal)\<rparr>"
  have run: "Sleep wk sig n time s = Some ?s'"
    using s2(1) s3(1) by (simp add: Sleep_def s1_def)
  have crit': "SchedulerCritObject \<notin> A' \<union> B'" using s2(3) crit nq(1) by (auto split: if_splits)
  have "queues_ok s3" using s3(2) by (simp add: outside_def sched_ok_def switch_ok_def)
  note ok3 = timers_ok_kept [OF s2(2) kept crit' this]
  have "timers_ok A' B' ?s'" by (rule timers_ok_frame [OF ok3(1)]) simp_all
  moreover have "abs_deadline e A' ?s' n = abs_time e (TimeGet s) + unat time"
    using registered_deadline [OF s2(3), of s2 e] ok3(2) [of e n] s2(4) free h1(3)
    by (simp add: timer_free_def abs_deadline_def)
  moreover have "outside ?s'" using s3(2) by simp
  moreover have "Handlers ?s' n = Handlers s2 n" using kept nq(1) by (simp add: timers_kept_def)
  moreover have "A' \<union> B' = insert n (A \<union> B)" using s2(3) by (auto split: if_splits)
  ultimately show ?thesis
    using run s3(3-5) by (intro exI [of _ ?s'] exI [of _ A'] exI [of _ B'])
      (cases signal; simp add: sig2(4) queued_as_def s1_def HandlerInit_def)
qed

section \<open>Waking up\<close>

text \<open>The timer has fired: run from the soft interrupt, its handler moves to the critical queue and is not
  finished.\<close>

lemma sleep_timer_fires:
  assumes "queues_ok s" and "SoftInterruptHandlerList s = n # hs" and "ho_Function (Handlers s n) = Some SleepTimerHandler_f"
  shows "\<exists>s'. run_handler (sleep_call wk other) finish n (s\<lparr>SoftInterruptHandlerList := hs\<rparr>) = Some s' \<and> queues_ok s' \<and>
     SoftInterruptHandlerList s' = hs \<and> CritInterruptHandlerList s' = n # CritInterruptHandlerList s \<and>
     HalIrqToSignal s IRQ_LEVEL_CRIT \<in> sig_pending s' \<and>
     Handlers s' = (Handlers s)(n := (Handlers s n)\<lparr>ho_Function := Some SleepCritHandler_f\<rparr>) \<and>
     Signals s' = Signals s \<and> Contexts s' = Contexts s \<and> RunQueue s' = RunQueue s"
proof -
  have q: "ho_State (Handlers s n) = HANDLER_QUEUED" "n \<notin> set hs" "n \<notin> set (CritInterruptHandlerList s)"
    using assms(1,2) by (auto simp: queues_ok_def)
  have "ho\<lparr>ho_State := HANDLER_RUNNING, ho_Function := f, ho_Context := ho_Context ho, ho_State := HANDLER_QUEUED\<rparr> =
      ho\<lparr>ho_Function := f\<rparr>" if "ho_State ho = HANDLER_QUEUED" for ho f using that by (cases ho) simp
  then show ?thesis
    using assms q
    by (auto simp: run_handler_def HandlerRun_def upd_handler_def sleep_call_def SleepTimerHandler_def
        CritInterruptRegisterHandler_def HandlerRegister_def HalRaiseInterrupt_def queues_ok_def Let_def)
qed

lemma SignalSet_in_crit:
  assumes "in_crit s" and "sched_ok s" and "IsrDisabledCount s IRQ_LEVEL_CRIT + 1 \<noteq> 0"
    and "wakeable (ThreadContext t) s"
  shows "SignalSet wk \<lparr>si_State = False, si_WaitingThreads = [ThreadContext t]\<rparr> s =
     Some (\<lparr>si_State = True, si_WaitingThreads = []\<rparr>, resumed t s)" "in_crit (resumed t s)" "sched_ok (resumed t s)"
proof -
  have isr: "isr_ok s" using assms(1) by (simp add: in_crit_def crit_levels_def)
  let ?c = "(IsrDisabledCount s)(IRQ_LEVEL_CRIT := IsrDisabledCount s IRQ_LEVEL_CRIT + 1)"
  have start: "LockingStart s = set_counts ?c s"
    unfolding LockingStart_def SchedulerStartCritical_def by (rule IsrDisable_counts [OF isr assms(3)]) simp
  have crit: "in_crit (LockingStart s)"
    using assms(1,3) set_counts_ok [OF isr, of ?c] unfolding start
    by (simp add: in_crit_def crit_levels_def set_counts_def)
  have ok: "sched_ok (LockingStart s)" "wakeable (ThreadContext t) (LockingStart s)"
    using assms(2,4) by (simp_all add: start)
  have "LockingEnd (resumed t (LockingStart s)) = Some (resumed t s)"
    unfolding LockingEnd_def SchedulerEndCritical_def LockingStart_def SchedulerStartCritical_def
    by (rule isr_section [OF isr assms(3)]) (use isr in \<open>simp_all add: resumed_def set_counts_def isr_ok_def hal_ok_def\<close>)
  then show "SignalSet wk \<lparr>si_State = False, si_WaitingThreads = [ThreadContext t]\<rparr> s =
      Some (\<lparr>si_State = True, si_WaitingThreads = []\<rparr>, resumed t s)"
    using acquire_resumed [OF crit ok, of wk] by (simp add: SignalSet_def)
  show "in_crit (resumed t s)" "sched_ok (resumed t s)"
    using LockingAcquire_wake [OF assms(1,2,4), of "\<lambda>_ _. None"] acquire_resumed [OF assms(1,2,4), of "\<lambda>_ _. None"]
    by (simp_all add: lock_frame_def)
qed

text \<open>Run from the critical interrupt the handler wakes the sleeping thread and is finished.\<close>

lemma sleep_crit_wakes:
  assumes crit: "in_crit s" and ok: "sched_ok s" and cnt: "IsrDisabledCount s IRQ_LEVEL_CRIT + 1 \<noteq> 0"
    and q: "CritInterruptHandlerList s = n # hs" and n: "n \<noteq> SchedulerCritObject"
    and ho: "ho_Function (Handlers s n) = Some SleepCritHandler_f" "ho_Context (Handlers s n) = Some sig"
      "ho_CompleteFunction (Handlers s n) = None"
    and sg: "Signals s sig = \<lparr>si_State = False, si_WaitingThreads = [ThreadContext t]\<rparr>" "wakeable (ThreadContext t) s"
  shows "\<exists>s'. run_handler (sleep_call wk other) finish n (s\<lparr>CritInterruptHandlerList := hs\<rparr>) = Some s' \<and> in_crit s' \<and> sched_ok s' \<and>
     RunQueue s' = RunQueue s @ [t] \<and> th_State (Threads s' t) = THREAD_STATE_RUNNING \<and> \<not> waiting (ThreadContext t) s' \<and>
     Signals s' sig = \<lparr>si_State = True, si_WaitingThreads = []\<rparr> \<and> HandlerIsFinished n s' \<and>
     CritInterruptHandlerList s' = hs \<and> ActiveThread s' = ActiveThread s"
proof -
  have qs: "ho_State (Handlers s n) = HANDLER_QUEUED" "n \<notin> set hs" "n \<notin> set (SoftInterruptHandlerList s)"
    using ok q by (auto simp: sched_ok_def switch_ok_def queues_ok_def)
  define s1 where "s1 = upd_handler n (\<lambda>ho. ho\<lparr>ho_State := HANDLER_RUNNING\<rparr>) (s\<lparr>CritInterruptHandlerList := hs\<rparr>)"
  have crit1: "in_crit s1" by (rule irq_same_in_crit [OF _ crit]) (simp add: irq_same_def s1_def)
  have ok1: "sched_ok s1" unfolding s1_def by (rule sched_ok_popped [OF ok q n])
  have w1: "wakeable (ThreadContext t) s1" "IsrDisabledCount s1 IRQ_LEVEL_CRIT + 1 \<noteq> 0"
    using sg(2) cnt by (simp_all add: wakeable_def s1_def)
  note set = SignalSet_in_crit [OF crit1 ok1 w1(2,1)]
  define s2 where "s2 = (resumed t s1)\<lparr>Signals := (Signals s1)(sig := \<lparr>si_State = True, si_WaitingThreads = []\<rparr>)\<rparr>"
  have h: "SleepCritHandler wk n s1 = Some (True, s2)"
  proof -
    have "Signals s1 = Signals s" "ho_Context (Handlers s1 n) = Some sig" using ho(2) by (simp_all add: s1_def upd_handler_def)
    then show ?thesis using set(1) crit1 sg(1) by (simp add: SleepCritHandler_def s2_def resumed_def)
  qed
  define s' where "s' = upd_handler n (\<lambda>ho. ho\<lparr>ho_State := HANDLER_READY\<rparr>) s2"
  have h1: "HandlerRun n (s\<lparr>CritInterruptHandlerList := hs\<rparr>) = Some s1" "ho_Function (Handlers s1 n) = Some SleepCritHandler_f"
    "ho_State (Handlers s2 n) = HANDLER_RUNNING" "ho_CompleteFunction (Handlers s2 n) = None"
    using qs(1) ho by (simp_all add: HandlerRun_def s1_def s2_def resumed_def upd_handler_def)
  have "HandlerFinish finish n s2 = Some s'" using h1(3,4) by (simp add: HandlerFinish_def s'_def)
  then have "run_handler (sleep_call wk other) finish n (s\<lparr>CritInterruptHandlerList := hs\<rparr>) = Some s'"
    using h1(1,2) h by (simp add: run_handler_def sleep_call_def)
  moreover have "sched_ok s2" "in_crit s2" using set(2,3) by (simp_all add: s2_def)
  moreover have "n \<notin> set (CritInterruptHandlerList s2)" "n \<notin> set (SoftInterruptHandlerList s2)"
    using qs by (simp_all add: s2_def resumed_def s1_def)
  ultimately show ?thesis
    using sched_ok_handler [of s2 n] n irq_same_in_crit [of s2 s']
    by (simp add: s'_def) (simp add: s2_def resumed_def s1_def HandlerIsFinished_def upd_handler_def)
qed

section \<open>Properties\<close>

text \<open>(C15) Sleeping, from end to end. \<^verbatim>\<open>Sleep\<close> blocks the calling thread and leaves a timer with the absolute
  deadline now plus the time asked for. Whatever happens in between, when that timer has been moved to the
  soft interrupt queue, its handler moves it to the critical queue; and when it is run from there, while
  the thread still waits and is not the active one, the thread becomes the last of the run queue, its
  signal is set and the handler object is free again. No assertion fails on the way.\<close>

theorem sleep_wakes:
  assumes "outside s" and "may_wait NULL s" and "timers_ok A B s" and "timer_free n (A \<union> B) s"
    and "card (A \<union> B) + 1 < 2 ^ 31" and "SchedulerCritObject \<notin> A \<union> B"
  shows "\<exists>s1 A' B'. Sleep wk sig n time s = Some s1 \<and> outside s1 \<and> waiting (ThreadContext (ActiveThread s)) s1 \<and>
     timers_ok A' B' s1 \<and> n \<in> A' \<union> B' \<and> abs_deadline e A' s1 n = abs_time e (TimeGet s) + unat time \<and>
     (\<forall>s2 hs. queues_ok s2 \<and> SoftInterruptHandlerList s2 = n # hs \<and> Handlers s2 n = Handlers s1 n \<longrightarrow>
        (\<exists>s3. run_handler (sleep_call wk other) finish n (s2\<lparr>SoftInterruptHandlerList := hs\<rparr>) = Some s3 \<and>
           CritInterruptHandlerList s3 = n # CritInterruptHandlerList s2 \<and>
           (\<forall>s4 cs. in_crit s4 \<and> sched_ok s4 \<and> IsrDisabledCount s4 IRQ_LEVEL_CRIT + 1 \<noteq> 0 \<and>
                CritInterruptHandlerList s4 = n # cs \<and> Handlers s4 n = Handlers s3 n \<and> Signals s4 sig = Signals s1 sig \<and>
                wakeable (ThreadContext (ActiveThread s)) s4 \<longrightarrow>
              (\<exists>s5. run_handler (sleep_call wk other) finish n (s4\<lparr>CritInterruptHandlerList := cs\<rparr>) = Some s5 \<and> sched_ok s5 \<and>
                 RunQueue s5 = RunQueue s4 @ [ActiveThread s] \<and> th_State (Threads s5 (ActiveThread s)) = THREAD_STATE_RUNNING \<and>
                 \<not> waiting (ThreadContext (ActiveThread s)) s5 \<and> si_State (Signals s5 sig) \<and> HandlerIsFinished n s5))))"
proof -
  obtain s1 A' B' where s1: "Sleep wk sig n time s = Some s1" "outside s1" "timers_ok A' B' s1" "A' \<union> B' = insert n (A \<union> B)"
     "waiting (ThreadContext (ActiveThread s)) s1"
     "Signals s1 sig = \<lparr>si_State = False, si_WaitingThreads = [ThreadContext (ActiveThread s)]\<rparr>"
     "ho_Function (Handlers s1 n) = Some SleepTimerHandler_f" "ho_Context (Handlers s1 n) = Some sig"
     "ho_CompleteFunction (Handlers s1 n) = None" "abs_deadline e A' s1 n = abs_time e (TimeGet s) + unat time"
    using Sleep_blocks [OF assms, of wk sig time e] by blast
  have n: "n \<noteq> SchedulerCritObject" using assms(4) by (simp add: timer_free_def)
  have chain: "\<exists>s3. run_handler (sleep_call wk other) finish n (s2\<lparr>SoftInterruptHandlerList := hs\<rparr>) = Some s3 \<and>
       CritInterruptHandlerList s3 = n # CritInterruptHandlerList s2 \<and>
       (\<forall>s4 cs. in_crit s4 \<and> sched_ok s4 \<and> IsrDisabledCount s4 IRQ_LEVEL_CRIT + 1 \<noteq> 0 \<and>
            CritInterruptHandlerList s4 = n # cs \<and> Handlers s4 n = Handlers s3 n \<and> Signals s4 sig = Signals s1 sig \<and>
            wakeable (ThreadContext (ActiveThread s)) s4 \<longrightarrow>
          (\<exists>s5. run_handler (sleep_call wk other) finish n (s4\<lparr>CritInterruptHandlerList := cs\<rparr>) = Some s5 \<and> sched_ok s5 \<and>
             RunQueue s5 = RunQueue s4 @ [ActiveThread s] \<and> th_State (Threads s5 (ActiveThread s)) = THREAD_STATE_RUNNING \<and>
             \<not> waiting (ThreadContext (ActiveThread s)) s5 \<and> si_State (Signals s5 sig) \<and> HandlerIsFinished n s5))"
    if a: "queues_ok s2" "SoftInterruptHandlerList s2 = n # hs" "Handlers s2 n = Handlers s1 n" for s2 hs
  proof -
    obtain s3 where s3: "run_handler (sleep_call wk other) finish n (s2\<lparr>SoftInterruptHandlerList := hs\<rparr>) = Some s3"
       "CritInterruptHandlerList s3 = n # CritInterruptHandlerList s2"
       "Handlers s3 = (Handlers s2)(n := (Handlers s2 n)\<lparr>ho_Function := Some SleepCritHandler_f\<rparr>)"
      using sleep_timer_fires [OF a(1,2), of wk other finish] a(3) s1(7) by auto
    have h3: "ho_Function (Handlers s3 n) = Some SleepCritHandler_f" "ho_Context (Handlers s3 n) = Some sig"
        "ho_CompleteFunction (Handlers s3 n) = None"
      using s3(3) a(3) s1(8,9) by simp_all
    then show ?thesis
      using s3(1,2) s1(6) sleep_crit_wakes [OF _ _ _ _ n, where sig = sig and t = "ActiveThread s" and wk = wk and other = other
          and finish = finish] by (intro exI [of _ s3]) fastforce
  qed
  show ?thesis
    using s1(1-3,5,10) s1(4) chain by (intro exI [of _ s1] exI [of _ A'] exI [of _ B']) simp
qed

text \<open>Thread 1 sleeps for 20 milliseconds with the handler object 4 and the signal 7.\<close>

definition sleep0 :: sleep_state where
  "sleep0 = sched_state.extend sched1 (sleep_state.fields (\<lambda>_. \<lparr>si_State = True, si_WaitingThreads = []\<rparr>))"

theorem sleep_wakes_witness:
  "\<exists>s1 A' B'. Sleep (\<lambda>_ _. None) 7 4 20 sleep0 = Some s1 \<and> outside s1 \<and> waiting (ThreadContext 1) s1 \<and> timers_ok A' B' s1 \<and>
     4 \<in> A' \<union> B' \<and> abs_deadline 0 A' s1 4 = abs_time 0 (TimeGet sleep0) + 20"
proof -
  have "outside sleep0"
    using outside_sched1
    by (simp add: outside_def open_irq_def crit_levels_def isr_ok_def hal_ok_def sched_ok_def run_queue_ok_def contexts_ok_def
      switch_ok_def queues_ok_def sleep0_def sched_state.defs sleep_state.defs)
  moreover have "timers_ok {3} {} sleep0"
    by (rule timers_ok_frame [OF timers0_ok(1)])
      (simp_all add: sleep0_def sched1_def set_counts_def sched0_def timer_state.defs sched_state.defs sleep_state.defs)
  moreover have "may_wait NULL sleep0" "ActiveThread sleep0 = 1"
    using may_wait_sched1(1) by (simp_all add: may_wait_def ctx_of_def sleep0_def sched_state.defs sleep_state.defs)
  moreover have "timer_free 4 ({3} \<union> {}) sleep0"
    by (simp add: timer_free_def sleep0_def sched1_def set_counts_def sched0_def timer_state.defs sched_state.defs sleep_state.defs
        timers0_fields)
  ultimately obtain s1 A' B' where "Sleep (\<lambda>_ _. None) 7 4 20 sleep0 = Some s1" "outside s1" "waiting (ThreadContext 1) s1"
      "timers_ok A' B' s1" "4 \<in> A' \<union> B'" "abs_deadline 0 A' s1 4 = abs_time 0 (TimeGet sleep0) + unat (20 :: TIME)"
    using sleep_wakes [of sleep0 "{3}" "{}" 4 "\<lambda>_ _. None" 7 20 0 "\<lambda>_ _ _. None" "\<lambda>_ _ _. None"] by force
  then show ?thesis by (intro exI [of _ s1] exI [of _ A'] exI [of _ B']) simp
qed

end
