(* ===== verification/Worker.thy ===== *)
theory Worker
  imports Locks
begin

text \<open>
  The worker unit, \<^verbatim>\<open>src/kernel/worker.c\<close>: threads and critical handlers queue work items, which a
  worker thread runs in turn. A work item has a locking context of its own, so that waiting for a lock
  does not block the worker: \<^verbatim>\<open>WorkerWakeOnLock\<close> queues the item again when it is granted the lock. It
  is the wake function that was an argument of the locks so far.
\<close>

section \<open>State\<close>

datatype WORKER_RETURN = WORKER_PENDED | WORKER_BLOCKED | WORKER_FINISHED

record WORKER_QUEUE =
  wq_Thread :: addr
  wq_List :: "addr list"
  wq_Lock :: SEMAPHORE

text \<open>The locking context of the item \<open>i\<close> is \<open>WorkerContext i\<close> in the table of contexts.\<close>

record WORKER_ITEM =
  wi_Queue :: addr
  wi_Foo :: nat
  wi_Context :: ptr
  wi_Finished :: bool

record worker_state = sched_state +
  WorkQueues :: "addr \<Rightarrow> WORKER_QUEUE"
  WorkItems :: "addr \<Rightarrow> WORKER_ITEM"

definition upd_queue ::
    "addr \<Rightarrow> (WORKER_QUEUE \<Rightarrow> WORKER_QUEUE) \<Rightarrow> 'a worker_state_scheme \<Rightarrow> 'a worker_state_scheme" where
  "upd_queue q f s = s\<lparr>WorkQueues := (WorkQueues s)(q := f (WorkQueues s q))\<rparr>"

definition upd_item ::
    "addr \<Rightarrow> (WORKER_ITEM \<Rightarrow> WORKER_ITEM) \<Rightarrow> 'a worker_state_scheme \<Rightarrow> 'a worker_state_scheme" where
  "upd_item i f s = s\<lparr>WorkItems := (WorkItems s)(i := f (WorkItems s i))\<rparr>"

section \<open>Operations\<close>

definition SoftInterruptIsAtomic :: "'a isr_state_scheme \<Rightarrow> bool option" where
  "SoftInterruptIsAtomic s = IsrIsAtomic IRQ_LEVEL_SOFT s"

text \<open>\<^verbatim>\<open>WorkerGetItem\<close>, called by the worker thread, may block in \<^verbatim>\<open>SemaphoreDown\<close>; the second part runs
  when it returns.\<close>

definition WorkerGetItem_down ::
    "'a worker_state_ext wake \<Rightarrow> addr \<Rightarrow> 'a worker_state_scheme \<Rightarrow> 'a worker_state_scheme option" where
  "WorkerGetItem_down wk queue s =
     do {
       (lock, s) \<leftarrow> SemaphoreDown wk (wq_Lock (WorkQueues s queue)) NULL s;
       Some (upd_queue queue (\<lambda>q. q\<lparr>wq_Lock := lock\<rparr>) s)
     }"

definition WorkerGetItem_pop :: "addr \<Rightarrow> 'a worker_state_scheme \<Rightarrow> (addr \<times> 'a worker_state_scheme) option" where
  "WorkerGetItem_pop queue s =
     do {
       let s = IsrDisable IRQ_LEVEL_CRIT s;
       let (link, s) = (case wq_List (WorkQueues s queue) of [] \<Rightarrow> (NULL, s)
         | i # is \<Rightarrow> (Some i, upd_queue queue (\<lambda>q. q\<lparr>wq_List := is\<rparr>) s));
       s \<leftarrow> IsrEnable IRQ_LEVEL_CRIT s;
       item \<leftarrow> link;
       Some (item, s)
     }"

text \<open>\<^verbatim>\<open>WorkerAddItem\<close> gives the permit first and enqueues the item afterwards; interrupts are enabled in
  between when it is called at thread level.\<close>

definition WorkerAddItem_up ::
    "'a worker_state_ext wake \<Rightarrow> addr \<Rightarrow> 'a worker_state_scheme \<Rightarrow> 'a worker_state_scheme option" where
  "WorkerAddItem_up wk queue s =
     do {
       atomic \<leftarrow> SoftInterruptIsAtomic s;
       ASSERT (\<not> atomic);
       (lock, s) \<leftarrow> SemaphoreUp wk (wq_Lock (WorkQueues s queue)) s;
       Some (upd_queue queue (\<lambda>q. q\<lparr>wq_Lock := lock\<rparr>) s)
     }"

definition WorkerEnqueue :: "addr \<Rightarrow> addr \<Rightarrow> 'a worker_state_scheme \<Rightarrow> 'a worker_state_scheme option" where
  "WorkerEnqueue queue item s =
     do {
       is \<leftarrow> enqueue item (wq_List (WorkQueues s queue));
       Some (upd_queue queue (\<lambda>q. q\<lparr>wq_List := is\<rparr>) s)
     }"

definition WorkerAddItem_enqueue :: "addr \<Rightarrow> addr \<Rightarrow> 'a worker_state_scheme \<Rightarrow> 'a worker_state_scheme option" where
  "WorkerAddItem_enqueue queue item s =
     do {
       let s = upd_item item (\<lambda>i. i\<lparr>wi_Queue := queue\<rparr>) s;
       let s = IsrDisable IRQ_LEVEL_CRIT s;
       let s = upd_item item (\<lambda>i. i\<lparr>wi_Finished := False\<rparr>) s;
       s \<leftarrow> WorkerEnqueue queue item s;
       IsrEnable IRQ_LEVEL_CRIT s
     }"

definition WorkerAddItem ::
    "'a worker_state_ext wake \<Rightarrow> addr \<Rightarrow> addr \<Rightarrow> 'a worker_state_scheme \<Rightarrow> 'a worker_state_scheme option" where
  "WorkerAddItem wk queue item s =
     do { s \<leftarrow> WorkerAddItem_up wk queue s; WorkerAddItem_enqueue queue item s }"

definition WorkerWakeOnLock ::
    "'a worker_state_ext wake \<Rightarrow> lctx \<Rightarrow> 'a worker_state_scheme \<Rightarrow> 'a worker_state_scheme option" where
  "WorkerWakeOnLock wk context s =
     (case context of
        WorkerContext worker \<Rightarrow>
          do {
            let queue = wi_Queue (WorkItems s worker);
            (case lc_State (Contexts s context) of
               LOCKING_STATE_READY \<Rightarrow> Some (upd_context context (\<lambda>c. c\<lparr>lc_State := LOCKING_STATE_ACQUIRED\<rparr>) s)
             | LOCKING_STATE_BLOCKING \<Rightarrow>
                 do {
                   s \<leftarrow> WorkerAddItem wk queue worker s;
                   Some (upd_context context (\<lambda>c. c\<lparr>lc_State := LOCKING_STATE_ACQUIRED\<rparr>) s)
                 }
             | LOCKING_STATE_ACQUIRED \<Rightarrow> None)
          }
      | _ \<Rightarrow> None)"

text \<open>The wake function of the kernel. Waking an item takes a permit of its queue, whose lock only the
  worker thread waits for; the depth of the recursion is therefore one, and the number bounds it.\<close>

primrec worker_wake :: "nat \<Rightarrow> 'a worker_state_ext wake" where
  "worker_wake 0 = (\<lambda>_ _. None)"
| "worker_wake (Suc n) = WorkerWakeOnLock (worker_wake n)"

text \<open>The body of the loop of \<^verbatim>\<open>WorkerThreadMain\<close> after an item has been fetched; \<open>foo\<close> is the code of the
  work items.\<close>

definition WorkerThreadItem ::
    "(nat \<Rightarrow> addr \<Rightarrow> 'a worker_state_scheme \<Rightarrow> (WORKER_RETURN \<times> 'a worker_state_scheme) option) \<Rightarrow>
     addr \<Rightarrow> addr \<Rightarrow> 'a worker_state_scheme \<Rightarrow> 'a worker_state_scheme option" where
  "WorkerThreadItem foo queue item s =
     do {
       ASSERT (\<not> wi_Finished (WorkItems s item));
       (result, s) \<leftarrow> foo (wi_Foo (WorkItems s item)) item s;
       (case result of
          WORKER_FINISHED \<Rightarrow> Some (upd_item item (\<lambda>i. i\<lparr>wi_Finished := True\<rparr>) s)
        | WORKER_BLOCKED \<Rightarrow> Some s
        | WORKER_PENDED \<Rightarrow>
            do {
              let s = IsrDisable IRQ_LEVEL_CRIT s;
              s \<leftarrow> WorkerEnqueue queue item s;
              IsrEnable IRQ_LEVEL_CRIT s
            })
     }"

definition WorkerCreateWorker ::
    "addr \<Rightarrow> INDEX \<times> 8 word list \<Rightarrow> COUNT \<Rightarrow> nat \<Rightarrow> 'a worker_state_scheme \<Rightarrow> 'a worker_state_scheme option" where
  "WorkerCreateWorker queue stack stackSize WorkerThreadMain s =
     do {
       let s = upd_queue queue (\<lambda>q. q\<lparr>wq_List := []\<rparr>) s;
       let s = upd_queue queue (\<lambda>q. q\<lparr>wq_Lock := SemaphoreInit (wq_Lock q) 0\<rparr>) s;
       SchedulerCreateThread (wq_Thread (WorkQueues s queue)) 10 stack stackSize (Some WorkerThreadMain) (Some queue) NULL True s
     }"

definition WorkerInitItem ::
    "'a worker_state_ext wake \<Rightarrow> addr \<Rightarrow> nat \<Rightarrow> ptr \<Rightarrow> addr \<Rightarrow> 'a worker_state_scheme \<Rightarrow> 'a worker_state_scheme option" where
  "WorkerInitItem wk queue foo context item s =
     do {
       let s = upd_item item (\<lambda>i. i\<lparr>wi_Foo := foo\<rparr>) s;
       let s = LockingInit (WorkerContext item) WorkerBlockOnLock_f WorkerWakeOnLock_f s;
       let s = upd_item item (\<lambda>i. i\<lparr>wi_Context := context\<rparr>) s;
       WorkerAddItem wk queue item s
     }"

definition WorkerItemIsFinished :: "addr \<Rightarrow> 'a worker_state_scheme \<Rightarrow> (bool \<times> 'a worker_state_scheme) option" where
  "WorkerItemIsFinished item s =
     do {
       let s = IsrDisable IRQ_LEVEL_MAX s;
       let result = wi_Finished (WorkItems s item);
       s \<leftarrow> IsrEnable IRQ_LEVEL_MAX s;
       Some (result, s)
     }"

definition WorkerGetContext :: "addr \<Rightarrow> 'a worker_state_scheme \<Rightarrow> ptr" where
  "WorkerGetContext item s = wi_Context (WorkItems s item)"

definition WorkerGetLockingContext :: "ptr \<Rightarrow> lctx option" where
  "WorkerGetLockingContext item = do { item \<leftarrow> item; Some (WorkerContext item) }"

section \<open>Frames\<close>

lemma worker_fields [simp]:
  "WorkQueues (upd_queue q f s) = (WorkQueues s)(q := f (WorkQueues s q))" "WorkItems (upd_queue q f s) = WorkItems s"
  "WorkItems (upd_item i g s) = (WorkItems s)(i := g (WorkItems s i))" "WorkQueues (upd_item i g s) = WorkQueues s"
  "Contexts (upd_queue q f s) = Contexts s" "Contexts (upd_item i g s) = Contexts s"
  "ActiveThread (upd_queue q f s) = ActiveThread s" "ActiveThread (upd_item i g s) = ActiveThread s"
  "RunQueue (upd_queue q f s) = RunQueue s" "RunQueue (upd_item i g s) = RunQueue s"
  "Threads (upd_queue q f s) = Threads s" "Threads (upd_item i g s) = Threads s"
  "IsrDisabledCount (upd_queue q f s) = IsrDisabledCount s" "IsrDisabledCount (upd_item i g s) = IsrDisabledCount s"
  by (simp_all add: upd_queue_def upd_item_def)

lemma worker_frame [simp]:
  "sched_ok (upd_queue q f s) = sched_ok s" "sched_ok (upd_item i g s) = sched_ok s"
  "isr_ok (upd_queue q f s) = isr_ok s" "isr_ok (upd_item i g s) = isr_ok s"
  "open_irq (upd_queue q f s) = open_irq s" "open_irq (upd_item i g s) = open_irq s"
  "in_crit (upd_queue q f s) = in_crit s" "in_crit (upd_item i g s) = in_crit s"
  "outside (upd_queue q f s) = outside s" "outside (upd_item i g s) = outside s"
  "may_wait c (upd_queue q f s) = may_wait c s" "sem_ok lock (upd_queue q f s) = sem_ok lock s"
  "sem_ok lock (upd_item i g s) = sem_ok lock s" "wakeable d (upd_queue q f s) = wakeable d s"
  by (simp_all add: upd_queue_def upd_item_def outside_def open_irq_def in_crit_def crit_levels_def isr_ok_def hal_ok_def
      sched_ok_def run_queue_ok_def contexts_ok_def switch_ok_def queues_ok_def may_wait_def ctx_of_def sem_ok_def parked_ok_def
      wakeable_def split: option.split lctx.split)

lemma worker_counts [simp]:
  "WorkQueues (set_counts c s) = WorkQueues s" "WorkItems (set_counts c s) = WorkItems s"
  "upd_queue q f (set_counts c s) = set_counts c (upd_queue q f s)" "upd_item i g (set_counts c s) = set_counts c (upd_item i g s)"
  by (simp_all add: set_counts_def upd_queue_def upd_item_def)

lemma worker_resumed [simp]:
  "WorkQueues (resumed t s) = WorkQueues s" "WorkItems (resumed t s) = WorkItems s" "ActiveThread (resumed t s) = ActiveThread s"
  by (simp_all add: resumed_def)

lemma worker_disable [simp]:
  "WorkQueues (IsrDisable l s) = WorkQueues s" "WorkItems (IsrDisable l s) = WorkItems s"
  by (simp_all add: IsrDisable_def IsrDefer_def IsrDeferLoop_top HalSetIrq_def Let_def)

lemma open_irq_soft: "open_irq s \<Longrightarrow> SoftInterruptIsAtomic s = Some False"
proof -
  assume a: "open_irq s"
  have ok: "isr_ok s" "\<not> HalIrqToMask s IRQ_LEVEL_CRIT \<subseteq> HalIrqToMask s IRQ_LEVEL_NONE" "\<forall>l. IsrDisabledCount s l = 0"
    using a by (simp_all add: open_irq_def crit_levels_def)
  have top: "isr_top (IsrDisabledCount s) = IRQ_LEVEL_NONE" using ok(3) by (simp add: isr_top_def numeral_eq_Suc)
  have "\<not> HalIrqToMask s k \<subseteq> HalIrqToMask s IRQ_LEVEL_NONE" if "k < IRQ_LEVEL_COUNT" "IRQ_LEVEL_NONE < k" for k
  proof -
    have "HalIrqToMask s IRQ_LEVEL_CRIT \<subseteq> HalIrqToMask s k" by (rule hal_ok_mono) (use ok(1) that in \<open>auto simp: isr_ok_def\<close>)
    then show ?thesis using ok(2) by blast
  qed
  then have "IsrAtomicLoop (IRQ_LEVEL_COUNT - IRQ_LEVEL_SOFT) IRQ_LEVEL_SOFT s =
      Some (\<exists>k < IRQ_LEVEL_COUNT - IRQ_LEVEL_SOFT. IsrDisabledCount s (IRQ_LEVEL_SOFT + k) \<noteq> 0)"
    by (intro IsrAtomicLoop_counts) (use ok(1) top in auto)
  then show ?thesis using ok(3) by (simp add: SoftInterruptIsAtomic_def IsrIsAtomic_def)
qed

lemma in_crit_soft: "in_crit s \<Longrightarrow> SoftInterruptIsAtomic s = Some False"
  using in_crit_atomic [of s IRQ_LEVEL_SOFT] by (simp add: SoftInterruptIsAtomic_def)

section \<open>The semaphore of a queue\<close>

text \<open>Only the worker thread waits for the permits of its queue. A permit given then resumes exactly it.\<close>

definition resumed_by :: "SEMAPHORE \<Rightarrow> 'a sched_state_scheme \<Rightarrow> 'a sched_state_scheme" where
  "resumed_by lock s = (case se_WaitingThreads lock of ThreadContext t # q \<Rightarrow> resumed t s | _ \<Rightarrow> s)"

definition thread_waiters :: "SEMAPHORE \<Rightarrow> bool" where
  "thread_waiters lock \<longleftrightarrow> (\<forall>c\<in>set (se_WaitingThreads lock). \<exists>t. c = ThreadContext t)"

lemma SemaphoreUp_thread:
  assumes "open_irq s \<or> in_crit s" and "sched_ok s" and cnt: "IsrDisabledCount s IRQ_LEVEL_CRIT + 1 \<noteq> 0"
    and "thread_waiters lock" and "\<forall>c\<in>set (se_WaitingThreads lock). wakeable c s"
  shows "SemaphoreUp wk lock s = Some (sem_up lock, resumed_by lock s)"
proof -
  have isr: "isr_ok s" using assms(1) by (auto simp: open_irq_def in_crit_def crit_levels_def)
  note st = nested_start [OF isr cnt assms(1)]
  have sec: "LockingEnd (u (LockingStart s)) = Some (u s)"
    if "isr_ok (u s)" "IsrDisabledCount (u s) = IsrDisabledCount s" "\<And>c. u (set_counts c s) = set_counts c (u s)" for u
    unfolding LockingEnd_def SchedulerEndCritical_def LockingStart_def SchedulerStartCritical_def
    by (rule isr_section [OF isr cnt]) (use that in auto)
  show ?thesis
  proof (cases "se_WaitingThreads lock")
    case Nil
    then show ?thesis using sec [of "\<lambda>s. s"] isr by (simp add: SemaphoreUp_def sem_up_def resumed_by_def)
  next
    case (Cons c q)
    then obtain t where c: "c = ThreadContext t" using assms(4) by (auto simp: thread_waiters_def)
    have "wakeable (ThreadContext t) (LockingStart s)" "sched_ok (LockingStart s)"
      using assms(2,5) st(1) Cons c by auto
    then have acq: "LockingAcquire wk (Some (ThreadContext t)) (LockingStart s) = Some (resumed t (LockingStart s))"
      using acquire_resumed [OF st(2)] by blast
    have "LockingEnd (resumed t (LockingStart s)) = Some (resumed t s)"
      by (rule sec) (use isr in \<open>simp_all add: resumed_def set_counts_def isr_ok_def hal_ok_def\<close>)
    then show ?thesis using Cons c acq by (simp add: SemaphoreUp_def sem_up_def resumed_by_def)
  qed
qed

section \<open>What the operations do\<close>

lemma WorkerAddItem_up_eq:
  assumes "open_irq s \<or> in_crit s" and "sched_ok s" and "IsrDisabledCount s IRQ_LEVEL_CRIT + 1 \<noteq> 0"
    and "thread_waiters (wq_Lock (WorkQueues s q))" and "\<forall>c\<in>set (se_WaitingThreads (wq_Lock (WorkQueues s q))). wakeable c s"
  shows "WorkerAddItem_up wk q s =
     Some (upd_queue q (\<lambda>w. w\<lparr>wq_Lock := sem_up (wq_Lock w)\<rparr>) (resumed_by (wq_Lock (WorkQueues s q)) s))"
proof -
  have "SoftInterruptIsAtomic s = Some False" using assms(1) open_irq_soft in_crit_soft by blast
  moreover have "WorkQueues (resumed_by lock s) = WorkQueues s" for lock
    by (simp add: resumed_by_def split: list.split lctx.split)
  ultimately show ?thesis
    using SemaphoreUp_thread [OF assms, of wk] by (simp add: WorkerAddItem_up_def upd_queue_def)
qed

lemma WorkerAddItem_enqueue_eq:
  assumes "isr_ok s" and "IsrDisabledCount s IRQ_LEVEL_CRIT + 1 \<noteq> 0" and "i \<notin> set (wq_List (WorkQueues s q))"
  shows "WorkerAddItem_enqueue q i s =
     Some (upd_queue q (\<lambda>w. w\<lparr>wq_List := wq_List w @ [i]\<rparr>) (upd_item i (\<lambda>w. w\<lparr>wi_Queue := q, wi_Finished := False\<rparr>) s))"
proof -
  let ?u = "\<lambda>s. upd_queue q (\<lambda>w. w\<lparr>wq_List := wq_List w @ [i]\<rparr>) (upd_item i (\<lambda>w. w\<lparr>wi_Finished := False\<rparr>) s)"
  let ?s = "upd_item i (\<lambda>w. w\<lparr>wi_Queue := q\<rparr>) s"
  have "IsrEnable IRQ_LEVEL_CRIT (?u (IsrDisable IRQ_LEVEL_CRIT ?s)) = Some (?u ?s)"
    by (rule isr_section) (use assms in simp_all)
  moreover have "?u ?s = upd_queue q (\<lambda>w. w\<lparr>wq_List := wq_List w @ [i]\<rparr>) (upd_item i (\<lambda>w. w\<lparr>wi_Queue := q, wi_Finished := False\<rparr>) s)"
    by (simp add: upd_queue_def upd_item_def)
  ultimately show ?thesis
    using assms(3) by (simp add: WorkerAddItem_enqueue_def WorkerEnqueue_def enqueue_def upd_queue_def)
qed

lemma resumed_by_frame [simp]:
  "WorkQueues (resumed_by lock s) = WorkQueues s" "WorkItems (resumed_by lock s) = WorkItems s"
  "isr_ok (resumed_by lock s) = isr_ok s" "IsrDisabledCount (resumed_by lock s) = IsrDisabledCount s"
  "ActiveThread (resumed_by lock s) = ActiveThread s"
  by (simp_all add: resumed_by_def resumed_def isr_ok_def hal_ok_def split: list.split lctx.split)

text \<open>Adding an item: the permit, the worker resumed if it waits, the item at the end of the list.\<close>

definition item_added :: "addr \<Rightarrow> addr \<Rightarrow> 'a worker_state_scheme \<Rightarrow> 'a worker_state_scheme" where
  "item_added q i s = upd_queue q (\<lambda>w. w\<lparr>wq_Lock := sem_up (wq_Lock w), wq_List := wq_List w @ [i]\<rparr>)
     (upd_item i (\<lambda>w. w\<lparr>wi_Queue := q, wi_Finished := False\<rparr>) (resumed_by (wq_Lock (WorkQueues s q)) s))"

lemma WorkerAddItem_eq:
  assumes "open_irq s \<or> in_crit s" and "sched_ok s" and "IsrDisabledCount s IRQ_LEVEL_CRIT + 1 \<noteq> 0"
    and "thread_waiters (wq_Lock (WorkQueues s q))" and "\<forall>c\<in>set (se_WaitingThreads (wq_Lock (WorkQueues s q))). wakeable c s"
    and "i \<notin> set (wq_List (WorkQueues s q))"
  shows "WorkerAddItem wk q i s = Some (item_added q i s)"
proof -
  have isr: "isr_ok s" using assms(1) by (auto simp: open_irq_def in_crit_def crit_levels_def)
  let ?s = "upd_queue q (\<lambda>w. w\<lparr>wq_Lock := sem_up (wq_Lock w)\<rparr>) (resumed_by (wq_Lock (WorkQueues s q)) s)"
  have "WorkerAddItem_enqueue q i ?s =
     Some (upd_queue q (\<lambda>w. w\<lparr>wq_List := wq_List w @ [i]\<rparr>) (upd_item i (\<lambda>w. w\<lparr>wi_Queue := q, wi_Finished := False\<rparr>) ?s))"
    by (rule WorkerAddItem_enqueue_eq) (use isr assms(3,6) in simp_all)
  also have "\<dots> = Some (item_added q i s)" by (simp add: item_added_def upd_queue_def upd_item_def)
  finally have "WorkerAddItem_enqueue q i ?s = Some (item_added q i s)" .
  then show ?thesis using WorkerAddItem_up_eq [OF assms(1-5), of wk] by (simp add: WorkerAddItem_def)
qed

lemma WorkerGetItem_pop_eq:
  assumes "isr_ok s" and "IsrDisabledCount s IRQ_LEVEL_CRIT + 1 \<noteq> 0"
  shows "WorkerGetItem_pop q s = (case wq_List (WorkQueues s q) of [] \<Rightarrow> None
     | i # is \<Rightarrow> Some (i, upd_queue q (\<lambda>w. w\<lparr>wq_List := is\<rparr>) s))"
proof (cases "wq_List (WorkQueues s q)")
  case Nil
  then show ?thesis by (simp add: WorkerGetItem_pop_def split: bind_splits)
next
  case (Cons i "is")
  have "IsrEnable IRQ_LEVEL_CRIT (upd_queue q (\<lambda>w. w\<lparr>wq_List := is\<rparr>) (IsrDisable IRQ_LEVEL_CRIT s)) =
      Some (upd_queue q (\<lambda>w. w\<lparr>wq_List := is\<rparr>) s)"
    by (rule isr_section) (use assms in simp_all)
  then show ?thesis using Cons by (simp add: WorkerGetItem_pop_def)
qed

lemma WorkerThreadItem_eq:
  assumes "\<not> wi_Finished (WorkItems s i)" and "foo (wi_Foo (WorkItems s i)) i s = Some (r, s1)"
    and "isr_ok s1" and "IsrDisabledCount s1 IRQ_LEVEL_CRIT + 1 \<noteq> 0" and "i \<notin> set (wq_List (WorkQueues s1 q))"
  shows "WorkerThreadItem foo q i s = Some (case r of WORKER_FINISHED \<Rightarrow> upd_item i (\<lambda>w. w\<lparr>wi_Finished := True\<rparr>) s1
     | WORKER_BLOCKED \<Rightarrow> s1 | WORKER_PENDED \<Rightarrow> upd_queue q (\<lambda>w. w\<lparr>wq_List := wq_List w @ [i]\<rparr>) s1)"
proof -
  have "IsrEnable IRQ_LEVEL_CRIT (upd_queue q (\<lambda>w. w\<lparr>wq_List := wq_List w @ [i]\<rparr>) (IsrDisable IRQ_LEVEL_CRIT s1)) =
      Some (upd_queue q (\<lambda>w. w\<lparr>wq_List := wq_List w @ [i]\<rparr>) s1)"
    by (rule isr_section) (use assms(3,4) in simp_all)
  then show ?thesis
    using assms(1,2,5) by (cases r) (simp_all add: WorkerThreadItem_def WorkerEnqueue_def enqueue_def upd_queue_def)
qed

lemma worker_more: "sched_state.more s' = sched_state.more s \<Longrightarrow> WorkQueues s' = WorkQueues s \<and> WorkItems s' = WorkItems s"
  for s :: "'a worker_state_scheme"
  by (cases s; cases s') simp

lemma timers_kept_down:
  assumes "outside s" and "may_wait NULL s" and "SemaphoreDown wk lock NULL s = Some (lock', s')"
  shows "timers_kept s s'"
proof -
  have "\<exists>s1. ((\<exists>c. LockingBlock NULL NULL (LockingStart s) = Some (c, s1)) \<or> LockingAcquire wk NULL (LockingStart s) = Some s1) \<and>
      LockingEnd s1 = Some s'"
    using assms(3) by (cases "se_Count lock = 0") (auto simp: SemaphoreDown_def Let_def bind_Some_iff)
  then show ?thesis using timers_kept_section [OF assms(1,2)] by blast
qed

lemma WorkerGetItem_down_ok:
  assumes "outside s" and "may_wait NULL s" and "sem_ok (wq_Lock (WorkQueues s q)) s" and "WorkerGetItem_down wk q s = Some s'"
  shows "outside s'" "WorkItems s' = WorkItems s"
    "WorkQueues s' = (WorkQueues s)(q := (WorkQueues s q)\<lparr>wq_Lock := sem_down (ThreadContext (ActiveThread s)) (wq_Lock (WorkQueues s q))\<rparr>)"
    "sem_ok (wq_Lock (WorkQueues s' q)) s'"
proof -
  let ?lock = "sem_down (ThreadContext (ActiveThread s)) (wq_Lock (WorkQueues s q))"
  obtain s1 where d: "SemaphoreDown wk (wq_Lock (WorkQueues s q)) NULL s = Some (?lock, s1)" "outside s1" "sem_ok ?lock s1"
    using SemaphoreDown_user [OF assms(1,3,2), of wk] by (auto simp: ctx_of_def)
  have "timers_kept s s1" by (rule timers_kept_down [OF assms(1,2) d(1)])
  then have m: "WorkQueues s1 = WorkQueues s" "WorkItems s1 = WorkItems s" using worker_more by (auto simp: timers_kept_def)
  have "s' = upd_queue q (\<lambda>w. w\<lparr>wq_Lock := ?lock\<rparr>) s1" using assms(4) d(1) by (simp add: WorkerGetItem_down_def)
  then show "outside s'" "WorkItems s' = WorkItems s"
    "WorkQueues s' = (WorkQueues s)(q := (WorkQueues s q)\<lparr>wq_Lock := ?lock\<rparr>)" "sem_ok (wq_Lock (WorkQueues s' q)) s'"
    using d m by simp_all
qed

lemma resumed_by_ok:
  assumes "sched_ok s" and "open_irq s \<or> in_crit s" and "\<forall>c\<in>set (se_WaitingThreads lock). wakeable c s" and "thread_waiters lock"
  shows "sched_ok (resumed_by lock s)" "open_irq (resumed_by lock s) = open_irq s" "in_crit (resumed_by lock s) = in_crit s"
proof -
  show "open_irq (resumed_by lock s) = open_irq s" "in_crit (resumed_by lock s) = in_crit s"
    by (simp_all add: resumed_by_def resumed_def open_irq_def in_crit_def crit_levels_def isr_ok_def hal_ok_def
        split: list.split lctx.split)
  show "sched_ok (resumed_by lock s)"
  proof (cases "se_WaitingThreads lock")
    case (Cons c q)
    then obtain t where c: "c = ThreadContext t" using assms(4) by (auto simp: thread_waiters_def)
    then have w: "wakeable (ThreadContext t) s" using assms(3) Cons by simp
    have o: "run_queue_ok s" "contexts_ok s" "switch_ok s" using assms(1) by (simp_all add: sched_ok_def)
    have st: "th_State (Threads s t) = THREAD_STATE_BLOCKED" "t \<noteq> IdleThread" "resumable (th_Stack (Threads s t))" "t \<noteq> ActiveThread s"
      using o(2) w by (auto simp: contexts_ok_def wakeable_def)
    then have "t \<notin> set (RunQueue s)" using o(1) by (auto simp: run_queue_ok_def)
    then have "run_queue_ok (resumed t s)" "contexts_ok (resumed t s)" "switch_ok (resumed t s)"
      using o st by (auto simp: resumed_def run_queue_ok_def contexts_ok_def switch_ok_def queues_ok_def)
    then show ?thesis using assms(1) st(4) Cons c by (simp add: resumed_by_def sched_ok_def) (simp add: resumed_def)
  qed (use assms(1) in \<open>simp add: resumed_by_def\<close>)
qed

section \<open>Work items that wait for locks\<close>

lemma item_added_frame:
  assumes "sched_ok s" and "open_irq s \<or> in_crit s" and "\<forall>c\<in>set (se_WaitingThreads (wq_Lock (WorkQueues s q))). wakeable c s"
    and "thread_waiters (wq_Lock (WorkQueues s q))"
  shows "sched_ok (item_added q i s)" "open_irq (item_added q i s) = open_irq s" "in_crit (item_added q i s) = in_crit s"
    "isr_ok (item_added q i s) = isr_ok s" "IsrDisabledCount (item_added q i s) = IsrDisabledCount s"
    "WorkQueues (item_added q i s) = (WorkQueues s)(q := (WorkQueues s q)\<lparr>wq_Lock := sem_up (wq_Lock (WorkQueues s q)),
       wq_List := wq_List (WorkQueues s q) @ [i]\<rparr>)"
    "WorkItems (item_added q i s) = (WorkItems s)(i := (WorkItems s i)\<lparr>wi_Queue := q, wi_Finished := False\<rparr>)"
    "ActiveThread (item_added q i s) = ActiveThread s"
  using resumed_by_ok [OF assms] by (simp_all add: item_added_def)

lemma item_added_counts [simp]: "item_added q i (set_counts c s) = set_counts c (item_added q i s)"
proof -
  have "resumed_by lock (set_counts c s) = set_counts c (resumed_by lock s)" for lock
    by (simp add: resumed_by_def resumed_def set_counts_def split: list.split lctx.split)
  then show ?thesis by (simp add: item_added_def)
qed

lemma context_counts [simp]:
  "upd_context c g (set_counts n s) = set_counts n (upd_context c g s)" "isr_ok (upd_context c g s) = isr_ok s"
  "IsrDisabledCount (upd_context c g s) = IsrDisabledCount s" "open_irq (upd_context c g s) = open_irq s"
  by (simp_all add: upd_context_def set_counts_def isr_ok_def hal_ok_def open_irq_def crit_levels_def)

text \<open>The item is queued again and its context is acquired.\<close>

definition item_granted :: "addr \<Rightarrow> 'a worker_state_scheme \<Rightarrow> 'a worker_state_scheme" where
  "item_granted i s = upd_context (WorkerContext i) (\<lambda>c. c\<lparr>lc_State := LOCKING_STATE_ACQUIRED\<rparr>)
     (item_added (wi_Queue (WorkItems s i)) i s)"

lemma sched_ok_worker_context: "sched_ok (upd_context (WorkerContext i) g s) = sched_ok s"
  by (simp add: sched_ok_def) (simp add: contexts_ok_def)

lemma acquire_granted:
  assumes "in_crit s" and "sched_ok s" and "IsrDisabledCount s IRQ_LEVEL_CRIT + 1 \<noteq> 0"
    and "waiting (WorkerContext i) s" and "lc_WakeFunction (Contexts s (WorkerContext i)) = WorkerWakeOnLock_f"
    and "thread_waiters (wq_Lock (WorkQueues s (wi_Queue (WorkItems s i))))"
    and "\<forall>c\<in>set (se_WaitingThreads (wq_Lock (WorkQueues s (wi_Queue (WorkItems s i))))). wakeable c s"
    and "i \<notin> set (wq_List (WorkQueues s (wi_Queue (WorkItems s i))))"
  shows "LockingAcquire (worker_wake (Suc n)) (Some (WorkerContext i)) s = Some (item_granted i s)"
  using assms WorkerAddItem_eq [OF _ assms(2,3,6-8), of "worker_wake n"]
  by (simp add: LockingAcquire_def LockingGetContext_def call_wake_def WorkerWakeOnLock_def item_granted_def)

lemma SemaphoreUp_granted:
  assumes out: "outside s" and w: "se_WaitingThreads lock = WorkerContext i # ws"
    and i: "waiting (WorkerContext i) s" "lc_WakeFunction (Contexts s (WorkerContext i)) = WorkerWakeOnLock_f"
    and q: "q = wi_Queue (WorkItems s i)" "thread_waiters (wq_Lock (WorkQueues s q))"
      "\<forall>c\<in>set (se_WaitingThreads (wq_Lock (WorkQueues s q))). wakeable c s" "i \<notin> set (wq_List (WorkQueues s q))"
  shows "SemaphoreUp (worker_wake (Suc n)) lock s = Some (lock\<lparr>se_WaitingThreads := ws\<rparr>, item_granted i s)"
    "outside (item_granted i s)"
proof -
  have o: "open_irq s" "sched_ok s" "isr_ok s" "IsrDisabledCount s l = 0" for l
    using out by (simp_all add: outside_def open_irq_def crit_levels_def)
  note st = LockingStart_ok [OF out]
  obtain c where start: "LockingStart s = set_counts c s" and cnt: "c IRQ_LEVEL_CRIT = 1"
    using start_critical(1) [OF o(1)] o(4) by (auto simp: LockingStart_def crit_counts_def)
  have "\<forall>c\<in>set (se_WaitingThreads (wq_Lock (WorkQueues s q))). wakeable c (LockingStart s)" using q(3) start by simp
  then have acq: "LockingAcquire (worker_wake (Suc n)) (Some (WorkerContext i)) (LockingStart s) = Some (item_granted i (LockingStart s))"
    by (intro acquire_granted [OF st(1,2)]) (use i q start cnt in \<open>simp_all add: set_counts_def\<close>)
  have fr: "sched_ok (item_added q i s)" "open_irq (item_added q i s)" "isr_ok (item_added q i s)"
     "IsrDisabledCount (item_added q i s) = IsrDisabledCount s"
    using item_added_frame [OF o(2) _ q(3,2), of i] o by auto
  have "LockingEnd (item_granted i (LockingStart s)) = Some (item_granted i s)"
    unfolding LockingEnd_def SchedulerEndCritical_def LockingStart_def SchedulerStartCritical_def
    by (rule isr_section) (use o fr q(1) in \<open>simp_all add: item_granted_def\<close>)
  then show "SemaphoreUp (worker_wake (Suc n)) lock s = Some (lock\<lparr>se_WaitingThreads := ws\<rparr>, item_granted i s)"
    using w acq by (simp add: SemaphoreUp_def)
  show "outside (item_granted i s)"
    using fr q(1) by (simp add: outside_def item_granted_def sched_ok_worker_context)
qed

section \<open>Runs of a worker\<close>

text \<open>
  A run of the queue \<open>q\<close>. A thread that adds an item gives the permit in one step and enqueues the item in
  another, and anything may happen in between; a lock that is granted to an item does both inside its critical
  section. An item that is being added, is queued or is running is not added again by its owner, and one that
  waits for a lock returns \<^verbatim>\<open>WORKER_BLOCKED\<close>. The arguments behind the state of the worker are the items whose permit has
  been given and which are not in the list yet, the items enqueued and those taken so far, and how often an
  item has returned \<^verbatim>\<open>WORKER_PENDED\<close>.
\<close>

datatype worker_pc = Fetching | Popping | Running addr

definition others_step :: "addr \<Rightarrow> 'a worker_state_scheme \<Rightarrow> 'a worker_state_scheme \<Rightarrow> bool" where
  "others_step q s s' \<longleftrightarrow> outside s' \<and> WorkQueues s' q = WorkQueues s q \<and>
     (\<forall>i. wi_Finished (WorkItems s' i) = wi_Finished (WorkItems s i)) \<and>
     (\<forall>c\<in>set (se_WaitingThreads (wq_Lock (WorkQueues s q))). waiting c s')"

inductive worker_run ::
    "nat \<Rightarrow> (nat \<Rightarrow> addr \<Rightarrow> 'a worker_state_scheme \<Rightarrow> (WORKER_RETURN \<times> 'a worker_state_scheme) option) \<Rightarrow> addr \<Rightarrow>
     'a worker_state_scheme \<Rightarrow> worker_pc \<Rightarrow> addr list \<Rightarrow> addr list \<Rightarrow> addr list \<Rightarrow> nat \<Rightarrow> bool" for n foo q where
  run_start: "outside s \<Longrightarrow> wq_List (WorkQueues s q) = [] \<Longrightarrow> wq_Lock (WorkQueues s q) = SemaphoreInit lock 0 \<Longrightarrow>
    worker_run n foo q s Fetching [] [] [] 0"
| run_other: "worker_run n foo q s pc adding enq taken p \<Longrightarrow> others_step q s s' \<Longrightarrow> worker_run n foo q s' pc adding enq taken p"
| run_up: "worker_run n foo q s pc adding enq taken p \<Longrightarrow> caller_runs s \<Longrightarrow> i \<notin> set (wq_List (WorkQueues s q)) \<Longrightarrow>
    i \<notin> set adding \<Longrightarrow> pc \<noteq> Running i \<Longrightarrow> WorkerAddItem_up (worker_wake n) q s = Some s' \<Longrightarrow>
    worker_run n foo q s' pc (adding @ [i]) enq taken p"
| run_enqueue: "worker_run n foo q s pc adding enq taken p \<Longrightarrow> i \<in> set adding \<Longrightarrow> WorkerAddItem_enqueue q i s = Some s' \<Longrightarrow>
    worker_run n foo q s' pc (remove1 i adding) (enq @ [i]) taken p"
| run_granted: "worker_run n foo q s pc adding enq taken p \<Longrightarrow> caller_runs s \<Longrightarrow> i \<notin> set (wq_List (WorkQueues s q)) \<Longrightarrow>
    i \<notin> set adding \<Longrightarrow> q = wi_Queue (WorkItems s i) \<Longrightarrow> se_WaitingThreads lock = WorkerContext i # ws \<Longrightarrow>
    waiting (WorkerContext i) s \<Longrightarrow> lc_WakeFunction (Contexts s (WorkerContext i)) = WorkerWakeOnLock_f \<Longrightarrow>
    SemaphoreUp (worker_wake (Suc n)) lock s = Some (lock', s') \<Longrightarrow> worker_run n foo q s' pc adding (enq @ [i]) taken p"
| run_down: "worker_run n foo q s Fetching adding enq taken p \<Longrightarrow> ActiveThread s = wq_Thread (WorkQueues s q) \<Longrightarrow> may_wait NULL s \<Longrightarrow>
    WorkerGetItem_down (worker_wake n) q s = Some s' \<Longrightarrow> worker_run n foo q s' Popping adding enq taken p"
| run_pop: "worker_run n foo q s Popping adding enq taken p \<Longrightarrow> \<not> waiting (ThreadContext (wq_Thread (WorkQueues s q))) s \<Longrightarrow>
    WorkerGetItem_pop q s = Some (i, s') \<Longrightarrow> worker_run n foo q s' (Running i) adding enq (taken @ [i]) p"
| run_item: "worker_run n foo q s (Running i) adding enq taken p \<Longrightarrow> foo (wi_Foo (WorkItems s i)) i s = Some (r, s1) \<Longrightarrow>
    others_step q s s1 \<Longrightarrow> (r \<noteq> WORKER_BLOCKED \<longrightarrow> i \<notin> set (wq_List (WorkQueues s1 q))) \<Longrightarrow>
    WorkerThreadItem foo q i s = Some s' \<Longrightarrow>
    worker_run n foo q s' Fetching adding (if r = WORKER_PENDED then enq @ [i] else enq) taken (if r = WORKER_PENDED then p + 1 else p)"

text \<open>The invariant: permits agree with the items in the list and those being added, but for the items that were pended.\<close>

definition permit_taken :: "worker_pc \<Rightarrow> SEMAPHORE \<Rightarrow> nat" where
  "permit_taken pc lock = (if pc = Popping \<and> se_WaitingThreads lock = [] then 1 else 0)"

definition worker_waiters :: "WORKER_QUEUE \<Rightarrow> worker_pc \<Rightarrow> bool" where
  "worker_waiters w pc \<longleftrightarrow> se_WaitingThreads (wq_Lock w) = [] \<or>
     se_WaitingThreads (wq_Lock w) = [ThreadContext (wq_Thread w)] \<and> pc = Popping"

definition worker_ok ::
    "addr \<Rightarrow> 'a worker_state_scheme \<Rightarrow> worker_pc \<Rightarrow> addr list \<Rightarrow> addr list \<Rightarrow> addr list \<Rightarrow> nat \<Rightarrow> bool" where
  "worker_ok q s pc adding enq taken p \<longleftrightarrow> (let w = WorkQueues s q in
     outside s \<and> sem_ok (wq_Lock w) s \<and> distinct (wq_List w @ adding) \<and> (\<forall>i\<in>set (wq_List w). \<not> wi_Finished (WorkItems s i)) \<and>
     enq = taken @ wq_List w \<and> worker_waiters w pc \<and>
     (\<forall>i. pc = Running i \<longrightarrow> i \<notin> set adding \<and> \<not> wi_Finished (WorkItems s i)) \<and>
     (length enq + length adding < 2 ^ 64 \<longrightarrow>
        length (wq_List w) + length adding = unat (se_Count (wq_Lock w)) + permit_taken pc (wq_Lock w) + p))"

lemma worker_okD:
  assumes "worker_ok q s pc adding enq taken p"
  shows "outside s" "sem_ok (wq_Lock (WorkQueues s q)) s" "distinct (wq_List (WorkQueues s q) @ adding)"
    "\<forall>i\<in>set (wq_List (WorkQueues s q)). \<not> wi_Finished (WorkItems s i)" "enq = taken @ wq_List (WorkQueues s q)"
    "worker_waiters (WorkQueues s q) pc" "\<forall>i. pc = Running i \<longrightarrow> i \<notin> set adding \<and> \<not> wi_Finished (WorkItems s i)"
    "length enq + length adding < 2 ^ 64 \<Longrightarrow> length (wq_List (WorkQueues s q)) + length adding =
       unat (se_Count (wq_Lock (WorkQueues s q))) + permit_taken pc (wq_Lock (WorkQueues s q)) + p"
  using assms by (auto simp: worker_ok_def Let_def)

lemma worker_ok_waiters:
  assumes "worker_ok q s pc adding enq taken p" and "caller_runs s"
  shows "thread_waiters (wq_Lock (WorkQueues s q))" "\<forall>c\<in>set (se_WaitingThreads (wq_Lock (WorkQueues s q))). wakeable c s"
  using worker_okD(2,6) [OF assms(1)] assms(2) parked_wakeable [of "se_WaitingThreads (wq_Lock (WorkQueues s q))" s]
  by (auto simp: thread_waiters_def sem_ok_def worker_waiters_def)

lemma worker_ok_runs:
  assumes "worker_ok q s Popping adding enq taken p" and "\<not> waiting (ThreadContext (wq_Thread (WorkQueues s q))) s"
  shows "se_WaitingThreads (wq_Lock (WorkQueues s q)) = []"
  using worker_okD(2,6) [OF assms(1)] assms(2) by (auto simp: sem_ok_def parked_ok_def worker_waiters_def)

lemma outside_facts:
  assumes "outside s"
  shows "open_irq s" "sched_ok s" "isr_ok s" "IsrDisabledCount s l = 0" "IsrDisabledCount s l + 1 \<noteq> 0"
  using assms by (simp_all add: outside_def open_irq_def crit_levels_def)

lemma worker_ok_other:
  assumes "worker_ok q s pc adding enq taken p" and "others_step q s s'"
  shows "worker_ok q s' pc adding enq taken p"
  using assms by (simp add: worker_ok_def others_step_def sem_ok_def parked_ok_def Let_def)

text \<open>A permit given is a permit more, in the count or in the hands of the worker.\<close>

lemma sem_up_permits:
  assumes "worker_waiters w pc" and "unat (se_Count (wq_Lock w)) + 1 < 2 ^ 64"
  shows "unat (se_Count (sem_up (wq_Lock w))) + permit_taken pc (sem_up (wq_Lock w)) =
      unat (se_Count (wq_Lock w)) + permit_taken pc (wq_Lock w) + 1"
proof (cases "se_WaitingThreads (wq_Lock w)")
  case Nil
  have "unat (se_Count (wq_Lock w) + 1) = unat (se_Count (wq_Lock w)) + 1" by (rule unat_Suc_word) (use assms(2) in simp)
  then show ?thesis using Nil by (simp add: sem_up_def permit_taken_def)
next
  case (Cons c cs)
  then have "se_WaitingThreads (wq_Lock w) = [ThreadContext (wq_Thread w)]" "pc = Popping"
    using assms(1) by (auto simp: worker_waiters_def)
  then show ?thesis by (simp add: sem_up_def permit_taken_def)
qed

lemma sem_up_empty: "worker_waiters w pc \<Longrightarrow> se_WaitingThreads (sem_up (wq_Lock w)) = []"
  by (auto simp: worker_waiters_def sem_up_def)

text \<open>The three ways in which an item gets on its way: the permit, the place in the list, both at once.\<close>

lemma worker_ok_up:
  assumes ok: "worker_ok q s pc adding enq taken p" and i: "i \<notin> set (wq_List (WorkQueues s q))" "i \<notin> set adding" "pc \<noteq> Running i"
    and out: "outside s'" and w': "WorkQueues s' q = (WorkQueues s q)\<lparr>wq_Lock := sem_up (wq_Lock (WorkQueues s q))\<rparr>"
    and f: "WorkItems s' = WorkItems s"
  shows "worker_ok q s' pc (adding @ [i]) enq taken p"
proof -
  note o = worker_okD [OF ok]
  have "length (wq_List (WorkQueues s q)) + length (adding @ [i]) =
      unat (se_Count (sem_up (wq_Lock (WorkQueues s q)))) + permit_taken pc (sem_up (wq_Lock (WorkQueues s q))) + p"
    if lt: "length enq + length (adding @ [i]) < 2 ^ 64"
  proof -
    have "unat (se_Count (wq_Lock (WorkQueues s q))) + 1 < 2 ^ 64" using o(5,8) lt by simp
    from sem_up_permits [OF o(6) this] show ?thesis using o(8) lt by simp
  qed
  then show ?thesis
    using o(3,4,5,7) i out sem_up_empty [OF o(6)] unfolding worker_ok_def Let_def w' f
    by (auto simp: sem_ok_def parked_ok_def worker_waiters_def)
qed

lemma worker_ok_enqueue:
  assumes ok: "worker_ok q s pc adding enq taken p" and i: "i \<in> set adding" and out: "outside s'"
    and w': "WorkQueues s' q = (WorkQueues s q)\<lparr>wq_List := wq_List (WorkQueues s q) @ [i]\<rparr>"
    and f: "\<forall>j. wi_Finished (WorkItems s' j) \<longrightarrow> j \<noteq> i \<and> wi_Finished (WorkItems s j)"
    and c: "\<forall>c\<in>set (se_WaitingThreads (wq_Lock (WorkQueues s q))). waiting c s'"
  shows "worker_ok q s' pc (remove1 i adding) (enq @ [i]) taken p"
proof -
  note o = worker_okD [OF ok]
  have l: "length (remove1 i adding) + 1 = length adding" using length_pos_if_in_set [OF i] i by (simp add: length_remove1)
  have d: "set (remove1 i adding) = set adding - {i}" "distinct (remove1 i adding)" using o(3) by (simp_all add: distinct_remove1)
  have "sem_ok (wq_Lock (WorkQueues s q)) s'" using o(2) c by (simp add: sem_ok_def parked_ok_def)
  moreover have "length (wq_List (WorkQueues s q) @ [i]) + length (remove1 i adding) =
      unat (se_Count (wq_Lock (WorkQueues s q))) + permit_taken pc (wq_Lock (WorkQueues s q)) + p"
    if "length (enq @ [i]) + length (remove1 i adding) < 2 ^ 64"
    using o(8) l that by simp
  ultimately show ?thesis
    using o(3-7) i out f d unfolding worker_ok_def Let_def w' by (auto simp: worker_waiters_def)
qed

lemma worker_ok_add:
  assumes ok: "worker_ok q s pc adding enq taken p" and i: "i \<notin> set (wq_List (WorkQueues s q))" "i \<notin> set adding" and out: "outside s'"
    and w': "WorkQueues s' q = (WorkQueues s q)\<lparr>wq_Lock := sem_up (wq_Lock (WorkQueues s q)),
      wq_List := wq_List (WorkQueues s q) @ [i]\<rparr>"
    and f: "\<forall>j. wi_Finished (WorkItems s' j) \<longrightarrow> j \<noteq> i \<and> wi_Finished (WorkItems s j)"
  shows "worker_ok q s' pc adding (enq @ [i]) taken p"
proof -
  note o = worker_okD [OF ok]
  have "length (wq_List (WorkQueues s q) @ [i]) + length adding =
      unat (se_Count (sem_up (wq_Lock (WorkQueues s q)))) + permit_taken pc (sem_up (wq_Lock (WorkQueues s q))) + p"
    if lt: "length (enq @ [i]) + length adding < 2 ^ 64"
  proof -
    have "unat (se_Count (wq_Lock (WorkQueues s q))) + 1 < 2 ^ 64" using o(5,8) lt by simp
    from sem_up_permits [OF o(6) this] show ?thesis using o(8) lt by simp
  qed
  then show ?thesis
    using o(3,4,5,7) i out f sem_up_empty [OF o(6)] unfolding worker_ok_def Let_def w'
    by (auto simp: sem_ok_def parked_ok_def worker_waiters_def)
qed

lemma worker_ok_down:
  assumes ok: "worker_ok q s Fetching adding enq taken p" and act: "ActiveThread s = wq_Thread (WorkQueues s q)" and may: "may_wait NULL s"
    and down: "WorkerGetItem_down wk q s = Some s'"
  shows "worker_ok q s' Popping adding enq taken p"
proof -
  let ?w = "WorkQueues s q"
  note o = worker_okD [OF ok]
  have emp: "se_WaitingThreads (wq_Lock ?w) = []" using o(6) by (simp add: worker_waiters_def)
  note d = WorkerGetItem_down_ok [OF o(1) may o(2) down]
  have "unat (se_Count (wq_Lock ?w)) = unat (se_Count (wq_Lock ?w) - 1) + 1" if "se_Count (wq_Lock ?w) \<noteq> 0"
    using that by (simp add: unat_pred_word unat_gt_0)
  then show ?thesis
    using ok emp d(1,4) unfolding worker_ok_def Let_def d(2,3)
    by (auto simp: sem_down_def permit_taken_def worker_waiters_def act)
qed

lemma worker_ok_pop:
  assumes ok: "worker_ok q s Popping adding enq taken p" and nw: "\<not> waiting (ThreadContext (wq_Thread (WorkQueues s q))) s"
    and lt: "length enq + length adding < 2 ^ 64"
  shows "wq_List (WorkQueues s q) \<noteq> [] \<or> adding \<noteq> []"
  using worker_ok_runs [OF ok nw] worker_okD(8) [OF ok lt] by (auto simp: permit_taken_def)

lemma worker_ok_popped:
  assumes ok: "worker_ok q s Popping adding enq taken p" and nw: "\<not> waiting (ThreadContext (wq_Thread (WorkQueues s q))) s"
    and pop: "WorkerGetItem_pop q s = Some (i, s')"
  shows "worker_ok q s' (Running i) adding enq (taken @ [i]) p"
proof -
  obtain "is" where l: "wq_List (WorkQueues s q) = i # is" "s' = upd_queue q (\<lambda>w. w\<lparr>wq_List := is\<rparr>) s"
    using pop WorkerGetItem_pop_eq [OF outside_facts(3,5) [OF worker_okD(1) [OF ok]]] by (auto split: list.splits)
  show ?thesis using ok l worker_ok_runs [OF ok nw] by (auto simp: worker_ok_def Let_def permit_taken_def worker_waiters_def)
qed

lemma worker_ok_ran:
  assumes ok: "worker_ok q s (Running i) adding enq taken p" and foo: "foo (wi_Foo (WorkItems s i)) i s = Some (r, s1)"
    and oth: "others_step q s s1" and r: "r \<noteq> WORKER_BLOCKED \<longrightarrow> i \<notin> set (wq_List (WorkQueues s1 q))"
    and item: "WorkerThreadItem foo q i s = Some s'"
  shows "worker_ok q s' Fetching adding (if r = WORKER_PENDED then enq @ [i] else enq) taken (if r = WORKER_PENDED then p + 1 else p)"
proof -
  have ok1: "worker_ok q s1 (Running i) adding enq taken p" by (rule worker_ok_other [OF ok oth])
  have fin: "\<not> wi_Finished (WorkItems s i)" "outside s1" using worker_okD(7) [OF ok] oth by (auto simp: others_step_def)
  show ?thesis
  proof (cases "r = WORKER_BLOCKED")
    case True
    then have "s' = s1" using item foo fin(1) by (simp add: WorkerThreadItem_def)
    then show ?thesis using True ok1 by (auto simp: worker_ok_def Let_def permit_taken_def worker_waiters_def)
  next
    case False
    then have s': "s' = (case r of WORKER_FINISHED \<Rightarrow> upd_item i (\<lambda>w. w\<lparr>wi_Finished := True\<rparr>) s1
        | WORKER_BLOCKED \<Rightarrow> s1 | WORKER_PENDED \<Rightarrow> upd_queue q (\<lambda>w. w\<lparr>wq_List := wq_List w @ [i]\<rparr>) s1)"
      using WorkerThreadItem_eq [of s i foo r s1 q] fin foo outside_facts(3,5) [OF fin(2)] item r by simp
    show ?thesis
      using False ok1 r unfolding s' by (cases r) (auto simp: worker_ok_def Let_def permit_taken_def worker_waiters_def)
  qed
qed

text \<open>The two parts of adding an item, from outside of critical sections.\<close>

lemma WorkerAddItem_up_outside:
  assumes "worker_ok q s pc adding enq taken p" and "caller_runs s"
  shows "\<exists>s'. WorkerAddItem_up wk q s = Some s' \<and> outside s' \<and> WorkItems s' = WorkItems s \<and>
    WorkQueues s' q = (WorkQueues s q)\<lparr>wq_Lock := sem_up (wq_Lock (WorkQueues s q))\<rparr>"
proof -
  note out = worker_okD(1) [OF assms(1)]
  note w = worker_ok_waiters [OF assms]
  have "outside (resumed_by (wq_Lock (WorkQueues s q)) s)"
    using resumed_by_ok [OF outside_facts(2) [OF out] _ w(2,1)] outside_facts(1) [OF out] by (simp add: outside_def)
  then show ?thesis
    using WorkerAddItem_up_eq [OF _ outside_facts(2,5) [OF out] w, of wk] outside_facts(1) [OF out] by simp
qed

lemma WorkerAddItem_enqueue_outside:
  assumes "outside s" and "i \<notin> set (wq_List (WorkQueues s q))"
  shows "\<exists>s'. WorkerAddItem_enqueue q i s = Some s' \<and> outside s' \<and> Contexts s' = Contexts s \<and>
    WorkItems s' = (WorkItems s)(i := (WorkItems s i)\<lparr>wi_Queue := q, wi_Finished := False\<rparr>) \<and>
    WorkQueues s' q = (WorkQueues s q)\<lparr>wq_List := wq_List (WorkQueues s q) @ [i]\<rparr>"
  using WorkerAddItem_enqueue_eq [OF outside_facts(3,5) [OF assms(1)] assms(2)] assms(1) by simp

lemma worker_run_ok: "worker_run n foo q s pc adding enq taken p \<Longrightarrow> worker_ok q s pc adding enq taken p"
proof (induction rule: worker_run.induct)
  case (run_start s lock)
  then show ?case by (simp add: worker_ok_def SemaphoreInit_def sem_ok_def parked_ok_def permit_taken_def worker_waiters_def)
next
  case (run_other s pc adding enq taken p s')
  then show ?case by (blast intro: worker_ok_other)
next
  case (run_up s pc adding enq taken p i s')
  from WorkerAddItem_up_outside [OF run_up.IH run_up.hyps(2), of "worker_wake n"] show ?case
    using worker_ok_up [OF run_up.IH run_up.hyps(3-5)] run_up.hyps(6) by auto
next
  case (run_enqueue s pc adding enq taken p i s')
  note o = worker_okD [OF run_enqueue.IH]
  have "i \<notin> set (wq_List (WorkQueues s q))" using o(3) run_enqueue.hyps(2) by auto
  from WorkerAddItem_enqueue_outside [OF o(1) this] have e: "outside s'" "Contexts s' = Contexts s"
      "WorkItems s' = (WorkItems s)(i := (WorkItems s i)\<lparr>wi_Queue := q, wi_Finished := False\<rparr>)"
      "WorkQueues s' q = (WorkQueues s q)\<lparr>wq_List := wq_List (WorkQueues s q) @ [i]\<rparr>"
    using run_enqueue.hyps(3) by auto
  show ?case
    by (rule worker_ok_enqueue [OF run_enqueue.IH run_enqueue.hyps(2) e(1,4)])
      (use e(2,3) o(2) in \<open>auto simp: sem_ok_def parked_ok_def\<close>)
next
  case (run_granted s pc adding enq taken p i lock ws lock' s')
  note out = worker_okD(1) [OF run_granted.IH]
  note w = worker_ok_waiters [OF run_granted.IH run_granted.hyps(2)]
  note g = SemaphoreUp_granted [OF out run_granted.hyps(6-8,5) w run_granted.hyps(3)]
  have s': "s' = item_granted i s" using g(1) [of n] run_granted.hyps(9) by simp
  note fr = item_added_frame [OF outside_facts(2) [OF out] _ w(2,1), of i]
  show ?case
    by (rule worker_ok_add [OF run_granted.IH run_granted.hyps(3,4)])
      (use fr outside_facts(1) [OF out] s' g(2) run_granted.hyps(5) in
        \<open>auto simp: item_granted_def upd_context_def\<close>)
next
  case (run_down s adding enq taken p s')
  then show ?case by (blast intro: worker_ok_down)
next
  case (run_pop s adding enq taken p i s')
  then show ?case by (blast intro: worker_ok_popped)
next
  case (run_item s i adding enq taken p r s1 s')
  then show ?case by (intro worker_ok_ran)
qed

section \<open>Properties\<close>

text \<open>(C17) A worker takes its items in the order in which they were queued, each as often as it was queued. In
  every run, with the two parts of \<^verbatim>\<open>WorkerAddItem\<close> interleaved in any way with each other and with the worker, the items
  queued are those taken followed by those in the list. The items in the list and those whose permit has been given but which are not in
  the list yet are together as many as the permits, and as many more as items were pended. A worker
  that has got a permit therefore finds an item unless an item is just being added; then, if the list is
  empty, its assertion fails. An item it runs is not finished, and giving the permit, enqueuing an item
  and asking for a permit do not panic. Fewer than \<open>2 ^ 64\<close> items are queued, and an owner does not add an item that is already on its way.\<close>

theorem worker_queue_fifo:
  assumes "worker_run n foo q s pc adding enq taken p" and "length enq + length adding < 2 ^ 64"
  shows "enq = taken @ wq_List (WorkQueues s q) \<and>
     length (wq_List (WorkQueues s q)) + length adding =
       unat (se_Count (wq_Lock (WorkQueues s q))) + permit_taken pc (wq_Lock (WorkQueues s q)) + p \<and>
     (pc = Popping \<and> \<not> waiting (ThreadContext (wq_Thread (WorkQueues s q))) s \<longrightarrow>
        (case wq_List (WorkQueues s q) of [] \<Rightarrow> adding \<noteq> [] \<and> WorkerGetItem_pop q s = None
         | i # is \<Rightarrow> \<exists>s'. WorkerGetItem_pop q s = Some (i, s') \<and> wq_List (WorkQueues s' q) = is)) \<and>
     (\<forall>i. pc = Running i \<longrightarrow> \<not> wi_Finished (WorkItems s i)) \<and>
     (caller_runs s \<longrightarrow> WorkerAddItem_up (worker_wake n) q s \<noteq> None) \<and>
     (\<forall>i\<in>set adding. WorkerAddItem_enqueue q i s \<noteq> None) \<and>
     (may_wait NULL s \<longrightarrow> WorkerGetItem_down (worker_wake n) q s \<noteq> None)"
proof -
  have ok: "worker_ok q s pc adding enq taken p" by (rule worker_run_ok [OF assms(1)])
  note o = worker_okD [OF ok]
  have "WorkerGetItem_down (worker_wake n) q s \<noteq> None" if "may_wait NULL s"
    using SemaphoreDown_user [OF o(1,2) that, of "worker_wake n"] by (auto simp: WorkerGetItem_down_def)
  moreover have "WorkerAddItem_up (worker_wake n) q s \<noteq> None" if "caller_runs s"
    using WorkerAddItem_up_outside [OF ok that, of "worker_wake n"] by auto
  moreover have "WorkerAddItem_enqueue q i s \<noteq> None" if "i \<in> set adding" for i
    using WorkerAddItem_enqueue_outside [OF o(1), of i q] o(3) that by auto
  moreover have "case wq_List (WorkQueues s q) of [] \<Rightarrow> adding \<noteq> [] \<and> WorkerGetItem_pop q s = None
         | i # is \<Rightarrow> \<exists>s'. WorkerGetItem_pop q s = Some (i, s') \<and> wq_List (WorkQueues s' q) = is"
    if "pc = Popping" "\<not> waiting (ThreadContext (wq_Thread (WorkQueues s q))) s"
    using worker_ok_pop [of q s adding enq taken p] ok that assms(2) WorkerGetItem_pop_eq [OF outside_facts(3,5) [OF o(1)], of q]
    by (cases "wq_List (WorkQueues s q)") auto
  ultimately show ?thesis using o(5,7,8) assms(2) by blast
qed

text \<open>A queue 6 whose worker is thread 2, with nothing to do, while thread 1 runs.\<close>

definition worker0 :: worker_state where
  "worker0 = sched_state.extend sched1 (worker_state.fields (\<lambda>_. \<lparr>wq_Thread = 2, wq_List = [], wq_Lock = \<lparr>se_Count = 0, se_WaitingThreads = []\<rparr>\<rparr>)
     (\<lambda>_. \<lparr>wi_Queue = 6, wi_Foo = 0, wi_Context = NULL, wi_Finished = True\<rparr>))"

lemma outside_worker0: "outside worker0" "caller_runs worker0"
  using outside_sched1 may_wait_sched1(5)
  by (simp_all add: outside_def open_irq_def crit_levels_def isr_ok_def hal_ok_def sched_ok_def run_queue_ok_def contexts_ok_def
      switch_ok_def queues_ok_def caller_runs_def worker0_def sched_state.defs worker_state.defs)

theorem worker_queue_fifo_witness:
  "\<exists>s1 s2. WorkerAddItem_up (worker_wake 0) 6 worker0 = Some s1 \<and> wq_List (WorkQueues s1 6) = [] \<and> unat (se_Count (wq_Lock (WorkQueues s1 6))) = 1 \<and>
     WorkerAddItem_enqueue 6 3 s1 = Some s2 \<and> wq_List (WorkQueues s2 6) = [3] \<and> unat (se_Count (wq_Lock (WorkQueues s2 6))) = 1"
proof -
  have w: "WorkQueues worker0 6 = \<lparr>wq_Thread = 2, wq_List = [], wq_Lock = \<lparr>se_Count = 0, se_WaitingThreads = []\<rparr>\<rparr>"
    by (simp add: worker0_def sched_state.defs worker_state.defs)
  have start: "worker_run 0 (\<lambda>_ _ _. None) 6 worker0 Fetching [] [] [] 0"
    by (rule run_start [of _ _ "\<lparr>se_Count = 0, se_WaitingThreads = []\<rparr>"]) (use outside_worker0 w in \<open>simp_all add: SemaphoreInit_def\<close>)
  from worker_queue_fifo [OF this] obtain s1 where s1: "WorkerAddItem_up (worker_wake 0) 6 worker0 = Some s1"
    using outside_worker0(2) by auto
  have up: "worker_run 0 (\<lambda>_ _ _. None) 6 s1 Fetching ([] @ [3]) [] [] 0"
    by (rule run_up [OF start outside_worker0(2) _ _ _ s1]) (use w in simp_all)
  note l1 = worker_queue_fifo [OF up]
  then obtain s2 where s2: "WorkerAddItem_enqueue 6 3 s1 = Some s2" by auto
  have enq: "worker_run 0 (\<lambda>_ _ _. None) 6 s2 Fetching (remove1 3 ([] @ [3])) ([] @ [3]) [] 0"
    by (rule run_enqueue [OF up _ s2]) simp
  note l2 = worker_queue_fifo [OF enq]
  have l: "wq_List (WorkQueues s1 6) = []" "wq_List (WorkQueues s2 6) = [3]" using l1 [THEN conjunct1] l2 [THEN conjunct1] by simp_all
  then have "unat (se_Count (wq_Lock (WorkQueues s1 6))) = 1" "unat (se_Count (wq_Lock (WorkQueues s2 6))) = 1"
    using l1 [THEN conjunct2, THEN conjunct1] l2 [THEN conjunct2, THEN conjunct1] by (simp_all add: permit_taken_def)
  then show ?thesis using s1 s2 l by blast
qed

text \<open>(C18) A work item that waits for a semaphore is queued again by the up that grants it: the item leaves
  the semaphore, is the last of its queue with a permit for it, its context is acquired, and its worker
  becomes ready to run if it was waiting. The wake function of the worker unit is the argument of the
  locks here, and one level of it is enough.\<close>

theorem worker_item_requeued:
  assumes "outside s" and "se_WaitingThreads lock = WorkerContext i # ws"
    and "waiting (WorkerContext i) s" and "lc_WakeFunction (Contexts s (WorkerContext i)) = WorkerWakeOnLock_f"
    and "q = wi_Queue (WorkItems s i)" and "thread_waiters (wq_Lock (WorkQueues s q))"
    and "\<forall>c\<in>set (se_WaitingThreads (wq_Lock (WorkQueues s q))). wakeable c s" and "i \<notin> set (wq_List (WorkQueues s q))"
  shows "\<exists>s'. SemaphoreUp (worker_wake (Suc n)) lock s = Some (lock\<lparr>se_WaitingThreads := ws\<rparr>, s') \<and> outside s' \<and>
     lc_State (Contexts s' (WorkerContext i)) = LOCKING_STATE_ACQUIRED \<and> \<not> wi_Finished (WorkItems s' i) \<and>
     wq_List (WorkQueues s' q) = wq_List (WorkQueues s q) @ [i] \<and> wq_Lock (WorkQueues s' q) = sem_up (wq_Lock (WorkQueues s q)) \<and>
     (\<forall>t cs. se_WaitingThreads (wq_Lock (WorkQueues s q)) = ThreadContext t # cs \<longrightarrow>
        RunQueue s' = RunQueue s @ [t] \<and> \<not> waiting (ThreadContext t) s')"
proof -
  note g = SemaphoreUp_granted [OF assms]
  have o: "open_irq s" "sched_ok s" using assms(1) by (simp_all add: outside_def)
  note fr = item_added_frame [OF o(2) _ assms(7,6), of i]
  have "RunQueue (item_granted i s) = RunQueue s @ [t] \<and> \<not> waiting (ThreadContext t) (item_granted i s)"
    if "se_WaitingThreads (wq_Lock (WorkQueues s q)) = ThreadContext t # cs" for t cs
    using that assms(5) by (simp add: item_granted_def item_added_def resumed_by_def resumed_def)
  moreover have "WorkQueues (item_granted i s) = WorkQueues (item_added q i s)" "WorkItems (item_granted i s) = WorkItems (item_added q i s)"
    "lc_State (Contexts (item_granted i s) (WorkerContext i)) = LOCKING_STATE_ACQUIRED"
    using assms(5) by (simp_all add: item_granted_def upd_context_def)
  ultimately show ?thesis using g fr(6,7) o by auto
qed

text \<open>Item 3 of queue 6 waits for a semaphore.\<close>

definition worker1 :: worker_state where
  "worker1 = upd_context (WorkerContext 3) (\<lambda>c. c\<lparr>lc_State := LOCKING_STATE_BLOCKING, lc_WakeFunction := WorkerWakeOnLock_f\<rparr>) worker0"

theorem worker_item_requeued_witness:
  "\<exists>s'. SemaphoreUp (worker_wake 1) \<lparr>se_Count = 0, se_WaitingThreads = [WorkerContext 3]\<rparr> worker1 =
       Some (\<lparr>se_Count = 0, se_WaitingThreads = []\<rparr>, s') \<and> wq_List (WorkQueues s' 6) = [3] \<and>
     lc_State (Contexts s' (WorkerContext 3)) = LOCKING_STATE_ACQUIRED"
proof -
  have w: "WorkQueues worker1 6 = \<lparr>wq_Thread = 2, wq_List = [], wq_Lock = \<lparr>se_Count = 0, se_WaitingThreads = []\<rparr>\<rparr>"
    "wi_Queue (WorkItems worker1 3) = 6"
    by (simp_all add: worker1_def worker0_def sched_state.defs worker_state.defs upd_context_def)
  have "outside worker1" using outside_worker0(1) by (simp add: worker1_def outside_def sched_ok_worker_context)
  from worker_item_requeued [OF this, of "\<lparr>se_Count = 0, se_WaitingThreads = [WorkerContext 3]\<rparr>" 3 "[]" 6 0] w show ?thesis
    by (auto simp: worker1_def thread_waiters_def)
qed

text \<open>(C35) The permit is given too early. When a thread adds an item to the queue of a waiting worker, giving
  the permit already puts the worker on the run queue; if it is switched to before the item has been
  enqueued, it finds an empty list and the assertion of \<^verbatim>\<open>WorkerGetItem\<close> fails.\<close>

theorem worker_add_race:
  assumes "outside s" and "caller_runs s" and "sem_ok (wq_Lock (WorkQueues s q)) s"
    and "se_WaitingThreads (wq_Lock (WorkQueues s q)) = [ThreadContext t]" and "wq_List (WorkQueues s q) = []"
  shows "\<exists>s1. WorkerAddItem_up wk q s = Some s1 \<and> outside s1 \<and> RunQueue s1 = RunQueue s @ [t] \<and> \<not> waiting (ThreadContext t) s1 \<and>
     (\<forall>s2. outside s2 \<and> WorkQueues s2 q = WorkQueues s1 q \<longrightarrow> WorkerGetItem_pop q s2 = None)"
proof -
  let ?lock = "wq_Lock (WorkQueues s q)"
  have w: "thread_waiters ?lock" "\<forall>c\<in>set (se_WaitingThreads ?lock). wakeable c s"
    using parked_wakeable [of "se_WaitingThreads ?lock" s] assms(2,3,4) by (auto simp: thread_waiters_def sem_ok_def)
  let ?s1 = "upd_queue q (\<lambda>w. w\<lparr>wq_Lock := sem_up (wq_Lock w)\<rparr>) (resumed_by ?lock s)"
  have up: "WorkerAddItem_up wk q s = Some ?s1"
    using WorkerAddItem_up_eq [OF _ outside_facts(2,5) [OF assms(1)] w] outside_facts(1) [OF assms(1)] by blast
  have "outside ?s1"
    using resumed_by_ok [OF outside_facts(2) [OF assms(1)] _ w(2,1)] outside_facts(1) [OF assms(1)] by (simp add: outside_def)
  moreover have "RunQueue ?s1 = RunQueue s @ [t]" "\<not> waiting (ThreadContext t) ?s1" "wq_List (WorkQueues ?s1 q) = []"
    using assms(4,5) by (simp_all add: resumed_by_def resumed_def)
  moreover have "WorkerGetItem_pop q s2 = None" if "outside s2" "WorkQueues s2 q = WorkQueues ?s1 q" for s2
    using WorkerGetItem_pop_eq [OF outside_facts(3,5) [OF that(1)], of q] that(2) assms(5) by simp
  ultimately show ?thesis using up by blast
qed

text \<open>Worker thread 2 waits for items of queue 6.\<close>

definition worker2 :: worker_state where
  "worker2 = upd_queue 6 (\<lambda>w. w\<lparr>wq_Lock := \<lparr>se_Count = 0, se_WaitingThreads = [ThreadContext 2]\<rparr>\<rparr>)
     (upd_context (ThreadContext 2) (\<lambda>c. c\<lparr>lc_State := LOCKING_STATE_BLOCKING\<rparr>)
       (upd_thread 2 (\<lambda>t. t\<lparr>th_State := THREAD_STATE_BLOCKED\<rparr>) (worker0\<lparr>RunQueue := []\<rparr>)))"

theorem worker_add_race_witness:
  "\<exists>s1. WorkerAddItem_up (worker_wake 0) 6 worker2 = Some s1 \<and> RunQueue s1 = [2] \<and> WorkerGetItem_pop 6 s1 = None"
proof -
  have f: "Contexts worker0 = context0" "Threads worker0 = (\<lambda>_. thread0)" "ActiveThread worker0 = 1" "RunQueue worker0 = [2]"
    by (simp_all add: worker0_def sched_state.defs worker_state.defs)
  have "open_irq worker2" "switch_ok worker2"
    using outside_worker0(1)
    by (simp_all add: worker2_def outside_def open_irq_def crit_levels_def isr_ok_def hal_ok_def sched_ok_def switch_ok_def queues_ok_def
        upd_queue_def upd_context_def upd_thread_def)
  moreover have "run_queue_ok worker2" "contexts_ok worker2"
    using outside_worker0(1)
    by (simp_all add: worker2_def outside_def sched_ok_def run_queue_ok_def contexts_ok_def upd_queue_def upd_context_def upd_thread_def f)
  ultimately have out: "outside worker2"
    by (simp add: outside_def sched_ok_def) (simp add: worker2_def f upd_queue_def upd_context_def upd_thread_def thread0_def)
  have "caller_runs worker2" "sem_ok (wq_Lock (WorkQueues worker2 6)) worker2"
    "se_WaitingThreads (wq_Lock (WorkQueues worker2 6)) = [ThreadContext 2]" "wq_List (WorkQueues worker2 6) = []" "RunQueue worker2 = []"
    by (simp_all add: worker2_def caller_runs_def sem_ok_def parked_ok_def f)
      (simp add: worker0_def sched_state.defs worker_state.defs upd_context_def upd_thread_def)
  from worker_add_race [OF out this(1-4), of "worker_wake 0"] this(5) show ?thesis by auto
qed

text \<open>An item that returns \<^verbatim>\<open>WORKER_PENDED\<close> is enqueued without a permit: with no other item the worker goes
  to sleep although its list is not empty.\<close>

lemma worker_pended_starves:
  assumes "worker_run n foo q s Fetching [] enq taken p" and "length enq < 2 ^ 64"
    and "p = length (wq_List (WorkQueues s q))" and "ActiveThread s = wq_Thread (WorkQueues s q)" and "may_wait NULL s"
  shows "\<exists>s'. WorkerGetItem_down (worker_wake n) q s = Some s' \<and> waiting (ThreadContext (wq_Thread (WorkQueues s q))) s' \<and>
     wq_List (WorkQueues s' q) = wq_List (WorkQueues s q)"
proof -
  note o = worker_okD [OF worker_run_ok [OF assms(1)]]
  have z: "se_Count (wq_Lock (WorkQueues s q)) = 0" "se_WaitingThreads (wq_Lock (WorkQueues s q)) = []"
    using o(6,8) assms(2,3) by (simp_all add: worker_waiters_def unat_eq_0)
  obtain s' where s': "WorkerGetItem_down (worker_wake n) q s = Some s'"
    using SemaphoreDown_user [OF o(1,2) assms(5), of "worker_wake n"] by (auto simp: WorkerGetItem_down_def)
  note d = WorkerGetItem_down_ok [OF o(1) assms(5) o(2) s']
  have "se_WaitingThreads (wq_Lock (WorkQueues s' q)) = [ThreadContext (wq_Thread (WorkQueues s q))]"
    using z by (simp add: d(3) sem_down_def assms(4))
  then show ?thesis using s' d(3,4) by (auto simp: sem_ok_def parked_ok_def)
qed

end
