(* ===== verification/Serial.thy ===== *)
theory Serial
  imports Startup RingBuffer
begin

text \<open>
  The serial line, \<^verbatim>\<open>src/kernel/serial.c\<close>, with the deferred update of a generation
  (\<^verbatim>\<open>GenerationUpdateSafe\<close> of \<^verbatim>\<open>src/kernel/generation.c\<close>) and the terminal functions of
  \<^verbatim>\<open>src/hal/unix_hal.c\<close>. Received bytes go from the interrupt into a ring; readers that find the ring
  empty wait for the next generation, which the interrupt announces through a critical handler. Bytes to
  be sent go through a second ring to the write interrupt.
\<close>

section \<open>The deferred update of a generation\<close>

record GENERATION_CONTEXT =
  gc_Generation :: ptr
  gc_NewValue :: COUNT

record gen_state = sched_state +
  Generations :: "addr \<Rightarrow> GENERATION"
  GenerationContexts :: "addr \<Rightarrow> GENERATION_CONTEXT"

definition GenerationUpdateHandler ::
    "'a gen_state_ext wake \<Rightarrow> addr \<Rightarrow> 'a gen_state_scheme \<Rightarrow> (bool \<times> 'a gen_state_scheme) option" where
  "GenerationUpdateHandler wk HandlerObj s =
     do {
       context \<leftarrow> ho_Context (Handlers s HandlerObj);
       g \<leftarrow> gc_Generation (GenerationContexts s context);
       (gen, s) \<leftarrow> GenerationUpdate wk (Generations s g) (gc_NewValue (GenerationContexts s context)) s;
       Some (True, s\<lparr>Generations := (Generations s)(g := gen)\<rparr>)
     }"

definition GenerationUpdateSafe ::
    "addr \<Rightarrow> COUNT \<Rightarrow> addr \<Rightarrow> addr \<Rightarrow> 'a gen_state_scheme \<Rightarrow> 'a gen_state_scheme option" where
  "GenerationUpdateSafe gen val context handler s =
     do {
       let s = s\<lparr>GenerationContexts := (GenerationContexts s)(context := \<lparr>gc_Generation = Some gen, gc_NewValue = val\<rparr>)\<rparr>;
       CritInterruptRegisterHandler handler (Some GenerationUpdateHandler_f) (Some context) s
     }"

section \<open>The terminal\<close>

text \<open>
  The terminal is opened twice, for reading and for writing, both times without blocking. What the
  operating system answers to the reads to come is the list \<open>tty_in\<close>, after which a read would block;
  \<open>tty_room\<close> is the number of bytes the terminal takes before a write would block.
\<close>

datatype errno = EINTR | EAGAIN | EWOULDBLOCK | EOTHER nat

datatype tty_read = ReadByte BYTE | ReadZero | ReadError errno

text \<open>The part of the terminal settings that is copied one by one, with the control characters of Linux.\<close>

datatype cc = VINTR | VQUIT | VERASE | VKILL | VEOF | VTIME | VMIN | VSWTC | VSTART | VSTOP | VSUSP | VEOL | VREPRINT
  | VDISCARD | VWERASE | VLNEXT | VEOL2

record termios =
  c_iflag :: "32 word"
  c_oflag :: "32 word"
  c_cflag :: "32 word"
  c_lflag :: "32 word"
  c_cc :: "cc \<Rightarrow> 8 word"
  c_ispeed :: "32 word"
  c_ospeed :: "32 word"

definition copied_cc :: "cc list" where
  "copied_cc = [VEOF, VEOL, VEOL2, VERASE, VWERASE, VKILL, VREPRINT, VINTR, VQUIT, VSUSP, VSTART, VSTOP, VLNEXT,
     VDISCARD, VMIN, VTIME]"

record serial_state = gen_state +
  SerialInputRing :: RING_BUFFER
  SerialOutputRing :: RING_BUFFER
  ReadGenerationCount :: COUNT
  serialSettings :: termios
  serialSettingsOld :: termios
  tty_opens_in :: bool
  tty_opens_out :: bool
  tty_settings :: termios
  tty_in :: "tty_read list"
  tty_room :: nat
  tty_out :: "BYTE list"

abbreviation ReadGeneration :: addr where "ReadGeneration \<equiv> 20"
abbreviation ReadGenerationContext :: addr where "ReadGenerationContext \<equiv> 21"
abbreviation ReadGenerationCritObject :: addr where "ReadGenerationCritObject \<equiv> 22"

definition HalStartSerial :: "'a serial_state_scheme \<Rightarrow> 'a serial_state_scheme option" where
  "HalStartSerial s =
     do {
       ASSERT (tty_opens_in s);
       ASSERT (tty_opens_out s);
       let s = s\<lparr>serialSettingsOld := tty_settings s\<rparr>;
       let old = serialSettingsOld s;
       let new = (serialSettings s)\<lparr>c_cflag := c_cflag old, c_iflag := c_iflag old, c_oflag := c_oflag old,
         c_lflag := c_lflag old, c_cc := (\<lambda>i. if i \<in> set copied_cc then c_cc old i else c_cc (serialSettings s) i),
         c_ispeed := c_ispeed old, c_ospeed := c_ospeed old\<rparr>;
       Some (s\<lparr>serialSettings := new, tty_in := [], tty_settings := new\<rparr>)
     }"

definition HalSerialGetChar :: "'a serial_state_scheme \<Rightarrow> (BYTE option \<times> 'a serial_state_scheme) option" where
  "HalSerialGetChar s =
     (case tty_in s of
        [] \<Rightarrow> Some (None, s)
      | r # rs \<Rightarrow>
          let s = s\<lparr>tty_in := rs\<rparr> in
          (case r of
             ReadByte b \<Rightarrow> Some (Some b, s)
           | ReadZero \<Rightarrow> Some (None, s)
           | ReadError e \<Rightarrow> if e = EINTR \<or> e = EAGAIN \<or> e = EWOULDBLOCK then Some (None, s) else None))"

definition HalSerialWriteChar :: "BYTE \<Rightarrow> 'a serial_state_scheme \<Rightarrow> 'a serial_state_scheme option" where
  "HalSerialWriteChar data s =
     do {
       ASSERT (0 < tty_room s);
       Some (s\<lparr>tty_out := tty_out s @ [data], tty_room := tty_room s - 1\<rparr>)
     }"

section \<open>Operations\<close>

abbreviation BUFFER_SIZE :: COUNT where "BUFFER_SIZE \<equiv> 32"

partial_function (option) SendBytesLoop :: "'a serial_state_scheme \<Rightarrow> 'a serial_state_scheme option" where
  "SendBytesLoop s =
     (if RingBufferIsEmpty (SerialOutputRing s) then Some s
      else
        Option.bind (RingBufferRead 1 (SerialOutputRing s)) (\<lambda>(bs, ring).
        Option.bind (ASSERT (length bs = 1)) (\<lambda>_.
        Option.bind (HalSerialWriteChar (hd bs) (s\<lparr>SerialOutputRing := ring\<rparr>)) SendBytesLoop)))"

definition SendBytesInterrupt :: "'a serial_state_scheme \<Rightarrow> 'a serial_state_scheme option" where
  "SendBytesInterrupt s = do { b \<leftarrow> IsrIsAtomic IRQ_LEVEL_SERIAL_WRITE s; ASSERT b; SendBytesLoop s }"

partial_function (option) GetBytesLoop :: "'a serial_state_scheme \<Rightarrow> 'a serial_state_scheme option" where
  "GetBytesLoop s =
     (if RingBufferIsFull (SerialInputRing s) then Some s
      else
        Option.bind (HalSerialGetChar s) (\<lambda>(data, s).
          case data of None \<Rightarrow> Some s
          | Some b \<Rightarrow>
              Option.bind (RingBufferWrite [b] 1 (SerialInputRing s)) (\<lambda>(n, ring).
              Option.bind (ASSERT (n = 1)) (\<lambda>_.
                GetBytesLoop (s\<lparr>SerialInputRing := ring\<rparr>)))))"

definition GetBytesInterrupt :: "'a serial_state_scheme \<Rightarrow> 'a serial_state_scheme option" where
  "GetBytesInterrupt s =
     do {
       s \<leftarrow> GetBytesLoop s;
       (if HandlerIsFinished ReadGenerationCritObject s then
          let s = s\<lparr>ReadGenerationCount := ReadGenerationCount s + 1\<rparr> in
          GenerationUpdateSafe ReadGeneration (ReadGenerationCount s) ReadGenerationContext ReadGenerationCritObject s
        else Some s)
     }"

definition SerialStartup :: "BYTE list \<Rightarrow> BYTE list \<Rightarrow> 'a serial_state_scheme \<Rightarrow> 'a serial_state_scheme option" where
  "SerialStartup inbuf outbuf s =
     do {
       let s = s\<lparr>SerialInputRing := RingBufferInit inbuf BUFFER_SIZE, SerialOutputRing := RingBufferInit outbuf BUFFER_SIZE\<rparr>;
       let s = s\<lparr>ReadGenerationCount := 0\<rparr>;
       let s = s\<lparr>Generations := (Generations s)(ReadGeneration :=
         GenerationInit (Generations s ReadGeneration) (ReadGenerationCount s))\<rparr>;
       let s = HandlerInit ReadGenerationCritObject s;
       s \<leftarrow> IsrRegisterHandler SerialWrite_isr HAL_ISR_SERIAL_WRITE IRQ_LEVEL_SERIAL_WRITE s;
       s \<leftarrow> IsrRegisterHandler SerialRead_isr HAL_ISR_SERIAL_READ IRQ_LEVEL_SERIAL_READ s;
       HalStartSerial s
     }"

definition SerialWrite :: "BYTE list \<Rightarrow> COUNT \<Rightarrow> 'a serial_state_scheme \<Rightarrow> (COUNT \<times> 'a serial_state_scheme) option" where
  "SerialWrite buf len s =
     do {
       let s = IsrDisable IRQ_LEVEL_SERIAL_WRITE s;
       (n, ring) \<leftarrow> RingBufferWrite buf len (SerialOutputRing s);
       s \<leftarrow> IsrEnable IRQ_LEVEL_SERIAL_WRITE (s\<lparr>SerialOutputRing := ring\<rparr>);
       Some (n, HalRaiseInterrupt IRQ_LEVEL_SERIAL_WRITE s)
     }"

definition SerialPeak :: "'a serial_state_scheme \<Rightarrow> (BYTE option \<times> 'a serial_state_scheme) option" where
  "SerialPeak s =
     do {
       let s = IsrDisable IRQ_LEVEL_SERIAL_READ s;
       result \<leftarrow> RingBufferPeak (SerialInputRing s);
       s \<leftarrow> IsrEnable IRQ_LEVEL_SERIAL_READ s;
       Some (result, s)
     }"

text \<open>
  \<^verbatim>\<open>SerialRead\<close> may block in the middle of its loop, so it is cut there: \<open>Trying\<close> is the part that looks
  into the ring, and the end of the call; \<open>Checked\<close> is the wait. The size asked for, the flag
  \<^verbatim>\<open>wasFull\<close> and the generation seen are the live variables.
\<close>

datatype serial_pc = Trying COUNT bool | Checked COUNT bool COUNT | Returned "BYTE list"

definition SerialRead_try :: "COUNT \<Rightarrow> bool \<Rightarrow> 'a serial_state_scheme \<Rightarrow> (serial_pc \<times> 'a serial_state_scheme) option" where
  "SerialRead_try len wasFull s =
     do {
       let s = IsrDisable IRQ_LEVEL_SERIAL_READ s;
       let wasFull = (if RingBufferIsFull (SerialInputRing s) then True else wasFull);
       (bs, ring) \<leftarrow> RingBufferRead len (SerialInputRing s);
       let s = s\<lparr>SerialInputRing := ring\<rparr>;
       let readGeneration = ReadGenerationCount s;
       s \<leftarrow> IsrEnable IRQ_LEVEL_SERIAL_READ s;
       (if bs = [] then Some (Checked len wasFull readGeneration, s)
        else Some (Returned bs, if wasFull then HalRaiseInterrupt IRQ_LEVEL_SERIAL_READ s else s))
     }"

definition SerialRead_wait ::
    "'a serial_state_ext gen_state_ext wake \<Rightarrow> COUNT \<Rightarrow> bool \<Rightarrow> COUNT \<Rightarrow> 'a serial_state_scheme \<Rightarrow> (serial_pc \<times> 'a serial_state_scheme) option" where
  "SerialRead_wait wk len wasFull readGeneration s =
     do {
       (gen, s) \<leftarrow> GenerationWait wk (Generations s ReadGeneration) readGeneration NULL s;
       Some (Trying len wasFull, s\<lparr>Generations := (Generations s)(ReadGeneration := gen)\<rparr>)
     }"

definition SerialReadStep ::
    "'a serial_state_ext gen_state_ext wake \<Rightarrow> serial_pc \<Rightarrow> 'a serial_state_scheme \<Rightarrow> (serial_pc \<times> 'a serial_state_scheme) option" where
  "SerialReadStep wk pc s =
     (case pc of Trying len wasFull \<Rightarrow> SerialRead_try len wasFull s
      | Checked len wasFull g \<Rightarrow> SerialRead_wait wk len wasFull g s
      | Returned bs \<Rightarrow> None)"

section \<open>The rings\<close>

text \<open>A ring of the serial line, of the size given at startup.\<close>

definition serial_ring :: "RING_BUFFER \<Rightarrow> bool" where
  "serial_ring ring \<longleftrightarrow> ring_ok ring \<and> rb_Size ring = BUFFER_SIZE"

lemma serial_ring_init: "length buf = 32 \<Longrightarrow> serial_ring (RingBufferInit buf BUFFER_SIZE) \<and> contents (RingBufferInit buf BUFFER_SIZE) = []"
  by (simp add: serial_ring_def ring_ok_def RingBufferInit_def contents_def)

lemma serial_ring_bound: "serial_ring ring \<Longrightarrow> length (contents ring) \<le> 32"
  using contents_bound [of ring] by (simp add: serial_ring_def)

lemma serial_ring_full: "serial_ring ring \<Longrightarrow> RingBufferIsFull ring \<longleftrightarrow> length (contents ring) = 32"
  using contents_full [of ring] by (simp add: serial_ring_def)

lemma serial_ring_empty: "serial_ring ring \<Longrightarrow> RingBufferIsEmpty ring \<longleftrightarrow> contents ring = []"
  using contents_empty [of ring] by (simp add: serial_ring_def)

lemma serial_ring_read:
  assumes "serial_ring ring" and "unat len + 32 < 2 ^ 64"
  shows "\<exists>ring'. RingBufferRead len ring = Some (take (unat len) (contents ring), ring') \<and> serial_ring ring' \<and>
     contents ring' = drop (unat len) (contents ring)"
  using RingBufferReadLoop_contents [of ring 0 len] assms by (auto simp: serial_ring_def RingBufferRead_def)

lemma serial_ring_write:
  assumes "serial_ring ring" and "length buf + 32 < 2 ^ 64"
  shows "\<exists>n ring'. RingBufferWrite buf (of_nat (length buf)) ring = Some (n, ring') \<and> serial_ring ring' \<and>
     unat n = min (length buf) (32 - length (contents ring)) \<and> contents ring' = contents ring @ take (unat n) buf"
proof -
  have u: "unat (of_nat (length buf) :: COUNT) = length buf" using assms(2) by (simp add: unat_of_nat)
  show ?thesis
    using RingBufferWriteLoop_contents [of ring 0 "of_nat (length buf)" buf] assms u
    by (auto simp: serial_ring_def RingBufferWrite_def)
qed

section \<open>The receive interrupt\<close>

text \<open>What the interrupt takes from the terminal when the ring has room for a number of bytes, and what it
  leaves there; an error that is not expected ends in a panic.\<close>

fun received :: "nat \<Rightarrow> tty_read list \<Rightarrow> (BYTE list \<times> tty_read list) option" where
  "received 0 rs = Some ([], rs)"
| "received (Suc n) [] = Some ([], [])"
| "received (Suc n) (ReadByte b # rs) = map_option (\<lambda>(bs, rs). (b # bs, rs)) (received n rs)"
| "received (Suc n) (ReadZero # rs) = Some ([], rs)"
| "received (Suc n) (ReadError e # rs) = (if e = EINTR \<or> e = EAGAIN \<or> e = EWOULDBLOCK then Some ([], rs) else None)"

definition gets_bytes :: "'a serial_state_scheme \<Rightarrow> BYTE list \<Rightarrow> tty_read list \<Rightarrow> bool" where
  "gets_bytes s bs rs \<longleftrightarrow> (\<exists>ring. GetBytesLoop s = Some (s\<lparr>SerialInputRing := ring, tty_in := rs\<rparr>) \<and> serial_ring ring \<and>
     contents ring = contents (SerialInputRing s) @ bs)"

lemma gets_nothing:
  assumes "GetBytesLoop s = Some (s\<lparr>tty_in := rs\<rparr>)" and "serial_ring (SerialInputRing s)"
  shows "gets_bytes s [] rs"
proof -
  have "s\<lparr>tty_in := rs\<rparr> = s\<lparr>SerialInputRing := SerialInputRing s, tty_in := rs\<rparr>" by simp
  then show ?thesis unfolding gets_bytes_def using assms by (metis append_Nil2)
qed

lemma GetBytesLoop_received:
  assumes "serial_ring (SerialInputRing s)"
  shows "case received (32 - length (contents (SerialInputRing s))) (tty_in s) of None \<Rightarrow> GetBytesLoop s = None
     | Some (bs, rs) \<Rightarrow> gets_bytes s bs rs"
  using assms
proof (induction "tty_in s" arbitrary: s)
  case Nil
  have e: "tty_in s = []" using Nil.hyps by simp
  have g: "GetBytesLoop s = Some (s\<lparr>tty_in := []\<rparr>)"
    using e by (simp add: GetBytesLoop.simps [of s] HalSerialGetChar_def)
  have "received n [] = Some ([], [])" for n by (cases n) simp_all
  then show ?case unfolding e using gets_nothing [OF g Nil.prems] by simp
next
  case (Cons r rs)
  note f = serial_ring_full [OF Cons.prems] serial_ring_bound [OF Cons.prems]
  have e: "tty_in s = r # rs" using Cons.hyps(2) by simp
  show ?case
  proof (cases "32 - length (contents (SerialInputRing s))")
    case 0
    then have "GetBytesLoop s = Some (s\<lparr>tty_in := r # rs\<rparr>)" using f e by (simp add: GetBytesLoop.simps [of s])
    then show ?thesis using gets_nothing [OF _ Cons.prems] 0 e by simp
  next
    case (Suc n)
    then have nf: "\<not> RingBufferIsFull (SerialInputRing s)" using f by simp
    show ?thesis
    proof (cases r)
      case (ReadByte b)
      obtain k ring where w: "RingBufferWrite [b] 1 (SerialInputRing s) = Some (k, ring)" "serial_ring ring" "unat k = 1"
          "contents ring = contents (SerialInputRing s) @ [b]"
        using serial_ring_write [OF Cons.prems, of "[b]"] Suc by auto
      then have k: "k = 1" by (simp add: word_unat_eq_iff)
      let ?s = "s\<lparr>tty_in := rs, SerialInputRing := ring\<rparr>"
      have g: "GetBytesLoop s = GetBytesLoop ?s"
        using nf e ReadByte w(1) k by (simp add: GetBytesLoop.simps [of s] HalSerialGetChar_def)
      have n: "32 - length (contents (SerialInputRing ?s)) = n" "tty_in ?s = rs" "serial_ring (SerialInputRing ?s)"
        using Suc w(2,4) by simp_all
      have step: "gets_bytes s (b # bs) rs'" if "gets_bytes ?s bs rs'" for bs rs'
        using that unfolding gets_bytes_def g by (auto simp: w(4))
      have "case received n rs of None \<Rightarrow> GetBytesLoop ?s = None | Some (bs, rs) \<Rightarrow> gets_bytes ?s bs rs"
        using Cons.hyps(1) [of ?s] n by simp
      then show ?thesis
        unfolding e Suc ReadByte using g step by (auto split: option.splits)
    next
      case ReadZero
      then have "GetBytesLoop s = Some (s\<lparr>tty_in := rs\<rparr>)"
        using nf e by (simp add: GetBytesLoop.simps [of s] HalSerialGetChar_def)
      then show ?thesis unfolding e Suc using gets_nothing [OF _ Cons.prems] ReadZero by simp
    next
      case (ReadError x)
      then have "GetBytesLoop s = (if x = EINTR \<or> x = EAGAIN \<or> x = EWOULDBLOCK then Some (s\<lparr>tty_in := rs\<rparr>) else None)"
        using nf e by (simp add: GetBytesLoop.simps [of s] HalSerialGetChar_def)
      then show ?thesis unfolding e Suc using gets_nothing [OF _ Cons.prems] ReadError by (simp split: if_splits)
    qed
  qed
qed

section \<open>Waking the readers\<close>

text \<open>Waking threads in order; then a critical section inside a critical section.\<close>

definition resume_all :: "addr list \<Rightarrow> 'a sched_state_scheme \<Rightarrow> 'a sched_state_scheme" where
  "resume_all ts s = fold resumed ts s"

lemma resume_all_simps [simp]: "resume_all [] s = s" "resume_all (t # ts) s = resume_all ts (resumed t s)"
  by (simp_all add: resume_all_def)

lemma resume_all_frame:
  "irq_same s (resume_all ts s)" "ActiveThread (resume_all ts s) = ActiveThread s" "RunQueue (resume_all ts s) = RunQueue s @ ts"
  "sched_state.more (resume_all ts s) = sched_state.more s" "Handlers (resume_all ts s) = Handlers s"
  "CritInterruptHandlerList (resume_all ts s) = CritInterruptHandlerList s"
  "Contexts (resume_all ts s) c = (if c \<in> ThreadContext ` set ts then (Contexts s c)\<lparr>lc_State := LOCKING_STATE_READY\<rparr> else Contexts s c)"
  by (induction ts arbitrary: s) (auto simp: irq_same_def resumed_def)

lemma resumed_wakeable:
  assumes "in_crit s" and "sched_ok s" and "wakeable (ThreadContext t) s"
  shows "in_crit (resumed t s)" "sched_ok (resumed t s)" "c \<noteq> ThreadContext t \<Longrightarrow> wakeable c (resumed t s) = wakeable c s"
  using wakeable_step [of s "ThreadContext t" "\<lambda>_ _. None"] acquire_resumed [OF assms, of "\<lambda>_ _. None"] assms by auto

lemma acquire_all_resume:
  "in_crit s \<Longrightarrow> sched_ok s \<Longrightarrow> distinct ts \<Longrightarrow> \<forall>t\<in>set ts. wakeable (ThreadContext t) s \<Longrightarrow>
   acquire_all (\<lambda>c. LockingAcquire wk (Some c)) (map ThreadContext ts) s = Some (resume_all ts s) \<and>
   in_crit (resume_all ts s) \<and> sched_ok (resume_all ts s)"
proof (induction ts arbitrary: s)
  case (Cons t ts)
  have w: "wakeable (ThreadContext t) s" using Cons.prems by simp
  note r = resumed_wakeable [OF Cons.prems(1,2) w]
  have "\<forall>u\<in>set ts. wakeable (ThreadContext u) (resumed t s)"
  proof
    fix u assume "u \<in> set ts"
    then show "wakeable (ThreadContext u) (resumed t s)" using Cons.prems r(3) [of "ThreadContext u"] by auto
  qed
  then show ?case
    using Cons.IH [OF r(1,2)] Cons.prems(3) acquire_resumed [OF Cons.prems(1,2) w, of wk] by simp
qed simp

lemma resumed_counts [simp]: "resumed t (set_counts c s) = set_counts c (resumed t s)"
  by (simp add: resumed_def set_counts_def)

lemma resume_all_counts: "resume_all ts (set_counts c s) = set_counts c (resume_all ts s)"
  by (induction ts arbitrary: s) simp_all

lemma GenerationUpdate_in_crit:
  assumes "in_crit s" and "sched_ok s" and "IsrDisabledCount s IRQ_LEVEL_CRIT + 1 \<noteq> 0"
    and "ge_WaitingThreads gen = map ThreadContext ts" and "distinct ts" and "\<forall>t\<in>set ts. wakeable (ThreadContext t) s"
  shows "GenerationUpdate wk gen val s = Some (\<lparr>ge_Generation = val, ge_WaitingThreads = []\<rparr>, resume_all ts s)"
proof -
  have isr: "isr_ok s" using assms(1) by (simp add: in_crit_def crit_levels_def)
  note st = nested_start [OF isr assms(3) disjI2 [OF assms(1)]]
  have ok: "sched_ok (LockingStart s)" "\<forall>t\<in>set ts. wakeable (ThreadContext t) (LockingStart s)"
    using assms(2,6) st(1) by auto
  have "isr_ok (resume_all ts s)"
    using isr resume_all_frame(1) [of s ts] by (simp add: irq_same_def isr_ok_def hal_ok_def)
  moreover have "IsrDisabledCount (resume_all ts s) = IsrDisabledCount s"
    using resume_all_frame(1) [of s ts] by (simp add: irq_same_def)
  ultimately have "LockingEnd (resume_all ts (LockingStart s)) = Some (resume_all ts s)"
    unfolding LockingEnd_def SchedulerEndCritical_def LockingStart_def SchedulerStartCritical_def
    by (intro isr_section [OF isr assms(3)]) (simp_all add: resume_all_counts)
  then show ?thesis
    using acquire_all_resume [OF st(2) ok(1) assms(5) ok(2), of wk] assms(4) by (simp add: GenerationUpdate_def)
qed

lemma GenerationWait_user:
  assumes "outside s" and "may_wait NULL s" and "parked_ok (ge_WaitingThreads gen) s" and "t = ActiveThread s"
  shows "\<exists>s'. GenerationWait wk gen val NULL s = Some (if val = ge_Generation gen then
       gen\<lparr>ge_WaitingThreads := ge_WaitingThreads gen @ [ThreadContext t]\<rparr> else gen, s') \<and> outside s' \<and> timers_kept s s' \<and>
     (\<forall>c. c \<noteq> ThreadContext t \<longrightarrow> Contexts s' c = Contexts s c) \<and> (waiting (ThreadContext t) s' \<longleftrightarrow> val = ge_Generation gen)"
proof (cases "val = ge_Generation gen")
  case True
  have c: "ctx_of NULL s = ThreadContext t" using assms(4) by (simp add: ctx_of_def)
  obtain s1 s' where b: "LockingBlock NULL NULL (LockingStart s) = Some (ThreadContext t, s1)" "LockingEnd s1 = Some s'" "outside s'"
     "Contexts s' = (Contexts s)(ThreadContext t := blocked_as NULL (Contexts s (ThreadContext t)))"
    using block_section [OF assms(1,2), of NULL] unfolding c by blast
  have "timers_kept s s'" using timers_kept_section [OF assms(1,2)] b(1,2) by blast
  then show ?thesis
    using True b may_wait_fresh(2) [OF assms(3,2)] by (simp add: GenerationWait_def c blocked_as_def)
next
  case False
  have c: "ctx_of NULL s = ThreadContext t" using assms(4) by (simp add: ctx_of_def)
  obtain s1 s' where b: "LockingAcquire wk NULL (LockingStart s) = Some s1" "LockingEnd s1 = Some s'" "outside s'"
     "Contexts s' = (Contexts s)(ThreadContext t := (Contexts s (ThreadContext t))\<lparr>lc_State := acquired_state (ThreadContext t)\<rparr>)"
    using acquire_section [OF assms(1,2), of wk] unfolding c by blast
  have "timers_kept s s'" using timers_kept_section [OF assms(1,2)] b(1,2) by blast
  then show ?thesis using False b by (auto simp: GenerationWait_def c)
qed

section \<open>Runs of the serial line\<close>

text \<open>
  Readers, the receive interrupt and the critical handler that announces a new generation, in any order: the
  receive interrupt comes at any time between the segments of a reader, also between the update of the
  generation and the end of its handler. (Inside a segment it is masked, or it changes nothing the segment looks at: the wait
  reads the generation, which only the critical handler changes, so the interrupt might as well come after it.) The update itself is run by the critical interrupt, where the
  thread that runs is not one that has just blocked (\<open>caller_runs\<close>; what happens otherwise is \<open>wake_before_switch_enqueues_twice\<close>).
  \<open>serial_other\<close> is everything else that happens. The first argument after the wake function says whether the updates
  have been on time, which is whether no reader has gone on while an update was pending; the critical interrupt sees to that
  except when it switches to a thread that runs for the first time. The last arguments are the bytes received from the
  terminal, the bytes returned to readers, and the number of receive interrupts so far.
\<close>

definition serial_other :: "'a serial_state_scheme \<Rightarrow> 'a serial_state_scheme \<Rightarrow> bool" where
  "serial_other s s' \<longleftrightarrow> SerialInputRing s' = SerialInputRing s \<and> ReadGenerationCount s' = ReadGenerationCount s \<and>
     Generations s' ReadGeneration = Generations s ReadGeneration \<and>
     GenerationContexts s' ReadGenerationContext = GenerationContexts s ReadGenerationContext \<and>
     Handlers s' ReadGenerationCritObject = Handlers s ReadGenerationCritObject \<and>
     (\<forall>c\<in>set (ge_WaitingThreads (Generations s ReadGeneration)). waiting c s')"

inductive serial_run ::
    "'a serial_state_ext gen_state_ext wake \<Rightarrow> bool \<Rightarrow> 'a serial_state_scheme \<Rightarrow> (addr \<rightharpoonup> serial_pc) \<Rightarrow> BYTE list \<Rightarrow> BYTE list \<Rightarrow> nat \<Rightarrow> bool"
  for wk where
  serial_start: "serial_ring (SerialInputRing s) \<Longrightarrow> contents (SerialInputRing s) = [] \<Longrightarrow> ReadGenerationCount s = 0 \<Longrightarrow>
    Generations s ReadGeneration = GenerationInit gen 0 \<Longrightarrow> Handlers s ReadGenerationCritObject = ready_handler \<Longrightarrow>
    serial_run wk True s Map.empty [] [] 0"
| serial_others: "serial_run wk d s pcs rcv dlv n \<Longrightarrow> serial_other s s' \<Longrightarrow> serial_run wk d s' pcs rcv dlv n"
| serial_receive: "serial_run wk d s pcs rcv dlv n \<Longrightarrow>
    received (32 - length (contents (SerialInputRing s))) (tty_in s) = Some (bs, rs) \<Longrightarrow> GetBytesInterrupt s = Some s' \<Longrightarrow>
    serial_run wk d s' pcs (rcv @ bs) dlv (Suc n)"
| serial_update: "serial_run wk d s pcs rcv dlv n \<Longrightarrow> in_crit s \<Longrightarrow> sched_ok s \<Longrightarrow> IsrDisabledCount s IRQ_LEVEL_CRIT + 1 \<noteq> 0 \<Longrightarrow>
    caller_runs s \<Longrightarrow> CritInterruptHandlerList s = ReadGenerationCritObject # hs \<Longrightarrow>
    HandlerRun ReadGenerationCritObject (s\<lparr>CritInterruptHandlerList := hs\<rparr>) = Some s1 \<Longrightarrow>
    GenerationUpdateHandler wk ReadGenerationCritObject s1 = Some (b, s') \<Longrightarrow> serial_run wk d s' pcs rcv dlv n"
| serial_finish: "serial_run wk d s pcs rcv dlv n \<Longrightarrow> HandlerFinish finish ReadGenerationCritObject s = Some s' \<Longrightarrow>
    serial_run wk d s' pcs rcv dlv n"
| serial_call: "serial_run wk d s pcs rcv dlv n \<Longrightarrow> pcs t = None \<Longrightarrow> 0 < len \<Longrightarrow> unat len + 32 < 2 ^ 64 \<Longrightarrow>
    serial_run wk d s (pcs(t \<mapsto> Trying len False)) rcv dlv n"
| serial_step: "serial_run wk d s pcs rcv dlv n \<Longrightarrow> outside s \<Longrightarrow>
    may_wait NULL s \<Longrightarrow> t = ActiveThread s \<Longrightarrow> pcs t = Some pc \<Longrightarrow> SerialReadStep wk pc s = Some (pc', s') \<Longrightarrow>
    serial_run wk (d \<and> HandlerIsFinished ReadGenerationCritObject s) s' (pcs(t \<mapsto> pc')) rcv (case pc' of Returned bs \<Rightarrow> dlv @ bs | _ \<Rightarrow> dlv) n"
| serial_return: "serial_run wk d s pcs rcv dlv n \<Longrightarrow> pcs t = Some (Returned bs) \<Longrightarrow> serial_run wk d s (pcs(t := None)) rcv dlv n"

text \<open>The invariant. When updates are on time: while the handler is ready, nobody waits, or is about to wait, for data that is in the
  ring; while it is queued, the update to come wakes everybody; while it runs, everybody has been woken.\<close>

definition about_to_wait :: "COUNT \<Rightarrow> (addr \<rightharpoonup> serial_pc) \<Rightarrow> bool" where
  "about_to_wait g pcs \<longleftrightarrow> (\<exists>t len full. pcs t = Some (Checked len full g))"

definition serial_pc_ok :: "COUNT \<Rightarrow> serial_pc \<Rightarrow> bool" where
  "serial_pc_ok cnt pc \<longleftrightarrow> (case pc of Trying len full \<Rightarrow> 0 < len \<and> unat len + 32 < 2 ^ 64
     | Checked len full g \<Rightarrow> 0 < len \<and> unat len + 32 < 2 ^ 64 \<and> g \<le> cnt | Returned bs \<Rightarrow> True)"

lemma serial_pc_ok_simps [simp]:
  "serial_pc_ok cnt (Trying len full) \<longleftrightarrow> 0 < len \<and> unat len + 32 < 2 ^ 64"
  "serial_pc_ok cnt (Checked len full g) \<longleftrightarrow> 0 < len \<and> unat len + 32 < 2 ^ 64 \<and> g \<le> cnt"
  "serial_pc_ok cnt (Returned bs)"
  by (simp_all add: serial_pc_ok_def)

lemma about_to_wait_upd:
  assumes "\<And>len full. pcs t \<noteq> Some (Checked len full g)" and "\<And>len full. pc \<noteq> Some (Checked len full g)"
  shows "about_to_wait g (pcs(t := pc)) = about_to_wait g pcs"
proof
  assume "about_to_wait g (pcs(t := pc))"
  then obtain u len full where "(pcs(t := pc)) u = Some (Checked len full g)" by (auto simp: about_to_wait_def)
  then have "pcs u = Some (Checked len full g)" using assms(2) [of len full] by (auto split: if_splits)
  then show "about_to_wait g pcs" unfolding about_to_wait_def by blast
next
  assume "about_to_wait g pcs"
  then obtain u len full where u: "pcs u = Some (Checked len full g)" by (auto simp: about_to_wait_def)
  then have "(pcs(t := pc)) u = Some (Checked len full g)" using assms(1) by auto
  then show "about_to_wait g (pcs(t := pc))" unfolding about_to_wait_def by blast
qed

definition serial_waiters :: "'a serial_state_scheme \<Rightarrow> bool" where
  "serial_waiters s \<longleftrightarrow> (\<exists>ts. ge_WaitingThreads (Generations s ReadGeneration) = map ThreadContext ts \<and> distinct ts \<and>
     (\<forall>t\<in>set ts. waiting (ThreadContext t) s))"

definition serial_handler :: "'a serial_state_scheme \<Rightarrow> bool" where
  "serial_handler s \<longleftrightarrow> (let ho = Handlers s ReadGenerationCritObject in ho_CompleteFunction ho = None \<and>
     (if ho_State ho = HANDLER_QUEUED then ho_Function ho = Some GenerationUpdateHandler_f \<and> ho_Context ho = Some ReadGenerationContext \<and>
        GenerationContexts s ReadGenerationContext = \<lparr>gc_Generation = Some ReadGeneration, gc_NewValue = ReadGenerationCount s\<rparr>
      else ge_Generation (Generations s ReadGeneration) = ReadGenerationCount s))"

definition serial_prompt :: "'a serial_state_scheme \<Rightarrow> (addr \<rightharpoonup> serial_pc) \<Rightarrow> bool" where
  "serial_prompt s pcs \<longleftrightarrow> (let gen = Generations s ReadGeneration; cnt = ReadGenerationCount s in
     case ho_State (Handlers s ReadGenerationCritObject) of
        HANDLER_READY \<Rightarrow> ge_WaitingThreads gen \<noteq> [] \<or> about_to_wait cnt pcs \<longrightarrow> contents (SerialInputRing s) = []
      | HANDLER_QUEUED \<Rightarrow> \<not> about_to_wait cnt pcs
      | HANDLER_RUNNING \<Rightarrow> \<not> about_to_wait cnt pcs \<and> ge_WaitingThreads gen = [])"

definition serial_ok :: "bool \<Rightarrow> 'a serial_state_scheme \<Rightarrow> (addr \<rightharpoonup> serial_pc) \<Rightarrow> BYTE list \<Rightarrow> BYTE list \<Rightarrow> nat \<Rightarrow> bool" where
  "serial_ok d s pcs rcv dlv n \<longleftrightarrow> serial_ring (SerialInputRing s) \<and> rcv = dlv @ contents (SerialInputRing s) \<and>
     unat (ReadGenerationCount s) \<le> n \<and> serial_waiters s \<and>
     (\<forall>t pc. pcs t = Some pc \<longrightarrow> serial_pc_ok (ReadGenerationCount s) pc) \<and> serial_handler s \<and> (d \<longrightarrow> serial_prompt s pcs)"

lemma serial_ok_other: "serial_ok d s pcs rcv dlv n \<Longrightarrow> serial_other s s' \<Longrightarrow> serial_ok d s' pcs rcv dlv n"
  by (auto simp: serial_ok_def serial_other_def serial_waiters_def serial_handler_def serial_prompt_def Let_def split: HANDLER_STATE.splits)

lemma GetBytesInterrupt_eq:
  assumes "serial_ring (SerialInputRing s)" and "received (32 - length (contents (SerialInputRing s))) (tty_in s) = Some (bs, rs)"
  shows "\<exists>ring. serial_ring ring \<and> contents ring = contents (SerialInputRing s) @ bs \<and>
     GetBytesInterrupt s = Some (let s = s\<lparr>SerialInputRing := ring, tty_in := rs\<rparr> in
       if HandlerIsFinished ReadGenerationCritObject s then
         HalRaiseInterrupt IRQ_LEVEL_CRIT (s\<lparr>ReadGenerationCount := ReadGenerationCount s + 1,
           GenerationContexts := (GenerationContexts s)(ReadGenerationContext :=
             \<lparr>gc_Generation = Some ReadGeneration, gc_NewValue = ReadGenerationCount s + 1\<rparr>),
           Handlers := (Handlers s)(ReadGenerationCritObject :=
             queued_as (Some GenerationUpdateHandler_f) (Some ReadGenerationContext) (Handlers s ReadGenerationCritObject)),
           CritInterruptHandlerList := ReadGenerationCritObject # CritInterruptHandlerList s\<rparr>)
       else s)"
proof -
  have "gets_bytes s bs rs" using GetBytesLoop_received [OF assms(1)] assms(2) by simp
  then obtain ring where "GetBytesLoop s = Some (s\<lparr>SerialInputRing := ring, tty_in := rs\<rparr>)" "serial_ring ring"
      "contents ring = contents (SerialInputRing s) @ bs"
    unfolding gets_bytes_def by blast
  then show ?thesis
    by (intro exI [of _ ring])
      (simp add: GetBytesInterrupt_def GenerationUpdateSafe_def CritInterruptRegisterHandler_def HandlerRegister_def
        HandlerIsFinished_def upd_handler_def queued_as_def Let_def)
qed

lemma about_to_wait_le: "\<forall>t pc. pcs t = Some pc \<longrightarrow> serial_pc_ok cnt pc \<Longrightarrow> about_to_wait g pcs \<Longrightarrow> g \<le> cnt"
  by (fastforce simp: about_to_wait_def serial_pc_ok_def)

lemma serial_ok_receive:
  assumes ok: "serial_ok d s pcs rcv dlv n" and n: "Suc n < 2 ^ 64"
    and r: "received (32 - length (contents (SerialInputRing s))) (tty_in s) = Some (bs, rs)" and g: "GetBytesInterrupt s = Some s'"
  shows "serial_ok d s' pcs (rcv @ bs) dlv (Suc n)"
proof -
  let ?cnt = "ReadGenerationCount s"
  have u: "unat (?cnt + 1) = unat ?cnt + 1"
    by (rule unat_Suc_word) (use ok n in \<open>simp add: serial_ok_def\<close>)
  then have lt: "?cnt < ?cnt + 1" by (simp add: word_less_nat_alt)
  have nw: "\<not> about_to_wait (?cnt + 1) pcs"
    using about_to_wait_le [of pcs ?cnt "?cnt + 1"] ok lt by (auto simp: serial_ok_def)
  have mono: "serial_pc_ok (?cnt + 1) pc" if "serial_pc_ok ?cnt pc" for pc
    using that lt by (auto simp: serial_pc_ok_def split: serial_pc.splits)
  obtain ring where ring: "serial_ring ring" "contents ring = contents (SerialInputRing s) @ bs"
    and s': "s' = (let s = s\<lparr>SerialInputRing := ring, tty_in := rs\<rparr> in
       if HandlerIsFinished ReadGenerationCritObject s then
         HalRaiseInterrupt IRQ_LEVEL_CRIT (s\<lparr>ReadGenerationCount := ReadGenerationCount s + 1,
           GenerationContexts := (GenerationContexts s)(ReadGenerationContext :=
             \<lparr>gc_Generation = Some ReadGeneration, gc_NewValue = ReadGenerationCount s + 1\<rparr>),
           Handlers := (Handlers s)(ReadGenerationCritObject :=
             queued_as (Some GenerationUpdateHandler_f) (Some ReadGenerationContext) (Handlers s ReadGenerationCritObject)),
           CritInterruptHandlerList := ReadGenerationCritObject # CritInterruptHandlerList s\<rparr>)
       else s)"
    using GetBytesInterrupt_eq [OF _ r] ok g by (auto simp: serial_ok_def)
  show ?thesis
  proof (cases "HandlerIsFinished ReadGenerationCritObject s")
    case True
    then show ?thesis
      using ok ring nw mono u unfolding s'
      by (auto simp: serial_ok_def serial_waiters_def serial_handler_def serial_prompt_def HandlerIsFinished_def HalRaiseInterrupt_def queued_as_def Let_def)
  next
    case False
    then show ?thesis
      using ok ring unfolding s'
      by (auto simp: serial_ok_def serial_waiters_def serial_handler_def serial_prompt_def HandlerIsFinished_def Let_def split: HANDLER_STATE.splits)
  qed
qed

text \<open>The critical handler announces the generation and wakes every waiting reader.\<close>

lemma GenerationUpdateHandler_eq:
  assumes ok: "serial_ok d s pcs rcv dlv n" and crit: "in_crit s" "sched_ok s" "IsrDisabledCount s IRQ_LEVEL_CRIT + 1 \<noteq> 0" "caller_runs s"
    and q: "CritInterruptHandlerList s = ReadGenerationCritObject # hs"
  shows "\<exists>s1 s' ts. HandlerRun ReadGenerationCritObject (s\<lparr>CritInterruptHandlerList := hs\<rparr>) = Some s1 \<and>
     GenerationUpdateHandler wk ReadGenerationCritObject s1 = Some (True, s') \<and>
     ge_WaitingThreads (Generations s ReadGeneration) = map ThreadContext ts \<and>
     s' = (resume_all ts s1)\<lparr>Generations := (Generations s)(ReadGeneration :=
        \<lparr>ge_Generation = ReadGenerationCount s, ge_WaitingThreads = []\<rparr>)\<rparr> \<and>
     s1 = upd_handler ReadGenerationCritObject (\<lambda>ho. ho\<lparr>ho_State := HANDLER_RUNNING\<rparr>) (s\<lparr>CritInterruptHandlerList := hs\<rparr>) \<and>
     (d \<longrightarrow> \<not> about_to_wait (ReadGenerationCount s) pcs)"
proof -
  let ?s1 = "upd_handler ReadGenerationCritObject (\<lambda>ho. ho\<lparr>ho_State := HANDLER_RUNNING\<rparr>) (s\<lparr>CritInterruptHandlerList := hs\<rparr>)"
  have st: "ho_State (Handlers s ReadGenerationCritObject) = HANDLER_QUEUED"
    using crit(2) q by (auto simp: sched_ok_def switch_ok_def queues_ok_def)
  then have h: "d \<longrightarrow> \<not> about_to_wait (ReadGenerationCount s) pcs" "ho_Context (Handlers s ReadGenerationCritObject) = Some ReadGenerationContext"
      "GenerationContexts s ReadGenerationContext = \<lparr>gc_Generation = Some ReadGeneration, gc_NewValue = ReadGenerationCount s\<rparr>"
    using ok by (auto simp: serial_ok_def serial_handler_def serial_prompt_def Let_def)
  obtain ts where ts: "ge_WaitingThreads (Generations s ReadGeneration) = map ThreadContext ts" "distinct ts"
      "\<forall>t\<in>set ts. waiting (ThreadContext t) s"
    using ok by (auto simp: serial_ok_def serial_waiters_def)
  have run: "HandlerRun ReadGenerationCritObject (s\<lparr>CritInterruptHandlerList := hs\<rparr>) = Some ?s1"
    using st by (simp add: HandlerRun_def)
  have crit1: "in_crit ?s1" by (rule irq_same_in_crit [OF _ crit(1)]) (simp add: irq_same_def)
  have ok1: "sched_ok ?s1" by (rule sched_ok_popped [OF crit(2) q]) simp
  have w: "\<forall>t\<in>set ts. wakeable (ThreadContext t) ?s1"
    using ts(3) crit(4) by (auto simp: wakeable_def caller_runs_def upd_handler_def)
  have "GenerationUpdate wk (Generations s ReadGeneration) (ReadGenerationCount s) ?s1 =
      Some (\<lparr>ge_Generation = ReadGenerationCount s, ge_WaitingThreads = []\<rparr>, resume_all ts ?s1)"
    by (rule GenerationUpdate_in_crit [OF crit1 ok1 _ ts(1,2) w]) (use crit(3) in \<open>simp add: upd_handler_def\<close>)
  moreover have "Generations (resume_all ts ?s1) = Generations s"
    using resume_all_frame(4) [of ts ?s1] by (cases "resume_all ts ?s1"; cases s) (simp add: upd_handler_def)
  ultimately have "GenerationUpdateHandler wk ReadGenerationCritObject ?s1 = Some (True, (resume_all ts ?s1)
      \<lparr>Generations := (Generations s)(ReadGeneration := \<lparr>ge_Generation = ReadGenerationCount s, ge_WaitingThreads = []\<rparr>)\<rparr>)"
    using h(2,3) by (simp add: GenerationUpdateHandler_def upd_handler_def)
  then show ?thesis using run ts(1) h(1) by blast
qed

lemma serial_more:
  "sched_state.more s' = sched_state.more s \<Longrightarrow> SerialInputRing s' = SerialInputRing s \<and> SerialOutputRing s' = SerialOutputRing s \<and>
   ReadGenerationCount s' = ReadGenerationCount s \<and> Generations s' = Generations s \<and> GenerationContexts s' = GenerationContexts s \<and>
   tty_in s' = tty_in s"
  for s :: "'a serial_state_scheme"
  by (cases s; cases s') simp

lemma serial_ok_update:
  assumes ok: "serial_ok d s pcs rcv dlv n" and crit: "in_crit s" "sched_ok s" "IsrDisabledCount s IRQ_LEVEL_CRIT + 1 \<noteq> 0" "caller_runs s"
    and q: "CritInterruptHandlerList s = ReadGenerationCritObject # hs"
    and run: "HandlerRun ReadGenerationCritObject (s\<lparr>CritInterruptHandlerList := hs\<rparr>) = Some s1"
    and upd: "GenerationUpdateHandler wk ReadGenerationCritObject s1 = Some (b, s')"
  shows "serial_ok d s' pcs rcv dlv n"
proof -
  obtain ts where ts: "s' = (resume_all ts s1)\<lparr>Generations := (Generations s)(ReadGeneration :=
        \<lparr>ge_Generation = ReadGenerationCount s, ge_WaitingThreads = []\<rparr>)\<rparr>"
     "s1 = upd_handler ReadGenerationCritObject (\<lambda>ho. ho\<lparr>ho_State := HANDLER_RUNNING\<rparr>) (s\<lparr>CritInterruptHandlerList := hs\<rparr>)"
     "d \<longrightarrow> \<not> about_to_wait (ReadGenerationCount s) pcs"
    using GenerationUpdateHandler_eq [OF ok crit q, of wk] run upd by auto
  have "sched_state.more s1 = sched_state.more s" by (simp add: ts(2) upd_handler_def)
  then have m: "SerialInputRing (resume_all ts s1) = SerialInputRing s" "ReadGenerationCount (resume_all ts s1) = ReadGenerationCount s"
      "GenerationContexts (resume_all ts s1) = GenerationContexts s"
    using serial_more [of "resume_all ts s1" s] resume_all_frame(4) [of ts s1] by simp_all
  have "Handlers (resume_all ts s1) ReadGenerationCritObject = (Handlers s ReadGenerationCritObject)\<lparr>ho_State := HANDLER_RUNNING\<rparr>"
    using resume_all_frame(5) [of ts s1] by (simp add: ts(2) upd_handler_def)
  then show ?thesis
    using ok m ts(3) unfolding ts(1) by (simp add: serial_ok_def serial_waiters_def serial_handler_def serial_prompt_def Let_def)
qed

lemma serial_ok_finish:
  assumes ok: "serial_ok d s pcs rcv dlv n" and f: "HandlerFinish finish ReadGenerationCritObject s = Some s'"
  shows "serial_ok d s' pcs rcv dlv n"
proof -
  have "ho_CompleteFunction (Handlers s ReadGenerationCritObject) = None" using ok by (simp add: serial_ok_def serial_handler_def serial_prompt_def Let_def)
  then have "ho_State (Handlers s ReadGenerationCritObject) = HANDLER_RUNNING"
      "s' = upd_handler ReadGenerationCritObject (\<lambda>ho. ho\<lparr>ho_State := HANDLER_READY\<rparr>) s"
    using f by (auto simp: HandlerFinish_def split: if_splits)
  then show ?thesis
    using ok by (auto simp: serial_ok_def serial_waiters_def serial_handler_def serial_prompt_def upd_handler_def Let_def)
qed

text \<open>The steps of a reader.\<close>

lemma serial_frame [simp]:
  "outside (s\<lparr>SerialInputRing := r\<rparr>) = outside s" "isr_ok (s\<lparr>SerialInputRing := r\<rparr>) = isr_ok s"
  "isr_ok (s\<lparr>SerialOutputRing := r\<rparr>) = isr_ok s" "outside (s\<lparr>Generations := g\<rparr>) = outside s"
  by (simp_all add: outside_def open_irq_def crit_levels_def isr_ok_def hal_ok_def sched_ok_def run_queue_ok_def contexts_ok_def
      switch_ok_def queues_ok_def)

lemma outside_section:
  assumes "outside s" and "l < IRQ_LEVEL_COUNT" and "isr_ok (u s)" and "IsrDisabledCount (u s) = IsrDisabledCount s"
    and "\<And>c. u (set_counts c s) = set_counts c (u s)"
  shows "IsrEnable l (u (IsrDisable l s)) = Some (u s)"
  by (rule isr_section) (use assms in \<open>auto simp: outside_def open_irq_def crit_levels_def\<close>)

lemma serial_disable [simp]:
  "SerialInputRing (IsrDisable l s) = SerialInputRing s" "SerialOutputRing (IsrDisable l s) = SerialOutputRing s"
  "ReadGenerationCount (IsrDisable l s) = ReadGenerationCount s"
  by (simp_all add: IsrDisable_def IsrDefer_def IsrDeferLoop_top HalSetIrq_def Let_def)

lemma SerialRead_try_eq:
  assumes "outside s" and "serial_ring (SerialInputRing s)" and "unat len + 32 < 2 ^ 64"
  shows "\<exists>ring. serial_ring ring \<and> contents ring = drop (unat len) (contents (SerialInputRing s)) \<and>
     SerialRead_try len full s = Some (let bs = take (unat len) (contents (SerialInputRing s));
         full = (RingBufferIsFull (SerialInputRing s) \<or> full); s' = s\<lparr>SerialInputRing := ring\<rparr> in
       if bs = [] then (Checked len full (ReadGenerationCount s), s')
       else (Returned bs, if full then HalRaiseInterrupt IRQ_LEVEL_SERIAL_READ s' else s'))"
proof -
  obtain ring where r: "RingBufferRead len (SerialInputRing s) = Some (take (unat len) (contents (SerialInputRing s)), ring)"
      "serial_ring ring" "contents ring = drop (unat len) (contents (SerialInputRing s))"
    using serial_ring_read [OF assms(2,3)] by blast
  have "IsrEnable IRQ_LEVEL_SERIAL_READ ((IsrDisable IRQ_LEVEL_SERIAL_READ s)\<lparr>SerialInputRing := ring\<rparr>) = Some (s\<lparr>SerialInputRing := ring\<rparr>)"
    by (rule outside_section [OF assms(1), where u = "\<lambda>s. s\<lparr>SerialInputRing := ring\<rparr>"])
      (use assms(1) in \<open>simp_all add: outside_def open_irq_def crit_levels_def set_counts_def\<close>)
  then show ?thesis using r by (intro exI [of _ ring]) (simp add: SerialRead_try_def Let_def)
qed

lemma serial_ok_try:
  assumes ok: "serial_ok d s pcs rcv dlv n" and out: "outside s" and pc: "pcs t = Some (Trying len full)"
    and st: "SerialRead_try len full s = Some (pc', s')" and d': "d' \<longleftrightarrow> d \<and> HandlerIsFinished ReadGenerationCritObject s"
  shows "serial_ok d' s' (pcs(t \<mapsto> pc')) rcv (case pc' of Returned bs \<Rightarrow> dlv @ bs | _ \<Rightarrow> dlv) n"
proof -
  let ?cnt = "ReadGenerationCount s" and ?gen = "Generations s ReadGeneration" and ?ring = "SerialInputRing s"
  have o: "serial_ring ?ring" "rcv = dlv @ contents ?ring" "unat ?cnt \<le> n" "serial_waiters s"
      "\<forall>t pc. pcs t = Some pc \<longrightarrow> serial_pc_ok ?cnt pc" "serial_handler s" "d \<Longrightarrow> serial_prompt s pcs"
    using ok by (auto simp: serial_ok_def)
  have r0: "d' \<Longrightarrow> ho_State (Handlers s ReadGenerationCritObject) = HANDLER_READY"
      "d' \<Longrightarrow> ge_WaitingThreads ?gen \<noteq> [] \<or> about_to_wait ?cnt pcs \<Longrightarrow> contents ?ring = []"
    using o(7) d' by (auto simp: serial_prompt_def HandlerIsFinished_def Let_def)
  have len: "0 < len" "unat len + 32 < 2 ^ 64" using o(5) pc by force+
  have others: "about_to_wait ?cnt (pcs(t \<mapsto> pc')) \<Longrightarrow> about_to_wait ?cnt pcs \<or> (\<exists>len full. pc' = Checked len full ?cnt)"
    by (auto simp: about_to_wait_def split: if_splits)
  obtain ring where r: "serial_ring ring" "contents ring = drop (unat len) (contents ?ring)"
     "SerialRead_try len full s = Some (let bs = take (unat len) (contents ?ring);
        full = (RingBufferIsFull ?ring \<or> full); s' = s\<lparr>SerialInputRing := ring\<rparr> in
      if bs = [] then (Checked len full ?cnt, s')
      else (Returned bs, if full then HalRaiseInterrupt IRQ_LEVEL_SERIAL_READ s' else s'))"
    using SerialRead_try_eq [OF out o(1) len(2)] by blast
  show ?thesis
  proof (cases "contents ?ring = []")
    case True
    then have "pc' = Checked len (RingBufferIsFull ?ring \<or> full) ?cnt" "s' = s\<lparr>SerialInputRing := ring\<rparr>"
      using st r(3) by (auto simp: Let_def)
    then show ?thesis
      using o r(1,2) r0(1) True len
      by (auto simp: serial_ok_def serial_waiters_def serial_handler_def serial_prompt_def Let_def)
  next
    case False
    have "take (unat len) (contents ?ring) \<noteq> []" using False len(1) by (simp add: unat_eq_0)
    then have pc': "pc' = Returned (take (unat len) (contents ?ring))" and
        s': "s' = s\<lparr>SerialInputRing := ring\<rparr> \<or> s' = HalRaiseInterrupt IRQ_LEVEL_SERIAL_READ (s\<lparr>SerialInputRing := ring\<rparr>)"
      using st r(3) by (auto simp: Let_def split: if_splits)
    have "d' \<Longrightarrow> ge_WaitingThreads ?gen = []" "d' \<Longrightarrow> \<not> about_to_wait ?cnt pcs" using r0(2) False by blast+
    then show ?thesis
      using o s' r(1,2) r0(1) others unfolding pc'
      by (auto simp: serial_ok_def serial_waiters_def serial_handler_def serial_prompt_def HalRaiseInterrupt_def Let_def)
  qed
qed

lemma serial_ok_wait:
  assumes ok: "serial_ok d s pcs rcv dlv n" and out: "outside s" and may: "may_wait NULL s" and t: "t = ActiveThread s"
    and pc: "pcs t = Some (Checked len full g)" and st: "SerialRead_wait wk len full g s = Some (pc', s')"
    and d': "d' \<longleftrightarrow> d \<and> HandlerIsFinished ReadGenerationCritObject s"
  shows "serial_ok d' s' (pcs(t \<mapsto> pc')) rcv dlv n \<and> pc' = Trying len full"
proof -
  let ?cnt = "ReadGenerationCount s" and ?gen = "Generations s ReadGeneration" and ?ring = "SerialInputRing s"
  have o: "serial_ring ?ring" "rcv = dlv @ contents ?ring" "unat ?cnt \<le> n" "serial_waiters s"
      "\<forall>t pc. pcs t = Some pc \<longrightarrow> serial_pc_ok ?cnt pc" "serial_handler s" "d \<Longrightarrow> serial_prompt s pcs"
    using ok by (auto simp: serial_ok_def)
  have pcok: "serial_pc_ok ?cnt (Checked len full g)" using o(5) pc by blast
  have r0: "d' \<Longrightarrow> ho_State (Handlers s ReadGenerationCritObject) = HANDLER_READY" "d' \<Longrightarrow> ge_Generation ?gen = ?cnt"
      "d' \<Longrightarrow> ge_WaitingThreads ?gen \<noteq> [] \<or> about_to_wait ?cnt pcs \<Longrightarrow> contents ?ring = []"
    using o(6,7) d' by (auto simp: serial_prompt_def serial_handler_def HandlerIsFinished_def Let_def)
  have g: "d' \<Longrightarrow> g = ge_Generation ?gen \<Longrightarrow> contents ?ring = []" using r0(2,3) pc by (auto simp: about_to_wait_def)
  obtain ts where ts: "ge_WaitingThreads ?gen = map ThreadContext ts" "distinct ts" "\<forall>t\<in>set ts. waiting (ThreadContext t) s"
    using o(4) by (auto simp: serial_waiters_def)
  have park: "parked_ok (ge_WaitingThreads ?gen) s"
    using ts by (auto simp: parked_ok_def distinct_map inj_on_def)
  have notin: "t \<notin> set ts" using ts(3) may t by (auto simp: may_wait_def ctx_of_def)
  obtain s1 where w: "GenerationWait wk ?gen g NULL s = Some (if g = ge_Generation ?gen then
     ?gen\<lparr>ge_WaitingThreads := ge_WaitingThreads ?gen @ [ThreadContext t]\<rparr> else ?gen, s1)" "outside s1" "timers_kept s s1"
   "\<forall>c. c \<noteq> ThreadContext t \<longrightarrow> Contexts s1 c = Contexts s c" "waiting (ThreadContext t) s1 \<longleftrightarrow> g = ge_Generation ?gen"
    using GenerationWait_user [OF out may park t] by blast
  have m: "SerialInputRing s1 = ?ring" "ReadGenerationCount s1 = ?cnt" "Generations s1 = Generations s"
      "GenerationContexts s1 = GenerationContexts s"
    using w(3) serial_more [of s1 s] by (simp_all add: timers_kept_def)
  have h: "Handlers s1 ReadGenerationCritObject = Handlers s ReadGenerationCritObject" using w(3) by (simp add: timers_kept_def)
  have s': "pc' = Trying len full" "s' = s1\<lparr>Generations := (Generations s)(ReadGeneration := if g = ge_Generation ?gen then
     ?gen\<lparr>ge_WaitingThreads := ge_WaitingThreads ?gen @ [ThreadContext t]\<rparr> else ?gen)\<rparr>"
    using st w(1) m(3) by (auto simp: SerialRead_wait_def)
  have old: "\<forall>u\<in>set ts. waiting (ThreadContext u) s1" using ts(3) w(4) notin by auto
  have "serial_waiters s'"
    using ts(1,2) old notin w(5) unfolding s'(2) serial_waiters_def
    by (cases "g = ge_Generation ?gen") (auto intro!: exI [of _ "if g = ge_Generation ?gen then ts @ [t] else ts"])
  moreover have "\<not> about_to_wait ?cnt (pcs(t \<mapsto> pc')) \<or> about_to_wait ?cnt pcs"
    using s'(1) by (auto simp: about_to_wait_def split: if_splits)
  moreover have "serial_pc_ok ?cnt pc'" using pcok s'(1) by simp
  moreover have "serial_handler s'" using o(6) m h by (simp add: s'(2) serial_handler_def Let_def)
  ultimately show ?thesis
    using o(1-3,5) r0 g m h s' by (auto simp: serial_ok_def serial_prompt_def Let_def)
qed

lemma serial_ok_step:
  assumes ok: "serial_ok d s pcs rcv dlv n" and out: "outside s" and may: "may_wait NULL s" and t: "t = ActiveThread s"
    and pc: "pcs t = Some pc" and st: "SerialReadStep wk pc s = Some (pc', s')"
  shows "serial_ok (d \<and> HandlerIsFinished ReadGenerationCritObject s) s' (pcs(t \<mapsto> pc')) rcv
    (case pc' of Returned bs \<Rightarrow> dlv @ bs | _ \<Rightarrow> dlv) n"
proof (cases pc)
  case (Trying len full)
  then show ?thesis using serial_ok_try [OF ok out _ _ refl] pc st by (simp add: SerialReadStep_def)
next
  case (Checked len full g)
  then have "pcs t = Some (Checked len full g)" "SerialRead_wait wk len full g s = Some (pc', s')"
    using pc st by (simp_all add: SerialReadStep_def)
  from serial_ok_wait [OF ok out may t this refl] show ?thesis by (elim conjE) simp
next
  case (Returned bs)
  then show ?thesis using st by (simp add: SerialReadStep_def)
qed

lemma serial_ok_pcs:
  assumes "serial_ok d s pcs rcv dlv n" and "\<And>g. about_to_wait g pcs' = about_to_wait g pcs"
    and "\<forall>u pc. pcs' u = Some pc \<longrightarrow> serial_pc_ok (ReadGenerationCount s) pc"
  shows "serial_ok d s pcs' rcv dlv n"
  using assms(1,3) unfolding serial_ok_def serial_prompt_def Let_def assms(2) by blast

lemma serial_run_ok: "serial_run wk d s pcs rcv dlv n \<Longrightarrow> n < 2 ^ 64 \<Longrightarrow> serial_ok d s pcs rcv dlv n"
proof (induction rule: serial_run.induct)
  case (serial_start s gen)
  then show ?case
    by (auto simp: serial_ok_def serial_waiters_def serial_handler_def serial_prompt_def ready_handler_def GenerationInit_def about_to_wait_def Let_def)
next
  case (serial_others d s pcs rcv dlv n s')
  then show ?case by (blast intro: serial_ok_other)
next
  case (serial_receive d s pcs rcv dlv n bs rs s')
  have "serial_ok d s pcs rcv dlv n" using serial_receive.IH serial_receive.prems by simp
  then show ?case using serial_ok_receive serial_receive.hyps(2,3) serial_receive.prems by blast
next
  case (serial_update d s pcs rcv dlv n hs s1 b s')
  show ?case
    by (rule serial_ok_update [OF serial_update.IH [OF serial_update.prems] serial_update.hyps(2-)])
next
  case (serial_finish d s pcs rcv dlv n finish s')
  then show ?case by (blast intro: serial_ok_finish)
next
  case (serial_call d s pcs rcv dlv n t len)
  have ok: "serial_ok d s pcs rcv dlv n" using serial_call.IH serial_call.prems by simp
  show ?case
  proof (rule serial_ok_pcs [OF ok])
    show "about_to_wait g (pcs(t \<mapsto> Trying len False)) = about_to_wait g pcs" for g
      using serial_call.hyps(2) by (intro about_to_wait_upd) auto
  qed (use ok serial_call.hyps(3,4) in \<open>auto simp: serial_ok_def\<close>)
next
  case (serial_step d s pcs rcv dlv n t pc pc' s')
  show ?case by (rule serial_ok_step [OF serial_step.IH [OF serial_step.prems] serial_step.hyps(2-)])
next
  case (serial_return d s pcs rcv dlv n t bs)
  have ok: "serial_ok d s pcs rcv dlv n" using serial_return.IH serial_return.prems by simp
  show ?case
  proof (rule serial_ok_pcs [OF ok])
    show "about_to_wait g (pcs(t := None)) = about_to_wait g pcs" for g
      using serial_return.hyps(2) by (intro about_to_wait_upd) auto
  qed (use ok in \<open>auto simp: serial_ok_def split: if_splits\<close>)
qed

text \<open>A state in which the update of the generation is queued, is run as first handler of the critical interrupt, and finished.\<close>

lemma sched_ok_generations: "sched_ok (s\<lparr>Generations := g\<rparr>) = sched_ok s"
  by (simp add: sched_ok_def run_queue_ok_def contexts_ok_def switch_ok_def queues_ok_def)

lemma outside_queued:
  assumes "outside s" and "HandlerIsFinished ReadGenerationCritObject s"
  shows "outside (HalRaiseInterrupt IRQ_LEVEL_CRIT (s\<lparr>SerialInputRing := ring, tty_in := rs, ReadGenerationCount := c, GenerationContexts := gc,
     Handlers := (Handlers s)(ReadGenerationCritObject := queued_as f x (Handlers s ReadGenerationCritObject)),
     CritInterruptHandlerList := ReadGenerationCritObject # CritInterruptHandlerList s\<rparr>))"
  using assms
  by (auto simp: outside_def open_irq_def crit_levels_def isr_ok_def hal_ok_def sched_ok_def run_queue_ok_def contexts_ok_def
      switch_ok_def queues_ok_def queued_as_def HandlerIsFinished_def HalRaiseInterrupt_def)

lemma update_section:
  fixes s :: "'a serial_state_scheme"
  assumes out: "outside s" and q: "CritInterruptHandlerList s = ReadGenerationCritObject # hs"
    and w: "ge_WaitingThreads (Generations s ReadGeneration) = []"
    and h: "ho_CompleteFunction (Handlers s ReadGenerationCritObject) = None" "ho_Context (Handlers s ReadGenerationCritObject) = Some ReadGenerationContext"
      "GenerationContexts s ReadGenerationContext = \<lparr>gc_Generation = Some ReadGeneration, gc_NewValue = v\<rparr>"
  shows "\<exists>s1 s2 s3 s'. HandlerRun ReadGenerationCritObject ((LockingStart s)\<lparr>CritInterruptHandlerList := hs\<rparr>) = Some s1 \<and>
     GenerationUpdateHandler wk ReadGenerationCritObject s1 = Some (True, s2) \<and> HandlerFinish finish ReadGenerationCritObject s2 = Some s3 \<and>
     LockingEnd s3 = Some s' \<and> outside s' \<and> same_view s s' \<and> SerialInputRing s' = SerialInputRing s \<and> HandlerIsFinished ReadGenerationCritObject s' \<and>
     Generations s' ReadGeneration = \<lparr>ge_Generation = v, ge_WaitingThreads = []\<rparr>"
proof -
  let ?R = ReadGenerationCritObject
  have l: "LockingStart s = set_counts (crit_counts s) s" using start_critical(1) [of s] out by (simp add: outside_def LockingStart_def)
  note st = LockingStart_ok [OF out]
  define p where "p = (LockingStart s)\<lparr>CritInterruptHandlerList := hs\<rparr>"
  define s1 where "s1 = upd_handler ?R (\<lambda>ho. ho\<lparr>ho_State := HANDLER_RUNNING\<rparr>) p"
  have "ho_State (Handlers s ?R) = HANDLER_QUEUED" using out q by (auto simp: outside_def sched_ok_def switch_ok_def queues_ok_def)
  then have run: "HandlerRun ?R p = Some s1" by (simp add: HandlerRun_def s1_def p_def l)
  have q1: "CritInterruptHandlerList (LockingStart s) = ?R # hs" using q by (simp add: l)
  have ok1: "sched_ok s1" unfolding s1_def p_def by (rule sched_ok_popped [OF st(2) q1]) simp
  have irq1: "irq_same (LockingStart s) s1" by (simp add: irq_same_def s1_def p_def)
  then have crit1: "in_crit s1" using irq_same_in_crit st(1) by blast
  have "IsrDisabledCount s1 IRQ_LEVEL_CRIT + 1 \<noteq> 0"
    using out by (simp add: s1_def p_def l set_counts_def crit_counts_def outside_def open_irq_def)
  from GenerationUpdate_in_crit [OF crit1 ok1 this, of "Generations s ReadGeneration" "[]" wk v]
  have "GenerationUpdate wk (Generations s ReadGeneration) v s1 = Some (\<lparr>ge_Generation = v, ge_WaitingThreads = []\<rparr>, s1)" using w by simp
  then have up: "GenerationUpdateHandler wk ?R s1 = Some (True, s1\<lparr>Generations := (Generations s)(ReadGeneration :=
      \<lparr>ge_Generation = v, ge_WaitingThreads = []\<rparr>)\<rparr>)"
    using h(2,3) by (simp add: GenerationUpdateHandler_def s1_def p_def l upd_handler_def set_counts_def)
  define s3 where "s3 = upd_handler ?R (\<lambda>ho. ho\<lparr>ho_State := HANDLER_READY\<rparr>) (s1\<lparr>Generations := (Generations s)(ReadGeneration :=
      \<lparr>ge_Generation = v, ge_WaitingThreads = []\<rparr>)\<rparr>)"
  have fin: "HandlerFinish finish ?R (s1\<lparr>Generations := (Generations s)(ReadGeneration :=
      \<lparr>ge_Generation = v, ge_WaitingThreads = []\<rparr>)\<rparr>) = Some s3"
    using h(1) by (simp add: HandlerFinish_def s3_def s1_def p_def l)
  have "sched_ok (upd_handler ?R (\<lambda>ho. ho\<lparr>ho_State := HANDLER_READY\<rparr>) p)"
    unfolding p_def by (rule sched_ok_popped [OF st(2) q1]) simp
  moreover have "s3 = (upd_handler ?R (\<lambda>ho. ho\<lparr>ho_State := HANDLER_READY\<rparr>) p)\<lparr>Generations := (Generations s)(ReadGeneration :=
      \<lparr>ge_Generation = v, ge_WaitingThreads = []\<rparr>)\<rparr>"
    by (simp add: s3_def s1_def upd_handler_def)
  ultimately have ok3: "sched_ok s3"
    by (simp add: sched_ok_generations)
  have irq3: "irq_same (LockingStart s) s3" by (simp add: irq_same_def s3_def s1_def p_def)
  obtain s' where e: "LockingEnd s3 = Some s'" "outside s'" "same_view s3 s'" using LockingEnd_ok [OF out irq3 ok3] by blast
  have k: "timers_kept s3 s'" using e(1) by (simp add: LockingEnd_def SchedulerEndCritical_def timers_kept_enable)
  then have h3: "Handlers s' ?R = Handlers s3 ?R" by (simp add: timers_kept_def)
  have m: "SerialInputRing s' = SerialInputRing s3" "Generations s' = Generations s3" using k serial_more [of s' s3] by (simp_all add: timers_kept_def)
  have "same_view s s'" using e(3) by (simp add: same_view_def s3_def s1_def p_def l)
  moreover have "SerialInputRing s' = SerialInputRing s" "HandlerIsFinished ?R s'"
      "Generations s' ReadGeneration = \<lparr>ge_Generation = v, ge_WaitingThreads = []\<rparr>"
    using m h3 by (simp_all add: s3_def s1_def p_def l HandlerIsFinished_def upd_handler_def set_counts_def)
  ultimately show ?thesis using run up fin e(1,2) unfolding p_def by blast
qed

section \<open>Starting up\<close>

lemma starting_serial [simp]:
  "starting (s\<lparr>SerialInputRing := a\<rparr>) = starting s" "starting (s\<lparr>SerialOutputRing := a\<rparr>) = starting s"
  "starting (s\<lparr>ReadGenerationCount := c\<rparr>) = starting s" "starting (s\<lparr>Generations := g\<rparr>) = starting s"
  "starting (HandlerInit h s) = starting s"
  by (simp_all add: starting_def isr_ok_def hal_ok_def HandlerInit_def upd_handler_def)

text \<open>Started with a terminal that opens, the serial line has empty rings and keeps the settings of the terminal.\<close>

lemma SerialStartup_ok:
  assumes "starting s" and "tty_opens_in s" and "tty_opens_out s" and "length inbuf = 32" and "length outbuf = 32"
  shows "\<exists>s'. SerialStartup inbuf outbuf s = Some s' \<and> starting s' \<and> serial_run wk True s' Map.empty [] [] 0 \<and>
     serial_ring (SerialOutputRing s') \<and> contents (SerialOutputRing s') = [] \<and>
     IsrHandlerTable s' IRQ_LEVEL_SERIAL_READ = Some SerialRead_isr \<and> IsrHandlerTable s' IRQ_LEVEL_SERIAL_WRITE = Some SerialWrite_isr \<and>
     (\<forall>c. c \<noteq> VSWTC \<longrightarrow> c_cc (tty_settings s') c = c_cc (tty_settings s) c)"
proof -
  define s1 where "s1 = HandlerInit ReadGenerationCritObject (s\<lparr>SerialInputRing := RingBufferInit inbuf BUFFER_SIZE,
    SerialOutputRing := RingBufferInit outbuf BUFFER_SIZE, ReadGenerationCount := 0,
    Generations := (Generations s)(ReadGeneration := GenerationInit (Generations s ReadGeneration) 0)\<rparr>)"
  have "starting s1" using assms(1) by (simp add: s1_def)
  then obtain s2 where s2: "IsrRegisterHandler SerialWrite_isr HAL_ISR_SERIAL_WRITE IRQ_LEVEL_SERIAL_WRITE s1 = Some s2" "starting s2"
      "isr_state.more s2 = isr_state.more s1" "IsrHandlerTable s2 = (IsrHandlerTable s1)(IRQ_LEVEL_SERIAL_WRITE \<mapsto> SerialWrite_isr)"
    using isr_register_starting [of s1 HAL_ISR_SERIAL_WRITE IRQ_LEVEL_SERIAL_WRITE SerialWrite_isr] by auto
  then obtain s3 where s3: "IsrRegisterHandler SerialRead_isr HAL_ISR_SERIAL_READ IRQ_LEVEL_SERIAL_READ s2 = Some s3" "starting s3"
      "isr_state.more s3 = isr_state.more s2" "IsrHandlerTable s3 = (IsrHandlerTable s2)(IRQ_LEVEL_SERIAL_READ \<mapsto> SerialRead_isr)"
    using isr_register_starting [of s2 HAL_ISR_SERIAL_READ IRQ_LEVEL_SERIAL_READ SerialRead_isr] by auto
  have m: "isr_state.more s3 = isr_state.more s1" using s2(3) s3(3) by simp
  then have f: "Handlers s3 = Handlers s1" "SerialInputRing s3 = SerialInputRing s1" "SerialOutputRing s3 = SerialOutputRing s1"
      "ReadGenerationCount s3 = 0" "Generations s3 = Generations s1" "tty_opens_in s3" "tty_opens_out s3"
      "tty_settings s3 = tty_settings s"
    using assms(2,3) by (cases s3; cases s1; cases s; simp add: s1_def HandlerInit_def upd_handler_def)+
  define new where "new = (serialSettings s3)\<lparr>c_cflag := c_cflag (tty_settings s), c_iflag := c_iflag (tty_settings s),
    c_oflag := c_oflag (tty_settings s), c_lflag := c_lflag (tty_settings s),
    c_cc := (\<lambda>i. if i \<in> set copied_cc then c_cc (tty_settings s) i else c_cc (serialSettings s3) i),
    c_ispeed := c_ispeed (tty_settings s), c_ospeed := c_ospeed (tty_settings s)\<rparr>"
  define s' where "s' = s3\<lparr>serialSettingsOld := tty_settings s, serialSettings := new, tty_in := [], tty_settings := new\<rparr>"
  have "HalStartSerial s3 = Some s'" using f(6-8) by (simp add: HalStartSerial_def s'_def new_def Let_def cong: if_cong)
  then have run: "SerialStartup inbuf outbuf s = Some s'" using s2(1) s3(1) by (simp add: SerialStartup_def s1_def)
  have cc: "\<forall>c. c \<noteq> VSWTC \<longrightarrow> c \<in> set copied_cc" by (rule allI) (case_tac c; simp add: copied_cc_def)
  have "starting s'" using s3(2) by (simp add: s'_def starting_def isr_ok_def hal_ok_def)
  moreover have "serial_run wk True s' Map.empty [] [] 0"
    by (rule serial_start [where gen = "Generations s ReadGeneration"])
      (use f(1,2,4,5) serial_ring_init [OF assms(4)] in
        \<open>simp_all add: s'_def s1_def HandlerInit_def upd_handler_def ready_handler_def\<close>)
  ultimately show ?thesis
    using run f(3) serial_ring_init [OF assms(5)] s2(4) s3(4) cc
    by (simp add: s'_def new_def) (simp add: s1_def HandlerInit_def upd_handler_def)
qed

section \<open>Sending\<close>

definition all_sent :: "'a serial_state_scheme \<Rightarrow> RING_BUFFER \<Rightarrow> 'a serial_state_scheme" where
  "all_sent s ring = s\<lparr>SerialOutputRing := ring, tty_out := tty_out s @ contents (SerialOutputRing s),
     tty_room := tty_room s - length (contents (SerialOutputRing s))\<rparr>"

lemma SendBytesLoop_sends:
  assumes "serial_ring (SerialOutputRing s)"
  shows "if tty_room s < length (contents (SerialOutputRing s)) then SendBytesLoop s = None
     else \<exists>ring. SendBytesLoop s = Some (all_sent s ring) \<and> serial_ring ring \<and> contents ring = []"
  using assms
proof (induction "length (contents (SerialOutputRing s))" arbitrary: s)
  case 0
  then have e: "contents (SerialOutputRing s) = []" by simp
  then have "SendBytesLoop s = Some s" using serial_ring_empty [OF 0(2)] by (simp add: SendBytesLoop.simps [of s])
  moreover have "all_sent s (SerialOutputRing s) = s" using e by (simp add: all_sent_def)
  ultimately have "\<exists>ring. SendBytesLoop s = Some (all_sent s ring) \<and> serial_ring ring \<and> contents ring = []"
    using 0(2) e by (intro exI [of _ "SerialOutputRing s"]) simp
  then show ?case using e by simp
next
  case (Suc n)
  then obtain b bs where c: "contents (SerialOutputRing s) = b # bs" by (cases "contents (SerialOutputRing s)") auto
  obtain ring where r: "RingBufferRead 1 (SerialOutputRing s) = Some ([b], ring)" "serial_ring ring" "contents ring = bs"
    using serial_ring_read [OF Suc.prems, of 1] c by auto
  have ne: "\<not> RingBufferIsEmpty (SerialOutputRing s)" using serial_ring_empty [OF Suc.prems] c by simp
  show ?case
  proof (cases "tty_room s")
    case 0
    then have "SendBytesLoop s = None" using ne r(1) by (simp add: SendBytesLoop.simps [of s] HalSerialWriteChar_def)
    then show ?thesis using 0 c by simp
  next
    case room: (Suc k)
    define s1 where "s1 = s\<lparr>SerialOutputRing := ring, tty_out := tty_out s @ [b], tty_room := k\<rparr>"
    have eq: "SendBytesLoop s = SendBytesLoop s1"
      using ne r(1) room by (simp add: SendBytesLoop.simps [of s] HalSerialWriteChar_def s1_def)
    have s1: "tty_room s1 = k" "contents (SerialOutputRing s1) = bs" "serial_ring (SerialOutputRing s1)"
      using r by (simp_all add: s1_def)
    have sent: "all_sent s1 x = all_sent s x" for x
      using c r(3) room by (simp add: all_sent_def s1_def)
    have "n = length (contents (SerialOutputRing s1))" using Suc.hyps(2) c s1(2) by simp
    from Suc.hyps(1) [OF this s1(3)] show ?thesis unfolding eq s1 sent room c by simp
  qed
qed

section \<open>Properties\<close>


text \<open>(C39) The condition of \<open>serial_reader_wakes\<close> is needed, and a wake-up can be lost: the interrupt announces no new generation while
  its handler is still queued. A byte arrives; the reader takes it and asks for more before the critical handler has run; a second
  byte arrives; the handler runs. The reader then waits for the generation after the one that was announced, with
  the second byte in the ring and no update to come.\<close>

theorem serial_wakeup_lost:
  fixes s :: "'a serial_state_scheme"
  assumes out: "outside s" and may: "may_wait NULL s" and ring: "serial_ring (SerialInputRing s)" "contents (SerialInputRing s) = []"
    and idle: "HandlerIsFinished ReadGenerationCritObject s" "ho_CompleteFunction (Handlers s ReadGenerationCritObject) = None"
    and nobody: "ge_WaitingThreads (Generations s ReadGeneration) = []"
    and tty: "tty_in s = [ReadByte a, ReadZero, ReadByte b, ReadZero]" and len: "0 < len" "unat len + 32 < 2 ^ 64"
  shows "\<exists>s1 s2 s3 s4 s5 s6 s7 s8 s9 g.
     GetBytesInterrupt s = Some s1 \<and>
     SerialRead_try len False s1 = Some (Returned [a], s2) \<and>
     SerialRead_try len False s2 = Some (Checked len False g, s3) \<and>
     GetBytesInterrupt s3 = Some s4 \<and>
     HandlerRun ReadGenerationCritObject ((LockingStart s4)\<lparr>CritInterruptHandlerList := CritInterruptHandlerList s\<rparr>) = Some s5 \<and>
     GenerationUpdateHandler wk ReadGenerationCritObject s5 = Some (True, s6) \<and>
     HandlerFinish finish ReadGenerationCritObject s6 = Some s7 \<and> LockingEnd s7 = Some s8 \<and>
     SerialRead_wait wk len False g s8 = Some (Trying len False, s9) \<and>
     waiting (ThreadContext (ActiveThread s)) s9 \<and> ge_WaitingThreads (Generations s9 ReadGeneration) = [ThreadContext (ActiveThread s)] \<and>
     contents (SerialInputRing s9) = [b] \<and> HandlerIsFinished ReadGenerationCritObject s9"
proof -
  let ?R = ReadGenerationCritObject and ?v = "ReadGenerationCount s + 1" and ?gc = "\<lambda>v. (GenerationContexts s)(ReadGenerationContext :=
             \<lparr>gc_Generation = Some ReadGeneration, gc_NewValue = v\<rparr>)"
  have r1: "received (32 - length (contents (SerialInputRing s))) (tty_in s) = Some ([a], [ReadByte b, ReadZero])"
    using ring(2) tty by (simp add: numeral_eq_Suc)
  define q where "q r rs = HalRaiseInterrupt IRQ_LEVEL_CRIT (s\<lparr>SerialInputRing := r, tty_in := rs, ReadGenerationCount := ?v, GenerationContexts := ?gc ?v,
     Handlers := (Handlers s)(?R := queued_as (Some GenerationUpdateHandler_f) (Some ReadGenerationContext) (Handlers s ?R)),
     CritInterruptHandlerList := ?R # CritInterruptHandlerList s\<rparr>)" for r rs
  have q: "outside (q r rs)" "SerialInputRing (q r rs) = r" "tty_in (q r rs) = rs" "(q r rs)\<lparr>SerialInputRing := r'\<rparr> = q r' rs"
      "(q r rs)\<lparr>tty_in := rs'\<rparr> = q r rs'"
      "ReadGenerationCount (q r rs) = ?v" "\<not> HandlerIsFinished ?R (q r rs)" for r rs r' rs'
    using outside_queued [OF out idle(1)] by (simp_all add: q_def HalRaiseInterrupt_def HandlerIsFinished_def queued_as_def)
  obtain ring1 where g1: "serial_ring ring1" "contents ring1 = [a]" "GetBytesInterrupt s = Some (q ring1 [ReadByte b, ReadZero])"
    using GetBytesInterrupt_eq [OF ring(1) r1] idle(1) ring(2) by (auto simp: Let_def q_def HandlerIsFinished_def)
  have nf: "\<not> RingBufferIsFull ring1" using serial_ring_full [OF g1(1)] g1(2) by simp
  obtain ring2 where t1: "serial_ring ring2" "contents ring2 = []" "SerialRead_try len False (q ring1 [ReadByte b, ReadZero]) = Some (Returned [a], q ring2 [ReadByte b, ReadZero])"
    using SerialRead_try_eq [OF q(1) _ len(2), of ring1 "[ReadByte b, ReadZero]" False] g1(1,2) nf len(1)
    by (auto simp: q Let_def unat_eq_0 take_Cons' drop_Cons')
  have nf2: "\<not> RingBufferIsFull ring2" using serial_ring_full [OF t1(1)] t1(2) by simp
  obtain ring3 where t2: "serial_ring ring3" "contents ring3 = []" "SerialRead_try len False (q ring2 [ReadByte b, ReadZero]) = Some (Checked len False ?v, q ring3 [ReadByte b, ReadZero])"
    using SerialRead_try_eq [OF q(1) _ len(2), of ring2 "[ReadByte b, ReadZero]" False] t1(1,2) nf2
    by (auto simp: q Let_def)
  have r2: "received (32 - length (contents (SerialInputRing (q ring3 [ReadByte b, ReadZero])))) (tty_in (q ring3 [ReadByte b, ReadZero])) = Some ([b], [])"
    using t2(2) by (simp add: q numeral_eq_Suc)
  obtain ring4 where g2: "contents ring4 = [b]" "GetBytesInterrupt (q ring3 [ReadByte b, ReadZero]) = Some (q ring4 [])"
    using GetBytesInterrupt_eq [OF _ r2] t2(1,2) by (auto simp: q Let_def)
  have f: "CritInterruptHandlerList (q ring4 []) = ?R # CritInterruptHandlerList s" "ge_WaitingThreads (Generations (q ring4 []) ReadGeneration) = []"
    "ho_CompleteFunction (Handlers (q ring4 []) ?R) = None" "ho_Context (Handlers (q ring4 []) ?R) = Some ReadGenerationContext"
    "GenerationContexts (q ring4 []) ReadGenerationContext = \<lparr>gc_Generation = Some ReadGeneration, gc_NewValue = ?v\<rparr>"
    "same_view s (q ring4 [])"
    using nobody idle(2) by (simp_all add: q_def HalRaiseInterrupt_def queued_as_def same_view_def)
  obtain s5 s6 s7 s8 where u: "HandlerRun ?R ((LockingStart (q ring4 []))\<lparr>CritInterruptHandlerList := CritInterruptHandlerList s\<rparr>) = Some s5"
     "GenerationUpdateHandler wk ?R s5 = Some (True, s6)" "HandlerFinish finish ?R s6 = Some s7" "LockingEnd s7 = Some s8"
     "outside s8" "same_view (q ring4 []) s8" "SerialInputRing s8 = ring4" "HandlerIsFinished ?R s8"
     "Generations s8 ReadGeneration = \<lparr>ge_Generation = ?v, ge_WaitingThreads = []\<rparr>"
    using update_section [OF q(1) f(1-5), of wk finish] unfolding q(2) by blast
  have v8: "ActiveThread s8 = ActiveThread s" "may_wait NULL s8"
    using u(6) f(6) may by (simp_all add: same_view_def may_wait_def ctx_of_def)
  obtain s' where w: "GenerationWait wk (Generations s8 ReadGeneration) ?v NULL s8 =
      Some (\<lparr>ge_Generation = ?v, ge_WaitingThreads = [ThreadContext (ActiveThread s)]\<rparr>, s')"
      "timers_kept s8 s'" "waiting (ThreadContext (ActiveThread s)) s'"
    using GenerationWait_user [OF u(5) v8(2), of "Generations s8 ReadGeneration" "ActiveThread s" wk ?v] u(9) v8(1) by (auto simp: parked_ok_def)
  define s9 where "s9 = s'\<lparr>Generations := (Generations s')(ReadGeneration :=
      \<lparr>ge_Generation = ?v, ge_WaitingThreads = [ThreadContext (ActiveThread s)]\<rparr>)\<rparr>"
  have wait: "SerialRead_wait wk len False ?v s8 = Some (Trying len False, s9)" using w(1) by (simp add: SerialRead_wait_def s9_def)
  have "waiting (ThreadContext (ActiveThread s)) s9" "ge_WaitingThreads (Generations s9 ReadGeneration) = [ThreadContext (ActiveThread s)]"
      "contents (SerialInputRing s9) = [b]" "HandlerIsFinished ?R s9"
    using w(2,3) u(7,8) g2(1) serial_more [of s' s8] by (simp_all add: s9_def timers_kept_def HandlerIsFinished_def)
  then show ?thesis using g1(3) t1(3) t2(3) g2(2) u(1-4) wait by blast
qed

text \<open>(C37) Output goes out completely and in order, or the machine stops: a write puts as many bytes into the
  ring as it has room for and raises the interrupt, which sends everything that is in the ring. It panics
  exactly when the terminal, which is opened without blocking, cannot take all of it.\<close>

theorem serial_output:
  fixes s :: "'a serial_state_scheme"
  assumes "outside s" and "serial_ring (SerialOutputRing s)" and "length buf + 32 < 2 ^ 64"
  shows "\<exists>n s1. SerialWrite buf (of_nat (length buf)) s = Some (n, s1) \<and>
     unat n = min (length buf) (32 - length (contents (SerialOutputRing s))) \<and> serial_ring (SerialOutputRing s1) \<and>
     contents (SerialOutputRing s1) = contents (SerialOutputRing s) @ take (unat n) buf \<and>
     HalIrqToSignal s1 IRQ_LEVEL_SERIAL_WRITE \<in> sig_pending s1 \<and>
     (\<forall>s2 :: 'a serial_state_scheme. IsrIsAtomic IRQ_LEVEL_SERIAL_WRITE s2 = Some True \<and> SerialOutputRing s2 = SerialOutputRing s1 \<longrightarrow>
        (if tty_room s2 < length (contents (SerialOutputRing s1)) then SendBytesInterrupt s2 = None
         else \<exists>s3. SendBytesInterrupt s2 = Some s3 \<and> contents (SerialOutputRing s3) = [] \<and>
           tty_out s3 = tty_out s2 @ contents (SerialOutputRing s) @ take (unat n) buf))"
proof -
  obtain n ring where r: "RingBufferWrite buf (of_nat (length buf)) (SerialOutputRing s) = Some (n, ring)" "serial_ring ring"
     "unat n = min (length buf) (32 - length (contents (SerialOutputRing s)))"
     "contents ring = contents (SerialOutputRing s) @ take (unat n) buf"
    using serial_ring_write [OF assms(2,3)] by blast
  have "IsrEnable IRQ_LEVEL_SERIAL_WRITE ((IsrDisable IRQ_LEVEL_SERIAL_WRITE s)\<lparr>SerialOutputRing := ring\<rparr>) = Some (s\<lparr>SerialOutputRing := ring\<rparr>)"
    by (rule outside_section [OF assms(1), where u = "\<lambda>s. s\<lparr>SerialOutputRing := ring\<rparr>"])
      (use assms(1) in \<open>simp_all add: outside_def open_irq_def crit_levels_def set_counts_def\<close>)
  then have w: "SerialWrite buf (of_nat (length buf)) s = Some (n, HalRaiseInterrupt IRQ_LEVEL_SERIAL_WRITE (s\<lparr>SerialOutputRing := ring\<rparr>))"
    using r(1) by (simp add: SerialWrite_def)
  define s1 where "s1 = HalRaiseInterrupt IRQ_LEVEL_SERIAL_WRITE (s\<lparr>SerialOutputRing := ring\<rparr>)"
  have s1: "SerialOutputRing s1 = ring" "HalIrqToSignal s1 IRQ_LEVEL_SERIAL_WRITE \<in> sig_pending s1"
    by (simp_all add: s1_def HalRaiseInterrupt_def)
  have send: "if tty_room s2 < length (contents ring) then SendBytesInterrupt s2 = None
         else \<exists>s3. SendBytesInterrupt s2 = Some s3 \<and> contents (SerialOutputRing s3) = [] \<and>
           tty_out s3 = tty_out s2 @ contents (SerialOutputRing s) @ take (unat n) buf"
    if a: "IsrIsAtomic IRQ_LEVEL_SERIAL_WRITE s2 = Some True" "SerialOutputRing s2 = ring" for s2 :: "'a serial_state_scheme"
  proof (cases "tty_room s2 < length (contents ring)")
    case True
    then show ?thesis using SendBytesLoop_sends [of s2] r(2) a by (simp add: SendBytesInterrupt_def)
  next
    case False
    then obtain ring' where "SendBytesLoop s2 = Some (all_sent s2 ring')" "contents ring' = []"
      using SendBytesLoop_sends [of s2] r(2) a by auto
    then have "SendBytesInterrupt s2 = Some (all_sent s2 ring')" "contents (SerialOutputRing (all_sent s2 ring')) = []"
        "tty_out (all_sent s2 ring') = tty_out s2 @ contents (SerialOutputRing s) @ take (unat n) buf"
      using a r(4) by (simp_all add: SendBytesInterrupt_def all_sent_def)
    then show ?thesis using False by auto
  qed
  have "\<forall>s2 :: 'a serial_state_scheme. IsrIsAtomic IRQ_LEVEL_SERIAL_WRITE s2 = Some True \<and> SerialOutputRing s2 = SerialOutputRing s1 \<longrightarrow>
      (if tty_room s2 < length (contents (SerialOutputRing s1)) then SendBytesInterrupt s2 = None
       else \<exists>s3. SendBytesInterrupt s2 = Some s3 \<and> contents (SerialOutputRing s3) = [] \<and>
         tty_out s3 = tty_out s2 @ contents (SerialOutputRing s) @ take (unat n) buf)"
    using send unfolding s1(1) by blast
  moreover have "serial_ring (SerialOutputRing s1)"
      "contents (SerialOutputRing s1) = contents (SerialOutputRing s) @ take (unat n) buf"
    using r(2,4) s1(1) by simp_all
  ultimately show ?thesis using w r(3) s1(2) unfolding s1_def [symmetric] by blast
qed

text \<open>Thread 1 reads; two bytes arrive and announce a generation while it is about to wait.\<close>

definition serial0 :: serial_state where
  "serial0 = gen_state.extend (sched_state.extend (sched1\<lparr>Handlers := \<lambda>_. ready_handler\<rparr>)
       (gen_state.fields (\<lambda>_. \<lparr>ge_Generation = 0, ge_WaitingThreads = []\<rparr>) (\<lambda>_. \<lparr>gc_Generation = None, gc_NewValue = 0\<rparr>)))
     (serial_state.fields (RingBufferInit (replicate 32 0) BUFFER_SIZE) (RingBufferInit (replicate 32 0) BUFFER_SIZE) 0
          undefined undefined True True undefined [ReadByte 7, ReadByte 8, ReadZero] 5 [])"

lemma serial0_fields:
  "SerialInputRing serial0 = RingBufferInit (replicate 32 0) BUFFER_SIZE" "SerialOutputRing serial0 = RingBufferInit (replicate 32 0) BUFFER_SIZE"
  "ReadGenerationCount serial0 = 0" "Generations serial0 = (\<lambda>_. \<lparr>ge_Generation = 0, ge_WaitingThreads = []\<rparr>)"
  "Handlers serial0 = (\<lambda>_. ready_handler)" "tty_in serial0 = [ReadByte 7, ReadByte 8, ReadZero]" "tty_room serial0 = 5"
  by (simp_all add: serial0_def gen_state.defs sched_state.defs serial_state.defs)


lemma outside_serial0: "outside serial0"
  using outside_sched1
  by (simp add: outside_def open_irq_def crit_levels_def isr_ok_def hal_ok_def sched_ok_def run_queue_ok_def contexts_ok_def
    switch_ok_def queues_ok_def serial0_def sched_state.defs gen_state.defs serial_state.defs sched1_def set_counts_def)

lemma may_wait_serial0: "may_wait NULL serial0" "ActiveThread serial0 = 1"
  using may_wait_sched1(1)
  by (simp_all add: may_wait_def ctx_of_def serial0_def sched_state.defs gen_state.defs serial_state.defs)

text \<open>The bytes 7 and 8 arrive, one by one.\<close>

definition serial1 :: serial_state where
  "serial1 = serial0\<lparr>tty_in := [ReadByte 7, ReadZero, ReadByte 8, ReadZero]\<rparr>"

theorem serial_wakeup_lost_witness:
  "\<exists>s1 s2 s8 s9 g. GetBytesInterrupt serial1 = Some s1 \<and> SerialRead_try 4 False s1 = Some (Returned [7], s2) \<and>
     SerialRead_wait (\<lambda>_ _. None) 4 False g (s8 :: serial_state) = Some (Trying 4 False, s9) \<and>
     waiting (ThreadContext 1) s9 \<and> contents (SerialInputRing s9) = [8]"
proof -
  have s: "outside serial1" "may_wait NULL serial1" "ActiveThread serial1 = 1"
    using outside_serial0 may_wait_serial0
    by (simp_all add: serial1_def outside_def open_irq_def crit_levels_def isr_ok_def hal_ok_def sched_ok_def run_queue_ok_def
      contexts_ok_def switch_ok_def queues_ok_def may_wait_def ctx_of_def)
  have f: "serial_ring (SerialInputRing serial1)" "contents (SerialInputRing serial1) = []" "HandlerIsFinished ReadGenerationCritObject serial1"
      "ho_CompleteFunction (Handlers serial1 ReadGenerationCritObject) = None" "ge_WaitingThreads (Generations serial1 ReadGeneration) = []"
      "tty_in serial1 = [ReadByte 7, ReadZero, ReadByte 8, ReadZero]"
    using serial_ring_init [of "replicate 32 0"] by (simp_all add: serial1_def serial0_fields HandlerIsFinished_def ready_handler_def)
  have len: "0 < (4 :: COUNT)" "unat (4 :: COUNT) + 32 < 2 ^ 64" by simp_all
  from serial_wakeup_lost [OF s(1,2) f len, of "\<lambda>_ _. None" "\<lambda>_ _ _. None"] show ?thesis
    unfolding s(3) by blast
qed

theorem serial_output_witness:
  "\<exists>n s1. SerialWrite [1, 2, 3] 3 serial0 = Some (n, s1) \<and> unat n = 3 \<and> contents (SerialOutputRing s1) = [1, 2, 3]"
proof -
  from serial_output [OF outside_serial0, of "[1, 2, 3]"] show ?thesis
    using serial_ring_init [of "replicate 32 0"] by (auto simp: serial0_fields)
qed

end
