(* ===== verification/AtomicList.thy ===== *)
theory AtomicList
  imports KP_Prelude
begin

text \<open>
  The lock-free list of \<^verbatim>\<open>src/utils/atomiclist.c\<close>, on which handlers are queued for the critical and the
  soft interrupt. An interrupt can come between any two accesses to memory, so a call is cut into its
  accesses: a program counter and a step function. On the 64-bit host \<^verbatim>\<open>DOUBLE_COUNT\<close> is as wide as a
  pointer, so the double compare-and-swap covers the pointer of the head and not its generation.
\<close>

section \<open>Atomics and the list\<close>

text \<open>The atomics return the value the variable had, beside the value it has now.\<close>

definition CompareAndSwap :: "'a \<Rightarrow> 'a \<Rightarrow> 'a \<Rightarrow> 'a \<times> 'a" where
  "CompareAndSwap var old nxt = (var, if var = old then nxt else var)"

definition DoubleCompareAndSwap :: "'a \<Rightarrow> 'a \<Rightarrow> 'a \<Rightarrow> 'a \<times> 'a" where
  "DoubleCompareAndSwap var old nxt = (var, if var = old then nxt else var)"

record ATOMIC_TUPLE =
  at_Pointer :: ptr
  at_Generation :: COUNT

text \<open>The state of one list: its head, and the link of every node.\<close>

record ATOMIC_LIST =
  al_Head :: ATOMIC_TUPLE
  al_Next :: "addr \<rightharpoonup> ptr"

definition AtomicListInit :: "ATOMIC_LIST \<Rightarrow> ATOMIC_LIST" where
  "AtomicListInit s = s\<lparr>al_Head := \<lparr>at_Pointer = NULL, at_Generation = 0\<rparr>\<rparr>"

abbreviation head :: "ATOMIC_LIST \<Rightarrow> ptr" where
  "head s \<equiv> at_Pointer (al_Head s)"

definition set_head :: "ptr \<Rightarrow> ATOMIC_LIST \<Rightarrow> ATOMIC_LIST" where
  "set_head p s = s\<lparr>al_Head := (al_Head s)\<lparr>at_Pointer := p\<rparr>\<rparr>"

section \<open>The calls, access by access\<close>

text \<open>
  \<open>PushStart\<close>: \<^verbatim>\<open>node->Next\<close> is set to the head. \<open>PushArgument\<close>: the head is read again, as the argument
  of the compare-and-swap. \<open>PushSwap\<close>: the swap, and the comparison of its result with \<^verbatim>\<open>node->Next\<close>.
  \<open>PopStart\<close>: the head is read. \<open>PopNext\<close>: \<^verbatim>\<open>node->Next\<close> is read. \<open>PopSwap\<close>: the swap.
\<close>

datatype atomic_pc =
    PushStart addr
  | PushArgument addr
  | PushSwap addr ptr
  | PushDone
  | PopStart
  | PopNext addr
  | PopSwap addr ptr
  | PopDone ptr

fun AtomicStep :: "atomic_pc \<Rightarrow> ATOMIC_LIST \<Rightarrow> (atomic_pc \<times> ATOMIC_LIST) option" where
  "AtomicStep (PushStart node) s = Some (PushArgument node, s\<lparr>al_Next := (al_Next s)(node \<mapsto> head s)\<rparr>)"
| "AtomicStep (PushArgument node) s = Some (PushSwap node (head s), s)"
| "AtomicStep (PushSwap node old) s =
     do {
       let (ret, new) = CompareAndSwap (head s) old (Some node);
       let s = set_head new s;
       nxt \<leftarrow> al_Next s node;
       Some (if nxt \<noteq> ret then PushStart node else PushDone, s)
     }"
| "AtomicStep PopStart s = Some (case head s of NULL \<Rightarrow> PopDone NULL | Some node \<Rightarrow> PopNext node, s)"
| "AtomicStep (PopNext node) s = do { nxt \<leftarrow> al_Next s node; Some (PopSwap node nxt, s) }"
| "AtomicStep (PopSwap node nxt) s =
     (let (ret, new) = DoubleCompareAndSwap (head s) (Some node) nxt;
          s = set_head new s
      in Some (if Some node \<noteq> ret then PopStart else PopDone (Some node), s))"
| "AtomicStep PushDone s = Some (PushDone, s)"
| "AtomicStep (PopDone r) s = Some (PopDone r, s)"

fun returned :: "atomic_pc \<Rightarrow> bool" where
  "returned PushDone = True"
| "returned (PopDone r) = True"
| "returned pc = False"

text \<open>A call that is not interrupted.\<close>

partial_function (option) AtomicRun :: "atomic_pc \<Rightarrow> ATOMIC_LIST \<Rightarrow> (atomic_pc \<times> ATOMIC_LIST) option" where
  "AtomicRun pc s =
     (if returned pc then Some (pc, s)
      else Option.bind (AtomicStep pc s) (\<lambda>(pc, s). AtomicRun pc s))"

definition AtomicListPush :: "addr \<Rightarrow> ATOMIC_LIST \<Rightarrow> ATOMIC_LIST option" where
  "AtomicListPush node s = do { (pc, s) \<leftarrow> AtomicRun (PushStart node) s; Some s }"

definition AtomicListPop :: "ATOMIC_LIST \<Rightarrow> (ptr \<times> ATOMIC_LIST) option" where
  "AtomicListPop s = do { (pc, s) \<leftarrow> AtomicRun PopStart s; (case pc of PopDone r \<Rightarrow> Some (r, s) | _ \<Rightarrow> None) }"

section \<open>Uninterrupted calls: a stack\<close>

primrec chain :: "(addr \<rightharpoonup> ptr) \<Rightarrow> ptr \<Rightarrow> addr list \<Rightarrow> bool" where
  "chain m p [] \<longleftrightarrow> p = NULL"
| "chain m p (x # xs) \<longleftrightarrow> p = Some x \<and> (\<exists>q. m x = Some q \<and> chain m q xs)"

definition stack :: "ATOMIC_LIST \<Rightarrow> addr list \<Rightarrow> bool" where
  "stack s xs \<longleftrightarrow> distinct xs \<and> chain (al_Next s) (head s) xs"

lemma chain_upd: "n \<notin> set xs \<Longrightarrow> chain (m(n \<mapsto> q)) p xs = chain m p xs"
  by (induction xs arbitrary: p) auto

lemma set_head_simps [simp]: "head (set_head p s) = p" "al_Next (set_head p s) = al_Next s" "al_Next (s\<lparr>al_Head := h\<rparr>) = al_Next s"
  by (simp_all add: set_head_def)

lemma push_stack:
  assumes "stack s xs" and "n \<notin> set xs"
  shows "\<exists>s'. AtomicListPush n s = Some s' \<and> stack s' (n # xs)"
proof -
  define s' where "s' = set_head (Some n) (s\<lparr>al_Next := (al_Next s)(n \<mapsto> head s)\<rparr>)"
  have "AtomicListPush n s = Some s'"
    by (simp add: AtomicListPush_def AtomicRun.simps [of "PushStart n"] AtomicRun.simps [of "PushArgument n"]
        AtomicRun.simps [of "PushSwap n p" for p] AtomicRun.simps [of PushDone] CompareAndSwap_def s'_def)
  moreover have "stack s' (n # xs)" using assms by (simp add: stack_def s'_def chain_upd)
  ultimately show ?thesis by blast
qed

lemma pop_stack:
  assumes "stack s xs"
  shows "\<exists>s'. AtomicListPop s = Some (case xs of [] \<Rightarrow> NULL | x # _ \<Rightarrow> Some x, s') \<and> stack s' (tl xs)"
proof (cases xs)
  case Nil
  then have "head s = NULL" using assms by (simp add: stack_def)
  then have "AtomicListPop s = Some (NULL, s)"
    by (simp add: AtomicListPop_def AtomicRun.simps [of PopStart] AtomicRun.simps [of "PopDone p" for p])
  then show ?thesis using assms Nil by simp
next
  case (Cons x ys)
  then obtain q where h: "head s = Some x" "al_Next s x = Some q" "chain (al_Next s) q ys" "distinct (x # ys)"
    using assms by (auto simp: stack_def)
  have "AtomicListPop s = Some (Some x, set_head q s)"
    using h(1,2) by (simp add: AtomicListPop_def AtomicRun.simps [of PopStart] AtomicRun.simps [of "PopNext p" for p]
        AtomicRun.simps [of "PopSwap n p" for n p] AtomicRun.simps [of "PopDone p" for p] DoubleCompareAndSwap_def)
  then show ?thesis using h Cons by (simp add: stack_def)
qed

text \<open>What a user of such a list relies on: the calls are those of a stack.\<close>

primrec push_all :: "('a \<Rightarrow> 's \<Rightarrow> 's option) \<Rightarrow> 'a list \<Rightarrow> 's \<Rightarrow> 's option" where
  "push_all push [] s = Some s"
| "push_all push (x # xs) s = Option.bind (push x s) (push_all push xs)"

primrec pop_all :: "('s \<Rightarrow> ('a option \<times> 's) option) \<Rightarrow> nat \<Rightarrow> 's \<Rightarrow> ('a option list \<times> 's) option" where
  "pop_all pop 0 s = Some ([], s)"
| "pop_all pop (Suc n) s = do { (x, s) \<leftarrow> pop s; (xs, s) \<leftarrow> pop_all pop n s; Some (x # xs, s) }"

locale lifo_store =
  fixes rep :: "'s \<Rightarrow> 'a list \<Rightarrow> bool"
    and push :: "'a \<Rightarrow> 's \<Rightarrow> 's option"
    and pop :: "'s \<Rightarrow> ('a option \<times> 's) option"
  assumes push_law: "rep s xs \<Longrightarrow> x \<notin> set xs \<Longrightarrow> \<exists>s'. push x s = Some s' \<and> rep s' (x # xs)"
    and pop_law: "rep s xs \<Longrightarrow> \<exists>s'. pop s = Some (case xs of [] \<Rightarrow> None | x # _ \<Rightarrow> Some x, s') \<and> rep s' (tl xs)"
begin

lemma push_all_law: "rep s xs \<Longrightarrow> distinct ys \<Longrightarrow> set ys \<inter> set xs = {} \<Longrightarrow> \<exists>s'. push_all push ys s = Some s' \<and> rep s' (rev ys @ xs)"
proof (induction ys arbitrary: s xs)
  case (Cons y ys)
  obtain s1 where s1: "push y s = Some s1" "rep s1 (y # xs)" using push_law [OF Cons.prems(1), of y] Cons.prems(3) by auto
  have "\<exists>s'. push_all push ys s1 = Some s' \<and> rep s' (rev ys @ y # xs)" by (rule Cons.IH [OF s1(2)]) (use Cons.prems in auto)
  then show ?case using s1(1) by simp
qed simp

lemma pop_all_law: "rep s (xs @ ys) \<Longrightarrow> \<exists>s'. pop_all pop (length xs) s = Some (map Some xs, s') \<and> rep s' ys"
proof (induction xs arbitrary: s)
  case (Cons x xs)
  obtain s1 where s1: "pop s = Some (Some x, s1)" "rep s1 (xs @ ys)" using pop_law [OF Cons.prems] by auto
  then show ?case using Cons.IH [OF s1(2)] by auto
qed simp

lemma lifo_order:
  assumes "rep s xs" and "distinct ys" and "set ys \<inter> set xs = {}"
  shows "\<exists>s1 s2 s3. push_all push ys s = Some s1 \<and> pop_all pop (length (ys @ xs)) s1 = Some (map Some (rev ys @ xs), s2) \<and>
     pop s2 = Some (None, s3) \<and> rep s3 []"
proof -
  obtain s1 where 1: "push_all push ys s = Some s1" "rep s1 ((rev ys @ xs) @ [])" using push_all_law [OF assms] by auto
  obtain s2 where 2: "pop_all pop (length (rev ys @ xs)) s1 = Some (map Some (rev ys @ xs), s2)" "rep s2 []" using pop_all_law [OF 1(2)] by blast
  then show ?thesis using 1(1) pop_law [OF 2(2)] by auto
qed

end

interpretation atomic: lifo_store stack AtomicListPush AtomicListPop
  by unfold_locales (use push_stack pop_stack in auto)

section \<open>A pop with interrupts that push\<close>

text \<open>The next event is a step of the interrupted call, or an interrupt that pushes a node, from beginning to end.\<close>

datatype atomic_event = Own | Irq addr

fun interrupted :: "atomic_event list \<Rightarrow> atomic_pc \<times> ATOMIC_LIST \<Rightarrow> (atomic_pc \<times> ATOMIC_LIST) option" where
  "interrupted [] c = Some c"
| "interrupted (Own # es) (pc, s) = Option.bind (AtomicStep pc s) (interrupted es)"
| "interrupted (Irq n # es) (pc, s) = Option.bind (AtomicListPush n s) (\<lambda>s. interrupted es (pc, s))"

fun pushed :: "atomic_event list \<Rightarrow> addr list" where
  "pushed [] = []"
| "pushed (Own # es) = pushed es"
| "pushed (Irq n # es) = n # pushed es"

lemma interrupted_append: "interrupted (es @ fs) c = Option.bind (interrupted es c) (interrupted fs)"
proof (induction es c rule: interrupted.induct)
  case (2 es pc s)
  then show ?case by (cases "AtomicStep pc s") auto
next
  case (3 n es pc s)
  then show ?case by (cases "AtomicListPush n s") auto
qed simp

lemma pushed_append [simp]: "pushed (es @ fs) = pushed es @ pushed fs"
  by (induction es rule: pushed.induct) simp_all

definition popping :: "atomic_pc \<Rightarrow> ATOMIC_LIST \<Rightarrow> addr list \<Rightarrow> bool" where
  "popping pc s xs \<longleftrightarrow> stack s xs \<and>
     (case pc of PopStart \<Rightarrow> True | PopNext a \<Rightarrow> a \<in> set xs | PopSwap a q \<Rightarrow> a \<in> set xs \<and> al_Next s a = Some q | _ \<Rightarrow> False)"

definition top :: "addr list \<Rightarrow> ptr" where
  "top xs = (case xs of [] \<Rightarrow> NULL | x # _ \<Rightarrow> Some x)"

lemma chain_member: "chain m p xs \<Longrightarrow> a \<in> set xs \<Longrightarrow> \<exists>q. m a = Some q"
  by (induction xs arbitrary: p) auto

lemma chain_top: "chain m p xs \<Longrightarrow> p = top xs"
  by (cases xs) (simp_all add: top_def)

lemma set_head_same [simp]: "set_head (head s) s = s"
  by (simp add: set_head_def)

lemma popping_step:
  assumes "popping pc s xs"
  shows "\<exists>pc' s'. AtomicStep pc s = Some (pc', s') \<and> (popping pc' s' xs \<or> pc' = PopDone (top xs) \<and> stack s' (tl xs))"
proof -
  have st: "stack s xs" "chain (al_Next s) (head s) xs" "distinct xs" "head s = top xs"
    using assms chain_top by (auto simp: popping_def stack_def)
  consider "pc = PopStart" | a where "pc = PopNext a" "a \<in> set xs" | a q where "pc = PopSwap a q" "a \<in> set xs" "al_Next s a = Some q"
    using assms by (cases pc) (auto simp: popping_def)
  then show ?thesis
  proof cases
    case 1
    then show ?thesis using st by (cases xs) (auto simp: popping_def top_def)
  next
    case 2
    then show ?thesis using st chain_member [OF st(2) 2(2)] by (auto simp: popping_def)
  next
    case 3
    show ?thesis
    proof (cases "head s = Some a")
      case True
      then obtain ys where "xs = a # ys" using st(4) by (cases xs) (auto simp: top_def)
      then show ?thesis using 3 True st by (auto simp: DoubleCompareAndSwap_def stack_def top_def)
    next
      case False
      then show ?thesis using 3 st(1) by (auto simp: DoubleCompareAndSwap_def popping_def)
    qed
  qed
qed

lemma popping_push:
  assumes "popping pc s xs" and "n \<notin> set xs"
  shows "\<exists>s'. AtomicListPush n s = Some s' \<and> popping pc s' (n # xs)"
proof -
  define s' where "s' = set_head (Some n) (s\<lparr>al_Next := (al_Next s)(n \<mapsto> head s)\<rparr>)"
  have "AtomicListPush n s = Some s'"
    by (simp add: AtomicListPush_def AtomicRun.simps [of "PushStart n"] AtomicRun.simps [of "PushArgument n"]
        AtomicRun.simps [of "PushSwap n p" for p] AtomicRun.simps [of PushDone] CompareAndSwap_def s'_def)
  moreover have "popping pc s' (n # xs)"
    using assms by (auto simp: popping_def s'_def stack_def chain_upd split: atomic_pc.splits)
  ultimately show ?thesis by blast
qed

lemma done_run:
  assumes "stack s xs" and "distinct (pushed es)" and "set (pushed es) \<inter> set xs = {}"
  shows "\<exists>s'. interrupted es (PopDone r, s) = Some (PopDone r, s') \<and> stack s' (rev (pushed es) @ xs)"
  using assms
proof (induction es arbitrary: s xs)
  case (Cons e es)
  show ?case
  proof (cases e)
    case Own
    then show ?thesis using Cons by auto
  next
    case (Irq n)
    obtain s1 where s1: "AtomicListPush n s = Some s1" "stack s1 (n # xs)" using push_stack [OF Cons.prems(1), of n] Cons.prems(3) Irq by auto
    then show ?thesis using Cons.IH [OF s1(2)] Cons.prems Irq by auto
  qed
qed simp

text \<open>The call is still under way, or it took effect at once after the events \<open>es1\<close>.\<close>

definition pop_outcome :: "atomic_event list \<Rightarrow> addr list \<Rightarrow> atomic_pc \<Rightarrow> ATOMIC_LIST \<Rightarrow> bool" where
  "pop_outcome es xs pc s \<longleftrightarrow> popping pc s (rev (pushed es) @ xs) \<or>
     (\<exists>es1 es2. es = es1 @ es2 \<and> pc = PopDone (top (rev (pushed es1) @ xs)) \<and> stack s (rev (pushed es2) @ tl (rev (pushed es1) @ xs)))"

lemma pop_outcome_Cons:
  assumes "pop_outcome es (pushed [e] @ xs) pc s" shows "pop_outcome (e # es) xs pc s"
proof (cases "popping pc s (rev (pushed es) @ pushed [e] @ xs)")
  case True
  then show ?thesis by (cases e) (simp_all add: pop_outcome_def)
next
  case False
  then obtain es1 es2 where "es = es1 @ es2" "pc = PopDone (top (rev (pushed es1) @ pushed [e] @ xs))"
      "stack s (rev (pushed es2) @ tl (rev (pushed es1) @ pushed [e] @ xs))"
    using assms by (auto simp: pop_outcome_def)
  moreover have "pushed (e # es1) = pushed [e] @ pushed es1" "rev (pushed [e]) = pushed [e]" by (cases e; simp)+
  ultimately have "e # es = (e # es1) @ es2" "pc = PopDone (top (rev (pushed (e # es1)) @ xs))"
      "stack s (rev (pushed es2) @ tl (rev (pushed (e # es1)) @ xs))" by simp_all
  then show ?thesis unfolding pop_outcome_def by blast
qed

lemma popping_run:
  assumes "popping pc s xs" and "distinct (pushed es)" and "set (pushed es) \<inter> set xs = {}"
  shows "\<exists>pc' s'. interrupted es (pc, s) = Some (pc', s') \<and> pop_outcome es xs pc' s'"
  using assms
proof (induction es arbitrary: pc s xs)
  case Nil
  then show ?case by (simp add: pop_outcome_def)
next
  case (Cons e es)
  show ?case
  proof (cases e)
    case Own
    from popping_step [OF Cons.prems(1)] obtain pc1 s1 where 1: "AtomicStep pc s = Some (pc1, s1)"
      "popping pc1 s1 xs \<or> pc1 = PopDone (top xs) \<and> stack s1 (tl xs)" by blast
    from 1(2) show ?thesis
    proof
      assume "popping pc1 s1 xs"
      from Cons.IH [OF this] obtain pc' s' where "interrupted es (pc1, s1) = Some (pc', s')" "pop_outcome es xs pc' s'"
        using Cons.prems(2,3) Own by auto
      then show ?thesis using 1(1) pop_outcome_Cons [of es e xs] Own by simp
    next
      assume d: "pc1 = PopDone (top xs) \<and> stack s1 (tl xs)"
      have "set (pushed es) \<inter> set (tl xs) = {}" using Cons.prems(3) Own by (cases xs) auto
      then obtain s' where "interrupted es (pc1, s1) = Some (PopDone (top xs), s')" "stack s' (rev (pushed es) @ tl xs)"
        using done_run [of s1 "tl xs" es "top xs"] d Cons.prems(2) Own by auto
      moreover from this(2) have "pop_outcome (e # es) xs (PopDone (top xs)) s'"
        unfolding pop_outcome_def by (intro disjI2 exI [of _ "[Own]"] exI [of _ es]) (simp add: Own)
      ultimately show ?thesis using 1(1) Own by simp
    qed
  next
    case (Irq n)
    obtain s1 where 1: "AtomicListPush n s = Some s1" "popping pc s1 (n # xs)" using popping_push [OF Cons.prems(1), of n] Cons.prems(3) Irq by auto
    from Cons.IH [OF 1(2)] obtain pc' s' where "interrupted es (pc, s1) = Some (pc', s')" "pop_outcome es (n # xs) pc' s'"
      using Cons.prems(2,3) Irq by auto
    then show ?thesis using 1(1) pop_outcome_Cons [of es e xs] Irq by simp
  qed
qed

text \<open>Five steps without an interrupt finish the call.\<close>

lemma done_stays: "interrupted (replicate k Own) (PopDone r, s) = Some (PopDone r, s)"
  by (induction k) simp_all

definition pop_finished :: "nat \<Rightarrow> atomic_pc \<Rightarrow> ATOMIC_LIST \<Rightarrow> addr list \<Rightarrow> bool" where
  "pop_finished k pc s xs \<longleftrightarrow> (\<exists>s'. interrupted (replicate k Own) (pc, s) = Some (PopDone (top xs), s') \<and> stack s' (tl xs))"

lemma pop_finished_start: "stack s xs \<Longrightarrow> pop_finished (Suc (Suc (Suc k))) PopStart s xs"
proof (cases xs)
  case Nil
  assume "stack s xs"
  then show ?thesis using Nil by (simp add: pop_finished_def stack_def top_def done_stays)
next
  case (Cons x ys)
  assume "stack s xs"
  then obtain q where "head s = Some x" "al_Next s x = Some q" "chain (al_Next s) q ys" "distinct ys" using Cons by (auto simp: stack_def)
  then show ?thesis using Cons by (simp add: pop_finished_def top_def done_stays DoubleCompareAndSwap_def stack_def)
qed

lemma pop_finished_swap:
  assumes "stack s xs" and "al_Next s a = Some q"
  shows "pop_finished (Suc (Suc (Suc (Suc k)))) (PopSwap a q) s xs"
proof (cases "head s = Some a")
  case True
  then obtain ys where "xs = a # ys" "chain (al_Next s) q ys" "distinct ys" using assms by (cases xs) (auto simp: stack_def)
  then show ?thesis using True done_stays [of "Suc (Suc (Suc k))"]
    by (simp add: pop_finished_def DoubleCompareAndSwap_def top_def stack_def del: replicate_Suc)
      (simp add: DoubleCompareAndSwap_def done_stays)
next
  case False
  then show ?thesis using pop_finished_start [OF assms(1), of k] by (auto simp: pop_finished_def DoubleCompareAndSwap_def)
qed

lemma popping_finish:
  assumes "popping pc s xs" shows "pop_finished 5 pc s xs"
proof -
  have st: "stack s xs" "chain (al_Next s) (head s) xs" using assms by (auto simp: popping_def stack_def)
  have 5: "5 = Suc (Suc (Suc (Suc (Suc 0))))" by simp
  consider "pc = PopStart" | a where "pc = PopNext a" "a \<in> set xs" | a q where "pc = PopSwap a q" "al_Next s a = Some q"
    using assms by (cases pc) (auto simp: popping_def)
  then show ?thesis
  proof cases
    case 1
    then show ?thesis unfolding 5 using pop_finished_start [OF st(1)] by simp
  next
    case 2
    then obtain q where q: "al_Next s a = Some q" using chain_member [OF st(2)] by blast
    then show ?thesis unfolding 5 using pop_finished_swap [OF st(1) q, of 0] 2 by (simp add: pop_finished_def)
  next
    case 3
    then show ?thesis unfolding 5 using pop_finished_swap [OF st(1)] by simp
  qed
qed

section \<open>Properties\<close>

text \<open>
  (C23) A pop that is interrupted by any number of pushes takes effect at one moment: what it returns is the top
  of the list at that moment, null only if the list is empty then, and the list is what the pushes before
  that moment and after it make of it. Five steps without an interrupt are enough for it to return.
\<close>

theorem atomic_pop_interrupted:
  assumes "stack s xs" and "distinct (pushed es)" and "set (pushed es) \<inter> set xs = {}"
  shows "\<exists>s' es1 es2. interrupted (es @ replicate 5 Own) (PopStart, s) = Some (PopDone (top (rev (pushed es1) @ xs)), s') \<and>
     es = es1 @ es2 \<and> stack s' (rev (pushed es2) @ tl (rev (pushed es1) @ xs))"
proof -
  have "popping PopStart s xs" using assms(1) by (simp add: popping_def)
  from popping_run [OF this assms(2,3)] obtain pc1 s1 where r: "interrupted es (PopStart, s) = Some (pc1, s1)" "pop_outcome es xs pc1 s1" by blast
  show ?thesis
  proof (cases "popping pc1 s1 (rev (pushed es) @ xs)")
    case True
    then obtain s' where "interrupted (replicate 5 Own) (pc1, s1) = Some (PopDone (top (rev (pushed es) @ xs)), s')"
        "stack s' (tl (rev (pushed es) @ xs))"
      using popping_finish [OF True] by (auto simp: pop_finished_def)
    then show ?thesis using r(1) by (intro exI [of _ s'] exI [of _ es] exI [of _ "[]"]) (simp add: interrupted_append)
  next
    case False
    then obtain es1 es2 where "es = es1 @ es2" "pc1 = PopDone (top (rev (pushed es1) @ xs))"
        "stack s1 (rev (pushed es2) @ tl (rev (pushed es1) @ xs))"
      using r(2) by (auto simp: pop_outcome_def)
    moreover from this(2) have "interrupted (es @ replicate 5 Own) (PopStart, s) = Some (pc1, s1)"
      using r(1) by (simp add: interrupted_append done_stays)
    ultimately show ?thesis by blast
  qed
qed

text \<open>A list of two nodes, and a third one.\<close>

definition demo_atomic :: ATOMIC_LIST where
  "demo_atomic = \<lparr>al_Head = \<lparr>at_Pointer = Some 1, at_Generation = 0\<rparr>, al_Next = [1 \<mapsto> Some 2, 2 \<mapsto> NULL, 3 \<mapsto> NULL, 4 \<mapsto> NULL]\<rparr>"

lemma demo_atomic_stack: "stack demo_atomic [1, 2]"
  by (simp add: stack_def demo_atomic_def)

theorem atomic_pop_interrupted_witness:
  "\<exists>s' es1 es2. interrupted ([Own, Irq 3, Own, Irq 4] @ replicate 5 Own) (PopStart, demo_atomic) =
       Some (PopDone (top (rev (pushed es1) @ [1, 2])), s') \<and>
     [Own, Irq 3, Own, Irq 4] = es1 @ es2 \<and> stack s' (rev (pushed es2) @ tl (rev (pushed es1) @ [1, 2]))"
  by (rule atomic_pop_interrupted [OF demo_atomic_stack]) simp_all

text \<open>
  (C36) A push that is interrupted by another push, between its two reads of the head, destroys the list: it returns
  with its node at the head and pointing to itself. Every pop from then on returns that node, and the
  other node and the rest of the list are lost.
\<close>

theorem atomic_push_race:
  assumes "stack s xs" and "n \<notin> set xs" and "m \<notin> set xs" and "n \<noteq> m"
  shows "\<exists>s'. interrupted [Own, Irq m, Own, Own, Own, Own, Own] (PushStart n, s) = Some (PushDone, s') \<and>
     head s' = Some n \<and> al_Next s' n = Some (Some n) \<and> (\<forall>k. pop_all AtomicListPop k s' = Some (replicate k (Some n), s'))"
proof -
  define s1 where "s1 = s\<lparr>al_Next := (al_Next s)(n \<mapsto> head s)\<rparr>"
  define s2 where "s2 = set_head (Some m) (s1\<lparr>al_Next := (al_Next s1)(m \<mapsto> head s1)\<rparr>)"
  define s' where "s' = set_head (Some n) (s2\<lparr>al_Next := (al_Next s2)(n \<mapsto> Some n)\<rparr>)"
  have push: "AtomicListPush m s1 = Some s2"
    by (simp add: AtomicListPush_def AtomicRun.simps [of "PushStart n" for n] AtomicRun.simps [of "PushArgument n" for n]
        AtomicRun.simps [of "PushSwap n p" for n p] AtomicRun.simps [of PushDone] CompareAndSwap_def s2_def)
  have "head s \<noteq> Some m" using assms(1,3) by (cases xs) (auto simp: stack_def)
  then have run: "interrupted [Own, Irq m, Own, Own, Own, Own, Own] (PushStart n, s) = Some (PushDone, s')"
    using assms(4) push by (simp add: CompareAndSwap_def s1_def [symmetric]) (simp add: CompareAndSwap_def s1_def s2_def s'_def set_head_def)
  have h: "head s' = Some n" "al_Next s' n = Some (Some n)" by (simp_all add: s'_def)
  have "AtomicListPop s' = Some (Some n, s')"
    using h set_head_same [of s'] by (simp add: AtomicListPop_def AtomicRun.simps [of PopStart] AtomicRun.simps [of "PopNext p" for p]
        AtomicRun.simps [of "PopSwap n p" for n p] AtomicRun.simps [of "PopDone p" for p] DoubleCompareAndSwap_def)
  then have "pop_all AtomicListPop k s' = Some (replicate k (Some n), s')" for k by (induction k) simp_all
  then show ?thesis using run h by blast
qed

theorem atomic_push_race_witness:
  "\<exists>s'. interrupted [Own, Irq 4, Own, Own, Own, Own, Own] (PushStart 3, demo_atomic) = Some (PushDone, s') \<and>
     head s' = Some 3 \<and> al_Next s' 3 = Some (Some 3) \<and> (\<forall>k. pop_all AtomicListPop k s' = Some (replicate k (Some 3), s'))"
  by (rule atomic_push_race [OF demo_atomic_stack]) simp_all

text \<open>Without interrupts: the nodes pushed come back in reverse order, then the others, then null.\<close>

lemma atomic_list_lifo:
  assumes "stack s xs" and "distinct ys" and "set ys \<inter> set xs = {}"
  shows "\<exists>s1 s2 s3. push_all AtomicListPush ys s = Some s1 \<and>
     pop_all AtomicListPop (length (ys @ xs)) s1 = Some (map Some (rev ys @ xs), s2) \<and> AtomicListPop s2 = Some (NULL, s3) \<and> stack s3 []"
  by (rule atomic.lifo_order [OF assms])

text \<open>If, while a pop has read the node \<open>a\<close> and its successor \<open>b\<close>, both are taken from the list and \<open>a\<close> is put back, then
  the swap does not notice, because the generation is not part of it, and \<open>b\<close> is the head again.\<close>

lemma atomic_pop_aba:
  assumes "stack s (a # xs)" and "b \<notin> set xs"
  shows "\<exists>s'. AtomicStep (PopSwap a (Some b)) s = Some (PopDone (Some a), s') \<and> head s' = Some b \<and> \<not> stack s' xs"
  using assms by (cases xs) (auto simp: stack_def DoubleCompareAndSwap_def)

end
