(* ===== verification/Coroutine.thy ===== *)
theory Coroutine
  imports KContext
begin

text \<open>
  Coroutines, \<^verbatim>\<open>src/kernel/coroutine.c\<close>, on the stacks of \<open>KContext\<close>. The function of a coroutine is a
  parameter: \<open>foo k\<close> is what it does between its \<open>k\<close>-th and its next yield (\<open>k = 0\<close>: from its beginning) to
  the memory \<open>m\<close> it shares with its caller, with the answer whether it then yields or returns.
\<close>

datatype COROUTINE_STATUS = COROUTINE_MORE | COROUTINE_DONE

record COROUTINE_CONTEXT =
  yc_Status :: COROUTINE_STATUS
  yc_CallerState :: CONTEXT
  yc_RoutineState :: CONTEXT

text \<open>Where the routine goes on when it is switched to: in its function, after \<open>k\<close> yields, or in the loop of the
  wrapper once the function has returned.\<close>

datatype routine_point = In_foo nat | In_wrapper

record COROUTINE =
  co_Params :: ptr
  co_Result :: ptr
  co_YieldContext :: COROUTINE_CONTEXT
  co_Point :: routine_point

type_synonym 'm COROUTINE_FUNCTION = "ptr \<Rightarrow> ptr \<Rightarrow> nat \<Rightarrow> 'm \<Rightarrow> 'm \<times> bool"

definition CoroutineInit ::
    "ptr \<Rightarrow> ptr \<Rightarrow> INDEX \<times> 8 word list \<Rightarrow> COUNT \<Rightarrow> COROUTINE \<Rightarrow> addr \<Rightarrow> 'a hal_state_scheme \<Rightarrow>
     (COROUTINE \<times> 8 word list \<times> 'a hal_state_scheme) option" where
  "CoroutineInit params output stack size' coroutine self s =
     do {
       let coroutine = coroutine\<lparr>co_Params := params, co_Result := output\<rparr>;
       let yield = co_YieldContext coroutine;
       (c, bytes, s) \<leftarrow> ContextInit (yc_RoutineState yield) self stack size' CoRoutineWrapper_r self s;
       Some (coroutine\<lparr>co_YieldContext := yield\<lparr>yc_RoutineState := c\<rparr>, co_Point := In_foo 0\<rparr>, bytes, s)
     }"

definition CoroutineYield :: "COROUTINE_CONTEXT \<Rightarrow> 'a isr_state_scheme \<Rightarrow> (COROUTINE_CONTEXT \<times> 'a isr_state_scheme) option" where
  "CoroutineYield yield s =
     do {
       let yield = yield\<lparr>yc_Status := COROUTINE_MORE\<rparr>;
       (routine, caller, s) \<leftarrow> ContextSwitch False (yc_RoutineState yield) (yc_CallerState yield) s;
       Some (yield\<lparr>yc_RoutineState := routine, yc_CallerState := caller\<rparr>, s)
     }"

text \<open>One pass of the loop that the wrapper ends in.\<close>

definition CoRoutineWrapper :: "COROUTINE_CONTEXT \<Rightarrow> 'a isr_state_scheme \<Rightarrow> (COROUTINE_CONTEXT \<times> 'a isr_state_scheme) option" where
  "CoRoutineWrapper yield s =
     do {
       let yield = yield\<lparr>yc_Status := COROUTINE_DONE\<rparr>;
       (routine, caller, s) \<leftarrow> ContextSwitch False (yc_RoutineState yield) (yc_CallerState yield) s;
       Some (yield\<lparr>yc_RoutineState := routine, yc_CallerState := caller\<rparr>, s)
     }"

text \<open>What the routine does from where it was switched to until it switches back.\<close>

definition routine_runs ::
    "'m COROUTINE_FUNCTION \<Rightarrow> COROUTINE \<Rightarrow> 'm \<Rightarrow> 'a isr_state_scheme \<Rightarrow> (COROUTINE \<times> 'm \<times> 'a isr_state_scheme) option" where
  "routine_runs foo co m s =
     (case co_Point co of
        In_foo k \<Rightarrow>
          (let (m, more) = foo (co_Params co) (co_Result co) k m in
           if more then do { (y, s) \<leftarrow> CoroutineYield (co_YieldContext co) s; Some (co\<lparr>co_YieldContext := y, co_Point := In_foo (Suc k)\<rparr>, m, s) }
           else do { (y, s) \<leftarrow> CoRoutineWrapper (co_YieldContext co) s; Some (co\<lparr>co_YieldContext := y, co_Point := In_wrapper\<rparr>, m, s) })
      | In_wrapper \<Rightarrow> do { (y, s) \<leftarrow> CoRoutineWrapper (co_YieldContext co) s; Some (co\<lparr>co_YieldContext := y\<rparr>, m, s) })"

definition CoroutineNext ::
    "'m COROUTINE_FUNCTION \<Rightarrow> COROUTINE \<Rightarrow> 'm \<Rightarrow> 'a isr_state_scheme \<Rightarrow> (COROUTINE_STATUS \<times> COROUTINE \<times> 'm \<times> 'a isr_state_scheme) option" where
  "CoroutineNext foo co m s =
     do {
       let y = co_YieldContext co;
       (caller, routine, s) \<leftarrow> ContextSwitch False (yc_CallerState y) (yc_RoutineState y) s;
       let co = co\<lparr>co_YieldContext := y\<lparr>yc_CallerState := caller, yc_RoutineState := routine\<rparr>\<rparr>;
       (co, m, s) \<leftarrow> routine_runs foo co m s;
       Some (yc_Status (co_YieldContext co), co, m, s)
     }"

section \<open>Iteration\<close>

primrec CoroutineNexts ::
    "'m COROUTINE_FUNCTION \<Rightarrow> nat \<Rightarrow> COROUTINE \<Rightarrow> 'm \<Rightarrow> 'a isr_state_scheme \<Rightarrow> (COROUTINE_STATUS list \<times> COROUTINE \<times> 'm \<times> 'a isr_state_scheme) option" where
  "CoroutineNexts foo 0 co m s = Some ([], co, m, s)"
| "CoroutineNexts foo (Suc n) co m s =
     do {
       (r, co, m, s) \<leftarrow> CoroutineNext foo co m s;
       (rs, co, m, s) \<leftarrow> CoroutineNexts foo n co m s;
       Some (r # rs, co, m, s)
     }"

text \<open>What the function does as a plain sequence of pieces.\<close>

primrec pieces :: "'m COROUTINE_FUNCTION \<Rightarrow> ptr \<Rightarrow> ptr \<Rightarrow> nat \<Rightarrow> routine_point \<Rightarrow> 'm \<Rightarrow> COROUTINE_STATUS list \<times> 'm" where
  "pieces foo p r 0 pt m = ([], m)"
| "pieces foo p r (Suc n) pt m =
     (case pt of
        In_foo k \<Rightarrow>
          (let (m, more) = foo p r k m; (rs, m) = pieces foo p r n (if more then In_foo (Suc k) else In_wrapper) m
           in ((if more then COROUTINE_MORE else COROUTINE_DONE) # rs, m))
      | In_wrapper \<Rightarrow> (let (rs, m) = pieces foo p r n In_wrapper m in (COROUTINE_DONE # rs, m)))"

definition coroutine_ok :: "COROUTINE \<Rightarrow> bool" where
  "coroutine_ok co \<longleftrightarrow> resumable (yc_RoutineState (co_YieldContext co))"

lemma resumable_simps [simp]:
  "resumable (c\<lparr>cx_MachineState := m\<lparr>mc_Registers := Switched\<rparr>\<rparr>)"
  "resumable (c\<lparr>cx_TimesSwitched := x, cx_TimesRun := y, cx_LastRanTime := z, cx_LastSelectedTime := w\<rparr>) = resumable c"
  by (simp_all add: resumable_def)

lemma CoroutineNext_ok:
  assumes "isr_ok s" and "IsrDisabledCount s IRQ_LEVEL_MAX + 1 \<noteq> 0" and "coroutine_ok co"
  shows "\<exists>co' rs m'. CoroutineNext foo co m s = Some (hd rs, co', m', s) \<and> coroutine_ok co' \<and> co_Params co' = co_Params co \<and> co_Result co' = co_Result co \<and>
     (rs, m') = pieces foo (co_Params co) (co_Result co) 1 (co_Point co) m \<and>
     co_Point co' = (case co_Point co of In_foo k \<Rightarrow> if snd (foo (co_Params co) (co_Result co) k m) then In_foo (Suc k) else In_wrapper | In_wrapper \<Rightarrow> In_wrapper)"
  using assms
  by (cases "co_Point co")
    (auto simp: CoroutineNext_def coroutine_ok_def routine_runs_def CoroutineYield_def CoRoutineWrapper_def ContextSwitch_other Let_def split: prod.split)

lemma coroutine_iterates:
  assumes "isr_ok s" and "IsrDisabledCount s IRQ_LEVEL_MAX + 1 \<noteq> 0" and "coroutine_ok co"
  shows "\<exists>co'. CoroutineNexts foo n co m s =
     Some (fst (pieces foo (co_Params co) (co_Result co) n (co_Point co) m), co', snd (pieces foo (co_Params co) (co_Result co) n (co_Point co) m), s)"
  using assms(3)
proof (induction n arbitrary: co m)
  case (Suc n)
  obtain co1 rs m1 where 1: "CoroutineNext foo co m s = Some (hd rs, co1, m1, s)" "coroutine_ok co1" "co_Params co1 = co_Params co" "co_Result co1 = co_Result co"
     "(rs, m1) = pieces foo (co_Params co) (co_Result co) 1 (co_Point co) m"
     "co_Point co1 = (case co_Point co of In_foo k \<Rightarrow> if snd (foo (co_Params co) (co_Result co) k m) then In_foo (Suc k) else In_wrapper | In_wrapper \<Rightarrow> In_wrapper)"
    using CoroutineNext_ok [OF assms(1,2) Suc.prems, of foo m] by blast
  from Suc.IH [OF 1(2), of m1] show ?case using 1
    by (cases "co_Point co") (auto split: prod.splits)
qed simp

text \<open>A function that yields \<open>n\<close> times: the caller gets \<^verbatim>\<open>COROUTINE_MORE\<close> that often, and \<^verbatim>\<open>COROUTINE_DONE\<close> ever after.\<close>

lemma pieces_statuses:
  assumes "\<And>k m. snd (foo p r k m) \<longleftrightarrow> k < n"
  shows "fst (pieces foo p r d In_wrapper m) = replicate d COROUTINE_DONE"
    "k \<le> n \<Longrightarrow> fst (pieces foo p r (n - k + d) (In_foo k) m) = replicate (n - k) COROUTINE_MORE @ replicate d COROUTINE_DONE"
proof -
  show fin: "fst (pieces foo p r d In_wrapper m) = replicate d COROUTINE_DONE" for d m
    by (induction d) (simp_all add: Let_def split_beta)
  show "fst (pieces foo p r (n - k + d) (In_foo k) m) = replicate (n - k) COROUTINE_MORE @ replicate d COROUTINE_DONE" if "k \<le> n"
    using that
  proof (induction "n - k" arbitrary: k m)
    case 0
    then show ?case using fin assms [of n] by (cases d) (simp_all add: Let_def split_beta)
  next
    case (Suc j)
    then have "n - k = Suc j" "j = n - Suc k" "Suc k \<le> n" "snd (foo p r k m)" using assms by auto
    then show ?case using Suc.hyps(1) [of "Suc k"] by (simp add: Let_def split_beta)
  qed
qed

lemma coroutine_yields:
  assumes init: "CoroutineInit params output (p, bytes) size' co self s0 = Some (co', bytes', s1)"
    and stack: "MINSIGSTKSZ \<le> size'" "HAL_ISR_TRAMPOLINE \<notin> sig_pending s0"
    and s: "isr_ok s" "IsrDisabledCount s IRQ_LEVEL_MAX + 1 \<noteq> 0" and foo: "\<And>k m. snd (foo params output k m) \<longleftrightarrow> k < n"
  shows "\<exists>co'' m'. CoroutineNexts foo (n + d) co' m s = Some (replicate n COROUTINE_MORE @ replicate d COROUTINE_DONE, co'', m', s)"
proof -
  have "coroutine_ok co'" "co_Params co' = params" "co_Result co' = output" "co_Point co' = In_foo 0"
    using init ContextInit_new [OF stack, of "yc_RoutineState (co_YieldContext co)" self p bytes CoRoutineWrapper_r self]
    by (auto simp: CoroutineInit_def Let_def coroutine_ok_def)
  then show ?thesis
    using coroutine_iterates [OF s, of co' foo "n + d" m] pieces_statuses(2) [of foo params "output" n 0 d m] foo by auto
qed

end
