(* ===== verification/LispHeap.thy ===== *)
theory LispHeap
  imports KP_Prelude
begin

text \<open>
  The memory of the Lisp interpreter, \<^verbatim>\<open>src/kernel/minilisp.c\<close>: objects in two half spaces,
  allocation, and Cheney's copying garbage collector. Memory is a map from addresses to objects; an
  address is the byte at which an object starts. The pointers that C code holds across an allocation
  are in frames on the C stack, which the collector knows as its roots; they are named by handles, as
  \<^verbatim>\<open>Obj **\<close> is in the source. \<open>None\<close> is the end of the program by \<^verbatim>\<open>error\<close>, a failed assertion or an
  access to memory that holds no object.
\<close>

section \<open>Objects\<close>

datatype obj_type = TINT | TCELL | TSYMBOL | TPRIMITIVE | TFUNCTION | TMACRO | TENV | TMOVED | TTRUE | TNIL | TDOT | TCPAREN

text \<open>A pointer to an object: null, one of the four static objects, or an address of the heaps.\<close>

datatype obj = Null_obj | True_obj | Nil_obj | Dot_obj | Cparen_obj | Ref nat

datatype primitive =
    prim_quote_f | prim_cons_f | prim_car_f | prim_cdr_f | prim_setq_f | prim_setcar_f | prim_while_f | prim_gensym_f
  | prim_plus_f | prim_minus_f | prim_lt_f | prim_define_f | prim_defun_f | prim_defmacro_f | prim_macroexpand_f
  | prim_lambda_f | prim_if_f | prim_num_eq_f | prim_eq_f | prim_println_f | prim_panic_f | prim_sleep_f

text \<open>The union of the object's contents; \<open>Uninit\<close> is memory that has not been written yet.\<close>

datatype obj_value =
    Value "32 word"
  | Cell obj obj
  | Name string
  | Fn primitive
  | Lambda obj obj obj
  | Frame obj obj
  | Moved obj
  | Uninit

record Obj =
  ob_type :: obj_type
  ob_size :: nat
  ob_value :: obj_value

record ALLOC_BLOCK =
  memory :: nat
  from_space :: nat
  mem_nused :: nat
  cur_heap :: nat
  next_heap :: nat
  memory_size :: nat
  gc_running :: bool
  debug_gc :: bool
  always_gc :: bool
  Symbols :: obj

record lisp_heap = ALLOC_BLOCK +
  mem :: "nat \<rightharpoonup> Obj"
  scan1 :: nat
  scan2 :: nat
  frames :: "obj list list"   \<comment> \<open>the root frames on the C stack, the innermost one last\<close>
  lisp_out :: string   \<comment> \<open>what has been written to the serial line\<close>

definition lisp_init ::
    "nat \<Rightarrow> nat \<Rightarrow> nat \<Rightarrow> bool \<Rightarrow> bool \<Rightarrow> 'a ALLOC_BLOCK_scheme \<Rightarrow> 'a ALLOC_BLOCK_scheme" where
  "lisp_init heap1 heap2 heap_size debug always s =
     s\<lparr>cur_heap := heap1, next_heap := heap2, memory_size := heap_size, memory := heap1, mem_nused := 0,
       debug_gc := debug, always_gc := always\<rparr>"

section \<open>Output\<close>

definition lisp_write :: "string \<Rightarrow> 'a lisp_heap_scheme \<Rightarrow> 'a lisp_heap_scheme" where
  "lisp_write buf s = s\<lparr>lisp_out := lisp_out s @ buf\<rparr>"

text \<open>\<^verbatim>\<open>vsnprintf\<close> cuts the text to the 100 bytes of the buffer, the final zero included.\<close>

definition lisp_printf :: "string \<Rightarrow> 'a lisp_heap_scheme \<Rightarrow> 'a lisp_heap_scheme" where
  "lisp_printf txt s = lisp_write (take 99 txt) s"

fun show_nat :: "nat \<Rightarrow> string" where
  "show_nat n = (if n < 10 then [char_of (48 + n)] else show_nat (n div 10) @ [char_of (48 + n mod 10)])"

declare show_nat.simps [simp del]

section \<open>Garbage collection\<close>

definition forward :: "obj \<Rightarrow> 'a lisp_heap_scheme \<Rightarrow> (obj \<times> 'a lisp_heap_scheme) option" where
  "forward p s =
     (case p of
        Ref a \<Rightarrow>
          if a < from_space s \<or> memory_size s \<le> a - from_space s then Some (p, s)
          else do {
            ob \<leftarrow> mem s a;
            (if ob_type ob = TMOVED then (case ob_value ob of Moved q \<Rightarrow> Some (q, s) | _ \<Rightarrow> None)
             else
               let newloc = scan2 s;
                   s = s\<lparr>mem := (mem s)(newloc \<mapsto> ob)\<rparr>;
                   s = s\<lparr>scan2 := scan2 s + ob_size ob\<rparr>;
                   s = s\<lparr>mem := (mem s)(a \<mapsto> ob\<lparr>ob_type := TMOVED, ob_value := Moved (Ref newloc)\<rparr>)\<rparr>
               in Some (Ref newloc, s))
          }
      | _ \<Rightarrow> Some (p, s))"

primrec forward_frame :: "obj list \<Rightarrow> 'a lisp_heap_scheme \<Rightarrow> (obj list \<times> 'a lisp_heap_scheme) option" where
  "forward_frame [] s = Some ([], s)"
| "forward_frame (p # ps) s =
     do {
       (p, s) \<leftarrow> (if p \<noteq> Null_obj then forward p s else Some (p, s));
       (ps, s) \<leftarrow> forward_frame ps s;
       Some (p # ps, s)
     }"

text \<open>The frames are linked from the innermost one outwards.\<close>

primrec forward_frames :: "obj list list \<Rightarrow> 'a lisp_heap_scheme \<Rightarrow> (obj list list \<times> 'a lisp_heap_scheme) option" where
  "forward_frames [] s = Some ([], s)"
| "forward_frames (f # fs) s =
     do { (f, s) \<leftarrow> forward_frame f s; (fs, s) \<leftarrow> forward_frames fs s; Some (f # fs, s) }"

definition forward_root_objects :: "'a lisp_heap_scheme \<Rightarrow> 'a lisp_heap_scheme option" where
  "forward_root_objects s =
     do {
       (sym, s) \<leftarrow> forward (Symbols s) s;
       let s = s\<lparr>Symbols := sym\<rparr>;
       (fs, s) \<leftarrow> forward_frames (rev (frames s)) s;
       Some (s\<lparr>frames := rev fs\<rparr>)
     }"

definition set_value :: "nat \<Rightarrow> obj_value \<Rightarrow> 'a lisp_heap_scheme \<Rightarrow> 'a lisp_heap_scheme option" where
  "set_value a v s = do { ob \<leftarrow> mem s a; Some (s\<lparr>mem := (mem s)(a \<mapsto> ob\<lparr>ob_value := v\<rparr>)\<rparr>) }"

text \<open>One pass of the loop: the fields of the object at \<^verbatim>\<open>scan1\<close>, one after the other.\<close>

definition gc_scan :: "'a lisp_heap_scheme \<Rightarrow> 'a lisp_heap_scheme option" where
  "gc_scan s =
     do {
       ob \<leftarrow> mem s (scan1 s);
       (case ob_type ob of
          TINT \<Rightarrow> Some s
        | TSYMBOL \<Rightarrow> Some s
        | TPRIMITIVE \<Rightarrow> Some s
        | TCELL \<Rightarrow> (case ob_value ob of
            Cell x y \<Rightarrow> do {
              (x, s) \<leftarrow> forward x s; s \<leftarrow> set_value (scan1 s) (Cell x y) s;
              (y, s) \<leftarrow> forward y s; set_value (scan1 s) (Cell x y) s }
          | _ \<Rightarrow> None)
        | TFUNCTION \<Rightarrow> (case ob_value ob of
            Lambda x y z \<Rightarrow> do {
              (x, s) \<leftarrow> forward x s; s \<leftarrow> set_value (scan1 s) (Lambda x y z) s;
              (y, s) \<leftarrow> forward y s; s \<leftarrow> set_value (scan1 s) (Lambda x y z) s;
              (z, s) \<leftarrow> forward z s; set_value (scan1 s) (Lambda x y z) s }
          | _ \<Rightarrow> None)
        | TMACRO \<Rightarrow> (case ob_value ob of
            Lambda x y z \<Rightarrow> do {
              (x, s) \<leftarrow> forward x s; s \<leftarrow> set_value (scan1 s) (Lambda x y z) s;
              (y, s) \<leftarrow> forward y s; s \<leftarrow> set_value (scan1 s) (Lambda x y z) s;
              (z, s) \<leftarrow> forward z s; set_value (scan1 s) (Lambda x y z) s }
          | _ \<Rightarrow> None)
        | TENV \<Rightarrow> (case ob_value ob of
            Frame x y \<Rightarrow> do {
              (x, s) \<leftarrow> forward x s; s \<leftarrow> set_value (scan1 s) (Frame x y) s;
              (y, s) \<leftarrow> forward y s; set_value (scan1 s) (Frame x y) s }
          | _ \<Rightarrow> None)
        | _ \<Rightarrow> None)
     }"

partial_function (option) gc_loop :: "'a lisp_heap_scheme \<Rightarrow> 'a lisp_heap_scheme option" where
  "gc_loop s =
     (if scan1 s < scan2 s then
        Option.bind (gc_scan s) (\<lambda>s.
        Option.bind (mem s (scan1 s)) (\<lambda>ob.
          gc_loop (s\<lparr>scan1 := scan1 s + ob_size ob\<rparr>)))
      else Some s)"

definition gc :: "'a lisp_heap_scheme \<Rightarrow> 'a lisp_heap_scheme option" where
  "gc s =
     do {
       ASSERT (\<not> gc_running s);
       let s = s\<lparr>gc_running := True\<rparr>;
       let s = s\<lparr>from_space := memory s, memory := next_heap s, next_heap := cur_heap s\<rparr>;
       let s = s\<lparr>cur_heap := memory s\<rparr>;
       let s = s\<lparr>scan1 := memory s, scan2 := memory s\<rparr>;
       s \<leftarrow> forward_root_objects s;
       s \<leftarrow> gc_loop s;
       let old_nused = mem_nused s;
       let s = s\<lparr>mem_nused := scan1 s - memory s\<rparr>;
       let s = (if debug_gc s then
           lisp_printf (''GC: '' @ show_nat (mem_nused s) @ '' bytes out of '' @ show_nat old_nused @ '' bytes copied.'' @ [CHR 0x0A]) s
         else s);
       Some (s\<lparr>gc_running := False\<rparr>)
     }"

section \<open>Allocation\<close>

definition roundup :: "64 word \<Rightarrow> 64 word \<Rightarrow> 64 word" where
  "roundup var sz = and (var + sz - 1) (not (sz - 1))"

definition alloc :: "obj_type \<Rightarrow> 64 word \<Rightarrow> 'a lisp_heap_scheme \<Rightarrow> (nat \<times> 'a lisp_heap_scheme) option" where
  "alloc type sz s =
     do {
       let sz = roundup sz 8;
       let sz = sz + 8;
       let sz = unat (roundup sz 8);
       s \<leftarrow> (if always_gc s \<and> \<not> gc_running s then gc s else Some s);
       s \<leftarrow> (if \<not> always_gc s \<and> memory_size s < mem_nused s + sz then gc s else Some s);
       (if memory_size s < mem_nused s + sz then None
        else
          let a = memory s + mem_nused s in
          Some (a, s\<lparr>mem := (mem s)(a \<mapsto> \<lparr>ob_type = type, ob_size = sz, ob_value = Uninit\<rparr>),
            mem_nused := mem_nused s + sz\<rparr>))
     }"

section \<open>Handles and constructors\<close>

text \<open>What an \<^verbatim>\<open>Obj **\<close> points to: a slot of a root frame, the list of symbols of the block, or one of the
  static pointers to the static objects.\<close>

datatype handle = Slot nat nat | SymbolsH | StaticH obj

definition deref :: "handle \<Rightarrow> 'a lisp_heap_scheme \<Rightarrow> obj option" where
  "deref h s =
     (case h of
        Slot f i \<Rightarrow> if f < length (frames s) \<and> i < length (frames s ! f) then Some (frames s ! f ! i) else None
      | SymbolsH \<Rightarrow> Some (Symbols s)
      | StaticH p \<Rightarrow> Some p)"

definition store :: "handle \<Rightarrow> obj \<Rightarrow> 'a lisp_heap_scheme \<Rightarrow> 'a lisp_heap_scheme option" where
  "store h p s =
     (case h of
        Slot f i \<Rightarrow> if f < length (frames s) \<and> i < length (frames s ! f)
          then Some (s\<lparr>frames := (frames s)[f := (frames s ! f)[i := p]]\<rparr>) else None
      | SymbolsH \<Rightarrow> Some (s\<lparr>Symbols := p\<rparr>)
      | StaticH q \<Rightarrow> None)"

definition make_int :: "32 word \<Rightarrow> 'a lisp_heap_scheme \<Rightarrow> (obj \<times> 'a lisp_heap_scheme) option" where
  "make_int val s = do { (r, s) \<leftarrow> alloc TINT 4 s; s \<leftarrow> set_value r (Value val) s; Some (Ref r, s) }"

definition cons :: "handle \<Rightarrow> handle \<Rightarrow> 'a lisp_heap_scheme \<Rightarrow> (obj \<times> 'a lisp_heap_scheme) option" where
  "cons car cdr s =
     do {
       (cell, s) \<leftarrow> alloc TCELL 16 s;
       x \<leftarrow> deref car s; y \<leftarrow> deref cdr s;
       s \<leftarrow> set_value cell (Cell x y) s;
       Some (Ref cell, s)
     }"

definition make_symbol :: "string \<Rightarrow> 'a lisp_heap_scheme \<Rightarrow> (obj \<times> 'a lisp_heap_scheme) option" where
  "make_symbol name s =
     do {
       (sym, s) \<leftarrow> alloc TSYMBOL (of_nat (length name) + 1) s;
       s \<leftarrow> set_value sym (Name name) s;
       Some (Ref sym, s)
     }"

definition make_primitive :: "primitive \<Rightarrow> 'a lisp_heap_scheme \<Rightarrow> (obj \<times> 'a lisp_heap_scheme) option" where
  "make_primitive fn s = do { (r, s) \<leftarrow> alloc TPRIMITIVE 8 s; s \<leftarrow> set_value r (Fn fn) s; Some (Ref r, s) }"

definition make_function ::
    "handle \<Rightarrow> obj_type \<Rightarrow> handle \<Rightarrow> handle \<Rightarrow> 'a lisp_heap_scheme \<Rightarrow> (obj \<times> 'a lisp_heap_scheme) option" where
  "make_function env type params body s =
     do {
       ASSERT (type = TFUNCTION \<or> type = TMACRO);
       (r, s) \<leftarrow> alloc type 24 s;
       x \<leftarrow> deref params s; y \<leftarrow> deref body s; z \<leftarrow> deref env s;
       s \<leftarrow> set_value r (Lambda x y z) s;
       Some (Ref r, s)
     }"

definition make_env :: "handle \<Rightarrow> handle \<Rightarrow> 'a lisp_heap_scheme \<Rightarrow> (obj \<times> 'a lisp_heap_scheme) option" where
  "make_env vars up s =
     do {
       (r, s) \<leftarrow> alloc TENV 16 s;
       x \<leftarrow> deref vars s; y \<leftarrow> deref up s;
       s \<leftarrow> set_value r (Frame x y) s;
       Some (Ref r, s)
     }"

section \<open>Well-formed memory\<close>

primrec ptrs :: "obj_value \<Rightarrow> obj list" where
  "ptrs (Value v) = []"
| "ptrs (Cell x y) = [x, y]"
| "ptrs (Name n) = []"
| "ptrs (Fn f) = []"
| "ptrs (Lambda x y z) = [x, y, z]"
| "ptrs (Frame x y) = [x, y]"
| "ptrs (Moved p) = []"
| "ptrs Uninit = []"

primrec map_value :: "(obj \<Rightarrow> obj) \<Rightarrow> obj_value \<Rightarrow> obj_value" where
  "map_value f (Value v) = Value v"
| "map_value f (Cell x y) = Cell (f x) (f y)"
| "map_value f (Name n) = Name n"
| "map_value f (Fn p) = Fn p"
| "map_value f (Lambda x y z) = Lambda (f x) (f y) (f z)"
| "map_value f (Frame x y) = Frame (f x) (f y)"
| "map_value f (Moved p) = Moved p"
| "map_value f Uninit = Uninit"

definition map_obj :: "(obj \<Rightarrow> obj) \<Rightarrow> Obj \<Rightarrow> Obj" where
  "map_obj f ob = ob\<lparr>ob_value := map_value f (ob_value ob)\<rparr>"

text \<open>The tag of an object says which member of the union is in use.\<close>

definition typed :: "Obj \<Rightarrow> bool" where
  "typed ob \<longleftrightarrow>
     (case ob_value ob of
        Value v \<Rightarrow> ob_type ob = TINT
      | Cell x y \<Rightarrow> ob_type ob = TCELL
      | Name n \<Rightarrow> ob_type ob = TSYMBOL
      | Fn f \<Rightarrow> ob_type ob = TPRIMITIVE
      | Lambda x y z \<Rightarrow> ob_type ob = TFUNCTION \<or> ob_type ob = TMACRO
      | Frame x y \<Rightarrow> ob_type ob = TENV
      | _ \<Rightarrow> False)"

text \<open>Objects that fill the memory from one address to another without gaps.\<close>

primrec tiles :: "(nat \<rightharpoonup> Obj) \<Rightarrow> nat \<Rightarrow> nat list \<Rightarrow> nat \<Rightarrow> bool" where
  "tiles m a [] b \<longleftrightarrow> a = b"
| "tiles m a (x # xs) b \<longleftrightarrow> x = a \<and> (\<exists>ob. m a = Some ob \<and> 0 < ob_size ob \<and> tiles m (a + ob_size ob) xs b)"

definition ptr_in :: "nat set \<Rightarrow> obj \<Rightarrow> bool" where
  "ptr_in A p \<longleftrightarrow> (\<forall>a. p = Ref a \<longrightarrow> a \<in> A)"

lemma ptr_in_simps [simp]: "ptr_in A (Ref a) \<longleftrightarrow> a \<in> A" "ptr_in A Null_obj" "ptr_in A True_obj" "ptr_in A Nil_obj"
  "ptr_in A Dot_obj" "ptr_in A Cparen_obj"
  by (simp_all add: ptr_in_def)

text \<open>Every object is tagged, and no pointer dangles.\<close>

definition objects_ok :: "nat set \<Rightarrow> (nat \<rightharpoonup> Obj) \<Rightarrow> bool" where
  "objects_ok A m \<longleftrightarrow> (\<forall>a\<in>A. \<exists>ob. m a = Some ob \<and> typed ob \<and> (\<forall>p\<in>set (ptrs (ob_value ob)). ptr_in A p))"

definition roots :: "'a lisp_heap_scheme \<Rightarrow> obj set" where
  "roots s = insert (Symbols s) (\<Union>f\<in>set (frames s). set f)"

definition heap_ok :: "'a lisp_heap_scheme \<Rightarrow> nat list \<Rightarrow> bool" where
  "heap_ok s xs \<longleftrightarrow> tiles (mem s) (memory s) xs (memory s + mem_nused s) \<and> mem_nused s \<le> memory_size s \<and>
     cur_heap s = memory s \<and> (memory s + memory_size s \<le> next_heap s \<or> next_heap s + memory_size s \<le> memory s) \<and>
     \<not> gc_running s \<and> objects_ok (set xs) (mem s) \<and> (\<forall>p\<in>roots s. ptr_in (set xs) p)"

inductive_set reach :: "obj set \<Rightarrow> (nat \<rightharpoonup> Obj) \<Rightarrow> nat set" for R m where
  reach_root: "Ref a \<in> R \<Longrightarrow> a \<in> reach R m"
| reach_field: "a \<in> reach R m \<Longrightarrow> m a = Some ob \<Longrightarrow> Ref b \<in> set (ptrs (ob_value ob)) \<Longrightarrow> b \<in> reach R m"

section \<open>Where objects go\<close>

definition sizes :: "(nat \<rightharpoonup> Obj) \<Rightarrow> nat list \<Rightarrow> nat" where
  "sizes m xs = sum_list (map (\<lambda>a. ob_size (the (m a))) xs)"

lemma sizes_simps [simp]: "sizes m [] = 0" "sizes m (a # xs) = ob_size (the (m a)) + sizes m xs"
  "sizes m (xs @ ys) = sizes m xs + sizes m ys"
  by (simp_all add: sizes_def)

lemma sizes_subset: "distinct xs \<Longrightarrow> distinct ys \<Longrightarrow> set xs \<subseteq> set ys \<Longrightarrow> sizes m xs \<le> sizes m ys"
  by (simp add: sizes_def sum_list_distinct_conv_sum_set sum_mono2)

lemma tiles_sizes: "tiles m a xs b \<Longrightarrow> b = a + sizes m xs"
proof (induction xs arbitrary: a)
  case (Cons x xs)
  then obtain ob where ob: "x = a" "m a = Some ob" "tiles m (a + ob_size ob) xs b" by auto
  then show ?case using Cons.IH [OF ob(3)] by simp
qed simp

lemma tiles_bounds: "tiles m a xs b \<Longrightarrow> x \<in> set xs \<Longrightarrow> a \<le> x \<and> x < b \<and> (\<exists>ob. m x = Some ob \<and> 0 < ob_size ob \<and> x + ob_size ob \<le> b)"
proof (induction xs arbitrary: a)
  case (Cons y ys)
  obtain ob where ob: "y = a" "m a = Some ob" "0 < ob_size ob" "tiles m (a + ob_size ob) ys b" using Cons.prems(1) by auto
  have "a + ob_size ob \<le> b" using tiles_sizes [OF ob(4)] by simp
  then show ?case using Cons.IH [OF ob(4)] Cons.prems(2) ob by auto
qed simp

lemma tiles_distinct: "tiles m a xs b \<Longrightarrow> distinct xs"
proof (induction xs arbitrary: a)
  case (Cons y ys)
  obtain ob where ob: "y = a" "0 < ob_size ob" "tiles m (a + ob_size ob) ys b" "m a = Some ob" using Cons.prems by auto
  then show ?case using Cons.IH [OF ob(3)] tiles_bounds [OF ob(3), of a] by auto
qed simp

lemma tiles_append: "tiles m a xs b \<Longrightarrow> tiles m b ys c \<Longrightarrow> tiles m a (xs @ ys) c"
  by (induction xs arbitrary: a) auto

lemma tiles_cong: "(\<And>x. x \<in> set xs \<Longrightarrow> map_option ob_size (m' x) = map_option ob_size (m x)) \<Longrightarrow> tiles m a xs b \<Longrightarrow> tiles m' a xs b"
proof (induction xs arbitrary: a)
  case (Cons y ys)
  obtain ob where ob: "y = a" "m a = Some ob" "0 < ob_size ob" "tiles m (a + ob_size ob) ys b" using Cons.prems(2) by auto
  have "map_option ob_size (m' a) = Some (ob_size ob)" using Cons.prems(1) [of a] ob(1,2) by simp
  then obtain ob' where "m' a = Some ob'" "ob_size ob' = ob_size ob" by auto
  moreover have "tiles m' (a + ob_size ob) ys b" using Cons.IH [OF _ ob(4)] Cons.prems(1) by simp
  ultimately show ?case using ob(1,3) by simp
qed simp

definition loc :: "(nat \<rightharpoonup> Obj) \<Rightarrow> nat \<Rightarrow> nat list \<Rightarrow> nat \<Rightarrow> nat" where
  "loc m b cs a = b + sizes m (takeWhile (\<lambda>x. x \<noteq> a) cs)"

lemma loc_split: "a \<notin> set xs \<Longrightarrow> loc m b (xs @ a # ys) a = b + sizes m xs"
  by (induction xs arbitrary: b) (auto simp: loc_def)

lemma loc_append: "a \<in> set cs \<Longrightarrow> loc m b (cs @ ds) a = loc m b cs a"
  by (simp add: loc_def takeWhile_append1)

lemma loc_nth: "distinct cs \<Longrightarrow> j < length cs \<Longrightarrow> loc m b cs (cs ! j) = b + sizes m (take j cs)"
  using loc_split [of "cs ! j" "take j cs" m b "drop (Suc j) cs"]
  by (simp add: id_take_nth_drop [symmetric] in_set_conv_nth nth_eq_iff_index_eq)

lemma sizes_take_mono:
  assumes "i < j" and "j \<le> length cs" and "\<forall>a\<in>set cs. 0 < ob_size (the (m a))"
  shows "sizes m (take i cs) < sizes m (take j cs)"
proof -
  have eq: "take j cs = take i cs @ cs ! i # drop (Suc i) (take j cs)"
    using assms(1,2) id_take_nth_drop [of i "take j cs"] by (simp add: min_def)
  show ?thesis using assms by (subst eq) simp
qed

lemma loc_inj:
  assumes "distinct cs" and "\<forall>a\<in>set cs. 0 < ob_size (the (m a))" and "a \<in> set cs" and "c \<in> set cs" and "loc m b cs a = loc m b cs c"
  shows "a = c"
proof -
  obtain i j where ij: "i < length cs" "j < length cs" "a = cs ! i" "c = cs ! j" using assms(3,4) by (auto simp: in_set_conv_nth)
  have "\<not> i < j" "\<not> j < i"
    using sizes_take_mono [OF _ _ assms(2), of i j] sizes_take_mono [OF _ _ assms(2), of j i] assms(1,5) ij by (auto simp: loc_nth)
  then show ?thesis using ij by (metis nat_neq_iff)
qed

definition ren :: "(nat \<rightharpoonup> Obj) \<Rightarrow> nat \<Rightarrow> nat list \<Rightarrow> obj \<Rightarrow> obj" where
  "ren m b cs p = (case p of Ref a \<Rightarrow> Ref (loc m b cs a) | _ \<Rightarrow> p)"

lemma ren_append: "ptr_in (set cs) p \<Longrightarrow> ren m b (cs @ ds) p = ren m b cs p"
  by (cases p) (simp_all add: ren_def loc_append)

lemma map_value_cong: "(\<And>p. p \<in> set (ptrs v) \<Longrightarrow> f p = g p) \<Longrightarrow> map_value f v = map_value g v"
  by (cases v) auto

lemma ptrs_map_value [simp]: "ptrs (map_value f v) = map f (ptrs v)"
  by (cases v) simp_all

lemma typed_map_obj [simp]: "typed (map_obj f ob) = typed ob" "ob_size (map_obj f ob) = ob_size ob" "ob_type (map_obj f ob) = ob_type ob"
  by (simp_all add: typed_def map_obj_def split: obj_value.split)

section \<open>The collector at work\<close>

text \<open>
  The state in which the collector starts: objects \<open>xs\<close> in the old space, the new space empty and apart
  from it. \<open>cs\<close> are the objects copied so far, in the order in which they were copied, and the first \<open>k\<close>
  of them have been scanned; \<open>cur\<close> is what the contents of the next one have become, while it is scanned.
\<close>

definition gc_ready :: "'a lisp_heap_scheme \<Rightarrow> nat list \<Rightarrow> bool" where
  "gc_ready s0 xs \<longleftrightarrow> tiles (mem s0) (from_space s0) xs (from_space s0 + mem_nused s0) \<and> mem_nused s0 \<le> memory_size s0 \<and>
     (memory s0 + memory_size s0 \<le> from_space s0 \<or> from_space s0 + memory_size s0 \<le> memory s0) \<and>
     objects_ok (set xs) (mem s0) \<and> (\<forall>p\<in>roots s0. ptr_in (set xs) p)"

abbreviation (input) old :: "'a lisp_heap_scheme \<Rightarrow> nat \<Rightarrow> Obj" where
  "old s0 a \<equiv> the (mem s0 a)"

abbreviation (input) new :: "'a lisp_heap_scheme \<Rightarrow> nat list \<Rightarrow> nat \<Rightarrow> nat" where
  "new s0 cs a \<equiv> loc (mem s0) (memory s0) cs a"

abbreviation (input) moved :: "'a lisp_heap_scheme \<Rightarrow> nat list \<Rightarrow> obj \<Rightarrow> obj" where
  "moved s0 cs p \<equiv> ren (mem s0) (memory s0) cs p"

definition copy_of :: "'a lisp_heap_scheme \<Rightarrow> nat list \<Rightarrow> nat \<Rightarrow> obj_value option \<Rightarrow> nat \<Rightarrow> Obj" where
  "copy_of s0 cs k cur j = (let ob = old s0 (cs ! j) in
     if j < k then map_obj (moved s0 cs) ob
     else case cur of Some v \<Rightarrow> if j = k then ob\<lparr>ob_value := v\<rparr> else ob | None \<Rightarrow> ob)"

definition same_block :: "'a lisp_heap_scheme \<Rightarrow> 'a lisp_heap_scheme \<Rightarrow> bool" where
  "same_block s0 s \<longleftrightarrow> s\<lparr>mem := Map.empty, scan1 := 0, scan2 := 0, Symbols := Null_obj, frames := []\<rparr> =
     s0\<lparr>mem := Map.empty, scan1 := 0, scan2 := 0, Symbols := Null_obj, frames := []\<rparr>"

lemma same_block_fields:
  assumes "same_block s0 s"
  shows "from_space s = from_space s0" "memory s = memory s0" "memory_size s = memory_size s0" "mem_nused s = mem_nused s0"
    "cur_heap s = cur_heap s0" "next_heap s = next_heap s0" "gc_running s = gc_running s0" "debug_gc s = debug_gc s0"
    "always_gc s = always_gc s0" "lisp_out s = lisp_out s0" "lisp_heap.more s = lisp_heap.more s0"
  using assms unfolding same_block_def by (cases s; cases s0; simp)+

lemma same_block_refl [simp]: "same_block s s"
  by (simp add: same_block_def)

definition gc_inv :: "'a lisp_heap_scheme \<Rightarrow> nat list \<Rightarrow> nat list \<Rightarrow> nat \<Rightarrow> obj_value option \<Rightarrow> 'a lisp_heap_scheme \<Rightarrow> bool" where
  "gc_inv s0 xs cs k cur s \<longleftrightarrow> same_block s0 s \<and> distinct cs \<and> set cs \<subseteq> set xs \<and> k \<le> length cs \<and>
     scan2 s = memory s0 + sizes (mem s0) cs \<and> scan1 s = memory s0 + sizes (mem s0) (take k cs) \<and>
     (\<forall>a\<in>set xs - set cs. mem s a = mem s0 a) \<and>
     (\<forall>a\<in>set cs. mem s a = Some ((old s0 a)\<lparr>ob_type := TMOVED, ob_value := Moved (Ref (new s0 cs a))\<rparr>)) \<and>
     (\<forall>j<length cs. mem s (new s0 cs (cs ! j)) = Some (copy_of s0 cs k cur j)) \<and>
     (\<forall>j<k. \<forall>p\<in>set (ptrs (ob_value (old s0 (cs ! j)))). ptr_in (set cs) p) \<and>
     set cs \<subseteq> reach (roots s0) (mem s0)"

lemma gc_ready_facts:
  assumes "gc_ready s0 xs"
  shows "distinct xs" "\<And>a. a \<in> set xs \<Longrightarrow> from_space s0 \<le> a \<and> a < from_space s0 + memory_size s0"
    "\<And>a. a \<in> set xs \<Longrightarrow> mem s0 a = Some (old s0 a) \<and> 0 < ob_size (old s0 a) \<and> typed (old s0 a)"
    "\<And>cs. distinct cs \<Longrightarrow> set cs \<subseteq> set xs \<Longrightarrow> sizes (mem s0) cs \<le> mem_nused s0"
proof -
  have t: "tiles (mem s0) (from_space s0) xs (from_space s0 + mem_nused s0)" "mem_nused s0 \<le> memory_size s0" "objects_ok (set xs) (mem s0)"
    using assms by (simp_all add: gc_ready_def)
  show d: "distinct xs" by (rule tiles_distinct [OF t(1)])
  show "from_space s0 \<le> a \<and> a < from_space s0 + memory_size s0" if "a \<in> set xs" for a
    using tiles_bounds [OF t(1) that] t(2) by auto
  show "mem s0 a = Some (old s0 a) \<and> 0 < ob_size (old s0 a) \<and> typed (old s0 a)" if "a \<in> set xs" for a
    using tiles_bounds [OF t(1) that] t(3) that by (auto simp: objects_ok_def)
  show "sizes (mem s0) cs \<le> mem_nused s0" if "distinct cs" "set cs \<subseteq> set xs" for cs
    using sizes_subset [OF that(1) d that(2)] tiles_sizes [OF t(1)] by simp
qed

text \<open>The addresses of the copies are in the new space, apart from the old one, and different.\<close>

lemma new_bounds:
  assumes "gc_ready s0 xs" and "distinct cs" and "set cs \<subseteq> set xs" and "a \<in> set cs"
  shows "memory s0 \<le> new s0 cs a" "new s0 cs a < memory s0 + sizes (mem s0) cs" "new s0 cs a \<notin> set xs"
proof -
  note f = gc_ready_facts [OF assms(1)]
  obtain j where j: "j < length cs" "a = cs ! j" using assms(4) by (auto simp: in_set_conv_nth)
  have pos: "\<forall>a\<in>set cs. 0 < ob_size (old s0 a)" using f(3) assms(3) by blast
  show lo: "memory s0 \<le> new s0 cs a" by (simp add: loc_def)
  show hi: "new s0 cs a < memory s0 + sizes (mem s0) cs"
    using sizes_take_mono [OF j(1) order_refl pos] loc_nth [OF assms(2) j(1)] j(2) by simp
  have "sizes (mem s0) cs \<le> memory_size s0" using f(4) [OF assms(2,3)] assms(1) by (simp add: gc_ready_def)
  then show "new s0 cs a \<notin> set xs" using f(2) lo hi assms(1) by (fastforce simp: gc_ready_def)
qed

lemma free_not_old:
  assumes "gc_ready s0 xs" and "distinct cs" and "set cs \<subseteq> set xs" and "a \<in> set xs" and "a \<notin> set cs"
  shows "memory s0 + sizes (mem s0) cs \<notin> set xs"
proof -
  have "new s0 (cs @ [a]) a \<notin> set xs" using new_bounds(3) [OF assms(1), of "cs @ [a]" a] assms(2-5) by simp
  then show ?thesis using loc_split [OF assms(5), of "mem s0" "memory s0" "[]"] by simp
qed

text \<open>Forwarding a pointer to a live object copies the object if that has not been done, and returns where it is.\<close>

lemma forward_inv:
  assumes ready: "gc_ready s0 xs" and inv: "gc_inv s0 xs cs k cur s" and p: "ptr_in (set xs \<inter> reach (roots s0) (mem s0)) p"
    and cur: "cur \<noteq> None \<longrightarrow> k < length cs"
  shows "\<exists>ds s'. forward p s = Some (moved s0 (cs @ ds) p, s') \<and> gc_inv s0 xs (cs @ ds) k cur s' \<and>
     ptr_in (set (cs @ ds)) p \<and> scan1 s' = scan1 s \<and> Symbols s' = Symbols s \<and> frames s' = frames s"
proof (cases p)
  case (Ref a)
  note f = gc_ready_facts [OF ready]
  have a: "a \<in> set xs" "a \<in> reach (roots s0) (mem s0)" using p Ref by simp_all
  have sb: "from_space s = from_space s0" "memory_size s = memory_size s0" using inv same_block_fields(1,3) by (auto simp: gc_inv_def)
  have inside: "\<not> (a < from_space s \<or> memory_size s \<le> a - from_space s)" using f(2) [OF a(1)] sb by auto
  show ?thesis
  proof (cases "a \<in> set cs")
    case True
    then have "mem s a = Some ((old s0 a)\<lparr>ob_type := TMOVED, ob_value := Moved (Ref (new s0 cs a))\<rparr>)" using inv by (simp add: gc_inv_def)
    then have "forward p s = Some (moved s0 (cs @ []) p, s)" using Ref inside by (simp add: forward_def ren_def)
    then show ?thesis using inv True Ref by (intro exI [of _ "[]"] exI [of _ s]) simp
  next
    case False
    let ?cs = "cs @ [a]"
    let ?loc = "memory s0 + sizes (mem s0) cs"
    have i: "same_block s0 s" "distinct cs" "set cs \<subseteq> set xs" "k \<le> length cs" "scan2 s = ?loc"
      "\<forall>a\<in>set xs - set cs. mem s a = mem s0 a"
      "\<forall>a\<in>set cs. mem s a = Some ((old s0 a)\<lparr>ob_type := TMOVED, ob_value := Moved (Ref (new s0 cs a))\<rparr>)"
      "\<forall>j<length cs. mem s (new s0 cs (cs ! j)) = Some (copy_of s0 cs k cur j)"
      "\<forall>j<k. \<forall>p\<in>set (ptrs (ob_value (old s0 (cs ! j)))). ptr_in (set cs) p"
      using inv by (simp_all add: gc_inv_def)
    have ob: "mem s a = Some (old s0 a)" "ob_type (old s0 a) \<noteq> TMOVED"
      using i(6) f(3) [OF a(1)] a(1) False by (auto simp: typed_def split: obj_value.splits)
    have la: "new s0 ?cs a = ?loc" using loc_split [OF False, of "mem s0" "memory s0" "[]"] by simp
    have lo: "new s0 ?cs c = new s0 cs c" if "c \<in> set cs" for c by (rule loc_append [OF that])
    have dc: "distinct ?cs" "set ?cs \<subseteq> set xs" using i(2,3) a(1) False by simp_all
    have free: "?loc \<notin> set xs" by (rule free_not_old [OF ready i(2,3) a(1) False])
    define s' where "s' = s\<lparr>mem := (mem s)(?loc \<mapsto> old s0 a, a \<mapsto> (old s0 a)\<lparr>ob_type := TMOVED, ob_value := Moved (Ref ?loc)\<rparr>),
        scan2 := ?loc + ob_size (old s0 a)\<rparr>"
    have fw: "forward p s = Some (moved s0 ?cs p, s')"
      using Ref inside ob i(5) la by (simp add: forward_def ren_def s'_def Let_def)
    have m: "mem s' c = mem s c" if "c \<noteq> ?loc" "c \<noteq> a" for c using that by (simp add: s'_def)
    have copies: "mem s' (new s0 ?cs (?cs ! j)) = Some (copy_of s0 ?cs k cur j)" if "j < length ?cs" for j
    proof (cases "j < length cs")
      case True
      then have j: "?cs ! j = cs ! j" "cs ! j \<in> set cs" by (simp_all add: nth_append)
      have ne: "new s0 cs (cs ! j) \<noteq> ?loc" "new s0 cs (cs ! j) \<noteq> a"
        using new_bounds(2,3) [OF ready i(2,3) j(2)] a(1) by auto
      have "map_value (moved s0 ?cs) (ob_value (old s0 (cs ! j))) = map_value (moved s0 cs) (ob_value (old s0 (cs ! j)))" if "j < k"
        using i(9) that by (intro map_value_cong ren_append) blast
      then have "copy_of s0 ?cs k cur j = copy_of s0 cs k cur j"
        using j(1) by (simp add: copy_of_def map_obj_def Let_def)
      then show ?thesis using i(8) True m [OF ne] lo [OF j(2)] j(1) by simp
    next
      case False
      then have j: "j = length cs" using that by simp
      moreover have "copy_of s0 ?cs k cur j = old s0 a"
        using j i(4) cur by (auto simp: copy_of_def Let_def split: option.split)
      ultimately show ?thesis using la free a(1) by (auto simp: s'_def)
    qed
    have "gc_inv s0 xs ?cs k cur s'"
      unfolding gc_inv_def
    proof (intro conjI)
      show "same_block s0 s'" using i(1) by (auto simp: same_block_def s'_def)
      show "distinct ?cs" "set ?cs \<subseteq> set xs" by fact+
      show "k \<le> length ?cs" using i(4) by simp
      show "scan2 s' = memory s0 + sizes (mem s0) ?cs" by (simp add: s'_def)
      show "scan1 s' = memory s0 + sizes (mem s0) (take k ?cs)" using inv i(4) by (simp add: gc_inv_def s'_def)
      show "\<forall>c\<in>set xs - set ?cs. mem s' c = mem s0 c"
      proof
        fix c assume c: "c \<in> set xs - set ?cs"
        then have "c \<noteq> ?loc" "c \<noteq> a" using free by auto
        then show "mem s' c = mem s0 c" using m i(6) c by simp
      qed
      show "\<forall>c\<in>set ?cs. mem s' c = Some ((old s0 c)\<lparr>ob_type := TMOVED, ob_value := Moved (Ref (new s0 ?cs c))\<rparr>)"
        using i(3,7) m free lo la a(1) False by (auto simp: s'_def)
      show "\<forall>j<length ?cs. mem s' (new s0 ?cs (?cs ! j)) = Some (copy_of s0 ?cs k cur j)" using copies by blast
      show "\<forall>j<k. \<forall>p\<in>set (ptrs (ob_value (old s0 (?cs ! j)))). ptr_in (set ?cs) p"
        using i(4,9) by (auto simp: nth_append ptr_in_def)
      show "set ?cs \<subseteq> reach (roots s0) (mem s0)" using inv a(2) by (simp add: gc_inv_def)
    qed
    then show ?thesis
      using fw Ref by (intro exI [of _ "[a]"] exI [of _ s']) (simp add: s'_def)
  qed
qed (use inv in \<open>auto simp: forward_def ren_def intro!: exI [of _ "[]"] exI [of _ s]\<close>)

lemma ren_Null [simp]: "ren m b cs Null_obj = Null_obj"
  by (simp add: ren_def)

lemma forward_frame_inv:
  "gc_ready s0 xs \<Longrightarrow> gc_inv s0 xs cs k None s \<Longrightarrow> \<forall>p\<in>set ps. ptr_in (set xs \<inter> reach (roots s0) (mem s0)) p \<Longrightarrow>
   \<exists>ds s'. forward_frame ps s = Some (map (moved s0 (cs @ ds)) ps, s') \<and> gc_inv s0 xs (cs @ ds) k None s' \<and>
     (\<forall>p\<in>set ps. ptr_in (set (cs @ ds)) p) \<and> scan1 s' = scan1 s \<and> Symbols s' = Symbols s \<and> frames s' = frames s"
proof (induction ps arbitrary: cs s)
  case Nil
  then show ?case by (intro exI [of _ "[]"]) simp
next
  case (Cons p ps)
  obtain d1 s1 where 1: "(if p \<noteq> Null_obj then forward p s else Some (p, s)) = Some (moved s0 (cs @ d1) p, s1)"
     "gc_inv s0 xs (cs @ d1) k None s1" "ptr_in (set (cs @ d1)) p" "scan1 s1 = scan1 s" "Symbols s1 = Symbols s" "frames s1 = frames s"
  proof (cases "p = Null_obj")
    case True
    then show thesis using that [of "[]" s] Cons.prems(2) by simp
  next
    case False
    then show thesis using that forward_inv [OF Cons.prems(1,2), of p] Cons.prems(3) by auto
  qed
  obtain d2 s2 where 2: "forward_frame ps s1 = Some (map (moved s0 ((cs @ d1) @ d2)) ps, s2)" "gc_inv s0 xs ((cs @ d1) @ d2) k None s2"
     "\<forall>p\<in>set ps. ptr_in (set ((cs @ d1) @ d2)) p" "scan1 s2 = scan1 s1" "Symbols s2 = Symbols s1" "frames s2 = frames s1"
    using Cons.IH [OF Cons.prems(1) 1(2)] Cons.prems(3) by auto
  have "moved s0 ((cs @ d1) @ d2) p = moved s0 (cs @ d1) p" by (rule ren_append [OF 1(3)])
  then show ?case
    using 1 2 by (intro exI [of _ "d1 @ d2"] exI [of _ s2]) (auto simp: ptr_in_def)
qed

lemma forward_frames_inv:
  "gc_ready s0 xs \<Longrightarrow> gc_inv s0 xs cs k None s \<Longrightarrow> \<forall>f\<in>set fs. \<forall>p\<in>set f. ptr_in (set xs \<inter> reach (roots s0) (mem s0)) p \<Longrightarrow>
   \<exists>ds s'. forward_frames fs s = Some (map (map (moved s0 (cs @ ds))) fs, s') \<and> gc_inv s0 xs (cs @ ds) k None s' \<and>
     (\<forall>f\<in>set fs. \<forall>p\<in>set f. ptr_in (set (cs @ ds)) p) \<and> scan1 s' = scan1 s \<and> Symbols s' = Symbols s \<and> frames s' = frames s"
proof (induction fs arbitrary: cs s)
  case Nil
  then show ?case by (intro exI [of _ "[]"]) simp
next
  case (Cons f fs)
  obtain d1 s1 where 1: "forward_frame f s = Some (map (moved s0 (cs @ d1)) f, s1)"
     "gc_inv s0 xs (cs @ d1) k None s1" "\<forall>p\<in>set f. ptr_in (set (cs @ d1)) p" "scan1 s1 = scan1 s" "Symbols s1 = Symbols s" "frames s1 = frames s"
    using forward_frame_inv [OF Cons.prems(1,2), of f] Cons.prems(3) by auto
  obtain d2 s2 where 2: "forward_frames fs s1 = Some (map (map (moved s0 ((cs @ d1) @ d2))) fs, s2)" "gc_inv s0 xs ((cs @ d1) @ d2) k None s2"
     "\<forall>f\<in>set fs. \<forall>p\<in>set f. ptr_in (set ((cs @ d1) @ d2)) p" "scan1 s2 = scan1 s1" "Symbols s2 = Symbols s1" "frames s2 = frames s1"
    using Cons.IH [OF Cons.prems(1) 1(2)] Cons.prems(3) by auto
  have "map (moved s0 ((cs @ d1) @ d2)) f = map (moved s0 (cs @ d1)) f" using 1(3) ren_append by (intro map_cong) blast+
  then show ?case
    using 1 2 by (intro exI [of _ "d1 @ d2"] exI [of _ s2]) (auto simp: ptr_in_def)
qed

lemma gc_inv_roots [simp]:
  "gc_inv s0 xs cs k cur (s\<lparr>Symbols := p\<rparr>) = gc_inv s0 xs cs k cur s"
  "gc_inv s0 xs cs k cur (s\<lparr>frames := fs\<rparr>) = gc_inv s0 xs cs k cur s"
  by (simp_all add: gc_inv_def same_block_def)

text \<open>After the roots have been forwarded.\<close>

lemma forward_root_objects_inv:
  assumes ready: "gc_ready s0 xs" and s0: "scan1 s0 = memory s0" "scan2 s0 = memory s0"
  shows "\<exists>cs s. forward_root_objects s0 = Some s \<and> gc_inv s0 xs cs 0 None s \<and> (\<forall>p\<in>roots s0. ptr_in (set cs) p) \<and>
     Symbols s = moved s0 cs (Symbols s0) \<and> frames s = map (map (moved s0 cs)) (frames s0)"
proof -
  have live: "ptr_in (set xs \<inter> reach (roots s0) (mem s0)) p" if "p \<in> roots s0" for p
    using ready that by (auto simp: gc_ready_def ptr_in_def intro: reach_root)
  have "gc_inv s0 xs [] 0 None s0" using s0 by (simp add: gc_inv_def)
  then obtain d1 s1 where 1: "forward (Symbols s0) s0 = Some (moved s0 d1 (Symbols s0), s1)" "gc_inv s0 xs d1 0 None s1"
     "ptr_in (set d1) (Symbols s0)" "frames s1 = frames s0"
    using forward_inv [OF ready, of "[]" 0 None s0 "Symbols s0"] live by (auto simp: roots_def)
  let ?s1 = "s1\<lparr>Symbols := moved s0 d1 (Symbols s0)\<rparr>"
  have inv1: "gc_inv s0 xs d1 0 None ?s1" using 1(2) by simp
  have "\<forall>f\<in>set (rev (frames s0)). \<forall>p\<in>set f. ptr_in (set xs \<inter> reach (roots s0) (mem s0)) p" using live by (auto simp: roots_def)
  then obtain d2 s2 where 2: "forward_frames (rev (frames s0)) ?s1 = Some (map (map (moved s0 (d1 @ d2))) (rev (frames s0)), s2)"
     "gc_inv s0 xs (d1 @ d2) 0 None s2" "\<forall>f\<in>set (rev (frames s0)). \<forall>p\<in>set f. ptr_in (set (d1 @ d2)) p" "Symbols s2 = Symbols ?s1"
    using forward_frames_inv [OF ready inv1] by blast
  have sym: "moved s0 (d1 @ d2) (Symbols s0) = moved s0 d1 (Symbols s0)" by (rule ren_append [OF 1(3)])
  show ?thesis
    using 1(1,3,4) 2 sym
    by (intro exI [of _ "d1 @ d2"] exI [of _ "s2\<lparr>frames := map (map (moved s0 (d1 @ d2))) (frames s0)\<rparr>"])
      (auto simp: forward_root_objects_def roots_def rev_map ptr_in_def)
qed

text \<open>Scanning one object.\<close>

lemma gc_inv_cur:
  assumes "gc_ready s0 xs" and "gc_inv s0 xs cs k cur s" and "k < length cs"
  shows "scan1 s = new s0 cs (cs ! k)" "scan1 s < scan2 s" "mem s (scan1 s) = Some (copy_of s0 cs k cur k)"
    "ob_size (copy_of s0 cs k cur k) = ob_size (old s0 (cs ! k))" "cs ! k \<in> set xs"
proof -
  have i: "distinct cs" "set cs \<subseteq> set xs" "scan2 s = memory s0 + sizes (mem s0) cs" "scan1 s = memory s0 + sizes (mem s0) (take k cs)"
    "\<forall>j<length cs. mem s (new s0 cs (cs ! j)) = Some (copy_of s0 cs k cur j)"
    using assms(2) by (simp_all add: gc_inv_def)
  show x: "cs ! k \<in> set xs" using i(2) assms(3) by auto
  show l: "scan1 s = new s0 cs (cs ! k)" using loc_nth [OF i(1) assms(3)] i(4) by simp
  show "mem s (scan1 s) = Some (copy_of s0 cs k cur k)" using i(5) assms(3) l by simp
  have "\<forall>a\<in>set cs. 0 < ob_size (old s0 a)" using gc_ready_facts(3) [OF assms(1)] i(2) by blast
  then show "scan1 s < scan2 s" using sizes_take_mono [OF assms(3) order_refl] i(3,4) by simp
  show "ob_size (copy_of s0 cs k cur k) = ob_size (old s0 (cs ! k))" by (simp add: copy_of_def Let_def split: option.split)
qed

lemma set_value_inv:
  assumes ready: "gc_ready s0 xs" and inv: "gc_inv s0 xs cs k cur s" and k: "k < length cs"
  shows "\<exists>s'. set_value (scan1 s) v s = Some s' \<and> gc_inv s0 xs cs k (Some v) s' \<and> scan1 s' = scan1 s \<and>
     Symbols s' = Symbols s \<and> frames s' = frames s"
proof -
  note c = gc_inv_cur [OF assms]
  have i: "distinct cs" "set cs \<subseteq> set xs" using inv by (simp_all add: gc_inv_def)
  have pos: "\<forall>a\<in>set cs. 0 < ob_size (old s0 a)" using gc_ready_facts(3) [OF ready] i(2) by blast
  define s' where "s' = s\<lparr>mem := (mem s)(scan1 s \<mapsto> (copy_of s0 cs k cur k)\<lparr>ob_value := v\<rparr>)\<rparr>"
  have notin: "scan1 s \<notin> set xs" using new_bounds(3) [OF ready i, of "cs ! k"] k c(1) by simp
  have other: "new s0 cs (cs ! j) \<noteq> scan1 s" if "j < length cs" "j \<noteq> k" for j
    using loc_inj [OF i(1) pos, of "cs ! j" "cs ! k" "memory s0"] that k i(1) c(1) by (auto simp: nth_eq_iff_index_eq)
  have "mem s' (new s0 cs (cs ! j)) = Some (copy_of s0 cs k (Some v) j)" if j: "j < length cs" for j
  proof (cases "j = k")
    case True
    then show ?thesis using c(1) by (auto simp: s'_def copy_of_def Let_def split: option.split)
  next
    case False
    have "copy_of s0 cs k cur j = copy_of s0 cs k (Some v) j" using False by (simp add: copy_of_def Let_def split: option.split)
    then show ?thesis using inv other [OF j False] j by (simp add: gc_inv_def s'_def)
  qed
  moreover have "mem s' a = mem s a" if "a \<in> set xs" for a using that notin by (auto simp: s'_def)
  moreover have "same_block s0 s'" "scan1 s' = scan1 s" "scan2 s' = scan2 s"
    using inv by (simp_all add: gc_inv_def same_block_def s'_def)
  ultimately have "gc_inv s0 xs cs k (Some v) s'"
    using inv i(2) unfolding gc_inv_def by auto
  then show ?thesis using c(3) by (simp add: set_value_def s'_def)
qed

lemma forward_field_inv:
  assumes ready: "gc_ready s0 xs" and inv: "gc_inv s0 xs cs k (Some v) s" and k: "k < length cs"
    and p: "ptr_in (set xs \<inter> reach (roots s0) (mem s0)) p"
  shows "\<exists>ds s1. forward p s = Some (moved s0 (cs @ ds) p, s1) \<and> ptr_in (set (cs @ ds)) p \<and>
     (\<forall>v'. \<exists>s'. set_value (scan1 s1) v' s1 = Some s' \<and> gc_inv s0 xs (cs @ ds) k (Some v') s' \<and> scan1 s' = scan1 s \<and>
        Symbols s' = Symbols s \<and> frames s' = frames s)"
proof -
  obtain ds s1 where 1: "forward p s = Some (moved s0 (cs @ ds) p, s1)" "gc_inv s0 xs (cs @ ds) k (Some v) s1"
     "ptr_in (set (cs @ ds)) p" "scan1 s1 = scan1 s" "Symbols s1 = Symbols s" "frames s1 = frames s"
    using forward_inv [OF ready inv p] k by blast
  have "k < length (cs @ ds)" using k by simp
  from set_value_inv [OF ready 1(2) this] 1 show ?thesis by (intro exI [of _ ds] exI [of _ s1]) auto
qed

lemma gc_inv_start:
  assumes "gc_inv s0 xs cs k None s" and "k < length cs"
  shows "gc_inv s0 xs cs k (Some (ob_value (old s0 (cs ! k)))) s"
proof -
  have "copy_of s0 cs k (Some (ob_value (old s0 (cs ! k)))) j = copy_of s0 cs k None j" for j
    by (simp add: copy_of_def Let_def)
  then show ?thesis using assms(1) by (simp add: gc_inv_def)
qed

lemma ren_append3: "ptr_in (set (cs @ d1)) p \<Longrightarrow> ren m b (cs @ d1 @ d2) p = ren m b (cs @ d1) p"
  using ren_append [of "cs @ d1" p m b d2] by simp

lemma ptr_in_mono: "ptr_in A p \<Longrightarrow> A \<subseteq> B \<Longrightarrow> ptr_in B p"
  by (auto simp: ptr_in_def)

text \<open>Two and three fields, whatever object they belong to.\<close>

lemma scan_two:
  assumes ready: "gc_ready s0 xs" and inv: "gc_inv s0 xs cs k (Some v) s" and k: "k < length cs"
    and p: "\<forall>p\<in>{x, y}. ptr_in (set xs \<inter> reach (roots s0) (mem s0)) p"
  shows "\<exists>ds s'. do { (x', s) \<leftarrow> forward x s; s \<leftarrow> set_value (scan1 s) (C x' y) s;
       (y', s) \<leftarrow> forward y s; set_value (scan1 s) (C x' y') s } = Some s' \<and>
     gc_inv s0 xs (cs @ ds) k (Some (C (moved s0 (cs @ ds) x) (moved s0 (cs @ ds) y))) s' \<and>
     (\<forall>p\<in>{x, y}. ptr_in (set (cs @ ds)) p) \<and> scan1 s' = scan1 s \<and> Symbols s' = Symbols s \<and> frames s' = frames s"
proof -
  obtain d1 s1 s2 where 1: "forward x s = Some (moved s0 (cs @ d1) x, s1)" "ptr_in (set (cs @ d1)) x"
     "set_value (scan1 s1) (C (moved s0 (cs @ d1) x) y) s1 = Some s2" "gc_inv s0 xs (cs @ d1) k (Some (C (moved s0 (cs @ d1) x) y)) s2"
     "scan1 s2 = scan1 s" "Symbols s2 = Symbols s" "frames s2 = frames s"
    using forward_field_inv [OF ready inv k, of x] p by blast
  have k1: "k < length (cs @ d1)" using k by simp
  obtain d2 s3 s4 where 2: "forward y s2 = Some (moved s0 ((cs @ d1) @ d2) y, s3)" "ptr_in (set ((cs @ d1) @ d2)) y"
     "set_value (scan1 s3) (C (moved s0 (cs @ d1) x) (moved s0 ((cs @ d1) @ d2) y)) s3 = Some s4"
     "gc_inv s0 xs ((cs @ d1) @ d2) k (Some (C (moved s0 (cs @ d1) x) (moved s0 ((cs @ d1) @ d2) y))) s4"
     "scan1 s4 = scan1 s2" "Symbols s4 = Symbols s2" "frames s4 = frames s2"
    using forward_field_inv [OF ready 1(4) k1, of y] p by blast
  have "ptr_in (set (cs @ d1 @ d2)) x" by (rule ptr_in_mono [OF 1(2)]) auto
  then show ?thesis
    using 1 2 ren_append3 [OF 1(2), of "mem s0" "memory s0" d2]
    by (intro exI [of _ "d1 @ d2"] exI [of _ s4]) (simp add: Un_assoc)
qed

lemma scan_three:
  assumes ready: "gc_ready s0 xs" and inv: "gc_inv s0 xs cs k (Some v) s" and k: "k < length cs"
    and p: "\<forall>p\<in>{x, y, z}. ptr_in (set xs \<inter> reach (roots s0) (mem s0)) p"
  shows "\<exists>ds s'. do { (x', s) \<leftarrow> forward x s; s \<leftarrow> set_value (scan1 s) (C x' y z) s;
       (y', s) \<leftarrow> forward y s; s \<leftarrow> set_value (scan1 s) (C x' y' z) s; (z', s) \<leftarrow> forward z s; set_value (scan1 s) (C x' y' z') s } = Some s' \<and>
     gc_inv s0 xs (cs @ ds) k (Some (C (moved s0 (cs @ ds) x) (moved s0 (cs @ ds) y) (moved s0 (cs @ ds) z))) s' \<and>
     (\<forall>p\<in>{x, y, z}. ptr_in (set (cs @ ds)) p) \<and> scan1 s' = scan1 s \<and> Symbols s' = Symbols s \<and> frames s' = frames s"
proof -
  obtain d1 s1 s2 where 1: "forward x s = Some (moved s0 (cs @ d1) x, s1)" "ptr_in (set (cs @ d1)) x"
     "set_value (scan1 s1) (C (moved s0 (cs @ d1) x) y z) s1 = Some s2" "gc_inv s0 xs (cs @ d1) k (Some (C (moved s0 (cs @ d1) x) y z)) s2"
     "scan1 s2 = scan1 s" "Symbols s2 = Symbols s" "frames s2 = frames s"
    using forward_field_inv [OF ready inv k, of x] p by blast
  have k1: "k < length (cs @ d1)" using k by simp
  obtain d2 s' where 2: "do { (y', s) \<leftarrow> forward y s2; s \<leftarrow> set_value (scan1 s) (C (moved s0 (cs @ d1) x) y' z) s;
       (z', s) \<leftarrow> forward z s; set_value (scan1 s) (C (moved s0 (cs @ d1) x) y' z') s } = Some s'"
     "gc_inv s0 xs ((cs @ d1) @ d2) k (Some (C (moved s0 (cs @ d1) x) (moved s0 ((cs @ d1) @ d2) y) (moved s0 ((cs @ d1) @ d2) z))) s'"
     "\<forall>p\<in>{y, z}. ptr_in (set ((cs @ d1) @ d2)) p" "scan1 s' = scan1 s2" "Symbols s' = Symbols s2" "frames s' = frames s2"
    using scan_two [OF ready 1(4) k1, of y z "C (moved s0 (cs @ d1) x)"] p by blast
  have "ptr_in (set (cs @ d1 @ d2)) x" by (rule ptr_in_mono [OF 1(2)]) auto
  then show ?thesis
    using 1 2 ren_append3 [OF 1(2), of "mem s0" "memory s0" d2]
    by (intro exI [of _ "d1 @ d2"] exI [of _ s']) (simp add: Un_assoc)
qed

lemma gc_scan_inv:
  assumes ready: "gc_ready s0 xs" and inv: "gc_inv s0 xs cs k None s" and k: "k < length cs"
  shows "\<exists>ds s'. gc_scan s = Some s' \<and>
     gc_inv s0 xs (cs @ ds) k (Some (map_value (moved s0 (cs @ ds)) (ob_value (old s0 (cs ! k))))) s' \<and>
     (\<forall>p\<in>set (ptrs (ob_value (old s0 (cs ! k)))). ptr_in (set (cs @ ds)) p) \<and>
     scan1 s' = scan1 s \<and> Symbols s' = Symbols s \<and> frames s' = frames s"
proof -
  note start = gc_inv_start [OF inv k] and c = gc_inv_cur [OF assms]
  let ?ob = "old s0 (cs ! k)"
  have ob: "mem s (scan1 s) = Some ?ob" using c(3) by (simp add: copy_of_def)
  have x: "mem s0 (cs ! k) = Some ?ob" "typed ?ob" using gc_ready_facts(3) [OF ready c(5)] by simp_all
  have r: "cs ! k \<in> reach (roots s0) (mem s0)" using inv k by (auto simp: gc_inv_def)
  have live: "\<forall>p\<in>set (ptrs (ob_value ?ob)). ptr_in (set xs \<inter> reach (roots s0) (mem s0)) p"
    using ready c(5) x(1) reach_field [OF r x(1)] by (fastforce simp: gc_ready_def objects_ok_def ptr_in_def)
  show ?thesis
  proof (cases "ob_value ?ob")
    case (Cell a b)
    then have "ob_type ?ob = TCELL" using x(2) by (simp add: typed_def)
    then show ?thesis using scan_two [OF ready start k, of a b Cell] live Cell ob by (simp add: gc_scan_def)
  next
    case (Frame a b)
    then have "ob_type ?ob = TENV" using x(2) by (simp add: typed_def)
    then show ?thesis using scan_two [OF ready start k, of a b Frame] live Frame ob by (simp add: gc_scan_def)
  next
    case (Lambda a b d)
    then have "ob_type ?ob = TFUNCTION \<or> ob_type ?ob = TMACRO" using x(2) by (simp add: typed_def)
    then show ?thesis using scan_three [OF ready start k, of a b d Lambda] live Lambda ob by (auto simp: gc_scan_def)
  qed (use x(2) ob start in \<open>auto simp: gc_scan_def typed_def intro!: exI [of _ "[]"]\<close>)
qed

lemma gc_inv_advance:
  assumes "gc_ready s0 xs" and "gc_inv s0 xs cs k (Some (map_value (moved s0 cs) (ob_value (old s0 (cs ! k))))) s" and k: "k < length cs"
    and "\<forall>p\<in>set (ptrs (ob_value (old s0 (cs ! k)))). ptr_in (set cs) p"
  shows "gc_inv s0 xs cs (Suc k) None (s\<lparr>scan1 := scan1 s + ob_size (old s0 (cs ! k))\<rparr>)"
proof -
  have "copy_of s0 cs k (Some (map_value (moved s0 cs) (ob_value (old s0 (cs ! k))))) j = copy_of s0 cs (Suc k) None j" for j
    by (simp add: copy_of_def map_obj_def less_Suc_eq Let_def)
  then show ?thesis
    using assms(2-4) by (auto simp: gc_inv_def same_block_def take_Suc_conv_app_nth less_Suc_eq)
qed

text \<open>The loop ends with everything that is reachable copied and scanned.\<close>

lemma gc_loop_inv:
  assumes "gc_ready s0 xs" and "gc_inv s0 xs cs k None s"
  shows "\<exists>ds s'. gc_loop s = Some s' \<and> gc_inv s0 xs (cs @ ds) (length (cs @ ds)) None s' \<and> Symbols s' = Symbols s \<and> frames s' = frames s"
  using assms(2)
proof (induction "length xs - k" arbitrary: cs k s rule: less_induct)
  case less
  have i: "distinct cs" "set cs \<subseteq> set xs" "k \<le> length cs" "scan2 s = memory s0 + sizes (mem s0) cs"
      "scan1 s = memory s0 + sizes (mem s0) (take k cs)"
    using less.prems by (simp_all add: gc_inv_def)
  have len: "length ys \<le> length xs" if "distinct ys" "set ys \<subseteq> set xs" for ys :: "nat list"
    using that gc_ready_facts(1) [OF assms(1)] by (metis card_mono distinct_card finite_set)
  show ?case
  proof (cases "k < length cs")
    case True
    note c = gc_inv_cur [OF assms(1) less.prems True]
    obtain ds s1 where s1: "gc_scan s = Some s1"
       "gc_inv s0 xs (cs @ ds) k (Some (map_value (moved s0 (cs @ ds)) (ob_value (old s0 (cs ! k))))) s1"
       "\<forall>p\<in>set (ptrs (ob_value (old s0 (cs ! k)))). ptr_in (set (cs @ ds)) p" "Symbols s1 = Symbols s" "frames s1 = frames s"
      using gc_scan_inv [OF assms(1) less.prems True] by blast
    have k: "k < length (cs @ ds)" "(cs @ ds) ! k = cs ! k" using True by (simp_all add: nth_append)
    note c1 = gc_inv_cur [OF assms(1) s1(2) k(1)]
    let ?s2 = "s1\<lparr>scan1 := scan1 s1 + ob_size (old s0 (cs ! k))\<rparr>"
    have s2: "gc_inv s0 xs (cs @ ds) (Suc k) None ?s2"
      using gc_inv_advance [OF assms(1) _ k(1), of s1] s1(2,3) k(2) by simp
    have "length xs - Suc k < length xs - k" using len [OF i(1,2)] True by simp
    then obtain es s' where "gc_loop ?s2 = Some s'" "gc_inv s0 xs ((cs @ ds) @ es) (length ((cs @ ds) @ es)) None s'"
       "Symbols s' = Symbols ?s2" "frames s' = frames ?s2"
      using less.hyps [OF _ s2] by blast
    moreover have "gc_loop s = gc_loop ?s2"
      using c(2) s1(1) c1(3,4) k(2) by (simp add: gc_loop.simps [of s])
    ultimately show ?thesis using s1(4,5) by (intro exI [of _ "ds @ es"]) auto
  next
    case False
    then have "k = length cs" using i(3) by simp
    moreover from this have "gc_loop s = Some s" using i(4,5) by (simp add: gc_loop.simps [of s])
    ultimately show ?thesis using less.prems by (intro exI [of _ "[]"] exI [of _ s]) simp
  qed
qed

lemma reach_closed:
  assumes "\<forall>p\<in>R. ptr_in A p" and "\<And>a ob p. a \<in> A \<Longrightarrow> m a = Some ob \<Longrightarrow> p \<in> set (ptrs (ob_value ob)) \<Longrightarrow> ptr_in A p"
  shows "reach R m \<subseteq> A"
proof
  fix a assume "a \<in> reach R m"
  then show "a \<in> A"
  proof induction
    case (reach_root a)
    then show ?case using assms(1) by (auto simp: ptr_in_def)
  next
    case (reach_field a ob b)
    then show ?case using assms(2) [of a ob "Ref b"] by simp
  qed
qed

text \<open>The copies fill the new space from its beginning.\<close>

lemma copies_tile:
  assumes "distinct cs" and "\<And>a. a \<in> set cs \<Longrightarrow> \<exists>ob. m' (loc m b cs a) = Some ob \<and> 0 < ob_size ob \<and> ob_size ob = ob_size (the (m a))"
  shows "n \<le> length cs \<Longrightarrow> tiles m' b (map (loc m b cs) (take n cs)) (b + sizes m (take n cs))"
proof (induction n)
  case (Suc n)
  have n: "n < length cs" "take (Suc n) cs = take n cs @ [cs ! n]" using Suc.prems by (simp_all add: take_Suc_conv_app_nth)
  have l: "loc m b cs (cs ! n) = b + sizes m (take n cs)" by (rule loc_nth [OF assms(1) n(1)])
  obtain ob where "m' (loc m b cs (cs ! n)) = Some ob" "0 < ob_size ob" "ob_size ob = ob_size (the (m (cs ! n)))"
    using assms(2) [of "cs ! n"] n(1) by auto
  then have "tiles m' (b + sizes m (take n cs)) [loc m b cs (cs ! n)] (b + sizes m (take (Suc n) cs))"
    using l n(2) by simp
  then show ?case using Suc.IH Suc.prems tiles_append n(2) by fastforce
qed simp

section \<open>What a collection does\<close>

definition rename :: "(nat \<Rightarrow> nat) \<Rightarrow> obj \<Rightarrow> obj" where
  "rename f p = (case p of Ref a \<Rightarrow> Ref (f a) | _ \<Rightarrow> p)"

lemma ren_rename: "ren m b cs = rename (loc m b cs)"
  by (rule ext) (simp add: ren_def rename_def)

abbreviation live :: "'a lisp_heap_scheme \<Rightarrow> nat set" where
  "live s \<equiv> reach (roots s) (mem s)"

text \<open>\<open>s'\<close> has the live part of \<open>s\<close>, at the addresses given by \<open>f\<close>.\<close>

definition moved_to :: "(nat \<Rightarrow> nat) \<Rightarrow> 'a lisp_heap_scheme \<Rightarrow> 'a lisp_heap_scheme \<Rightarrow> bool" where
  "moved_to f s s' \<longleftrightarrow> inj_on f (live s) \<and> Symbols s' = rename f (Symbols s) \<and> frames s' = map (map (rename f)) (frames s) \<and>
     (\<forall>a\<in>live s. mem s' (f a) = Some (map_obj (rename f) (the (mem s a))))"

definition block_kept :: "'a lisp_heap_scheme \<Rightarrow> 'a lisp_heap_scheme \<Rightarrow> bool" where
  "block_kept s s' \<longleftrightarrow> memory_size s' = memory_size s \<and> always_gc s' = always_gc s \<and> debug_gc s' = debug_gc s \<and>
     gc_running s' = gc_running s \<and> lisp_heap.more s' = lisp_heap.more s"

lemma live_subset: "heap_ok s xs \<Longrightarrow> live s \<subseteq> set xs"
  by (rule reach_closed) (auto simp: heap_ok_def objects_ok_def)

lemma gc_done:
  assumes ready: "gc_ready s0 xs" and inv: "gc_inv s0 xs cs (length cs) None s" and r: "\<forall>p\<in>roots s0. ptr_in (set cs) p"
  shows "set cs = live s0" "tiles (mem s) (memory s0) (map (new s0 cs) cs) (memory s0 + sizes (mem s0) cs)"
    "inj_on (new s0 cs) (set cs)" "\<And>a. a \<in> set cs \<Longrightarrow> mem s (new s0 cs a) = Some (map_obj (moved s0 cs) (old s0 a))"
    "objects_ok (set (map (new s0 cs) cs)) (mem s)"
proof -
  note f = gc_ready_facts [OF ready]
  have i: "distinct cs" "set cs \<subseteq> set xs" "set cs \<subseteq> live s0"
    "\<And>j p. j < length cs \<Longrightarrow> p \<in> set (ptrs (ob_value (old s0 (cs ! j)))) \<Longrightarrow> ptr_in (set cs) p"
    using inv by (auto simp: gc_inv_def)
  have closed: "ptr_in (set cs) p" if "a \<in> set cs" "p \<in> set (ptrs (ob_value (old s0 a)))" for a p
    using that i(4) by (metis in_set_conv_nth)
  have "live s0 \<subseteq> set cs" using r by (rule reach_closed) (use closed in fastforce)
  then show "set cs = live s0" using i(3) by blast
  show copy: "mem s (new s0 cs a) = Some (map_obj (moved s0 cs) (old s0 a))" if "a \<in> set cs" for a
    using that inv by (auto simp: gc_inv_def copy_of_def Let_def in_set_conv_nth)
  have "tiles (mem s) (memory s0) (map (new s0 cs) (take (length cs) cs)) (memory s0 + sizes (mem s0) (take (length cs) cs))"
    by (rule copies_tile [OF i(1)]) (use copy f(3) i(2) in auto)
  then show "tiles (mem s) (memory s0) (map (new s0 cs) cs) (memory s0 + sizes (mem s0) cs)" by simp
  have pos: "\<forall>a\<in>set cs. 0 < ob_size (old s0 a)" using f(3) i(2) by blast
  show "inj_on (new s0 cs) (set cs)" using loc_inj [OF i(1) pos] by (auto simp: inj_on_def)
  show "objects_ok (set (map (new s0 cs) cs)) (mem s)"
    unfolding objects_ok_def
  proof
    fix b assume "b \<in> set (map (new s0 cs) cs)"
    then obtain a where a: "a \<in> set cs" "b = new s0 cs a" by auto
    have "ptr_in (set (map (new s0 cs) cs)) (moved s0 cs p)" if "p \<in> set (ptrs (ob_value (old s0 a)))" for p
      using closed [OF a(1) that] by (cases p) (auto simp: ren_def)
    then show "\<exists>ob. mem s b = Some ob \<and> typed ob \<and> (\<forall>p\<in>set (ptrs (ob_value ob)). ptr_in (set (map (new s0 cs) cs)) p)"
      using copy [OF a(1)] a f(3) [of a] i(2) by (auto simp: map_obj_def typed_def split: obj_value.splits)
  qed
qed

text \<open>The two phases together.\<close>

lemma gc_phases:
  assumes ready: "gc_ready s0 xs" and s0: "scan1 s0 = memory s0" "scan2 s0 = memory s0"
  shows "\<exists>s1 cs s. forward_root_objects s0 = Some s1 \<and> gc_loop s1 = Some s \<and> gc_inv s0 xs cs (length cs) None s \<and>
     (\<forall>p\<in>roots s0. ptr_in (set cs) p) \<and> Symbols s = rename (new s0 cs) (Symbols s0) \<and> frames s = map (map (rename (new s0 cs))) (frames s0)"
proof -
  from forward_root_objects_inv [OF assms] obtain d1 s1 where 1: "forward_root_objects s0 = Some s1"
     "gc_inv s0 xs d1 0 None s1" "\<forall>p\<in>roots s0. ptr_in (set d1) p" "Symbols s1 = moved s0 d1 (Symbols s0)"
     "frames s1 = map (map (moved s0 d1)) (frames s0)" by blast
  from gc_loop_inv [OF ready 1(2)] obtain d2 s2 where 2: "gc_loop s1 = Some s2"
     "gc_inv s0 xs (d1 @ d2) (length (d1 @ d2)) None s2" "Symbols s2 = Symbols s1" "frames s2 = frames s1" by blast
  have eq: "moved s0 d1 p = moved s0 (d1 @ d2) p" if "p \<in> roots s0" for p
    using ren_append [of d1 p "mem s0" "memory s0" d2] 1(3) that by simp
  have "Symbols s2 = rename (new s0 (d1 @ d2)) (Symbols s0)" "frames s2 = map (map (rename (new s0 (d1 @ d2)))) (frames s0)"
    using 1(4,5) 2(3,4) eq by (auto simp: ren_rename roots_def)
  then show ?thesis using 1(1,3) 2(1,2) by (intro exI [of _ s1] exI [of _ "d1 @ d2"] exI [of _ s2]) (auto simp: ptr_in_def)
qed

lemma rename_ptr_in: "ptr_in A p \<Longrightarrow> ptr_in (f ` A) (rename f p)"
  by (cases p) (simp_all add: rename_def)

lemma gc_ok:
  assumes ok: "heap_ok s xs"
  shows "\<exists>s' f ys. gc s = Some s' \<and> heap_ok s' ys \<and> set ys = f ` live s \<and> moved_to f s s' \<and> block_kept s s' \<and>
     mem_nused s' = (\<Sum>a\<in>live s. ob_size (the (mem s a))) \<and> mem_nused s' \<le> mem_nused s \<and>
     (debug_gc s \<or> lisp_out s' = lisp_out s)"
proof -
  define s0 where "s0 = s\<lparr>gc_running := True, from_space := memory s, memory := next_heap s, next_heap := cur_heap s,
    cur_heap := next_heap s, scan1 := next_heap s, scan2 := next_heap s\<rparr>"
  have o: "mem_nused s \<le> memory_size s" "cur_heap s = memory s"
    "memory s + memory_size s \<le> next_heap s \<or> next_heap s + memory_size s \<le> memory s" "\<not> gc_running s"
    using ok by (simp_all add: heap_ok_def)
  have rs: "roots s0 = roots s" "mem s0 = mem s" by (simp_all add: s0_def roots_def)
  have ready: "gc_ready s0 xs" using ok rs by (auto simp: gc_ready_def heap_ok_def s0_def)
  have "scan1 s0 = memory s0" "scan2 s0 = memory s0" by (simp_all add: s0_def)
  from gc_phases [OF ready this] obtain s1 cs s2 where 2: "forward_root_objects s0 = Some s1" "gc_loop s1 = Some s2"
     "gc_inv s0 xs cs (length cs) None s2" "\<forall>p\<in>roots s0. ptr_in (set cs) p"
     "Symbols s2 = rename (new s0 cs) (Symbols s0)" "frames s2 = map (map (rename (new s0 cs))) (frames s0)" by blast
  note d = gc_done [OF ready 2(3,4)]
  let ?f = "new s0 cs"
  have i: "same_block s0 s2" "distinct cs" "set cs \<subseteq> set xs" "scan1 s2 = memory s0 + sizes (mem s0) cs"
    using 2(3) by (auto simp: gc_inv_def)
  note sb = same_block_fields [OF i(1)]
  have n: "scan1 s2 - memory s2 = sizes (mem s) cs" using i(4) sb(2) rs(2) by simp
  have le: "sizes (mem s) cs \<le> mem_nused s" using gc_ready_facts(4) [OF ready i(2,3)] by (simp add: s0_def)
  define s3 where "s3 = s2\<lparr>mem_nused := sizes (mem s) cs\<rparr>"
  define s' where "s' = (if debug_gc s3 then
       lisp_printf (''GC: '' @ show_nat (mem_nused s3) @ '' bytes out of '' @ show_nat (mem_nused s2) @ '' bytes copied.'' @ [CHR 0x0A]) s3
     else s3)\<lparr>gc_running := False\<rparr>"
  have run: "gc s = Some s'"
    using o(4) 2(1,2) n unfolding gc_def s0_def s'_def s3_def by simp
  have f': "mem s' = mem s2" "memory s' = next_heap s" "mem_nused s' = sizes (mem s) cs" "memory_size s' = memory_size s"
      "cur_heap s' = next_heap s" "next_heap s' = memory s" "\<not> gc_running s'" "Symbols s' = rename ?f (Symbols s)"
      "frames s' = map (map (rename ?f)) (frames s)" "always_gc s' = always_gc s" "debug_gc s' = debug_gc s"
      "lisp_heap.more s' = lisp_heap.more s" "debug_gc s \<or> lisp_out s' = lisp_out s"
    using sb o(2) 2(5,6) by (simp_all add: s'_def s3_def lisp_printf_def lisp_write_def) (simp_all add: s0_def)
  have "moved_to ?f s s'" using d(1,3,4) f'(1,8,9) rs by (auto simp: moved_to_def ren_rename)
  moreover have "heap_ok s' (map ?f cs)"
  proof -
    have "\<exists>q\<in>roots s. p = rename ?f q" if "p \<in> roots s'" for p using that f'(8,9) by (auto simp: roots_def)
    then have "ptr_in (set (map ?f cs)) p" if "p \<in> roots s'" for p using that 2(4) rs(1) rename_ptr_in [of "set cs"] by fastforce
    then show ?thesis
      unfolding heap_ok_def f'(1-6) using d(2,5) f'(7) o(1,3) le rs(2) by (auto simp: s0_def)
  qed
  moreover have "sizes (mem s) cs = (\<Sum>a\<in>live s. ob_size (the (mem s a)))"
    using d(1) rs sum_list_distinct_conv_sum_set [OF i(2)] by (simp add: sizes_def)
  moreover have "set (map ?f cs) = ?f ` live s" using d(1) rs by simp
  moreover have "block_kept s s'" using f' o(4) by (simp add: block_kept_def)
  ultimately show ?thesis using run f'(3,13) le by metis
qed

section \<open>What an allocation does\<close>

definition live_size :: "'a lisp_heap_scheme \<Rightarrow> nat" where
  "live_size s = (\<Sum>a\<in>live s. ob_size (the (mem s a)))"

text \<open>The bytes an object with contents of a given size takes.\<close>

definition obj_bytes :: "64 word \<Rightarrow> nat" where
  "obj_bytes sz = unat (roundup (roundup sz 8 + 8) 8)"

lemma rename_id [simp]: "rename id = id" "rename (\<lambda>a. a) = id"
  by (rule ext, simp add: rename_def split: obj.split)+

lemma map_obj_id [simp]: "map_obj id ob = ob"
proof -
  have "map_value id v = v" for v by (cases v) simp_all
  then show ?thesis by (simp add: map_obj_def)
qed

lemma heap_ok_object: "heap_ok s xs \<Longrightarrow> a \<in> set xs \<Longrightarrow> \<exists>ob. mem s a = Some ob \<and> typed ob \<and> (\<forall>p\<in>set (ptrs (ob_value ob)). ptr_in (set xs) p)"
  by (simp add: heap_ok_def objects_ok_def)

lemma moved_to_refl: "heap_ok s xs \<Longrightarrow> moved_to id s s"
  using live_subset [of s xs] heap_ok_object [of s xs] by (fastforce simp: moved_to_def)

lemma live_size_le: 
  assumes "heap_ok s xs"
  shows "live_size s \<le> mem_nused s"
proof -
  have t: "tiles (mem s) (memory s) xs (memory s + mem_nused s)" using assms by (simp add: heap_ok_def)
  have "live_size s \<le> (\<Sum>a\<in>set xs. ob_size (the (mem s a)))"
    unfolding live_size_def by (rule sum_mono2) (use live_subset [OF assms] in auto)
  also have "\<dots> = mem_nused s"
    using tiles_sizes [OF t] sum_list_distinct_conv_sum_set [OF tiles_distinct [OF t], symmetric] by (simp add: sizes_def)
  finally show ?thesis .
qed

lemma free_address:
  assumes "heap_ok s xs" shows "memory s + mem_nused s \<notin> set xs"
  using tiles_bounds [of "mem s" "memory s" xs "memory s + mem_nused s"] assms by (auto simp: heap_ok_def)

definition allocated :: "obj_type \<Rightarrow> nat \<Rightarrow> 'a lisp_heap_scheme \<Rightarrow> 'a lisp_heap_scheme" where
  "allocated ty n s = s\<lparr>mem := (mem s)(memory s + mem_nused s \<mapsto> \<lparr>ob_type = ty, ob_size = n, ob_value = Uninit\<rparr>),
     mem_nused := mem_nused s + n\<rparr>"

text \<open>Allocation fails exactly when the live objects leave no room; otherwise the new object follows the
  others, which may have been moved.\<close>

lemma alloc_ok:
  assumes ok: "heap_ok s xs" and n: "n = obj_bytes sz"
  shows "if memory_size s < live_size s + n then alloc ty sz s = None
     else \<exists>s1 f ys. alloc ty sz s = Some (memory s1 + mem_nused s1, allocated ty n s1) \<and> heap_ok s1 ys \<and> set ys \<supseteq> f ` live s \<and>
       moved_to f s s1 \<and> block_kept s s1 \<and> mem_nused s1 + n \<le> memory_size s1 \<and> (debug_gc s \<or> lisp_out s1 = lisp_out s)"
proof -
  obtain s' f ys where g: "gc s = Some s'" "heap_ok s' ys" "set ys = f ` live s" "moved_to f s s'" "block_kept s s'"
      "mem_nused s' = live_size s" "debug_gc s \<or> lisp_out s' = lisp_out s"
    using gc_ok [OF ok] unfolding live_size_def by blast
  have b: "memory_size s' = memory_size s" "always_gc s' = always_gc s" using g(5) by (simp_all add: block_kept_def)
  have run: "\<not> gc_running s" using ok by (simp add: heap_ok_def)
  have al: "alloc ty sz s = Option.bind (if always_gc s \<or> memory_size s < mem_nused s + n then gc s else Some s)
      (\<lambda>s. if memory_size s < mem_nused s + n then None else Some (memory s + mem_nused s, allocated ty n s))"
    using run b g(1) by (simp add: alloc_def n obj_bytes_def allocated_def Let_def)
  show ?thesis
  proof (cases "always_gc s \<or> memory_size s < mem_nused s + n")
    case True
    then have "alloc ty sz s = (if memory_size s < live_size s + n then None else Some (memory s' + mem_nused s', allocated ty n s'))"
      using al g(1,6) b(1) by simp
    then show ?thesis using g b(1) by (auto intro!: exI [of _ s'] exI [of _ f] exI [of _ ys])
  next
    case False
    then have "alloc ty sz s = Some (memory s + mem_nused s, allocated ty n s)" "\<not> memory_size s < live_size s + n"
      using al live_size_le [OF ok] by auto
    moreover have "block_kept s s" by (simp add: block_kept_def)
    ultimately show ?thesis
      using False ok moved_to_refl [OF ok] live_subset [OF ok] by (auto intro!: exI [of _ s] exI [of _ id] exI [of _ xs])
  qed
qed

text \<open>Giving the new object its contents.\<close>

lemma allocated_value:
  assumes ok: "heap_ok s xs" and n: "0 < n" "mem_nused s + n \<le> memory_size s"
    and v: "typed \<lparr>ob_type = ty, ob_size = n, ob_value = v\<rparr>" "\<forall>p\<in>set (ptrs v). ptr_in (set xs) p"
  shows "\<exists>s'. set_value (memory s + mem_nused s) v (allocated ty n s) = Some s' \<and> heap_ok s' (xs @ [memory s + mem_nused s]) \<and>
     s' = s\<lparr>mem := (mem s)(memory s + mem_nused s \<mapsto> \<lparr>ob_type = ty, ob_size = n, ob_value = v\<rparr>), mem_nused := mem_nused s + n\<rparr>"
proof -
  let ?a = "memory s + mem_nused s"
  define s' where "s' = s\<lparr>mem := (mem s)(?a \<mapsto> \<lparr>ob_type = ty, ob_size = n, ob_value = v\<rparr>), mem_nused := mem_nused s + n\<rparr>"
  have fr: "?a \<notin> set xs" by (rule free_address [OF ok])
  have o: "tiles (mem s) (memory s) xs ?a" "objects_ok (set xs) (mem s)" "\<forall>p\<in>roots s. ptr_in (set xs) p"
    using ok by (simp_all add: heap_ok_def)
  have "tiles (mem s') (memory s) xs ?a" by (rule tiles_cong [OF _ o(1)]) (use fr in \<open>auto simp: s'_def\<close>)
  moreover have "tiles (mem s') ?a [?a] (?a + n)" using n(1) by (simp add: s'_def)
  ultimately have t: "tiles (mem s') (memory s) (xs @ [?a]) (?a + n)" by (rule tiles_append)
  have up: "ptr_in (set (xs @ [?a])) p" if "ptr_in (set xs) p" for p using that by (auto simp: ptr_in_def)
  have "\<exists>ob. mem s' a = Some ob \<and> typed ob \<and> (\<forall>p\<in>set (ptrs (ob_value ob)). ptr_in (set (xs @ [?a])) p)" if "a \<in> set (xs @ [?a])" for a
  proof (cases "a = ?a")
    case True
    then show ?thesis using v up by (simp add: s'_def)
  next
    case False
    then have "a \<in> set xs" "mem s' a = mem s a" using that by (simp_all add: s'_def)
    then show ?thesis using o(2) up by (fastforce simp: objects_ok_def)
  qed
  then have "objects_ok (set (xs @ [?a])) (mem s')" by (simp add: objects_ok_def)
  moreover have "roots s' = roots s" by (simp add: roots_def s'_def)
  ultimately have "heap_ok s' (xs @ [?a])"
    using ok t n(2) up unfolding heap_ok_def by (auto simp: s'_def add.assoc)
  moreover have "set_value ?a v (allocated ty n s) = Some s'" by (simp add: set_value_def allocated_def s'_def)
  ultimately show ?thesis unfolding s'_def by blast
qed

section \<open>Sizes of objects\<close>

text \<open>Contents are rounded up to whole pointers and preceded by eight bytes for the tag and the size.\<close>

lemma and_minus_8: "unat (and y (- 8)) = unat y div 8 * 8" for y :: "64 word"
proof -
  have m: "(- 8 :: 64 word) = not (mask 3)" by (simp add: mask_eq_exp_minus_1)
  have "take_bit 3 y + and y (not (mask 3)) = or (take_bit 3 y) (and y (not (mask 3)))"
    by (rule disjunctive_add) (auto simp: bit_simps)
  also have "\<dots> = y" by (rule bit_word_eqI) (auto simp: bit_simps)
  finally have eq: "and y (not (mask 3)) = y - take_bit 3 y" by (simp add: algebra_simps)
  have t: "unat (take_bit 3 y) = unat y mod 8" by (subst unsigned_take_bit_eq) (simp add: take_bit_eq_mod)
  then have "unat (y - take_bit 3 y) = unat y - unat y mod 8" by (subst unat_sub) (simp_all add: word_le_nat_alt)
  then show ?thesis unfolding m eq by (simp add: minus_mod_eq_div_mult)
qed

lemma roundup_8: "unat x + 7 < 2 ^ 64 \<Longrightarrow> unat (roundup x 8) = (unat x + 7) div 8 * 8"
  by (simp add: roundup_def and_minus_8 unat_word_ariths)

lemma obj_bytes_eq:
  assumes "unat sz + 22 < 2 ^ 64"
  shows "obj_bytes sz = (unat sz + 7) div 8 * 8 + 8"
proof -
  have 1: "unat (roundup sz 8) = (unat sz + 7) div 8 * 8" using assms by (simp add: roundup_8)
  then have 2: "unat (roundup sz 8 + 8) = (unat sz + 7) div 8 * 8 + 8" using assms by (simp add: unat_word_ariths)
  show ?thesis unfolding obj_bytes_def using assms by (subst roundup_8) (simp_all add: 2)
qed

lemma obj_bytes_simps [simp]: "obj_bytes 4 = 16" "obj_bytes 8 = 16" "obj_bytes 16 = 24" "obj_bytes 24 = 32"
  by (simp_all add: obj_bytes_eq)
section \<open>What a constructor does\<close>

definition handle_ok :: "'a lisp_heap_scheme \<Rightarrow> handle \<Rightarrow> bool" where
  "handle_ok s h \<longleftrightarrow>
     (case h of
        Slot f i \<Rightarrow> f < length (frames s) \<and> i < length (frames s ! f)
      | SymbolsH \<Rightarrow> True
      | StaticH p \<Rightarrow> (\<forall>a. p \<noteq> Ref a))"

abbreviation contents :: "'a lisp_heap_scheme \<Rightarrow> handle \<Rightarrow> obj" where
  "contents s h \<equiv> the (deref h s)"

lemma deref_ok: "handle_ok s h \<Longrightarrow> deref h s = Some (contents s h)"
  by (auto simp: handle_ok_def deref_def split: handle.splits)

lemma handle_live:
  assumes "handle_ok s h" shows "ptr_in (live s) (contents s h)"
proof (cases h)
  case (Slot f i)
  then have "contents s h \<in> set (frames s ! f)" "frames s ! f \<in> set (frames s)" using assms by (simp_all add: handle_ok_def deref_def)
  then have "contents s h \<in> roots s" by (auto simp: roots_def)
  then show ?thesis by (auto simp: ptr_in_def intro: reach_root)
next
  case SymbolsH
  then have "contents s h \<in> roots s" by (simp add: deref_def roots_def)
  then show ?thesis by (auto simp: ptr_in_def intro: reach_root)
qed (use assms in \<open>simp add: handle_ok_def deref_def ptr_in_def\<close>)

lemma deref_valid: "heap_ok s xs \<Longrightarrow> handle_ok s h \<Longrightarrow> ptr_in (set xs) (contents s h)"
  using handle_live [of s h] live_subset [of s xs] by (blast intro: ptr_in_mono)

lemma deref_moved:
  assumes "moved_to f s s'" and "handle_ok s h"
  shows "handle_ok s' h" "contents s' h = rename f (contents s h)"
  using assms by (auto simp: moved_to_def handle_ok_def deref_def rename_def split: handle.splits obj.splits)

text \<open>All constructors allocate, read the handles of the fields, and fill in the new object.\<close>

definition construct :: "obj_type \<Rightarrow> 64 word \<Rightarrow> ('a lisp_heap_scheme \<Rightarrow> obj_value option) \<Rightarrow> 'a lisp_heap_scheme \<Rightarrow>
    (obj \<times> 'a lisp_heap_scheme) option" where
  "construct ty sz V s = do { (r, s) \<leftarrow> alloc ty sz s; v \<leftarrow> V s; s \<leftarrow> set_value r v s; Some (Ref r, s) }"

text \<open>The state after a constructor: a new object with these contents, everything else as before, perhaps moved.\<close>

definition constructed :: "obj_type \<Rightarrow> nat \<Rightarrow> obj_value \<Rightarrow> 'a lisp_heap_scheme \<Rightarrow> (nat \<Rightarrow> nat) \<Rightarrow> nat list \<Rightarrow> nat \<Rightarrow> 'a lisp_heap_scheme \<Rightarrow> bool" where
  "constructed ty n v s f ys a s' \<longleftrightarrow> heap_ok s' (ys @ [a]) \<and> f ` live s \<subseteq> set ys \<and> a \<notin> set ys \<and> moved_to f s s' \<and> block_kept s s' \<and>
     mem s' a = Some \<lparr>ob_type = ty, ob_size = n, ob_value = map_value (rename f) v\<rparr> \<and> (debug_gc s \<or> lisp_out s' = lisp_out s)"

definition built :: "(obj \<times> 'a lisp_heap_scheme) option \<Rightarrow> obj_type \<Rightarrow> nat \<Rightarrow> obj_value \<Rightarrow> 'a lisp_heap_scheme \<Rightarrow> bool" where
  "built r ty n v s \<longleftrightarrow> (if memory_size s < live_size s + n then r = None
     else \<exists>s' f ys a. r = Some (Ref a, s') \<and> constructed ty n v s f ys a s')"

lemma construct_ok:
  assumes ok: "heap_ok s xs" and n: "n = obj_bytes sz" "0 < n"
    and V: "\<And>s1 f. moved_to f s s1 \<Longrightarrow> V (allocated ty n s1) = Some (map_value (rename f) v)"
    and v: "typed \<lparr>ob_type = ty, ob_size = n, ob_value = v\<rparr>" "\<forall>p\<in>set (ptrs v). ptr_in (live s) p"
  shows "built (construct ty sz V s) ty n v s"
proof (cases "memory_size s < live_size s + n")
  case True
  then have "alloc ty sz s = None" using alloc_ok [OF ok n(1), of ty] by simp
  then show ?thesis using True by (simp add: construct_def built_def)
next
  case False
  then obtain s1 f ys where a: "alloc ty sz s = Some (memory s1 + mem_nused s1, allocated ty n s1)" "heap_ok s1 ys" "set ys \<supseteq> f ` live s"
      "moved_to f s s1" "block_kept s s1" "mem_nused s1 + n \<le> memory_size s1" "debug_gc s \<or> lisp_out s1 = lisp_out s"
    using alloc_ok [OF ok n(1), of ty] by auto
  let ?a = "memory s1 + mem_nused s1" and ?v = "map_value (rename f) v"
  have ty: "typed \<lparr>ob_type = ty, ob_size = n, ob_value = ?v\<rparr>" using v(1) typed_map_obj(1) [of "rename f" "\<lparr>ob_type = ty, ob_size = n, ob_value = v\<rparr>"] by (simp add: map_obj_def)
  have ps: "\<forall>p\<in>set (ptrs ?v). ptr_in (set ys) p" using v(2) ptr_in_mono [OF rename_ptr_in a(3)] by simp
  obtain s' where s': "set_value ?a ?v (allocated ty n s1) = Some s'" "heap_ok s' (ys @ [?a])"
      "s' = s1\<lparr>mem := (mem s1)(?a \<mapsto> \<lparr>ob_type = ty, ob_size = n, ob_value = ?v\<rparr>), mem_nused := mem_nused s1 + n\<rparr>"
    using allocated_value [OF a(2) n(2) a(6) ty ps] by blast
  have fr: "?a \<notin> set ys" by (rule free_address [OF a(2)])
  have "moved_to f s s'" using a(3,4) fr by (auto simp: s'(3) moved_to_def)
  moreover have "block_kept s s'" "debug_gc s \<or> lisp_out s' = lisp_out s" "mem s' ?a = Some \<lparr>ob_type = ty, ob_size = n, ob_value = ?v\<rparr>"
    using a(5,7) by (simp_all add: s'(3) block_kept_def)
  ultimately have "constructed ty n v s f ys ?a s'" using s'(2) a(3) fr by (simp add: constructed_def)
  moreover have "construct ty sz V s = Some (Ref ?a, s')" using a(1) V [OF a(4)] s'(1) by (simp add: construct_def)
  ultimately show ?thesis using False by (auto simp: built_def)
qed

lemma deref_allocated [simp]: "deref h (allocated ty n s) = deref h s"
  by (simp add: deref_def allocated_def split: handle.split)

lemma deref_after_move: "moved_to f s s1 \<Longrightarrow> handle_ok s h \<Longrightarrow> deref h s1 = Some (rename f (contents s h))"
  using deref_moved [of f s s1 h] deref_ok [of s1 h] by simp

lemmas construct_simps = typed_def deref_after_move handle_live

lemmas construct_defs = construct_def make_int_def make_primitive_def make_symbol_def cons_def make_env_def make_function_def

lemma make_int_ok: "heap_ok s xs \<Longrightarrow> built (make_int val s) TINT 16 (Value val) s"
  using construct_ok [of s xs 16 4 "\<lambda>s. Some (Value val)" TINT "Value val"] by (simp add: typed_def construct_defs)

lemma make_primitive_ok: "heap_ok s xs \<Longrightarrow> built (make_primitive fn s) TPRIMITIVE 16 (Fn fn) s"
  using construct_ok [of s xs 16 8 "\<lambda>s. Some (Fn fn)" TPRIMITIVE "Fn fn"] by (simp add: typed_def construct_defs)

lemma cons_ok:
  "heap_ok s xs \<Longrightarrow> handle_ok s car \<Longrightarrow> handle_ok s cdr \<Longrightarrow> built (cons car cdr s) TCELL 24 (Cell (contents s car) (contents s cdr)) s"
  using construct_ok [of s xs 24 16 "\<lambda>s. do { x \<leftarrow> deref car s; y \<leftarrow> deref cdr s; Some (Cell x y) }" TCELL "Cell (contents s car) (contents s cdr)"]
  by (simp add: construct_simps) (simp add: construct_defs)

lemma make_env_ok:
  "heap_ok s xs \<Longrightarrow> handle_ok s vars \<Longrightarrow> handle_ok s up \<Longrightarrow> built (make_env vars up s) TENV 24 (Frame (contents s vars) (contents s up)) s"
  using construct_ok [of s xs 24 16 "\<lambda>s. do { x \<leftarrow> deref vars s; y \<leftarrow> deref up s; Some (Frame x y) }" TENV "Frame (contents s vars) (contents s up)"]
  by (simp add: construct_simps) (simp add: construct_defs)

lemma make_function_ok:
  assumes "heap_ok s xs" and "handle_ok s env" and "handle_ok s params" and "handle_ok s body" and "ty = TFUNCTION \<or> ty = TMACRO"
  shows "built (make_function env ty params body s) ty 32 (Lambda (contents s params) (contents s body) (contents s env)) s"
  using construct_ok [of s xs 32 24 "\<lambda>s. do { x \<leftarrow> deref params s; y \<leftarrow> deref body s; z \<leftarrow> deref env s; Some (Lambda x y z) }" ty
    "Lambda (contents s params) (contents s body) (contents s env)"] assms
  by (simp add: construct_simps) (simp add: construct_defs)

lemma make_symbol_ok:
  assumes "heap_ok s xs" and "length name + 23 < 2 ^ 64"
  shows "built (make_symbol name s) TSYMBOL ((length name + 8) div 8 * 8 + 8) (Name name) s"
proof -
  let ?sz = "of_nat (length name) + 1 :: 64 word" and ?n = "(length name + 8) div 8 * 8 + 8"
  have "unat ?sz = length name + 1" using assms(2) by (simp add: unat_word_ariths unsigned_of_nat take_bit_eq_mod)
  then have "obj_bytes ?sz = ?n" using assms(2) by (subst obj_bytes_eq) simp_all
  then show ?thesis
    using construct_ok [OF assms(1), of ?n ?sz "\<lambda>s. Some (Name name)" TSYMBOL "Name name"] by (simp add: typed_def construct_defs)
qed

section \<open>Properties\<close>

text \<open>
  (C10) A garbage collection always ends. It moves exactly the objects that can be reached from the roots
  (the symbols and the frames on the C stack) into the other space, without gaps, at different
  addresses and with every pointer between them and from the roots redirected to the new address; the
  space in use is then the sum of their sizes, and memory is again well-formed: every object has the tag
  of its contents, and no pointer dangles.
\<close>

theorem gc_correct:
  assumes "heap_ok s xs"
  shows "\<exists>s' f ys. gc s = Some s' \<and> heap_ok s' ys \<and> set ys = f ` live s \<and> inj_on f (live s) \<and>
     Symbols s' = rename f (Symbols s) \<and> frames s' = map (map (rename f)) (frames s) \<and>
     (\<forall>a\<in>live s. mem s' (f a) = Some (map_obj (rename f) (the (mem s a)))) \<and>
     mem_nused s' = live_size s \<and> mem_nused s' \<le> mem_nused s \<and> memory_size s' = memory_size s"
proof -
  obtain s' f ys where "gc s = Some s'" "heap_ok s' ys" "set ys = f ` live s" "moved_to f s s'" "block_kept s s'"
     "mem_nused s' = live_size s" "mem_nused s' \<le> mem_nused s"
    using gc_ok [OF assms] unfolding live_size_def by blast
  then show ?thesis
    unfolding moved_to_def block_kept_def by (intro exI [of _ s'] exI [of _ f] exI [of _ ys]) simp
qed

definition demo_lisp :: lisp_heap where
  "demo_lisp = \<lparr>memory = 1000, from_space = 0, mem_nused = 56, cur_heap = 1000, next_heap = 2000, memory_size = 64,
     gc_running = False, debug_gc = False, always_gc = False, Symbols = Nil_obj,
     mem = [1000 \<mapsto> \<lparr>ob_type = TCELL, ob_size = 24, ob_value = Cell (Ref 1040) (Ref 1000)\<rparr>,
       1024 \<mapsto> \<lparr>ob_type = TINT, ob_size = 16, ob_value = Value 5\<rparr>,
       1040 \<mapsto> \<lparr>ob_type = TINT, ob_size = 16, ob_value = Value 7\<rparr>],
     scan1 = 0, scan2 = 0, frames = [[Ref 1000, Null_obj]], lisp_out = []\<rparr>"

lemma demo_lisp_ok: "heap_ok demo_lisp [1000, 1024, 1040]"
  by (simp add: heap_ok_def demo_lisp_def objects_ok_def roots_def typed_def)

lemma demo_lisp_live: "live demo_lisp = {1000, 1040}"
proof
  show "live demo_lisp \<subseteq> {1000, 1040}" by (rule reach_closed) (auto simp: demo_lisp_def roots_def split: if_splits)
  have "1000 \<in> live demo_lisp" by (rule reach_root) (simp add: demo_lisp_def roots_def)
  moreover from this have "1040 \<in> live demo_lisp"
    by (rule reach_field [of _ _ _ "\<lparr>ob_type = TCELL, ob_size = 24, ob_value = Cell (Ref 1040) (Ref 1000)\<rparr>"]) (simp_all add: demo_lisp_def)
  ultimately show "{1000, 1040} \<subseteq> live demo_lisp" by simp
qed

theorem gc_correct_witness: "\<exists>s'. gc demo_lisp = Some s' \<and> mem_nused s' = 40 \<and> (\<exists>ys. heap_ok s' ys)"
proof -
  have "live_size demo_lisp = 40" unfolding live_size_def demo_lisp_live by (simp add: demo_lisp_def)
  then show ?thesis using gc_correct [OF demo_lisp_ok] by auto
qed

text \<open>
  (C38) Making a cell ends the program with the memory exhausted exactly when the live objects and the cell do
  not fit into one space; whatever the collector does first, the cell is otherwise a new object that holds
  what the two handles hold, every other live object is kept, and memory stays well-formed.
\<close>

theorem cons_exact:
  assumes "heap_ok s xs" and "handle_ok s car" and "handle_ok s cdr"
  shows "if memory_size s < live_size s + 24 then cons car cdr s = None
     else \<exists>s' f ys a. cons car cdr s = Some (Ref a, s') \<and> heap_ok s' (ys @ [a]) \<and> f ` live s \<subseteq> set ys \<and> a \<notin> set ys \<and>
       moved_to f s s' \<and> mem s' a = Some \<lparr>ob_type = TCELL, ob_size = 24, ob_value = Cell (contents s' car) (contents s' cdr)\<rparr>"
  using cons_ok [OF assms] deref_moved(2) [OF _ assms(2)] deref_moved(2) [OF _ assms(3)] unfolding built_def constructed_def
  by (auto split: if_splits) blast+

theorem cons_exact_witness:
  "\<exists>s' a. cons (Slot 0 0) (StaticH Nil_obj) demo_lisp = Some (Ref a, s') \<and>
     (\<exists>p. mem s' a = Some \<lparr>ob_type = TCELL, ob_size = 24, ob_value = Cell p Nil_obj\<rparr>)"
proof -
  have "live_size demo_lisp = 40" unfolding live_size_def demo_lisp_live by (simp add: demo_lisp_def)
  moreover have "handle_ok demo_lisp (Slot 0 0)" "handle_ok demo_lisp (StaticH Nil_obj)" "memory_size demo_lisp = 64"
    by (simp_all add: handle_ok_def demo_lisp_def)
  ultimately show ?thesis using cons_exact [OF demo_lisp_ok, of "Slot 0 0" "StaticH Nil_obj"] by (auto simp: deref_def)
qed

end
