(* ===== verification/LispEval.thy ===== *)
theory LispEval
  imports LispHeap
begin

text \<open>
  The evaluator of the Lisp interpreter, \<^verbatim>\<open>src/kernel/minilisp.c\<close>: environments, function application, macros
  and the primitives, on the memory of \<open>LispHeap\<close>. A computation ends with a value or with a fault:
  \<^verbatim>\<open>error\<close> was called, an object does not have the member that is accessed (or the pointer is null), the
  pointer is to no object of the current space, the serial line gives no further input, or the fuel of the
  recursion is used up. Every recursive call and every pass of a loop takes one unit of fuel.
\<close>

section \<open>Computations\<close>

datatype lisp_fault = Error string | Bad_access | Dangling | No_input | No_fuel

record lisp_state = lisp_heap +
  nil_cdr :: obj   \<comment> \<open>the pointer in the static object of the empty list, which \<^verbatim>\<open>read_list\<close> may write\<close>
  gensym_count :: "32 word"
  lisp_in :: string   \<comment> \<open>what the serial line delivers\<close>
  sleeps :: "32 word list"   \<comment> \<open>the calls of \<^verbatim>\<open>Sleep\<close>, the latest first\<close>

type_synonym 'a lisp = "lisp_state \<Rightarrow> lisp_fault + ('a \<times> lisp_state)"

definition return :: "'a \<Rightarrow> 'a lisp" where
  "return x s = Inr (x, s)"

definition fail :: "lisp_fault \<Rightarrow> 'a lisp" where
  "fail e s = Inl e"

definition lbind :: "'a lisp \<Rightarrow> ('a \<Rightarrow> 'b lisp) \<Rightarrow> 'b lisp" where
  "lbind m f s = (case m s of Inl e \<Rightarrow> Inl e | Inr (x, s) \<Rightarrow> f x s)"

definition lisp_error :: "string \<Rightarrow> 'a lisp" where
  "lisp_error msg = fail (Error msg)"

text \<open>An allocating operation of \<open>LispHeap\<close> fails by calling \<^verbatim>\<open>error\<close>.\<close>

definition allocating :: "(lisp_state \<Rightarrow> ('a \<times> lisp_state) option) \<Rightarrow> 'a lisp" where
  "allocating c s = (case c s of None \<Rightarrow> Inl (Error ''Memory exhausted'') | Some r \<Rightarrow> Inr r)"

definition write_str :: "string \<Rightarrow> unit lisp" where
  "write_str buf s = Inr ((), lisp_write buf s)"

definition printf :: "string \<Rightarrow> unit lisp" where
  "printf txt s = Inr ((), lisp_printf txt s)"

section \<open>Roots and handles\<close>

text \<open>\<^verbatim>\<open>DEFINE1\<close> to \<^verbatim>\<open>DEFINE4\<close>: a frame of null pointers on the C stack, for the rest of the function; the slots
  of the frame are \<open>Slot k 0\<close>, \<open>Slot k 1\<close> and so on, for the number \<open>k\<close> of frames that the caller has.\<close>

definition DEFINE :: "nat \<Rightarrow> (nat \<Rightarrow> 'a lisp) \<Rightarrow> 'a lisp" where
  "DEFINE n body s =
     (case body (length (frames s)) (s\<lparr>frames := frames s @ [replicate n Null_obj]\<rparr>) of
        Inl e \<Rightarrow> Inl e
      | Inr (r, s) \<Rightarrow> Inr (r, s\<lparr>frames := butlast (frames s)\<rparr>))"

definition get :: "handle \<Rightarrow> obj lisp" where
  "get h s = (case deref h s of None \<Rightarrow> Inl Dangling | Some p \<Rightarrow> Inr (p, s))"

definition put :: "handle \<Rightarrow> obj \<Rightarrow> unit lisp" where
  "put h p s = (case store h p s of None \<Rightarrow> Inl Dangling | Some s \<Rightarrow> Inr ((), s))"

section \<open>Access to objects\<close>

text \<open>Is there an object at an address? The objects follow one another from the beginning of the space.\<close>

function object_at :: "(nat \<rightharpoonup> Obj) \<Rightarrow> nat \<Rightarrow> nat \<Rightarrow> nat \<Rightarrow> bool" where
  "object_at m a b x =
     (if a < b then
        (case m a of
           None \<Rightarrow> False
         | Some ob \<Rightarrow> if 0 < ob_size ob then a = x \<or> object_at m (a + ob_size ob) b x else False)
      else False)"
  by auto
termination by (relation "measure (\<lambda>(m, a, b, x). b - a)") auto

declare object_at.simps [simp del]

definition in_heap :: "nat \<Rightarrow> 'a lisp_heap_scheme \<Rightarrow> bool" where
  "in_heap a s \<longleftrightarrow> object_at (mem s) (memory s) (memory s + mem_nused s) a"

definition type_of :: "obj \<Rightarrow> obj_type lisp" where
  "type_of p s =
     (case p of
        Null_obj \<Rightarrow> Inl Bad_access
      | True_obj \<Rightarrow> Inr (TTRUE, s)
      | Nil_obj \<Rightarrow> Inr (TNIL, s)
      | Dot_obj \<Rightarrow> Inr (TDOT, s)
      | Cparen_obj \<Rightarrow> Inr (TCPAREN, s)
      | Ref a \<Rightarrow> if in_heap a s then Inr (ob_type (the (mem s a)), s) else Inl Dangling)"

definition value_of :: "obj \<Rightarrow> obj_value lisp" where
  "value_of p s =
     (case p of Ref a \<Rightarrow> if in_heap a s then Inr (ob_value (the (mem s a)), s) else Inl Dangling | _ \<Rightarrow> Inl Bad_access)"

definition set_contents :: "obj \<Rightarrow> obj_value \<Rightarrow> unit lisp" where
  "set_contents p v s =
     (case p of
        Ref a \<Rightarrow> if in_heap a s then Inr ((), s\<lparr>mem := (mem s)(a \<mapsto> (the (mem s a))\<lparr>ob_value := v\<rparr>)\<rparr>) else Inl Dangling
      | _ \<Rightarrow> Inl Bad_access)"

text \<open>The static objects have null pointers as members, except that the \<^verbatim>\<open>cdr\<close> of the empty list may have been
  written; the collector does not know that pointer, and reading it is a fault.\<close>

definition car :: "obj \<Rightarrow> obj lisp" where
  "car p =
     (case p of
        Null_obj \<Rightarrow> fail Bad_access
      | Ref a \<Rightarrow> lbind (value_of p) (\<lambda>v. case v of Cell x y \<Rightarrow> return x | _ \<Rightarrow> fail Bad_access)
      | _ \<Rightarrow> return Null_obj)"

definition cdr :: "obj \<Rightarrow> obj lisp" where
  "cdr p =
     (case p of
        Null_obj \<Rightarrow> fail Bad_access
      | Ref a \<Rightarrow> lbind (value_of p) (\<lambda>v. case v of Cell x y \<Rightarrow> return y | _ \<Rightarrow> fail Bad_access)
      | Nil_obj \<Rightarrow> (\<lambda>s. if nil_cdr s = Null_obj then Inr (Null_obj, s) else Inl Bad_access)
      | _ \<Rightarrow> return Null_obj)"

definition set_car :: "obj \<Rightarrow> obj \<Rightarrow> unit lisp" where
  "set_car p x = lbind (value_of p) (\<lambda>v. case v of Cell x' y \<Rightarrow> set_contents p (Cell x y) | _ \<Rightarrow> fail Bad_access)"

definition set_cdr :: "obj \<Rightarrow> obj \<Rightarrow> unit lisp" where
  "set_cdr p y =
     (case p of
        Nil_obj \<Rightarrow> (\<lambda>s. Inr ((), s\<lparr>nil_cdr := y\<rparr>))
      | _ \<Rightarrow> lbind (value_of p) (\<lambda>v. case v of Cell x y' \<Rightarrow> set_contents p (Cell x y) | _ \<Rightarrow> fail Bad_access))"

definition int_value :: "obj \<Rightarrow> 32 word lisp" where
  "int_value p = lbind (value_of p) (\<lambda>v. case v of Value i \<Rightarrow> return i | _ \<Rightarrow> fail Bad_access)"

definition name_of :: "obj \<Rightarrow> string lisp" where
  "name_of p = lbind (value_of p) (\<lambda>v. case v of Name n \<Rightarrow> return n | _ \<Rightarrow> fail Bad_access)"

definition fn_of :: "obj \<Rightarrow> primitive lisp" where
  "fn_of p = lbind (value_of p) (\<lambda>v. case v of Fn f \<Rightarrow> return f | _ \<Rightarrow> fail Bad_access)"

definition params_of :: "obj \<Rightarrow> obj lisp" where
  "params_of p = lbind (value_of p) (\<lambda>v. case v of Lambda x y z \<Rightarrow> return x | _ \<Rightarrow> fail Bad_access)"

definition body_of :: "obj \<Rightarrow> obj lisp" where
  "body_of p = lbind (value_of p) (\<lambda>v. case v of Lambda x y z \<Rightarrow> return y | _ \<Rightarrow> fail Bad_access)"

definition env_of :: "obj \<Rightarrow> obj lisp" where
  "env_of p = lbind (value_of p) (\<lambda>v. case v of Lambda x y z \<Rightarrow> return z | _ \<Rightarrow> fail Bad_access)"

definition vars_of :: "obj \<Rightarrow> obj lisp" where
  "vars_of p = lbind (value_of p) (\<lambda>v. case v of Frame x y \<Rightarrow> return x | _ \<Rightarrow> fail Bad_access)"

definition up_of :: "obj \<Rightarrow> obj lisp" where
  "up_of p = lbind (value_of p) (\<lambda>v. case v of Frame x y \<Rightarrow> return y | _ \<Rightarrow> fail Bad_access)"

definition set_vars :: "obj \<Rightarrow> obj \<Rightarrow> unit lisp" where
  "set_vars p x = lbind (value_of p) (\<lambda>v. case v of Frame x' y \<Rightarrow> set_contents p (Frame x y) | _ \<Rightarrow> fail Bad_access)"

section \<open>Lists\<close>

definition acons :: "handle \<Rightarrow> handle \<Rightarrow> handle \<Rightarrow> obj lisp" where
  "acons x y a = DEFINE 1 (\<lambda>k. let cell = Slot k 0 in
     lbind (allocating (cons x y)) (\<lambda>p. lbind (put cell p) (\<lambda>_. allocating (cons cell a))))"

primrec reverse_loop :: "nat \<Rightarrow> obj \<Rightarrow> obj \<Rightarrow> obj lisp" where
  "reverse_loop 0 p ret = fail No_fuel"
| "reverse_loop (Suc n) p ret =
     (if p = Nil_obj then return ret
      else lbind (cdr p) (\<lambda>next_p. lbind (set_cdr p ret) (\<lambda>_. reverse_loop n next_p p)))"

definition reverse :: "nat \<Rightarrow> obj \<Rightarrow> obj lisp" where
  "reverse n p = reverse_loop n p Nil_obj"

primrec length_loop :: "nat \<Rightarrow> obj \<Rightarrow> int \<Rightarrow> int lisp" where
  "length_loop 0 list len = fail No_fuel"
| "length_loop (Suc n) list len =
     lbind (type_of list) (\<lambda>t.
     if t = TCELL then lbind (cdr list) (\<lambda>d. length_loop n d (len + 1))
     else return (if list = Nil_obj then len else - 1))"

definition lisp_length :: "nat \<Rightarrow> obj \<Rightarrow> int lisp" where
  "lisp_length n list = length_loop n list 0"

definition is_list :: "obj \<Rightarrow> bool lisp" where
  "is_list p = (if p = Nil_obj then return True else lbind (type_of p) (\<lambda>t. return (t = TCELL)))"

section \<open>Printing\<close>

definition show_int :: "32 word \<Rightarrow> string" where
  "show_int v = (if sint v < 0 then CHR ''-'' # show_nat (nat (- sint v)) else show_nat (nat (sint v)))"

text \<open>\<open>print_cells\<close> is the loop over the cells of a list.\<close>

fun lisp_print :: "nat \<Rightarrow> obj \<Rightarrow> unit lisp" and print_cells :: "nat \<Rightarrow> obj \<Rightarrow> unit lisp" where
  "lisp_print 0 p = fail No_fuel"
| "print_cells 0 p = fail No_fuel"
| "lisp_print (Suc n) p =
     lbind (type_of p) (\<lambda>t.
     case t of
       TCELL \<Rightarrow> lbind (write_str ''('') (\<lambda>_. lbind (print_cells n p) (\<lambda>_. write_str '')''))
     | TINT \<Rightarrow> lbind (int_value p) (\<lambda>v. printf (show_int v))
     | TSYMBOL \<Rightarrow> lbind (name_of p) printf
     | TPRIMITIVE \<Rightarrow> printf ''<primitive>''
     | TFUNCTION \<Rightarrow> printf ''<function>''
     | TMACRO \<Rightarrow> printf ''<macro>''
     | TMOVED \<Rightarrow> printf ''<moved>''
     | TTRUE \<Rightarrow> printf ''t''
     | TNIL \<Rightarrow> printf ''()''
     | _ \<Rightarrow> lisp_error ''Bug: print: Unknown tag type: %d'')"
| "print_cells (Suc n) p =
     lbind (car p) (\<lambda>x. lbind (lisp_print n x) (\<lambda>_. lbind (cdr p) (\<lambda>y.
     if y = Nil_obj then return ()
     else lbind (type_of y) (\<lambda>t.
       if t \<noteq> TCELL then lbind (write_str '' . '') (\<lambda>_. lisp_print n y)
       else lbind (write_str '' '') (\<lambda>_. print_cells n y)))))"

section \<open>Environments and application\<close>

type_synonym evaluator = "handle \<Rightarrow> handle \<Rightarrow> obj lisp"

definition add_variable :: "handle \<Rightarrow> handle \<Rightarrow> handle \<Rightarrow> unit lisp" where
  "add_variable env symb val = DEFINE 2 (\<lambda>k. let vars = Slot k 0; tmp = Slot k 1 in
     lbind (get env) (\<lambda>e. lbind (vars_of e) (\<lambda>v. lbind (put vars v) (\<lambda>_.
     lbind (acons symb val vars) (\<lambda>p. lbind (put tmp p) (\<lambda>_.
     lbind (get env) (\<lambda>e. lbind (get tmp) (\<lambda>p. set_vars e p))))))))"

primrec push_env_loop :: "nat \<Rightarrow> handle \<Rightarrow> handle \<Rightarrow> handle \<Rightarrow> handle \<Rightarrow> handle \<Rightarrow> unit lisp" where
  "push_env_loop 0 vars vals mp symb val = fail No_fuel"
| "push_env_loop (Suc n) vars vals mp symb val =
     lbind (get vars) (\<lambda>p. lbind (type_of p) (\<lambda>t.
     if t = TCELL then
       lbind (get vals) (\<lambda>q. lbind (type_of q) (\<lambda>u.
       if u \<noteq> TCELL then lisp_error ''Cannot apply function: number of argument does not match''
       else
         lbind (car p) (\<lambda>x. lbind (put symb x) (\<lambda>_.
         lbind (get vals) (\<lambda>q. lbind (car q) (\<lambda>y. lbind (put val y) (\<lambda>_.
         lbind (acons symb val mp) (\<lambda>m. lbind (put mp m) (\<lambda>_.
         lbind (get vars) (\<lambda>p. lbind (cdr p) (\<lambda>p. lbind (put vars p) (\<lambda>_.
         lbind (get vals) (\<lambda>q. lbind (cdr q) (\<lambda>q. lbind (put vals q) (\<lambda>_.
         push_env_loop n vars vals mp symb val)))))))))))))))
     else return ()))"

definition push_env :: "nat \<Rightarrow> handle \<Rightarrow> handle \<Rightarrow> handle \<Rightarrow> obj lisp" where
  "push_env n env vars vals = DEFINE 3 (\<lambda>k. let mp = Slot k 0; symb = Slot k 1; val = Slot k 2 in
     lbind (put mp Nil_obj) (\<lambda>_.
     lbind (push_env_loop n vars vals mp symb val) (\<lambda>_.
     lbind (get vars) (\<lambda>p.
     lbind (if p \<noteq> Nil_obj then lbind (acons vars vals mp) (put mp) else return ()) (\<lambda>_.
     allocating (make_env mp env))))))"

primrec progn_loop :: "evaluator \<Rightarrow> nat \<Rightarrow> handle \<Rightarrow> handle \<Rightarrow> handle \<Rightarrow> unit lisp" where
  "progn_loop ev 0 env lp r = fail No_fuel"
| "progn_loop ev (Suc n) env lp r =
     lbind (get lp) (\<lambda>p.
     if p = Nil_obj then return ()
     else
       lbind (car p) (\<lambda>x. lbind (put r x) (\<lambda>_.
       lbind (ev env r) (\<lambda>x. lbind (put r x) (\<lambda>_.
       lbind (get lp) (\<lambda>p. lbind (cdr p) (\<lambda>p. lbind (put lp p) (\<lambda>_.
       progn_loop ev n env lp r))))))))"

definition progn :: "evaluator \<Rightarrow> nat \<Rightarrow> handle \<Rightarrow> handle \<Rightarrow> obj lisp" where
  "progn ev n env list = DEFINE 2 (\<lambda>k. let lp = Slot k 0; r = Slot k 1 in
     lbind (get list) (\<lambda>p. lbind (put lp p) (\<lambda>_. lbind (progn_loop ev n env lp r) (\<lambda>_. get r))))"

text \<open>The loop variable \<^verbatim>\<open>lp\<close> is set to \<^verbatim>\<open>list\<close> itself, so the caller's slot moves along the list.\<close>

primrec eval_list_loop :: "evaluator \<Rightarrow> nat \<Rightarrow> handle \<Rightarrow> handle \<Rightarrow> handle \<Rightarrow> handle \<Rightarrow> handle \<Rightarrow> unit lisp" where
  "eval_list_loop ev 0 env lp head expr result = fail No_fuel"
| "eval_list_loop ev (Suc n) env lp head expr result =
     lbind (get lp) (\<lambda>p.
     if p = Nil_obj then return ()
     else
       lbind (car p) (\<lambda>x. lbind (put expr x) (\<lambda>_.
       lbind (ev env expr) (\<lambda>x. lbind (put result x) (\<lambda>_.
       lbind (allocating (cons result head)) (\<lambda>h. lbind (put head h) (\<lambda>_.
       lbind (get lp) (\<lambda>p. lbind (cdr p) (\<lambda>p. lbind (put lp p) (\<lambda>_.
       eval_list_loop ev n env lp head expr result))))))))))"

definition eval_list :: "evaluator \<Rightarrow> nat \<Rightarrow> handle \<Rightarrow> handle \<Rightarrow> obj lisp" where
  "eval_list ev n env list = DEFINE 4 (\<lambda>k. let head = Slot k 0; lp = Slot k 1; expr = Slot k 2; result = Slot k 3 in
     lbind (put head Nil_obj) (\<lambda>_.
     let lp = list in
     lbind (eval_list_loop ev n env lp head expr result) (\<lambda>_.
     lbind (get head) (\<lambda>h. reverse n h))))"

definition apply_func :: "evaluator \<Rightarrow> nat \<Rightarrow> handle \<Rightarrow> handle \<Rightarrow> handle \<Rightarrow> obj lisp" where
  "apply_func ev n env fn args = DEFINE 3 (\<lambda>k. let params = Slot k 0; newenv = Slot k 1; body = Slot k 2 in
     lbind (get fn) (\<lambda>f. lbind (params_of f) (\<lambda>x. lbind (put params x) (\<lambda>_.
     lbind (get fn) (\<lambda>f. lbind (env_of f) (\<lambda>x. lbind (put newenv x) (\<lambda>_.
     lbind (push_env n newenv params args) (\<lambda>x. lbind (put newenv x) (\<lambda>_.
     lbind (get fn) (\<lambda>f. lbind (body_of f) (\<lambda>x. lbind (put body x) (\<lambda>_.
     progn ev n newenv body))))))))))))"

primrec find_in :: "nat \<Rightarrow> obj \<Rightarrow> obj \<Rightarrow> obj lisp" where
  "find_in 0 cell symb = fail No_fuel"
| "find_in (Suc n) cell symb =
     (if cell = Nil_obj then return Null_obj
      else lbind (car cell) (\<lambda>bind. lbind (car bind) (\<lambda>x.
        if symb = x then return bind else lbind (cdr cell) (\<lambda>cell. find_in n cell symb))))"

primrec find_loop :: "nat \<Rightarrow> obj \<Rightarrow> obj \<Rightarrow> obj lisp" where
  "find_loop 0 p symb = fail No_fuel"
| "find_loop (Suc n) p symb =
     (if p = Nil_obj then return Null_obj
      else lbind (vars_of p) (\<lambda>cell. lbind (find_in n cell symb) (\<lambda>bind.
        if bind \<noteq> Null_obj then return bind else lbind (up_of p) (\<lambda>p. find_loop n p symb))))"

definition lisp_find :: "nat \<Rightarrow> handle \<Rightarrow> obj \<Rightarrow> obj lisp" where
  "lisp_find n env symb = lbind (get env) (\<lambda>p. find_loop n p symb)"

definition macroexpand :: "evaluator \<Rightarrow> nat \<Rightarrow> handle \<Rightarrow> handle \<Rightarrow> obj lisp" where
  "macroexpand ev n env obj =
     lbind (get obj) (\<lambda>p. lbind (type_of p) (\<lambda>t.
     if t \<noteq> TCELL then return p
     else lbind (car p) (\<lambda>x. lbind (type_of x) (\<lambda>u.
       if u \<noteq> TSYMBOL then return p
       else DEFINE 3 (\<lambda>k. let bind = Slot k 0; macro = Slot k 1; args = Slot k 2 in
         lbind (lisp_find n env x) (\<lambda>b. lbind (put bind b) (\<lambda>_.
         if b = Null_obj then get obj
         else lbind (cdr b) (\<lambda>m. lbind (type_of m) (\<lambda>w.
           if w \<noteq> TMACRO then get obj
           else
             lbind (put macro m) (\<lambda>_.
             lbind (get obj) (\<lambda>p. lbind (cdr p) (\<lambda>a. lbind (put args a) (\<lambda>_.
             apply_func ev n env macro args)))))))))))))"

section \<open>Primitive functions and special forms\<close>

definition prim_quote :: "evaluator \<Rightarrow> nat \<Rightarrow> handle \<Rightarrow> handle \<Rightarrow> obj lisp" where
  "prim_quote ev n env list =
     lbind (get list) (\<lambda>l. lbind (lisp_length n l) (\<lambda>len.
     if len \<noteq> 1 then lisp_error ''Malformed quote'' else car l))"

definition prim_cons :: "evaluator \<Rightarrow> nat \<Rightarrow> handle \<Rightarrow> handle \<Rightarrow> obj lisp" where
  "prim_cons ev n env list =
     lbind (get list) (\<lambda>l. lbind (lisp_length n l) (\<lambda>len.
     if len \<noteq> 2 then lisp_error ''Malformed cons''
     else
       lbind (eval_list ev n env list) (\<lambda>cell.
       lbind (cdr cell) (\<lambda>d. lbind (car d) (\<lambda>y. lbind (set_cdr cell y) (\<lambda>_. return cell))))))"

definition prim_car :: "evaluator \<Rightarrow> nat \<Rightarrow> handle \<Rightarrow> handle \<Rightarrow> obj lisp" where
  "prim_car ev n env list =
     lbind (eval_list ev n env list) (\<lambda>args.
     lbind (car args) (\<lambda>x. lbind (type_of x) (\<lambda>t. lbind (cdr args) (\<lambda>d.
     if t \<noteq> TCELL \<or> d \<noteq> Nil_obj then lisp_error ''Malformed car'' else car x))))"

definition prim_cdr :: "evaluator \<Rightarrow> nat \<Rightarrow> handle \<Rightarrow> handle \<Rightarrow> obj lisp" where
  "prim_cdr ev n env list =
     lbind (eval_list ev n env list) (\<lambda>args.
     lbind (car args) (\<lambda>x. lbind (type_of x) (\<lambda>t. lbind (cdr args) (\<lambda>d.
     if t \<noteq> TCELL \<or> d \<noteq> Nil_obj then lisp_error ''Malformed cdr'' else cdr x))))"

definition prim_setq :: "evaluator \<Rightarrow> nat \<Rightarrow> handle \<Rightarrow> handle \<Rightarrow> obj lisp" where
  "prim_setq ev n env list =
     lbind (get list) (\<lambda>l. lbind (lisp_length n l) (\<lambda>len.
     if len \<noteq> 2 then lisp_error ''Malformed setq''
     else lbind (car l) (\<lambda>x. lbind (type_of x) (\<lambda>t.
       if t \<noteq> TSYMBOL then lisp_error ''Malformed setq''
       else DEFINE 2 (\<lambda>k. let bind = Slot k 0; val = Slot k 1 in
         lbind (lisp_find n env x) (\<lambda>b. lbind (put bind b) (\<lambda>_.
         if b = Null_obj then lisp_error ''Unbound variable %s''
         else
           lbind (get list) (\<lambda>l. lbind (cdr l) (\<lambda>d. lbind (car d) (\<lambda>v. lbind (put val v) (\<lambda>_.
           lbind (ev env val) (\<lambda>v. lbind (put val v) (\<lambda>_.
           lbind (get bind) (\<lambda>b. lbind (get val) (\<lambda>v. lbind (set_cdr b v) (\<lambda>_. get val))))))))))))))))"

definition prim_setcar :: "evaluator \<Rightarrow> nat \<Rightarrow> handle \<Rightarrow> handle \<Rightarrow> obj lisp" where
  "prim_setcar ev n env list = DEFINE 1 (\<lambda>k. let args = Slot k 0 in
     lbind (eval_list ev n env list) (\<lambda>a. lbind (put args a) (\<lambda>_.
     lbind (lisp_length n a) (\<lambda>len.
     if len \<noteq> 2 then lisp_error ''Malformed setcar''
     else lbind (car a) (\<lambda>x. lbind (type_of x) (\<lambda>t.
       if t \<noteq> TCELL then lisp_error ''Malformed setcar''
       else lbind (cdr a) (\<lambda>d. lbind (car d) (\<lambda>y. lbind (set_car x y) (\<lambda>_.
         lbind (get args) car)))))))))"

primrec while_loop :: "evaluator \<Rightarrow> nat \<Rightarrow> nat \<Rightarrow> handle \<Rightarrow> handle \<Rightarrow> handle \<Rightarrow> handle \<Rightarrow> obj lisp" where
  "while_loop ev n 0 env list cond exprs = fail No_fuel"
| "while_loop ev n (Suc m) env list cond exprs =
     lbind (ev env cond) (\<lambda>c.
     if c = Nil_obj then return Nil_obj
     else
       lbind (get list) (\<lambda>l. lbind (cdr l) (\<lambda>d. lbind (put exprs d) (\<lambda>_.
       lbind (eval_list ev n env exprs) (\<lambda>_. while_loop ev n m env list cond exprs)))))"

definition prim_while :: "evaluator \<Rightarrow> nat \<Rightarrow> handle \<Rightarrow> handle \<Rightarrow> obj lisp" where
  "prim_while ev n env list =
     lbind (get list) (\<lambda>l. lbind (lisp_length n l) (\<lambda>len.
     if len < 2 then lisp_error ''Malformed while''
     else DEFINE 2 (\<lambda>k. let cond = Slot k 0; exprs = Slot k 1 in
       lbind (car l) (\<lambda>c. lbind (put cond c) (\<lambda>_. while_loop ev n n env list cond exprs)))))"

text \<open>The name is cut to the nine characters that fit into the buffer.\<close>

definition prim_gensym :: "evaluator \<Rightarrow> nat \<Rightarrow> handle \<Rightarrow> handle \<Rightarrow> obj lisp" where
  "prim_gensym ev n env list s =
     (let buf = take 9 (''G__'' @ show_int (gensym_count s)); s = s\<lparr>gensym_count := gensym_count s + 1\<rparr> in
      allocating (make_symbol buf) s)"

primrec plus_loop :: "nat \<Rightarrow> obj \<Rightarrow> 32 word \<Rightarrow> 32 word lisp" where
  "plus_loop 0 args acc = fail No_fuel"
| "plus_loop (Suc n) args acc =
     (if args = Nil_obj then return acc
      else lbind (car args) (\<lambda>x. lbind (type_of x) (\<lambda>t.
        if t \<noteq> TINT then lisp_error ''+ takes only numbers''
        else lbind (int_value x) (\<lambda>v. lbind (cdr args) (\<lambda>d. plus_loop n d (acc + v))))))"

definition prim_plus :: "evaluator \<Rightarrow> nat \<Rightarrow> handle \<Rightarrow> handle \<Rightarrow> obj lisp" where
  "prim_plus ev n env list =
     lbind (eval_list ev n env list) (\<lambda>args. lbind (plus_loop n args 0) (\<lambda>acc. allocating (make_int acc)))"

primrec all_numbers :: "nat \<Rightarrow> obj \<Rightarrow> unit lisp" where
  "all_numbers 0 p = fail No_fuel"
| "all_numbers (Suc n) p =
     (if p = Nil_obj then return ()
      else lbind (car p) (\<lambda>x. lbind (type_of x) (\<lambda>t.
        if t \<noteq> TINT then lisp_error ''- takes only numbers'' else lbind (cdr p) (all_numbers n))))"

primrec minus_loop :: "nat \<Rightarrow> obj \<Rightarrow> 32 word \<Rightarrow> 32 word lisp" where
  "minus_loop 0 p r = fail No_fuel"
| "minus_loop (Suc n) p r =
     (if p = Nil_obj then return r
      else lbind (car p) (\<lambda>x. lbind (int_value x) (\<lambda>v. lbind (cdr p) (\<lambda>d. minus_loop n d (r - v)))))"

definition prim_minus :: "evaluator \<Rightarrow> nat \<Rightarrow> handle \<Rightarrow> handle \<Rightarrow> obj lisp" where
  "prim_minus ev n env list =
     lbind (eval_list ev n env list) (\<lambda>args.
     lbind (all_numbers n args) (\<lambda>_.
     lbind (cdr args) (\<lambda>d.
     if d = Nil_obj then lbind (car args) (\<lambda>x. lbind (int_value x) (\<lambda>v. allocating (make_int (- v))))
     else
       lbind (car args) (\<lambda>x. lbind (int_value x) (\<lambda>r.
       lbind (cdr args) (\<lambda>d. lbind (minus_loop n d r) (\<lambda>r. allocating (make_int r))))))))"

definition prim_lt :: "evaluator \<Rightarrow> nat \<Rightarrow> handle \<Rightarrow> handle \<Rightarrow> obj lisp" where
  "prim_lt ev n env list =
     lbind (eval_list ev n env list) (\<lambda>args. lbind (lisp_length n args) (\<lambda>len.
     if len \<noteq> 2 then lisp_error ''malformed <''
     else
       lbind (car args) (\<lambda>x. lbind (cdr args) (\<lambda>d. lbind (car d) (\<lambda>y.
       lbind (type_of x) (\<lambda>t. lbind (type_of y) (\<lambda>u.
       if t \<noteq> TINT \<or> u \<noteq> TINT then lisp_error ''< takes only numbers''
       else lbind (int_value x) (\<lambda>v. lbind (int_value y) (\<lambda>w.
         return (if sint v < sint w then True_obj else Nil_obj))))))))))"

primrec params_loop :: "nat \<Rightarrow> obj \<Rightarrow> unit lisp" where
  "params_loop 0 p = fail No_fuel"
| "params_loop (Suc n) p =
     lbind (type_of p) (\<lambda>t.
     if t = TCELL then
       lbind (car p) (\<lambda>x. lbind (type_of x) (\<lambda>u.
       if u \<noteq> TSYMBOL then lisp_error ''Parameter must be a symbol'' else lbind (cdr p) (params_loop n)))
     else if p \<noteq> Nil_obj \<and> t \<noteq> TSYMBOL then lisp_error ''Parameter must be a symbol''
     else return ())"

definition handle_function :: "nat \<Rightarrow> handle \<Rightarrow> handle \<Rightarrow> obj_type \<Rightarrow> obj lisp" where
  "handle_function n env list type =
     lbind (get list) (\<lambda>l. lbind (type_of l) (\<lambda>t.
     if t \<noteq> TCELL then lisp_error ''Malformed lambda''
     else lbind (car l) (\<lambda>p. lbind (is_list p) (\<lambda>b.
       if \<not> b then lisp_error ''Malformed lambda''
       else lbind (cdr l) (\<lambda>d. lbind (type_of d) (\<lambda>u.
         if u \<noteq> TCELL then lisp_error ''Malformed lambda''
         else
           lbind (params_loop n p) (\<lambda>_.
           DEFINE 2 (\<lambda>k. let params = Slot k 0; body = Slot k 1 in
             lbind (get list) (\<lambda>l. lbind (car l) (\<lambda>x. lbind (put params x) (\<lambda>_.
             lbind (get list) (\<lambda>l. lbind (cdr l) (\<lambda>x. lbind (put body x) (\<lambda>_.
             allocating (make_function env type params body)))))))))))))))"

definition prim_lambda :: "evaluator \<Rightarrow> nat \<Rightarrow> handle \<Rightarrow> handle \<Rightarrow> obj lisp" where
  "prim_lambda ev n env list = handle_function n env list TFUNCTION"

definition handle_defun :: "nat \<Rightarrow> handle \<Rightarrow> handle \<Rightarrow> obj_type \<Rightarrow> obj lisp" where
  "handle_defun n env list type =
     lbind (get list) (\<lambda>l. lbind (car l) (\<lambda>x. lbind (type_of x) (\<lambda>t.
     if t \<noteq> TSYMBOL then lisp_error ''Malformed defun''
     else lbind (cdr l) (\<lambda>d. lbind (type_of d) (\<lambda>u.
       if u \<noteq> TCELL then lisp_error ''Malformed defun''
       else DEFINE 3 (\<lambda>k. let fn = Slot k 0; symb = Slot k 1; rest = Slot k 2 in
         lbind (put symb x) (\<lambda>_. lbind (put rest d) (\<lambda>_.
         lbind (handle_function n env rest type) (\<lambda>f. lbind (put fn f) (\<lambda>_.
         lbind (add_variable env symb fn) (\<lambda>_. get fn)))))))))))"

definition prim_defun :: "evaluator \<Rightarrow> nat \<Rightarrow> handle \<Rightarrow> handle \<Rightarrow> obj lisp" where
  "prim_defun ev n env list = handle_defun n env list TFUNCTION"

definition prim_define :: "evaluator \<Rightarrow> nat \<Rightarrow> handle \<Rightarrow> handle \<Rightarrow> obj lisp" where
  "prim_define ev n env list =
     lbind (get list) (\<lambda>l. lbind (lisp_length n l) (\<lambda>len.
     if len \<noteq> 2 then lisp_error ''Malformed define''
     else lbind (car l) (\<lambda>x. lbind (type_of x) (\<lambda>t.
       if t \<noteq> TSYMBOL then lisp_error ''Malformed define''
       else DEFINE 2 (\<lambda>k. let symb = Slot k 0; val = Slot k 1 in
         lbind (put symb x) (\<lambda>_.
         lbind (get list) (\<lambda>l. lbind (cdr l) (\<lambda>d. lbind (car d) (\<lambda>v. lbind (put val v) (\<lambda>_.
         lbind (ev env val) (\<lambda>v. lbind (put val v) (\<lambda>_.
         lbind (add_variable env symb val) (\<lambda>_. get val)))))))))))))"

definition prim_defmacro :: "evaluator \<Rightarrow> nat \<Rightarrow> handle \<Rightarrow> handle \<Rightarrow> obj lisp" where
  "prim_defmacro ev n env list = handle_defun n env list TMACRO"

definition prim_macroexpand :: "evaluator \<Rightarrow> nat \<Rightarrow> handle \<Rightarrow> handle \<Rightarrow> obj lisp" where
  "prim_macroexpand ev n env list =
     lbind (get list) (\<lambda>l. lbind (lisp_length n l) (\<lambda>len.
     if len \<noteq> 1 then lisp_error ''Malformed macroexpand''
     else DEFINE 1 (\<lambda>k. let body = Slot k 0 in
       lbind (car l) (\<lambda>x. lbind (put body x) (\<lambda>_. macroexpand ev n env body)))))"

definition prim_println :: "evaluator \<Rightarrow> nat \<Rightarrow> handle \<Rightarrow> handle \<Rightarrow> obj lisp" where
  "prim_println ev n env list = DEFINE 1 (\<lambda>k. let tmp = Slot k 0 in
     lbind (get list) (\<lambda>l. lbind (car l) (\<lambda>x. lbind (put tmp x) (\<lambda>_.
     lbind (ev env tmp) (\<lambda>x. lbind (lisp_print n x) (\<lambda>_. lbind (write_str [CHR 0x0A]) (\<lambda>_. return Nil_obj)))))))"

definition prim_panic :: "evaluator \<Rightarrow> nat \<Rightarrow> handle \<Rightarrow> handle \<Rightarrow> obj lisp" where
  "prim_panic ev n env list = DEFINE 1 (\<lambda>k. let tmp = Slot k 0 in
     lbind (get list) (\<lambda>l. lbind (car l) (\<lambda>x. lbind (put tmp x) (\<lambda>_.
     lbind (ev env tmp) (\<lambda>x. lbind (lisp_print n x) (\<lambda>_. lbind (write_str [CHR 0x0A]) (\<lambda>_. lisp_error ''minilisp error'')))))))"

definition prim_sleep :: "evaluator \<Rightarrow> nat \<Rightarrow> handle \<Rightarrow> handle \<Rightarrow> obj lisp" where
  "prim_sleep ev n env list = DEFINE 1 (\<lambda>k. let sleep = Slot k 0 in
     lbind (get list) (\<lambda>l. lbind (car l) (\<lambda>x. lbind (put sleep x) (\<lambda>_.
     lbind (ev env sleep) (\<lambda>x. lbind (put sleep x) (\<lambda>_. lbind (type_of x) (\<lambda>t.
     if t \<noteq> TINT then lisp_error ''sleep only takes numbers''
     else lbind (int_value x) (\<lambda>v s. Inr (Nil_obj, s\<lparr>sleeps := v # sleeps s\<rparr>)))))))))"

definition prim_if :: "evaluator \<Rightarrow> nat \<Rightarrow> handle \<Rightarrow> handle \<Rightarrow> obj lisp" where
  "prim_if ev n env list =
     lbind (get list) (\<lambda>l. lbind (lisp_length n l) (\<lambda>len.
     if len < 2 then lisp_error ''Malformed if''
     else DEFINE 3 (\<lambda>k. let cond = Slot k 0; thn = Slot k 1; els = Slot k 2 in
       lbind (car l) (\<lambda>c. lbind (put cond c) (\<lambda>_.
       lbind (ev env cond) (\<lambda>c. lbind (put cond c) (\<lambda>_.
       lbind (get list) (\<lambda>l. lbind (cdr l) (\<lambda>d.
       if c \<noteq> Nil_obj then lbind (car d) (\<lambda>x. lbind (put thn x) (\<lambda>_. ev env thn))
       else lbind (cdr d) (\<lambda>e. lbind (put els e) (\<lambda>_.
         if e = Nil_obj then return Nil_obj else progn ev n env els)))))))))))"

definition prim_num_eq :: "evaluator \<Rightarrow> nat \<Rightarrow> handle \<Rightarrow> handle \<Rightarrow> obj lisp" where
  "prim_num_eq ev n env list =
     lbind (get list) (\<lambda>l. lbind (lisp_length n l) (\<lambda>len.
     if len \<noteq> 2 then lisp_error ''Malformed =''
     else
       lbind (eval_list ev n env list) (\<lambda>vals.
       lbind (car vals) (\<lambda>x. lbind (cdr vals) (\<lambda>d. lbind (car d) (\<lambda>y.
       lbind (type_of x) (\<lambda>t. lbind (type_of y) (\<lambda>u.
       if t \<noteq> TINT \<or> u \<noteq> TINT then lisp_error ''= only takes numbers''
       else lbind (int_value x) (\<lambda>v. lbind (int_value y) (\<lambda>w.
         return (if v = w then True_obj else Nil_obj)))))))))))"

definition prim_eq :: "evaluator \<Rightarrow> nat \<Rightarrow> handle \<Rightarrow> handle \<Rightarrow> obj lisp" where
  "prim_eq ev n env list =
     lbind (get list) (\<lambda>l. lbind (lisp_length n l) (\<lambda>len.
     if len \<noteq> 2 then lisp_error ''Malformed eq''
     else
       lbind (eval_list ev n env list) (\<lambda>vals.
       lbind (car vals) (\<lambda>x. lbind (cdr vals) (\<lambda>d. lbind (car d) (\<lambda>y.
       return (if x = y then True_obj else Nil_obj)))))))"

text \<open>The call through the function pointer of a primitive.\<close>

primrec call_primitive :: "primitive \<Rightarrow> evaluator \<Rightarrow> nat \<Rightarrow> handle \<Rightarrow> handle \<Rightarrow> obj lisp" where
  "call_primitive prim_quote_f = prim_quote"
| "call_primitive prim_cons_f = prim_cons"
| "call_primitive prim_car_f = prim_car"
| "call_primitive prim_cdr_f = prim_cdr"
| "call_primitive prim_setq_f = prim_setq"
| "call_primitive prim_setcar_f = prim_setcar"
| "call_primitive prim_while_f = prim_while"
| "call_primitive prim_gensym_f = prim_gensym"
| "call_primitive prim_plus_f = prim_plus"
| "call_primitive prim_minus_f = prim_minus"
| "call_primitive prim_lt_f = prim_lt"
| "call_primitive prim_define_f = prim_define"
| "call_primitive prim_defun_f = prim_defun"
| "call_primitive prim_defmacro_f = prim_defmacro"
| "call_primitive prim_macroexpand_f = prim_macroexpand"
| "call_primitive prim_lambda_f = prim_lambda"
| "call_primitive prim_if_f = prim_if"
| "call_primitive prim_num_eq_f = prim_num_eq"
| "call_primitive prim_eq_f = prim_eq"
| "call_primitive prim_println_f = prim_println"
| "call_primitive prim_panic_f = prim_panic"
| "call_primitive prim_sleep_f = prim_sleep"

section \<open>The evaluator\<close>

definition lisp_apply :: "evaluator \<Rightarrow> nat \<Rightarrow> handle \<Rightarrow> handle \<Rightarrow> handle \<Rightarrow> obj lisp" where
  "lisp_apply ev n env fn args =
     lbind (get args) (\<lambda>a. lbind (is_list a) (\<lambda>b.
     if \<not> b then lisp_error ''argument must be a list''
     else lbind (get fn) (\<lambda>f. lbind (type_of f) (\<lambda>t.
       if t = TPRIMITIVE then lbind (fn_of f) (\<lambda>prim. call_primitive prim ev n env args)
       else if t = TFUNCTION then DEFINE 1 (\<lambda>k. let eargs = Slot k 0 in
         lbind (eval_list ev n env args) (\<lambda>x. lbind (put eargs x) (\<lambda>_. apply_func ev n env fn eargs)))
       else lisp_error ''not supported''))))"

definition eval_body :: "evaluator \<Rightarrow> nat \<Rightarrow> handle \<Rightarrow> handle \<Rightarrow> obj lisp" where
  "eval_body ev n env obj =
     lbind (get obj) (\<lambda>p. lbind (type_of p) (\<lambda>t.
     case t of
       TINT \<Rightarrow> return p
     | TPRIMITIVE \<Rightarrow> return p
     | TFUNCTION \<Rightarrow> return p
     | TTRUE \<Rightarrow> return p
     | TNIL \<Rightarrow> return p
     | TSYMBOL \<Rightarrow> lbind (lisp_find n env p) (\<lambda>bind.
         if bind = Null_obj then lisp_error ''Undefined symbol: %s'' else cdr bind)
     | TCELL \<Rightarrow> DEFINE 3 (\<lambda>k. let fn = Slot k 0; expanded = Slot k 1; args = Slot k 2 in
         lbind (macroexpand ev n env obj) (\<lambda>e. lbind (put expanded e) (\<lambda>_.
         lbind (get obj) (\<lambda>p.
         if e \<noteq> p then ev env expanded
         else
           lbind (car p) (\<lambda>x. lbind (put fn x) (\<lambda>_.
           lbind (ev env fn) (\<lambda>f. lbind (put fn f) (\<lambda>_.
           lbind (get obj) (\<lambda>p. lbind (cdr p) (\<lambda>a. lbind (put args a) (\<lambda>_.
           lbind (type_of f) (\<lambda>t.
           if t \<noteq> TPRIMITIVE \<and> t \<noteq> TFUNCTION then lisp_error ''The head of a list must be a function''
           else lisp_apply ev n env fn args))))))))))))
     | _ \<Rightarrow> lisp_error ''Bug: eval: Unknown tag type: %d''))"

primrec eval :: "nat \<Rightarrow> evaluator" where
  "eval 0 = (\<lambda>env obj. fail No_fuel)"
| "eval (Suc n) = eval_body (eval n) n"

end
