(* ===== verification/LispSafety.thy ===== *)
theory LispSafety
  imports LispEval
begin

text \<open>
  Memory safety of the Lisp evaluator. The collector moves every object, so a pointer that C code keeps in a
  variable across an allocation would dangle; \<^verbatim>\<open>minilisp.c\<close> keeps such pointers in root frames instead. This
  theory shows that it does so everywhere: rules for the safety of computations, one for each function of the
  evaluator, with recursive calls assumed safe, and the evaluator's own safety by induction on its fuel.
\<close>

section \<open>Safe computations\<close>

text \<open>
  \<open>wp m Q s\<close>: started in \<open>s\<close>, the computation accesses no memory that holds no object, and if it returns, then
  with a result and in a state that satisfy \<open>Q\<close>.
\<close>

definition wp :: "'a lisp \<Rightarrow> ('a \<Rightarrow> lisp_state \<Rightarrow> bool) \<Rightarrow> lisp_state \<Rightarrow> bool" where
  "wp m Q s \<longleftrightarrow> (case m s of Inl e \<Rightarrow> e \<noteq> Dangling | Inr (x, s') \<Rightarrow> Q x s')"

definition shape :: "lisp_state \<Rightarrow> nat list" where
  "shape s = map length (frames s)"

definition lisp_ok :: "lisp_state \<Rightarrow> bool" where
  "lisp_ok s \<longleftrightarrow> (\<exists>xs. heap_ok s xs)"

definition valid :: "lisp_state \<Rightarrow> obj \<Rightarrow> bool" where
  "valid s p \<longleftrightarrow> (\<exists>xs. heap_ok s xs \<and> ptr_in (set xs) p)"

fun slot :: "nat list \<Rightarrow> handle \<Rightarrow> bool" where
  "slot sh (Slot f i) \<longleftrightarrow> f < length sh \<and> i < sh ! f"
| "slot sh h \<longleftrightarrow> False"

fun readable :: "nat list \<Rightarrow> handle \<Rightarrow> bool" where
  "readable sh (Slot f i) \<longleftrightarrow> f < length sh \<and> i < sh ! f"
| "readable sh SymbolsH \<longleftrightarrow> True"
| "readable sh (StaticH p) \<longleftrightarrow> (\<forall>a. p \<noteq> Ref a)"

lemma slot_readable [simp]: "slot sh h \<Longrightarrow> readable sh h"
  by (cases h) simp_all

lemma slot_push [simp]: "slot sh h \<Longrightarrow> slot (sh @ [n]) h" "readable sh h \<Longrightarrow> readable (sh @ [n]) h"
  "slot (sh @ [n]) (Slot (length sh) i) \<longleftrightarrow> i < n"
  by (cases h; simp add: nth_append)+

lemma readable_ok: "readable (shape s) h \<longleftrightarrow> handle_ok s h"
  by (cases h) (auto simp: shape_def handle_ok_def)

lemma tiles_nonempty: "tiles m a xs b \<Longrightarrow> xs = [] \<longleftrightarrow> a = b"
  using tiles_bounds [of m a xs b "hd xs"] by (cases xs) auto

lemma tiles_unique: "tiles m a xs b \<Longrightarrow> tiles m a ys b \<Longrightarrow> xs = ys"
proof (induction xs arbitrary: a ys)
  case Nil
  then show ?case using tiles_nonempty [OF Nil(2)] by simp
next
  case (Cons x xs)
  have "ys \<noteq> []" using tiles_nonempty [OF Cons.prems(1)] tiles_nonempty [OF Cons.prems(2)] by simp
  then obtain y zs where ys: "ys = y # zs" by (cases ys) simp_all
  obtain ob where ob: "x = a" "m a = Some ob" "tiles m (a + ob_size ob) xs b" using Cons.prems(1) by auto
  then have "tiles m (a + ob_size ob) zs b" "y = a" using Cons.prems(2) by (simp_all add: ys)
  then show ?case using Cons.IH [OF ob(3)] ob(1) ys by simp
qed

lemma heap_ok_unique: "heap_ok s xs \<Longrightarrow> heap_ok s ys \<Longrightarrow> xs = ys"
  using tiles_unique by (auto simp: heap_ok_def)

lemma object_at_tiles: "tiles m a xs b \<Longrightarrow> object_at m a b x \<longleftrightarrow> x \<in> set xs"
proof (induction xs arbitrary: a)
  case Nil
  then show ?case by (subst object_at.simps) simp
next
  case (Cons y ys)
  obtain ob where ob: "y = a" "m a = Some ob" "0 < ob_size ob" "tiles m (a + ob_size ob) ys b" using Cons.prems by auto
  have "a < b" using tiles_bounds [OF Cons.prems, of y] ob(1) by simp
  then show ?case using Cons.IH [OF ob(4)] ob by (subst object_at.simps) auto
qed

lemma in_heap_iff: "heap_ok s xs \<Longrightarrow> in_heap a s \<longleftrightarrow> a \<in> set xs"
  by (simp add: in_heap_def object_at_tiles heap_ok_def)

lemma valid_ok [dest]: "valid s p \<Longrightarrow> lisp_ok s"
  by (auto simp: valid_def lisp_ok_def)

lemma valid_iff: "heap_ok s xs \<Longrightarrow> valid s p \<longleftrightarrow> ptr_in (set xs) p"
  using heap_ok_unique by (auto simp: valid_def)

lemma valid_static [simp]: "lisp_ok s \<Longrightarrow> valid s Nil_obj" "lisp_ok s \<Longrightarrow> valid s True_obj" "lisp_ok s \<Longrightarrow> valid s Null_obj"
  "lisp_ok s \<Longrightarrow> valid s Dot_obj" "lisp_ok s \<Longrightarrow> valid s Cparen_obj"
  by (auto simp: valid_def lisp_ok_def)

text \<open>Changes of the state that leave memory alone.\<close>

lemma heap_ok_cong:
  assumes "mem s' = mem s" "memory s' = memory s" "mem_nused s' = mem_nused s" "memory_size s' = memory_size s" "cur_heap s' = cur_heap s"
    "next_heap s' = next_heap s" "gc_running s' = gc_running s" "roots s' \<subseteq> roots s \<union> {p. ptr_in (set xs) p}"
  shows "heap_ok s xs \<Longrightarrow> heap_ok s' xs"
  using assms unfolding heap_ok_def by auto

section \<open>Rules\<close>

lemma wp_return [simp]: "wp (return x) Q s = Q x s"
  by (simp add: wp_def return_def)

lemma wp_fail [simp]: "wp (fail e) Q s \<longleftrightarrow> e \<noteq> Dangling"
  by (simp add: wp_def fail_def)

lemma wp_error [simp]: "wp (lisp_error msg) Q s"
  by (simp add: lisp_error_def)

lemma wp_lbind [simp]: "wp (lbind m f) Q s = wp m (\<lambda>x. wp (f x) Q) s"
  by (simp add: wp_def lbind_def split: sum.split)

lemma wp_if [simp]: "wp (if c then m else m') Q s = (if c then wp m Q s else wp m' Q s)"
  by simp

lemma wp_weaken: "wp m Q s \<Longrightarrow> (\<And>x s'. Q x s' \<Longrightarrow> R x s') \<Longrightarrow> wp m R s"
  by (auto simp: wp_def split: sum.splits)

named_theorems wp_intros \<open>rules for the safety of computations\<close>

lemma wp_write [wp_intros]:
  assumes "lisp_ok s" and "\<And>s'. lisp_ok s' \<Longrightarrow> shape s' = shape s \<Longrightarrow> (\<And>q. valid s q \<Longrightarrow> valid s' q) \<Longrightarrow> Q () s'"
  shows "wp (write_str buf) Q s" "wp (printf buf) Q s"
proof -
  have "heap_ok s xs \<Longrightarrow> heap_ok (lisp_write b s) xs" for b xs by (rule heap_ok_cong) (auto simp: lisp_write_def roots_def)
  then have "Q () (lisp_write b s)" for b
    by (intro assms(2)) (use assms(1) in \<open>auto simp: lisp_ok_def valid_def shape_def lisp_write_def\<close>)
  then show "wp (write_str buf) Q s" "wp (printf buf) Q s" by (simp_all add: wp_def write_str_def printf_def lisp_printf_def)
qed

lemma wp_get [wp_intros]:
  assumes "lisp_ok s" and "readable (shape s) h" and "\<And>p. valid s p \<Longrightarrow> Q p s"
  shows "wp (get h) Q s"
proof -
  obtain xs where xs: "heap_ok s xs" using assms(1) by (auto simp: lisp_ok_def)
  have h: "handle_ok s h" using assms(2) by (simp add: readable_ok)
  obtain p where p: "deref h s = Some p" using deref_ok [OF h] by blast
  then have "valid s p" using deref_valid [OF xs h] valid_iff [OF xs] by simp
  then show ?thesis using assms(3) p by (simp add: wp_def get_def)
qed

lemma wp_put [wp_intros]:
  assumes "valid s p" and "slot (shape s) h"
    and "\<And>s'. lisp_ok s' \<Longrightarrow> shape s' = shape s \<Longrightarrow> (\<And>q. valid s q \<Longrightarrow> valid s' q) \<Longrightarrow> Q () s'"
  shows "wp (put h p) Q s"
proof -
  obtain f i where h: "h = Slot f i" "f < length (frames s)" "i < length (frames s ! f)" using assms(2) by (cases h) (auto simp: shape_def)
  define s' where "s' = s\<lparr>frames := (frames s)[f := (frames s ! f)[i := p]]\<rparr>"
  have "roots s' \<subseteq> roots s \<union> {p}"
  proof -
    have "set ((frames s ! f)[i := p]) \<subseteq> insert p (set (frames s ! f))" by (rule set_update_subset_insert)
    moreover have "frames s ! f \<in> set (frames s)" using h(2) by simp
    moreover have "set (frames s') \<subseteq> insert ((frames s ! f)[i := p]) (set (frames s))" by (simp add: s'_def set_update_subset_insert)
    ultimately show ?thesis by (auto simp: roots_def s'_def)
  qed
  then have k: "heap_ok s xs \<Longrightarrow> heap_ok s' xs" for xs
    using assms(1) valid_iff [of s xs p] by (intro heap_ok_cong [of s' s]) (auto simp: s'_def)
  then have "Q () s'"
    by (intro assms(3)) (use assms(1) h(2,3) in \<open>auto simp: lisp_ok_def valid_def shape_def s'_def map_update list_update_id nth_map list_update_same_conv\<close>)
  then show ?thesis using h by (simp add: wp_def put_def store_def s'_def)
qed


lemma wp_type_of [wp_intros]: "valid s p \<Longrightarrow> (\<And>t. Q t s) \<Longrightarrow> wp (type_of p) Q s"
  by (cases p) (auto simp: wp_def type_of_def valid_def in_heap_iff)

lemma wp_value_of_at:
  assumes "valid s p" and "\<And>v. (\<And>a ob. p = Ref a \<Longrightarrow> mem s a = Some ob \<Longrightarrow> ob_value ob = v) \<Longrightarrow> list_all (valid s) (ptrs v) \<Longrightarrow> Q v s"
  shows "wp (value_of p) Q s"
proof (cases p)
  case (Ref a)
  obtain xs where xs: "heap_ok s xs" "a \<in> set xs" using assms(1) Ref by (auto simp: valid_def)
  obtain ob where ob: "mem s a = Some ob" "\<forall>q\<in>set (ptrs (ob_value ob)). ptr_in (set xs) q" using heap_ok_object [OF xs] by blast
  have "Q (ob_value ob) s" by (rule assms(2)) (use ob Ref valid_iff [OF xs(1)] in \<open>auto simp: list_all_iff\<close>)
  then show ?thesis using Ref xs ob(1) by (simp add: wp_def value_of_def in_heap_iff)
qed (simp_all add: wp_def value_of_def)

lemma wp_value_of: "valid s p \<Longrightarrow> (\<And>v. list_all (valid s) (ptrs v) \<Longrightarrow> Q v s) \<Longrightarrow> wp (value_of p) Q s"
  by (rule wp_value_of_at) auto

lemma wp_members [wp_intros]:
  assumes "valid s p" and "\<And>x. valid s x \<Longrightarrow> Q x s"
  shows "wp (car p) Q s" "wp (cdr p) Q s" "wp (params_of p) Q s" "wp (body_of p) Q s" "wp (env_of p) Q s" "wp (vars_of p) Q s" "wp (up_of p) Q s"
proof -
  have ok: "lisp_ok s" using assms(1) by blast
  show "wp (params_of p) Q s" "wp (body_of p) Q s" "wp (env_of p) Q s" "wp (vars_of p) Q s" "wp (up_of p) Q s"
    unfolding params_of_def body_of_def env_of_def vars_of_def up_of_def
    by (auto intro!: wp_value_of [OF assms(1)] assms(2) split: obj_value.split)
  have "wp (lbind (value_of p) (\<lambda>v. case v of Cell x y \<Rightarrow> return x | _ \<Rightarrow> fail Bad_access)) Q s"
    "wp (lbind (value_of p) (\<lambda>v. case v of Cell x y \<Rightarrow> return y | _ \<Rightarrow> fail Bad_access)) Q s"
    by (auto intro!: wp_value_of [OF assms(1)] assms(2) split: obj_value.split)
  moreover have "wp (\<lambda>s. if nil_cdr s = Null_obj then Inr (Null_obj, s) else Inl Bad_access) Q s"
    using assms(2) ok by (simp add: wp_def)
  ultimately show "wp (car p) Q s" "wp (cdr p) Q s" using assms(2) ok by (cases p; simp add: car_def cdr_def)+
qed

lemma wp_plain [wp_intros]:
  assumes "valid s p"
  shows "(\<And>i. Q i s) \<Longrightarrow> wp (int_value p) Q s" "(\<And>n. R n s) \<Longrightarrow> wp (name_of p) R s" "(\<And>f. T f s) \<Longrightarrow> wp (fn_of p) T s"
  unfolding int_value_def name_of_def fn_of_def by (auto intro!: wp_value_of [OF assms] split: obj_value.split)

text \<open>Writing a member keeps memory well-formed when the value is tagged as before.\<close>

definition same_kind :: "obj_value \<Rightarrow> obj_value \<Rightarrow> bool" where
  "same_kind v w \<longleftrightarrow> (\<forall>ob. typed (ob\<lparr>ob_value := v\<rparr>) = typed (ob\<lparr>ob_value := w\<rparr>))"

lemma heap_ok_write:
  assumes ok: "heap_ok s xs" and a: "a \<in> set xs" "mem s a = Some ob" and v: "same_kind (ob_value ob) v" "\<forall>q\<in>set (ptrs v). ptr_in (set xs) q"
  shows "heap_ok (s\<lparr>mem := (mem s)(a \<mapsto> ob\<lparr>ob_value := v\<rparr>)\<rparr>) xs"
proof -
  define s' where "s' = s\<lparr>mem := (mem s)(a \<mapsto> ob\<lparr>ob_value := v\<rparr>)\<rparr>"
  have o: "tiles (mem s) (memory s) xs (memory s + mem_nused s)" using ok by (simp add: heap_ok_def)
  have "tiles (mem s') (memory s) xs (memory s + mem_nused s)" by (rule tiles_cong [OF _ o]) (simp add: s'_def a(2))
  moreover have "objects_ok (set xs) (mem s')"
    unfolding objects_ok_def
  proof
    fix b assume b: "b \<in> set xs"
    have "typed (ob\<lparr>ob_value := v\<rparr>) = typed (ob\<lparr>ob_value := ob_value ob\<rparr>)" using v(1) unfolding same_kind_def by blast
    then have "typed (ob\<lparr>ob_value := v\<rparr>)" using heap_ok_object [OF ok a(1)] a(2) by simp
    then show "\<exists>ob. mem s' b = Some ob \<and> typed ob \<and> (\<forall>p\<in>set (ptrs (ob_value ob)). ptr_in (set xs) p)"
      using heap_ok_object [OF ok b] v(2) by (simp add: s'_def)
  qed
  moreover have "roots s' = roots s" by (simp add: roots_def s'_def)
  ultimately show ?thesis using ok unfolding heap_ok_def s'_def [symmetric] by (simp add: s'_def)
qed

lemma wp_set_contents:
  assumes "valid s p" and "list_all (valid s) (ptrs v)" and "\<And>a ob. p = Ref a \<Longrightarrow> mem s a = Some ob \<Longrightarrow> same_kind (ob_value ob) v"
    and "\<And>s'. lisp_ok s' \<Longrightarrow> shape s' = shape s \<Longrightarrow> (\<And>q. valid s q \<Longrightarrow> valid s' q) \<Longrightarrow> Q () s'"
  shows "wp (set_contents p v) Q s"
proof (cases p)
  case (Ref a)
  obtain xs where xs: "heap_ok s xs" "a \<in> set xs" using assms(1) Ref by (auto simp: valid_def)
  obtain ob where ob: "mem s a = Some ob" using heap_ok_object [OF xs] by blast
  define s' where "s' = s\<lparr>mem := (mem s)(a \<mapsto> ob\<lparr>ob_value := v\<rparr>)\<rparr>"
  have ok: "heap_ok s' xs" unfolding s'_def
    by (rule heap_ok_write [OF xs ob assms(3) [OF Ref ob]]) (use assms(2) valid_iff [OF xs(1)] in \<open>simp add: list_all_iff\<close>)
  have "Q () s'"
    by (rule assms(4)) (use ok valid_iff [OF xs(1)] valid_iff [OF ok] in \<open>auto simp: lisp_ok_def shape_def s'_def\<close>)
  then show ?thesis using Ref xs ob by (simp add: wp_def set_contents_def in_heap_iff s'_def)
qed (simp_all add: wp_def set_contents_def)

lemma same_kind_simps: "same_kind (Cell x y) (Cell x' y')" "same_kind (Frame x y) (Frame x' y')"
  by (simp_all add: same_kind_def typed_def)

lemma wp_set_member:
  assumes "valid s p" and "valid s x"
    and "\<And>s'. lisp_ok s' \<Longrightarrow> shape s' = shape s \<Longrightarrow> (\<And>q. valid s q \<Longrightarrow> valid s' q) \<Longrightarrow> Q () s'"
  shows "wp (set_car p x) Q s" "p \<noteq> Nil_obj \<Longrightarrow> wp (set_cdr p x) Q s" "wp (set_vars p x) Q s"
proof -
  have cell: "wp (lbind (value_of p) (\<lambda>v. case v of Cell x' y \<Rightarrow> set_contents p (Cell (f x') (g y)) | _ \<Rightarrow> fail Bad_access)) Q s"
    if "\<And>q. valid s q \<Longrightarrow> valid s (f q)" "\<And>q. valid s q \<Longrightarrow> valid s (g q)" for f g
    using assms that by (auto intro!: wp_value_of_at wp_set_contents simp: same_kind_simps split: obj_value.split)
  show "wp (set_car p x) Q s" unfolding set_car_def by (rule cell [of "\<lambda>_. x" "\<lambda>y. y"]) (use assms(2) in auto)
  show "wp (set_cdr p x) Q s" if "p \<noteq> Nil_obj"
    using cell [of "\<lambda>x. x" "\<lambda>_. x"] assms(2) that unfolding set_cdr_def by (cases p) auto
  show "wp (set_vars p x) Q s" unfolding set_vars_def
    using assms by (auto intro!: wp_value_of_at wp_set_contents simp: same_kind_simps split: obj_value.split)
qed

lemma wp_set_cdr [wp_intros]:
  assumes "valid s p" and "valid s x"
    and "\<And>s'. lisp_ok s' \<Longrightarrow> shape s' = shape s \<Longrightarrow> (\<And>q. valid s q \<Longrightarrow> valid s' q) \<Longrightarrow> Q () s'"
  shows "wp (set_cdr p x) Q s"
proof (cases "p = Nil_obj")
  case True
  have k: "heap_ok s xs \<Longrightarrow> heap_ok (s\<lparr>nil_cdr := x\<rparr>) xs" for xs by (rule heap_ok_cong) (auto simp: roots_def)
  have "Q () (s\<lparr>nil_cdr := x\<rparr>)"
    by (rule assms(3)) (use k assms(1) in \<open>auto simp: lisp_ok_def valid_def shape_def\<close>)
  then show ?thesis by (simp add: True wp_def set_cdr_def)
qed (use assms in \<open>auto intro!: wp_set_member(2)\<close>)

lemmas wp_set_car [wp_intros] = wp_set_member(1)
lemmas wp_set_vars [wp_intros] = wp_set_member(3)

lemma shape_moved: "moved_to f s s' \<Longrightarrow> shape s' = shape s"
  by (simp add: moved_to_def shape_def comp_def)

lemma wp_built:
  assumes "built (c s) ty n v s" and "\<And>p s'. lisp_ok s' \<Longrightarrow> shape s' = shape s \<Longrightarrow> valid s' p \<Longrightarrow> Q p s'"
  shows "wp (allocating c) Q s"
proof (cases "memory_size s < live_size s + n")
  case True
  then show ?thesis using assms(1) by (simp add: built_def wp_def allocating_def)
next
  case False
  then obtain s' f ys a where r: "c s = Some (Ref a, s')" "heap_ok s' (ys @ [a])" "moved_to f s s'"
    using assms(1) by (auto simp: built_def constructed_def)
  have "valid s' (Ref a)" using r(2) by (auto simp: valid_def)
  then have "Q (Ref a) s'" by (intro assms(2) shape_moved [OF r(3)] valid_ok)
  then show ?thesis using r(1) by (simp add: wp_def allocating_def)
qed

lemma wp_constructors [wp_intros]:
  assumes "lisp_ok s" and "\<And>p s'. lisp_ok s' \<Longrightarrow> shape s' = shape s \<Longrightarrow> valid s' p \<Longrightarrow> Q p s'"
  shows "wp (allocating (make_int val)) Q s" "wp (allocating (make_primitive fn)) Q s"
    "length name + 23 < 2 ^ 64 \<Longrightarrow> wp (allocating (make_symbol name)) Q s"
    "readable (shape s) x \<Longrightarrow> readable (shape s) y \<Longrightarrow> wp (allocating (cons x y)) Q s"
    "readable (shape s) x \<Longrightarrow> readable (shape s) y \<Longrightarrow> wp (allocating (make_env x y)) Q s"
    "readable (shape s) x \<Longrightarrow> readable (shape s) y \<Longrightarrow> readable (shape s) z \<Longrightarrow> ty = TFUNCTION \<or> ty = TMACRO \<Longrightarrow>
       wp (allocating (make_function z ty x y)) Q s"
proof -
  obtain xs where xs: "heap_ok s xs" using assms(1) by (auto simp: lisp_ok_def)
  show "wp (allocating (make_int val)) Q s" by (rule wp_built, rule make_int_ok [OF xs]) (auto intro: assms(2))
  show "wp (allocating (make_primitive fn)) Q s" by (rule wp_built, rule make_primitive_ok [OF xs]) (auto intro: assms(2))
  show "length name + 23 < 2 ^ 64 \<Longrightarrow> wp (allocating (make_symbol name)) Q s" by (rule wp_built, rule make_symbol_ok [OF xs]) (auto intro: assms(2))
  show "readable (shape s) x \<Longrightarrow> readable (shape s) y \<Longrightarrow> wp (allocating (cons x y)) Q s"
    by (rule wp_built, rule cons_ok [OF xs]) (auto simp: readable_ok intro: assms(2))
  show "readable (shape s) x \<Longrightarrow> readable (shape s) y \<Longrightarrow> wp (allocating (make_env x y)) Q s"
    by (rule wp_built, rule make_env_ok [OF xs]) (auto simp: readable_ok intro: assms(2))
  show "readable (shape s) x \<Longrightarrow> readable (shape s) y \<Longrightarrow> readable (shape s) z \<Longrightarrow> ty = TFUNCTION \<or> ty = TMACRO \<Longrightarrow>
       wp (allocating (make_function z ty x y)) Q s"
    by (rule wp_built, rule make_function_ok [OF xs]) (auto simp: readable_ok intro: assms(2))
qed

text \<open>A function with a frame of its own.\<close>

lemma push_frame:
  assumes "lisp_ok s" and s'_def: "s' = s\<lparr>frames := frames s @ [replicate n Null_obj]\<rparr>"
  shows "lisp_ok s'" "shape s' = shape s @ [n]" "\<And>q. valid s q \<Longrightarrow> valid s' q"
proof -
  have "heap_ok s xs \<Longrightarrow> heap_ok s' xs" for xs by (rule heap_ok_cong) (auto simp: s'_def roots_def)
  then show "lisp_ok s'" "shape s' = shape s @ [n]" "\<And>q. valid s q \<Longrightarrow> valid s' q"
    using assms(1) by (auto simp: lisp_ok_def valid_def shape_def s'_def)
qed

lemma pop_frame:
  assumes "lisp_ok s" and "shape s = sh @ [n]" and s'_def: "s' = s\<lparr>frames := butlast (frames s)\<rparr>"
  shows "lisp_ok s'" "shape s' = sh" "\<And>q. valid s q \<Longrightarrow> valid s' q"
proof -
  have "roots s' \<subseteq> roots s" by (auto simp: roots_def s'_def dest: in_set_butlastD)
  then have "heap_ok s xs \<Longrightarrow> heap_ok s' xs" for xs by (intro heap_ok_cong [of s' s]) (auto simp: s'_def)
  moreover have "shape s' = butlast (shape s)" by (simp add: shape_def s'_def map_butlast)
  ultimately show "lisp_ok s'" "shape s' = sh" "\<And>q. valid s q \<Longrightarrow> valid s' q"
    using assms(1,2) by (auto simp: lisp_ok_def valid_def)
qed

lemma wp_DEFINE_step:
  assumes "lisp_ok s"
    and "\<And>s'. lisp_ok s' \<Longrightarrow> shape s' = shape s @ [n] \<Longrightarrow> (\<And>q. valid s q \<Longrightarrow> valid s' q) \<Longrightarrow>
      wp (body (length (shape s))) (\<lambda>r s''. lisp_ok s'' \<and> shape s'' = shape s @ [n] \<and> P r s'') s'"
    and "\<And>r s''. lisp_ok s'' \<Longrightarrow> shape s'' = shape s @ [n] \<Longrightarrow> P r s'' \<Longrightarrow> Q r (s''\<lparr>frames := butlast (frames s'')\<rparr>)"
  shows "wp (DEFINE n body) Q s"
proof -
  let ?s = "s\<lparr>frames := frames s @ [replicate n Null_obj]\<rparr>"
  have "wp (body (length (frames s))) (\<lambda>r s''. lisp_ok s'' \<and> shape s'' = shape s @ [n] \<and> P r s'') ?s"
    using assms(2) [OF push_frame [OF assms(1) refl]] by (simp add: shape_def)
  then show ?thesis using assms(3) by (auto simp: wp_def DEFINE_def split: sum.splits)
qed

lemma wp_DEFINE [wp_intros]:
  assumes "lisp_ok s"
    and "\<And>s'. lisp_ok s' \<Longrightarrow> shape s' = shape s @ [n] \<Longrightarrow> (\<And>q. valid s q \<Longrightarrow> valid s' q) \<Longrightarrow>
      wp (body (length (shape s))) (\<lambda>r s''. shape s'' = shape s @ [n] \<and> valid s'' r) s'"
    and "\<And>r s'. lisp_ok s' \<Longrightarrow> shape s' = shape s \<Longrightarrow> valid s' r \<Longrightarrow> Q r s'"
  shows "wp (DEFINE n body) Q s"
proof (rule wp_DEFINE_step [OF assms(1), where P = "\<lambda>r s''. valid s'' r"])
  show "wp (body (length (shape s))) (\<lambda>r s''. lisp_ok s'' \<and> shape s'' = shape s @ [n] \<and> valid s'' r) s'"
    if "lisp_ok s'" "shape s' = shape s @ [n]" "\<And>q. valid s q \<Longrightarrow> valid s' q" for s'
    by (rule wp_weaken [OF assms(2) [OF that]]) auto
  show "Q r (s''\<lparr>frames := butlast (frames s'')\<rparr>)" if "lisp_ok s''" "shape s'' = shape s @ [n]" "valid s'' r" for r s''
    by (rule assms(3)) (use pop_frame [OF that(1,2) refl] that(3) in simp_all)
qed

lemma wp_DEFINE_unit [wp_intros]:
  fixes body :: "nat \<Rightarrow> unit lisp"
  assumes "lisp_ok s"
    and "\<And>s'. lisp_ok s' \<Longrightarrow> shape s' = shape s @ [n] \<Longrightarrow> (\<And>q. valid s q \<Longrightarrow> valid s' q) \<Longrightarrow>
      wp (body (length (shape s))) (\<lambda>r s''. shape s'' = shape s @ [n] \<and> lisp_ok s'') s'"
    and "\<And>r s'. shape s' = shape s \<Longrightarrow> lisp_ok s' \<Longrightarrow> Q r s'"
  shows "wp (DEFINE n body) Q s"
proof (rule wp_DEFINE_step [OF assms(1), where P = "\<lambda>_ _. True"])
  show "wp (body (length (shape s))) (\<lambda>r s''. lisp_ok s'' \<and> shape s'' = shape s @ [n] \<and> True) s'"
    if "lisp_ok s'" "shape s' = shape s @ [n]" "\<And>q. valid s q \<Longrightarrow> valid s' q" for s'
    by (rule wp_weaken [OF assms(2) [OF that]]) auto
  show "Q r (s''\<lparr>frames := butlast (frames s'')\<rparr>)" if "lisp_ok s''" "shape s'' = shape s @ [n]" for r s''
    by (rule assms(3)) (use pop_frame [OF that(1,2) refl] in simp_all)
qed

section \<open>The functions of the interpreter are safe\<close>

lemma wp_acons [wp_intros]:
  assumes "lisp_ok s" and "readable (shape s) x" "readable (shape s) y" "readable (shape s) a"
    and "\<And>p s'. lisp_ok s' \<Longrightarrow> shape s' = shape s \<Longrightarrow> valid s' p \<Longrightarrow> Q p s'"
  shows "wp (acons x y a) Q s"
  using assms unfolding acons_def Let_def by (auto intro!: wp_intros)

lemma wp_reverse_loop:
  assumes "valid s p" and "valid s ret" and "\<And>q s'. lisp_ok s' \<Longrightarrow> shape s' = shape s \<Longrightarrow> valid s' q \<Longrightarrow> Q q s'"
  shows "wp (reverse_loop n p ret) Q s"
  using assms by (induction n arbitrary: p ret s) (auto intro!: wp_intros)

lemma wp_reverse [wp_intros]:
  "valid s p \<Longrightarrow> (\<And>q s'. lisp_ok s' \<Longrightarrow> shape s' = shape s \<Longrightarrow> valid s' q \<Longrightarrow> Q q s') \<Longrightarrow> wp (reverse n p) Q s"
  unfolding reverse_def by (rule wp_reverse_loop) auto

lemma wp_length_loop: "valid s p \<Longrightarrow> (\<And>i. Q i s) \<Longrightarrow> wp (length_loop n p len) Q s"
  by (induction n arbitrary: p len) (auto intro!: wp_intros)

lemma wp_length [wp_intros]: "valid s p \<Longrightarrow> (\<And>i. Q i s) \<Longrightarrow> wp (lisp_length n p) Q s"
  unfolding lisp_length_def by (rule wp_length_loop)

lemma wp_is_list [wp_intros]: "valid s p \<Longrightarrow> (\<And>b. Q b s) \<Longrightarrow> wp (is_list p) Q s"
  unfolding is_list_def by (auto intro!: wp_intros)

lemma wp_print_both:
  "valid s p \<Longrightarrow> (\<And>s'. lisp_ok s' \<Longrightarrow> shape s' = shape s \<Longrightarrow> (\<And>q. valid s q \<Longrightarrow> valid s' q) \<Longrightarrow> Q () s') \<Longrightarrow> wp (lisp_print n p) Q s"
  "valid s p \<Longrightarrow> (\<And>s'. lisp_ok s' \<Longrightarrow> shape s' = shape s \<Longrightarrow> (\<And>q. valid s q \<Longrightarrow> valid s' q) \<Longrightarrow> Q () s') \<Longrightarrow> wp (print_cells n p) Q s"
proof (induction n p and n p arbitrary: s Q and s Q rule: lisp_print_print_cells.induct)
  case (3 n p)
  have "lisp_ok s" using 3(2) by blast
  then show ?case using 3(2,3) by (auto intro!: wp_intros 3(1) split: obj_type.split)
next
  case (4 n p)
  show ?case using 4(4,5) by (auto intro!: wp_intros 4(1,2) 4(3) [of _ TCELL, simplified])
qed simp_all

lemmas wp_print [wp_intros] = wp_print_both(1)

lemma wp_add_variable [wp_intros]:
  assumes "lisp_ok s" and "readable (shape s) env" "readable (shape s) symb" "readable (shape s) val"
    and "\<And>s'. lisp_ok s' \<Longrightarrow> shape s' = shape s \<Longrightarrow> Q () s'"
  shows "wp (add_variable env symb val) Q s"
  using assms unfolding add_variable_def Let_def by (auto intro!: wp_intros)


lemma wp_find_in: "valid s p \<Longrightarrow> (\<And>b. valid s b \<Longrightarrow> Q b s) \<Longrightarrow> wp (find_in n p symb) Q s"
  by (induction n arbitrary: p) (auto intro!: wp_intros)

lemma wp_find_loop: "valid s p \<Longrightarrow> (\<And>b. valid s b \<Longrightarrow> Q b s) \<Longrightarrow> wp (find_loop n p symb) Q s"
  by (induction n arbitrary: p) (auto intro!: wp_intros wp_find_in)

lemma wp_find [wp_intros]:
  "lisp_ok s \<Longrightarrow> readable (shape s) env \<Longrightarrow> (\<And>b. valid s b \<Longrightarrow> Q b s) \<Longrightarrow> wp (lisp_find n env symb) Q s"
  unfolding lisp_find_def by (auto intro!: wp_intros wp_find_loop)

lemma wp_push_env_loop:
  assumes "lisp_ok s" and "slot (shape s) vars" "slot (shape s) vals" "slot (shape s) mp" "slot (shape s) symb" "slot (shape s) val"
    and "\<And>s'. lisp_ok s' \<Longrightarrow> shape s' = shape s \<Longrightarrow> Q () s'"
  shows "wp (push_env_loop n vars vals mp symb val) Q s"
  using assms by (induction n arbitrary: s) (auto intro!: wp_intros)

lemma wp_push_env [wp_intros]:
  assumes "lisp_ok s" and "readable (shape s) env" "slot (shape s) vars" "slot (shape s) vals"
    and "\<And>p s'. lisp_ok s' \<Longrightarrow> shape s' = shape s \<Longrightarrow> valid s' p \<Longrightarrow> Q p s'"
  shows "wp (push_env n env vars vals) Q s"
  using assms unfolding push_env_def Let_def by (auto intro!: wp_intros wp_push_env_loop)

section \<open>Loops and helpers of the primitives\<close>

lemma wp_plus_loop [wp_intros]: "valid s p \<Longrightarrow> (\<And>i. Q i s) \<Longrightarrow> wp (plus_loop n p acc) Q s"
  by (induction n arbitrary: p acc) (auto intro!: wp_intros)

lemma wp_all_numbers [wp_intros]: "valid s p \<Longrightarrow> Q () s \<Longrightarrow> wp (all_numbers n p) Q s"
  by (induction n arbitrary: p) (auto intro!: wp_intros)

lemma wp_minus_loop [wp_intros]: "valid s p \<Longrightarrow> (\<And>i. Q i s) \<Longrightarrow> wp (minus_loop n p acc) Q s"
  by (induction n arbitrary: p acc) (auto intro!: wp_intros)

lemma wp_params_loop [wp_intros]: "valid s p \<Longrightarrow> Q () s \<Longrightarrow> wp (params_loop n p) Q s"
  by (induction n arbitrary: p) (auto intro!: wp_intros)

lemma wp_handle_function [wp_intros]:
  assumes "lisp_ok s" and "readable (shape s) env" "readable (shape s) list" and "ty = TFUNCTION \<or> ty = TMACRO"
    and "\<And>p s'. lisp_ok s' \<Longrightarrow> shape s' = shape s \<Longrightarrow> valid s' p \<Longrightarrow> Q p s'"
  shows "wp (handle_function n env list ty) Q s"
  using assms(1-3,5) unfolding handle_function_def Let_def by (auto intro!: wp_intros assms(4))

lemma wp_handle_defun [wp_intros]:
  assumes "lisp_ok s" and "readable (shape s) env" "readable (shape s) list" and "ty = TFUNCTION \<or> ty = TMACRO"
    and "\<And>p s'. lisp_ok s' \<Longrightarrow> shape s' = shape s \<Longrightarrow> valid s' p \<Longrightarrow> Q p s'"
  shows "wp (handle_defun n env list ty) Q s"
  using assms(1-3,5) unfolding handle_defun_def Let_def by (auto intro!: wp_intros assms(4))

lemma wp_gensym [wp_intros]:
  assumes "lisp_ok s" and "\<And>p s'. lisp_ok s' \<Longrightarrow> shape s' = shape s \<Longrightarrow> valid s' p \<Longrightarrow> Q p s'"
  shows "wp (prim_gensym ev n env list) Q s"
proof -
  let ?s = "s\<lparr>gensym_count := gensym_count s + 1\<rparr>" and ?buf = "take 9 (''G__'' @ show_int (gensym_count s))"
  have "heap_ok s xs \<Longrightarrow> heap_ok ?s xs" for xs by (rule heap_ok_cong) (auto simp: roots_def)
  then have "lisp_ok ?s" using assms(1) by (auto simp: lisp_ok_def)
  moreover have "shape ?s = shape s" by (simp add: shape_def)
  ultimately have "wp (allocating (make_symbol ?buf)) Q ?s" using assms(2) by (auto intro!: wp_intros)
  then show ?thesis by (simp add: wp_def prim_gensym_def Let_def)
qed

lemma wp_sleep_event [wp_intros]:
  assumes "lisp_ok s" and "\<And>s'. shape s' = shape s \<Longrightarrow> lisp_ok s' \<Longrightarrow> Q p s'"
  shows "wp (\<lambda>s. Inr (p, s\<lparr>sleeps := v # sleeps s\<rparr>)) Q s"
proof -
  let ?s = "s\<lparr>sleeps := v # sleeps s\<rparr>"
  have "heap_ok s xs \<Longrightarrow> heap_ok ?s xs" for xs by (rule heap_ok_cong) (auto simp: roots_def)
  then have "Q p ?s" by (intro assms(2)) (use assms(1) in \<open>auto simp: lisp_ok_def shape_def\<close>)
  then show ?thesis by (simp add: wp_def)
qed

section \<open>The evaluator\<close>

text \<open>What the functions of the evaluator need of the recursive calls: a safe evaluator.\<close>

locale safe_evaluator =
  fixes ev :: evaluator
  assumes ev_safe: "lisp_ok s \<Longrightarrow> slot (shape s) env \<Longrightarrow> slot (shape s) obj \<Longrightarrow>
    wp (ev env obj) (\<lambda>r s'. lisp_ok s' \<and> shape s' = shape s \<and> valid s' r) s"
begin

lemma wp_ev [wp_intros]:
  assumes "lisp_ok s" and "slot (shape s) env" and "slot (shape s) obj"
    and "\<And>p s'. lisp_ok s' \<Longrightarrow> shape s' = shape s \<Longrightarrow> valid s' p \<Longrightarrow> Q p s'"
  shows "wp (ev env obj) Q s"
  by (rule wp_weaken [OF ev_safe [OF assms(1-3)]]) (use assms(4) in auto)

lemma wp_progn_loop:
  assumes "lisp_ok s" and "slot (shape s) env" "slot (shape s) lp" "slot (shape s) r"
    and "\<And>s'. lisp_ok s' \<Longrightarrow> shape s' = shape s \<Longrightarrow> Q () s'"
  shows "wp (progn_loop ev n env lp r) Q s"
  using assms by (induction n arbitrary: s) (auto intro!: wp_intros)

lemma wp_progn [wp_intros]:
  assumes "lisp_ok s" and "slot (shape s) env" "slot (shape s) list"
    and "\<And>p s'. lisp_ok s' \<Longrightarrow> shape s' = shape s \<Longrightarrow> valid s' p \<Longrightarrow> Q p s'"
  shows "wp (progn ev n env list) Q s"
  using assms unfolding progn_def Let_def by (auto intro!: wp_intros wp_progn_loop)

lemma wp_eval_list_loop:
  assumes "lisp_ok s" and "slot (shape s) env" "slot (shape s) lp" "slot (shape s) head" "slot (shape s) expr" "slot (shape s) result"
    and "\<And>s'. lisp_ok s' \<Longrightarrow> shape s' = shape s \<Longrightarrow> Q () s'"
  shows "wp (eval_list_loop ev n env lp head expr result) Q s"
  using assms by (induction n arbitrary: s) (auto intro!: wp_intros)

lemma wp_eval_list [wp_intros]:
  assumes "lisp_ok s" and "slot (shape s) env" "slot (shape s) list"
    and "\<And>p s'. lisp_ok s' \<Longrightarrow> shape s' = shape s \<Longrightarrow> valid s' p \<Longrightarrow> Q p s'"
  shows "wp (eval_list ev n env list) Q s"
  using assms unfolding eval_list_def Let_def by (auto intro!: wp_intros wp_eval_list_loop)

lemma wp_apply_func [wp_intros]:
  assumes "lisp_ok s" and "readable (shape s) fn" "slot (shape s) args"
    and "\<And>p s'. lisp_ok s' \<Longrightarrow> shape s' = shape s \<Longrightarrow> valid s' p \<Longrightarrow> Q p s'"
  shows "wp (apply_func ev n env fn args) Q s"
  using assms unfolding apply_func_def Let_def by (auto intro!: wp_intros)

lemma wp_macroexpand [wp_intros]:
  assumes "lisp_ok s" and "readable (shape s) env" "readable (shape s) obj"
    and "\<And>p s'. lisp_ok s' \<Longrightarrow> shape s' = shape s \<Longrightarrow> valid s' p \<Longrightarrow> Q p s'"
  shows "wp (macroexpand ev n env obj) Q s"
  using assms unfolding macroexpand_def Let_def by (auto intro!: wp_intros)


lemma wp_while_loop:
  assumes "lisp_ok s" and "slot (shape s) env" "slot (shape s) list" "slot (shape s) cond" "slot (shape s) exprs"
    and "\<And>p s'. lisp_ok s' \<Longrightarrow> shape s' = shape s \<Longrightarrow> valid s' p \<Longrightarrow> Q p s'"
  shows "wp (while_loop ev n m env list cond exprs) Q s"
  using assms by (induction m arbitrary: s) (auto intro!: wp_intros)

lemma wp_call_primitive [wp_intros]:
  assumes "lisp_ok s" and "slot (shape s) env" "slot (shape s) list"
    and "\<And>p s'. lisp_ok s' \<Longrightarrow> shape s' = shape s \<Longrightarrow> valid s' p \<Longrightarrow> Q p s'"
  shows "wp (call_primitive prim ev n env list) Q s"
proof (cases prim)
  case prim_quote_f
  then show ?thesis using assms by (auto simp: prim_quote_def intro!: wp_intros)
next
  case prim_cons_f
  then show ?thesis using assms by (auto simp: prim_cons_def intro!: wp_intros)
next
  case prim_car_f
  then show ?thesis using assms by (auto simp: prim_car_def intro!: wp_intros)
next
  case prim_cdr_f
  then show ?thesis using assms by (auto simp: prim_cdr_def intro!: wp_intros)
next
  case prim_setq_f
  then show ?thesis using assms by (auto simp: prim_setq_def Let_def intro!: wp_intros)
next
  case prim_setcar_f
  then show ?thesis using assms by (auto simp: prim_setcar_def Let_def intro!: wp_intros)
next
  case prim_while_f
  then show ?thesis using assms by (auto simp: prim_while_def Let_def intro!: wp_intros wp_while_loop)
next
  case prim_plus_f
  then show ?thesis using assms by (auto simp: prim_plus_def intro!: wp_intros)
next
  case prim_minus_f
  then show ?thesis using assms by (auto simp: prim_minus_def intro!: wp_intros)
next
  case prim_lt_f
  then show ?thesis using assms by (auto simp: prim_lt_def intro!: wp_intros)
next
  case prim_define_f
  then show ?thesis using assms by (auto simp: prim_define_def Let_def intro!: wp_intros)
next
  case prim_macroexpand_f
  then show ?thesis using assms by (auto simp: prim_macroexpand_def Let_def intro!: wp_intros)
next
  case prim_if_f
  then show ?thesis using assms by (auto simp: prim_if_def Let_def intro!: wp_intros)
next
  case prim_num_eq_f
  then show ?thesis using assms by (auto simp: prim_num_eq_def intro!: wp_intros)
next
  case prim_eq_f
  then show ?thesis using assms by (auto simp: prim_eq_def intro!: wp_intros)
next
  case prim_println_f
  then show ?thesis using assms by (auto simp: prim_println_def Let_def intro!: wp_intros)
next
  case prim_panic_f
  then show ?thesis using assms by (auto simp: prim_panic_def Let_def intro!: wp_intros)
next
  case prim_sleep_f
  then show ?thesis using assms by (auto simp: prim_sleep_def Let_def intro!: wp_intros)
qed (use assms in \<open>auto simp: prim_defun_def prim_defmacro_def prim_lambda_def intro!: wp_intros\<close>)

lemma wp_apply [wp_intros]:
  assumes "lisp_ok s" and "slot (shape s) env" "slot (shape s) fn" "slot (shape s) args"
    and "\<And>p s'. lisp_ok s' \<Longrightarrow> shape s' = shape s \<Longrightarrow> valid s' p \<Longrightarrow> Q p s'"
  shows "wp (lisp_apply ev n env fn args) Q s"
  using assms unfolding lisp_apply_def Let_def by (auto intro!: wp_intros)

lemma wp_eval_body:
  assumes "lisp_ok s" and "slot (shape s) env" and "slot (shape s) obj"
    and "\<And>p s'. lisp_ok s' \<Longrightarrow> shape s' = shape s \<Longrightarrow> valid s' p \<Longrightarrow> Q p s'"
  shows "wp (eval_body ev n env obj) Q s"
  using assms unfolding eval_body_def Let_def by (auto intro!: wp_intros split: obj_type.split)

end

lemma safe_eval: "safe_evaluator (eval n)"
proof (induction n)
  case 0
  show ?case by unfold_locales simp
next
  case (Suc n)
  show ?case by unfold_locales (auto intro!: safe_evaluator.wp_eval_body [OF Suc])
qed

text \<open>The evaluator with any fuel is one of them.\<close>

interpretation evaluator: safe_evaluator "eval n" for n
  by (rule safe_eval)

section \<open>Properties\<close>

text \<open>
  (C12) Evaluation never follows a dangling pointer, whenever the collector runs: in well-formed memory, with the
  environment and the expression in root slots, the evaluator follows no pointer to a place that is not an object of the current space.
  It may end with an error message, by running out of memory or of fuel, or by reading through a null pointer or a member that the object does not have
  (\<open>Bad_access\<close>, which programs with arguments missing reach); but if it returns, then with a pointer to an object of the current space, with every
  root frame in place and with memory in which every object has the tag of its contents and no pointer dangles.
\<close>

theorem eval_memory_safe:
  assumes "heap_ok s xs" and "slot (shape s) env" and "slot (shape s) obj"
  shows "case eval n env obj s of
     Inl e \<Rightarrow> e \<noteq> Dangling
   | Inr (p, s') \<Rightarrow> shape s' = shape s \<and> (\<exists>ys. heap_ok s' ys \<and> ptr_in (set ys) p)"
proof -
  have "wp (eval n env obj) (\<lambda>p s'. lisp_ok s' \<and> shape s' = shape s \<and> valid s' p) s"
    by (rule evaluator.ev_safe) (use assms in \<open>auto simp: lisp_ok_def\<close>)
  then show ?thesis by (auto simp: wp_def valid_def split: sum.splits)
qed

text \<open>An environment in which the symbol \<open>x\<close> is bound to seven, and the symbol to be evaluated.\<close>

definition demo_env :: lisp_state where
  "demo_env = \<lparr>memory = 1000, from_space = 0, mem_nused = 104, cur_heap = 1000, next_heap = 2000, memory_size = 104,
     gc_running = False, debug_gc = False, always_gc = True, Symbols = Nil_obj,
     mem = [1000 \<mapsto> \<lparr>ob_type = TENV, ob_size = 24, ob_value = Frame (Ref 1024) Nil_obj\<rparr>,
       1024 \<mapsto> \<lparr>ob_type = TCELL, ob_size = 24, ob_value = Cell (Ref 1048) Nil_obj\<rparr>,
       1048 \<mapsto> \<lparr>ob_type = TCELL, ob_size = 24, ob_value = Cell (Ref 1072) (Ref 1088)\<rparr>,
       1072 \<mapsto> \<lparr>ob_type = TSYMBOL, ob_size = 16, ob_value = Name ''x''\<rparr>,
       1088 \<mapsto> \<lparr>ob_type = TINT, ob_size = 16, ob_value = Value 7\<rparr>],
     scan1 = 0, scan2 = 0, frames = [[Ref 1000, Ref 1072]], lisp_out = [], nil_cdr = Null_obj, gensym_count = 0, lisp_in = [], sleeps = []\<rparr>"

lemma demo_env_ok: "heap_ok demo_env [1000, 1024, 1048, 1072, 1088]"
  by (simp add: heap_ok_def demo_env_def objects_ok_def roots_def typed_def)

lemma demo_env_eval: "eval (Suc (Suc (Suc 0))) (Slot 0 0) (Slot 0 1) demo_env = Inr (Ref 1088, demo_env)"
proof -
  note in_heap = in_heap_iff [OF demo_env_ok]
  have fields: "frames demo_env = [[Ref 1000, Ref 1072]]" "mem demo_env 1000 = Some \<lparr>ob_type = TENV, ob_size = 24, ob_value = Frame (Ref 1024) Nil_obj\<rparr>"
    "mem demo_env 1024 = Some \<lparr>ob_type = TCELL, ob_size = 24, ob_value = Cell (Ref 1048) Nil_obj\<rparr>"
    "mem demo_env 1048 = Some \<lparr>ob_type = TCELL, ob_size = 24, ob_value = Cell (Ref 1072) (Ref 1088)\<rparr>"
    "mem demo_env 1072 = Some \<lparr>ob_type = TSYMBOL, ob_size = 16, ob_value = Name ''x''\<rparr>"
    by (simp_all add: demo_env_def)
  note at = lbind_def get_def deref_def type_of_def value_of_def vars_of_def car_def cdr_def return_def in_heap
  show ?thesis by (simp add: eval_body_def lisp_find_def at fields)
qed

theorem eval_memory_safe_witness:
  "heap_ok demo_env [1000, 1024, 1048, 1072, 1088] \<and> eval (Suc (Suc (Suc 0))) (Slot 0 0) (Slot 0 1) demo_env = Inr (Ref 1088, demo_env) \<and>
   (\<exists>ys. heap_ok demo_env ys \<and> ptr_in (set ys) (Ref 1088))"
proof -
  have "slot (shape demo_env) (Slot 0 0)" "slot (shape demo_env) (Slot 0 1)" by (simp_all add: shape_def demo_env_def)
  from eval_memory_safe [OF demo_env_ok this, of "Suc (Suc (Suc 0))"] show ?thesis using demo_env_ok unfolding demo_env_eval by simp
qed

end
