(* ===== verification/LispRead.thy ===== *)
theory LispRead
  imports LispSafety
begin

text \<open>
  The reader and the main loop of the Lisp interpreter, \<^verbatim>\<open>src/kernel/minilisp.c\<close>: expressions are read from the
  serial line character by character, evaluated and printed.
\<close>

section \<open>Characters\<close>

definition peek :: "char lisp" where
  "peek s = (case lisp_in s of [] \<Rightarrow> Inl No_input | c # cs \<Rightarrow> Inr (c, s))"

definition get1char :: "char lisp" where
  "get1char s = (case lisp_in s of [] \<Rightarrow> Inl No_input | c # cs \<Rightarrow> Inr (c, s\<lparr>lisp_in := cs\<rparr>))"

text \<open>A byte of ones is \<^verbatim>\<open>EOF\<close> once the \<^verbatim>\<open>char\<close> has been converted to \<^verbatim>\<open>int\<close>.\<close>

definition is_eof :: "char \<Rightarrow> bool" where
  "is_eof c \<longleftrightarrow> c = CHR 0xFF"

definition isdigit :: "char \<Rightarrow> bool" where
  "isdigit c \<longleftrightarrow> 48 \<le> (of_char c :: nat) \<and> (of_char c :: nat) \<le> 57"

definition isalpha :: "char \<Rightarrow> bool" where
  "isalpha c \<longleftrightarrow> (65 \<le> (of_char c :: nat) \<and> (of_char c :: nat) \<le> 90) \<or> (97 \<le> (of_char c :: nat) \<and> (of_char c :: nat) \<le> 122)"

definition isalnum :: "char \<Rightarrow> bool" where
  "isalnum c \<longleftrightarrow> isalpha c \<or> isdigit c"

text \<open>\<^verbatim>\<open>strchr\<close> also finds the zero byte that ends the string.\<close>

definition symbol_char :: "char \<Rightarrow> bool" where
  "symbol_char c \<longleftrightarrow> c \<in> set ''~!@#$%^&*-_=+:/?<>'' \<or> c = CHR 0x00"

definition SYMBOL_MAX_LEN :: nat where
  "SYMBOL_MAX_LEN = 200"

text \<open>The string that a buffer holds ends before its first zero byte.\<close>

definition c_string :: "string \<Rightarrow> string" where
  "c_string buf = takeWhile (\<lambda>c. c \<noteq> CHR 0x00) buf"

section \<open>The reader\<close>

primrec skip_line :: "nat \<Rightarrow> unit lisp" where
  "skip_line 0 = fail No_fuel"
| "skip_line (Suc n) =
     lbind get1char (\<lambda>c.
     if is_eof c \<or> c = CHR 0x0A then return ()
     else if c = CHR 0x0D then
       lbind peek (\<lambda>d. if d = CHR 0x0A then lbind get1char (\<lambda>_. return ()) else return ())
     else skip_line n)"

primrec intern_loop :: "nat \<Rightarrow> string \<Rightarrow> obj \<Rightarrow> obj lisp" where
  "intern_loop 0 name p = fail No_fuel"
| "intern_loop (Suc n) name p =
     (if p = Nil_obj then return Null_obj
      else lbind (car p) (\<lambda>x. lbind (name_of x) (\<lambda>nm.
        if name = nm then return x else lbind (cdr p) (intern_loop n name))))"

definition intern :: "nat \<Rightarrow> string \<Rightarrow> obj lisp" where
  "intern n name =
     lbind (get SymbolsH) (\<lambda>p. lbind (intern_loop n name p) (\<lambda>found.
     if found \<noteq> Null_obj then return found
     else DEFINE 1 (\<lambda>k. let symb = Slot k 0 in
       lbind (allocating (make_symbol name)) (\<lambda>x. lbind (put symb x) (\<lambda>_.
       lbind (allocating (cons symb SymbolsH)) (\<lambda>l. lbind (put SymbolsH l) (\<lambda>_. get symb)))))))"

primrec read_number :: "nat \<Rightarrow> 32 word \<Rightarrow> 32 word lisp" where
  "read_number 0 val = fail No_fuel"
| "read_number (Suc n) val =
     lbind peek (\<lambda>c.
     if isdigit c then lbind get1char (\<lambda>c. read_number n (val * 10 + (of_nat (of_char c) - 48)))
     else return val)"

text \<open>The buffer is the characters read so far; their number is \<^verbatim>\<open>len\<close>.\<close>

primrec read_symbol_loop :: "nat \<Rightarrow> string \<Rightarrow> string lisp" where
  "read_symbol_loop 0 buf = fail No_fuel"
| "read_symbol_loop (Suc n) buf =
     lbind peek (\<lambda>c.
     if isalnum c \<or> symbol_char c then
       if SYMBOL_MAX_LEN \<le> length buf then lisp_error ''Symbol name too long''
       else lbind get1char (\<lambda>c. read_symbol_loop n (buf @ [c]))
     else return buf)"

definition read_symbol :: "nat \<Rightarrow> char \<Rightarrow> obj lisp" where
  "read_symbol n c = lbind (read_symbol_loop n [c]) (\<lambda>buf. intern n (c_string buf))"

text \<open>\<open>rd\<close> is the reader of an expression, for the recursive calls.\<close>

primrec read_list_loop :: "obj lisp \<Rightarrow> nat \<Rightarrow> nat \<Rightarrow> handle \<Rightarrow> handle \<Rightarrow> handle \<Rightarrow> obj lisp" where
  "read_list_loop rd n 0 obj head lst = fail No_fuel"
| "read_list_loop rd n (Suc m) obj head lst =
     lbind rd (\<lambda>x. lbind (put obj x) (\<lambda>_.
     if x = Null_obj then lisp_error ''Unclosed parenthesis''
     else if x = Cparen_obj then lbind (get head) (reverse n)
     else if x = Dot_obj then
       lbind rd (\<lambda>y. lbind (put lst y) (\<lambda>_.
       lbind rd (\<lambda>z.
       if z \<noteq> Cparen_obj then lisp_error ''Closed parenthesis expected after dot''
       else
         lbind (get head) (\<lambda>h. lbind (reverse n h) (\<lambda>ret.
         lbind (get head) (\<lambda>h. lbind (get lst) (\<lambda>y. lbind (set_cdr h y) (\<lambda>_. return ret))))))))
     else
       lbind (allocating (cons obj head)) (\<lambda>h. lbind (put head h) (\<lambda>_. read_list_loop rd n m obj head lst))))"

definition read_list :: "obj lisp \<Rightarrow> nat \<Rightarrow> obj lisp" where
  "read_list rd n = DEFINE 3 (\<lambda>k. let obj = Slot k 0; head = Slot k 1; lst = Slot k 2 in
     lbind (put head Nil_obj) (\<lambda>_. read_list_loop rd n n obj head lst))"

definition read_quote :: "obj lisp \<Rightarrow> nat \<Rightarrow> obj lisp" where
  "read_quote rd n = DEFINE 2 (\<lambda>k. let symb = Slot k 0; tmp = Slot k 1 in
     lbind (intern n ''quote'') (\<lambda>x. lbind (put symb x) (\<lambda>_.
     lbind rd (\<lambda>y. lbind (put tmp y) (\<lambda>_.
     lbind (allocating (cons tmp (StaticH Nil_obj))) (\<lambda>y. lbind (put tmp y) (\<lambda>_.
     lbind (allocating (cons symb tmp)) (\<lambda>y. lbind (put tmp y) (\<lambda>_. get tmp)))))))))"

definition read_expr_body :: "obj lisp \<Rightarrow> nat \<Rightarrow> obj lisp" where
  "read_expr_body rd n =
     lbind get1char (\<lambda>c.
     if c = CHR '' '' \<or> c = CHR 0x0A \<or> c = CHR 0x0D \<or> c = CHR 0x09 then rd
     else if is_eof c then return Null_obj
     else if c = CHR '';'' then lbind (skip_line n) (\<lambda>_. rd)
     else if c = CHR ''('' then read_list rd n
     else if c = CHR '')'' then return Cparen_obj
     else if c = CHR ''.'' then return Dot_obj
     else if c = CHR 0x27 then read_quote rd n
     else if isdigit c then lbind (read_number n (of_nat (of_char c) - 48)) (\<lambda>v. allocating (make_int v))
     else
       lbind (if c = CHR ''-'' then lbind peek (\<lambda>d. return (isdigit d)) else return False) (\<lambda>neg.
       if neg then lbind (read_number n 0) (\<lambda>v. allocating (make_int (- v)))
       else if isalpha c \<or> symbol_char c then read_symbol n c
       else lisp_error ''Don't know how to handle %c''))"

primrec read_expr :: "nat \<Rightarrow> obj lisp" where
  "read_expr 0 = fail No_fuel"
| "read_expr (Suc n) = read_expr_body (read_expr n) n"

section \<open>The main loop\<close>

definition add_primitive :: "nat \<Rightarrow> handle \<Rightarrow> string \<Rightarrow> primitive \<Rightarrow> unit lisp" where
  "add_primitive n env name fn = DEFINE 2 (\<lambda>k. let symb = Slot k 0; prim = Slot k 1 in
     lbind (intern n name) (\<lambda>x. lbind (put symb x) (\<lambda>_.
     lbind (allocating (make_primitive fn)) (\<lambda>p. lbind (put prim p) (\<lambda>_.
     add_variable env symb prim)))))"

definition define_constants :: "nat \<Rightarrow> handle \<Rightarrow> unit lisp" where
  "define_constants n env = DEFINE 1 (\<lambda>k. let symb = Slot k 0 in
     lbind (intern n ''t'') (\<lambda>x. lbind (put symb x) (\<lambda>_. add_variable env symb (StaticH True_obj))))"

primrec add_primitives :: "nat \<Rightarrow> handle \<Rightarrow> (string \<times> primitive) list \<Rightarrow> unit lisp" where
  "add_primitives n env [] = return ()"
| "add_primitives n env (p # ps) = lbind (add_primitive n env (fst p) (snd p)) (\<lambda>_. add_primitives n env ps)"

definition define_primitives :: "nat \<Rightarrow> handle \<Rightarrow> unit lisp" where
  "define_primitives n env = add_primitives n env
     [(''quote'', prim_quote_f), (''cons'', prim_cons_f), (''car'', prim_car_f), (''cdr'', prim_cdr_f),
      (''setq'', prim_setq_f), (''setcar'', prim_setcar_f), (''while'', prim_while_f), (''gensym'', prim_gensym_f),
      (''+'', prim_plus_f), (''-'', prim_minus_f), (''<'', prim_lt_f), (''define'', prim_define_f),
      (''defun'', prim_defun_f), (''defmacro'', prim_defmacro_f), (''macroexpand'', prim_macroexpand_f),
      (''lambda'', prim_lambda_f), (''if'', prim_if_f), (''='', prim_num_eq_f), (''eq'', prim_eq_f),
      (''println'', prim_println_f), (''panic'', prim_panic_f), (''sleep'', prim_sleep_f)]"

primrec repl_loop :: "nat \<Rightarrow> nat \<Rightarrow> handle \<Rightarrow> handle \<Rightarrow> unit lisp" where
  "repl_loop n 0 env expr = fail No_fuel"
| "repl_loop n (Suc m) env expr =
     lbind (read_expr n) (\<lambda>x. lbind (put expr x) (\<lambda>_.
     if x = Null_obj then return ()
     else if x = Cparen_obj then lisp_error ''Stray close parenthesis''
     else if x = Dot_obj then lisp_error ''Stray dot''
     else
       lbind (eval n env expr) (\<lambda>y. lbind (lisp_print n y) (\<lambda>_. lbind (write_str [CHR 0x0A]) (\<lambda>_.
       repl_loop n m env expr)))))"

definition lisp_repl_main :: "nat \<Rightarrow> unit lisp" where
  "lisp_repl_main n s =
     (let s = s\<lparr>Symbols := Nil_obj\<rparr>; s = s\<lparr>frames := []\<rparr> in
      DEFINE 2 (\<lambda>k. let env = Slot k 0; expr = Slot k 1 in
        lbind (allocating (make_env (StaticH Nil_obj) (StaticH Nil_obj))) (\<lambda>e. lbind (put env e) (\<lambda>_.
        lbind (define_constants n env) (\<lambda>_. lbind (define_primitives n env) (\<lambda>_.
        repl_loop n n env expr))))) s)"

section \<open>The interpreter is memory safe\<close>

lemma wp_peek [wp_intros]: "(\<And>c. Q c s) \<Longrightarrow> wp peek Q s"
  by (simp add: wp_def peek_def split: list.split)

lemma wp_get1char [wp_intros]:
  assumes "lisp_ok s" and "\<And>c s'. lisp_ok s' \<Longrightarrow> shape s' = shape s \<Longrightarrow> (\<And>q. valid s q \<Longrightarrow> valid s' q) \<Longrightarrow> Q c s'"
  shows "wp get1char Q s"
proof -
  have "heap_ok s xs \<Longrightarrow> heap_ok (s\<lparr>lisp_in := cs\<rparr>) xs" for cs xs by (rule heap_ok_cong) (auto simp: roots_def)
  then have "Q c (s\<lparr>lisp_in := cs\<rparr>)" for c cs
    by (intro assms(2)) (use assms(1) in \<open>auto simp: lisp_ok_def valid_def shape_def\<close>)
  then show ?thesis by (simp add: wp_def get1char_def split: list.split)
qed

lemma wp_skip_line [wp_intros]:
  assumes "lisp_ok s" and "\<And>s'. lisp_ok s' \<Longrightarrow> shape s' = shape s \<Longrightarrow> Q () s'"
  shows "wp (skip_line n) Q s"
  using assms by (induction n arbitrary: s) (auto intro!: wp_intros)

lemma wp_put_Symbols [wp_intros]:
  assumes "valid s p" and "\<And>s'. lisp_ok s' \<Longrightarrow> shape s' = shape s \<Longrightarrow> (\<And>q. valid s q \<Longrightarrow> valid s' q) \<Longrightarrow> Q () s'"
  shows "wp (put SymbolsH p) Q s"
proof -
  define s' where "s' = s\<lparr>Symbols := p\<rparr>"
  have "roots s' \<subseteq> roots s \<union> {p}" by (auto simp: roots_def s'_def)
  then have k: "heap_ok s xs \<Longrightarrow> heap_ok s' xs" for xs
    using assms(1) valid_iff [of s xs p] by (intro heap_ok_cong [of s' s]) (auto simp: s'_def)
  then have "Q () s'" by (intro assms(2)) (use assms(1) in \<open>auto simp: lisp_ok_def valid_def shape_def s'_def\<close>)
  then show ?thesis by (simp add: wp_def put_def store_def s'_def)
qed

lemma wp_intern_loop [wp_intros]: "valid s p \<Longrightarrow> (\<And>x. valid s x \<Longrightarrow> Q x s) \<Longrightarrow> wp (intern_loop n name p) Q s"
  by (induction n arbitrary: p) (auto intro!: wp_intros)

lemma wp_intern:
  assumes "length name + 23 < 2 ^ 64" and "lisp_ok s" and "\<And>p s'. lisp_ok s' \<Longrightarrow> shape s' = shape s \<Longrightarrow> valid s' p \<Longrightarrow> Q p s'"
  shows "wp (intern n name) Q s"
  using assms(2,3) unfolding intern_def Let_def by (auto intro!: wp_intros assms(1))

lemma wp_read_number [wp_intros]:
  assumes "lisp_ok s" and "\<And>v s'. lisp_ok s' \<Longrightarrow> shape s' = shape s \<Longrightarrow> Q v s'"
  shows "wp (read_number n val) Q s"
  using assms by (induction n arbitrary: s val) (auto intro!: wp_intros)

lemma wp_read_symbol_loop:
  assumes "lisp_ok s" and "length buf \<le> SYMBOL_MAX_LEN" and "\<And>b s'. lisp_ok s' \<Longrightarrow> shape s' = shape s \<Longrightarrow> length b \<le> SYMBOL_MAX_LEN \<Longrightarrow> Q b s'"
  shows "wp (read_symbol_loop n buf) Q s"
  using assms by (induction n arbitrary: s buf) (auto intro!: wp_intros simp: SYMBOL_MAX_LEN_def)

lemma wp_read_symbol [wp_intros]:
  assumes "lisp_ok s" and "\<And>p s'. lisp_ok s' \<Longrightarrow> shape s' = shape s \<Longrightarrow> valid s' p \<Longrightarrow> Q p s'"
  shows "wp (read_symbol n c) Q s"
proof -
  have "length (c_string b) + 23 < 2 ^ 64" if "length b \<le> SYMBOL_MAX_LEN" for b
    using that length_takeWhile_le [of "\<lambda>c. c \<noteq> CHR 0x00" b] by (simp add: c_string_def SYMBOL_MAX_LEN_def)
  then show ?thesis using assms unfolding read_symbol_def by (auto intro!: wp_read_symbol_loop wp_intern simp: SYMBOL_MAX_LEN_def)
qed

lemma wp_any: "wp m Q s \<Longrightarrow> wp m' Q s \<Longrightarrow> wp (if c then m else m') Q s"
  "wp m (\<lambda>x. wp (f x) R) s \<Longrightarrow> wp (lbind m f) R s" "T x s \<Longrightarrow> wp (return x) T s"
  by simp_all

text \<open>What the functions of the reader need of the recursive calls: a safe reader.\<close>

locale safe_reader =
  fixes rd :: "obj lisp"
  assumes rd_safe: "lisp_ok s \<Longrightarrow> wp rd (\<lambda>r s'. lisp_ok s' \<and> shape s' = shape s \<and> valid s' r) s"
begin

lemma wp_rd [wp_intros]:
  assumes "lisp_ok s" and "\<And>p s'. lisp_ok s' \<Longrightarrow> shape s' = shape s \<Longrightarrow> valid s' p \<Longrightarrow> Q p s'"
  shows "wp rd Q s"
  by (rule wp_weaken [OF rd_safe [OF assms(1)]]) (use assms(2) in auto)

lemma wp_read_list_loop:
  assumes "lisp_ok s" and "slot (shape s) obj" "slot (shape s) head" "slot (shape s) lst"
    and "\<And>p s'. lisp_ok s' \<Longrightarrow> shape s' = shape s \<Longrightarrow> valid s' p \<Longrightarrow> Q p s'"
  shows "wp (read_list_loop rd n m obj head lst) Q s"
  using assms by (induction m arbitrary: s) (auto intro!: wp_intros)

lemma wp_read_list:
  assumes "lisp_ok s" and "\<And>p s'. lisp_ok s' \<Longrightarrow> shape s' = shape s \<Longrightarrow> valid s' p \<Longrightarrow> Q p s'"
  shows "wp (read_list rd n) Q s"
  using assms unfolding read_list_def Let_def by (auto intro!: wp_intros wp_read_list_loop)

lemma wp_read_quote:
  assumes "lisp_ok s" and "\<And>p s'. lisp_ok s' \<Longrightarrow> shape s' = shape s \<Longrightarrow> valid s' p \<Longrightarrow> Q p s'"
  shows "wp (read_quote rd n) Q s"
  using assms unfolding read_quote_def Let_def by (auto intro!: wp_intros wp_intern)

lemma wp_read_expr_body:
  assumes "lisp_ok s" and "\<And>p s'. lisp_ok s' \<Longrightarrow> shape s' = shape s \<Longrightarrow> valid s' p \<Longrightarrow> Q p s'"
  shows "wp (read_expr_body rd n) Q s"
  unfolding read_expr_body_def
  by (intro wp_any wp_error wp_get1char wp_peek wp_skip_line wp_read_number wp_read_symbol wp_constructors(1)
      wp_rd wp_read_list wp_read_quote) (use assms in auto)

end

lemma safe_read: "safe_reader (read_expr n)"
proof (induction n)
  case 0
  show ?case by unfold_locales simp
next
  case (Suc n)
  show ?case by unfold_locales (auto intro!: safe_reader.wp_read_expr_body [OF Suc])
qed

interpretation reader: safe_reader "read_expr n" for n
  by (rule safe_read)

lemma wp_add_primitive:
  assumes "length name + 23 < 2 ^ 64" and "lisp_ok s" and "readable (shape s) env" and "\<And>s'. lisp_ok s' \<Longrightarrow> shape s' = shape s \<Longrightarrow> Q () s'"
  shows "wp (add_primitive n env name fn) Q s"
  using assms unfolding add_primitive_def Let_def by (auto intro!: wp_intros wp_intern)

lemma wp_add_primitives:
  assumes "\<forall>p\<in>set ps. length (fst p) + 23 < 2 ^ 64" and "lisp_ok s" and "readable (shape s) env" and "\<And>s'. lisp_ok s' \<Longrightarrow> shape s' = shape s \<Longrightarrow> Q () s'"
  shows "wp (add_primitives n env ps) Q s"
  using assms by (induction ps arbitrary: s) (auto intro!: wp_add_primitive)

lemma wp_define_primitives [wp_intros]:
  assumes "lisp_ok s" and "readable (shape s) env" and "\<And>s'. lisp_ok s' \<Longrightarrow> shape s' = shape s \<Longrightarrow> Q () s'"
  shows "wp (define_primitives n env) Q s"
  unfolding define_primitives_def by (rule wp_add_primitives) (use assms in auto)

lemma wp_define_constants [wp_intros]:
  assumes "lisp_ok s" and "readable (shape s) env" and "\<And>s'. lisp_ok s' \<Longrightarrow> shape s' = shape s \<Longrightarrow> Q () s'"
  shows "wp (define_constants n env) Q s"
  using assms unfolding define_constants_def Let_def by (auto intro!: wp_intros wp_intern)

lemma wp_repl_loop:
  assumes "lisp_ok s" and "slot (shape s) env" and "slot (shape s) expr" and "\<And>s'. lisp_ok s' \<Longrightarrow> shape s' = shape s \<Longrightarrow> Q () s'"
  shows "wp (repl_loop n m env expr) Q s"
  using assms by (induction m arbitrary: s) (auto intro!: wp_intros reader.wp_rd evaluator.wp_ev)

text \<open>The two spaces, of the same size, do not overlap.\<close>

definition spaces_apart :: "nat \<Rightarrow> nat \<Rightarrow> nat \<Rightarrow> bool" where
  "spaces_apart heap1 heap2 heap_size \<longleftrightarrow> heap1 + heap_size \<le> heap2 \<or> heap2 + heap_size \<le> heap1"

lemma repl_safe:
  assumes "spaces_apart heap1 heap2 heap_size" and "\<not> gc_running s"
  shows "wp (lisp_repl_main n) (\<lambda>_ s'. lisp_ok s') (lisp_init heap1 heap2 heap_size debug always s)"
proof -
  define s0 where "s0 = (lisp_init heap1 heap2 heap_size debug always s)\<lparr>Symbols := Nil_obj, frames := []\<rparr>"
  have "heap_ok s0 []" using assms by (auto simp: s0_def lisp_init_def heap_ok_def objects_ok_def roots_def spaces_apart_def)
  then have ok: "lisp_ok s0" by (auto simp: lisp_ok_def)
  have "wp (DEFINE 2 (\<lambda>k. let env = Slot k 0; expr = Slot k 1 in
        lbind (allocating (make_env (StaticH Nil_obj) (StaticH Nil_obj))) (\<lambda>e. lbind (put env e) (\<lambda>_.
        lbind (define_constants n env) (\<lambda>_. lbind (define_primitives n env) (\<lambda>_.
        repl_loop n n env expr)))))) (\<lambda>_ s'. lisp_ok s') s0"
    using ok unfolding Let_def by (auto intro!: wp_intros wp_repl_loop)
  then show ?thesis by (simp add: wp_def lisp_repl_main_def s0_def)
qed

section \<open>Properties\<close>

text \<open>
  (C11) The interpreter never follows a dangling pointer: started on two spaces that do not overlap, it reads,
  evaluates and prints whatever the serial line delivers, with the collector run as rarely or as often as
  the flags say, and every object that it accesses is an object of the current space. It can end by \<^verbatim>\<open>error\<close>,
  with the memory exhausted, or with an access to a null pointer or to a member that the object does not
  have, but never with an access to memory that a collection has left behind; and if it returns, memory is
  well-formed.
\<close>

theorem repl_memory_safe:
  assumes "spaces_apart heap1 heap2 heap_size" and "\<not> gc_running s"
  shows "case lisp_repl_main n (lisp_init heap1 heap2 heap_size debug always s) of
     Inl e \<Rightarrow> e \<noteq> Dangling
   | Inr (r, s') \<Rightarrow> \<exists>xs. heap_ok s' xs"
  using repl_safe [OF assms] by (simp add: wp_def lisp_ok_def)

text \<open>The interpreter as the program starts it, on two heaps of 65536 bytes.\<close>

definition demo_repl :: lisp_state where
  "demo_repl = \<lparr>memory = 0, from_space = 0, mem_nused = 0, cur_heap = 0, next_heap = 0, memory_size = 0,
     gc_running = False, debug_gc = False, always_gc = False, Symbols = Null_obj, mem = Map.empty, scan1 = 0, scan2 = 0,
     frames = [], lisp_out = [], nil_cdr = Null_obj, gensym_count = 0, lisp_in = ''(define x (cons 1 2)) (car x)'', sleeps = []\<rparr>"

theorem repl_memory_safe_witness:
  "case lisp_repl_main 1000 (lisp_init 0x10000 0x20000 65536 False True demo_repl) of
     Inl e \<Rightarrow> e \<noteq> Dangling
   | Inr (r, s') \<Rightarrow> \<exists>xs. heap_ok s' xs"
  by (rule repl_memory_safe) (simp_all add: spaces_apart_def demo_repl_def)

end
