(* ===== verification/LispExpr.thy ===== *)
theory LispExpr
  imports LispRead
begin

text \<open>
  Expressions as trees, and how they are in the memory of the Lisp interpreter: when a pointer stands for an
  expression, what \<^verbatim>\<open>print\<close> writes for it, what allocations and collections keep of it, and what relinking the
  cells of one list, as \<^verbatim>\<open>reverse\<close> does, keeps of everything else.
\<close>

section \<open>Expressions and their text\<close>

datatype sexp = SInt "32 word" | SSym string | SNil | SCons sexp sexp

fun show_sexp :: "sexp \<Rightarrow> string" and show_rest :: "sexp \<Rightarrow> string" where
  "show_sexp (SInt v) = show_int v"
| "show_sexp (SSym n) = n"
| "show_sexp SNil = ''()''"
| "show_sexp (SCons a d) = ''('' @ show_sexp a @ show_rest d @ '')''"
| "show_rest (SInt v) = '' . '' @ show_int v"
| "show_rest (SSym n) = '' . '' @ n"
| "show_rest SNil = []"
| "show_rest (SCons a d) = '' '' @ show_sexp a @ show_rest d"

text \<open>Symbols that can be written: a first character that starts a symbol and not a number, only symbol characters,
  and no more of them than \<^verbatim>\<open>lisp_printf\<close> writes.\<close>

definition symbol_ok :: "string \<Rightarrow> bool" where
  "symbol_ok n \<longleftrightarrow> n \<noteq> [] \<and> length n \<le> 99 \<and> (isalpha (hd n) \<or> symbol_char (hd n)) \<and>
     (\<forall>c\<in>set n. (isalnum c \<or> symbol_char c) \<and> c \<noteq> CHR 0x00) \<and> \<not> (hd n = CHR ''-'' \<and> n \<noteq> ''-'' \<and> isdigit (n ! 1))"

primrec symbols_ok :: "sexp \<Rightarrow> bool" where
  "symbols_ok (SInt v) \<longleftrightarrow> True"
| "symbols_ok (SSym n) \<longleftrightarrow> symbol_ok n"
| "symbols_ok SNil \<longleftrightarrow> True"
| "symbols_ok (SCons a d) \<longleftrightarrow> symbols_ok a \<and> symbols_ok d"

section \<open>Expressions in memory\<close>

definition object :: "lisp_state \<Rightarrow> obj \<Rightarrow> obj_type \<Rightarrow> obj_value \<Rightarrow> bool" where
  "object s p ty v \<longleftrightarrow> (\<exists>a k. p = Ref a \<and> in_heap a s \<and> mem s a = Some \<lparr>ob_type = ty, ob_size = k, ob_value = v\<rparr>)"

text \<open>\<open>p\<close> stands for an expression, whose cells are not at the addresses \<open>A\<close>.\<close>

primrec repr :: "nat set \<Rightarrow> lisp_state \<Rightarrow> sexp \<Rightarrow> obj \<Rightarrow> bool" where
  "repr A s (SInt v) p \<longleftrightarrow> object s p TINT (Value v)"
| "repr A s (SSym n) p \<longleftrightarrow> object s p TSYMBOL (Name n)"
| "repr A s SNil p \<longleftrightarrow> p = Nil_obj"
| "repr A s (SCons x y) p \<longleftrightarrow> (\<exists>a q r. p = Ref a \<and> a \<notin> A \<and> object s p TCELL (Cell q r) \<and> repr A s x q \<and> repr A s y r)"

lemma access:
  assumes "object s p ty v"
  shows "type_of p s = Inr (ty, s)" "value_of p s = Inr (v, s)"
  using assms by (auto simp: object_def type_of_def value_of_def)

lemma object_cell:
  assumes "object s p TCELL (Cell q r)"
  shows "car p s = Inr (q, s)" "cdr p s = Inr (r, s)" "p \<noteq> Nil_obj" "p \<noteq> Null_obj" "p \<noteq> Cparen_obj" "p \<noteq> Dot_obj"
  using assms access [OF assms] by (auto simp: object_def car_def cdr_def lbind_def return_def)

definition same_memory :: "lisp_state \<Rightarrow> lisp_state \<Rightarrow> bool" where
  "same_memory s s' \<longleftrightarrow> mem s' = mem s \<and> memory s' = memory s \<and> mem_nused s' = mem_nused s"

lemma same_memory_object: "same_memory s s' \<Longrightarrow> object s' p ty v = object s p ty v"
  by (simp add: same_memory_def object_def in_heap_def)

lemma same_memory_repr: "same_memory s s' \<Longrightarrow> repr A s' e p = repr A s e p"
  by (induction e arbitrary: p) (simp_all add: same_memory_object)

section \<open>Printing\<close>

lemma length_show_nat: "n < 10 ^ k \<Longrightarrow> 0 < k \<Longrightarrow> length (show_nat n) \<le> k"
proof (induction n arbitrary: k rule: show_nat.induct)
  case (1 n)
  show ?case
  proof (cases "n < 10")
    case True
    then show ?thesis using 1(3) by (subst show_nat.simps) simp
  next
    case False
    then obtain j where j: "k = Suc j" "0 < j" using 1(2,3) by (cases k; cases "k - 1") auto
    then have "n div 10 < 10 ^ j" using 1(2) by (simp add: div_less_iff_less_mult)
    then have "length (show_nat (n div 10)) \<le> j" using 1(1) False j(2) by simp
    then show ?thesis using False j(1) by (subst show_nat.simps) simp
  qed
qed

lemma length_show_int: "length (show_int v) \<le> 11"
proof -
  have "sint v < 2 ^ 31" "- (2 ^ 31) \<le> sint v" using sint_lt [of v] sint_ge [of v] by simp_all
  then have "nat (sint v) < 10 ^ 10" "nat (- sint v) < 10 ^ 10" by auto
  then show ?thesis
    using length_show_nat [of "nat (sint v)" 10] length_show_nat [of "nat (- sint v)" 10] by (auto simp: show_int_def)
qed

lemma lisp_printf_short: "length txt \<le> 99 \<Longrightarrow> lisp_printf txt s = lisp_write txt s"
  by (simp add: lisp_printf_def)

lemma same_memory_write [simp]: "same_memory s (lisp_write txt s)"
  by (simp add: same_memory_def lisp_write_def)

lemma repr_write [simp]: "object (lisp_write txt s) p ty v = object s p ty v" "repr A (lisp_write txt s) e p = repr A s e p"
  using same_memory_object same_memory_repr same_memory_write by blast+

lemma lisp_write_append: "lisp_write b (lisp_write a s) = lisp_write (a @ b) s"
  by (simp add: lisp_write_def)

lemma print_ok:
  "repr A s e p \<Longrightarrow> symbols_ok e \<Longrightarrow> 2 * size e < n \<Longrightarrow> lisp_print n p s = Inr ((), lisp_write (show_sexp e) s)"
  "repr A s (SCons a d) p \<Longrightarrow> symbols_ok a \<Longrightarrow> symbols_ok d \<Longrightarrow> 2 * (size a + size d) + 1 < n \<Longrightarrow>
     print_cells n p s = Inr ((), lisp_write (show_sexp a @ show_rest d) s)"
proof (induction n arbitrary: e p s a d)
  case (Suc n)
  note print = access lbind_def write_str_def printf_def lisp_printf_short lisp_write_append same_memory_repr
  { case 1
    show ?case
    proof (cases e)
      case (SInt v)
      then have o: "object s p TINT (Value v)" using 1 by simp
      show ?thesis using SInt length_show_int [of v] access [OF o] by (simp add: print int_value_def return_def)
    next
      case (SSym m)
      then have o: "object s p TSYMBOL (Name m)" "length m \<le> 99" using 1 by (simp_all add: symbol_ok_def)
      show ?thesis using SSym o(2) access [OF o(1)] by (simp add: print name_of_def return_def)
    next
      case SNil
      then show ?thesis using 1 by (simp add: print type_of_def)
    next
      case (SCons a d)
      then have r: "repr A (lisp_write ''('' s) (SCons a d) p" using 1(1) same_memory_repr [OF same_memory_write] by blast
      obtain q t where o: "object s p TCELL (Cell q t)" using 1(1) SCons by auto
      have "print_cells n p (lisp_write ''('' s) = Inr ((), lisp_write (show_sexp a @ show_rest d) (lisp_write ''('' s))"
        by (rule Suc.IH(2) [OF r]) (use 1(2,3) SCons in auto)
      then show ?thesis using SCons access [OF o] by (simp add: print)
    qed
  next
    case 2
    then obtain x q r where o: "p = Ref x" "object s p TCELL (Cell q r)" "repr A s a q" "repr A s d r" by auto
    note c = object_cell [OF o(2)]
    let ?s = "lisp_write (show_sexp a) s"
    have pa: "lisp_print n q s = Inr ((), ?s)" by (rule Suc.IH(1) [OF o(3) 2(2)]) (use 2(4) in simp)
    have o': "object ?s p TCELL (Cell q r)" "repr A ?s d r" using o(2,4) by simp_all
    note c' = object_cell [OF o'(1)]
    show ?case
    proof (cases d)
      case SNil
      then have "r = Nil_obj" using o(4) by simp
      then show ?thesis using SNil c c' pa by (simp add: lbind_def return_def)
    next
      case (SCons b e)
      let ?s2 = "lisp_write '' '' ?s"
      have r2: "repr A ?s2 (SCons b e) r" using o'(2) SCons by simp
      have "print_cells n r ?s2 = Inr ((), lisp_write (show_sexp b @ show_rest e) ?s2)"
        by (rule Suc.IH(2) [OF r2]) (use 2 SCons in auto)
      moreover obtain q2 t2 where o2: "object ?s r TCELL (Cell q2 t2)" using o'(2) SCons by auto
      ultimately show ?thesis using SCons c c' pa access [OF o2] object_cell(3) [OF o2]
        by (simp add: lbind_def return_def write_str_def lisp_write_append)
    next
      case (SInt v)
      let ?s2 = "lisp_write '' . '' ?s"
      have "lisp_print n r ?s2 = Inr ((), lisp_write (show_sexp d) ?s2)"
        by (rule Suc.IH(1)) (use o'(2) 2(3,4) SInt in auto)
      moreover have o2: "object ?s r TINT (Value v)" using o'(2) SInt by simp
      moreover from o2 have "r \<noteq> Nil_obj" by (auto simp: object_def)
      ultimately show ?thesis using SInt c c' pa access [OF o2] by (simp add: lbind_def return_def write_str_def lisp_write_append)
    next
      case (SSym m)
      let ?s2 = "lisp_write '' . '' ?s"
      have "lisp_print n r ?s2 = Inr ((), lisp_write (show_sexp d) ?s2)"
        by (rule Suc.IH(1)) (use o'(2) 2(3,4) SSym in auto)
      moreover have o2: "object ?s r TSYMBOL (Name m)" using o'(2) SSym by simp
      moreover from o2 have "r \<noteq> Nil_obj" by (auto simp: object_def)
      ultimately show ?thesis using SSym c c' pa access [OF o2] by (simp add: lbind_def return_def write_str_def lisp_write_append)
    qed
  }
qed simp_all

section \<open>What allocation and reading keep\<close>

text \<open>The objects that can be reached from the symbols and the \<open>K\<close> outermost frames.\<close>

definition outer_roots :: "nat \<Rightarrow> lisp_state \<Rightarrow> obj set" where
  "outer_roots K s = insert (Symbols s) (\<Union>f\<in>set (take K (frames s)). set f)"

abbreviation outer :: "nat \<Rightarrow> lisp_state \<Rightarrow> nat set" where
  "outer K s \<equiv> reach (outer_roots K s) (mem s)"

text \<open>Those objects are still there, at the addresses given by \<open>f\<close>.\<close>

definition kept :: "nat \<Rightarrow> (nat \<Rightarrow> nat) \<Rightarrow> lisp_state \<Rightarrow> lisp_state \<Rightarrow> bool" where
  "kept K f s s' \<longleftrightarrow> inj_on f (outer K s) \<and> take K (frames s') = map (map (rename f)) (take K (frames s)) \<and>
     (\<forall>a\<in>outer K s. in_heap (f a) s' \<and> mem s' (f a) = Some (map_obj (rename f) (the (mem s a))))"

text \<open>A list from \<open>p\<close> to \<open>t\<close>: the addresses of its cells, with their elements.\<close>

primrec spine :: "lisp_state \<Rightarrow> obj \<Rightarrow> (nat \<times> obj) list \<Rightarrow> obj \<Rightarrow> bool" where
  "spine s p [] t \<longleftrightarrow> p = t"
| "spine s p (x # sp) t \<longleftrightarrow> p = Ref (fst x) \<and> (\<exists>r. object s p TCELL (Cell (snd x) r) \<and> spine s r sp t)"

definition symbols :: "lisp_state \<Rightarrow> (nat \<times> obj) list \<Rightarrow> bool" where
  "symbols s cs \<longleftrightarrow> spine s (Symbols s) cs Nil_obj \<and> (\<forall>x\<in>set cs. \<exists>n. object s (snd x) TSYMBOL (Name n))"

definition move :: "(nat \<Rightarrow> nat) \<Rightarrow> nat \<times> obj \<Rightarrow> nat \<times> obj" where
  "move f x = (f (fst x), rename f (snd x))"

text \<open>What the reader may do: move objects, make new ones, and put new symbols in front of the list of symbols.\<close>

definition reads_to :: "nat \<Rightarrow> lisp_state \<Rightarrow> (nat \<times> obj) list \<Rightarrow> (nat \<Rightarrow> nat) \<Rightarrow> lisp_state \<Rightarrow> (nat \<times> obj) list \<Rightarrow> bool" where
  "reads_to K s cs f s' cs' \<longleftrightarrow> lisp_ok s' \<and> kept K f s s' \<and> symbols s' cs' \<and>
     (\<exists>new. cs' = new @ map (move f) cs \<and> fst ` set new \<inter> f ` outer K s = {})"

lemma rename_simps [simp]: "rename f (Ref a) = Ref (f a)" "rename f Nil_obj = Nil_obj" "rename f Null_obj = Null_obj"
  "rename f True_obj = True_obj" "rename f Dot_obj = Dot_obj" "rename f Cparen_obj = Cparen_obj"
  by (simp_all add: rename_def)

lemma rename_comp: "rename (g \<circ> f) p = rename g (rename f p)" "rename (\<lambda>x. g (f x)) p = rename g (rename f p)"
  by (cases p; simp)+

lemma move_id [simp]: "move id = id"
  by (rule ext) (simp add: move_def)

lemma rename_eq_Ref: "rename f p = Ref b \<longleftrightarrow> (\<exists>a. p = Ref a \<and> b = f a)"
  by (cases p) auto

lemma map_obj_comp: "map_obj (rename (g \<circ> f)) ob = map_obj (rename g) (map_obj (rename f) ob)"
proof -
  have "map_value (rename (g \<circ> f)) v = map_value (rename g) (map_value (rename f) v)" for v by (cases v) (simp_all add: rename_comp)
  then show ?thesis by (simp add: map_obj_def)
qed

lemma outer_root: "p \<in> outer_roots K s \<Longrightarrow> ptr_in (outer K s) p"
  by (auto simp: ptr_in_def intro: reach_root)

lemma outer_field: "ptr_in (outer K s) p \<Longrightarrow> object s p ty v \<Longrightarrow> q \<in> set (ptrs v) \<Longrightarrow> ptr_in (outer K s) q"
  by (cases q) (auto simp: object_def intro: reach_field)

lemma outer_mono:
  assumes "K \<le> L" shows "outer K s \<subseteq> outer L s"
proof -
  have "set (take K (frames s)) \<subseteq> set (take L (frames s))" using assms by (rule set_take_subset_set_take)
  then have r: "outer_roots K s \<subseteq> outer_roots L s" by (auto simp: outer_roots_def)
  show ?thesis
  proof
    fix a assume "a \<in> outer K s"
    then show "a \<in> outer L s" by induction (use r in \<open>auto intro: reach_root reach_field\<close>)
  qed
qed

lemma outer_live: "length (frames s) \<le> K \<Longrightarrow> outer K s = live s"
  by (simp add: outer_roots_def roots_def)

lemma outer_subset_live: "outer K s \<subseteq> live s"
  using outer_mono [of K "max K (length (frames s))" s] outer_live [of s "max K (length (frames s))"] by simp

lemma object_kept:
  assumes "kept K f s s'" and "object s p ty v" and "ptr_in (outer K s) p"
  shows "object s' (rename f p) ty (map_value (rename f) v)"
  using assms by (auto simp: kept_def object_def map_obj_def)

lemma repr_kept:
  assumes "kept K f s s'" and "\<And>c. c \<in> outer K s \<Longrightarrow> c \<notin> A \<Longrightarrow> f c \<notin> B"
  shows "repr A s e p \<Longrightarrow> ptr_in (outer K s) p \<Longrightarrow> repr B s' e (rename f p)"
proof (induction e arbitrary: p)
  case (SCons x y)
  then obtain a q r where o: "p = Ref a" "a \<notin> A" "object s p TCELL (Cell q r)" "repr A s x q" "repr A s y r" by auto
  have "ptr_in (outer K s) q" "ptr_in (outer K s) r" using outer_field [OF SCons.prems(2) o(3)] by simp_all
  then have "repr B s' x (rename f q)" "repr B s' y (rename f r)" using SCons.IH o(4,5) by blast+
  moreover have "object s' (rename f p) TCELL (Cell (rename f q) (rename f r))" using object_kept [OF assms(1) o(3) SCons.prems(2)] by simp
  ultimately show ?case using o(1,2) assms(2) SCons.prems(2) by auto
qed (use object_kept [OF assms(1)] in fastforce)+

lemma spine_outer:
  "spine s p sp t \<Longrightarrow> ptr_in (outer K s) p \<Longrightarrow> fst ` set sp \<subseteq> outer K s \<and> (\<forall>x\<in>set sp. ptr_in (outer K s) (snd x)) \<and> ptr_in (outer K s) t"
proof (induction sp arbitrary: p)
  case (Cons x sp)
  then obtain r where o: "p = Ref (fst x)" "object s p TCELL (Cell (snd x) r)" "spine s r sp t" by auto
  have "ptr_in (outer K s) (snd x)" "ptr_in (outer K s) r" using outer_field [OF Cons.prems(2) o(2)] by simp_all
  then show ?case using Cons.IH [OF o(3)] o(1) Cons.prems(2) by simp
qed simp

lemma spine_kept:
  "kept K f s s' \<Longrightarrow> spine s p sp t \<Longrightarrow> ptr_in (outer K s) p \<Longrightarrow> spine s' (rename f p) (map (move f) sp) (rename f t)"
proof (induction sp arbitrary: p)
  case (Cons x sp)
  then obtain r where o: "p = Ref (fst x)" "object s p TCELL (Cell (snd x) r)" "spine s r sp t" by auto
  have "ptr_in (outer K s) r" using outer_field [OF Cons.prems(3) o(2)] by simp
  then show ?case using Cons.IH [OF Cons.prems(1) o(3)] object_kept [OF Cons.prems(1) o(2) Cons.prems(3)] o(1) by (auto simp: move_def)
qed simp

lemma symbols_outer: "symbols s cs \<Longrightarrow> fst ` set cs \<subseteq> outer K s"
  using spine_outer [of s "Symbols s" cs Nil_obj K] outer_root [of "Symbols s" K s] by (simp add: symbols_def outer_roots_def)

lemma kept_outer:
  assumes "reads_to K s cs f s' cs'" and "symbols s cs"
  shows "f ` outer K s \<subseteq> outer K s'"
proof
  have k: "kept K f s s'" and c: "symbols s' cs'" "set (map (move f) cs) \<subseteq> set cs'" using assms(1) by (auto simp: reads_to_def)
  fix b assume "b \<in> f ` outer K s"
  then obtain a where a: "a \<in> outer K s" "b = f a" by blast
  from a(1) have "f a \<in> outer K s'"
  proof induction
    case (reach_root a)
    then consider "Ref a = Symbols s" | fr where "fr \<in> set (take K (frames s))" "Ref a \<in> set fr" by (auto simp: outer_roots_def)
    then show ?case
    proof cases
      case 1
      then obtain x where "x \<in> set cs" "a = fst x" using assms(2) by (cases cs) (auto simp: symbols_def)
      then have "f a \<in> fst ` set cs'" using c(2) by (force simp: move_def)
      then show ?thesis using symbols_outer [OF c(1)] by blast
    next
      case 2
      then have "map (rename f) fr \<in> set (take K (frames s'))" "Ref (f a) \<in> set (map (rename f) fr)"
        using k by (auto simp: kept_def intro: image_eqI [of _ _ "Ref a"])
      then have "Ref (f a) \<in> outer_roots K s'" unfolding outer_roots_def by blast
      then show ?thesis by (rule reach.reach_root)
    qed
  next
    case (reach_field a ob b)
    then have "mem s' (f a) = Some (map_obj (rename f) ob)" "Ref (f b) \<in> set (ptrs (ob_value (map_obj (rename f) ob)))"
      using k by (auto simp: kept_def map_obj_def intro: image_eqI [of _ _ "Ref b"])
    then show ?case using reach_field by (auto intro: reach.reach_field)
  qed
  then show "b \<in> outer K s'" using a(2) by simp
qed

lemma reads_to_trans:
  assumes sy: "symbols s cs" and 1: "reads_to K s cs f s1 cs1" and 2: "reads_to K s1 cs1 g s2 cs2"
  shows "reads_to K s cs (g \<circ> f) s2 cs2"
proof -
  have sub: "f ` outer K s \<subseteq> outer K s1" by (rule kept_outer [OF 1 sy])
  have k1: "kept K f s s1" and k2: "kept K g s1 s2" and sy1: "symbols s1 cs1" using 1 2 by (simp_all add: reads_to_def)
  obtain n1 n2 where n: "cs1 = n1 @ map (move f) cs" "fst ` set n1 \<inter> f ` outer K s = {}"
      "cs2 = n2 @ map (move g) cs1" "fst ` set n2 \<inter> g ` outer K s1 = {}" using 1 2 by (auto simp: reads_to_def)
  have inj: "inj_on g (outer K s1)" using k2 by (simp add: kept_def)
  have "inj_on (g \<circ> f) (outer K s)" using k1 inj_on_subset [OF inj sub] by (auto simp: kept_def intro: comp_inj_on)
  moreover have "take K (frames s2) = map (map (rename (g \<circ> f))) (take K (frames s))"
    using k1 k2 by (simp add: kept_def rename_comp o_def)
  moreover have "in_heap ((g \<circ> f) a) s2 \<and> mem s2 ((g \<circ> f) a) = Some (map_obj (rename (g \<circ> f)) (the (mem s a)))" if "a \<in> outer K s" for a
    using k1 k2 that sub by (auto simp: kept_def map_obj_comp)
  ultimately have "kept K (g \<circ> f) s s2" by (simp add: kept_def)
  moreover have "cs2 = (n2 @ map (move g) n1) @ map (move (g \<circ> f)) cs"
    using n(1,3) by (simp add: move_def rename_comp o_def)
  moreover have "fst ` set (n2 @ map (move g) n1) \<inter> (g \<circ> f) ` outer K s = {}"
  proof -
    have "fst ` set n1 \<subseteq> outer K s1" using symbols_outer [OF sy1, of K] n(1) by auto
    then have "g ` fst ` set n1 \<inter> g ` f ` outer K s = {}" using inj_on_image_Int [OF inj _ sub, of "fst ` set n1"] n(2) by simp
    moreover have "fst ` set (n2 @ map (move g) n1) = fst ` set n2 \<union> g ` fst ` set n1" by (auto simp: move_def image_image image_Un)
    moreover have "fst ` set n2 \<inter> g ` f ` outer K s = {}" using Int_mono [OF subset_refl image_mono [OF sub, of g], of "fst ` set n2"] n(4) by simp
    moreover have "(g \<circ> f) ` outer K s = g ` f ` outer K s" by (rule image_comp [symmetric])
    ultimately show ?thesis by (simp only: Int_Un_distrib2 Un_empty_left)
  qed
  ultimately show ?thesis using 2 unfolding reads_to_def by blast
qed

lemma reads_to_refl:
  assumes "lisp_ok s" and "symbols s cs" shows "reads_to K s cs id s cs"
proof -
  obtain xs where xs: "heap_ok s xs" using assms(1) by (auto simp: lisp_ok_def)
  have "in_heap a s \<and> (\<exists>ob. mem s a = Some ob)" if "a \<in> outer K s" for a
  proof -
    have "a \<in> set xs" using that outer_subset_live [of K s] live_subset [OF xs] by blast
    then show ?thesis using in_heap_iff [OF xs] heap_ok_object [OF xs] by blast
  qed
  then have "kept K id s s" by (auto simp: kept_def)
  then show ?thesis using assms by (auto simp: reads_to_def)
qed

lemma reads_to_restrict:
  assumes "reads_to L s cs f s' cs'" and "K \<le> L" shows "reads_to K s cs f s' cs'"
proof -
  have sub: "outer K s \<subseteq> outer L s" by (rule outer_mono [OF assms(2)])
  have "take K (take L (frames s')) = map (map (rename f)) (take K (take L (frames s)))" using assms(1) by (simp add: reads_to_def kept_def take_map)
  then have "take K (frames s') = map (map (rename f)) (take K (frames s))" using assms(2) by (simp add: min_def)
  then have "kept K f s s'" using assms(1) sub by (auto simp: reads_to_def kept_def intro: inj_on_subset)
  moreover have "f ` outer K s \<subseteq> f ` outer L s" using sub by blast
  ultimately show ?thesis using assms(1) unfolding reads_to_def by blast
qed

lemma reads_to_local:
  assumes "reads_to K s cs f s1 cs1" and "lisp_ok s2" and "same_memory s1 s2" and "take K (frames s2) = take K (frames s1)" and "Symbols s2 = Symbols s1"
  shows "reads_to K s cs f s2 cs1"
proof -
  have "spine s2 p sp t = spine s1 p sp t" for p sp t by (induction sp arbitrary: p) (simp_all add: same_memory_object [OF assms(3)])
  then show ?thesis using assms
    by (simp add: reads_to_def kept_def symbols_def same_memory_object [OF assms(3)]) (simp add: same_memory_def in_heap_def)
qed

section \<open>Outcomes of the reader\<close>

text \<open>The computation returns with \<open>Q\<close>, unless the memory is exhausted.\<close>

definition gives :: "'a lisp \<Rightarrow> ('a \<Rightarrow> lisp_state \<Rightarrow> bool) \<Rightarrow> lisp_state \<Rightarrow> bool" where
  "gives m Q s \<longleftrightarrow> (case m s of Inl e \<Rightarrow> e = Error ''Memory exhausted'' | Inr (x, s') \<Rightarrow> Q x s')"

lemma gives_lbind [simp]: "gives (lbind m f) Q s = gives m (\<lambda>x. gives (f x) Q) s"
  by (simp add: gives_def lbind_def split: sum.split)

lemma gives_return [simp]: "gives (return x) Q s = Q x s"
  by (simp add: gives_def return_def)

lemma gives_if [simp]: "gives (if c then m else m') Q s = (if c then gives m Q s else gives m' Q s)"
  by simp

lemma gives_Inr: "m s = Inr (x, s') \<Longrightarrow> gives m Q s = Q x s'"
  by (simp add: gives_def)

lemma gives_weaken: "gives m Q s \<Longrightarrow> (\<And>x s'. Q x s' \<Longrightarrow> R x s') \<Longrightarrow> gives m R s"
  by (auto simp: gives_def split: sum.splits)

lemma wp_Inr: "wp m Q s \<Longrightarrow> m s = Inr (x, s') \<Longrightarrow> Q x s'"
  by (simp add: wp_def)

definition set_slot :: "nat \<Rightarrow> nat \<Rightarrow> obj \<Rightarrow> lisp_state \<Rightarrow> lisp_state" where
  "set_slot k i p s = s\<lparr>frames := (frames s)[k := (frames s ! k)[i := p]]\<rparr>"

lemma put_slot: "k < length (frames s) \<Longrightarrow> i < length (frames s ! k) \<Longrightarrow> put (Slot k i) p s = Inr ((), set_slot k i p s)"
  by (simp add: put_def store_def set_slot_def)

lemma get_slot: "k < length (frames s) \<Longrightarrow> i < length (frames s ! k) \<Longrightarrow> get (Slot k i) s = Inr (frames s ! k ! i, s)"
  by (simp add: get_def deref_def)

lemma set_slot_ok:
  assumes "valid s p" and "k < length (frames s)" and "i < length (frames s ! k)"
  shows "lisp_ok (set_slot k i p s)"
proof -
  have "wp (put (Slot k i) p) (\<lambda>_ s'. lisp_ok s') s" by (rule wp_put) (use assms in \<open>simp_all add: shape_def\<close>)
  then show ?thesis using put_slot [OF assms(2,3)] by (rule wp_Inr)
qed

lemma set_slot_simps [simp]:
  "same_memory s (set_slot k i p s)" "Symbols (set_slot k i p s) = Symbols s" "lisp_in (set_slot k i p s) = lisp_in s"
  "K \<le> k \<Longrightarrow> take K (frames (set_slot k i p s)) = take K (frames s)"
  "frames (set_slot k i p s) = (frames s)[k := (frames s ! k)[i := p]]" "mem (set_slot k i p s) = mem s"
  by (simp_all add: set_slot_def same_memory_def)

lemma repr_valid: "lisp_ok s \<Longrightarrow> repr A s e p \<Longrightarrow> valid s p"
  by (cases e) (auto simp: object_def lisp_ok_def valid_def in_heap_iff)

lemma lisp_ok_in: "lisp_ok s \<Longrightarrow> lisp_ok (s\<lparr>lisp_in := cs\<rparr>)"
proof -
  assume "lisp_ok s"
  moreover have "heap_ok s xs \<Longrightarrow> heap_ok (s\<lparr>lisp_in := cs\<rparr>) xs" for xs by (rule heap_ok_cong) (auto simp: roots_def)
  ultimately show ?thesis by (auto simp: lisp_ok_def)
qed

lemma in_simps [simp]: "same_memory s (s\<lparr>lisp_in := cs\<rparr>)" "repr A (s\<lparr>lisp_in := cs\<rparr>) e p = repr A s e p"
  using same_memory_repr [of s "s\<lparr>lisp_in := cs\<rparr>"] by (simp_all add: same_memory_def)

lemma reads_to_in: "reads_to K s cs f s1 cs1 \<Longrightarrow> reads_to K s cs f (s1\<lparr>lisp_in := w\<rparr>) cs1"
  by (rule reads_to_local) (simp_all add: reads_to_def lisp_ok_in)

lemma chars: "lisp_in s = c # cs \<Longrightarrow> get1char s = Inr (c, s\<lparr>lisp_in := cs\<rparr>)" "lisp_in s = c # cs \<Longrightarrow> peek s = Inr (c, s)"
  by (simp_all add: get1char_def peek_def)

lemma built_gives:
  assumes ok: "lisp_ok s" and sy: "symbols s cs" and b: "built (c s) ty n v s"
    and Q: "\<And>f s' a. reads_to (length (frames s)) s cs f s' (map (move f) cs) \<Longrightarrow> object s' (Ref a) ty (map_value (rename f) v) \<Longrightarrow>
      a \<notin> f ` live s \<Longrightarrow> frames s' = map (map (rename f)) (frames s) \<Longrightarrow> Symbols s' = rename f (Symbols s) \<Longrightarrow> lisp_in s' = lisp_in s \<Longrightarrow> Q (Ref a) s'"
  shows "gives (allocating c) Q s"
proof (cases "memory_size s < live_size s + n")
  case True
  then show ?thesis using b by (simp add: built_def gives_def allocating_def)
next
  case False
  then obtain s' f ys a where r: "c s = Some (Ref a, s')" "heap_ok s' (ys @ [a])" "f ` live s \<subseteq> set ys" "a \<notin> set ys" "moved_to f s s'" "block_kept s s'"
      "mem s' a = Some \<lparr>ob_type = ty, ob_size = n, ob_value = map_value (rename f) v\<rparr>"
    using b by (auto simp: built_def constructed_def)
  let ?K = "length (frames s)"
  have live: "outer ?K s = live s" by (rule outer_live) simp
  have fs: "frames s' = map (map (rename f)) (frames s)" "Symbols s' = rename f (Symbols s)" using r(5) by (simp_all add: moved_to_def)
  have k: "kept ?K f s s'" unfolding kept_def live using r(3,5) in_heap_iff [OF r(2)] by (auto simp: moved_to_def)
  have root: "ptr_in (outer ?K s) (Symbols s)" by (rule outer_root) (simp add: outer_roots_def)
  have sp: "spine s (Symbols s) cs Nil_obj" "\<forall>x\<in>set cs. \<exists>n. object s (snd x) TSYMBOL (Name n)" using sy by (simp_all add: symbols_def)
  have "\<exists>n. object s' (snd (move f x)) TSYMBOL (Name n)" if "x \<in> set cs" for x
    using sp(2) that object_kept [OF k, of "snd x"] spine_outer [OF sp(1) root] by (fastforce simp: move_def)
  then have "symbols s' (map (move f) cs)" using spine_kept [OF k sp(1) root] fs(2) by (simp add: symbols_def)
  moreover have "lisp_ok s'" using r(2) by (auto simp: lisp_ok_def)
  ultimately have rt: "reads_to ?K s cs f s' (map (move f) cs)" using k by (auto simp: reads_to_def)
  have "object s' (Ref a) ty (map_value (rename f) v)" using r(2,7) by (auto simp: object_def in_heap_iff)
  moreover have "lisp_in s' = lisp_in s" using r(6) by (cases s; cases s') (simp add: block_kept_def)
  moreover have "a \<notin> f ` live s" using r(3,4) by blast
  ultimately have "Q (Ref a) s'" using Q [OF rt] fs by blast
  then show ?thesis using r(1) by (simp add: gives_def allocating_def)
qed

section \<open>Reversing a list\<close>

text \<open>\<open>s'\<close> differs from \<open>s\<close> only in the cells at the addresses \<open>A\<close>.\<close>

definition relinked :: "nat set \<Rightarrow> lisp_state \<Rightarrow> lisp_state \<Rightarrow> bool" where
  "relinked A s s' \<longleftrightarrow> frames s' = frames s \<and> Symbols s' = Symbols s \<and> lisp_in s' = lisp_in s \<and> (\<forall>b. in_heap b s' = in_heap b s) \<and>
     (\<forall>b. b \<notin> A \<longrightarrow> mem s' b = mem s b) \<and> (\<forall>p ty v. object s p ty v \<longrightarrow> p \<notin> Ref ` A \<or> ty \<noteq> TCELL \<longrightarrow> object s' p ty v)"

lemma relinked_trans: "relinked A s s1 \<Longrightarrow> relinked A s1 s2 \<Longrightarrow> relinked A s s2"
  by (simp add: relinked_def)

lemma relinked_mono: "relinked A s s1 \<Longrightarrow> A \<subseteq> B \<Longrightarrow> relinked B s s1"
  unfolding relinked_def by blast

lemma object_at_cong: "(\<And>a. map_option ob_size (m a) = map_option ob_size (m' a)) \<Longrightarrow> object_at m a b x = object_at m' a b x"
proof (induction m a b x rule: object_at.induct)
  case (1 m a b x)
  have eq: "map_option ob_size (m a) = map_option ob_size (m' a)" by (rule 1(2))
  show ?case
  proof (cases "a < b")
    case True
    show ?thesis
    proof (cases "m a")
      case None
      then have "m' a = None" using eq by simp
      then show ?thesis using None by (simp add: object_at.simps [of m] object_at.simps [of m'])
    next
      case (Some ob)
      then obtain ob' where ob': "m' a = Some ob'" "ob_size ob' = ob_size ob" using eq by (cases "m' a") auto
      then show ?thesis using Some True 1(1) [OF True Some] 1(2) by (simp add: object_at.simps [of m a] object_at.simps [of m' a])
    qed
  next
    case False
    then show ?thesis by (simp add: object_at.simps [of m] object_at.simps [of m'])
  qed
qed

lemma set_cdr_cell:
  assumes "object s (Ref a) TCELL (Cell q r)"
  shows "\<exists>s'. set_cdr (Ref a) t s = Inr ((), s') \<and> relinked {a} s s' \<and> object s' (Ref a) TCELL (Cell q t)"
proof -
  obtain k where k: "in_heap a s" "mem s a = Some \<lparr>ob_type = TCELL, ob_size = k, ob_value = Cell q r\<rparr>" using assms by (auto simp: object_def)
  define s' where "s' = s\<lparr>mem := (mem s)(a \<mapsto> \<lparr>ob_type = TCELL, ob_size = k, ob_value = Cell q t\<rparr>)\<rparr>"
  have ih: "in_heap b s' = in_heap b s" for b
    unfolding in_heap_def by (simp add: s'_def) (rule object_at_cong, simp add: k(2))
  have "set_cdr (Ref a) t s = Inr ((), s')"
    using k by (simp add: set_cdr_def lbind_def value_of_def set_contents_def s'_def)
  moreover have "object s' p ty v" if "object s p ty v" "p \<noteq> Ref a \<or> ty \<noteq> TCELL" for p ty v
  proof -
    note cases = that(2)
    from that(1) obtain b j where b: "p = Ref b" "in_heap b s" "mem s b = Some \<lparr>ob_type = ty, ob_size = j, ob_value = v\<rparr>" unfolding object_def by blast
    have "b \<noteq> a" using cases b k(2) by auto
    then have "mem s' b = mem s b" by (simp add: s'_def)
    then show ?thesis using b ih by (auto simp: object_def)
  qed
  then have "relinked {a} s s'" unfolding relinked_def using ih by (auto simp: s'_def)
  moreover have "object s' (Ref a) TCELL (Cell q t)" unfolding object_def using ih k(1) by (auto simp: s'_def)
  ultimately show ?thesis by blast
qed

lemma relinked_object: "relinked A s s' \<Longrightarrow> object s p ty v \<Longrightarrow> p \<notin> Ref ` A \<or> ty \<noteq> TCELL \<Longrightarrow> object s' p ty v"
  unfolding relinked_def by blast

lemma spine_relinked:
  assumes "relinked A s s'" shows "spine s p sp t \<Longrightarrow> fst ` set sp \<inter> A = {} \<Longrightarrow> spine s' p sp t"
proof (induction sp arbitrary: p)
  case (Cons x sp)
  then obtain r where o: "p = Ref (fst x)" "object s p TCELL (Cell (snd x) r)" "spine s r sp t" by auto
  have "p \<notin> Ref ` A" using o(1) Cons.prems(2) by auto
  then have "object s' p TCELL (Cell (snd x) r)" using assms o(2) unfolding relinked_def by blast
  then show ?case using Cons.IH [OF o(3)] Cons.prems(2) o(1) by auto
qed simp

lemma repr_relinked: "relinked A s s' \<Longrightarrow> A \<subseteq> B \<Longrightarrow> repr B s e p \<Longrightarrow> repr B s' e p"
proof (induction e arbitrary: p)
  case (SCons x y)
  then obtain a q r where o: "p = Ref a" "a \<notin> B" "object s p TCELL (Cell q r)" "repr B s x q" "repr B s y r" by auto
  have "p \<notin> Ref ` A" using o(1,2) SCons.prems(2) by auto
  then have "object s' p TCELL (Cell q r)" using SCons.prems(1) o(3) unfolding relinked_def by blast
  then show ?case using SCons o by auto
qed (auto simp: relinked_def)

lemma reads_to_relinked:
  assumes "reads_to K s0 cs0 f s cs" and "relinked A s s'" and "lisp_ok s'" and "A \<inter> f ` outer K s0 = {}" and "A \<inter> fst ` set cs = {}"
  shows "reads_to K s0 cs0 f s' cs"
proof -
  have k: "kept K f s0 s" "symbols s cs" using assms(1) by (simp_all add: reads_to_def)
  have "mem s' (f a) = mem s (f a)" if "a \<in> outer K s0" for a using that assms(2,4) by (auto simp: relinked_def)
  then have "kept K f s0 s'" using k(1) assms(2) by (auto simp: kept_def relinked_def)
  moreover have "\<exists>n. object s' (snd x) TSYMBOL (Name n)" if "x \<in> set cs" for x
  proof -
    from k(2) that obtain n where "object s (snd x) TSYMBOL (Name n)" unfolding symbols_def by blast
    then show ?thesis using relinked_object [OF assms(2)] by blast
  qed
  moreover have "spine s' (Symbols s) cs Nil_obj"
    by (rule spine_relinked [OF assms(2)]) (use k(2) assms(5) in \<open>auto simp: symbols_def\<close>)
  moreover have "Symbols s' = Symbols s" using assms(2) by (simp add: relinked_def)
  ultimately have "kept K f s0 s'" "symbols s' cs" unfolding symbols_def by auto
  then show ?thesis using assms(1,3) by (simp add: reads_to_def)
qed

lemma reverse_loop_ok:
  assumes "spine s p sp Nil_obj" and "spine s ret sp2 t" and "distinct (map fst sp)" and "fst ` set sp \<inter> fst ` set sp2 = {}" and "length sp < n"
  shows "\<exists>q s'. reverse_loop n p ret s = Inr (q, s') \<and> spine s' q (rev sp @ sp2) t \<and> relinked (fst ` set sp) s s'"
  using assms
proof (induction sp arbitrary: n p ret s sp2)
  case Nil
  then obtain m where "n = Suc m" by (cases n) auto
  then show ?case using Nil by (auto simp: return_def relinked_def)
next
  case (Cons x sp)
  obtain m where m: "n = Suc m" using Cons.prems(5) by (cases n) auto
  obtain r where o: "p = Ref (fst x)" "object s p TCELL (Cell (snd x) r)" "spine s r sp Nil_obj" using Cons.prems(1) by auto
  obtain s1 where s1: "set_cdr (Ref (fst x)) ret s = Inr ((), s1)" "relinked {fst x} s s1" "object s1 (Ref (fst x)) TCELL (Cell (snd x) ret)"
    using set_cdr_cell o(1,2) by blast
  have "spine s1 r sp Nil_obj" by (rule spine_relinked [OF s1(2) o(3)]) (use Cons.prems(3) in auto)
  moreover have "spine s1 ret sp2 t" by (rule spine_relinked [OF s1(2) Cons.prems(2)]) (use Cons.prems(4) in auto)
  then have "spine s1 p (x # sp2) t" using s1(3) o(1) by auto
  ultimately obtain q s' where r: "reverse_loop m r p s1 = Inr (q, s')" "spine s' q (rev sp @ x # sp2) t" "relinked (fst ` set sp) s1 s'"
    using Cons.IH [of s1 r p "x # sp2" m] Cons.prems(3-5) m by auto
  have "relinked (fst ` set (x # sp)) s s'"
    by (rule relinked_trans [OF relinked_mono [OF s1(2)] relinked_mono [OF r(3)]]) auto
  moreover have "reverse_loop n p ret s = Inr (q, s')"
    using object_cell [OF o(2)] s1(1) r(1) o(1) m by (simp add: lbind_def)
  ultimately show ?case using r(2) by auto
qed

end
