(* ===== verification/LispRoundtrip.thy ===== *)
theory LispRoundtrip
  imports LispExpr
begin

text \<open>
  Printing and reading back. The text that \<^verbatim>\<open>print\<close> writes for an expression made of numbers, symbols and cells is
  read by \<^verbatim>\<open>read_expr\<close> as an expression of the same structure, at whatever addresses the allocations and
  collections in between put it: rules for the outcome of each function of the reader, the invariant of the
  loop of \<^verbatim>\<open>read_list\<close>, and an induction on the expression.
\<close>

section \<open>What reading an expression does\<close>

text \<open>\<open>p\<close> stands for \<open>e\<close>, in cells of its own; \<open>w\<close> is left to be read, and there are at most \<open>j\<close> symbols.\<close>

definition has_read :: "nat \<Rightarrow> lisp_state \<Rightarrow> (nat \<times> obj) list \<Rightarrow> sexp \<Rightarrow> string \<Rightarrow> nat \<Rightarrow> obj \<Rightarrow> lisp_state \<Rightarrow> bool" where
  "has_read K s cs e w j p s' \<longleftrightarrow> length (frames s') = length (frames s) \<and> lisp_in s' = w \<and>
     (\<exists>f cs'. reads_to K s cs f s' cs' \<and> repr (f ` outer K s) s' e p \<and> length cs' \<le> j)"

lemma object_valid: "lisp_ok s \<Longrightarrow> object s p ty v \<Longrightarrow> valid s p"
  by (auto simp: object_def lisp_ok_def valid_def in_heap_iff)

lemma outer_cong: "mem s' = mem s \<Longrightarrow> take K (frames s') = take K (frames s) \<Longrightarrow> Symbols s' = Symbols s \<Longrightarrow> outer K s' = outer K s"
  by (simp add: outer_roots_def)

lemma symbols_cong: "same_memory s s' \<Longrightarrow> Symbols s' = Symbols s \<Longrightarrow> symbols s' cs = symbols s cs"
proof -
  assume m: "same_memory s s'" and "Symbols s' = Symbols s"
  moreover have "spine s' p sp t = spine s p sp t" for p sp t by (induction sp arbitrary: p) (simp_all add: same_memory_object [OF m])
  ultimately show ?thesis by (simp add: symbols_def same_memory_object [OF m])
qed

lemma gives_DEFINE:
  assumes "lisp_ok s" and "symbols s cs" and K: "K = length (frames s)"
    and body: "\<And>s1. lisp_ok s1 \<Longrightarrow> symbols s1 cs \<Longrightarrow> frames s1 = frames s @ [replicate n Null_obj] \<Longrightarrow> lisp_in s1 = lisp_in s \<Longrightarrow>
      gives (body K) (has_read K s1 cs e w j) s1"
  shows "gives (DEFINE n body) (has_read K s cs e w j) s"
proof -
  define s1 where "s1 = s\<lparr>frames := frames s @ [replicate n Null_obj]\<rparr>"
  have m: "same_memory s s1" "Symbols s1 = Symbols s" "take K (frames s1) = take K (frames s)" "mem s1 = mem s"
    by (simp_all add: same_memory_def s1_def K)
  have b: "gives (body K) (has_read K s1 cs e w j) s1"
    by (rule body) (use assms(2) push_frame(1) [OF assms(1) s1_def] symbols_cong [OF m(1,2)] in \<open>simp_all add: s1_def\<close>)
  have out: "outer K s1 = outer K s" by (rule outer_cong [OF m(4,3,2)])
  have "has_read K s cs e w j r (s2\<lparr>frames := butlast (frames s2)\<rparr>)" if r: "has_read K s1 cs e w j r s2" for r s2
  proof -
    obtain f cs' where f: "reads_to K s1 cs f s2 cs'" "repr (f ` outer K s1) s2 e r" "length cs' \<le> j" and l: "length (frames s2) = Suc K" "lisp_in s2 = w"
      using r by (auto simp: has_read_def s1_def K)
    let ?s = "s2\<lparr>frames := butlast (frames s2)\<rparr>"
    have "shape s2 = butlast (shape s2) @ [last (shape s2)]" using l(1) by (intro append_butlast_last_id [symmetric]) (auto simp: shape_def)
    then have ok: "lisp_ok ?s" by (rule pop_frame(1) [OF _ _ refl, rotated]) (use f(1) in \<open>simp add: reads_to_def\<close>)
    have "reads_to K s cs f s2 cs'" using f(1) m(3,4) out by (simp add: reads_to_def kept_def)
    then have "reads_to K s cs f ?s cs'"
      by (rule reads_to_local [OF _ ok]) (use l(1) in \<open>simp_all add: same_memory_def butlast_conv_take\<close>)
    moreover have "repr (f ` outer K s) ?s e r" using f(2) out same_memory_repr [of s2 ?s] by (simp add: same_memory_def)
    ultimately show ?thesis using f(3) l unfolding has_read_def by (auto simp: K)
  qed
  moreover have "DEFINE n body s = (case body K s1 of Inl x \<Rightarrow> Inl x | Inr (r, s) \<Rightarrow> Inr (r, s\<lparr>frames := butlast (frames s)\<rparr>))"
    by (simp add: DEFINE_def s1_def K)
  ultimately show ?thesis using b by (cases "body K s1") (auto simp: gives_def)
qed

section \<open>Symbols\<close>

lemma intern_loop_ok:
  assumes "spine s p cs Nil_obj" and "\<forall>x\<in>set cs. \<exists>n. object s (snd x) TSYMBOL (Name n)" and "length cs < n"
  shows "\<exists>x. intern_loop n name p s = Inr (x, s) \<and> (x = Null_obj \<or> x \<noteq> Null_obj \<and> object s x TSYMBOL (Name name))"
  using assms
proof (induction cs arbitrary: n p)
  case Nil
  then show ?case by (cases n) (simp_all add: return_def)
next
  case (Cons c cs)
  then obtain m where m: "n = Suc m" by (cases n) auto
  obtain r where r: "object s p TCELL (Cell (snd c) r)" "spine s r cs Nil_obj" using Cons.prems(1) by auto
  obtain nm where o: "object s (snd c) TSYMBOL (Name nm)" using Cons.prems(2) by auto
  obtain x where x: "intern_loop m name r s = Inr (x, s)" "x = Null_obj \<or> x \<noteq> Null_obj \<and> object s x TSYMBOL (Name name)"
    using Cons.IH [OF r(2), of m] Cons.prems(2,3) m by auto
  have "snd c \<noteq> Null_obj" using o by (auto simp: object_def)
  then show ?case using x o object_cell [OF r(1)] access [OF o] m by (auto simp: lbind_def name_of_def return_def)
qed

lemma reads_to_new_symbol:
  assumes "reads_to K s cs f s4 cs4" and o: "object s4 (Ref b) TCELL (Cell x (Symbols s4))" "object s4 x TSYMBOL (Name n)" and "b \<notin> f ` outer K s"
    and s5: "s5 = s4\<lparr>Symbols := Ref b\<rparr>"
  shows "reads_to K s cs f s5 ((b, x) # cs4)"
proof -
  have ok: "lisp_ok s4" using assms(1) by (simp add: reads_to_def)
  have "wp (put SymbolsH (Ref b)) (\<lambda>_ s'. lisp_ok s') s4" by (rule wp_put_Symbols [OF object_valid [OF ok o(1)]]) simp
  then have ok5: "lisp_ok s5" by (rule wp_Inr) (simp add: put_def store_def s5)
  have m: "same_memory s4 s5" by (simp add: s5 same_memory_def)
  have "spine s5 p sp t = spine s4 p sp t" for p sp t by (induction sp arbitrary: p) (simp_all add: same_memory_object [OF m])
  then have "symbols s5 ((b, x) # cs4)" using assms(1) o
    by (auto simp: reads_to_def symbols_def same_memory_object [OF m]) (auto simp: s5)
  moreover have "kept K f s s5" using assms(1) by (simp add: reads_to_def kept_def s5 in_heap_def)
  ultimately show ?thesis using assms(1,4) ok5 by (auto simp: reads_to_def)
qed

lemma push_symbol_gives:
  assumes f: "reads_to K s1 cs f s cs3" and "symbols s1 cs" and o: "object s (Ref a) TSYMBOL (Name name)"
    and fr: "length (frames s1) = Suc K" "length (frames s) = Suc K" "frames s ! K = [Ref a]"
  shows "gives (lbind (allocating (cons (Slot K 0) SymbolsH)) (\<lambda>l. lbind (put SymbolsH l) (\<lambda>_. get (Slot K 0))))
    (has_read K s1 cs (SSym name) (lisp_in s) (Suc (length cs3))) s"
proof -
  let ?R = "has_read K s1 cs (SSym name) (lisp_in s) (Suc (length cs3))"
  have ok: "lisp_ok s" "symbols s cs3" using f by (simp_all add: reads_to_def)
  then obtain xs where xs: "heap_ok s xs" by (auto simp: lisp_ok_def)
  have h: "handle_ok s (Slot K 0)" "handle_ok s SymbolsH" using fr by (simp_all add: handle_ok_def)
  have ct: "contents s (Slot K 0) = Ref a" "contents s SymbolsH = Symbols s" using fr by (simp_all add: deref_def)
  have "gives (put SymbolsH (Ref b)) (\<lambda>_. gives (get (Slot K 0)) ?R) s4"
    if g: "reads_to (length (frames s)) s cs3 g s4 (map (move g) cs3)" and c: "object s4 (Ref b) TCELL (map_value (rename g) (Cell (Ref a) (Symbols s)))"
      and b: "b \<notin> g ` live s" and fr4: "frames s4 = map (map (rename g)) (frames s)" and sy4: "Symbols s4 = rename g (Symbols s)" and i4: "lisp_in s4 = lisp_in s" for g s4 b
  proof -
    define s5 where "s5 = s4\<lparr>Symbols := Ref b\<rparr>"
    have gf: "reads_to K s1 cs (g \<circ> f) s4 (map (move g) cs3)"
      by (rule reads_to_trans [OF assms(2) f reads_to_restrict [OF g]]) (simp add: fr)
    have "frames s ! K \<in> set (frames s)" using fr(2) by (intro nth_mem) simp
    then have "Ref a \<in> outer_roots (length (frames s)) s" unfolding outer_roots_def using fr(3) by force
    then have "object s4 (rename g (Ref a)) TSYMBOL (map_value (rename g) (Name name))"
      using g o by (intro object_kept [of "length (frames s)" g s] outer_root) (simp_all add: reads_to_def)
    then have o4: "object s4 (Ref (g a)) TSYMBOL (Name name)" by simp
    have "f ` outer K s1 \<subseteq> live s" using kept_outer [OF f assms(2)] outer_subset_live by blast
    then have "b \<notin> (g \<circ> f) ` outer K s1" using b by auto
    then have r5: "reads_to K s1 cs (g \<circ> f) s5 ((b, Ref (g a)) # map (move g) cs3)"
      by (intro reads_to_new_symbol [OF gf _ o4 _ s5_def]) (use c sy4 in simp_all)
    have m: "same_memory s4 s5" by (simp add: s5_def same_memory_def)
    have "?R (Ref (g a)) s5" unfolding has_read_def
    proof (intro conjI exI)
      show "reads_to K s1 cs (g \<circ> f) s5 ((b, Ref (g a)) # map (move g) cs3)" by (rule r5)
      show "repr ((g \<circ> f) ` outer K s1) s5 (SSym name) (Ref (g a))" using o4 same_memory_object [OF m] by simp
    qed (simp_all add: s5_def fr4 fr i4)
    moreover have "get (Slot K 0) s5 = Inr (Ref (g a), s5)" using get_slot [of K s5 0] fr by (simp add: s5_def fr4)
    moreover have "put SymbolsH (Ref b) s4 = Inr ((), s5)" by (simp add: put_def store_def s5_def)
    ultimately show ?thesis by (simp add: gives_def)
  qed
  then show ?thesis unfolding gives_lbind
    by (intro built_gives [where c = "cons (Slot K 0) SymbolsH", OF ok cons_ok [OF xs h, unfolded ct]])
qed

lemma new_symbol_gives:
  assumes s1: "lisp_ok s1" "symbols s1 cs" and l: "length (frames s1) = Suc K" "length (frames s1 ! K) = 1" and "length name + 23 < 2 ^ 64"
  shows "gives (lbind (allocating (make_symbol name)) (\<lambda>x. lbind (put (Slot K 0) x) (\<lambda>_.
    lbind (allocating (cons (Slot K 0) SymbolsH)) (\<lambda>l. lbind (put SymbolsH l) (\<lambda>_. get (Slot K 0))))))
    (has_read K s1 cs (SSym name) (lisp_in s1) (Suc (length cs))) s1"
proof -
  let ?R = "has_read K s1 cs (SSym name) (lisp_in s1) (Suc (length cs))"
  let ?push = "lbind (allocating (cons (Slot K 0) SymbolsH)) (\<lambda>l. lbind (put SymbolsH l) (\<lambda>_. get (Slot K 0)))"
  obtain xs where xs: "heap_ok s1 xs" using s1(1) by (auto simp: lisp_ok_def)
  have "gives (put (Slot K 0) (Ref a)) (\<lambda>_. gives ?push ?R) s2"
    if f: "reads_to (length (frames s1)) s1 cs f s2 (map (move f) cs)" and o: "object s2 (Ref a) TSYMBOL (map_value (rename f) (Name name))"
      and fr: "frames s2 = map (map (rename f)) (frames s1)" and i2: "lisp_in s2 = lisp_in s1" for f s2 a
  proof -
    have sl: "K < length (frames s2)" "0 < length (frames s2 ! K)" using l fr by simp_all
    define s3 where "s3 = set_slot K 0 (Ref a) s2"
    have ok2: "lisp_ok s2" using f by (simp add: reads_to_def)
    have ok3: "lisp_ok s3" unfolding s3_def by (rule set_slot_ok [OF object_valid [OF ok2 o] sl])
    have f3: "reads_to K s1 cs f s3 (map (move f) cs)"
      by (rule reads_to_local [OF reads_to_restrict [OF f] ok3]) (simp_all add: s3_def l)
    have o3: "object s3 (Ref a) TSYMBOL (Name name)" using o same_memory_object [of s2 s3] by (simp add: s3_def)
    have "length ((frames s2 ! K)[0 := Ref a]) = 1" using l fr by simp
    then have "(frames s2 ! K)[0 := Ref a] = [Ref a]" using sl by (cases "frames s2 ! K") auto
    then have "frames s3 ! K = [Ref a]" "length (frames s3) = Suc K" using sl l fr by (simp_all add: s3_def)
    then have "gives ?push ?R s3" using push_symbol_gives [OF f3 s1(2) o3 l(1)] i2 by (simp add: s3_def)
    then show ?thesis using put_slot [OF sl] by (simp add: gives_Inr s3_def)
  qed
  then show ?thesis unfolding gives_lbind [of _ _ ?R s1] gives_lbind [of "put _ _"]
    by (intro built_gives [where c = "make_symbol name", OF s1 make_symbol_ok [OF xs assms(5)]])
qed

lemma intern_gives:
  assumes "lisp_ok s" and "symbols s cs" and K: "K = length (frames s)" and "length name + 23 < 2 ^ 64" and "length cs < n"
  shows "gives (intern n name) (has_read K s cs (SSym name) (lisp_in s) (Suc (length cs))) s"
proof -
  let ?Q = "has_read K s cs (SSym name) (lisp_in s) (Suc (length cs))"
  let ?body = "\<lambda>k. lbind (allocating (make_symbol name)) (\<lambda>x. lbind (put (Slot k 0) x) (\<lambda>_.
    lbind (allocating (cons (Slot k 0) SymbolsH)) (\<lambda>l. lbind (put SymbolsH l) (\<lambda>_. get (Slot k 0)))))"
  obtain x where x: "intern_loop n name (Symbols s) s = Inr (x, s)" "x = Null_obj \<or> x \<noteq> Null_obj \<and> object s x TSYMBOL (Name name)"
    using intern_loop_ok [of s "Symbols s" cs n name] assms(2,5) by (auto simp: symbols_def)
  then have "intern n name s = (if x \<noteq> Null_obj then return x s else DEFINE 1 ?body s)"
    by (simp add: intern_def lbind_def get_def deref_def Let_def)
  moreover have "gives (DEFINE 1 ?body) ?Q s"
  proof (rule gives_DEFINE [OF assms(1-3)])
    fix s1 assume s1: "lisp_ok s1" "symbols s1 cs" "frames s1 = frames s @ [replicate 1 Null_obj]" "lisp_in s1 = lisp_in s"
    show "gives (?body K) (has_read K s1 cs (SSym name) (lisp_in s) (Suc (length cs))) s1"
      using new_symbol_gives [OF s1(1,2) _ _ assms(4), of K] s1(3,4) K by simp
  qed
  moreover have "?Q x s" if "object s x TSYMBOL (Name name)"
    unfolding has_read_def using reads_to_refl [OF assms(1,2), of K] that by (intro conjI exI [of _ id] exI [of _ cs]) auto
  ultimately show ?thesis using x(2) by (auto simp: gives_def return_def)
qed

section \<open>Numbers and symbols are read back\<close>

definition delimited :: "string \<Rightarrow> bool" where
  "delimited w \<longleftrightarrow> w \<noteq> [] \<and> \<not> isalnum (hd w) \<and> \<not> symbol_char (hd w)"

lemma has_read_in [simp]: "has_read K (s\<lparr>lisp_in := x\<rparr>) = has_read K s"
  by (intro ext) (simp add: has_read_def reads_to_def kept_def outer_roots_def)

lemma symbols_in [simp]: "symbols (s\<lparr>lisp_in := x\<rparr>) cs = symbols s cs"
  by (rule symbols_cong) simp_all

definition digit :: "32 word \<Rightarrow> char \<Rightarrow> 32 word" where
  "digit v c = v * 10 + (of_nat (of_char c) - 48)"

lemma of_char_digit [simp]: "d < 10 \<Longrightarrow> (of_char (char_of (48 + d)) :: nat) = 48 + d"
  by simp

lemma isdigit_char [simp]: "(d :: nat) < 10 \<Longrightarrow> isdigit (char_of (48 + d))"
  by (simp add: isdigit_def)

lemma show_nat_digits: "show_nat n \<noteq> [] \<and> (\<forall>c\<in>set (show_nat n). isdigit c)"
proof (induction n rule: show_nat.induct)
  case (1 n)
  show ?case by (cases "n < 10") (use 1 in \<open>simp_all add: show_nat.simps [of n]\<close>)
qed

lemma show_nat_value: "foldl digit 0 (show_nat n) = of_nat n"
proof (induction n rule: show_nat.induct)
  case (1 n)
  have d: "digit v (char_of (48 + d)) = v * 10 + of_nat d" if "d < 10" for v d using that by (simp add: digit_def)
  have "of_nat n = (of_nat (n div 10 * 10 + n mod 10) :: 32 word)" by (simp only: div_mult_mod_eq)
  then have n: "of_nat n = (of_nat (n div 10) * 10 + of_nat (n mod 10) :: 32 word)" by (simp only: of_nat_add of_nat_mult of_nat_numeral)
  show ?case by (cases "n < 10") (use 1 n in \<open>simp_all add: show_nat.simps [of n] d\<close>)
qed

lemma read_number_ok:
  assumes "\<forall>c\<in>set ds. isdigit c" and "delimited w" and "lisp_in s = ds @ w" and "length ds < n"
  shows "read_number n val s = Inr (foldl digit val ds, s\<lparr>lisp_in := w\<rparr>)"
  using assms
proof (induction ds arbitrary: n val s)
  case Nil
  then obtain c cs m where w: "w = c # cs" "n = Suc m" by (cases w; cases n) (auto simp: delimited_def)
  have "\<not> isdigit c" using Nil(2) w by (simp add: delimited_def isalnum_def)
  moreover have "s\<lparr>lisp_in := w\<rparr> = s" using Nil(3) by simp
  ultimately show ?case using Nil w by (simp add: lbind_def peek_def return_def)
next
  case (Cons d ds)
  then obtain m where m: "n = Suc m" by (cases n) auto
  show ?case using Cons.prems Cons.IH [of "s\<lparr>lisp_in := ds @ w\<rparr>" m "digit val d"] m
    by (simp add: lbind_def peek_def get1char_def digit_def)
qed

lemma read_symbol_loop_ok:
  assumes "\<forall>c\<in>set ds. isalnum c \<or> symbol_char c" and "delimited w" and "lisp_in s = ds @ w" and "length ds < n"
    and "length buf + length ds \<le> SYMBOL_MAX_LEN"
  shows "read_symbol_loop n buf s = Inr (buf @ ds, s\<lparr>lisp_in := w\<rparr>)"
  using assms
proof (induction ds arbitrary: n buf s)
  case Nil
  then obtain c cs m where w: "w = c # cs" "n = Suc m" by (cases w; cases n) (auto simp: delimited_def)
  have "\<not> (isalnum c \<or> symbol_char c)" using Nil(2) w by (simp add: delimited_def)
  moreover have "s\<lparr>lisp_in := w\<rparr> = s" using Nil(3) by simp
  ultimately show ?case using Nil w by (simp add: lbind_def peek_def return_def)
next
  case (Cons d ds)
  then obtain m where m: "n = Suc m" by (cases n) auto
  show ?case using Cons.prems Cons.IH [of "s\<lparr>lisp_in := ds @ w\<rparr>" m "buf @ [d]"] m
    by (simp add: lbind_def peek_def get1char_def)
qed

lemma make_int_gives:
  assumes "lisp_ok s" and "symbols s cs" and K: "K = length (frames s)"
  shows "gives (allocating (make_int v)) (has_read K s cs (SInt v) (lisp_in s) (length cs)) s"
proof -
  obtain xs where xs: "heap_ok s xs" using assms(1) by (auto simp: lisp_ok_def)
  show ?thesis
  proof (rule built_gives [where c = "make_int v", OF assms(1,2) make_int_ok [OF xs]])
    fix f s' a assume "reads_to (length (frames s)) s cs f s' (map (move f) cs)" "object s' (Ref a) TINT (map_value (rename f) (Value v))"
      "frames s' = map (map (rename f)) (frames s)" "lisp_in s' = lisp_in s"
    then show "has_read K s cs (SInt v) (lisp_in s) (length cs) (Ref a) s'"
      unfolding has_read_def by (intro conjI exI [of _ f] exI [of _ "map (move f) cs"]) (simp_all add: K)
  qed
qed

lemma isdigit_not [simp]: "isdigit c \<Longrightarrow> \<not> is_eof c"
    "isdigit c \<Longrightarrow> c \<notin> {CHR '' '', CHR 0x0A, CHR 0x0D, CHR 0x09, CHR '';'', CHR ''('', CHR '')'', CHR ''.'', CHR 0x27, CHR ''-''}"
  by (auto simp: isdigit_def is_eof_def)

lemma read_digits:
  assumes "lisp_in s = c # w" and "isdigit c"
  shows "read_expr (Suc n) s = lbind (read_number n (digit 0 c)) (\<lambda>v. allocating (make_int v)) (s\<lparr>lisp_in := w\<rparr>)"
  using assms isdigit_not(2) [OF assms(2)] by (simp add: read_expr_body_def lbind_def [of get1char] get1char_def digit_def)

lemma read_minus:
  assumes "lisp_in s = CHR ''-'' # d # w" and "isdigit d"
  shows "read_expr (Suc n) s = lbind (read_number n 0) (\<lambda>v. allocating (make_int (- v))) (s\<lparr>lisp_in := d # w\<rparr>)"
  using assms by (simp add: read_expr_body_def lbind_def get1char_def peek_def return_def isdigit_def is_eof_def)

lemma read_int_gives:
  assumes s: "lisp_ok s" "symbols s cs" "K = length (frames s)" and i: "lisp_in s = show_int v @ w" "delimited w" "length (show_int v) < n"
  shows "gives (read_expr (Suc n)) (has_read K s cs (SInt v) w (length cs)) s"
proof -
  let ?s = "s\<lparr>lisp_in := w\<rparr>"
  have mk: "gives (allocating (make_int v)) (has_read K s cs (SInt v) w (length cs)) ?s"
    using make_int_gives [OF lisp_ok_in [OF s(1)], of w cs K v] s(2,3) by simp
  show ?thesis
  proof (cases "sint v < 0")
    case True
    let ?ds = "show_nat (nat (- sint v))"
    obtain d ds where ds: "?ds = d # ds" using show_nat_digits [of "nat (- sint v)"] by (cases ?ds) auto
    have "- of_nat (nat (- sint v)) = (of_int (sint v) :: 32 word)" using True by (simp add: of_nat_nat)
    then have v: "- foldl digit 0 ?ds = v" by (simp add: show_nat_value)
    have i': "lisp_in s = CHR ''-'' # d # ds @ w" using i(1) True ds by (simp add: show_int_def)
    have "read_number n 0 (s\<lparr>lisp_in := d # ds @ w\<rparr>) = Inr (foldl digit 0 ?ds, ?s)"
      using read_number_ok [of ?ds w "s\<lparr>lisp_in := d # ds @ w\<rparr>" n 0] show_nat_digits [of "nat (- sint v)"] i(2,3) True ds by (simp add: show_int_def)
    then have "read_expr (Suc n) s = allocating (make_int v) ?s"
      using read_minus [OF i', of n] show_nat_digits [of "nat (- sint v)"] v by (simp add: ds lbind_def)
    then show ?thesis using mk by (simp add: gives_def)
  next
    case False
    let ?ds = "show_nat (nat (sint v))"
    obtain d ds where ds: "?ds = d # ds" using show_nat_digits [of "nat (sint v)"] by (cases ?ds) auto
    have "of_nat (nat (sint v)) = (of_int (sint v) :: 32 word)" using False by (simp add: of_nat_nat)
    then have v: "foldl digit 0 ?ds = v" by (simp add: show_nat_value)
    have i': "lisp_in s = d # ds @ w" using i(1) False ds by (simp add: show_int_def)
    have "read_number n (digit 0 d) (s\<lparr>lisp_in := ds @ w\<rparr>) = Inr (foldl digit 0 ?ds, ?s)"
      using read_number_ok [of ds w "s\<lparr>lisp_in := ds @ w\<rparr>" n "digit 0 d"] show_nat_digits [of "nat (sint v)"] i(2,3) False ds by (simp add: show_int_def)
    then have "read_expr (Suc n) s = allocating (make_int v) ?s"
      using read_digits [OF i', of n] show_nat_digits [of "nat (sint v)"] v by (simp add: ds lbind_def)
    then show ?thesis using mk by (simp add: gives_def)
  qed
qed

lemma symbol_start_not: "isalpha c \<or> symbol_char c \<Longrightarrow> c \<noteq> CHR 0x00 \<Longrightarrow> \<not> isdigit c \<and> \<not> is_eof c \<and>
    c \<notin> {CHR '' '', CHR 0x0A, CHR 0x0D, CHR 0x09, CHR '';'', CHR ''('', CHR '')'', CHR ''.'', CHR 0x27}"
  by (auto simp: isdigit_def is_eof_def isalpha_def symbol_char_def)

lemma delimited_no_digit: "delimited w \<Longrightarrow> \<not> isdigit (hd w)"
  by (simp add: delimited_def isalnum_def)

lemma read_sym_gives:
  assumes s: "lisp_ok s" "symbols s cs" "K = length (frames s)" and i: "lisp_in s = nm @ w" "delimited w" and n: "length nm < n" "length cs < n" and ok: "symbol_ok nm"
  shows "gives (read_expr (Suc n)) (has_read K s cs (SSym nm) w (Suc (length cs))) s"
proof -
  let ?s = "s\<lparr>lisp_in := w\<rparr>"
  obtain c ds where nm: "nm = c # ds" using ok by (cases nm) (auto simp: symbol_ok_def)
  have cs: "\<forall>c\<in>set nm. (isalnum c \<or> symbol_char c) \<and> c \<noteq> CHR 0x00" "isalpha c \<or> symbol_char c" "length nm \<le> 99" using ok nm by (simp_all add: symbol_ok_def)
  have c: "\<not> isdigit c" "\<not> is_eof c" "c \<notin> {CHR '' '', CHR 0x0A, CHR 0x0D, CHR 0x09, CHR '';'', CHR ''('', CHR '')'', CHR ''.'', CHR 0x27}"
    using symbol_start_not [OF cs(2)] cs(1) nm by auto
  obtain d v where dv: "ds @ w = d # v" using i(2) by (cases "ds @ w") (auto simp: delimited_def)
  have nd: "c = CHR ''-'' \<Longrightarrow> \<not> isdigit d" using ok dv delimited_no_digit [OF i(2)] nm by (cases ds) (auto simp: symbol_ok_def)
  have "read_symbol_loop n [c] (s\<lparr>lisp_in := ds @ w\<rparr>) = Inr (nm, ?s)"
    using read_symbol_loop_ok [of ds w "s\<lparr>lisp_in := ds @ w\<rparr>" n "[c]"] cs i(2) n(1) nm by (simp add: SYMBOL_MAX_LEN_def)
  moreover have "c_string nm = nm" unfolding c_string_def by (rule takeWhile_eq_all_conv [THEN iffD2]) (use cs(1) in auto)
  moreover have "read_expr (Suc n) s = read_symbol n c (s\<lparr>lisp_in := ds @ w\<rparr>)"
    using i(1) nm dv c nd cs(2) by (auto simp: read_expr_body_def lbind_def get1char_def peek_def return_def)
  ultimately have "read_expr (Suc n) s = intern n nm ?s" by (simp add: read_symbol_def lbind_def)
  moreover have "gives (intern n nm) (has_read K ?s cs (SSym nm) (lisp_in ?s) (Suc (length cs))) ?s"
    by (rule intern_gives) (use s n(2) cs(3) in \<open>simp_all add: lisp_ok_in\<close>)
  ultimately show ?thesis by (simp add: gives_def)
qed

section \<open>Lists are read back\<close>

text \<open>The list \<open>h\<close> of elements that stand for \<open>es\<close>: its cells are not in \<open>A\<close>, those of its elements in none of these sets.\<close>

definition built_list :: "nat set \<Rightarrow> nat set \<Rightarrow> lisp_state \<Rightarrow> obj \<Rightarrow> (nat \<times> obj) list \<Rightarrow> sexp list \<Rightarrow> bool" where
  "built_list A X s h sp es \<longleftrightarrow> spine s h sp Nil_obj \<and> distinct (map fst sp) \<and> fst ` set sp \<inter> A = {} \<and>
     list_all2 (\<lambda>e x. repr (A \<union> fst ` set sp \<union> X) s e (snd x)) es sp"

text \<open>The invariant of the loop of \<^verbatim>\<open>read_list\<close>: the elements read so far, the last one first, are in \<^verbatim>\<open>head\<close>.\<close>

definition reading_list :: "nat \<Rightarrow> lisp_state \<Rightarrow> (nat \<times> obj) list \<Rightarrow> (nat \<Rightarrow> nat) \<Rightarrow> lisp_state \<Rightarrow> (nat \<times> obj) list \<Rightarrow> (nat \<times> obj) list \<Rightarrow> sexp list \<Rightarrow> bool" where
  "reading_list K s1 cs1 f s cs sp es \<longleftrightarrow> reads_to K s1 cs1 f s cs \<and> length (frames s) = Suc K \<and> length (frames s ! K) = 3 \<and>
     built_list (f ` outer K s1) {} s (frames s ! K ! 1) sp es \<and> fst ` set sp \<inter> fst ` set cs = {}"

lemma repr_mono: "repr B s e p \<Longrightarrow> A \<subseteq> B \<Longrightarrow> repr A s e p"
  by (induction e arbitrary: p) (simp_all, blast)

lemma repr_moved:
  assumes "kept L g s s'" and "repr A s e p" and "ptr_in (outer L s) p" and "A \<subseteq> outer L s" and "X \<inter> g ` outer L s = {}"
  shows "repr (g ` A \<union> X) s' e (rename g p)"
proof (rule repr_kept [OF assms(1) _ assms(2,3)])
  fix c assume c: "c \<in> outer L s" "c \<notin> A"
  have "inj_on g (outer L s)" using assms(1) by (simp add: kept_def)
  then have "g c \<notin> g ` A" using c assms(4) by (auto dest: inj_onD)
  then show "g c \<notin> g ` A \<union> X" using c(1) assms(5) by blast
qed

lemma built_list_moved:
  assumes k: "kept L g s s'" and b: "built_list A {} s h sp es" and h: "ptr_in (outer L s) h" and "A \<subseteq> outer L s" and X: "X \<inter> g ` outer L s = {}"
  shows "built_list (g ` A) X s' (rename g h) (map (move g) sp) es"
proof -
  have sp: "spine s h sp Nil_obj" "distinct (map fst sp)" "fst ` set sp \<inter> A = {}" using b by (simp_all add: built_list_def)
  have out: "fst ` set sp \<subseteq> outer L s" "\<forall>x\<in>set sp. ptr_in (outer L s) (snd x)" using spine_outer [OF sp(1) h] by simp_all
  have inj: "inj_on g (outer L s)" using k by (simp add: kept_def)
  have fm: "fst ` set (map (move g) sp) = g ` fst ` set sp" by (auto simp: move_def image_image)
  have "map fst (map (move g) sp) = map g (map fst sp)" by (simp add: move_def)
  moreover have "inj_on g (set (map fst sp))" using inj_on_subset [OF inj] out(1) by simp
  ultimately have "distinct (map fst (map (move g) sp))" using sp(2) by (simp only: distinct_map)
  moreover have "spine s' (rename g h) (map (move g) sp) Nil_obj" using spine_kept [OF k sp(1) h] by simp
  moreover have "fst ` set (map (move g) sp) \<inter> g ` A = {}" unfolding fm
    using inj_on_image_Int [OF inj out(1) assms(4)] sp(3) by simp
  moreover have "list_all2 (\<lambda>e x. repr (g ` A \<union> fst ` set (map (move g) sp) \<union> X) s' e (snd x)) es (map (move g) sp)"
    unfolding fm image_Un [symmetric] list_all2_map2
  proof (rule list.rel_mono_strong)
    show "list_all2 (\<lambda>e x. repr (A \<union> fst ` set sp) s e (snd x)) es sp" using b by (simp add: built_list_def)
    fix e x assume "x \<in> set sp" "repr (A \<union> fst ` set sp) s e (snd x)"
    then show "repr (g ` (A \<union> fst ` set sp) \<union> X) s' e (snd (move g x))"
      using repr_moved [OF k _ _ _ X, of "A \<union> fst ` set sp" e "snd x"] out assms(4) by (simp add: move_def)
  qed
  ultimately show ?thesis unfolding built_list_def by blast
qed

lemma built_list_cons:
  assumes "built_list A {a} s r sp es" and "object s (Ref a) TCELL (Cell q r)" and "a \<notin> A" and "a \<notin> fst ` set sp"
    and "repr (A \<union> fst ` set sp \<union> {a}) s e q"
  shows "built_list A {} s (Ref a) ((a, q) # sp) (e # es)"
proof -
  have "A \<union> fst ` set ((a, q) # sp) \<union> {} = A \<union> fst ` set sp \<union> {a}" by auto
  then show ?thesis using assms unfolding built_list_def by auto
qed

lemma built_list_cong:
  assumes "same_memory s s'" shows "built_list A X s' h sp es = built_list A X s h sp es"
proof -
  have "spine s' p sp t = spine s p sp t" for p sp t by (induction sp arbitrary: p) (simp_all add: same_memory_object [OF assms])
  then show ?thesis by (simp add: built_list_def same_memory_repr [OF assms])
qed

lemma head_outer: "length (frames s) = Suc K \<Longrightarrow> i < length (frames s ! K) \<Longrightarrow> ptr_in (outer (Suc K) s) (frames s ! K ! i)"
proof (rule outer_root)
  assume l: "length (frames s) = Suc K" "i < length (frames s ! K)"
  have "frames s ! K \<in> set (frames s)" using l(1) by (intro nth_mem) simp
  moreover have "frames s ! K ! i \<in> set (frames s ! K)" using l(2) by (rule nth_mem)
  moreover have "take (Suc K) (frames s) = frames s" using l(1) by simp
  ultimately show "frames s ! K ! i \<in> outer_roots (Suc K) s" unfolding outer_roots_def by auto
qed

lemma reading_list_outer:
  assumes "reading_list K s1 cs1 f s cs sp es" and "symbols s1 cs1"
  shows "f ` outer K s1 \<subseteq> outer (Suc K) s" "fst ` set sp \<subseteq> outer (Suc K) s" "ptr_in (outer (Suc K) s) (frames s ! K ! 1)"
proof -
  have r: "reads_to K s1 cs1 f s cs" "length (frames s) = Suc K" "length (frames s ! K) = 3" and sp: "spine s (frames s ! K ! 1) sp Nil_obj"
    using assms(1) by (simp_all add: reading_list_def built_list_def)
  show "f ` outer K s1 \<subseteq> outer (Suc K) s" using kept_outer [OF r(1) assms(2)] outer_mono [of K "Suc K" s] by auto
  show h: "ptr_in (outer (Suc K) s) (frames s ! K ! 1)" using head_outer r(2,3) by simp
  show "fst ` set sp \<subseteq> outer (Suc K) s" using spine_outer [OF sp h] by simp
qed

lemma reads_to_frames: "reads_to L s cs g s2 cs2 \<Longrightarrow> L = length (frames s) \<Longrightarrow> length (frames s2) = L \<Longrightarrow> frames s2 = map (map (rename g)) (frames s)"
  by (simp add: reads_to_def kept_def)

lemma reading_list_moved:
  assumes rl: "reading_list K s1 cs1 f s cs sp es" and sy: "symbols s1 cs1" and g: "reads_to (Suc K) s cs g s2 cs2" and "length (frames s2) = Suc K"
  shows "reading_list K s1 cs1 (g \<circ> f) s2 cs2 (map (move g) sp) es"
proof -
  note out = reading_list_outer [OF rl sy]
  have r: "reads_to K s1 cs1 f s cs" "length (frames s) = Suc K" "length (frames s ! K) = 3" "built_list (f ` outer K s1) {} s (frames s ! K ! 1) sp es"
      "fst ` set sp \<inter> fst ` set cs = {}" using rl by (simp_all add: reading_list_def)
  have k: "kept (Suc K) g s s2" using g by (simp add: reads_to_def)
  have inj: "inj_on g (outer (Suc K) s)" using k by (simp add: kept_def)
  have fr: "frames s2 = map (map (rename g)) (frames s)" by (rule reads_to_frames [OF g]) (use r(2) assms(4) in simp_all)
  have "reads_to K s1 cs1 (g \<circ> f) s2 cs2" by (rule reads_to_trans [OF sy r(1) reads_to_restrict [OF g]]) simp
  moreover have "built_list ((g \<circ> f) ` outer K s1) {} s2 (frames s2 ! K ! 1) (map (move g) sp) es"
    using built_list_moved [OF k r(4) out(3,1), of "{}"] r(2,3) fr by (simp add: image_comp)
  moreover have "fst ` set (map (move g) sp) \<inter> fst ` set cs2 = {}"
  proof -
    obtain new where n: "cs2 = new @ map (move g) cs" "fst ` set new \<inter> g ` outer (Suc K) s = {}" using g by (auto simp: reads_to_def)
    have "symbols s cs" using r(1) by (simp add: reads_to_def)
    then have c: "fst ` set cs \<subseteq> outer (Suc K) s" by (rule symbols_outer)
    have "g ` fst ` set sp \<inter> g ` fst ` set cs = {}" using inj_on_image_Int [OF inj out(2) c] r(5) by simp
    moreover have "g ` fst ` set sp \<inter> fst ` set new = {}" using n(2) out(2) by blast
    ultimately show ?thesis using n(1) by (simp add: move_def image_image image_Un Int_Un_distrib)
  qed
  ultimately show ?thesis using r(2,3) fr by (simp add: reading_list_def)
qed

lemma reading_list_local:
  assumes "reading_list K s1 cs1 f s cs sp es" and "lisp_ok s'" and "same_memory s s'" and "take K (frames s') = take K (frames s)"
    and "Symbols s' = Symbols s" and "length (frames s') = Suc K" and "length (frames s' ! K) = 3" and "frames s' ! K ! 1 = frames s ! K ! 1"
  shows "reading_list K s1 cs1 f s' cs sp es"
  using assms reads_to_local [of K s1 cs1 f s cs s'] built_list_cong [OF assms(3)] by (simp add: reading_list_def)

lemma reading_list_in [simp]: "reading_list K s1 cs1 f s cs sp es \<Longrightarrow> reading_list K s1 cs1 f (s\<lparr>lisp_in := w\<rparr>) cs sp es"
  by (rule reading_list_local) (auto simp: reading_list_def reads_to_def intro: lisp_ok_in)

lemma reading_list_slot:
  assumes "reading_list K s1 cs1 f s cs sp es" and "i < 3" and "i \<noteq> 1" and "valid s p"
  shows "put (Slot K i) p s = Inr ((), set_slot K i p s)" "reading_list K s1 cs1 f (set_slot K i p s) cs sp es"
    "frames (set_slot K i p s) ! K ! i = p"
proof -
  have l: "length (frames s) = Suc K" "length (frames s ! K) = 3" using assms(1) by (simp_all add: reading_list_def)
  then show "put (Slot K i) p s = Inr ((), set_slot K i p s)" "frames (set_slot K i p s) ! K ! i = p" using assms(2) by (simp_all add: put_slot)
  have ok: "lisp_ok (set_slot K i p s)" by (rule set_slot_ok) (use l assms(2,4) in simp_all)
  show "reading_list K s1 cs1 f (set_slot K i p s) cs sp es"
    by (rule reading_list_local [OF assms(1) ok]) (use l assms(3) in simp_all)
qed

lemma cons_gives:
  assumes rl: "reading_list K s1 cs1 f s cs sp es" and sy: "symbols s1 cs1" and p: "repr (f ` outer K s1 \<union> fst ` set sp) s e (frames s ! K ! 0)"
  shows "gives (allocating (cons (Slot K 0) (Slot K 1))) (\<lambda>h. gives (put (Slot K 1) h) (\<lambda>_ s'. lisp_in s' = lisp_in s \<and>
    (\<exists>f' cs' sp'. reading_list K s1 cs1 f' s' cs' sp' (e # es) \<and> length cs' = length cs))) s"
proof -
  note out = reading_list_outer [OF rl sy]
  have r: "reads_to K s1 cs1 f s cs" "length (frames s) = Suc K" "length (frames s ! K) = 3" "built_list (f ` outer K s1) {} s (frames s ! K ! 1) sp es"
      "fst ` set sp \<inter> fst ` set cs = {}" using rl by (simp_all add: reading_list_def)
  have ok: "lisp_ok s" "symbols s cs" using r(1) by (simp_all add: reads_to_def)
  then obtain xs where xs: "heap_ok s xs" by (auto simp: lisp_ok_def)
  have h: "handle_ok s (Slot K 0)" "handle_ok s (Slot K 1)" using r(2,3) by (simp_all add: handle_ok_def)
  have ct: "contents s (Slot K 0) = frames s ! K ! 0" "contents s (Slot K 1) = frames s ! K ! 1" using r(2,3) by (simp_all add: deref_def)
  have o0: "ptr_in (outer (Suc K) s) (frames s ! K ! 0)" using head_outer r(2,3) by simp
  have live: "outer (Suc K) s = live s" by (rule outer_live) (simp add: r(2))
  let ?Q = "\<lambda>s'. lisp_in s' = lisp_in s \<and> (\<exists>f' cs' sp'. reading_list K s1 cs1 f' s' cs' sp' (e # es) \<and> length cs' = length cs)"
  have "gives (put (Slot K 1) (Ref a)) (\<lambda>_. ?Q) s4"
    if g: "reads_to (length (frames s)) s cs g s4 (map (move g) cs)"
      and c: "object s4 (Ref a) TCELL (map_value (rename g) (Cell (frames s ! K ! 0) (frames s ! K ! 1)))"
      and a: "a \<notin> g ` live s" and fr: "frames s4 = map (map (rename g)) (frames s)" and i4: "lisp_in s4 = lisp_in s" for g s4 a
  proof -
    define s5 where "s5 = set_slot K 1 (Ref a) s4"
    have g': "reads_to (Suc K) s cs g s4 (map (move g) cs)" using g r(2) by simp
    then have k: "kept (Suc K) g s s4" and ok4: "lisp_ok s4" by (simp_all add: reads_to_def)
    have l4: "length (frames s4) = Suc K" "length (frames s4 ! K) = 3" using fr r(2,3) by simp_all
    have rl4: "reading_list K s1 cs1 (g \<circ> f) s4 (map (move g) cs) (map (move g) sp) es" by (rule reading_list_moved [OF rl sy g' l4(1)])
    have X: "{a} \<inter> g ` outer (Suc K) s = {}" using a live by simp
    have b4: "built_list ((g \<circ> f) ` outer K s1) {a} s4 (rename g (frames s ! K ! 1)) (map (move g) sp) es"
      using built_list_moved [OF k r(4) out(3,1) X] by (simp add: image_comp)
    have fm: "fst ` set (map (move g) sp) = g ` fst ` set sp" by (auto simp: move_def image_image)
    have "repr (g ` (f ` outer K s1 \<union> fst ` set sp) \<union> {a}) s4 e (rename g (frames s ! K ! 0))"
      by (rule repr_moved [OF k p o0 _ X]) (use out in simp)
    then have e4: "repr ((g \<circ> f) ` outer K s1 \<union> fst ` set (map (move g) sp) \<union> {a}) s4 e (rename g (frames s ! K ! 0))"
      unfolding fm by (simp add: image_Un image_comp)
    have na: "a \<notin> (g \<circ> f) ` outer K s1" "a \<notin> fst ` set (map (move g) sp)" "a \<notin> fst ` set (map (move g) cs)"
      using X out(1,2) symbols_outer [OF ok(2), of "Suc K"] by (auto simp: move_def)
    let ?sp = "(a, rename g (frames s ! K ! 0)) # map (move g) sp"
    have "built_list ((g \<circ> f) ` outer K s1) {} s4 (Ref a) ?sp (e # es)"
      by (rule built_list_cons [OF b4 _ na(1,2) e4]) (use c in simp)
    moreover have m: "same_memory s4 s5" "lisp_ok s5" using set_slot_ok [OF object_valid [OF ok4 c]] l4 by (simp_all add: s5_def)
    ultimately have "built_list ((g \<circ> f) ` outer K s1) {} s5 (Ref a) ?sp (e # es)" by (simp add: built_list_cong)
    moreover have "reads_to K s1 cs1 (g \<circ> f) s5 (map (move g) cs)"
      by (rule reads_to_local [OF _ m(2,1)]) (use rl4 in \<open>simp_all add: s5_def reading_list_def\<close>)
    moreover have "fst ` set ?sp \<inter> fst ` set (map (move g) cs) = {}" using rl4 na(3) by (simp add: reading_list_def)
    ultimately have "reading_list K s1 cs1 (g \<circ> f) s5 (map (move g) cs) ?sp (e # es)" using l4 by (simp add: reading_list_def s5_def)
    moreover have "lisp_in s5 = lisp_in s" "length (map (move g) cs) = length cs" using i4 by (simp_all add: s5_def)
    ultimately have "?Q s5" by blast
    then show ?thesis using put_slot [of K s4 1] l4 by (simp add: gives_Inr s5_def)
  qed
  then show ?thesis by (intro built_gives [where c = "cons (Slot K 0) (Slot K 1)", OF ok cons_ok [OF xs h, unfolded ct]])
qed

section \<open>The end of a list\<close>

lemma spine_append: "spine s p (xs @ ys) t \<longleftrightarrow> (\<exists>q. spine s p xs q \<and> spine s q ys t)"
  by (induction xs arbitrary: p) auto

lemma spine_repr:
  assumes "spine s q sp t" and "list_all2 (\<lambda>e x. repr A s e (snd x)) es sp" and "fst ` set sp \<inter> A = {}" and "repr A s d t"
  shows "repr A s (foldr SCons es d) q"
  using assms(2,1,3)
proof (induction arbitrary: q rule: list_all2_induct)
  case Nil
  then show ?case using assms(4) by simp
next
  case (Cons e es x sp)
  then show ?case by auto
qed

lemma reverse_ok:
  assumes rl: "reading_list K s1 cs1 f s cs sp es" and "length sp < n"
  shows "\<exists>q s'. reverse n (frames s ! K ! 1) s = Inr (q, s') \<and> spine s' q (rev sp) Nil_obj \<and> relinked (fst ` set sp) s s' \<and>
    reads_to K s1 cs1 f s' cs"
proof -
  have r: "reads_to K s1 cs1 f s cs" "built_list (f ` outer K s1) {} s (frames s ! K ! 1) sp es" "fst ` set sp \<inter> fst ` set cs = {}"
    "length (frames s) = Suc K" "length (frames s ! K) = 3" using rl by (simp_all add: reading_list_def)
  have sp: "spine s (frames s ! K ! 1) sp Nil_obj" "distinct (map fst sp)" "fst ` set sp \<inter> f ` outer K s1 = {}" using r(2) by (simp_all add: built_list_def)
  obtain q s' where q: "reverse_loop n (frames s ! K ! 1) Nil_obj s = Inr (q, s')" "spine s' q (rev sp) Nil_obj" "relinked (fst ` set sp) s s'"
    using reverse_loop_ok [OF sp(1) _ sp(2), of Nil_obj "[]" Nil_obj n] assms(2) by auto
  have ok: "lisp_ok s" using r(1) by (simp add: reads_to_def)
  have "get (Slot K 1) s = Inr (frames s ! K ! 1, s)" by (rule get_slot) (use r(4,5) in simp_all)
  moreover have "wp (get (Slot K 1)) (\<lambda>p s. valid s p) s" by (rule wp_get) (use ok r(4,5) in \<open>simp_all add: shape_def\<close>)
  ultimately have v: "valid s (frames s ! K ! 1)" by (auto dest: wp_Inr)
  have "wp (reverse n (frames s ! K ! 1)) (\<lambda>_ s'. lisp_ok s') s" by (rule wp_reverse [OF v]) simp
  then have "lisp_ok s'" by (rule wp_Inr) (use q(1) in \<open>simp add: reverse_def\<close>)
  then have "reads_to K s1 cs1 f s' cs" using reads_to_relinked [OF r(1) q(3)] sp(3) r(3) by simp
  then show ?thesis using q by (auto simp: reverse_def)
qed

lemma elements_relinked:
  assumes "built_list A {} s h sp es" and "relinked (fst ` set sp) s s'"
  shows "list_all2 (\<lambda>e x. repr A s' e (snd x)) (rev es) (rev sp)"
proof -
  have "list_all2 (\<lambda>e x. repr (A \<union> fst ` set sp) s e (snd x)) es sp" using assms(1) by (simp add: built_list_def)
  then have "list_all2 (\<lambda>e x. repr A s' e (snd x)) es sp"
    by (rule list.rel_mono_strong) (blast intro: repr_mono repr_relinked [OF assms(2)])
  then show ?thesis by (simp add: list_all2_rev)
qed

lemma close_gives:
  assumes rl: "reading_list K s1 cs1 f s cs sp es" and "length sp < n" and "length (frames s1) = Suc K"
  shows "gives (lbind (get (Slot K 1)) (reverse n)) (has_read K s1 cs1 (foldr SCons (rev es) SNil) (lisp_in s) (length cs)) s"
proof -
  obtain q s' where q: "reverse n (frames s ! K ! 1) s = Inr (q, s')" "spine s' q (rev sp) Nil_obj" "relinked (fst ` set sp) s s'" "reads_to K s1 cs1 f s' cs"
    using reverse_ok [OF rl assms(2)] by blast
  have r: "built_list (f ` outer K s1) {} s (frames s ! K ! 1) sp es" "length (frames s) = Suc K" "length (frames s ! K) = 3"
    using rl by (simp_all add: reading_list_def)
  have "repr (f ` outer K s1) s' (foldr SCons (rev es) SNil) q"
    by (rule spine_repr [OF q(2) elements_relinked [OF r(1) q(3)]]) (use r(1) in \<open>simp_all add: built_list_def\<close>)
  moreover have "lisp_in s' = lisp_in s" "frames s' = frames s" using q(3) by (simp_all add: relinked_def)
  ultimately have "has_read K s1 cs1 (foldr SCons (rev es) SNil) (lisp_in s) (length cs) q s'"
    using q(4) r(2) assms(3) unfolding has_read_def by auto
  moreover have "get (Slot K 1) s = Inr (frames s ! K ! 1, s)" by (rule get_slot) (use r in simp_all)
  ultimately show ?thesis using q(1) by (simp add: gives_def lbind_def)
qed

lemma dot_gives:
  assumes rl: "reading_list K s1 cs1 f s cs sp es" and "length sp < n" and "length (frames s1) = Suc K"
    and d: "repr (f ` outer K s1 \<union> fst ` set sp) s d (frames s ! K ! 2)" and "sp \<noteq> []"
  shows "gives (lbind (get (Slot K 1)) (\<lambda>h. lbind (reverse n h) (\<lambda>ret.
      lbind (get (Slot K 1)) (\<lambda>h. lbind (get (Slot K 2)) (\<lambda>y. lbind (set_cdr h y) (\<lambda>_. return ret))))))
    (has_read K s1 cs1 (foldr SCons (rev es) d) (lisp_in s) (length cs)) s"
proof -
  obtain q s' where q: "reverse n (frames s ! K ! 1) s = Inr (q, s')" "spine s' q (rev sp) Nil_obj" "relinked (fst ` set sp) s s'" "reads_to K s1 cs1 f s' cs"
    using reverse_ok [OF rl assms(2)] by blast
  have r: "built_list (f ` outer K s1) {} s (frames s ! K ! 1) sp es" "length (frames s) = Suc K" "length (frames s ! K) = 3" "fst ` set sp \<inter> fst ` set cs = {}"
    using rl by (simp_all add: reading_list_def)
  obtain x sp0 where x: "sp = x # sp0" using assms(5) by (cases sp) auto
  have h: "frames s ! K ! 1 = Ref (fst x)" "fst ` set sp \<inter> f ` outer K s1 = {}" "fst x \<notin> fst ` set sp0" using r(1) x by (auto simp: built_list_def)
  obtain t where t: "spine s' q (rev sp0) t" "spine s' t [x] Nil_obj" using q(2) x by (auto simp: spine_append)
  then have o: "object s' (Ref (fst x)) TCELL (Cell (snd x) Nil_obj)" by auto
  let ?y = "frames s ! K ! 2"
  obtain s2 where s2: "set_cdr (Ref (fst x)) ?y s' = Inr ((), s2)" "relinked {fst x} s' s2" "object s2 (Ref (fst x)) TCELL (Cell (snd x) ?y)"
    using set_cdr_cell [OF o] by blast
  have rel: "relinked (fst ` set sp) s s2" by (rule relinked_trans [OF q(3) relinked_mono [OF s2(2)]]) (simp add: x)
  have ok: "lisp_ok s'" using q(4) by (simp add: reads_to_def)
  have d': "repr (f ` outer K s1 \<union> fst ` set sp) s' d ?y" by (rule repr_relinked [OF q(3) _ d]) simp
  have "wp (set_cdr (Ref (fst x)) ?y) (\<lambda>_ s'. lisp_ok s') s'" by (rule wp_set_cdr [OF object_valid [OF ok o] repr_valid [OF ok d']]) simp
  then have "lisp_ok s2" using s2(1) by (rule wp_Inr)
  then have rt: "reads_to K s1 cs1 f s2 cs" by (rule reads_to_relinked [OF q(4) s2(2)]) (use h(2) r(4) x in auto)
  have "spine s2 q (rev sp0) t" by (rule spine_relinked [OF s2(2) t(1)]) (use h(3) in simp)
  then have "spine s2 q (rev sp) ?y" using s2(3) t(2) x by (auto simp: spine_append)
  moreover have "repr (f ` outer K s1) s2 d ?y" by (rule repr_mono [OF repr_relinked [OF rel _ d]]) auto
  ultimately have "repr (f ` outer K s1) s2 (foldr SCons (rev es) d) q"
    using spine_repr [OF _ elements_relinked [OF r(1) rel]] h(2) by simp
  moreover have fr: "frames s' = frames s" "lisp_in s2 = lisp_in s" "frames s2 = frames s" using q(3) rel by (simp_all add: relinked_def)
  ultimately have "has_read K s1 cs1 (foldr SCons (rev es) d) (lisp_in s) (length cs) q s2"
    using rt r(2) assms(3) unfolding has_read_def by auto
  moreover have "get (Slot K 1) s = Inr (Ref (fst x), s)" "get (Slot K 1) s' = Inr (Ref (fst x), s')" "get (Slot K 2) s' = Inr (?y, s')"
    using get_slot [of K s 1] get_slot [of K s' 1] get_slot [of K s' 2] r(2,3) fr(1) h(1) by simp_all
  ultimately show ?thesis using q(1) s2(1) h(1) by (simp add: gives_def lbind_def return_def)
qed

section \<open>Reading back what was printed\<close>

lemma repr_not_static: "repr A s e p \<Longrightarrow> p \<noteq> Null_obj \<and> p \<noteq> Cparen_obj \<and> p \<noteq> Dot_obj"
  by (cases e) (auto simp: object_def)

lemma has_read_mono: "has_read K s cs e w j p s' \<Longrightarrow> j \<le> j' \<Longrightarrow> has_read K s cs e w j' p s'"
  unfolding has_read_def using le_trans by blast

lemma element_avoids:
  assumes "reading_list K s1 cs1 f s cs sp es" and "symbols s1 cs1"
  shows "(g \<circ> f) ` outer K s1 \<union> fst ` set (map (move g) sp) \<subseteq> g ` outer (Suc K) s"
proof -
  have "fst ` set (map (move g) sp) = g ` fst ` set sp" by (auto simp: move_def image_image)
  then show ?thesis using reading_list_outer(1,2) [OF assms] by (auto simp: image_comp [symmetric])
qed

lemma has_read_moved:
  assumes "reading_list K s1 cs1 f s cs sp es" and "symbols s1 cs1" and "has_read (Suc K) s cs e w j p s2"
  shows "\<exists>f' cs2 sp'. reading_list K s1 cs1 f' s2 cs2 sp' es \<and> repr (f' ` outer K s1 \<union> fst ` set sp') s2 e p \<and> length cs2 \<le> j"
proof -
  obtain g cs2 where g: "reads_to (Suc K) s cs g s2 cs2" "repr (g ` outer (Suc K) s) s2 e p" "length cs2 \<le> j" and l: "length (frames s2) = Suc K"
    using assms(1,3) by (auto simp: has_read_def reading_list_def)
  have "repr ((g \<circ> f) ` outer K s1 \<union> fst ` set (map (move g) sp)) s2 e p" by (rule repr_mono [OF g(2) element_avoids [OF assms(1,2)]])
  then show ?thesis using reading_list_moved [OF assms(1,2) g(1) l] g(3) by blast
qed

lemma gives_lbind_fun: "gives (lbind m f) Q = gives m (\<lambda>x. gives (f x) Q)"
  by (rule ext) simp

abbreviation list_loop :: "obj lisp \<Rightarrow> nat \<Rightarrow> nat \<Rightarrow> nat \<Rightarrow> obj lisp" where
  "list_loop rd n m K \<equiv> read_list_loop rd n m (Slot K 0) (Slot K 1) (Slot K 2)"

abbreviation dot_tail :: "nat \<Rightarrow> nat \<Rightarrow> obj lisp" where
  "dot_tail n K \<equiv> lbind (get (Slot K 1)) (\<lambda>h. lbind (reverse n h) (\<lambda>ret.
     lbind (get (Slot K 1)) (\<lambda>h. lbind (get (Slot K 2)) (\<lambda>y. lbind (set_cdr h y) (\<lambda>_. return ret)))))"

lemma element_gives:
  assumes rl: "reading_list K s1 cs1 f s cs sp es" and sy: "symbols s1 cs1" and rd: "gives rd (has_read (Suc K) s cs e w j) s"
    and rest: "\<And>f' s' cs' sp'. reading_list K s1 cs1 f' s' cs' sp' (e # es) \<Longrightarrow> lisp_in s' = w \<Longrightarrow> length cs' \<le> j \<Longrightarrow> gives (list_loop rd n m K) Q s'"
  shows "gives (list_loop rd n (Suc m) K) Q s"
proof -
  let ?next = "gives (allocating (cons (Slot K 0) (Slot K 1))) (\<lambda>h. gives (put (Slot K 1) h) (\<lambda>_. gives (list_loop rd n m K) Q))"
  have "gives (put (Slot K 0) p) (\<lambda>_. ?next) s2 \<and> p \<noteq> Null_obj \<and> p \<noteq> Cparen_obj \<and> p \<noteq> Dot_obj" if h: "has_read (Suc K) s cs e w j p s2" for p s2
  proof -
    obtain f' cs2 sp' where r: "reading_list K s1 cs1 f' s2 cs2 sp' es" "repr (f' ` outer K s1 \<union> fst ` set sp') s2 e p" "length cs2 \<le> j"
      using has_read_moved [OF rl sy h] by blast
    have "lisp_ok s2" using r(1) by (simp add: reading_list_def reads_to_def)
    then have v: "valid s2 p" using r(2) by (rule repr_valid)
    have sl: "put (Slot K 0) p s2 = Inr ((), set_slot K 0 p s2)" "reading_list K s1 cs1 f' (set_slot K 0 p s2) cs2 sp' es" "frames (set_slot K 0 p s2) ! K ! 0 = p"
      using reading_list_slot [OF r(1) _ _ v, of 0] by simp_all
    have "repr (f' ` outer K s1 \<union> fst ` set sp') (set_slot K 0 p s2) e p" using r(2) same_memory_repr [OF set_slot_simps(1)] by simp
    then have "?next (set_slot K 0 p s2)"
      using cons_gives [OF sl(2) sy, of e] sl(3) rest r(3) h by (auto elim!: gives_weaken simp: has_read_def)
    then show ?thesis using sl(1) repr_not_static [OF r(2)] by (simp add: gives_Inr)
  qed
  then show ?thesis using rd by (auto elim!: gives_weaken simp: gives_lbind_fun)
qed

lemma read_space: "lisp_in s = CHR '' '' # w \<Longrightarrow> read_expr (Suc n) s = read_expr n (s\<lparr>lisp_in := w\<rparr>)"
  "lisp_in s = CHR '')'' # w \<Longrightarrow> read_expr (Suc n) s = Inr (Cparen_obj, s\<lparr>lisp_in := w\<rparr>)"
  "lisp_in s = CHR ''.'' # w \<Longrightarrow> read_expr (Suc n) s = Inr (Dot_obj, s\<lparr>lisp_in := w\<rparr>)"
  "lisp_in s = CHR ''('' # w \<Longrightarrow> read_expr (Suc n) s = read_list (read_expr n) n (s\<lparr>lisp_in := w\<rparr>)"
  by (simp_all add: read_expr_body_def lbind_def get1char_def return_def is_eof_def)

lemma loop_close:
  assumes rl: "reading_list K s1 cs1 f s cs sp es" and i: "lisp_in s = CHR '')'' # w" and "length sp < n" and "length (frames s1) = Suc K"
  shows "gives (list_loop (read_expr (Suc k)) n (Suc m) K) (has_read K s1 cs1 (foldr SCons (rev es) SNil) w (length cs)) s"
proof -
  let ?s = "set_slot K 0 Cparen_obj (s\<lparr>lisp_in := w\<rparr>)"
  have "valid (s\<lparr>lisp_in := w\<rparr>) Cparen_obj" using rl lisp_ok_in by (simp add: reading_list_def reads_to_def)
  then have sl: "put (Slot K 0) Cparen_obj (s\<lparr>lisp_in := w\<rparr>) = Inr ((), ?s)" "reading_list K s1 cs1 f ?s cs sp es"
    using reading_list_slot [OF reading_list_in [OF rl], of 0] by simp_all
  have "gives (lbind (get (Slot K 1)) (reverse n)) (has_read K s1 cs1 (foldr SCons (rev es) SNil) (lisp_in ?s) (length cs)) ?s"
    by (rule close_gives [OF sl(2) assms(3,4)])
  then show ?thesis using sl(1) read_space(2) [OF i, of k] by (simp add: gives_Inr del: read_expr.simps)
qed

lemma loop_dot:
  assumes rl: "reading_list K s1 cs1 f s cs sp es" and sy: "symbols s1 cs1" and i: "lisp_in s = '' . '' @ w" and n: "length sp < n" and l1: "length (frames s1) = Suc K" and "sp \<noteq> []"
    and rd: "\<And>s'. lisp_ok s' \<Longrightarrow> symbols s' cs \<Longrightarrow> length (frames s') = Suc K \<Longrightarrow> lisp_in s' = w \<Longrightarrow> gives (read_expr (Suc k)) (has_read (Suc K) s' cs d (CHR '')'' # v) j) s'"
  shows "gives (list_loop (read_expr (Suc (Suc k))) n (Suc m) K) (has_read K s1 cs1 (foldr SCons (rev es) d) v j) s"
proof -
  define s2 where "s2 = s\<lparr>lisp_in := CHR '' '' # w\<rparr>"
  define s3 where "s3 = set_slot K 0 Dot_obj s2"
  have dot: "read_expr (Suc (Suc k)) s = Inr (Dot_obj, s2)" using i read_space(1) [of s "CHR ''.'' # CHR '' '' # w" "Suc k"] read_space(3) by (simp add: s2_def del: read_expr.simps)
  have rl2: "reading_list K s1 cs1 f s2 cs sp es" unfolding s2_def by (rule reading_list_in [OF rl])
  then have "valid s2 Dot_obj" by (simp add: reading_list_def reads_to_def)
  then have sl: "put (Slot K 0) Dot_obj s2 = Inr ((), s3)" "reading_list K s1 cs1 f s3 cs sp es" unfolding s3_def
    using reading_list_slot [OF rl2, of 0] by simp_all
  define s4 where "s4 = s3\<lparr>lisp_in := w\<rparr>"
  have rl4: "reading_list K s1 cs1 f s4 cs sp es" unfolding s4_def by (rule reading_list_in [OF sl(2)])
  have "read_expr (Suc (Suc k)) s3 = read_expr (Suc k) s4" unfolding s4_def by (rule read_space(1)) (simp add: s3_def s2_def)
  moreover have "gives (read_expr (Suc k)) (has_read (Suc K) s4 cs d (CHR '')'' # v) j) s4"
    by (rule rd) (use rl4 in \<open>auto simp: reading_list_def reads_to_def s4_def\<close>)
  ultimately have y: "gives (read_expr (Suc (Suc k))) (has_read (Suc K) s4 cs d (CHR '')'' # v) j) s3" by (simp add: gives_def)
  let ?after = "lbind (read_expr (Suc (Suc k))) (\<lambda>z. if z \<noteq> Cparen_obj then lisp_error ''Closed parenthesis expected after dot'' else dot_tail n K)"
  have "gives (put (Slot K 2) y) (\<lambda>_. gives ?after (has_read K s1 cs1 (foldr SCons (rev es) d) v j)) s5"
    if h: "has_read (Suc K) s4 cs d (CHR '')'' # v) j y s5" for y s5
  proof -
    obtain f' cs5 sp' where r: "reading_list K s1 cs1 f' s5 cs5 sp' es" "repr (f' ` outer K s1 \<union> fst ` set sp') s5 d y" "length cs5 \<le> j"
      using has_read_moved [OF rl4 sy h] by blast
    have len: "length sp' = length sp" using r(1) rl by (auto simp: reading_list_def built_list_def dest!: list_all2_lengthD)
    have "lisp_ok s5" using r(1) by (simp add: reading_list_def reads_to_def)
    then have vy: "valid s5 y" using r(2) by (rule repr_valid)
    define s6 where "s6 = set_slot K 2 y s5"
    have sl6: "put (Slot K 2) y s5 = Inr ((), s6)" "reading_list K s1 cs1 f' s6 cs5 sp' es" "frames s6 ! K ! 2 = y"
      unfolding s6_def using reading_list_slot [OF r(1) _ _ vy, of 2] by simp_all
    define s7 where "s7 = s6\<lparr>lisp_in := v\<rparr>"
    have "read_expr (Suc (Suc k)) s6 = Inr (Cparen_obj, s7)" unfolding s7_def
      by (rule read_space(2)) (use h in \<open>simp add: s6_def has_read_def\<close>)
    moreover have rl7: "reading_list K s1 cs1 f' s7 cs5 sp' es" unfolding s7_def by (rule reading_list_in [OF sl6(2)])
    have "repr (f' ` outer K s1 \<union> fst ` set sp') s6 d y" unfolding s6_def using r(2) same_memory_repr [OF set_slot_simps(1)] by simp
    then have d7: "repr (f' ` outer K s1 \<union> fst ` set sp') s7 d (frames s7 ! K ! 2)" using sl6(3) by (simp add: s7_def)
    have "gives (dot_tail n K) (has_read K s1 cs1 (foldr SCons (rev es) d) (lisp_in s7) (length cs5)) s7"
      by (rule dot_gives [OF rl7 _ l1 d7]) (use n len assms(6) in auto)
    then have "gives (dot_tail n K) (has_read K s1 cs1 (foldr SCons (rev es) d) v j) s7"
      by (rule gives_weaken) (use has_read_mono r(3) in \<open>auto simp: s7_def\<close>)
    ultimately show ?thesis using sl6(1) by (simp add: gives_Inr del: read_expr.simps)
  qed
  with y have "gives (read_expr (Suc (Suc k))) (\<lambda>y. gives (put (Slot K 2) y) (\<lambda>_. gives ?after (has_read K s1 cs1 (foldr SCons (rev es) d) v j))) s3"
    by (rule gives_weaken)
  then show ?thesis using dot sl(1) by (simp add: gives_Inr gives_lbind_fun del: read_expr.simps One_nat_def)
qed

lemma delimited_rest [simp]: "delimited (show_rest d @ CHR '')'' # w)"
  by (cases d) (simp_all add: delimited_def isalnum_def isalpha_def isdigit_def symbol_char_def)

lemma delimited_close [simp]: "delimited (CHR '')'' # w)"
  using delimited_rest [of SNil w] by simp

text \<open>The statement for an expression, and the one for the rest of a list, once its first elements have been read.\<close>

definition reads_back :: "sexp \<Rightarrow> bool" where
  "reads_back e \<longleftrightarrow> (\<forall>n K s cs w. lisp_ok s \<longrightarrow> symbols s cs \<longrightarrow> K = length (frames s) \<longrightarrow> lisp_in s = show_sexp e @ w \<longrightarrow> delimited w \<longrightarrow>
     2 * length (show_sexp e) + length cs < n \<longrightarrow> gives (read_expr n) (has_read K s cs e w (length cs + length (show_sexp e))) s)"

lemma reads_backD:
  assumes "reads_back e" and "lisp_ok s" and "symbols s cs" and "length (frames s) = K" and "lisp_in s = show_sexp e @ w" and "delimited w"
    and "2 * length (show_sexp e) + length cs < n"
  shows "gives (read_expr n) (has_read K s cs e w (length cs + length (show_sexp e))) s"
  using assms unfolding reads_back_def by blast

definition rest_reads_back :: "sexp \<Rightarrow> bool" where
  "rest_reads_back d \<longleftrightarrow> (\<forall>n m K s1 cs1 f s cs sp es w. reading_list K s1 cs1 f s cs sp es \<longrightarrow> symbols s1 cs1 \<longrightarrow> length (frames s1) = Suc K \<longrightarrow>
     es \<noteq> [] \<longrightarrow> lisp_in s = show_rest d @ CHR '')'' # w \<longrightarrow> 2 * length (show_rest d) + 2 + length cs < n \<longrightarrow> length es + length (show_rest d) < n \<longrightarrow>
     length (show_rest d) < m \<longrightarrow>
     gives (list_loop (read_expr n) n m K) (has_read K s1 cs1 (foldr SCons (rev es) d) w (length cs + length (show_rest d))) s)"

lemma reading_list_length: "reading_list K s1 cs1 f s cs sp es \<Longrightarrow> length sp = length es"
  by (auto simp: reading_list_def built_list_def dest!: list_all2_lengthD)

lemma reading_list_ok: "reading_list K s1 cs1 f s cs sp es \<Longrightarrow> lisp_ok s \<and> symbols s cs \<and> length (frames s) = Suc K"
  by (simp add: reading_list_def reads_to_def)

lemma rest_nil: "rest_reads_back SNil"
proof -
  have "gives (list_loop (read_expr n) n m K) (has_read K s1 cs1 (foldr SCons (rev es) SNil) w (length cs)) s"
    if rl: "reading_list K s1 cs1 f s cs sp es" and l1: "length (frames s1) = Suc K" and i: "lisp_in s = CHR '')'' # w" and n: "length es < n" and m: "0 < m"
    for n m K s1 cs1 f s cs sp es w
  proof -
    obtain k j where "n = Suc k" "m = Suc j" using n m by (cases n; cases m) auto
    then show ?thesis using loop_close [OF rl i _ l1, of n k j] reading_list_length [OF rl] n by (simp del: read_expr.simps)
  qed
  then show ?thesis by (simp add: rest_reads_back_def del: read_list_loop.simps)
qed

lemma rest_atom:
  assumes "reads_back d" and "show_rest d = '' . '' @ show_sexp d"
  shows "rest_reads_back d"
proof -
  have "gives (list_loop (read_expr n) n m K) (has_read K s1 cs1 (foldr SCons (rev es) d) w (length cs + length (show_rest d))) s"
    if rl: "reading_list K s1 cs1 f s cs sp es" and sy: "symbols s1 cs1" and l1: "length (frames s1) = Suc K" and es: "es \<noteq> []" and i: "lisp_in s = show_rest d @ CHR '')'' # w"
      and n: "2 * length (show_rest d) + 2 + length cs < n" "length es + length (show_rest d) < n" and m: "length (show_rest d) < m" for n m K s1 cs1 f s cs sp es w
  proof -
    obtain k j where nm: "n = Suc (Suc k)" "m = Suc j" using n(1) m by (cases n; cases "n - 1"; cases m) auto
    have "gives (read_expr (Suc k)) (has_read (Suc K) s' cs d (CHR '')'' # w) (length cs + length (show_rest d))) s'"
      if "lisp_ok s'" "symbols s' cs" "length (frames s') = Suc K" "lisp_in s' = show_sexp d @ CHR '')'' # w" for s'
    proof -
      have "gives (read_expr (Suc k)) (has_read (Suc K) s' cs d (CHR '')'' # w) (length cs + length (show_sexp d))) s'"
        by (rule reads_backD [OF assms(1)]) (use that n(1) nm(1) assms(2) in simp_all)
      then show ?thesis by (rule gives_weaken) (use assms(2) in \<open>auto intro: has_read_mono\<close>)
    qed
    note rd = this
    have "sp \<noteq> []" "length sp < Suc (Suc k)" "lisp_in s = '' . '' @ show_sexp d @ CHR '')'' # w"
      using reading_list_length [OF rl] es i n(2) nm(1) assms(2) by auto
    then show ?thesis unfolding nm by (intro loop_dot [OF rl sy _ _ l1] rd)
  qed
  then show ?thesis unfolding rest_reads_back_def by blast
qed

lemma rest_reads_backD:
  assumes "rest_reads_back d" and "reading_list K s1 cs1 f s cs sp es" and "symbols s1 cs1" and "length (frames s1) = Suc K" and "es \<noteq> []"
    and "lisp_in s = show_rest d @ CHR '')'' # w" and "2 * length (show_rest d) + 2 + length cs < n" and "length es + length (show_rest d) < n"
    and "length (show_rest d) < m"
  shows "gives (list_loop (read_expr n) n m K) (has_read K s1 cs1 (foldr SCons (rev es) d) w (length cs + length (show_rest d))) s"
  using assms unfolding rest_reads_back_def by blast

lemma element_then_rest:
  assumes rl: "reading_list K s1 cs1 f s cs sp es" and sy: "symbols s1 cs1" and l1: "length (frames s1) = Suc K" and d: "rest_reads_back d"
    and rd: "gives (read_expr n) (has_read (Suc K) s cs a (show_rest d @ CHR '')'' # w) (length cs + length (show_sexp a))) s"
    and n: "2 * length (show_rest d) + 2 + length cs + length (show_sexp a) < n" "Suc (length es) + length (show_rest d) < n" and m: "length (show_rest d) < m"
  shows "gives (list_loop (read_expr n) n (Suc m) K) (has_read K s1 cs1 (foldr SCons (rev es) (SCons a d)) w (length cs + length (show_sexp a) + length (show_rest d))) s"
proof (rule element_gives [OF rl sy rd])
  fix f' s' cs' sp' assume rl': "reading_list K s1 cs1 f' s' cs' sp' (a # es)" and i: "lisp_in s' = show_rest d @ CHR '')'' # w"
    and c: "length cs' \<le> length cs + length (show_sexp a)"
  have "gives (list_loop (read_expr n) n m K) (has_read K s1 cs1 (foldr SCons (rev (a # es)) d) w (length cs' + length (show_rest d))) s'"
    by (rule rest_reads_backD [OF d rl' sy l1 _ i]) (use c n m in auto)
  then show "gives (list_loop (read_expr n) n m K) (has_read K s1 cs1 (foldr SCons (rev es) (SCons a d)) w (length cs + length (show_sexp a) + length (show_rest d))) s'"
    by (rule gives_weaken) (use c in \<open>auto intro: has_read_mono\<close>)
qed

lemma rest_cons:
  assumes a: "reads_back a" and d: "rest_reads_back d" shows "rest_reads_back (SCons a d)"
proof -
  let ?r = "show_rest (SCons a d)"
  have "gives (list_loop (read_expr n) n m K) (has_read K s1 cs1 (foldr SCons (rev es) (SCons a d)) w (length cs + length ?r)) s"
    if rl: "reading_list K s1 cs1 f s cs sp es" and sy: "symbols s1 cs1" and l1: "length (frames s1) = Suc K" and i: "lisp_in s = ?r @ CHR '')'' # w"
      and n: "2 * length ?r + 2 + length cs < n" "length es + length ?r < n" and m: "length ?r < m" for n m K s1 cs1 f s cs sp es w
  proof -
    obtain k j where nm: "n = Suc k" "m = Suc j" using n(1) m by (cases n; cases m) auto
    let ?w = "show_rest d @ CHR '')'' # w" and ?s = "s\<lparr>lisp_in := show_sexp a @ show_rest d @ CHR '')'' # w\<rparr>"
    have "gives (read_expr k) (has_read (Suc K) ?s cs a ?w (length cs + length (show_sexp a))) ?s"
      by (rule reads_backD [OF a]) (use reading_list_ok [OF rl] n nm in \<open>simp_all add: lisp_ok_in\<close>)
    moreover have "read_expr n s = read_expr k ?s" unfolding nm by (rule read_space(1)) (use i in simp)
    ultimately have rd: "gives (read_expr n) (has_read (Suc K) s cs a ?w (length cs + length (show_sexp a))) s" by (simp add: gives_def)
    have "gives (list_loop (read_expr n) n (Suc j) K)
        (has_read K s1 cs1 (foldr SCons (rev es) (SCons a d)) w (length cs + length (show_sexp a) + length (show_rest d))) s"
      by (rule element_then_rest [OF rl sy l1 d rd]) (use n m nm in simp_all)
    then show ?thesis unfolding nm(2) by (rule gives_weaken) (auto intro: has_read_mono)
  qed
  then show ?thesis unfolding rest_reads_back_def by blast
qed

lemma list_start:
  assumes "lisp_ok s1" and "symbols s1 cs" and "frames s1 = fs @ [replicate 3 Null_obj]" and "length fs = K"
  shows "put (Slot K 1) Nil_obj s1 = Inr ((), set_slot K 1 Nil_obj s1)" "reading_list K s1 cs id (set_slot K 1 Nil_obj s1) cs [] []"
proof -
  let ?s = "set_slot K 1 Nil_obj s1"
  have l: "K < length (frames s1)" "1 < length (frames s1 ! K)" using assms(3,4) by auto
  then show "put (Slot K 1) Nil_obj s1 = Inr ((), ?s)" by (rule put_slot)
  have "lisp_ok ?s" by (rule set_slot_ok [OF _ l]) (use assms(1) in simp)
  then have "reads_to K s1 cs id ?s cs" by (rule reads_to_local [OF reads_to_refl [OF assms(1,2)]]) simp_all
  then show "reading_list K s1 cs id ?s cs [] []" using assms(3,4) by (auto simp: reading_list_def built_list_def)
qed

lemma list_gives:
  assumes s: "lisp_ok s" "symbols s cs" "length (frames s) = K" and i: "lisp_in s = CHR ''('' # v"
    and loop: "\<And>s1 s'. symbols s1 cs \<Longrightarrow> length (frames s1) = Suc K \<Longrightarrow> reading_list K s1 cs id s' cs [] [] \<Longrightarrow> lisp_in s' = v \<Longrightarrow>
      gives (list_loop (read_expr n) n n K) (has_read K s1 cs e w j) s'"
  shows "gives (read_expr (Suc n)) (has_read K s cs e w j) s"
proof -
  have "gives (read_list (read_expr n) n) (has_read K (s\<lparr>lisp_in := v\<rparr>) cs e w j) (s\<lparr>lisp_in := v\<rparr>)" unfolding read_list_def
  proof (rule gives_DEFINE)
    fix s1 assume s1: "lisp_ok s1" "symbols s1 cs" "frames s1 = frames (s\<lparr>lisp_in := v\<rparr>) @ [replicate 3 Null_obj]" "lisp_in s1 = lisp_in (s\<lparr>lisp_in := v\<rparr>)"
    have st: "put (Slot K 1) Nil_obj s1 = Inr ((), set_slot K 1 Nil_obj s1)" "reading_list K s1 cs id (set_slot K 1 Nil_obj s1) cs [] []"
      using list_start [OF s1(1,2), of "frames s" K] s1(3) s(3) by simp_all
    have "gives (list_loop (read_expr n) n n K) (has_read K s1 cs e w j) (set_slot K 1 Nil_obj s1)"
      by (rule loop [OF s1(2) _ st(2)]) (use s1(3,4) s(3) in simp_all)
    then show "gives (let obj = Slot K 0; head = Slot K 1; lst = Slot K 2 in lbind (put head Nil_obj) (\<lambda>_. read_list_loop (read_expr n) n n obj head lst))
        (has_read K s1 cs e w j) s1" using st(1) by (simp add: Let_def gives_Inr)
  qed (use s in \<open>simp_all add: lisp_ok_in\<close>)
  then show ?thesis using read_space(4) [OF i, of n] by (simp add: gives_def)
qed

lemma back_list:
  assumes a: "reads_back a" and d: "rest_reads_back d" shows "reads_back (SCons a d)"
proof -
  let ?t = "show_sexp (SCons a d)"
  have "gives (read_expr n) (has_read K s cs (SCons a d) w (length cs + length ?t)) s"
    if s: "lisp_ok s" "symbols s cs" "length (frames s) = K" and i: "lisp_in s = ?t @ w" and n: "2 * length ?t + length cs < n" for n K s cs w
  proof -
    obtain k where k: "n = Suc (Suc k)" using n by (cases n; cases "n - 1") auto
    have loop: "gives (list_loop (read_expr (Suc k)) (Suc k) (Suc k) K) (has_read K s1 cs (SCons a d) w (length cs + length ?t)) s'"
      if sy: "symbols s1 cs" and l1: "length (frames s1) = Suc K" and rl: "reading_list K s1 cs id s' cs [] []" and i': "lisp_in s' = show_sexp a @ show_rest d @ CHR '')'' # w" for s1 s'
    proof -
      have rd: "gives (read_expr (Suc k)) (has_read (Suc K) s' cs a (show_rest d @ CHR '')'' # w) (length cs + length (show_sexp a))) s'"
        by (rule reads_backD [OF a]) (use reading_list_ok [OF rl] i' n k in simp_all)
      have "gives (list_loop (read_expr (Suc k)) (Suc k) (Suc k) K)
          (has_read K s1 cs (foldr SCons (rev []) (SCons a d)) w (length cs + length (show_sexp a) + length (show_rest d))) s'"
        by (rule element_then_rest [OF rl sy l1 d rd]) (use n k in simp_all)
      then show ?thesis by (rule gives_weaken) (auto intro: has_read_mono)
    qed
    have "lisp_in s = CHR ''('' # show_sexp a @ show_rest d @ CHR '')'' # w" using i by simp
    then show ?thesis unfolding k by (rule list_gives [OF s]) (rule loop)
  qed
  then show ?thesis unfolding reads_back_def by blast
qed

lemma back_nil: "reads_back SNil"
proof -
  have "gives (read_expr n) (has_read K s cs SNil w (length cs + 2)) s"
    if s: "lisp_ok s" "symbols s cs" "length (frames s) = K" and i: "lisp_in s = ''()'' @ w" and n: "4 + length cs < n" for n K s cs w
  proof -
    obtain k where k: "n = Suc (Suc k)" using n by (cases n; cases "n - 1") auto
    have loop: "gives (list_loop (read_expr (Suc k)) (Suc k) (Suc k) K) (has_read K s1 cs SNil w (length cs + 2)) s'"
      if "length (frames s1) = Suc K" "reading_list K s1 cs id s' cs [] []" "lisp_in s' = CHR '')'' # w" for s1 s'
      by (rule gives_weaken [OF loop_close [OF that(2,3) _ that(1)]]) (auto intro: has_read_mono)
    have "lisp_in s = CHR ''('' # CHR '')'' # w" using i by simp
    then show ?thesis unfolding k by (rule list_gives [OF s]) (rule loop)
  qed
  then show ?thesis by (simp add: reads_back_def del: read_expr.simps)
qed

lemma back_atoms: "reads_back (SInt v)" "symbol_ok nm \<Longrightarrow> reads_back (SSym nm)"
proof -
  have "gives (read_expr n) (has_read (length (frames s)) s cs (SInt v) w (length cs + length (show_int v))) s"
    if "lisp_ok s" "symbols s cs" "lisp_in s = show_int v @ w" "delimited w" and n: "2 * length (show_int v) + length cs < n" for n s cs w
  proof -
    have "0 < length (show_int v)" using show_nat_digits by (simp add: show_int_def)
    then obtain k where "n = Suc k" "length (show_int v) < k" using n by (cases n) auto
    then show ?thesis using gives_weaken [OF read_int_gives [OF that(1,2) refl that(3,4)] has_read_mono] by (simp del: read_expr.simps)
  qed
  then show "reads_back (SInt v)" by (simp add: reads_back_def del: read_expr.simps)
  have "gives (read_expr n) (has_read (length (frames s)) s cs (SSym nm) w (length cs + length nm)) s"
    if ok: "symbol_ok nm" and "lisp_ok s" "symbols s cs" "lisp_in s = nm @ w" "delimited w" and n: "2 * length nm + length cs < n" for n s cs w
  proof -
    have "0 < length nm" using ok by (simp add: symbol_ok_def)
    then obtain k where "n = Suc k" "length nm < k" "length cs < k" "Suc (length cs) \<le> length cs + length nm" using n by (cases n) auto
    then show ?thesis using gives_weaken [OF read_sym_gives [OF that(2,3) refl that(4,5) _ _ ok] has_read_mono] by (simp del: read_expr.simps)
  qed
  then show "symbol_ok nm \<Longrightarrow> reads_back (SSym nm)" by (simp add: reads_back_def del: read_expr.simps)
qed

lemma reads_back_all: "symbols_ok e \<Longrightarrow> reads_back e \<and> rest_reads_back e"
proof (induction e)
  case (SInt v)
  then show ?case using back_atoms(1) rest_atom by simp
next
  case (SSym n)
  then show ?case using back_atoms(2) rest_atom by simp
next
  case SNil
  then show ?case using back_nil rest_nil by simp
next
  case (SCons a d)
  then show ?case using back_list rest_cons by simp
qed

section \<open>Properties\<close>

text \<open>
  (C13) What the interpreter prints, it reads back. Printing an expression of numbers, symbols and cells
  (properly closed or dotted, of any depth) always returns and writes a text; and whenever that text, followed by
  a character that ends a symbol, is what the reader finds next on its input, in this interpreter or in any other that is in
  order, \<^verbatim>\<open>read_expr\<close> returns a pointer to an expression of the same structure, leaves exactly the rest of the input,
  and keeps every object that the roots reach, unless the memory is exhausted. Numbers come back for all 32-bit values.
  The fuel grows with the length of the text and the number of symbols.
\<close>

theorem print_read_roundtrip:
  assumes "repr {} s e p" and "symbols_ok e" and "2 * size e < n"
  shows "\<exists>txt. lisp_print n p s = Inr ((), lisp_write txt s) \<and>
    (\<forall>t cs w m. lisp_ok t \<and> symbols t cs \<and> lisp_in t = txt @ w \<and> delimited w \<and> 2 * length txt + length cs < m \<longrightarrow>
      (case read_expr m t of
         Inl x \<Rightarrow> x = Error ''Memory exhausted''
       | Inr (q, t') \<Rightarrow> repr {} t' e q \<and> lisp_in t' = w \<and> lisp_ok t' \<and> (\<exists>f. kept (length (frames t)) f t t')))"
proof (intro exI conjI allI impI)
  show "lisp_print n p s = Inr ((), lisp_write (show_sexp e) s)" by (rule print_ok(1) [OF assms])
  fix t cs w m
  assume "lisp_ok t \<and> symbols t cs \<and> lisp_in t = show_sexp e @ w \<and> delimited w \<and> 2 * length (show_sexp e) + length cs < m"
  then have "gives (read_expr m) (has_read (length (frames t)) t cs e w (length cs + length (show_sexp e))) t"
    using reads_backD [of e t cs "length (frames t)" w m] reads_back_all [OF assms(2)] by blast
  then have "gives (read_expr m) (\<lambda>q t'. repr {} t' e q \<and> lisp_in t' = w \<and> lisp_ok t' \<and> (\<exists>f. kept (length (frames t)) f t t')) t"
    by (rule gives_weaken) (auto simp: has_read_def reads_to_def intro: repr_mono)
  then show "case read_expr m t of Inl x \<Rightarrow> x = Error ''Memory exhausted''
       | Inr (q, t') \<Rightarrow> repr {} t' e q \<and> lisp_in t' = w \<and> lisp_ok t' \<and> (\<exists>f. kept (length (frames t)) f t t')"
    by (simp add: gives_def)
qed

text \<open>The list \<open>(5 foo . -7)\<close> in memory, and an interpreter that has just been started.\<close>

definition demo_expr :: sexp where
  "demo_expr = SCons (SInt 5) (SCons (SSym ''foo'') (SInt (- 7)))"

definition demo_memory :: lisp_state where
  "demo_memory = demo_repl\<lparr>memory := 1000, mem_nused := 96, cur_heap := 1000, next_heap := 2000, memory_size := 96, Symbols := Nil_obj,
     mem := [1000 \<mapsto> \<lparr>ob_type = TCELL, ob_size = 24, ob_value = Cell (Ref 1048) (Ref 1024)\<rparr>,
       1024 \<mapsto> \<lparr>ob_type = TCELL, ob_size = 24, ob_value = Cell (Ref 1064) (Ref 1080)\<rparr>,
       1048 \<mapsto> \<lparr>ob_type = TINT, ob_size = 16, ob_value = Value 5\<rparr>,
       1064 \<mapsto> \<lparr>ob_type = TSYMBOL, ob_size = 16, ob_value = Name ''foo''\<rparr>,
       1080 \<mapsto> \<lparr>ob_type = TINT, ob_size = 16, ob_value = Value (- 7)\<rparr>]\<rparr>"

definition demo_reader :: "string \<Rightarrow> lisp_state" where
  "demo_reader txt = (lisp_init 1000 2000 200 False False demo_repl)\<lparr>Symbols := Nil_obj, lisp_in := txt\<rparr>"

lemma demo_expr_repr: "repr {} demo_memory demo_expr (Ref 1000)"
  by (simp add: demo_expr_def demo_memory_def demo_repl_def object_def in_heap_def object_at.simps)

lemma demo_reader_ok: "lisp_ok (demo_reader txt) \<and> symbols (demo_reader txt) []"
proof -
  have "heap_ok (demo_reader txt) []"
    by (simp add: demo_reader_def demo_repl_def lisp_init_def heap_ok_def objects_ok_def roots_def)
  then show ?thesis by (auto simp: lisp_ok_def symbols_def demo_reader_def demo_repl_def lisp_init_def)
qed

theorem print_read_roundtrip_witness:
  "lisp_print 20 (Ref 1000) demo_memory = Inr ((), lisp_write ''(5 foo . -7)'' demo_memory) \<and>
    (case read_expr 40 (demo_reader ''(5 foo . -7) '') of
       Inl x \<Rightarrow> x = Error ''Memory exhausted''
     | Inr (q, t') \<Rightarrow> repr {} t' demo_expr q \<and> lisp_in t' = '' '')"
proof -
  have "symbols_ok demo_expr" by code_simp
  then obtain u where u: "lisp_print 20 (Ref 1000) demo_memory = Inr ((), lisp_write u demo_memory)"
      "\<forall>t cs w m. lisp_ok t \<and> symbols t cs \<and> lisp_in t = u @ w \<and> delimited w \<and> 2 * length u + length cs < m \<longrightarrow>
       (case read_expr m t of Inl x \<Rightarrow> x = Error ''Memory exhausted''
        | Inr (q, t') \<Rightarrow> repr {} t' demo_expr q \<and> lisp_in t' = w \<and> lisp_ok t' \<and> (\<exists>f. kept (length (frames t)) f t t'))"
    using print_read_roundtrip [OF demo_expr_repr, of 20] by (auto simp: demo_expr_def)
  have "lisp_write u demo_memory = lisp_write (show_sexp demo_expr) demo_memory"
    using u(1) print_ok(1) [OF demo_expr_repr, of 20] \<open>symbols_ok demo_expr\<close> by (simp add: demo_expr_def)
  moreover have "show_sexp demo_expr = ''(5 foo . -7)''" by code_simp
  ultimately have uq: "u = ''(5 foo . -7)''" by (simp add: lisp_write_def demo_memory_def demo_repl_def)
  moreover have "delimited '' ''" by code_simp
  ultimately have "case read_expr 40 (demo_reader ''(5 foo . -7) '') of Inl x \<Rightarrow> x = Error ''Memory exhausted''
        | Inr (q, t') \<Rightarrow> repr {} t' demo_expr q \<and> lisp_in t' = '' '' \<and> lisp_ok t' \<and> (\<exists>f. kept (length (frames (demo_reader ''(5 foo . -7) ''))) f (demo_reader ''(5 foo . -7) '') t')"
    using u(2) [rule_format, of "demo_reader ''(5 foo . -7) ''" "[]" "'' ''" 40] demo_reader_ok [of "''(5 foo . -7) ''"] by (simp add: demo_reader_def)
  then show ?thesis using u(1) uq by (simp split: sum.splits prod.splits)
qed

end
