(* ===== verification/AvrHal.thy ===== *)
theory AvrHal
  imports KP_Prelude
begin

text \<open>
  The hardware layer of the microcontroller build, \<^verbatim>\<open>src/hal/avr_hal.c\<close>: the creation of stack frames, the context
  switch with its assembly, and the set-up of the ports, the timer, the serial line and the watchdog. The machine
  is its 32 registers, the status register, the stack pointer, the program counter, the memory and the device
  registers that the layer writes. The contexts are kept apart from the memory of the stacks.
\<close>

unbundle bit_operations_syntax

section \<open>The machine\<close>

type_synonym avr_byte = "8 word"
type_synonym avr_addr = "16 word"

text \<open>The periods of the watchdog, as \<^verbatim>\<open>avr/wdt.h\<close> names them.\<close>

datatype wdto = WDTO_15MS | WDTO_30MS | WDTO_60MS | WDTO_120MS | WDTO_250MS | WDTO_500MS | WDTO_1S | WDTO_2S

record avr_context =
  Flag :: avr_addr
  Stack :: avr_addr
  TimesRun :: avr_addr
  TimesSwitched :: avr_addr
  High :: avr_addr
  Low :: avr_addr

record avr_state =
  regs :: "nat \<Rightarrow> avr_byte"
  SREG :: avr_byte
  SP :: avr_addr
  PC :: avr_addr
  ram :: "avr_addr \<Rightarrow> avr_byte"
  contexts :: "nat \<Rightarrow> avr_context"
  ActiveStack :: nat
  NextStack :: "nat option"
  HalWatchdogMask_DDR :: avr_byte
  DEBUG_SW_DDR :: avr_byte
  DEBUG_SW_PORT :: avr_byte
  TCNT0 :: avr_byte
  TIMSK :: avr_byte
  TCCR0 :: avr_byte
  UBRR :: avr_byte
  UCSRB :: avr_byte
  UCSRC :: avr_byte
  watchdog :: "wdto option"
  wdt_resets :: nat

text \<open>The instructions of the context switch. \<^verbatim>\<open>push\<close> stores and then decrements the stack pointer; \<^verbatim>\<open>ret\<close> pops
  the high byte of the address first.\<close>

datatype avr_instr = PUSH nat | POP nat | IN_SREG nat | OUT_SREG nat | RET

fun exec :: "avr_instr \<Rightarrow> avr_state \<Rightarrow> avr_state" where
  "exec (PUSH r) s = s\<lparr>ram := (ram s)(SP s := regs s r), SP := SP s - 1\<rparr>"
| "exec (POP r) s = s\<lparr>regs := (regs s)(r := ram s (SP s + 1)), SP := SP s + 1\<rparr>"
| "exec (IN_SREG r) s = s\<lparr>regs := (regs s)(r := SREG s)\<rparr>"
| "exec (OUT_SREG r) s = s\<lparr>SREG := regs s r\<rparr>"
| "exec RET s = s\<lparr>PC := push_bit 8 (ucast (ram s (SP s + 1))) OR ucast (ram s (SP s + 2)), SP := SP s + 2\<rparr>"

definition run_asm :: "avr_instr list \<Rightarrow> avr_state \<Rightarrow> avr_state" where
  "run_asm is s = fold exec is s"

section \<open>Context switch\<close>

definition HAL_SAVE_STATE :: "avr_instr list" where
  "HAL_SAVE_STATE = map PUSH [0..<32] @ [IN_SREG 0, PUSH 0]"

definition HAL_RESTORE_STATE :: "avr_instr list" where
  "HAL_RESTORE_STATE = [POP 0, OUT_SREG 0] @ map POP (rev [0..<32]) @ [RET]"

definition HAL_SAVE_SP :: "avr_state \<Rightarrow> avr_state" where
  "HAL_SAVE_SP s = s\<lparr>contexts := (contexts s)(ActiveStack s := (contexts s (ActiveStack s))\<lparr>Stack := SP s\<rparr>)\<rparr>"

definition HAL_SET_SP :: "avr_addr \<Rightarrow> avr_state \<Rightarrow> avr_state" where
  "HAL_SET_SP value s = s\<lparr>SP := value\<rparr>"

text \<open>\<^verbatim>\<open>unsigned int\<close> has 16 bits. A null next stack is an access to a null pointer. The compiled code between the two
  pieces of assembly may use any register: what they hold then does not matter, since all are restored.\<close>

definition ASSENDING :: "avr_addr \<Rightarrow> avr_addr \<Rightarrow> avr_addr \<Rightarrow> bool" where
  "ASSENDING a b c \<longleftrightarrow> a \<le> b \<and> b \<le> c"

definition HalContextSwitch_avr :: "avr_state \<Rightarrow> avr_state option" where
  "HalContextSwitch_avr s =
     (let s = run_asm HAL_SAVE_STATE s;
          s = HAL_SAVE_SP s;
          c = contexts s (ActiveStack s)
      in do {
        ASSERT (ASSENDING (Low c) (Stack c) (High c));
        nxt \<leftarrow> NextStack s;
        let s = s\<lparr>ActiveStack := nxt\<rparr>;
        let s = s\<lparr>NextStack := None\<rparr>;
        let s = HAL_SET_SP (Stack (contexts s (ActiveStack s))) s;
        Some (run_asm HAL_RESTORE_STATE s)
      })"

text \<open>\<open>frame_loop\<close> writes the registers' places, from register \<open>reg\<close> on; the status register is the last one.\<close>

function frame_loop :: "nat \<Rightarrow> avr_addr \<Rightarrow> (avr_addr \<Rightarrow> avr_byte) \<Rightarrow> avr_addr \<times> (avr_addr \<Rightarrow> avr_byte)" where
  "frame_loop reg sp m = (if reg < 33 then frame_loop (reg + 1) (sp - 1) (m(sp - 1 := of_nat reg)) else (sp, m))"
  by pat_completeness auto
termination by (relation "measure (\<lambda>(reg, _). 33 - reg)") auto

declare frame_loop.simps [simp del]

definition HalCreateStackFrame_avr :: "nat \<Rightarrow> avr_addr \<Rightarrow> avr_addr \<Rightarrow> avr_addr \<Rightarrow> avr_state \<Rightarrow> avr_state" where
  "HalCreateStackFrame_avr Context stack stackSize foo s =
     (let sp = stack + stackSize;
          sp = sp - 2;
          m = (ram s)(sp + 1 := ucast foo);
          m = m(sp := ucast (drop_bit 8 foo));
          (sp, m) = frame_loop 0 sp m;
          m = m(sp := 0);
          sp = sp - 1
      in s\<lparr>ram := m, contexts := (contexts s)(Context := (contexts s Context)\<lparr>Stack := sp, High := stack + stackSize, Low := stack\<rparr>)\<rparr>)"

definition HalGetInitialStackFrame_avr :: "nat \<Rightarrow> avr_state \<Rightarrow> avr_state" where
  "HalGetInitialStackFrame_avr Context s = s\<lparr>contexts := (contexts s)(Context := (contexts s Context)\<lparr>Stack := 0, High := - 1, Low := 0\<rparr>)\<rparr>"

section \<open>Devices\<close>

abbreviation TMR_PRESCALE_1024 :: avr_byte where "TMR_PRESCALE_1024 \<equiv> 0x07"
abbreviation TMR_MS :: avr_byte where "TMR_MS \<equiv> 16"
abbreviation BAUD_19200 :: avr_byte where "BAUD_19200 \<equiv> 51"
abbreviation UCSZ_8BIT :: avr_byte where "UCSZ_8BIT \<equiv> 6"

text \<open>The positions of the bits in the device registers are those of the processor, \<^verbatim>\<open>avr/io.h\<close>.\<close>

record avr_bits =
  TOIE0 :: nat
  TXCIE :: nat
  RXCIE :: nat
  RXEN :: nat
  TXEN :: nat

definition BV :: "nat \<Rightarrow> avr_byte" where
  "BV i = push_bit i 1"

definition HalStartup_avr :: "avr_state \<Rightarrow> avr_state" where
  "HalStartup_avr s = s\<lparr>HalWatchdogMask_DDR := 0xff, DEBUG_SW_DDR := 0x00, DEBUG_SW_PORT := 0xff\<rparr>"

definition HalInitClock_avr :: "avr_bits \<Rightarrow> avr_state \<Rightarrow> avr_state" where
  "HalInitClock_avr b s =
     (let s = s\<lparr>TCNT0 := 0xff - 1 * TMR_MS\<rparr>; s = s\<lparr>TIMSK := TIMSK s OR BV (TOIE0 b)\<rparr>
      in s\<lparr>TCCR0 := TCCR0 s OR TMR_PRESCALE_1024\<rparr>)"

definition HalResetClock_avr :: "avr_state \<Rightarrow> avr_state" where
  "HalResetClock_avr s = s\<lparr>TCNT0 := 0xff - 1 * 16\<rparr>"

definition HalSerialStartup_avr :: "avr_bits \<Rightarrow> avr_state \<Rightarrow> avr_state" where
  "HalSerialStartup_avr b s =
     s\<lparr>UBRR := BAUD_19200, UCSRC := UCSZ_8BIT, UCSRB := BV (TXCIE b) OR BV (RXCIE b) OR BV (RXEN b) OR BV (TXEN b)\<rparr>"

definition HalIsAtomic_avr :: "avr_state \<Rightarrow> bool" where
  "HalIsAtomic_avr s \<longleftrightarrow> SREG s AND BV 7 = 0"

definition HalDisableInterrupts_avr :: "avr_state \<Rightarrow> avr_state" where
  "HalDisableInterrupts_avr s = s\<lparr>SREG := unset_bit 7 (SREG s)\<rparr>"

definition HalEnableInterrupts_avr :: "avr_state \<Rightarrow> avr_state" where
  "HalEnableInterrupts_avr s = s\<lparr>SREG := set_bit 7 (SREG s)\<rparr>"

definition HalEnableWatchdog_avr :: "int \<Rightarrow> avr_state \<Rightarrow> avr_state" where
  "HalEnableWatchdog_avr timeout s =
     (if timeout \<le> 15 then s\<lparr>watchdog := Some WDTO_15MS\<rparr>
      else if timeout \<le> 30 then s\<lparr>watchdog := Some WDTO_30MS\<rparr>
      else if timeout \<le> 60 then s\<lparr>watchdog := Some WDTO_60MS\<rparr>
      else if timeout \<le> 120 then s\<lparr>watchdog := Some WDTO_120MS\<rparr>
      else if timeout \<le> 250 then s\<lparr>watchdog := Some WDTO_250MS\<rparr>
      else if timeout \<le> 500 then s\<lparr>watchdog := Some WDTO_500MS\<rparr>
      else if timeout \<le> 1000 then s\<lparr>watchdog := Some WDTO_1S\<rparr>
      else s\<lparr>watchdog := Some WDTO_2S\<rparr>)"

definition HalPetWatchdog_avr :: "avr_state \<Rightarrow> avr_state" where
  "HalPetWatchdog_avr s = s\<lparr>wdt_resets := wdt_resets s + 1\<rparr>"

definition HalSleepProcessor_avr :: "avr_state \<Rightarrow> avr_state" where
  "HalSleepProcessor_avr s = s"

section \<open>Saving and restoring\<close>

lemma unat_minus_one_addr: "unat (- 1 :: avr_addr) = 65535"
  by (simp add: unsigned_minus_1_eq_mask mask_eq_exp_minus_1)

lemma run_simps [simp]: "run_asm [] s = s" "run_asm (i # is) s = run_asm is (exec i s)" "run_asm (is @ js) s = run_asm js (run_asm is s)"
  by (simp_all add: run_asm_def)

text \<open>Where a byte pushed \<open>i\<close>-th from the stack pointer \<open>p\<close> is.\<close>

definition pushed :: "avr_addr \<Rightarrow> avr_byte list \<Rightarrow> (avr_addr \<Rightarrow> avr_byte) \<Rightarrow> avr_addr \<Rightarrow> avr_byte" where
  "pushed p bs m a = (if unat (p - a) < length bs then bs ! unat (p - a) else m a)"

lemma pushed_Nil [simp]: "pushed p [] m = m"
  by (rule ext) (simp add: pushed_def)

lemma pushed_snoc: "length bs < 2 ^ 16 \<Longrightarrow> (pushed p bs m)(p - of_nat (length bs) := b) = pushed p (bs @ [b]) m"
proof
  fix a assume l: "length bs < 2 ^ 16"
  have "a = p - of_nat (length bs) \<longleftrightarrow> unat (p - a) = length bs"
  proof
    assume "a = p - of_nat (length bs)"
    then show "unat (p - a) = length bs" using l by (simp add: unat_of_nat)
  next
    assume "unat (p - a) = length bs"
    then have "of_nat (unat (p - a)) = (of_nat (length bs) :: avr_addr)" by simp
    then show "a = p - of_nat (length bs)" by (simp add: algebra_simps)
  qed
  then show "((pushed p bs m)(p - of_nat (length bs) := b)) a = pushed p (bs @ [b]) m a" by (auto simp: pushed_def nth_append)
qed

lemma run_pushes:
  "length rs \<le> 2 ^ 16 \<Longrightarrow> run_asm (map PUSH rs) s = s\<lparr>ram := pushed (SP s) (map (regs s) rs) (ram s), SP := SP s - of_nat (length rs)\<rparr>"
proof (induction rs rule: rev_induct)
  case (snoc r rs)
  then show ?case using pushed_snoc [of "map (regs s) rs" "SP s" "ram s" "regs s r"] by (simp add: algebra_simps)
qed simp

lemma pushed_at: "i < length bs \<Longrightarrow> length bs \<le> 2 ^ 16 \<Longrightarrow> pushed p bs m (p - of_nat i) = bs ! i"
  by (simp add: pushed_def unat_of_nat)

definition popped :: "avr_addr \<Rightarrow> (avr_addr \<Rightarrow> avr_byte) \<Rightarrow> nat list \<Rightarrow> (nat \<Rightarrow> avr_byte) \<Rightarrow> nat \<Rightarrow> avr_byte" where
  "popped p m rs g r = (case map_of (zip (rev rs) (rev [0..<length rs])) r of None \<Rightarrow> g r | Some i \<Rightarrow> m (p + 1 + of_nat i))"

lemma run_pops: "run_asm (map POP rs) s = s\<lparr>regs := popped (SP s) (ram s) rs (regs s), SP := SP s + of_nat (length rs)\<rparr>"
proof (induction rs rule: rev_induct)
  case Nil
  have "popped (SP s) (ram s) [] (regs s) = regs s" by (rule ext) (simp add: popped_def)
  then show ?case by simp
next
  case (snoc r rs)
  have "(popped (SP s) (ram s) rs (regs s))(r := ram s (SP s + of_nat (length rs) + 1)) = popped (SP s) (ram s) (rs @ [r]) (regs s)"
    by (rule ext) (simp add: popped_def algebra_simps)
  then show ?case using snoc by (simp add: algebra_simps)
qed

lemma save_state: "run_asm HAL_SAVE_STATE s =
   s\<lparr>ram := pushed (SP s) (map (regs s) [0..<32] @ [SREG s]) (ram s), SP := SP s - 33, regs := (regs s)(0 := SREG s)\<rparr>"
  using run_pushes [of "[0..<32]" s] pushed_snoc [of "map (regs s) [0..<32]" "SP s" "ram s" "SREG s"]
  by (simp add: HAL_SAVE_STATE_def algebra_simps del: upt_rec_numeral)

text \<open>The registers, the status register and the return address in the frame below the stack pointer \<open>p\<close>.\<close>

definition frame_reg :: "(avr_addr \<Rightarrow> avr_byte) \<Rightarrow> avr_addr \<Rightarrow> nat \<Rightarrow> avr_byte" where
  "frame_reg m p r = m (p + 33 - of_nat r)"

definition frame_PC :: "(avr_addr \<Rightarrow> avr_byte) \<Rightarrow> avr_addr \<Rightarrow> avr_addr" where
  "frame_PC m p = push_bit 8 (ucast (m (p + 34))) OR ucast (m (p + 35))"

lemma popped_all: "r < 32 \<Longrightarrow> popped p m (rev [0..<32]) g r = m (p + 32 - of_nat r)"
proof -
  assume r: "r < 32"
  then have "map_of (zip [0..<32] (rev [0..<32])) ([0..<32] ! r) = Some (rev [0..<32] ! r)" by (intro map_of_zip_nth) (simp_all del: upt_rec_numeral)
  then have "map_of (zip [0..<32] (rev [0..<32])) r = Some (31 - r)" using r by (simp add: rev_nth del: upt_rec_numeral)
  moreover have "p + 1 + of_nat (31 - r) = p + 32 - of_nat r" using r by (simp add: of_nat_diff)
  ultimately show ?thesis by (simp only: popped_def rev_rev_ident length_rev length_upt diff_zero option.case)
qed

lemma restore_state:
  "SREG (run_asm HAL_RESTORE_STATE s) = ram s (SP s + 1)" "r < 32 \<Longrightarrow> regs (run_asm HAL_RESTORE_STATE s) r = frame_reg (ram s) (SP s) r"
  "SP (run_asm HAL_RESTORE_STATE s) = SP s + 35" "PC (run_asm HAL_RESTORE_STATE s) = frame_PC (ram s) (SP s)"
  "ram (run_asm HAL_RESTORE_STATE s) = ram s" "contexts (run_asm HAL_RESTORE_STATE s) = contexts s"
  "ActiveStack (run_asm HAL_RESTORE_STATE s) = ActiveStack s" "NextStack (run_asm HAL_RESTORE_STATE s) = NextStack s"
  by (simp_all add: HAL_RESTORE_STATE_def run_pops popped_all frame_reg_def frame_PC_def algebra_simps del: upt_rec_numeral)

text \<open>The bytes that a switch pushes, and those that a switch to a context pops.\<close>

definition save_area :: "avr_state \<Rightarrow> avr_addr set" where
  "save_area s = {SP s - of_nat i |i. i < 33}"

definition frame_area :: "avr_addr \<Rightarrow> avr_addr set" where
  "frame_area p = {p + 1 + of_nat i |i. i < 35}"

lemma pushed_outside: "length bs \<le> 33 \<Longrightarrow> a \<notin> save_area s \<Longrightarrow> pushed (SP s) bs m a = m a"
proof -
  assume l: "length bs \<le> 33" and a: "a \<notin> save_area s"
  have "a = SP s - of_nat (unat (SP s - a))" by simp
  then have "\<not> unat (SP s - a) < 33" using a unfolding save_area_def by blast
  then show ?thesis using l by (simp add: pushed_def)
qed

abbreviation saved_ram :: "avr_state \<Rightarrow> avr_addr \<Rightarrow> avr_byte" where
  "saved_ram s \<equiv> pushed (SP s) (map (regs s) [0..<32] @ [SREG s]) (ram s)"

abbreviation saved_contexts :: "avr_state \<Rightarrow> nat \<Rightarrow> avr_context" where
  "saved_contexts s \<equiv> (contexts s)(ActiveStack s := (contexts s (ActiveStack s))\<lparr>Stack := SP s - 33\<rparr>)"

lemma saved_ram_outside: "x \<notin> save_area s \<Longrightarrow> saved_ram s x = ram s x"
  by (rule pushed_outside) (simp_all del: upt_rec_numeral)

lemma frame_survives:
  assumes "\<forall>x\<in>frame_area p. ram s x = m x" and "save_area s \<inter> frame_area p = {}"
  shows "\<forall>x\<in>frame_area p. saved_ram s x = m x"
proof
  fix x assume x: "x \<in> frame_area p"
  then have "x \<notin> save_area s" using assms(2) by blast
  then show "saved_ram s x = m x" using assms(1) x saved_ram_outside by simp
qed

lemma context_switch:
  "HalContextSwitch_avr s = (let c = saved_contexts s (ActiveStack s) in
     if ASSENDING (Low c) (Stack c) (High c) then
       map_option (\<lambda>b. run_asm HAL_RESTORE_STATE (s\<lparr>ram := saved_ram s, regs := (regs s)(0 := SREG s), contexts := saved_contexts s,
         ActiveStack := b, NextStack := None, SP := Stack (saved_contexts s b)\<rparr>)) (NextStack s)
     else None)"
  by (cases "NextStack s") (simp_all add: HalContextSwitch_avr_def save_state Let_def HAL_SAVE_SP_def HAL_SET_SP_def)

lemma switched:
  assumes "HalContextSwitch_avr s = Some s'" and "NextStack s = Some b"
  shows "ram s' = saved_ram s" "contexts s' = saved_contexts s" "ActiveStack s' = b" "NextStack s' = None"
    "SREG s' = saved_ram s (Stack (saved_contexts s b) + 1)" "r < 32 \<Longrightarrow> regs s' r = frame_reg (saved_ram s) (Stack (saved_contexts s b)) r"
    "SP s' = Stack (saved_contexts s b) + 35" "PC s' = frame_PC (saved_ram s) (Stack (saved_contexts s b))"
  using assms unfolding context_switch Let_def by (auto simp: restore_state simp del: fun_upd_apply split: if_splits)

text \<open>The frame that a switch leaves behind holds the registers, the status register and the return address of the caller.\<close>

lemma saved_frame:
  "r < 32 \<Longrightarrow> frame_reg (saved_ram s) (SP s - 33) r = regs s r" "saved_ram s (SP s - 33 + 1) = SREG s"
  "frame_PC (saved_ram s) (SP s - 33) = push_bit 8 (ucast (ram s (SP s + 1))) OR ucast (ram s (SP s + 2))"
proof -
  let ?bs = "map (regs s) [0..<32] @ [SREG s]"
  have at: "saved_ram s (SP s - of_nat i) = ?bs ! i" if "i < 33" for i using that by (intro pushed_at) (simp_all del: upt_rec_numeral)
  show "frame_reg (saved_ram s) (SP s - 33) r = regs s r" if "r < 32"
    using at [of r] that by (simp add: frame_reg_def nth_append del: upt_rec_numeral)
  show "saved_ram s (SP s - 33 + 1) = SREG s" using at [of 32] by (simp add: nth_append del: upt_rec_numeral)
  have "saved_ram s (1 + SP s) = ram s (1 + SP s)" "saved_ram s (2 + SP s) = ram s (2 + SP s)" by (simp_all add: pushed_def unat_minus_one_addr del: upt_rec_numeral)
  then show "frame_PC (saved_ram s) (SP s - 33) = push_bit 8 (ucast (ram s (SP s + 1))) OR ucast (ram s (SP s + 2))"
    by (simp add: frame_PC_def add.commute del: upt_rec_numeral)
qed

lemma frame_cong:
  assumes "\<forall>a\<in>frame_area p. m' a = m a"
  shows "m' (p + 1) = m (p + 1)" "r < 32 \<Longrightarrow> frame_reg m' p r = frame_reg m p r" "frame_PC m' p = frame_PC m p"
proof -
  have at: "m' (p + 1 + of_nat i) = m (p + 1 + of_nat i)" if "i < 35" for i using assms that by (auto simp: frame_area_def)
  show "m' (p + 1) = m (p + 1)" using at [of 0] by simp
  show "frame_PC m' p = frame_PC m p" using at [of 33] at [of 34] by (simp add: frame_PC_def algebra_simps)
  show "frame_reg m' p r = frame_reg m p r" if "r < 32" using at [of "32 - r"] that by (simp add: frame_reg_def of_nat_diff algebra_simps)
qed

section \<open>New stack frames\<close>

lemma pushed_Cons: "length bs < 2 ^ 16 \<Longrightarrow> pushed p (b # bs) m = pushed (p - 1) bs (m(p := b))"
proof (induction bs rule: rev_induct)
  case Nil
  show ?case using pushed_snoc [of "[]" p m b] by simp
next
  case (snoc c bs)
  then have "pushed p ((b # bs) @ [c]) m = (pushed p (b # bs) m)(p - of_nat (length (b # bs)) := c)" by (intro pushed_snoc [symmetric]) simp
  also have "\<dots> = (pushed (p - 1) bs (m(p := b)))((p - 1) - of_nat (length bs) := c)" using snoc by (simp add: algebra_simps del: fun_upd_apply)
  also have "\<dots> = pushed (p - 1) (bs @ [c]) (m(p := b))" using snoc by (intro pushed_snoc) simp
  finally show ?case by (simp del: fun_upd_apply)
qed

lemma frame_loop_pushed: "reg \<le> 33 \<Longrightarrow> frame_loop reg sp m = (sp - of_nat (33 - reg), pushed (sp - 1) (map of_nat [reg..<33]) m)"
proof (induction reg sp m rule: frame_loop.induct)
  case (1 reg sp m)
  show ?case
  proof (cases "reg < 33")
    case True
    have e: "sp - 1 - of_nat (33 - (reg + 1)) = sp - of_nat (33 - reg)" using True by (simp add: of_nat_diff)
    have "map of_nat [reg..<33] = (of_nat reg # map of_nat [reg + 1..<33] :: avr_byte list)" using True by (simp add: upt_rec del: upt_rec_numeral)
    then have "pushed (sp - 1) (map of_nat [reg..<33]) m = pushed (sp - 1 - 1) (map of_nat [reg + 1..<33]) (m(sp - 1 := of_nat reg))"
      using True by (simp only:) (rule pushed_Cons, simp del: upt_rec_numeral)
    moreover have "frame_loop reg sp m = frame_loop (reg + 1) (sp - 1) (m(sp - 1 := of_nat reg))" using True by (subst frame_loop.simps) (rule if_P)
    ultimately show ?thesis using 1(1) [OF True] True e by (simp only:)
  next
    case False
    then show ?thesis using 1(2) by (subst frame_loop.simps) simp
  qed
qed

lemma bytes_of_address: "push_bit 8 (ucast (ucast (drop_bit 8 w) :: avr_byte)) OR ucast (ucast w :: avr_byte) = (w :: avr_addr)"
  by (rule bit_word_eqI) (auto simp: bit_simps)

lemma new_frame:
  fixes stack stackSize :: avr_addr
  defines "p \<equiv> stack + stackSize - 36"
  assumes "s1 = HalCreateStackFrame_avr c stack stackSize foo s"
  shows "Stack (contexts s1 c) = p" "Low (contexts s1 c) = stack" "High (contexts s1 c) = stack + stackSize"
    "ram s1 (p + 1) = 0" "r < 32 \<Longrightarrow> frame_reg (ram s1) p r = of_nat r" "frame_PC (ram s1) p = foo"
    "a \<notin> frame_area p \<Longrightarrow> ram s1 a = ram s a"
proof -
  let ?bs = "map of_nat [0..<33] :: avr_byte list"
  let ?m0 = "(ram s)(p + 35 := ucast foo, p + 34 := ucast (drop_bit 8 foo))"
  have m: "ram s1 = (pushed (p + 33) ?bs ?m0)(p + 1 := 0)"
    by (simp add: assms(2) HalCreateStackFrame_avr_def Let_def frame_loop_pushed p_def algebra_simps del: upt_rec_numeral)
  show "Stack (contexts s1 c) = p" "Low (contexts s1 c) = stack" "High (contexts s1 c) = stack + stackSize"
    by (simp_all add: assms(2) HalCreateStackFrame_avr_def Let_def frame_loop_pushed p_def algebra_simps del: upt_rec_numeral)
  show "ram s1 (p + 1) = 0" by (simp add: m)
  show "frame_reg (ram s1) p r = of_nat r" if "r < 32"
  proof -
    have "p + 33 - of_nat r \<noteq> p + 1"
    proof
      assume "p + 33 - of_nat r = p + 1"
      then have "of_nat r = (of_nat 32 :: avr_addr)" by (simp add: algebra_simps)
      then have "unat (of_nat r :: avr_addr) = unat (of_nat 32 :: avr_addr)" by simp
      then show False using that by (simp add: unat_of_nat)
    qed
    moreover have "pushed (p + 33) ?bs ?m0 (p + 33 - of_nat r) = ?bs ! r" by (rule pushed_at) (use that in \<open>simp_all del: upt_rec_numeral\<close>)
    ultimately show ?thesis using that by (simp add: frame_reg_def m del: upt_rec_numeral)
  qed
  have "ram s1 (p + 34) = ucast (drop_bit 8 foo)" "ram s1 (p + 35) = ucast foo"
    by (simp_all add: m pushed_def unat_minus_one_addr del: upt_rec_numeral)
  then show "frame_PC (ram s1) p = foo" by (simp add: frame_PC_def bytes_of_address)
  show "ram s1 a = ram s a" if a: "a \<notin> frame_area p"
  proof -
    have out: "a \<noteq> p + 1 + of_nat i" if "i < 35" for i using a that by (auto simp: frame_area_def)
    have "\<not> unat (p + 33 - a) < 33"
    proof
      assume u: "unat (p + 33 - a) < 33"
      have "a = p + 33 - of_nat (unat (p + 33 - a))" by simp
      also have "\<dots> = p + 1 + of_nat (32 - unat (p + 33 - a))" using u by (simp only: of_nat_diff) (simp add: algebra_simps)
      finally show False using out [of "32 - unat (p + 33 - a)"] by simp
    qed
    then show ?thesis using out [of 0] out [of 33] out [of 34] by (simp add: m pushed_def algebra_simps del: upt_rec_numeral)
  qed
qed

text \<open>Two threads: thread 0 runs, and thread 1 has a frame on the stack from 1792 to 2048.\<close>

definition demo_avr :: avr_state where
  "demo_avr = \<lparr>regs = of_nat, SREG = 0x80, SP = 1280, PC = 0, ram = (\<lambda>_. 0),
     contexts = (\<lambda>c. if c = 0 then \<lparr>Flag = 0, Stack = 0, TimesRun = 0, TimesSwitched = 0, High = 1536, Low = 1024\<rparr>
       else \<lparr>Flag = 1, Stack = 1984, TimesRun = 0, TimesSwitched = 0, High = 2048, Low = 1792\<rparr>),
     ActiveStack = 0, NextStack = Some 1, HalWatchdogMask_DDR = 0, DEBUG_SW_DDR = 0, DEBUG_SW_PORT = 0, TCNT0 = 0, TIMSK = 0, TCCR0 = 0,
     UBRR = 0, UCSRB = 0, UCSRC = 0, watchdog = None, wdt_resets = 0\<rparr>"

lemma areas_apart:
  assumes "unat q + 35 < 2 ^ 16" and "32 \<le> unat p" and "unat q + 35 < unat p - 32 \<or> unat p \<le> unat q"
  shows "{p - of_nat i |i. i < 33} \<inter> frame_area q = {}"
proof -
  have "p - of_nat i \<noteq> q + 1 + of_nat j" if "i < 33" "j < 35" for i j
  proof
    assume e: "p - of_nat i = q + 1 + of_nat j"
    have "of_nat i \<le> p" using that(1) assms by (simp add: word_le_nat_alt unat_of_nat)
    then have "unat (p - of_nat i) = unat p - i" using that(1) by (simp add: unat_sub unat_of_nat)
    moreover have "q + 1 + of_nat j = of_nat (unat q + 1 + j)" by simp
    then have "unat (q + 1 + of_nat j) = (unat q + 1 + j) mod 2 ^ 16" by (simp only: unat_of_nat) simp
    then have "unat (q + 1 + of_nat j) = unat q + 1 + j" using that(2) assms(1) by simp
    ultimately show False using e that assms(2,3) by auto
  qed
  then show ?thesis unfolding frame_area_def by blast
qed

section \<open>Properties\<close>

text \<open>
  (C25) On the microcontroller a thread that is switched away from and later switched back to continues as if the switch had
  not happened: when the frame on its stack is still there, and the thread that gives up the processor pushes its own frame
  elsewhere, the switch back restores all 32 registers, the status register with the interrupt flag, and the stack
  pointer, and returns to the caller of \<^verbatim>\<open>HalContextSwitch\<close>; apart from what the other thread pushed, memory is untouched.
  It panics exactly when the saved stack pointer of the thread that gives up the processor is not within its stack.
\<close>

theorem avr_switch_back:
  assumes "HalContextSwitch_avr s = Some s1" and "a = ActiveStack s"
    and "NextStack s2 = Some a" and "ActiveStack s2 \<noteq> a" and "Stack (contexts s2 a) = Stack (contexts s1 a)"
    and "\<forall>x\<in>frame_area (Stack (contexts s1 a)). ram s2 x = ram s1 x" and "save_area s2 \<inter> frame_area (Stack (contexts s1 a)) = {}"
  shows "case HalContextSwitch_avr s2 of
      None \<Rightarrow> \<not> ASSENDING (Low (contexts s2 (ActiveStack s2))) (SP s2 - 33) (High (contexts s2 (ActiveStack s2)))
    | Some s3 \<Rightarrow> ASSENDING (Low (contexts s2 (ActiveStack s2))) (SP s2 - 33) (High (contexts s2 (ActiveStack s2))) \<and>
        (\<forall>r<32. regs s3 r = regs s r) \<and> SREG s3 = SREG s \<and> SP s3 = SP s + 2 \<and>
        PC s3 = push_bit 8 (ucast (ram s (SP s + 1))) OR ucast (ram s (SP s + 2)) \<and> ActiveStack s3 = a \<and>
        (\<forall>x. x \<notin> save_area s2 \<longrightarrow> ram s3 x = ram s2 x)"
proof (cases "HalContextSwitch_avr s2")
  case None
  then show ?thesis using assms(3) by (auto simp: context_switch Let_def split: if_splits)
next
  case (Some s3)
  obtain b where "NextStack s = Some b" using assms(1) by (auto simp: context_switch Let_def split: if_splits)
  note sw = switched [OF assms(1) this]
  have p: "Stack (contexts s1 a) = SP s - 33" using sw(2) assms(2) by simp
  have "\<forall>x\<in>frame_area (SP s - 33). saved_ram s2 x = saved_ram s x" by (rule frame_survives) (use assms(6,7) sw(1) p in simp_all)
  note same = frame_cong [OF this]
  have "Stack (saved_contexts s2 a) = SP s - 33" using assms(4,5) p by simp
  moreover have "ASSENDING (Low (contexts s2 (ActiveStack s2))) (SP s2 - 33) (High (contexts s2 (ActiveStack s2)))"
    using Some by (auto simp: context_switch Let_def split: if_splits)
  ultimately show ?thesis using Some switched [OF Some assms(3)] same saved_frame [where s = s] assms(4) saved_ram_outside by simp
qed

theorem avr_switch_back_witness:
  "\<exists>s1 s3. HalContextSwitch_avr demo_avr = Some s1 \<and> ActiveStack s1 = 1 \<and> HalContextSwitch_avr (s1\<lparr>NextStack := Some 0\<rparr>) = Some s3 \<and>
     (\<forall>r<32. regs s3 r = of_nat r) \<and> SREG s3 = 0x80 \<and> SP s3 = 1282 \<and> ActiveStack s3 = 0"
proof -
  obtain s1 where s1: "HalContextSwitch_avr demo_avr = Some s1"
    by (simp add: context_switch Let_def demo_avr_def ASSENDING_def)
  have sw: "contexts s1 0 = \<lparr>Flag = 0, Stack = 1247, TimesRun = 0, TimesSwitched = 0, High = 1536, Low = 1024\<rparr>" "contexts s1 1 = \<lparr>Flag = 1, Stack = 1984, TimesRun = 0, TimesSwitched = 0, High = 2048, Low = 1792\<rparr>" "ActiveStack s1 = 1" "SP s1 = 2019"
    using switched [OF s1, of 1] by (simp_all add: demo_avr_def)
  let ?s2 = "s1\<lparr>NextStack := Some 0\<rparr>"
  have "save_area ?s2 \<inter> frame_area (Stack (contexts s1 0)) = {}" using areas_apart [of 1247 2019] sw by (simp add: save_area_def)
  then have "case HalContextSwitch_avr ?s2 of
      None \<Rightarrow> \<not> ASSENDING (Low (contexts ?s2 (ActiveStack ?s2))) (SP ?s2 - 33) (High (contexts ?s2 (ActiveStack ?s2)))
    | Some s3 \<Rightarrow> ASSENDING (Low (contexts ?s2 (ActiveStack ?s2))) (SP ?s2 - 33) (High (contexts ?s2 (ActiveStack ?s2))) \<and>
        (\<forall>r<32. regs s3 r = regs demo_avr r) \<and> SREG s3 = SREG demo_avr \<and> SP s3 = SP demo_avr + 2 \<and>
        PC s3 = push_bit 8 (ucast (ram demo_avr (SP demo_avr + 1))) OR ucast (ram demo_avr (SP demo_avr + 2)) \<and> ActiveStack s3 = 0 \<and>
        (\<forall>x. x \<notin> save_area ?s2 \<longrightarrow> ram s3 x = ram ?s2 x)"
    by (intro avr_switch_back [OF s1]) (simp_all add: sw(3) demo_avr_def)
  then show ?thesis using s1 sw by (auto simp: ASSENDING_def demo_avr_def split: option.splits)
qed

text \<open>
  (C26) Creating a stack frame writes inside the stack that it is given and nowhere else, provided that the stack has room for 36
  bytes and does not wrap around the end of memory; the context it makes passes the overflow check of the context switch. The first
  switch to it starts the routine with an empty stack, with interrupts disabled and with the number of each register in that register.
\<close>

theorem avr_new_thread:
  assumes "s1 = HalCreateStackFrame_avr c stack stackSize foo s" and "36 \<le> unat stackSize" and "unat stack + unat stackSize < 2 ^ 16"
  shows "(\<forall>x. unat x < unat stack \<or> unat stack + unat stackSize \<le> unat x \<longrightarrow> ram s1 x = ram s x) \<and>
    ASSENDING (Low (contexts s1 c)) (Stack (contexts s1 c)) (High (contexts s1 c)) \<and>
    (\<forall>s2 s3. HalContextSwitch_avr s2 = Some s3 \<and> NextStack s2 = Some c \<and> ActiveStack s2 \<noteq> c \<and> contexts s2 c = contexts s1 c \<and>
       (\<forall>x\<in>frame_area (Stack (contexts s1 c)). ram s2 x = ram s1 x) \<and> save_area s2 \<inter> frame_area (Stack (contexts s1 c)) = {} \<longrightarrow>
       PC s3 = foo \<and> SP s3 = stack + stackSize - 1 \<and> SREG s3 = 0 \<and> (\<forall>r<32. regs s3 r = of_nat r))"
proof (intro conjI allI impI)
  note frame = new_frame [OF assms(1)]
  have u: "unat (stack + stackSize) = unat stack + unat stackSize" using assms(3) by (simp add: unat_word_ariths)
  have "36 \<le> stack + stackSize" using u assms(2) by (simp add: word_le_nat_alt)
  then have p: "unat (stack + stackSize - 36) = unat stack + unat stackSize - 36" using u by (simp add: unat_sub)
  show "ram s1 x = ram s x" if x: "unat x < unat stack \<or> unat stack + unat stackSize \<le> unat x" for x
  proof (rule frame(7))
    have "unat (stack + stackSize - 36 + 1 + of_nat i) = unat stack + unat stackSize - 35 + i" if "i < 35" for i
    proof -
      have "stack + stackSize - 36 + 1 + of_nat i = of_nat (unat stack + unat stackSize - 35 + i)"
        using assms(2) by (simp add: of_nat_diff)
      moreover have "unat stack + unat stackSize - 35 + i < 2 ^ 16" using that assms(2,3) by simp
      ultimately show ?thesis by (simp only: unat_of_nat) simp
    qed
    then show "x \<notin> frame_area (stack + stackSize - 36)" using x assms(2) by (fastforce simp: frame_area_def)
  qed
  show "ASSENDING (Low (contexts s1 c)) (Stack (contexts s1 c)) (High (contexts s1 c))"
    using frame(1-3) p u assms(2) by (simp add: ASSENDING_def word_le_nat_alt)
  fix s2 s3
  assume a: "HalContextSwitch_avr s2 = Some s3 \<and> NextStack s2 = Some c \<and> ActiveStack s2 \<noteq> c \<and> contexts s2 c = contexts s1 c \<and>
    (\<forall>x\<in>frame_area (Stack (contexts s1 c)). ram s2 x = ram s1 x) \<and> save_area s2 \<inter> frame_area (Stack (contexts s1 c)) = {}"
  have "\<forall>x\<in>frame_area (Stack (contexts s1 c)). saved_ram s2 x = ram s1 x" by (rule frame_survives) (use a in blast)+
  note same = frame_cong [OF this]
  note sw = switched [of s2 s3 c]
  show "PC s3 = foo" "SP s3 = stack + stackSize - 1" "SREG s3 = 0" using a sw same frame(1,4,6) by simp_all
  show "regs s3 r = of_nat r" if "r < 32" for r using a sw(6) same(2) frame(1,5) that by simp
qed

theorem avr_new_thread_witness:
  "\<exists>s3. HalContextSwitch_avr (HalCreateStackFrame_avr 1 1792 256 0x1234 demo_avr) = Some s3 \<and> PC s3 = 0x1234 \<and> SP s3 = 2047 \<and> SREG s3 = 0"
proof -
  define s1 where "s1 = HalCreateStackFrame_avr 1 1792 256 0x1234 demo_avr"
  have k: "ActiveStack s1 = 0" "NextStack s1 = Some 1" "SP s1 = 1280" "contexts s1 0 = contexts demo_avr 0"
    by (simp_all add: s1_def HalCreateStackFrame_avr_def Let_def frame_loop_pushed demo_avr_def del: upt_rec_numeral)
  have st: "Stack (contexts s1 1) = 2012" by (simp add: s1_def HalCreateStackFrame_avr_def Let_def frame_loop_pushed del: upt_rec_numeral)
  obtain s3 where s3: "HalContextSwitch_avr s1 = Some s3"
    using k by (simp add: context_switch Let_def ASSENDING_def) (simp add: demo_avr_def)
  have "{1280 - of_nat i |i. i < 33} \<inter> frame_area 2012 = {}" by (rule areas_apart) simp_all
  then have "save_area s1 \<inter> frame_area (Stack (contexts s1 1)) = {}" using k(3) st by (auto simp: save_area_def)
  then have "PC s3 = 0x1234 \<and> SP s3 = 1792 + 256 - 1 \<and> SREG s3 = 0 \<and> (\<forall>r<32. regs s3 r = of_nat r)"
    by (intro avr_new_thread [OF s1_def, THEN conjunct2, THEN conjunct2, THEN spec, THEN spec, THEN mp, of s1]) (use s3 k in simp_all)
  then show ?thesis using s3 by (simp add: s1_def)
qed

text \<open>The period of each setting, in milliseconds.\<close>

primrec period :: "wdto \<Rightarrow> int" where
  "period WDTO_15MS = 15"
| "period WDTO_30MS = 30"
| "period WDTO_60MS = 60"
| "period WDTO_120MS = 120"
| "period WDTO_250MS = 250"
| "period WDTO_500MS = 500"
| "period WDTO_1S = 1000"
| "period WDTO_2S = 2000"

lemma avr_watchdog_period:
  "\<exists>w. watchdog (HalEnableWatchdog_avr timeout s) = Some w \<and> min timeout 2000 \<le> period w \<and> (\<forall>v. min timeout 2000 \<le> period v \<longrightarrow> period w \<le> period v)"
proof -
  have c: "\<forall>v. t \<le> period v \<longrightarrow> k \<le> period v" if "\<forall>v\<in>{WDTO_15MS, WDTO_30MS, WDTO_60MS, WDTO_120MS, WDTO_250MS, WDTO_500MS, WDTO_1S, WDTO_2S}. t \<le> period v \<longrightarrow> k \<le> period v" for t k
  proof
    fix v show "t \<le> period v \<longrightarrow> k \<le> period v" by (cases v) (use that in auto)
  qed
  show ?thesis unfolding HalEnableWatchdog_avr_def by (auto intro!: c)
qed

end
